(* ===== verification/Prelude.thy ===== *)
theory Prelude
  imports Complex_Main "HOL-Library.Multiset" "HOL-Library.List_Lexorder" "HOL-Library.Char_ord"
    "HOL-Library.Product_Lexorder" "HOL-Library.AList"
begin

text \<open>
  What every component shares: Python exceptions as values, the result type of code that
  may raise, dictionaries that keep insertion order, Python slicing, and generic facts on
  sums, permutations and ordered dictionaries.
\<close>

section \<open>Exceptions and results\<close>

text \<open>
  One constructor per exception class the modelled code raises (an \<open>assert\<close> raises
  \<open>AssertionError\<close>). Messages are not modelled.
\<close>

datatype py_error =
    AssertionError
  | ValueError
  | IndexError
  | KeyError
  | TypeError
  | AttributeError
  | RuntimeError
  | ImportError
  | NotImplementedError
  | ZeroDivisionError

type_synonym 'a result = "py_error + 'a"

definition res_bind :: "'a result \<Rightarrow> ('a \<Rightarrow> 'b result) \<Rightarrow> 'b result" where
  "res_bind m f = (case m of Inl e \<Rightarrow> Inl e | Inr x \<Rightarrow> f x)"

definition py_assert :: "bool \<Rightarrow> unit result" where
  "py_assert b = (if b then Inr () else Inl AssertionError)"

text \<open>A loop that collects results and stops at the first exception.\<close>

fun res_map :: "('a \<Rightarrow> 'b result) \<Rightarrow> 'a list \<Rightarrow> 'b list result" where
  "res_map f [] = Inr []"
| "res_map f (x # xs) =
     res_bind (f x) (\<lambda>y. res_bind (res_map f xs) (\<lambda>ys. Inr (y # ys)))"

named_theorems res_simps \<open>evaluation of the result monad\<close>

lemma res_bind_Inl [simp, res_simps]: "res_bind (Inl e) f = Inl e"
  by (simp add: res_bind_def)

lemma res_bind_Inr [simp, res_simps]: "res_bind (Inr x) f = f x"
  by (simp add: res_bind_def)

lemma res_bind_eq_Inr [res_simps]: "res_bind m f = Inr y \<longleftrightarrow> (\<exists>x. m = Inr x \<and> f x = Inr y)"
  by (cases m) auto

lemma res_bind_eq_Inl [res_simps]:
  "res_bind m f = Inl e \<longleftrightarrow> m = Inl e \<or> (\<exists>x. m = Inr x \<and> f x = Inl e)"
  by (cases m) auto

lemma res_bind_cong [fundef_cong]:
  "m = m' \<Longrightarrow> (\<And>x. m' = Inr x \<Longrightarrow> f x = f' x) \<Longrightarrow> res_bind m f = res_bind m' f'"
  by (cases m') auto

lemma py_assert_True [simp, res_simps]: "py_assert True = Inr ()"
  by (simp add: py_assert_def)

lemma py_assert_False [simp, res_simps]: "py_assert False = Inl AssertionError"
  by (simp add: py_assert_def)

lemma py_assert_eq_Inr [res_simps]: "py_assert b = Inr u \<longleftrightarrow> b"
  by (simp add: py_assert_def)

lemma py_assert_eq_Inl [res_simps]: "py_assert b = Inl e \<longleftrightarrow> \<not> b \<and> e = AssertionError"
  by (auto simp: py_assert_def)

text \<open>A loop that updates a state and stops at the first exception.\<close>

fun res_fold :: "('a \<Rightarrow> 's \<Rightarrow> 's result) \<Rightarrow> 'a list \<Rightarrow> 's \<Rightarrow> 's result" where
  "res_fold f [] s = Inr s"
| "res_fold f (x # xs) s = res_bind (f x s) (res_fold f xs)"

lemma res_fold_append: "res_fold f (xs @ ys) s = res_bind (res_fold f xs s) (res_fold f ys)"
proof (induction xs arbitrary: s)
  case Nil
  then show ?case by simp
next
  case (Cons x xs)
  then show ?case by (cases "f x s") auto
qed

text \<open>A loop invariant over the consumed prefix.\<close>

lemma res_fold_invariant:
  assumes init: "I [] s"
    and step: "\<And>pre x post s. xs = pre @ x # post \<Longrightarrow> I pre s \<Longrightarrow> \<exists>s'. f x s = Inr s' \<and> I (pre @ [x]) s'"
  shows "\<exists>s'. res_fold f xs s = Inr s' \<and> I xs s'"
proof -
  have "\<exists>s'. res_fold f ys s = Inr s' \<and> I ys s'" if "\<exists>zs. xs = ys @ zs" for ys
    using that
  proof (induction ys rule: rev_induct)
    case Nil
    with init show ?case by simp
  next
    case (snoc y ys)
    then obtain s1 where "res_fold f ys s = Inr s1" "I ys s1" by force
    moreover from snoc.prems obtain zs where "xs = ys @ y # zs" by auto
    ultimately show ?case using step[of ys y zs s1] by (auto simp: res_fold_append res_bind_eq_Inr)
  qed
  then show ?thesis by simp
qed

lemma res_map_all_Inr: "(\<And>x. x \<in> set xs \<Longrightarrow> f x = Inr (g x)) \<Longrightarrow> res_map f xs = Inr (map g xs)"
  by (induction xs) auto

lemma res_map_Inr_iff:
  "res_map f xs = Inr ys \<longleftrightarrow> length ys = length xs \<and> (\<forall>i < length xs. f (xs ! i) = Inr (ys ! i))"
proof (induction xs arbitrary: ys)
  case Nil
  then show ?case by auto
next
  case (Cons x xs)
  show ?case
    by (cases ys) (auto simp: res_bind_eq_Inr Cons.IH nth_Cons split: nat.splits)
qed

section \<open>Dictionaries in insertion order\<close>

text \<open>
  A Python \<open>dict\<close> is an association list with distinct keys, in insertion order:
  \<open>AList.update\<close> overwrites in place and appends a new key at the end,
  \<open>AList.delete\<close> removes, \<open>map_of\<close> looks up. \<open>dict_get\<close> is \<open>d.get(k, default)\<close>.
\<close>

type_synonym ('k, 'v) dict = "('k \<times> 'v) list"

definition dict_get :: "('k, 'v) dict \<Rightarrow> 'k \<Rightarrow> 'v \<Rightarrow> 'v" where
  "dict_get d k v = (case map_of d k of None \<Rightarrow> v | Some w \<Rightarrow> w)"

definition dict_wf :: "('k, 'v) dict \<Rightarrow> bool" where
  "dict_wf d = distinct (map fst d)"

lemma dict_wf_update [simp, intro]: "dict_wf d \<Longrightarrow> dict_wf (AList.update k v d)"
  by (simp add: dict_wf_def distinct_update)

lemma dict_wf_delete [simp, intro]: "dict_wf d \<Longrightarrow> dict_wf (AList.delete k d)"
  by (simp add: dict_wf_def distinct_delete)

lemma dict_wf_Nil [simp]: "dict_wf []"
  by (simp add: dict_wf_def)

lemma map_of_update [simp]: "map_of (AList.update k v d) = (map_of d)(k \<mapsto> v)"
  by (rule update_conv')

lemma map_of_delete [simp]: "map_of (AList.delete k d) = (map_of d)(k := None)"
  by (rule delete_conv')

lemma dict_get_update: "dict_get (AList.update k v d) k' w = (if k' = k then v else dict_get d k' w)"
  by (simp add: dict_get_def)

lemma dict_wf_map_of: "dict_wf d \<Longrightarrow> (k, v) \<in> set d \<longleftrightarrow> map_of d k = Some v"
  by (auto simp: dict_wf_def)

lemma update_new: "k \<notin> fst ` set d \<Longrightarrow> AList.update k v d = d @ [(k, v)]"
  by (induction d) auto

text \<open>\<open>dict.update\<close> with keys the dictionary does not have appends the entries.\<close>

lemma fold_update_new:
  "dict_wf xs \<Longrightarrow> fst ` set xs \<inter> fst ` set ys = {} \<Longrightarrow> fold (\<lambda>(k, v). AList.update k v) xs ys = ys @ xs"
proof (induction xs arbitrary: ys)
  case (Cons x xs)
  obtain k v where x: "x = (k, v)" by (cases x)
  with Cons.prems have "AList.update k v ys = ys @ [(k, v)]" by (intro update_new) auto
  with Cons x show ?case by (auto simp: dict_wf_def)
qed simp

lemma dict_get_update_same [simp]: "dict_get (AList.update k v d) k w = v"
  by (simp add: dict_get_update)

lemma dict_get_update_other [simp]: "k' \<noteq> k \<Longrightarrow> dict_get (AList.update k v d) k' w = dict_get d k' w"
  by (simp add: dict_get_update)

lemma dict_get_Nil [simp]: "dict_get [] k w = w"
  by (simp add: dict_get_def)

text \<open>\<open>d[k]\<close>, which raises for a missing key.\<close>

definition dict_index :: "('k, 'v) dict \<Rightarrow> 'k \<Rightarrow> 'v result" where
  "dict_index d k = (case map_of d k of None \<Rightarrow> Inl KeyError | Some v \<Rightarrow> Inr v)"

section \<open>Python slices and indices\<close>

text \<open>\<open>xs[a:b]\<close> for \<open>0 \<le> a, b\<close>, \<open>xs[-n:]\<close> and \<open>xs[:-n]\<close>: out-of-range bounds are clipped.\<close>

definition slice :: "nat \<Rightarrow> nat \<Rightarrow> 'a list \<Rightarrow> 'a list" where
  "slice a b xs = drop a (take b xs)"

definition slice_from_end :: "nat \<Rightarrow> 'a list \<Rightarrow> 'a list" where
  "slice_from_end n xs = (if n = 0 then xs else drop (length xs - n) xs)"

definition slice_to_end :: "nat \<Rightarrow> 'a list \<Rightarrow> 'a list" where
  "slice_to_end n xs = (if n = 0 then [] else take (length xs - n) xs)"

text \<open>\<open>xs[::n]\<close> for a positive step \<open>n\<close>.\<close>

fun stride :: "nat \<Rightarrow> 'a list \<Rightarrow> 'a list" where
  "stride n [] = []"
| "stride n (x # xs) = x # stride n (drop (n - 1) xs)"

text \<open>\<open>sorted(xs, key=..., reverse=True)\<close>: decreasing keys, stable on ties.\<close>

definition py_sort_desc :: "('a \<Rightarrow> 'b :: linorder) \<Rightarrow> 'a list \<Rightarrow> 'a list" where
  "py_sort_desc key xs = rev (sort_key key (rev xs))"

lemma mset_py_sort_desc [simp]: "mset (py_sort_desc key xs) = mset xs"
  by (simp add: py_sort_desc_def)

lemma set_py_sort_desc [simp]: "set (py_sort_desc key xs) = set xs"
  by (simp add: py_sort_desc_def)

lemma length_py_sort_desc [simp]: "length (py_sort_desc key xs) = length xs"
  by (simp add: py_sort_desc_def)

lemma py_sort_desc_sorted: "sorted_wrt (\<lambda>a b. key a \<ge> key b) (py_sort_desc key xs)"
proof -
  have "sorted (map key (sort_key key (rev xs)))" by (rule sorted_sort_key)
  then show ?thesis by (simp add: py_sort_desc_def sorted_wrt_rev sorted_wrt_map)
qed

text \<open>\<open>xs[i]\<close> for a non-negative \<open>i\<close>.\<close>

definition py_nth :: "'a list \<Rightarrow> nat \<Rightarrow> 'a result" where
  "py_nth xs i = (if i < length xs then Inr (xs ! i) else Inl IndexError)"

lemma py_nth_Inr [simp]: "i < length xs \<Longrightarrow> py_nth xs i = Inr (xs ! i)"
  by (simp add: py_nth_def)

text \<open>\<open>key.endswith(s)\<close> and \<open>s in key\<close>.\<close>

definition ends_with :: "string \<Rightarrow> string \<Rightarrow> bool" where
  "ends_with s key \<longleftrightarrow> length s \<le> length key \<and> drop (length key - length s) key = s"

fun str_contains :: "string \<Rightarrow> string \<Rightarrow> bool" where
  "str_contains s [] = (s = [])"
| "str_contains s (c # cs) = (take (length s) (c # cs) = s \<or> str_contains s cs)"

section \<open>Sums, extrema and permutations\<close>

lemma mset_eq_upt_iff: "mset xs = mset [0..<n] \<longleftrightarrow> distinct xs \<and> set xs = {0..<n}"
  by (metis atLeastLessThan_upt distinct_upt mset_eq_setD mset_eq_imp_distinct_iff set_eq_iff_mset_eq_distinct)

lemma mset_concat_map: "mset (concat (map f xs)) = (\<Sum>x \<in># mset xs. mset (f x))"
  by (induction xs) auto

lemma sort_eq_Nil [simp]: "sort xs = [] \<longleftrightarrow> xs = []"
  by (metis length_0_conv length_sort)

lemma Nil_eq_sort [simp]: "[] = sort xs \<longleftrightarrow> xs = []"
  by (metis sort_eq_Nil)

lemma sum_list_mset_eq: "mset xs = mset ys \<Longrightarrow> sum_list xs = (sum_list ys :: 'a :: comm_monoid_add)"
  by (metis sum_mset_sum_list)

lemma sum_list_map_mset_eq:
  "mset xs = mset ys \<Longrightarrow> sum_list (map f xs) = (sum_list (map f ys) :: 'a :: comm_monoid_add)"
  by (metis mset_map sum_list_mset_eq)

section \<open>Numbers in names\<close>

fun show_nat :: "nat \<Rightarrow> string" where
  "show_nat n = (if n < 10 then [char_of (48 + n)] else show_nat (n div 10) @ [char_of (48 + n mod 10)])"

declare show_nat.simps [simp del]

text \<open>
  \<open>int(s)\<close> for decimal digits; what else \<open>int\<close> accepts (signs, blanks, underscores) is never written by the program.
\<close>

definition digit_of :: "char \<Rightarrow> nat option" where
  "digit_of c = (let n = of_char c in if 48 \<le> n \<and> n \<le> 57 then Some (n - 48) else None)"

fun digits_value :: "nat \<Rightarrow> string \<Rightarrow> nat option" where
  "digits_value acc [] = Some acc"
| "digits_value acc (c # cs) = (case digit_of c of None \<Rightarrow> None | Some d \<Rightarrow> digits_value (10 * acc + d) cs)"

definition py_int :: "string \<Rightarrow> nat result" where
  "py_int s = (if s = [] then Inl ValueError else case digits_value 0 s of None \<Rightarrow> Inl ValueError | Some n \<Rightarrow> Inr n)"

lemma show_nat_ne [simp]: "show_nat n \<noteq> []"
  by (subst show_nat.simps) simp

lemma digit_of_char: "d < 10 \<Longrightarrow> digit_of (char_of (48 + d)) = Some d"
  by (simp add: digit_of_def of_char_of take_bit_eq_mod)

lemma digits_value_append:
  "digits_value acc (xs @ ys) = (case digits_value acc xs of None \<Rightarrow> None | Some v \<Rightarrow> digits_value v ys)"
  by (induction xs arbitrary: acc) (auto split: option.splits)

lemma digits_value_show: "digits_value 0 (show_nat n) = Some n"
proof (induction n rule: show_nat.induct)
  case (1 n)
  show ?case
  proof (cases "n < 10")
    case True
    then show ?thesis by (subst show_nat.simps) (simp add: digit_of_char)
  next
    case False
    then have "digits_value 0 (show_nat (n div 10)) = Some (n div 10)" by (rule 1)
    with False show ?thesis by (subst show_nat.simps) (simp add: digits_value_append digit_of_char)
  qed
qed

lemma py_int_show [simp]: "py_int (show_nat n) = Inr n"
  by (simp add: py_int_def digits_value_show)

lemma show_nat_inj [simp]: "show_nat m = show_nat n \<longleftrightarrow> m = n"
  by (metis digits_value_show option.inject)

lemma show_nat_digits: "c \<in> set (show_nat n) \<Longrightarrow> digit_of c \<noteq> None"
proof (induction n rule: show_nat.induct)
  case (1 n)
  show ?case
  proof (cases "n < 10")
    case True
    with 1(2) show ?thesis by (subst (asm) show_nat.simps) (simp add: digit_of_char)
  next
    case False
    with 1 show ?thesis by (subst (asm) (2) show_nat.simps) (auto simp: digit_of_char)
  qed
qed

end
