(* ===== verification/Karmarkar_Karp.thy ===== *)
theory Karmarkar_Karp
  imports Prelude
begin

text \<open>
  The partitioners of \<open>verl/utils/seqlen_balancing.py\<close>: the Karmarkar-Karp differencing
  method (classes \<open>Set\<close> and \<open>State\<close> and the priority queue of \<open>karmarkar_karp\<close>), the
  greedy partitioner, and the checked wrapper \<open>get_seqlen_balanced_partitions\<close>.
  The state of the algorithm is a priority queue of \<open>State\<close>s; every item is an index with
  its value. Number of partitions and indices are \<open>nat\<close>, values are unbounded \<open>int\<close>.
\<close>

section \<open>Sets and states\<close>

datatype kk_set = KK_Set (set_sum: int) (set_items: "(nat \<times> int) list")

definition kk_set_empty :: kk_set where
  "kk_set_empty = KK_Set 0 []"

definition kk_set_add :: "nat \<Rightarrow> int \<Rightarrow> kk_set \<Rightarrow> kk_set" where
  "kk_set_add idx val s = KK_Set (set_sum s + val) (set_items s @ [(idx, val)])"

definition kk_set_merge :: "kk_set \<Rightarrow> kk_set \<Rightarrow> kk_set" where
  "kk_set_merge s other = fold (\<lambda>(idx, val) acc. kk_set_add idx val acc) (set_items other) s"

definition kk_set_lt :: "kk_set \<Rightarrow> kk_set \<Rightarrow> bool" where
  "kk_set_lt s other =
     (if set_sum s \<noteq> set_sum other then set_sum s < set_sum other
      else if length (set_items s) \<noteq> length (set_items other)
        then length (set_items s) < length (set_items other)
      else set_items s < set_items other)"

text \<open>The comparison is a linear order, so \<open>sorted(sets, reverse=True)\<close> is \<open>rev (sort sets)\<close>.\<close>

instantiation kk_set :: linorder
begin

definition less_kk_set :: "kk_set \<Rightarrow> kk_set \<Rightarrow> bool" where
  "less_kk_set s t = kk_set_lt s t"

definition less_eq_kk_set :: "kk_set \<Rightarrow> kk_set \<Rightarrow> bool" where
  "less_eq_kk_set s t = (kk_set_lt s t \<or> s = t)"

instance
proof
  fix x y z :: kk_set
  show "x < y \<longleftrightarrow> x \<le> y \<and> \<not> y \<le> x"
    by (auto simp: less_kk_set_def less_eq_kk_set_def kk_set_lt_def split: if_splits)
  show "x \<le> x"
    by (simp add: less_eq_kk_set_def)
  show "x \<le> z" if "x \<le> y" "y \<le> z"
    using that by (auto simp: less_eq_kk_set_def kk_set_lt_def split: if_splits)
  show "x = y" if "x \<le> y" "y \<le> x"
    using that by (auto simp: less_eq_kk_set_def kk_set_lt_def split: if_splits)
  show "x \<le> y \<or> y \<le> x"
    by (cases x; cases y) (auto simp: less_eq_kk_set_def kk_set_lt_def)
qed

end

record kk_state =
  kk_k :: nat
  kk_sets :: "kk_set list"

definition kk_state_init :: "(nat \<times> int) list \<Rightarrow> nat \<Rightarrow> kk_state result" where
  "kk_state_init items k =
     res_bind (py_assert (length items = 1 \<or> length items = k)) (\<lambda>_.
       if k < length items then Inl IndexError
       else Inr \<lparr>kk_k = k,
         kk_sets = rev (sort (map (\<lambda>(idx, seqlen). kk_set_add idx seqlen kk_set_empty) items
                              @ replicate (k - length items) kk_set_empty))\<rparr>)"

definition kk_get_partitions :: "kk_state \<Rightarrow> nat list list" where
  "kk_get_partitions s = map (\<lambda>S. map fst (set_items S)) (kk_sets s)"

definition kk_state_merge :: "kk_state \<Rightarrow> kk_state \<Rightarrow> kk_state" where
  "kk_state_merge s other =
     s\<lparr>kk_sets := rev (sort (map (\<lambda>i. kk_set_merge (kk_sets s ! i) (kk_sets other ! (kk_k s - 1 - i)))
                                 [0..<kk_k s]))\<rparr>"

definition kk_spread :: "kk_state \<Rightarrow> int" where
  "kk_spread s = set_sum (hd (kk_sets s)) - set_sum (last (kk_sets s))"

definition kk_state_lt :: "kk_state \<Rightarrow> kk_state \<Rightarrow> bool" where
  "kk_state_lt s other =
     (if kk_spread s \<noteq> kk_spread other then kk_spread s > kk_spread other
      else hd (kk_sets s) > hd (kk_sets other))"

section \<open>The priority queue\<close>

text \<open>
  What \<open>heapq\<close> does on the list \<open>states_pq\<close>: a push adds the element, a pop removes an
  element no other is smaller than and raises \<open>IndexError\<close> on the empty list. The queue
  is the list of its elements; the array order of the binary heap is not observed.
\<close>

fun heap_min :: "('a \<Rightarrow> 'a \<Rightarrow> bool) \<Rightarrow> 'a \<Rightarrow> 'a list \<Rightarrow> 'a" where
  "heap_min lt m [] = m"
| "heap_min lt m (x # xs) = heap_min lt (if lt x m then x else m) xs"

definition heappush :: "'a \<Rightarrow> 'a list \<Rightarrow> 'a list" where
  "heappush x h = h @ [x]"

fun heappop :: "('a \<Rightarrow> 'a \<Rightarrow> bool) \<Rightarrow> 'a list \<Rightarrow> ('a \<times> 'a list) result" where
  "heappop lt [] = Inl IndexError"
| "heappop lt (x # xs) = (let m = heap_min lt x xs in Inr (m, remove1 m (x # xs)))"

lemma heap_min_in: "heap_min lt m xs \<in> insert m (set xs)"
  by (induction xs arbitrary: m) (auto split: if_splits)

lemma heappop_cases:
  assumes "h \<noteq> []"
  obtains x h' where "heappop lt h = Inr (x, h')" "mset h = add_mset x (mset h')"
    "length h = Suc (length h')"
proof -
  from assms obtain y ys where h: "h = y # ys" by (cases h) auto
  let ?m = "heap_min lt y ys"
  have m: "?m \<in> set h" using heap_min_in[of lt y ys] h by simp
  show thesis
  proof (rule that[of ?m "remove1 ?m h"])
    show "heappop lt h = Inr (?m, remove1 ?m h)" using h by (simp add: Let_def)
    show "mset h = add_mset ?m (mset (remove1 ?m h))" using m by simp
    show "length h = Suc (length (remove1 ?m h))"
      using m by (metis One_nat_def Suc_pred length_pos_if_in_set length_remove1)
  qed
qed

lemma heappop_length: "heappop lt h = Inr (x, h') \<Longrightarrow> length h = Suc (length h')"
  by (cases "h = []") (auto elim: heappop_cases[of h lt])

section \<open>The algorithm\<close>

text \<open>The loop \<open>while len(states_pq) > 1\<close>.\<close>

function kk_reduce :: "kk_state list \<Rightarrow> kk_state list result" where
  "kk_reduce pq =
     (if length pq > 1 then
        res_bind (heappop kk_state_lt pq) (\<lambda>(state0, pq1).
        res_bind (heappop kk_state_lt pq1) (\<lambda>(state1, pq2).
          kk_reduce (heappush (kk_state_merge state0 state1) pq2)))
      else Inr pq)"
  by pat_completeness auto
termination
  by (relation "measure length") (auto simp: heappush_def dest!: heappop_length)

declare kk_reduce.simps [simp del]

definition kk_sorted_items :: "int list \<Rightarrow> (nat \<times> int) list" where
  "kk_sorted_items seqlens =
     map (\<lambda>(seqlen, idx). (idx, seqlen)) (sort (zip seqlens [0..<length seqlens]))"

text \<open>The item groups pushed as the initial states: chunks of \<open>k\<close>, or singletons.\<close>

definition kk_initial_groups :: "int list \<Rightarrow> nat \<Rightarrow> bool \<Rightarrow> (nat \<times> int) list list result" where
  "kk_initial_groups seqlens k equal_size =
     (if equal_size then
        (if k = 0 then Inl ZeroDivisionError
         else res_bind (py_assert (length seqlens mod k = 0)) (\<lambda>_.
           Inr (map (\<lambda>j. take k (drop (j * k) (kk_sorted_items seqlens))) [0..<length seqlens div k])))
      else Inr (map (\<lambda>x. [x]) (kk_sorted_items seqlens)))"

definition karmarkar_karp :: "int list \<Rightarrow> nat \<Rightarrow> bool \<Rightarrow> nat list list result" where
  "karmarkar_karp seqlens k equal_size =
     res_bind (kk_initial_groups seqlens k equal_size) (\<lambda>groups.
     res_bind (res_map (\<lambda>items. kk_state_init items k) groups) (\<lambda>states.
     res_bind (kk_reduce (fold heappush states [])) (\<lambda>pq.
     res_bind (py_nth pq 0) (\<lambda>final_state.
       let partitions = kk_get_partitions final_state in
       res_bind (py_assert (\<not> equal_size \<or>
                   (\<forall>p \<in> set partitions. length p * k = length seqlens))) (\<lambda>_.
         Inr partitions)))))"

text \<open>\<open>_check_and_sort_partitions\<close> and its caller.\<close>

definition check_and_sort_partitions :: "nat \<Rightarrow> nat \<Rightarrow> nat list list \<Rightarrow> nat list list result" where
  "check_and_sort_partitions n k partitions =
     res_bind (py_assert (length partitions = k)) (\<lambda>_.
     res_bind (py_assert (\<forall>p \<in> set partitions. length p > 0)) (\<lambda>_.
     res_bind (py_assert (\<Union> (set (map set partitions)) = set [0..<n])) (\<lambda>_.
       Inr (map sort partitions))))"

definition get_seqlen_balanced_partitions :: "int list \<Rightarrow> nat \<Rightarrow> bool \<Rightarrow> nat list list result" where
  "get_seqlen_balanced_partitions seqlens k equal_size =
     res_bind (py_assert (length seqlens \<ge> k)) (\<lambda>_.
     res_bind (karmarkar_karp seqlens k equal_size) (\<lambda>partitions.
       check_and_sort_partitions (length seqlens) k partitions))"

section \<open>The interface of the reduction loop\<close>

text \<open>
  The loop relies on the queue only through these laws: a push adds one element, a pop of a
  non-empty queue hands out one of its elements. Whatever is closed under merging then holds
  of the one state left, and every additive measure of the states is preserved.
\<close>

locale merge_queue =
  fixes push :: "'a \<Rightarrow> 'a list \<Rightarrow> 'a list"
    and pop :: "'a list \<Rightarrow> ('a \<times> 'a list) result"
    and merge :: "'a \<Rightarrow> 'a \<Rightarrow> 'a"
    and reduce :: "'a list \<Rightarrow> 'a list result"
  assumes push_mset: "mset (push x h) = add_mset x (mset h)"
    and pop_some: "h \<noteq> [] \<Longrightarrow> \<exists>x h'. pop h = Inr (x, h') \<and> mset h = add_mset x (mset h')"
    and reduce_step: "length h > 1 \<Longrightarrow> pop h = Inr (x, h1) \<Longrightarrow> pop h1 = Inr (y, h2) \<Longrightarrow>
      reduce h = reduce (push (merge x y) h2)"
    and reduce_done: "length h \<le> 1 \<Longrightarrow> reduce h = Inr h"
begin

lemma push_all_mset: "mset (fold push xs h) = mset xs + mset h"
  by (induction xs arbitrary: h) (auto simp: push_mset)

lemma reduce_pair:
  assumes "length h > 1"
  obtains x y h2 where "reduce h = reduce (push (merge x y) h2)" "mset h = add_mset x (add_mset y (mset h2))"
proof -
  from assms have "h \<noteq> []" by auto
  then obtain x h1 where x: "pop h = Inr (x, h1)" and hx: "mset h = add_mset x (mset h1)"
    using pop_some by blast
  from hx assms have "h1 \<noteq> []" by (metis One_nat_def mset.simps(1) less_irrefl size_add_mset size_empty size_mset)
  then obtain y h2 where y: "pop h1 = Inr (y, h2)" and hy: "mset h1 = add_mset y (mset h2)"
    using pop_some by blast
  show thesis
    using that[of x y h2] reduce_step[OF assms x y] hx hy by simp
qed

lemma reduce_invariant:
  fixes f :: "'a \<Rightarrow> 'b :: comm_monoid_add"
  assumes closed: "\<And>x y. P x \<Longrightarrow> P y \<Longrightarrow> P (merge x y) \<and> f (merge x y) = f x + f y"
    and all: "\<forall>x \<in> set h. P x" and ne: "h \<noteq> []"
  shows "\<exists>x. reduce h = Inr [x] \<and> P x \<and> f x = sum_list (map f h)"
  using all ne
proof (induction "length h" arbitrary: h rule: less_induct)
  case less
  show ?case
  proof (cases "length h > 1")
    case False
    with less.prems(2) obtain x where "h = [x]"
      by (cases h) auto
    with less.prems(1) show ?thesis by (auto simp: reduce_done)
  next
    case True
    obtain x y h2 where red: "reduce h = reduce (push (merge x y) h2)"
      and h: "mset h = add_mset x (add_mset y (mset h2))"
      using True by (rule reduce_pair)
    let ?h' = "push (merge x y) h2"
    have mem: "x \<in> set h" "y \<in> set h" "set h2 \<subseteq> set h"
      using h mset_eq_setD[of h "x # y # h2"] by auto
    with less.prems(1) closed have m: "P (merge x y)" "f (merge x y) = f x + f y" by auto
    have setp: "set ?h' = insert (merge x y) (set h2)"
      using push_mset[of "merge x y" h2] by (metis set_mset_add_mset_insert set_mset_mset)
    have len: "length ?h' < length h"
      using push_mset[of "merge x y" h2] h by (metis lessI size_add_mset size_mset)
    have "\<exists>z. reduce ?h' = Inr [z] \<and> P z \<and> f z = sum_list (map f ?h')"
    proof (rule less.hyps[OF len])
      show "\<forall>z \<in> set ?h'. P z" using less.prems(1) m mem setp by auto
      show "?h' \<noteq> []" using setp by auto
    qed
    moreover have "sum_list (map f ?h') = sum_list (map f h)"
      using sum_list_map_mset_eq[of ?h' "merge x y # h2" f]
        sum_list_map_mset_eq[of h "x # y # h2" f] push_mset[of "merge x y" h2] h m(2)
      by (simp add: add.assoc)
    ultimately show ?thesis using red by simp
  qed
qed

end

interpretation kk: merge_queue heappush "heappop kk_state_lt" kk_state_merge kk_reduce
proof
  show "mset (heappush x h) = add_mset x (mset h)" for x :: kk_state and h
    by (simp add: heappush_def)
  show "\<exists>x h'. heappop kk_state_lt h = Inr (x, h') \<and> mset h = add_mset x (mset h')" if "h \<noteq> []" for h
    using that by (rule heappop_cases[of h kk_state_lt]) auto
  show "kk_reduce h = kk_reduce (heappush (kk_state_merge x y) h2)"
    if "length h > 1" "heappop kk_state_lt h = Inr (x, h1)" "heappop kk_state_lt h1 = Inr (y, h2)"
    for h x h1 y h2
    using that by (simp add: kk_reduce.simps[of h])
  show "kk_reduce h = Inr h" if "length h \<le> 1" for h
    using that by (simp add: kk_reduce.simps[of h])
qed

section \<open>Sets and states: what merging does\<close>

lemma kk_set_add_simps [simp]:
  "set_sum (kk_set_add i v s) = set_sum s + v"
  "set_items (kk_set_add i v s) = set_items s @ [(i, v)]"
  by (simp_all add: kk_set_add_def)

lemma kk_set_empty_simps [simp]: "set_sum kk_set_empty = 0" "set_items kk_set_empty = []"
  by (simp_all add: kk_set_empty_def)

definition kk_set_ok :: "kk_set \<Rightarrow> bool" where
  "kk_set_ok S = (set_sum S = sum_list (map snd (set_items S)))"

lemma kk_set_merge_fold:
  "set_items (fold (\<lambda>(i, v) acc. kk_set_add i v acc) xs s) = set_items s @ xs \<and>
   set_sum (fold (\<lambda>(i, v) acc. kk_set_add i v acc) xs s) = set_sum s + sum_list (map snd xs)"
  by (induction xs arbitrary: s) auto

lemma kk_set_merge_items [simp]: "set_items (kk_set_merge s t) = set_items s @ set_items t"
  by (simp add: kk_set_merge_def kk_set_merge_fold)

lemma kk_set_merge_sum [simp]: "kk_set_ok t \<Longrightarrow> set_sum (kk_set_merge s t) = set_sum s + set_sum t"
  by (simp add: kk_set_merge_def kk_set_merge_fold kk_set_ok_def)

lemma kk_set_ok_merge [simp]: "kk_set_ok s \<Longrightarrow> kk_set_ok t \<Longrightarrow> kk_set_ok (kk_set_merge s t)"
  by (simp add: kk_set_ok_def kk_set_merge_def kk_set_merge_fold)

text \<open>
  A well-formed state: \<open>k\<close> sets, at least one, in decreasing order, each with the right sum.
\<close>

definition kk_wf :: "nat \<Rightarrow> kk_state \<Rightarrow> bool" where
  "kk_wf k s \<longleftrightarrow> k > 0 \<and> kk_k s = k \<and> length (kk_sets s) = k \<and>
     sorted_wrt (\<ge>) (kk_sets s) \<and> (\<forall>S \<in> set (kk_sets s). kk_set_ok S)"

lemma kk_wf_facts:
  assumes "kk_wf k s"
  shows "0 < k" "kk_k s = k" "length (kk_sets s) = k" "kk_sets s \<noteq> []"
  using assms by (auto simp: kk_wf_def)

definition kk_items :: "kk_state \<Rightarrow> (nat \<times> int) multiset" where
  "kk_items s = mset (concat (map set_items (kk_sets s)))"

lemma sorted_wrt_rev_sort: "sorted_wrt (\<ge>) (rev (sort (xs :: 'a :: linorder list)))"
  by (simp add: sorted_wrt_rev)

lemma mset_map_eq_cong: "mset xs = mset ys \<Longrightarrow> mset (map f xs) = mset (map f ys)"
  by simp

lemma mset_concat_cong: "mset xs = mset ys \<Longrightarrow> mset (concat xs) = mset (concat ys)"
  by (metis map_ident mset_concat_map)

definition kk_merged_sets :: "kk_state \<Rightarrow> kk_state \<Rightarrow> kk_set list" where
  "kk_merged_sets s t = map (\<lambda>i. kk_set_merge (kk_sets s ! i) (kk_sets t ! (kk_k s - 1 - i))) [0..<kk_k s]"

lemma kk_state_merge_simps [simp]:
  "kk_k (kk_state_merge s t) = kk_k s"
  "mset (kk_sets (kk_state_merge s t)) = mset (kk_merged_sets s t)"
  "set (kk_sets (kk_state_merge s t)) = set (kk_merged_sets s t)"
  "length (kk_sets (kk_state_merge s t)) = kk_k s"
  by (simp_all add: kk_state_merge_def kk_merged_sets_def)

lemma kk_merged_sets_zip:
  assumes "kk_wf k s" "kk_wf k t"
  shows "kk_merged_sets s t = map2 kk_set_merge (kk_sets s) (rev (kk_sets t))"
proof (rule nth_equalityI)
  show "length (kk_merged_sets s t) = length (map2 kk_set_merge (kk_sets s) (rev (kk_sets t)))"
    using assms by (simp add: kk_merged_sets_def kk_wf_def)
  fix i
  assume "i < length (kk_merged_sets s t)"
  then show "kk_merged_sets s t ! i = map2 kk_set_merge (kk_sets s) (rev (kk_sets t)) ! i"
    using assms by (simp add: kk_merged_sets_def kk_wf_def rev_nth)
qed

lemma mset_concat_map2_append:
  "length xs = length ys \<Longrightarrow>
   mset (concat (map2 (\<lambda>x y. f x @ f y) xs ys)) = mset (concat (map f xs)) + mset (concat (map f ys))"
  by (induction xs ys rule: list_induct2) auto

lemma in_set_zipD: "(a, b) \<in> set (zip xs ys) \<Longrightarrow> a \<in> set xs \<and> b \<in> set ys"
  by (auto dest: set_zip_leftD set_zip_rightD)

lemma kk_wf_merge:
  assumes "kk_wf k s" "kk_wf k t"
  shows "kk_wf k (kk_state_merge s t)"
proof -
  have "sorted_wrt (\<ge>) (kk_sets (kk_state_merge s t))"
    by (simp add: kk_state_merge_def sorted_wrt_rev_sort)
  moreover have "\<forall>S \<in> set (kk_merged_sets s t). kk_set_ok S"
    using assms by (auto simp: kk_merged_sets_zip[OF assms] kk_wf_def dest!: in_set_zipD)
  ultimately show ?thesis using assms by (simp add: kk_wf_def)
qed

lemma kk_items_merge:
  assumes "kk_wf k s" "kk_wf k t"
  shows "kk_items (kk_state_merge s t) = kk_items s + kk_items t"
proof -
  have "kk_items (kk_state_merge s t) = mset (concat (map set_items (kk_merged_sets s t)))"
    unfolding kk_items_def by (rule mset_concat_cong, rule mset_map_eq_cong) simp
  also have "\<dots> = mset (concat (map2 (\<lambda>x y. set_items x @ set_items y) (kk_sets s) (rev (kk_sets t))))"
    by (simp add: kk_merged_sets_zip[OF assms] comp_def case_prod_unfold)
  also have "\<dots> = kk_items s + kk_items t"
    using assms by (simp add: mset_concat_map2_append kk_items_def kk_wf_def rev_map[symmetric]
        mset_concat_cong[of "rev (map set_items (kk_sets t))" "map set_items (kk_sets t)"])
  finally show ?thesis .
qed

section \<open>Invariants of merging\<close>

subsection \<open>The spread never grows\<close>

lemma kk_set_le_sum: "S \<le> T \<Longrightarrow> set_sum S \<le> set_sum T"
  by (auto simp: less_eq_kk_set_def kk_set_lt_def split: if_splits)

lemma kk_sum_antimono:
  assumes "kk_wf k s" "i \<le> j" "j < k"
  shows "set_sum (kk_sets s ! j) \<le> set_sum (kk_sets s ! i)"
  using assms by (cases "i = j") (auto simp: kk_wf_def sorted_wrt_iff_nth_less intro!: kk_set_le_sum)

lemma kk_spread_nth:
  assumes "kk_wf k s"
  shows "kk_spread s = set_sum (kk_sets s ! 0) - set_sum (kk_sets s ! (k - 1))"
  using kk_wf_facts[OF assms] by (simp add: kk_spread_def hd_conv_nth last_conv_nth)

lemma kk_diff_le_spread:
  assumes "kk_wf k s" "i < k" "j < k"
  shows "set_sum (kk_sets s ! i) - set_sum (kk_sets s ! j) \<le> kk_spread s"
proof -
  have "j \<le> k - 1" "k - 1 < k" using assms by auto
  then have "set_sum (kk_sets s ! (k - 1)) \<le> set_sum (kk_sets s ! j)"
    by (rule kk_sum_antimono[OF assms(1)])
  with kk_sum_antimono[OF assms(1) _ assms(2), of 0] show ?thesis
    by (simp add: kk_spread_nth[OF assms(1)])
qed

lemma kk_spread_nonneg: "kk_wf k s \<Longrightarrow> 0 \<le> kk_spread s"
  using kk_diff_le_spread[of k s 0 0] by (simp add: kk_wf_def)

lemma kk_merged_nth:
  assumes "kk_wf k s" "kk_wf k t" "i < k"
  shows "set_sum (kk_merged_sets s t ! i) = set_sum (kk_sets s ! i) + set_sum (kk_sets t ! (k - 1 - i))"
  using assms by (auto simp: kk_merged_sets_def kk_wf_def)

lemma kk_merged_diff:
  assumes wf: "kk_wf k s" "kk_wf k t" and ij: "i < k" "j < k"
  shows "set_sum (kk_merged_sets s t ! i) - set_sum (kk_merged_sets s t ! j)
    \<le> max (kk_spread s) (kk_spread t)"
proof (cases "i \<le> j")
  case True
  then have "set_sum (kk_sets t ! (k - 1 - i)) \<le> set_sum (kk_sets t ! (k - 1 - j))"
    using ij by (intro kk_sum_antimono[OF wf(2)]) auto
  with kk_diff_le_spread[OF wf(1) ij] show ?thesis
    by (simp add: kk_merged_nth[OF wf] ij)
next
  case False
  then have "set_sum (kk_sets s ! i) \<le> set_sum (kk_sets s ! j)"
    using ij by (intro kk_sum_antimono[OF wf(1)]) auto
  with kk_diff_le_spread[OF wf(2), of "k - 1 - i" "k - 1 - j"] ij show ?thesis
    by (simp add: kk_merged_nth[OF wf])
qed

lemma kk_set_nth_ex: "kk_wf k s \<Longrightarrow> S \<in> set (kk_sets s) \<Longrightarrow> \<exists>i < k. S = kk_sets s ! i"
  by (auto simp: kk_wf_def in_set_conv_nth)

lemma kk_spread_merge:
  assumes wf: "kk_wf k s" "kk_wf k t"
  shows "kk_spread (kk_state_merge s t) \<le> max (kk_spread s) (kk_spread t)"
proof -
  let ?m = "kk_state_merge s t"
  have k: "k > 0" "kk_sets ?m \<noteq> []" "length (kk_merged_sets s t) = k"
    using kk_wf_facts[OF wf(1)] kk_wf_facts[OF kk_wf_merge[OF wf]] by (simp_all add: kk_merged_sets_def)
  have "hd (kk_sets ?m) \<in> set (kk_merged_sets s t)" "last (kk_sets ?m) \<in> set (kk_merged_sets s t)"
    using hd_in_set[OF k(2)] last_in_set[OF k(2)] by simp_all
  then obtain i j where "i < k" "j < k" "hd (kk_sets ?m) = kk_merged_sets s t ! i"
    "last (kk_sets ?m) = kk_merged_sets s t ! j"
    using k(3) by (auto simp: in_set_conv_nth)
  then show ?thesis using kk_merged_diff[OF wf, of i j] by (simp add: kk_spread_def)
qed

subsection \<open>Equal sizes add up\<close>

definition kk_sizes :: "nat \<Rightarrow> kk_state \<Rightarrow> bool" where
  "kk_sizes c s = (\<forall>S \<in> set (kk_sets s). length (set_items S) = c)"

lemma kk_sizes_merge:
  assumes "kk_wf k s" "kk_wf k t" "kk_sizes c s" "kk_sizes d t"
  shows "kk_sizes (c + d) (kk_state_merge s t)"
  using assms by (auto simp: kk_sizes_def kk_merged_sets_zip[OF assms(1,2)] dest!: in_set_zipD)

lemma size_kk_items: "size (kk_items s) = sum_list (map (length \<circ> set_items) (kk_sets s))"
  by (simp add: kk_items_def length_concat comp_def)

lemma kk_sizes_total:
  assumes "kk_wf k s" "kk_sizes c s"
  shows "size (kk_items s) = c * k"
proof -
  have "map (length \<circ> set_items) (kk_sets s) = replicate k c"
    using assms(2) kk_wf_facts[OF assms(1)] by (intro replicate_eqI) (auto simp: kk_sizes_def)
  then show ?thesis by (simp only: size_kk_items) (simp add: sum_list_replicate)
qed

subsection \<open>Sets fill up from the front\<close>

definition kk_nonneg :: "kk_state \<Rightarrow> bool" where
  "kk_nonneg s = (\<forall>(i, v) \<in># kk_items s. 0 \<le> v)"

definition kk_filled :: "kk_state \<Rightarrow> nat" where
  "kk_filled s = length (filter (\<lambda>S. set_items S \<noteq> []) (kk_sets s))"

lemma sorted_desc_filter_front:
  assumes "sorted_wrt (\<ge>) xs" "\<And>x y. x \<in> set xs \<Longrightarrow> y \<in> set xs \<Longrightarrow> Q x \<Longrightarrow> x \<le> y \<Longrightarrow> Q y"
    "i < length xs"
  shows "Q (xs ! i) \<longleftrightarrow> i < length (filter Q xs)"
  using assms
proof (induction xs arbitrary: i)
  case (Cons x xs)
  show ?case
  proof (cases "Q x")
    case True
    have IH: "Q (xs ! j) \<longleftrightarrow> j < length (filter Q xs)" if "j < length xs" for j
      using that Cons.prems by (intro Cons.IH) auto
    from True IH Cons.prems(3) show ?thesis by (cases i) auto
  next
    case False
    have "\<not> Q y" if "y \<in> set xs" for y
      using that Cons.prems(1) Cons.prems(2)[of y x] False by auto
    with False Cons.prems(3) show ?thesis by (cases i) (auto simp: filter_empty_conv)
  qed
qed simp

lemma kk_nonempty_upward:
  assumes "kk_set_ok S" "kk_set_ok T" "\<forall>(i, v) \<in> set (set_items S). 0 \<le> v"
    "set_items S \<noteq> []" "S \<le> T"
  shows "set_items T \<noteq> []"
proof
  assume T: "set_items T = []"
  have "0 \<le> set_sum S"
    using assms(1,3) by (simp add: kk_set_ok_def) (rule sum_list_nonneg, fastforce)
  with T assms show False
    by (auto simp: less_eq_kk_set_def kk_set_lt_def kk_set_ok_def split: if_splits)
qed

lemma kk_items_mem: "S \<in> set (kk_sets s) \<Longrightarrow> x \<in> set (set_items S) \<Longrightarrow> x \<in># kk_items s"
  by (auto simp: kk_items_def)

lemma kk_front:
  assumes "kk_wf k s" "kk_nonneg s" "i < k"
  shows "set_items (kk_sets s ! i) \<noteq> [] \<longleftrightarrow> i < kk_filled s"
  unfolding kk_filled_def
proof (rule sorted_desc_filter_front)
  show "sorted_wrt (\<ge>) (kk_sets s)" "i < length (kk_sets s)" using assms by (auto simp: kk_wf_def)
  fix S T
  assume "S \<in> set (kk_sets s)" "T \<in> set (kk_sets s)" "set_items S \<noteq> []" "S \<le> T"
  then show "set_items T \<noteq> []"
    using assms by (intro kk_nonempty_upward[of S T]) (auto simp: kk_wf_def kk_nonneg_def dest!: kk_items_mem)
qed

lemma kk_filled_le: "kk_wf k s \<Longrightarrow> kk_filled s \<le> k"
  by (metis kk_filled_def kk_wf_def length_filter_le)

lemma card_front_or_back:
  assumes "p \<le> k" "q \<le> k"
  shows "card {i. i < k \<and> (i < p \<or> k - 1 - i < q)} = min k (p + q)"
proof (cases "p \<le> k - q")
  case True
  have "{i. i < k \<and> (i < p \<or> k - 1 - i < q)} = {..<p} \<union> {k - q..<k}"
    using assms by auto
  also have "card \<dots> = p + q"
    using True assms by (subst card_Un_disjoint) auto
  finally show ?thesis using True assms by simp
next
  case False
  have "{i. i < k \<and> (i < p \<or> k - 1 - i < q)} = {..<k}"
    using False assms by auto
  then show ?thesis using False assms by simp
qed

lemma kk_filled_merge:
  assumes wf: "kk_wf k s" "kk_wf k t" and nn: "kk_nonneg s" "kk_nonneg t"
  shows "kk_filled (kk_state_merge s t) = min k (kk_filled s + kk_filled t)"
proof -
  let ?Q = "\<lambda>S. set_items S \<noteq> []"
  have len: "length (kk_merged_sets s t) = k" using wf by (simp add: kk_merged_sets_def kk_wf_def)
  have "kk_filled (kk_state_merge s t) = size (filter_mset ?Q (mset (kk_merged_sets s t)))"
    unfolding kk_filled_def by (metis kk_state_merge_simps(2) mset_filter size_mset)
  also have "\<dots> = length (filter ?Q (kk_merged_sets s t))"
    by (simp only: mset_filter[symmetric] size_mset)
  also have "\<dots> = card {i. i < k \<and> ?Q (kk_merged_sets s t ! i)}"
    by (simp only: length_filter_conv_card len)
  also have "{i. i < k \<and> ?Q (kk_merged_sets s t ! i)}
      = {i. i < k \<and> (i < kk_filled s \<or> k - 1 - i < kk_filled t)}"
  proof (rule Collect_cong, rule conj_cong[OF refl])
    fix i
    assume i: "i < k"
    have "k - 1 - i < k" using i by simp
    with kk_front[OF wf(1) nn(1) i] kk_front[OF wf(2) nn(2)] i kk_wf_facts(2)[OF wf(1)]
    show "?Q (kk_merged_sets s t ! i) \<longleftrightarrow> i < kk_filled s \<or> k - 1 - i < kk_filled t"
      by (simp add: kk_merged_sets_def)
  qed
  also have "card \<dots> = min k (kk_filled s + kk_filled t)"
    using kk_filled_le[OF wf(1)] kk_filled_le[OF wf(2)] by (rule card_front_or_back)
  finally show ?thesis .
qed

section \<open>The run of the algorithm\<close>

lemma kk_sorted_items_mset: "mset (kk_sorted_items xs) = mset (zip [0..<length xs] xs)"
proof -
  have "map (\<lambda>(v, i). (i, v)) (zip xs [0..<length xs]) = zip [0..<length xs] xs"
    by (rule nth_equalityI) auto
  moreover have "mset (kk_sorted_items xs) = mset (map (\<lambda>(v, i). (i, v)) (zip xs [0..<length xs]))"
    by (simp add: kk_sorted_items_def)
  ultimately show ?thesis by (simp only:)
qed

lemma length_kk_sorted_items [simp]: "length (kk_sorted_items xs) = length xs"
  by (simp add: kk_sorted_items_def)

lemma concat_chunks: "concat (map (\<lambda>j. take k (drop (j * k) xs)) [0..<m]) = take (m * k) xs"
  by (induction m) (simp_all add: take_add[symmetric] add.commute)

lemma kk_groups:
  assumes "0 < k" "k \<le> length seqlens" "equal_size \<Longrightarrow> length seqlens mod k = 0"
  obtains gs where "kk_initial_groups seqlens k equal_size = Inr gs" "gs \<noteq> []"
    "concat gs = kk_sorted_items seqlens" "\<And>g. g \<in> set gs \<Longrightarrow> length g = (if equal_size then k else 1)"
proof (cases equal_size)
  case True
  let ?gs = "map (\<lambda>j. take k (drop (j * k) (kk_sorted_items seqlens))) [0..<length seqlens div k]"
  have m: "length seqlens div k * k = length seqlens"
    using assms(3)[OF True] by auto
  show thesis
  proof (rule that)
    show "kk_initial_groups seqlens k equal_size = Inr ?gs"
      using True assms by (simp add: kk_initial_groups_def)
    show "?gs \<noteq> []" using assms by (simp add: div_greater_zero_iff)
    show "concat ?gs = kk_sorted_items seqlens" by (simp add: concat_chunks m)
    show "length g = (if equal_size then k else 1)" if "g \<in> set ?gs" for g
    proof -
      from that obtain j where "j < length seqlens div k" and g: "g = take k (drop (j * k) (kk_sorted_items seqlens))"
        by auto
      then have "Suc j * k \<le> length seqlens"
        using m mult_le_mono1[of "Suc j" "length seqlens div k" k] by simp
      then show ?thesis using True by (simp add: g)
    qed
  qed
next
  case False
  have "concat (map (\<lambda>x. [x]) xs) = xs" for xs :: "(nat \<times> int) list"
    by (induction xs) auto
  moreover have "kk_sorted_items seqlens \<noteq> []"
    using assms by (metis le_zero_eq length_kk_sorted_items list.size(3) not_gr0)
  ultimately show thesis
    using False by (intro that[of "map (\<lambda>x. [x]) (kk_sorted_items seqlens)"]) (auto simp: kk_initial_groups_def)
qed

definition kk_init :: "nat \<Rightarrow> (nat \<times> int) list \<Rightarrow> kk_state" where
  "kk_init k items = \<lparr>kk_k = k,
     kk_sets = rev (sort (map (\<lambda>(idx, seqlen). kk_set_add idx seqlen kk_set_empty) items
                          @ replicate (k - length items) kk_set_empty))\<rparr>"

lemma kk_state_init_ok:
  "length items = 1 \<or> length items = k \<Longrightarrow> 0 < k \<Longrightarrow> kk_state_init items k = Inr (kk_init k items)"
  by (auto simp: kk_state_init_def kk_init_def)

lemma kk_init_sets:
  "mset (kk_sets (kk_init k items)) = mset (map (\<lambda>(i, v). kk_set_add i v kk_set_empty) items
     @ replicate (k - length items) kk_set_empty)"
  by (simp add: kk_init_def)

lemma kk_init_set_eq:
  "set (kk_sets (kk_init k items)) = (\<lambda>(i, v). kk_set_add i v kk_set_empty) ` set items
     \<union> (if length items < k then {kk_set_empty} else {})"
  by (auto simp: kk_init_def)

lemma kk_init_wf:
  assumes "0 < k" "length items \<le> k"
  shows "kk_wf k (kk_init k items)"
proof -
  have "\<forall>S \<in> set (kk_sets (kk_init k items)). kk_set_ok S"
    unfolding kk_init_set_eq by (auto simp: kk_set_ok_def)
  then show ?thesis using assms by (simp add: kk_wf_def kk_init_def sorted_wrt_rev_sort)
qed

lemma kk_init_items: "kk_items (kk_init k items) = mset items"
proof -
  have "kk_items (kk_init k items) = mset (concat (map set_items (map (\<lambda>(i, v). kk_set_add i v kk_set_empty) items
     @ replicate (k - length items) kk_set_empty)))"
    unfolding kk_items_def by (rule mset_concat_cong, rule mset_map_eq_cong, rule kk_init_sets)
  also have "\<dots> = mset items"
    by (induction items arbitrary: k) (auto simp: concat_replicate_trivial)
  finally show ?thesis .
qed

text \<open>
  The run: whatever holds of the initial states and is kept by merging holds of the final
  state, which carries exactly the items of the input.
\<close>

lemma kk_reduce_groups:
  assumes k: "0 < k" and gs: "gs \<noteq> []" "\<And>g. g \<in> set gs \<Longrightarrow> length g = 1 \<or> length g = k"
    and init: "\<And>g. g \<in> set gs \<Longrightarrow> P (kk_init k g)"
    and closed: "\<And>s t. kk_wf k s \<Longrightarrow> kk_wf k t \<Longrightarrow> P s \<Longrightarrow> P t \<Longrightarrow> P (kk_state_merge s t)"
  shows "\<exists>s. res_bind (res_map (\<lambda>items. kk_state_init items k) gs) (\<lambda>states.
      kk_reduce (fold heappush states [])) = Inr [s] \<and> kk_wf k s \<and> P s \<and> kk_items s = mset (concat gs)"
proof -
  let ?states = "map (kk_init k) gs"
  have le: "length g \<le> k" if "g \<in> set gs" for g using gs(2)[OF that] k by auto
  have states: "res_map (\<lambda>items. kk_state_init items k) gs = Inr ?states"
    using gs(2) k by (intro res_map_all_Inr kk_state_init_ok) auto
  have m: "mset (fold heappush ?states []) = mset ?states"
    using kk.push_all_mset[of ?states "[]"] by simp
  then have q: "set (fold heappush ?states []) = set ?states" "fold heappush ?states [] \<noteq> []"
    using gs(1) by (metis set_mset_mset, metis Nil_is_map_conv mset_zero_iff)
  have "\<exists>s. kk_reduce (fold heappush ?states []) = Inr [s] \<and> (kk_wf k s \<and> P s) \<and>
      kk_items s = sum_list (map kk_items (fold heappush ?states []))"
  proof (rule kk.reduce_invariant)
    show "(kk_wf k (kk_state_merge x y) \<and> P (kk_state_merge x y)) \<and>
        kk_items (kk_state_merge x y) = kk_items x + kk_items y"
      if "kk_wf k x \<and> P x" "kk_wf k y \<and> P y" for x y
      using that closed[of x y] kk_wf_merge[of k x y] kk_items_merge[of k x y] by auto
    show "\<forall>x \<in> set (fold heappush ?states []). kk_wf k x \<and> P x"
      using q(1) k le init by (auto intro: kk_init_wf)
    show "fold heappush ?states [] \<noteq> []" by (rule q(2))
  qed
  moreover have "sum_list (map kk_items (fold heappush ?states [])) = mset (concat gs)"
    using sum_list_map_mset_eq[OF m, of kk_items]
    by (simp add: kk_init_items comp_def mset_concat)
  ultimately show ?thesis by (auto simp: states)
qed

lemma karmarkar_karp_run:
  assumes k: "0 < k" "k \<le> length seqlens" "equal_size \<Longrightarrow> length seqlens mod k = 0"
    and init: "\<And>g. length g = (if equal_size then k else 1) \<Longrightarrow>
      set g \<subseteq> set (zip [0..<length seqlens] seqlens) \<Longrightarrow> P (kk_init k g)"
    and closed: "\<And>s t. kk_wf k s \<Longrightarrow> kk_wf k t \<Longrightarrow> P s \<Longrightarrow> P t \<Longrightarrow> P (kk_state_merge s t)"
  shows "\<exists>s. karmarkar_karp seqlens k equal_size = Inr (kk_get_partitions s) \<and> kk_wf k s \<and> P s \<and>
      kk_items s = mset (zip [0..<length seqlens] seqlens) \<and>
      (equal_size \<longrightarrow> kk_sizes (length seqlens div k) s)"
proof -
  let ?Q = "\<lambda>s. P s \<and> (equal_size \<longrightarrow> (\<exists>c. kk_sizes c s))"
  obtain gs where gs: "kk_initial_groups seqlens k equal_size = Inr gs" "gs \<noteq> []"
    "concat gs = kk_sorted_items seqlens" "\<And>g. g \<in> set gs \<Longrightarrow> length g = (if equal_size then k else 1)"
    by (rule kk_groups[OF k(1,2), of equal_size]) (use k(3) in auto)
  have sub: "set g \<subseteq> set (zip [0..<length seqlens] seqlens)" if "g \<in> set gs" for g
    using that gs(3) kk_sorted_items_mset[of seqlens] by (metis concat_eq_concat_iff UN_upper set_concat set_mset_mset)
  have "\<exists>s. res_bind (res_map (\<lambda>items. kk_state_init items k) gs) (\<lambda>states.
      kk_reduce (fold heappush states [])) = Inr [s] \<and> kk_wf k s \<and> ?Q s \<and> kk_items s = mset (concat gs)"
  proof (rule kk_reduce_groups[OF k(1) gs(2)])
    show "length g = 1 \<or> length g = k" if "g \<in> set gs" for g using gs(4)[OF that] by auto
    show "?Q (kk_init k g)" if "g \<in> set gs" for g
    proof -
      have "kk_sizes 1 (kk_init k g)" if equal_size
        using gs(4)[OF \<open>g \<in> set gs\<close>] that unfolding kk_sizes_def kk_init_set_eq by auto
      then show ?thesis using init[OF gs(4)[OF that] sub[OF that]] by auto
    qed
    show "?Q (kk_state_merge s t)" if "kk_wf k s" "kk_wf k t" "?Q s" "?Q t" for s t
      using that closed kk_sizes_merge by blast
  qed
  then obtain states s where st: "res_map (\<lambda>items. kk_state_init items k) gs = Inr states"
    "kk_reduce (fold heappush states []) = Inr [s]" "kk_wf k s" "?Q s"
    "kk_items s = mset (zip [0..<length seqlens] seqlens)"
    by (auto simp: res_bind_eq_Inr gs(3) kk_sorted_items_mset)
  have sizes: "kk_sizes (length seqlens div k) s" if equal_size
  proof -
    from st(4) that obtain c where c: "kk_sizes c s" by auto
    from kk_sizes_total[OF st(3) c] st(5) have "length seqlens = c * k" by simp
    with k(1) c show ?thesis by simp
  qed
  have "\<not> equal_size \<or> (\<forall>p \<in> set (kk_get_partitions s). length p * k = length seqlens)"
    using sizes k(3) by (auto simp: kk_sizes_def kk_get_partitions_def)
  then have "karmarkar_karp seqlens k equal_size = Inr (kk_get_partitions s)"
    by (auto simp: karmarkar_karp_def gs(1) st(1,2))
  with st sizes show ?thesis by blast
qed

text \<open>The sum of a partition is the sum its set carries.\<close>

lemma kk_partition_sums:
  assumes "kk_wf k s" "kk_items s = mset (zip [0..<length seqlens] seqlens)"
  shows "map (\<lambda>p. sum_list (map ((!) seqlens) p)) (kk_get_partitions s) = map set_sum (kk_sets s)"
proof -
  have "sum_list (map ((!) seqlens) (map fst (set_items S))) = set_sum S" if S: "S \<in> set (kk_sets s)" for S
  proof -
    have "seqlens ! fst x = snd x" if "x \<in> set (set_items S)" for x
    proof -
      have "x \<in># kk_items s" using S that by (rule kk_items_mem)
      then have "x \<in> set (zip [0..<length seqlens] seqlens)" by (simp add: assms(2))
      then show ?thesis by (auto simp: set_zip)
    qed
    then have "map ((!) seqlens \<circ> fst) (set_items S) = map snd (set_items S)" by simp
    then have "sum_list (map ((!) seqlens) (map fst (set_items S))) = sum_list (map snd (set_items S))"
      by (simp only: map_map)
    with S assms(1) show ?thesis by (simp add: kk_wf_def kk_set_ok_def)
  qed
  then show ?thesis by (simp add: kk_get_partitions_def comp_def)
qed

lemma kk_partitions_cover:
  assumes "kk_items s = mset (zip [0..<length seqlens] seqlens)"
  shows "mset (concat (kk_get_partitions s)) = mset [0..<length seqlens]"
proof -
  have "mset (concat (kk_get_partitions s)) = image_mset fst (kk_items s)"
    by (simp add: kk_get_partitions_def kk_items_def map_concat comp_def flip: mset_map)
  also have "\<dots> = mset (map fst (zip [0..<length seqlens] seqlens))"
    by (simp only: assms mset_map)
  also have "\<dots> = mset [0..<length seqlens]"
    by (subst map_fst_zip) simp_all
  finally show ?thesis .
qed

section \<open>Bounds and non-emptiness of the result\<close>

lemma kk_spread_leI:
  assumes "kk_wf k s" "\<And>S T. S \<in> set (kk_sets s) \<Longrightarrow> T \<in> set (kk_sets s) \<Longrightarrow> set_sum S - set_sum T \<le> d"
  shows "kk_spread s \<le> d"
  using assms(2)[of "hd (kk_sets s)" "last (kk_sets s)"] kk_wf_facts(4)[OF assms(1)]
  by (simp add: kk_spread_def)

lemma kk_init_spread:
  assumes k: "0 < k" and g: "length g = (if equal_size then k else 1)"
    "set g \<subseteq> set (zip [0..<length seqlens] seqlens)" and nn: "\<forall>v \<in> set seqlens. 0 \<le> v"
  shows "kk_spread (kk_init k g) \<le> Max (set seqlens) - (if equal_size then Min (set seqlens) else 0)"
proof (rule kk_spread_leI[OF kk_init_wf[OF k]])
  show "length g \<le> k" using g(1) k by auto
  have vals: "v \<in> set seqlens" if "(i, v) \<in> set g" for i v
    using g(2) that by (auto dest: set_zip_rightD)
  then have bounds: "Min (set seqlens) \<le> v" "v \<le> Max (set seqlens)" "0 \<le> v" if "(i, v) \<in> set g" for i v
    using that nn by auto
  have g0: "g \<noteq> []" using g(1) k by (cases equal_size) auto
  then obtain i0 v0 where "(i0, v0) \<in> set g" by (metis list.set_intros(1) neq_Nil_conv surj_pair)
  then have M0: "0 \<le> Max (set seqlens)" using bounds by force
  fix S T
  assume "S \<in> set (kk_sets (kk_init k g))" "T \<in> set (kk_sets (kk_init k g))"
  then show "set_sum S - set_sum T \<le> Max (set seqlens) - (if equal_size then Min (set seqlens) else 0)"
    unfolding kk_init_set_eq using g(1) bounds M0
    by (cases equal_size) (fastforce split: if_splits)+
qed

lemma kk_init_filled:
  assumes k: "0 < k" and g: "length g = (if equal_size then k else 1)"
  shows "kk_filled (kk_init k g) = min k (size (kk_items (kk_init k g)))"
proof -
  let ?Q = "\<lambda>S. set_items S \<noteq> []"
  let ?sets = "map (\<lambda>(i, v). kk_set_add i v kk_set_empty) g @ replicate (k - length g) kk_set_empty"
  have "kk_filled (kk_init k g) = size (filter_mset ?Q (mset (kk_sets (kk_init k g))))"
    by (simp only: kk_filled_def mset_filter[symmetric] size_mset)
  also have "\<dots> = length (filter ?Q ?sets)"
    by (simp only: kk_init_sets mset_filter[symmetric] size_mset)
  also have "\<dots> = length g"
  proof -
    have "length (filter ?Q (map (\<lambda>(i, v). kk_set_add i v kk_set_empty) g @ replicate m kk_set_empty)) = length g" for m
      by (induction g) auto
    then show ?thesis .
  qed
  finally show ?thesis using k g by (auto simp: kk_init_items)
qed

lemma kk_nonneg_filled_merge:
  assumes "kk_wf k s" "kk_wf k t"
    "kk_nonneg s \<and> kk_filled s = min k (size (kk_items s))" "kk_nonneg t \<and> kk_filled t = min k (size (kk_items t))"
  shows "kk_nonneg (kk_state_merge s t) \<and>
    kk_filled (kk_state_merge s t) = min k (size (kk_items (kk_state_merge s t)))"
  using assms by (auto simp: kk_filled_merge kk_items_merge kk_nonneg_def)

text \<open>Everything the properties need of one run, for non-negative values.\<close>

lemma karmarkar_karp_result:
  assumes k: "0 < k" "k \<le> length seqlens" "equal_size \<longrightarrow> length seqlens mod k = 0"
    and nn: "\<forall>v \<in> set seqlens. 0 \<le> v"
  obtains ps where "karmarkar_karp seqlens k equal_size = Inr ps" "length ps = k"
    "mset (concat ps) = mset [0..<length seqlens]" "\<forall>p \<in> set ps. p \<noteq> []"
    "\<forall>p \<in> set ps. equal_size \<longrightarrow> length p * k = length seqlens"
    "\<forall>p \<in> set ps. \<forall>q \<in> set ps. sum_list (map ((!) seqlens) p) - sum_list (map ((!) seqlens) q)
      \<le> Max (set seqlens) - (if equal_size then Min (set seqlens) else 0)"
proof -
  let ?d = "Max (set seqlens) - (if equal_size then Min (set seqlens) else 0)"
  let ?P = "\<lambda>s. kk_spread s \<le> ?d \<and> kk_nonneg s \<and> kk_filled s = min k (size (kk_items s))"
  have "\<exists>s. karmarkar_karp seqlens k equal_size = Inr (kk_get_partitions s) \<and> kk_wf k s \<and> ?P s \<and>
      kk_items s = mset (zip [0..<length seqlens] seqlens) \<and>
      (equal_size \<longrightarrow> kk_sizes (length seqlens div k) s)"
  proof (rule karmarkar_karp_run[OF k(1,2)])
    show "length seqlens mod k = 0" if equal_size using k(3) that by blast
    show "?P (kk_init k g)" if g: "length g = (if equal_size then k else 1)"
      "set g \<subseteq> set (zip [0..<length seqlens] seqlens)" for g
      using kk_init_spread[OF k(1) g nn] kk_init_filled[OF k(1) g(1)] g(2) nn
      by (fastforce simp: kk_nonneg_def kk_init_items dest: set_zip_rightD)
    show "?P (kk_state_merge s t)" if "kk_wf k s" "kk_wf k t" "?P s" "?P t" for s t
      using kk_spread_merge[OF that(1,2)] kk_nonneg_filled_merge[OF that(1,2)] that(3,4) by force
  qed
  then obtain s where s: "karmarkar_karp seqlens k equal_size = Inr (kk_get_partitions s)" "kk_wf k s" "?P s"
    "kk_items s = mset (zip [0..<length seqlens] seqlens)" "equal_size \<longrightarrow> kk_sizes (length seqlens div k) s"
    by blast
  show thesis
  proof (rule that[OF s(1)])
    show "length (kk_get_partitions s) = k" using s(2) by (simp add: kk_get_partitions_def kk_wf_def)
    show "mset (concat (kk_get_partitions s)) = mset [0..<length seqlens]" by (rule kk_partitions_cover[OF s(4)])
    have "kk_filled s = k" using s(3,4) k by simp
    then have "set_items S \<noteq> []" if "S \<in> set (kk_sets s)" for S
      using kk_set_nth_ex[OF s(2) that] kk_front[OF s(2)] s(3) by auto
    then show "\<forall>p \<in> set (kk_get_partitions s). p \<noteq> []" by (auto simp: kk_get_partitions_def)
    show "\<forall>p \<in> set (kk_get_partitions s). equal_size \<longrightarrow> length p * k = length seqlens"
      using s(5) k(3) by (auto simp: kk_sizes_def kk_get_partitions_def)
    have d: "x - y \<le> ?d" if xy: "x \<in> set (map set_sum (kk_sets s))" "y \<in> set (map set_sum (kk_sets s))" for x y
    proof -
      from xy obtain S T where ST: "S \<in> set (kk_sets s)" "T \<in> set (kk_sets s)"
        "x = set_sum S" "y = set_sum T" by auto
      then obtain i j where "i < k" "j < k" "x = set_sum (kk_sets s ! i)" "y = set_sum (kk_sets s ! j)"
        using kk_set_nth_ex[OF s(2) ST(1)] kk_set_nth_ex[OF s(2) ST(2)] by auto
      then show ?thesis using kk_diff_le_spread[OF s(2), of i j] s(3) by simp
    qed
    from d[unfolded kk_partition_sums[OF s(2,4), symmetric]] show "\<forall>p \<in> set (kk_get_partitions s). \<forall>q \<in> set (kk_get_partitions s).
      sum_list (map ((!) seqlens) p) - sum_list (map ((!) seqlens) q) \<le> ?d"
      by simp
  qed
qed

lemma check_and_sort_ok:
  assumes "length ps = k" "mset (concat ps) = mset [0..<n]" "\<forall>p \<in> set ps. p \<noteq> []"
  shows "check_and_sort_partitions n k ps = Inr (map sort ps)"
proof -
  have "\<Union> (set (map set ps)) = set [0..<n]"
    using mset_eq_setD[OF assms(2)] by simp
  with assms show ?thesis by (simp add: check_and_sort_partitions_def)
qed

lemma mset_concat_map_sort: "mset (concat (map sort ps)) = mset (concat ps)"
  by (induction ps) auto

lemma sum_list_map_sort: "sum_list (map f (sort xs)) = (sum_list (map f xs) :: 'a :: comm_monoid_add)"
  by (rule sum_list_map_mset_eq) simp

section \<open>The greedy partitioner\<close>

text \<open>The inner loop: the first index with the smallest sum, \<open>None\<close> when there is none.\<close>

definition greedy_min_idx :: "int list \<Rightarrow> nat \<Rightarrow> nat option" where
  "greedy_min_idx totals k =
     fold (\<lambda>j m. case m of None \<Rightarrow> Some j | Some i \<Rightarrow> if totals ! j < totals ! i then Some j else Some i) [0..<k] None"

definition greedy_step :: "nat \<Rightarrow> int \<times> nat \<Rightarrow> nat list list \<times> int list \<Rightarrow> (nat list list \<times> int list) result" where
  "greedy_step k item state =
     (case (item, state) of ((seqlen, i), (partitions, totals)) \<Rightarrow>
       (case greedy_min_idx totals k of
          None \<Rightarrow> Inl TypeError
        | Some m \<Rightarrow> Inr (partitions[m := partitions ! m @ [i]], totals[m := totals ! m + seqlen])))"

definition greedy_partition :: "int list \<Rightarrow> nat \<Rightarrow> bool \<Rightarrow> nat list list result" where
  "greedy_partition seqlens k equal_size =
     (let bias = (if equal_size then sum_list seqlens + 1 else 0);
          items = zip (map (\<lambda>seqlen. seqlen + bias) seqlens) [0..<length seqlens]
      in res_bind (res_fold (greedy_step k) items (replicate k [], replicate k 0)) (\<lambda>(partitions, _).
         res_bind (py_assert (\<not> equal_size \<or> (\<forall>p \<in> set partitions. length p * k = length seqlens))) (\<lambda>_.
           Inr partitions)))"

lemma greedy_min_idx_Some:
  assumes "0 < k"
  obtains m where "greedy_min_idx totals k = Some m" "m < k" "\<And>j. j < k \<Longrightarrow> totals ! m \<le> totals ! j"
proof -
  let ?f = "\<lambda>j m. case m of None \<Rightarrow> Some j | Some i \<Rightarrow> if totals ! j < totals ! i then Some j else Some i"
  have "n > 0 \<Longrightarrow> \<exists>m. fold ?f [0..<n] None = Some m \<and> m < n \<and> (\<forall>j < n. totals ! m \<le> totals ! j)" for n
  proof (induction n)
    case (Suc n)
    show ?case
    proof (cases "n = 0")
      case False
      with Suc.IH obtain m where "fold ?f [0..<n] None = Some m" "m < n" "\<forall>j < n. totals ! m \<le> totals ! j" by auto
      then show ?thesis by (auto simp: less_Suc_eq intro: order.trans)
    qed simp
  qed simp
  with assms that show thesis by (auto simp: greedy_min_idx_def)
qed

text \<open>
  The loop invariant after the items \<open>done\<close>: totals match contents, the contents are the
  consumed indices, and no two totals differ by more than the largest item.
\<close>

definition greedy_inv :: "nat \<Rightarrow> (nat \<Rightarrow> int) \<Rightarrow> int \<Rightarrow> (int \<times> nat) list \<Rightarrow> nat list list \<times> int list \<Rightarrow> bool" where
  "greedy_inv k val d items st \<longleftrightarrow>
     (case st of (parts, totals) \<Rightarrow> length parts = k \<and> length totals = k \<and>
        (\<forall>j < k. totals ! j = sum_list (map val (parts ! j))) \<and>
        mset (concat parts) = mset (map snd items) \<and>
        (\<forall>i < k. \<forall>j < k. totals ! i - totals ! j \<le> d))"

lemma mset_concat_update:
  "m < length xs \<Longrightarrow> mset (concat (xs[m := xs ! m @ [i]])) = add_mset i (mset (concat xs))"
proof (induction xs arbitrary: m)
  case (Cons x xs)
  then show ?case by (cases m) auto
qed simp

lemma greedy_step_inv:
  assumes k: "0 < k" and inv: "greedy_inv k val d items st" and v: "val i = v" "0 \<le> v" "v \<le> d"
  shows "\<exists>st'. greedy_step k (v, i) st = Inr st' \<and> greedy_inv k val d (items @ [(v, i)]) st'"
proof -
  obtain parts totals where st: "st = (parts, totals)" by fastforce
  obtain m where m: "greedy_min_idx totals k = Some m" "m < k" "\<And>j. j < k \<Longrightarrow> totals ! m \<le> totals ! j"
    using greedy_min_idx_Some[OF k] by blast
  let ?p = "parts[m := parts ! m @ [i]]" and ?s = "totals[m := totals ! m + v]"
  from inv[unfolded greedy_inv_def st prod.case]
  have len: "length parts = k" "length totals = k" and totals: "\<And>j. j < k \<Longrightarrow> totals ! j = sum_list (map val (parts ! j))"
    and ms: "mset (concat parts) = mset (map snd items)"
    and d: "\<And>i j. i < k \<Longrightarrow> j < k \<Longrightarrow> totals ! i - totals ! j \<le> d" by auto
  have "?s ! a - ?s ! b \<le> d" if "a < k" "b < k" for a b
    using d[OF that] d[of a m] m(3)[OF that(2)] v that len m(2)
    by (cases "a = m"; cases "b = m") auto
  moreover have "?s ! j = sum_list (map val (?p ! j))" if "j < k" for j
    using totals[OF that] that len m(2) v(1) by (cases "j = m") auto
  moreover have "mset (concat ?p) = mset (map snd (items @ [(v, i)]))"
    using m(2) len ms by (simp add: mset_concat_update)
  ultimately have "greedy_inv k val d (items @ [(v, i)]) (?p, ?s)"
    using len by (simp add: greedy_inv_def)
  then show ?thesis using m(1) by (simp add: greedy_step_def st)
qed

lemma greedy_loop:
  assumes k: "0 < k" and nn: "\<forall>v \<in> set vals. 0 \<le> v" and ne: "vals \<noteq> []"
  obtains parts totals where
    "res_fold (greedy_step k) (zip vals [0..<length vals]) (replicate k [], replicate k 0) = Inr (parts, totals)"
    "length parts = k" "length totals = k" "\<And>j. j < k \<Longrightarrow> totals ! j = sum_list (map ((!) vals) (parts ! j))"
    "mset (concat parts) = mset [0..<length vals]"
    "\<And>i j. i < k \<Longrightarrow> j < k \<Longrightarrow> totals ! i - totals ! j \<le> Max (set vals)"
proof -
  let ?items = "zip vals [0..<length vals]" and ?I = "greedy_inv k ((!) vals) (Max (set vals))"
  have M: "0 \<le> Max (set vals)" using nn ne by (meson List.finite_set Max_ge dual_order.trans hd_in_set)
  have "\<exists>st'. res_fold (greedy_step k) ?items (replicate k [], replicate k 0) = Inr st' \<and> ?I ?items st'"
  proof (rule res_fold_invariant)
    have "concat (replicate k []) = ([] :: nat list)" by (induction k) auto
    then show "?I [] (replicate k [], replicate k 0)" using M by (simp add: greedy_inv_def)
    fix items x post st
    assume "?items = items @ x # post" and inv: "?I items st"
    then have "x \<in> set ?items" by simp
    then obtain v i where x: "x = (v, i)" "i < length vals" "vals ! i = v" by (auto simp: set_zip)
    then have "v \<in> set vals" by auto
    then show "\<exists>st'. greedy_step k x st = Inr st' \<and> ?I (items @ [x]) st'"
      unfolding x(1) using nn x(3) by (intro greedy_step_inv[OF k inv]) auto
  qed
  then obtain parts totals where
    r: "res_fold (greedy_step k) ?items (replicate k [], replicate k 0) = Inr (parts, totals)"
    and i: "?I ?items (parts, totals)" by fastforce
  have snd: "map snd ?items = [0..<length vals]" by (subst map_snd_zip) simp_all
  from i[unfolded greedy_inv_def prod.case snd] show thesis by (intro that[OF r]) blast+
qed

text \<open>
  With a bias above the sum of all values the smallest sum is always that of a partition with
  the fewest items, so the counts stay within one of each other.
\<close>

lemma near_equal_counts:
  assumes "\<forall>x \<in> set xs. \<forall>y \<in> set xs. x \<le> y + 1" "length xs = k" "sum_list xs mod k = (0 :: nat)" "x \<in> set xs"
  shows "x * k = sum_list xs"
proof -
  let ?m = "Min (set xs)" and ?B = "length (filter (\<lambda>y. y = Min (set xs) + 1) xs)"
  have ne: "xs \<noteq> []" "0 < k" using assms by auto
  have m: "?m \<in> set xs" using ne by simp
  have two: "y = ?m \<or> y = ?m + 1" if "y \<in> set xs" for y
  proof -
    have "?m \<le> y" "y \<le> ?m + 1" using that m assms(1) by auto
    then show ?thesis by auto
  qed
  have "sum_list ys = ?m * length ys + length (filter (\<lambda>y. y = ?m + 1) ys)" if "set ys \<subseteq> set xs" for ys
    using that
  proof (induction ys)
    case (Cons y ys)
    then show ?case using two[of y] by auto
  qed simp
  then have sum: "sum_list xs = ?m * k + ?B" using assms(2) by simp
  moreover have "?B < k" using assms(2) m length_filter_less[of ?m xs "\<lambda>y. y = ?m + 1"] by simp
  ultimately have B: "?B = 0" using assms(3) by (metis mod_less mod_mult_self3)
  then have "x = ?m" using two[OF assms(4)] assms(4) by (auto simp: filter_empty_conv)
  with sum B show ?thesis by simp
qed

lemma greedy_biased_counts:
  assumes nn: "\<forall>v \<in> set vals. (0 :: int) \<le> v" and B: "sum_list vals < B"
    and dist: "distinct p" and rng: "set p \<subseteq> {..<length vals}"
  shows "int (length p) * B \<le> sum_list (map ((!) (map (\<lambda>v. v + B) vals)) p)"
    "sum_list (map ((!) (map (\<lambda>v. v + B) vals)) p) < int (Suc (length p)) * B"
proof -
  have "map ((!) (map (\<lambda>v. v + B) vals)) p = map (\<lambda>i. vals ! i + B) p"
    using rng by (auto simp: subset_iff)
  then have s: "sum_list (map ((!) (map (\<lambda>v. v + B) vals)) p) = (\<Sum>i \<leftarrow> p. vals ! i) + int (length p) * B"
    by (simp only: sum_list_addf) (simp add: sum_list_triv)
  have "(\<Sum>i \<leftarrow> p. vals ! i) = (\<Sum>i \<in> set p. vals ! i)"
    using dist by (simp add: sum_list_distinct_conv_sum_set)
  also have "\<dots> \<le> (\<Sum>i < length vals. vals ! i)"
    using rng nn by (intro sum_mono2) auto
  also have "\<dots> = sum_list vals" by (simp add: sum_list_sum_nth atLeast0LessThan)
  finally have "(\<Sum>i \<leftarrow> p. vals ! i) < B" using B by simp
  moreover have "0 \<le> (\<Sum>i \<leftarrow> p. vals ! i)"
    using rng nn by (intro sum_list_nonneg) auto
  ultimately show "int (length p) * B \<le> sum_list (map ((!) (map (\<lambda>v. v + B) vals)) p)"
    "sum_list (map ((!) (map (\<lambda>v. v + B) vals)) p) < int (Suc (length p)) * B"
    by (simp_all add: s distrib_right)
qed

definition greedy_even :: "nat \<Rightarrow> nat list list \<Rightarrow> bool" where
  "greedy_even k parts = (\<forall>i < k. \<forall>j < k. length (parts ! i) \<le> length (parts ! j) + 1)"

lemma greedy_step_even:
  assumes k: "0 < k" and inv: "greedy_inv k ((!) (map (\<lambda>v. v + B) vals)) d items (parts, totals)"
    and even: "greedy_even k parts" and nn: "\<forall>v \<in> set vals. 0 \<le> v" and B: "sum_list vals < B"
    and dist: "distinct (map snd items)" and rng: "set (map snd items) \<subseteq> {..<length vals}"
    and step: "greedy_step k (v, i) (parts, totals) = Inr (parts', totals')"
  shows "greedy_even k parts'"
proof -
  obtain m where m: "greedy_min_idx totals k = Some m" "m < k" "\<And>j. j < k \<Longrightarrow> totals ! m \<le> totals ! j"
    using greedy_min_idx_Some[OF k] by blast
  have p': "parts' = parts[m := parts ! m @ [i]]" using step m(1) by (simp add: greedy_step_def)
  from inv have len: "length parts = k" and totals: "\<And>j. j < k \<Longrightarrow> totals ! j = sum_list (map ((!) (map (\<lambda>v. v + B) vals)) (parts ! j))"
    and cover: "mset (concat parts) = mset (map snd items)" by (auto simp: greedy_inv_def)
  have "distinct (concat parts)" "set (concat parts) \<subseteq> {..<length vals}"
    using dist rng mset_eq_imp_distinct_iff[OF cover] mset_eq_setD[OF cover] by auto
  then have pj: "distinct (parts ! j)" "set (parts ! j) \<subseteq> {..<length vals}" if "j < k" for j
    using that len nth_mem[of j parts] by (auto simp: distinct_concat_iff simp del: nth_mem)
  have Bpos: "0 < B" using nn B sum_list_nonneg[of vals] by auto
  have min: "length (parts ! m) \<le> length (parts ! j)" if "j < k" for j
  proof -
    have "int (length (parts ! m)) * B < int (Suc (length (parts ! j))) * B"
      using greedy_biased_counts(1)[OF nn B pj[OF m(2)]] greedy_biased_counts(2)[OF nn B pj[OF that]]
        m(3)[OF that] totals[OF m(2)] totals[OF that] by linarith
    then have "int (length (parts ! m)) < int (Suc (length (parts ! j)))"
      using Bpos mult_less_cancel_right_pos by blast
    then show ?thesis by simp
  qed
  show ?thesis
    unfolding greedy_even_def p'
  proof (intro allI impI)
    fix a b
    assume "a < k" "b < k"
    then show "length (parts[m := parts ! m @ [i]] ! a) \<le> length (parts[m := parts ! m @ [i]] ! b) + 1"
      using even min[of b] m(2) len unfolding greedy_even_def
      by (cases "a = m"; cases "b = m") (auto simp: le_SucI)
  qed
qed

lemma greedy_equal_loop:
  assumes k: "0 < k" and nn: "\<forall>v \<in> set vals. 0 \<le> v" and B: "sum_list vals < B" and ne: "vals \<noteq> []"
  obtains parts totals where
    "res_fold (greedy_step k) (zip (map (\<lambda>v. v + B) vals) [0..<length vals]) (replicate k [], replicate k 0)
       = Inr (parts, totals)"
    "length parts = k" "mset (concat parts) = mset [0..<length vals]" "greedy_even k parts"
proof -
  let ?bv = "map (\<lambda>v. v + B) vals"
  let ?items = "zip ?bv [0..<length vals]" and ?I = "greedy_inv k ((!) ?bv) (Max (set ?bv))"
  have Bpos: "0 < B" using nn B sum_list_nonneg[of vals] by auto
  obtain v0 where "v0 \<in> set vals" using ne by (meson hd_in_set)
  then have M: "0 \<le> Max (set ?bv)" using nn Bpos
    by (smt (verit) List.finite_set Max_ge image_eqI list.set_map)
  have snd: "map snd ?items = [0..<length vals]" by (subst map_snd_zip) simp_all
  have "\<exists>st'. res_fold (greedy_step k) ?items (replicate k [], replicate k 0) = Inr st' \<and>
      (?I ?items st' \<and> greedy_even k (fst st'))"
  proof (rule res_fold_invariant)
    have "concat (replicate k []) = ([] :: nat list)" by (induction k) auto
    then show "?I [] (replicate k [], replicate k 0) \<and> greedy_even k (fst (replicate k [], replicate k (0 :: int)))"
      using M by (simp add: greedy_inv_def greedy_even_def)
    fix items x post st
    assume split: "?items = items @ x # post" and inv: "?I items st \<and> greedy_even k (fst st)"
    obtain parts totals where st: "st = (parts, totals)" by fastforce
    from split have "x \<in> set ?items" by simp
    then obtain v i where x: "x = (v, i)" "i < length vals" "?bv ! i = v" by (auto simp: set_zip)
    then have v: "v \<in> set ?bv" "0 \<le> v" using nn Bpos by (auto simp: less_imp_le)
    obtain st' where st': "greedy_step k (v, i) st = Inr st'" "?I (items @ [(v, i)]) st'"
      using greedy_step_inv[OF k conjunct1[OF inv] x(3)] v by auto
    have "map snd items @ [i] @ map snd post = [0..<length vals]"
      using arg_cong[OF split, of "map snd"] snd x(1) by simp
    then have d: "distinct (map snd items)" "set (map snd items) \<subseteq> {..<length vals}"
      by (metis distinct_append distinct_upt, metis Un_upper1 atLeast_upt set_append)
    have "greedy_even k (fst st')"
      using greedy_step_even[OF k _ _ nn B d, of _ parts totals v i "fst st'" "snd st'"] inv st' st by auto
    with st' x(1) show "\<exists>st'. greedy_step k x st = Inr st' \<and> ?I (items @ [x]) st' \<and> greedy_even k (fst st')"
      by blast
  qed
  then obtain parts totals where
    r: "res_fold (greedy_step k) ?items (replicate k [], replicate k 0) = Inr (parts, totals)"
    and i: "?I ?items (parts, totals)" and e: "greedy_even k parts" by fastforce
  from i[unfolded greedy_inv_def prod.case snd] e show thesis by (intro that[OF r]) blast+
qed

lemma greedy_even_equal:
  assumes "length parts = k" "mset (concat parts) = mset [0..<n]" "greedy_even k parts" "n mod k = 0" "p \<in> set parts"
  shows "length p * k = n"
proof -
  have "sum_list (map length parts) = n"
    using arg_cong[OF assms(2), of size] by (simp add: length_concat del: mset_upt)
  moreover have "\<forall>x \<in> set (map length parts). \<forall>y \<in> set (map length parts). x \<le> y + 1"
    using assms(1,3) by (auto simp: greedy_even_def in_set_conv_nth)
  ultimately show ?thesis
    using near_equal_counts[of "map length parts" k "length p"] assms by simp
qed

lemma greedy_partition_result:
  assumes k: "0 < k" and ne: "seqlens \<noteq> []" and nn: "\<forall>v \<in> set seqlens. 0 \<le> v"
    and eq: "equal_size \<Longrightarrow> length seqlens mod k = 0"
  obtains ps where "greedy_partition seqlens k equal_size = Inr ps" "length ps = k"
    "mset (concat ps) = mset [0..<length seqlens]"
    "\<forall>p \<in> set ps. equal_size \<longrightarrow> length p * k = length seqlens"
    "\<not> equal_size \<Longrightarrow> \<forall>p \<in> set ps. \<forall>q \<in> set ps.
      sum_list (map ((!) seqlens) p) - sum_list (map ((!) seqlens) q) \<le> Max (set seqlens)"
proof (cases equal_size)
  case True
  obtain parts totals where r: "res_fold (greedy_step k)
      (zip (map (\<lambda>v. v + (sum_list seqlens + 1)) seqlens) [0..<length seqlens]) (replicate k [], replicate k 0) = Inr (parts, totals)"
    "length parts = k" "mset (concat parts) = mset [0..<length seqlens]" "greedy_even k parts"
    using greedy_equal_loop[OF k nn _ ne, of "sum_list seqlens + 1"] by auto
  have "\<forall>p \<in> set parts. length p * k = length seqlens"
    using greedy_even_equal[OF r(2-4) eq[OF True]] by blast
  with r True show thesis by (intro that[of parts]) (auto simp: greedy_partition_def)
next
  case False
  obtain parts totals where r:
    "res_fold (greedy_step k) (zip seqlens [0..<length seqlens]) (replicate k [], replicate k 0) = Inr (parts, totals)"
    "length parts = k" "length totals = k" "\<And>j. j < k \<Longrightarrow> totals ! j = sum_list (map ((!) seqlens) (parts ! j))"
    "mset (concat parts) = mset [0..<length seqlens]"
    "\<And>i j. i < k \<Longrightarrow> j < k \<Longrightarrow> totals ! i - totals ! j \<le> Max (set seqlens)"
    using greedy_loop[OF k nn ne] by blast
  show thesis
  proof (rule that[of parts])
    show "greedy_partition seqlens k equal_size = Inr parts" using r(1) False by (simp add: greedy_partition_def)
    show "\<forall>p \<in> set parts. \<forall>q \<in> set parts.
      sum_list (map ((!) seqlens) p) - sum_list (map ((!) seqlens) q) \<le> Max (set seqlens)"
      using r(2,4,6) by (force simp: in_set_conv_nth)
  qed (use r False in auto)
qed

section \<open>Properties\<close>

lemma get_balanced_Inr:
  assumes "0 < k" "k \<le> length seqlens" "equal_size \<longrightarrow> length seqlens mod k = 0" "\<forall>v \<in> set seqlens. 0 \<le> v"
  obtains ps where "karmarkar_karp seqlens k equal_size = Inr ps"
    "get_seqlen_balanced_partitions seqlens k equal_size = Inr (map sort ps)" "length ps = k"
    "mset (concat ps) = mset [0..<length seqlens]" "\<forall>p \<in> set ps. p \<noteq> []"
    "\<forall>p \<in> set ps. equal_size \<longrightarrow> length p * k = length seqlens"
    "\<forall>p \<in> set ps. \<forall>q \<in> set ps. sum_list (map ((!) seqlens) p) - sum_list (map ((!) seqlens) q)
      \<le> Max (set seqlens) - (if equal_size then Min (set seqlens) else 0)"
proof -
  obtain ps where ps: "karmarkar_karp seqlens k equal_size = Inr ps" "length ps = k"
    "mset (concat ps) = mset [0..<length seqlens]" "\<forall>p \<in> set ps. p \<noteq> []"
    "\<forall>p \<in> set ps. equal_size \<longrightarrow> length p * k = length seqlens"
    "\<forall>p \<in> set ps. \<forall>q \<in> set ps. sum_list (map ((!) seqlens) p) - sum_list (map ((!) seqlens) q)
      \<le> Max (set seqlens) - (if equal_size then Min (set seqlens) else 0)"
    by (rule karmarkar_karp_result[OF assms])
  have "get_seqlen_balanced_partitions seqlens k equal_size = Inr (map sort ps)"
    using assms(2) check_and_sort_ok[OF ps(2-4)]
    by (simp add: get_seqlen_balanced_partitions_def ps(1))
  from that[OF ps(1) this ps(2-6)] show thesis .
qed

lemma balanced_guards:
  assumes "get_seqlen_balanced_partitions seqlens k equal_size = Inr ps"
  shows "0 < k \<and> k \<le> length seqlens \<and> (equal_size \<longrightarrow> k dvd length seqlens)"
proof -
  obtain gs states pq where r: "k \<le> length seqlens" "kk_initial_groups seqlens k equal_size = Inr gs"
    "res_map (\<lambda>items. kk_state_init items k) gs = Inr states" "kk_reduce (fold heappush states []) = Inr pq" "pq \<noteq> []"
    using assms by (auto simp: get_seqlen_balanced_partitions_def karmarkar_karp_def res_bind_eq_Inr py_assert_eq_Inr
        py_nth_def split: if_splits)
  have "k dvd length seqlens" if equal_size
    using r(2) that by (auto simp: kk_initial_groups_def res_bind_eq_Inr py_assert_eq_Inr split: if_splits)
  moreover have "0 < k"
  proof (rule ccontr)
    assume "\<not> 0 < k"
    with r(2) have gs: "gs = map (\<lambda>x. [x]) (kk_sorted_items seqlens)"
      by (auto simp: kk_initial_groups_def split: if_splits)
    with r(3) \<open>\<not> 0 < k\<close> have "gs = []"
      by (cases "kk_sorted_items seqlens") (auto simp: kk_state_init_def res_bind_eq_Inr)
    with r(3-5) show False by (simp add: kk_reduce.simps)
  qed
  ultimately show ?thesis using r(1) by blast
qed

lemma balanced_facts:
  assumes nn: "\<forall>v \<in> set seqlens. 0 \<le> v" and r: "get_seqlen_balanced_partitions seqlens k equal_size = Inr ps"
  shows "length ps = k \<and> mset (concat ps) = mset [0..<length seqlens] \<and> (\<forall>p \<in> set ps. p \<noteq> [] \<and> sorted p) \<and>
    (equal_size \<longrightarrow> (\<forall>p \<in> set ps. length p * k = length seqlens))"
proof -
  have g: "0 < k" "k \<le> length seqlens" "equal_size \<longrightarrow> length seqlens mod k = 0"
    using balanced_guards[OF r] by (auto simp: mod_eq_0_iff_dvd)
  obtain ps' where "get_seqlen_balanced_partitions seqlens k equal_size = Inr (map sort ps')" "length ps' = k"
    "mset (concat ps') = mset [0..<length seqlens]" "\<forall>p \<in> set ps'. p \<noteq> []"
    "\<forall>p \<in> set ps'. equal_size \<longrightarrow> length p * k = length seqlens"
    by (rule get_balanced_Inr[OF g nn])
  with r show ?thesis by (auto simp: mset_concat_map_sort simp del: mset_upt)
qed

lemma balanced_ok:
  assumes "0 < k" "k \<le> length seqlens" "equal_size \<longrightarrow> length seqlens mod k = 0" "\<forall>v \<in> set seqlens. 0 \<le> v"
  shows "\<exists>ps. get_seqlen_balanced_partitions seqlens k equal_size = Inr ps"
  by (rule get_balanced_Inr[OF assms]) blast

text \<open>
  C1: for at least as many non-negative values as partitions (and a divisible count when equal
  sizes are asked for), \<open>get_seqlen_balanced_partitions\<close> raises nothing: it returns exactly
  \<open>k\<close> lists, each sorted and non-empty, that together hold every index exactly once, each of
  \<open>n / k\<close> items when \<open>equal_size\<close> is set.
\<close>

theorem balanced_partitions_correct:
  assumes "0 < k" "k \<le> length seqlens" "equal_size \<longrightarrow> length seqlens mod k = 0"
    and "\<forall>v \<in> set seqlens. 0 \<le> v"
  shows "\<exists>ps. get_seqlen_balanced_partitions seqlens k equal_size = Inr ps \<and> length ps = k \<and>
    mset (concat ps) = mset [0..<length seqlens] \<and> (\<forall>p \<in> set ps. p \<noteq> [] \<and> sorted p) \<and>
    (equal_size \<longrightarrow> (\<forall>p \<in> set ps. length p * k = length seqlens))"
proof -
  obtain ps where "get_seqlen_balanced_partitions seqlens k equal_size = Inr (map sort ps)" "length ps = k"
    "mset (concat ps) = mset [0..<length seqlens]" "\<forall>p \<in> set ps. p \<noteq> []"
    "\<forall>p \<in> set ps. equal_size \<longrightarrow> length p * k = length seqlens"
    by (rule get_balanced_Inr[OF assms])
  then show ?thesis by (intro exI[of _ "map sort ps"]) (simp add: mset_concat_map_sort del: mset_upt)
qed

theorem balanced_partitions_correct_witness:
  "\<exists>ps. get_seqlen_balanced_partitions [5, 3, 0, 8] 2 True = Inr ps \<and> length ps = 2 \<and>
    mset (concat ps) = mset [0..<length [5, 3, 0, 8 :: int]] \<and> (\<forall>p \<in> set ps. p \<noteq> [] \<and> sorted p) \<and>
    (True \<longrightarrow> (\<forall>p \<in> set ps. length p * 2 = length [5, 3, 0, 8 :: int]))"
  by (rule balanced_partitions_correct) simp_all

text \<open>
  C2: the balance guarantee of the differencing method: for non-negative values the loads of
  two partitions never differ by more than the largest value, and by no more than the largest
  minus the smallest value when equal sizes are asked for.
\<close>

theorem balanced_partitions_load_gap:
  assumes "0 < k" "\<forall>v \<in> set seqlens. 0 \<le> v"
    and "get_seqlen_balanced_partitions seqlens k equal_size = Inr ps" "p \<in> set ps" "q \<in> set ps"
  shows "sum_list (map ((!) seqlens) p) - sum_list (map ((!) seqlens) q)
    \<le> Max (set seqlens) - (if equal_size then Min (set seqlens) else 0)"
proof -
  have le: "k \<le> length seqlens"
    using assms(3) by (simp add: get_seqlen_balanced_partitions_def res_bind_eq_Inr py_assert_eq_Inr)
  have dv: "equal_size \<longrightarrow> length seqlens mod k = 0"
    using assms(3) by (auto simp: get_seqlen_balanced_partitions_def karmarkar_karp_def
        kk_initial_groups_def res_bind_eq_Inr py_assert_eq_Inr split: if_splits)
  obtain ps' where "get_seqlen_balanced_partitions seqlens k equal_size = Inr (map sort ps')"
    "\<forall>p \<in> set ps'. \<forall>q \<in> set ps'. sum_list (map ((!) seqlens) p) - sum_list (map ((!) seqlens) q)
      \<le> Max (set seqlens) - (if equal_size then Min (set seqlens) else 0)"
    by (rule get_balanced_Inr[OF assms(1) le dv assms(2)])
  with assms(3-5) show ?thesis by (auto simp: sum_list_map_sort)
qed

theorem balanced_partitions_load_gap_witness:
  "get_seqlen_balanced_partitions [4, 5, 6, 7] 2 True = Inr [[0, 3], [1, 2]] \<and>
   sum_list (map ((!) [4, 5, 6, 7]) [0, 3]) - sum_list (map ((!) [4, 5, 6, 7 :: int]) [1, 2]) \<le> 3"
proof -
  have r: "get_seqlen_balanced_partitions [4, 5, 6, 7] 2 True = Inr [[0, 3], [1, 2]]" by code_simp
  show ?thesis using balanced_partitions_load_gap[OF _ _ r, of "[0, 3]" "[1, 2]"] r by simp
qed

text \<open>
  With non-negative values the wrapper returns exactly when there is a partition to
  ask for, at least that many values, and a divisible count under \<open>equal_size\<close>; in every other
  case one of its checks raises.
\<close>

theorem balanced_partitions_returns_iff:
  assumes "\<forall>v \<in> set seqlens. 0 \<le> v"
  shows "(\<exists>ps. get_seqlen_balanced_partitions seqlens k equal_size = Inr ps) \<longleftrightarrow>
    0 < k \<and> k \<le> length seqlens \<and> (equal_size \<longrightarrow> k dvd length seqlens)"
proof
  assume "\<exists>ps. get_seqlen_balanced_partitions seqlens k equal_size = Inr ps"
  then show "0 < k \<and> k \<le> length seqlens \<and> (equal_size \<longrightarrow> k dvd length seqlens)"
    using balanced_guards by blast
next
  assume "0 < k \<and> k \<le> length seqlens \<and> (equal_size \<longrightarrow> k dvd length seqlens)"
  then show "\<exists>ps. get_seqlen_balanced_partitions seqlens k equal_size = Inr ps"
    using balanced_ok[of k seqlens equal_size] assms by (auto simp: mod_eq_0_iff_dvd)
qed

theorem balanced_partitions_returns_iff_witness:
  "(\<exists>ps. get_seqlen_balanced_partitions [1, 2, 3] 2 True = Inr ps) \<longleftrightarrow>
    0 < (2 :: nat) \<and> 2 \<le> length [1, 2, 3 :: int] \<and> (True \<longrightarrow> 2 dvd length [1, 2, 3 :: int])"
  by (rule balanced_partitions_returns_iff) simp

text \<open>
  The greedy partitioner on non-negative values raises nothing and covers every index
  once; its bias makes the partitions equally long when \<open>equal_size\<close> is set, and without it
  the loads differ by at most the largest value.
\<close>

theorem greedy_partition_correct:
  assumes "0 < k" "seqlens \<noteq> []" "\<forall>v \<in> set seqlens. 0 \<le> v" "equal_size \<longrightarrow> k dvd length seqlens"
  shows "\<exists>ps. greedy_partition seqlens k equal_size = Inr ps \<and> length ps = k \<and>
    mset (concat ps) = mset [0..<length seqlens] \<and>
    (\<forall>p \<in> set ps. if equal_size then length p * k = length seqlens
      else \<forall>q \<in> set ps. sum_list (map ((!) seqlens) p) - sum_list (map ((!) seqlens) q) \<le> Max (set seqlens))"
proof -
  obtain ps where ps: "greedy_partition seqlens k equal_size = Inr ps" "length ps = k"
    "mset (concat ps) = mset [0..<length seqlens]"
    "\<forall>p \<in> set ps. equal_size \<longrightarrow> length p * k = length seqlens"
    "\<not> equal_size \<Longrightarrow> \<forall>p \<in> set ps. \<forall>q \<in> set ps.
      sum_list (map ((!) seqlens) p) - sum_list (map ((!) seqlens) q) \<le> Max (set seqlens)"
    by (rule greedy_partition_result[OF assms(1-3), of equal_size]) (use assms(4) in auto)
  then show ?thesis by (intro exI[of _ ps]) auto
qed

theorem greedy_partition_correct_witness:
  "\<exists>ps. greedy_partition [4, 5, 6, 7] 2 True = Inr ps \<and> length ps = 2 \<and>
    mset (concat ps) = mset [0..<length [4, 5, 6, 7 :: int]] \<and>
    (\<forall>p \<in> set ps. if True then length p * 2 = length [4, 5, 6, 7 :: int]
      else \<forall>q \<in> set ps. sum_list (map ((!) [4, 5, 6, 7]) p) - sum_list (map ((!) [4, 5, 6, 7]) q)
        \<le> Max (set [4, 5, 6, 7 :: int]))"
  by (rule greedy_partition_correct) simp_all

end
