(* ===== verification/Micro_Batching.thy ===== *)
theory Micro_Batching
  imports Karmarkar_Karp
begin

text \<open>
  The dynamic batching half of \<open>verl/utils/seqlen_balancing.py\<close>: the workload estimate, the
  number of micro-batches, their index lists (grouping, sorting, placement), the inverse map
  that restores the order of the rows, and the partition that keeps the samples of one prompt
  together. A \<open>TensorDict\<close> is a dictionary of row lists; a collective of
  \<open>torch.distributed\<close> is a parameter.
\<close>

section \<open>Arithmetic helpers\<close>

definition calculate_workload :: "int \<Rightarrow> int" where
  "calculate_workload seqlen = 24576 * seqlen + seqlen ^ 2"

definition ceildiv :: "int \<Rightarrow> int \<Rightarrow> int result" where
  "ceildiv a b = (if b = 0 then Inl ZeroDivisionError else Inr (- (a div (- b))))"

definition roundup_divisible :: "int \<Rightarrow> int \<Rightarrow> int result" where
  "roundup_divisible a b = (if b = 0 then Inl ZeroDivisionError else Inr (((a + b - 1) div b) * b))"

section \<open>Selecting rows\<close>

text \<open>
  A value of a \<open>TensorDict\<close>: a dense tensor or a non-tensor stack (indexed along the batch
  dimension), a nested tensor (its list of rows), or scalar metadata, which selection keeps.
\<close>

datatype 'r td_value = Dense_Rows "'r list" | Nested_Rows "'r list" | Scalar_Data 'r

type_synonym 'r tensor_dict = "(string, 'r td_value) dict"

definition index_rows :: "'r list \<Rightarrow> nat list \<Rightarrow> 'r list result" where
  "index_rows rows indices = res_map (py_nth rows) indices"

fun select_td_value :: "nat list \<Rightarrow> 'r td_value \<Rightarrow> 'r td_value result" where
  "select_td_value indices (Dense_Rows rows) = res_bind (index_rows rows indices) (\<lambda>r. Inr (Dense_Rows r))"
| "select_td_value indices (Nested_Rows rows) = res_bind (index_rows rows indices) (\<lambda>r. Inr (Nested_Rows r))"
| "select_td_value indices (Scalar_Data d) = Inr (Scalar_Data d)"

definition index_select_tensor_dict :: "'r tensor_dict option \<Rightarrow> nat list \<Rightarrow> 'r tensor_dict option result" where
  "index_select_tensor_dict batch indices =
     (case batch of
        None \<Rightarrow> Inr None
      | Some td \<Rightarrow> res_bind (res_map (\<lambda>(key, v). res_bind (select_td_value indices v) (\<lambda>w. Inr (key, w))) td)
                    (\<lambda>sel. Inr (Some sel)))"

section \<open>Micro-batches\<close>

text \<open>
  What \<open>rearrange_micro_batches\<close> reads of the batch: the row lengths of nested \<open>input_ids\<close>,
  or the width and the rows of \<open>attention_mask\<close>.
\<close>

datatype batch_lens = Nested_Ids "int list" | Padded_Mask int "int list list"

fun seq_len_effective :: "batch_lens \<Rightarrow> int list" where
  "seq_len_effective (Nested_Ids lens) = lens"
| "seq_len_effective (Padded_Mask width rows) = map sum_list rows"

fun max_seq_len :: "batch_lens \<Rightarrow> int result" where
  "max_seq_len (Nested_Ids lens) = (if lens = [] then Inl ValueError else Inr (Max (set lens)))"
| "max_seq_len (Padded_Mask width rows) = Inr width"

record rmb_args =
  max_token_len :: int
  dist_initialized :: bool
  dp_group_given :: bool
  num_batches_divided_by :: "int option"
  same_micro_num_in_dp :: bool
  min_num_micro_batch :: "int option"
  use_dynamic_bsz_balance :: bool
  force_group_size :: nat

text \<open>
  The number of micro-batches. \<open>all_reduce_max\<close> is what the collective returns for the
  local value: the maximum over the data-parallel group.
\<close>

definition num_micro_batches :: "(int \<Rightarrow> int) \<Rightarrow> rmb_args \<Rightarrow> int list \<Rightarrow> int result" where
  "num_micro_batches all_reduce_max args lens =
     (let num_groups = int (length lens div force_group_size args)
      in res_bind (ceildiv (sum_list lens) (max_token_len args)) (\<lambda>c.
         let n0 = min num_groups c;
             n1 = (case min_num_micro_batch args of None \<Rightarrow> n0 | Some m \<Rightarrow> max m n0);
             n2 = (if dist_initialized args \<and> same_micro_num_in_dp args \<and> dp_group_given args
                   then all_reduce_max n1 else n1)
         in (case num_batches_divided_by args of None \<Rightarrow> Inr n2 | Some d \<Rightarrow> roundup_divisible n2 d)))"

definition group_workloads :: "nat \<Rightarrow> int list \<Rightarrow> int list" where
  "group_workloads g lens =
     map (\<lambda>j. sum_list (map calculate_workload (take g (drop (j * g) lens)))) [0..<length lens div g]"

definition expand_group :: "nat \<Rightarrow> nat \<Rightarrow> nat list" where
  "expand_group g group_idx = [group_idx * g..<group_idx * g + g]"

definition micro_bsz_indices :: "nat \<Rightarrow> int list \<Rightarrow> int \<Rightarrow> (nat list list \<times> int list) result" where
  "micro_bsz_indices g lens num =
     (if g > 1 then
        (let workloads = group_workloads g lens
         in res_bind (get_seqlen_balanced_partitions workloads (nat num) False) (\<lambda>parts.
              Inr (map (\<lambda>p. concat (map (expand_group g) p)) parts, workloads)))
      else
        (let workloads = map calculate_workload lens
         in res_bind (get_seqlen_balanced_partitions workloads (nat num) False) (\<lambda>parts.
              Inr (parts, workloads))))"

definition micro_sort_key :: "nat \<Rightarrow> int list \<Rightarrow> nat list \<Rightarrow> int \<times> nat" where
  "micro_sort_key g workloads p =
     ((if g > 1 then sum_list (map (\<lambda>idx. workloads ! (idx div g)) (stride g p))
       else sum_list (map (\<lambda>idx. workloads ! idx) p)),
      (case p of [] \<Rightarrow> 0 | x # _ \<Rightarrow> x))"

text \<open>\<open>xs[::2][::-1] + xs[1::2]\<close>: the smaller micro-batches at both ends.\<close>

definition place_at_ends :: "'a list \<Rightarrow> 'a list" where
  "place_at_ends xs = rev (stride 2 xs) @ stride 2 (drop 1 xs)"

definition balance_order :: "nat \<Rightarrow> int list \<Rightarrow> nat list list \<Rightarrow> nat list list" where
  "balance_order g workloads idx = place_at_ends (py_sort_desc (micro_sort_key g workloads) idx)"

definition rearrange_micro_batches ::
  "(int \<Rightarrow> int) \<Rightarrow> rmb_args \<Rightarrow> batch_lens \<Rightarrow> 'r tensor_dict option
    \<Rightarrow> ('r tensor_dict option list \<times> nat list list) result" where
  "rearrange_micro_batches all_reduce_max args ids batch =
     (let lens = seq_len_effective ids; g = force_group_size args in
      res_bind (max_seq_len ids) (\<lambda>m.
      res_bind (py_assert (max_token_len args \<ge> m)) (\<lambda>_.
      if g = 0 then Inl ZeroDivisionError else
      res_bind (py_assert (length lens mod g = 0)) (\<lambda>_.
      res_bind (num_micro_batches all_reduce_max args lens) (\<lambda>num.
      res_bind (py_assert (num \<le> int (length lens div g))) (\<lambda>_.
      res_bind (micro_bsz_indices g lens num) (\<lambda>(idx, workloads).
        let idx' = (if use_dynamic_bsz_balance args then balance_order g workloads idx else idx)
        in res_bind (res_map (index_select_tensor_dict batch) idx') (\<lambda>micro_batches.
             Inr (micro_batches, idx')))))))))"

section \<open>Restoring the order\<close>

definition get_reverse_idx :: "nat list \<Rightarrow> nat list result" where
  "get_reverse_idx idx_map =
     res_fold (\<lambda>(i, idx) rev_map. if idx < length rev_map then Inr (rev_map[idx := i]) else Inl IndexError)
       (zip [0..<length idx_map] idx_map) idx_map"

definition restore_dynamic_batch :: "'r list \<Rightarrow> nat list list \<Rightarrow> 'r list result" where
  "restore_dynamic_batch rows batch_idx_list =
     (let indices = concat batch_idx_list in
      res_bind (py_assert (length indices = length rows)) (\<lambda>_.
      res_bind (get_reverse_idx indices) (\<lambda>revert_indices.
        index_rows rows revert_indices)))"

section \<open>Partitions that keep groups together\<close>

text \<open>The runs of equal uids, each with its indices (the loop's \<open>groups\<close>, then the last one).\<close>

definition group_step :: "(nat \<times> 'u) \<Rightarrow> (nat list list \<times> 'u option \<times> nat list)
    \<Rightarrow> (nat list list \<times> 'u option \<times> nat list)" where
  "group_step item st =
     (case (item, st) of ((i, uid), (groups, current_uid, current_indices)) \<Rightarrow>
        if Some uid \<noteq> current_uid then
          ((if current_indices \<noteq> [] then groups @ [current_indices] else groups), Some uid, [i])
        else (groups, current_uid, current_indices @ [i]))"

definition uid_groups :: "'u list \<Rightarrow> nat list list" where
  "uid_groups uids =
     (case fold group_step (zip [0..<length uids] uids) ([], None, []) of
        (groups, _, current_indices) \<Rightarrow>
          if current_indices \<noteq> [] then groups @ [current_indices] else groups)"

definition get_group_balanced_partitions :: "int list \<Rightarrow> 'u list \<Rightarrow> nat \<Rightarrow> nat list list result" where
  "get_group_balanced_partitions seqlens uids k =
     res_bind (py_assert (length seqlens = length uids)) (\<lambda>_.
     let groups = uid_groups uids in
     res_bind (py_assert (length groups \<ge> k)) (\<lambda>_.
     let workloads = map (\<lambda>indices. sum_list (map (\<lambda>i. calculate_workload (seqlens ! i)) indices)) groups in
     res_bind (get_seqlen_balanced_partitions workloads k True) (\<lambda>parts.
       Inr (map (\<lambda>p. sort (concat (map (\<lambda>gi. groups ! gi) p))) parts))))"

section \<open>Strides and placement\<close>

lemma set_stride_subset: "set (stride n xs) \<subseteq> set xs"
  by (induction n xs rule: stride.induct) (auto dest: in_set_dropD)

lemma sorted_wrt_stride: "sorted_wrt R xs \<Longrightarrow> sorted_wrt R (stride n xs)"
proof (induction n xs rule: stride.induct)
  case (2 n x xs)
  then show ?case using set_stride_subset[of n "drop (n - 1) xs"] by (auto dest: in_set_dropD)
qed simp

lemma mset_stride_2: "mset (stride 2 xs) + mset (stride 2 (drop 1 xs)) = mset xs"
  by (induction xs) (auto simp: drop_Suc ac_simps)

lemma mset_place_at_ends [simp]: "mset (place_at_ends xs) = mset xs"
  using mset_stride_2[of xs] by (simp add: place_at_ends_def)

lemma mset_balance_order [simp]: "mset (balance_order g w idx) = mset idx"
  by (simp add: balance_order_def)

lemma set_balance_order [simp]: "set (balance_order g w idx) = set idx"
  by (metis mset_balance_order mset_eq_setD)

section \<open>Workloads\<close>

lemma calculate_workload_nonneg: "0 \<le> s \<Longrightarrow> 0 \<le> calculate_workload s"
  by (simp add: calculate_workload_def)

lemma group_workloads_nonneg: "\<forall>v \<in> set lens. 0 \<le> v \<Longrightarrow> \<forall>v \<in> set (group_workloads g lens). 0 \<le> v"
  by (auto simp: group_workloads_def intro!: sum_list_nonneg calculate_workload_nonneg
      dest!: in_set_takeD in_set_dropD)

lemma length_group_workloads [simp]: "length (group_workloads g lens) = length lens div g"
  by (simp add: group_workloads_def)

section \<open>Groups of consecutive samples\<close>

lemma mset_expand_groups:
  assumes "mset ps = mset [0..<m]"
  shows "mset (concat (map (expand_group g) ps)) = mset [0..<m * g]"
proof -
  have "concat (map (expand_group g) [0..<m]) = [0..<m * g]" for m
  proof (induction m)
    case (Suc m)
    have "[0..<Suc m * g] = [0..<m * g] @ [m * g..<m * g + g]"
      using upt_add_eq_append[of 0 "m * g" g] by (simp add: add.commute)
    with Suc show ?case by (simp add: expand_group_def)
  qed simp
  moreover have "mset (map (expand_group g) ps) = mset (map (expand_group g) [0..<m])"
    using assms by (metis mset_map)
  ultimately show ?thesis by (metis mset_concat_cong)
qed

lemma concat_expand_groups: "concat (map (\<lambda>p. concat (map (expand_group g) p)) ps) = concat (map (expand_group g) (concat ps))"
  by (induction ps) auto

lemma in_expand_groups: "0 < g \<Longrightarrow> i \<in> set (concat (map (expand_group g) p)) \<longleftrightarrow> i div g \<in> set p"
proof -
  assume "0 < g"
  then have "i \<in> set (expand_group g j) \<longleftrightarrow> i div g = j" for j
    by (auto simp: expand_group_def div_nat_eqI mult.commute dividend_less_times_div div_times_less_eq_dividend
        dividend_less_div_times add.commute)
  then show ?thesis by auto
qed

lemma micro_bsz_indices_facts:
  assumes g: "0 < g" "length lens mod g = 0" and nn: "\<forall>v \<in> set lens. 0 \<le> v"
    and r: "micro_bsz_indices g lens num = Inr (idx, w)"
  shows "int (length idx) = num \<and> 0 < num \<and> mset (concat idx) = mset [0..<length lens] \<and> [] \<notin> set idx \<and>
    (\<forall>p \<in> set idx. \<forall>i j. i div g = j div g \<longrightarrow> (i \<in> set p \<longleftrightarrow> j \<in> set p))"
proof (cases "g > 1")
  case True
  then obtain parts where p: "get_seqlen_balanced_partitions (group_workloads g lens) (nat num) False = Inr parts"
    "idx = map (\<lambda>p. concat (map (expand_group g) p)) parts"
    using r by (auto simp: micro_bsz_indices_def Let_def res_bind_eq_Inr)
  note f = balanced_facts[OF group_workloads_nonneg[OF nn] p(1)] balanced_guards[OF p(1)]
  have "mset (concat idx) = mset [0..<length lens]"
    using mset_expand_groups[of "concat parts" "length lens div g" g] f g
    by (simp add: p(2) concat_expand_groups mod_eq_0_iff_dvd del: mset_upt)
  moreover have "[] \<notin> set idx" using f(1) g by (auto simp: p(2) expand_group_def)
  moreover have "i \<in> set p \<longleftrightarrow> j \<in> set p" if "p \<in> set idx" "i div g = j div g" for p i j
    using that in_expand_groups[OF g(1)] by (auto simp: p(2) simp del: set_concat)
  moreover have "int (length idx) = num \<and> 0 < num" using f p(2) by simp
  ultimately show ?thesis by blast
next
  case False
  with g have g1: "g = 1" by simp
  with r obtain parts where p: "get_seqlen_balanced_partitions (map calculate_workload lens) (nat num) False = Inr parts" "idx = parts"
    by (auto simp: micro_bsz_indices_def Let_def res_bind_eq_Inr)
  have "\<forall>v \<in> set (map calculate_workload lens). 0 \<le> v" using nn by (auto intro: calculate_workload_nonneg)
  from balanced_facts[OF this p(1)] balanced_guards[OF p(1)] p(2) g1 show ?thesis by auto
qed

section \<open>What a run of the splitter establishes\<close>

lemma rearrange_Inr:
  assumes "rearrange_micro_batches ar args ids batch = Inr (mbs, idx)"
  obtains m num idx0 w where "max_seq_len ids = Inr m" "m \<le> max_token_len args" "0 < force_group_size args"
    "length (seq_len_effective ids) mod force_group_size args = 0"
    "num_micro_batches ar args (seq_len_effective ids) = Inr num"
    "num \<le> int (length (seq_len_effective ids) div force_group_size args)"
    "micro_bsz_indices (force_group_size args) (seq_len_effective ids) num = Inr (idx0, w)"
    "idx = (if use_dynamic_bsz_balance args then balance_order (force_group_size args) w idx0 else idx0)"
    "res_map (index_select_tensor_dict batch) idx = Inr mbs"
  using assms unfolding rearrange_micro_batches_def Let_def
  by (auto simp: res_bind_eq_Inr py_assert_eq_Inr split: if_splits prod.splits)

lemma rearrange_facts:
  assumes nn: "\<forall>v \<in> set (seq_len_effective ids). 0 \<le> v"
    and r: "rearrange_micro_batches ar args ids batch = Inr (mbs, idx)"
  shows "num_micro_batches ar args (seq_len_effective ids) = Inr (int (length idx)) \<and>
    mset (concat idx) = mset [0..<length (seq_len_effective ids)] \<and> [] \<notin> set idx \<and>
    (\<forall>p \<in> set idx. \<forall>i j. i div force_group_size args = j div force_group_size args \<longrightarrow> (i \<in> set p \<longleftrightarrow> j \<in> set p))"
  using r
proof (rule rearrange_Inr)
  fix m num idx0 w
  assume a: "0 < force_group_size args" "length (seq_len_effective ids) mod force_group_size args = 0"
    "num_micro_batches ar args (seq_len_effective ids) = Inr num"
    "micro_bsz_indices (force_group_size args) (seq_len_effective ids) num = Inr (idx0, w)"
    "idx = (if use_dynamic_bsz_balance args then balance_order (force_group_size args) w idx0 else idx0)"
  have m: "mset idx = mset idx0" using a(5) by simp
  note same = mset_eq_length[OF m] mset_eq_setD[OF m] mset_concat_cong[OF m]
  show ?thesis
    using micro_bsz_indices_facts[OF a(1,2) nn a(4)] a(3) unfolding same by blast
qed

definition td_value_rows_ok :: "nat \<Rightarrow> 'r td_value \<Rightarrow> bool" where
  "td_value_rows_ok n v = (case v of Dense_Rows rows \<Rightarrow> length rows = n | Nested_Rows rows \<Rightarrow> length rows = n | Scalar_Data _ \<Rightarrow> True)"

definition batch_rows_ok :: "nat \<Rightarrow> 'r tensor_dict option \<Rightarrow> bool" where
  "batch_rows_ok n batch = (case batch of None \<Rightarrow> True | Some td \<Rightarrow> \<forall>(key, v) \<in> set td. td_value_rows_ok n v)"

definition pick_td_value :: "nat list \<Rightarrow> 'r td_value \<Rightarrow> 'r td_value" where
  "pick_td_value p v = (case v of Dense_Rows rows \<Rightarrow> Dense_Rows (map ((!) rows) p)
     | Nested_Rows rows \<Rightarrow> Nested_Rows (map ((!) rows) p) | Scalar_Data d \<Rightarrow> Scalar_Data d)"

lemma index_rows_Inr: "\<forall>i \<in> set p. i < length rows \<Longrightarrow> index_rows rows p = Inr (map ((!) rows) p)"
  unfolding index_rows_def by (rule res_map_all_Inr) simp

lemma index_select_Inr:
  assumes "batch_rows_ok n batch" "\<forall>i \<in> set p. i < n"
  shows "index_select_tensor_dict batch p = Inr (map_option (map (\<lambda>(key, v). (key, pick_td_value p v))) batch)"
proof (cases batch)
  case (Some td)
  have "select_td_value p v = Inr (pick_td_value p v)" if "(key, v) \<in> set td" for key v
    using that assms Some by (cases v) (auto simp: batch_rows_ok_def td_value_rows_ok_def pick_td_value_def index_rows_Inr)
  then have "res_map (\<lambda>(key, v). res_bind (select_td_value p v) (\<lambda>w. Inr (key, w))) td
      = Inr (map (\<lambda>(key, v). (key, pick_td_value p v)) td)"
    by (intro res_map_all_Inr) auto
  with Some show ?thesis by (simp add: index_select_tensor_dict_def)
qed (simp add: index_select_tensor_dict_def)

lemma micro_bsz_indices_ok:
  assumes "0 < num" "num \<le> int (length lens div g)" "0 < g" "\<forall>v \<in> set lens. 0 \<le> v"
  shows "\<exists>idx w. micro_bsz_indices g lens num = Inr (idx, w)"
proof (cases "g > 1")
  case True
  have "\<exists>ps. get_seqlen_balanced_partitions (group_workloads g lens) (nat num) False = Inr ps"
    by (rule balanced_ok) (use assms group_workloads_nonneg in auto)
  with True show ?thesis by (auto simp: micro_bsz_indices_def Let_def)
next
  case False
  with assms(3) have "g = 1" by simp
  have "\<exists>ps. get_seqlen_balanced_partitions (map calculate_workload lens) (nat num) False = Inr ps"
    by (rule balanced_ok) (use assms \<open>g = 1\<close> in \<open>auto intro: calculate_workload_nonneg\<close>)
  with False show ?thesis by (auto simp: micro_bsz_indices_def Let_def)
qed

definition rearrange_ready :: "(int \<Rightarrow> int) \<Rightarrow> rmb_args \<Rightarrow> batch_lens \<Rightarrow> bool" where
  "rearrange_ready ar args ids = (\<exists>m num. max_seq_len ids = Inr m \<and> m \<le> max_token_len args \<and>
     0 < force_group_size args \<and> length (seq_len_effective ids) mod force_group_size args = 0 \<and>
     num_micro_batches ar args (seq_len_effective ids) = Inr num \<and>
     0 < num \<and> num \<le> int (length (seq_len_effective ids) div force_group_size args))"

lemma rearrange_ok:
  assumes nn: "\<forall>v \<in> set (seq_len_effective ids). 0 \<le> v"
    and b: "batch_rows_ok (length (seq_len_effective ids)) batch" and rd: "rearrange_ready ar args ids"
  shows "\<exists>r. rearrange_micro_batches ar args ids batch = Inr r"
proof -
  let ?n = "length (seq_len_effective ids)" and ?g = "force_group_size args"
  obtain m num where a: "max_seq_len ids = Inr m" "m \<le> max_token_len args" "0 < ?g" "?n mod ?g = 0"
    "num_micro_batches ar args (seq_len_effective ids) = Inr num" "0 < num" "num \<le> int (?n div ?g)"
    using rd by (auto simp: rearrange_ready_def)
  obtain idx0 w where w: "micro_bsz_indices ?g (seq_len_effective ids) num = Inr (idx0, w)"
    using micro_bsz_indices_ok[OF a(6,7,3) nn] by blast
  define idx where "idx = (if use_dynamic_bsz_balance args then balance_order ?g w idx0 else idx0)"
  have "set (concat idx0) = {0..<?n}"
    using micro_bsz_indices_facts[OF a(3,4) nn w] mset_eq_setD[of "concat idx0" "[0..<?n]"] by simp
  moreover have "set idx = set idx0" by (simp add: idx_def)
  ultimately have "\<forall>i \<in> set p. i < ?n" if "p \<in> set idx" for p using that by auto
  then have "res_map (index_select_tensor_dict batch) idx
      = Inr (map (\<lambda>p. map_option (map (\<lambda>(key, v). (key, pick_td_value p v))) batch) idx)"
    by (intro res_map_all_Inr index_select_Inr[OF b])
  with a w show ?thesis by (simp add: rearrange_micro_batches_def Let_def idx_def)
qed

section \<open>Inverse index lists\<close>

lemma get_reverse_idx_perm:
  assumes p: "mset xs = mset [0..<n]"
  shows "\<exists>ys. get_reverse_idx xs = Inr ys \<and> length ys = n \<and> (\<forall>i < n. ys ! (xs ! i) = i)"
proof -
  have d: "distinct xs" "set xs = {0..<n}" "length xs = n"
    using p mset_eq_upt_iff[of xs n] mset_eq_length[OF p] by auto
  let ?I = "\<lambda>pre ys. length ys = n \<and> (\<forall>i < length pre. ys ! (xs ! i) = i)"
  have "\<exists>ys. res_fold (\<lambda>(i, idx) rev_map. if idx < length rev_map then Inr (rev_map[idx := i]) else Inl IndexError)
      (zip [0..<length xs] xs) xs = Inr ys \<and> ?I (zip [0..<length xs] xs) ys"
  proof (rule res_fold_invariant)
    show "?I [] xs" using d by simp
    fix pre x post ys
    assume z: "zip [0..<length xs] xs = pre @ x # post" and i: "?I pre ys"
    have len: "length pre < n" using arg_cong[OF z, of length] d(3) by simp
    have "x = zip [0..<length xs] xs ! length pre" by (simp add: z)
    then have x: "x = (length pre, xs ! length pre)" using len d(3) by simp
    have "xs ! length pre < n" using d len by (metis atLeastLessThan_iff nth_mem)
    moreover have "xs ! length pre \<noteq> xs ! j" if "j < length pre" for j
      using that d len by (metis less_trans nat_neq_iff nth_eq_iff_index_eq)
    ultimately show "\<exists>s'. (case x of (i, idx) \<Rightarrow> \<lambda>rev_map. if idx < length rev_map then Inr (rev_map[idx := i]) else Inl IndexError) ys = Inr s' \<and> ?I (pre @ [x]) s'"
      using i x by (auto simp: nth_list_update less_Suc_eq)
  qed
  then show ?thesis using d(3) by (auto simp: get_reverse_idx_def)
qed

lemma reverse_both:
  assumes p: "mset xs = mset [0..<n]" and ys: "length ys = n" "\<forall>i < n. ys ! (xs ! i) = i" and j: "j < n"
  shows "ys ! j < n \<and> xs ! (ys ! j) = j"
proof -
  have d: "set xs = {0..<n}" "length xs = n"
    using p mset_eq_upt_iff[of xs n] mset_eq_length[OF p] by auto
  with j obtain i where "i < n" "xs ! i = j" by (metis atLeast0LessThan in_set_conv_nth lessThan_iff)
  with ys show ?thesis by auto
qed

lemma restore_permuted:
  assumes p: "mset (concat idx) = mset [0..<n]" and l: "length rows = n"
  shows "restore_dynamic_batch (map ((!) rows) (concat idx)) idx = Inr rows"
proof -
  let ?xs = "concat idx"
  have len: "length ?xs = n" using mset_eq_length[OF p] by simp
  obtain ys where ys: "get_reverse_idx ?xs = Inr ys" "length ys = n" "\<forall>i < n. ys ! (?xs ! i) = i"
    using get_reverse_idx_perm[OF p] by blast
  have b: "ys ! j < n \<and> ?xs ! (ys ! j) = j" if "j < n" for j
    using reverse_both[OF p ys(2,3) that] .
  have "\<forall>i \<in> set ys. i < n" using b ys(2) by (auto simp: in_set_conv_nth)
  then have "index_rows (map ((!) rows) ?xs) ys = Inr (map ((!) (map ((!) rows) ?xs)) ys)"
    by (intro index_rows_Inr) (simp add: len)
  moreover have "map ((!) (map ((!) rows) ?xs)) ys = rows"
    by (rule nth_equalityI) (use b ys(2) l len in auto)
  ultimately show ?thesis by (simp add: restore_dynamic_batch_def Let_def ys(1) len)
qed

section \<open>Counts\<close>

lemma ceildiv_ceil: "0 < b \<Longrightarrow> ceildiv a b = Inr q \<Longrightarrow> (q - 1) * b < a \<and> a \<le> q * b"
proof -
  assume b: "0 < b" and "ceildiv a b = Inr q"
  then have q: "q = - ((- a) div b)" by (auto simp: ceildiv_def div_minus_right split: if_splits)
  define d where "d = (- a) div b"
  define r where "r = (- a) mod b"
  have "b * d + r = - a" "0 \<le> r" "r < b" using b unfolding d_def r_def by (simp_all only: mult_div_mod_eq pos_mod_sign pos_mod_bound)
  moreover have "q = - d" by (simp add: q d_def)
  ultimately show ?thesis by (simp add: algebra_simps)
qed

lemma roundup_spec: "0 < b \<Longrightarrow> roundup_divisible a b = Inr q \<Longrightarrow> b dvd q \<and> a \<le> q \<and> q < a + b"
proof -
  assume b: "0 < b" and "roundup_divisible a b = Inr q"
  then have q: "q = ((a + b - 1) div b) * b" by (auto simp: roundup_divisible_def split: if_splits)
  define d where "d = (a + b - 1) div b"
  define r where "r = (a + b - 1) mod b"
  have "b * d + r = a + b - 1" "0 \<le> r" "r < b" using b unfolding d_def r_def by (simp_all only: mult_div_mod_eq pos_mod_sign pos_mod_bound)
  moreover have "q = d * b" by (simp add: q d_def)
  ultimately show ?thesis by (simp add: algebra_simps)
qed

section \<open>Runs of equal uids\<close>

definition uid_inv :: "'u list \<Rightarrow> nat \<Rightarrow> nat list list \<times> 'u option \<times> nat list \<Rightarrow> bool" where
  "uid_inv uids m st = (case st of (groups, current, indices) \<Rightarrow>
     concat (groups @ [indices]) = [0..<m] \<and> [] \<notin> set groups \<and>
     (m > 0 \<longrightarrow> current = Some (uids ! (m - 1)) \<and> m - 1 \<in> set indices) \<and>
     (\<forall>i. Suc i < m \<and> uids ! i = uids ! Suc i \<longrightarrow> (\<exists>g \<in> set (groups @ [indices]). i \<in> set g \<and> Suc i \<in> set g)) \<and>
     (\<forall>g \<in> set (groups @ [indices]). \<forall>i \<in> set g. \<forall>j \<in> set g. uids ! i = uids ! j))"

lemma uid_inv_step:
  assumes "uid_inv uids m (groups, current, indices)" "m = 0 \<longrightarrow> current = None \<and> indices = [] \<and> groups = []"
  shows "uid_inv uids (Suc m) (group_step (m, uids ! m) (groups, current, indices))"
proof (cases "m = 0")
  case True
  with assms(2) have "group_step (m, uids ! m) (groups, current, indices) = ([], Some (uids ! 0), [0])"
    by (simp add: group_step_def)
  with True show ?thesis by (simp add: uid_inv_def)
next
  case m: False
  then obtain m' where m': "m = Suc m'" by (cases m) auto
  have mm: "m > 0" "m - 1 = m'" using m' by auto
  have i: "concat (groups @ [indices]) = [0..<m]" "[] \<notin> set groups" "current = Some (uids ! m')" "m' \<in> set indices"
    "\<forall>i. Suc i < m \<and> uids ! i = uids ! Suc i \<longrightarrow> (\<exists>g \<in> set (groups @ [indices]). i \<in> set g \<and> Suc i \<in> set g)"
    "\<forall>g \<in> set (groups @ [indices]). \<forall>i \<in> set g. \<forall>j \<in> set g. uids ! i = uids ! j"
    using assms(1)[unfolded uid_inv_def prod.case mm(2)] mm(1) by blast+
  have ne: "indices \<noteq> []" using i(4) by auto
  show ?thesis
  proof (cases "uids ! m = uids ! m'")
    case True
    have same: "uids ! j = uids ! m" if "j \<in> set indices" for j
    proof -
      have "indices \<in> set (groups @ [indices])" by simp
      with i(4,6) that have "uids ! j = uids ! m'" by blast
      with True show ?thesis by simp
    qed
    have same_all: "uids ! i = uids ! j" if "g \<in> set (groups @ [indices @ [m]])" "i \<in> set g" "j \<in> set g" for g i j
    proof (cases "g = indices @ [m]")
      case True
      with that(2,3) have "uids ! i = uids ! m" "uids ! j = uids ! m" using same by auto
      then show ?thesis by simp
    next
      case False
      with that(1) have "g \<in> set (groups @ [indices])" by auto
      with i(6) that(2,3) show ?thesis by blast
    qed
    have near: "\<exists>g \<in> set (groups @ [indices @ [m]]). i \<in> set g \<and> Suc i \<in> set g"
      if "Suc i < Suc m" "uids ! i = uids ! Suc i" for i
    proof (cases "Suc i = m")
      case True
      with i(4) m' show ?thesis by auto
    next
      case False
      with that i(5) have "\<exists>g \<in> set (groups @ [indices]). i \<in> set g \<and> Suc i \<in> set g" by auto
      then show ?thesis by auto
    qed
    have st: "group_step (m, uids ! m) (groups, current, indices) = (groups, current, indices @ [m])"
      using True i(3) by (simp add: group_step_def)
    show ?thesis unfolding st uid_inv_def prod.case
    proof (intro conjI)
      show "concat (groups @ [indices @ [m]]) = [0..<Suc m]" using i(1) by simp
      show "\<forall>g \<in> set (groups @ [indices @ [m]]). \<forall>i \<in> set g. \<forall>j \<in> set g. uids ! i = uids ! j"
        using same_all by blast
      show "\<forall>i. Suc i < Suc m \<and> uids ! i = uids ! Suc i \<longrightarrow>
        (\<exists>g \<in> set (groups @ [indices @ [m]]). i \<in> set g \<and> Suc i \<in> set g)" using near by blast
    qed (use i(2,3) True in simp_all)
  next
    case False
    have st: "group_step (m, uids ! m) (groups, current, indices) = (groups @ [indices], Some (uids ! m), [m])"
      using False i(3) ne by (simp add: group_step_def)
    have near: "\<exists>g \<in> set ((groups @ [indices]) @ [[m]]). i \<in> set g \<and> Suc i \<in> set g"
      if "Suc i < Suc m" "uids ! i = uids ! Suc i" for i
    proof -
      have "Suc i < m" using that False m' by (auto simp: less_Suc_eq)
      with that i(5) have "\<exists>g \<in> set (groups @ [indices]). i \<in> set g \<and> Suc i \<in> set g" by blast
      then show ?thesis by auto
    qed
    show ?thesis unfolding st uid_inv_def prod.case
    proof (intro conjI)
      show "concat ((groups @ [indices]) @ [[m]]) = [0..<Suc m]" using i(1) by simp
      show "\<forall>i. Suc i < Suc m \<and> uids ! i = uids ! Suc i \<longrightarrow>
        (\<exists>g \<in> set ((groups @ [indices]) @ [[m]]). i \<in> set g \<and> Suc i \<in> set g)" using near by blast
      show "\<forall>g \<in> set ((groups @ [indices]) @ [[m]]). \<forall>i \<in> set g. \<forall>j \<in> set g. uids ! i = uids ! j"
      proof (intro ballI)
        fix g i j
        assume g: "g \<in> set ((groups @ [indices]) @ [[m]])" "i \<in> set g" "j \<in> set g"
        show "uids ! i = uids ! j"
        proof (cases "g = [m]")
          case True
          with g(2,3) show ?thesis by simp
        next
          case False
          with g(1) have "g \<in> set (groups @ [indices])" by auto
          with i(6) g(2,3) show ?thesis by blast
        qed
      qed
    qed (use i(2) ne in simp_all)
  qed
qed

lemma uid_inv_fold:
  assumes "m \<le> length uids"
  shows "\<exists>groups current indices. fold group_step (take m (zip [0..<length uids] uids)) ([], None, []) = (groups, current, indices) \<and>
    uid_inv uids m (groups, current, indices) \<and> (m = 0 \<longrightarrow> current = None \<and> indices = [] \<and> groups = [])"
  using assms
proof (induction m)
  case 0
  then show ?case by (simp add: uid_inv_def)
next
  case (Suc m)
  then obtain groups current indices where f: "fold group_step (take m (zip [0..<length uids] uids)) ([], None, []) = (groups, current, indices)"
    "uid_inv uids m (groups, current, indices)" "m = 0 \<longrightarrow> current = None \<and> indices = [] \<and> groups = []"
    by auto
  have "take (Suc m) (zip [0..<length uids] uids) = take m (zip [0..<length uids] uids) @ [(m, uids ! m)]"
    using Suc.prems by (simp add: take_Suc_conv_app_nth)
  then show ?case using uid_inv_step[OF f(2,3)] f(1)
    by (cases "group_step (m, uids ! m) (groups, current, indices)") auto
qed

lemma uid_groups_facts:
  "concat (uid_groups uids) = [0..<length uids] \<and> [] \<notin> set (uid_groups uids) \<and>
   (\<forall>i. Suc i < length uids \<and> uids ! i = uids ! Suc i \<longrightarrow> (\<exists>g \<in> set (uid_groups uids). i \<in> set g \<and> Suc i \<in> set g)) \<and>
   (\<forall>g \<in> set (uid_groups uids). \<forall>i \<in> set g. \<forall>j \<in> set g. uids ! i = uids ! j)"
proof -
  obtain groups current indices where f: "fold group_step (zip [0..<length uids] uids) ([], None, []) = (groups, current, indices)"
    "uid_inv uids (length uids) (groups, current, indices)" "length uids = 0 \<longrightarrow> groups = []"
    using uid_inv_fold[of "length uids" uids] by auto
  have u: "uid_groups uids = (if indices \<noteq> [] then groups @ [indices] else groups)"
    by (simp add: uid_groups_def f(1))
  show ?thesis
  proof (cases "indices = []")
    case True
    with f have "length uids = 0" by (auto simp: uid_inv_def)
    with f True u show ?thesis by simp
  next
    case False
    then have "uid_groups uids = groups @ [indices]" using u by simp
    moreover have "[] \<notin> set (groups @ [indices])"
      using f(2)[unfolded uid_inv_def prod.case] False by simp
    ultimately show ?thesis using f(2)[unfolded uid_inv_def prod.case] by metis
  qed
qed

lemma group_balanced_Inr:
  assumes nn: "\<forall>v \<in> set seqlens. 0 \<le> v" and r: "get_group_balanced_partitions seqlens uids k = Inr ps"
  obtains parts where "length parts = k" "mset (concat parts) = mset [0..<length (uid_groups uids)]"
    "\<forall>p \<in> set parts. p \<noteq> []" "\<forall>p \<in> set parts. length p * k = length (uid_groups uids)"
    "ps = map (\<lambda>p. sort (concat (map ((!) (uid_groups uids)) p))) parts" "length seqlens = length uids"
proof -
  let ?w = "map (\<lambda>indices. sum_list (map (\<lambda>i. calculate_workload (seqlens ! i)) indices)) (uid_groups uids)"
  obtain parts where p: "length seqlens = length uids" "get_seqlen_balanced_partitions ?w k True = Inr parts"
    "ps = map (\<lambda>p. sort (concat (map ((!) (uid_groups uids)) p))) parts"
    using r unfolding get_group_balanced_partitions_def Let_def
    by (auto simp: res_bind_eq_Inr py_assert_eq_Inr)
  have lt: "i < length seqlens" if "g \<in> set (uid_groups uids)" "i \<in> set g" for g i
  proof -
    have "set (concat (uid_groups uids)) = {0..<length uids}" using uid_groups_facts[of uids] by (metis set_upt)
    with that p(1) show ?thesis by auto
  qed
  have "\<forall>v \<in> set ?w. 0 \<le> v"
    using nn lt by (auto intro!: sum_list_nonneg calculate_workload_nonneg)
  from balanced_facts[OF this p(2)] have f: "length parts = k" "mset (concat parts) = mset [0..<length (uid_groups uids)]"
    "\<forall>p \<in> set parts. p \<noteq> []" "\<forall>p \<in> set parts. length p * k = length (uid_groups uids)"
    by (simp_all del: mset_upt)
  show thesis by (rule that[OF f p(3,1)])
qed

lemma group_balanced_cover:
  assumes "mset (concat parts) = mset [0..<length gs]" "concat gs = [0..<n]"
  shows "mset (concat (map (\<lambda>p. sort (concat (map ((!) gs) p))) parts)) = mset [0..<n]"
proof -
  have "mset (concat (map (\<lambda>p. sort (concat (map ((!) gs) p))) parts)) = mset (concat (map ((!) gs) (concat parts)))"
    by (induction parts) auto
  also have "\<dots> = mset (concat (map ((!) gs) [0..<length gs]))"
    using assms(1) by (intro mset_concat_cong) (metis mset_map)
  also have "\<dots> = mset [0..<n]" by (simp only: map_nth assms(2))
  finally show ?thesis .
qed

lemma group_balanced_together:
  assumes "mset (concat parts) = mset [0..<length gs]" "g \<in> set gs"
  shows "\<exists>p \<in> set (map (\<lambda>p. sort (concat (map ((!) gs) p))) parts). set g \<subseteq> set p"
proof -
  obtain j where j: "j < length gs" "gs ! j = g" using assms(2) by (auto simp: in_set_conv_nth)
  then have "j \<in> set (concat parts)" using mset_eq_setD[OF assms(1)] by simp
  then obtain p where "p \<in> set parts" "j \<in> set p" by auto
  with j(2) show ?thesis by force
qed

section \<open>Properties\<close>

lemma balanced_workload_share:
  assumes nn: "\<forall>v \<in> set w. 0 \<le> v" and r: "get_seqlen_balanced_partitions w k False = Inr ps" and p: "p \<in> set ps"
  shows "int k * sum_list (map ((!) w) p) \<le> sum_list w + int (k - 1) * Max (set w)"
proof -
  have g: "0 < k" "k \<le> length w" "False \<longrightarrow> length w mod k = 0" using balanced_guards[OF r] by auto
  let ?L = "\<lambda>q. sum_list (map ((!) w) q)"
  obtain qs where qs: "get_seqlen_balanced_partitions w k False = Inr (map sort qs)" "length qs = k"
    "mset (concat qs) = mset [0..<length w]"
    "\<forall>p \<in> set qs. \<forall>q \<in> set qs. ?L p - ?L q \<le> Max (set w) - (if False then Min (set w) else 0)"
    by (rule get_balanced_Inr[OF g nn])
  obtain p' where p': "p' \<in> set qs" "p = sort p'" using qs(1) r p by auto
  obtain a b where ab: "qs = a @ p' # b" using p'(1) by (meson split_list)
  have "sum_list (map ?L qs) = ?L (concat qs)" by (induction qs) auto
  also have "\<dots> = ?L [0..<length w]" by (rule sum_list_map_mset_eq[OF qs(3)])
  also have "\<dots> = sum_list w" by (simp add: map_nth)
  finally have tot: "sum_list (map ?L (a @ b)) + ?L p' = sum_list w" by (simp add: ab)
  have "sum_list (map (\<lambda>q. ?L p' - Max (set w)) (a @ b)) \<le> sum_list (map ?L (a @ b))"
    by (rule sum_list_mono) (use qs(4) ab in force)
  moreover have "k - 1 = length (a @ b)" using qs(2) ab by simp
  ultimately have "int (k - 1) * (?L p' - Max (set w)) \<le> sum_list (map ?L (a @ b))"
    by (simp only: sum_list_triv of_nat_id)
  moreover have "int k * ?L p' = int (k - 1) * ?L p' + ?L p'" using g(1) by (cases k) (auto simp: algebra_simps)
  moreover have "?L p = ?L p'" unfolding p'(2) by (rule sum_list_map_mset_eq) simp
  ultimately show ?thesis using tot by (simp add: algebra_simps)
qed

text \<open>
  When \<open>rearrange_micro_batches\<close> returns, its index lists hold every row of the batch
  exactly once, none is empty, there are as many of them as \<open>num_micro_batches\<close> computed,
  samples of one force-group stay in one micro-batch, and the i-th micro-batch is the
  selection of the i-th index list.
\<close>

theorem rearrange_partitions_batch:
  assumes "\<forall>v \<in> set (seq_len_effective ids). 0 \<le> v"
    and "rearrange_micro_batches all_reduce_max args ids batch = Inr (mbs, idx)"
  shows "mset (concat idx) = mset [0..<length (seq_len_effective ids)] \<and> [] \<notin> set idx \<and>
    num_micro_batches all_reduce_max args (seq_len_effective ids) = Inr (int (length idx)) \<and>
    (\<forall>p \<in> set idx. \<forall>i j. i div force_group_size args = j div force_group_size args \<longrightarrow> (i \<in> set p \<longleftrightarrow> j \<in> set p)) \<and>
    length mbs = length idx \<and> (\<forall>i < length idx. index_select_tensor_dict batch (idx ! i) = Inr (mbs ! i))"
proof -
  have "res_map (index_select_tensor_dict batch) idx = Inr mbs" by (rule rearrange_Inr[OF assms(2)])
  then have "length mbs = length idx \<and> (\<forall>i < length idx. index_select_tensor_dict batch (idx ! i) = Inr (mbs ! i))"
    by (simp add: res_map_Inr_iff)
  with rearrange_facts[OF assms] show ?thesis by blast
qed

definition demo_args :: rmb_args where
  "demo_args = \<lparr>max_token_len = 9, dist_initialized = False, dp_group_given = False, num_batches_divided_by = None,
     same_micro_num_in_dp = True, min_num_micro_batch = None, use_dynamic_bsz_balance = True, force_group_size = 2\<rparr>"

lemma demo_run:
  "rearrange_micro_batches id demo_args (Nested_Ids [1, 4, 5, 3]) (Some [(''x'', Dense_Rows [10, 20, 30, 40 :: int])])
    = Inr ([Some [(''x'', Dense_Rows [30, 40])], Some [(''x'', Dense_Rows [10, 20])]], [[2, 3], [0, 1]])"
  by code_simp

theorem rearrange_partitions_batch_witness:
  "mset (concat [[2, 3], [0, 1]]) = mset [0..<length (seq_len_effective (Nested_Ids [1, 4, 5, 3]))] \<and> [] \<notin> set [[2, 3], [0, 1 :: nat]]"
  using rearrange_partitions_batch[OF _ demo_run] by (simp del: mset_upt)

text \<open>
  Exactly when \<open>rearrange_micro_batches\<close> returns, for non-negative lengths and a batch
  whose tensors have one row per sample: the longest sequence fits \<open>max_token_len\<close>, the
  force-group size divides the batch, and the number of micro-batches is positive and at most
  the number of groups. Otherwise one of its assertions (or the partitioner) raises.
\<close>

theorem rearrange_returns_iff:
  assumes "\<forall>v \<in> set (seq_len_effective ids). 0 \<le> v" and "batch_rows_ok (length (seq_len_effective ids)) batch"
  shows "(\<exists>r. rearrange_micro_batches all_reduce_max args ids batch = Inr r) \<longleftrightarrow> rearrange_ready all_reduce_max args ids"
proof
  assume "\<exists>r. rearrange_micro_batches all_reduce_max args ids batch = Inr r"
  then obtain mbs idx where r: "rearrange_micro_batches all_reduce_max args ids batch = Inr (mbs, idx)" by auto
  then show "rearrange_ready all_reduce_max args ids"
  proof (rule rearrange_Inr)
    fix m num idx0 w
    assume a: "max_seq_len ids = Inr m" "m \<le> max_token_len args" "0 < force_group_size args"
      "length (seq_len_effective ids) mod force_group_size args = 0"
      "num_micro_batches all_reduce_max args (seq_len_effective ids) = Inr num"
      "num \<le> int (length (seq_len_effective ids) div force_group_size args)"
      "micro_bsz_indices (force_group_size args) (seq_len_effective ids) num = Inr (idx0, w)"
    with micro_bsz_indices_facts[OF a(3,4) assms(1) a(7)] show ?thesis by (auto simp: rearrange_ready_def)
  qed
qed (rule rearrange_ok[OF assms])

theorem rearrange_returns_iff_witness:
  "(\<exists>r. rearrange_micro_batches id demo_args (Nested_Ids [1, 4, 5, 3]) (None :: int tensor_dict option) = Inr r) \<longleftrightarrow>
    rearrange_ready id demo_args (Nested_Ids [1, 4, 5, 3])"
  by (rule rearrange_returns_iff) (simp_all add: batch_rows_ok_def)

text \<open>
  The micro-batching round trip: rows processed in micro-batch order are put back in
  their original order by \<open>restore_dynamic_batch\<close> with the index lists that
  \<open>rearrange_micro_batches\<close> returned; its length assertion never fails.
\<close>

theorem restore_after_rearrange:
  assumes "\<forall>v \<in> set (seq_len_effective ids). 0 \<le> v"
    and "rearrange_micro_batches all_reduce_max args ids batch = Inr (mbs, idx)"
    and "length rows = length (seq_len_effective ids)"
  shows "restore_dynamic_batch (concat (map (map ((!) rows)) idx)) idx = Inr rows"
proof -
  have "concat (map (map ((!) rows)) idx) = map ((!) rows) (concat idx)" by (simp add: map_concat)
  then show ?thesis using restore_permuted[OF _ assms(3)] rearrange_facts[OF assms(1,2)] by metis
qed

theorem restore_after_rearrange_witness:
  "restore_dynamic_batch (concat (map (map ((!) ''abcd'')) [[2, 3], [0, 1]])) [[2, 3], [0, 1]] = Inr ''abcd''"
  by (rule restore_after_rearrange[OF _ demo_run]) simp_all

text \<open>
  \<open>get_reverse_idx\<close> inverts every permutation, on both sides.
\<close>

theorem get_reverse_idx_inverts:
  assumes "mset idx_map = mset [0..<n]"
  shows "\<exists>rev_map. get_reverse_idx idx_map = Inr rev_map \<and> mset rev_map = mset [0..<n] \<and>
    (\<forall>i < n. rev_map ! (idx_map ! i) = i \<and> idx_map ! (rev_map ! i) = i)"
proof -
  obtain ys where ys: "get_reverse_idx idx_map = Inr ys" "length ys = n" "\<forall>i < n. ys ! (idx_map ! i) = i"
    using get_reverse_idx_perm[OF assms] by blast
  have b: "ys ! j < n \<and> idx_map ! (ys ! j) = j" if "j < n" for j
    using reverse_both[OF assms ys(2,3) that] .
  have "distinct ys" using b ys(2) by (metis distinct_conv_nth)
  moreover have "set ys \<subseteq> {0..<n}" using b ys(2) by (auto simp: in_set_conv_nth)
  ultimately have "set ys = {0..<n}"
    using ys(2) by (intro card_subset_eq) (auto simp: distinct_card)
  with \<open>distinct ys\<close> have "mset ys = mset [0..<n]" using mset_eq_upt_iff by blast
  with ys b show ?thesis by blast
qed

theorem get_reverse_idx_inverts_witness:
  "\<exists>rev_map. get_reverse_idx [2, 0, 1] = Inr rev_map \<and> mset rev_map = mset [0..<3] \<and>
    (\<forall>i < 3. rev_map ! ([2, 0, 1] ! i) = i \<and> [2, 0, 1] ! (rev_map ! i) = i)"
  by (rule get_reverse_idx_inverts) (simp add: upt_rec)

text \<open>
  The number of micro-batches: with a collective that never lowers the local value, a
  positive token limit and a positive divisor, it reaches the group count or enough token
  budgets for the batch, reaches the requested minimum and is a multiple of the divisor; without
  a collective, a minimum and a divisor it is the least such number.
\<close>

theorem num_micro_batches_bounds:
  assumes "0 < max_token_len args" and "\<forall>n. n \<le> all_reduce_max n"
    and "\<forall>d. num_batches_divided_by args = Some d \<longrightarrow> 0 < d"
    and "num_micro_batches all_reduce_max args lens = Inr num"
  shows "(int (length lens div force_group_size args) \<le> num \<or> sum_list lens \<le> num * max_token_len args) \<and>
    (\<forall>m. min_num_micro_batch args = Some m \<longrightarrow> m \<le> num) \<and>
    (\<forall>d. num_batches_divided_by args = Some d \<longrightarrow> d dvd num) \<and>
    (\<not> dp_group_given args \<and> min_num_micro_batch args = None \<and> num_batches_divided_by args = None \<longrightarrow>
       num \<le> int (length lens div force_group_size args) \<and> (num - 1) * max_token_len args < sum_list lens)"
proof -
  let ?G = "int (length lens div force_group_size args)"
  obtain c where c: "ceildiv (sum_list lens) (max_token_len args) = Inr c"
    using assms(1) by (simp add: ceildiv_def)
  define n1 where "n1 = (case min_num_micro_batch args of None \<Rightarrow> min ?G c | Some m \<Rightarrow> max m (min ?G c))"
  define n2 where "n2 = (if dist_initialized args \<and> same_micro_num_in_dp args \<and> dp_group_given args
                   then all_reduce_max n1 else n1)"
  have r: "(case num_batches_divided_by args of None \<Rightarrow> Inr n2 | Some d \<Rightarrow> roundup_divisible n2 d) = Inr num"
    using assms(4) unfolding num_micro_batches_def Let_def c res_bind_Inr n1_def n2_def .
  have up: "n2 \<le> num \<and> (\<forall>d. num_batches_divided_by args = Some d \<longrightarrow> d dvd num)"
    using r assms(3) roundup_spec by (auto split: option.splits)
  have n1: "min ?G c \<le> n1" "\<forall>m. min_num_micro_batch args = Some m \<longrightarrow> m \<le> n1"
    by (auto simp: n1_def split: option.splits)
  have n2: "n1 \<le> n2" using assms(2) by (simp add: n2_def)
  note cb = ceildiv_ceil[OF assms(1) c]
  have "sum_list lens \<le> num * max_token_len args" if "c \<le> num"
    using cb that assms(1) by (meson mult_right_mono order.trans less_imp_le)
  then have "?G \<le> num \<or> sum_list lens \<le> num * max_token_len args" using up n1(1) n2 by linarith
  moreover have "num \<le> ?G \<and> (num - 1) * max_token_len args < sum_list lens"
    if "\<not> dp_group_given args" "min_num_micro_batch args = None" "num_batches_divided_by args = None"
  proof -
    have num: "num = min ?G c" using that r by (simp add: n1_def n2_def)
    then have "(num - 1) * max_token_len args \<le> (c - 1) * max_token_len args"
      using assms(1) by (intro mult_right_mono) auto
    with cb num show ?thesis by linarith
  qed
  ultimately show ?thesis using up n1 n2 by (meson order.trans)
qed

theorem num_micro_batches_bounds_witness:
  "num_micro_batches id demo_args [1, 4, 5, 3] = Inr 2 \<and> (int (length [1, 4, 5, 3 :: int] div force_group_size demo_args) \<le> 2 \<or>
     sum_list [1, 4, 5, 3] \<le> 2 * max_token_len demo_args)"
proof -
  have r: "num_micro_batches id demo_args [1, 4, 5, 3] = Inr 2" by code_simp
  show ?thesis using num_micro_batches_bounds[OF _ _ _ r] r by (simp add: demo_args_def)
qed

text \<open>
  The share of the work a micro-batch can get: with \<open>k\<close> micro-batches of single samples
  (force-group size 1), \<open>k\<close> times the workload of one is at most the total plus \<open>k - 1\<close> times
  the largest single workload.
\<close>

theorem micro_batch_workload_bound:
  assumes "\<forall>v \<in> set lens. 0 \<le> v" and "micro_bsz_indices 1 lens num = Inr (idx, workloads)" and "p \<in> set idx"
  shows "num * sum_list (map (\<lambda>i. calculate_workload (lens ! i)) p)
    \<le> sum_list (map calculate_workload lens) + (num - 1) * Max (set (map calculate_workload lens))"
proof -
  have r: "get_seqlen_balanced_partitions (map calculate_workload lens) (nat num) False = Inr idx"
    using assms(2) by (auto simp: micro_bsz_indices_def Let_def res_bind_eq_Inr)
  have f: "mset (concat idx) = mset [0..<length lens]" "0 < num"
    using micro_bsz_indices_facts[OF _ _ assms(1,2)] by simp_all
  have nn: "\<forall>v \<in> set (map calculate_workload lens). 0 \<le> v" using assms(1) by (auto intro: calculate_workload_nonneg)
  have "i < length lens" if "i \<in> set p" for i using mset_eq_setD[OF f(1)] assms(3) that by auto
  then have m: "map ((!) (map calculate_workload lens)) p = map (\<lambda>i. calculate_workload (lens ! i)) p" by auto
  have n: "int (nat num) = num" "int (nat num - 1) = num - 1" using f(2) by auto
  show ?thesis using balanced_workload_share[OF nn r assms(3)] unfolding m n .
qed

theorem micro_batch_workload_bound_witness:
  "2 * sum_list (map (\<lambda>i. calculate_workload ([6, 6, 6] ! i)) [0, 1])
    \<le> sum_list (map calculate_workload [6, 6, 6]) + (2 - 1) * Max (set (map calculate_workload [6, 6, 6]))"
proof -
  have "micro_bsz_indices 1 [6, 6, 6] 2 = Inr ([[0, 1], [2]], map calculate_workload [6, 6, 6])" by code_simp
  then show ?thesis using micro_batch_workload_bound[of "[6, 6, 6]" 2 _ "map calculate_workload [6, 6, 6]" "[0, 1]"] by auto
qed

text \<open>
  \<open>max_token_len\<close> does not bound the tokens of a micro-batch: three samples of 6 tokens
  with a limit of 9 pass every check and give two micro-batches, one of them with 12 tokens.
\<close>

theorem max_token_len_exceeded:
  "\<exists>mbs idx. rearrange_micro_batches id (demo_args\<lparr>force_group_size := 1\<rparr>) (Nested_Ids [6, 6, 6]) (None :: int tensor_dict option) = Inr (mbs, idx) \<and>
     (\<exists>p \<in> set idx. sum_list (map ((!) [6, 6, 6]) p) > max_token_len demo_args)"
proof -
  have r: "rearrange_micro_batches id (demo_args\<lparr>force_group_size := 1\<rparr>) (Nested_Ids [6, 6, 6]) (None :: int tensor_dict option)
    = Inr ([None, None], [[0, 1], [2]])" by code_simp
  show ?thesis unfolding r by (simp add: demo_args_def)
qed

text \<open>
  The placement of \<open>use_dynamic_bsz_balance\<close>: the micro-batches are reordered (none lost or
  duplicated) so that their sort keys first increase and then decrease, the peak in the middle.
\<close>

theorem balance_order_bitonic:
  "\<exists>front back. balance_order g workloads idx = front @ back \<and> mset (front @ back) = mset idx \<and>
     sorted_wrt (\<lambda>p q. micro_sort_key g workloads p \<le> micro_sort_key g workloads q) front \<and>
     sorted_wrt (\<lambda>p q. micro_sort_key g workloads p \<ge> micro_sort_key g workloads q) back \<and>
     (length front = length back \<or> length front = Suc (length back))"
proof -
  let ?s = "py_sort_desc (micro_sort_key g workloads) idx"
  let ?k = "\<lambda>p q. micro_sort_key g workloads q \<le> micro_sort_key g workloads p"
  have s: "sorted_wrt ?k ?s" by (rule py_sort_desc_sorted)
  have len: "length (stride 2 xs) = length (stride 2 (drop 1 xs)) \<or> length (stride 2 xs) = Suc (length (stride 2 (drop 1 xs)))" for xs :: "nat list list"
    by (induction xs) auto
  have m: "mset (balance_order g workloads idx) = mset idx" by (rule mset_balance_order)
  show ?thesis
  proof (intro exI conjI)
    show eq: "balance_order g workloads idx = rev (stride 2 ?s) @ stride 2 (drop 1 ?s)"
      by (simp add: balance_order_def place_at_ends_def)
    show "mset (rev (stride 2 ?s) @ stride 2 (drop 1 ?s)) = mset idx" using m unfolding eq .
    show "sorted_wrt (\<lambda>p q. micro_sort_key g workloads p \<le> micro_sort_key g workloads q) (rev (stride 2 ?s))"
      using sorted_wrt_stride[OF s, of 2] by (simp add: sorted_wrt_rev)
    show "sorted_wrt ?k (stride 2 (drop 1 ?s))" by (rule sorted_wrt_stride) (rule sorted_wrt_drop[OF s])
  qed (use len[of ?s] in auto)
qed

text \<open>
  When \<open>get_group_balanced_partitions\<close> returns, it gives \<open>k\<close> sorted non-empty lists that hold every
  sample once, and a run of samples with the same uid lies in one of them.
\<close>

theorem group_partitions_keep_runs:
  assumes "\<forall>v \<in> set seqlens. 0 \<le> v" and "get_group_balanced_partitions seqlens uids k = Inr ps"
  shows "length ps = k \<and> mset (concat ps) = mset [0..<length seqlens] \<and> (\<forall>p \<in> set ps. p \<noteq> [] \<and> sorted p) \<and>
    (\<forall>i. Suc i < length uids \<and> uids ! i = uids ! Suc i \<longrightarrow> (\<exists>p \<in> set ps. i \<in> set p \<and> Suc i \<in> set p))"
proof -
  obtain parts where parts: "length parts = k" "mset (concat parts) = mset [0..<length (uid_groups uids)]"
    "\<forall>p \<in> set parts. p \<noteq> []" "ps = map (\<lambda>p. sort (concat (map ((!) (uid_groups uids)) p))) parts" "length seqlens = length uids"
    by (rule group_balanced_Inr[OF assms])
  note u = uid_groups_facts[of uids]
  have "mset (concat ps) = mset [0..<length seqlens]"
    using group_balanced_cover[OF parts(2)] u parts(4,5) by simp
  moreover have "\<exists>p \<in> set ps. i \<in> set p \<and> Suc i \<in> set p" if "Suc i < length uids" "uids ! i = uids ! Suc i" for i
  proof -
    have "\<exists>g \<in> set (uid_groups uids). i \<in> set g \<and> Suc i \<in> set g" using u that by blast
    then obtain g where g: "g \<in> set (uid_groups uids)" "i \<in> set g" "Suc i \<in> set g" by blast
    show ?thesis using group_balanced_together[OF parts(2) g(1)] g(2,3) unfolding parts(4) by blast
  qed
  moreover have "p \<noteq> [] \<and> sorted p" if "p \<in> set ps" for p
  proof -
    obtain q where q: "q \<in> set parts" "p = sort (concat (map ((!) (uid_groups uids)) q))" using \<open>p \<in> set ps\<close> parts(4) by auto
    then have "q \<noteq> []" using parts(3) by blast
    then obtain j where j: "j \<in> set q" by (meson last_in_set)
    have "j \<in> set (concat parts)" using j q(1) by auto
    then have "uid_groups uids ! j \<noteq> []" using mset_eq_setD[OF parts(2)] u by (metis atLeastLessThan_iff nth_mem set_upt)
    with j q(2) show ?thesis by auto
  qed
  ultimately show ?thesis using parts(1,4) by auto
qed

theorem group_partitions_keep_runs_witness:
  "get_group_balanced_partitions [5, 5, 2, 9] ''aabc'' 1 = Inr [[0, 1, 2, 3]] \<and>
    (\<exists>p \<in> set [[0, 1, 2, 3 :: nat]]. 0 \<in> set p \<and> Suc 0 \<in> set p)"
proof -
  have r: "get_group_balanced_partitions [5, 5, 2, 9] ''aabc'' 1 = Inr [[0, 1, 2, 3]]" by code_simp
  show ?thesis using group_partitions_keep_runs[OF _ r] r by simp
qed

end
