(* ===== verification/Replay_Buffer.thy ===== *)
theory Replay_Buffer
  imports Prelude
begin

text \<open>
  The replay buffer of the v1 trainer, \<open>verl/trainer/ppo/v1/replay_buffer.py\<close>: the sync of the
  metadata, the two staleness strategies (wait and drop), the merged drop metrics and the sampling
  loop. TransferQueue is outside the repository: a run is given the list of snapshots its
  \<open>kv_list\<close> returns, and the events list the \<open>kv_clear\<close>, refill and sleep calls of the run.
  A Python set is a HOL set; where the code iterates over one, \<open>iter_order\<close> is the order.
  Floats of the metrics are exact rationals.
\<close>

section \<open>Metadata\<close>

record 'v rb_tag =
  tag_is_prompt :: "bool option"
  tag_global_steps :: "int option"
  tag_status :: "string option"
  tag_fields :: "(string, 'v) dict"

definition tag_empty :: "'v rb_tag" where
  "tag_empty = \<lparr>tag_is_prompt = None, tag_global_steps = None, tag_status = None, tag_fields = []\<rparr>"

text \<open>\<open>dict.update\<close> on a tag: the keys that are present overwrite.\<close>

definition tag_update :: "'v rb_tag \<Rightarrow> 'v rb_tag \<Rightarrow> 'v rb_tag" where
  "tag_update new old = \<lparr>
     tag_is_prompt = (case tag_is_prompt new of None \<Rightarrow> tag_is_prompt old | Some b \<Rightarrow> Some b),
     tag_global_steps = (case tag_global_steps new of None \<Rightarrow> tag_global_steps old | Some g \<Rightarrow> Some g),
     tag_status = (case tag_status new of None \<Rightarrow> tag_status old | Some s \<Rightarrow> Some s),
     tag_fields = fold (\<lambda>(k, v). AList.update k v) (tag_fields new) (tag_fields old)\<rparr>"

definition tag_prompt :: "'v rb_tag \<Rightarrow> bool" where
  "tag_prompt tag = (case tag_is_prompt tag of None \<Rightarrow> False | Some b \<Rightarrow> b)"

type_synonym 'v kv_items = "(string, 'v rb_tag) dict"
type_synonym 'v kv_snapshot = "(string, 'v kv_items) dict option"

record 'v replay_buffer =
  rb_threshold :: int
  rb_strategy :: string
  rb_partitions :: "(string, 'v kv_items) dict"
  rb_pending :: "(string, string set) dict"
  rb_running :: "(string, string set) dict"
  rb_finished :: "(string, string set) dict"
  rb_failure :: "(string, string set) dict"
  rb_steps :: "(string, (string, int) dict) dict"

definition rb_init :: "int \<Rightarrow> string \<Rightarrow> 'v replay_buffer result" where
  "rb_init threshold strategy =
     res_bind (py_assert (threshold > 0)) (\<lambda>_.
     res_bind (py_assert (strategy \<in> {''drop'', ''wait''})) (\<lambda>_.
       Inr \<lparr>rb_threshold = threshold, rb_strategy = strategy, rb_partitions = [], rb_pending = [], rb_running = [],
         rb_finished = [], rb_failure = [], rb_steps = []\<rparr>))"

definition set_add :: "string \<Rightarrow> string \<Rightarrow> (string, string set) dict \<Rightarrow> (string, string set) dict" where
  "set_add pid key d = AList.update pid (insert key (dict_get d pid {})) d"

definition dict_put :: "string \<Rightarrow> string \<Rightarrow> 'a \<Rightarrow> (string, (string, 'a) dict) dict \<Rightarrow> (string, (string, 'a) dict) dict" where
  "dict_put pid key v d = AList.update pid (AList.update key v (dict_get d pid [])) d"

section \<open>Sync\<close>

definition rb_add_status :: "string \<Rightarrow> string \<Rightarrow> string \<Rightarrow> 'v replay_buffer \<Rightarrow> 'v replay_buffer result" where
  "rb_add_status pid key status rb =
     (if status = ''pending'' then Inr (rb\<lparr>rb_pending := set_add pid key (rb_pending rb)\<rparr>)
      else if status = ''running'' then Inr (rb\<lparr>rb_running := set_add pid key (rb_running rb)\<rparr>)
      else if status = ''finished'' then Inr (rb\<lparr>rb_finished := set_add pid key (rb_finished rb)\<rparr>)
      else if status = ''failure'' then Inr (rb\<lparr>rb_failure := set_add pid key (rb_failure rb)\<rparr>)
      else Inl ValueError)"

definition rb_sync_item :: "string \<Rightarrow> string \<times> 'v rb_tag \<Rightarrow> 'v replay_buffer \<Rightarrow> 'v replay_buffer result" where
  "rb_sync_item pid item rb = (case item of (key, tag) \<Rightarrow>
     if tag_prompt tag then
       (case tag_global_steps tag of
          None \<Rightarrow> Inl KeyError
        | Some g \<Rightarrow>
            let rb' = rb\<lparr>rb_steps := dict_put pid key g (rb_steps rb)\<rparr>
            in (case tag_status tag of None \<Rightarrow> Inl KeyError | Some status \<Rightarrow> rb_add_status pid key status rb'))
     else
       (let partition = dict_get (rb_partitions rb) pid [];
            old = (case map_of partition key of None \<Rightarrow> tag_empty | Some t \<Rightarrow> t)
        in Inr (rb\<lparr>rb_partitions := dict_put pid key (tag_update tag old) (rb_partitions rb)\<rparr>)))"

definition rb_sync_partition :: "string \<times> 'v kv_items \<Rightarrow> 'v replay_buffer \<Rightarrow> 'v replay_buffer result" where
  "rb_sync_partition entry rb = (case entry of (pid, items) \<Rightarrow>
     res_fold (rb_sync_item pid) items
       (rb\<lparr>rb_partitions := AList.update pid (dict_get (rb_partitions rb) pid []) (rb_partitions rb)\<rparr>))"

definition sync_metadata_from_transfer_queue :: "'v kv_snapshot \<Rightarrow> 'v replay_buffer \<Rightarrow> 'v replay_buffer result" where
  "sync_metadata_from_transfer_queue data rb =
     (let cleared = rb\<lparr>rb_partitions := [], rb_pending := [], rb_running := [], rb_finished := [], rb_failure := [],
        rb_steps := []\<rparr>
      in case data of None \<Rightarrow> Inr cleared | Some d \<Rightarrow> res_fold rb_sync_partition d cleared)"

section \<open>Gating and dropping\<close>

definition rb_terminal :: "'v replay_buffer \<Rightarrow> string \<Rightarrow> string set" where
  "rb_terminal rb pid = dict_get (rb_finished rb) pid {} \<union> dict_get (rb_failure rb) pid {}"

text \<open>The number of model versions a prompt spans; a prompt without a recorded step spans one.\<close>

definition rb_span :: "'v replay_buffer \<Rightarrow> int \<Rightarrow> string \<Rightarrow> string \<Rightarrow> int" where
  "rb_span rb global_steps pid uid = global_steps - dict_get (dict_get (rb_steps rb) pid []) uid global_steps + 1"

definition sampleable_terminal_keys :: "'v replay_buffer \<Rightarrow> int \<Rightarrow> string \<Rightarrow> string set" where
  "sampleable_terminal_keys rb global_steps pid =
     (if rb_strategy rb \<noteq> ''drop'' then rb_terminal rb pid
      else Set.filter (\<lambda>uid. rb_span rb global_steps pid uid \<le> rb_threshold rb) (rb_terminal rb pid))"

text \<open>The loop of the wait strategy: \<open>True\<close> when an unfinished prompt has reached the threshold.\<close>

fun rb_must_wait :: "'v replay_buffer \<Rightarrow> int \<Rightarrow> string \<Rightarrow> string list \<Rightarrow> bool result" where
  "rb_must_wait rb global_steps pid [] = Inr False"
| "rb_must_wait rb global_steps pid (key # keys) =
     (case map_of (dict_get (rb_steps rb) pid []) key of
        None \<Rightarrow> Inl KeyError
      | Some g \<Rightarrow> if global_steps - g + 1 \<ge> rb_threshold rb then Inr True
                  else rb_must_wait rb global_steps pid keys)"

definition has_enough_samples ::
  "(string set \<Rightarrow> string list) \<Rightarrow> 'v replay_buffer \<Rightarrow> int \<Rightarrow> string \<Rightarrow> nat \<Rightarrow> bool result" where
  "has_enough_samples iter_order rb global_steps pid batch_size =
     res_bind (if rb_strategy rb = ''wait''
               then rb_must_wait rb global_steps pid
                      (iter_order (dict_get (rb_pending rb) pid {} \<union> dict_get (rb_running rb) pid {}))
               else Inr False) (\<lambda>wait.
       Inr (\<not> wait \<and> batch_size \<le> card (sampleable_terminal_keys rb global_steps pid)))"

definition key_uid :: "string \<Rightarrow> string" where
  "key_uid key = takeWhile (\<lambda>c. c \<noteq> CHR ''_'') key"

definition metric_prefix :: "string \<Rightarrow> string" where
  "metric_prefix pid = (if pid = ''train'' then ''training'' else ''validation'') @ ''/off_policy/dropped_samples''"

definition staleness_metrics :: "string \<Rightarrow> int list \<Rightarrow> (string, rat) dict" where
  "staleness_metrics pid spans =
     [(metric_prefix pid, of_nat (length spans)),
      (metric_prefix pid @ ''_staleness/mean'', of_int (sum_list spans) / of_nat (length spans)),
      (metric_prefix pid @ ''_staleness/max'', of_int (Max (set spans))),
      (metric_prefix pid @ ''_staleness/min'', of_int (Min (set spans)))]"

datatype rb_event = KV_Clear string "string list" | Refill nat | Sleep

definition drop_stale_finished ::
  "(string set \<Rightarrow> string list) \<Rightarrow> 'v replay_buffer \<Rightarrow> int \<Rightarrow> string \<Rightarrow> nat \<times> (string, rat) dict \<times> rb_event list" where
  "drop_stale_finished iter_order rb global_steps pid =
     (if rb_strategy rb \<noteq> ''drop'' then (0, [], [])
      else
        let stale = iter_order (rb_terminal rb pid - sampleable_terminal_keys rb global_steps pid)
        in if stale = [] then (0, [], [])
           else (length stale,
                 staleness_metrics pid (map (rb_span rb global_steps pid) stale),
                 [KV_Clear pid (stale @ filter (\<lambda>key. key_uid key \<in> set stale)
                                          (map fst (dict_get (rb_partitions rb) pid [])))]))"

section \<open>Merging the drop metrics\<close>

definition accumulate_drop_metrics :: "(string, rat) dict \<Rightarrow> (string, rat) dict \<Rightarrow> nat \<Rightarrow> (string, rat) dict" where
  "accumulate_drop_metrics acc new dropped =
     (let prev_total = (case filter (\<lambda>k. ends_with ''/dropped_samples'' k) (map fst new) of
                          [] \<Rightarrow> 0 | count_key # _ \<Rightarrow> dict_get acc count_key 0)
      in fold (\<lambda>(key, v) acc.
           if ends_with ''/dropped_samples'' key then AList.update key (dict_get acc key 0 + v) acc
           else if ends_with ''/dropped_samples_staleness/mean'' key then
             (let denom = prev_total + of_nat dropped
              in AList.update key (if denom \<noteq> 0 then (dict_get acc key 0 * prev_total + v * of_nat dropped) / denom else v) acc)
           else if ends_with ''/dropped_samples_staleness/max'' key then AList.update key (max (dict_get acc key v) v) acc
           else if ends_with ''/dropped_samples_staleness/min'' key then AList.update key (min (dict_get acc key v) v) acc
           else acc) new acc)"

section \<open>Sampling\<close>

datatype 'v rb_outcome =
    Raised py_error
  | Still_Polling
  | Sampled "string list" "'v rb_tag list" "(string, rat) dict"

definition rb_select :: "(string set \<Rightarrow> string list) \<Rightarrow> 'v replay_buffer \<Rightarrow> int \<Rightarrow> string \<Rightarrow> nat \<Rightarrow> string list" where
  "rb_select iter_order rb global_steps pid batch_size =
     take batch_size (sort_key (\<lambda>key. dict_get (dict_get (rb_steps rb) pid []) key 0)
       (iter_order (sampleable_terminal_keys rb global_steps pid)))"

definition rb_finish ::
  "(string set \<Rightarrow> string list) \<Rightarrow> 'v replay_buffer \<Rightarrow> int \<Rightarrow> string \<Rightarrow> nat \<Rightarrow> (string, rat) dict \<Rightarrow> rb_event list \<times> 'v rb_outcome" where
  "rb_finish iter_order rb global_steps pid batch_size drop_metrics =
     (let selected = rb_select iter_order rb global_steps pid batch_size
      in if rb_strategy rb = ''drop'' \<and> \<not> (\<forall>uid \<in> set selected. rb_span rb global_steps pid uid \<le> rb_threshold rb)
         then ([], Raised AssertionError)
         else
           (let picked = filter (\<lambda>(key, tag). key_uid key \<in> set selected) (dict_get (rb_partitions rb) pid [])
            in ([KV_Clear pid selected], Sampled (map fst picked) (map snd picked) drop_metrics)))"

fun rb_sample ::
  "(string set \<Rightarrow> string list) \<Rightarrow> bool \<Rightarrow> int \<Rightarrow> string \<Rightarrow> nat \<Rightarrow> (string, rat) dict \<Rightarrow> 'v replay_buffer
    \<Rightarrow> 'v kv_snapshot list \<Rightarrow> rb_event list \<times> 'v rb_outcome" where
  "rb_sample iter_order refill global_steps pid batch_size drop_metrics rb [] = ([], Still_Polling)"
| "rb_sample iter_order refill global_steps pid batch_size drop_metrics rb (snap # snaps) =
     (case sync_metadata_from_transfer_queue snap rb of
        Inl e \<Rightarrow> ([], Raised e)
      | Inr rb1 \<Rightarrow>
          (case drop_stale_finished iter_order rb1 global_steps pid of
             (dropped, metrics, events) \<Rightarrow>
               if dropped > 0 then
                 (case rb_sample iter_order refill global_steps pid batch_size
                         (accumulate_drop_metrics drop_metrics metrics dropped) rb1 snaps of
                    (events', out) \<Rightarrow> (events @ (if refill then [Refill dropped] else []) @ events', out))
               else
                 (case has_enough_samples iter_order rb1 global_steps pid batch_size of
                    Inl e \<Rightarrow> ([], Raised e)
                  | Inr True \<Rightarrow> rb_finish iter_order rb1 global_steps pid batch_size drop_metrics
                  | Inr False \<Rightarrow>
                      (case rb_sample iter_order refill global_steps pid batch_size drop_metrics rb1 snaps of
                         (events', out) \<Rightarrow> (Sleep # events', out)))))"

section \<open>What a sync computes\<close>

definition status_keys :: "string \<Rightarrow> 'v kv_items \<Rightarrow> string set" where
  "status_keys status items = {key. \<exists>tag. (key, tag) \<in> set items \<and> tag_prompt tag \<and> tag_status tag = Some status}"

definition items_steps :: "'v kv_items \<Rightarrow> (string, int) dict" where
  "items_steps items = map (\<lambda>(key, tag). (key, the (tag_global_steps tag))) (filter (\<lambda>(key, tag). tag_prompt tag) items)"

definition items_trajs :: "'v kv_items \<Rightarrow> 'v kv_items" where
  "items_trajs items = filter (\<lambda>(key, tag). \<not> tag_prompt tag) items"

definition items_wf :: "'v kv_items \<Rightarrow> bool" where
  "items_wf items \<longleftrightarrow> dict_wf items \<and> (\<forall>(key, tag) \<in> set items. dict_wf (tag_fields tag))"

definition snapshot_items :: "'v kv_snapshot \<Rightarrow> string \<Rightarrow> 'v kv_items" where
  "snapshot_items snap pid = (case snap of None \<Rightarrow> [] | Some d \<Rightarrow> dict_get d pid [])"

definition snapshot_wf :: "'v kv_snapshot \<Rightarrow> bool" where
  "snapshot_wf snap = (case snap of None \<Rightarrow> True | Some d \<Rightarrow> dict_wf d \<and> (\<forall>(pid, items) \<in> set d. items_wf items))"

text \<open>The buffer's view of a partition is that of the items seen so far.\<close>

definition rb_shows :: "string \<Rightarrow> 'v kv_items \<Rightarrow> 'v replay_buffer \<Rightarrow> bool" where
  "rb_shows pid items rb \<longleftrightarrow>
     dict_get (rb_pending rb) pid {} = status_keys ''pending'' items \<and>
     dict_get (rb_running rb) pid {} = status_keys ''running'' items \<and>
     dict_get (rb_finished rb) pid {} = status_keys ''finished'' items \<and>
     dict_get (rb_failure rb) pid {} = status_keys ''failure'' items \<and>
     dict_get (rb_steps rb) pid [] = items_steps items \<and>
     dict_get (rb_partitions rb) pid [] = items_trajs items"

definition items_ok :: "'v kv_items \<Rightarrow> bool" where
  "items_ok items \<longleftrightarrow> (\<forall>(key, tag) \<in> set items. tag_prompt tag \<longrightarrow> tag_global_steps tag \<noteq> None \<and>
     tag_status tag \<in> Some ` {''pending'', ''running'', ''finished'', ''failure''})"

definition same_config :: "'v replay_buffer \<Rightarrow> 'v replay_buffer \<Rightarrow> bool" where
  "same_config rb rb' \<longleftrightarrow> rb_threshold rb' = rb_threshold rb \<and> rb_strategy rb' = rb_strategy rb"

lemma status_keys_append: "status_keys st (items @ [(key, tag)]) =
    (if tag_prompt tag \<and> tag_status tag = Some st then insert key (status_keys st items) else status_keys st items)"
  by (auto simp: status_keys_def)

lemma status_keys_Nil [simp]: "status_keys st [] = {}"
  by (simp add: status_keys_def)

lemma items_views_append: "items_steps (items @ [(key, tag)]) = items_steps items @ (if tag_prompt tag then [(key, the (tag_global_steps tag))] else [])"
  "items_trajs (items @ [(key, tag)]) = items_trajs items @ (if tag_prompt tag then [] else [(key, tag)])"
  by (simp_all add: items_steps_def items_trajs_def)

lemma items_views_keys: "fst ` set (items_steps items) \<subseteq> fst ` set items" "fst ` set (items_trajs items) \<subseteq> fst ` set items"
  by (force simp: items_steps_def items_trajs_def)+

lemma tag_update_empty: "dict_wf (tag_fields tag) \<Longrightarrow> tag_update tag tag_empty = tag"
  by (cases tag) (auto simp: tag_update_def tag_empty_def fold_update_new split: option.splits)

lemma dict_put_simps:
  "dict_get (dict_put pid key v d) pid [] = AList.update key v (dict_get d pid [])"
  "pid' \<noteq> pid \<Longrightarrow> dict_get (dict_put pid key v d) pid' w = dict_get d pid' w"
  "dict_get (set_add pid key s) pid {} = insert key (dict_get s pid {})"
  "pid' \<noteq> pid \<Longrightarrow> dict_get (set_add pid key s) pid' ws = dict_get s pid' ws"
  by (simp_all add: dict_put_def set_add_def)

lemma sync_item_step:
  assumes view: "rb_shows pid items rb" and new: "key \<notin> fst ` set items" and wf: "dict_wf (tag_fields tag)"
    and step: "rb_sync_item pid (key, tag) rb = Inr rb'"
  shows "rb_shows pid (items @ [(key, tag)]) rb' \<and> (\<forall>pid' its. pid' \<noteq> pid \<longrightarrow> rb_shows pid' its rb \<longrightarrow> rb_shows pid' its rb') \<and>
    same_config rb rb' \<and> items_ok [(key, tag)]"
proof -
  have st: "key \<notin> fst ` set (items_steps items)" and tr: "key \<notin> fst ` set (items_trajs items)"
    using new items_views_keys by blast+
  show ?thesis
  proof (cases "tag_prompt tag")
    case True
    then obtain g status where gs: "tag_global_steps tag = Some g" "tag_status tag = Some status"
      using step by (auto simp: rb_sync_item_def split: option.splits)
    have "rb_add_status pid key status (rb\<lparr>rb_steps := dict_put pid key g (rb_steps rb)\<rparr>) = Inr rb'"
      using step True gs by (simp add: rb_sync_item_def)
    then show ?thesis
      using view True gs update_new[OF st]
      by (auto simp: rb_add_status_def rb_shows_def dict_put_simps status_keys_append items_views_append
          same_config_def items_ok_def split: if_splits)
  next
    case False
    have "map_of (items_trajs items) key = None" using tr by (simp add: map_of_eq_None_iff)
    then have "rb' = rb\<lparr>rb_partitions := dict_put pid key tag (rb_partitions rb)\<rparr>"
      using step False view wf by (simp add: rb_sync_item_def rb_shows_def tag_update_empty)
    then show ?thesis
      using view False update_new[OF tr]
      by (auto simp: rb_shows_def dict_put_simps status_keys_append items_views_append same_config_def items_ok_def)
  qed
qed

lemma sync_items:
  assumes "res_fold (rb_sync_item pid) items rb = Inr rb'" "rb_shows pid pre rb" "items_wf (pre @ items)"
  shows "rb_shows pid (pre @ items) rb' \<and> (\<forall>pid' its. pid' \<noteq> pid \<longrightarrow> rb_shows pid' its rb \<longrightarrow> rb_shows pid' its rb') \<and>
    same_config rb rb' \<and> items_ok items"
  using assms
proof (induction items arbitrary: pre rb)
  case Nil
  then show ?case by (simp add: same_config_def items_ok_def)
next
  case (Cons x items)
  obtain key tag where x: "x = (key, tag)" by (cases x)
  obtain rb1 where rb1: "rb_sync_item pid (key, tag) rb = Inr rb1" "res_fold (rb_sync_item pid) items rb1 = Inr rb'"
    using Cons.prems(1) x by (auto simp: res_bind_eq_Inr)
  have "key \<notin> fst ` set pre" "dict_wf (tag_fields tag)"
    using Cons.prems(3) x by (auto simp: items_wf_def dict_wf_def)
  from sync_item_step[OF Cons.prems(2) this rb1(1)]
  have s: "rb_shows pid (pre @ [x]) rb1" "\<forall>pid' its. pid' \<noteq> pid \<longrightarrow> rb_shows pid' its rb \<longrightarrow> rb_shows pid' its rb1"
    "same_config rb rb1" "items_ok [x]" using x by auto
  have "items_wf ((pre @ [x]) @ items)" using Cons.prems(3) by simp
  from Cons.IH[OF rb1(2) s(1) this] s show ?case by (auto simp: same_config_def items_ok_def)
qed

lemma rb_shows_cleared: "rb_shows pid [] (rb\<lparr>rb_partitions := [], rb_pending := [], rb_running := [], rb_finished := [],
    rb_failure := [], rb_steps := []\<rparr>)"
  by (simp add: rb_shows_def items_steps_def items_trajs_def)

lemma rb_shows_touch: "rb_shows pid its (rb\<lparr>rb_partitions := AList.update p (dict_get (rb_partitions rb) p []) (rb_partitions rb)\<rparr>)
    = rb_shows pid its rb"
  by (cases "pid = p") (simp_all add: rb_shows_def)

lemma rb_sync_partition_pair: "rb_sync_partition (pid, items) rb = res_fold (rb_sync_item pid) items
    (rb\<lparr>rb_partitions := AList.update pid (dict_get (rb_partitions rb) pid []) (rb_partitions rb)\<rparr>)"
  by (simp add: rb_sync_partition_def)

lemma sync_partitions:
  assumes "res_fold rb_sync_partition d rb = Inr rb'" "dict_wf d" "\<forall>(pid, items) \<in> set d. items_wf items"
    and "\<forall>pid \<in> fst ` set d. rb_shows pid [] rb"
  shows "(\<forall>(pid, items) \<in> set d. rb_shows pid items rb' \<and> items_ok items) \<and>
    (\<forall>pid its. pid \<notin> fst ` set d \<longrightarrow> rb_shows pid its rb \<longrightarrow> rb_shows pid its rb') \<and> same_config rb rb'"
  using assms
proof (induction d arbitrary: rb)
  case Nil
  then show ?case by (simp add: same_config_def)
next
  case (Cons x d)
  obtain pid items where x: "x = (pid, items)" by (cases x)
  let ?rb = "rb\<lparr>rb_partitions := AList.update pid (dict_get (rb_partitions rb) pid []) (rb_partitions rb)\<rparr>"
  obtain rb1 where rb1: "res_fold (rb_sync_item pid) items ?rb = Inr rb1" "res_fold rb_sync_partition d rb1 = Inr rb'"
    using Cons.prems(1) x by (auto simp: res_bind_eq_Inr rb_sync_partition_pair)
  have pre: "rb_shows pid [] ?rb" "items_wf ([] @ items)" using Cons.prems(3,4) x rb_shows_touch[of pid "[]" pid rb] by auto
  note s = sync_items[OF rb1(1) pre, unfolded rb_shows_touch append_Nil]
  have d: "dict_wf d" "pid \<notin> fst ` set d" using Cons.prems(2) x by (auto simp: dict_wf_def)
  have "\<forall>p \<in> fst ` set d. rb_shows p [] rb1" using s Cons.prems(4) d(2) by (metis image_insert insert_iff list.simps(15))
  from Cons.IH[OF rb1(2) d(1) _ this] Cons.prems(3)
  have i: "(\<forall>(pid, items) \<in> set d. rb_shows pid items rb' \<and> items_ok items)"
    "(\<forall>pid its. pid \<notin> fst ` set d \<longrightarrow> rb_shows pid its rb1 \<longrightarrow> rb_shows pid its rb')" "same_config rb1 rb'" by auto
  have "rb_shows pid items rb' \<and> items_ok items" using i(2) d(2) s by blast
  moreover have "rb_shows p its rb'" if "p \<notin> fst ` set (x # d)" "rb_shows p its rb" for p its
    using that s i(2) x by auto
  moreover have "same_config rb rb'" using s i(3) by (auto simp: same_config_def)
  ultimately show ?case using i(1) x by auto
qed

lemma sync_shows:
  assumes r: "sync_metadata_from_transfer_queue snap rb = Inr rb'" and wf: "snapshot_wf snap"
  shows "rb_shows pid (snapshot_items snap pid) rb' \<and> items_ok (snapshot_items snap pid) \<and> same_config rb rb'"
proof (cases snap)
  case None
  with r have "rb' = rb\<lparr>rb_partitions := [], rb_pending := [], rb_running := [], rb_finished := [], rb_failure := [], rb_steps := []\<rparr>"
    by (simp add: sync_metadata_from_transfer_queue_def)
  with None show ?thesis
    by (auto simp: snapshot_items_def items_ok_def same_config_def rb_shows_def items_steps_def items_trajs_def)
next
  case (Some d)
  let ?c = "rb\<lparr>rb_partitions := [], rb_pending := [], rb_running := [], rb_finished := [], rb_failure := [], rb_steps := []\<rparr>"
  have f: "res_fold rb_sync_partition d ?c = Inr rb'" "dict_wf d" "\<forall>(pid, items) \<in> set d. items_wf items"
    using r wf Some by (simp_all add: sync_metadata_from_transfer_queue_def snapshot_wf_def)
  from sync_partitions[OF f] rb_shows_cleared
  have s: "\<forall>(pid, items) \<in> set d. rb_shows pid items rb' \<and> items_ok items"
    "\<forall>pid its. pid \<notin> fst ` set d \<longrightarrow> rb_shows pid its ?c \<longrightarrow> rb_shows pid its rb'" "same_config ?c rb'" by blast+
  have c: "same_config rb rb'" using s(3) by (simp add: same_config_def)
  show ?thesis
  proof (cases "map_of d pid")
    case None
    then have "pid \<notin> fst ` set d" by (simp add: map_of_eq_None_iff)
    with s(2) rb_shows_cleared have "rb_shows pid [] rb'" by blast
    with None Some c show ?thesis by (simp add: snapshot_items_def dict_get_def items_ok_def)
  next
    case (Some items)
    then have "(pid, items) \<in> set d" by (rule map_of_SomeD)
    with s(1) c Some \<open>snap = Some d\<close> show ?thesis by (auto simp: snapshot_items_def dict_get_def)
  qed
qed

section \<open>The parameters\<close>

text \<open>Iterating over a set visits every element once, in some order.\<close>

definition iter_ok :: "(string set \<Rightarrow> string list) \<Rightarrow> bool" where
  "iter_ok iter_order \<longleftrightarrow> (\<forall>S. finite S \<longrightarrow> set (iter_order S) = S \<and> distinct (iter_order S))"

lemma iter_ok_sorted: "iter_ok sorted_list_of_set"
  by (simp add: iter_ok_def)

definition terminal_prompts :: "'v kv_items \<Rightarrow> string set" where
  "terminal_prompts items = status_keys ''finished'' items \<union> status_keys ''failure'' items"

definition prompt_span :: "'v kv_items \<Rightarrow> int \<Rightarrow> string \<Rightarrow> int" where
  "prompt_span items global_steps uid = global_steps - dict_get (items_steps items) uid global_steps + 1"

definition sampleable_prompts :: "string \<Rightarrow> int \<Rightarrow> 'v kv_items \<Rightarrow> int \<Rightarrow> string set" where
  "sampleable_prompts strategy threshold items global_steps =
     {uid \<in> terminal_prompts items. strategy = ''drop'' \<longrightarrow> prompt_span items global_steps uid \<le> threshold}"

lemma finite_status_keys [simp]: "finite (status_keys st items)"
  by (rule finite_subset[of _ "fst ` set items"]) (force simp: status_keys_def)+

lemma finite_terminal [simp]: "finite (terminal_prompts items)" "finite (sampleable_prompts s t items g)"
  by (simp_all add: terminal_prompts_def sampleable_prompts_def)

lemma shows_terminal:
  assumes "rb_shows pid items rb"
  shows "rb_terminal rb pid = terminal_prompts items" "rb_span rb g pid uid = prompt_span items g uid"
    "sampleable_terminal_keys rb g pid = sampleable_prompts (rb_strategy rb) (rb_threshold rb) items g"
  using assms
  by (auto simp: rb_terminal_def rb_shows_def terminal_prompts_def rb_span_def prompt_span_def
      sampleable_terminal_keys_def sampleable_prompts_def)

lemma map_of_items_steps:
  assumes "items_ok items" "items_wf items"
  shows "map_of (items_steps items) key = (case map_of items key of None \<Rightarrow> None
    | Some tag \<Rightarrow> if tag_prompt tag then tag_global_steps tag else None)"
  using assms
proof (induction items)
  case (Cons x items)
  obtain k tag where x: "x = (k, tag)" by (cases x)
  have "map_of items k = None" using Cons.prems x by (simp add: items_wf_def dict_wf_def map_of_eq_None_iff)
  moreover have "items_ok items" "items_wf items" using Cons.prems by (auto simp: items_ok_def items_wf_def dict_wf_def)
  ultimately show ?case using Cons.IH Cons.prems(1) x by (auto simp: items_steps_def items_ok_def)
qed (simp add: items_steps_def)

lemma status_keys_step:
  assumes "items_ok items" "items_wf items" "key \<in> status_keys st items"
  obtains g where "map_of (items_steps items) key = Some g"
proof -
  obtain tag where t: "(key, tag) \<in> set items" "tag_prompt tag" using assms(3) by (auto simp: status_keys_def)
  then have "map_of items key = Some tag" using assms(2) by (simp add: items_wf_def dict_wf_map_of)
  moreover obtain g where "tag_global_steps tag = Some g" using t assms(1) by (auto simp: items_ok_def)
  ultimately show thesis using that map_of_items_steps[OF assms(1,2), of key] t(2) by simp
qed

section \<open>Gating\<close>

lemma must_wait_iff:
  assumes "\<forall>key \<in> set keys. \<exists>g. map_of (dict_get (rb_steps rb) pid []) key = Some g"
  shows "rb_must_wait rb global_steps pid keys =
    Inr (\<exists>key \<in> set keys. rb_span rb global_steps pid key \<ge> rb_threshold rb)"
  using assms by (induction keys) (auto simp: rb_span_def dict_get_def)

lemma has_enough_iff:
  assumes s: "rb_shows pid items rb" and ok: "items_ok items" "items_wf items" and it: "iter_ok iter_order"
  shows "has_enough_samples iter_order rb global_steps pid batch_size =
    Inr ((rb_strategy rb = ''wait'' \<longrightarrow> (\<forall>key \<in> status_keys ''pending'' items \<union> status_keys ''running'' items.
              prompt_span items global_steps key < rb_threshold rb)) \<and>
         batch_size \<le> card (sampleable_prompts (rb_strategy rb) (rb_threshold rb) items global_steps))"
proof -
  let ?open = "status_keys ''pending'' items \<union> status_keys ''running'' items"
  have keys: "set (iter_order ?open) = ?open" using it by (simp add: iter_ok_def)
  have steps: "dict_get (rb_steps rb) pid [] = items_steps items" using s by (simp add: rb_shows_def)
  have "\<forall>key \<in> set (iter_order ?open). \<exists>g. map_of (dict_get (rb_steps rb) pid []) key = Some g"
    unfolding keys steps using status_keys_step[OF ok] by blast
  from must_wait_iff[OF this, of global_steps]
  have w: "rb_must_wait rb global_steps pid (iter_order ?open) = Inr (\<exists>key \<in> ?open. prompt_span items global_steps key \<ge> rb_threshold rb)"
    unfolding keys shows_terminal(2)[OF s] .
  have p: "dict_get (rb_pending rb) pid {} \<union> dict_get (rb_running rb) pid {} = ?open" using s by (simp add: rb_shows_def)
  show ?thesis
    unfolding has_enough_samples_def p w shows_terminal(3)[OF s] by (auto simp: not_le)
qed

lemma drop_stale_iff:
  assumes s: "rb_shows pid items rb" and it: "iter_ok iter_order"
    and r: "drop_stale_finished iter_order rb global_steps pid = (n, metrics, events)"
  defines "stale \<equiv> {uid \<in> terminal_prompts items. rb_strategy rb = ''drop'' \<and> prompt_span items global_steps uid > rb_threshold rb}"
  shows "n = card stale \<and> (n = 0 \<longrightarrow> events = [] \<and> metrics = []) \<and>
    (n > 0 \<longrightarrow> (\<exists>uids. set uids = stale \<and> distinct uids \<and> metrics = staleness_metrics pid (map (prompt_span items global_steps) uids) \<and>
      events = [KV_Clear pid (uids @ filter (\<lambda>key. key_uid key \<in> stale) (map fst (items_trajs items)))]))"
proof (cases "rb_strategy rb = ''drop''")
  case False
  then show ?thesis using r by (auto simp: drop_stale_finished_def stale_def)
next
  case True
  have diff: "terminal_prompts items - sampleable_prompts (rb_strategy rb) (rb_threshold rb) items global_steps = stale"
    using True by (auto simp: sampleable_prompts_def stale_def)
  have fin: "finite stale" by (simp add: stale_def)
  have uids: "set (iter_order stale) = stale" "distinct (iter_order stale)" using it fin by (simp_all add: iter_ok_def)
  have len: "length (iter_order stale) = card stale" using uids by (metis distinct_card)
  have parts: "dict_get (rb_partitions rb) pid [] = items_trajs items" using s by (simp add: rb_shows_def)
  have span: "map (rb_span rb global_steps pid) xs = map (prompt_span items global_steps) xs" for xs
    using shows_terminal(2)[OF s] by simp
  have e: "drop_stale_finished iter_order rb global_steps pid =
    (if iter_order stale = [] then (0, [], [])
     else (length (iter_order stale), staleness_metrics pid (map (prompt_span items global_steps) (iter_order stale)),
           [KV_Clear pid (iter_order stale @ filter (\<lambda>key. key_uid key \<in> stale) (map fst (items_trajs items)))]))"
    unfolding drop_stale_finished_def Let_def shows_terminal(1,3)[OF s] diff parts span uids(1) using True by simp
  show ?thesis
  proof (cases "iter_order stale = []")
    case True
    with e r len show ?thesis by simp
  next
    case False
    with e r have "n = card stale" "metrics = staleness_metrics pid (map (prompt_span items global_steps) (iter_order stale))"
      "events = [KV_Clear pid (iter_order stale @ filter (\<lambda>key. key_uid key \<in> stale) (map fst (items_trajs items)))]"
      using len by simp_all
    moreover have "card stale > 0" using False len by (metis length_greater_0_conv)
    ultimately show ?thesis using uids by auto
  qed
qed

section \<open>Selection\<close>

lemma take_sort_key_oldest:
  assumes "distinct xs" "n \<le> length xs"
  shows "distinct (take n (sort_key f xs)) \<and> length (take n (sort_key f xs)) = n \<and>
    set (take n (sort_key f xs)) \<subseteq> set xs \<and>
    (\<forall>u \<in> set (take n (sort_key f xs)). \<forall>v \<in> set xs - set (take n (sort_key f xs)). f u \<le> f v)"
proof -
  let ?s = "sort_key f xs"
  have s: "sorted (map f (take n ?s @ drop n ?s))" by simp
  have "f u \<le> f v" if "u \<in> set (take n ?s)" "v \<in> set xs - set (take n ?s)" for u v
  proof -
    have "set xs = set (take n ?s) \<union> set (drop n ?s)" by (metis append_take_drop_id set_append set_sort)
    with that have "v \<in> set (drop n ?s)" by blast
    with that(1) s show ?thesis by (simp only: map_append sorted_append) auto
  qed
  moreover have "set (take n ?s) \<subseteq> set xs" by (metis set_sort set_take_subset)
  moreover have "distinct (take n ?s)" using assms(1) by simp
  ultimately show ?thesis using assms(2) by auto
qed

definition rb_final :: "(string set \<Rightarrow> string list) \<Rightarrow> int \<Rightarrow> string \<Rightarrow> nat \<Rightarrow> 'v kv_snapshot \<Rightarrow> 'v replay_buffer
    \<Rightarrow> rb_event list \<Rightarrow> 'v rb_outcome \<Rightarrow> bool" where
  "rb_final iter_order g pid n snap rb events out \<longleftrightarrow>
     (\<exists>rb0 rb1 m pre last_events. same_config rb rb0 \<and> sync_metadata_from_transfer_queue snap rb0 = Inr rb1 \<and>
        fst (drop_stale_finished iter_order rb1 g pid) = 0 \<and> has_enough_samples iter_order rb1 g pid n = Inr True \<and>
        rb_finish iter_order rb1 g pid n m = (last_events, out) \<and> events = pre @ last_events)"

lemma rb_final_prefix: "rb_final iter_order g pid n snap rb events out \<Longrightarrow> same_config rb' rb \<Longrightarrow>
    rb_final iter_order g pid n snap rb' (pre @ events) out"
  unfolding rb_final_def same_config_def by (metis append_assoc)

lemma rb_sample_run:
  assumes "rb_sample iter_order refill g pid n m rb snaps = (events, Sampled keys tags metrics)" "\<forall>snap \<in> set snaps. snapshot_wf snap"
  shows "\<exists>snap \<in> set snaps. rb_final iter_order g pid n snap rb events (Sampled keys tags metrics)"
  using assms
proof (induction snaps arbitrary: rb m events)
  case (Cons snap snaps)
  obtain rb1 where rb1: "sync_metadata_from_transfer_queue snap rb = Inr rb1"
    using Cons.prems(1) by (cases "sync_metadata_from_transfer_queue snap rb") auto
  obtain d ms ev where d: "drop_stale_finished iter_order rb1 g pid = (d, ms, ev)" by (rule prod_cases3)
  have cfg: "same_config rb rb1" using sync_shows[OF rb1] Cons.prems(2) by simp
  have more: "\<exists>snap \<in> set snaps. rb_final iter_order g pid n snap rb (pre @ events') (Sampled keys tags metrics)"
    if "rb_sample iter_order refill g pid n m' rb1 snaps = (events', Sampled keys tags metrics)" for m' events' pre
  proof -
    note ih = Cons.IH[OF that]
    obtain s where "s \<in> set snaps" "rb_final iter_order g pid n s rb1 events' (Sampled keys tags metrics)"
      using ih Cons.prems(2) by auto
    with rb_final_prefix[OF _ cfg] show ?thesis by blast
  qed
  show ?case
  proof (cases "d > 0")
    case True
    obtain events' out where r: "rb_sample iter_order refill g pid n (accumulate_drop_metrics m ms d) rb1 snaps = (events', out)"
      by (rule prod.exhaust)
    with Cons.prems(1) rb1 d True have e: "events = (ev @ (if refill then [Refill d] else [])) @ events'" "out = Sampled keys tags metrics"
      by auto
    from more[OF r[unfolded e(2)], of "ev @ (if refill then [Refill d] else [])"] show ?thesis unfolding e(1) by auto
  next
    case False
    then obtain b where b: "has_enough_samples iter_order rb1 g pid n = Inr b"
      using Cons.prems(1) rb1 d by (cases "has_enough_samples iter_order rb1 g pid n") auto
    show ?thesis
    proof (cases b)
      case True
      then have "rb_finish iter_order rb1 g pid n m = (events, Sampled keys tags metrics)"
        using Cons.prems(1) rb1 d False b by simp
      then have "rb_final iter_order g pid n snap rb ([] @ events) (Sampled keys tags metrics)"
        unfolding rb_final_def using rb1 d False b True cfg by (fastforce simp: same_config_def)
      then show ?thesis by auto
    next
      case b_False: False
      obtain events' out where r: "rb_sample iter_order refill g pid n m rb1 snaps = (events', out)" by (rule prod.exhaust)
      with Cons.prems(1) rb1 d False b b_False have e: "events = [Sleep] @ events'" "out = Sampled keys tags metrics" by auto
      from more[OF r[unfolded e(2)], of "[Sleep]"] show ?thesis unfolding e(1) by auto
    qed
  qed
qed simp

lemma sync_item_ok:
  "items_ok [item] \<Longrightarrow> \<exists>rb'. rb_sync_item pid item rb = Inr rb'"
  by (cases item) (auto simp: items_ok_def rb_sync_item_def rb_add_status_def)

lemma sync_items_ok: "items_ok items \<Longrightarrow> \<exists>rb'. res_fold (rb_sync_item pid) items rb = Inr rb'"
proof (induction items arbitrary: rb)
  case (Cons x items)
  then have "items_ok [x]" "items_ok items" by (auto simp: items_ok_def)
  with Cons.IH sync_item_ok[of x pid rb] show ?case by auto
qed simp

lemma sync_partitions_ok: "\<forall>(pid, items) \<in> set d. items_ok items \<Longrightarrow> \<exists>rb'. res_fold rb_sync_partition d rb = Inr rb'"
proof (induction d arbitrary: rb)
  case (Cons x d)
  obtain pid items where x: "x = (pid, items)" by (cases x)
  with Cons.prems obtain rb1 where "rb_sync_partition x rb = Inr rb1"
    using sync_items_ok[of items pid] by (auto simp: rb_sync_partition_pair)
  with Cons.IH Cons.prems show ?case by auto
qed simp

definition snapshot_ok :: "'v kv_snapshot \<Rightarrow> bool" where
  "snapshot_ok snap = (case snap of None \<Rightarrow> True | Some d \<Rightarrow> \<forall>(pid, items) \<in> set d. items_ok items)"

lemma sync_ok: "snapshot_ok snap \<Longrightarrow> \<exists>rb'. sync_metadata_from_transfer_queue snap rb = Inr rb'"
  by (auto simp: snapshot_ok_def sync_metadata_from_transfer_queue_def sync_partitions_ok split: option.splits)

lemma snapshot_items_wf: "snapshot_wf snap \<Longrightarrow> items_wf (snapshot_items snap pid)"
  by (auto simp: snapshot_wf_def snapshot_items_def dict_get_def items_wf_def dest!: map_of_SomeD split: option.splits)

lemma rb_select_facts:
  assumes s: "rb_shows pid items rb" and it: "iter_ok iter_order"
    and n: "n \<le> card (sampleable_prompts (rb_strategy rb) (rb_threshold rb) items g)"
  shows "distinct (rb_select iter_order rb g pid n) \<and> length (rb_select iter_order rb g pid n) = n \<and>
    set (rb_select iter_order rb g pid n) \<subseteq> sampleable_prompts (rb_strategy rb) (rb_threshold rb) items g \<and>
    (\<forall>u \<in> set (rb_select iter_order rb g pid n). \<forall>v \<in> sampleable_prompts (rb_strategy rb) (rb_threshold rb) items g - set (rb_select iter_order rb g pid n).
       dict_get (items_steps items) u 0 \<le> dict_get (items_steps items) v 0)"
proof -
  let ?S = "sampleable_prompts (rb_strategy rb) (rb_threshold rb) items g"
  have S: "set (iter_order ?S) = ?S" "distinct (iter_order ?S)" using it by (simp_all add: iter_ok_def)
  then have "n \<le> length (iter_order ?S)" using n by (metis distinct_card)
  moreover have "dict_get (rb_steps rb) pid [] = items_steps items" using s by (simp add: rb_shows_def)
  ultimately show ?thesis
    using take_sort_key_oldest[OF S(2), of n "\<lambda>key. dict_get (items_steps items) key 0"] S(1)
    by (simp add: rb_select_def shows_terminal(3)[OF s])
qed

lemma rb_finish_sampled:
  assumes s: "rb_shows pid items rb" and it: "iter_ok iter_order"
    and n: "n \<le> card (sampleable_prompts (rb_strategy rb) (rb_threshold rb) items g)"
  defines "sel \<equiv> rb_select iter_order rb g pid n"
  shows "rb_finish iter_order rb g pid n m = ([KV_Clear pid sel],
    Sampled (map fst (filter (\<lambda>(key, tag). key_uid key \<in> set sel) (items_trajs items)))
      (map snd (filter (\<lambda>(key, tag). key_uid key \<in> set sel) (items_trajs items))) m)"
proof -
  have sub: "set sel \<subseteq> sampleable_prompts (rb_strategy rb) (rb_threshold rb) items g"
    using rb_select_facts[OF s it n] by (simp add: sel_def)
  have ok: "\<not> (rb_strategy rb = ''drop'' \<and> \<not> (\<forall>uid \<in> set sel. rb_span rb g pid uid \<le> rb_threshold rb))"
    using sub by (auto simp: sampleable_prompts_def shows_terminal(2)[OF s])
  have parts: "dict_get (rb_partitions rb) pid [] = items_trajs items" using s by (simp add: rb_shows_def)
  show ?thesis
    unfolding rb_finish_def Let_def sel_def[symmetric] parts using ok by simp
qed

section \<open>Merged metrics\<close>

lemma ends_with_prefix:
  "ends_with ''/dropped_samples'' (metric_prefix pid)"
  "\<not> ends_with ''/dropped_samples'' (metric_prefix pid @ ''_staleness/mean'')"
  "\<not> ends_with ''/dropped_samples'' (metric_prefix pid @ ''_staleness/max'')"
  "\<not> ends_with ''/dropped_samples'' (metric_prefix pid @ ''_staleness/min'')"
  "ends_with ''/dropped_samples_staleness/mean'' (metric_prefix pid @ ''_staleness/mean'')"
  "\<not> ends_with ''/dropped_samples_staleness/mean'' (metric_prefix pid @ ''_staleness/max'')"
  "\<not> ends_with ''/dropped_samples_staleness/mean'' (metric_prefix pid @ ''_staleness/min'')"
  "ends_with ''/dropped_samples_staleness/max'' (metric_prefix pid @ ''_staleness/max'')"
  "\<not> ends_with ''/dropped_samples_staleness/max'' (metric_prefix pid @ ''_staleness/min'')"
  "ends_with ''/dropped_samples_staleness/min'' (metric_prefix pid @ ''_staleness/min'')"
  by (simp_all add: ends_with_def metric_prefix_def)

lemma metric_prefix_ne [simp]: "metric_prefix pid \<noteq> metric_prefix pid @ x # xs" "metric_prefix pid @ x # xs \<noteq> metric_prefix pid"
  by simp_all

lemma accumulate_first: "accumulate_drop_metrics [] (staleness_metrics pid xs) (length xs) = staleness_metrics pid xs"
  by (simp add: accumulate_drop_metrics_def staleness_metrics_def ends_with_prefix Let_def dict_get_def)

lemma accumulate_next:
  assumes "xs \<noteq> []" "ys \<noteq> []"
  shows "accumulate_drop_metrics (staleness_metrics pid xs) (staleness_metrics pid ys) (length ys) = staleness_metrics pid (xs @ ys)"
proof -
  have ne: "(of_nat (length xs) + of_nat (length ys) :: rat) \<noteq> 0" "(of_nat (length xs) :: rat) \<noteq> 0" "(of_nat (length ys) :: rat) \<noteq> 0"
    using assms by (simp_all flip: of_nat_add)
  have mx: "max (of_int (Max (set xs))) (of_int (Max (set ys))) = (of_int (Max (set xs \<union> set ys)) :: rat)"
    "min (of_int (Min (set xs))) (of_int (Min (set ys))) = (of_int (Min (set xs \<union> set ys)) :: rat)"
    using assms by (simp_all add: Max.union Min.union of_int_max of_int_min)
  show ?thesis
    by (simp add: accumulate_drop_metrics_def staleness_metrics_def ends_with_prefix Let_def dict_get_def mx ne assms)
qed

section \<open>Properties\<close>

lemma sample_final:
  assumes "iter_ok iter_order" "\<forall>snap \<in> set snaps. snapshot_wf snap"
    and r: "rb_sample iter_order refill g pid n m rb snaps = (events, Sampled keys tags metrics)"
  obtains snap items rb1 pre where "snap \<in> set snaps" "items = snapshot_items snap pid" "items_wf items" "rb_shows pid items rb1"
    "rb_strategy rb1 = rb_strategy rb" "rb_threshold rb1 = rb_threshold rb" "items_ok items"
    "fst (drop_stale_finished iter_order rb1 g pid) = 0" "has_enough_samples iter_order rb1 g pid n = Inr True"
    "\<exists>m' ev. rb_finish iter_order rb1 g pid n m' = (ev, Sampled keys tags metrics) \<and> events = pre @ ev"
proof -
  obtain snap rb0 rb1 m' pre ev where f: "snap \<in> set snaps" "same_config rb rb0"
    "sync_metadata_from_transfer_queue snap rb0 = Inr rb1" "fst (drop_stale_finished iter_order rb1 g pid) = 0"
    "has_enough_samples iter_order rb1 g pid n = Inr True"
    "rb_finish iter_order rb1 g pid n m' = (ev, Sampled keys tags metrics)" "events = pre @ ev"
    using rb_sample_run[OF r assms(2)] unfolding rb_final_def by blast
  have wf: "snapshot_wf snap" using f(1) assms(2) by blast
  from sync_shows[OF f(3) wf] f(2) show thesis
    by (intro that[of snap "snapshot_items snap pid" rb1 pre])
      (use f wf snapshot_items_wf in \<open>auto simp: same_config_def\<close>)
qed

text \<open>
  C3: what \<open>ReplayBuffer.sample\<close> returns: for one of the polled snapshots it selects exactly
  \<open>batch_size\<close> distinct finished or failed prompts, none staler than the threshold under the drop
  strategy, oldest first (no selectable prompt left behind is older than a selected one); under the
  wait strategy no pending or running prompt has reached the threshold; the batch is exactly the
  trajectories of the selected prompts, in order, and the last call clears the selected prompts.
\<close>

theorem sample_batch_correct:
  assumes "iter_ok iter_order" "\<forall>snap \<in> set snaps. snapshot_wf snap"
    and "rb_sample iter_order refill g pid batch_size m rb snaps = (events, Sampled keys tags metrics)"
  shows "\<exists>snap \<in> set snaps. \<exists>selected. let items = snapshot_items snap pid in
    distinct selected \<and> length selected = batch_size \<and>
    set selected \<subseteq> sampleable_prompts (rb_strategy rb) (rb_threshold rb) items g \<and>
    (\<forall>u \<in> set selected. \<forall>v \<in> sampleable_prompts (rb_strategy rb) (rb_threshold rb) items g - set selected.
       dict_get (items_steps items) u 0 \<le> dict_get (items_steps items) v 0) \<and>
    (rb_strategy rb = ''wait'' \<longrightarrow> (\<forall>u \<in> status_keys ''pending'' items \<union> status_keys ''running'' items.
       prompt_span items g u < rb_threshold rb)) \<and>
    length keys = length tags \<and>
    zip keys tags = filter (\<lambda>(key, tag). \<not> tag_prompt tag \<and> key_uid key \<in> set selected) items \<and>
    last events = KV_Clear pid selected"
proof (rule sample_final[OF assms])
  fix snap items rb1 pre
  assume f: "snap \<in> set snaps" "items = snapshot_items snap pid" "items_wf items" "rb_shows pid items rb1"
    "rb_strategy rb1 = rb_strategy rb" "rb_threshold rb1 = rb_threshold rb" "items_ok items"
    "fst (drop_stale_finished iter_order rb1 g pid) = 0" "has_enough_samples iter_order rb1 g pid batch_size = Inr True"
    "\<exists>m' ev. rb_finish iter_order rb1 g pid batch_size m' = (ev, Sampled keys tags metrics) \<and> events = pre @ ev"
  let ?sel = "rb_select iter_order rb1 g pid batch_size"
  have h: "batch_size \<le> card (sampleable_prompts (rb_strategy rb1) (rb_threshold rb1) items g)"
    "rb_strategy rb1 = ''wait'' \<longrightarrow> (\<forall>u \<in> status_keys ''pending'' items \<union> status_keys ''running'' items. prompt_span items g u < rb_threshold rb1)"
    using f(9) has_enough_iff[OF f(4,7,3) assms(1), of g batch_size] by simp_all
  have fin: "keys = map fst (filter (\<lambda>(key, tag). key_uid key \<in> set ?sel) (items_trajs items))"
    "tags = map snd (filter (\<lambda>(key, tag). key_uid key \<in> set ?sel) (items_trajs items))" "events = pre @ [KV_Clear pid ?sel]"
    using f(10) rb_finish_sampled[OF f(4) assms(1) h(1)] by auto
  have z: "zip keys tags = filter (\<lambda>(key, tag). \<not> tag_prompt tag \<and> key_uid key \<in> set ?sel) items"
    unfolding fin(1,2) zip_map_fst_snd items_trajs_def filter_filter by (rule filter_cong) auto
  have "length keys = length tags" using fin(1,2) by simp
  with z rb_select_facts[OF f(4) assms(1) h(1)] h(2) f(1,2,5,6) fin(3) show ?thesis
    by (intro bexI[of _ snap] exI[of _ ?sel]) (simp_all add: Let_def)
qed

definition demo_prompt :: "int \<Rightarrow> string \<Rightarrow> int rb_tag" where
  "demo_prompt g status = \<lparr>tag_is_prompt = Some True, tag_global_steps = Some g, tag_status = Some status, tag_fields = []\<rparr>"

definition demo_traj :: "int \<Rightarrow> int rb_tag" where
  "demo_traj x = \<lparr>tag_is_prompt = None, tag_global_steps = None, tag_status = Some ''success'', tag_fields = [(''len'', x)]\<rparr>"

definition demo_items :: "int kv_items" where
  "demo_items = [(''a'', demo_prompt 5 ''finished''), (''a_0_0'', demo_traj 3), (''b'', demo_prompt 4 ''failure''),
     (''b_0_0'', demo_traj 7), (''c'', demo_prompt 5 ''running''), (''d'', demo_prompt 1 ''finished''), (''d_0_0'', demo_traj 9)]"

definition demo_buffer :: "string \<Rightarrow> int replay_buffer" where
  "demo_buffer strategy = \<lparr>rb_threshold = 2, rb_strategy = strategy, rb_partitions = [], rb_pending = [], rb_running = [],
     rb_finished = [], rb_failure = [], rb_steps = []\<rparr>"

lemma demo_wf: "snapshot_wf (Some [(''train'', demo_items)])" "snapshot_wf (Some [(''train'', take 5 demo_items)])"
  by (simp_all add: snapshot_wf_def demo_items_def items_wf_def dict_wf_def demo_prompt_def demo_traj_def)

lemma demo_sample:
  "rb_sample sorted_list_of_set True 5 ''train'' 1 [] (demo_buffer ''drop'')
     [Some [(''train'', demo_items)], Some [(''train'', take 5 demo_items)]] =
   ([KV_Clear ''train'' [''d'', ''d_0_0''], Refill 1, KV_Clear ''train'' [''b'']],
    Sampled [''b_0_0''] [demo_traj 7] (staleness_metrics ''train'' [5]))"
  by code_simp

theorem sample_batch_correct_witness:
  "\<exists>snap \<in> set [Some [(''train'', demo_items)], Some [(''train'', take 5 demo_items)]]. \<exists>selected.
     let items = snapshot_items snap ''train'' in
     distinct selected \<and> length selected = 1 \<and> zip [''b_0_0''] [demo_traj 7] =
       filter (\<lambda>(key, tag). \<not> tag_prompt tag \<and> key_uid key \<in> set selected) items"
proof -
  have "\<forall>snap \<in> set [Some [(''train'', demo_items)], Some [(''train'', take 5 demo_items)]]. snapshot_wf snap"
    using demo_wf by simp
  from sample_batch_correct[OF iter_ok_sorted this demo_sample] show ?thesis unfolding Let_def by blast
qed

text \<open>
  \<open>sample\<close> never raises when the tags of every snapshot have a known status and a step:
  no \<open>KeyError\<close> in the gating, and the final staleness assertion of the drop strategy holds.
\<close>

theorem sample_never_raises:
  assumes "iter_ok iter_order" "\<forall>snap \<in> set snaps. snapshot_wf snap \<and> snapshot_ok snap"
  shows "snd (rb_sample iter_order refill g pid batch_size m rb snaps) \<noteq> Raised e"
  using assms(2)
proof (induction snaps arbitrary: rb m)
  case (Cons snap snaps)
  then obtain rb1 where rb1: "sync_metadata_from_transfer_queue snap rb = Inr rb1" using sync_ok by fastforce
  have wf: "snapshot_wf snap" "items_wf (snapshot_items snap pid)" using Cons.prems snapshot_items_wf by auto
  have s: "rb_shows pid (snapshot_items snap pid) rb1" "items_ok (snapshot_items snap pid)"
    using sync_shows[OF rb1 wf(1)] by auto
  obtain d ms ev where d: "drop_stale_finished iter_order rb1 g pid = (d, ms, ev)" by (rule prod_cases3)
  have IH: "snd (rb_sample iter_order refill g pid batch_size m' rb' snaps) \<noteq> Raised e" for m' rb'
    using Cons by simp
  obtain b where b: "has_enough_samples iter_order rb1 g pid batch_size = Inr b"
    using has_enough_iff[OF s wf(2) assms(1)] by blast
  have "snd (rb_finish iter_order rb1 g pid batch_size m) \<noteq> Raised e" if b
  proof -
    have "batch_size \<le> card (sampleable_prompts (rb_strategy rb1) (rb_threshold rb1) (snapshot_items snap pid) g)"
      using b that has_enough_iff[OF s wf(2) assms(1), of g batch_size] by simp
    from rb_finish_sampled[OF s(1) assms(1) this] show ?thesis by simp
  qed
  with IH show ?case using rb1 d b by (auto split: prod.splits bool.splits simp: prod_eq_iff)
qed simp

theorem sample_never_raises_witness:
  "snd (rb_sample sorted_list_of_set True 5 ''train'' 1 [] (demo_buffer ''wait'') [Some [(''train'', demo_items)]]) \<noteq> Raised KeyError"
  by (rule sample_never_raises[OF iter_ok_sorted])
    (use demo_wf in \<open>auto simp: snapshot_ok_def items_ok_def demo_items_def demo_prompt_def demo_traj_def tag_prompt_def\<close>)

text \<open>
  After a sync, \<open>_drop_stale_finished\<close> drops exactly the finished or failed prompts whose span exceeds
  the threshold, and only under the drop strategy: it counts them, and clears them together with
  all their trajectories and nothing else.
\<close>

theorem drop_stale_exact:
  assumes "iter_ok iter_order" "snapshot_wf snap" "sync_metadata_from_transfer_queue snap rb = Inr rb1"
    and "drop_stale_finished iter_order rb1 g pid = (n, metrics, events)"
  shows "let items = snapshot_items snap pid;
      stale = {uid \<in> terminal_prompts items. rb_strategy rb = ''drop'' \<and> prompt_span items g uid > rb_threshold rb} in
    n = card stale \<and> (n = 0 \<longrightarrow> events = []) \<and>
    (n > 0 \<longrightarrow> (\<exists>keys. events = [KV_Clear pid keys] \<and>
       set keys = stale \<union> {key. \<exists>tag. (key, tag) \<in> set items \<and> \<not> tag_prompt tag \<and> key_uid key \<in> stale}))"
proof -
  have s: "rb_shows pid (snapshot_items snap pid) rb1" "same_config rb rb1" using sync_shows[OF assms(3,2)] by auto
  have t: "set (filter (\<lambda>key. key_uid key \<in> S) (map fst (items_trajs items))) =
    {key. \<exists>tag. (key, tag) \<in> set items \<and> \<not> tag_prompt tag \<and> key_uid key \<in> S}" for S and items :: "'a kv_items"
    by (force simp: items_trajs_def)
  define stale where "stale = {uid \<in> terminal_prompts (snapshot_items snap pid).
    rb_strategy rb = ''drop'' \<and> prompt_span (snapshot_items snap pid) g uid > rb_threshold rb}"
  have c: "rb_strategy rb1 = rb_strategy rb" "rb_threshold rb1 = rb_threshold rb" using s(2) by (simp_all add: same_config_def)
  have d: "n = card stale \<and> (n = 0 \<longrightarrow> events = [] \<and> metrics = []) \<and> (n > 0 \<longrightarrow> (\<exists>uids. set uids = stale \<and> distinct uids \<and>
      metrics = staleness_metrics pid (map (prompt_span (snapshot_items snap pid) g) uids) \<and>
      events = [KV_Clear pid (uids @ filter (\<lambda>key. key_uid key \<in> stale) (map fst (items_trajs (snapshot_items snap pid))))]))"
    using drop_stale_iff[OF s(1) assms(1,4)] unfolding c stale_def .
  have "\<exists>keys. events = [KV_Clear pid keys] \<and> set keys =
      stale \<union> {key. \<exists>tag. (key, tag) \<in> set (snapshot_items snap pid) \<and> \<not> tag_prompt tag \<and> key_uid key \<in> stale}" if "n > 0"
  proof -
    obtain uids where u: "set uids = stale"
      "events = [KV_Clear pid (uids @ filter (\<lambda>key. key_uid key \<in> stale) (map fst (items_trajs (snapshot_items snap pid))))]"
      using d \<open>n > 0\<close> by blast
    show ?thesis by (rule exI, rule conjI, rule u(2)) (simp only: set_append u(1) t)
  qed
  with d show ?thesis unfolding Let_def stale_def[symmetric] by blast
qed

theorem drop_stale_exact_witness:
  "\<exists>rb1. sync_metadata_from_transfer_queue (Some [(''train'', demo_items)]) (demo_buffer ''drop'') = Inr rb1 \<and>
     fst (drop_stale_finished sorted_list_of_set rb1 5 ''train'') =
       card {uid \<in> terminal_prompts demo_items. prompt_span demo_items 5 uid > 2}"
proof -
  have "snapshot_ok (Some [(''train'', demo_items)])"
    by (auto simp: snapshot_ok_def items_ok_def demo_items_def demo_prompt_def demo_traj_def tag_prompt_def)
  then obtain rb1 where rb1: "sync_metadata_from_transfer_queue (Some [(''train'', demo_items)]) (demo_buffer ''drop'') = Inr rb1"
    using sync_ok by blast
  obtain n ms ev where d: "drop_stale_finished sorted_list_of_set rb1 5 ''train'' = (n, ms, ev)" by (rule prod_cases3)
  from drop_stale_exact[OF iter_ok_sorted demo_wf(1) rb1 d] rb1 d show ?thesis
    by (auto simp: Let_def snapshot_items_def dict_get_def demo_buffer_def)
qed

text \<open>
  Merging the drop metrics of any number of polling rounds gives the count, mean, maximum
  and minimum over all the dropped prompts, as if they had been dropped in one round.
\<close>

theorem drop_metrics_merge:
  assumes "\<forall>spans \<in> set rounds. spans \<noteq> []" "rounds \<noteq> []"
  shows "fold (\<lambda>spans acc. accumulate_drop_metrics acc (staleness_metrics pid spans) (length spans)) rounds []
    = staleness_metrics pid (concat rounds)"
  using assms
proof (induction rounds rule: rev_induct)
  case (snoc spans rounds)
  show ?case
  proof (cases "rounds = []")
    case True
    then show ?thesis by (simp add: accumulate_first)
  next
    case False
    with snoc have "fold (\<lambda>spans acc. accumulate_drop_metrics acc (staleness_metrics pid spans) (length spans)) rounds []
      = staleness_metrics pid (concat rounds)" "spans \<noteq> []" by simp_all
    moreover have "concat rounds \<noteq> []" using False snoc.prems(1) by (cases rounds) auto
    ultimately show ?thesis by (simp add: accumulate_next)
  qed
qed simp

theorem drop_metrics_merge_witness:
  "fold (\<lambda>spans acc. accumulate_drop_metrics acc (staleness_metrics ''train'' spans) (length spans)) [[3, 5], [4]] []
    = staleness_metrics ''train'' (concat [[3, 5], [4]])"
  by (rule drop_metrics_merge) simp_all

end
