(* ===== verification/Message_Queue.thy ===== *)
theory Message_Queue
  imports Prelude "HOL-Library.Sublist"
begin

text \<open>
  The queue between rollouter and trainer, \<open>verl/experimental/fully_async_policy/message_queue.py\<close>.
  Every method runs under the actor's lock, so it is one step of the state; a consumer that
  awaits the condition is in the waiting set until a producer or the shutdown notifies it.
\<close>

section \<open>The queue\<close>

record ('a, 'b) message_queue =
  mq_max :: nat
  mq_queue :: "'a list"
  mq_val_queue :: "'b list"
  mq_running :: bool
  mq_produced :: nat
  mq_consumed :: nat
  mq_dropped :: nat

definition mq_init :: "int option \<Rightarrow> ('a, 'b) message_queue result" where
  "mq_init max_queue_size = (case max_queue_size of
     None \<Rightarrow> Inl ValueError
   | Some n \<Rightarrow> if n < 0 then Inl ValueError
       else Inr \<lparr>mq_max = nat n, mq_queue = [], mq_val_queue = [], mq_running = True, mq_produced = 0, mq_consumed = 0,
              mq_dropped = 0\<rparr>)"

text \<open>\<open>deque(maxlen=n).append\<close> and \<open>popleft\<close>.\<close>

definition deque_append :: "nat \<Rightarrow> 'a \<Rightarrow> 'a list \<Rightarrow> 'a list" where
  "deque_append maxlen x q = drop (length q + 1 - maxlen) (q @ [x])"

fun deque_popleft :: "'a list \<Rightarrow> ('a \<times> 'a list) result" where
  "deque_popleft [] = Inl IndexError"
| "deque_popleft (x # q) = Inr (x, q)"

definition put_sample :: "'a \<Rightarrow> ('a, 'b) message_queue \<Rightarrow> (('a, 'b) message_queue \<times> bool) result" where
  "put_sample sample mq =
     res_bind (if length (mq_queue mq) \<ge> mq_max mq
               then res_bind (deque_popleft (mq_queue mq)) (\<lambda>(_, q). Inr (mq\<lparr>mq_queue := q, mq_dropped := mq_dropped mq + 1\<rparr>, True))
               else Inr (mq, False)) (\<lambda>(mq1, is_drop).
       let mq2 = mq1\<lparr>mq_queue := deque_append (mq_max mq) sample (mq_queue mq1), mq_produced := mq_produced mq1 + 1\<rparr>
       in Inr (mq2, \<not> is_drop))"

datatype 'a get_outcome = Wait | Closed | Got 'a nat

definition get_sample :: "('a, 'b) message_queue \<Rightarrow> ('a, 'b) message_queue \<times> 'a get_outcome" where
  "get_sample mq =
     (case mq_queue mq of
        [] \<Rightarrow> (mq, if mq_running mq then Wait else Closed)
      | x # q \<Rightarrow> (mq\<lparr>mq_queue := q, mq_consumed := mq_consumed mq + 1\<rparr>, Got x (length q)))"

definition get_queue_size :: "('a, 'b) message_queue \<Rightarrow> nat" where
  "get_queue_size mq = length (mq_queue mq)"

definition get_statistics :: "('a, 'b) message_queue \<Rightarrow> (string, nat) dict" where
  "get_statistics mq =
     [(''queue_size'', length (mq_queue mq)), (''total_produced'', mq_produced mq), (''total_consumed'', mq_consumed mq),
      (''dropped_samples'', mq_dropped mq), (''max_queue_size'', mq_max mq)]"

definition clear_queue :: "('a, 'b) message_queue \<Rightarrow> ('a, 'b) message_queue \<times> nat" where
  "clear_queue mq = (mq\<lparr>mq_queue := []\<rparr>, length (mq_queue mq))"

definition shutdown :: "('a, 'b) message_queue \<Rightarrow> ('a, 'b) message_queue" where
  "shutdown mq = mq\<lparr>mq_running := False\<rparr>"

definition put_validate :: "'b \<Rightarrow> ('a, 'b) message_queue \<Rightarrow> ('a, 'b) message_queue" where
  "put_validate data mq = mq\<lparr>mq_val_queue := mq_val_queue mq @ [data]\<rparr>"

definition get_validate :: "('a, 'b) message_queue \<Rightarrow> ('a, 'b) message_queue \<times> 'b option" where
  "get_validate mq = (case mq_val_queue mq of [] \<Rightarrow> (mq, None) | x # q \<Rightarrow> (mq\<lparr>mq_val_queue := q\<rparr>, Some x))"

text \<open>
  What \<open>get_memory_usage\<close> reads of a sample: \<open>sys.getsizeof\<close>, the number of entries of its
  batch when it has a non-empty \<open>original_batch_dict\<close>, and whether it has an
  \<open>agent_loop_output\<close>; \<open>None\<close> when reading them raises.
\<close>

record sample_view =
  sv_getsizeof :: int
  sv_batch_entries :: "int option"
  sv_has_agent_output :: bool

definition sample_size :: "sample_view \<Rightarrow> int" where
  "sample_size v = sv_getsizeof v + (case sv_batch_entries v of None \<Rightarrow> 0 | Some n \<Rightarrow> n * 1000)
     + (if sv_has_agent_output v then 5000 else 0)"

definition get_memory_usage :: "('a \<Rightarrow> sample_view option) \<Rightarrow> ('a, 'b) message_queue \<Rightarrow> int \<times> int \<times> rat" where
  "get_memory_usage view mq =
     (let sample_count = int (length (mq_queue mq));
          total_size = (case mq_queue mq of [] \<Rightarrow> 0
            | sample # _ \<Rightarrow> (case view sample of None \<Rightarrow> sample_count * 15000
                             | Some v \<Rightarrow> sample_size v * sample_count))
      in (sample_count, total_size, of_int total_size / (1024 * 1024)))"

section \<open>Producers, consumers and the condition variable\<close>

text \<open>
  \<open>mqs_waiting\<close>: consumers inside \<open>await condition.wait()\<close>; \<open>mqs_ready\<close>: consumers that were notified
  and will test the loop condition again.
\<close>

record ('a, 'b, 'c) mq_system =
  mqs_queue :: "('a, 'b) message_queue"
  mqs_waiting :: "'c set"
  mqs_ready :: "'c set"

datatype ('a, 'c) mq_label =
    Put_Sample 'a bool
  | Get_Sample 'c "'a option"
  | Get_Waits 'c
  | Clear_Queue nat
  | Shutdown

text \<open>A consumer that runs the loop of \<open>get_sample\<close>, from the start or after a notification.\<close>

definition consume :: "'c \<Rightarrow> ('a, 'b, 'c) mq_system \<Rightarrow> ('a, 'c) mq_label \<times> ('a, 'b, 'c) mq_system" where
  "consume c s =
     (let (mq, out) = get_sample (mqs_queue s);
          s' = s\<lparr>mqs_queue := mq, mqs_ready := mqs_ready s - {c}\<rparr>
      in (case out of
            Wait \<Rightarrow> (Get_Waits c, s'\<lparr>mqs_waiting := insert c (mqs_waiting s)\<rparr>)
          | Closed \<Rightarrow> (Get_Sample c None, s')
          | Got x _ \<Rightarrow> (Get_Sample c (Some x), s')))"

definition notify_all :: "('a, 'b, 'c) mq_system \<Rightarrow> ('a, 'b, 'c) mq_system" where
  "notify_all s = s\<lparr>mqs_waiting := {}, mqs_ready := mqs_ready s \<union> mqs_waiting s\<rparr>"

inductive mq_step :: "('a, 'b, 'c) mq_system \<Rightarrow> ('a, 'c) mq_label \<Rightarrow> ('a, 'b, 'c) mq_system \<Rightarrow> bool" where
  step_put: "put_sample x (mqs_queue s) = Inr (mq, ok) \<Longrightarrow>
     mq_step s (Put_Sample x ok) (notify_all (s\<lparr>mqs_queue := mq\<rparr>))"
| step_get: "c \<notin> mqs_waiting s \<Longrightarrow> consume c s = (l, s') \<Longrightarrow> mq_step s l s'"
| step_clear: "clear_queue (mqs_queue s) = (mq, n) \<Longrightarrow> mq_step s (Clear_Queue n) (s\<lparr>mqs_queue := mq\<rparr>)"
| step_shutdown: "mq_step s Shutdown (notify_all (s\<lparr>mqs_queue := shutdown (mqs_queue s)\<rparr>))"

inductive_cases mq_stepE: "mq_step s l s'"

inductive mq_exec :: "('a, 'b, 'c) mq_system \<Rightarrow> ('a, 'c) mq_label list \<Rightarrow> ('a, 'b, 'c) mq_system \<Rightarrow> bool" where
  exec_nil: "mq_exec s [] s"
| exec_snoc: "mq_exec s tr s1 \<Longrightarrow> mq_step s1 l s2 \<Longrightarrow> mq_exec s (tr @ [l]) s2"

definition mq_start :: "('a, 'b) message_queue \<Rightarrow> ('a, 'b, 'c) mq_system" where
  "mq_start mq = \<lparr>mqs_queue = mq, mqs_waiting = {}, mqs_ready = {}\<rparr>"

section \<open>What a trace shows\<close>

fun trace_puts :: "('a, 'c) mq_label list \<Rightarrow> 'a list" where
  "trace_puts [] = []"
| "trace_puts (Put_Sample x ok # tr) = x # trace_puts tr"
| "trace_puts (_ # tr) = trace_puts tr"

fun trace_gets :: "('a, 'c) mq_label list \<Rightarrow> 'a list" where
  "trace_gets [] = []"
| "trace_gets (Get_Sample c (Some x) # tr) = x # trace_gets tr"
| "trace_gets (_ # tr) = trace_gets tr"

fun trace_rejects :: "('a, 'c) mq_label list \<Rightarrow> nat" where
  "trace_rejects [] = 0"
| "trace_rejects (Put_Sample x ok # tr) = (if ok then 0 else 1) + trace_rejects tr"
| "trace_rejects (_ # tr) = trace_rejects tr"

fun trace_cleared :: "('a, 'c) mq_label list \<Rightarrow> nat" where
  "trace_cleared [] = 0"
| "trace_cleared (Clear_Queue n # tr) = n + trace_cleared tr"
| "trace_cleared (_ # tr) = trace_cleared tr"

lemma trace_puts_append [simp]: "trace_puts (tr @ tr') = trace_puts tr @ trace_puts tr'"
  by (induction tr rule: trace_puts.induct) simp_all

lemma trace_gets_append [simp]: "trace_gets (tr @ tr') = trace_gets tr @ trace_gets tr'"
  by (induction tr rule: trace_gets.induct) simp_all

lemma trace_rejects_append [simp]: "trace_rejects (tr @ tr') = trace_rejects tr + trace_rejects tr'"
  by (induction tr rule: trace_rejects.induct) simp_all

lemma trace_cleared_append [simp]: "trace_cleared (tr @ tr') = trace_cleared tr + trace_cleared tr'"
  by (induction tr rule: trace_cleared.induct) simp_all

lemma put_sample_cases:
  assumes "put_sample x mq = Inr (mq', ok)" "length (mq_queue mq) \<le> mq_max mq"
  shows "0 < mq_max mq \<and> mq_max mq' = mq_max mq \<and> mq_running mq' = mq_running mq \<and> mq_produced mq' = mq_produced mq + 1 \<and>
    mq_consumed mq' = mq_consumed mq \<and> (ok \<longleftrightarrow> length (mq_queue mq) < mq_max mq) \<and>
    mq_dropped mq' = mq_dropped mq + (if ok then 0 else 1) \<and>
    mq_queue mq' = (if ok then mq_queue mq else tl (mq_queue mq)) @ [x]"
  using assms
  by (cases "mq_queue mq") (auto simp: put_sample_def deque_append_def Let_def res_bind_eq_Inr split: if_splits)

lemma put_sample_ok: "0 < mq_max mq \<Longrightarrow> \<exists>mq' ok. put_sample x mq = Inr (mq', ok)"
  by (cases "mq_queue mq") (auto simp: put_sample_def Let_def)

lemma consume_cases:
  assumes "consume c s = (l, s')"
  obtains (got) x q where "mq_queue (mqs_queue s) = x # q" "l = Get_Sample c (Some x)"
      "s' = s\<lparr>mqs_queue := (mqs_queue s)\<lparr>mq_queue := q, mq_consumed := mq_consumed (mqs_queue s) + 1\<rparr>, mqs_ready := mqs_ready s - {c}\<rparr>"
  | (closed) "mq_queue (mqs_queue s) = []" "\<not> mq_running (mqs_queue s)" "l = Get_Sample c None" "s' = s\<lparr>mqs_ready := mqs_ready s - {c}\<rparr>"
  | (wait) "mq_queue (mqs_queue s) = []" "mq_running (mqs_queue s)" "l = Get_Waits c"
      "s' = s\<lparr>mqs_ready := mqs_ready s - {c}, mqs_waiting := insert c (mqs_waiting s)\<rparr>"
  using assms
  by (cases "mq_queue (mqs_queue s)"; cases "mq_running (mqs_queue s)") (auto simp: consume_def get_sample_def)

definition mq_inv :: "('a, 'c) mq_label list \<Rightarrow> ('a, 'b, 'c) mq_system \<Rightarrow> bool" where
  "mq_inv tr s \<longleftrightarrow> (let mq = mqs_queue s in
     length (mq_queue mq) \<le> mq_max mq \<and>
     mq_produced mq = length (trace_puts tr) \<and> mq_consumed mq = length (trace_gets tr) \<and>
     mq_dropped mq = trace_rejects tr \<and>
     mq_produced mq = mq_consumed mq + mq_dropped mq + trace_cleared tr + length (mq_queue mq) \<and>
     subseq (trace_gets tr @ mq_queue mq) (trace_puts tr) \<and>
     (mqs_waiting s \<noteq> {} \<longrightarrow> mq_queue mq = [] \<and> mq_running mq))"

lemma subseq_drop_middle: "subseq (a @ x # b) zs \<Longrightarrow> subseq (a @ b) zs"
  by (metis append_Cons append_Nil subseq_append' subseq_order.order_trans list_emb_append_mono subseq_order.refl subseq_Cons')

lemma mq_inv_step:
  assumes "mq_step s l s'" "mq_inv tr s"
  shows "mq_inv (tr @ [l]) s'"
  using assms(1)
proof (cases rule: mq_step.cases)
  case (step_put x mq ok)
  have "length (mq_queue (mqs_queue s)) \<le> mq_max (mqs_queue s)" using assms(2) by (simp add: mq_inv_def Let_def)
  note p = put_sample_cases[OF step_put(3) this]
  have q: "mq_queue mq = (if ok then mq_queue (mqs_queue s) else tl (mq_queue (mqs_queue s))) @ [x]"
    using p by simp
  have sub: "subseq (trace_gets tr @ mq_queue mq) (trace_puts tr @ [x])"
  proof (cases "mq_queue (mqs_queue s)")
    case Nil
    with assms(2) q show ?thesis by (auto simp: mq_inv_def Let_def intro: list_emb_append_mono)
  next
    case (Cons y ys)
    then have "subseq (trace_gets tr @ y # ys) (trace_puts tr)" using assms(2) by (simp add: mq_inv_def Let_def)
    moreover from this have "subseq (trace_gets tr @ ys) (trace_puts tr)" by (rule subseq_drop_middle)
    ultimately show ?thesis using q Cons
      by (cases ok) (simp_all, metis append.assoc append_Cons list_emb_append_mono subseq_order.refl,
        metis append.assoc list_emb_append_mono subseq_order.refl)
  qed
  have len: "length (mq_queue mq) + (if ok then 0 else 1) = length (mq_queue (mqs_queue s)) + 1"
    using q p by (cases "mq_queue (mqs_queue s)") auto
  show ?thesis
    using assms(2) p sub len step_put(1,2) by (auto simp: mq_inv_def Let_def notify_all_def split: if_splits)
next
  case (step_get c)
  show ?thesis
    using step_get(2)
  proof (cases rule: consume_cases)
    case (got x q)
    with assms(2) show ?thesis by (auto simp: mq_inv_def Let_def)
  next
    case closed
    with assms(2) show ?thesis by (auto simp: mq_inv_def Let_def)
  next
    case wait
    with assms(2) show ?thesis by (auto simp: mq_inv_def Let_def)
  qed
next
  case (step_clear mq n)
  have "subseq (trace_gets tr @ mq_queue (mqs_queue s)) (trace_puts tr)" using assms(2) by (simp add: mq_inv_def Let_def)
  then have "subseq (trace_gets tr) (trace_puts tr)" by (metis append_Nil2 list_emb_append_mono subseq_order.order_trans list_emb_Nil subseq_order.refl)
  with assms(2) step_clear show ?thesis by (auto simp: mq_inv_def Let_def clear_queue_def)
next
  case step_shutdown
  with assms(2) show ?thesis by (auto simp: mq_inv_def Let_def notify_all_def shutdown_def)
qed

lemma mq_exec_inv: "mq_exec s0 tr s \<Longrightarrow> mq_inv [] s0 \<Longrightarrow> mq_inv tr s"
  by (induction rule: mq_exec.induct) (auto intro: mq_inv_step)

lemma mq_start_inv: "mq_init (Some n) = Inr mq \<Longrightarrow> mq_inv [] (mq_start mq)"
  by (auto simp: mq_init_def mq_inv_def mq_start_def Let_def split: if_splits)

lemma mq_exec_max: "mq_exec s0 tr s \<Longrightarrow> mq_inv [] s0 \<Longrightarrow> mq_max (mqs_queue s) = mq_max (mqs_queue s0)"
proof (induction rule: mq_exec.induct)
  case (exec_snoc s tr s1 l s2)
  then have "length (mq_queue (mqs_queue s1)) \<le> mq_max (mqs_queue s1)"
    using mq_exec_inv by (fastforce simp: mq_inv_def Let_def)
  with exec_snoc show ?case
    by (auto elim!: mq_stepE consume_cases dest!: put_sample_cases simp: notify_all_def clear_queue_def shutdown_def)
qed simp

section \<open>Properties\<close>

text \<open>
  C4: the queue over any interleaving of producers, consumers, clears and a shutdown: it never
  holds more than its capacity; the counters are the numbers of puts, gets and rejected puts, and
  every produced sample is consumed, dropped, cleared or still queued; the consumed samples
  followed by the queue are a subsequence of the produced ones in order (first in, first out, nothing
  duplicated), and all of them when nothing was dropped or cleared.
\<close>

theorem queue_fifo_conservation:
  assumes "mq_init (Some n) = Inr mq0" "mq_exec (mq_start mq0) tr s"
  shows "let mq = mqs_queue s in
    length (mq_queue mq) \<le> nat n \<and>
    mq_produced mq = length (trace_puts tr) \<and> mq_consumed mq = length (trace_gets tr) \<and> mq_dropped mq = trace_rejects tr \<and>
    mq_produced mq = mq_consumed mq + mq_dropped mq + trace_cleared tr + length (mq_queue mq) \<and>
    subseq (trace_gets tr @ mq_queue mq) (trace_puts tr) \<and>
    (mq_dropped mq = 0 \<and> trace_cleared tr = 0 \<longrightarrow> trace_gets tr @ mq_queue mq = trace_puts tr)"
proof -
  note i0 = mq_start_inv[OF assms(1)]
  have i: "mq_inv tr s" by (rule mq_exec_inv[OF assms(2) i0])
  have m: "mq_max (mqs_queue s) = nat n"
    using mq_exec_max[OF assms(2) i0] assms(1) by (auto simp: mq_init_def mq_start_def split: if_splits)
  have "trace_gets tr @ mq_queue (mqs_queue s) = trace_puts tr"
    if "mq_dropped (mqs_queue s) = 0" "trace_cleared tr = 0"
    using i that by (intro subseq_same_length) (auto simp: mq_inv_def Let_def)
  with i m show ?thesis by (simp add: mq_inv_def Let_def)
qed

lemma demo_exec:
  fixes s0 :: "(nat, nat, nat) mq_system"
  defines "s0 \<equiv> mq_start \<lparr>mq_max = 1, mq_queue = [], mq_val_queue = [], mq_running = True, mq_produced = 0, mq_consumed = 0, mq_dropped = 0\<rparr>"
  shows "\<exists>s. mq_exec s0 [Get_Waits 7, Put_Sample 1 True, Put_Sample 2 False, Get_Sample 7 (Some 2)] s \<and> mq_queue (mqs_queue s) = []"
proof -
  let ?q = "\<lambda>q p c d. \<lparr>mq_max = 1, mq_queue = q, mq_val_queue = [], mq_running = True, mq_produced = p, mq_consumed = c, mq_dropped = d\<rparr> :: (nat, nat) message_queue"
  let ?s = "\<lambda>q w r. \<lparr>mqs_queue = q, mqs_waiting = w, mqs_ready = r\<rparr> :: (nat, nat, nat) mq_system"
  have a: "mq_step s0 (Get_Waits 7) (?s (?q [] 0 0 0) {7} {})"
    unfolding s0_def mq_start_def by (rule step_get[of 7]) (simp_all add: consume_def get_sample_def)
  have b: "mq_step (?s (?q [] 0 0 0) {7} {}) (Put_Sample 1 True) (?s (?q [1] 1 0 0) {} {7})"
    using step_put[of 1 "?s (?q [] 0 0 0) {7} {}" "?q [1] 1 0 0" True]
    by (simp add: put_sample_def deque_append_def Let_def notify_all_def)
  have c: "mq_step (?s (?q [1] 1 0 0) {} {7}) (Put_Sample 2 False) (?s (?q [2] 2 0 1) {} {7})"
    using step_put[of 2 "?s (?q [1] 1 0 0) {} {7}" "?q [2] 2 0 1" False]
    by (simp add: put_sample_def deque_append_def Let_def notify_all_def)
  have d: "mq_step (?s (?q [2] 2 0 1) {} {7}) (Get_Sample 7 (Some 2)) (?s (?q [] 2 1 1) {} {})"
    by (rule step_get[of 7]) (simp_all add: consume_def get_sample_def)
  show ?thesis
    using exec_snoc[OF exec_snoc[OF exec_snoc[OF exec_snoc[OF exec_nil a] b] c] d]
    by (intro exI[of _ "?s (?q [] 2 1 1) {} {}"]) simp
qed

theorem queue_fifo_conservation_witness:
  "\<exists>s. mq_exec (mq_start \<lparr>mq_max = 1, mq_queue = [], mq_val_queue = [] :: nat list, mq_running = True, mq_produced = 0, mq_consumed = 0, mq_dropped = 0\<rparr>)
      [Get_Waits 7, Put_Sample (1 :: nat) True, Put_Sample 2 False, Get_Sample (7 :: nat) (Some 2)] s \<and> subseq [2] [1, 2 :: nat] \<and> mq_dropped (mqs_queue s) = 1"
proof -
  let ?q = "\<lparr>mq_max = 1, mq_queue = [], mq_val_queue = [], mq_running = True, mq_produced = 0, mq_consumed = 0, mq_dropped = 0\<rparr> :: (nat, nat) message_queue"
  have i: "mq_init (Some 1) = Inr ?q" by (simp add: mq_init_def)
  obtain s where s: "mq_exec (mq_start ?q :: (nat, nat, nat) mq_system) [Get_Waits 7, Put_Sample 1 True, Put_Sample 2 False, Get_Sample 7 (Some 2)] s" "mq_queue (mqs_queue s) = []"
    using demo_exec by blast
  from queue_fifo_conservation[OF i s(1)] s show ?thesis by (intro exI[of _ s]) (simp add: Let_def)
qed

text \<open>
  C5: no wake-up is lost: whenever a consumer is waiting on the condition, the queue is empty and
  running, so there is nothing it could have returned; a put or the shutdown leaves nobody waiting.
\<close>

theorem no_lost_wakeup:
  assumes "mq_init (Some n) = Inr mq0" "mq_exec (mq_start mq0) tr s" "c \<in> mqs_waiting s"
  shows "mq_queue (mqs_queue s) = [] \<and> mq_running (mqs_queue s) \<and>
    (\<forall>l s'. mq_step s l s' \<longrightarrow> l = Shutdown \<or> (\<exists>x ok. l = Put_Sample x ok) \<longrightarrow> c \<in> mqs_ready s')"
proof -
  have i: "mq_inv tr s" by (rule mq_exec_inv[OF assms(2) mq_start_inv[OF assms(1)]])
  have "c \<in> mqs_ready s'" if "mq_step s l s'" "l = Shutdown \<or> (\<exists>x ok. l = Put_Sample x ok)" for l s'
    using that assms(3) by (auto elim!: mq_stepE consume_cases simp: notify_all_def)
  with i assms(3) show ?thesis by (auto simp: mq_inv_def Let_def)
qed

theorem no_lost_wakeup_witness:
  "\<exists>s :: (nat, nat, nat) mq_system. 7 \<in> mqs_waiting s \<and> mq_queue (mqs_queue s) = [] \<and> mq_running (mqs_queue s)"
proof -
  let ?q = "\<lparr>mq_max = 1, mq_queue = [], mq_val_queue = [], mq_running = True, mq_produced = 0, mq_consumed = 0, mq_dropped = 0\<rparr> :: (nat, nat) message_queue"
  let ?s = "\<lparr>mqs_queue = ?q, mqs_waiting = {7}, mqs_ready = {}\<rparr> :: (nat, nat, nat) mq_system"
  have i: "mq_init (Some 1) = Inr ?q" by (simp add: mq_init_def)
  have "mq_step (mq_start ?q) (Get_Waits 7) ?s"
    unfolding mq_start_def by (rule step_get[of 7]) (simp_all add: consume_def get_sample_def)
  from no_lost_wakeup[OF i exec_snoc[OF exec_nil this], of 7] show ?thesis by (intro exI[of _ ?s]) simp
qed

text \<open>
  \<open>put_sample\<close> on a queue within its capacity: a positive capacity always accepts the sample as the
  newest one and answers \<open>False\<close> exactly when it dropped the oldest to make room; a queue
  of capacity zero raises \<open>IndexError\<close> on every put.
\<close>

theorem put_sample_behaviour:
  assumes "length (mq_queue mq) \<le> mq_max mq"
  shows "(mq_max mq = 0 \<longrightarrow> put_sample x mq = Inl IndexError) \<and>
    (0 < mq_max mq \<longrightarrow> (\<exists>mq'. put_sample x mq = Inr (mq', length (mq_queue mq) < mq_max mq) \<and>
       mq_queue mq' = drop (length (mq_queue mq) + 1 - mq_max mq) (mq_queue mq) @ [x] \<and>
       mq_produced mq' = mq_produced mq + 1 \<and>
       mq_dropped mq' = mq_dropped mq + (if length (mq_queue mq) < mq_max mq then 0 else 1)))"
proof (cases "mq_max mq = 0")
  case True
  with assms show ?thesis by (simp add: put_sample_def)
next
  case False
  then obtain mq' ok where r: "put_sample x mq = Inr (mq', ok)" using put_sample_ok[of mq x] by auto
  note p = put_sample_cases[OF r assms]
  have "drop (length (mq_queue mq) + 1 - mq_max mq) (mq_queue mq) = (if ok then mq_queue mq else tl (mq_queue mq))"
    using p assms by (auto simp: drop_Suc not_less)
  with r p False show ?thesis by auto
qed

theorem put_sample_behaviour_witness:
  "\<exists>mq'. put_sample 9 \<lparr>mq_max = 2, mq_queue = [4, 5 :: nat], mq_val_queue = [] :: nat list, mq_running = True, mq_produced = 2, mq_consumed = 0, mq_dropped = 0\<rparr>
      = Inr (mq', False) \<and> mq_queue mq' = [5, 9]"
  using put_sample_behaviour[of "\<lparr>mq_max = 2, mq_queue = [4, 5 :: nat], mq_val_queue = [] :: nat list, mq_running = True, mq_produced = 2, mq_consumed = 0, mq_dropped = 0\<rparr>" 9]
  by auto

end
