(* ===== verification/Load_Balancer.thy ===== *)
theory Load_Balancer
  imports Prelude
begin

text \<open>
  \<open>GlobalRequestLoadBalancer\<close> and the clients of \<open>verl/workers/rollout/llm_server.py\<close>: sticky
  routing, least-loaded selection, the server pool, and the generation loop that resumes an
  aborted rollout within the token budget. The LRU cache is the third-party \<open>cachetools.LRUCache\<close>:
  its operations are a parameter (\<open>lru_ops\<close>), and \<open>lru_laws\<close> is what its documentation says.
  Python's \<open>hash\<close> of a string is the parameter \<open>py_hash\<close>.
\<close>

section \<open>The routing cache\<close>

record 'c lru_ops =
  lru_content :: "'c \<Rightarrow> string \<Rightarrow> string option"
  lru_get :: "'c \<Rightarrow> string \<Rightarrow> string \<times> 'c"
  lru_set :: "'c \<Rightarrow> string \<Rightarrow> string \<Rightarrow> 'c"
  lru_del :: "'c \<Rightarrow> string \<Rightarrow> 'c"

text \<open>
  A lookup returns the stored value and changes only the recency order; a store holds the new
  entry and may evict others; a deletion removes one key.
\<close>

definition lru_laws :: "'c lru_ops \<Rightarrow> bool" where
  "lru_laws ops \<longleftrightarrow>
     (\<forall>c k v. lru_content ops c k = Some v \<longrightarrow> fst (lru_get ops c k) = v \<and> lru_content ops (snd (lru_get ops c k)) = lru_content ops c) \<and>
     (\<forall>c k v. lru_content ops (lru_set ops c k v) k = Some v) \<and>
     (\<forall>c k v k'. k' \<noteq> k \<longrightarrow> lru_content ops (lru_set ops c k v) k' \<in> {None, lru_content ops c k'}) \<and>
     (\<forall>c k. lru_content ops (lru_del ops c k) = (lru_content ops c)(k := None))"

section \<open>The balancer\<close>

record ('c, 'h) load_balancer =
  lb_servers :: "(string, 'h) dict"
  lb_inflight :: "(string, int) dict"
  lb_cache :: 'c
  lb_full_determinism :: bool

definition lb_init :: "(string, 'h) dict \<Rightarrow> 'c \<Rightarrow> bool \<Rightarrow> ('c, 'h) load_balancer result" where
  "lb_init servers empty_cache full_determinism =
     (if servers = [] then Inl ValueError
      else Inr \<lparr>lb_servers = servers, lb_inflight = map (\<lambda>(sid, _). (sid, 0)) servers, lb_cache = empty_cache,
             lb_full_determinism = full_determinism\<rparr>)"

text \<open>Count one more request on the server and hand out its handle.\<close>

definition lb_dispatch :: "('c, 'h) load_balancer \<Rightarrow> string \<Rightarrow> (('c, 'h) load_balancer \<times> string \<times> 'h) result" where
  "lb_dispatch lb sid =
     res_bind (dict_index (lb_inflight lb) sid) (\<lambda>cnt.
     res_bind (dict_index (lb_servers lb) sid) (\<lambda>handle.
       Inr (lb\<lparr>lb_inflight := AList.update sid (cnt + 1) (lb_inflight lb)\<rparr>, sid, handle)))"

definition lb_candidates :: "(string, int) dict \<Rightarrow> string list" where
  "lb_candidates inflight =
     (let min_count = Min (set (map snd inflight))
      in map fst (filter (\<lambda>(sid, cnt). cnt = min_count) inflight))"

definition lb_choose :: "(string \<Rightarrow> int) \<Rightarrow> bool \<Rightarrow> string list \<Rightarrow> string \<Rightarrow> string" where
  "lb_choose py_hash full_determinism candidates request_id =
     (if length candidates = 1 then candidates ! 0
      else if full_determinism then candidates ! nat (py_hash request_id mod int (length candidates))
      else candidates ! 0)"

definition lb_select :: "'c lru_ops \<Rightarrow> (string \<Rightarrow> int) \<Rightarrow> ('c, 'h) load_balancer \<Rightarrow> string
    \<Rightarrow> (('c, 'h) load_balancer \<times> string \<times> 'h) result" where
  "lb_select ops py_hash lb request_id =
     (if lb_inflight lb = [] then Inl RuntimeError
      else
        let sid = lb_choose py_hash (lb_full_determinism lb) (lb_candidates (lb_inflight lb)) request_id
        in lb_dispatch (lb\<lparr>lb_cache := lru_set ops (lb_cache lb) request_id sid\<rparr>) sid)"

definition acquire_server :: "'c lru_ops \<Rightarrow> (string \<Rightarrow> int) \<Rightarrow> ('c, 'h) load_balancer \<Rightarrow> string
    \<Rightarrow> (('c, 'h) load_balancer \<times> string \<times> 'h) result" where
  "acquire_server ops py_hash lb request_id =
     (case lru_content ops (lb_cache lb) request_id of
        None \<Rightarrow> lb_select ops py_hash lb request_id
      | Some _ \<Rightarrow>
          (let (sid, cache) = lru_get ops (lb_cache lb) request_id
           in if sid \<in> fst ` set (lb_inflight lb) then lb_dispatch (lb\<lparr>lb_cache := cache\<rparr>) sid
              else lb_select ops py_hash (lb\<lparr>lb_cache := lru_del ops cache request_id\<rparr>) request_id))"

definition release_server :: "('c, 'h) load_balancer \<Rightarrow> string \<Rightarrow> ('c, 'h) load_balancer" where
  "release_server lb sid =
     (case map_of (lb_inflight lb) sid of
        None \<Rightarrow> lb
      | Some cnt \<Rightarrow> if cnt > 0 then lb\<lparr>lb_inflight := AList.update sid (cnt - 1) (lb_inflight lb)\<rparr> else lb)"

definition add_servers :: "('c, 'h) load_balancer \<Rightarrow> (string, 'h) dict \<Rightarrow> ('c, 'h) load_balancer" where
  "add_servers lb servers =
     fold (\<lambda>(sid, handle) lb. lb\<lparr>lb_inflight := AList.update sid 0 (lb_inflight lb),
                                lb_servers := AList.update sid handle (lb_servers lb)\<rparr>) servers lb"

definition remove_servers :: "('c, 'h) load_balancer \<Rightarrow> string list \<Rightarrow> ('c, 'h) load_balancer" where
  "remove_servers lb sids =
     fold (\<lambda>sid lb. lb\<lparr>lb_inflight := AList.delete sid (lb_inflight lb),
                        lb_servers := AList.delete sid (lb_servers lb)\<rparr>) sids lb"

definition get_inflight_count :: "('c, 'h) load_balancer \<Rightarrow> string \<Rightarrow> int" where
  "get_inflight_count lb sid = dict_get (lb_inflight lb) sid 0"

definition get_all_servers :: "('c, 'h) load_balancer \<Rightarrow> string list" where
  "get_all_servers lb = map fst (lb_inflight lb)"

definition get_status :: "('c, 'h) load_balancer \<Rightarrow> (string, int) dict \<times> int \<times> nat \<times> string list" where
  "get_status lb = (lb_inflight lb, sum_list (map snd (lb_inflight lb)), length (lb_inflight lb), map fst (lb_servers lb))"

section \<open>Invariant\<close>

definition lb_wf :: "('c, 'h) load_balancer \<Rightarrow> bool" where
  "lb_wf lb \<longleftrightarrow> dict_wf (lb_servers lb) \<and> dict_wf (lb_inflight lb) \<and>
     fst ` set (lb_servers lb) = fst ` set (lb_inflight lb) \<and> (\<forall>cnt \<in> snd ` set (lb_inflight lb). 0 \<le> cnt)"

lemma dict_keys_update: "fst ` set (AList.update k v d) = insert k (fst ` set d)"
  by (simp add: dom_update)

lemma dict_keys_delete: "fst ` set (AList.delete k d) = fst ` set d - {k}"
  by (simp flip: dom_map_of_conv_image_fst)

lemma dict_values_update: "x \<in> snd ` set (AList.update k v d) \<Longrightarrow> x = v \<or> x \<in> snd ` set d"
  by (induction d) (auto split: if_splits)

lemma dict_values_delete: "x \<in> snd ` set (AList.delete k d) \<Longrightarrow> x \<in> snd ` set d"
  by (induction d) (auto split: if_splits)

lemma dispatch_ok:
  assumes wf: "lb_wf lb" and sid: "sid \<in> fst ` set (lb_inflight lb)"
  shows "\<exists>lb' h. lb_dispatch lb sid = Inr (lb', sid, h) \<and> map_of (lb_servers lb) sid = Some h \<and> lb_wf lb' \<and>
    lb_servers lb' = lb_servers lb \<and> lb_cache lb' = lb_cache lb \<and>
    get_inflight_count lb' = (get_inflight_count lb)(sid := get_inflight_count lb sid + 1) \<and>
    fst ` set (lb_inflight lb') = fst ` set (lb_inflight lb)"
proof -
  obtain cnt where c: "map_of (lb_inflight lb) sid = Some cnt" using sid by (metis domIff dom_map_of_conv_image_fst option.exhaust)
  have "sid \<in> fst ` set (lb_servers lb)" using wf sid by (simp add: lb_wf_def)
  then obtain h where h: "map_of (lb_servers lb) sid = Some h" by (metis domIff dom_map_of_conv_image_fst option.exhaust)
  have "(sid, cnt) \<in> set (lb_inflight lb)" using c by (rule map_of_SomeD)
  then have "0 \<le> cnt" using wf by (force simp: lb_wf_def)
  let ?inf = "AList.update sid (cnt + 1) (lb_inflight lb)"
  have "lb_dispatch lb sid = Inr (lb\<lparr>lb_inflight := ?inf\<rparr>, sid, h)"
    using c h by (simp add: lb_dispatch_def dict_index_def)
  moreover have "\<forall>x \<in> snd ` set ?inf. 0 \<le> x"
    using \<open>0 \<le> cnt\<close> wf dict_values_update[of _ sid "cnt + 1" "lb_inflight lb"] unfolding lb_wf_def by fastforce
  moreover have "fst ` set ?inf = fst ` set (lb_inflight lb)" using sid by (simp only: dict_keys_update insert_absorb)
  moreover have "get_inflight_count (lb\<lparr>lb_inflight := ?inf\<rparr>) = (get_inflight_count lb)(sid := get_inflight_count lb sid + 1)"
    using c by (auto simp: get_inflight_count_def dict_get_def fun_eq_iff)
  ultimately show ?thesis using wf h by (simp add: lb_wf_def)
qed

lemma candidates_least:
  assumes "inflight \<noteq> []"
  shows "lb_candidates inflight \<noteq> [] \<and> (\<forall>sid \<in> set (lb_candidates inflight).
    (sid, Min (snd ` set inflight)) \<in> set inflight)"
proof -
  let ?m = "Min (snd ` set inflight)"
  have "?m \<in> snd ` set inflight" using assms by (intro Min_in) auto
  then obtain sid where "(sid, ?m) \<in> set inflight" by force
  then show ?thesis by (auto simp: lb_candidates_def Let_def filter_empty_conv)
qed

lemma choose_in: "candidates \<noteq> [] \<Longrightarrow> lb_choose py_hash det candidates r \<in> set candidates"
  by (auto simp: lb_choose_def nat_less_iff intro!: nth_mem)

lemma select_least:
  assumes wf: "lb_wf lb" and ne: "lb_inflight lb \<noteq> []"
  shows "\<exists>sid. sid \<in> fst ` set (lb_inflight lb) \<and> (\<forall>s \<in> fst ` set (lb_inflight lb). get_inflight_count lb sid \<le> get_inflight_count lb s) \<and>
    lb_select ops py_hash lb r = lb_dispatch (lb\<lparr>lb_cache := lru_set ops (lb_cache lb) r sid\<rparr>) sid"
proof -
  let ?sid = "lb_choose py_hash (lb_full_determinism lb) (lb_candidates (lb_inflight lb)) r"
  have d: "dict_wf (lb_inflight lb)" using wf by (simp add: lb_wf_def)
  have m: "(?sid, Min (snd ` set (lb_inflight lb))) \<in> set (lb_inflight lb)"
    using candidates_least[OF ne] choose_in by blast
  then have s: "get_inflight_count lb ?sid = Min (snd ` set (lb_inflight lb))"
    using d by (simp add: get_inflight_count_def dict_get_def dict_wf_map_of)
  have "get_inflight_count lb ?sid \<le> get_inflight_count lb s" if k: "s \<in> fst ` set (lb_inflight lb)" for s
  proof -
    obtain c where c: "(s, c) \<in> set (lb_inflight lb)" using k by auto
    then have "get_inflight_count lb s = c" using d by (simp add: get_inflight_count_def dict_get_def dict_wf_map_of)
    moreover have "c \<in> snd ` set (lb_inflight lb)" using c by force
    ultimately show ?thesis unfolding s by (simp add: Min_le)
  qed
  moreover have "?sid \<in> fst ` set (lb_inflight lb)" using m by force
  ultimately show ?thesis using ne by (intro exI[of _ ?sid]) (simp add: lb_select_def Let_def)
qed

lemma pool_nonempty: "sid \<in> fst ` set d \<Longrightarrow> d \<noteq> []"
  by auto

lemma lb_wf_cache [simp]: "lb_wf (lb\<lparr>lb_cache := c\<rparr>) = lb_wf lb" "get_inflight_count (lb\<lparr>lb_cache := c\<rparr>) = get_inflight_count lb"
  by (simp_all add: lb_wf_def get_inflight_count_def fun_eq_iff)

lemma acquire_facts:
  assumes laws: "lru_laws ops" and wf: "lb_wf lb" and ne: "lb_inflight lb \<noteq> []"
  shows "\<exists>lb' sid h. acquire_server ops py_hash lb r = Inr (lb', sid, h) \<and> lb_wf lb' \<and>
    map_of (lb_servers lb) sid = Some h \<and> sid \<in> fst ` set (lb_inflight lb) \<and>
    get_inflight_count lb' = (get_inflight_count lb)(sid := get_inflight_count lb sid + 1) \<and>
    lru_content ops (lb_cache lb') r = Some sid \<and>
    (\<forall>r'. r' \<noteq> r \<longrightarrow> lru_content ops (lb_cache lb') r' \<in> {None, lru_content ops (lb_cache lb) r'}) \<and>
    (\<forall>s. lru_content ops (lb_cache lb) r = Some s \<and> s \<in> fst ` set (lb_inflight lb) \<longrightarrow> sid = s) \<and>
    ((\<forall>s. lru_content ops (lb_cache lb) r = Some s \<longrightarrow> s \<notin> fst ` set (lb_inflight lb)) \<longrightarrow>
       (\<forall>s \<in> fst ` set (lb_inflight lb). get_inflight_count lb sid \<le> get_inflight_count lb s))"
proof -
  have sel: "\<exists>lb' sid h. lb_select ops py_hash lb0 r = Inr (lb', sid, h) \<and> lb_wf lb' \<and>
    map_of (lb_servers lb) sid = Some h \<and> sid \<in> fst ` set (lb_inflight lb) \<and>
    get_inflight_count lb' = (get_inflight_count lb)(sid := get_inflight_count lb sid + 1) \<and>
    lru_content ops (lb_cache lb') r = Some sid \<and>
    (\<forall>r'. r' \<noteq> r \<longrightarrow> lru_content ops (lb_cache lb') r' \<in> {None, lru_content ops (lb_cache lb) r'}) \<and>
    (\<forall>s \<in> fst ` set (lb_inflight lb). get_inflight_count lb sid \<le> get_inflight_count lb s)"
    if lb0: "lb0 = lb\<lparr>lb_cache := c\<rparr>" "\<forall>r'. r' \<noteq> r \<longrightarrow> lru_content ops c r' = lru_content ops (lb_cache lb) r'" for lb0 c
  proof -
    have w0: "lb_wf lb0" "lb_inflight lb0 \<noteq> []" using wf ne lb0(1) by simp_all
    obtain sid where sid: "sid \<in> fst ` set (lb_inflight lb0)" "\<forall>s \<in> fst ` set (lb_inflight lb0). get_inflight_count lb0 sid \<le> get_inflight_count lb0 s"
      "lb_select ops py_hash lb0 r = lb_dispatch (lb0\<lparr>lb_cache := lru_set ops (lb_cache lb0) r sid\<rparr>) sid"
      using select_least[OF w0] by blast
    have w1: "lb_wf (lb0\<lparr>lb_cache := lru_set ops (lb_cache lb0) r sid\<rparr>)" using w0(1) by simp
    obtain lb' h where d: "lb_dispatch (lb0\<lparr>lb_cache := lru_set ops (lb_cache lb0) r sid\<rparr>) sid = Inr (lb', sid, h)"
      "map_of (lb_servers lb0) sid = Some h" "lb_wf lb'" "lb_cache lb' = lru_set ops (lb_cache lb0) r sid"
      "get_inflight_count lb' = (get_inflight_count lb0)(sid := get_inflight_count lb0 sid + 1)"
      using dispatch_ok[OF w1, of sid] sid(1) by auto
    have "lru_content ops (lb_cache lb') r = Some sid"
      "\<forall>r'. r' \<noteq> r \<longrightarrow> lru_content ops (lb_cache lb') r' \<in> {None, lru_content ops c r'}"
      using laws lb0(1) unfolding d(4) lru_laws_def by auto
    with d sid lb0 show ?thesis by (intro exI[of _ lb'] exI[of _ sid] exI[of _ h]) simp
  qed
  show ?thesis
  proof (cases "lru_content ops (lb_cache lb) r")
    case None
    have "lb = lb\<lparr>lb_cache := lb_cache lb\<rparr>" by simp
    from sel[OF this] None show ?thesis by (simp add: acquire_server_def)
  next
    case (Some s)
    obtain v c where g: "lru_get ops (lb_cache lb) r = (v, c)" by (rule prod.exhaust)
    have gc: "v = s" "lru_content ops c = lru_content ops (lb_cache lb)"
      using laws Some g unfolding lru_laws_def by (metis fst_conv, metis snd_conv)
    show ?thesis
    proof (cases "s \<in> fst ` set (lb_inflight lb)")
      case True
      have w1: "lb_wf (lb\<lparr>lb_cache := c\<rparr>)" using wf by simp
      obtain lb' h where d: "lb_dispatch (lb\<lparr>lb_cache := c\<rparr>) s = Inr (lb', s, h)" "map_of (lb_servers lb) s = Some h" "lb_wf lb'"
        "lb_cache lb' = c" "get_inflight_count lb' = (get_inflight_count lb)(s := get_inflight_count lb s + 1)"
        using dispatch_ok[OF w1, of s] True by auto
      have "acquire_server ops py_hash lb r = Inr (lb', s, h)"
        using Some g gc(1) True d(1) by (simp add: acquire_server_def)
      with d gc(2) Some True show ?thesis by (intro exI[of _ lb'] exI[of _ s] exI[of _ h]) simp
    next
      case False
      have "lru_content ops (lru_del ops c r) = (lru_content ops c)(r := None)" using laws unfolding lru_laws_def by blast
      then have o: "\<forall>r'. r' \<noteq> r \<longrightarrow> lru_content ops (lru_del ops c r) r' = lru_content ops (lb_cache lb) r'" using gc(2) by simp
      have "acquire_server ops py_hash lb r = lb_select ops py_hash (lb\<lparr>lb_cache := lru_del ops c r\<rparr>) r"
        using Some g gc(1) False by (auto simp: acquire_server_def)
      with sel[OF refl o] Some False show ?thesis by simp
    qed
  qed
qed

lemma release_facts:
  assumes "lb_wf lb"
  shows "lb_wf (release_server lb sid) \<and> fst ` set (lb_inflight (release_server lb sid)) = fst ` set (lb_inflight lb) \<and>
    get_inflight_count (release_server lb sid) = (get_inflight_count lb)(sid := max 0 (get_inflight_count lb sid - 1)) \<and>
    lb_cache (release_server lb sid) = lb_cache lb"
proof (cases "map_of (lb_inflight lb) sid")
  case None
  then show ?thesis using assms by (auto simp: release_server_def get_inflight_count_def dict_get_def fun_eq_iff)
next
  case (Some cnt)
  then have m: "(sid, cnt) \<in> set (lb_inflight lb)" by (rule map_of_SomeD)
  then have "0 \<le> cnt" "sid \<in> fst ` set (lb_inflight lb)" using assms by (force simp: lb_wf_def)+
  then have k: "fst ` set (AList.update sid (cnt - 1) (lb_inflight lb)) = fst ` set (lb_inflight lb)"
    by (simp only: dict_keys_update insert_absorb)
  have "\<forall>x \<in> snd ` set (AList.update sid (cnt - 1) (lb_inflight lb)). 0 \<le> x" if "cnt > 0"
    using that assms dict_values_update[of _ sid "cnt - 1" "lb_inflight lb"] unfolding lb_wf_def by fastforce
  with Some k assms \<open>0 \<le> cnt\<close> show ?thesis
    by (auto simp: release_server_def lb_wf_def get_inflight_count_def dict_get_def fun_eq_iff)
qed

lemma add_one_wf:
  assumes "lb_wf lb"
  shows "lb_wf (lb\<lparr>lb_inflight := AList.update sid 0 (lb_inflight lb), lb_servers := AList.update sid h (lb_servers lb)\<rparr>)"
proof -
  have "\<forall>x \<in> snd ` set (AList.update sid 0 (lb_inflight lb)). 0 \<le> x"
    using assms dict_values_update[of _ sid 0 "lb_inflight lb"] unfolding lb_wf_def by fastforce
  with assms show ?thesis by (simp add: lb_wf_def dict_keys_update del: dom_update)
qed

lemma add_servers_facts:
  "lb_wf lb \<Longrightarrow> lb_wf (add_servers lb servers) \<and>
   (\<forall>s. get_inflight_count (add_servers lb servers) s = (if s \<in> fst ` set servers then 0 else get_inflight_count lb s)) \<and>
   fst ` set (lb_inflight (add_servers lb servers)) = fst ` set (lb_inflight lb) \<union> fst ` set servers \<and>
   lb_cache (add_servers lb servers) = lb_cache lb"
proof (induction servers arbitrary: lb)
  case (Cons x servers)
  obtain sid h where x: "x = (sid, h)" by (cases x)
  let ?lb = "lb\<lparr>lb_inflight := AList.update sid 0 (lb_inflight lb), lb_servers := AList.update sid h (lb_servers lb)\<rparr>"
  have "add_servers lb (x # servers) = add_servers ?lb servers" by (simp add: add_servers_def x)
  with Cons.IH[OF add_one_wf[OF Cons.prems, of sid h]] x show ?case
    by (auto simp: get_inflight_count_def dict_get_update dict_keys_update)
qed (simp add: add_servers_def)

lemma remove_one_wf:
  assumes "lb_wf lb"
  shows "lb_wf (lb\<lparr>lb_inflight := AList.delete sid (lb_inflight lb), lb_servers := AList.delete sid (lb_servers lb)\<rparr>)"
proof -
  have "\<forall>x \<in> snd ` set (AList.delete sid (lb_inflight lb)). 0 \<le> x"
  proof
    fix x
    assume "x \<in> snd ` set (AList.delete sid (lb_inflight lb))"
    then have "x \<in> snd ` set (lb_inflight lb)" by (rule dict_values_delete)
    with assms show "0 \<le> x" by (auto simp: lb_wf_def)
  qed
  with assms show ?thesis by (simp add: lb_wf_def dict_keys_delete)
qed

lemma inflight_delete: "get_inflight_count (lb\<lparr>lb_inflight := AList.delete sid (lb_inflight lb), lb_servers := ss\<rparr>) s
    = (if s = sid then 0 else get_inflight_count lb s)"
  by (simp add: get_inflight_count_def dict_get_def)

lemma remove_servers_facts:
  "lb_wf lb \<Longrightarrow> lb_wf (remove_servers lb sids) \<and>
   (\<forall>s. get_inflight_count (remove_servers lb sids) s = (if s \<in> set sids then 0 else get_inflight_count lb s)) \<and>
   fst ` set (lb_inflight (remove_servers lb sids)) = fst ` set (lb_inflight lb) - set sids \<and>
   lb_cache (remove_servers lb sids) = lb_cache lb"
proof (induction sids arbitrary: lb)
  case (Cons sid sids)
  let ?lb = "lb\<lparr>lb_inflight := AList.delete sid (lb_inflight lb), lb_servers := AList.delete sid (lb_servers lb)\<rparr>"
  have "remove_servers lb (sid # sids) = remove_servers ?lb sids" by (simp add: remove_servers_def)
  with Cons.IH[OF remove_one_wf[OF Cons.prems, of sid]] show ?case
    by (auto simp: inflight_delete dict_keys_delete simp del: image_iff)
qed (simp add: remove_servers_def)

section \<open>Operations in any order\<close>

text \<open>
  The balancer under any sequence of client and operator calls, with the multiset of the
  requests that were acquired and not yet released. A client releases what it acquired.
\<close>

datatype 'h lb_label = Acquire string string | Release string | Add "(string, 'h) dict" | Remove "string list"

inductive lb_step :: "'c lru_ops \<Rightarrow> (string \<Rightarrow> int) \<Rightarrow> ('c, 'h) load_balancer \<times> string multiset \<Rightarrow> 'h lb_label
    \<Rightarrow> ('c, 'h) load_balancer \<times> string multiset \<Rightarrow> bool" for ops py_hash where
  step_acquire: "acquire_server ops py_hash lb r = Inr (lb', sid, h) \<Longrightarrow>
     lb_step ops py_hash (lb, out) (Acquire r sid) (lb', add_mset sid out)"
| step_release: "sid \<in># out \<Longrightarrow> lb_step ops py_hash (lb, out) (Release sid) (release_server lb sid, out - {#sid#})"
| step_add: "lb_step ops py_hash (lb, out) (Add servers) (add_servers lb servers, out)"
| step_remove: "lb_step ops py_hash (lb, out) (Remove sids) (remove_servers lb sids, out)"

inductive lb_exec :: "'c lru_ops \<Rightarrow> (string \<Rightarrow> int) \<Rightarrow> ('c, 'h) load_balancer \<times> string multiset \<Rightarrow> 'h lb_label list
    \<Rightarrow> ('c, 'h) load_balancer \<times> string multiset \<Rightarrow> bool" for ops py_hash where
  lb_exec_nil: "lb_exec ops py_hash s [] s"
| lb_exec_snoc: "lb_exec ops py_hash s tr s1 \<Longrightarrow> lb_step ops py_hash s1 l s2 \<Longrightarrow> lb_exec ops py_hash s (tr @ [l]) s2"

fun pool_change :: "'h lb_label \<Rightarrow> bool" where
  "pool_change (Add _) = True"
| "pool_change (Remove _) = True"
| "pool_change _ = False"

definition lb_inv :: "'h lb_label list \<Rightarrow> ('c, 'h) load_balancer \<times> string multiset \<Rightarrow> bool" where
  "lb_inv tr s \<longleftrightarrow> lb_wf (fst s) \<and> (\<forall>sid. 0 \<le> get_inflight_count (fst s) sid \<and> get_inflight_count (fst s) sid \<le> int (count (snd s) sid)) \<and>
     ((\<forall>l \<in> set tr. \<not> pool_change l) \<longrightarrow> (\<forall>sid. get_inflight_count (fst s) sid = int (count (snd s) sid)))"

lemma acquire_ne: "acquire_server ops py_hash lb r = Inr x \<Longrightarrow> lb_inflight lb \<noteq> []"
  by (auto simp: acquire_server_def lb_select_def lb_dispatch_def dict_index_def res_bind_eq_Inr split: option.splits prod.splits if_splits)

lemma lb_inv_step:
  assumes laws: "lru_laws ops" and "lb_step ops py_hash s l s'" "lb_inv tr s"
  shows "lb_inv (tr @ [l]) s'"
  using assms(2)
proof (cases rule: lb_step.cases)
  case (step_acquire lb r lb' sid h out)
  have wf: "lb_wf lb" using assms(3) step_acquire(1) by (simp add: lb_inv_def)
  have "lb_wf lb' \<and> get_inflight_count lb' = (get_inflight_count lb)(sid := get_inflight_count lb sid + 1)"
    using acquire_facts[OF laws wf acquire_ne[OF step_acquire(4)], of py_hash r] step_acquire(4) by auto
  with assms(3) step_acquire(1-3) show ?thesis by (auto simp: lb_inv_def)
next
  case (step_release sid out lb)
  have c: "count out sid > 0" using step_release(4) by simp
  have wf: "lb_wf lb" using assms(3) step_release(1) by (simp add: lb_inv_def)
  have b: "0 \<le> get_inflight_count lb s \<and> get_inflight_count lb s \<le> int (count out s)" for s
    using assms(3) step_release(1) by (simp add: lb_inv_def)
  have n: "int (count (out - {#sid#}) s) = (if s = sid then int (count out s) - 1 else int (count out s))" for s
    using c by (auto simp: of_nat_diff)
  have r: "get_inflight_count (release_server lb sid) s = (if s = sid then max 0 (get_inflight_count lb s - 1) else get_inflight_count lb s)" for s
    using release_facts[OF wf, of sid] by simp
  have "get_inflight_count (release_server lb sid) s \<le> int (count (out - {#sid#}) s)" for s
    unfolding n r using b[of s] c by auto
  moreover have "get_inflight_count (release_server lb sid) s = int (count (out - {#sid#}) s)" if "\<forall>l \<in> set tr. \<not> pool_change l" for s
    unfolding n r using that assms(3) step_release(1) c by (auto simp: lb_inv_def)
  moreover have "0 \<le> get_inflight_count (release_server lb sid) s" for s unfolding r using b[of s] by auto
  ultimately show ?thesis using release_facts[OF wf, of sid] step_release(2,3) by (auto simp: lb_inv_def)
next
  case (step_add lb out servers)
  have wf: "lb_wf lb" using assms(3) step_add(1) by (simp add: lb_inv_def)
  from assms(3) step_add add_servers_facts[OF wf, of servers] show ?thesis by (simp add: lb_inv_def)
next
  case (step_remove lb out sids)
  have wf: "lb_wf lb" using assms(3) step_remove(1) by (simp add: lb_inv_def)
  from assms(3) step_remove remove_servers_facts[OF wf, of sids] show ?thesis by (simp add: lb_inv_def)
qed

lemma lb_exec_inv: "lb_exec ops py_hash s tr s' \<Longrightarrow> lru_laws ops \<Longrightarrow> lb_inv [] s \<Longrightarrow> lb_inv tr s'"
  by (induction rule: lb_exec.induct) (auto intro: lb_inv_step)

lemma lb_init_wf: "dict_wf servers \<Longrightarrow> lb_init servers c det = Inr lb \<Longrightarrow> lb_inv [] (lb, {#})"
proof -
  assume d: "dict_wf servers" and i: "lb_init servers c det = Inr lb"
  have lb: "lb = \<lparr>lb_servers = servers, lb_inflight = map (\<lambda>(sid, _). (sid, 0)) servers, lb_cache = c, lb_full_determinism = det\<rparr>"
    using i by (simp add: lb_init_def split: if_splits)
  have k: "map fst (map (\<lambda>(sid, _). (sid, 0 :: int)) servers) = map fst servers" by (induction servers) auto
  have z: "map_of (map (\<lambda>(sid, _). (sid, 0 :: int)) servers) s \<in> {None, Some 0}" for s by (induction servers) auto
  have "get_inflight_count lb s = 0" for s using z[of s] unfolding get_inflight_count_def dict_get_def lb by auto
  moreover have "lb_wf lb" using d k unfolding lb_wf_def dict_wf_def lb by (auto simp: image_image split_def comp_def)
  ultimately show ?thesis by (simp add: lb_inv_def)
qed

section \<open>The clients\<close>

record token_output =
  to_token_ids :: "int list"
  to_log_probs :: "rat list option"
  to_routed_experts :: "int list list option"
  to_stop_reason :: "string option"
  to_num_preempted :: "int option"
  to_extra_fields :: "(string, int option) dict"

record 'k server_call =
  sc_prompt_ids :: "int list"
  sc_sampling_params :: "(string, int) dict"
  sc_kwargs :: "(string, 'k) dict"

text \<open>The optional keyword arguments: audio when given, processor kwargs when non-empty, the priority for vLLM.\<close>

definition server_kwargs :: "'k option \<Rightarrow> 'k option \<Rightarrow> int \<Rightarrow> (int \<Rightarrow> 'k) \<Rightarrow> string \<Rightarrow> (string, 'k) dict" where
  "server_kwargs audio mm_kwargs priority of_int_arg rollout_name =
     (case audio of None \<Rightarrow> [] | Some a \<Rightarrow> [(''audio_data'', a)]) @
     (case mm_kwargs of None \<Rightarrow> [] | Some m \<Rightarrow> [(''mm_processor_kwargs'', m)]) @
     (if priority \<noteq> 0 \<and> rollout_name = ''vllm'' then [(''priority'', of_int_arg priority)] else [])"

definition dict_setdefault :: "'k \<Rightarrow> 'v \<Rightarrow> ('k, 'v) dict \<Rightarrow> ('k, 'v) dict" where
  "dict_setdefault k v d = (case map_of d k of None \<Rightarrow> AList.update k v d | Some _ \<Rightarrow> d)"

definition stamp_steps :: "token_output \<Rightarrow> token_output" where
  "stamp_steps out =
     (let g = dict_get (to_extra_fields out) ''global_steps'' None
      in out\<lparr>to_extra_fields := dict_setdefault ''max_global_steps'' g (dict_setdefault ''min_global_steps'' g (to_extra_fields out))\<rparr>)"

text \<open>\<open>LLMServerClient.generate\<close>: the server's answer may be an exception; the release is in the \<open>finally\<close>.\<close>

definition client_generate ::
  "'c lru_ops \<Rightarrow> (string \<Rightarrow> int) \<Rightarrow> ('h \<Rightarrow> 'k server_call \<Rightarrow> token_output result) \<Rightarrow> ('c, 'h) load_balancer \<Rightarrow> string
    \<Rightarrow> 'k server_call \<Rightarrow> ('c, 'h) load_balancer \<times> token_output result" where
  "client_generate ops py_hash server lb request_id call =
     (case acquire_server ops py_hash lb request_id of
        Inl e \<Rightarrow> (lb, Inl e)
      | Inr (lb1, sid, handle) \<Rightarrow>
          (release_server lb1 sid, res_bind (server handle call) (\<lambda>out. Inr (stamp_steps out))))"

text \<open>
  \<open>FullyAsyncLLMServerClient.generate\<close> over the outputs its calls return: the list of calls it
  makes, and its answer with the final sampling parameters (\<open>None\<close> while a call is still running).
\<close>

definition limit_key :: "(string, int) dict \<Rightarrow> string option" where
  "limit_key params =
     (if ''max_tokens'' \<in> fst ` set params then Some ''max_tokens''
      else if ''max_new_tokens'' \<in> fst ` set params then Some ''max_new_tokens'' else None)"

definition merge_output :: "token_output \<Rightarrow> token_output \<Rightarrow> token_output" where
  "merge_output fin out = fin\<lparr>
     to_token_ids := to_token_ids fin @ to_token_ids out,
     to_log_probs := (case to_log_probs out of None \<Rightarrow> to_log_probs fin
                      | Some ps \<Rightarrow> map_option (\<lambda>qs. qs @ ps) (to_log_probs fin)),
     to_routed_experts := (case to_routed_experts out of None \<Rightarrow> to_routed_experts fin
        | Some rows \<Rightarrow> if to_token_ids out = [] then to_routed_experts fin
            else (case to_routed_experts fin of None \<Rightarrow> Some rows
                  | Some old \<Rightarrow> Some (old @ slice_from_end (length (to_token_ids out)) rows))),
     to_num_preempted := (case to_num_preempted out of None \<Rightarrow> to_num_preempted fin
        | Some n \<Rightarrow> map_option (\<lambda>m. m + n) (to_num_preempted fin)),
     to_stop_reason := to_stop_reason out\<rparr>"

definition empty_output :: token_output where
  "empty_output = \<lparr>to_token_ids = [], to_log_probs = Some [], to_routed_experts = None, to_stop_reason = None,
     to_num_preempted = Some 0, to_extra_fields = []\<rparr>"

definition finish_output :: "token_output \<Rightarrow> int option \<Rightarrow> int option \<Rightarrow> token_output" where
  "finish_output fin min_steps global_steps = fin\<lparr>to_extra_fields :=
     AList.update ''max_global_steps'' global_steps (AList.update ''min_global_steps'' min_steps
       (AList.update ''global_steps'' global_steps (to_extra_fields fin)))\<rparr>"

fun resume_loop :: "bool \<Rightarrow> string option \<Rightarrow> int list \<Rightarrow> (string, int) dict \<Rightarrow> int option \<Rightarrow> token_output \<Rightarrow> int option
    \<Rightarrow> token_output list \<Rightarrow> (int list \<times> (string, int) dict) list \<times> (token_output \<times> (string, int) dict) option" where
  "resume_loop should_retry key prompt_ids params budget fin min_steps [] =
     ([(prompt_ids @ to_token_ids fin, params)], None)"
| "resume_loop should_retry key prompt_ids params budget fin min_steps (out # outs) =
     (let call = (prompt_ids @ to_token_ids fin, params);
          fin1 = merge_output fin out;
          steps = dict_get (to_extra_fields out) ''global_steps'' None;
          min1 = (case min_steps of None \<Rightarrow> steps | Some _ \<Rightarrow> min_steps);
          params1 = (case (budget, key) of (Some m, Some k) \<Rightarrow> AList.update k (m - int (length (to_token_ids fin1))) params | _ \<Rightarrow> params)
      in if (case budget of Some m \<Rightarrow> int (length (to_token_ids fin1)) \<ge> m | None \<Rightarrow> False)
         then ([call], Some (finish_output (fin1\<lparr>to_stop_reason := Some ''length''\<rparr>) min1 steps, params1))
         else if to_stop_reason out \<notin> {Some ''aborted'', Some ''abort''} \<or> \<not> should_retry
         then ([call], Some (finish_output fin1 min1 steps, params1))
         else (case resume_loop should_retry key prompt_ids params1 budget fin1 min1 outs of
                 (calls, ans) \<Rightarrow> (call # calls, ans)))"

definition fully_async_generate :: "bool \<Rightarrow> int list \<Rightarrow> (string, int) dict \<Rightarrow> token_output list
    \<Rightarrow> (int list \<times> (string, int) dict) list \<times> (token_output \<times> (string, int) dict) option" where
  "fully_async_generate should_retry prompt_ids params outs =
     (let key = limit_key params;
          budget = (case key of None \<Rightarrow> None | Some k \<Rightarrow> map_of params k)
      in resume_loop should_retry key prompt_ids params budget empty_output None outs)"

lemma merge_output_tokens [simp]: "to_token_ids (merge_output fin out) = to_token_ids fin @ to_token_ids out"
  by (simp add: merge_output_def)

lemma finish_output_tokens [simp]: "to_token_ids (finish_output fin a b) = to_token_ids fin"
  by (simp add: finish_output_def)

definition tokens_before :: "token_output \<Rightarrow> token_output list \<Rightarrow> nat \<Rightarrow> int list" where
  "tokens_before fin outs i = to_token_ids fin @ concat (map to_token_ids (take i outs))"

lemma tokens_before_simps [simp]:
  "tokens_before fin outs 0 = to_token_ids fin"
  "tokens_before fin (out # outs) (Suc i) = tokens_before (merge_output fin out) outs i"
  by (simp_all add: tokens_before_def)

text \<open>One round: it ends with the merged tokens, or goes on within the budget.\<close>

lemma resume_loop_round:
  assumes "resume_loop retry key prompt params budget fin steps (out # outs) = (calls, ans)"
  obtains (stop) fin' params' where "calls = [(prompt @ to_token_ids fin, params)]" "ans = Some (fin', params')"
      "to_token_ids fin' = to_token_ids fin @ to_token_ids out"
      "\<And>m k. budget = Some m \<Longrightarrow> key = Some k \<Longrightarrow> map_of params' k = Some (m - int (length (to_token_ids fin')))"
  | (more) cs params' steps' where "calls = (prompt @ to_token_ids fin, params) # cs"
      "resume_loop retry key prompt params' budget (merge_output fin out) steps' outs = (cs, ans)"
      "\<And>m k. budget = Some m \<Longrightarrow> key = Some k \<Longrightarrow> map_of params' k = Some (m - int (length (to_token_ids (merge_output fin out))))"
      "\<And>m. budget = Some m \<Longrightarrow> int (length (to_token_ids (merge_output fin out))) < m"
proof -
  let ?p = "case (budget, key) of (Some m, Some k) \<Rightarrow> AList.update k (m - int (length (to_token_ids (merge_output fin out)))) params | _ \<Rightarrow> params"
  let ?s = "case steps of None \<Rightarrow> dict_get (to_extra_fields out) ''global_steps'' None | Some _ \<Rightarrow> steps"
  let ?full = "case budget of Some m \<Rightarrow> int (length (to_token_ids (merge_output fin out))) \<ge> m | None \<Rightarrow> False"
  let ?stop = "to_stop_reason out \<notin> {Some ''aborted'', Some ''abort''} \<or> \<not> retry"
  have p: "map_of ?p k = Some (m - int (length (to_token_ids (merge_output fin out))))" if "budget = Some m" "key = Some k" for m k
    using that by simp
  obtain cs ans' where rest: "resume_loop retry key prompt ?p budget (merge_output fin out) ?s outs = (cs, ans')" by (rule prod.exhaust)
  have e: "(calls, ans) = (if ?full then ([(prompt @ to_token_ids fin, params)],
        Some (finish_output ((merge_output fin out)\<lparr>to_stop_reason := Some ''length''\<rparr>) ?s (dict_get (to_extra_fields out) ''global_steps'' None), ?p))
      else if ?stop then ([(prompt @ to_token_ids fin, params)],
        Some (finish_output (merge_output fin out) ?s (dict_get (to_extra_fields out) ''global_steps'' None), ?p))
      else ((prompt @ to_token_ids fin, params) # cs, ans'))"
    using assms[unfolded resume_loop.simps Let_def, unfolded rest, unfolded split] unfolding split by (rule sym)
  show thesis
  proof (cases "?full \<or> ?stop")
    case True
    show thesis
    proof (cases ?full)
      case True
      with e p show thesis by (intro stop) auto
    next
      case False
      with e p True show thesis by (intro stop) auto
    qed
  next
    case False
    then have "calls = (prompt @ to_token_ids fin, params) # cs" "ans = ans'" using e by auto
    with rest p False show thesis by (intro more[of cs ?p ?s]) auto
  qed
qed

lemma resume_loop_tokens:
  "resume_loop retry key prompt params budget fin steps outs = (calls, ans) \<Longrightarrow>
   (\<forall>i < length calls. fst (calls ! i) = prompt @ tokens_before fin outs i) \<and>
   (\<forall>res. ans = Some res \<longrightarrow> to_token_ids (fst res) = tokens_before fin outs (length calls) \<and> length calls \<le> length outs)"
proof (induction outs arbitrary: params fin steps calls ans)
  case (Cons out outs)
  from Cons.prems show ?case
  proof (cases rule: resume_loop_round)
    case (more cs params' steps')
    from Cons.IH[OF more(2)] more(1) show ?thesis by (auto simp: nth_Cons less_Suc_eq_0_disj)
  qed auto
qed (auto simp: tokens_before_def)

lemma resume_loop_limits:
  "resume_loop retry (Some k) prompt params (Some m) fin steps outs = (calls, ans) \<Longrightarrow>
   map_of params k = Some (m - int (length (to_token_ids fin))) \<Longrightarrow>
   (\<forall>i < length calls. map_of (snd (calls ! i)) k = Some (m - int (length (tokens_before fin outs i))) \<and>
      (0 < i \<longrightarrow> int (length (tokens_before fin outs i)) < m)) \<and>
   (\<forall>res. ans = Some res \<longrightarrow> map_of (snd res) k = Some (m - int (length (to_token_ids (fst res)))))"
proof (induction outs arbitrary: params fin steps calls ans)
  case (Cons out outs)
  from Cons.prems(1) show ?case
  proof (cases rule: resume_loop_round)
    case (stop fin' params')
    with Cons.prems(2) show ?thesis by auto
  next
    case (more cs params' steps')
    from Cons.IH[OF more(2) more(3)] have IH:
      "\<forall>i < length cs. map_of (snd (cs ! i)) k = Some (m - int (length (tokens_before (merge_output fin out) outs i))) \<and>
        (0 < i \<longrightarrow> int (length (tokens_before (merge_output fin out) outs i)) < m)"
      "\<forall>res. ans = Some res \<longrightarrow> map_of (snd res) k = Some (m - int (length (to_token_ids (fst res))))" by simp_all
    have "int (length (tokens_before (merge_output fin out) outs 0)) < m" using more(4) by simp
    with IH(1) have "\<forall>i < length cs. int (length (tokens_before (merge_output fin out) outs i)) < m" by (metis gr0I)
    with IH Cons.prems(2) show ?thesis unfolding more(1) by (auto simp: nth_Cons less_Suc_eq_0_disj)
  qed
qed auto

section \<open>Properties\<close>

text \<open>
  C6: \<open>acquire_server\<close> on a non-empty pool never raises: it keeps the invariant, returns the handle registered
  for the chosen server, counts one more request there and nowhere else, and remembers the
  choice; a request whose cached server is still in the pool goes there, any other goes to a server with
  the fewest requests in flight; no other request is rerouted (its entry stays or is evicted).
\<close>

theorem acquire_sticky_least_loaded:
  assumes "lru_laws ops" "lb_wf lb" "lb_inflight lb \<noteq> []"
  shows "\<exists>lb' sid h. acquire_server ops py_hash lb r = Inr (lb', sid, h) \<and> lb_wf lb' \<and>
    map_of (lb_servers lb) sid = Some h \<and> sid \<in> set (get_all_servers lb) \<and>
    get_inflight_count lb' = (get_inflight_count lb)(sid := get_inflight_count lb sid + 1) \<and>
    lru_content ops (lb_cache lb') r = Some sid \<and>
    (\<forall>r'. r' \<noteq> r \<longrightarrow> lru_content ops (lb_cache lb') r' \<in> {None, lru_content ops (lb_cache lb) r'}) \<and>
    (\<forall>s. lru_content ops (lb_cache lb) r = Some s \<and> s \<in> set (get_all_servers lb) \<longrightarrow> sid = s) \<and>
    ((\<forall>s. lru_content ops (lb_cache lb) r = Some s \<longrightarrow> s \<notin> set (get_all_servers lb)) \<longrightarrow>
       (\<forall>s \<in> set (get_all_servers lb). get_inflight_count lb sid \<le> get_inflight_count lb s))"
proof -
  have a: "set (get_all_servers lb) = fst ` set (lb_inflight lb)" by (simp add: get_all_servers_def)
  show ?thesis using acquire_facts[OF assms, of py_hash r] unfolding a .
qed

text \<open>A small cache that keeps the two newest entries.\<close>

definition demo_lru :: "(string \<times> string) list lru_ops" where
  "demo_lru = \<lparr>lru_content = map_of,
     lru_get = (\<lambda>c k. case map_of c k of None \<Rightarrow> ([], c) | Some v \<Rightarrow> (v, (k, v) # AList.delete k c)),
     lru_set = (\<lambda>c k v. take 2 ((k, v) # AList.delete k c)), lru_del = (\<lambda>c k. AList.delete k c)\<rparr>"

lemma map_of_take: "map_of (take n xs) k \<in> {None, map_of xs k}"
proof (induction xs arbitrary: n)
  case (Cons x xs)
  then show ?case by (cases n) auto
qed simp

lemma demo_lru_laws: "lru_laws demo_lru"
  unfolding lru_laws_def
proof (intro conjI allI impI)
  fix c :: "(string \<times> string) list" and k v k' :: string
  assume "k' \<noteq> k"
  then show "lru_content demo_lru (lru_set demo_lru c k v) k' \<in> {None, lru_content demo_lru c k'}"
    using map_of_take[of 1 "AList.delete k c" k'] by (auto simp: demo_lru_def)
qed (auto simp: demo_lru_def fun_eq_iff)

definition demo_lb :: "((string \<times> string) list, nat) load_balancer" where
  "demo_lb = \<lparr>lb_servers = [(''a'', 1), (''b'', 2)], lb_inflight = [(''a'', 3), (''b'', 1)], lb_cache = [(''r'', ''a'')], lb_full_determinism = False\<rparr>"

lemma demo_lb_wf: "lb_wf demo_lb"
  by (simp add: lb_wf_def dict_wf_def demo_lb_def)

theorem acquire_sticky_least_loaded_witness:
  "\<exists>lb' sid h. acquire_server demo_lru (\<lambda>_. 0) demo_lb ''r'' = Inr (lb', sid, h) \<and> lb_wf lb' \<and> sid = ''a''"
proof -
  have ne: "lb_inflight demo_lb \<noteq> []" and c: "lru_content demo_lru (lb_cache demo_lb) ''r'' = Some ''a'' \<and> ''a'' \<in> set (get_all_servers demo_lb)"
    by (simp_all add: demo_lb_def demo_lru_def get_all_servers_def)
  from acquire_sticky_least_loaded[OF demo_lru_laws demo_lb_wf ne, of "\<lambda>_. 0" "''r''"]
  show ?thesis by (elim exE conjE, intro exI conjI) (assumption, assumption, use c in blast)
qed

text \<open>
  C7: accounting over any interleaving of acquires, releases, additions and removals: the
  balancer stays well formed, its in-flight counts are never negative and never exceed the requests
  really outstanding, and are exactly those while the pool does not change.
\<close>

theorem inflight_accounting:
  assumes "lru_laws ops" "dict_wf servers" "lb_init servers cache det = Inr lb0"
    and "lb_exec ops py_hash (lb0, {#}) tr (lb, outstanding)"
  shows "lb_wf lb \<and> (\<forall>sid. 0 \<le> get_inflight_count lb sid \<and> get_inflight_count lb sid \<le> int (count outstanding sid)) \<and>
    ((\<forall>l \<in> set tr. \<not> pool_change l) \<longrightarrow> (\<forall>sid. get_inflight_count lb sid = int (count outstanding sid)))"
  using lb_exec_inv[OF assms(4,1) lb_init_wf[OF assms(2,3)]] by (simp add: lb_inv_def)

theorem inflight_accounting_witness:
  "\<exists>lb out. lb_exec demo_lru (\<lambda>_. 0) (\<lparr>lb_servers = [(''a'', 1 :: nat)], lb_inflight = [(''a'', 0)], lb_cache = [], lb_full_determinism = False\<rparr>, {#})
     [Acquire ''r'' ''a''] (lb, out) \<and> get_inflight_count lb ''a'' = int (count out ''a'')"
proof -
  let ?lb = "\<lparr>lb_servers = [(''a'', 1 :: nat)], lb_inflight = [(''a'', 0)], lb_cache = [], lb_full_determinism = False\<rparr> :: ((string \<times> string) list, nat) load_balancer"
  let ?lb' = "?lb\<lparr>lb_inflight := [(''a'', 1)], lb_cache := [(''r'', ''a'')]\<rparr>"
  have i: "lb_init [(''a'', 1 :: nat)] [] False = Inr ?lb" by (simp add: lb_init_def)
  have "acquire_server demo_lru (\<lambda>_. 0) ?lb ''r'' = Inr (?lb', ''a'', 1)" by code_simp
  from lb_exec_snoc[OF lb_exec_nil step_acquire[OF this]]
  have e: "lb_exec demo_lru (\<lambda>_. 0) (?lb, {#}) [Acquire ''r'' ''a''] (?lb', {#''a''#})" by simp
  from inflight_accounting[OF demo_lru_laws _ i e] e show ?thesis by (intro exI conjI) (auto simp: dict_wf_def)
qed

text \<open>
  \<open>LLMServerClient.generate\<close> releases on every path: whether the server answers or raises, the
  in-flight counts afterwards are those before the call.
\<close>

theorem client_generate_releases:
  assumes "lru_laws ops" "lb_wf lb"
  shows "lb_wf (fst (client_generate ops py_hash server lb r call)) \<and>
    get_inflight_count (fst (client_generate ops py_hash server lb r call)) = get_inflight_count lb"
proof (cases "lb_inflight lb = []")
  case True
  then have "\<exists>e. acquire_server ops py_hash lb r = Inl e" using acquire_ne[of ops py_hash lb r] by (metis sum.exhaust)
  with assms(2) show ?thesis by (auto simp: client_generate_def)
next
  case False
  obtain lb1 sid h where a: "acquire_server ops py_hash lb r = Inr (lb1, sid, h)" "lb_wf lb1" "sid \<in> fst ` set (lb_inflight lb)"
    "get_inflight_count lb1 = (get_inflight_count lb)(sid := get_inflight_count lb sid + 1)"
    using acquire_facts[OF assms False, of py_hash r] by blast
  obtain cnt where c: "(sid, cnt) \<in> set (lb_inflight lb)" using a(3) by auto
  have w: "dict_wf (lb_inflight lb)" "\<forall>x \<in> snd ` set (lb_inflight lb). 0 \<le> x" using assms(2) by (simp_all add: lb_wf_def)
  have "map_of (lb_inflight lb) sid = Some cnt" using c dict_wf_map_of[OF w(1)] by blast
  moreover have "cnt \<in> snd ` set (lb_inflight lb)" using c by (metis image_eqI snd_conv)
  ultimately have "get_inflight_count lb sid \<ge> 0" using w(2) by (auto simp: get_inflight_count_def dict_get_def)
  with a release_facts[OF a(2), of sid] show ?thesis by (auto simp: client_generate_def fun_eq_iff)
qed

theorem client_generate_releases_witness:
  "get_inflight_count (fst (client_generate demo_lru (\<lambda>_. 0) (\<lambda>h call. Inl RuntimeError) demo_lb ''r''
     \<lparr>sc_prompt_ids = [1], sc_sampling_params = [], sc_kwargs = [] :: (string, nat) dict\<rparr>)) = get_inflight_count demo_lb"
  using client_generate_releases[OF demo_lru_laws demo_lb_wf] by blast

text \<open>
  Resuming an aborted rollout: call number \<open>i\<close> sends the prompt followed by all tokens
  generated so far, with exactly the remaining budget as its limit, and no call after the first is made with
  an empty budget; the answer is the concatenation of the outputs. If no call exceeds its
  limit, the answer stays within the caller's limit. The caller's own \<open>sampling_params\<close> are left
  with only the unused budget.
\<close>

theorem resume_within_budget:
  assumes "limit_key params = Some k" "map_of params k = Some m" "0 \<le> m"
    and "fully_async_generate should_retry prompt_ids params outs = (calls, ans)"
  shows "(\<forall>i < length calls. fst (calls ! i) = prompt_ids @ tokens_before empty_output outs i \<and>
      map_of (snd (calls ! i)) k = Some (m - int (length (tokens_before empty_output outs i))) \<and>
      (0 < i \<longrightarrow> int (length (tokens_before empty_output outs i)) < m)) \<and>
    (\<forall>fin params'. ans = Some (fin, params') \<longrightarrow>
      to_token_ids fin = concat (map to_token_ids (take (length calls) outs)) \<and>
      map_of params' k = Some (m - int (length (to_token_ids fin))) \<and>
      ((\<forall>i < length calls. int (length (to_token_ids (outs ! i))) \<le> m - int (length (tokens_before empty_output outs i))) \<longrightarrow>
         int (length (to_token_ids fin)) \<le> m))"
proof -
  have r: "resume_loop should_retry (Some k) prompt_ids params (Some m) empty_output None outs = (calls, ans)"
    using assms(1,2,4) by (simp add: fully_async_generate_def Let_def)
  have "map_of params k = Some (m - int (length (to_token_ids empty_output)))" using assms(2) by (simp add: empty_output_def)
  note lim = resume_loop_limits[OF r this] and tok = resume_loop_tokens[OF r]
  have "int (length (tokens_before empty_output outs (length calls))) \<le> m"
    if l: "length calls \<le> length outs"
      "\<forall>i < length calls. int (length (to_token_ids (outs ! i))) \<le> m - int (length (tokens_before empty_output outs i))"
  proof (cases "length calls")
    case 0
    then show ?thesis using assms(3) by (simp add: empty_output_def)
  next
    case (Suc n)
    with l(1) have "tokens_before empty_output outs (Suc n) = tokens_before empty_output outs n @ to_token_ids (outs ! n)"
      by (simp add: tokens_before_def take_Suc_conv_app_nth)
    with l(2) Suc show ?thesis by fastforce
  qed
  moreover have "tokens_before empty_output outs n = concat (map to_token_ids (take n outs))" for n
    by (simp add: tokens_before_def empty_output_def)
  ultimately have b: "\<And>fin. to_token_ids fin = tokens_before empty_output outs (length calls) \<Longrightarrow> length calls \<le> length outs \<Longrightarrow>
      to_token_ids fin = concat (map to_token_ids (take (length calls) outs)) \<and>
      ((\<forall>i < length calls. int (length (to_token_ids (outs ! i))) \<le> m - int (length (tokens_before empty_output outs i))) \<longrightarrow>
         int (length (to_token_ids fin)) \<le> m)" by simp
  show ?thesis
  proof (intro conjI allI impI)
    fix fin params'
    assume a: "ans = Some (fin, params')"
    then have t: "to_token_ids fin = tokens_before empty_output outs (length calls)" "length calls \<le> length outs" using tok by auto
    show "map_of params' k = Some (m - int (length (to_token_ids fin)))" using lim a by auto
    show "to_token_ids fin = concat (map to_token_ids (take (length calls) outs))" using b[OF t] by blast
    show "int (length (to_token_ids fin)) \<le> m"
      if "\<forall>i < length calls. int (length (to_token_ids (outs ! i))) \<le> m - int (length (tokens_before empty_output outs i))"
      using b[OF t] that by blast
  next
    fix i
    assume "i < length calls"
    then show "fst (calls ! i) = prompt_ids @ tokens_before empty_output outs i"
      "map_of (snd (calls ! i)) k = Some (m - int (length (tokens_before empty_output outs i)))"
      "0 < i \<Longrightarrow> int (length (tokens_before empty_output outs i)) < m" using lim tok by blast+
  qed
qed

theorem resume_within_budget_witness:
  "\<exists>calls fin. fully_async_generate True [1] [(''max_tokens'', 5)]
      [empty_output\<lparr>to_token_ids := [7, 8], to_stop_reason := Some ''abort''\<rparr>, empty_output\<lparr>to_token_ids := [9]\<rparr>] = (calls, Some (fin, [(''max_tokens'', 2)])) \<and>
     fst (calls ! 1) = [1, 7, 8] \<and> to_token_ids fin = [7, 8, 9]"
proof -
  let ?outs = "[empty_output\<lparr>to_token_ids := [7, 8], to_stop_reason := Some ''abort''\<rparr>, empty_output\<lparr>to_token_ids := [9]\<rparr>]"
  obtain calls fin where r: "fully_async_generate True [1] [(''max_tokens'', 5)] ?outs = (calls, Some (fin, [(''max_tokens'', 2)]))" "length calls = 2"
    by (simp add: fully_async_generate_def limit_key_def empty_output_def merge_output_def dict_get_def)
  have k: "limit_key [(''max_tokens'', 5)] = Some ''max_tokens''" by (simp add: limit_key_def)
  from resume_within_budget[OF k _ _ r(1)] r(2)
  have "fst (calls ! 1) = [1] @ tokens_before empty_output ?outs 1" "to_token_ids fin = concat (map to_token_ids (take 2 ?outs))" by auto
  with r(1) show ?thesis by (intro exI[of _ calls] exI[of _ fin]) (simp add: tokens_before_def empty_output_def)
qed

end
