(* ===== verification/Tool_Agent.thy ===== *)
theory Tool_Agent
  imports Load_Balancer
begin

text \<open>
  The tool agent, \<open>verl/experimental/agent_loop/tool_agent_loop.py\<close>: its state machine
  (pending, generating, processing tools, terminated), the tool calls with their lifecycle and the
  truncation of their answers, and the output it assembles. The server, the tokenizer, the chat
  template, the tool parser and the tools themselves are parameters (\<open>agent_env\<close>, \<open>tool_env\<close>), arbitrary
  at each turn. The branch \<open>enable_continuous_token\<close> is not modelled: the definitions are the
  handlers with that flag off.
\<close>

section \<open>Messages and tool responses\<close>

record function_call =
  fc_name :: string
  fc_arguments :: string
  fc_id :: "string option"

record 'i tool_response =
  tr_text :: "string option"
  tr_image :: "'i option list option"
  tr_video :: "'i list option"

datatype content_part = Part_Image | Part_Video | Part_Text string
datatype content = Text_Content string | Part_Content "content_part list"
datatype agent_message = Input_Message string | Tool_Message content "string option"

definition text_or_empty :: "string option \<Rightarrow> string" where
  "text_or_empty t = (case t of None \<Rightarrow> [] | Some s \<Rightarrow> s)"

definition list_truthy :: "'a list option \<Rightarrow> bool" where
  "list_truthy xs = (case xs of None \<Rightarrow> False | Some l \<Rightarrow> l \<noteq> [])"

section \<open>Calling a tool\<close>

datatype tool_kind = Function_Tool | Base_Tool

text \<open>
  The tools of a sample and what calling them does: \<open>Inl\<close> is the message of an exception.
  \<open>te_json\<close> is \<open>json.loads\<close>; \<open>te_create\<close> returns the instance id.
\<close>

record 'i tool_env =
  te_tools :: "(string, tool_kind) dict"
  te_names_repr :: "string list \<Rightarrow> string"
  te_json :: "string \<Rightarrow> string + string"
  te_function :: "string \<Rightarrow> string \<Rightarrow> string + ('i tool_response \<times> rat option)"
  te_create :: "string \<Rightarrow> string + string"
  te_execute :: "string \<Rightarrow> string \<Rightarrow> string \<Rightarrow> string + ('i tool_response \<times> rat option)"

datatype tool_event = Created string | Executed string | Released string | Called

definition quoted :: "string \<Rightarrow> string" where
  "quoted s = CHR 0x27 # s @ [CHR 0x27]"

definition text_response :: "string \<Rightarrow> 'i tool_response" where
  "text_response msg = \<lparr>tr_text = Some msg, tr_image = None, tr_video = None\<rparr>"

definition truncate_tool_text :: "nat \<Rightarrow> string \<Rightarrow> string \<Rightarrow> string" where
  "truncate_tool_text max_len side text =
     (if text \<noteq> [] \<and> length text > max_len then
        (if side = ''left'' then ''(truncated)...'' @ slice_from_end max_len text
         else if side = ''right'' then take max_len text @ ''...(truncated)''
         else (let half = max_len div 2 in take half text @ ''...(truncated)...'' @ slice_from_end half text))
      else text)"

definition run_tool :: "'i tool_env \<Rightarrow> tool_kind \<Rightarrow> string \<Rightarrow> string
    \<Rightarrow> (string + ('i tool_response \<times> rat option)) \<times> tool_event list" where
  "run_tool env kind name args =
     (case kind of
        Function_Tool \<Rightarrow> (te_function env name args, [Called])
      | Base_Tool \<Rightarrow>
          (case te_create env name of
             Inl e \<Rightarrow> (Inl e, [])
           | Inr inst \<Rightarrow> (te_execute env name inst args,
               [Created inst, Executed inst] @ (if inst \<noteq> [] then [Released inst] else []))))"

definition call_tool :: "nat \<Rightarrow> string \<Rightarrow> 'i tool_env \<Rightarrow> function_call \<Rightarrow> ('i tool_response \<times> rat option) \<times> tool_event list" where
  "call_tool max_len side env call =
     (case map_of (te_tools env) (fc_name call) of
        None \<Rightarrow> ((text_response (''Unknown function '' @ quoted (fc_name call) @ ''. Available tools: '' @ te_names_repr env (map fst (te_tools env))), Some 0), [])
      | Some kind \<Rightarrow>
          (case te_json env (fc_arguments call) of
             Inl e \<Rightarrow> ((text_response (''Invalid JSON in arguments for '' @ quoted (fc_name call) @ '': '' @ e), Some 0), [])
           | Inr args \<Rightarrow>
               (case run_tool env kind (fc_name call) args of
                  (Inl e, events) \<Rightarrow> ((text_response (''Error executing tool '' @ quoted (fc_name call) @ '': '' @ e), Some 0), events)
                | (Inr (response, reward), events) \<Rightarrow>
                    ((\<lparr>tr_text = map_option (truncate_tool_text max_len side) (tr_text response),
                      tr_image = tr_image response, tr_video = tr_video response\<rparr>, reward), events))))"

section \<open>The state machine\<close>

datatype agent_state = PENDING | GENERATING | PROCESSING_TOOLS | TERMINATED

record agent_config =
  ac_max_user_turns :: "nat option"
  ac_max_assistant_turns :: "nat option"
  ac_max_parallel_calls :: nat
  ac_max_tool_response_length :: nat
  ac_truncate_side :: string
  ac_parser_name :: string
  ac_response_length :: nat
  ac_image_processor :: bool
  ac_turn_separator :: "int list"

record 'i agent_data =
  ad_messages :: "agent_message list"
  ad_image_data :: "'i list option"
  ad_prompt_ids :: "int list"
  ad_response_ids :: "int list"
  ad_response_mask :: "int list"
  ad_response_logprobs :: "rat list"
  ad_tool_rewards :: "rat list"
  ad_user_turns :: nat
  ad_assistant_turns :: nat
  ad_tool_calls :: "function_call list"
  ad_routed_experts :: "int list list option"
  ad_num_preempted :: "int option"
  ad_extra_fields :: "(string, int option) dict"

text \<open>
  The outside world: the chat template (messages, images, \<open>remove_system_prompt\<close>), the
  tokenizer, the server at each assistant turn, the tool parser, the tools at each user turn, and
  Python's rendering of a structured content.
\<close>

record 'i agent_env =
  ae_template :: "agent_message list \<Rightarrow> 'i list option \<Rightarrow> bool \<Rightarrow> int list"
  ae_encode :: "string \<Rightarrow> int list"
  ae_generate :: "nat \<Rightarrow> int list \<Rightarrow> token_output result"
  ae_parse :: "int list \<Rightarrow> function_call list"
  ae_tools :: "nat \<Rightarrow> 'i tool_env"
  ae_content_repr :: "content_part list \<Rightarrow> string"

definition handle_pending :: "'i agent_env \<Rightarrow> 'i agent_data \<Rightarrow> 'i agent_data \<times> agent_state" where
  "handle_pending env ad =
     (ad\<lparr>ad_prompt_ids := ae_template env (ad_messages ad) (ad_image_data ad) False\<rparr>, GENERATING)"

definition spec_decode_extra_keys :: "string list" where
  "spec_decode_extra_keys = [''spec_num_draft_tokens'', ''spec_num_accepted_tokens'', ''spec_num_verify_steps'']"

text \<open>\<open>int(None)\<close> raises.\<close>

definition add_extra_key :: "(string, int option) dict \<Rightarrow> string \<Rightarrow> (string, int option) dict \<Rightarrow> (string, int option) dict result" where
  "add_extra_key new key extra =
     (case (map_of new key, map_of extra key) of
        (Some a, Some b) \<Rightarrow> (case (b, a) of (Some x, Some y) \<Rightarrow> Inr (AList.update key (Some (x + y)) extra) | _ \<Rightarrow> Inl TypeError)
      | _ \<Rightarrow> Inr extra)"

definition merge_extra_fields :: "(string, int option) dict \<Rightarrow> (string, int option) dict \<Rightarrow> (string, int option) dict result" where
  "merge_extra_fields extra new =
     (if extra = [] then Inr (fold (\<lambda>(k, v). AList.update k v) new [])
      else
        (let extra1 = (case dict_get new ''max_global_steps'' None of
                          Some g \<Rightarrow> if g \<noteq> 0 then AList.update ''max_global_steps'' (Some g) extra else extra
                        | None \<Rightarrow> extra)
         in res_fold (add_extra_key new) spec_decode_extra_keys extra1))"

definition merge_num_preempted :: "int option \<Rightarrow> int option \<Rightarrow> int option" where
  "merge_num_preempted old new =
     (case old of None \<Rightarrow> Some (case new of None \<Rightarrow> -1 | Some n \<Rightarrow> n)
      | Some m \<Rightarrow> Some (m + (case new of None \<Rightarrow> 0 | Some n \<Rightarrow> n)))"

definition reached :: "nat option \<Rightarrow> nat \<Rightarrow> bool" where
  "reached limit turns = (case limit of None \<Rightarrow> False | Some n \<Rightarrow> n \<noteq> 0 \<and> turns \<ge> n)"

definition handle_generating :: "agent_config \<Rightarrow> 'i agent_env \<Rightarrow> bool \<Rightarrow> 'i agent_data \<Rightarrow> ('i agent_data \<times> agent_state) result" where
  "handle_generating cfg env ignore_termination ad =
     res_bind (ae_generate env (ad_assistant_turns ad) (ad_prompt_ids ad)) (\<lambda>out.
     res_bind (merge_extra_fields (ad_extra_fields ad) (to_extra_fields out)) (\<lambda>extra.
       let ad1 = ad\<lparr>
             ad_num_preempted := merge_num_preempted (ad_num_preempted ad) (to_num_preempted out),
             ad_extra_fields := extra,
             ad_assistant_turns := ad_assistant_turns ad + 1,
             ad_response_ids := to_token_ids out,
             ad_prompt_ids := ad_prompt_ids ad @ to_token_ids out,
             ad_response_mask := ad_response_mask ad @ replicate (length (to_token_ids out)) 1,
             ad_response_logprobs := ad_response_logprobs ad @ (case to_log_probs out of None \<Rightarrow> [] | Some ps \<Rightarrow> ps),
             ad_routed_experts := (case to_routed_experts out of None \<Rightarrow> ad_routed_experts ad | Some r \<Rightarrow> Some r)\<rparr>
       in Inr (if \<not> ignore_termination \<and> length (ad_response_mask ad1) \<ge> ac_response_length cfg then (ad1, TERMINATED)
          else if reached (ac_max_assistant_turns cfg) (ad_assistant_turns ad1) then (ad1, TERMINATED)
          else if reached (ac_max_user_turns cfg) (ad_user_turns ad1) then (ad1, TERMINATED)
          else
            (let calls = ae_parse env (ad_response_ids ad1)
             in (ad1\<lparr>ad_tool_calls := calls\<rparr>, if calls \<noteq> [] then PROCESSING_TOOLS else TERMINATED)))))"

text \<open>The message of one tool response, and the new images; video data is refused.\<close>

definition tool_message :: "agent_config \<Rightarrow> 'i tool_response \<Rightarrow> function_call \<Rightarrow> agent_message result" where
  "tool_message cfg resp call =
     (if list_truthy (tr_image resp) \<or> list_truthy (tr_video resp) then
        (if \<not> ac_image_processor cfg then Inl ValueError
         else Inr (Tool_Message (Part_Content
            ((if list_truthy (tr_image resp) then [Part_Image] else []) @
             (if list_truthy (tr_video resp) then [Part_Video] else []) @
             (if text_or_empty (tr_text resp) \<noteq> [] then [Part_Text (text_or_empty (tr_text resp))] else []))) (fc_id call)))
      else Inr (Tool_Message (Text_Content (text_or_empty (tr_text resp))) (fc_id call)))"

definition new_images :: "'i tool_response \<Rightarrow> 'i list" where
  "new_images resp = (case tr_image resp of None \<Rightarrow> [] | Some imgs \<Rightarrow> concat (map (\<lambda>img. case img of None \<Rightarrow> [] | Some i \<Rightarrow> [i]) imgs))"

definition process_response ::
  "agent_config \<Rightarrow> ('i tool_response \<times> rat option) \<times> function_call \<Rightarrow> agent_message list \<times> 'i list \<times> rat list
    \<Rightarrow> (agent_message list \<times> 'i list \<times> rat list) result" where
  "process_response cfg item acc = (case (item, acc) of (((resp, reward), call), (messages, images, rewards)) \<Rightarrow>
     res_bind (tool_message cfg resp call) (\<lambda>message.
       if list_truthy (tr_video resp) then Inl NotImplementedError
       else Inr (messages @ [message], images @ new_images resp,
              rewards @ (case reward of None \<Rightarrow> [] | Some r \<Rightarrow> [r]))))"

definition content_text :: "(content_part list \<Rightarrow> string) \<Rightarrow> agent_message \<Rightarrow> string" where
  "content_text render m = (case m of Input_Message s \<Rightarrow> s
     | Tool_Message (Text_Content s) _ \<Rightarrow> s | Tool_Message (Part_Content ps) _ \<Rightarrow> render ps)"

definition gpt_oss_tool_text :: "(content_part list \<Rightarrow> string) \<Rightarrow> agent_message list \<Rightarrow> string list \<Rightarrow> string" where
  "gpt_oss_tool_text render messages names =
     concat (map (\<lambda>(m, name). ''<|start|>functions.'' @ name @ '' to=assistant<|channel|>commentary<|message|>''
         @ content_text render m @ ''<|end|>'') (zip messages names)) @ ''<|start|>assistant''"

definition parts_text :: "content_part list \<Rightarrow> string" where
  "parts_text ps = concat (map (\<lambda>p. case p of Part_Text t \<Rightarrow> t | _ \<Rightarrow> []) ps)"

definition gemma4_tool_text :: "agent_message list \<Rightarrow> string list \<Rightarrow> string" where
  "gemma4_tool_text messages names =
     concat (map (\<lambda>(m, name). ''<|tool_response>response:'' @ name @ ''{value:<|'' @ [CHR 0x22] @ ''|>''
         @ content_text parts_text m @ ''<|'' @ [CHR 0x22] @ ''|>}<tool_response|>'') (zip messages names))"

definition tool_turn_tokens :: "agent_config \<Rightarrow> 'i agent_env \<Rightarrow> agent_message list \<Rightarrow> string list \<Rightarrow> 'i list \<Rightarrow> int list" where
  "tool_turn_tokens cfg env messages names images =
     (if ac_parser_name cfg = ''gpt-oss'' then ae_encode env (gpt_oss_tool_text (ae_content_repr env) messages names)
      else if ac_parser_name cfg = ''gemma4'' then ae_encode env (gemma4_tool_text messages names)
      else ac_turn_separator cfg @ ae_template env messages (if images \<noteq> [] then Some images else None) True)"

definition append_tool_turn :: "agent_config \<Rightarrow> int list \<Rightarrow> 'i list \<Rightarrow> 'i agent_data \<Rightarrow> 'i agent_data \<times> agent_state" where
  "append_tool_turn cfg ids images ad =
     (if length (ad_response_mask ad) + length ids \<ge> ac_response_length cfg then (ad, TERMINATED)
      else (ad\<lparr>
        ad_image_data := (if images \<noteq> [] then Some ((case ad_image_data ad of None \<Rightarrow> [] | Some is \<Rightarrow> is) @ images)
                          else ad_image_data ad),
        ad_prompt_ids := ad_prompt_ids ad @ ids,
        ad_response_mask := ad_response_mask ad @ replicate (length ids) 0,
        ad_response_logprobs := (if ad_response_logprobs ad \<noteq> [] then ad_response_logprobs ad @ replicate (length ids) 0
                                 else ad_response_logprobs ad),
        ad_user_turns := ad_user_turns ad + 1\<rparr>, GENERATING))"

definition handle_processing_tools :: "agent_config \<Rightarrow> 'i agent_env \<Rightarrow> 'i agent_data \<Rightarrow> ('i agent_data \<times> agent_state) result" where
  "handle_processing_tools cfg env ad =
     (let calls = take (ac_max_parallel_calls cfg) (ad_tool_calls ad);
          responses = map (\<lambda>call. fst (call_tool (ac_max_tool_response_length cfg) (ac_truncate_side cfg)
                                          (ae_tools env (ad_user_turns ad)) call)) calls
      in res_bind (res_fold (process_response cfg) (zip responses calls) ([], [], ad_tool_rewards ad)) (\<lambda>(messages, images, rewards).
           Inr (append_tool_turn cfg (tool_turn_tokens cfg env messages (map fc_name calls) images) images
                  (ad\<lparr>ad_messages := ad_messages ad @ messages, ad_tool_rewards := rewards\<rparr>))))"

definition agent_step :: "agent_config \<Rightarrow> 'i agent_env \<Rightarrow> agent_state \<times> 'i agent_data \<Rightarrow> (agent_state \<times> 'i agent_data) result" where
  "agent_step cfg env s = (case s of
     (PENDING, ad) \<Rightarrow> (case handle_pending env ad of (ad', st) \<Rightarrow> Inr (st, ad'))
   | (GENERATING, ad) \<Rightarrow> res_bind (handle_generating cfg env False ad) (\<lambda>(ad', st). Inr (st, ad'))
   | (PROCESSING_TOOLS, ad) \<Rightarrow> res_bind (handle_processing_tools cfg env ad) (\<lambda>(ad', st). Inr (st, ad'))
   | (TERMINATED, ad) \<Rightarrow> Inr (TERMINATED, ad))"

text \<open>The loop of \<open>run\<close>; \<open>None\<close> when the fuel is used up.\<close>

fun agent_loop :: "nat \<Rightarrow> agent_config \<Rightarrow> 'i agent_env \<Rightarrow> agent_state \<times> 'i agent_data \<Rightarrow> 'i agent_data result option" where
  "agent_loop fuel cfg env (TERMINATED, ad) = Some (Inr ad)"
| "agent_loop 0 cfg env s = None"
| "agent_loop (Suc fuel) cfg env s =
     (case agent_step cfg env s of Inl e \<Rightarrow> Some (Inl e) | Inr s' \<Rightarrow> agent_loop fuel cfg env s')"

definition agent_init :: "agent_message list \<Rightarrow> 'i list option \<Rightarrow> 'i agent_data" where
  "agent_init messages images = \<lparr>ad_messages = messages, ad_image_data = images, ad_prompt_ids = [], ad_response_ids = [],
     ad_response_mask = [], ad_response_logprobs = [], ad_tool_rewards = [], ad_user_turns = 0, ad_assistant_turns = 0,
     ad_tool_calls = [], ad_routed_experts = None, ad_num_preempted = None, ad_extra_fields = []\<rparr>"

section \<open>The output\<close>

record 'i agent_output =
  ao_prompt_ids :: "int list"
  ao_response_ids :: "int list"
  ao_response_mask :: "int list"
  ao_images :: "'i list option"
  ao_response_logprobs :: "rat list option"
  ao_num_turns :: nat
  ao_routed_experts :: "int list list option"
  ao_extra_fields :: "(string, int option) dict"
  ao_tool_rewards :: "rat list"

definition agent_output_of :: "agent_config \<Rightarrow> 'i agent_data \<Rightarrow> 'i agent_output" where
  "agent_output_of cfg ad =
     (let n = length (ad_response_mask ad);
          response_ids = slice_from_end n (ad_prompt_ids ad);
          prompt_ids = take (length (ad_prompt_ids ad) - n) (ad_prompt_ids ad);
          len = ac_response_length cfg
      in \<lparr>ao_prompt_ids = prompt_ids, ao_response_ids = take len response_ids,
          ao_response_mask = take len (ad_response_mask ad), ao_images = ad_image_data ad,
          ao_response_logprobs = (if ad_response_logprobs ad \<noteq> [] then Some (take len (ad_response_logprobs ad)) else None),
          ao_num_turns = ad_user_turns ad + ad_assistant_turns ad + 1,
          ao_routed_experts = map_option (take (length prompt_ids + len)) (ad_routed_experts ad),
          ao_extra_fields = ad_extra_fields ad, ao_tool_rewards = ad_tool_rewards ad\<rparr>)"

definition agent_run :: "nat \<Rightarrow> agent_config \<Rightarrow> 'i agent_env \<Rightarrow> agent_message list \<Rightarrow> 'i list option \<Rightarrow> 'i agent_output result option" where
  "agent_run fuel cfg env messages images =
     map_option (\<lambda>r. res_bind r (\<lambda>ad. Inr (agent_output_of cfg ad))) (agent_loop fuel cfg env (PENDING, agent_init messages images))"

section \<open>Invariant\<close>

text \<open>
  The response is a list of segments, each generated by the model (\<open>True\<close>) or produced by the
  tools (\<open>False\<close>); the mask is 1 exactly on the model's tokens.
\<close>

definition seg_tokens :: "(bool \<times> int list) list \<Rightarrow> int list" where
  "seg_tokens segs = concat (map snd segs)"

definition seg_mask :: "(bool \<times> int list) list \<Rightarrow> int list" where
  "seg_mask segs = concat (map (\<lambda>(g, ids). replicate (length ids) (if g then 1 else 0)) segs)"

lemma seg_simps [simp]:
  "seg_tokens [] = []" "seg_mask [] = []"
  "seg_tokens (segs @ [(g, ids)]) = seg_tokens segs @ ids"
  "seg_mask (segs @ [(g, ids)]) = seg_mask segs @ replicate (length ids) (if g then 1 else 0)"
  by (simp_all add: seg_tokens_def seg_mask_def)

lemma length_seg [simp]: "length (seg_mask segs) = length (seg_tokens segs)"
  by (induction segs) (auto simp: seg_tokens_def seg_mask_def)

definition response_shape :: "int list \<Rightarrow> 'i agent_data \<Rightarrow> bool" where
  "response_shape p0 ad \<longleftrightarrow> (\<exists>segs. ad_prompt_ids ad = p0 @ seg_tokens segs \<and> ad_response_mask ad = seg_mask segs)"

definition within_limit :: "nat option \<Rightarrow> nat \<Rightarrow> bool" where
  "within_limit limit turns \<longleftrightarrow> (\<forall>n. limit = Some n \<and> n \<noteq> 0 \<longrightarrow> turns \<le> n)"

definition agent_inv :: "agent_config \<Rightarrow> int list \<Rightarrow> agent_state \<times> 'i agent_data \<Rightarrow> bool" where
  "agent_inv cfg p0 s = (case s of (st, ad) \<Rightarrow>
     within_limit (ac_max_assistant_turns cfg) (ad_assistant_turns ad) \<and> within_limit (ac_max_user_turns cfg) (ad_user_turns ad) \<and>
     (case st of
        PENDING \<Rightarrow> ad_response_mask ad = [] \<and> ad_assistant_turns ad = 0 \<and> ad_user_turns ad = 0
      | GENERATING \<Rightarrow> response_shape p0 ad \<and> ad_user_turns ad = ad_assistant_turns ad \<and>
          \<not> reached (ac_max_assistant_turns cfg) (ad_assistant_turns ad) \<and>
          (ad_response_mask ad = [] \<or> length (ad_response_mask ad) < ac_response_length cfg)
      | PROCESSING_TOOLS \<Rightarrow> response_shape p0 ad \<and> ad_assistant_turns ad = ad_user_turns ad + 1 \<and>
          \<not> reached (ac_max_assistant_turns cfg) (ad_assistant_turns ad) \<and> \<not> reached (ac_max_user_turns cfg) (ad_user_turns ad) \<and>
          length (ad_response_mask ad) < ac_response_length cfg
      | TERMINATED \<Rightarrow> response_shape p0 ad \<and> ad_assistant_turns ad = ad_user_turns ad + 1))"

lemma not_reached_within: "\<not> reached limit turns \<Longrightarrow> within_limit limit (turns + 1)"
  by (auto simp: reached_def within_limit_def split: option.splits)

lemma response_shape_gen:
  "response_shape p0 ad \<Longrightarrow> ad_prompt_ids ad' = ad_prompt_ids ad @ ids \<Longrightarrow>
   ad_response_mask ad' = ad_response_mask ad @ replicate (length ids) (if g then 1 else 0) \<Longrightarrow> response_shape p0 ad'"
  unfolding response_shape_def by (metis append.assoc seg_simps(3,4))

lemma generating_step:
  assumes i: "agent_inv cfg p0 (GENERATING, ad)" and r: "handle_generating cfg env False ad = Inr (ad', st)"
  shows "agent_inv cfg p0 (st, ad') \<and> st \<in> {PROCESSING_TOOLS, TERMINATED}"
proof -
  obtain out extra where out: "ae_generate env (ad_assistant_turns ad) (ad_prompt_ids ad) = Inr out"
    "merge_extra_fields (ad_extra_fields ad) (to_extra_fields out) = Inr extra"
    using r by (auto simp: handle_generating_def res_bind_eq_Inr)
  have f: "ad_prompt_ids ad' = ad_prompt_ids ad @ to_token_ids out"
    "ad_response_mask ad' = ad_response_mask ad @ replicate (length (to_token_ids out)) (if True then 1 else 0)"
    "ad_assistant_turns ad' = ad_assistant_turns ad + 1" "ad_user_turns ad' = ad_user_turns ad"
    using r out by (auto simp: handle_generating_def Let_def split: if_splits)
  have st: "st \<in> {PROCESSING_TOOLS, TERMINATED}"
    "st = PROCESSING_TOOLS \<Longrightarrow> length (ad_response_mask ad') < ac_response_length cfg \<and>
       \<not> reached (ac_max_assistant_turns cfg) (ad_assistant_turns ad') \<and> \<not> reached (ac_max_user_turns cfg) (ad_user_turns ad')"
    using r out by (auto simp: handle_generating_def Let_def split: if_splits)
  have sh: "response_shape p0 ad'" using i f response_shape_gen[OF _ f(1,2)] by (simp add: agent_inv_def)
  have w: "within_limit (ac_max_assistant_turns cfg) (ad_assistant_turns ad')" "within_limit (ac_max_user_turns cfg) (ad_user_turns ad')"
    using i f not_reached_within by (auto simp: agent_inv_def)
  show ?thesis using st sh w i f by (auto simp: agent_inv_def)
qed

lemma append_tool_turn_cases:
  assumes "append_tool_turn cfg ids images ad = (ad', st)"
  obtains (full) "ad' = ad" "st = TERMINATED"
  | (next_turn) "st = GENERATING" "length (ad_response_mask ad) + length ids < ac_response_length cfg"
      "ad_prompt_ids ad' = ad_prompt_ids ad @ ids"
      "ad_response_mask ad' = ad_response_mask ad @ replicate (length ids) (if False then 1 else 0)"
      "ad_assistant_turns ad' = ad_assistant_turns ad" "ad_user_turns ad' = ad_user_turns ad + 1"
      "ad_response_logprobs ad' = (if ad_response_logprobs ad \<noteq> [] then ad_response_logprobs ad @ replicate (length ids) 0 else [])"
  using assms by (auto simp: append_tool_turn_def split: if_splits)

lemma processing_Inr:
  assumes "handle_processing_tools cfg env ad = Inr (ad', st)"
  obtains messages rewards ids images where
    "append_tool_turn cfg ids images (ad\<lparr>ad_messages := ad_messages ad @ messages, ad_tool_rewards := rewards\<rparr>) = (ad', st)"
  using assms unfolding handle_processing_tools_def Let_def by (auto simp: res_bind_eq_Inr split: prod.splits)

lemma processing_step:
  assumes i: "agent_inv cfg p0 (PROCESSING_TOOLS, ad)" and r: "handle_processing_tools cfg env ad = Inr (ad', st)"
  shows "agent_inv cfg p0 (st, ad') \<and> st \<in> {GENERATING, TERMINATED} \<and> ad_assistant_turns ad' = ad_assistant_turns ad"
  using r
proof (rule processing_Inr)
  fix messages rewards ids images
  let ?ad = "ad\<lparr>ad_messages := ad_messages ad @ messages, ad_tool_rewards := rewards\<rparr>"
  assume "append_tool_turn cfg ids images ?ad = (ad', st)"
  then show ?thesis
  proof (cases rule: append_tool_turn_cases)
    case full
    with i show ?thesis by (auto simp: agent_inv_def response_shape_def)
  next
    case next_turn
    have "response_shape p0 ?ad" using i by (simp add: agent_inv_def response_shape_def)
    then have "response_shape p0 ad'" using response_shape_gen[OF _ next_turn(3,4)] by simp
    moreover have "within_limit (ac_max_user_turns cfg) (ad_user_turns ad')"
      using i next_turn(6) not_reached_within by (auto simp: agent_inv_def)
    ultimately show ?thesis using i next_turn by (auto simp: agent_inv_def)
  qed
qed

lemma agent_step_inv:
  assumes "agent_inv cfg p0 s" "agent_step cfg env s = Inr s'"
    and "fst s = PENDING \<longrightarrow> p0 = ae_template env (ad_messages (snd s)) (ad_image_data (snd s)) False"
  shows "agent_inv cfg p0 s' \<and> fst s' \<noteq> PENDING"
proof -
  obtain st ad where s: "s = (st, ad)" by (cases s)
  show ?thesis
  proof (cases st)
    case PENDING
    have "response_shape p0 (ad\<lparr>ad_prompt_ids := p0\<rparr>)"
      unfolding response_shape_def by (rule exI[of _ "[]"]) (use assms(1) s PENDING in \<open>simp add: agent_inv_def\<close>)
    with PENDING s assms show ?thesis
      by (auto simp: agent_step_def handle_pending_def agent_inv_def reached_def split: option.splits)
  next
    case GENERATING
    then obtain ad' st' where r: "handle_generating cfg env False ad = Inr (ad', st')" "s' = (st', ad')"
      using assms(2) s by (auto simp: agent_step_def res_bind_eq_Inr)
    from generating_step[OF _ r(1)] assms(1) s GENERATING r(2) show ?thesis by auto
  next
    case PROCESSING_TOOLS
    then obtain ad' st' where r: "handle_processing_tools cfg env ad = Inr (ad', st')" "s' = (st', ad')"
      using assms(2) s by (auto simp: agent_step_def res_bind_eq_Inr)
    from processing_step[OF _ r(1)] assms(1) s PROCESSING_TOOLS r(2) show ?thesis by auto
  next
    case TERMINATED
    with assms s show ?thesis by (auto simp: agent_step_def)
  qed
qed

lemma agent_loop_unfold:
  "st \<noteq> TERMINATED \<Longrightarrow> agent_loop 0 cfg env (st, ad) = None"
  "st \<noteq> TERMINATED \<Longrightarrow> agent_loop (Suc fuel) cfg env (st, ad) =
     (case agent_step cfg env (st, ad) of Inl e \<Rightarrow> Some (Inl e) | Inr s' \<Rightarrow> agent_loop fuel cfg env s')"
  by (cases st; simp)+

lemma agent_loop_inv:
  "agent_loop fuel cfg env s = Some (Inr ad) \<Longrightarrow> agent_inv cfg p0 s \<Longrightarrow>
   (fst s = PENDING \<longrightarrow> p0 = ae_template env (ad_messages (snd s)) (ad_image_data (snd s)) False) \<Longrightarrow> agent_inv cfg p0 (TERMINATED, ad)"
proof (induction fuel arbitrary: s)
  case 0
  obtain st a where "s = (st, a)" by (cases s)
  with 0 show ?case by (cases "st = TERMINATED") (auto simp: agent_loop_unfold)
next
  case (Suc fuel)
  obtain st a where s: "s = (st, a)" by (cases s)
  show ?case
  proof (cases "st = TERMINATED")
    case True
    with Suc.prems s show ?thesis by simp
  next
    case False
    then obtain s' where s': "agent_step cfg env s = Inr s'" "agent_loop fuel cfg env s' = Some (Inr ad)"
      using Suc.prems(1) s by (auto simp: agent_loop_unfold split: sum.splits)
    from agent_step_inv[OF Suc.prems(2) s'(1) Suc.prems(3)] Suc.IH[OF s'(2)] show ?thesis by auto
  qed
qed

text \<open>How many more steps the machine can take when the assistant turns are bounded by \<open>n\<close>.\<close>

fun steps_left :: "nat \<Rightarrow> agent_state \<times> 'i agent_data \<Rightarrow> nat" where
  "steps_left n (PENDING, ad) = 2 * n"
| "steps_left n (GENERATING, ad) = 2 * (n - ad_assistant_turns ad) - 1"
| "steps_left n (PROCESSING_TOOLS, ad) = 2 * (n - ad_assistant_turns ad)"
| "steps_left n (TERMINATED, ad) = 0"

lemma generating_turns: "handle_generating cfg env b ad = Inr (ad', st) \<Longrightarrow> ad_assistant_turns ad' = ad_assistant_turns ad + 1"
  unfolding handle_generating_def Let_def by (elim res_bind_eq_Inr[THEN iffD1, elim_format] exE conjE) (auto split: if_splits)

lemma agent_step_decreases:
  assumes n: "ac_max_assistant_turns cfg = Some n" "0 < n" and i: "agent_inv cfg p0 (st, ad)" and st: "st \<noteq> TERMINATED"
    and r: "agent_step cfg env (st, ad) = Inr s'"
  shows "steps_left n s' < steps_left n (st, ad)"
proof (cases st)
  case PENDING
  with r n i show ?thesis by (auto simp: agent_step_def handle_pending_def agent_inv_def)
next
  case GENERATING
  then obtain ad' st' where g: "handle_generating cfg env False ad = Inr (ad', st')" "s' = (st', ad')"
    using r by (auto simp: agent_step_def res_bind_eq_Inr)
  have "ad_assistant_turns ad < n" using i n GENERATING by (auto simp: agent_inv_def reached_def)
  moreover have "st' \<in> {PROCESSING_TOOLS, TERMINATED}" using generating_step[OF _ g(1), of p0] i GENERATING by simp
  ultimately show ?thesis using g(2) GENERATING generating_turns[OF g(1)] by auto
next
  case PROCESSING_TOOLS
  then obtain ad' st' where g: "handle_processing_tools cfg env ad = Inr (ad', st')" "s' = (st', ad')"
    using r by (auto simp: agent_step_def res_bind_eq_Inr)
  have "ad_assistant_turns ad < n" using i n PROCESSING_TOOLS by (auto simp: agent_inv_def reached_def)
  moreover have "st' \<in> {GENERATING, TERMINATED} \<and> ad_assistant_turns ad' = ad_assistant_turns ad"
    using processing_step[OF _ g(1), of p0] i PROCESSING_TOOLS by simp
  ultimately show ?thesis using g(2) PROCESSING_TOOLS by auto
qed (use st in simp)

lemma agent_loop_terminates:
  assumes n: "ac_max_assistant_turns cfg = Some n" "0 < n"
  shows "agent_inv cfg p0 s \<Longrightarrow> (fst s = PENDING \<longrightarrow> p0 = ae_template env (ad_messages (snd s)) (ad_image_data (snd s)) False) \<Longrightarrow>
    steps_left n s \<le> fuel \<Longrightarrow> \<exists>r. agent_loop fuel cfg env s = Some r"
proof (induction fuel arbitrary: s)
  case 0
  obtain st ad where s: "s = (st, ad)" by (cases s)
  have "st = TERMINATED"
    using 0 n s by (cases st) (auto simp: agent_inv_def reached_def)
  with s show ?case by simp
next
  case (Suc fuel)
  obtain st ad where s: "s = (st, ad)" by (cases s)
  show ?case
  proof (cases "st = TERMINATED")
    case False
    show ?thesis
    proof (cases "agent_step cfg env s")
      case (Inr s')
      have "steps_left n s' \<le> fuel" using agent_step_decreases[OF n] Suc.prems(1,3) s False Inr by fastforce
      with Suc.IH agent_step_inv[OF Suc.prems(1) Inr Suc.prems(2)] have "\<exists>r. agent_loop fuel cfg env s' = Some r" by blast
      with s False Inr show ?thesis by (simp add: agent_loop_unfold)
    qed (use s False in \<open>simp add: agent_loop_unfold\<close>)
  qed (use s in simp)
qed

lemma agent_init_inv: "agent_inv cfg p0 (PENDING, agent_init messages images)"
  by (simp add: agent_inv_def agent_init_def within_limit_def)

section \<open>Log probabilities\<close>

text \<open>A server that returns one log probability per token, and a parser that finds no call in nothing.\<close>

definition env_logprobs_ok :: "'i agent_env \<Rightarrow> bool" where
  "env_logprobs_ok env \<longleftrightarrow> ae_parse env [] = [] \<and>
     (\<forall>n p out. ae_generate env n p = Inr out \<longrightarrow> (\<exists>ps. to_log_probs out = Some ps \<and> length ps = length (to_token_ids out)))"

definition logprobs_inv :: "agent_state \<times> 'i agent_data \<Rightarrow> bool" where
  "logprobs_inv s = (case s of (st, ad) \<Rightarrow> length (ad_response_logprobs ad) = length (ad_response_mask ad) \<and>
     (st = PROCESSING_TOOLS \<longrightarrow> ad_response_logprobs ad \<noteq> []))"

lemma generating_logprobs:
  assumes ok: "env_logprobs_ok env" and i: "length (ad_response_logprobs ad) = length (ad_response_mask ad)"
    and r: "handle_generating cfg env b ad = Inr (ad', st)"
  shows "logprobs_inv (st, ad')"
proof -
  obtain out extra where out: "ae_generate env (ad_assistant_turns ad) (ad_prompt_ids ad) = Inr out"
    "merge_extra_fields (ad_extra_fields ad) (to_extra_fields out) = Inr extra"
    using r by (auto simp: handle_generating_def res_bind_eq_Inr)
  obtain ps where ps: "to_log_probs out = Some ps" "length ps = length (to_token_ids out)"
    using ok[unfolded env_logprobs_ok_def] out(1) by blast
  have "ad_response_mask ad' = ad_response_mask ad @ replicate (length (to_token_ids out)) 1"
    "ad_response_logprobs ad' = ad_response_logprobs ad @ ps"
    "st = PROCESSING_TOOLS \<Longrightarrow> ae_parse env (to_token_ids out) \<noteq> []"
    using r out ps(1) by (auto simp: handle_generating_def Let_def split: if_splits)
  moreover have "to_token_ids out \<noteq> []" if "ae_parse env (to_token_ids out) \<noteq> []"
    using ok that by (auto simp: env_logprobs_ok_def)
  ultimately show ?thesis using i ps(2) by (auto simp: logprobs_inv_def)
qed

lemma agent_step_logprobs:
  assumes ok: "env_logprobs_ok env" and i: "logprobs_inv s" and r: "agent_step cfg env s = Inr s'"
  shows "logprobs_inv s'"
proof -
  obtain st ad where s: "s = (st, ad)" by (cases s)
  show ?thesis
  proof (cases st)
    case PENDING
    with i r s show ?thesis by (auto simp: agent_step_def handle_pending_def logprobs_inv_def)
  next
    case GENERATING
    then obtain ad' st' where g: "handle_generating cfg env False ad = Inr (ad', st')" "s' = (st', ad')"
      using r s by (auto simp: agent_step_def res_bind_eq_Inr)
    have "length (ad_response_logprobs ad) = length (ad_response_mask ad)" using i s by (simp add: logprobs_inv_def)
    from generating_logprobs[OF ok this g(1)] g(2) show ?thesis by simp
  next
    case PROCESSING_TOOLS
    then obtain ad' st' where g: "handle_processing_tools cfg env ad = Inr (ad', st')" "s' = (st', ad')"
      using r s by (auto simp: agent_step_def res_bind_eq_Inr)
    have h: "length (ad_response_logprobs ad) = length (ad_response_mask ad)" "ad_response_logprobs ad \<noteq> []"
      using i s PROCESSING_TOOLS by (simp_all add: logprobs_inv_def)
    from g(1) show ?thesis
    proof (rule processing_Inr)
      fix messages rewards ids images
      assume "append_tool_turn cfg ids images (ad\<lparr>ad_messages := ad_messages ad @ messages, ad_tool_rewards := rewards\<rparr>) = (ad', st')"
      then show ?thesis
        by (cases rule: append_tool_turn_cases) (use h g(2) in \<open>auto simp: logprobs_inv_def\<close>)
    qed
  next
    case TERMINATED
    with i r s show ?thesis by (auto simp: agent_step_def)
  qed
qed

lemma agent_loop_logprobs:
  "agent_loop fuel cfg env s = Some (Inr ad) \<Longrightarrow> env_logprobs_ok env \<Longrightarrow> logprobs_inv s \<Longrightarrow> logprobs_inv (TERMINATED, ad)"
proof (induction fuel arbitrary: s)
  case 0
  obtain st a where "s = (st, a)" by (cases s)
  with 0 show ?case by (cases "st = TERMINATED") (auto simp: agent_loop_unfold)
next
  case (Suc fuel)
  obtain st a where s: "s = (st, a)" by (cases s)
  show ?case
  proof (cases "st = TERMINATED")
    case True
    with Suc.prems s show ?thesis by simp
  next
    case False
    then obtain s' where s': "agent_step cfg env s = Inr s'" "agent_loop fuel cfg env s' = Some (Inr ad)"
      using Suc.prems(1) s by (auto simp: agent_loop_unfold split: sum.splits)
    from Suc.IH[OF s'(2) Suc.prems(2) agent_step_logprobs[OF Suc.prems(2,3) s'(1)]] show ?thesis .
  qed
qed

lemma agent_run_Inr:
  assumes "agent_run fuel cfg env messages images = Some (Inr out)"
  obtains ad where "agent_loop fuel cfg env (PENDING, agent_init messages images) = Some (Inr ad)" "out = agent_output_of cfg ad"
    "agent_inv cfg (ae_template env messages images False) (TERMINATED, ad)"
proof -
  obtain ad where a: "agent_loop fuel cfg env (PENDING, agent_init messages images) = Some (Inr ad)" "out = agent_output_of cfg ad"
    using assms by (auto simp: agent_run_def res_bind_eq_Inr)
  have "agent_inv cfg (ae_template env messages images False) (TERMINATED, ad)"
    by (rule agent_loop_inv[OF a(1) agent_init_inv]) (simp add: agent_init_def)
  with a that show thesis by blast
qed

section \<open>Properties\<close>

section \<open>The conversation behind an output\<close>

text \<open>
  The specification of a run: the turns alternate, turn \<open>2 * k\<close> being what the server generated at assistant turn \<open>k\<close> on the initial
  prompt followed by all earlier turns, and turn \<open>2 * k + 1\<close> the tokens of the answers of the tools to the calls
  parsed from the turn before it.
\<close>

definition tool_reply :: "agent_config \<Rightarrow> 'i agent_env \<Rightarrow> nat \<Rightarrow> int list \<Rightarrow> int list result" where
  "tool_reply cfg env k generated =
     (let calls = take (ac_max_parallel_calls cfg) (ae_parse env generated);
          responses = map (\<lambda>call. fst (call_tool (ac_max_tool_response_length cfg) (ac_truncate_side cfg) (ae_tools env k) call)) calls
      in res_bind (res_fold (process_response cfg) (zip responses calls) ([], [], [])) (\<lambda>(messages, images, _).
           Inr (tool_turn_tokens cfg env messages (map fc_name calls) images)))"

definition conversation :: "agent_config \<Rightarrow> 'i agent_env \<Rightarrow> int list \<Rightarrow> int list list \<Rightarrow> bool" where
  "conversation cfg env p0 turns \<longleftrightarrow> (\<forall>i < length turns.
     if even i then \<exists>out. ae_generate env (i div 2) (p0 @ concat (take i turns)) = Inr out \<and> turns ! i = to_token_ids out
     else tool_reply cfg env (i div 2) (turns ! (i - 1)) = Inr (turns ! i))"

definition turn_mask :: "int list list \<Rightarrow> int list" where
  "turn_mask turns = concat (map (\<lambda>(i, ids). replicate (length ids) (if even i then 1 else 0)) (enumerate 0 turns))"

lemma turn_mask_snoc: "turn_mask (turns @ [ids]) = turn_mask turns @ replicate (length ids) (if even (length turns) then 1 else 0)"
  by (simp add: turn_mask_def enumerate_append_eq)

lemma turn_mask_Nil [simp]: "turn_mask [] = []"
  by (simp add: turn_mask_def)

lemma length_turn_mask [simp]: "length (turn_mask turns) = length (concat turns)"
  by (induction turns rule: rev_induct) (auto simp: turn_mask_snoc)

lemma conversation_snoc:
  "conversation cfg env p0 (turns @ [ids]) \<longleftrightarrow> conversation cfg env p0 turns \<and>
     (if even (length turns) then \<exists>out. ae_generate env (length turns div 2) (p0 @ concat turns) = Inr out \<and> ids = to_token_ids out
      else tool_reply cfg env (length turns div 2) (last turns) = Inr ids)"
proof -
  let ?turn = "\<lambda>turns i. if even i then \<exists>out. ae_generate env (i div 2) (p0 @ concat (take i turns)) = Inr out \<and> turns ! i = to_token_ids out
     else tool_reply cfg env (i div 2) (turns ! (i - 1)) = Inr (turns ! i)"
  have "?turn (turns @ [ids]) i = ?turn turns i" if i: "i < length turns" for i
  proof -
    have "i - 1 < length turns" using i by simp
    then have "(turns @ [ids]) ! i = turns ! i" "(turns @ [ids]) ! (i - 1) = turns ! (i - 1)" "take i (turns @ [ids]) = take i turns"
      using i by (simp_all only: nth_append take_append) simp_all
    then show ?thesis by presburger
  qed
  moreover have "(turns @ [ids]) ! (length turns - 1) = last turns" if "odd (length turns)"
    using that by (cases turns rule: rev_cases) (auto simp: nth_append)
  ultimately show ?thesis
    unfolding conversation_def length_append_singleton All_less_Suc by (simp add: conj_commute)
qed

text \<open>The rewards that are already there have no influence on messages and images.\<close>

lemma process_rewards:
  "res_fold (process_response cfg) items (ms, is, rs) = Inr (ms', is', rs') \<Longrightarrow>
   \<exists>ws'. res_fold (process_response cfg) items (ms, is, ws) = Inr (ms', is', ws')"
proof (induction items arbitrary: ms "is" rs ws)
  case (Cons item items)
  obtain resp reward call where item: "item = ((resp, reward), call)" by (metis prod.exhaust)
  let ?w = "case reward of None \<Rightarrow> [] | Some r \<Rightarrow> [r]"
  from Cons.prems obtain m where m: "tool_message cfg resp call = Inr m" "\<not> list_truthy (tr_video resp)"
    by (auto simp: item process_response_def res_bind_eq_Inr split: if_splits)
  then have e: "process_response cfg item (ms, is, qs) = Inr (ms @ [m], is @ new_images resp, qs @ ?w)" for qs
    by (simp add: item process_response_def)
  from Cons.prems have "res_fold (process_response cfg) items (ms @ [m], is @ new_images resp, rs @ ?w) = Inr (ms', is', rs')"
    by (simp add: e)
  from Cons.IH[OF this, of "ws @ ?w"] show ?case by (simp add: e)
qed simp

lemma processing_reply:
  assumes "handle_processing_tools cfg env ad = Inr (ad', st)" "ad_tool_calls ad = ae_parse env generated"
  obtains messages rewards ids images where "tool_reply cfg env (ad_user_turns ad) generated = Inr ids"
    "append_tool_turn cfg ids images (ad\<lparr>ad_messages := ad_messages ad @ messages, ad_tool_rewards := rewards\<rparr>) = (ad', st)"
proof -
  let ?calls = "take (ac_max_parallel_calls cfg) (ae_parse env generated)"
  let ?resp = "map (\<lambda>call. fst (call_tool (ac_max_tool_response_length cfg) (ac_truncate_side cfg) (ae_tools env (ad_user_turns ad)) call)) ?calls"
  obtain messages images rewards where r:
      "res_fold (process_response cfg) (zip ?resp ?calls) ([], [], ad_tool_rewards ad) = Inr (messages, images, rewards)"
      "append_tool_turn cfg (tool_turn_tokens cfg env messages (map fc_name ?calls) images) images
         (ad\<lparr>ad_messages := ad_messages ad @ messages, ad_tool_rewards := rewards\<rparr>) = (ad', st)"
    using assms unfolding handle_processing_tools_def Let_def by (auto simp: res_bind_eq_Inr)
  from process_rewards[OF r(1), of "[]"] obtain ws where
      "res_fold (process_response cfg) (zip ?resp ?calls) ([], [], []) = Inr (messages, images, ws)" by blast
  then have "tool_reply cfg env (ad_user_turns ad) generated = Inr (tool_turn_tokens cfg env messages (map fc_name ?calls) images)"
    unfolding tool_reply_def Let_def by simp
  with r(2) that show thesis by blast
qed

definition conversation_inv :: "agent_config \<Rightarrow> 'i agent_env \<Rightarrow> int list \<Rightarrow> agent_state \<times> 'i agent_data \<Rightarrow> bool" where
  "conversation_inv cfg env p0 s = (case s of (st, ad) \<Rightarrow> st = PENDING \<and> ad_response_mask ad = [] \<or>
     st \<noteq> PENDING \<and> (\<exists>turns. ad_prompt_ids ad = p0 @ concat turns \<and> ad_response_mask ad = turn_mask turns \<and> conversation cfg env p0 turns \<and>
       length turns = ad_assistant_turns ad + ad_user_turns ad \<and>
       (st = PROCESSING_TOOLS \<longrightarrow> ad_tool_calls ad = ae_parse env (last turns))))"

lemma generating_conversation:
  assumes i: "agent_inv cfg p0 (GENERATING, ad)" and c: "conversation_inv cfg env p0 (GENERATING, ad)"
    and r: "handle_generating cfg env False ad = Inr (ad', st)"
  shows "conversation_inv cfg env p0 (st, ad')"
proof -
  obtain turns where t: "ad_prompt_ids ad = p0 @ concat turns" "ad_response_mask ad = turn_mask turns" "conversation cfg env p0 turns"
      "length turns = ad_assistant_turns ad + ad_user_turns ad"
    using c by (auto simp: conversation_inv_def)
  obtain out extra where out: "ae_generate env (ad_assistant_turns ad) (ad_prompt_ids ad) = Inr out"
      "merge_extra_fields (ad_extra_fields ad) (to_extra_fields out) = Inr extra"
    using r by (auto simp: handle_generating_def res_bind_eq_Inr)
  have f: "ad_prompt_ids ad' = ad_prompt_ids ad @ to_token_ids out" "ad_user_turns ad' = ad_user_turns ad"
      "ad_response_mask ad' = ad_response_mask ad @ replicate (length (to_token_ids out)) 1"
      "ad_assistant_turns ad' = ad_assistant_turns ad + 1" "st = PROCESSING_TOOLS \<Longrightarrow> ad_tool_calls ad' = ae_parse env (to_token_ids out)"
    using r out by (auto simp: handle_generating_def Let_def split: if_splits)
  have "ad_user_turns ad = ad_assistant_turns ad" using i by (simp add: agent_inv_def)
  then have e: "even (length turns)" "length turns div 2 = ad_assistant_turns ad" using t(4) by auto
  have "conversation cfg env p0 (turns @ [to_token_ids out])"
    using t(1,3) out(1) e by (auto simp: conversation_snoc)
  moreover have "st \<noteq> PENDING" using generating_step[OF i r] by auto
  ultimately show ?thesis
    unfolding conversation_inv_def using f t e(1)
    by (auto simp: turn_mask_snoc intro!: exI[of _ "turns @ [to_token_ids out]"])
qed

lemma processing_conversation:
  assumes i: "agent_inv cfg p0 (PROCESSING_TOOLS, ad)" and c: "conversation_inv cfg env p0 (PROCESSING_TOOLS, ad)"
    and r: "handle_processing_tools cfg env ad = Inr (ad', st)"
  shows "conversation_inv cfg env p0 (st, ad')"
proof -
  obtain turns where t: "ad_prompt_ids ad = p0 @ concat turns" "ad_response_mask ad = turn_mask turns" "conversation cfg env p0 turns"
      "length turns = ad_assistant_turns ad + ad_user_turns ad" "ad_tool_calls ad = ae_parse env (last turns)"
    using c by (auto simp: conversation_inv_def)
  have e: "odd (length turns)" "length turns div 2 = ad_user_turns ad" using i t(4) by (auto simp: agent_inv_def)
  from r t(5) show ?thesis
  proof (rule processing_reply)
    fix messages rewards ids images
    let ?ad = "ad\<lparr>ad_messages := ad_messages ad @ messages, ad_tool_rewards := rewards\<rparr>"
    assume ids: "tool_reply cfg env (ad_user_turns ad) (last turns) = Inr ids" and a: "append_tool_turn cfg ids images ?ad = (ad', st)"
    from a show ?thesis
    proof (cases rule: append_tool_turn_cases)
      case full
      with t(1,2,3,4) show ?thesis by (auto simp: conversation_inv_def)
    next
      case next_turn
      have "conversation cfg env p0 (turns @ [ids])" using t(3) ids e by (simp add: conversation_snoc)
      then show ?thesis
        unfolding conversation_inv_def using next_turn t e(1)
        by (auto simp: turn_mask_snoc intro!: exI[of _ "turns @ [ids]"])
    qed
  qed
qed

lemma step_conversation:
  assumes "agent_inv cfg p0 s" "conversation_inv cfg env p0 s" "agent_step cfg env s = Inr s'"
    and "fst s = PENDING \<longrightarrow> p0 = ae_template env (ad_messages (snd s)) (ad_image_data (snd s)) False"
  shows "conversation_inv cfg env p0 s'"
proof -
  obtain st ad where s: "s = (st, ad)" by (cases s)
  show ?thesis
  proof (cases st)
    case PENDING
    with s assms show ?thesis
      by (auto simp: agent_step_def handle_pending_def agent_inv_def conversation_inv_def conversation_def intro!: exI[of _ "[]"])
  next
    case GENERATING
    then obtain ad' st' where r: "handle_generating cfg env False ad = Inr (ad', st')" "s' = (st', ad')"
      using assms(3) s by (auto simp: agent_step_def res_bind_eq_Inr)
    from generating_conversation[OF _ _ r(1)] assms(1,2) s GENERATING r(2) show ?thesis by auto
  next
    case PROCESSING_TOOLS
    then obtain ad' st' where r: "handle_processing_tools cfg env ad = Inr (ad', st')" "s' = (st', ad')"
      using assms(3) s by (auto simp: agent_step_def res_bind_eq_Inr)
    from processing_conversation[OF _ _ r(1)] assms(1,2) s PROCESSING_TOOLS r(2) show ?thesis by auto
  next
    case TERMINATED
    with assms s show ?thesis by (auto simp: agent_step_def)
  qed
qed

lemma loop_conversation:
  "agent_loop fuel cfg env s = Some (Inr ad) \<Longrightarrow> agent_inv cfg p0 s \<Longrightarrow> conversation_inv cfg env p0 s \<Longrightarrow>
   (fst s = PENDING \<longrightarrow> p0 = ae_template env (ad_messages (snd s)) (ad_image_data (snd s)) False) \<Longrightarrow>
   conversation_inv cfg env p0 (TERMINATED, ad)"
proof (induction fuel arbitrary: s)
  case 0
  obtain st a where "s = (st, a)" by (cases s)
  with 0 show ?case by (cases "st = TERMINATED") (auto simp: agent_loop_unfold)
next
  case (Suc fuel)
  obtain st a where s: "s = (st, a)" by (cases s)
  show ?case
  proof (cases "st = TERMINATED")
    case True
    with Suc.prems s show ?thesis by simp
  next
    case False
    then obtain s' where s': "agent_step cfg env s = Inr s'" "agent_loop fuel cfg env s' = Some (Inr ad)"
      using Suc.prems(1) s by (auto simp: agent_loop_unfold split: sum.splits)
    note p = Suc.prems(4)
    from agent_step_inv[OF Suc.prems(2) s'(1) p] step_conversation[OF Suc.prems(2,3) s'(1) p] Suc.IH[OF s'(2)] show ?thesis by auto
  qed
qed

text \<open>
  C8: what \<open>run\<close> returns is aligned with the conversation it held. There are turns, alternately generated by the server (on
  the initial prompt and all earlier turns) and produced by the tools (from the calls parsed from the turn before),
  ending with a generated one, such that the mask is 1 exactly on the tokens the server generated and 0 on those of the tools, and the
  response is the tokens of the turns, both cut to \<open>response_length\<close>; the prompt is the initial prompt. When nothing was
  generated the mask is empty and the response is the prompt, since the slice \<open>prompt_ids[-0:]\<close> is all of it. With log
  probabilities for every generated token they are as long as the mask.
\<close>

theorem agent_output_aligned:
  assumes "agent_run fuel cfg env messages images = Some (Inr out)"
  shows "\<exists>turns. conversation cfg env (ae_template env messages images False) turns \<and> odd (length turns) \<and>
    ao_response_mask out = take (ac_response_length cfg) (turn_mask turns) \<and>
    ao_prompt_ids out = ae_template env messages images False \<and>
    ao_response_ids out = take (ac_response_length cfg)
      (if concat turns = [] then ae_template env messages images False else concat turns) \<and>
    length (ao_response_ids out) \<le> ac_response_length cfg \<and>
    (env_logprobs_ok env \<and> concat turns \<noteq> [] \<longrightarrow>
       (\<exists>ps. ao_response_logprobs out = Some ps \<and> length ps = length (ao_response_mask out)))"
  using assms
proof (rule agent_run_Inr)
  fix ad
  let ?p0 = "ae_template env messages images False"
  assume a: "agent_loop fuel cfg env (PENDING, agent_init messages images) = Some (Inr ad)" "out = agent_output_of cfg ad"
    "agent_inv cfg ?p0 (TERMINATED, ad)"
  have "conversation_inv cfg env ?p0 (TERMINATED, ad)"
    by (rule loop_conversation[OF a(1) agent_init_inv]) (simp_all add: conversation_inv_def agent_init_def)
  then obtain turns where t: "ad_prompt_ids ad = ?p0 @ concat turns" "ad_response_mask ad = turn_mask turns" "conversation cfg env ?p0 turns"
      "length turns = ad_assistant_turns ad + ad_user_turns ad"
    by (auto simp: conversation_inv_def)
  have o: "odd (length turns)" using a(3) t(4) by (auto simp: agent_inv_def)
  have lp: "length (ad_response_logprobs ad) = length (concat turns)" if "env_logprobs_ok env"
    using agent_loop_logprobs[OF a(1) that] t(2) by (simp add: logprobs_inv_def agent_init_def)
  have "\<exists>ps. ao_response_logprobs out = Some ps \<and> length ps = length (ao_response_mask out)"
    if "env_logprobs_ok env" "concat turns \<noteq> []"
  proof -
    have "ad_response_logprobs ad \<noteq> []" using lp that by force
    then show ?thesis using lp[OF that(1)] t(2) by (simp add: a(2) agent_output_of_def Let_def)
  qed
  with t o show ?thesis
    by (intro exI[of _ turns]) (auto simp del: concat_eq_Nil_conv simp: a(2) agent_output_of_def Let_def slice_from_end_def)
qed

definition demo_env :: "nat agent_env" where
  "demo_env = \<lparr>ae_template = (\<lambda>m i r. if r then [50, 51] else [1, 2]), ae_encode = (\<lambda>s. [60]),
     ae_generate = (\<lambda>n p. Inr (if n = 0 then empty_output\<lparr>to_token_ids := [10, 11], to_log_probs := Some [0, 0]\<rparr>
                              else empty_output\<lparr>to_token_ids := [12], to_log_probs := Some [0]\<rparr>)),
     ae_parse = (\<lambda>ids. if ids = [10, 11] then [\<lparr>fc_name = ''calc'', fc_arguments = ''x'', fc_id = None\<rparr>] else []),
     ae_tools = (\<lambda>n. \<lparr>te_tools = [(''calc'', Base_Tool)], te_names_repr = (\<lambda>_. []), te_json = Inr,
        te_function = (\<lambda>n a. Inl []), te_create = (\<lambda>n. Inr ''id1''),
        te_execute = (\<lambda>n i a. Inr (\<lparr>tr_text = Some ''4'', tr_image = None, tr_video = None\<rparr>, Some 1))\<rparr>),
     ae_content_repr = (\<lambda>_. [])\<rparr>"

definition demo_cfg :: agent_config where
  "demo_cfg = \<lparr>ac_max_user_turns = None, ac_max_assistant_turns = Some 3, ac_max_parallel_calls = 1, ac_max_tool_response_length = 10,
     ac_truncate_side = ''middle'', ac_parser_name = ''hermes'', ac_response_length = 20, ac_image_processor = False, ac_turn_separator = [9]\<rparr>"

lemma demo_agent_run:
  "\<exists>out. agent_run 6 demo_cfg demo_env [] None = Some (Inr out) \<and> ao_response_ids out = [10, 11, 9, 50, 51, 12] \<and>
     ao_response_mask out = [1, 1, 0, 0, 0, 1]"
  by (simp add: agent_run_def numeral_eq_Suc demo_cfg_def demo_env_def agent_step_def handle_pending_def agent_init_def
      handle_generating_def merge_extra_fields_def empty_output_def reached_def handle_processing_tools_def call_tool_def
      run_tool_def truncate_tool_text_def process_response_def tool_message_def list_truthy_def text_or_empty_def
      append_tool_turn_def tool_turn_tokens_def new_images_def agent_output_of_def slice_from_end_def Let_def)

theorem agent_output_aligned_witness:
  "\<exists>out turns. agent_run 6 demo_cfg demo_env [] None = Some (Inr out) \<and> ao_response_ids out = [10, 11, 9, 50, 51, 12] \<and>
     conversation demo_cfg demo_env [1, 2] turns \<and> ao_response_mask out = take 20 (turn_mask turns) \<and> ao_prompt_ids out = [1, 2]"
proof -
  obtain out where out: "agent_run 6 demo_cfg demo_env [] None = Some (Inr out)" "ao_response_ids out = [10, 11, 9, 50, 51, 12]"
    using demo_agent_run by blast
  have c: "ac_response_length demo_cfg = 20" "ae_template demo_env [] None False = [1, 2]"
    by (simp_all add: demo_cfg_def demo_env_def)
  from agent_output_aligned[OF out(1)] out show ?thesis unfolding c by blast
qed

text \<open>
  C9: the loop terminates: with a positive bound \<open>n\<close> on the assistant turns, \<open>2 * n\<close> steps are
  enough for every server, parser and tool.
\<close>

theorem agent_run_terminates:
  assumes "ac_max_assistant_turns cfg = Some n" "0 < n" "2 * n \<le> fuel"
  shows "\<exists>r. agent_run fuel cfg env messages images = Some r"
proof -
  have "\<exists>r. agent_loop fuel cfg env (PENDING, agent_init messages images) = Some r"
    by (rule agent_loop_terminates[OF assms(1,2) agent_init_inv]) (use assms(3) in \<open>simp_all add: agent_init_def\<close>)
  then show ?thesis by (auto simp: agent_run_def)
qed

theorem agent_run_terminates_witness:
  "\<exists>r. agent_run 6 demo_cfg demo_env [Input_Message ''hi''] None = Some r"
  by (rule agent_run_terminates[of _ 3]) (simp_all add: demo_cfg_def)

text \<open>
  The turn limits hold: a returned output counts between one and \<open>2 * n\<close> turns (the final
  assistant turn has no user turn after it), and the number of user turns respects its own limit.
\<close>

theorem agent_turn_limits:
  assumes "agent_run fuel cfg env messages images = Some (Inr out)"
  shows "\<exists>assistant_turns user_turns. ao_num_turns out = user_turns + assistant_turns + 1 \<and> assistant_turns = user_turns + 1 \<and>
    (\<forall>n. ac_max_assistant_turns cfg = Some n \<and> n \<noteq> 0 \<longrightarrow> assistant_turns \<le> n \<and> ao_num_turns out \<le> 2 * n) \<and>
    (\<forall>n. ac_max_user_turns cfg = Some n \<and> n \<noteq> 0 \<longrightarrow> user_turns \<le> n)"
  using assms
proof (rule agent_run_Inr)
  fix ad
  assume "out = agent_output_of cfg ad" "agent_inv cfg (ae_template env messages images False) (TERMINATED, ad)"
  then show ?thesis
    by (intro exI[of _ "ad_assistant_turns ad"] exI[of _ "ad_user_turns ad"])
      (auto simp: agent_output_of_def Let_def agent_inv_def within_limit_def)
qed

theorem agent_turn_limits_witness:
  "\<exists>out. agent_run 6 demo_cfg demo_env [] None = Some (Inr out) \<and> ao_num_turns out \<le> 2 * 3"
proof -
  obtain out where out: "agent_run 6 demo_cfg demo_env [] None = Some (Inr out)" using demo_agent_run by blast
  with agent_turn_limits[OF out] show ?thesis by (auto simp: demo_cfg_def)
qed

text \<open>
  When the model's only generation is empty, the output is misaligned: the slice
  \<open>prompt_ids[-0:]\<close> is the whole prompt, so the response holds the prompt's tokens and the mask is empty.
\<close>

theorem empty_generation_misaligned:
  "\<exists>out. agent_run 6 demo_cfg (demo_env\<lparr>ae_generate := (\<lambda>n p. Inr empty_output)\<rparr>) [] None = Some (Inr out) \<and>
     ao_prompt_ids out = [1, 2] \<and> ao_response_ids out = [1, 2] \<and> ao_response_mask out = []"
  by (simp add: agent_run_def numeral_eq_Suc demo_cfg_def demo_env_def agent_step_def handle_pending_def agent_init_def
      handle_generating_def merge_extra_fields_def empty_output_def reached_def agent_output_of_def slice_from_end_def Let_def)

text \<open>
  Calling a tool cleans up: an unknown name touches no tool, an instance with a non-empty id is
  released exactly once, after its execution and also when that raises; a successful answer keeps its
  reward and images, and its text is cut to at most the limit plus the marker (17 characters), for a limit
  of at least 2.
\<close>

theorem call_tool_contract:
  assumes "2 \<le> max_len" and "call_tool max_len side env call = ((response, reward), events)"
  shows "(map_of (te_tools env) (fc_name call) = None \<longrightarrow> events = []) \<and>
    (\<forall>inst. inst \<noteq> [] \<longrightarrow> Created inst \<in> set events \<longrightarrow> events = [Created inst, Executed inst, Released inst]) \<and>
    (\<forall>kind args resp rew. map_of (te_tools env) (fc_name call) = Some kind \<longrightarrow> te_json env (fc_arguments call) = Inr args \<longrightarrow>
       fst (run_tool env kind (fc_name call) args) = Inr (resp, rew) \<longrightarrow>
       reward = rew \<and> tr_image response = tr_image resp \<and> length (text_or_empty (tr_text response)) \<le> max_len + 17)"
proof -
  have t: "length (truncate_tool_text max_len side body) \<le> max_len + 17" for body
    using assms(1) by (auto simp: truncate_tool_text_def slice_from_end_def Let_def)
  have run: "events' = [Created inst, Executed inst, Released inst]"
    if "run_tool env kind name args = (r, events')" "inst \<noteq> []" "Created inst \<in> set events'" for kind name args r events' inst
    using that by (auto simp: run_tool_def split: tool_kind.splits sum.splits if_splits)
  have "events = [Created inst, Executed inst, Released inst]" if "inst \<noteq> []" "Created inst \<in> set events" for inst
    using assms(2) that run by (auto simp: call_tool_def split: option.splits sum.splits prod.splits)
  then show ?thesis using assms(2) t
    by (auto simp: call_tool_def text_or_empty_def split: option.splits sum.splits prod.splits)
qed

theorem call_tool_contract_witness:
  "\<exists>response reward events. call_tool 2 ''middle'' (ae_tools demo_env 0) \<lparr>fc_name = ''calc'', fc_arguments = ''x'', fc_id = None\<rparr>
     = ((response, reward), events) \<and> events = [Created ''id1'', Executed ''id1'', Released ''id1'']"
proof -
  let ?call = "\<lparr>fc_name = ''calc'', fc_arguments = ''x'', fc_id = None\<rparr>"
  obtain response reward events where r: "call_tool 2 ''middle'' (ae_tools demo_env 0) ?call = ((response, reward), events)"
    by (metis prod.exhaust)
  then have "Created ''id1'' \<in> set events" by (auto simp: demo_env_def call_tool_def run_tool_def)
  with call_tool_contract[OF _ r] r show ?thesis by auto
qed

text \<open>
  The middle truncation with a limit of 1 does not truncate: half of the limit is 0 and
  \<open>text[-0:]\<close> is the whole text, so every text longer than one character comes back longer than it was.
\<close>

theorem middle_truncation_grows:
  "1 < length text_ids \<longrightarrow> truncate_tool_text 1 ''middle'' text_ids = ''...(truncated)...'' @ text_ids"
  by (auto simp: truncate_tool_text_def slice_from_end_def Let_def)

theorem middle_truncation_grows_witness:
  "truncate_tool_text 1 ''middle'' ''abc'' = ''...(truncated)...abc''"
  using middle_truncation_grows[of "''abc''"] by simp

end
