(* ===== verification/Parameter_Policy.thy ===== *)
theory Parameter_Policy
  imports Prelude
begin

text \<open>
  Localized training of mixture-of-experts models, \<open>verl/utils/parameter_update_policy.py\<close>: for each
  supported architecture the freezing and re-enabling of parameters and the audit by category,
  then the dispatch on the model type and the strict validation. PyTorch and transformers are outside
  the repository: a model is the data their documented queries return (\<open>named_modules()\<close>,
  \<open>parameters()\<close>, the classes of a module, its submodules \<open>gate\<close>, \<open>router\<close> and \<open>experts\<close>). The
  \<open>requires_grad\<close> flags are the state, indexed by the identity of the parameter, so tied
  parameters share their flag.
\<close>

section \<open>Models\<close>

record param =
  p_id :: nat
  p_numel :: nat

record nn_module =
  m_name :: string
  m_classes :: "string list"
  m_params :: "param list"
  m_subs :: "(string, param list) dict"

record nn_model =
  nm_modules :: "nn_module list"
  nm_params :: "param list"
  nm_config_type :: "string option"
  nm_text_config_type :: "string option"

type_synonym grads = "nat \<Rightarrow> bool"

definition is_instance :: "nn_module \<Rightarrow> string \<Rightarrow> bool" where
  "is_instance m cls \<longleftrightarrow> cls \<in> set (m_classes m)"

definition sub_params :: "nn_module \<Rightarrow> string \<Rightarrow> param list" where
  "sub_params m attr = dict_get (m_subs m) attr []"

definition has_sub :: "nn_module \<Rightarrow> string \<Rightarrow> bool" where
  "has_sub m attr \<longleftrightarrow> attr \<in> fst ` set (m_subs m)"

definition set_requires_grad :: "param list \<Rightarrow> bool \<Rightarrow> grads \<Rightarrow> grads" where
  "set_requires_grad params v rg = fold (\<lambda>p rg. rg(p_id p := v)) params rg"

definition module_total_numel :: "nn_module option \<Rightarrow> nat" where
  "module_total_numel m = (case m of None \<Rightarrow> 0 | Some m \<Rightarrow> sum_list (map p_numel (m_params m)))"

definition module_trainable_numel :: "grads \<Rightarrow> nn_module option \<Rightarrow> nat" where
  "module_trainable_numel rg m = (case m of None \<Rightarrow> 0
     | Some m \<Rightarrow> sum_list (map p_numel (filter (\<lambda>p. rg (p_id p)) (m_params m))))"

definition trainable_parameters :: "nn_model \<Rightarrow> grads \<Rightarrow> param list" where
  "trainable_parameters model rg = filter (\<lambda>p. rg (p_id p)) (nm_params model)"

section \<open>The audit\<close>

record category_counts =
  cc_trainable :: nat
  cc_total :: nat

type_synonym categories = "(string, category_counts) dict"

definition zero_counts :: category_counts where
  "zero_counts = \<lparr>cc_trainable = 0, cc_total = 0\<rparr>"

definition category_names :: "string list" where
  "category_names = [''attention'', ''experts'', ''router'', ''norm'', ''embedding'', ''lm_head'']"

definition empty_categories :: categories where
  "empty_categories = map (\<lambda>name. (name, zero_counts)) category_names"

text \<open>The local function \<open>add\<close> for one parameter: it is counted once, in the first category that reaches it.\<close>

definition audit_param :: "grads \<Rightarrow> string \<Rightarrow> param \<Rightarrow> categories \<times> nat list \<Rightarrow> categories \<times> nat list" where
  "audit_param rg category p st = (case st of (cats, seen) \<Rightarrow>
     if p_id p \<in> set seen then (cats, seen)
     else
       (let c = dict_get cats category zero_counts;
            c' = \<lparr>cc_trainable = cc_trainable c + (if rg (p_id p) then p_numel p else 0), cc_total = cc_total c + p_numel p\<rparr>
        in (AList.update category c' cats, p_id p # seen)))"

definition audit_add :: "grads \<Rightarrow> string \<times> param list \<Rightarrow> categories \<times> nat list \<Rightarrow> categories \<times> nat list" where
  "audit_add rg entry st = (case entry of (category, params) \<Rightarrow> fold (audit_param rg category) params st)"

record audit_summary =
  as_mode :: string
  as_total :: nat
  as_trainable :: nat
  as_frozen :: int
  as_ratio :: rat
  as_categories :: categories

definition build_audit_summary :: "string \<Rightarrow> categories \<Rightarrow> audit_summary" where
  "build_audit_summary mode cats =
     (let total = sum_list (map (cc_total \<circ> snd) cats); trainable = sum_list (map (cc_trainable \<circ> snd) cats)
      in \<lparr>as_mode = mode, as_total = total, as_trainable = trainable, as_frozen = int total - int trainable,
          as_ratio = (if total > 0 then of_nat trainable / of_nat total else 0), as_categories = cats\<rparr>)"

definition run_audit :: "(nn_module \<Rightarrow> (string \<times> param list) list) \<Rightarrow> nn_model \<Rightarrow> grads \<Rightarrow> string \<Rightarrow> audit_summary" where
  "run_audit entries model rg mode =
     build_audit_summary mode (fst (fold (audit_add rg) (concat (map entries (nm_modules model))) (empty_categories, [])))"

text \<open>The start of every policy: everything on in full mode, everything frozen otherwise.\<close>

definition initial_grads :: "nn_model \<Rightarrow> string \<Rightarrow> grads \<Rightarrow> grads" where
  "initial_grads model mode rg = set_requires_grad (nm_params model) (mode = ''full'') rg"

definition is_embedding :: "nn_module \<Rightarrow> bool" where
  "is_embedding m \<longleftrightarrow> ends_with ''embed_tokens'' (m_name m) \<and> is_instance m ''nn.Embedding''"

definition is_lm_head :: "nn_module \<Rightarrow> bool" where
  "is_lm_head m \<longleftrightarrow> m_name m = ''lm_head'' \<or> ends_with ''lm_head'' (m_name m)"

definition is_attention_internal_norm :: "string \<Rightarrow> bool" where
  "is_attention_internal_norm name \<longleftrightarrow> str_contains ''.self_attn.'' (''.'' @ name @ ''.'')"

section \<open>OLMoE\<close>

definition olmoe_enable :: "string \<Rightarrow> nn_module \<Rightarrow> grads \<Rightarrow> grads" where
  "olmoe_enable mode m rg =
     (if mode = ''moe'' \<or> mode = ''experts_only'' then
        (if is_instance m ''OlmoeSparseMoeBlock'' then
           (let rg1 = (if mode = ''moe'' \<and> has_sub m ''gate'' then set_requires_grad (sub_params m ''gate'') True rg else rg)
            in if has_sub m ''experts'' then set_requires_grad (sub_params m ''experts'') True rg1 else rg1)
         else rg)
      else if mode = ''attention_only'' then
        (if is_instance m ''OlmoeAttention'' then set_requires_grad (m_params m) True rg else rg)
      else rg)"

definition olmoe_entries :: "nn_module \<Rightarrow> (string \<times> param list) list" where
  "olmoe_entries m =
     (if is_embedding m then [(''embedding'', m_params m)]
      else if is_lm_head m then (if is_instance m ''nn.Linear'' then [(''lm_head'', m_params m)] else [])
      else if is_instance m ''OlmoeSparseMoeBlock'' then
        (if has_sub m ''gate'' then [(''router'', sub_params m ''gate'')] else []) @
        (if has_sub m ''experts'' then [(''experts'', sub_params m ''experts'')] else [])
      else if is_instance m ''OlmoeAttention'' then [(''attention'', m_params m)]
      else if is_instance m ''OlmoeRMSNorm'' then
        [(if is_attention_internal_norm (m_name m) then ''attention'' else ''norm'', m_params m)]
      else [])"

definition apply_olmoe_policy :: "(string \<Rightarrow> bool) \<Rightarrow> nn_model \<Rightarrow> string \<Rightarrow> grads \<Rightarrow> (grads \<times> audit_summary) result" where
  "apply_olmoe_policy available model mode rg =
     (if \<not> available ''olmoe'' then Inl ImportError
      else
        (let rg1 = fold (olmoe_enable mode) (nm_modules model) (initial_grads model mode rg)
         in Inr (rg1, run_audit olmoe_entries model rg1 mode)))"

definition is_olmoe_model :: "(string \<Rightarrow> bool) \<Rightarrow> nn_model \<Rightarrow> bool" where
  "is_olmoe_model available model \<longleftrightarrow>
     available ''olmoe'' \<and> (\<exists>m \<in> set (nm_modules model). is_instance m ''OlmoeForCausalLM'')"

section \<open>Gemma 4\<close>

definition gemma4_enable :: "string \<Rightarrow> nn_module \<Rightarrow> grads \<Rightarrow> grads" where
  "gemma4_enable mode m rg =
     (if mode = ''moe'' \<or> mode = ''experts_only'' then
        (if is_instance m ''Gemma4TextRouter'' then
           (if mode = ''moe'' then set_requires_grad (m_params m) True rg else rg)
         else if is_instance m ''Gemma4TextExperts'' then set_requires_grad (m_params m) True rg
         else rg)
      else if mode = ''attention_only'' then
        (if is_instance m ''Gemma4TextAttention'' then set_requires_grad (m_params m) True rg else rg)
      else rg)"

definition gemma4_entries :: "nn_module \<Rightarrow> (string \<times> param list) list" where
  "gemma4_entries m =
     (if is_embedding m then [(''embedding'', m_params m)]
      else if is_lm_head m then (if is_instance m ''nn.Linear'' then [(''lm_head'', m_params m)] else [])
      else if is_instance m ''Gemma4TextExperts'' then [(''experts'', m_params m)]
      else if is_instance m ''Gemma4TextRouter'' then [(''router'', m_params m)]
      else if is_instance m ''Gemma4TextAttention'' then [(''attention'', m_params m)]
      else if is_instance m ''Gemma4RMSNorm'' then [(''norm'', m_params m)]
      else [])"

definition apply_gemma4_policy :: "(string \<Rightarrow> bool) \<Rightarrow> nn_model \<Rightarrow> string \<Rightarrow> grads \<Rightarrow> (grads \<times> audit_summary) result" where
  "apply_gemma4_policy available model mode rg =
     (if \<not> available ''gemma4'' then Inl ImportError
      else
        (let rg1 = fold (gemma4_enable mode) (nm_modules model) (initial_grads model mode rg)
         in Inr (rg1, run_audit gemma4_entries model rg1 mode)))"

definition is_gemma4_model :: "(string \<Rightarrow> bool) \<Rightarrow> nn_model \<Rightarrow> bool" where
  "is_gemma4_model available model \<longleftrightarrow>
     (available ''gemma4'' \<and>
        (\<exists>m \<in> set (nm_modules model). is_instance m ''Gemma4ForConditionalGeneration'' \<or> is_instance m ''Gemma4TextAttention'')) \<or>
     nm_config_type model = Some ''gemma4'' \<or>
     nm_text_config_type model \<in> {Some ''gemma4_text'', Some ''gemma4''}"

section \<open>GPT-OSS\<close>

definition gpt_oss_enable :: "string \<Rightarrow> nn_module \<Rightarrow> grads \<Rightarrow> grads" where
  "gpt_oss_enable mode m rg =
     (if mode = ''moe'' \<or> mode = ''experts_only'' then
        (if is_instance m ''GptOssMLP'' then
           (let rg1 = (if mode = ''moe'' \<and> has_sub m ''router'' then set_requires_grad (sub_params m ''router'') True rg else rg)
            in if has_sub m ''experts'' then set_requires_grad (sub_params m ''experts'') True rg1 else rg1)
         else rg)
      else if mode = ''attention_only'' then
        (if is_instance m ''GptOssAttention'' then set_requires_grad (m_params m) True rg else rg)
      else rg)"

definition gpt_oss_entries :: "nn_module \<Rightarrow> (string \<times> param list) list" where
  "gpt_oss_entries m =
     (if is_embedding m then [(''embedding'', m_params m)]
      else if is_lm_head m then (if is_instance m ''nn.Linear'' then [(''lm_head'', m_params m)] else [])
      else if is_instance m ''GptOssMLP'' then
        (if has_sub m ''router'' then [(''router'', sub_params m ''router'')] else []) @
        (if has_sub m ''experts'' then [(''experts'', sub_params m ''experts'')] else [])
      else if is_instance m ''GptOssAttention'' then [(''attention'', m_params m)]
      else if is_instance m ''GptOssRMSNorm'' then [(''norm'', m_params m)]
      else [])"

definition apply_gpt_oss_policy :: "(string \<Rightarrow> bool) \<Rightarrow> nn_model \<Rightarrow> string \<Rightarrow> grads \<Rightarrow> (grads \<times> audit_summary) result" where
  "apply_gpt_oss_policy available model mode rg =
     (if \<not> available ''gpt_oss'' then Inl ImportError
      else
        (let rg1 = fold (gpt_oss_enable mode) (nm_modules model) (initial_grads model mode rg)
         in Inr (rg1, run_audit gpt_oss_entries model rg1 mode)))"

definition is_gpt_oss_model :: "(string \<Rightarrow> bool) \<Rightarrow> nn_model \<Rightarrow> bool" where
  "is_gpt_oss_model available model \<longleftrightarrow>
     available ''gpt_oss'' \<and> (\<exists>m \<in> set (nm_modules model). is_instance m ''GptOssForCausalLM'')"

section \<open>Qwen3-MoE\<close>

definition qwen3_enable :: "string \<Rightarrow> nn_module \<Rightarrow> grads \<Rightarrow> grads" where
  "qwen3_enable mode m rg =
     (if mode = ''moe'' \<or> mode = ''experts_only'' then
        (if is_instance m ''Qwen3MoeSparseMoeBlock'' then
           (let rg1 = (if mode = ''moe'' \<and> has_sub m ''gate'' then set_requires_grad (sub_params m ''gate'') True rg else rg)
            in if has_sub m ''experts'' then set_requires_grad (sub_params m ''experts'') True rg1 else rg1)
         else rg)
      else if mode = ''attention_only'' then
        (if is_instance m ''Qwen3MoeAttention'' then set_requires_grad (m_params m) True rg else rg)
      else rg)"

definition qwen3_entries :: "nn_module \<Rightarrow> (string \<times> param list) list" where
  "qwen3_entries m =
     (if is_embedding m then [(''embedding'', m_params m)]
      else if is_lm_head m then (if is_instance m ''nn.Linear'' then [(''lm_head'', m_params m)] else [])
      else if is_instance m ''Qwen3MoeSparseMoeBlock'' then
        (if has_sub m ''gate'' then [(''router'', sub_params m ''gate'')] else []) @
        (if has_sub m ''experts'' then [(''experts'', sub_params m ''experts'')] else [])
      else if is_instance m ''Qwen3MoeAttention'' then [(''attention'', m_params m)]
      else if is_instance m ''Qwen3MoeRMSNorm'' then
        [(if is_attention_internal_norm (m_name m) then ''attention'' else ''norm'', m_params m)]
      else [])"

definition apply_qwen3_moe_policy :: "(string \<Rightarrow> bool) \<Rightarrow> nn_model \<Rightarrow> string \<Rightarrow> grads \<Rightarrow> (grads \<times> audit_summary) result" where
  "apply_qwen3_moe_policy available model mode rg =
     (if \<not> available ''qwen3_moe'' then Inl ImportError
      else
        (let rg1 = fold (qwen3_enable mode) (nm_modules model) (initial_grads model mode rg)
         in Inr (rg1, run_audit qwen3_entries model rg1 mode)))"

definition is_qwen3_moe_model :: "(string \<Rightarrow> bool) \<Rightarrow> nn_model \<Rightarrow> bool" where
  "is_qwen3_moe_model available model \<longleftrightarrow>
     (available ''qwen3_moe'' \<and> (\<exists>m \<in> set (nm_modules model). is_instance m ''Qwen3MoeForCausalLM'')) \<or>
     nm_config_type model = Some ''qwen3_moe''"

section \<open>Dispatch and strict validation\<close>

definition model_parameter_policies ::
  "(string \<times> ((string \<Rightarrow> bool) \<Rightarrow> nn_model \<Rightarrow> bool) \<times> ((string \<Rightarrow> bool) \<Rightarrow> nn_model \<Rightarrow> string \<Rightarrow> grads \<Rightarrow> (grads \<times> audit_summary) result)) list" where
  "model_parameter_policies =
     [(''olmoe'', is_olmoe_model, apply_olmoe_policy), (''gemma4'', is_gemma4_model, apply_gemma4_policy),
      (''gpt_oss'', is_gpt_oss_model, apply_gpt_oss_policy), (''qwen3_moe'', is_qwen3_moe_model, apply_qwen3_moe_policy)]"

definition detect_model_type :: "(string \<Rightarrow> bool) \<Rightarrow> nn_model \<Rightarrow> string option" where
  "detect_model_type available model =
     (case filter (\<lambda>(name, is_model, apply_policy). is_model available model) model_parameter_policies of
        [] \<Rightarrow> None | (name, _) # _ \<Rightarrow> Some name)"

definition valid_modes :: "string list" where
  "valid_modes = [''full'', ''moe'', ''experts_only'', ''attention_only'']"

definition trainable_of :: "categories \<Rightarrow> string \<Rightarrow> nat" where
  "trainable_of cats name = cc_trainable (dict_get cats name zero_counts)"

definition strict_validate :: "categories \<Rightarrow> string \<Rightarrow> unit result" where
  "strict_validate cats mode =
     (if mode = ''full'' then
        py_assert (\<forall>(name, c) \<in> set cats. \<not> (cc_total c > 0 \<and> cc_trainable c \<noteq> cc_total c))
      else if mode = ''attention_only'' then
        res_bind (py_assert (trainable_of cats ''attention'' > 0)) (\<lambda>_.
          py_assert (\<forall>name \<in> {''experts'', ''router'', ''norm'', ''embedding'', ''lm_head''}. trainable_of cats name = 0))
      else
        res_bind (py_assert (\<forall>name \<in> {''attention'', ''norm'', ''embedding'', ''lm_head''}. trainable_of cats name = 0)) (\<lambda>_.
        res_bind (py_assert (trainable_of cats ''experts'' > 0)) (\<lambda>_.
          if mode = ''moe'' then py_assert (trainable_of cats ''router'' > 0)
          else if mode = ''experts_only'' then py_assert (trainable_of cats ''router'' = 0)
          else Inr ())))"

definition apply_parameter_update_policy ::
  "(string \<Rightarrow> bool) \<Rightarrow> nn_model \<Rightarrow> string \<Rightarrow> bool \<Rightarrow> grads \<Rightarrow> (grads \<times> audit_summary \<times> string option) result" where
  "apply_parameter_update_policy available model mode strict rg =
     (if mode \<notin> set valid_modes then Inl ValueError
      else
        (case detect_model_type available model of
           None \<Rightarrow>
             if mode \<noteq> ''full'' then Inl ValueError
             else Inr (set_requires_grad (nm_params model) True rg, build_audit_summary mode empty_categories, None)
         | Some model_type \<Rightarrow>
             (case map_of model_parameter_policies model_type of
                None \<Rightarrow> Inl KeyError
              | Some (_, apply_policy) \<Rightarrow>
                  res_bind (apply_policy available model mode rg) (\<lambda>(rg1, summary).
                  res_bind (if strict then strict_validate (as_categories summary) mode else Inr ()) (\<lambda>_.
                    Inr (rg1, summary\<lparr>as_mode := mode\<rparr>, Some model_type))))))"

section \<open>Flags\<close>

lemma set_requires_grad_iff: "set_requires_grad params v rg i = (if i \<in> p_id ` set params then v else rg i)"
  unfolding set_requires_grad_def by (induction params arbitrary: rg) auto

lemma fold_enable_iff:
  assumes "\<And>m rg. m \<in> set ms \<Longrightarrow> f m rg = set_requires_grad (t m) True rg"
  shows "fold f ms rg i \<longleftrightarrow> rg i \<or> (\<exists>m \<in> set ms. i \<in> p_id ` set (t m))"
  using assms by (induction ms arbitrary: rg) (auto simp: set_requires_grad_iff)

section \<open>What an audit counts\<close>

lemma sum_update:
  fixes f :: "'v \<Rightarrow> nat"
  assumes "dict_wf d" "map_of d k = Some w"
  shows "sum_list (map (f \<circ> snd) (AList.update k v d)) + f w = sum_list (map (f \<circ> snd) d) + f v"
  using assms by (induction d) (auto simp: dict_wf_def split: if_splits)

lemma dict_get_keys: "dict_wf d \<Longrightarrow> map (\<lambda>k. dict_get d k v) (map fst d) = map snd d"
  by (auto simp: dict_get_def dict_wf_def)

lemma keys_update_in: "k \<in> fst ` set d \<Longrightarrow> map fst (AList.update k v d) = map fst d"
  by (induction d) auto

definition audit_inv :: "grads \<Rightarrow> (nat \<Rightarrow> nat) \<Rightarrow> categories \<times> nat list \<Rightarrow> bool" where
  "audit_inv rg num st = (case st of (cats, seen) \<Rightarrow>
     map fst cats = category_names \<and> distinct seen \<and>
     (\<forall>c \<in> snd ` set cats. cc_trainable c \<le> cc_total c) \<and>
     ((\<forall>i \<in> set seen. rg i) \<longrightarrow> (\<forall>c \<in> snd ` set cats. cc_trainable c = cc_total c)) \<and>
     sum_list (map (cc_total \<circ> snd) cats) = sum_list (map num seen) \<and>
     sum_list (map (cc_trainable \<circ> snd) cats) = sum_list (map num (filter rg seen)))"

lemma audit_param_step:
  assumes i: "audit_inv rg num st" and c: "category \<in> set category_names" and n: "p_numel p = num (p_id p)"
  shows "audit_inv rg num (audit_param rg category p st) \<and> set (snd (audit_param rg category p st)) = insert (p_id p) (set (snd st))"
proof -
  obtain cats seen where st: "st = (cats, seen)" by (cases st)
  show ?thesis
  proof (cases "p_id p \<in> set seen")
    case True
    with i st show ?thesis by (auto simp: audit_param_def)
  next
    case False
    have k: "map fst cats = category_names" using i st by (simp add: audit_inv_def)
    then have key: "category \<in> fst ` set cats" using c by (metis list.set_map)
    then obtain w where w: "map_of cats category = Some w" by (metis domIff dom_map_of_conv_image_fst option.exhaust)
    have wf: "dict_wf cats" unfolding dict_wf_def k by (simp add: category_names_def)
    have wc: "w \<in> snd ` set cats" using map_of_SomeD[OF w] by force
    let ?w = "\<lparr>cc_trainable = cc_trainable w + (if rg (p_id p) then p_numel p else 0), cc_total = cc_total w + p_numel p\<rparr>"
    have r: "audit_param rg category p st = (AList.update category ?w cats, p_id p # seen)"
      using False w by (simp add: audit_param_def st dict_get_def Let_def)
    have vals: "x \<in> insert ?w (snd ` set cats)" if "x \<in> snd ` set (AList.update category ?w cats)" for x
      using that by (induction cats) (auto split: if_splits)
    have "\<forall>c \<in> snd ` set (AList.update category ?w cats). cc_trainable c \<le> cc_total c"
      using vals i wc by (fastforce simp: audit_inv_def st)
    moreover have "\<forall>c \<in> snd ` set (AList.update category ?w cats). cc_trainable c = cc_total c" if "\<forall>i \<in> set (p_id p # seen). rg i"
    proof
      fix c assume "c \<in> snd ` set (AList.update category ?w cats)"
      then have "c = ?w \<or> c \<in> snd ` set cats" using vals by blast
      moreover have all: "\<forall>c \<in> snd ` set cats. cc_trainable c = cc_total c" using i that unfolding audit_inv_def st by simp
      moreover have "cc_trainable ?w = cc_total ?w" using bspec[OF all wc] that by simp
      ultimately show "cc_trainable c = cc_total c" by metis
    qed
    moreover have "sum_list (map (cc_total \<circ> snd) (AList.update category ?w cats)) = sum_list (map num (p_id p # seen))"
      using sum_update[OF wf w, of cc_total ?w] i n by (simp add: audit_inv_def st)
    moreover have "sum_list (map (cc_trainable \<circ> snd) (AList.update category ?w cats)) = sum_list (map num (filter rg (p_id p # seen)))"
      using sum_update[OF wf w, of cc_trainable ?w] i n by (simp add: audit_inv_def st)
    moreover have "map fst (AList.update category ?w cats) = category_names" using keys_update_in[OF key] k by simp
    ultimately show ?thesis using i False unfolding r by (simp add: audit_inv_def st)
  qed
qed

lemma audit_params_fold:
  "audit_inv rg num st \<Longrightarrow> category \<in> set category_names \<Longrightarrow> \<forall>p \<in> set ps. p_numel p = num (p_id p) \<Longrightarrow>
   audit_inv rg num (fold (audit_param rg category) ps st) \<and>
   set (snd (fold (audit_param rg category) ps st)) = p_id ` set ps \<union> set (snd st)"
proof (induction ps arbitrary: st)
  case (Cons p ps)
  have "audit_inv rg num (audit_param rg category p st)" "set (snd (audit_param rg category p st)) = insert (p_id p) (set (snd st))"
    using audit_param_step[of rg num st category p] Cons.prems by auto
  with Cons.IH[of "audit_param rg category p st"] Cons.prems show ?case by auto
qed simp

lemma audit_entries_fold:
  "audit_inv rg num st \<Longrightarrow> \<forall>(c, ps) \<in> set es. c \<in> set category_names \<and> (\<forall>p \<in> set ps. p_numel p = num (p_id p)) \<Longrightarrow>
   audit_inv rg num (fold (audit_add rg) es st) \<and>
   set (snd (fold (audit_add rg) es st)) = (\<Union>(c, ps) \<in> set es. p_id ` set ps) \<union> set (snd st)"
proof (induction es arbitrary: st)
  case (Cons e es)
  obtain c ps where e: "e = (c, ps)" by (cases e)
  have "audit_inv rg num (audit_add rg e st)" "set (snd (audit_add rg e st)) = p_id ` set ps \<union> set (snd st)"
    using audit_params_fold[of rg num st c ps] Cons.prems by (auto simp: audit_add_def e)
  with Cons.IH[of "audit_add rg e st"] Cons.prems e show ?case by auto
qed simp

lemma audit_inv_start: "audit_inv rg num (empty_categories, [])"
  by (simp add: audit_inv_def empty_categories_def category_names_def zero_counts_def)

text \<open>
  A model as PyTorch presents it: \<open>parameters()\<close> lists every parameter once, and what a module or
  submodule holds is among them.
\<close>

definition model_wf :: "nn_model \<Rightarrow> bool" where
  "model_wf model \<longleftrightarrow> distinct (map p_id (nm_params model)) \<and>
     (\<forall>m \<in> set (nm_modules model). set (m_params m) \<subseteq> set (nm_params model) \<and>
        (\<forall>(attr, ps) \<in> set (m_subs m). set ps \<subseteq> set (nm_params model)))"

definition numel_of_id :: "nn_model \<Rightarrow> nat \<Rightarrow> nat" where
  "numel_of_id model i = (case map_of (map (\<lambda>p. (p_id p, p_numel p)) (nm_params model)) i of None \<Rightarrow> 0 | Some n \<Rightarrow> n)"

lemma numel_of_id: "model_wf model \<Longrightarrow> p \<in> set (nm_params model) \<Longrightarrow> numel_of_id model (p_id p) = p_numel p"
proof -
  assume wf: "model_wf model" and p: "p \<in> set (nm_params model)"
  have "map_of (map (\<lambda>p. (p_id p, p_numel p)) (nm_params model)) (p_id p) = Some (p_numel p)"
    using wf p by (intro map_of_is_SomeI) (auto simp: model_wf_def comp_def)
  then show ?thesis by (simp add: numel_of_id_def)
qed

lemma sub_params_in: "model_wf model \<Longrightarrow> m \<in> set (nm_modules model) \<Longrightarrow> set (sub_params m attr) \<subseteq> set (nm_params model)"
proof (cases "map_of (m_subs m) attr")
  case (Some ps)
  assume "model_wf model" "m \<in> set (nm_modules model)"
  moreover have "(attr, ps) \<in> set (m_subs m)" using Some by (rule map_of_SomeD)
  ultimately have "set ps \<subseteq> set (nm_params model)" unfolding model_wf_def by blast
  then show ?thesis using Some by (simp add: sub_params_def dict_get_def)
qed (simp add: sub_params_def dict_get_def)

lemma sum_over_ids:
  fixes num :: "nat \<Rightarrow> nat"
  assumes "distinct seen"
  shows "sum_list (map num (filter rg seen)) = sum num {i \<in> set seen. rg i}"
  using assms by (simp add: sum_list_distinct_conv_sum_set)

lemma trainable_numel_sum:
  assumes "model_wf model"
  shows "sum_list (map p_numel (trainable_parameters model rg)) = sum (numel_of_id model) {i \<in> p_id ` set (nm_params model). rg i}"
proof -
  have d: "distinct (map p_id (nm_params model))" using assms by (simp add: model_wf_def)
  have "map p_numel (trainable_parameters model rg) = map (numel_of_id model) (map p_id (trainable_parameters model rg))"
    using assms by (auto simp: trainable_parameters_def numel_of_id)
  moreover have "distinct (map p_id (trainable_parameters model rg))"
    using d by (simp add: trainable_parameters_def distinct_map_filter)
  moreover have "set (map p_id (trainable_parameters model rg)) = {i \<in> p_id ` set (nm_params model). rg i}"
    by (auto simp: trainable_parameters_def)
  ultimately show ?thesis by (metis sum_list_distinct_conv_sum_set)
qed

section \<open>The interface of a policy\<close>

text \<open>
  Every architecture has the same contract: enabling a module turns on its target parameters, and
  the audit has an entry for each target of a module with an ordinary name and a single role.
\<close>

definition plain_module :: "string list \<Rightarrow> nn_module \<Rightarrow> bool" where
  "plain_module roles m \<longleftrightarrow> \<not> is_embedding m \<and> \<not> is_lm_head m \<and> length (filter (is_instance m) roles) \<le> 1"

locale moe_policy =
  fixes family :: string
    and roles :: "string list"
    and apply_policy :: "(string \<Rightarrow> bool) \<Rightarrow> nn_model \<Rightarrow> string \<Rightarrow> grads \<Rightarrow> (grads \<times> audit_summary) result"
    and enable :: "string \<Rightarrow> nn_module \<Rightarrow> grads \<Rightarrow> grads"
    and entries :: "nn_module \<Rightarrow> (string \<times> param list) list"
    and targets :: "string \<Rightarrow> nn_module \<Rightarrow> (string \<times> param list) list"
  assumes apply_eq: "apply_policy available model mode rg = (if \<not> available family then Inl ImportError
      else (let rg1 = fold (enable mode) (nm_modules model) (initial_grads model mode rg)
            in Inr (rg1, run_audit entries model rg1 mode)))"
    and enable_targets: "enable mode m rg = set_requires_grad (concat (map snd (targets mode m))) True rg"
    and entry_category: "(c, ps) \<in> set (entries m) \<Longrightarrow> c \<in> set category_names"
    and entry_params: "(c, ps) \<in> set (entries m) \<Longrightarrow> ps = m_params m \<or> (\<exists>attr. ps = sub_params m attr)"
    and target_entry: "plain_module roles m \<Longrightarrow> e \<in> set (targets mode m) \<Longrightarrow> e \<in> set (entries m)"
    and full_targets: "targets ''full'' m = []"
begin

lemma applied_grads:
  assumes "apply_policy available model mode rg = Inr (rg1, summary)" "p \<in> set (nm_params model)"
  shows "rg1 (p_id p) \<longleftrightarrow> mode = ''full'' \<or> (\<exists>m \<in> set (nm_modules model). \<exists>(c, ps) \<in> set (targets mode m). p_id p \<in> p_id ` set ps)"
proof -
  have "rg1 = fold (enable mode) (nm_modules model) (initial_grads model mode rg)"
    using assms(1) by (auto simp: apply_eq Let_def split: if_splits)
  then have "rg1 (p_id p) \<longleftrightarrow> initial_grads model mode rg (p_id p) \<or>
      (\<exists>m \<in> set (nm_modules model). p_id p \<in> p_id ` set (concat (map snd (targets mode m))))"
    using fold_enable_iff[of "nm_modules model" "enable mode" "\<lambda>m. concat (map snd (targets mode m))"] enable_targets by simp
  moreover have "initial_grads model mode rg (p_id p) = (mode = ''full'')"
    using assms(2) by (simp add: initial_grads_def set_requires_grad_iff)
  ultimately show ?thesis by fastforce
qed

lemma applied_audit:
  assumes wf: "model_wf model" and r: "apply_policy available model mode rg = Inr (rg1, summary)"
  obtains seen where "audit_inv rg1 (numel_of_id model) (as_categories summary, seen)"
    "set seen = (\<Union>m \<in> set (nm_modules model). \<Union>(c, ps) \<in> set (entries m). p_id ` set ps)"
    "set seen \<subseteq> p_id ` set (nm_params model)" "summary = build_audit_summary mode (as_categories summary)"
proof -
  let ?es = "concat (map entries (nm_modules model))"
  have sub: "set ps \<subseteq> set (nm_params model)" if "(c, ps) \<in> set (entries m)" "m \<in> set (nm_modules model)" for c ps m
    using entry_params[OF that(1)] that(2) wf sub_params_in[OF wf that(2)] by (auto simp: model_wf_def)
  have ok: "\<forall>(c, ps) \<in> set ?es. c \<in> set category_names \<and> (\<forall>p \<in> set ps. p_numel p = numel_of_id model (p_id p))"
    using entry_category sub numel_of_id[OF wf] by fastforce
  obtain cats seen where f: "fold (audit_add rg1) ?es (empty_categories, []) = (cats, seen)" by (rule prod.exhaust)
  have s: "summary = build_audit_summary mode cats"
    using r f by (auto simp: apply_eq Let_def run_audit_def split: if_splits)
  then have c: "as_categories summary = cats" by (simp add: build_audit_summary_def Let_def)
  from audit_entries_fold[OF audit_inv_start ok, of rg1] f
  have i: "audit_inv rg1 (numel_of_id model) (cats, seen)" "set seen = (\<Union>(c, ps) \<in> set ?es. p_id ` set ps)" by auto
  show thesis
  proof (rule that[of seen])
    show "set seen = (\<Union>m \<in> set (nm_modules model). \<Union>(c, ps) \<in> set (entries m). p_id ` set ps)" using i(2) by auto
    show "set seen \<subseteq> p_id ` set (nm_params model)" using i(2) sub by fastforce
  qed (use i s c in simp_all)
qed

lemma applied_audit_exact:
  assumes wf: "model_wf model" and r: "apply_policy available model mode rg = Inr (rg1, summary)" and m: "mode \<noteq> ''full''"
    and plain: "\<forall>m \<in> set (nm_modules model). targets mode m \<noteq> [] \<longrightarrow> plain_module roles m"
  shows "as_trainable summary = sum_list (map p_numel (trainable_parameters model rg1))"
proof -
  obtain seen where s: "audit_inv rg1 (numel_of_id model) (as_categories summary, seen)"
    "set seen = (\<Union>m \<in> set (nm_modules model). \<Union>(c, ps) \<in> set (entries m). p_id ` set ps)"
    "set seen \<subseteq> p_id ` set (nm_params model)" "summary = build_audit_summary mode (as_categories summary)"
    by (rule applied_audit[OF wf r])
  have "i \<in> set seen" if "i \<in> p_id ` set (nm_params model)" "rg1 i" for i
  proof -
    obtain p where p: "p \<in> set (nm_params model)" "i = p_id p" using \<open>i \<in> p_id ` set (nm_params model)\<close> by auto
    then obtain mo c ps where t: "mo \<in> set (nm_modules model)" "(c, ps) \<in> set (targets mode mo)" "i \<in> p_id ` set ps"
      using applied_grads[OF r p(1)] \<open>rg1 i\<close> m by auto
    then have "targets mode mo \<noteq> []" by auto
    with plain t(1) have "plain_module roles mo" by blast
    then have "(c, ps) \<in> set (entries mo)" using target_entry t(2) by blast
    with s(2) t(1,3) show ?thesis by auto
  qed
  with s(3) have eq: "{i \<in> set seen. rg1 i} = {i \<in> p_id ` set (nm_params model). rg1 i}" by blast
  have "as_trainable summary = sum_list (map (cc_trainable \<circ> snd) (as_categories summary))"
    using arg_cong[OF s(4), of as_trainable] by (simp add: build_audit_summary_def Let_def)
  also have "\<dots> = sum (numel_of_id model) {i \<in> set seen. rg1 i}"
    using s(1) sum_over_ids[of seen] by (simp add: audit_inv_def)
  finally show ?thesis unfolding eq trainable_numel_sum[OF wf] .
qed

lemma applied_audit_bounds:
  assumes wf: "model_wf model" and r: "apply_policy available model mode rg = Inr (rg1, summary)"
  shows "as_total summary \<le> sum_list (map p_numel (nm_params model)) \<and> as_trainable summary \<le> as_total summary \<and>
    as_frozen summary = int (as_total summary) - int (as_trainable summary) \<and>
    (\<forall>(name, c) \<in> set (as_categories summary). cc_trainable c \<le> cc_total c)"
proof -
  obtain seen where s: "audit_inv rg1 (numel_of_id model) (as_categories summary, seen)"
    "set seen \<subseteq> p_id ` set (nm_params model)" "summary = build_audit_summary mode (as_categories summary)"
    by (rule applied_audit[OF wf r])
  have d: "distinct seen" using s(1) by (simp add: audit_inv_def)
  have t: "as_total summary = sum (numel_of_id model) (set seen)" "as_trainable summary = sum (numel_of_id model) {i \<in> set seen. rg1 i}"
    "as_frozen summary = int (as_total summary) - int (as_trainable summary)"
    using s(1) sum_over_ids[of seen "numel_of_id model" rg1] d arg_cong[OF s(3), of as_total] arg_cong[OF s(3), of as_trainable]
      arg_cong[OF s(3), of as_frozen]
    by (simp_all add: build_audit_summary_def Let_def audit_inv_def sum_list_distinct_conv_sum_set)
  have all: "sum_list (map p_numel (nm_params model)) = sum (numel_of_id model) (p_id ` set (nm_params model))"
    using trainable_numel_sum[OF wf, of "\<lambda>_. True"] by (simp add: trainable_parameters_def)
  have "sum (numel_of_id model) (set seen) \<le> sum (numel_of_id model) (p_id ` set (nm_params model))"
    by (rule sum_mono2) (use s(2) in auto)
  moreover have "sum (numel_of_id model) {i \<in> set seen. rg1 i} \<le> sum (numel_of_id model) (set seen)"
    by (rule sum_mono2) auto
  ultimately show ?thesis using t all s(1) by (auto simp: audit_inv_def)
qed

lemma applied_categories:
  assumes wf: "model_wf model" and r: "apply_policy available model mode rg = Inr (rg1, summary)"
  shows "as_trainable summary = sum_list (map (trainable_of (as_categories summary)) category_names)"
    and "mode = ''full'' \<Longrightarrow> \<forall>(name, c) \<in> set (as_categories summary). cc_trainable c = cc_total c"
proof -
  obtain seen where s: "audit_inv rg1 (numel_of_id model) (as_categories summary, seen)"
    "set seen \<subseteq> p_id ` set (nm_params model)" "summary = build_audit_summary mode (as_categories summary)"
    by (rule applied_audit[OF wf r])
  have k: "map fst (as_categories summary) = category_names" using s(1) by (simp add: audit_inv_def)
  have w: "dict_wf (as_categories summary)" by (simp add: dict_wf_def k category_names_def)
  have "as_trainable summary = sum_list (map (cc_trainable \<circ> snd) (as_categories summary))"
    using arg_cong[OF s(3), of as_trainable] by (simp add: build_audit_summary_def Let_def)
  also have "map (cc_trainable \<circ> snd) (as_categories summary) = map (trainable_of (as_categories summary)) category_names"
    using arg_cong[OF dict_get_keys[OF w, of zero_counts], of "map cc_trainable"] unfolding k
    by (simp add: trainable_of_def[abs_def] comp_def)
  finally show "as_trainable summary = sum_list (map (trainable_of (as_categories summary)) category_names)" .
  assume full: "mode = ''full''"
  have "\<forall>i \<in> set seen. rg1 i" using s(2) applied_grads[OF r] full by fastforce
  then show "\<forall>(name, c) \<in> set (as_categories summary). cc_trainable c = cc_total c"
    using s(1) by (fastforce simp: audit_inv_def)
qed

end

section \<open>The four policies\<close>

text \<open>What each mode trains, as audit entries.\<close>

definition block_targets :: "string \<Rightarrow> string \<Rightarrow> string \<Rightarrow> string \<Rightarrow> nn_module \<Rightarrow> (string \<times> param list) list" where
  "block_targets block router attention mode m =
     (if mode = ''moe'' \<or> mode = ''experts_only'' then
        (if is_instance m block then
           (if mode = ''moe'' \<and> has_sub m router then [(''router'', sub_params m router)] else []) @
           (if has_sub m ''experts'' then [(''experts'', sub_params m ''experts'')] else [])
         else [])
      else if mode = ''attention_only'' \<and> is_instance m attention then [(''attention'', m_params m)] else [])"

definition gemma4_targets :: "string \<Rightarrow> nn_module \<Rightarrow> (string \<times> param list) list" where
  "gemma4_targets mode m =
     (if mode = ''moe'' \<or> mode = ''experts_only'' then
        (if is_instance m ''Gemma4TextRouter'' then (if mode = ''moe'' then [(''router'', m_params m)] else [])
         else if is_instance m ''Gemma4TextExperts'' then [(''experts'', m_params m)] else [])
      else if mode = ''attention_only'' \<and> is_instance m ''Gemma4TextAttention'' then [(''attention'', m_params m)] else [])"

lemma set_requires_grad_Nil [simp]: "set_requires_grad [] v rg = rg"
  by (simp add: set_requires_grad_def)

lemma set_requires_grad_append: "set_requires_grad (ps @ qs) v rg = set_requires_grad qs v (set_requires_grad ps v rg)"
  by (simp add: set_requires_grad_def)

lemma single_role:
  assumes "plain_module roles m" "a \<in> set roles" "b \<in> set roles" "a \<noteq> b" "is_instance m a"
  shows "\<not> is_instance m b"
proof
  assume "is_instance m b"
  with assms have "{a, b} \<subseteq> set (filter (is_instance m) roles)" by auto
  then have "card {a, b} \<le> length (filter (is_instance m) roles)"
    by (meson card_length card_mono finite_set le_trans)
  with assms show False by (simp add: plain_module_def)
qed

lemma block_targets_cases:
  assumes "e \<in> set (block_targets block router attention mode m)"
  obtains "is_instance m block" "has_sub m router" "e = (''router'', sub_params m router)"
    | "is_instance m block" "has_sub m ''experts''" "e = (''experts'', sub_params m ''experts'')"
    | "is_instance m attention" "e = (''attention'', m_params m)"
  using assms unfolding block_targets_def by (simp only: split: if_splits) auto

lemma gemma4_targets_cases:
  assumes "e \<in> set (gemma4_targets mode m)"
  obtains "is_instance m ''Gemma4TextRouter''" "e = (''router'', m_params m)"
    | "is_instance m ''Gemma4TextExperts''" "e = (''experts'', m_params m)"
    | "is_instance m ''Gemma4TextAttention''" "e = (''attention'', m_params m)"
  using assms unfolding gemma4_targets_def by (simp only: split: if_splits) auto

lemma olmoe_entries_facts:
  assumes "(c, ps) \<in> set (olmoe_entries m)"
  shows "c \<in> set category_names" "ps = m_params m \<or> (\<exists>attr. ps = sub_params m attr)"
proof -
  have "c \<in> set category_names \<and> (ps = m_params m \<or> (\<exists>attr. ps = sub_params m attr))"
    using assms unfolding olmoe_entries_def by (simp only: split: if_splits) (auto simp: category_names_def)
  then show "c \<in> set category_names" "ps = m_params m \<or> (\<exists>attr. ps = sub_params m attr)" by blast+
qed

lemma olmoe_target_entry:
  assumes p: "plain_module [''OlmoeSparseMoeBlock'', ''OlmoeAttention''] m"
    and e: "e \<in> set (block_targets ''OlmoeSparseMoeBlock'' ''gate'' ''OlmoeAttention'' mode m)"
  shows "e \<in> set (olmoe_entries m)"
proof -
  have n: "\<not> is_embedding m" "\<not> is_lm_head m" using p by (simp_all add: plain_module_def)
  show ?thesis
  proof (rule block_targets_cases[OF e])
    assume a: "is_instance m ''OlmoeAttention''" and "e = (''attention'', m_params m)"
    moreover have "\<not> is_instance m ''OlmoeSparseMoeBlock''" by (rule single_role[OF p _ _ _ a]) simp_all
    ultimately show ?thesis by (simp add: olmoe_entries_def n)
  qed (simp_all add: olmoe_entries_def n)
qed

interpretation olmoe: moe_policy "''olmoe''" "[''OlmoeSparseMoeBlock'', ''OlmoeAttention'']" apply_olmoe_policy olmoe_enable olmoe_entries
  "block_targets ''OlmoeSparseMoeBlock'' ''gate'' ''OlmoeAttention''"
proof
  show "e \<in> set (olmoe_entries m)" if "plain_module [''OlmoeSparseMoeBlock'', ''OlmoeAttention''] m"
    "e \<in> set (block_targets ''OlmoeSparseMoeBlock'' ''gate'' ''OlmoeAttention'' mode m)" for m e mode
    by (rule olmoe_target_entry[OF that])
  show "(c, ps) \<in> set (olmoe_entries m) \<Longrightarrow> c \<in> set category_names" for c ps m
    by (rule olmoe_entries_facts(1))
  show "(c, ps) \<in> set (olmoe_entries m) \<Longrightarrow> ps = m_params m \<or> (\<exists>attr. ps = sub_params m attr)" for c ps m
    by (rule olmoe_entries_facts(2))
qed (simp_all add: apply_olmoe_policy_def olmoe_enable_def block_targets_def set_requires_grad_append Let_def)

lemma gemma4_entries_facts:
  assumes "(c, ps) \<in> set (gemma4_entries m)"
  shows "c \<in> set category_names" "ps = m_params m \<or> (\<exists>attr. ps = sub_params m attr)"
proof -
  have "c \<in> set category_names \<and> (ps = m_params m \<or> (\<exists>attr. ps = sub_params m attr))"
    using assms unfolding gemma4_entries_def by (simp only: split: if_splits) (auto simp: category_names_def)
  then show "c \<in> set category_names" "ps = m_params m \<or> (\<exists>attr. ps = sub_params m attr)" by blast+
qed

lemma gemma4_target_entry:
  assumes p: "plain_module [''Gemma4TextRouter'', ''Gemma4TextExperts'', ''Gemma4TextAttention''] m"
    and e: "e \<in> set (gemma4_targets mode m)"
  shows "e \<in> set (gemma4_entries m)"
proof -
  have n: "\<not> is_embedding m" "\<not> is_lm_head m" using p by (simp_all add: plain_module_def)
  show ?thesis
  proof (rule gemma4_targets_cases[OF e])
    assume a: "is_instance m ''Gemma4TextRouter''" and "e = (''router'', m_params m)"
    moreover have "\<not> is_instance m ''Gemma4TextExperts''" by (rule single_role[OF p _ _ _ a]) simp_all
    ultimately show ?thesis by (simp add: gemma4_entries_def n)
  next
    assume a: "is_instance m ''Gemma4TextAttention''" and "e = (''attention'', m_params m)"
    moreover have "\<not> is_instance m ''Gemma4TextExperts''" by (rule single_role[OF p _ _ _ a]) simp_all
    moreover have "\<not> is_instance m ''Gemma4TextRouter''" by (rule single_role[OF p _ _ _ a]) simp_all
    ultimately show ?thesis by (simp add: gemma4_entries_def n)
  qed (simp_all add: gemma4_entries_def n)
qed

interpretation gemma4: moe_policy "''gemma4''" "[''Gemma4TextRouter'', ''Gemma4TextExperts'', ''Gemma4TextAttention'']" apply_gemma4_policy
  gemma4_enable gemma4_entries gemma4_targets
proof
  show "e \<in> set (gemma4_entries m)" if "plain_module [''Gemma4TextRouter'', ''Gemma4TextExperts'', ''Gemma4TextAttention''] m"
    "e \<in> set (gemma4_targets mode m)" for m e mode
    by (rule gemma4_target_entry[OF that])
  show "(c, ps) \<in> set (gemma4_entries m) \<Longrightarrow> c \<in> set category_names" for c ps m
    by (rule gemma4_entries_facts(1))
  show "(c, ps) \<in> set (gemma4_entries m) \<Longrightarrow> ps = m_params m \<or> (\<exists>attr. ps = sub_params m attr)" for c ps m
    by (rule gemma4_entries_facts(2))
qed (simp_all add: apply_gemma4_policy_def gemma4_enable_def gemma4_targets_def set_requires_grad_append Let_def)

lemma gpt_oss_entries_facts:
  assumes "(c, ps) \<in> set (gpt_oss_entries m)"
  shows "c \<in> set category_names" "ps = m_params m \<or> (\<exists>attr. ps = sub_params m attr)"
proof -
  have "c \<in> set category_names \<and> (ps = m_params m \<or> (\<exists>attr. ps = sub_params m attr))"
    using assms unfolding gpt_oss_entries_def by (simp only: split: if_splits) (auto simp: category_names_def)
  then show "c \<in> set category_names" "ps = m_params m \<or> (\<exists>attr. ps = sub_params m attr)" by blast+
qed

lemma gpt_oss_target_entry:
  assumes p: "plain_module [''GptOssMLP'', ''GptOssAttention''] m"
    and e: "e \<in> set (block_targets ''GptOssMLP'' ''router'' ''GptOssAttention'' mode m)"
  shows "e \<in> set (gpt_oss_entries m)"
proof -
  have n: "\<not> is_embedding m" "\<not> is_lm_head m" using p by (simp_all add: plain_module_def)
  show ?thesis
  proof (rule block_targets_cases[OF e])
    assume a: "is_instance m ''GptOssAttention''" and "e = (''attention'', m_params m)"
    moreover have "\<not> is_instance m ''GptOssMLP''" by (rule single_role[OF p _ _ _ a]) simp_all
    ultimately show ?thesis by (simp add: gpt_oss_entries_def n)
  qed (simp_all add: gpt_oss_entries_def n)
qed

interpretation gpt_oss: moe_policy "''gpt_oss''" "[''GptOssMLP'', ''GptOssAttention'']" apply_gpt_oss_policy gpt_oss_enable gpt_oss_entries
  "block_targets ''GptOssMLP'' ''router'' ''GptOssAttention''"
proof
  show "e \<in> set (gpt_oss_entries m)" if "plain_module [''GptOssMLP'', ''GptOssAttention''] m"
    "e \<in> set (block_targets ''GptOssMLP'' ''router'' ''GptOssAttention'' mode m)" for m e mode
    by (rule gpt_oss_target_entry[OF that])
  show "(c, ps) \<in> set (gpt_oss_entries m) \<Longrightarrow> c \<in> set category_names" for c ps m
    by (rule gpt_oss_entries_facts(1))
  show "(c, ps) \<in> set (gpt_oss_entries m) \<Longrightarrow> ps = m_params m \<or> (\<exists>attr. ps = sub_params m attr)" for c ps m
    by (rule gpt_oss_entries_facts(2))
qed (simp_all add: apply_gpt_oss_policy_def gpt_oss_enable_def block_targets_def set_requires_grad_append Let_def)

lemma qwen3_entries_facts:
  assumes "(c, ps) \<in> set (qwen3_entries m)"
  shows "c \<in> set category_names" "ps = m_params m \<or> (\<exists>attr. ps = sub_params m attr)"
proof -
  have "c \<in> set category_names \<and> (ps = m_params m \<or> (\<exists>attr. ps = sub_params m attr))"
    using assms unfolding qwen3_entries_def by (simp only: split: if_splits) (auto simp: category_names_def)
  then show "c \<in> set category_names" "ps = m_params m \<or> (\<exists>attr. ps = sub_params m attr)" by blast+
qed

lemma qwen3_target_entry:
  assumes p: "plain_module [''Qwen3MoeSparseMoeBlock'', ''Qwen3MoeAttention''] m"
    and e: "e \<in> set (block_targets ''Qwen3MoeSparseMoeBlock'' ''gate'' ''Qwen3MoeAttention'' mode m)"
  shows "e \<in> set (qwen3_entries m)"
proof -
  have n: "\<not> is_embedding m" "\<not> is_lm_head m" using p by (simp_all add: plain_module_def)
  show ?thesis
  proof (rule block_targets_cases[OF e])
    assume a: "is_instance m ''Qwen3MoeAttention''" and "e = (''attention'', m_params m)"
    moreover have "\<not> is_instance m ''Qwen3MoeSparseMoeBlock''" by (rule single_role[OF p _ _ _ a]) simp_all
    ultimately show ?thesis by (simp add: qwen3_entries_def n)
  qed (simp_all add: qwen3_entries_def n)
qed

interpretation qwen3: moe_policy "''qwen3_moe''" "[''Qwen3MoeSparseMoeBlock'', ''Qwen3MoeAttention'']" apply_qwen3_moe_policy qwen3_enable
  qwen3_entries "block_targets ''Qwen3MoeSparseMoeBlock'' ''gate'' ''Qwen3MoeAttention''"
proof
  show "e \<in> set (qwen3_entries m)" if "plain_module [''Qwen3MoeSparseMoeBlock'', ''Qwen3MoeAttention''] m"
    "e \<in> set (block_targets ''Qwen3MoeSparseMoeBlock'' ''gate'' ''Qwen3MoeAttention'' mode m)" for m e mode
    by (rule qwen3_target_entry[OF that])
  show "(c, ps) \<in> set (qwen3_entries m) \<Longrightarrow> c \<in> set category_names" for c ps m
    by (rule qwen3_entries_facts(1))
  show "(c, ps) \<in> set (qwen3_entries m) \<Longrightarrow> ps = m_params m \<or> (\<exists>attr. ps = sub_params m attr)" for c ps m
    by (rule qwen3_entries_facts(2))
qed (simp_all add: apply_qwen3_moe_policy_def qwen3_enable_def block_targets_def set_requires_grad_append Let_def)

text \<open>What the four architectures train, by the type the dispatcher finds.\<close>

definition policy_targets :: "string \<Rightarrow> string \<Rightarrow> nn_module \<Rightarrow> (string \<times> param list) list" where
  "policy_targets model_type =
     (if model_type = ''olmoe'' then block_targets ''OlmoeSparseMoeBlock'' ''gate'' ''OlmoeAttention''
      else if model_type = ''gemma4'' then gemma4_targets
      else if model_type = ''gpt_oss'' then block_targets ''GptOssMLP'' ''router'' ''GptOssAttention''
      else block_targets ''Qwen3MoeSparseMoeBlock'' ''gate'' ''Qwen3MoeAttention'')"

definition policy_roles :: "string \<Rightarrow> string list" where
  "policy_roles model_type =
     (if model_type = ''olmoe'' then [''OlmoeSparseMoeBlock'', ''OlmoeAttention'']
      else if model_type = ''gemma4'' then [''Gemma4TextRouter'', ''Gemma4TextExperts'', ''Gemma4TextAttention'']
      else if model_type = ''gpt_oss'' then [''GptOssMLP'', ''GptOssAttention'']
      else [''Qwen3MoeSparseMoeBlock'', ''Qwen3MoeAttention''])"

definition single_roles :: "string \<Rightarrow> string \<Rightarrow> nn_model \<Rightarrow> bool" where
  "single_roles model_type mode model \<longleftrightarrow>
     list_all (\<lambda>m. policy_targets model_type mode m \<noteq> [] \<longrightarrow> plain_module (policy_roles model_type) m) (nm_modules model)"

definition policy_apply :: "string \<Rightarrow> (string \<Rightarrow> bool) \<Rightarrow> nn_model \<Rightarrow> string \<Rightarrow> grads \<Rightarrow> (grads \<times> audit_summary) result" where
  "policy_apply model_type =
     (if model_type = ''olmoe'' then apply_olmoe_policy else if model_type = ''gemma4'' then apply_gemma4_policy
      else if model_type = ''gpt_oss'' then apply_gpt_oss_policy else apply_qwen3_moe_policy)"

lemma detected_types:
  "detect_model_type available model = Some t \<Longrightarrow> t \<in> {''olmoe'', ''gemma4'', ''gpt_oss'', ''qwen3_moe''}"
  by (auto simp: detect_model_type_def model_parameter_policies_def split: if_splits)

lemma dispatched:
  "t \<in> {''olmoe'', ''gemma4'', ''gpt_oss'', ''qwen3_moe''} \<Longrightarrow>
   \<exists>f. map_of model_parameter_policies t = Some (f, policy_apply t)"
  by (auto simp: model_parameter_policies_def policy_apply_def)

lemma dispatch_Some:
  assumes "detect_model_type available model = Some t" "mode \<in> set valid_modes"
  shows "apply_parameter_update_policy available model mode strict rg =
    res_bind (policy_apply t available model mode rg) (\<lambda>(rg1, summary).
      res_bind (if strict then strict_validate (as_categories summary) mode else Inr ()) (\<lambda>_.
        Inr (rg1, summary\<lparr>as_mode := mode\<rparr>, Some t)))"
proof -
  obtain f where "map_of model_parameter_policies t = Some (f, policy_apply t)"
    using dispatched[OF detected_types[OF assms(1)]] by blast
  with assms show ?thesis by (simp add: apply_parameter_update_policy_def)
qed

lemma applied_typed:
  assumes "apply_parameter_update_policy available model mode strict rg = Inr (rg1, summary, Some t)"
  obtains s where "detect_model_type available model = Some t" "mode \<in> set valid_modes"
    "policy_apply t available model mode rg = Inr (rg1, s)" "summary = s\<lparr>as_mode := mode\<rparr>"
    "strict \<Longrightarrow> strict_validate (as_categories s) mode = Inr ()"
proof -
  have v: "mode \<in> set valid_modes" using assms by (simp add: apply_parameter_update_policy_def split: if_splits)
  obtain t' where d: "detect_model_type available model = Some t'"
    using assms v by (auto simp: apply_parameter_update_policy_def split: if_splits option.splits)
  from assms[unfolded dispatch_Some[OF d v]]
  obtain s where s: "policy_apply t' available model mode rg = Inr (rg1, s)" "summary = s\<lparr>as_mode := mode\<rparr>" "t' = t"
    "(if strict then strict_validate (as_categories s) mode else Inr ()) = Inr ()"
    by (auto simp: res_bind_eq_Inr)
  from d s(3) have d: "detect_model_type available model = Some t" by simp
  from s(1,3) have a: "policy_apply t available model mode rg = Inr (rg1, s)" by simp
  show thesis by (rule that[OF d v a s(2)]) (use s(4) in simp)
qed

lemma policy_applied_grads:
  assumes "t \<in> {''olmoe'', ''gemma4'', ''gpt_oss'', ''qwen3_moe''}" "policy_apply t available model mode rg = Inr (rg1, summary)"
    "p \<in> set (nm_params model)"
  shows "rg1 (p_id p) \<longleftrightarrow> mode = ''full'' \<or> (\<exists>m \<in> set (nm_modules model). \<exists>(c, ps) \<in> set (policy_targets t mode m). p_id p \<in> p_id ` set ps)"
  using assms olmoe.applied_grads[of available model mode rg rg1 summary p] gemma4.applied_grads[of available model mode rg rg1 summary p]
    gpt_oss.applied_grads[of available model mode rg rg1 summary p] qwen3.applied_grads[of available model mode rg rg1 summary p]
  by (elim insertE emptyE) (simp_all add: policy_apply_def policy_targets_def)

lemma policy_applied_exact:
  assumes "t \<in> {''olmoe'', ''gemma4'', ''gpt_oss'', ''qwen3_moe''}" "policy_apply t available model mode rg = Inr (rg1, summary)"
    "model_wf model" "mode \<noteq> ''full''" "single_roles t mode model"
  shows "as_trainable summary = sum_list (map p_numel (trainable_parameters model rg1))"
  using assms olmoe.applied_audit_exact[of model available mode rg rg1 summary] gemma4.applied_audit_exact[of model available mode rg rg1 summary]
    gpt_oss.applied_audit_exact[of model available mode rg rg1 summary] qwen3.applied_audit_exact[of model available mode rg rg1 summary]
  by (elim insertE emptyE) (simp_all add: policy_apply_def policy_targets_def policy_roles_def single_roles_def list_all_iff)

lemma policy_applied_bounds:
  assumes "t \<in> {''olmoe'', ''gemma4'', ''gpt_oss'', ''qwen3_moe''}" "policy_apply t available model mode rg = Inr (rg1, summary)"
    "model_wf model"
  shows "as_total summary \<le> sum_list (map p_numel (nm_params model)) \<and> as_trainable summary \<le> as_total summary \<and>
    as_frozen summary = int (as_total summary) - int (as_trainable summary) \<and>
    (\<forall>(name, c) \<in> set (as_categories summary). cc_trainable c \<le> cc_total c)"
  using assms olmoe.applied_audit_bounds[of model available mode rg rg1 summary] gemma4.applied_audit_bounds[of model available mode rg rg1 summary]
    gpt_oss.applied_audit_bounds[of model available mode rg rg1 summary] qwen3.applied_audit_bounds[of model available mode rg rg1 summary]
  by (elim insertE emptyE) (simp_all add: policy_apply_def)

lemma policy_applied_categories:
  assumes "t \<in> {''olmoe'', ''gemma4'', ''gpt_oss'', ''qwen3_moe''}" "policy_apply t available model mode rg = Inr (rg1, summary)"
    "model_wf model"
  shows "as_trainable summary = sum_list (map (trainable_of (as_categories summary)) category_names)"
  using assms olmoe.applied_categories(1)[of model available mode rg rg1 summary] gemma4.applied_categories(1)[of model available mode rg rg1 summary]
    gpt_oss.applied_categories(1)[of model available mode rg rg1 summary] qwen3.applied_categories(1)[of model available mode rg rg1 summary]
  by (elim insertE emptyE) (simp_all add: policy_apply_def)

lemma policy_applied_full:
  assumes "t \<in> {''olmoe'', ''gemma4'', ''gpt_oss'', ''qwen3_moe''}" "policy_apply t available model ''full'' rg = Inr (rg1, summary)"
    "model_wf model"
  shows "\<forall>(name, c) \<in> set (as_categories summary). cc_trainable c = cc_total c"
  using assms olmoe.applied_categories(2)[of model available "''full''" rg rg1 summary] gemma4.applied_categories(2)[of model available "''full''" rg rg1 summary]
    gpt_oss.applied_categories(2)[of model available "''full''" rg rg1 summary] qwen3.applied_categories(2)[of model available "''full''" rg rg1 summary]
  by (elim insertE emptyE) (simp_all add: policy_apply_def)

lemma policy_available:
  assumes "t \<in> {''olmoe'', ''gemma4'', ''gpt_oss'', ''qwen3_moe''}"
  shows "(\<exists>x. policy_apply t available model mode rg = Inr x) \<longleftrightarrow> available t"
    and "\<not> available t \<Longrightarrow> policy_apply t available model mode rg = Inl ImportError"
  using assms by (elim insertE emptyE;
    simp add: policy_apply_def apply_olmoe_policy_def apply_gemma4_policy_def apply_gpt_oss_policy_def apply_qwen3_moe_policy_def Let_def)+

lemma localized_modes: "mode \<in> set valid_modes \<Longrightarrow> mode \<noteq> ''full'' \<Longrightarrow> mode = ''moe'' \<or> mode = ''experts_only'' \<or> mode = ''attention_only''"
  by (auto simp: valid_modes_def)

lemma strict_validate_localized:
  "strict_validate cats ''moe'' = Inr () \<longleftrightarrow>
     (\<forall>name \<in> {''attention'', ''norm'', ''embedding'', ''lm_head''}. trainable_of cats name = 0) \<and>
     trainable_of cats ''experts'' > 0 \<and> trainable_of cats ''router'' > 0"
  "strict_validate cats ''experts_only'' = Inr () \<longleftrightarrow>
     (\<forall>name \<in> {''attention'', ''norm'', ''embedding'', ''lm_head''}. trainable_of cats name = 0) \<and>
     trainable_of cats ''experts'' > 0 \<and> trainable_of cats ''router'' = 0"
  "strict_validate cats ''attention_only'' = Inr () \<longleftrightarrow>
     trainable_of cats ''attention'' > 0 \<and>
     (\<forall>name \<in> {''experts'', ''router'', ''norm'', ''embedding'', ''lm_head''}. trainable_of cats name = 0)"
  by (simp_all add: strict_validate_def res_bind_eq_Inr py_assert_eq_Inr)

lemma strict_localized:
  assumes "strict_validate cats mode = Inr ()" "mode \<in> set valid_modes" "mode \<noteq> ''full''"
  shows "sum_list (map (trainable_of cats) category_names) > 0 \<and> sum_list (map (trainable_of cats) category_names) =
      (if mode = ''moe'' then trainable_of cats ''experts'' + trainable_of cats ''router''
       else if mode = ''experts_only'' then trainable_of cats ''experts'' else trainable_of cats ''attention'')"
proof -
  consider "mode = ''moe''" | "mode = ''experts_only''" | "mode = ''attention_only''" using localized_modes assms(2,3) by blast
  then show ?thesis
  proof cases
    case 1
    with assms(1) show ?thesis by (simp add: strict_validate_localized category_names_def)
  next
    case 2
    with assms(1) show ?thesis by (simp add: strict_validate_localized category_names_def)
  next
    case 3
    with assms(1) show ?thesis by (simp add: strict_validate_localized category_names_def)
  qed
qed

text \<open>The parameters a mode is meant to train, the categories it may train, and the audit of an architecture.\<close>

definition mode_parameters :: "string \<Rightarrow> string \<Rightarrow> nn_model \<Rightarrow> param list" where
  "mode_parameters t mode model = concat (map (\<lambda>m. concat (map snd (policy_targets t mode m))) (nm_modules model))"

definition mode_categories :: "string \<Rightarrow> string list" where
  "mode_categories mode = (if mode = ''moe'' then [''experts'', ''router''] else if mode = ''experts_only'' then [''experts''] else [''attention''])"

definition policy_entries :: "string \<Rightarrow> nn_module \<Rightarrow> (string \<times> param list) list" where
  "policy_entries t = (if t = ''olmoe'' then olmoe_entries else if t = ''gemma4'' then gemma4_entries
     else if t = ''gpt_oss'' then gpt_oss_entries else qwen3_entries)"

lemma policy_trains_targets:
  assumes "t \<in> {''olmoe'', ''gemma4'', ''gpt_oss'', ''qwen3_moe''}" "policy_apply t available model mode rg = Inr (rg1, summary)"
    "mode \<noteq> ''full''"
  shows "trainable_parameters model rg1 = filter (\<lambda>p. p_id p \<in> p_id ` set (mode_parameters t mode model)) (nm_params model)"
  unfolding trainable_parameters_def
proof (rule filter_cong[OF refl])
  fix p assume "p \<in> set (nm_params model)"
  from policy_applied_grads[OF assms(1,2) this] assms(3)
  show "rg1 (p_id p) \<longleftrightarrow> p_id p \<in> p_id ` set (mode_parameters t mode model)" by (fastforce simp: mode_parameters_def)
qed

lemma target_category:
  assumes "(c, ps) \<in> set (policy_targets t mode m)"
  shows "c \<in> set (mode_categories mode)"
proof -
  have "c \<in> set (mode_categories mode)" if "(c, ps) \<in> set (block_targets block router attention mode m)" for block router attention
    using that unfolding block_targets_def mode_categories_def by (simp only: split: if_splits) auto
  moreover have "c \<in> set (mode_categories mode)" if "(c, ps) \<in> set (gemma4_targets mode m)"
    using that unfolding gemma4_targets_def mode_categories_def by (simp only: split: if_splits) auto
  ultimately show ?thesis using assms unfolding policy_targets_def by (simp only: split: if_splits)
qed

lemma policy_target_entry:
  assumes "t \<in> {''olmoe'', ''gemma4'', ''gpt_oss'', ''qwen3_moe''}" "plain_module (policy_roles t) m" "e \<in> set (policy_targets t mode m)"
  shows "e \<in> set (policy_entries t m)"
  using assms olmoe_target_entry[of m e mode] gemma4_target_entry[of m e mode] gpt_oss_target_entry[of m e mode] qwen3_target_entry[of m e mode]
  by (elim insertE emptyE) (simp_all add: policy_targets_def policy_roles_def policy_entries_def)

lemma trained_audited:
  assumes "t \<in> {''olmoe'', ''gemma4'', ''gpt_oss'', ''qwen3_moe''}" "policy_apply t available model mode rg = Inr (rg1, summary)"
    "mode \<noteq> ''full''" "single_roles t mode model"
  shows "\<forall>p \<in> set (trainable_parameters model rg1). \<exists>m \<in> set (nm_modules model). \<exists>(c, ps) \<in> set (policy_entries t m).
       c \<in> set (mode_categories mode) \<and> p_id p \<in> p_id ` set ps"
proof
  fix p assume "p \<in> set (trainable_parameters model rg1)"
  then have "p \<in> set (nm_params model)" "rg1 (p_id p)" by (simp_all add: trainable_parameters_def)
  then obtain m c ps where t: "m \<in> set (nm_modules model)" "(c, ps) \<in> set (policy_targets t mode m)" "p_id p \<in> p_id ` set ps"
    using policy_applied_grads[OF assms(1,2)] assms(3) by blast
  then have "policy_targets t mode m \<noteq> []" by auto
  with assms(4) t(1) have "plain_module (policy_roles t) m" unfolding single_roles_def list_all_iff by blast
  from policy_target_entry[OF assms(1) this t(2)] target_category[OF t(2)] t(1,3)
  show "\<exists>m \<in> set (nm_modules model). \<exists>(c, ps) \<in> set (policy_entries t m). c \<in> set (mode_categories mode) \<and> p_id p \<in> p_id ` set ps"
    by blast
qed

section \<open>Properties\<close>

text \<open>A one-layer OLMoE model whose head is tied to its embedding; it satisfies the hypotheses below.\<close>

definition demo_module :: "string \<Rightarrow> string \<Rightarrow> nat list \<Rightarrow> (string \<times> nat list) list \<Rightarrow> nn_module" where
  "demo_module name cls ps subs =
     \<lparr>m_name = name, m_classes = [cls], m_params = map (\<lambda>i. \<lparr>p_id = i, p_numel = 10 + i\<rparr>) ps,
      m_subs = map (\<lambda>(a, ps). (a, map (\<lambda>i. \<lparr>p_id = i, p_numel = 10 + i\<rparr>) ps)) subs\<rparr>"

definition demo_model :: nn_model where
  "demo_model =
     \<lparr>nm_modules =
        [demo_module ''model.embed_tokens'' ''nn.Embedding'' [0] [],
         demo_module '''' ''OlmoeForCausalLM'' [0, 1, 2, 3, 4, 5, 6] [],
         demo_module ''model.layers.0.self_attn'' ''OlmoeAttention'' [1, 2] [],
         demo_module ''model.layers.0.mlp'' ''OlmoeSparseMoeBlock'' [3, 4, 5] [(''gate'', [3]), (''experts'', [4, 5])],
         demo_module ''model.norm'' ''OlmoeRMSNorm'' [6] [],
         demo_module ''lm_head'' ''nn.Linear'' [0] []],
      nm_params = map (\<lambda>i. \<lparr>p_id = i, p_numel = 10 + i\<rparr>) [0, 1, 2, 3, 4, 5, 6],
      nm_config_type = None, nm_text_config_type = None\<rparr>"

definition demo_policy :: "string \<Rightarrow> (grads \<times> audit_summary \<times> string option) result" where
  "demo_policy mode = apply_parameter_update_policy (\<lambda>f. f = ''olmoe'') demo_model mode True (\<lambda>_. True)"

lemma demo_model_facts:
  "model_wf demo_model" "single_roles ''olmoe'' ''moe'' demo_model" "detect_model_type (\<lambda>f. f = ''olmoe'') demo_model = Some ''olmoe''"
  "\<lparr>p_id = 4, p_numel = 14\<rparr> \<in> set (nm_params demo_model)"
  by code_simp+

lemma demo_policy_result:
  obtains rg1 summary where "demo_policy ''moe'' = Inr (rg1, summary, Some ''olmoe'')"
proof -
  have "case demo_policy ''moe'' of Inl _ \<Rightarrow> False | Inr (_, _, t) \<Rightarrow> t = Some ''olmoe''" by code_simp
  then show thesis using that by (auto split: sum.splits prod.splits)
qed

text \<open>
  After a policy, a parameter of the model is trainable exactly when the mode is \<open>full\<close> or the
  parameter belongs to what the mode trains in some module: the experts of an MoE block (and its
  router in mode \<open>moe\<close>), or an attention module in mode \<open>attention_only\<close>.
\<close>

theorem policy_trains_exactly:
  assumes "apply_parameter_update_policy available model mode strict rg = Inr (rg1, summary, Some t)"
    "p \<in> set (nm_params model)"
  shows "rg1 (p_id p) \<longleftrightarrow>
    mode = ''full'' \<or> (\<exists>m \<in> set (nm_modules model). \<exists>(c, ps) \<in> set (policy_targets t mode m). p_id p \<in> p_id ` set ps)"
  using applied_typed[OF assms(1)] policy_applied_grads[OF detected_types _ assms(2)] by metis

theorem policy_trains_exactly_witness:
  "\<exists>rg1 summary. demo_policy ''moe'' = Inr (rg1, summary, Some ''olmoe'') \<and> rg1 4"
proof -
  obtain rg1 summary where r: "demo_policy ''moe'' = Inr (rg1, summary, Some ''olmoe'')" by (rule demo_policy_result)
  have "list_ex (\<lambda>m. list_ex (\<lambda>(c, ps). 4 \<in> p_id ` set ps) (policy_targets ''olmoe'' ''moe'' m)) (nm_modules demo_model)" by code_simp
  then have "\<exists>m \<in> set (nm_modules demo_model). \<exists>(c, ps) \<in> set (policy_targets ''olmoe'' ''moe'' m). 4 \<in> p_id ` set ps"
    by (simp add: list_ex_iff)
  with policy_trains_exactly[OF r[unfolded demo_policy_def] demo_model_facts(4)] r show ?thesis by auto
qed

text \<open>
  C10: a strict policy in a localized mode that succeeds hands the optimizer exactly the target parameters of the mode: the
  parameters of \<open>parameters()\<close>, in their order, that belong to the experts (and the router, in mode \<open>moe\<close>) of a
  mixture-of-experts module, or to an attention module in mode \<open>attention_only\<close>, and no other. Each of them is listed
  by the audit under a category of the mode, their sizes sum to the counts of these categories, and the sum is
  positive. Assumed of the model: \<open>parameters()\<close> lists each parameter once and covers the modules (\<open>model_wf\<close>), and every
  module the mode trains has one role and a name other than the embedding's or the head's (\<open>single_roles\<close>).
\<close>

theorem strict_policy_guarantee:
  assumes "apply_parameter_update_policy available model mode True rg = Inr (rg1, summary, Some t)"
    "mode \<noteq> ''full''" "model_wf model" "single_roles t mode model"
  shows "trainable_parameters model rg1 = filter (\<lambda>p. p_id p \<in> p_id ` set (mode_parameters t mode model)) (nm_params model) \<and>
    (\<forall>p \<in> set (trainable_parameters model rg1). \<exists>m \<in> set (nm_modules model). \<exists>(c, ps) \<in> set (policy_entries t m).
       c \<in> set (mode_categories mode) \<and> p_id p \<in> p_id ` set ps) \<and>
    sum_list (map p_numel (trainable_parameters model rg1)) =
      (let n = trainable_of (as_categories summary)
       in if mode = ''moe'' then n ''experts'' + n ''router'' else if mode = ''experts_only'' then n ''experts'' else n ''attention'') \<and>
    as_trainable summary = sum_list (map p_numel (trainable_parameters model rg1)) \<and>
    as_trainable summary > 0 \<and> as_total summary \<le> sum_list (map p_numel (nm_params model))"
proof -
  obtain s where s: "detect_model_type available model = Some t" "mode \<in> set valid_modes"
    "policy_apply t available model mode rg = Inr (rg1, s)" "summary = s\<lparr>as_mode := mode\<rparr>"
    "strict_validate (as_categories s) mode = Inr ()"
    using applied_typed[OF assms(1)] by blast
  note t = detected_types[OF s(1)]
  show ?thesis
    using policy_trains_targets[OF t s(3) assms(2)] trained_audited[OF t s(3) assms(2,4)]
      policy_applied_exact[OF t s(3) assms(3,2,4)] policy_applied_categories[OF t s(3) assms(3)]
      policy_applied_bounds[OF t s(3) assms(3)] strict_localized[OF s(5,2) assms(2)]
    by (simp add: s(4) Let_def)
qed

theorem strict_policy_guarantee_witness:
  "\<exists>rg1 summary. demo_policy ''moe'' = Inr (rg1, summary, Some ''olmoe'') \<and> as_trainable summary > 0 \<and>
     map p_id (trainable_parameters demo_model rg1) = [3, 4, 5] \<and>
     as_trainable summary = sum_list (map p_numel (trainable_parameters demo_model rg1))"
proof -
  obtain rg1 summary where r: "demo_policy ''moe'' = Inr (rg1, summary, Some ''olmoe'')" by (rule demo_policy_result)
  have "map p_id (filter (\<lambda>p. p_id p \<in> p_id ` set (mode_parameters ''olmoe'' ''moe'' demo_model)) (nm_params demo_model)) = [3, 4, 5]"
    by code_simp
  with strict_policy_guarantee[OF r[unfolded demo_policy_def] _ demo_model_facts(1,2)] r show ?thesis by auto
qed

text \<open>
  Full mode never fails on a model whose classes can be imported: every parameter becomes
  trainable, and the strict check accepts the audit, each category being entirely trainable.
\<close>

theorem full_mode_succeeds:
  assumes "detect_model_type available model = Some t" "available t" "model_wf model"
  shows "\<exists>rg1 summary. apply_parameter_update_policy available model ''full'' strict rg = Inr (rg1, summary, Some t) \<and>
    trainable_parameters model rg1 = nm_params model \<and>
    (\<forall>(name, c) \<in> set (as_categories summary). cc_trainable c = cc_total c)"
proof -
  note t = detected_types[OF assms(1)]
  obtain rg1 s where a: "policy_apply t available model ''full'' rg = Inr (rg1, s)"
    using policy_available(1)[OF t, of available model "''full''" rg] assms(2) by auto
  note c = policy_applied_full[OF t a assms(3)]
  have "\<forall>p \<in> set (nm_params model). rg1 (p_id p)" using policy_applied_grads[OF t a] by blast
  then have "trainable_parameters model rg1 = nm_params model" by (simp add: trainable_parameters_def)
  moreover have "strict_validate (as_categories s) ''full'' = Inr ()"
    using c by (fastforce simp: strict_validate_def py_assert_eq_Inr)
  ultimately show ?thesis using c a by (simp add: dispatch_Some[OF assms(1)] valid_modes_def)
qed

theorem full_mode_succeeds_witness:
  "\<exists>rg1 summary. demo_policy ''full'' = Inr (rg1, summary, Some ''olmoe'') \<and> trainable_parameters demo_model rg1 = nm_params demo_model"
  unfolding demo_policy_def
  using full_mode_succeeds[where strict = True and rg = "\<lambda>_. True", OF demo_model_facts(3) _ demo_model_facts(1)] by auto

text \<open>
  What the dispatcher refuses. An unknown mode is a \<open>ValueError\<close> whatever the model; a model no
  policy recognises is a \<open>ValueError\<close> in every localized mode and has all its parameters trainable, with an
  all-zero audit, in full mode; a recognised model whose classes are missing is an \<open>ImportError\<close>.
\<close>

theorem policy_refusals:
  "(mode \<notin> set valid_modes \<longrightarrow> apply_parameter_update_policy available model mode strict rg = Inl ValueError) \<and>
   (mode \<in> set valid_modes \<and> detect_model_type available model = None \<longrightarrow>
      (if mode = ''full''
       then \<exists>rg1 summary. apply_parameter_update_policy available model mode strict rg = Inr (rg1, summary, None) \<and>
              trainable_parameters model rg1 = nm_params model \<and> as_total summary = 0 \<and> as_trainable summary = 0
       else apply_parameter_update_policy available model mode strict rg = Inl ValueError)) \<and>
   (mode \<in> set valid_modes \<and> detect_model_type available model = Some t \<and> \<not> available t \<longrightarrow>
      apply_parameter_update_policy available model mode strict rg = Inl ImportError)"
proof (intro conjI impI)
  assume "mode \<notin> set valid_modes"
  then show "apply_parameter_update_policy available model mode strict rg = Inl ValueError"
    by (simp add: apply_parameter_update_policy_def)
next
  assume "mode \<in> set valid_modes \<and> detect_model_type available model = None"
  then show "if mode = ''full''
    then \<exists>rg1 summary. apply_parameter_update_policy available model mode strict rg = Inr (rg1, summary, None) \<and>
           trainable_parameters model rg1 = nm_params model \<and> as_total summary = 0 \<and> as_trainable summary = 0
    else apply_parameter_update_policy available model mode strict rg = Inl ValueError"
    by (auto simp: apply_parameter_update_policy_def trainable_parameters_def set_requires_grad_iff build_audit_summary_def
        empty_categories_def category_names_def zero_counts_def)
next
  assume "mode \<in> set valid_modes \<and> detect_model_type available model = Some t \<and> \<not> available t"
  then have d: "mode \<in> set valid_modes" "detect_model_type available model = Some t" "\<not> available t" by simp_all
  show "apply_parameter_update_policy available model mode strict rg = Inl ImportError"
    unfolding dispatch_Some[OF d(2,1)] policy_available(2)[where available = available, OF detected_types[OF d(2)] d(3)] by simp
qed

theorem policy_refusals_witness:
  "demo_policy ''dense'' = Inl ValueError \<and>
   apply_parameter_update_policy (\<lambda>_. False) (demo_model\<lparr>nm_config_type := Some ''gemma4''\<rparr>) ''moe'' True (\<lambda>_. True) = Inl ImportError"
proof -
  let ?m = "demo_model\<lparr>nm_config_type := Some ''gemma4''\<rparr>"
  have v: "''dense'' \<notin> set valid_modes" "''moe'' \<in> set valid_modes" by code_simp+
  have d: "detect_model_type (\<lambda>_. False) ?m = Some ''gemma4''" by code_simp
  note refused = policy_refusals[of _ _ _ _ _ "''gemma4''"]
  have "demo_policy ''dense'' = Inl ValueError"
    unfolding demo_policy_def using refused v(1) by blast
  moreover have "apply_parameter_update_policy (\<lambda>_. False) ?m ''moe'' True (\<lambda>_. True) = Inl ImportError"
    by (rule refused[THEN conjunct2, THEN conjunct2, THEN mp]) (simp add: v d)
  ultimately show ?thesis by blast
qed

end
