(* ===== verification/Reward_Limiter.thy ===== *)
theory Reward_Limiter
  imports Prelude
begin

text \<open>
  The rate-limited reward manager, \<open>verl/experimental/reward_loop/reward_manager/limited.py\<close>: the token
  bucket, the class-level limiters and their one-time initialisation, a reward request going through
  the request limiter, the token limiter and the semaphore, and the assembly of the reward tensor.
  Times and token amounts are exact rationals (floats in the code); the event loop's clock is read by the
  caller. An \<open>acquire\<close> is a sequence of attempts, one per turn of its loop, so that the attempts of
  concurrent requests interleave as they do when the lock is released between them.
\<close>

section \<open>The token bucket\<close>

record token_bucket =
  tb_rate :: rat
  tb_max :: rat
  tb_tokens :: rat
  tb_last :: "rat option"

text \<open>What one turn of \<open>acquire\<close> decides: return after a sleep, retry after a sleep, or raise.\<close>

datatype tb_outcome = Granted rat | Retry rat | Raised py_error

definition new_bucket :: "rat \<Rightarrow> rat option \<Rightarrow> token_bucket" where
  "new_bucket rate max_tokens =
     (let m = (case max_tokens of None \<Rightarrow> rate | Some m \<Rightarrow> if m = 0 then rate else m)
      in \<lparr>tb_rate = rate, tb_max = m, tb_tokens = m, tb_last = None\<rparr>)"

definition tb_since :: "rat \<Rightarrow> token_bucket \<Rightarrow> rat" where
  "tb_since now b = (case tb_last b of None \<Rightarrow> now | Some t \<Rightarrow> t)"

definition tb_level :: "rat \<Rightarrow> token_bucket \<Rightarrow> rat" where
  "tb_level now b = min (tb_max b) (tb_tokens b + (now - tb_since now b) * tb_rate b)"

definition tb_attempt :: "rat \<Rightarrow> rat \<Rightarrow> token_bucket \<Rightarrow> token_bucket \<times> tb_outcome" where
  "tb_attempt now n b =
     (let tokens = tb_level now b; needed = n - tokens
      in if n > tb_max b then
           (if needed > 0 \<and> tb_rate b = 0
            then (b\<lparr>tb_tokens := tokens, tb_last := Some (tb_since now b)\<rparr>, Raised ZeroDivisionError)
            else (b\<lparr>tb_tokens := tokens - n, tb_last := Some now\<rparr>, Granted (if needed > 0 then needed / tb_rate b else 0)))
         else if tokens \<ge> n then (b\<lparr>tb_tokens := tokens - n, tb_last := Some now\<rparr>, Granted 0)
         else if tb_rate b = 0 then (b\<lparr>tb_tokens := tokens, tb_last := Some now\<rparr>, Raised ZeroDivisionError)
         else (b\<lparr>tb_tokens := tokens, tb_last := Some now\<rparr>, Retry (needed / tb_rate b)))"

text \<open>The attempts of all callers, in the order in which they hold the lock.\<close>

fun tb_run :: "(rat \<times> rat) list \<Rightarrow> token_bucket \<Rightarrow> token_bucket \<times> (rat \<times> rat \<times> tb_outcome) list" where
  "tb_run [] b = (b, [])"
| "tb_run ((now, n) # atts) b =
     (let (b1, out) = tb_attempt now n b; (b2, hist) = tb_run atts b1 in (b2, (now, n, out) # hist))"

section \<open>The class-level limiters\<close>

record reward_cfg =
  rc_max_concurrent :: "int option"
  rc_max_rpm :: "rat option"
  rc_max_tpm :: "rat option"
  rc_tokens_per_request :: "rat option"

record limiter_class =
  lc_initialized :: bool
  lc_max_concurrent :: "int option"
  lc_semaphore :: "nat option"
  lc_max_rpm :: "rat option"
  lc_rpm :: "token_bucket option"
  lc_max_tpm :: "rat option"
  lc_tpm :: "token_bucket option"
  lc_tokens_per_request :: "rat option"

definition limiter_class_start :: limiter_class where
  "limiter_class_start =
     \<lparr>lc_initialized = False, lc_max_concurrent = None, lc_semaphore = None, lc_max_rpm = None, lc_rpm = None,
      lc_max_tpm = None, lc_tpm = None, lc_tokens_per_request = None\<rparr>"

definition per_minute_bucket :: "rat option \<Rightarrow> token_bucket option" where
  "per_minute_bucket limit = map_option (\<lambda>m. new_bucket (m / 60) (Some (m / 60))) limit"

text \<open>
  The parent marks the class as initialised before the limiters are made, so a negative concurrency
  limit (which \<open>asyncio.Semaphore\<close> refuses) leaves a marked class without limiters.
\<close>

definition init_class :: "reward_cfg \<Rightarrow> limiter_class \<Rightarrow> limiter_class \<times> unit result" where
  "init_class cfg lc =
     (if lc_initialized lc then (lc, Inr ())
      else
        (let n = (case rc_max_concurrent cfg of None \<Rightarrow> 1 | Some n \<Rightarrow> n);
             lc1 = lc\<lparr>lc_initialized := True, lc_max_concurrent := Some n\<rparr>
         in if n < 0 then (lc1, Inl ValueError)
            else
              (lc1\<lparr>lc_semaphore := Some (nat n),
                   lc_max_rpm := rc_max_rpm cfg, lc_rpm := per_minute_bucket (rc_max_rpm cfg),
                   lc_max_tpm := rc_max_tpm cfg,
                   lc_tokens_per_request := Some (case rc_tokens_per_request cfg of None \<Rightarrow> 2000 | Some n \<Rightarrow> n),
                   lc_tpm := per_minute_bucket (rc_max_tpm cfg)\<rparr>, Inr ())))"

section \<open>A reward computation and its result\<close>

datatype info_value = Num rat | Flag bool | Txt string

type_synonym extra_info = "(string, info_value) dict"

text \<open>How the awaited computation ends: a dictionary, a plain score, a timeout, or another exception.\<close>

datatype compute_outcome = ScoreDict extra_info | ScoreValue info_value | TimedOut | ComputeError string

definition reward_failed :: "string \<Rightarrow> info_value \<Rightarrow> info_value \<times> extra_info" where
  "reward_failed key v = (Num 0, [(key, v), (''acc'', Num 0)])"

definition reward_result :: "compute_outcome \<Rightarrow> info_value \<times> extra_info" where
  "reward_result out = (case out of
     ScoreDict d \<Rightarrow>
       (case map_of d ''score'' of
          None \<Rightarrow> reward_failed ''error'' (Txt (CHR 0x27 # ''score'' @ [CHR 0x27]))
        | Some s \<Rightarrow> (s, fold (\<lambda>(k, v). AList.update k v) d []))
   | ScoreValue s \<Rightarrow> (s, [(''acc'', s)])
   | TimedOut \<Rightarrow> reward_failed ''timeout'' (Flag True)
   | ComputeError msg \<Rightarrow> reward_failed ''error'' (Txt msg))"

section \<open>Concurrent requests\<close>

text \<open>
  Where a \<open>run_single\<close> is: about to try the request limiter or the token limiter (from a time on, the end
  of its sleep), at the semaphore, in the computation, finished, or ended by an exception.
\<close>

datatype request_phase =
  AtRpm rat | AtTpm rat | AtSemaphore rat | Computing | Finished "info_value \<times> extra_info" | Crashed py_error

record limiter_state =
  ls_class :: limiter_class
  ls_clock :: rat
  ls_requests :: "(nat, request_phase) dict"

datatype limiter_event = Submit nat rat | Advance nat rat | Complete nat compute_outcome

text \<open>One attempt at a limiter: the bucket afterwards and the phase that follows.\<close>

definition limiter_attempt ::
  "rat \<Rightarrow> rat \<Rightarrow> (rat \<Rightarrow> request_phase) \<Rightarrow> (rat \<Rightarrow> request_phase) \<Rightarrow> token_bucket option \<Rightarrow> token_bucket option \<times> request_phase" where
  "limiter_attempt now n again onward bucket = (case bucket of
     None \<Rightarrow> (None, onward now)
   | Some b \<Rightarrow>
       (case tb_attempt now n b of
          (b1, Granted w) \<Rightarrow> (Some b1, onward (now + w))
        | (b1, Retry w) \<Rightarrow> (Some b1, again (now + w))
        | (b1, Raised e) \<Rightarrow> (Some b1, Crashed e)))"

definition advance_request :: "nat \<Rightarrow> rat \<Rightarrow> request_phase \<Rightarrow> limiter_state \<Rightarrow> limiter_state" where
  "advance_request i now ph st =
     (let lc = ls_class st; goto = (\<lambda>p. AList.update i p (ls_requests st))
      in case ph of
        AtRpm t \<Rightarrow>
          (if now < t then st
           else (let (b, p) = limiter_attempt now 1 AtRpm AtTpm (lc_rpm lc)
                 in st\<lparr>ls_class := lc\<lparr>lc_rpm := b\<rparr>, ls_requests := goto p\<rparr>))
      | AtTpm t \<Rightarrow>
          (if now < t then st
           else (let (b, p) = limiter_attempt now (case lc_tokens_per_request lc of None \<Rightarrow> 0 | Some n \<Rightarrow> n) AtTpm AtSemaphore (lc_tpm lc)
                 in st\<lparr>ls_class := lc\<lparr>lc_tpm := b\<rparr>, ls_requests := goto p\<rparr>))
      | AtSemaphore t \<Rightarrow>
          (if now < t then st
           else (case lc_semaphore lc of
                   None \<Rightarrow> st\<lparr>ls_requests := goto (Crashed TypeError)\<rparr>
                 | Some free \<Rightarrow>
                     if free = 0 then st
                     else st\<lparr>ls_class := lc\<lparr>lc_semaphore := Some (free - 1)\<rparr>, ls_requests := goto Computing\<rparr>))
      | _ \<Rightarrow> st)"

definition limiter_step :: "limiter_event \<Rightarrow> limiter_state \<Rightarrow> limiter_state" where
  "limiter_step ev st = (case ev of
     Submit i now \<Rightarrow>
       (if now < ls_clock st \<or> i \<in> fst ` set (ls_requests st) then st
        else st\<lparr>ls_clock := now, ls_requests := AList.update i (AtRpm now) (ls_requests st)\<rparr>)
   | Advance i now \<Rightarrow>
       (if now < ls_clock st then st
        else (case map_of (ls_requests st) i of
                None \<Rightarrow> st
              | Some ph \<Rightarrow> advance_request i now ph (st\<lparr>ls_clock := now\<rparr>)))
   | Complete i out \<Rightarrow>
       (if map_of (ls_requests st) i = Some Computing
        then st\<lparr>ls_class := (ls_class st)\<lparr>lc_semaphore := map_option Suc (lc_semaphore (ls_class st))\<rparr>,
                ls_requests := AList.update i (Finished (reward_result out)) (ls_requests st)\<rparr>
        else st))"

section \<open>The reward tensor\<close>

text \<open>One data item: the width of its response, its attention mask, and the result of its request.\<close>

definition valid_response_length :: "nat \<Rightarrow> nat list \<Rightarrow> nat" where
  "valid_response_length width attn_mask = sum_list (slice_from_end width attn_mask)"

definition reward_row :: "nat \<Rightarrow> nat list \<Rightarrow> info_value \<Rightarrow> info_value list result" where
  "reward_row width attn_mask reward =
     (let row = replicate width (Num 0); i = int (valid_response_length width attn_mask) - 1
      in if - int width \<le> i \<and> i < int width
         then Inr (row[nat (if i < 0 then int width + i else i) := reward])
         else Inl IndexError)"

definition append_info :: "string \<times> info_value \<Rightarrow> (string, info_value list) dict \<Rightarrow> (string, info_value list) dict" where
  "append_info kv acc = (case kv of (k, v) \<Rightarrow> AList.update k (dict_get acc k [] @ [v]) acc)"

definition reward_manager_call ::
  "(nat \<times> nat list \<times> compute_outcome) list \<Rightarrow> (info_value list list \<times> (string, info_value list) dict) result" where
  "reward_manager_call items =
     (let results = map (\<lambda>(width, attn_mask, out). reward_result out) items
      in res_bind (res_map (\<lambda>((width, attn_mask, out), reward, info). reward_row width attn_mask reward) (zip items results)) (\<lambda>rows.
         Inr (rows, fold (\<lambda>(reward, info). fold append_info info) results [])))"

section \<open>What the bucket lets through\<close>

definition bucket_ok :: "rat \<Rightarrow> token_bucket \<Rightarrow> bool" where
  "bucket_ok now b \<longleftrightarrow> 0 < tb_rate b \<and> tb_tokens b \<le> tb_max b \<and> (case tb_last b of None \<Rightarrow> True | Some t \<Rightarrow> t \<le> now)"

definition granted_in :: "rat \<Rightarrow> rat \<Rightarrow> (rat \<times> rat \<times> tb_outcome) list \<Rightarrow> rat" where
  "granted_in s u hist =
     sum_list (map (\<lambda>(now, n, out). case out of Granted w \<Rightarrow> if s \<le> now \<and> now + w \<le> u then n else 0 | _ \<Rightarrow> 0) hist)"

lemma granted_in_Nil [simp]: "granted_in s u [] = 0"
  by (simp add: granted_in_def)

lemma granted_in_Cons:
  "granted_in s u ((now, n, out) # hist) =
     (case out of Granted w \<Rightarrow> if s \<le> now \<and> now + w \<le> u then n else 0 | _ \<Rightarrow> 0) + granted_in s u hist"
  by (simp add: granted_in_def)

lemma new_bucket_ok: "0 < rate \<Longrightarrow> bucket_ok now (new_bucket rate m)"
  by (simp add: bucket_ok_def new_bucket_def Let_def)

lemma bucket_ok_mono: "bucket_ok s b \<Longrightarrow> s \<le> now \<Longrightarrow> bucket_ok now b"
  by (auto simp: bucket_ok_def split: option.splits)

lemma tb_level_max: "tb_level now b \<le> tb_max b"
  by (simp add: tb_level_def)

lemma tb_level_mono:
  assumes "bucket_ok s b" "s \<le> now"
  shows "tb_level now b \<le> tb_level s b + tb_rate b * (now - s)"
proof (cases "tb_last b")
  case None
  then have "tb_level now b = tb_level s b" by (simp add: tb_level_def tb_since_def)
  moreover have "0 \<le> tb_rate b * (now - s)" using assms by (intro mult_nonneg_nonneg) (auto simp: bucket_ok_def)
  ultimately show ?thesis by linarith
next
  case (Some t)
  have "0 \<le> tb_rate b * (now - s)" using assms by (intro mult_nonneg_nonneg) (auto simp: bucket_ok_def)
  moreover have "(now - t) * tb_rate b = (s - t) * tb_rate b + tb_rate b * (now - s)" by (simp add: algebra_simps)
  ultimately show ?thesis using Some by (simp add: tb_level_def tb_since_def)
qed

lemma tb_attempt_frame:
  assumes "tb_attempt now n b = (b1, out)"
  shows "tb_rate b1 = tb_rate b" "tb_max b1 = tb_max b"
  using assms by (auto simp: tb_attempt_def Let_def split: if_splits)

lemma tb_attempt_ok:
  assumes "bucket_ok now b" "0 \<le> n" "tb_attempt now n b = (b1, out)"
  shows "bucket_ok now b1 \<and> tb_level now b1 = tb_tokens b1 \<and> tb_tokens b1 \<le> tb_level now b \<and>
    (case out of Granted w \<Rightarrow> tb_tokens b1 = tb_level now b - n \<and> 0 \<le> w \<and> n - tb_level now b \<le> w * tb_rate b
     | Retry w \<Rightarrow> n \<le> tb_max b \<and> 0 < w \<and> w * tb_rate b = n - tb_level now b | Raised _ \<Rightarrow> False)"
proof -
  have r: "0 < tb_rate b" using assms(1) by (simp add: bucket_ok_def)
  show ?thesis
  proof (cases "n > tb_max b")
    case True
    then have need: "0 < n - tb_level now b" using tb_level_max[of now b] by linarith
    then show ?thesis
      using assms True r tb_level_max[of now b] by (auto simp: tb_attempt_def Let_def bucket_ok_def tb_level_def tb_since_def)
  next
    case False
    then show ?thesis
      using assms r tb_level_max[of now b] by (auto simp: tb_attempt_def Let_def bucket_ok_def tb_level_def tb_since_def split: if_splits)
  qed
qed

lemma granted_from_start:
  assumes "bucket_ok s b" "sorted (s # map fst atts)" "\<forall>(now, n) \<in> set atts. 0 \<le> n" "s0 \<le> s"
  shows "granted_in s0 u (snd (tb_run atts b)) \<le> max 0 (tb_level s b + tb_rate b * (u - s))"
  using assms
proof (induction atts arbitrary: s b)
  case (Cons a atts)
  obtain now n where a: "a = (now, n)" by (cases a)
  obtain b1 out where b1: "tb_attempt now n b = (b1, out)" by (cases "tb_attempt now n b")
  have now: "s \<le> now" and n: "0 \<le> n" using Cons.prems a by auto
  have ok: "bucket_ok now b" by (rule bucket_ok_mono[OF Cons.prems(1) now])
  note st = tb_attempt_ok[OF ok n b1] and fr = tb_attempt_frame[OF b1]
  let ?rest = "granted_in s0 u (snd (tb_run atts b1))" and ?room = "tb_level s b + tb_rate b * (u - s)"
  have rest: "?rest \<le> max 0 (tb_tokens b1 + tb_rate b * (u - now))"
    using Cons.IH[of now b1] st fr Cons.prems a now by auto
  have split: "tb_rate b * (u - s) = tb_rate b * (u - now) + tb_rate b * (now - s)" by (simp add: algebra_simps)
  have level: "tb_level now b + tb_rate b * (u - now) \<le> ?room"
    using tb_level_mono[OF Cons.prems(1) now] unfolding split by linarith
  have run: "granted_in s0 u (snd (tb_run (a # atts) b)) =
      (case out of Granted w \<Rightarrow> if s0 \<le> now \<and> now + w \<le> u then n else 0 | _ \<Rightarrow> 0) + ?rest"
    by (simp add: a b1 granted_in_Cons split: prod.splits)
  show ?case
  proof (cases "\<exists>w. out = Granted w \<and> s0 \<le> now \<and> now + w \<le> u")
    case True
    then obtain w where w: "out = Granted w" "s0 \<le> now" "now + w \<le> u" by blast
    have "0 < tb_rate b" using ok by (simp add: bucket_ok_def)
    then have "w * tb_rate b \<le> (u - now) * tb_rate b" using w(3) by (intro mult_right_mono) auto
    then have "n - tb_level now b \<le> tb_rate b * (u - now)" using st w(1) by (simp add: mult.commute)
    moreover have "tb_tokens b1 = tb_level now b - n" using st w(1) by simp
    ultimately show ?thesis unfolding run using w rest level by (simp add: max_def split: if_splits)
  next
    case False
    then have "granted_in s0 u (snd (tb_run (a # atts) b)) = ?rest" unfolding run by (auto split: tb_outcome.splits)
    moreover have "tb_tokens b1 \<le> tb_level now b" using st by simp
    ultimately show ?thesis using rest level by (simp add: max_def split: if_splits)
  qed
qed simp

lemma granted_window:
  assumes "bucket_ok t b" "t \<le> s" "sorted (t # map fst atts)" "\<forall>(now, n) \<in> set atts. 0 \<le> n" "s \<le> u" "0 \<le> tb_max b"
  shows "granted_in s u (snd (tb_run atts b)) \<le> tb_max b + tb_rate b * (u - s)"
  using assms
proof (induction atts arbitrary: t b)
  case Nil
  have "0 \<le> tb_rate b * (u - s)" using Nil by (intro mult_nonneg_nonneg) (auto simp: bucket_ok_def)
  with Nil show ?case by simp
next
  case (Cons a atts)
  obtain now n where a: "a = (now, n)" by (cases a)
  obtain b1 out where b1: "tb_attempt now n b = (b1, out)" by (cases "tb_attempt now n b")
  show ?case
  proof (cases "now < s")
    case True
    have ok: "bucket_ok now b" using bucket_ok_mono[OF Cons.prems(1)] Cons.prems(3) a by simp
    have n: "0 \<le> n" using Cons.prems a by auto
    note st = tb_attempt_ok[OF ok n b1] and fr = tb_attempt_frame[OF b1]
    have "granted_in s u (snd (tb_run (a # atts) b)) = granted_in s u (snd (tb_run atts b1))"
      using True by (auto simp: a b1 granted_in_Cons split: prod.splits tb_outcome.splits)
    then show ?thesis using Cons.IH[of now b1] st fr Cons.prems a True by auto
  next
    case False
    have ok: "bucket_ok s b" by (rule bucket_ok_mono[OF Cons.prems(1,2)])
    have "sorted (s # map fst (a # atts))" using False Cons.prems(3) a by auto
    from granted_from_start[OF ok this Cons.prems(4) order_refl, of u]
    have "granted_in s u (snd (tb_run (a # atts) b)) \<le> max 0 (tb_level s b + tb_rate b * (u - s))" .
    moreover have "0 \<le> tb_rate b * (u - s)" using Cons.prems by (intro mult_nonneg_nonneg) (auto simp: bucket_ok_def)
    ultimately show ?thesis using tb_level_max[of s b] Cons.prems(6) by (simp add: max_def split: if_splits)
  qed
qed

section \<open>Requests over a run\<close>

definition limiter_exec :: "limiter_event list \<Rightarrow> limiter_state \<Rightarrow> limiter_state" where
  "limiter_exec evs st = fold limiter_step evs st"

text \<open>What an event does at the request limiter, and when it starts a computation.\<close>

definition rpm_tried :: "limiter_event \<Rightarrow> limiter_state \<Rightarrow> (rat \<times> rat) list" where
  "rpm_tried ev st = (case ev of
     Advance i now \<Rightarrow>
       (case map_of (ls_requests st) i of
          Some (AtRpm t) \<Rightarrow> if ls_clock st \<le> now \<and> t \<le> now then [(now, 1)] else []
        | _ \<Rightarrow> [])
   | _ \<Rightarrow> [])"

definition compute_started :: "limiter_event \<Rightarrow> limiter_state \<Rightarrow> rat list" where
  "compute_started ev st = (case ev of
     Advance i now \<Rightarrow>
       (case map_of (ls_requests st) i of
          Some (AtSemaphore t) \<Rightarrow>
            if ls_clock st \<le> now \<and> t \<le> now \<and> lc_semaphore (ls_class st) \<notin> {None, Some 0} then [now] else []
        | _ \<Rightarrow> [])
   | _ \<Rightarrow> [])"

fun rpm_attempts :: "limiter_event list \<Rightarrow> limiter_state \<Rightarrow> (rat \<times> rat) list" where
  "rpm_attempts [] st = []"
| "rpm_attempts (ev # evs) st = rpm_tried ev st @ rpm_attempts evs (limiter_step ev st)"

fun compute_starts :: "limiter_event list \<Rightarrow> limiter_state \<Rightarrow> rat list" where
  "compute_starts [] st = []"
| "compute_starts (ev # evs) st = compute_started ev st @ compute_starts evs (limiter_step ev st)"

lemma limiter_exec_simps [simp]:
  "limiter_exec [] st = st" "limiter_exec (ev # evs) st = limiter_exec evs (limiter_step ev st)"
  by (simp_all add: limiter_exec_def)

text \<open>The three ways an event changes the phase of a request.\<close>

lemma limiter_step_cases:
  obtains (stay) "ls_class (limiter_step ev st) = ls_class st" "ls_requests (limiter_step ev st) = ls_requests st"
      "rpm_tried ev st = []" "compute_started ev st = []" "ls_clock st \<le> ls_clock (limiter_step ev st)"
  | (submit) i now where "ev = Submit i now" "ls_clock st \<le> now" "i \<notin> fst ` set (ls_requests st)"
      "limiter_step ev st = st\<lparr>ls_clock := now, ls_requests := AList.update i (AtRpm now) (ls_requests st)\<rparr>"
  | (advance) i now ph where "ev = Advance i now" "ls_clock st \<le> now" "map_of (ls_requests st) i = Some ph"
      "ph \<in> {AtRpm t | t. t \<le> now} \<union> {AtTpm t | t. t \<le> now} \<union> {AtSemaphore t | t. t \<le> now \<and> lc_semaphore (ls_class st) \<noteq> Some 0}"
      "limiter_step ev st = advance_request i now ph (st\<lparr>ls_clock := now\<rparr>)"
  | (complete) i out where "ev = Complete i out" "map_of (ls_requests st) i = Some Computing"
      "limiter_step ev st = st\<lparr>ls_class := (ls_class st)\<lparr>lc_semaphore := map_option Suc (lc_semaphore (ls_class st))\<rparr>,
         ls_requests := AList.update i (Finished (reward_result out)) (ls_requests st)\<rparr>"
proof (cases ev)
  case (Submit i now)
  show thesis
  proof (cases "now < ls_clock st \<or> i \<in> fst ` set (ls_requests st)")
    case True
    with Submit show thesis by (intro stay) (auto simp: limiter_step_def rpm_tried_def compute_started_def)
  next
    case False
    with Submit show thesis by (intro submit) (auto simp: limiter_step_def)
  qed
next
  case (Advance i now)
  show thesis
  proof (cases "ls_clock st \<le> now \<and> (\<exists>ph. map_of (ls_requests st) i = Some ph \<and>
      ph \<in> {AtRpm t | t. t \<le> now} \<union> {AtTpm t | t. t \<le> now} \<union> {AtSemaphore t | t. t \<le> now \<and> lc_semaphore (ls_class st) \<noteq> Some 0})")
    case True
    then obtain ph where "map_of (ls_requests st) i = Some ph" "ls_clock st \<le> now"
      "ph \<in> {AtRpm t | t. t \<le> now} \<union> {AtTpm t | t. t \<le> now} \<union> {AtSemaphore t | t. t \<le> now \<and> lc_semaphore (ls_class st) \<noteq> Some 0}"
      by blast
    with Advance show thesis by (intro advance) (auto simp: limiter_step_def)
  next
    case False
    show thesis
    proof (cases "map_of (ls_requests st) i")
      case None
      with Advance show thesis by (intro stay) (auto simp: limiter_step_def rpm_tried_def compute_started_def)
    next
      case (Some ph)
      show thesis
      proof (cases "ls_clock st \<le> now")
        case True
        with False Some have n: "ph \<notin> {AtRpm t | t. t \<le> now} \<union> {AtTpm t | t. t \<le> now} \<union>
            {AtSemaphore t | t. t \<le> now \<and> lc_semaphore (ls_class st) \<noteq> Some 0}" by blast
        then have "advance_request i now ph (st\<lparr>ls_clock := now\<rparr>) = st\<lparr>ls_clock := now\<rparr>"
          by (cases ph) (auto simp: advance_request_def Let_def not_le)
        then have "limiter_step ev st = st\<lparr>ls_clock := now\<rparr>" using Advance Some True by (simp add: limiter_step_def)
        moreover have "rpm_tried ev st = []" "compute_started ev st = []"
          using n Advance Some by (cases ph; simp add: rpm_tried_def compute_started_def)+
        ultimately show thesis using True by (intro stay) simp_all
      next
        case False
        with Advance Some show thesis
          by (intro stay) (cases ph; simp add: limiter_step_def rpm_tried_def compute_started_def)+
      qed
    qed
  qed
next
  case (Complete i out)
  show thesis
  proof (cases "map_of (ls_requests st) i = Some Computing")
    case True
    with Complete show thesis by (intro complete) (auto simp: limiter_step_def)
  next
    case False
    with Complete show thesis by (intro stay) (auto simp: limiter_step_def rpm_tried_def compute_started_def)
  qed
qed

lemma advance_request_wf: "dict_wf (ls_requests st) \<Longrightarrow> dict_wf (ls_requests (advance_request i now ph st))"
  by (cases ph) (simp_all add: advance_request_def Let_def split_beta split: option.split)

lemma advance_request_clock: "ls_clock (advance_request i now ph st) = ls_clock st"
  by (cases ph) (simp_all add: advance_request_def Let_def split_beta split: option.split)

lemma limiter_step_wf: "dict_wf (ls_requests st) \<Longrightarrow> dict_wf (ls_requests (limiter_step ev st))"
  by (rule limiter_step_cases[of ev st]) (simp_all add: advance_request_wf)

lemma limiter_step_clock: "ls_clock st \<le> ls_clock (limiter_step ev st)"
  by (rule limiter_step_cases[of ev st]) (simp_all add: advance_request_clock)

text \<open>Sums over the requests: an update replaces one summand.\<close>

lemma sum_requests_update:
  fixes f :: "request_phase \<Rightarrow> 'a :: ab_group_add"
  assumes "dict_wf d"
  shows "sum_list (map (f \<circ> snd) (AList.update i p d)) =
    sum_list (map (f \<circ> snd) d) + f p - (case map_of d i of None \<Rightarrow> 0 | Some q \<Rightarrow> f q)"
  using assms
proof (induction d)
  case (Cons x d)
  obtain k v where x: "x = (k, v)" by (cases x)
  show ?case
  proof (cases "k = i")
    case True
    then show ?thesis using x by simp
  next
    case False
    then show ?thesis using Cons x by (simp add: dict_wf_def algebra_simps)
  qed
qed simp

definition computing_count :: "limiter_state \<Rightarrow> int" where
  "computing_count st = sum_list (map ((\<lambda>p. if p = Computing then 1 else 0) \<circ> snd) (ls_requests st))"

definition semaphore_inv :: "nat \<Rightarrow> limiter_state \<Rightarrow> bool" where
  "semaphore_inv n st \<longleftrightarrow> dict_wf (ls_requests st) \<and>
     (\<exists>free. lc_semaphore (ls_class st) = Some free \<and> int free + computing_count st = int n)"

lemma limiter_attempt_phase:
  assumes "limiter_attempt now n again onward b = (b1, p)"
  shows "(\<exists>t. p = again t \<or> p = onward t) \<or> (\<exists>e. p = Crashed e)"
  using assms by (auto simp: limiter_attempt_def split: option.splits prod.splits tb_outcome.splits)

lemma semaphore_inv_step:
  assumes inv: "semaphore_inv n st"
  shows "semaphore_inv n (limiter_step ev st)"
proof -
  obtain free where free: "lc_semaphore (ls_class st) = Some free" "int free + computing_count st = int n"
    and wf: "dict_wf (ls_requests st)" using inv by (auto simp: semaphore_inv_def)
  note count = computing_count_def sum_requests_update[OF wf]
  show ?thesis
  proof (rule limiter_step_cases[of ev st])
    assume "ls_class (limiter_step ev st) = ls_class st" "ls_requests (limiter_step ev st) = ls_requests st"
    with inv show ?thesis by (simp add: semaphore_inv_def computing_count_def)
  next
    fix i now
    assume "i \<notin> fst ` set (ls_requests st)"
      "limiter_step ev st = st\<lparr>ls_clock := now, ls_requests := AList.update i (AtRpm now) (ls_requests st)\<rparr>"
    then show ?thesis using free wf by (simp add: semaphore_inv_def count map_of_eq_None_iff[symmetric, THEN iffD1] map_of_eq_None_iff)
  next
    fix i out
    assume "map_of (ls_requests st) i = Some Computing"
      "limiter_step ev st = st\<lparr>ls_class := (ls_class st)\<lparr>lc_semaphore := map_option Suc (lc_semaphore (ls_class st))\<rparr>,
         ls_requests := AList.update i (Finished (reward_result out)) (ls_requests st)\<rparr>"
    then show ?thesis using free wf by (simp add: semaphore_inv_def count)
  next
    fix i now ph
    assume ph: "map_of (ls_requests st) i = Some ph"
      "ph \<in> {AtRpm t | t. t \<le> now} \<union> {AtTpm t | t. t \<le> now} \<union> {AtSemaphore t | t. t \<le> now \<and> lc_semaphore (ls_class st) \<noteq> Some 0}"
      and st: "limiter_step ev st = advance_request i now ph (st\<lparr>ls_clock := now\<rparr>)"
    from ph(2) consider (rpm) t where "ph = AtRpm t" "t \<le> now" | (tpm) t where "ph = AtTpm t" "t \<le> now"
      | (sem) t where "ph = AtSemaphore t" "t \<le> now" "free \<noteq> 0" using free by auto
    then show ?thesis
    proof cases
      case rpm
      obtain b p where l: "limiter_attempt now 1 AtRpm AtTpm (lc_rpm (ls_class st)) = (b, p)" by (rule prod.exhaust)
      have "p \<noteq> Computing" using limiter_attempt_phase[OF l] by auto
      then show ?thesis using rpm free wf ph(1) l unfolding st by (simp add: semaphore_inv_def count advance_request_def)
    next
      case tpm
      obtain b p where l: "limiter_attempt now (case lc_tokens_per_request (ls_class st) of None \<Rightarrow> 0 | Some n \<Rightarrow> n) AtTpm AtSemaphore
          (lc_tpm (ls_class st)) = (b, p)" by (rule prod.exhaust)
      have "p \<noteq> Computing" using limiter_attempt_phase[OF l] by auto
      then show ?thesis using tpm free wf ph(1) l unfolding st by (simp add: semaphore_inv_def count advance_request_def)
    next
      case sem
      then show ?thesis using free wf ph(1) unfolding st by (simp add: semaphore_inv_def count advance_request_def)
    qed
  qed
qed

lemma semaphore_inv_exec: "semaphore_inv n st \<Longrightarrow> semaphore_inv n (limiter_exec evs st)"
  by (induction evs arbitrary: st) (simp_all add: semaphore_inv_step)

definition limiter_ok :: "limiter_state \<Rightarrow> bool" where
  "limiter_ok st \<longleftrightarrow> dict_wf (ls_requests st) \<and>
     (case lc_rpm (ls_class st) of None \<Rightarrow> True | Some b \<Rightarrow> bucket_ok (ls_clock st) b) \<and>
     (case lc_tpm (ls_class st) of None \<Rightarrow> True | Some b \<Rightarrow> bucket_ok (ls_clock st) b) \<and>
     (case lc_tokens_per_request (ls_class st) of None \<Rightarrow> True | Some n \<Rightarrow> 0 \<le> n)"

text \<open>A request counts as let through by time \<open>u\<close> when its sleep after the request limiter ends by \<open>u\<close>.\<close>

definition let_through :: "rat \<Rightarrow> request_phase \<Rightarrow> rat" where
  "let_through u p = (case p of AtTpm t \<Rightarrow> if t \<le> u then 1 else 0 | AtSemaphore t \<Rightarrow> if t \<le> u then 1 else 0 | _ \<Rightarrow> 0)"

lemma limiter_attempt_ok:
  assumes "case b of None \<Rightarrow> True | Some b \<Rightarrow> bucket_ok now b" "0 \<le> n" "limiter_attempt now n again onward b = (b1, p)"
  shows "case b1 of None \<Rightarrow> True | Some b \<Rightarrow> bucket_ok now b" "\<exists>t \<ge> now. p = again t \<or> p = onward t"
proof -
  have "(case b1 of None \<Rightarrow> True | Some b \<Rightarrow> bucket_ok now b) \<and> (\<exists>t \<ge> now. p = again t \<or> p = onward t)"
  proof (cases b)
    case None
    then show ?thesis using assms(3) by (auto simp: limiter_attempt_def)
  next
    case (Some b0)
    obtain b2 out where a: "tb_attempt now n b0 = (b2, out)" by (rule prod.exhaust)
    have "bucket_ok now b0" using assms(1) Some by simp
    note r = tb_attempt_ok[OF this assms(2) a]
    show ?thesis
    proof (cases out)
      case (Granted w)
      then have "b1 = Some b2" "p = onward (now + w)" using assms(3) Some a by (simp_all add: limiter_attempt_def)
      with r Granted show ?thesis by (auto intro!: exI[of _ "now + w"])
    next
      case (Retry w)
      then have "b1 = Some b2" "p = again (now + w)" using assms(3) Some a by (simp_all add: limiter_attempt_def)
      with r Retry show ?thesis by (auto intro!: exI[of _ "now + w"])
    qed (use r in simp)
  qed
  then show "case b1 of None \<Rightarrow> True | Some b \<Rightarrow> bucket_ok now b" "\<exists>t \<ge> now. p = again t \<or> p = onward t" by blast+
qed

lemma limiter_ok_step:
  assumes ok: "limiter_ok st"
  shows "limiter_ok (limiter_step ev st)"
proof (rule limiter_step_cases[of ev st])
  assume "ls_class (limiter_step ev st) = ls_class st" "ls_clock st \<le> ls_clock (limiter_step ev st)"
  with ok limiter_step_wf[of st ev] show ?thesis by (auto simp: limiter_ok_def bucket_ok_mono split: option.splits)
next
  fix i now
  assume "ls_clock st \<le> now"
    "limiter_step ev st = st\<lparr>ls_clock := now, ls_requests := AList.update i (AtRpm now) (ls_requests st)\<rparr>"
  with ok show ?thesis by (auto simp: limiter_ok_def bucket_ok_mono split: option.splits)
next
  fix i out
  assume "limiter_step ev st = st\<lparr>ls_class := (ls_class st)\<lparr>lc_semaphore := map_option Suc (lc_semaphore (ls_class st))\<rparr>,
         ls_requests := AList.update i (Finished (reward_result out)) (ls_requests st)\<rparr>"
  with ok show ?thesis by (auto simp: limiter_ok_def split: option.splits)
next
  fix i now ph
  assume now: "ls_clock st \<le> now"
    and ph: "ph \<in> {AtRpm t | t. t \<le> now} \<union> {AtTpm t | t. t \<le> now} \<union> {AtSemaphore t | t. t \<le> now \<and> lc_semaphore (ls_class st) \<noteq> Some 0}"
    and st: "limiter_step ev st = advance_request i now ph (st\<lparr>ls_clock := now\<rparr>)"
  let ?est = "case lc_tokens_per_request (ls_class st) of None \<Rightarrow> 0 | Some n \<Rightarrow> n"
  have b: "case lc_rpm (ls_class st) of None \<Rightarrow> True | Some b \<Rightarrow> bucket_ok now b"
    "case lc_tpm (ls_class st) of None \<Rightarrow> True | Some b \<Rightarrow> bucket_ok now b" "0 \<le> ?est" "dict_wf (ls_requests st)"
    using ok now by (auto simp: limiter_ok_def bucket_ok_mono split: option.splits)
  obtain b1 p1 where l1: "limiter_attempt now 1 AtRpm AtTpm (lc_rpm (ls_class st)) = (b1, p1)" by (rule prod.exhaust)
  obtain b2 p2 where l2: "limiter_attempt now ?est AtTpm AtSemaphore (lc_tpm (ls_class st)) = (b2, p2)" by (rule prod.exhaust)
  note o1 = limiter_attempt_ok(1)[OF b(1) zero_le_one l1] and o2 = limiter_attempt_ok(1)[OF b(2,3) l2]
  have est: "case lc_tokens_per_request (ls_class st) of None \<Rightarrow> True | Some n \<Rightarrow> 0 \<le> n" using ok by (simp add: limiter_ok_def)
  from ph consider (rpm) t where "ph = AtRpm t" "t \<le> now" | (tpm) t where "ph = AtTpm t" "t \<le> now"
    | (sem) t where "ph = AtSemaphore t" "t \<le> now" by auto
  then show ?thesis
  proof cases
    case rpm
    then show ?thesis using b o1 l1 est unfolding st by (simp add: limiter_ok_def advance_request_def cong del: option.case_cong_weak)
  next
    case tpm
    then show ?thesis using b o2 l2 est unfolding st by (simp add: limiter_ok_def advance_request_def cong del: option.case_cong_weak)
  next
    case sem
    then show ?thesis using b est unfolding st
      by (cases "lc_semaphore (ls_class st)") (simp_all add: limiter_ok_def advance_request_def cong del: option.case_cong_weak)
  qed
qed

lemma tb_run_append:
  "tb_run (xs @ ys) b = (fst (tb_run ys (fst (tb_run xs b))), snd (tb_run xs b) @ snd (tb_run ys (fst (tb_run xs b))))"
  by (induction xs b rule: tb_run.induct) (auto split: prod.splits)

lemma granted_in_append: "granted_in s u (xs @ ys) = granted_in s u xs + granted_in s u ys"
  by (simp add: granted_in_def)

definition through_sum :: "rat \<Rightarrow> limiter_state \<Rightarrow> rat" where
  "through_sum u st = sum_list (map (let_through u \<circ> snd) (ls_requests st))"

lemma through_step:
  assumes ok: "limiter_ok st" and b: "lc_rpm (ls_class st) = Some b" and t0: "t0 \<le> ls_clock st"
  shows "lc_rpm (ls_class (limiter_step ev st)) = Some (fst (tb_run (rpm_tried ev st) b)) \<and>
    through_sum u (limiter_step ev st) + of_nat (length (filter (\<lambda>t. t \<le> u) (compute_started ev st))) \<le>
      through_sum u st + granted_in t0 u (snd (tb_run (rpm_tried ev st) b))"
proof (rule limiter_step_cases[of ev st])
  assume "ls_class (limiter_step ev st) = ls_class st" "ls_requests (limiter_step ev st) = ls_requests st"
    "rpm_tried ev st = []" "compute_started ev st = []"
  with b show ?thesis by (simp add: through_sum_def)
next
  have wf: "dict_wf (ls_requests st)" using ok by (simp add: limiter_ok_def)
  note sum = through_sum_def sum_requests_update[OF wf] let_through_def
  {
    fix i now
    assume "ev = Submit i now" "i \<notin> fst ` set (ls_requests st)"
      "limiter_step ev st = st\<lparr>ls_clock := now, ls_requests := AList.update i (AtRpm now) (ls_requests st)\<rparr>"
    moreover from this have "map_of (ls_requests st) i = None" by (simp add: map_of_eq_None_iff)
    ultimately show ?thesis using b by (simp add: sum rpm_tried_def compute_started_def)
  next
    fix i out
    assume "ev = Complete i out" "map_of (ls_requests st) i = Some Computing"
      "limiter_step ev st = st\<lparr>ls_class := (ls_class st)\<lparr>lc_semaphore := map_option Suc (lc_semaphore (ls_class st))\<rparr>,
         ls_requests := AList.update i (Finished (reward_result out)) (ls_requests st)\<rparr>"
    then show ?thesis using b by (simp add: sum rpm_tried_def compute_started_def)
  next
    fix i now ph
    assume ev: "ev = Advance i now" and now: "ls_clock st \<le> now" and i: "map_of (ls_requests st) i = Some ph"
      and ph: "ph \<in> {AtRpm t | t. t \<le> now} \<union> {AtTpm t | t. t \<le> now} \<union> {AtSemaphore t | t. t \<le> now \<and> lc_semaphore (ls_class st) \<noteq> Some 0}"
      and st: "limiter_step ev st = advance_request i now ph (st\<lparr>ls_clock := now\<rparr>)"
    from ph consider (rpm) t where "ph = AtRpm t" "t \<le> now" | (tpm) t where "ph = AtTpm t" "t \<le> now"
      | (sem) t where "ph = AtSemaphore t" "t \<le> now" "lc_semaphore (ls_class st) \<noteq> Some 0" by auto
    then show ?thesis
    proof cases
      case rpm
      obtain b1 out where a: "tb_attempt now 1 b = (b1, out)" by (rule prod.exhaust)
      have tried: "rpm_tried ev st = [(now, 1)]" "compute_started ev st = []"
        using ev i rpm now by (simp_all add: rpm_tried_def compute_started_def)
      show ?thesis
        unfolding st tried using rpm i b a now t0
        by (cases out) (simp_all add: advance_request_def limiter_attempt_def sum granted_in_Cons)
    next
      case tpm
      let ?est = "case lc_tokens_per_request (ls_class st) of None \<Rightarrow> 0 | Some n \<Rightarrow> n"
      obtain b2 p2 where l2: "limiter_attempt now ?est AtTpm AtSemaphore (lc_tpm (ls_class st)) = (b2, p2)" by (rule prod.exhaust)
      have "case lc_tpm (ls_class st) of None \<Rightarrow> True | Some b \<Rightarrow> bucket_ok now b" "0 \<le> ?est"
        using ok now by (auto simp: limiter_ok_def bucket_ok_mono split: option.splits)
      from limiter_attempt_ok(2)[OF this l2] obtain t2 where t2: "now \<le> t2" "p2 = AtTpm t2 \<or> p2 = AtSemaphore t2" by blast
      have tried: "rpm_tried ev st = []" "compute_started ev st = []"
        using ev i tpm by (simp_all add: rpm_tried_def compute_started_def)
      show ?thesis
        unfolding st tried using tpm i b l2 t2 by (auto simp: advance_request_def sum)
    next
      case sem
      have tried: "rpm_tried ev st = []" using ev i sem by (simp add: rpm_tried_def)
      show ?thesis
        unfolding st tried using sem i b now ev
        by (auto simp: advance_request_def sum compute_started_def split: option.split)
    qed
  }
qed

lemma rpm_attempts_sorted:
  "t0 \<le> ls_clock st \<Longrightarrow> sorted (t0 # map fst (rpm_attempts evs st)) \<and> (\<forall>(now, n) \<in> set (rpm_attempts evs st). n = 1)"
proof (induction evs arbitrary: st t0)
  case (Cons ev evs)
  let ?st = "limiter_step ev st"
  have clock: "ls_clock st \<le> ls_clock ?st" by (rule limiter_step_clock)
  consider "rpm_tried ev st = []" | now where "rpm_tried ev st = [(now, 1)]" "ls_clock st \<le> now" "ls_clock ?st = now"
  proof (cases "rpm_tried ev st = []")
    case False
    then obtain i now t where e: "ev = Advance i now" "map_of (ls_requests st) i = Some (AtRpm t)" "ls_clock st \<le> now" "t \<le> now"
      by (auto simp: rpm_tried_def split: limiter_event.splits option.splits request_phase.splits if_splits)
    then have "rpm_tried ev st = [(now, 1)]" "ls_clock ?st = now"
      by (auto simp: rpm_tried_def limiter_step_def advance_request_def Let_def split: prod.split)
    with e that(2) show thesis by blast
  qed (use that in blast)
  then show ?case
  proof cases
    case 1
    with Cons.IH[of t0 ?st] Cons.prems clock show ?thesis by simp
  next
    case 2
    with Cons.IH[of now ?st] Cons.prems show ?thesis by auto
  qed
qed simp

lemma through_exec:
  assumes "limiter_ok st" "lc_rpm (ls_class st) = Some b" "t0 \<le> ls_clock st"
  shows "through_sum u (limiter_exec evs st) + of_nat (length (filter (\<lambda>t. t \<le> u) (compute_starts evs st))) \<le>
    through_sum u st + granted_in t0 u (snd (tb_run (rpm_attempts evs st) b))"
  using assms
proof (induction evs arbitrary: st b)
  case (Cons ev evs)
  note step = through_step[OF Cons.prems, of ev u]
  have "t0 \<le> ls_clock (limiter_step ev st)" using limiter_step_clock[of st ev] Cons.prems(3) by linarith
  from Cons.IH[OF limiter_ok_step[OF Cons.prems(1)] conjunct1[OF step] this] step
  show ?case by (simp add: tb_run_append granted_in_append)
qed simp

lemma through_sum_nonneg: "0 \<le> through_sum u st"
  unfolding through_sum_def by (intro sum_list_nonneg) (auto simp: let_through_def split: request_phase.splits)

section \<open>Rows and extra information\<close>

lemma append_info_get: "dict_get (append_info (k, v) acc) k' [] = dict_get acc k' [] @ (if k' = k then [v] else [])"
  by (simp add: append_info_def dict_get_update)

lemma length_map_filter_iff: "length (List.map_filter f xs) = length xs \<longleftrightarrow> (\<forall>x \<in> set xs. f x \<noteq> None)"
proof -
  have le: "length (List.map_filter f xs) \<le> length xs" for xs
    by (induction xs) (auto simp: map_filter_simps split: option.split)
  show ?thesis
  proof (induction xs)
    case (Cons x xs)
    then show ?case using le[of xs] by (auto simp: map_filter_simps split: option.split)
  qed (simp add: map_filter_simps)
qed

lemma fold_append_info:
  "dict_wf info \<Longrightarrow> dict_get (fold append_info info acc) k [] = dict_get acc k [] @ (case map_of info k of None \<Rightarrow> [] | Some v \<Rightarrow> [v])"
proof (induction info arbitrary: acc)
  case (Cons x info)
  obtain k' v where x: "x = (k', v)" by (cases x)
  have "map_of info k' = None" using Cons.prems x by (simp add: dict_wf_def map_of_eq_None_iff)
  moreover have "dict_wf info" using Cons.prems by (simp add: dict_wf_def)
  ultimately show ?case using Cons.IH[of "append_info x acc"] by (simp add: x append_info_get)
qed simp

lemma fold_results_info:
  "\<forall>(r, info) \<in> set results. dict_wf info \<Longrightarrow>
   dict_get (fold (\<lambda>(reward, info). fold append_info info) results acc) k [] =
     dict_get acc k [] @ List.map_filter (\<lambda>(r, info). map_of info k) results"
proof (induction results arbitrary: acc)
  case (Cons x results)
  obtain r info where x: "x = (r, info)" by (cases x)
  with Cons show ?case by (simp add: fold_append_info map_filter_simps split: option.split)
qed (simp add: map_filter_simps)

lemma fold_dict_update_wf: "dict_wf acc \<Longrightarrow> dict_wf (fold (\<lambda>(k, v). AList.update k v) d acc)"
  by (induction d arbitrary: acc) (auto split: prod.split)

lemma reward_result_wf: "dict_wf (snd (reward_result out))"
proof (cases out)
  case (ScoreDict d)
  then show ?thesis
    by (simp add: reward_result_def reward_failed_def fold_dict_update_wf split: option.split) (simp add: dict_wf_def)
qed (simp_all add: reward_result_def reward_failed_def dict_wf_def)

section \<open>Properties\<close>

text \<open>
  C11: the token bucket limits the rate whatever the interleaving: over any window, the tokens of
  the requests made and answered within it are at most the capacity plus the rate times the length
  of the window, also when requests larger than the capacity drive the bucket negative.
\<close>

theorem bucket_rate_limit:
  assumes "0 < rate" "sorted (map fst atts)" "\<forall>(now, n) \<in> set atts. 0 \<le> n" "s \<le> u" "0 \<le> tb_max (new_bucket rate m)"
  shows "granted_in s u (snd (tb_run atts (new_bucket rate m))) \<le> tb_max (new_bucket rate m) + rate * (u - s)"
proof -
  let ?t = "if atts = [] then s else min s (fst (hd atts))"
  have "sorted (?t # map fst atts)" using assms(2) by (cases atts) auto
  from granted_window[OF new_bucket_ok[OF assms(1)] _ this assms(3,4,5)]
  show ?thesis by (simp add: new_bucket_def Let_def)
qed

theorem bucket_rate_limit_witness:
  "granted_in 0 1 (snd (tb_run [(0, 1), (0, 1), (1 / 2, 1), (1, 5)] (new_bucket 1 (Some 2)))) \<le> 3"
  using bucket_rate_limit[of 1 "[(0, 1), (0, 1), (1 / 2, 1), (1, 5)]" 0 1 "Some 2"] by (simp add: new_bucket_def)

text \<open>
  A request within the capacity that has to wait is granted at its next attempt if nobody
  takes tokens during its sleep: an undisturbed \<open>acquire\<close> makes at most two turns.
\<close>

theorem bucket_retry_granted:
  assumes "bucket_ok now b" "0 \<le> n" "tb_attempt now n b = (b1, Retry w)" "now + w \<le> later"
  shows "0 < w \<and> snd (tb_attempt later n b1) = Granted 0"
proof -
  have fr: "tb_rate b1 = tb_rate b" "tb_max b1 = tb_max b" using tb_attempt_frame[OF assms(3)] .
  have r: "n \<le> tb_max b" "0 < w" "w * tb_rate b = n - tb_level now b" "0 < tb_rate b"
    using tb_attempt_ok[OF assms(1,2,3)] assms(1) by (simp_all add: bucket_ok_def)
  have b1: "tb_tokens b1 = tb_level now b" "tb_last b1 = Some now"
    using assms(3) by (auto simp: tb_attempt_def Let_def split: if_splits)
  have "w * tb_rate b \<le> (later - now) * tb_rate b" using assms(4) r(4) by (intro mult_right_mono) auto
  then have "n \<le> tb_level later b1" using r b1 fr by (simp add: tb_level_def[of later] tb_since_def)
  with r fr show ?thesis by (simp add: tb_attempt_def Let_def)
qed

theorem bucket_retry_granted_witness:
  "snd (tb_attempt 3 1 \<lparr>tb_rate = 1, tb_max = 1, tb_tokens = 1 / 2, tb_last = Some 2\<rparr>) = Granted 0"
proof -
  let ?b = "\<lparr>tb_rate = 1, tb_max = 1, tb_tokens = 0, tb_last = Some (3 / 2)\<rparr>"
  have "bucket_ok 2 ?b" by (simp add: bucket_ok_def)
  moreover have "tb_attempt 2 1 ?b = (\<lparr>tb_rate = 1, tb_max = 1, tb_tokens = 1 / 2, tb_last = Some 2\<rparr>, Retry (1 / 2))"
    by (simp add: tb_attempt_def tb_level_def tb_since_def Let_def)
  ultimately show ?thesis using bucket_retry_granted[of 2 ?b 1 _ "1 / 2" 3] by simp
qed

text \<open>
  A limit of zero per minute does not block requests, it breaks them: every attempt raises
  \<open>ZeroDivisionError\<close>, although \<open>acquire\<close> is documented to raise nothing.
\<close>

theorem zero_limit_raises:
  assumes "per_minute_bucket (Some 0) = Some b" "\<forall>(now, n) \<in> set atts. 0 < n"
  shows "\<forall>(now, n, out) \<in> set (snd (tb_run atts b)). out = Raised ZeroDivisionError"
proof -
  have "tb_rate b = 0 \<and> tb_max b = 0 \<and> tb_tokens b = 0"
    using assms(1) by (auto simp: per_minute_bucket_def new_bucket_def)
  then show ?thesis using assms(2)
  proof (induction atts arbitrary: b)
    case (Cons a atts)
    obtain now n where a: "a = (now, n)" by (cases a)
    let ?b = "b\<lparr>tb_tokens := 0, tb_last := Some (tb_since now b)\<rparr>"
    have "tb_attempt now n b = (?b, Raised ZeroDivisionError)"
      using Cons.prems a by (simp add: tb_attempt_def tb_level_def)
    moreover have "\<forall>(now, n, out) \<in> set (snd (tb_run atts ?b)). out = Raised ZeroDivisionError"
      using Cons.IH[of ?b] Cons.prems by simp
    ultimately show ?case by (auto simp: a split: prod.splits)
  qed simp
qed

theorem zero_limit_raises_witness:
  "list_all (\<lambda>(now, n, out). out = Raised ZeroDivisionError) (snd (tb_run [(0, 1), (5, 2000)] (new_bucket 0 (Some 0))))"
proof -
  have "per_minute_bucket (Some 0) = Some (new_bucket 0 (Some 0))" by (simp add: per_minute_bucket_def)
  from zero_limit_raises[OF this, of "[(0, 1), (5, 2000)]"] show ?thesis unfolding list_all_iff by simp
qed

text \<open>The class after its first initialisation, with no request yet.\<close>

definition limiter_start :: "reward_cfg \<Rightarrow> rat \<Rightarrow> limiter_state" where
  "limiter_start cfg t0 = \<lparr>ls_class = fst (init_class cfg limiter_class_start), ls_clock = t0, ls_requests = []\<rparr>"

text \<open>
  At no moment do more than \<open>max_concurrent\<close> reward computations run, and the free places of the
  semaphore and the running computations always add up to it: timeouts and exceptions give their place back.
\<close>

theorem concurrency_bound:
  assumes "rc_max_concurrent cfg = Some (int n)"
  shows "\<exists>free. lc_semaphore (ls_class (limiter_exec evs (limiter_start cfg t0))) = Some free \<and>
    int free + computing_count (limiter_exec evs (limiter_start cfg t0)) = int n \<and>
    computing_count (limiter_exec evs (limiter_start cfg t0)) \<le> int n"
proof -
  have "semaphore_inv n (limiter_start cfg t0)"
    using assms by (simp add: semaphore_inv_def limiter_start_def init_class_def limiter_class_start_def computing_count_def Let_def)
  then have "semaphore_inv n (limiter_exec evs (limiter_start cfg t0))" by (rule semaphore_inv_exec)
  then show ?thesis by (auto simp: semaphore_inv_def)
qed

definition demo_limits :: reward_cfg where
  "demo_limits = \<lparr>rc_max_concurrent = Some 1, rc_max_rpm = Some 60, rc_max_tpm = None, rc_tokens_per_request = None\<rparr>"

theorem concurrency_bound_witness:
  "computing_count (limiter_exec [Submit 0 0, Advance 0 0, Advance 0 0, Advance 0 0] (limiter_start demo_limits 0)) \<le> 1"
  using concurrency_bound[of demo_limits 1 "[Submit 0 0, Advance 0 0, Advance 0 0, Advance 0 0]" 0] by (auto simp: demo_limits_def)

text \<open>
  With a request limit of \<open>m\<close> per minute, the reward computations started within a time after the first
  initialisation are at most \<open>m / 60\<close> for each second plus the initial burst of one second.
\<close>

theorem started_within_limit:
  assumes "rc_max_rpm cfg = Some m" "0 < m" "case rc_max_concurrent cfg of None \<Rightarrow> True | Some n \<Rightarrow> 0 \<le> n"
    "case rc_max_tpm cfg of None \<Rightarrow> True | Some t \<Rightarrow> 0 < t" "case rc_tokens_per_request cfg of None \<Rightarrow> True | Some n \<Rightarrow> 0 \<le> n" "t0 \<le> u"
  shows "of_nat (length (filter (\<lambda>t. t \<le> u) (compute_starts evs (limiter_start cfg t0)))) \<le> m / 60 * (1 + (u - t0))"
proof -
  let ?st = "limiter_start cfg t0" and ?b = "new_bucket (m / 60) (Some (m / 60))"
  have n: "\<not> (case rc_max_concurrent cfg of None \<Rightarrow> 1 | Some n \<Rightarrow> n) < 0" using assms(3) by (auto split: option.splits)
  have st: "lc_rpm (ls_class ?st) = Some ?b" "ls_clock ?st = t0" "ls_requests ?st = []"
    "lc_tpm (ls_class ?st) = per_minute_bucket (rc_max_tpm cfg)"
    "lc_tokens_per_request (ls_class ?st) = Some (case rc_tokens_per_request cfg of None \<Rightarrow> 2000 | Some n \<Rightarrow> n)"
    using n assms(1) by (simp_all add: limiter_start_def init_class_def limiter_class_start_def Let_def per_minute_bucket_def)
  have ok: "bucket_ok t0 ?b" using assms(2) by (intro new_bucket_ok) simp
  have "limiter_ok ?st"
    unfolding limiter_ok_def st using ok assms(4,5)
    by (auto simp: per_minute_bucket_def new_bucket_ok split: option.splits)
  from through_exec[OF this st(1), of t0 u evs] through_sum_nonneg[of u "limiter_exec evs ?st"]
  have "of_nat (length (filter (\<lambda>t. t \<le> u) (compute_starts evs ?st))) \<le> granted_in t0 u (snd (tb_run (rpm_attempts evs ?st) ?b))"
    by (simp add: st through_sum_def)
  also have "\<dots> \<le> max 0 (tb_level t0 ?b + tb_rate ?b * (u - t0))"
    using rpm_attempts_sorted[of t0 ?st evs] by (intro granted_from_start[OF ok]) (auto simp: st)
  also have "\<dots> \<le> m / 60 * (1 + (u - t0))"
  proof -
    have l: "tb_level t0 ?b = m / 60" using assms(2) by (simp add: new_bucket_def tb_level_def tb_since_def Let_def)
    have r: "tb_rate ?b = m / 60" by (simp add: new_bucket_def Let_def)
    have "0 \<le> m / 60 * (1 + (u - t0))" using assms(2,6) by (intro mult_nonneg_nonneg) auto
    moreover have "m / 60 * (1 + (u - t0)) = m / 60 + m / 60 * (u - t0)" by (simp only: distrib_left mult_1_right)
    ultimately show ?thesis unfolding l r by linarith
  qed
  finally show ?thesis .
qed

text \<open>One slow computation holds the only place for ten seconds while five requests pass the request limiter.\<close>

definition demo_burst :: "limiter_event list" where
  "demo_burst =
     [Submit 0 0, Advance 0 0, Advance 0 0, Advance 0 0] @
     concat (map (\<lambda>i. [Submit i (of_nat i), Advance i (of_nat i), Advance i (of_nat i)]) [1, 2, 3, 4, 5]) @
     [Complete 0 TimedOut] @ concat (map (\<lambda>i. [Advance i 10, Complete i TimedOut]) [1, 2, 3, 4, 5])"

theorem started_within_limit_witness:
  "of_nat (length (filter (\<lambda>t. t \<le> 10) (compute_starts demo_burst (limiter_start demo_limits 0)))) \<le> (11 :: rat)"
  using started_within_limit[of demo_limits 60 0 10 demo_burst] by (simp add: demo_limits_def)

text \<open>
  The request limiter stands before the semaphore, so it does not limit the rate of the
  calls themselves: with one request per second, five computations start at the same instant.
\<close>

theorem semaphore_burst:
  "rc_max_rpm demo_limits = Some 60 \<and>
   length (filter (\<lambda>t. t = 10) (compute_starts demo_burst (limiter_start demo_limits 0))) = 5"
  by code_simp

text \<open>
  The reward of a response with between one and \<open>width\<close> valid tokens is written at its last valid token, all other
  entries being zero; for a response without valid tokens the index wraps to the last position of the row.
\<close>

theorem reward_at_last_valid_token:
  assumes "valid_response_length width attn_mask \<le> width" "0 < width"
  shows "\<exists>row. reward_row width attn_mask reward = Inr row \<and> length row = width \<and>
    (\<forall>i < width. row ! i =
      (if i = (if valid_response_length width attn_mask = 0 then width else valid_response_length width attn_mask) - 1
       then reward else Num 0))"
proof (cases "valid_response_length width attn_mask = 0")
  case True
  have "nat (int width - 1) = width - 1" by simp
  with True assms(2) show ?thesis by (auto simp: reward_row_def nth_list_update)
next
  case False
  then have "nat (int (valid_response_length width attn_mask) - 1) = valid_response_length width attn_mask - 1" by simp
  with False assms show ?thesis by (auto simp: reward_row_def nth_list_update)
qed

theorem reward_at_last_valid_token_witness:
  "\<exists>row. reward_row 3 [1, 1, 1, 1, 0] (Num 7) = Inr row \<and> row ! 1 = Num 7 \<and> row ! 2 = Num 0"
proof -
  have "valid_response_length 3 [1, 1, 1, 1, 0] = 2" by code_simp
  with reward_at_last_valid_token[of 3 "[1, 1, 1, 1, 0]" "Num 7"] show ?thesis by (auto simp: numeral_3_eq_3)
qed

text \<open>
  The extra information of a batch lists, for each key, the values of the results that have
  that key, in batch order; its length is the batch size only if every result has the key (a timeout adds a
  key of its own).
\<close>

theorem extra_info_columns:
  assumes "reward_manager_call items = Inr (rows, extra)"
  shows "length rows = length items \<and>
    dict_get extra k [] = List.map_filter (\<lambda>(width, attn_mask, out). map_of (snd (reward_result out)) k) items \<and>
    (length (dict_get extra k []) = length items \<longleftrightarrow> (\<forall>(width, attn_mask, out) \<in> set items. k \<in> fst ` set (snd (reward_result out))))"
proof -
  let ?results = "map (\<lambda>(width, attn_mask, out). reward_result out) items"
  have "extra = fold (\<lambda>(reward, info). fold append_info info) ?results []"
    and rows: "res_map (\<lambda>((width, attn_mask, out), reward, info). reward_row width attn_mask reward) (zip items ?results) = Inr rows"
    using assms by (auto simp: reward_manager_call_def Let_def res_bind_eq_Inr)
  moreover have "\<forall>(r, info) \<in> set ?results. dict_wf info" using reward_result_wf by (auto simp: split_beta)
  ultimately have "dict_get extra k [] = List.map_filter (\<lambda>(r, info). map_of info k) ?results"
    using fold_results_info[of ?results "[]" k] by simp
  also have "\<dots> = List.map_filter (\<lambda>(width, attn_mask, out). map_of (snd (reward_result out)) k) items"
    by (simp add: List.map_filter_def filter_map comp_def split_beta)
  finally have d: "dict_get extra k [] = List.map_filter (\<lambda>(width, attn_mask, out). map_of (snd (reward_result out)) k) items" .
  have "length rows = length items" using rows by (simp add: res_map_Inr_iff)
  moreover have "(\<forall>x \<in> set items. (\<lambda>(width, attn_mask, out). map_of (snd (reward_result out)) k) x \<noteq> None) \<longleftrightarrow>
      (\<forall>(width, attn_mask, out) \<in> set items. k \<in> fst ` set (snd (reward_result out)))"
    by (intro ball_cong refl) (auto simp: split_beta map_of_eq_None_iff simp del: not_None_eq)
  ultimately show ?thesis unfolding d length_map_filter_iff by blast
qed

theorem extra_info_columns_witness:
  "\<exists>rows extra. reward_manager_call [(2, [1, 1], ScoreValue (Num 1)), (2, [1, 1], TimedOut)] = Inr (rows, extra) \<and>
     length (dict_get extra ''timeout'' []) \<noteq> length rows"
proof -
  let ?items = "[(2, [1, 1], ScoreValue (Num 1)), (2, [1, 1], TimedOut)]"
  have "case reward_manager_call ?items of Inr _ \<Rightarrow> True | Inl _ \<Rightarrow> False" by code_simp
  then obtain rows extra where r: "reward_manager_call ?items = Inr (rows, extra)" by (auto split: sum.splits)
  have "\<not> (\<forall>(width, attn_mask, out) \<in> set ?items. ''timeout'' \<in> fst ` set (snd (reward_result out)))"
    by (simp add: reward_result_def)
  with extra_info_columns[OF r, of "''timeout''"] r show ?thesis by auto
qed

end
