(* ===== verification/Data_Proto.thy ===== *)
theory Data_Proto
  imports Prelude
begin

text \<open>
  The batch container of the trainer, \<open>DataProto\<close> of \<open>verl/protocol.py\<close>: a TensorDict, a dictionary of
  object arrays and a dictionary of meta information, which are sliced, indexed, padded, chunked,
  concatenated, repeated and united row by row. A tensor is the list of its rows (their content is a type
  parameter), a TensorDict its batch size with its named tensors. Every operation checks the consistency
  of the object it builds, as \<open>__post_init__\<close> does.
\<close>

section \<open>Values\<close>

text \<open>
  Elements of object arrays: a float (\<open>None\<close> is NaN), a nested array with its dtype and shape, or
  another object, given by its type and its value.
\<close>

datatype np_obj = NpFloat "rat option" | NpArray string "nat list" "np_obj list" | NpObject string int

text \<open>Meta information; \<open>metrics\<close> may hold dictionaries and lists of them.\<close>

datatype mval = MNone | MAtom int | MList "mval list" | MDict "(string \<times> mval) list"

record 't data_proto =
  dp_batch :: "(nat \<times> (string, 't list) dict) option"
  dp_non_tensor :: "(string, np_obj list) dict"
  dp_meta :: "(string, mval) dict"

definition dp_len :: "'t data_proto \<Rightarrow> nat" where
  "dp_len d = (case dp_batch d of Some (n, ts) \<Rightarrow> n
     | None \<Rightarrow> (case dp_non_tensor d of [] \<Rightarrow> 0 | (k, v) # _ \<Rightarrow> length v))"

text \<open>The constructor with \<open>check_consistency\<close>.\<close>

definition new_data_proto ::
  "(nat \<times> (string, 't list) dict) option \<Rightarrow> (string, np_obj list) dict \<Rightarrow> (string, mval) dict \<Rightarrow> 't data_proto result" where
  "new_data_proto batch nt meta =
     res_bind (py_assert (case batch of None \<Rightarrow> True | Some (n, ts) \<Rightarrow> \<forall>(k, v) \<in> set nt. length v = n)) (\<lambda>_.
       Inr \<lparr>dp_batch = batch, dp_non_tensor = nt, dp_meta = meta\<rparr>)"

text \<open>\<open>from_dict\<close>: the tensors must agree on their first dimension; without tensors there is no batch.\<close>

definition from_dict ::
  "(string, 't list) dict \<Rightarrow> (string, np_obj list) dict \<Rightarrow> (string, mval) dict \<Rightarrow> bool \<Rightarrow> 't data_proto result" where
  "from_dict tensors nt meta auto_padding =
     res_bind (py_assert (case tensors of [] \<Rightarrow> True | (_, v) # rest \<Rightarrow> \<forall>(_, w) \<in> set rest. length w = length v)) (\<lambda>_.
       new_data_proto (case tensors of [] \<Rightarrow> None | (_, v) # _ \<Rightarrow> Some (length v, tensors)) nt
         (if auto_padding then AList.update ''_verl_auto_padding'' (MAtom 1) meta else meta))"

definition map_values :: "('a \<Rightarrow> 'b) \<Rightarrow> ('k, 'a) dict \<Rightarrow> ('k, 'b) dict" where
  "map_values f d = map (\<lambda>(k, v). (k, f v)) d"

section \<open>Indexing\<close>

text \<open>Python's \<open>xs[start:stop]\<close>: negative bounds count from the end, all bounds are clipped.\<close>

definition slice_bound :: "nat \<Rightarrow> int \<Rightarrow> int option \<Rightarrow> nat" where
  "slice_bound n dflt b = (case b of None \<Rightarrow> nat dflt
     | Some i \<Rightarrow> nat (if i < 0 then max 0 (i + int n) else min i (int n)))"

definition py_slice :: "int option \<Rightarrow> int option \<Rightarrow> 'a list \<Rightarrow> 'a list" where
  "py_slice start stop xs =
     (let a = slice_bound (length xs) 0 start; b = slice_bound (length xs) (int (length xs)) stop in drop a (take b xs))"

definition py_slice_step :: "int option \<Rightarrow> int option \<Rightarrow> nat option \<Rightarrow> 'a list \<Rightarrow> 'a list" where
  "py_slice_step start stop step xs =
     (case step of None \<Rightarrow> py_slice start stop xs | Some n \<Rightarrow> stride n (py_slice start stop xs))"

definition dp_slice :: "int option \<Rightarrow> int option \<Rightarrow> nat option \<Rightarrow> 't data_proto \<Rightarrow> 't data_proto result" where
  "dp_slice start stop step d =
     (if step = Some 0 then Inl ValueError
      else new_data_proto
        (map_option (\<lambda>(n, ts). (length (py_slice_step start stop step [0..<n]), map_values (py_slice_step start stop step) ts)) (dp_batch d))
        (map_values (py_slice_step start stop step) (dp_non_tensor d)) (dp_meta d))"

text \<open>Indices of \<open>select_idxs\<close>: integers (negative ones count from the end) or a boolean mask.\<close>

datatype row_index = Idxs "int list" | Mask "bool list"

definition py_index :: "'a list \<Rightarrow> int \<Rightarrow> 'a result" where
  "py_index xs i =
     (if - int (length xs) \<le> i \<and> i < int (length xs) then Inr (xs ! nat (if i < 0 then i + int (length xs) else i)) else Inl IndexError)"

definition index_rows_by :: "row_index \<Rightarrow> 'a list \<Rightarrow> 'a list result" where
  "index_rows_by idx xs = (case idx of
     Idxs is \<Rightarrow> res_map (py_index xs) is
   | Mask bs \<Rightarrow> if length bs = length xs then Inr (map fst (filter snd (zip xs bs))) else Inl IndexError)"

definition index_size :: "row_index \<Rightarrow> nat" where
  "index_size idx = (case idx of Idxs is \<Rightarrow> length is | Mask bs \<Rightarrow> length (filter id bs))"

definition index_dict :: "row_index \<Rightarrow> (string, 'a list) dict \<Rightarrow> (string, 'a list) dict result" where
  "index_dict idx d = res_map (\<lambda>(k, v). res_bind (index_rows_by idx v) (\<lambda>w. Inr (k, w))) d"

definition select_idxs :: "row_index \<Rightarrow> 't data_proto \<Rightarrow> 't data_proto result" where
  "select_idxs idx d =
     res_bind (case dp_batch d of None \<Rightarrow> Inr None
               | Some (n, ts) \<Rightarrow> res_bind (index_dict idx ts) (\<lambda>ts'. Inr (Some (index_size idx, ts')))) (\<lambda>batch.
     res_bind (index_dict idx (dp_non_tensor d)) (\<lambda>nt.
       new_data_proto batch nt (dp_meta d)))"

section \<open>Concatenation\<close>

text \<open>\<open>list_of_dict_to_dict_of_list\<close>: the keys are those of the first dictionary.\<close>

definition append_columns :: "(string, 'a) dict \<Rightarrow> (string, 'a list) dict \<Rightarrow> (string, 'a list) dict result" where
  "append_columns d out =
     res_fold (\<lambda>(k, v) out. if k \<in> fst ` set out then Inr (AList.update k (dict_get out k [] @ [v]) out) else Inl AssertionError) d out"

definition empty_columns :: "(string, 'a) dict \<Rightarrow> (string, 'a list) dict" where
  "empty_columns d = map (\<lambda>(k, _). (k, [])) d"

definition list_of_dict_to_dict_of_list :: "(string, 'a) dict list \<Rightarrow> (string, 'a list) dict result" where
  "list_of_dict_to_dict_of_list ds = (case ds of [] \<Rightarrow> Inr [] | first # _ \<Rightarrow> res_fold append_columns ds (empty_columns first))"

definition mval_dict :: "mval \<Rightarrow> (string \<times> mval) list result" where
  "mval_dict v = (case v of MDict d \<Rightarrow> Inr d | _ \<Rightarrow> Inl AttributeError)"

text \<open>The meta information of a concatenation: metrics are collected, other entries must agree.\<close>

definition merge_meta_entry ::
  "string \<times> mval \<Rightarrow> (string, mval) dict \<times> mval list \<Rightarrow> ((string, mval) dict \<times> mval list) result" where
  "merge_meta_entry kv st = (case (kv, st) of ((k, v), (merged, metrics)) \<Rightarrow>
     if k = ''metrics''
     then Inr (merged, metrics @ (case v of MNone \<Rightarrow> [] | MList ms \<Rightarrow> ms | _ \<Rightarrow> [v]))
     else (case map_of merged k of
             Some w \<Rightarrow> if w = v then Inr (merged, metrics) else Inl AssertionError
           | None \<Rightarrow> Inr (AList.update k v merged, metrics)))"

definition merge_meta :: "(string, mval) dict list \<Rightarrow> (string, mval) dict result" where
  "merge_meta metas =
     res_bind (res_fold (\<lambda>m. res_fold merge_meta_entry m) metas ([], [])) (\<lambda>(merged, metrics).
       if metrics = [] then Inr merged
       else res_bind (mval_dict (hd metrics)) (\<lambda>first.
            res_bind (res_fold (\<lambda>v out. res_bind (mval_dict v) (\<lambda>d. append_columns d out)) metrics (empty_columns first)) (\<lambda>cols.
              Inr (AList.update ''metrics'' (MDict (map_values MList cols)) merged))))"

text \<open>\<open>torch.cat\<close> of TensorDicts: they must be present and have the same keys.\<close>

definition cat_batches :: "(nat \<times> (string, 't list) dict) option list \<Rightarrow> (nat \<times> (string, 't list) dict) option result" where
  "cat_batches bs = (case bs of
     [] \<Rightarrow> Inl IndexError
   | None # _ \<Rightarrow> Inr None
   | Some (n, first) # _ \<Rightarrow>
       if None \<in> set bs then Inl TypeError
       else if \<not> list_all (\<lambda>b. fst ` set (snd (the b)) = fst ` set first) bs then Inl KeyError
       else Inr (Some (sum_list (map (fst \<circ> the) bs),
                       map (\<lambda>(k, _). (k, concat (map (\<lambda>b. dict_get (snd (the b)) k []) bs))) first)))"

definition dp_concat :: "'t data_proto list \<Rightarrow> 't data_proto result" where
  "dp_concat ds =
     res_bind (cat_batches (map dp_batch ds)) (\<lambda>batch.
     res_bind (list_of_dict_to_dict_of_list (map dp_non_tensor ds)) (\<lambda>cols.
     res_bind (merge_meta (map dp_meta ds)) (\<lambda>meta.
       new_data_proto batch (map_values concat cols) meta)))"

section \<open>Padding\<close>

text \<open>The loop of \<open>pad_dataproto_to_divisor\<close>: slices from the start until the padding is complete.\<close>

function padding_slices :: "nat \<Rightarrow> nat \<Rightarrow> nat list" where
  "padding_slices len remaining =
     (if remaining = 0 \<or> len = 0 then [] else min remaining len # padding_slices len (remaining - min remaining len))"
  by pat_completeness auto
termination by (relation "measure snd") auto

declare padding_slices.simps [simp del]

definition pad_dataproto_to_divisor :: "'t data_proto \<Rightarrow> nat \<Rightarrow> ('t data_proto \<times> nat) result" where
  "pad_dataproto_to_divisor d size_divisor =
     (if size_divisor = 0 then Inl ZeroDivisionError
      else if dp_len d mod size_divisor \<noteq> 0 then
        (let pad_size = size_divisor - dp_len d mod size_divisor
         in res_bind (res_map (\<lambda>take_size. dp_slice None (Some (int take_size)) None d) (padding_slices (dp_len d) pad_size)) (\<lambda>protos.
            res_bind (dp_concat (d # protos)) (\<lambda>padded. Inr (padded, pad_size))))
      else Inr (d, 0))"

definition unpad_dataproto :: "'t data_proto \<Rightarrow> nat \<Rightarrow> 't data_proto result" where
  "unpad_dataproto d pad_size = (if pad_size \<noteq> 0 then dp_slice None (Some (- int pad_size)) None d else Inr d)"

section \<open>Chunks, splits and repetitions\<close>

text \<open>The global switch is an argument; an object can also ask for padding in its meta information.\<close>

definition truthy :: "mval \<Rightarrow> bool" where
  "truthy v = (case v of MNone \<Rightarrow> False | MAtom i \<Rightarrow> i \<noteq> 0 | MList vs \<Rightarrow> vs \<noteq> [] | MDict d \<Rightarrow> d \<noteq> [])"

definition is_padding_enabled :: "bool \<Rightarrow> 't data_proto \<Rightarrow> bool" where
  "is_padding_enabled auto d \<longleftrightarrow> truthy (dict_get (dp_meta d) ''_verl_auto_padding'' (MAtom 0)) \<or> auto"

text \<open>Cutting a list at ascending positions, \<open>np.array_split(val, indices)\<close>.\<close>

fun cut_at :: "nat \<Rightarrow> nat list \<Rightarrow> 'a list \<Rightarrow> 'a list list" where
  "cut_at a [] xs = [drop a xs]"
| "cut_at a (b # bs) xs = drop a (take b xs) # cut_at b bs xs"

text \<open>\<open>TensorDict.chunk\<close>: pieces of \<open>ceil(n / chunks)\<close> rows; \<open>np.array_split(val, chunks)\<close>: sizes that differ by at most one.\<close>

definition td_chunk_cuts :: "nat \<Rightarrow> nat \<Rightarrow> nat list" where
  "td_chunk_cuts n chunks =
     (let s = (n + chunks - 1) div chunks in map (\<lambda>i. (i + 1) * s) [0..<((n + s - 1) div s) - 1])"

definition even_cuts :: "nat \<Rightarrow> nat \<Rightarrow> nat list" where
  "even_cuts n chunks = map (\<lambda>i. (i + 1) * (n div chunks) + min (i + 1) (n mod chunks)) [0..<chunks - 1]"

definition dp_chunk :: "bool \<Rightarrow> nat \<Rightarrow> 't data_proto \<Rightarrow> 't data_proto list result" where
  "dp_chunk auto chunks d =
     (if chunks = 0 then Inl (if is_padding_enabled auto d then ValueError else ZeroDivisionError)
      else
        res_bind (py_assert (is_padding_enabled auto d \<or> dp_len d mod chunks = 0)) (\<lambda>_.
          (let cuts = (case dp_batch d of None \<Rightarrow> (\<lambda>n. even_cuts n chunks) | Some (n, _) \<Rightarrow> (\<lambda>_. td_chunk_cuts n chunks));
               batches = (case dp_batch d of
                   None \<Rightarrow> replicate chunks None
                 | Some (n, ts) \<Rightarrow>
                     map (\<lambda>(i, rows). Some (length rows, map_values (\<lambda>v. cut_at 0 (td_chunk_cuts n chunks) v ! i) ts))
                       (enumerate 0 (cut_at 0 (td_chunk_cuts n chunks) [0..<n])))
           in res_bind (py_assert (\<forall>(k, v) \<in> set (dp_non_tensor d). length (cut_at 0 (cuts (length v)) v) = chunks)) (\<lambda>_.
              res_map (\<lambda>i.
                res_bind (py_nth batches i) (\<lambda>b.
                  new_data_proto b (map_values (\<lambda>v. cut_at 0 (cuts (length v)) v ! i) (dp_non_tensor d)) (dp_meta d))) [0..<chunks]))))"

definition dp_split :: "nat \<Rightarrow> 't data_proto \<Rightarrow> 't data_proto list result" where
  "dp_split split_size d =
     (if split_size = 0 then Inl ValueError
      else res_map (\<lambda>i. dp_slice (Some (int (i * split_size))) (Some (int (i * split_size + split_size))) None d)
             [0..<(dp_len d + split_size - 1) div split_size])"

definition repeat_rows :: "nat \<Rightarrow> bool \<Rightarrow> 'a list \<Rightarrow> 'a list" where
  "repeat_rows reps interleave xs = (if interleave then concat (map (replicate reps) xs) else concat (replicate reps xs))"

definition dp_repeat :: "nat \<Rightarrow> bool \<Rightarrow> 't data_proto \<Rightarrow> 't data_proto result" where
  "dp_repeat reps interleave d =
     new_data_proto (map_option (\<lambda>(n, ts). (n * reps, map_values (repeat_rows reps interleave) ts)) (dp_batch d))
       (map_values (repeat_rows reps interleave) (dp_non_tensor d)) (dp_meta d)"

text \<open>
  \<open>sample_level_repeat\<close>: a number of repetitions per row. Both libraries broadcast a single number;
  the TensorDict then has to have as many rows as the numbers add up to.
\<close>

definition repeat_each :: "py_error \<Rightarrow> nat list \<Rightarrow> 'a list \<Rightarrow> 'a list result" where
  "repeat_each e reps xs =
     (if length reps = length xs then Inr (concat (map (\<lambda>(x, n). replicate n x) (zip xs reps)))
      else (case reps of [n] \<Rightarrow> Inr (concat (map (replicate n) xs)) | _ \<Rightarrow> Inl e))"

definition repeat_each_dict :: "py_error \<Rightarrow> nat list \<Rightarrow> (string, 'a list) dict \<Rightarrow> (string, 'a list) dict result" where
  "repeat_each_dict e reps d = res_map (\<lambda>(k, v). res_bind (repeat_each e reps v) (\<lambda>w. Inr (k, w))) d"

definition sample_level_repeat :: "nat list \<Rightarrow> 't data_proto \<Rightarrow> 't data_proto result" where
  "sample_level_repeat reps d =
     res_bind (case dp_batch d of None \<Rightarrow> Inr None
               | Some (n, ts) \<Rightarrow>
                   res_bind (repeat_each_dict RuntimeError reps ts) (\<lambda>ts'.
                     if \<forall>(k, v) \<in> set ts'. length v = sum_list reps then Inr (Some (sum_list reps, ts')) else Inl RuntimeError)) (\<lambda>batch.
     res_bind (repeat_each_dict ValueError reps (dp_non_tensor d)) (\<lambda>nt.
       new_data_proto batch nt (dp_meta d)))"

text \<open>\<open>padding\<close> changes its object: the first or the last row is repeated at the end; the meta information stays.\<close>

definition dp_padding :: "nat \<Rightarrow> string \<Rightarrow> 't data_proto \<Rightarrow> 't data_proto result" where
  "dp_padding padding_size padding_candidate d =
     (if padding_size = 0 then Inr d
      else
        res_bind (select_idxs (Idxs [if padding_candidate = ''first'' then 0 else int (dp_len d) - 1]) d) (\<lambda>row.
        res_bind (dp_repeat padding_size True row) (\<lambda>part.
        res_bind (dp_concat [d, part]) (\<lambda>padded.
          Inr (d\<lparr>dp_batch := dp_batch padded, dp_non_tensor := dp_non_tensor padded\<rparr>)))))"

text \<open>\<open>reorder\<close> changes its object without a check.\<close>

definition dp_reorder :: "int list \<Rightarrow> 't data_proto \<Rightarrow> 't data_proto result" where
  "dp_reorder is d = (case dp_batch d of
     None \<Rightarrow> Inl TypeError
   | Some (n, ts) \<Rightarrow>
       res_bind (index_dict (Idxs is) ts) (\<lambda>ts'.
       res_bind (index_dict (Idxs is) (dp_non_tensor d)) (\<lambda>nt.
         Inr (d\<lparr>dp_batch := Some (length is, ts'), dp_non_tensor := nt\<rparr>))))"

section \<open>Keys\<close>

definition select_keys :: "string list option \<Rightarrow> (string, 'a) dict \<Rightarrow> (string, 'a) dict" where
  "select_keys keys d = (case keys of None \<Rightarrow> d | Some ks \<Rightarrow> filter (\<lambda>(k, _). k \<in> set ks) d)"

text \<open>\<open>TensorDict.select\<close> insists on the presence of its keys, the dictionary comprehensions do not.\<close>

definition dp_select :: "string list option \<Rightarrow> string list option \<Rightarrow> string list option \<Rightarrow> 't data_proto \<Rightarrow> 't data_proto result" where
  "dp_select batch_keys nt_keys meta_keys d =
     res_bind (case batch_keys of
                 None \<Rightarrow> Inr (dp_batch d)
               | Some ks \<Rightarrow>
                   (case dp_batch d of
                      None \<Rightarrow> Inl AttributeError
                    | Some (n, ts) \<Rightarrow>
                        if set ks \<subseteq> fst ` set ts then Inr (Some (n, map (\<lambda>k. (k, dict_get ts k [])) (remdups ks))) else Inl KeyError)) (\<lambda>batch.
       new_data_proto batch (select_keys nt_keys (dp_non_tensor d)) (select_keys meta_keys (dp_meta d)))"

text \<open>
  \<open>pop\<close> moves entries from its object into a new one, both returned. (When a key is missing, the entries moved before it
  are lost in the code; the model then returns the exception alone.)
\<close>

fun pop_keys :: "string list \<Rightarrow> (string, 'a) dict \<Rightarrow> (string, 'a) dict \<Rightarrow> ((string, 'a) dict \<times> (string, 'a) dict) result" where
  "pop_keys [] d popped = Inr (d, popped)"
| "pop_keys (k # ks) d popped =
     (case map_of d k of
        None \<Rightarrow> Inl AssertionError
      | Some v \<Rightarrow> pop_keys ks (AList.delete k d) (AList.update k v popped))"

definition dp_pop :: "string list \<Rightarrow> string list \<Rightarrow> string list \<Rightarrow> 't data_proto \<Rightarrow> ('t data_proto \<times> 't data_proto) result" where
  "dp_pop batch_keys nt_keys meta_keys d =
     res_bind (case dp_batch d of
                 None \<Rightarrow> if batch_keys = [] then Inr (None, []) else Inl AttributeError
               | Some (n, ts) \<Rightarrow> res_bind (pop_keys batch_keys ts []) (\<lambda>(rest, tensors). Inr (Some (n, rest), tensors))) (\<lambda>(batch, tensors).
     res_bind (pop_keys nt_keys (dp_non_tensor d) []) (\<lambda>(nt_rest, non_tensors).
     res_bind (pop_keys meta_keys (dp_meta d) []) (\<lambda>(meta_rest, meta).
     res_bind (from_dict tensors non_tensors meta False) (\<lambda>out.
       Inr (d\<lparr>dp_batch := batch, dp_non_tensor := nt_rest, dp_meta := meta_rest\<rparr>, out)))))"

section \<open>Unions\<close>

text \<open>\<open>_array_equal\<close> and \<open>_deep_equal\<close>: NaN equals NaN; there are no cycles in a value, so the visited set never answers.\<close>

function deep_equal :: "np_obj \<Rightarrow> np_obj \<Rightarrow> bool" where
  "deep_equal (NpFloat x) (NpFloat y) = (if x = None \<and> y = None then True else x = y)"
| "deep_equal (NpArray dt1 sh1 xs) (NpArray dt2 sh2 ys) =
     (if dt1 \<noteq> dt2 \<or> sh1 \<noteq> sh2 then False else list_all (\<lambda>(x, y). deep_equal x y) (zip xs ys))"
| "deep_equal (NpObject t1 v1) (NpObject t2 v2) = (t1 = t2 \<and> v1 = v2)"
| "deep_equal (NpFloat x) (NpArray dt sh ys) = False"
| "deep_equal (NpFloat x) (NpObject t v) = False"
| "deep_equal (NpArray dt sh xs) (NpFloat y) = False"
| "deep_equal (NpArray dt sh xs) (NpObject t v) = False"
| "deep_equal (NpObject t v) (NpFloat y) = False"
| "deep_equal (NpObject t v) (NpArray dt sh ys) = False"
  by pat_completeness auto
termination
proof (relation "measure (\<lambda>(a, b). size a)", goal_cases)
  case (2 dt1 sh1 xs dt2 sh2 ys z x y)
  then have "x \<in> set xs" by (auto dest: set_zip_leftD)
  then show ?case by (simp add: size_list_estimation' less_Suc_eq_le)
qed simp

text \<open>Columns are one-dimensional object arrays.\<close>

definition array_equal :: "np_obj list \<Rightarrow> np_obj list \<Rightarrow> bool" where
  "array_equal xs ys \<longleftrightarrow> deep_equal (NpArray ''object'' [length xs] xs) (NpArray ''object'' [length ys] ys)"

text \<open>\<open>torch.equal\<close> on the rows of two tensors is an argument: NaN differs from itself there.\<close>

definition union_tensor_dict ::
  "('t list \<Rightarrow> 't list \<Rightarrow> bool) \<Rightarrow> nat \<times> (string, 't list) dict \<Rightarrow> nat \<times> (string, 't list) dict \<Rightarrow> (nat \<times> (string, 't list) dict) result" where
  "union_tensor_dict tequal b1 b2 = (case (b1, b2) of ((n1, ts1), (n2, ts2)) \<Rightarrow>
     res_bind (py_assert (n1 = n2)) (\<lambda>_.
     res_bind (res_fold (\<lambda>(k, v) ts. (case map_of ts k of
          None \<Rightarrow> Inr (AList.update k v ts)
        | Some w \<Rightarrow> if tequal w v then Inr ts else Inl AssertionError)) ts2 ts1) (\<lambda>ts.
       Inr (n1, ts))))"

definition union_numpy_dict :: "(string, np_obj list) dict \<Rightarrow> (string, np_obj list) dict \<Rightarrow> (string, np_obj list) dict result" where
  "union_numpy_dict d1 d2 =
     res_fold (\<lambda>(k, v) d. (case map_of d k of
          None \<Rightarrow> Inr (AList.update k v d)
        | Some w \<Rightarrow> if array_equal w v then Inr (AList.update k v d) else Inl AssertionError)) d2 d1"

definition union_two_dict :: "(string, mval) dict \<Rightarrow> (string, mval) dict \<Rightarrow> (string, mval) dict result" where
  "union_two_dict d1 d2 =
     res_fold (\<lambda>(k, v) d. (case map_of d k of
          None \<Rightarrow> Inr (AList.update k v d)
        | Some w \<Rightarrow> if v = w then Inr (AList.update k v d) else Inl AssertionError)) d2 d1"

text \<open>The union does not run the consistency check.\<close>

definition dp_union :: "('t list \<Rightarrow> 't list \<Rightarrow> bool) \<Rightarrow> 't data_proto \<Rightarrow> 't data_proto \<Rightarrow> 't data_proto result" where
  "dp_union tequal d other = (case (dp_batch d, dp_batch other) of
     (Some b1, Some b2) \<Rightarrow>
       res_bind (union_tensor_dict tequal b1 b2) (\<lambda>batch.
       res_bind (union_numpy_dict (dp_non_tensor d) (dp_non_tensor other)) (\<lambda>nt.
       res_bind (union_two_dict (dp_meta d) (dp_meta other)) (\<lambda>meta.
         Inr \<lparr>dp_batch = Some batch, dp_non_tensor = nt, dp_meta = meta\<rparr>)))
   | _ \<Rightarrow> Inl AttributeError)"

section \<open>Row selections\<close>

text \<open>
  The specification of all row operations: the object whose rows are those of \<open>d\<close> at the given positions.
\<close>

definition gather :: "nat list \<Rightarrow> 'a list \<Rightarrow> 'a list" where
  "gather idx xs = map ((!) xs) idx"

definition dp_gather :: "nat list \<Rightarrow> 't data_proto \<Rightarrow> 't data_proto" where
  "dp_gather idx d = d\<lparr>dp_batch := map_option (\<lambda>(n, ts). (length idx, map_values (gather idx) ts)) (dp_batch d),
     dp_non_tensor := map_values (gather idx) (dp_non_tensor d)\<rparr>"

definition dp_wf :: "'t data_proto \<Rightarrow> bool" where
  "dp_wf d \<longleftrightarrow> (case dp_batch d of None \<Rightarrow> True | Some (n, ts) \<Rightarrow> dict_wf ts \<and> (\<forall>(k, v) \<in> set ts. length v = n)) \<and>
     dict_wf (dp_non_tensor d) \<and> (\<forall>(k, v) \<in> set (dp_non_tensor d). length v = dp_len d) \<and> dict_wf (dp_meta d)"

definition meta_plain :: "'t data_proto \<Rightarrow> bool" where
  "meta_plain d \<longleftrightarrow> ''metrics'' \<notin> fst ` set (dp_meta d)"

lemma length_gather [simp]: "length (gather idx xs) = length idx"
  by (simp add: gather_def)

lemma gather_all: "gather [0..<length xs] xs = xs"
  by (simp add: gather_def map_nth)

lemma gather_gather: "list_all (\<lambda>i. i < length jdx) idx \<Longrightarrow> gather idx (gather jdx xs) = gather (gather idx jdx) xs"
  by (simp add: gather_def list_all_iff)

lemma gather_concat: "concat (map (\<lambda>idx. gather idx xs) idxss) = gather (concat idxss) xs"
  by (simp add: gather_def map_concat)

lemma map_values_keys [simp]: "map fst (map_values f d) = map fst d"
  by (simp add: map_values_def comp_def split_beta)

lemma map_values_key_set [simp]: "fst ` set (map_values f d) = fst ` set d"
  by (metis list.set_map map_values_keys)

lemma map_values_wf [simp]: "dict_wf (map_values f d) = dict_wf d"
  by (simp add: dict_wf_def)

lemma map_values_Nil [simp]: "map_values f [] = []" and
  map_values_Cons [simp]: "map_values f ((k, v) # d) = (k, f v) # map_values f d"
  by (simp_all add: map_values_def)

lemma map_values_append [simp]: "map_values f (d @ e) = map_values f d @ map_values f e"
  by (simp add: map_values_def)

lemma map_values_cong: "(\<And>k v. (k, v) \<in> set d \<Longrightarrow> f v = g v) \<Longrightarrow> map_values f d = map_values g d"
  by (auto simp: map_values_def)

lemma map_values_ident: "(\<And>k v. (k, v) \<in> set d \<Longrightarrow> f v = v) \<Longrightarrow> map_values f d = d"
  unfolding map_values_def by (rule map_idI) auto

lemma map_values_comp: "map_values f (map_values g d) = map_values (\<lambda>v. f (g v)) d"
  by (simp add: map_values_def split_beta)

lemma map_of_map_values: "map_of (map_values f d) k = map_option f (map_of d k)"
  by (induction d) auto

lemma in_map_values: "(k, w) \<in> set (map_values f d) \<longleftrightarrow> (\<exists>v. (k, v) \<in> set d \<and> w = f v)"
  by (auto simp: map_values_def)

lemma dp_len_gather: "0 < dp_len d \<Longrightarrow> dp_len (dp_gather idx d) = length idx"
  by (auto simp: dp_len_def dp_gather_def split: option.splits list.splits)

lemma dp_len_gather_batch: "dp_batch d \<noteq> None \<Longrightarrow> dp_len (dp_gather idx d) = length idx"
  by (auto simp: dp_len_def dp_gather_def split: option.splits)

lemma dp_wf_columns:
  assumes "dp_wf d"
  shows "dp_batch d = Some (n, ts) \<Longrightarrow> dp_len d = n" "dp_batch d = Some (n, ts) \<Longrightarrow> (k, v) \<in> set ts \<Longrightarrow> length v = dp_len d"
    "(k, u) \<in> set (dp_non_tensor d) \<Longrightarrow> length u = dp_len d"
  using assms by (auto simp: dp_wf_def dp_len_def split: option.splits)

lemma dp_gather_all:
  assumes "dp_wf d"
  shows "dp_gather [0..<dp_len d] d = d"
proof -
  have "map_option (\<lambda>(n, ts). (length [0..<dp_len d], map_values (gather [0..<dp_len d]) ts)) (dp_batch d) = dp_batch d"
  proof (cases "dp_batch d")
    case (Some b)
    obtain n ts where b: "b = (n, ts)" by (cases b)
    have "map_values (gather [0..<dp_len d]) ts = ts"
      by (rule map_values_ident) (metis dp_wf_columns(2)[OF assms] Some b gather_all)
    then show ?thesis using Some b dp_wf_columns(1)[OF assms] by simp
  qed simp
  moreover have "map_values (gather [0..<dp_len d]) (dp_non_tensor d) = dp_non_tensor d"
    by (rule map_values_ident) (metis dp_wf_columns(3)[OF assms] gather_all)
  ultimately show ?thesis by (simp add: dp_gather_def)
qed

text \<open>An object built column by column from the rows at \<open>idx\<close> passes the check and is the selection.\<close>

lemma new_gather:
  assumes "\<And>n ts k v. dp_batch d = Some (n, ts) \<Longrightarrow> (k, v) \<in> set ts \<Longrightarrow> ft v = gather idx v"
    "\<And>k v. (k, v) \<in> set (dp_non_tensor d) \<Longrightarrow> fn v = gather idx v"
    "\<And>n ts. dp_batch d = Some (n, ts) \<Longrightarrow> fs n = length idx"
  shows "new_data_proto (map_option (\<lambda>(n, ts). (fs n, map_values ft ts)) (dp_batch d)) (map_values fn (dp_non_tensor d)) (dp_meta d) =
    Inr (dp_gather idx d)"
proof -
  have nt: "map_values fn (dp_non_tensor d) = map_values (gather idx) (dp_non_tensor d)"
    by (rule map_values_cong) (rule assms(2))
  have b: "map_option (\<lambda>(n, ts). (fs n, map_values ft ts)) (dp_batch d) =
      map_option (\<lambda>(n, ts). (length idx, map_values (gather idx) ts)) (dp_batch d)"
    using assms(1,3) by (cases "dp_batch d") (auto intro: map_values_cong)
  show ?thesis unfolding nt b new_data_proto_def
    by (auto simp: dp_gather_def in_map_values py_assert_def split: option.split)
qed

lemma py_slice_map: "py_slice a b (map f xs) = map f (py_slice a b xs)"
  by (simp add: py_slice_def take_map drop_map Let_def)

lemma stride_map: "stride n (map f xs) = map f (stride n xs)"
  by (induction n xs rule: stride.induct) (simp_all add: drop_map)

lemma py_slice_step_map: "py_slice_step a b c (map f xs) = map f (py_slice_step a b c xs)"
  by (simp add: py_slice_step_def py_slice_map stride_map split: option.split)

lemma py_slice_step_gather: "py_slice_step a b c xs = gather (py_slice_step a b c [0..<length xs]) xs"
  by (metis gather_def map_nth py_slice_step_map)

lemma dp_slice_gather:
  assumes "dp_wf d" "c \<noteq> Some 0"
  shows "dp_slice a b c d = Inr (dp_gather (py_slice_step a b c [0..<dp_len d]) d)"
proof -
  have "dp_slice a b c d = new_data_proto
      (map_option (\<lambda>(n, ts). (length (py_slice_step a b c [0..<n]), map_values (py_slice_step a b c) ts)) (dp_batch d))
      (map_values (py_slice_step a b c) (dp_non_tensor d)) (dp_meta d)"
    using assms(2) by (simp add: dp_slice_def)
  also have "\<dots> = Inr (dp_gather (py_slice_step a b c [0..<dp_len d]) d)"
    using dp_wf_columns[OF assms(1)] by (intro new_gather) (metis py_slice_step_gather)+
  finally show ?thesis .
qed

lemma py_slice_prefix: "py_slice None (Some (int n)) xs = take n xs"
  by (simp add: py_slice_def slice_bound_def Let_def) (metis nat_int of_nat_min take_all_iff min.commute min_def nle_le take_all)

lemma py_slice_drop_end: "0 < n \<Longrightarrow> py_slice None (Some (- int n)) xs = take (length xs - n) xs"
  by (simp add: py_slice_def slice_bound_def Let_def) (simp add: nat_diff_distrib' max_def)

lemma py_slice_range: "py_slice (Some (int a)) (Some (int b)) xs = drop a (take b xs)"
proof -
  have "nat (min (int k) (int (length xs))) = min k (length xs)" for k by linarith
  then show ?thesis by (simp add: py_slice_def slice_bound_def Let_def min_def)
qed

section \<open>Concatenating selections\<close>

lemma update_middle: "k \<notin> fst ` set xs \<Longrightarrow> AList.update k w (xs @ (k, v) # ys) = xs @ (k, w) # ys"
  by (induction xs) auto

lemma dict_get_middle: "k \<notin> fst ` set xs \<Longrightarrow> dict_get (xs @ (k, v) # ys) k w = v"
  by (simp add: dict_get_def map_add_Some_iff map_of_eq_None_iff[THEN iffD2] split: option.split)

text \<open>The columns of several images of one dictionary.\<close>

lemma collect_row:
  assumes "dict_wf (pre @ post)"
  shows "append_columns (map_values f post) (map_values (\<lambda>v. acc v @ [f v]) pre @ map_values acc post) =
    Inr (map_values (\<lambda>v. acc v @ [f v]) (pre @ post))"
  using assms
proof (induction post arbitrary: pre)
  case (Cons x post)
  obtain k v where x: "x = (k, v)" by (cases x)
  have k: "k \<notin> fst ` set (map_values g pre)" for g :: "'a \<Rightarrow> 'd list" using Cons.prems x by (simp add: dict_wf_def)
  have "dict_wf ((pre @ [(k, v)]) @ post)" using Cons.prems x by simp
  from Cons.IH[OF this] show ?case by (simp add: append_columns_def x update_middle[OF k] dict_get_middle[OF k])
qed (simp add: append_columns_def)

lemma collect_rows:
  assumes "dict_wf d"
  shows "res_fold append_columns (map (\<lambda>f. map_values f d) fs) (map_values acc d) = Inr (map_values (\<lambda>v. acc v @ map (\<lambda>f. f v) fs) d)"
proof (induction fs arbitrary: acc)
  case (Cons f fs)
  have row: "append_columns (map_values f d) (map_values acc d) = Inr (map_values (\<lambda>v. acc v @ [f v]) d)"
    using collect_row[of "[]" d f acc] assms by simp
  from Cons.IH[of "\<lambda>v. acc v @ [f v]"] show ?case by (simp add: row)
qed simp

lemma list_of_dict_images:
  assumes "dict_wf d" "fs \<noteq> []"
  shows "list_of_dict_to_dict_of_list (map (\<lambda>f. map_values f d) fs) = Inr (map_values (\<lambda>v. map (\<lambda>f. f v) fs) d)"
proof -
  obtain f rest where fs: "fs = f # rest" using assms(2) by (cases fs) auto
  have start: "empty_columns (map_values f d) = map_values (\<lambda>_. []) d"
    by (simp add: empty_columns_def map_values_def split_beta)
  show ?thesis using collect_rows[OF assms(1), of fs "\<lambda>_. []"] by (simp add: list_of_dict_to_dict_of_list_def fs start)
qed

text \<open>Equal meta information without metrics merges to itself.\<close>

lemma merge_new_entries:
  assumes "dict_wf (pre @ post)" "''metrics'' \<notin> fst ` set post"
  shows "res_fold merge_meta_entry post (pre, []) = Inr (pre @ post, [])"
  using assms
proof (induction post arbitrary: pre)
  case (Cons x post)
  obtain k v where x: "x = (k, v)" by (cases x)
  have k: "k \<notin> fst ` set pre" "k \<noteq> ''metrics''" using Cons.prems x by (auto simp: dict_wf_def)
  then have "merge_meta_entry x (pre, []) = Inr (pre @ [x], [])"
    by (simp add: merge_meta_entry_def x map_of_eq_None_iff[THEN iffD2] update_new)
  with Cons.IH[of "pre @ [x]"] Cons.prems show ?case by simp
qed simp

lemma merge_old_entries:
  "dict_wf meta \<Longrightarrow> set m \<subseteq> set meta \<Longrightarrow> ''metrics'' \<notin> fst ` set m \<Longrightarrow> res_fold merge_meta_entry m (meta, []) = Inr (meta, [])"
proof (induction m)
  case (Cons x m)
  obtain k v where x: "x = (k, v)" by (cases x)
  have "map_of meta k = Some v" using Cons.prems x dict_wf_map_of[of meta k v] by auto
  moreover have "k \<noteq> ''metrics''" using Cons.prems x by auto
  ultimately have "merge_meta_entry x (meta, []) = Inr (meta, [])" by (simp add: merge_meta_entry_def x)
  with Cons show ?case by simp
qed simp

lemma merge_meta_same:
  assumes "dict_wf meta" "''metrics'' \<notin> fst ` set meta"
  shows "merge_meta (replicate (Suc n) meta) = Inr meta"
proof -
  have "res_fold (\<lambda>m. res_fold merge_meta_entry m) (replicate n meta) (meta, []) = Inr (meta, [])" for n
    by (induction n) (simp_all add: merge_old_entries assms)
  then show ?thesis using merge_new_entries[of "[]" meta] assms by (simp add: merge_meta_def)
qed

lemma cat_batch_selections:
  assumes "idxss \<noteq> []" "case b of None \<Rightarrow> True | Some (n, ts) \<Rightarrow> dict_wf ts"
  shows "cat_batches (map (\<lambda>idx. map_option (\<lambda>(n, ts). (length idx, map_values (gather idx) ts)) b) idxss) =
    Inr (map_option (\<lambda>(n, ts). (length (concat idxss), map_values (gather (concat idxss)) ts)) b)"
proof -
  obtain idx0 rest where idx: "idxss = idx0 # rest" using assms(1) by (cases idxss) auto
  show ?thesis
  proof (cases b)
    case (Some nts)
    obtain n ts where b: "nts = (n, ts)" by (cases nts)
    have wf: "dict_wf ts" using assms(2) Some b by simp
    have len: "sum_list (map (\<lambda>idx. length idx) idxss) = length (concat idxss)" by (simp add: length_concat)
    have get: "dict_get (map_values (gather i) ts) k [] = gather i v" if "(k, v) \<in> set ts" for i k v
      using that wf by (simp add: dict_get_def map_of_map_values dict_wf_map_of)
    have cols: "map (\<lambda>(k, _). (k, concat (map (\<lambda>i. dict_get (map_values (gather i) ts) k []) idxss))) ts =
        map_values (gather (concat idxss)) ts"
    proof -
      have "concat (map (\<lambda>i. dict_get (map_values (gather i) ts) k []) idxss) = gather (concat idxss) v" if "(k, v) \<in> set ts" for k v
        using get[OF that] by (simp add: gather_concat)
      then show ?thesis unfolding map_values_def[of "gather (concat idxss)"] by auto
    qed
    have first: "map (\<lambda>(k, _). (k, h k)) (map_values g ts) = map (\<lambda>(k, _). (k, h k)) ts" for g h
      by (simp add: map_values_def split_beta)
    have "cat_batches (map (\<lambda>idx. map_option (\<lambda>(n, ts). (length idx, map_values (gather idx) ts)) b) idxss) =
      Inr (Some (sum_list (map length idxss), map (\<lambda>(k, _). (k, concat (map (\<lambda>i. dict_get (map_values (gather i) ts) k []) idxss))) ts))"
      using first by (auto simp: cat_batches_def idx Some b list_all_iff comp_def)
    then show ?thesis unfolding cols len by (simp add: Some b)
  qed (simp add: cat_batches_def idx)
qed

text \<open>The concatenation of selections of one object is the selection at the concatenated positions.\<close>

lemma concat_gathers:
  assumes wf: "dp_wf d" and plain: "meta_plain d" and ne: "idxss \<noteq> []"
  shows "dp_concat (map (\<lambda>idx. dp_gather idx d) idxss) = Inr (dp_gather (concat idxss) d)"
proof -
  let ?b = "map_option (\<lambda>(n, ts). (length (concat idxss), map_values (gather (concat idxss)) ts)) (dp_batch d)"
  have b: "cat_batches (map dp_batch (map (\<lambda>idx. dp_gather idx d) idxss)) = Inr ?b"
  proof -
    have "case dp_batch d of None \<Rightarrow> True | Some (n, ts) \<Rightarrow> dict_wf ts"
      using wf by (auto simp: dp_wf_def split: option.splits)
    from cat_batch_selections[OF ne this] show ?thesis by (simp add: dp_gather_def comp_def)
  qed
  have "map dp_non_tensor (map (\<lambda>idx. dp_gather idx d) idxss) = map (\<lambda>f. map_values f (dp_non_tensor d)) (map gather idxss)"
    by (simp add: dp_gather_def)
  moreover have "list_of_dict_to_dict_of_list (map (\<lambda>f. map_values f (dp_non_tensor d)) (map gather idxss)) =
      Inr (map_values (\<lambda>v. map (\<lambda>f. f v) (map gather idxss)) (dp_non_tensor d))"
    using list_of_dict_images[of "dp_non_tensor d" "map gather idxss"] wf ne by (simp add: dp_wf_def)
  ultimately have nt: "list_of_dict_to_dict_of_list (map dp_non_tensor (map (\<lambda>idx. dp_gather idx d) idxss)) =
      Inr (map_values (\<lambda>v. map (\<lambda>f. f v) (map gather idxss)) (dp_non_tensor d))" by (rule trans[OF arg_cong])
  obtain n where n: "length idxss = Suc n" using ne by (cases idxss) auto
  have "map dp_meta (map (\<lambda>idx. dp_gather idx d) idxss) = replicate (Suc n) (dp_meta d)"
    unfolding n[symmetric] by (simp add: dp_gather_def map_replicate_const comp_def)
  then have m: "merge_meta (map dp_meta (map (\<lambda>idx. dp_gather idx d) idxss)) = Inr (dp_meta d)"
    using merge_meta_same[of "dp_meta d" n] wf plain by (simp add: dp_wf_def meta_plain_def)
  have cols: "map_values concat (map_values (\<lambda>v. map (\<lambda>f. f v) (map gather idxss)) (dp_non_tensor d)) =
      map_values (gather (concat idxss)) (dp_non_tensor d)"
    by (simp add: map_values_comp comp_def gather_concat)
  have "new_data_proto ?b (map_values (gather (concat idxss)) (dp_non_tensor d)) (dp_meta d) = Inr (dp_gather (concat idxss) d)"
    by (rule new_gather) simp_all
  then show ?thesis unfolding dp_concat_def b nt m res_bind_Inr cols .
qed

section \<open>Padding as a selection\<close>

lemma range_append: "a \<le> b \<Longrightarrow> [0..<a] @ [a..<b] = [0..<b]"
  by (metis le_add_diff_inverse upt_add_eq_append zero_le)

lemma mod_rows: "0 < n \<Longrightarrow> [0..<n] @ map (\<lambda>i. i mod n) [0..<m] = map (\<lambda>i. i mod n) [0..<n + m]"
  by (rule nth_equalityI) (auto simp: nth_append le_mod_geq)

lemma padding_slices_rows:
  "0 < len \<Longrightarrow> concat (map (\<lambda>t. [0..<t]) (padding_slices len remaining)) = map (\<lambda>i. i mod len) [0..<remaining]"
proof (induction len remaining rule: padding_slices.induct)
  case (1 len remaining)
  show ?case
  proof (cases "remaining < len")
    case True
    have "padding_slices len remaining = (if remaining = 0 then [] else [remaining])"
      using True 1(2) by (subst padding_slices.simps) (simp add: padding_slices.simps[of len 0])
    then show ?thesis using True by (auto intro: map_idI[symmetric])
  next
    case False
    have "concat (map (\<lambda>t. [0..<t]) (padding_slices len remaining)) = [0..<len] @ map (\<lambda>i. i mod len) [0..<remaining - len]"
      using False 1 by (subst padding_slices.simps) simp
    also have "\<dots> = map (\<lambda>i. i mod len) [0..<remaining]" using mod_rows[OF 1(2), of "remaining - len"] False by simp
    finally show ?thesis .
  qed
qed

lemma padding_slices_le: "t \<in> set (padding_slices len remaining) \<Longrightarrow> t \<le> len"
proof (induction len remaining rule: padding_slices.induct)
  case (1 len remaining)
  then show ?case by (subst (asm) padding_slices.simps) (auto split: if_splits)
qed

lemma pad_selection:
  assumes wf: "dp_wf d" and plain: "meta_plain d" and pos: "0 < dp_len d" "0 < k"
  obtains pad where "pad_dataproto_to_divisor d k = Inr (dp_gather (map (\<lambda>i. i mod dp_len d) [0..<dp_len d + pad]) d, pad)"
    "pad < k" "k dvd dp_len d + pad"
proof (cases "dp_len d mod k = 0")
  case True
  have "map (\<lambda>i. i mod dp_len d) [0..<dp_len d + 0] = [0..<dp_len d]" by (auto intro: map_idI)
  then have "dp_gather (map (\<lambda>i. i mod dp_len d) [0..<dp_len d + 0]) d = d" using dp_gather_all[OF wf] by simp
  then show thesis using that[of 0] True pos by (simp add: pad_dataproto_to_divisor_def mod_eq_0_iff_dvd)
next
  case False
  let ?n = "dp_len d" and ?pad = "k - dp_len d mod k"
  have pad: "?pad < k" "k dvd ?n + ?pad"
  proof -
    show "?pad < k" using False pos by simp
    have "?n + ?pad = k * (?n div k) + k" using pos(2) mod_less_divisor[of k ?n] mult_div_mod_eq[of k ?n] by linarith
    then show "k dvd ?n + ?pad" by simp
  qed
  have slice: "dp_slice None (Some (int t)) None d = Inr (dp_gather [0..<t] d)" if "t \<in> set (padding_slices ?n ?pad)" for t
    using dp_slice_gather[OF wf, of None None "Some (int t)"] padding_slices_le[OF that]
    by (simp add: py_slice_step_def py_slice_prefix min_def)
  have slices: "res_map (\<lambda>t. dp_slice None (Some (int t)) None d) (padding_slices ?n ?pad) =
      Inr (map (\<lambda>idx. dp_gather idx d) (map (\<lambda>t. [0..<t]) (padding_slices ?n ?pad)))"
    by (subst res_map_all_Inr[OF slice]) (simp_all add: comp_def)
  have rows: "concat ([0..<?n] # map (\<lambda>t. [0..<t]) (padding_slices ?n ?pad)) = map (\<lambda>i. i mod ?n) [0..<?n + ?pad]"
    using padding_slices_rows[OF pos(1), of ?pad] mod_rows[OF pos(1), of ?pad] by simp
  have "d # map (\<lambda>idx. dp_gather idx d) (map (\<lambda>t. [0..<t]) (padding_slices ?n ?pad)) =
      map (\<lambda>idx. dp_gather idx d) ([0..<?n] # map (\<lambda>t. [0..<t]) (padding_slices ?n ?pad))"
    using dp_gather_all[OF wf] by simp
  then have "dp_concat (d # map (\<lambda>idx. dp_gather idx d) (map (\<lambda>t. [0..<t]) (padding_slices ?n ?pad))) =
      Inr (dp_gather (map (\<lambda>i. i mod ?n) [0..<?n + ?pad]) d)"
    using concat_gathers[OF wf plain, of "[0..<?n] # map (\<lambda>t. [0..<t]) (padding_slices ?n ?pad)"] rows by simp
  with slices False pos have "pad_dataproto_to_divisor d k = Inr (dp_gather (map (\<lambda>i. i mod ?n) [0..<?n + ?pad]) d, ?pad)"
    by (simp add: pad_dataproto_to_divisor_def Let_def)
  with that pad show thesis by blast
qed

text \<open>Selections compose, and keep their object well formed.\<close>

lemma dp_gather_gather:
  assumes "list_all (\<lambda>i. i < length jdx) idx"
  shows "dp_gather idx (dp_gather jdx d) = dp_gather (gather idx jdx) d"
  by (cases "dp_batch d") (auto simp: dp_gather_def map_values_comp gather_gather[OF assms])

lemma dp_wf_gather:
  assumes "dp_wf d" "0 < dp_len d"
  shows "dp_wf (dp_gather idx d)"
proof -
  have "dp_len (dp_gather idx d) = length idx" by (rule dp_len_gather[OF assms(2)])
  with assms(1) show ?thesis
    unfolding dp_wf_def by (auto simp: dp_gather_def in_map_values split: option.splits)
qed

lemma meta_plain_gather [simp]: "meta_plain (dp_gather idx d) = meta_plain d"
  by (simp add: meta_plain_def dp_gather_def)

section \<open>The other row operations as selections\<close>

definition norm_index :: "nat \<Rightarrow> int \<Rightarrow> nat" where
  "norm_index n i = nat (if i < 0 then i + int n else i)"

lemma index_column:
  assumes "\<forall>i \<in> set is. - int (length xs) \<le> i \<and> i < int (length xs)"
  shows "index_rows_by (Idxs is) xs = Inr (gather (map (norm_index (length xs)) is) xs)"
proof -
  have "res_map (py_index xs) is = Inr (map (\<lambda>i. xs ! norm_index (length xs) i) is)"
    using assms by (intro res_map_all_Inr) (simp add: py_index_def norm_index_def)
  then show ?thesis by (simp add: index_rows_by_def gather_def comp_def)
qed

lemma index_dict_columns:
  assumes "\<forall>(k, v) \<in> set d. length v = n" "\<forall>i \<in> set is. - int n \<le> i \<and> i < int n"
  shows "index_dict (Idxs is) d = Inr (map_values (gather (map (norm_index n) is)) d)"
  unfolding index_dict_def map_values_def using assms
  by (intro res_map_all_Inr) (auto simp: index_column)

lemma select_idxs_gather:
  assumes wf: "dp_wf d" and i: "\<forall>i \<in> set is. - int (dp_len d) \<le> i \<and> i < int (dp_len d)"
  shows "select_idxs (Idxs is) d = Inr (dp_gather (map (norm_index (dp_len d)) is) d)"
proof -
  let ?idx = "map (norm_index (dp_len d)) is"
  have nt: "index_dict (Idxs is) (dp_non_tensor d) = Inr (map_values (gather ?idx) (dp_non_tensor d))"
    using wf i by (intro index_dict_columns) (auto simp: dp_wf_def)
  have b: "(case dp_batch d of None \<Rightarrow> Inr None
      | Some (n, ts) \<Rightarrow> res_bind (index_dict (Idxs is) ts) (\<lambda>ts'. Inr (Some (index_size (Idxs is), ts')))) =
      Inr (map_option (\<lambda>(n, ts). (length is, map_values (gather ?idx) ts)) (dp_batch d))"
  proof (cases "dp_batch d")
    case (Some b)
    obtain n ts where "b = (n, ts)" by (cases b)
    moreover from this have "index_dict (Idxs is) ts = Inr (map_values (gather ?idx) ts)"
      using dp_wf_columns(2)[OF wf] Some i by (intro index_dict_columns) auto
    ultimately show ?thesis using Some by (simp add: index_size_def)
  qed simp
  have "new_data_proto (map_option (\<lambda>(n, ts). (length is, map_values (gather ?idx) ts)) (dp_batch d))
      (map_values (gather ?idx) (dp_non_tensor d)) (dp_meta d) = Inr (dp_gather ?idx d)"
    by (rule new_gather) simp_all
  then show ?thesis by (simp add: select_idxs_def b nt)
qed

lemma repeat_rows_map: "repeat_rows k il (map f xs) = map f (repeat_rows k il xs)"
  by (simp add: repeat_rows_def map_concat comp_def)

lemma repeat_rows_gather: "repeat_rows k il xs = gather (repeat_rows k il [0..<length xs]) xs"
  by (metis gather_def map_nth repeat_rows_map)

lemma length_repeat_rows: "length (repeat_rows k il xs) = length xs * k"
  by (simp add: repeat_rows_def length_concat comp_def sum_list_triv sum_list_replicate mult.commute)

lemma dp_repeat_gather:
  assumes wf: "dp_wf d"
  shows "dp_repeat k il d = Inr (dp_gather (repeat_rows k il [0..<dp_len d]) d)"
  unfolding dp_repeat_def using dp_wf_columns[OF wf]
  by (intro new_gather) (metis repeat_rows_gather, metis repeat_rows_gather, simp add: length_repeat_rows)

lemma cut_at_map: "cut_at a bs (map f xs) = map (map f) (cut_at a bs xs)"
  by (induction a bs xs rule: cut_at.induct) (simp_all add: take_map drop_map)

lemma length_cut_at [simp]: "length (cut_at a bs xs) = Suc (length bs)"
  by (induction a bs xs rule: cut_at.induct) simp_all

lemma cut_at_gather: "i \<le> length bs \<Longrightarrow> cut_at a bs xs ! i = gather (cut_at a bs [0..<length xs] ! i) xs"
  using cut_at_map[of a bs "(!) xs" "[0..<length xs]"] by (simp add: map_nth gather_def less_Suc_eq_le)

lemma cut_at_even:
  "j \<le> m \<Longrightarrow> cut_at (j * s) (map (\<lambda>i. (i + 1) * s) [j..<m]) [0..<(m + 1) * s] = map (\<lambda>i. [i * s..<(i + 1) * s]) [j..<m + 1]"
proof (induction "m - j" arbitrary: j)
  case 0
  then show ?case by simp
next
  case (Suc x)
  then have j: "j < m" "x = m - (j + 1)" "j + 1 \<le> m" by auto
  have "(j + 1) * s \<le> (m + 1) * s" using j by (intro mult_le_mono1) simp
  then have "take ((j + 1) * s) [0..<(m + 1) * s] = [0..<(j + 1) * s]" by (simp add: take_upt)
  moreover have "cut_at ((j + 1) * s) (map (\<lambda>i. (i + 1) * s) [j + 1..<m]) [0..<(m + 1) * s] = map (\<lambda>i. [i * s..<(i + 1) * s]) [j + 1..<m + 1]"
    by (rule Suc(1)[OF j(2,3)])
  ultimately show ?case using j by (simp add: upt_conv_Cons)
qed

lemma equal_cuts:
  assumes "0 < n" "k dvd n"
  shows "td_chunk_cuts n k = map (\<lambda>i. (i + 1) * (n div k)) [0..<k - 1]" "even_cuts n k = map (\<lambda>i. (i + 1) * (n div k)) [0..<k - 1]"
    "cut_at 0 (map (\<lambda>i. (i + 1) * (n div k)) [0..<k - 1]) [0..<n] = map (\<lambda>i. [i * (n div k)..<(i + 1) * (n div k)]) [0..<k]"
proof -
  let ?s = "n div k"
  have k: "0 < k" using assms by (auto intro: Nat.gr0I)
  have n: "n = k * ?s" using assms by simp
  have s: "0 < ?s" using n assms(1) by (metis mult_is_0 not_gr0)
  have div: "(a * b + (a - 1)) div a = b" if "0 < a" for a b :: nat by (rule div_nat_eqI) (use that in auto)
  have "(n + k - 1) div k = ?s" using div[of k ?s] n k by (metis Nat.add_diff_assoc One_nat_def Suc_leI)
  moreover have "(n + ?s - 1) div ?s = k" using div[of ?s k] n s by (metis Nat.add_diff_assoc One_nat_def Suc_leI mult.commute)
  ultimately show "td_chunk_cuts n k = map (\<lambda>i. (i + 1) * ?s) [0..<k - 1]" by (simp add: td_chunk_cuts_def Let_def)
  show "even_cuts n k = map (\<lambda>i. (i + 1) * ?s) [0..<k - 1]" using assms(2) by (simp add: even_cuts_def)
  have "(k - 1 + 1) * ?s = n" using n k by simp
  then show "cut_at 0 (map (\<lambda>i. (i + 1) * ?s) [0..<k - 1]) [0..<n] = map (\<lambda>i. [i * ?s..<(i + 1) * ?s]) [0..<k]"
    using cut_at_even[of 0 "k - 1" ?s] k by simp
qed

lemma dp_chunk_gather:
  assumes wf: "dp_wf d" and n: "0 < dp_len d" "k dvd dp_len d"
  shows "dp_chunk auto k d = Inr (map (\<lambda>i. dp_gather [i * (dp_len d div k)..<(i + 1) * (dp_len d div k)] d) [0..<k])"
proof -
  let ?n = "dp_len d" and ?s = "dp_len d div k" and ?cuts = "map (\<lambda>i. (i + 1) * (dp_len d div k)) [0..<k - 1]"
  have k: "0 < k" using n by (auto intro: Nat.gr0I)
  have piece: "cut_at 0 ?cuts xs ! i = gather [i * ?s..<(i + 1) * ?s] xs" if "i < k" "length xs = ?n" for i and xs :: "'x list"
    using cut_at_gather[of i ?cuts 0 xs] equal_cuts(3)[OF n] that by simp
  let ?batches = "case dp_batch d of None \<Rightarrow> replicate k None
      | Some (n, ts) \<Rightarrow> map (\<lambda>(i, rows). Some (length rows, map_values (\<lambda>v. cut_at 0 (td_chunk_cuts n k) v ! i) ts))
          (enumerate 0 (cut_at 0 (td_chunk_cuts n k) [0..<n]))"
  let ?bi = "\<lambda>i. map_option (\<lambda>(n, ts). (length [i * ?s..<(i + 1) * ?s], map_values (gather [i * ?s..<(i + 1) * ?s]) ts)) (dp_batch d)"
  have batches: "?batches = map ?bi [0..<k]"
  proof (cases "dp_batch d")
    case None
    then show ?thesis by (simp add: map_replicate_const)
  next
    case (Some b)
    obtain m ts where b: "b = (m, ts)" by (cases b)
    have m: "m = ?n" using dp_wf_columns(1)[OF wf] Some b by simp
    have cols: "map_values (\<lambda>v. cut_at 0 ?cuts v ! i) ts = map_values (gather [i * ?s..<(i + 1) * ?s]) ts" if "i < k" for i
      using dp_wf_columns(2)[OF wf] Some b that by (intro map_values_cong piece) auto
    show ?thesis
    proof (rule nth_equalityI)
      show "length ?batches = length (map ?bi [0..<k])"
        using Some b m equal_cuts[OF n] k by simp
      fix i assume "i < length ?batches"
      then have i: "i < k" using Some b m equal_cuts[OF n] k by simp
      show "?batches ! i = map ?bi [0..<k] ! i"
        using Some b m equal_cuts[OF n] i cols[OF i] by (simp add: nth_enumerate_eq)
    qed
  qed
  let ?c = "case dp_batch d of None \<Rightarrow> (\<lambda>n. even_cuts n k) | Some (n, _) \<Rightarrow> (\<lambda>_. td_chunk_cuts n k)"
  have cuts: "?c (length v) = ?cuts" if "(key, v) \<in> set (dp_non_tensor d)" for key v
    using dp_wf_columns(1,3)[OF wf] that equal_cuts[OF n] by (auto split: option.split)
  have nt: "map_values (\<lambda>v. cut_at 0 (?c (length v)) v ! i) (dp_non_tensor d) =
      map_values (gather [i * ?s..<(i + 1) * ?s]) (dp_non_tensor d)" if "i < k" for i
  proof (rule map_values_cong)
    fix key v assume v: "(key, v) \<in> set (dp_non_tensor d)"
    show "cut_at 0 (?c (length v)) v ! i = gather [i * ?s..<(i + 1) * ?s] v"
      using piece[OF that dp_wf_columns(3)[OF wf v]] unfolding cuts[OF v] .
  qed
  have "res_map (\<lambda>i. res_bind (py_nth ?batches i) (\<lambda>b.
      new_data_proto b (map_values (\<lambda>v. cut_at 0 (?c (length v)) v ! i) (dp_non_tensor d)) (dp_meta d))) [0..<k] =
    Inr (map (\<lambda>i. dp_gather [i * ?s..<(i + 1) * ?s] d) [0..<k])"
  proof (rule res_map_all_Inr)
    fix i assume "i \<in> set [0..<k]"
    then have i: "i < k" by simp
    have "new_data_proto (?bi i) (map_values (gather [i * ?s..<(i + 1) * ?s]) (dp_non_tensor d)) (dp_meta d) =
        Inr (dp_gather [i * ?s..<(i + 1) * ?s] d)"
      by (rule new_gather) simp_all
    then show "res_bind (py_nth ?batches i) (\<lambda>b.
        new_data_proto b (map_values (\<lambda>v. cut_at 0 (?c (length v)) v ! i) (dp_non_tensor d)) (dp_meta d)) =
        Inr (dp_gather [i * ?s..<(i + 1) * ?s] d)"
      unfolding batches nt[OF i] using i by simp
  qed
  moreover have "\<forall>(key, v) \<in> set (dp_non_tensor d). length (cut_at 0 (?c (length v)) v) = k"
    using cuts k by auto
  moreover have "dp_len d mod k = 0" using n by simp
  ultimately show ?thesis using k unfolding dp_chunk_def Let_def by simp
qed

lemma dp_split_gather:
  assumes wf: "dp_wf d" and s: "0 < s"
  shows "dp_split s d = Inr (map (\<lambda>i. dp_gather [i * s..<min (i * s + s) (dp_len d)] d) [0..<(dp_len d + s - 1) div s])"
proof -
  have "dp_slice (Some (int (i * s))) (Some (int (i * s + s))) None d = Inr (dp_gather [i * s..<min (i * s + s) (dp_len d)] d)" for i
  proof -
    have "py_slice_step (Some (int (i * s))) (Some (int (i * s + s))) None [0..<dp_len d] = [i * s..<min (i * s + s) (dp_len d)]"
      unfolding py_slice_step_def option.case py_slice_range by (simp add: take_upt drop_upt min_def)
    then show ?thesis using dp_slice_gather[OF wf, of None] by simp
  qed
  then have "res_map (\<lambda>i. dp_slice (Some (int (i * s))) (Some (int (i * s + s))) None d) [0..<(dp_len d + s - 1) div s] =
      Inr (map (\<lambda>i. dp_gather [i * s..<min (i * s + s) (dp_len d)] d) [0..<(dp_len d + s - 1) div s])"
    by (intro res_map_all_Inr)
  then show ?thesis using s by (simp add: dp_split_def)
qed

lemma dp_padding_gather:
  assumes wf: "dp_wf d" and plain: "meta_plain d" and n: "0 < dp_len d"
  shows "dp_padding p cand d = Inr (dp_gather ([0..<dp_len d] @ replicate p (if cand = ''first'' then 0 else dp_len d - 1)) d)"
proof (cases "p = 0")
  case True
  then show ?thesis using dp_gather_all[OF wf] by (simp add: dp_padding_def)
next
  case False
  let ?i = "if cand = ''first'' then 0 else dp_len d - 1"
  have "map (norm_index (dp_len d)) [if cand = ''first'' then 0 else int (dp_len d) - 1] = [?i]"
    using n by (simp add: norm_index_def nat_diff_distrib')
  then have row: "select_idxs (Idxs [if cand = ''first'' then 0 else int (dp_len d) - 1]) d = Inr (dp_gather [?i] d)"
    using select_idxs_gather[OF wf, of "[if cand = ''first'' then 0 else int (dp_len d) - 1]"] n by (simp split: if_splits)
  have len: "dp_len (dp_gather [?i] d) = 1" using dp_len_gather[OF n, of "[?i]"] by simp
  have "dp_repeat p True (dp_gather [?i] d) = Inr (dp_gather (repeat_rows p True [0..<1]) (dp_gather [?i] d))"
    using dp_repeat_gather[OF dp_wf_gather[OF wf n, of "[?i]"], of p True] unfolding len .
  also have "dp_gather (repeat_rows p True [0..<1]) (dp_gather [?i] d) = dp_gather (replicate p ?i) d"
  proof -
    have r: "repeat_rows p True [0..<1] = replicate p 0" by (simp add: repeat_rows_def)
    have g: "gather (replicate p 0) [?i] = replicate p ?i" by (simp add: gather_def map_replicate)
    show ?thesis unfolding r by (subst dp_gather_gather) (simp_all add: list_all_iff g)
  qed
  finally have part: "dp_repeat p True (dp_gather [?i] d) = Inr (dp_gather (replicate p ?i) d)" .
  have "[d, dp_gather (replicate p ?i) d] = map (\<lambda>idx. dp_gather idx d) [[0..<dp_len d], replicate p ?i]"
    using dp_gather_all[OF wf] by simp
  then have "dp_concat [d, dp_gather (replicate p ?i) d] = Inr (dp_gather ([0..<dp_len d] @ replicate p ?i) d)"
    using concat_gathers[OF wf plain, of "[[0..<dp_len d], replicate p ?i]"] by simp
  then show ?thesis using False row part by (simp add: dp_padding_def dp_gather_def)
qed

section \<open>Unions and moved keys\<close>

text \<open>The three unions are one loop with different comparisons; \<open>keep\<close> says which value stays.\<close>

lemma union_fold:
  assumes "dict_wf d2" "dict_wf d1" "keep = (\<lambda>k v d. AList.update k v d) \<or> keep = (\<lambda>k v d. d)"
  shows "res_fold (\<lambda>(k, v) d. (case map_of d k of None \<Rightarrow> Inr (AList.update k v d)
       | Some w \<Rightarrow> if same w v then Inr (keep k v d) else Inl AssertionError)) d2 d1 =
     (if \<forall>(k, v) \<in> set d2. case map_of d1 k of None \<Rightarrow> True | Some w \<Rightarrow> same w v
      then Inr (fold (\<lambda>(k, v) d. if map_of d k = None then AList.update k v d else keep k v d) d2 d1)
      else Inl AssertionError)"
  using assms(1,2)
proof (induction d2 arbitrary: d1)
  case (Cons x d2)
  obtain k v where x: "x = (k, v)" by (cases x)
  have k: "k \<notin> fst ` set d2" and wf2: "dict_wf d2" using Cons.prems(1) x by (auto simp: dict_wf_def)
  let ?d = "if map_of d1 k = None then AList.update k v d1 else keep k v d1"
  have wf: "dict_wf ?d" using assms(3) Cons.prems(2) by auto
  have other: "map_of ?d k' = map_of d1 k'" if "k' \<noteq> k" for k' using assms(3) that by auto
  have all: "(\<forall>(k', v') \<in> set d2. case map_of ?d k' of None \<Rightarrow> True | Some w \<Rightarrow> same w v') \<longleftrightarrow>
      (\<forall>(k', v') \<in> set d2. case map_of d1 k' of None \<Rightarrow> True | Some w \<Rightarrow> same w v')"
  proof (intro ball_cong refl)
    fix y assume y: "y \<in> set d2"
    obtain k' v' where y': "y = (k', v')" by (cases y)
    with y k have "k' \<noteq> k" by force
    from other[OF this] show "(case y of (k', v') \<Rightarrow> case map_of ?d k' of None \<Rightarrow> True | Some w \<Rightarrow> same w v') \<longleftrightarrow>
        (case y of (k', v') \<Rightarrow> case map_of d1 k' of None \<Rightarrow> True | Some w \<Rightarrow> same w v')" unfolding y' by simp
  qed
  note IH = Cons.IH[OF wf2 wf, unfolded all]
  show ?case
  proof (cases "map_of d1 k")
    case None
    with IH show ?thesis by (simp add: x)
  next
    case (Some w)
    show ?thesis
    proof (cases "same w v")
      case True
      with IH Some show ?thesis by (simp add: x)
    next
      case False
      with Some show ?thesis by (simp add: x)
    qed
  qed
qed simp

lemma union_fold_lookup:
  assumes "dict_wf d2" "dict_wf d1" "over \<and> keep = (\<lambda>k v d. AList.update k v d) \<or> \<not> over \<and> keep = (\<lambda>k v d. d)"
    "\<forall>(k, v) \<in> set d2. case map_of d1 k of None \<Rightarrow> True | Some w \<Rightarrow> over \<longrightarrow> w = v"
  shows "map_of (fold (\<lambda>(k, v) d. if map_of d k = None then AList.update k v d else keep k v d) d2 d1) = map_of d2 ++ map_of d1"
  using assms(1,2,4)
proof (induction d2 arbitrary: d1)
  case (Cons x d2)
  obtain k v where x: "x = (k, v)" by (cases x)
  have k: "k \<notin> fst ` set d2" and wf2: "dict_wf d2" using Cons.prems(1) x by (auto simp: dict_wf_def)
  let ?d = "if map_of d1 k = None then AList.update k v d1 else keep k v d1"
  have wf: "dict_wf ?d" using assms(3) Cons.prems(2) by auto
  have lookup: "map_of ?d = (\<lambda>k'. if k' = k then Some (case map_of d1 k of None \<Rightarrow> v | Some w \<Rightarrow> w) else map_of d1 k')"
    using assms(3) Cons.prems(3) x by (auto split: option.splits)
  have "\<forall>(k', v') \<in> set d2. case map_of ?d k' of None \<Rightarrow> True | Some w \<Rightarrow> over \<longrightarrow> w = v'"
  proof clarify
    fix k' v' assume "(k', v') \<in> set d2"
    moreover from this have "k' \<noteq> k" using k by force
    ultimately show "case map_of ?d k' of None \<Rightarrow> True | Some w \<Rightarrow> over \<longrightarrow> w = v'"
      using Cons.prems(3) unfolding lookup by auto
  qed
  from Cons.IH[OF wf2 wf this] have "map_of (fold (\<lambda>(k, v) d. if map_of d k = None then AList.update k v d else keep k v d) (x # d2) d1) =
      map_of d2 ++ map_of ?d" by (simp add: x)
  also have "\<dots> = map_of (x # d2) ++ map_of d1"
    unfolding lookup using k by (auto simp: x map_add_def fun_eq_iff split: option.split)
  finally show ?case .
qed simp

lemma delete_keys_set: "fst ` set (AList.delete k d) = fst ` set d - {k}"
  by (induction d) auto

lemma pop_keys_lookup:
  assumes "pop_keys ks d popped = Inr (rest, out)" "dict_wf d" "dict_wf popped"
  shows "distinct ks \<and> set ks \<subseteq> fst ` set d \<and> dict_wf rest \<and> dict_wf out \<and>
    map_of rest = (\<lambda>k. if k \<in> set ks then None else map_of d k) \<and>
    map_of out = (\<lambda>k. if k \<in> set ks then map_of d k else map_of popped k)"
  using assms
proof (induction ks d popped rule: pop_keys.induct)
  case (2 k ks d popped)
  then obtain v where v: "map_of d k = Some v" by (auto split: option.splits)
  have "k \<in> fst ` set d" using v by (metis dom_map_of_conv_image_fst domI)
  moreover have "fst ` set (AList.delete k d) = fst ` set d - {k}" by (rule delete_keys_set)
  moreover have IH: "distinct ks \<and> set ks \<subseteq> fst ` set (AList.delete k d) \<and> dict_wf rest \<and> dict_wf out \<and>
    map_of rest = (\<lambda>k'. if k' \<in> set ks then None else map_of (AList.delete k d) k') \<and>
    map_of out = (\<lambda>k'. if k' \<in> set ks then map_of (AList.delete k d) k' else map_of (AList.update k v popped) k')"
    using 2 v by auto
  ultimately show ?case using v by (auto simp: fun_eq_iff)
qed auto

section \<open>Strict equality of object arrays\<close>

text \<open>A nested array has as many elements as its shape says.\<close>

fun np_ok :: "np_obj \<Rightarrow> bool" where
  "np_ok (NpArray dt sh xs) \<longleftrightarrow> length xs = prod_list sh \<and> list_all np_ok xs"
| "np_ok _ \<longleftrightarrow> True"

lemma deep_equal_iff: "np_ok a \<Longrightarrow> np_ok b \<Longrightarrow> deep_equal a b \<longleftrightarrow> a = b"
proof (induction a b rule: deep_equal.induct)
  case (2 dt1 sh1 xs dt2 sh2 ys)
  show ?case
  proof (cases "dt1 = dt2 \<and> sh1 = sh2")
    case True
    then have len: "length xs = length ys" using 2 by simp
    have "deep_equal x y \<longleftrightarrow> x = y" if "(x, y) \<in> set (zip xs ys)" for x y
      using 2(1)[of "(x, y)" x y] 2(2,3) that True by (auto simp: list_all_iff dest: set_zip_leftD set_zip_rightD)
    then have "list_all (\<lambda>(x, y). deep_equal x y) (zip xs ys) \<longleftrightarrow> (\<forall>(x, y) \<in> set (zip xs ys). x = y)"
      by (auto simp: list_all_iff)
    also have "\<dots> \<longleftrightarrow> xs = ys" using len by (auto simp: set_zip list_eq_iff_nth_eq)
    finally show ?thesis using True by simp
  qed auto
qed auto

lemma array_equal_iff:
  assumes "list_all np_ok xs" "list_all np_ok ys"
  shows "array_equal xs ys \<longleftrightarrow> xs = ys"
  using deep_equal_iff[of "NpArray ''object'' [length xs] xs" "NpArray ''object'' [length ys] ys"] assms
  by (auto simp: array_equal_def)

section \<open>Properties\<close>

text \<open>A batch of three rows with a tensor and an object array that contains NaN.\<close>

definition demo_batch :: "nat data_proto" where
  "demo_batch = \<lparr>dp_batch = Some (3, [(''ids'', [7, 8, 9])]),
     dp_non_tensor = [(''uid'', [NpObject ''str'' 1, NpFloat None, NpFloat (Some 2)])], dp_meta = [(''step'', MAtom 4)]\<rparr>"

lemma demo_batch_facts: "dp_wf demo_batch" "meta_plain demo_batch" "dp_len demo_batch = 3"
  by code_simp+

text \<open>
  C19: the row operations refine one abstract operation, the selection of rows by position: slices, integer
  indexing, repetition and padding return the selection at the positions Python's rules give, and never raise on a
  well-formed object with the rows they need.
\<close>

theorem row_operations_refine:
  assumes "dp_wf d"
  shows "(step \<noteq> Some 0 \<longrightarrow> dp_slice start stop step d = Inr (dp_gather (py_slice_step start stop step [0..<dp_len d]) d)) \<and>
    (list_all (\<lambda>i. - int (dp_len d) \<le> i \<and> i < int (dp_len d)) is \<longrightarrow>
       select_idxs (Idxs is) d = Inr (dp_gather (map (norm_index (dp_len d)) is) d)) \<and>
    dp_repeat k True d = Inr (dp_gather (concat (map (replicate k) [0..<dp_len d])) d) \<and>
    dp_repeat k False d = Inr (dp_gather (concat (replicate k [0..<dp_len d])) d) \<and>
    (meta_plain d \<and> 0 < dp_len d \<longrightarrow>
       dp_padding p cand d = Inr (dp_gather ([0..<dp_len d] @ replicate p (if cand = ''first'' then 0 else dp_len d - 1)) d))"
  using dp_slice_gather[OF assms] select_idxs_gather[OF assms] dp_repeat_gather[OF assms, of k] dp_padding_gather[OF assms]
  by (simp add: repeat_rows_def list_all_iff)

theorem row_operations_refine_witness:
  "select_idxs (Idxs [-1, 0]) demo_batch = Inr (dp_gather [2, 0] demo_batch)"
proof -
  have "map (norm_index 3) [-1, 0] = [2, 0]" by code_simp
  with row_operations_refine[OF demo_batch_facts(1), of None None None "[-1, 0]" 1 0 "''''"] show ?thesis
    by (simp add: demo_batch_facts)
qed

text \<open>
  C20: padding to a divisor and unpadding give back the batch; the padded batch has the least multiple of the
  divisor that is not smaller, and row \<open>i\<close> of it is row \<open>i mod n\<close> of the original. (Metrics in the meta information would
  be collected by the concatenation.)
\<close>

theorem pad_unpad_roundtrip:
  assumes "dp_wf d" "meta_plain d" "0 < dp_len d" "0 < k"
  shows "\<exists>padded pad. pad_dataproto_to_divisor d k = Inr (padded, pad) \<and> pad < k \<and> k dvd dp_len padded \<and>
    dp_len padded = dp_len d + pad \<and> padded = dp_gather (map (\<lambda>i. i mod dp_len d) [0..<dp_len d + pad]) d \<and>
    unpad_dataproto padded pad = Inr d"
proof -
  obtain pad where p: "pad_dataproto_to_divisor d k = Inr (dp_gather (map (\<lambda>i. i mod dp_len d) [0..<dp_len d + pad]) d, pad)"
    "pad < k" "k dvd dp_len d + pad"
    by (rule pad_selection[OF assms])
  let ?idx = "map (\<lambda>i. i mod dp_len d) [0..<dp_len d + pad]" and ?padded = "dp_gather (map (\<lambda>i. i mod dp_len d) [0..<dp_len d + pad]) d"
  have len: "dp_len ?padded = dp_len d + pad" using dp_len_gather[OF assms(3)] by simp
  have "unpad_dataproto ?padded pad = Inr d"
  proof (cases "pad = 0")
    case True
    have "?idx = [0..<dp_len d]" using True by (auto intro: map_idI)
    then show ?thesis using True dp_gather_all[OF assms(1)] by (simp add: unpad_dataproto_def)
  next
    case False
    have "unpad_dataproto ?padded pad = Inr (dp_gather [0..<dp_len d] ?padded)"
      using False dp_slice_gather[OF dp_wf_gather[OF assms(1,3)], of None None "Some (- int pad)" ?idx]
      unfolding len py_slice_step_def option.case by (simp add: unpad_dataproto_def py_slice_drop_end)
    also have "gather [0..<dp_len d] ?idx = [0..<dp_len d]" by (auto simp: gather_def intro!: map_idI)
    then have "dp_gather [0..<dp_len d] ?padded = d"
      by (subst dp_gather_gather) (auto simp: list_all_iff dp_gather_all[OF assms(1)])
    finally show ?thesis .
  qed
  with p len show ?thesis by metis
qed

theorem pad_unpad_roundtrip_witness:
  "\<exists>padded. pad_dataproto_to_divisor demo_batch 2 = Inr (padded, 1) \<and> unpad_dataproto padded 1 = Inr demo_batch"
proof -
  obtain padded pad where p: "pad_dataproto_to_divisor demo_batch 2 = Inr (padded, pad)" "pad < 2" "2 dvd dp_len padded"
    "dp_len padded = 3 + pad" "unpad_dataproto padded pad = Inr demo_batch"
    using pad_unpad_roundtrip[OF demo_batch_facts(1,2), of 2] demo_batch_facts(3) by auto
  then have "pad = 1" by presburger
  with p show ?thesis by blast
qed

text \<open>
  Chunking into \<open>k\<close> parts, where \<open>k\<close> divides the number of rows, or splitting into parts of a size, and concatenating
  the parts give back the batch; the chunks are equally long and hold consecutive rows. Without padding, other
  numbers of chunks are refused.
\<close>

theorem chunk_split_roundtrip:
  assumes "dp_wf d" "meta_plain d" "0 < dp_len d" "0 < k"
  shows "(k dvd dp_len d \<longrightarrow> (\<exists>parts. dp_chunk auto k d = Inr parts \<and> length parts = k \<and>
       (\<forall>i < k. parts ! i = dp_gather [i * (dp_len d div k)..<(i + 1) * (dp_len d div k)] d) \<and> dp_concat parts = Inr d)) \<and>
    (\<not> k dvd dp_len d \<and> \<not> is_padding_enabled auto d \<longrightarrow> dp_chunk auto k d = Inl AssertionError) \<and>
    (\<exists>parts. dp_split k d = Inr parts \<and> dp_concat parts = Inr d)"
proof (intro conjI impI)
  let ?s = "dp_len d div k"
  assume "k dvd dp_len d"
  then have c: "dp_chunk auto k d = Inr (map (\<lambda>i. dp_gather [i * ?s..<(i + 1) * ?s] d) [0..<k])"
    using dp_chunk_gather[OF assms(1,3)] by simp
  have "concat (map (\<lambda>i. [i * ?s..<(i + 1) * ?s]) [0..<m]) = [0..<m * ?s]" for m
    by (induction m) (simp_all add: range_append)
  then have "concat (map (\<lambda>i. [i * ?s..<(i + 1) * ?s]) [0..<k]) = [0..<dp_len d]" using \<open>k dvd dp_len d\<close> by simp
  then have "dp_concat (map (\<lambda>i. dp_gather [i * ?s..<(i + 1) * ?s] d) [0..<k]) = Inr d"
    using concat_gathers[OF assms(1,2), of "map (\<lambda>i. [i * ?s..<(i + 1) * ?s]) [0..<k]"] assms(4) dp_gather_all[OF assms(1)]
    by (simp add: comp_def)
  with c show "\<exists>parts. dp_chunk auto k d = Inr parts \<and> length parts = k \<and>
      (\<forall>i < k. parts ! i = dp_gather [i * ?s..<(i + 1) * ?s] d) \<and> dp_concat parts = Inr d"
    by (intro exI[of _ "map (\<lambda>i. dp_gather [i * ?s..<(i + 1) * ?s] d) [0..<k]"]) simp
next
  assume "\<not> k dvd dp_len d \<and> \<not> is_padding_enabled auto d"
  then show "dp_chunk auto k d = Inl AssertionError" using assms(4) by (simp add: dp_chunk_def mod_eq_0_iff_dvd)
next
  let ?n = "dp_len d" and ?m = "(dp_len d + k - 1) div k" and ?r = "\<lambda>i. [i * k..<min (i * k + k) (dp_len d)]"
  have "concat (map ?r [0..<m]) = [0..<min (m * k) ?n]" for m
  proof (induction m)
    case (Suc m)
    then show ?case by (cases "m * k \<le> ?n") (simp_all add: min_def range_append add.commute)
  qed simp
  moreover have "?n \<le> ?m * k" using assms(4) div_mult_mod_eq[of "?n + k - 1" k] mod_less_divisor[of k "?n + k - 1"] by linarith
  ultimately have "concat (map ?r [0..<?m]) = [0..<?n]" by (simp add: min_def)
  moreover have "?m \<noteq> 0" using assms(3,4) by (simp add: div_eq_0_iff)
  ultimately have "dp_concat (map (\<lambda>i. dp_gather (?r i) d) [0..<?m]) = Inr d"
    using concat_gathers[OF assms(1,2), of "map ?r [0..<?m]"] dp_gather_all[OF assms(1)] by (simp add: comp_def)
  then show "\<exists>parts. dp_split k d = Inr parts \<and> dp_concat parts = Inr d" using dp_split_gather[OF assms(1,4)] by blast
qed

theorem chunk_split_roundtrip_witness:
  "(\<exists>parts. dp_chunk False 3 demo_batch = Inr parts \<and> length parts = 3 \<and> dp_concat parts = Inr demo_batch) \<and>
   dp_chunk False 2 demo_batch = Inl AssertionError"
proof -
  have "\<not> is_padding_enabled False demo_batch" by code_simp
  then show ?thesis
    using chunk_split_roundtrip[OF demo_batch_facts(1,2), of 3 False] chunk_split_roundtrip[OF demo_batch_facts(1,2), of 2 False]
    by (auto simp: demo_batch_facts(3))
qed

definition arrays_ok :: "'t data_proto \<Rightarrow> bool" where
  "arrays_ok d \<longleftrightarrow> list_all (\<lambda>(k, v). list_all np_ok v) (dp_non_tensor d)"

definition agree :: "('v \<Rightarrow> 'v \<Rightarrow> bool) \<Rightarrow> (string, 'v) dict \<Rightarrow> (string, 'v) dict \<Rightarrow> bool" where
  "agree same d1 d2 \<longleftrightarrow> list_all (\<lambda>(k, v). case map_of d1 k of None \<Rightarrow> True | Some w \<Rightarrow> same w v) d2"

lemma union_two_dict_eq:
  "union_two_dict d1 d2 = res_fold (\<lambda>(k, v) d. (case map_of d k of None \<Rightarrow> Inr (AList.update k v d)
      | Some w \<Rightarrow> if w = v then Inr (AList.update k v d) else Inl AssertionError)) d2 d1"
  unfolding union_two_dict_def by (rule arg_cong[of _ _ "\<lambda>f. res_fold f d2 d1"]) (auto simp: fun_eq_iff split: option.split)

lemma union_tensor_result:
  assumes "dict_wf ts1" "dict_wf ts2"
  shows "if n1 = n2 \<and> agree teq ts1 ts2
    then \<exists>ts. union_tensor_dict teq (n1, ts1) (n2, ts2) = Inr (n1, ts) \<and> map_of ts = map_of ts2 ++ map_of ts1
    else union_tensor_dict teq (n1, ts1) (n2, ts2) = Inl AssertionError"
  using union_fold[OF assms(2,1), of "\<lambda>k v d. d" teq] union_fold_lookup[OF assms(2,1), of False "\<lambda>k v d. d"]
  by (auto simp: union_tensor_dict_def agree_def list_all_iff py_assert_def split: option.splits)

lemma union_dict_result:
  assumes "dict_wf d1" "dict_wf d2" "\<forall>(k, v) \<in> set d2. \<forall>w. map_of d1 k = Some w \<longrightarrow> (same w v \<longleftrightarrow> w = v)"
  shows "if agree same d1 d2
    then \<exists>d. res_fold (\<lambda>(k, v) d. (case map_of d k of None \<Rightarrow> Inr (AList.update k v d)
        | Some w \<Rightarrow> if same w v then Inr (AList.update k v d) else Inl AssertionError)) d2 d1 = Inr d \<and> map_of d = map_of d2 ++ map_of d1
    else res_fold (\<lambda>(k, v) d. (case map_of d k of None \<Rightarrow> Inr (AList.update k v d)
        | Some w \<Rightarrow> if same w v then Inr (AList.update k v d) else Inl AssertionError)) d2 d1 = Inl AssertionError"
proof (cases "agree same d1 d2")
  case True
  have a: "\<forall>(k, v) \<in> set d2. case map_of d1 k of None \<Rightarrow> True | Some w \<Rightarrow> same w v"
    using True by (simp add: agree_def list_all_iff)
  have "\<forall>(k, v) \<in> set d2. case map_of d1 k of None \<Rightarrow> True | Some w \<Rightarrow> True \<longrightarrow> w = v"
    using a assms(3) by (fastforce split: option.splits)
  from union_fold_lookup[OF assms(2,1) _ this] show ?thesis
    using union_fold[OF assms(2,1) disjI1[OF refl], of same] a True by auto
next
  case False
  then show ?thesis
    using union_fold[OF assms(2,1) disjI1[OF refl], of same] by (auto simp: agree_def list_all_iff)
qed

text \<open>
  The union of two batches succeeds exactly when their sizes are equal and all entries with a common key are
  (tensors by \<open>torch.equal\<close>, object arrays element by element with NaN equal to NaN, meta information by \<open>==\<close>); it
  then has the entries of both.
\<close>

theorem union_merges:
  assumes "dp_batch d = Some (n1, ts1)" "dp_batch other = Some (n2, ts2)" "dp_wf d" "dp_wf other" "arrays_ok d" "arrays_ok other"
  shows "if n1 = n2 \<and> agree teq ts1 ts2 \<and> agree (=) (dp_non_tensor d) (dp_non_tensor other) \<and> agree (=) (dp_meta d) (dp_meta other)
    then \<exists>u ts. dp_union teq d other = Inr u \<and> dp_batch u = Some (n1, ts) \<and> map_of ts = map_of ts2 ++ map_of ts1 \<and>
      map_of (dp_non_tensor u) = map_of (dp_non_tensor other) ++ map_of (dp_non_tensor d) \<and>
      map_of (dp_meta u) = map_of (dp_meta other) ++ map_of (dp_meta d)
    else dp_union teq d other = Inl AssertionError"
proof -
  have wf: "dict_wf ts1" "dict_wf ts2" "dict_wf (dp_non_tensor d)" "dict_wf (dp_non_tensor other)" "dict_wf (dp_meta d)" "dict_wf (dp_meta other)"
    using assms by (simp_all add: dp_wf_def)
  have arr: "\<forall>(k, v) \<in> set (dp_non_tensor other). \<forall>w. map_of (dp_non_tensor d) k = Some w \<longrightarrow> (array_equal w v \<longleftrightarrow> w = v)"
    using assms(5,6) by (fastforce simp: arrays_ok_def list_all_iff dest: map_of_SomeD intro!: array_equal_iff)
  have ag: "agree array_equal (dp_non_tensor d) (dp_non_tensor other) \<longleftrightarrow> agree (=) (dp_non_tensor d) (dp_non_tensor other)"
    unfolding agree_def by (intro list.pred_cong refl) (use arr in \<open>auto split: option.splits\<close>)
  note t = union_tensor_result[OF wf(1,2), of n1 n2 teq]
  note u = union_dict_result[OF wf(3,4) arr, folded union_numpy_dict_def, unfolded ag]
  note m = union_dict_result[OF wf(5,6), of "(=)", folded union_two_dict_eq]
  show ?thesis
    using t u m assms(1,2) by (auto simp: dp_union_def split: if_splits)
qed

lemma demo_epoch: "map_of (dp_meta demo_batch) ''epoch'' = None"
  by code_simp

theorem union_merges_witness:
  "dp_union (=) demo_batch (demo_batch\<lparr>dp_meta := [(''step'', MAtom 5)]\<rparr>) = Inl AssertionError \<and>
   (\<exists>u. dp_union (=) demo_batch (demo_batch\<lparr>dp_meta := [(''epoch'', MAtom 5)]\<rparr>) = Inr u \<and> map_of (dp_meta u) ''epoch'' = Some (MAtom 5))"
proof -
  let ?ts = "[(''ids'', [7, 8, 9 :: nat])]" and ?o1 = "demo_batch\<lparr>dp_meta := [(''step'', MAtom 5)]\<rparr>" and ?o2 = "demo_batch\<lparr>dp_meta := [(''epoch'', MAtom 5)]\<rparr>"
  have b: "dp_batch demo_batch = Some (3, ?ts)" "dp_batch ?o1 = Some (3, ?ts)" "dp_batch ?o2 = Some (3, ?ts)"
    by (simp_all add: demo_batch_def)
  have w: "dp_wf ?o1" "dp_wf ?o2" "arrays_ok demo_batch" "arrays_ok ?o1" "arrays_ok ?o2" by code_simp+
  have a: "\<not> agree (=) (dp_meta demo_batch) (dp_meta ?o1)" "agree (=) (dp_meta demo_batch) (dp_meta ?o2)"
    "agree (=) ?ts ?ts" "agree (=) (dp_non_tensor demo_batch) (dp_non_tensor ?o1)" "agree (=) (dp_non_tensor demo_batch) (dp_non_tensor ?o2)"
    by code_simp+
  show ?thesis
    using union_merges[OF b(1,2) demo_batch_facts(1) w(1,3,4), of "(=)"] union_merges[OF b(1,3) demo_batch_facts(1) w(2,3,5), of "(=)"] a
      demo_epoch by (auto simp: map_add_def)
qed

text \<open>
  \<open>pop\<close> succeeds exactly on distinct present keys, moves their entries out, and uniting the rest with what was
  popped gives an object with the entries of the original (some tensor being popped, since a batch without tensors
  cannot be united).
\<close>

theorem pop_union_restores:
  assumes "dp_batch d = Some (n, ts)" "dp_wf d" "dp_pop bk nk mk d = Inr (rest, out)" "bk \<noteq> []"
  shows "distinct bk \<and> set bk \<subseteq> fst ` set ts \<and>
    (\<exists>u ts'. dp_union teq rest out = Inr u \<and> dp_batch u = Some (n, ts') \<and> map_of ts' = map_of ts \<and>
      map_of (dp_non_tensor u) = map_of (dp_non_tensor d) \<and> map_of (dp_meta u) = map_of (dp_meta d))"
proof -
  have wf: "dict_wf ts" "dict_wf (dp_non_tensor d)" "dict_wf (dp_meta d)" "\<forall>(k, v) \<in> set ts. length v = n"
    using assms(1,2) by (simp_all add: dp_wf_def)
  obtain ts1 tout nt1 nout m1 mout where p: "pop_keys bk ts [] = Inr (ts1, tout)" "pop_keys nk (dp_non_tensor d) [] = Inr (nt1, nout)"
    "pop_keys mk (dp_meta d) [] = Inr (m1, mout)" "from_dict tout nout mout False = Inr out"
    "rest = d\<lparr>dp_batch := Some (n, ts1), dp_non_tensor := nt1, dp_meta := m1\<rparr>"
    using assms(1,3) by (auto simp: dp_pop_def res_bind_eq_Inr)
  note t = pop_keys_lookup[OF p(1) wf(1) dict_wf_Nil] and nt = pop_keys_lookup[OF p(2) wf(2) dict_wf_Nil]
    and m = pop_keys_lookup[OF p(3) wf(3) dict_wf_Nil]
  obtain k0 where "k0 \<in> set bk" "k0 \<in> fst ` set ts" using assms(4) t by (cases bk) auto
  then obtain v0 where "map_of tout k0 = Some v0" using t by (metis domD dom_map_of_conv_image_fst)
  then obtain k1 v1 tl where tout: "tout = (k1, v1) # tl" by (cases tout) auto
  have "map_of tout k1 = Some v1" using tout by simp
  then have "map_of ts k1 = Some v1" using t by (auto split: if_splits)
  then have "length v1 = n" using wf(4) by (auto dest: map_of_SomeD)
  then have out: "dp_batch out = Some (n, tout)" "dp_non_tensor out = nout" "dp_meta out = mout"
    using p(4) by (auto simp: from_dict_def new_data_proto_def tout res_bind_eq_Inr)
  have disj: "agree same d1 d2" if "dict_wf d2" "map_of d2 = (\<lambda>k. if k \<in> K then f k else None)" "map_of d1 = (\<lambda>k. if k \<in> K then None else f k)"
    for same :: "'v \<Rightarrow> 'v \<Rightarrow> bool" and d1 d2 K f
    unfolding agree_def list_all_iff
  proof clarify
    fix k v assume "(k, v) \<in> set d2"
    then have "map_of d2 k = Some v" using that(1) by (simp add: dict_wf_map_of)
    then show "case map_of d1 k of None \<Rightarrow> True | Some w \<Rightarrow> same w v" using that(2,3) by (auto split: if_splits)
  qed
  have t2: "map_of tout = (\<lambda>k. if k \<in> set bk then map_of ts k else None)" "map_of ts1 = (\<lambda>k. if k \<in> set bk then None else map_of ts k)"
    "dict_wf tout" "dict_wf ts1" using t by auto
  have n2: "map_of nout = (\<lambda>k. if k \<in> set nk then map_of (dp_non_tensor d) k else None)"
    "map_of nt1 = (\<lambda>k. if k \<in> set nk then None else map_of (dp_non_tensor d) k)" "dict_wf nout" "dict_wf nt1" using nt by auto
  have m2: "map_of mout = (\<lambda>k. if k \<in> set mk then map_of (dp_meta d) k else None)"
    "map_of m1 = (\<lambda>k. if k \<in> set mk then None else map_of (dp_meta d) k)" "dict_wf mout" "dict_wf m1" using m by auto
  have ut: "\<exists>u. union_tensor_dict teq (n, ts1) (n, tout) = Inr (n, u) \<and> map_of u = map_of tout ++ map_of ts1"
    using union_tensor_result[OF t2(4,3), of n n teq] disj[OF t2(3,1,2), of teq] by simp
  have no_conflict: "\<forall>(k, v) \<in> set d2. \<forall>w. map_of d1 k = Some w \<longrightarrow> (same w v \<longleftrightarrow> w = v)"
    if "agree (\<lambda>_ _. False) d1 d2" for same :: "'v \<Rightarrow> 'v \<Rightarrow> bool" and d1 d2
    using that by (fastforce simp: agree_def list_all_iff split: option.splits)
  have un: "\<exists>u. union_numpy_dict nt1 nout = Inr u \<and> map_of u = map_of nout ++ map_of nt1"
    using union_dict_result[OF n2(4,3) no_conflict[OF disj[OF n2(3,1,2)]], of array_equal] disj[OF n2(3,1,2), of array_equal]
    by (simp add: union_numpy_dict_def)
  have um: "\<exists>u. union_two_dict m1 mout = Inr u \<and> map_of u = map_of mout ++ map_of m1"
    using union_dict_result[OF m2(4,3), of "(=)"] disj[OF m2(3,1,2), of "(=)"] by (auto simp: union_two_dict_eq)
  have rejoin: "g ++ h = f" if "g = (\<lambda>k. if k \<in> K then f k else None)" "h = (\<lambda>k. if k \<in> K then None else f k)" for f g h :: "string \<Rightarrow> 'v option" and K
    using that by (auto simp: map_add_def fun_eq_iff split: option.split)
  from ut un um have "\<exists>u ts'. dp_union teq rest out = Inr u \<and> dp_batch u = Some (n, ts') \<and> map_of ts' = map_of ts \<and>
      map_of (dp_non_tensor u) = map_of (dp_non_tensor d) \<and> map_of (dp_meta u) = map_of (dp_meta d)"
    unfolding rejoin[OF t2(1,2)] rejoin[OF n2(1,2)] rejoin[OF m2(1,2)] by (auto simp: dp_union_def out p(5))
  with t show ?thesis by blast
qed

theorem pop_union_restores_witness:
  "\<exists>rest out u. dp_pop [''ids''] [] [''step''] demo_batch = Inr (rest, out) \<and> dp_union (=) rest out = Inr u \<and>
     map_of (dp_meta u) = map_of (dp_meta demo_batch)"
proof -
  have "case dp_pop [''ids''] [] [''step''] demo_batch of Inr _ \<Rightarrow> True | Inl _ \<Rightarrow> False" by code_simp
  then obtain rest out where p: "dp_pop [''ids''] [] [''step''] demo_batch = Inr (rest, out)" by (auto split: sum.splits)
  have "dp_batch demo_batch = Some (3, [(''ids'', [7, 8, 9])])" by (simp add: demo_batch_def)
  from pop_union_restores[OF this demo_batch_facts(1) p, of "(=)"] p show ?thesis by auto
qed

end
