(* ===== verification/Data_Typing.thy ===== *)
theory Data_Typing
  imports Data_Proto
begin

text \<open>
  A typing discipline for \<open>DataProto\<close> (\<open>src/verl/verl/protocol.py\<close>): distinct keys, and with a batch every tensor and every
  object column has as many rows as the batch. Programs over the class are sequences of calls on a pool of objects,
  whatever objects they were given.
\<close>

section \<open>Well-typed objects\<close>

definition dp_typed :: "'t data_proto \<Rightarrow> bool" where
  "dp_typed d \<longleftrightarrow> dict_wf (dp_non_tensor d) \<and> dict_wf (dp_meta d) \<and>
     (case dp_batch d of None \<Rightarrow> True
      | Some (n, ts) \<Rightarrow> dict_wf ts \<and> (\<forall>(k, v)\<in>set ts. length v = n) \<and> (\<forall>(k, v)\<in>set (dp_non_tensor d). length v = n))"

definition batch_typed :: "(nat \<times> (string, 't list) dict) option \<Rightarrow> bool" where
  "batch_typed b \<longleftrightarrow> (case b of None \<Rightarrow> True | Some (n, ts) \<Rightarrow> dict_wf ts \<and> (\<forall>(k, v)\<in>set ts. length v = n))"

text \<open>
  A program over the class holds a pool of objects and names them by position. A call is made on one of them;
  \<open>concat\<close> and \<open>union\<close> take others as arguments. Calls that return new objects append them; \<open>padding\<close>, \<open>reorder\<close>,
  \<open>pop\<close> and \<open>union\<close> change the object they are called on, and \<open>pop\<close> also appends what it moved. An exception ends
  the program. (Objects are values here. In the code a selection without tensor keys shares its TensorDict with its origin and
  the pieces of a chunk share their meta information, so a later \<open>pop\<close> shows in both.)
\<close>

datatype dp_call =
    Slice "int option" "int option" "nat option"
  | Select_idxs row_index
  | Concat "nat list"
  | Pad_to nat
  | Unpad nat
  | Chunk bool nat
  | Split nat
  | Repeat nat bool
  | Sample_repeat "nat list"
  | Pad_rows nat string
  | Reorder "int list"
  | Select_keys "string list option" "string list option" "string list option"
  | Pop "string list" "string list" "string list"
  | Union nat

fun dp_call_on :: "('t list \<Rightarrow> 't list \<Rightarrow> bool) \<Rightarrow> 't data_proto list \<Rightarrow> nat \<Rightarrow> 't data_proto \<Rightarrow> dp_call \<Rightarrow> 't data_proto list result" where
  "dp_call_on tequal pool i d (Slice a b s) = res_bind (dp_slice a b s d) (\<lambda>d'. Inr (pool @ [d']))"
| "dp_call_on tequal pool i d (Select_idxs idx) = res_bind (select_idxs idx d) (\<lambda>d'. Inr (pool @ [d']))"
| "dp_call_on tequal pool i d (Concat js) =
     res_bind (res_map (py_nth pool) js) (\<lambda>ds. res_bind (dp_concat (d # ds)) (\<lambda>d'. Inr (pool @ [d'])))"
| "dp_call_on tequal pool i d (Pad_to n) = res_bind (pad_dataproto_to_divisor d n) (\<lambda>(d', _). Inr (pool @ [d']))"
| "dp_call_on tequal pool i d (Unpad n) = res_bind (unpad_dataproto d n) (\<lambda>d'. Inr (pool @ [d']))"
| "dp_call_on tequal pool i d (Chunk auto n) = res_bind (dp_chunk auto n d) (\<lambda>ds. Inr (pool @ ds))"
| "dp_call_on tequal pool i d (Split n) = res_bind (dp_split n d) (\<lambda>ds. Inr (pool @ ds))"
| "dp_call_on tequal pool i d (Repeat n il) = res_bind (dp_repeat n il d) (\<lambda>d'. Inr (pool @ [d']))"
| "dp_call_on tequal pool i d (Sample_repeat reps) = res_bind (sample_level_repeat reps d) (\<lambda>d'. Inr (pool @ [d']))"
| "dp_call_on tequal pool i d (Pad_rows n c) = res_bind (dp_padding n c d) (\<lambda>d'. Inr (pool[i := d']))"
| "dp_call_on tequal pool i d (Reorder is) = res_bind (dp_reorder is d) (\<lambda>d'. Inr (pool[i := d']))"
| "dp_call_on tequal pool i d (Select_keys bk nk mk) = res_bind (dp_select bk nk mk d) (\<lambda>d'. Inr (pool @ [d']))"
| "dp_call_on tequal pool i d (Pop bk nk mk) = res_bind (dp_pop bk nk mk d) (\<lambda>(rest, out). Inr (pool[i := rest] @ [out]))"
| "dp_call_on tequal pool i d (Union j) =
     res_bind (py_nth pool j) (\<lambda>other. res_bind (dp_union tequal d other) (\<lambda>d'. Inr (pool[i := d'])))"

definition dp_program :: "('t list \<Rightarrow> 't list \<Rightarrow> bool) \<Rightarrow> (nat \<times> dp_call) list \<Rightarrow> 't data_proto list \<Rightarrow> 't data_proto list result" where
  "dp_program tequal = res_fold (\<lambda>(i, c) pool. res_bind (py_nth pool i) (\<lambda>d. dp_call_on tequal pool i d c))"

section \<open>Columns\<close>

lemma new_typed:
  assumes "new_data_proto b nt meta = Inr d" "batch_typed b" "dict_wf nt" "dict_wf meta"
  shows "dp_typed d"
  using assms by (auto simp: new_data_proto_def res_simps dp_typed_def batch_typed_def split: option.splits prod.splits)

lemma typed_parts:
  assumes "dp_typed d"
  shows "batch_typed (dp_batch d)" "dict_wf (dp_non_tensor d)" "dict_wf (dp_meta d)"
  using assms by (auto simp: dp_typed_def batch_typed_def split: option.splits)

lemma batch_map:
  assumes "batch_typed b" and len: "\<And>n v. length v = n \<Longrightarrow> length (f v) = h n"
  shows "batch_typed (map_option (\<lambda>(n, ts). (h n, map_values f ts)) b)"
proof (cases b)
  case (Some nts)
  obtain n ts where "nts = (n, ts)" by (cases nts)
  then show ?thesis
    using assms(1) len Some by (fastforce simp: batch_typed_def in_map_values)
qed (simp add: batch_typed_def)

lemma length_py_slice: "length xs = length ys \<Longrightarrow> length (py_slice a b xs) = length (py_slice a b ys)"
  by (simp add: py_slice_def)

lemma length_stride: "length xs = length ys \<Longrightarrow> length (stride n xs) = length (stride n ys)"
proof (induction n xs arbitrary: ys rule: stride.induct)
  case (2 n x xs)
  then obtain y zs where y: "ys = y # zs" "length xs = length zs" by (cases ys) auto
  then show ?case using "2.IH"[of "drop (n - 1) zs"] by simp
qed simp

lemma length_py_slice_step: "length xs = length ys \<Longrightarrow> length (py_slice_step a b s xs) = length (py_slice_step a b s ys)"
  by (cases s) (auto simp: py_slice_step_def intro: length_py_slice length_stride)

lemma slice_typed:
  fixes d :: "'t data_proto"
  assumes d: "dp_typed d" and r: "dp_slice a b s d = Inr d'"
  shows "dp_typed d'"
proof -
  let ?f = "\<lambda>xs. py_slice_step a b s xs"
  have n: "new_data_proto (map_option (\<lambda>(n, ts). (length (?f [0..<n]), map_values ?f ts)) (dp_batch d))
      (map_values ?f (dp_non_tensor d)) (dp_meta d) = Inr d'"
    using r by (simp add: dp_slice_def split: if_splits)
  have "batch_typed (map_option (\<lambda>(n, ts). (length (?f [0..<n]), map_values ?f ts)) (dp_batch d))"
  proof (rule batch_map[OF typed_parts(1)[OF d]])
    fix n and v :: "'t list" assume "length v = n"
    then show "length (?f v) = length (?f [0..<n])" by (intro length_py_slice_step) simp
  qed
  from new_typed[OF n this] show ?thesis using typed_parts[OF d] by simp
qed

text \<open>Functions that map every column and keep its key.\<close>

lemma res_map_columns:
  assumes "res_map (\<lambda>(k, v). res_bind (f v) (\<lambda>w. Inr (k, w))) d = Inr d'"
  shows "map fst d' = map fst d \<and> (\<forall>(k, w)\<in>set d'. \<exists>v. (k, v) \<in> set d \<and> f v = Inr w)"
  using assms
proof (induction d arbitrary: d')
  case (Cons kv d)
  then show ?case by (cases kv) (fastforce simp: res_bind_eq_Inr)
qed simp

lemma res_map_columns_wf:
  "res_map (\<lambda>(k, v). res_bind (f v) (\<lambda>w. Inr (k, w))) d = Inr d' \<Longrightarrow> dict_wf d \<Longrightarrow> dict_wf d'"
  using res_map_columns[of f d d'] by (simp add: dict_wf_def)

lemma length_res_map: "res_map f xs = Inr ys \<Longrightarrow> length ys = length xs"
  by (induction xs arbitrary: ys) (auto simp: res_simps)

lemma index_rows_length: "index_rows_by idx v = Inr w \<Longrightarrow> length w = index_size idx"
proof (cases idx)
  case (Mask bs)
  have "length (filter snd (zip v bs)) = length (filter id bs)" if "length bs = length v"
    using that by (induction v bs rule: list_induct2') auto
  then show "index_rows_by idx v = Inr w \<Longrightarrow> ?thesis"
    by (auto simp: Mask index_rows_by_def index_size_def split: if_splits)
qed (simp add: index_rows_by_def index_size_def length_res_map)

lemma index_dict_typed:
  assumes "index_dict idx ts = Inr ts'" "dict_wf ts"
  shows "dict_wf ts' \<and> (\<forall>(k, v)\<in>set ts'. length v = index_size idx)"
  using assms res_map_columns_wf[of "index_rows_by idx" ts ts'] res_map_columns[of "index_rows_by idx" ts ts'] index_rows_length
  unfolding index_dict_def by fast

lemma select_idxs_typed:
  assumes "dp_typed d" "select_idxs idx d = Inr d'"
  shows "dp_typed d'"
proof -
  obtain batch nt where b: "(case dp_batch d of None \<Rightarrow> Inr None
               | Some (n, ts) \<Rightarrow> res_bind (index_dict idx ts) (\<lambda>ts'. Inr (Some (index_size idx, ts')))) = Inr batch"
      "index_dict idx (dp_non_tensor d) = Inr nt" "new_data_proto batch nt (dp_meta d) = Inr d'"
    using assms(2) by (auto simp: select_idxs_def res_bind_eq_Inr)
  have "batch_typed batch"
  proof (cases "dp_batch d")
    case None
    then show ?thesis using b(1) by (simp add: batch_typed_def)
  next
    case (Some nts)
    then obtain n ts ts' where t: "nts = (n, ts)" "index_dict idx ts = Inr ts'" "batch = Some (index_size idx, ts')"
      using b(1) by (cases nts) (auto simp: res_bind_eq_Inr)
    moreover have "dict_wf ts" using typed_parts(1)[OF assms(1)] Some t(1) by (simp add: batch_typed_def)
    ultimately show ?thesis using index_dict_typed[of idx ts ts'] by (simp add: batch_typed_def)
  qed
  then show ?thesis
    using new_typed[OF b(3)] index_dict_typed[OF b(2)] typed_parts[OF assms(1)] by blast
qed

lemma repeat_typed: "dp_typed d \<Longrightarrow> dp_repeat n il d = Inr d' \<Longrightarrow> dp_typed d'"
  unfolding dp_repeat_def
  by (erule new_typed) (auto intro!: batch_map simp: typed_parts length_repeat_rows)


section \<open>Dictionaries\<close>

lemma append_columns_wf: "append_columns d out = Inr out' \<Longrightarrow> dict_wf out \<Longrightarrow> dict_wf out'"
  unfolding append_columns_def
  by (induction d arbitrary: out) (auto simp: res_bind_eq_Inr split: if_splits)

lemma res_fold_wf:
  assumes "res_fold f xs d = Inr d'" "dict_wf d" "\<And>x d d'. f x d = Inr d' \<Longrightarrow> dict_wf d \<Longrightarrow> dict_wf d'"
  shows "dict_wf d'"
  using assms(1,2)
proof (induction xs arbitrary: d)
  case (Cons x xs)
  then show ?case using assms(3) by (auto simp: res_bind_eq_Inr)
qed simp

lemma empty_columns_wf: "dict_wf (empty_columns d) = dict_wf d"
  by (simp add: empty_columns_def dict_wf_def comp_def split_beta)

lemma lists_of_dicts_wf:
  assumes "list_of_dict_to_dict_of_list ds = Inr cols" "\<forall>d\<in>set ds. dict_wf d"
  shows "dict_wf cols"
proof (cases ds)
  case (Cons d ds')
  then show ?thesis
    using res_fold_wf[of append_columns ds "empty_columns d" cols, OF _ _ append_columns_wf] assms
    by (simp add: list_of_dict_to_dict_of_list_def empty_columns_wf)
qed (use assms in \<open>simp add: list_of_dict_to_dict_of_list_def\<close>)

lemma merge_entries_wf:
  "res_fold merge_meta_entry m (merged, ms) = Inr (merged', ms') \<Longrightarrow> dict_wf merged \<Longrightarrow> dict_wf merged'"
proof (induction m arbitrary: merged ms)
  case (Cons kv m)
  obtain k v where kv: "kv = (k, v)" by (cases kv)
  then obtain a b where "merge_meta_entry kv (merged, ms) = Inr (a, b)" "res_fold merge_meta_entry m (a, b) = Inr (merged', ms')"
    using Cons.prems(1) by (auto simp: res_bind_eq_Inr)
  moreover from this have "dict_wf a"
    using Cons.prems(2) kv by (auto simp: merge_meta_entry_def split: if_splits option.splits)
  ultimately show ?case using Cons.IH by blast
qed simp

lemma merge_meta_wf:
  assumes "merge_meta metas = Inr meta"
  shows "dict_wf meta"
proof -
  obtain merged metrics where m: "res_fold (\<lambda>m. res_fold merge_meta_entry m) metas ([], []) = Inr (merged, metrics)"
      "(if metrics = [] then Inr merged
       else res_bind (mval_dict (hd metrics)) (\<lambda>first.
            res_bind (res_fold (\<lambda>v out. res_bind (mval_dict v) (\<lambda>d. append_columns d out)) metrics (empty_columns first)) (\<lambda>cols.
              Inr (AList.update ''metrics'' (MDict (map_values MList cols)) merged)))) = Inr meta"
    using assms unfolding merge_meta_def by (auto simp: res_bind_eq_Inr)
  have "res_fold (\<lambda>m. res_fold merge_meta_entry m) ms (a, b) = Inr (a', b') \<Longrightarrow> dict_wf a \<Longrightarrow> dict_wf a'" for ms a b a' b'
  proof (induction ms arbitrary: a b)
    case (Cons m ms)
    then obtain c e where "res_fold merge_meta_entry m (a, b) = Inr (c, e)" "res_fold (\<lambda>m. res_fold merge_meta_entry m) ms (c, e) = Inr (a', b')"
      by (auto simp: res_bind_eq_Inr)
    then show ?case using Cons.IH merge_entries_wf Cons.prems(2) by blast
  qed simp
  from this[OF m(1)] have "dict_wf merged" by simp
  then show ?thesis
    using m(2) by (auto simp: res_bind_eq_Inr split: if_splits)
qed

lemma cat_batches_some:
  assumes "cat_batches bs = Inr (Some nts)"
  obtains n first rest where "bs = Some (n, first) # rest" "None \<notin> set bs"
    "list_all (\<lambda>b. fst ` set (snd (the b)) = fst ` set first) bs"
    "nts = (sum_list (map (fst \<circ> the) bs), map (\<lambda>(k, _). (k, concat (map (\<lambda>b. dict_get (snd (the b)) k []) bs))) first)"
proof (cases bs)
  case (Cons b rest)
  show ?thesis
  proof (cases b)
    case None
    then show ?thesis using assms Cons by (simp add: cat_batches_def)
  next
    case (Some nf)
    obtain n first where nf: "nf = (n, first)" by (cases nf)
    from assms have a: "None \<notin> set bs" "list_all (\<lambda>b. fst ` set (snd (the b)) = fst ` set first) bs"
        "nts = (sum_list (map (fst \<circ> the) bs), map (\<lambda>(k, _). (k, concat (map (\<lambda>b. dict_get (snd (the b)) k []) bs))) first)"
      unfolding Cons Some nf cat_batches_def by (simp_all split: if_splits)
    show ?thesis by (rule that[OF _ a]) (simp add: Cons Some nf)
  qed
qed (use assms in \<open>simp add: cat_batches_def\<close>)

lemma cat_batches_typed:
  fixes bs :: "(nat \<times> (string, 't list) dict) option list"
  assumes r: "cat_batches bs = Inr batch" and t: "\<And>b. b \<in> set bs \<Longrightarrow> batch_typed b"
  shows "batch_typed batch"
proof (cases batch)
  case (Some nts)
  obtain n first rest where b: "bs = Some (n, first) # rest" "None \<notin> set bs"
      "list_all (\<lambda>b. fst ` set (snd (the b)) = fst ` set first) bs"
      "nts = (sum_list (map (fst \<circ> the) bs), map (\<lambda>(k, _). (k, concat (map (\<lambda>b. dict_get (snd (the b)) k []) bs))) first)"
    by (rule cat_batches_some[of bs nts]) (use r Some in simp)
  have f: "dict_wf first" using t[of "Some (n, first)"] b(1) by (simp add: batch_typed_def)
  have col: "length (dict_get (snd (the b)) k []) = (fst \<circ> the) b" if bk: "b \<in> set bs" "k \<in> fst ` set first" for b k
  proof -
    have "b \<noteq> None" using bk(1) b(2) by metis
    then obtain n' ts where bb: "b = Some (n', ts)" by (metis option.exhaust surj_pair)
    then have w: "dict_wf ts" "\<forall>(k, v)\<in>set ts. length v = n'" using t[OF bk(1)] by (auto simp: batch_typed_def)
    have "k \<in> fst ` set ts" using b(3) bk bb unfolding list_all_iff by (metis option.sel snd_conv)
    then obtain v where "(k, v) \<in> set ts" by auto
    then show ?thesis using w bb dict_wf_map_of[OF w(1), of k v] by (auto simp: dict_get_def)
  qed
  have "length (concat (map (\<lambda>b. dict_get (snd (the b)) k []) bs)) = sum_list (map (fst \<circ> the) bs)" if "k \<in> fst ` set first" for k
  proof -
    have "map (length \<circ> (\<lambda>b. dict_get (snd (the b)) k [])) bs = map (fst \<circ> the) bs"
      using col[OF _ that] by simp
    then show ?thesis by (simp only: length_concat map_map)
  qed
  moreover have "dict_wf (map (\<lambda>(k, _). (k, h k)) first)" for h :: "string \<Rightarrow> 't list"
    using f by (simp add: dict_wf_def comp_def split_beta)
  ultimately show ?thesis
    unfolding batch_typed_def Some b(4) by force
qed (simp add: batch_typed_def)

lemma concat_typed:
  assumes "\<forall>d\<in>set ds. dp_typed d" "dp_concat ds = Inr d'"
  shows "dp_typed d'"
proof -
  obtain batch cols meta where c: "cat_batches (map dp_batch ds) = Inr batch"
      "list_of_dict_to_dict_of_list (map dp_non_tensor ds) = Inr cols" "merge_meta (map dp_meta ds) = Inr meta"
      "new_data_proto batch (map_values concat cols) meta = Inr d'"
    using assms(2) by (auto simp: dp_concat_def res_bind_eq_Inr)
  have "dict_wf cols" using lists_of_dicts_wf[OF c(2)] typed_parts(2) assms(1) by auto
  moreover have "batch_typed batch"
    using cat_batches_typed[OF c(1)] typed_parts(1) assms(1) by auto
  ultimately show ?thesis
    using new_typed[OF c(4)] merge_meta_wf[OF c(3)] by simp
qed

section \<open>Padding, chunks and repetitions\<close>

lemma res_map_in: "res_map f xs = Inr ys \<Longrightarrow> y \<in> set ys \<Longrightarrow> \<exists>x\<in>set xs. f x = Inr y"
  by (induction xs arbitrary: ys) (auto simp: res_bind_eq_Inr)

lemma pad_typed: "dp_typed d \<Longrightarrow> pad_dataproto_to_divisor d n = Inr (d', k) \<Longrightarrow> dp_typed d'"
  unfolding pad_dataproto_to_divisor_def Let_def
  by (auto simp: res_bind_eq_Inr split: if_splits dest!: res_map_in elim!: concat_typed[rotated] intro: slice_typed)

lemma unpad_typed: "dp_typed d \<Longrightarrow> unpad_dataproto d n = Inr d' \<Longrightarrow> dp_typed d'"
  unfolding unpad_dataproto_def by (auto split: if_splits intro: slice_typed)

lemma split_typed: "dp_typed d \<Longrightarrow> dp_split n d = Inr ds \<Longrightarrow> d' \<in> set ds \<Longrightarrow> dp_typed d'"
  unfolding dp_split_def by (auto split: if_splits dest!: res_map_in intro: slice_typed)

lemma length_cut_nth: "i \<le> length bs \<Longrightarrow> length (cut_at a bs xs ! i) = length (cut_at a bs [0..<length xs] ! i)"
  using cut_at_gather[of i bs a xs] by simp

lemma chunk_typed:
  assumes d: "dp_typed d" and r: "dp_chunk auto n d = Inr ds" and d': "d' \<in> set ds"
  shows "dp_typed d'"
proof -
  define batches where "batches = (case dp_batch d of
       None \<Rightarrow> replicate n None
     | Some (m, ts) \<Rightarrow> map (\<lambda>(i, rows). Some (length rows, map_values (\<lambda>v. cut_at 0 (td_chunk_cuts m n) v ! i) ts))
                       (enumerate 0 (cut_at 0 (td_chunk_cuts m n) [0..<m])))"
  obtain f where m: "res_map (\<lambda>i. res_bind (py_nth batches i) (\<lambda>b.
      new_data_proto b (map_values (\<lambda>v. f v i) (dp_non_tensor d)) (dp_meta d))) [0..<n] = Inr ds"
    using r unfolding dp_chunk_def Let_def batches_def[symmetric] by (auto simp: res_bind_eq_Inr split: if_splits)
  then obtain i b where i: "py_nth batches i = Inr b" "new_data_proto b (map_values (\<lambda>v. f v i) (dp_non_tensor d)) (dp_meta d) = Inr d'"
    using res_map_in[OF m d'] by (auto simp: res_bind_eq_Inr)
  have "batch_typed b"
  proof (cases "dp_batch d")
    case None
    then show ?thesis using i(1) by (auto simp: batches_def py_nth_def batch_typed_def split: if_splits)
  next
    case (Some mts)
    obtain k ts where k: "mts = (k, ts)" by (cases mts)
    let ?c = "td_chunk_cuts k n"
    have "b \<in> set batches" using i(1) by (auto simp: py_nth_def split: if_splits)
    then obtain jr where jr: "jr \<in> set (enumerate 0 (cut_at 0 ?c [0..<k]))"
        "b = (\<lambda>(i, rows). Some (length rows, map_values (\<lambda>v. cut_at 0 ?c v ! i) ts)) jr"
      unfolding batches_def Some k by auto
    obtain j rows where "jr = (j, rows)" by (cases jr)
    with jr have j: "j \<le> length ?c" "b = Some (length (cut_at 0 ?c [0..<k] ! j), map_values (\<lambda>v. cut_at 0 ?c v ! j) ts)"
      by (simp_all add: in_set_enumerate_eq)
    have "batch_typed (map_option (\<lambda>(k', ts). (length (cut_at 0 ?c [0..<k'] ! j), map_values (\<lambda>v. cut_at 0 ?c v ! j) ts)) (dp_batch d))"
      by (rule batch_map[OF typed_parts(1)[OF d]]) (use length_cut_nth[OF j(1)] in metis)
    then show ?thesis using j(2) Some k by simp
  qed
  from new_typed[OF i(2) this] show ?thesis using typed_parts[OF d] by simp
qed

lemma repeat_each_dict_wf: "repeat_each_dict e reps d = Inr d' \<Longrightarrow> dict_wf d \<Longrightarrow> dict_wf d'"
  unfolding repeat_each_dict_def by (rule res_map_columns_wf)

lemma sample_repeat_typed:
  assumes d: "dp_typed d" and r: "sample_level_repeat reps d = Inr d'"
  shows "dp_typed d'"
proof -
  obtain batch nt where b: "(case dp_batch d of None \<Rightarrow> Inr None
               | Some (n, ts) \<Rightarrow>
                   res_bind (repeat_each_dict RuntimeError reps ts) (\<lambda>ts'.
                     if \<forall>(k, v) \<in> set ts'. length v = sum_list reps then Inr (Some (sum_list reps, ts')) else Inl RuntimeError)) = Inr batch"
      "repeat_each_dict ValueError reps (dp_non_tensor d) = Inr nt" "new_data_proto batch nt (dp_meta d) = Inr d'"
    using r by (auto simp: sample_level_repeat_def res_bind_eq_Inr)
  have "batch_typed batch"
  proof (cases "dp_batch d")
    case (Some nts)
    then show ?thesis
      using b(1) typed_parts(1)[OF d]
      by (cases nts) (auto simp: res_bind_eq_Inr batch_typed_def split: if_splits intro: repeat_each_dict_wf)
  qed (use b(1) in \<open>simp add: batch_typed_def\<close>)
  then show ?thesis
    using new_typed[OF b(3)] repeat_each_dict_wf[OF b(2)] typed_parts[OF d] by blast
qed

lemma padding_typed:
  assumes d: "dp_typed d" and r: "dp_padding n c d = Inr d'"
  shows "dp_typed d'"
proof (cases "n = 0")
  case False
  then obtain row part padded where p: "dp_repeat n True row = Inr part" "dp_concat [d, part] = Inr padded"
      "d' = d\<lparr>dp_batch := dp_batch padded, dp_non_tensor := dp_non_tensor padded\<rparr>" "dp_typed row"
    using r select_idxs_typed[OF d] by (auto simp: dp_padding_def res_bind_eq_Inr)
  then have "dp_typed padded" using concat_typed[OF _ p(2)] repeat_typed d by auto
  then show ?thesis using typed_parts[OF d] unfolding p(3) dp_typed_def by (auto split: option.splits)
qed (use d r in \<open>simp add: dp_padding_def\<close>)

lemma reorder_typed:
  assumes d: "dp_typed d" and r: "dp_reorder is d = Inr d'"
  shows "dp_typed d'"
proof -
  obtain n ts ts' nt where t: "dp_batch d = Some (n, ts)" "index_dict (Idxs is) ts = Inr ts'"
      "index_dict (Idxs is) (dp_non_tensor d) = Inr nt" "d' = d\<lparr>dp_batch := Some (length is, ts'), dp_non_tensor := nt\<rparr>"
    using r by (auto simp: dp_reorder_def res_bind_eq_Inr split: option.splits)
  have "dict_wf ts" using typed_parts(1)[OF d] t(1) by (simp add: batch_typed_def)
  then show ?thesis
    using index_dict_typed[OF t(2)] index_dict_typed[OF t(3)] typed_parts[OF d] t(4)
    by (simp add: dp_typed_def index_size_def)
qed

section \<open>Keys and unions\<close>

lemma set_update: "set (AList.update k v d) \<subseteq> insert (k, v) (set d)"
  by (induction d) auto

lemma set_delete: "set (AList.delete k d) \<subseteq> set d"
  by (auto simp: AList.delete_eq)

lemma select_keys_sub: "set (select_keys ks d) \<subseteq> set d"
  by (auto simp: select_keys_def split: option.splits)

lemma select_keys_wf: "dict_wf d \<Longrightarrow> dict_wf (select_keys ks d)"
  by (auto simp: select_keys_def dict_wf_def distinct_map inj_on_def split: option.splits)

lemma selected_tensors_typed:
  assumes "dict_wf ts" "\<forall>(k, v)\<in>set ts. length v = n" "set ks \<subseteq> fst ` set ts"
  shows "batch_typed (Some (n, map (\<lambda>k. (k, dict_get ts k [])) (remdups ks)))"
proof -
  have "length (dict_get ts k []) = n" if k: "k \<in> set ks" for k
  proof -
    obtain v where "(k, v) \<in> set ts" using k assms(3) by auto
    then show ?thesis using assms(2) dict_wf_map_of[OF assms(1), of k v] by (auto simp: dict_get_def)
  qed
  then show ?thesis by (auto simp: batch_typed_def dict_wf_def comp_def)
qed

lemma select_typed:
  assumes d: "dp_typed d" and r: "dp_select bk nk mk d = Inr d'"
  shows "dp_typed d'"
proof -
  obtain batch where b: "(case bk of
                 None \<Rightarrow> Inr (dp_batch d)
               | Some ks \<Rightarrow>
                   (case dp_batch d of
                      None \<Rightarrow> Inl AttributeError
                    | Some (n, ts) \<Rightarrow>
                        if set ks \<subseteq> fst ` set ts then Inr (Some (n, map (\<lambda>k. (k, dict_get ts k [])) (remdups ks))) else Inl KeyError)) = Inr batch"
      "new_data_proto batch (select_keys nk (dp_non_tensor d)) (select_keys mk (dp_meta d)) = Inr d'"
    using r by (auto simp: dp_select_def res_bind_eq_Inr)
  have "batch_typed batch"
  proof (cases bk)
    case None
    then show ?thesis using b(1) typed_parts(1)[OF d] by simp
  next
    case (Some ks)
    then obtain n ts where t: "dp_batch d = Some (n, ts)" "set ks \<subseteq> fst ` set ts"
        "batch = Some (n, map (\<lambda>k. (k, dict_get ts k [])) (remdups ks))"
      using b(1) by (auto split: option.splits if_splits)
    have "dict_wf ts" "\<forall>(k, v)\<in>set ts. length v = n" using typed_parts(1)[OF d] t(1) by (simp_all add: batch_typed_def)
    then show ?thesis unfolding t(3) by (rule selected_tensors_typed[OF _ _ t(2)])
  qed
  then show ?thesis
    by (rule new_typed[OF b(2) _ select_keys_wf select_keys_wf]) (use typed_parts[OF d] in simp_all)
qed

lemma pop_keys_typed:
  "pop_keys ks d p = Inr (d', p') \<Longrightarrow> dict_wf d \<Longrightarrow> dict_wf p \<Longrightarrow> dict_wf d' \<and> dict_wf p' \<and> set d' \<subseteq> set d"
proof (induction ks d p rule: pop_keys.induct)
  case (2 k ks d p)
  then show ?case using set_delete[of k d] by (fastforce split: option.splits)
qed simp

lemma from_dict_typed:
  assumes "from_dict tensors nt meta False = Inr d" "dict_wf tensors" "dict_wf nt" "dict_wf meta"
  shows "dp_typed d"
  using assms by (cases tensors) (auto simp: from_dict_def res_simps batch_typed_def elim!: new_typed)

lemma pop_typed:
  assumes d: "dp_typed d" and r: "dp_pop bk nk mk d = Inr (rest, out)"
  shows "dp_typed rest \<and> dp_typed out"
proof -
  obtain batch tensors nt_rest non_tensors meta_rest meta where p:
      "(case dp_batch d of
                 None \<Rightarrow> if bk = [] then Inr (None, []) else Inl AttributeError
               | Some (n, ts) \<Rightarrow> res_bind (pop_keys bk ts []) (\<lambda>(rest, tensors). Inr (Some (n, rest), tensors))) = Inr (batch, tensors)"
      "pop_keys nk (dp_non_tensor d) [] = Inr (nt_rest, non_tensors)" "pop_keys mk (dp_meta d) [] = Inr (meta_rest, meta)"
      "from_dict tensors non_tensors meta False = Inr out"
      "rest = d\<lparr>dp_batch := batch, dp_non_tensor := nt_rest, dp_meta := meta_rest\<rparr>"
    using r by (auto simp: dp_pop_def res_bind_eq_Inr)
  have nt: "dict_wf nt_rest" "dict_wf non_tensors" "set nt_rest \<subseteq> set (dp_non_tensor d)" "dict_wf meta_rest" "dict_wf meta"
    using pop_keys_typed[OF p(2)] pop_keys_typed[OF p(3)] typed_parts[OF d] by auto
  show ?thesis
  proof (cases "dp_batch d")
    case None
    then have "batch = None" "tensors = []" using p(1) by (auto split: if_splits)
    then show ?thesis
      using nt from_dict_typed[OF p(4)] unfolding p(5) by (simp add: dp_typed_def)
  next
    case (Some nts)
    then obtain n ts left where t: "nts = (n, ts)" "pop_keys bk ts [] = Inr (left, tensors)" "batch = Some (n, left)"
      using p(1) by (cases nts) (auto simp: res_bind_eq_Inr)
    have ts: "dict_wf ts" "\<forall>(k, v)\<in>set ts. length v = n" "\<forall>(k, v)\<in>set (dp_non_tensor d). length v = n"
      using d Some t(1) by (auto simp: dp_typed_def)
    then show ?thesis
      using pop_keys_typed[OF t(2)] nt from_dict_typed[OF p(4)] unfolding p(5) t(3) by (auto simp: dp_typed_def)
  qed
qed

text \<open>The three unions fold over the entries of the other object and keep or update an entry.\<close>

lemma union_fold_typed:
  assumes "res_fold (\<lambda>(k, v) d. (case map_of d k of None \<Rightarrow> Inr (AList.update k v d) | Some w \<Rightarrow> g k v w d)) e d = Inr d'"
    and g: "\<And>k v w d d'. g k v w d = Inr d' \<Longrightarrow> d' = d \<or> d' = AList.update k v d"
    and "dict_wf d"
  shows "dict_wf d' \<and> set d' \<subseteq> set d \<union> set e"
  using assms(1,3)
proof (induction e arbitrary: d)
  case (Cons kv e)
  obtain k v where kv: "kv = (k, v)" by (cases kv)
  then obtain d1 where d1: "(case map_of d k of None \<Rightarrow> Inr (AList.update k v d) | Some w \<Rightarrow> g k v w d) = Inr d1"
      "res_fold (\<lambda>(k, v) d. (case map_of d k of None \<Rightarrow> Inr (AList.update k v d) | Some w \<Rightarrow> g k v w d)) e d1 = Inr d'"
    using Cons.prems(1) by (auto simp: res_bind_eq_Inr)
  then have "d1 = d \<or> d1 = AList.update k v d" using g by (auto split: option.splits)
  then have "dict_wf d1" "set d1 \<subseteq> insert (k, v) (set d)" using set_update[of k v d] Cons.prems(2) by auto
  then show ?case using Cons.IH[OF d1(2)] kv by auto
qed simp

lemma union_typed:
  assumes d: "dp_typed d" and o: "dp_typed other" and r: "dp_union tequal d other = Inr d'"
  shows "dp_typed d'"
proof -
  obtain n ts n2 ts2 batch nt meta where b: "dp_batch d = Some (n, ts)" "dp_batch other = Some (n2, ts2)"
      "union_tensor_dict tequal (n, ts) (n2, ts2) = Inr batch" "union_numpy_dict (dp_non_tensor d) (dp_non_tensor other) = Inr nt"
      "union_two_dict (dp_meta d) (dp_meta other) = Inr meta" "d' = \<lparr>dp_batch = Some batch, dp_non_tensor = nt, dp_meta = meta\<rparr>"
    using r by (auto simp: dp_union_def res_bind_eq_Inr split: option.splits)
  obtain ts' where t: "n2 = n" "batch = (n, ts')" "res_fold (\<lambda>(k, v) ts. (case map_of ts k of
          None \<Rightarrow> Inr (AList.update k v ts)
        | Some w \<Rightarrow> if tequal w v then Inr ts else Inl AssertionError)) ts2 ts = Inr ts'"
    using b(3) by (auto simp: union_tensor_dict_def res_simps)
  have "dict_wf ts' \<and> set ts' \<subseteq> set ts \<union> set ts2"
    by (rule union_fold_typed[OF t(3)]) (use d b(1) in \<open>auto simp: dp_typed_def split: if_splits\<close>)
  moreover have "dict_wf nt \<and> set nt \<subseteq> set (dp_non_tensor d) \<union> set (dp_non_tensor other)"
    by (rule union_fold_typed[OF b(4)[unfolded union_numpy_dict_def]]) (use typed_parts[OF d] in \<open>auto split: if_splits\<close>)
  moreover have "dict_wf meta \<and> set meta \<subseteq> set (dp_meta d) \<union> set (dp_meta other)"
    by (rule union_fold_typed[OF b(5)[unfolded union_two_dict_def]]) (use typed_parts[OF d] in \<open>auto split: if_splits\<close>)
  ultimately show ?thesis
    using d o b(1,2) t(1) unfolding b(6) t(2) dp_typed_def by fastforce
qed

section \<open>Programs\<close>

lemma py_nth_in: "py_nth xs i = Inr x \<Longrightarrow> x \<in> set xs"
  by (auto simp: py_nth_def split: if_splits)

lemma pool_update: "\<forall>d\<in>set pool. dp_typed d \<Longrightarrow> dp_typed d' \<Longrightarrow> \<forall>d\<in>set (pool[i := d']). dp_typed d"
  using set_update_subset_insert[of pool i d'] by blast

lemmas call_typed = slice_typed select_idxs_typed pad_typed unpad_typed chunk_typed split_typed repeat_typed
  sample_repeat_typed select_typed

lemma call_on_typed:
  assumes "dp_call_on tequal pool i d c = Inr pool'" "\<forall>d\<in>set pool. dp_typed d" "dp_typed d"
  shows "\<forall>d\<in>set pool'. dp_typed d"
  using assms
proof (cases c)
  case (Concat js)
  then obtain ds d' where c: "res_map (py_nth pool) js = Inr ds" "dp_concat (d # ds) = Inr d'" "pool' = pool @ [d']"
    using assms(1) by (auto simp: res_bind_eq_Inr)
  then have "\<forall>d\<in>set ds. dp_typed d" using res_map_in[OF c(1)] py_nth_in[of pool] assms(2) by metis
  then show ?thesis using concat_typed[OF _ c(2)] assms(2,3) c(3) by auto
next
  case (Pop bk nk mk)
  then obtain rest out where p: "dp_pop bk nk mk d = Inr (rest, out)" "pool' = pool[i := rest] @ [out]"
    using assms(1) by (auto simp: res_bind_eq_Inr)
  then show ?thesis using pop_typed[OF assms(3) p(1)] pool_update[OF assms(2), of rest i] by auto
next
  case (Union j)
  then obtain other d' where u: "py_nth pool j = Inr other" "dp_union tequal d other = Inr d'" "pool' = pool[i := d']"
    using assms(1) by (auto simp: res_bind_eq_Inr)
  then have "dp_typed d'" using union_typed[OF assms(3) _ u(2)] py_nth_in[OF u(1)] assms(2) by blast
  then show ?thesis unfolding u(3) by (rule pool_update[OF assms(2)])
next
  case (Pad_rows n s)
  then obtain d' where u: "dp_padding n s d = Inr d'" "pool' = pool[i := d']"
    using assms(1) by (auto simp: res_bind_eq_Inr)
  then show ?thesis using pool_update[OF assms(2) padding_typed[OF assms(3)]] by simp
next
  case (Reorder js)
  then obtain d' where u: "dp_reorder js d = Inr d'" "pool' = pool[i := d']"
    using assms(1) by (auto simp: res_bind_eq_Inr)
  then show ?thesis using pool_update[OF assms(2) reorder_typed[OF assms(3)]] by simp
qed (auto simp: res_bind_eq_Inr dest: call_typed[OF assms(3)])

text \<open>
  C21: whatever calls a program over \<open>DataProto\<close> makes, on whichever of its objects, every object it then holds is well
  typed, when those it started from were: keys are distinct, and every tensor and every object column has as many rows
  as the batch. This covers \<open>reorder\<close>, \<open>padding\<close>, \<open>pop\<close> and \<open>union\<close>, which skip the consistency check of the constructor.
\<close>

theorem programs_keep_objects_typed:
  assumes "dp_program tequal calls pool = Inr pool'" "\<forall>d\<in>set pool. dp_typed d"
  shows "\<forall>d\<in>set pool'. dp_typed d"
  using assms unfolding dp_program_def
proof (induction calls arbitrary: pool)
  case (Cons ic calls)
  obtain i c where ic: "ic = (i, c)" by (cases ic)
  then obtain d pool1 where s: "py_nth pool i = Inr d" "dp_call_on tequal pool i d c = Inr pool1"
      "res_fold (\<lambda>(i, c) pool. res_bind (py_nth pool i) (\<lambda>d. dp_call_on tequal pool i d c)) calls pool1 = Inr pool'"
    using Cons.prems(1) by (auto simp: res_bind_eq_Inr)
  then have "dp_typed d" using py_nth_in[OF s(1)] Cons.prems(2) by blast
  then show ?case using Cons.IH[OF s(3)] call_on_typed[OF s(2) Cons.prems(2)] by blast
qed simp

definition demo_program :: "(nat \<times> dp_call) list" where
  "demo_program = [(0, Pad_to 2), (1, Chunk False 2), (3, Concat [2]), (0, Reorder [2, 1, 0]), (4, Pad_rows 2 ''first''),
     (2, Pop [] [''uid''] []), (3, Slice (Some 1) None None)]"

theorem programs_keep_objects_typed_witness:
  "\<exists>pool'. dp_program (=) demo_program [demo_batch] = Inr pool' \<and> (\<forall>d\<in>set pool'. dp_typed d) \<and> map dp_len pool' \<noteq> []"
proof -
  have "case dp_program (=) demo_program [demo_batch] of Inl _ \<Rightarrow> False | Inr pool' \<Rightarrow> map dp_len pool' \<noteq> []"
    by code_simp
  then obtain pool' where p: "dp_program (=) demo_program [demo_batch] = Inr pool'" "map dp_len pool' \<noteq> []"
    by (auto split: sum.splits)
  have "\<forall>d\<in>set [demo_batch]. dp_typed d" by code_simp
  from programs_keep_objects_typed[OF p(1) this] p show ?thesis by blast
qed

end
