(* ===== verification/Worker_Dispatch.thy ===== *)
theory Worker_Dispatch
  imports Data_Proto
begin

text \<open>
  The single controller, \<open>verl/single_controller/base/decorator.py\<close> with the calls of
  \<open>single_controller/ray/base.py\<close> that use it: how the arguments of a method are cut and sent to the workers,
  with and without data-parallel ranks, how their results are collected, and the registries of the dispatch
  modes. A remote method is an argument: what a worker of a given rank returns for its arguments.
\<close>

section \<open>Dynamic enumerations\<close>

text \<open>\<open>str.upper\<close> on ASCII letters.\<close>

definition upper_char :: "char \<Rightarrow> char" where
  "upper_char c = (if of_char c \<in> {97 .. 122 :: nat} then char_of (of_char c - 32 :: nat) else c)"

definition py_upper :: "string \<Rightarrow> string" where
  "py_upper = map upper_char"

record enum_member =
  em_name :: string
  em_value :: nat

record dynamic_enum =
  de_registry :: "(string, enum_member) dict"
  de_next_value :: nat

definition enum_register :: "string \<Rightarrow> dynamic_enum \<Rightarrow> (dynamic_enum \<times> enum_member) result" where
  "enum_register name e =
     (let key = py_upper name; member = \<lparr>em_name = key, em_value = de_next_value e\<rparr>
      in if key \<in> fst ` set (de_registry e) then Inl ValueError
         else Inr (\<lparr>de_registry = AList.update key member (de_registry e), de_next_value = de_next_value e + 1\<rparr>, member))"

definition enum_remove :: "string \<Rightarrow> dynamic_enum \<Rightarrow> (dynamic_enum \<times> enum_member) result" where
  "enum_remove name e =
     (let key = py_upper name
      in case map_of (de_registry e) key of
           None \<Rightarrow> Inl KeyError
         | Some member \<Rightarrow> Inr (e\<lparr>de_registry := AList.delete key (de_registry e)\<rparr>, member))"

definition enum_from_name :: "string \<Rightarrow> dynamic_enum \<Rightarrow> enum_member option" where
  "enum_from_name name e = map_of (de_registry e) (py_upper name)"

definition enum_empty :: dynamic_enum where
  "enum_empty = \<lparr>de_registry = [], de_next_value = 0\<rparr>"

definition predefined_dispatch_modes :: "string list" where
  "predefined_dispatch_modes =
     [''RANK_ZERO'', ''ONE_TO_ALL'', ''ALL_TO_ALL'', ''DP_COMPUTE'', ''DP_COMPUTE_PROTO'', ''DP_COMPUTE_PROTO_WITH_FUNC'',
      ''DP_COMPUTE_METRIC'', ''DIRECT_ROLLOUT_METHOD'']"

definition init_predefined_dispatch_mode :: "dynamic_enum \<Rightarrow> dynamic_enum result" where
  "init_predefined_dispatch_mode e = res_fold (\<lambda>name e. res_bind (enum_register name e) (\<lambda>(e', _). Inr e')) predefined_dispatch_modes e"

section \<open>Arguments\<close>

text \<open>The arguments of a call: positional ones without a name, then the keyword arguments.\<close>

type_synonym 't call_args = "(string option \<times> 't data_proto) list"


text \<open>
  \<open>_split_args_kwargs_data_proto_with_auto_padding\<close>: the first object with padding enabled fixes the length and
  the padding; the objects are padded in place, so the caller's arguments change. The state is that
  length with the padding size.
\<close>

definition pad_and_split ::
  "bool \<Rightarrow> nat \<Rightarrow> 't data_proto \<Rightarrow> (nat \<times> nat) option \<Rightarrow> ('t data_proto list \<times> 't data_proto \<times> (nat \<times> nat) option) result" where
  "pad_and_split auto chunks d st =
     res_bind (if \<not> is_padding_enabled auto d then Inr (d, st)
               else
                 res_bind (case st of
                     None \<Rightarrow>
                       if chunks = 0 then Inl ZeroDivisionError
                       else Inr (dp_len d, if dp_len d mod chunks > 0 then chunks - dp_len d mod chunks else 0)
                   | Some (len, pad) \<Rightarrow> res_bind (py_assert (len = dp_len d)) (\<lambda>_. Inr (len, pad))) (\<lambda>(len, pad).
                 res_bind (dp_padding pad '''' d) (\<lambda>d'. Inr (d', Some (len, pad))))) (\<lambda>(d', st').
     res_bind (dp_chunk auto chunks d') (\<lambda>parts. Inr (parts, d', st')))"

fun split_args_with_auto_padding ::
  "bool \<Rightarrow> nat \<Rightarrow> 't call_args \<Rightarrow> (nat \<times> nat) option \<Rightarrow>
   ((string option \<times> 't data_proto list) list \<times> 't call_args \<times> (nat \<times> nat) option) result" where
  "split_args_with_auto_padding auto chunks [] st = Inr ([], [], st)"
| "split_args_with_auto_padding auto chunks ((k, d) # args) st =
     res_bind (pad_and_split auto chunks d st) (\<lambda>(parts, d', st').
     res_bind (split_args_with_auto_padding auto chunks args st') (\<lambda>(split, args', st'').
       Inr ((k, parts) # split, (k, d') # args', st'')))"

section \<open>Workers\<close>

text \<open>
  \<open>execute_all\<close>: arguments that are lists with one element per worker are distributed; the results are in rank order. The source
  passes lists of another length on whole, which no method of the modes modelled here accepts (a \<open>TypeError\<close> here): their
  dispatch functions make one part per worker.
\<close>

definition execute_all :: "nat \<Rightarrow> (nat \<Rightarrow> 't call_args \<Rightarrow> 'r result) \<Rightarrow> (string option \<times> 't data_proto list) list \<Rightarrow> 'r list result" where
  "execute_all world_size method args =
     (if list_all (\<lambda>(k, parts). length parts = world_size) args
      then res_map (\<lambda>i. method i (map (\<lambda>(k, parts). (k, parts ! i)) args)) [0..<world_size]
      else Inl TypeError)"

definition collect_dp_compute :: "nat \<Rightarrow> 'r list \<Rightarrow> 'r list result" where
  "collect_dp_compute world_size output = res_bind (py_assert (length output = world_size)) (\<lambda>_. Inr output)"

definition collect_dp_compute_data_proto :: "nat \<Rightarrow> 't data_proto list \<Rightarrow> 't data_proto result" where
  "collect_dp_compute_data_proto world_size output =
     res_bind (py_assert (output \<noteq> [])) (\<lambda>_. res_bind (collect_dp_compute world_size output) dp_concat)"

text \<open>
  The call of a method with mode \<open>DP_COMPUTE_PROTO\<close>: dispatch, execution, collection, and the removal of the rows that stand for
  padding. The arguments are returned as the call leaves them.
\<close>

definition call_dp_compute_proto ::
  "bool \<Rightarrow> nat \<Rightarrow> (nat \<Rightarrow> 't call_args \<Rightarrow> 't data_proto result) \<Rightarrow> 't call_args \<Rightarrow> ('t data_proto \<times> 't call_args) result" where
  "call_dp_compute_proto auto world_size method args =
     res_bind (split_args_with_auto_padding auto world_size args None) (\<lambda>(split, args', st).
     res_bind (execute_all world_size method split) (\<lambda>output.
     res_bind (collect_dp_compute_data_proto world_size output) (\<lambda>result.
       (case st of
          Some (_, pad) \<Rightarrow>
            if pad > 0 then res_bind (select_idxs (Idxs (map int (slice_to_end pad [0..<dp_len result]))) result) (\<lambda>r. Inr (r, args'))
            else Inr (result, args')
        | None \<Rightarrow> Inr (result, args')))))"

text \<open>With mode \<open>DP_COMPUTE_METRIC\<close> the collected output is the list of the workers' results, which the call shortens alike.\<close>

definition call_dp_compute_metric ::
  "bool \<Rightarrow> nat \<Rightarrow> (nat \<Rightarrow> 't call_args \<Rightarrow> 'r result) \<Rightarrow> 't call_args \<Rightarrow> ('r list \<times> 't call_args) result" where
  "call_dp_compute_metric auto world_size method args =
     res_bind (split_args_with_auto_padding auto world_size args None) (\<lambda>(split, args', st).
     res_bind (execute_all world_size method split) (\<lambda>output.
     res_bind (collect_dp_compute world_size output) (\<lambda>output.
       (case st of
          Some (_, pad) \<Rightarrow> Inr (if pad > 0 then slice_to_end pad output else output, args')
        | None \<Rightarrow> Inr (output, args')))))"

section \<open>Data-parallel ranks\<close>










section \<open>Simple modes\<close>

definition dispatch_one_to_all :: "nat \<Rightarrow> (string option \<times> 'a) list \<Rightarrow> (string option \<times> 'a list) list" where
  "dispatch_one_to_all world_size args = map (\<lambda>(k, v). (k, replicate world_size v)) args"

definition dispatch_dp_compute :: "nat \<Rightarrow> (string option \<times> 'a list) list \<Rightarrow> (string option \<times> 'a list) list result" where
  "dispatch_dp_compute world_size args =
     res_bind (res_map (\<lambda>(k, v). py_assert (length v = world_size)) args) (\<lambda>_. Inr args)"

text \<open>The registry of modes is keyed by the member, an object of its own: its value stands for it.\<close>

type_synonym 'f mode_registry = "(nat, 'f) dict"

definition register_dispatch_mode :: "string \<Rightarrow> 'f \<Rightarrow> dynamic_enum \<times> 'f mode_registry \<Rightarrow> dynamic_enum \<times> 'f mode_registry \<times> unit result" where
  "register_dispatch_mode name fns st = (case st of (e, reg) \<Rightarrow>
     (case enum_register name e of
        Inl err \<Rightarrow> (e, reg, Inl err)
      | Inr (e', m) \<Rightarrow>
          if em_value m \<in> fst ` set reg then (e', reg, Inl AssertionError)
          else (e', AList.update (em_value m) fns reg, Inr ())))"

definition update_dispatch_mode :: "enum_member \<Rightarrow> 'f \<Rightarrow> 'f mode_registry \<Rightarrow> 'f mode_registry result" where
  "update_dispatch_mode m fns reg =
     res_bind (py_assert (em_value m \<in> fst ` set reg)) (\<lambda>_. Inr (AList.update (em_value m) fns reg))"

definition get_predefined_dispatch_fn :: "enum_member \<Rightarrow> 'f mode_registry \<Rightarrow> 'f result" where
  "get_predefined_dispatch_fn m reg = (case map_of reg (em_value m) of None \<Rightarrow> Inl KeyError | Some f \<Rightarrow> Inr f)"

section \<open>Parts of the arguments\<close>

text \<open>
  A method is row-wise on given arguments, with result \<open>r\<close>, when its result on any selection of the rows of all its
  arguments is that selection of the rows of \<open>r\<close>, whatever the rank.
\<close>

definition gather_args :: "nat list \<Rightarrow> 't call_args \<Rightarrow> 't call_args" where
  "gather_args idx args = map (\<lambda>(k, d). (k, dp_gather idx d)) args"

definition row_wise :: "nat \<Rightarrow> nat \<Rightarrow> (nat \<Rightarrow> 't call_args \<Rightarrow> 't data_proto result) \<Rightarrow> 't call_args \<Rightarrow> 't data_proto \<Rightarrow> bool" where
  "row_wise world_size n method args r \<longleftrightarrow>
     (\<forall>i < world_size. \<forall>idx. list_all (\<lambda>j. j < n) idx \<longrightarrow> method i (gather_args idx args) = Inr (dp_gather idx r))"

definition args_ok :: "nat \<Rightarrow> 't call_args \<Rightarrow> bool" where
  "args_ok n args \<longleftrightarrow> list_all (\<lambda>(k, d). dp_wf d \<and> dp_len d = n) args"

definition part_rows :: "nat \<Rightarrow> nat \<Rightarrow> nat \<Rightarrow> nat list" where
  "part_rows n k j = [j * (n div k)..<(j + 1) * (n div k)]"

lemma part_rows_below: "j < k \<Longrightarrow> k dvd n \<Longrightarrow> list_all (\<lambda>i. i < n) (part_rows n k j)"
proof -
  assume "j < k" "k dvd n"
  have "(j + 1) * (n div k) \<le> k * (n div k)" using \<open>j < k\<close> by (intro mult_le_mono1) simp
  then show ?thesis using \<open>k dvd n\<close> by (auto simp: part_rows_def list_all_iff)
qed

lemma concat_part_rows: "k dvd n \<Longrightarrow> concat (map (part_rows n k) [0..<k]) = [0..<n]"
proof -
  assume "k dvd n"
  have "concat (map (part_rows n k) [0..<m]) = [0..<m * (n div k)]" for m
    by (induction m) (simp_all add: part_rows_def range_append)
  then show ?thesis using \<open>k dvd n\<close> by simp
qed


lemma execute_parts:
  assumes "row_wise ws n method args r" "\<And>i. i < ws \<Longrightarrow> list_all (\<lambda>j. j < n) (rows i)"
  shows "execute_all ws method (map (\<lambda>(key, d). (key, map (\<lambda>i. dp_gather (rows i) d) [0..<ws])) args) =
    Inr (map (\<lambda>i. dp_gather (rows i) r) [0..<ws])"
proof -
  let ?sent = "map (\<lambda>(key, d). (key, map (\<lambda>i. dp_gather (rows i) d) [0..<ws])) args"
  have "list_all (\<lambda>(k, parts). length parts = ws) ?sent" by (auto simp: list_all_iff)
  moreover have "res_map (\<lambda>i. method i (map (\<lambda>(k, parts). (k, parts ! i)) ?sent)) [0..<ws] = Inr (map (\<lambda>i. dp_gather (rows i) r) [0..<ws])"
  proof (rule res_map_all_Inr)
    fix i assume "i \<in> set [0..<ws]"
    then have i: "i < ws" by simp
    then have "map (\<lambda>(k, parts). (k, parts ! i)) ?sent = gather_args (rows i) args" by (auto simp: gather_args_def)
    then show "method i (map (\<lambda>(k, parts). (k, parts ! i)) ?sent) = Inr (dp_gather (rows i) r)"
      using assms i by (simp add: row_wise_def)
  qed
  ultimately show ?thesis by (simp add: execute_all_def)
qed



section \<open>The collected result\<close>



text \<open>Automatic padding of all arguments to a multiple of the number of workers.\<close>

definition auto_pad :: "nat \<Rightarrow> nat \<Rightarrow> nat" where
  "auto_pad n ws = (if n mod ws > 0 then ws - n mod ws else 0)"

definition padded_rows :: "nat \<Rightarrow> nat \<Rightarrow> nat list" where
  "padded_rows n pad = [0..<n] @ replicate pad (n - 1)"

lemma auto_pad_dvd: "0 < ws \<Longrightarrow> ws dvd n + auto_pad n ws"
proof (cases "n mod ws = 0")
  case False
  assume ws: "0 < ws"
  have "n + (ws - n mod ws) = ws * (n div ws) + ws" using mod_less_divisor[OF ws, of n] mult_div_mod_eq[of ws n] by linarith
  then show ?thesis using False by (simp add: auto_pad_def)
qed (simp add: auto_pad_def mod_eq_0_iff_dvd)

lemma length_padded_rows [simp]: "length (padded_rows n pad) = n + pad"
  by (simp add: padded_rows_def)

lemma padded_rows_below: "0 < n \<Longrightarrow> list_all (\<lambda>i. i < n) (padded_rows n pad)"
  by (auto simp: padded_rows_def list_all_iff)

lemma pad_and_split_parts:
  assumes "dp_wf d" "meta_plain d" "dp_len d = n" "0 < n" "0 < ws" "st \<in> {None, Some (n, auto_pad n ws)}"
  shows "pad_and_split True ws d st =
    Inr (map (\<lambda>j. dp_gather (gather (part_rows (n + auto_pad n ws) ws j) (padded_rows n (auto_pad n ws))) d) [0..<ws],
      dp_gather (padded_rows n (auto_pad n ws)) d, Some (n, auto_pad n ws))"
proof -
  let ?pad = "auto_pad n ws" and ?d = "dp_gather (padded_rows n (auto_pad n ws)) d"
  have len: "dp_len ?d = n + ?pad" using dp_len_gather[of d "padded_rows n ?pad"] assms(3,4) by simp
  have wf: "dp_wf ?d" using dp_wf_gather[OF assms(1)] assms(3,4) by simp
  have pad: "dp_padding ?pad '''' d = Inr ?d"
    using dp_padding_gather[OF assms(1,2)] assms(3,4) by (simp add: padded_rows_def)
  have "dp_chunk True ws ?d = Inr (map (\<lambda>j. dp_gather (part_rows (n + ?pad) ws j) ?d) [0..<ws])"
    using dp_chunk_gather[OF wf, of ws True] auto_pad_dvd[OF assms(5), of n] assms(4) by (simp add: len part_rows_def)
  moreover have "dp_gather (part_rows (n + ?pad) ws j) ?d = dp_gather (gather (part_rows (n + ?pad) ws j) (padded_rows n ?pad)) d" if "j < ws" for j
    using part_rows_below[OF that auto_pad_dvd[OF assms(5), of n]] by (intro dp_gather_gather) simp
  ultimately have "dp_chunk True ws ?d = Inr (map (\<lambda>j. dp_gather (gather (part_rows (n + ?pad) ws j) (padded_rows n ?pad)) d) [0..<ws])"
    by simp
  moreover have "is_padding_enabled True d" by (simp add: is_padding_enabled_def)
  moreover have "(case st of None \<Rightarrow> if ws = 0 then Inl ZeroDivisionError
        else Inr (dp_len d, if dp_len d mod ws > 0 then ws - dp_len d mod ws else 0)
      | Some (len, pad) \<Rightarrow> res_bind (py_assert (len = dp_len d)) (\<lambda>_. Inr (len, pad))) = Inr (n, ?pad)"
    using assms(3,5,6) by (auto simp: auto_pad_def)
  ultimately show ?thesis using pad by (simp add: pad_and_split_def)
qed

lemma split_padded_parts:
  assumes "args_ok n args" "list_all (\<lambda>(k, d). meta_plain d) args" "0 < n" "0 < ws" "st \<in> {None, Some (n, auto_pad n ws)}" "args \<noteq> []"
  shows "split_args_with_auto_padding True ws args st =
    Inr (map (\<lambda>(key, d). (key, map (\<lambda>j. dp_gather (gather (part_rows (n + auto_pad n ws) ws j) (padded_rows n (auto_pad n ws))) d) [0..<ws])) args,
      gather_args (padded_rows n (auto_pad n ws)) args, Some (n, auto_pad n ws))"
  using assms
proof (induction args arbitrary: st)
  case (Cons x args)
  obtain k d where x: "x = (k, d)" by (cases x)
  have d: "dp_wf d" "meta_plain d" "dp_len d = n" using Cons.prems(1,2) x by (simp_all add: args_ok_def)
  note step = pad_and_split_parts[OF d Cons.prems(3,4,5)]
  show ?case
  proof (cases "args = []")
    case True
    then show ?thesis by (simp add: x step gather_args_def)
  next
    case False
    have "args_ok n args" "list_all (\<lambda>(k, d). meta_plain d) args" using Cons.prems(1,2) by (simp_all add: args_ok_def)
    from Cons.IH[OF this Cons.prems(3,4) _ False, of "Some (n, auto_pad n ws)"] show ?thesis by (simp add: x step gather_args_def)
  qed
qed simp

section \<open>Properties\<close>


text \<open>
  A call in mode \<open>DP_COMPUTE_PROTO\<close> with automatic padding returns what one worker would return for the whole
  batch, whatever the number of rows: the rows that stand for padding are removed from the result. The
  arguments however stay padded.
\<close>

theorem dp_compute_is_local:
  assumes "args_ok n args" "list_all (\<lambda>(k, d). meta_plain d) args" "args \<noteq> []" "0 < n" "0 < ws"
    "row_wise ws n method args r" "dp_wf r" "meta_plain r" "dp_len r = n"
  shows "call_dp_compute_proto True ws method args = Inr (r, gather_args (padded_rows n (auto_pad n ws)) args)"
proof -
  let ?pad = "auto_pad n ws" and ?all = "padded_rows n (auto_pad n ws)"
  let ?rows = "\<lambda>j. gather (part_rows (n + ?pad) ws j) ?all"
  have below: "list_all (\<lambda>i. i < n) (?rows j)" if "j < ws" for j
    using part_rows_below[OF that auto_pad_dvd[OF assms(5), of n]] padded_rows_below[OF assms(4), of ?pad]
    by (auto simp: list_all_iff gather_def)
  note split = split_padded_parts[OF assms(1,2,4,5), of None, simplified, OF assms(3)]
  have exec: "execute_all ws method (map (\<lambda>(key, d). (key, map (\<lambda>j. dp_gather (?rows j) d) [0..<ws])) args) =
      Inr (map (\<lambda>j. dp_gather (?rows j) r) [0..<ws])"
    by (rule execute_parts[OF assms(6) below])
  have "concat (map ?rows [0..<ws]) = gather (concat (map (part_rows (n + ?pad) ws) [0..<ws])) ?all"
    by (simp add: gather_def map_concat comp_def)
  also have "\<dots> = ?all"
    using gather_all[of ?all] by (simp add: concat_part_rows[OF auto_pad_dvd[OF assms(5)]])
  finally have rows: "concat (map ?rows [0..<ws]) = ?all" .
  have "dp_concat (map (\<lambda>j. dp_gather (?rows j) r) [0..<ws]) = Inr (dp_gather ?all r)"
    using concat_gathers[OF assms(7,8), of "map ?rows [0..<ws]"] rows assms(5) by (simp add: comp_def)
  then have coll: "collect_dp_compute_data_proto ws (map (\<lambda>j. dp_gather (?rows j) r) [0..<ws]) = Inr (dp_gather ?all r)"
    using assms(5) by (simp add: collect_dp_compute_data_proto_def collect_dp_compute_def)
  have len: "dp_len (dp_gather ?all r) = n + ?pad" using dp_len_gather[of r ?all] assms(4,9) by simp
  have wf: "dp_wf (dp_gather ?all r)" using dp_wf_gather[OF assms(7)] assms(4,9) by simp
  have first: "dp_gather [0..<n] (dp_gather ?all r) = r"
  proof -
    have "gather [0..<n] ?all = [0..<n]" by (auto simp: gather_def padded_rows_def nth_append intro!: map_idI)
    then show ?thesis using dp_gather_all[OF assms(7)] assms(9) by (subst dp_gather_gather) (auto simp: list_all_iff)
  qed
  have "select_idxs (Idxs (map int (slice_to_end ?pad [0..<n + ?pad]))) (dp_gather ?all r) = Inr r" if "0 < ?pad"
  proof -
    have "slice_to_end ?pad [0..<n + ?pad] = [0..<n]" using that by (simp add: slice_to_end_def take_upt)
    then show ?thesis using select_idxs_gather[OF wf, of "map int [0..<n]"] first by (simp add: len norm_index_def comp_def)
  qed
  moreover have "dp_gather ?all r = r" if "?pad = 0"
    using first that dp_gather_all[OF assms(7)] assms(9) by (simp add: padded_rows_def)
  ultimately show ?thesis
    by (simp add: call_dp_compute_proto_def split exec coll len)
qed

text \<open>A method that adds one to every element of the tensors of its first argument.\<close>

definition demo_method :: "nat \<Rightarrow> nat call_args \<Rightarrow> nat data_proto result" where
  "demo_method i args = (case args of
     [] \<Rightarrow> Inl IndexError
   | (_, d) # _ \<Rightarrow> Inr (d\<lparr>dp_batch := map_option (\<lambda>(n, ts). (n, map_values (map Suc) ts)) (dp_batch d)\<rparr>))"

definition demo_result :: "nat data_proto" where
  "demo_result = demo_batch\<lparr>dp_batch := Some (3, [(''ids'', [8, 9, 10])])\<rparr>"

lemma demo_row_wise: "row_wise ws 3 demo_method [(None, demo_batch)] demo_result"
proof -
  have "map Suc (gather idx [7, 8, 9]) = gather idx [8, 9, 10]" if "list_all (\<lambda>j. j < 3) idx" for idx
  proof -
    have "Suc ([7, 8, 9] ! j) = [8, 9, 10] ! j" if "j < 3" for j :: nat
      using that by (auto simp: nth_Cons' less_Suc_eq numeral_3_eq_3)
    with that show ?thesis by (auto simp: gather_def list_all_iff)
  qed
  then show ?thesis by (simp add: row_wise_def demo_method_def gather_args_def dp_gather_def demo_batch_def demo_result_def)
qed

lemma demo_result_facts: "dp_wf demo_result" "meta_plain demo_result" "dp_len demo_result = 3"
    "args_ok 3 [(None, demo_batch)]" "list_all (\<lambda>(k, d). meta_plain d) [(None :: string option, demo_batch)]"
  by code_simp+


theorem dp_compute_is_local_witness:
  "\<exists>args'. call_dp_compute_proto True 2 demo_method [(None, demo_batch)] = Inr (demo_result, args')"
  using dp_compute_is_local[OF demo_result_facts(4,5) _ _ _ demo_row_wise demo_result_facts(1,2,3), of 2] by auto

text \<open>
  A call with automatic padding leaves its argument padded, so when rows had to be added the caller can no longer unite
  the argument with the result: the batch sizes differ and the union raises.
\<close>

theorem padded_argument_conflict:
  assumes "args_ok n args" "list_all (\<lambda>(k, d). meta_plain d) args" "0 < n" "0 < ws" "\<not> ws dvd n"
    "row_wise ws n method args r" "dp_wf r" "meta_plain r" "dp_len r = n" "dp_batch r \<noteq> None"
    "call_dp_compute_proto True ws method args = Inr (r', args')" "(key, d') \<in> set args'" "dp_batch d' \<noteq> None"
  shows "r' = r \<and> dp_len d' = n + (ws - n mod ws) \<and> dp_union tequal d' r = Inl AssertionError"
proof -
  have ne: "args \<noteq> []"
  proof
    assume "args = []"
    then have "args' = []" using assms(11)
      by (auto simp: call_dp_compute_proto_def res_bind_eq_Inr split: option.splits if_splits)
    with assms(12) show False by simp
  qed
  have "0 < n mod ws" using assms(5) by (simp add: mod_greater_zero_iff_not_dvd)
  then have pad: "auto_pad n ws = ws - n mod ws" "auto_pad n ws > 0" using assms(4) by (simp_all add: auto_pad_def)
  from dp_compute_is_local[OF assms(1,2) ne assms(3,4,6,7,8,9)] assms(11)
  have res: "r' = r" "args' = gather_args (padded_rows n (auto_pad n ws)) args" by auto
  then obtain d where d: "d' = dp_gather (padded_rows n (auto_pad n ws)) d" "dp_wf d" "dp_len d = n"
    using assms(1,12) by (auto simp: gather_args_def args_ok_def list_all_iff)
  then have len: "dp_len d' = n + (ws - n mod ws)" using dp_len_gather[of d] assms(3) pad(1) by simp
  obtain b where b: "dp_batch d' = Some b" using assms(13) by auto
  obtain c where c: "dp_batch r = Some c" using assms(10) by auto
  have "fst b = dp_len d'" "fst c = n" using b c assms(9) by (auto simp: dp_len_def split: prod.splits)
  then have "fst b \<noteq> fst c" using len pad by simp
  then have "dp_union tequal d' r = Inl AssertionError"
    by (simp add: dp_union_def b c union_tensor_dict_def split_beta)
  with res len show ?thesis by simp
qed

theorem padded_argument_conflict_witness:
  "\<exists>d'. call_dp_compute_proto True 2 demo_method [(None, demo_batch)] = Inr (demo_result, [(None, d')]) \<and>
     dp_union (=) d' demo_result = Inl AssertionError"
proof -
  let ?d = "dp_gather (padded_rows 3 1) demo_batch"
  have c: "call_dp_compute_proto True 2 demo_method [(None, demo_batch)] = Inr (demo_result, [(None, ?d)])" by code_simp
  have b: "dp_batch demo_result \<noteq> None" "dp_batch ?d \<noteq> None" by (simp_all add: demo_result_def dp_gather_def demo_batch_def)
  have "dp_union (=) ?d demo_result = Inl AssertionError"
    using padded_argument_conflict[OF demo_result_facts(4,5) _ _ _ demo_row_wise demo_result_facts(1,2,3) b(1) c _ b(2), of None "(=)"]
    by simp
  with c show ?thesis by blast
qed

text \<open>
  With mode \<open>DP_COMPUTE_METRIC\<close> the removal of padding hits the list of the workers' results: when \<open>p\<close> rows of padding were
  needed, the metrics of the last \<open>p\<close> workers are lost, although each of them computed real rows or copies.
\<close>

theorem metric_results_dropped:
  assumes "args_ok n args" "list_all (\<lambda>(k, d). meta_plain d) args" "args \<noteq> []" "0 < n" "0 < ws"
    "\<And>i a. i < ws \<Longrightarrow> method i a = Inr (f i)"
  shows "\<exists>args'. call_dp_compute_metric True ws method args = Inr (map f [0..<ws - auto_pad n ws], args')"
proof -
  note split = split_padded_parts[OF assms(1,2,4,5), of None, simplified, OF assms(3)]
  have "execute_all ws method (map (\<lambda>(key, d). (key, map (\<lambda>j. h j d) [0..<ws])) args) = Inr (map f [0..<ws])" for h
  proof -
    have "res_map (\<lambda>i. method i (map (\<lambda>(k, parts). (k, parts ! i)) (map (\<lambda>(key, d). (key, map (\<lambda>j. h j d) [0..<ws])) args))) [0..<ws] =
        Inr (map f [0..<ws])" using assms(6) by (intro res_map_all_Inr) simp
    then show ?thesis by (auto simp: execute_all_def list_all_iff)
  qed
  from this[of "\<lambda>j d. dp_gather (gather (part_rows (n + auto_pad n ws) ws j) (padded_rows n (auto_pad n ws))) d"]
  show ?thesis
    by (auto simp: call_dp_compute_metric_def split collect_dp_compute_def slice_to_end_def take_map take_upt)
qed

theorem metric_results_dropped_witness:
  "\<exists>args'. call_dp_compute_metric True 5 (\<lambda>i _. Inr i) [(None, demo_batch)] = Inr ([0, 1, 2], args')"
proof -
  have "map id [0..<5 - auto_pad 3 5] = [0, 1, 2]" by code_simp
  with metric_results_dropped[OF demo_result_facts(4,5) _ _ _, of 5 "\<lambda>i _. Inr i" id] show ?thesis by simp
qed

section \<open>Registration\<close>

text \<open>What a program does with a dynamic enumeration and the functions of its members; errors leave the state as the code does.\<close>

datatype 'f mode_op = RegisterMode string 'f | RemoveMember string

definition mode_exec :: "'f mode_op \<Rightarrow> dynamic_enum \<times> 'f mode_registry \<Rightarrow> dynamic_enum \<times> 'f mode_registry" where
  "mode_exec opn st = (case opn of
     RegisterMode name fns \<Rightarrow> (case register_dispatch_mode name fns st of (e, reg, _) \<Rightarrow> (e, reg))
   | RemoveMember name \<Rightarrow> (case enum_remove name (fst st) of Inl _ \<Rightarrow> st | Inr (e, _) \<Rightarrow> (e, snd st)))"

definition modes_inv :: "dynamic_enum \<times> 'f mode_registry \<Rightarrow> bool" where
  "modes_inv st \<longleftrightarrow> dict_wf (de_registry (fst st)) \<and> dict_wf (snd st) \<and>
     (\<forall>(key, m) \<in> set (de_registry (fst st)). em_name m = key \<and> em_value m < de_next_value (fst st)) \<and>
     inj_on (em_value \<circ> snd) (set (de_registry (fst st))) \<and> (\<forall>v \<in> fst ` set (snd st). v < de_next_value (fst st))"

lemma modes_inv_register:
  assumes inv: "modes_inv (e, reg)" and new: "py_upper name \<notin> fst ` set (de_registry e)"
  shows "register_dispatch_mode name fns (e, reg) =
      (\<lparr>de_registry = de_registry e @ [(py_upper name, \<lparr>em_name = py_upper name, em_value = de_next_value e\<rparr>)], de_next_value = de_next_value e + 1\<rparr>,
       reg @ [(de_next_value e, fns)], Inr ())"
    and "modes_inv (\<lparr>de_registry = de_registry e @ [(py_upper name, \<lparr>em_name = py_upper name, em_value = de_next_value e\<rparr>)],
       de_next_value = de_next_value e + 1\<rparr>, reg @ [(de_next_value e, fns)])"
proof -
  have reg: "de_next_value e \<notin> fst ` set reg" using inv by (auto simp: modes_inv_def)
  then show "register_dispatch_mode name fns (e, reg) =
      (\<lparr>de_registry = de_registry e @ [(py_upper name, \<lparr>em_name = py_upper name, em_value = de_next_value e\<rparr>)], de_next_value = de_next_value e + 1\<rparr>,
       reg @ [(de_next_value e, fns)], Inr ())"
    using new by (simp add: register_dispatch_mode_def enum_register_def Let_def update_new)
  have "\<forall>x \<in> set (de_registry e). (em_value \<circ> snd) x \<noteq> de_next_value e" using inv by (auto simp: modes_inv_def)
  then show "modes_inv (\<lparr>de_registry = de_registry e @ [(py_upper name, \<lparr>em_name = py_upper name, em_value = de_next_value e\<rparr>)],
       de_next_value = de_next_value e + 1\<rparr>, reg @ [(de_next_value e, fns)])"
    using inv new reg by (force simp: modes_inv_def dict_wf_def inj_on_def)
qed

lemma modes_inv_exec: "modes_inv st \<Longrightarrow> modes_inv (mode_exec opn st)"
proof -
  assume inv: "modes_inv st"
  obtain e reg where st: "st = (e, reg)" by (cases st)
  show ?thesis
  proof (cases opn)
    case (RegisterMode name fns)
    show ?thesis
    proof (cases "py_upper name \<in> fst ` set (de_registry e)")
      case True
      then show ?thesis using inv RegisterMode by (simp add: mode_exec_def register_dispatch_mode_def enum_register_def st)
    next
      case False
      then show ?thesis using modes_inv_register[OF inv[unfolded st] False, of fns] RegisterMode by (simp add: mode_exec_def st)
    qed
  next
    case (RemoveMember name)
    show ?thesis
    proof (cases "map_of (de_registry e) (py_upper name)")
      case None
      then show ?thesis using inv RemoveMember by (simp add: mode_exec_def enum_remove_def st)
    next
      case (Some m)
      let ?d = "AList.delete (py_upper name) (de_registry e)"
      have sub: "set (AList.delete k d) \<subseteq> set d" for k and d :: "(string, enum_member) dict"
        by (induction d) auto
      have "mode_exec opn st = (e\<lparr>de_registry := ?d\<rparr>, reg)"
        using Some RemoveMember by (simp add: mode_exec_def enum_remove_def st)
      moreover have "inj_on (em_value \<circ> snd) (set ?d)"
        by (rule inj_on_subset[OF _ sub]) (use inv in \<open>simp add: modes_inv_def st\<close>)
      ultimately show ?thesis using inv sub[of "py_upper name" "de_registry e"] by (auto simp: modes_inv_def st)
    qed
  qed
qed

text \<open>
  After any registrations and removals, the members of the enumeration have different values and are stored under
  their names, and a dispatch mode can be registered exactly when its name, up to case, is free; its functions are then
  found and those of the other members are unchanged.
\<close>

theorem dispatch_modes_consistent:
  assumes "fold mode_exec ops (enum_empty, []) = (e, reg)"
  shows "(\<forall>(k1, m1) \<in> set (de_registry e). \<forall>(k2, m2) \<in> set (de_registry e). em_name m1 = k1 \<and> (em_value m1 = em_value m2 \<longrightarrow> k1 = k2)) \<and>
    (case register_dispatch_mode name fns (e, reg) of (e', reg', res) \<Rightarrow>
       if enum_from_name name e \<noteq> None then res = Inl ValueError \<and> (e', reg') = (e, reg)
       else res = Inr () \<and> (\<exists>m. enum_from_name name e' = Some m \<and> get_predefined_dispatch_fn m reg' = Inr fns) \<and>
         (\<forall>(k, m) \<in> set (de_registry e). get_predefined_dispatch_fn m reg' = get_predefined_dispatch_fn m reg))"
proof -
  have "modes_inv (enum_empty, [])" by (simp add: modes_inv_def enum_empty_def)
  then have "modes_inv (fold mode_exec ops (enum_empty, []))"
    by (induction ops rule: rev_induct) (simp, simp add: modes_inv_exec)
  then have inv: "modes_inv (e, reg)" using assms by simp
  have members: "em_name m1 = k1 \<and> (em_value m1 = em_value m2 \<longrightarrow> k1 = k2)"
    if "(k1, m1) \<in> set (de_registry e)" "(k2, m2) \<in> set (de_registry e)" for k1 m1 k2 m2
    using inv that by (fastforce simp: modes_inv_def inj_on_def)
  show ?thesis
  proof (cases "py_upper name \<in> fst ` set (de_registry e)")
    case True
    then have "enum_from_name name e \<noteq> None" by (simp add: enum_from_name_def map_of_eq_None_iff)
    moreover have "register_dispatch_mode name fns (e, reg) = (e, reg, Inl ValueError)"
      using True by (simp add: register_dispatch_mode_def enum_register_def)
    ultimately show ?thesis using members by auto
  next
    case False
    then have none: "enum_from_name name e = None" by (simp add: enum_from_name_def map_of_eq_None_iff)
    have fresh: "map_of reg (de_next_value e) = None" using inv by (auto simp: modes_inv_def map_of_eq_None_iff)
    let ?m = "\<lparr>em_name = py_upper name, em_value = de_next_value e\<rparr>"
    let ?e = "\<lparr>de_registry = de_registry e @ [(py_upper name, ?m)], de_next_value = de_next_value e + 1\<rparr>"
    have others: "\<forall>(k, m) \<in> set (de_registry e). get_predefined_dispatch_fn m (reg @ [(de_next_value e, fns)]) = get_predefined_dispatch_fn m reg"
      using inv by (auto simp: get_predefined_dispatch_fn_def modes_inv_def map_add_def split: option.split)
    have found: "enum_from_name name ?e = Some ?m"
      using none by (simp add: enum_from_name_def map_add_def)
    have fns: "get_predefined_dispatch_fn ?m (reg @ [(de_next_value e, fns)]) = Inr fns"
      using fresh by (simp add: get_predefined_dispatch_fn_def map_add_def)
    show ?thesis
      unfolding modes_inv_register(1)[OF inv False] prod.case none using members found fns others by auto
  qed
qed

theorem dispatch_modes_consistent_witness:
  "\<exists>e reg. fold mode_exec [RegisterMode ''one'' 1, RegisterMode ''two'' (2 :: nat), RemoveMember ''One''] (enum_empty, []) = (e, reg) \<and>
     (case register_dispatch_mode ''TWO'' 3 (e, reg) of (_, _, res) \<Rightarrow> res = Inl ValueError) \<and>
     (case register_dispatch_mode ''ONE'' 3 (e, reg) of (_, _, res) \<Rightarrow> res = Inr ())"
proof -
  let ?ops = "[RegisterMode ''one'' 1, RegisterMode ''two'' (2 :: nat), RemoveMember ''One'']"
  obtain e reg where r: "fold mode_exec ?ops (enum_empty, []) = (e, reg)" by (rule prod.exhaust)
  have "enum_from_name ''TWO'' (fst (fold mode_exec ?ops (enum_empty, []))) \<noteq> None" by code_simp
  moreover have "enum_from_name ''ONE'' (fst (fold mode_exec ?ops (enum_empty, []))) = None" by code_simp
  ultimately have n: "enum_from_name ''TWO'' e \<noteq> None" "enum_from_name ''ONE'' e = None" unfolding r by simp_all
  show ?thesis
    using dispatch_modes_consistent[OF r, of "''TWO''" 3] dispatch_modes_consistent[OF r, of "''ONE''" 3] r
    unfolding if_P[OF n(1)] by (auto simp: n(2) split: prod.splits)
qed

end
