(* ===== verification/Masked_Tensor.thy ===== *)
theory Masked_Tensor
  imports Prelude
begin

text \<open>
  The masked reductions of \<open>src/verl/verl/utils/torch_functional.py\<close> and the grouped statistics of
  \<open>src/verl/verl/utils/groupwise.py\<close>. A float tensor of shape \<open>(n,)\<close> is a list of reals, one of shape
  \<open>(n, m)\<close> the list of its rows. Numbers are exact: rounding, infinities and NaN are not modelled, and a
  division whose divisor may be zero is excluded by a hypothesis where a property depends on it.
\<close>

section \<open>Matrices\<close>

type_synonym mat = "real list list"

definition shaped :: "nat \<Rightarrow> nat \<Rightarrow> 'a list list \<Rightarrow> bool" where
  "shaped n m a \<longleftrightarrow> length a = n \<and> list_all (\<lambda>row. length row = m) a"

text \<open>The elementwise product, \<open>s.unsqueeze(-1) * mask\<close>, and the sums over the last dimension.\<close>

definition mat_map2 :: "('a \<Rightarrow> 'b \<Rightarrow> 'c) \<Rightarrow> 'a list list \<Rightarrow> 'b list list \<Rightarrow> 'c list list" where
  "mat_map2 f = map2 (map2 f)"

definition scale_rows :: "real list \<Rightarrow> mat \<Rightarrow> mat" where
  "scale_rows s msk = map2 (\<lambda>x row. map (\<lambda>m. x * m) row) s msk"

definition row_sums :: "mat \<Rightarrow> real list" where
  "row_sums a = map sum_list a"

text \<open>\<open>torch.clamp\<close> with scalar bounds and \<open>clip_by_value\<close>, its version with tensor bounds.\<close>

definition clamp :: "real \<Rightarrow> real \<Rightarrow> real \<Rightarrow> real" where
  "clamp x lo hi = min (max x lo) hi"

definition clip_by_value :: "real \<Rightarrow> real \<Rightarrow> real \<Rightarrow> real" where
  "clip_by_value x tensor_min tensor_max = max (min x tensor_max) tensor_min"

section \<open>Masked reductions\<close>

text \<open>The reductions over all elements; the masked ones work on the flattened tensors.\<close>

definition masked_sum :: "real list \<Rightarrow> real list \<Rightarrow> real" where
  "masked_sum vs ms = (\<Sum>(v, m) \<leftarrow> zip vs ms. (if m \<noteq> 0 then v else 0) * m)"

definition masked_mean :: "real list \<Rightarrow> real list \<Rightarrow> real" where
  "masked_mean vs ms = masked_sum vs ms / (sum_list ms + 1 / 10 ^ 8)"

definition masked_var :: "real list \<Rightarrow> real list \<Rightarrow> real result" where
  "masked_var vs ms =
     (let mean = masked_mean vs ms;
          centered = map (\<lambda>v. v - mean) vs;
          variance = masked_mean (map (\<lambda>c. c ^ 2) centered) ms;
          mask_sum = sum_list ms
      in if mask_sum = 0 then Inl ValueError
         else if mask_sum = 1 then Inl ValueError
         else Inr (variance * (mask_sum / (mask_sum - 1))))"

definition masked_whiten :: "mat \<Rightarrow> mat \<Rightarrow> bool \<Rightarrow> mat result" where
  "masked_whiten values msk shift_mean =
     res_bind (masked_var (concat values) (concat msk)) (\<lambda>var.
       let mean = masked_mean (concat values) (concat msk);
           whitened = map (map (\<lambda>v. (v - mean) * (1 / sqrt (var + 1 / 10 ^ 8)))) values
       in Inr (if shift_mean then whitened else map (map (\<lambda>w. w + mean)) whitened))"

section \<open>Means and standard deviations of groups\<close>

definition torch_mean :: "real list \<Rightarrow> real" where
  "torch_mean xs = sum_list xs / real (length xs)"

text \<open>\<open>torch.std\<close>: the unbiased estimate, used on two or more elements.\<close>

definition torch_std :: "real list \<Rightarrow> real" where
  "torch_std xs = sqrt ((\<Sum>x \<leftarrow> xs. (x - torch_mean xs) ^ 2) / (real (length xs) - 1))"

text \<open>
  \<open>as_torch_index\<close> on a numpy array of labels (the \<open>uid\<close> column): every label coerced to an integer when
  numpy can do that for all of them, and the position of the label among the sorted distinct labels
  otherwise. What numpy accepts as an integer is the parameter \<open>to_int\<close>.
\<close>

definition np_unique :: "('k :: linorder) list \<Rightarrow> 'k list" where
  "np_unique xs = sort (remdups xs)"

definition np_unique_inverse :: "('k :: linorder) list \<Rightarrow> int list" where
  "np_unique_inverse xs = map (\<lambda>x. int (length (filter (\<lambda>y. y < x) (np_unique xs)))) xs"

definition as_torch_index :: "('k :: linorder \<Rightarrow> int option) \<Rightarrow> 'k list \<Rightarrow> int list" where
  "as_torch_index to_int index =
     (if list_all (\<lambda>l. to_int l \<noteq> None) index then map (\<lambda>l. the (to_int l)) index
      else np_unique_inverse index)"

text \<open>
  The same function on an array of floats: rounded when all are within \<open>1e-6\<close> of an integer; otherwise the
  coercion to integers, which truncates and does not fail.
\<close>

definition truncate_toward_zero :: "real \<Rightarrow> int" where
  "truncate_toward_zero x = (if x < 0 then \<lceil>x\<rceil> else \<lfloor>x\<rfloor>)"

definition as_torch_index_float :: "real list \<Rightarrow> int list" where
  "as_torch_index_float index =
     (if list_all (\<lambda>x. \<bar>x - of_int (round x)\<bar> \<le> 1 / 10 ^ 6) index then map round index
      else as_torch_index (\<lambda>x. Some (truncate_toward_zero x)) index)"

text \<open>
  \<open>index_add_\<close> into a vector of \<open>g\<close> zeros, and \<open>group_mean_std\<close>: mean, standard deviation and size of
  every group. A negative group number is out of range.
\<close>

definition index_add :: "nat \<Rightarrow> int list \<Rightarrow> real list \<Rightarrow> real list" where
  "index_add g gidx xs = map (\<lambda>k. \<Sum>(j, x) \<leftarrow> zip gidx xs. if j = int k then x else 0) [0..<g]"

definition group_mean_std :: "real list \<Rightarrow> int list \<Rightarrow> real \<Rightarrow> (real list \<times> real list \<times> real list) result" where
  "group_mean_std scores gidx eps =
     (if length scores \<noteq> length gidx then Inl ValueError
      else
        let G = (if gidx = [] then 0 else Max (set gidx) + 1)
        in if G = 0 then Inr ([], [], [])
           else if G < 0 then Inl RuntimeError
           else if list_ex (\<lambda>j. j < 0) gidx then Inl IndexError
           else
             let cnt = index_add (nat G) gidx (map (\<lambda>_. 1) scores);
                 s1 = index_add (nat G) gidx scores;
                 mean = map2 (\<lambda>s c. s / max c 1) s1 cnt;
                 centered = map2 (\<lambda>x j. x - mean ! nat j) scores gidx;
                 var_num = index_add (nat G) gidx (map (\<lambda>c. c * c) centered);
                 var = map2 (\<lambda>v c. v / max (c - 1) 1) var_num cnt;
                 std = map (\<lambda>v. sqrt (max v eps)) var
             in Inr (map2 (\<lambda>m c. if c \<le> 1 then 0 else m) mean cnt,
                     map2 (\<lambda>s c. if c \<le> 1 then 1 else s) std cnt, cnt))"

section \<open>Shapes\<close>

lemma shaped_nth: "shaped n m a \<Longrightarrow> i < n \<Longrightarrow> length (a ! i) = m"
  by (simp add: shaped_def list_all_length)

lemma mat_map2_nth:
  assumes "shaped n w a" "shaped n w b" "i < n" "j < w"
  shows "mat_map2 f a b ! i ! j = f (a ! i ! j) (b ! i ! j)"
  using assms shaped_nth[OF assms(1,3)] shaped_nth[OF assms(2,3)] by (simp add: mat_map2_def shaped_def)

lemma shaped_mat_map2: "shaped n w a \<Longrightarrow> shaped n w b \<Longrightarrow> shaped n w (mat_map2 f a b)"
  by (simp add: shaped_def mat_map2_def list_all_length)

lemma shaped_map: "shaped n w a \<Longrightarrow> shaped n w (map (map f) a)"
  by (simp add: shaped_def list_all_length)

lemma mat_map_nth: "shaped n w a \<Longrightarrow> i < n \<Longrightarrow> j < w \<Longrightarrow> map (map f) a ! i ! j = f (a ! i ! j)"
  using shaped_nth[of n w a i] by (simp add: shaped_def)

end
