(* ===== verification/Advantage.thy ===== *)
theory Advantage
  imports Masked_Tensor
begin

text \<open>
  The advantage estimators of \<open>src/verl/verl/trainer/ppo/core_algos.py\<close>, their registry and the KL
  controllers. A batch of responses is a matrix with one row per response; \<open>index\<close> holds the label of the
  prompt of every row. The in-place updates of \<open>scores\<close> come after the grouped statistics are computed, so
  every estimator is a function of its arguments.
\<close>

section \<open>Registries\<close>

datatype advantage_estimator =
    GAE | GRPO | REINFORCE_PLUS_PLUS | REINFORCE_PLUS_PLUS_BASELINE | REMAX | RLOO | OPO | GRPO_PASSK | GPG
  | RLOO_VECTORIZED | GRPO_VECTORIZED | OPTIMAL_TOKEN_BASELINE | TIR_OPTIMAL_TOKEN_BASELINE | GDPO

fun estimator_value :: "advantage_estimator \<Rightarrow> string" where
  "estimator_value GAE = ''gae''"
| "estimator_value GRPO = ''grpo''"
| "estimator_value REINFORCE_PLUS_PLUS = ''reinforce_plus_plus''"
| "estimator_value REINFORCE_PLUS_PLUS_BASELINE = ''reinforce_plus_plus_baseline''"
| "estimator_value REMAX = ''remax''"
| "estimator_value RLOO = ''rloo''"
| "estimator_value OPO = ''opo''"
| "estimator_value GRPO_PASSK = ''grpo_passk''"
| "estimator_value GPG = ''gpg''"
| "estimator_value RLOO_VECTORIZED = ''rloo_vectorized''"
| "estimator_value GRPO_VECTORIZED = ''grpo_vectorized''"
| "estimator_value OPTIMAL_TOKEN_BASELINE = ''optimal_token_baseline''"
| "estimator_value TIR_OPTIMAL_TOKEN_BASELINE = ''tir_optimal_token_baseline''"
| "estimator_value GDPO = ''gdpo''"

text \<open>
  The registries map names to functions; a function is known by an identity of any type \<open>'f\<close>. A second
  registration under the same name is refused for estimators and overwrites for policy losses.
\<close>

datatype name_or_enum = Name string | Enum advantage_estimator

fun registered_name :: "name_or_enum \<Rightarrow> string" where
  "registered_name (Name s) = s"
| "registered_name (Enum e) = estimator_value e"

definition register_adv_est :: "name_or_enum \<Rightarrow> 'f \<Rightarrow> (string, 'f) dict \<Rightarrow> (string, 'f) dict result" where
  "register_adv_est n fn reg =
     (let key = registered_name n
      in if map_of reg key \<noteq> None \<and> map_of reg key \<noteq> Some fn then Inl ValueError
         else Inr (AList.update key fn reg))"

definition get_adv_estimator_fn :: "name_or_enum \<Rightarrow> (string, 'f) dict \<Rightarrow> 'f result" where
  "get_adv_estimator_fn n reg =
     (case map_of reg (registered_name n) of None \<Rightarrow> Inl ValueError | Some fn \<Rightarrow> Inr fn)"

definition register_policy_loss :: "string \<Rightarrow> 'f \<Rightarrow> (string, 'f) dict \<Rightarrow> (string, 'f) dict" where
  "register_policy_loss n fn reg = AList.update n fn reg"

definition get_policy_loss_fn :: "string \<Rightarrow> (string, 'f) dict \<Rightarrow> 'f result" where
  "get_policy_loss_fn n reg = (case map_of reg n of None \<Rightarrow> Inl ValueError | Some fn \<Rightarrow> Inr fn)"

section \<open>KL controllers\<close>

record adaptive_kl =
  kl_value :: real
  kl_target :: real
  kl_horizon :: real

datatype kl_controller = FixedKLController real | AdaptiveKLController adaptive_kl

fun kl_coefficient :: "kl_controller \<Rightarrow> real" where
  "kl_coefficient (FixedKLController v) = v"
| "kl_coefficient (AdaptiveKLController c) = kl_value c"

definition adaptive_kl_update :: "real \<Rightarrow> nat \<Rightarrow> adaptive_kl \<Rightarrow> adaptive_kl result" where
  "adaptive_kl_update current_kl n_steps c =
     (if kl_target c = 0 then Inl ZeroDivisionError
      else
        let proportional_error = clamp (current_kl / kl_target c - 1) (- 1 / 5) (1 / 5);
            mult = 1 + proportional_error * real n_steps / kl_horizon c
        in Inr (c\<lparr>kl_value := kl_value c * mult\<rparr>))"

fun kl_update :: "real \<Rightarrow> nat \<Rightarrow> kl_controller \<Rightarrow> kl_controller result" where
  "kl_update current_kl n_steps (FixedKLController v) = Inr (FixedKLController v)"
| "kl_update current_kl n_steps (AdaptiveKLController c) =
     res_bind (adaptive_kl_update current_kl n_steps c) (\<lambda>c'. Inr (AdaptiveKLController c'))"

record kl_ctrl_config =
  ctrl_type :: string
  ctrl_kl_coef :: real
  ctrl_target_kl :: real
  ctrl_horizon :: real

definition get_kl_controller :: "kl_ctrl_config \<Rightarrow> kl_controller result" where
  "get_kl_controller cfg =
     (if ctrl_type cfg = ''fixed'' then Inr (FixedKLController (ctrl_kl_coef cfg))
      else if ctrl_type cfg = ''adaptive'' then
        res_bind (py_assert (ctrl_horizon cfg > 0)) (\<lambda>_.
          Inr (AdaptiveKLController
            \<lparr>kl_value = ctrl_kl_coef cfg, kl_target = ctrl_target_kl cfg, kl_horizon = ctrl_horizon cfg\<rparr>))
      else Inl NotImplementedError)"

section \<open>Generalised advantage estimation\<close>

text \<open>
  One row of the loop over \<open>reversed(range(gen_len))\<close>: the triples are reward, value and mask of each
  token, the result the advantages with the final \<open>nextvalues\<close> and \<open>lastgaelam\<close>.
\<close>

fun gae_row :: "real \<Rightarrow> real \<Rightarrow> (real \<times> real \<times> real) list \<Rightarrow> real list \<times> real \<times> real" where
  "gae_row \<gamma> lam [] = ([], 0, 0)"
| "gae_row \<gamma> lam ((r, v, m) # ts) =
     (let (advs, nextvalue, lastgaelam) = gae_row \<gamma> lam ts;
          \<delta> = r + \<gamma> * nextvalue - v;
          lastgaelam0 = \<delta> + \<gamma> * lam * lastgaelam;
          nextvalue' = v * m + (1 - m) * nextvalue;
          lastgaelam' = lastgaelam0 * m + (1 - m) * lastgaelam
      in (lastgaelam' # advs, nextvalue', lastgaelam'))"

definition compute_gae_advantage_return ::
  "mat \<Rightarrow> mat \<Rightarrow> mat \<Rightarrow> real \<Rightarrow> real \<Rightarrow> (mat \<times> mat) result" where
  "compute_gae_advantage_return rewards values msk \<gamma> lam =
     (let advantages = map (\<lambda>(r, v, m). fst (gae_row \<gamma> lam (zip r (zip v m)))) (zip rewards (zip values msk))
      in if rewards \<noteq> [] \<and> hd rewards = [] then Inl RuntimeError
         else
           let returns = mat_map2 (+) advantages values
           in res_bind (masked_whiten advantages msk True) (\<lambda>whitened. Inr (whitened, returns)))"

text \<open>The loops of REINFORCE++ (a return that restarts after masked tokens) and ReMax (rewards still to come).\<close>

fun reset_returns :: "real \<Rightarrow> (real \<times> real) list \<Rightarrow> real list \<times> real" where
  "reset_returns \<gamma> [] = ([], 0)"
| "reset_returns \<gamma> ((r, m) # ts) =
     (let (rets, running_return) = reset_returns \<gamma> ts;
          running_return' = r + \<gamma> * running_return
      in (running_return' # rets, running_return' * m))"

definition compute_reinforce_plus_plus_outcome_advantage :: "mat \<Rightarrow> mat \<Rightarrow> real \<Rightarrow> (mat \<times> mat) result" where
  "compute_reinforce_plus_plus_outcome_advantage rewards msk \<gamma> =
     (let returns = map2 (\<lambda>r m. fst (reset_returns \<gamma> (zip r m))) rewards msk
      in res_bind (masked_whiten returns msk True) (\<lambda>whitened.
           Inr (mat_map2 (*) whitened msk, returns)))"

fun cumsum :: "real \<Rightarrow> real list \<Rightarrow> real list" where
  "cumsum acc [] = []"
| "cumsum acc (x # xs) = (acc + x) # cumsum (acc + x) xs"

definition rewards_to_go :: "mat \<Rightarrow> mat \<Rightarrow> mat" where
  "rewards_to_go rewards msk = map (\<lambda>row. rev (cumsum 0 (rev row))) (mat_map2 (*) rewards msk)"

definition compute_remax_outcome_advantage :: "mat \<Rightarrow> real list \<Rightarrow> mat \<Rightarrow> mat \<times> mat" where
  "compute_remax_outcome_advantage rewards reward_baselines msk =
     (let returns = rewards_to_go rewards msk
      in (mat_map2 (-) returns (scale_rows reward_baselines msk), returns))"

section \<open>Estimators with a baseline per prompt\<close>

text \<open>\<open>id2score[index[i]].append(scores[i])\<close> on a \<open>defaultdict(list)\<close>, for all rows.\<close>

definition group_append :: "'k \<Rightarrow> 'a \<Rightarrow> ('k, 'a list) dict \<Rightarrow> ('k, 'a list) dict" where
  "group_append k x d = AList.update k (dict_get d k [] @ [x]) d"

definition group_rows :: "'k list \<Rightarrow> 'a list \<Rightarrow> ('k, 'a list) dict" where
  "group_rows index xs = fold (\<lambda>(k, x). group_append k x) (zip index xs) []"

text \<open>The loop over the groups: a constant for a group of one, a statistic for a larger one.\<close>

definition group_stat :: "'b \<Rightarrow> ('a list \<Rightarrow> 'b) \<Rightarrow> ('k, 'a list) dict \<Rightarrow> ('k, 'b) dict result" where
  "group_stat single f groups =
     res_map (\<lambda>(k, xs). if length xs = 1 then Inr (k, single)
                        else if length xs > 1 then Inr (k, f xs)
                        else Inl ValueError) groups"

definition compute_grpo_outcome_advantage ::
  "mat \<Rightarrow> mat \<Rightarrow> 'k list \<Rightarrow> real \<Rightarrow> bool \<Rightarrow> mat result" where
  "compute_grpo_outcome_advantage rewards msk index eps norm_by_std =
     (let scores = row_sums rewards in
      if length index < length scores then Inl IndexError
      else
        let id2score = group_rows index scores in
        res_bind (group_stat 0 torch_mean id2score) (\<lambda>id2mean.
        res_bind (group_stat 1 torch_std id2score) (\<lambda>id2std.
        res_bind (res_map (\<lambda>(k, s).
            res_bind (dict_index id2mean k) (\<lambda>mean.
            res_bind (dict_index id2std k) (\<lambda>std.
              Inr (if norm_by_std then (s - mean) / (std + eps) else s - mean))))
          (zip index scores)) (\<lambda>scalars.
        Inr (scale_rows scalars msk)))))"

definition gather_groups :: "'a list \<Rightarrow> int list \<Rightarrow> 'a list" where
  "gather_groups xs g = map (\<lambda>j. xs ! nat j) g"

definition compute_grpo_vectorized_outcome_advantage ::
  "('k :: linorder \<Rightarrow> int option) \<Rightarrow> mat \<Rightarrow> mat \<Rightarrow> 'k list \<Rightarrow> real \<Rightarrow> bool \<Rightarrow> mat result" where
  "compute_grpo_vectorized_outcome_advantage to_int rewards msk index eps norm_by_std =
     (let scores = row_sums rewards;
          g = as_torch_index to_int index
      in res_bind (group_mean_std scores g 0) (\<lambda>(mean_g, std_g, _).
           let centred = map2 (-) scores (gather_groups mean_g g);
               scalars = (if norm_by_std then map2 (\<lambda>d s. d / (s + eps)) centred (gather_groups std_g g) else centred)
           in Inr (scale_rows scalars msk)))"

definition compute_rloo_outcome_advantage :: "mat \<Rightarrow> mat \<Rightarrow> 'k list \<Rightarrow> mat result" where
  "compute_rloo_outcome_advantage rewards msk index =
     (let scores = row_sums rewards in
      if length index < length scores then Inl IndexError
      else
        let id2score = group_rows index scores in
        res_bind (group_stat 0 torch_mean id2score) (\<lambda>id2mean.
        res_bind (res_map (\<lambda>(k, s).
            res_bind (dict_index id2score k) (\<lambda>xs.
              let response_num = real (length xs)
              in if length xs > 1 then
                   res_bind (dict_index id2mean k) (\<lambda>mean.
                     Inr (s * response_num / (response_num - 1) - mean * response_num / (response_num - 1)))
                 else Inr s))
          (zip index scores)) (\<lambda>scalars.
        Inr (scale_rows scalars msk))))"

text \<open>\<open>torch.bincount\<close> of the group numbers, without and with weights.\<close>

definition bincount :: "int list \<Rightarrow> real list \<Rightarrow> real list" where
  "bincount ginv ws = index_add (if ginv = [] then 0 else nat (Max (set ginv) + 1)) ginv ws"

definition compute_rloo_vectorized_outcome_advantage :: "mat \<Rightarrow> mat \<Rightarrow> ('k :: linorder) list \<Rightarrow> mat" where
  "compute_rloo_vectorized_outcome_advantage rewards msk index =
     (let scores = row_sums rewards;
          ginv = np_unique_inverse index;
          c = gather_groups (bincount ginv (map (\<lambda>_. 1) ginv)) ginv;
          group_sum = gather_groups (bincount ginv scores) ginv;
          adv = map2 (\<lambda>(c, s) t. ((c * s - t) / max (c - 1) 1) * (if c > 1 then 1 else 0)) (zip c scores) group_sum
      in scale_rows adv msk)"

definition compute_opo_outcome_advantage :: "mat \<Rightarrow> mat \<Rightarrow> 'k list \<Rightarrow> mat result" where
  "compute_opo_outcome_advantage rewards msk index =
     (let response_length = row_sums msk;
          scores = row_sums rewards in
      if length index < length scores then Inl IndexError
      else
        let id2score = group_rows index scores;
            id2len = group_rows index response_length in
        res_bind (res_map (\<lambda>(k, xs).
            if length xs = 1 then Inr (k, 0)
            else if length xs > 1 then
              res_bind (dict_index id2len k) (\<lambda>ls.
                Inr (k, sum_list (map2 (*) ls xs) / sum_list ls))
            else Inl ValueError) id2score) (\<lambda>id2bsl.
        res_bind (res_map (\<lambda>(k, s). res_bind (dict_index id2bsl k) (\<lambda>bsl. Inr (s - bsl)))
          (zip index scores)) (\<lambda>scalars.
        Inr (scale_rows scalars msk))))"

definition compute_reinforce_plus_plus_baseline_outcome_advantage :: "mat \<Rightarrow> mat \<Rightarrow> 'k list \<Rightarrow> mat result" where
  "compute_reinforce_plus_plus_baseline_outcome_advantage rewards msk index =
     (let scores = row_sums rewards in
      if length index < length scores then Inl IndexError
      else
        let id2score = group_rows index scores in
        res_bind (group_stat 0 torch_mean id2score) (\<lambda>id2mean.
        res_bind (res_map (\<lambda>(k, s). res_bind (dict_index id2mean k) (\<lambda>mean. Inr (s - mean)))
          (zip index scores)) (\<lambda>scalars.
        res_bind (masked_whiten (scale_rows scalars msk) msk True) (\<lambda>whitened.
        Inr (mat_map2 (*) whitened msk)))))"

definition compute_gpg_outcome_advantage :: "mat \<Rightarrow> mat \<Rightarrow> 'k list \<Rightarrow> real \<Rightarrow> mat result" where
  "compute_gpg_outcome_advantage rewards msk index f_norm =
     (let scores = row_sums rewards;
          m = length (filter (\<lambda>s. s \<noteq> 0) scores);
          alpha = real (length scores) / real (max m 1) in
      if length index < length scores then Inl IndexError
      else
        let id2score = group_rows index scores in
        res_bind (group_stat 0 torch_mean id2score) (\<lambda>id2mean.
        res_bind (res_map (\<lambda>(k, s). res_bind (dict_index id2mean k) (\<lambda>mean. Inr (alpha * (s - mean) / f_norm)))
          (zip index scores)) (\<lambda>scalars.
        Inr (scale_rows scalars msk))))"

text \<open>
  GDPO: one GRPO advantage per reward component, weighted, added up and whitened. The inputs of the
  per-component mode are the reward keys and weights of the configuration, the columns of the non-tensor
  batch, the prompt length and the attention mask.
\<close>

record gdpo_inputs =
  gdpo_reward_keys :: "string list option"
  gdpo_reward_weights :: "real list option"
  gdpo_columns :: "(string, real list) dict"
  gdpo_prompt_length :: nat
  gdpo_attention_mask :: mat

text \<open>\<open>rm_scores[arange, valid_response_length] = rm_score\<close> on a matrix of zeros; \<open>-1\<close> is the last column.\<close>

definition put_score :: "nat \<Rightarrow> int \<Rightarrow> real \<Rightarrow> real list result" where
  "put_score width pos s =
     (if - int width \<le> pos \<and> pos < int width
      then Inr ((replicate width 0)[nat (if pos < 0 then pos + int width else pos) := s])
      else Inl IndexError)"

definition gdpo_score_matrix :: "gdpo_inputs \<Rightarrow> mat \<Rightarrow> string \<Rightarrow> mat result" where
  "gdpo_score_matrix inp msk key =
     res_bind (py_assert (map_of (gdpo_columns inp) key \<noteq> None)) (\<lambda>_.
       let rm_score = dict_get (gdpo_columns inp) key [];
           valid_len = map (\<lambda>row. \<lfloor>sum_list (drop (gdpo_prompt_length inp) row)\<rfloor> - 1) (gdpo_attention_mask inp)
       in res_map (\<lambda>(row, pos, s). put_score (length row) pos s) (zip msk (zip valid_len rm_score)))"

definition gdpo_score_list :: "gdpo_inputs option \<Rightarrow> mat \<Rightarrow> mat \<Rightarrow> (mat list \<times> real list option) result" where
  "gdpo_score_list inputs rewards msk =
     (case inputs of
        None \<Rightarrow> Inr ([rewards], None)
      | Some inp \<Rightarrow>
          (case gdpo_reward_keys inp of
             None \<Rightarrow> Inl AssertionError
           | Some ks \<Rightarrow>
               res_bind (py_assert (ks \<noteq> [])) (\<lambda>_.
               res_bind (res_map (gdpo_score_matrix inp msk) ks) (\<lambda>score_list.
                 Inr (score_list, gdpo_reward_weights inp)))))"

fun gdpo_weighted_sum :: "mat option \<Rightarrow> (mat \<Rightarrow> mat result) \<Rightarrow> real list \<Rightarrow> mat list \<Rightarrow> mat option result" where
  "gdpo_weighted_sum acc grpo ws [] = Inr acc"
| "gdpo_weighted_sum acc grpo ws (s # ss) =
     res_bind (grpo s) (\<lambda>normalized.
       case ws of
         [] \<Rightarrow> Inl IndexError
       | w # ws' \<Rightarrow>
           let term = map (map (\<lambda>x. w * x)) normalized
           in gdpo_weighted_sum (Some (case acc of None \<Rightarrow> term | Some a \<Rightarrow> mat_map2 (+) a term)) grpo ws' ss)"

definition compute_gdpo_outcome_advantage ::
  "gdpo_inputs option \<Rightarrow> mat \<Rightarrow> mat \<Rightarrow> 'k list \<Rightarrow> real \<Rightarrow> bool \<Rightarrow> mat result" where
  "compute_gdpo_outcome_advantage inputs rewards msk index eps norm_by_std =
     res_bind (gdpo_score_list inputs rewards msk) (\<lambda>(score_list, reward_weights).
       let weights = (case reward_weights of None \<Rightarrow> replicate (length score_list) 1 | Some ws \<Rightarrow> ws)
       in res_bind (gdpo_weighted_sum None (\<lambda>s. compute_grpo_outcome_advantage s msk index eps norm_by_std)
              weights score_list) (\<lambda>total.
          case total of
            None \<Rightarrow> Inl TypeError
          | Some a \<Rightarrow> res_bind (masked_whiten a msk True) (\<lambda>whitened. Inr (mat_map2 (*) whitened msk))))"

text \<open>
  Pass@k: only the best response of a group has an advantage. \<open>torch.topk\<close> breaks ties in a way it does not
  document, so the positions of the two largest rewards are the parameter \<open>top2\<close>. The configuration is the
  value of its entry \<open>norm_adv_by_std_in_grpo\<close>, \<open>None\<close> when there is no configuration.
\<close>

definition top2_ok :: "(real list \<Rightarrow> nat \<times> nat) \<Rightarrow> bool" where
  "top2_ok top2 \<longleftrightarrow>
     (\<forall>xs. 2 \<le> length xs \<longrightarrow> (let (i, j) = top2 xs in
        i < length xs \<and> j < length xs \<and> i \<noteq> j \<and> xs ! j \<le> xs ! i \<and>
        (\<forall>k < length xs. k \<noteq> i \<longrightarrow> xs ! k \<le> xs ! j)))"

definition compute_grpo_passk_outcome_advantage ::
  "(real list \<Rightarrow> nat \<times> nat) \<Rightarrow> bool option option \<Rightarrow> mat \<Rightarrow> mat \<Rightarrow> 'k list \<Rightarrow> real \<Rightarrow> mat result" where
  "compute_grpo_passk_outcome_advantage top2 config rewards msk index eps =
     res_bind (py_assert (config \<noteq> None)) (\<lambda>_.
       let norm_by_std = (case config of Some (Some b) \<Rightarrow> b | _ \<Rightarrow> True);
           scores = row_sums rewards in
       if length index < length scores then Inl IndexError
       else
         let id2scores = group_rows index scores;
             id2indices = group_rows index [0..<length scores] in
         res_bind (res_fold (\<lambda>(k, rs) advantages.
             if length rs < 2 then Inl ValueError
             else
               let (best, second) = top2 rs;
                   advantage = rs ! best - rs ! second;
                   advantage' = (if norm_by_std then advantage / (torch_std rs + eps) else advantage)
               in res_bind (dict_index id2indices k) (\<lambda>is. Inr (advantages[is ! best := advantage'])))
           id2scores (replicate (length scores) 0)) (\<lambda>advantages.
         Inr (scale_rows advantages msk)))"

section \<open>Optimal token baselines\<close>

text \<open>
  The cumulative path variance of a row, \<open>(1 - 2 * exp(old_log_probs) + sum_pi_squared) * mask\<close> summed up from the
  left, scaled by the squared importance weights when they are given.
\<close>

definition path_variance :: "mat \<Rightarrow> mat \<Rightarrow> mat option \<Rightarrow> mat \<Rightarrow> mat" where
  "path_variance old_log_probs sum_pi_squared rollout_is_weights msk =
     (let w = mat_map2 (\<lambda>lp sp. 1 - 2 * exp lp + sp) old_log_probs sum_pi_squared;
          w' = (case rollout_is_weights of None \<Rightarrow> w | Some rho \<Rightarrow> mat_map2 (\<lambda>x r. x * r ^ 2) w rho)
      in map (cumsum 0) (mat_map2 (*) w' msk))"

text \<open>
  \<open>handle_zero_tail\<close>: when one response of the group is strictly longer than all others, its baseline is set
  to zero beyond the second longest. \<open>lens\<close> are the lengths of the group, in the order of its rows \<open>idxs\<close>.
\<close>

definition zero_tail :: "nat list \<Rightarrow> real list \<Rightarrow> mat \<Rightarrow> mat" where
  "zero_tail idxs lens baselines =
     (let sorted_lengths = sort lens;
          max_length = \<lfloor>last sorted_lengths\<rfloor>;
          second_max_length = \<lfloor>sorted_lengths ! (length lens - 2)\<rfloor>;
          longest = filter (\<lambda>p. lens ! p = of_int max_length) [0..<length lens]
      in if length longest = 1 \<and> max_length > second_max_length then
           let i = idxs ! hd longest;
               cut = nat second_max_length
           in baselines[i := take cut (baselines ! i) @ replicate (length (baselines ! i) - cut) 0]
         else baselines)"

definition otb_group_step :: "bool \<Rightarrow> real \<Rightarrow> mat \<Rightarrow> mat \<Rightarrow> mat \<Rightarrow> nat \<Rightarrow> nat list \<Rightarrow> mat \<Rightarrow> mat" where
  "otb_group_step handle_zero_tail eps returns w msk width idxs baselines =
     (if length idxs = 1 then baselines
      else
        let numerator = map (\<lambda>t. \<Sum>i \<leftarrow> idxs. returns ! i ! t * w ! i ! t * msk ! i ! t) [0..<width];
            denominator = map (\<lambda>t. (\<Sum>i \<leftarrow> idxs. w ! i ! t * msk ! i ! t) + eps) [0..<width];
            baseline_per_step = map2 (/) numerator denominator;
            assigned = fold (\<lambda>i b. b[i := baseline_per_step]) idxs baselines
        in if handle_zero_tail then zero_tail idxs (map (\<lambda>i. sum_list (msk ! i)) idxs) assigned else assigned)"

definition compute_optimal_token_baseline_advantage ::
  "mat \<Rightarrow> mat \<Rightarrow> 'k list \<Rightarrow> mat \<Rightarrow> mat \<Rightarrow> mat option \<Rightarrow> bool \<Rightarrow> real \<Rightarrow> (mat \<times> mat) result" where
  "compute_optimal_token_baseline_advantage rewards msk index old_log_probs sum_pi_squared rollout_is_weights
     handle_zero_tail eps =
     (let n = length rewards;
          width = (case rewards of [] \<Rightarrow> 0 | row # _ \<Rightarrow> length row);
          returns = rewards_to_go rewards msk;
          w = path_variance old_log_probs sum_pi_squared rollout_is_weights msk
      in if length index < n then Inl IndexError
         else
           let prompt_groups = group_rows index [0..<n];
               baselines = fold (\<lambda>(_, idxs). otb_group_step handle_zero_tail eps returns w msk width idxs)
                 prompt_groups (replicate n (replicate width 0))
           in Inr (mat_map2 (*) (mat_map2 (-) returns baselines) msk, returns))"

text \<open>
  The multi-turn variant first moves the response tokens of every row to the front, where the observation
  tokens between the turns are left out, and moves the advantages back at the end.
\<close>

definition select_masked :: "real list \<Rightarrow> 'a list \<Rightarrow> 'a list" where
  "select_masked msk xs = map snd (filter (\<lambda>(m, _). m \<noteq> 0) (zip msk xs))"

fun scatter_masked :: "real list \<Rightarrow> real list \<Rightarrow> real list" where
  "scatter_masked [] xs = []"
| "scatter_masked (m # ms) xs =
     (if m \<noteq> 0 then (case xs of [] \<Rightarrow> 0 | x # _ \<Rightarrow> x) # scatter_masked ms (tl xs)
      else 0 # scatter_masked ms xs)"

definition tir_group_step :: "bool \<Rightarrow> real \<Rightarrow> mat \<Rightarrow> mat \<Rightarrow> real list \<Rightarrow> nat \<Rightarrow> nat list \<Rightarrow> mat \<Rightarrow> mat" where
  "tir_group_step handle_zero_tail eps all_returns all_w lens width idxs baselines =
     (if length idxs = 1 then baselines[hd idxs := replicate width 0]
      else
        let b_star = map (\<lambda>t. (\<Sum>i \<leftarrow> idxs. all_returns ! i ! t * all_w ! i ! t) /
                              ((\<Sum>i \<leftarrow> idxs. all_w ! i ! t) + eps)) [0..<width];
            assigned = fold (\<lambda>i b. b[i := b_star]) idxs baselines
        in if handle_zero_tail then zero_tail idxs (map ((!) lens) idxs) assigned else assigned)"

definition compute_multi_turn_optimal_token_baseline_advantage ::
  "mat \<Rightarrow> mat \<Rightarrow> 'k list \<Rightarrow> mat \<Rightarrow> mat \<Rightarrow> mat option \<Rightarrow> bool \<Rightarrow> real \<Rightarrow> (mat \<times> mat) result" where
  "compute_multi_turn_optimal_token_baseline_advantage rewards msk index old_log_probs sum_pi_squared rollout_is_weights
     handle_zero_tail eps =
     (let n = length rewards;
          token_returns = rewards_to_go rewards msk;
          w = path_variance old_log_probs sum_pi_squared rollout_is_weights msk;
          lens = row_sums msk;
          width = (if lens = [] then 0 else nat \<lfloor>Max (set lens)\<rfloor>);
          pack = (\<lambda>a. map2 (\<lambda>m row. let xs = select_masked m row in xs @ replicate (width - length xs) 0) msk a);
          all_w = pack w;
          all_returns = pack token_returns;
          rows = filter (\<lambda>i. lens ! i \<noteq> 0) [0..<n]
      in if list_ex (\<lambda>i. length index \<le> i) rows then Inl IndexError
         else
           let prompt_groups = group_rows (map ((!) index) rows) rows;
               baselines = fold (\<lambda>(_, idxs). tir_group_step handle_zero_tail eps all_returns all_w lens width idxs)
                 prompt_groups (replicate n (replicate width 0));
               all_advantages = mat_map2 (-) all_returns baselines;
               advantages = map2 scatter_masked msk all_advantages
           in Inr (mat_map2 (*) advantages msk, token_returns))"

section \<open>Rows of a group\<close>

text \<open>The elements of the rows with a given label, in row order.\<close>

definition group_of :: "'k list \<Rightarrow> 'a list \<Rightarrow> 'k \<Rightarrow> 'a list" where
  "group_of index xs k = map snd (filter (\<lambda>(k', _). k' = k) (zip index xs))"

lemma map_of_group_fold:
  "map_of (fold (\<lambda>(k, x). group_append k x) ps []) k =
     (let ys = map snd (filter (\<lambda>(k', _). k' = k) ps) in if ys = [] then None else Some ys)"
proof (induction ps rule: rev_induct)
  case (snoc p ps)
  obtain k' x where "p = (k', x)" by (cases p)
  with snoc show ?case by (auto simp: group_append_def dict_get_def Let_def filter_empty_conv)
qed simp

lemma map_of_group_rows:
  "map_of (group_rows index xs) k = (if group_of index xs k = [] then None else Some (group_of index xs k))"
  by (simp add: group_rows_def map_of_group_fold group_of_def Let_def)

lemma dict_wf_group_rows: "dict_wf (group_rows index xs)"
proof -
  have "dict_wf (fold (\<lambda>(k, x). group_append k x) ps d)" if "dict_wf d" for ps :: "('a \<times> 'b) list" and d
    using that
  proof (induction ps arbitrary: d)
    case (Cons p ps)
    obtain k x where p: "p = (k, x)" by (cases p)
    from Cons.prems have "dict_wf (group_append k x d)" by (simp add: group_append_def)
    from Cons.IH[OF this] show ?case by (simp add: p)
  qed simp
  then show ?thesis by (simp add: group_rows_def)
qed

lemma group_rows_entry:
  assumes "(k, ys) \<in> set (group_rows index xs)"
  shows "ys = group_of index xs k" "ys \<noteq> []"
proof -
  have "map_of (group_rows index xs) k = Some ys"
    using assms by (rule dict_wf_map_of[OF dict_wf_group_rows, THEN iffD1])
  then have "ys = group_of index xs k \<and> ys \<noteq> []" by (cases "group_of index xs k = []") (simp_all add: map_of_group_rows)
  then show "ys = group_of index xs k" "ys \<noteq> []" by blast+
qed

lemma group_of_member: "(k, x) \<in> set (zip index xs) \<Longrightarrow> x \<in> set (group_of index xs k)"
  by (auto simp: group_of_def image_iff intro!: bexI[of _ "(k, x)"])

lemma group_of_nonempty: "(k, x) \<in> set (zip index xs) \<Longrightarrow> group_of index xs k \<noteq> []"
  by (drule group_of_member) auto

lemma group_of_map: "group_of index (map f xs) k = map f (group_of index xs k)"
  by (simp add: group_of_def zip_map2 filter_map comp_def case_prod_unfold)

lemma group_of_index_map:
  "inj_on h (insert k (set index)) \<Longrightarrow> group_of (map h index) xs (h k) = group_of index xs k"
proof (induction index xs rule: list_induct2')
  case (4 a as b bs)
  then have "inj_on h (insert k (set as))" by (auto simp: inj_on_def)
  with 4 show ?case by (auto simp: group_of_def inj_on_def)
qed (auto simp: group_of_def)

lemma group_of_paired:
  "length index = length xs \<Longrightarrow> group_of index (map2 (\<lambda>x k. f x k) xs index) k = map (\<lambda>x. f x k) (group_of index xs k)"
  by (induction index xs rule: list_induct2) (auto simp: group_of_def)

text \<open>The grouped statistics of the loops, in closed form.\<close>

definition row_stat :: "'b \<Rightarrow> ('a list \<Rightarrow> 'b) \<Rightarrow> 'a list \<Rightarrow> 'b" where
  "row_stat single f xs = (if length xs = 1 then single else f xs)"

lemma group_stat_rows:
  "\<exists>d. group_stat single f (group_rows index xs) = Inr d \<and>
       (\<forall>k x. (k, x) \<in> set (zip index xs) \<longrightarrow> map_of d k = Some (row_stat single f (group_of index xs k)))"
proof (intro exI conjI allI impI)
  let ?d = "map (\<lambda>(k, ys). (k, row_stat single f ys)) (group_rows index xs)"
  show "group_stat single f (group_rows index xs) = Inr ?d"
    unfolding group_stat_def
  proof (rule res_map_all_Inr)
    fix p assume "p \<in> set (group_rows index xs)"
    moreover obtain k ys where "p = (k, ys)" by (cases p)
    ultimately show "(case p of (k, xs) \<Rightarrow> if length xs = 1 then Inr (k, single)
        else if length xs > 1 then Inr (k, f xs) else Inl ValueError) = Inr ((\<lambda>(k, ys). (k, row_stat single f ys)) p)"
      using group_rows_entry(2)[of k ys index xs] by (cases ys rule: remdups_adj.cases) (auto simp: row_stat_def)
  qed
  fix k x assume "(k, x) \<in> set (zip index xs)"
  then show "map_of ?d k = Some (row_stat single f (group_of index xs k))"
    using group_of_nonempty[of k x index xs] by (simp add: map_of_map map_of_group_rows)
qed

lemma row_loop:
  assumes "\<And>k s. (k, s) \<in> set (zip index scores) \<Longrightarrow> g (k, s) = Inr (h (k, s))"
  shows "res_bind (res_map g (zip index scores)) c = c (map h (zip index scores))"
  using assms by (subst res_map_all_Inr[where g = h]) auto

lemma grpo_closed_form:
  fixes rewards :: mat and index :: "'k list"
  defines "scores \<equiv> row_sums rewards"
  assumes "length rewards \<le> length index"
  shows "compute_grpo_outcome_advantage rewards msk index eps norm_by_std =
    Inr (scale_rows (map (\<lambda>(k, s).
        let d = s - row_stat 0 torch_mean (group_of index scores k)
        in if norm_by_std then d / (row_stat 1 torch_std (group_of index scores k) + eps) else d) (zip index scores)) msk)"
proof -
  obtain m where m: "group_stat 0 torch_mean (group_rows index scores) = Inr m"
    "\<And>k x. (k, x) \<in> set (zip index scores) \<Longrightarrow> map_of m k = Some (row_stat 0 torch_mean (group_of index scores k))"
    using group_stat_rows[of 0 torch_mean index scores] by blast
  obtain sd where sd: "group_stat 1 torch_std (group_rows index scores) = Inr sd"
    "\<And>k x. (k, x) \<in> set (zip index scores) \<Longrightarrow> map_of sd k = Some (row_stat 1 torch_std (group_of index scores k))"
    using group_stat_rows[of 1 torch_std index scores] by blast
  show ?thesis
    using assms(2) m(1) sd(1)
    by (simp add: compute_grpo_outcome_advantage_def scores_def[symmetric])
       (subst row_loop[where h = "\<lambda>(k, s). let d = s - row_stat 0 torch_mean (group_of index scores k)
          in if norm_by_std then d / (row_stat 1 torch_std (group_of index scores k) + eps) else d"],
        simp_all add: dict_index_def m(2) sd(2) Let_def scores_def row_sums_def)
qed

section \<open>The vectorised group statistics\<close>

lemma index_add_nth: "k < g \<Longrightarrow> index_add g gidx xs ! k = sum_list (group_of gidx xs (int k))"
proof -
  have "(\<Sum>(j, x) \<leftarrow> zip gidx xs. if j = int k then x else 0) = sum_list (group_of gidx xs (int k))"
    by (induction gidx xs rule: list_induct2') (auto simp: group_of_def)
  then show "k < g \<Longrightarrow> index_add g gidx xs ! k = sum_list (group_of gidx xs (int k))"
    by (simp add: index_add_def)
qed

lemma length_index_add [simp]: "length (index_add g gidx xs) = g"
  by (simp add: index_add_def)

lemma group_of_ones: "sum_list (group_of index (map (\<lambda>_. 1 :: real) xs) k) = real (length (group_of index xs k))"
  by (simp add: group_of_map sum_list_triv)

text \<open>The group numbers are an injective function of the labels.\<close>

definition rank :: "('k :: linorder) list \<Rightarrow> 'k \<Rightarrow> int" where
  "rank xs x = int (length (filter (\<lambda>y. y < x) (np_unique xs)))"

lemma rank_less: "x \<in> set xs \<Longrightarrow> x < y \<Longrightarrow> rank xs x < rank xs y"
proof -
  assume x: "x \<in> set xs" "x < y"
  have "set (filter (\<lambda>z. z < x) (np_unique xs)) \<subset> set (filter (\<lambda>z. z < y) (np_unique xs))"
    using x by (auto simp: np_unique_def)
  then have "card (set (filter (\<lambda>z. z < x) (np_unique xs))) < card (set (filter (\<lambda>z. z < y) (np_unique xs)))"
    by (intro psubset_card_mono) auto
  then show "rank xs x < rank xs y"
    by (simp add: rank_def np_unique_def distinct_card[symmetric])
qed

lemma inj_rank: "inj_on (rank xs) (set xs)"
  by (rule inj_onI) (metis less_irrefl linorder_neqE rank_less)

definition labels_kept_apart :: "('k \<Rightarrow> int option) \<Rightarrow> 'k list \<Rightarrow> bool" where
  "labels_kept_apart to_int index \<longleftrightarrow>
     list_ex (\<lambda>l. to_int l = None) index \<or>
     distinct (map to_int (remdups index)) \<and> list_all (\<lambda>l. 0 \<le> the (to_int l)) index"

lemma as_torch_index_labels:
  assumes "labels_kept_apart to_int index"
  obtains h where "as_torch_index to_int index = map h index" "inj_on h (set index)" "\<forall>k \<in> set index. 0 \<le> h k"
proof (cases "list_all (\<lambda>l. to_int l \<noteq> None) index")
  case True
  then have *: "\<not> list_ex (\<lambda>l. to_int l = None) index" by (auto simp: list_all_iff list_ex_iff)
  with assms have inj: "inj_on to_int (set index)" by (auto simp: labels_kept_apart_def distinct_map)
  have "inj_on (\<lambda>l. the (to_int l)) (set index)"
  proof (rule inj_onI)
    fix a b assume ab: "a \<in> set index" "b \<in> set index" "the (to_int a) = the (to_int b)"
    with True have "to_int a = to_int b" by (auto simp: list_all_iff) (metis option.sel ab(1,2))
    with inj ab show "a = b" by (auto dest: inj_onD)
  qed
  with True assms * show ?thesis
    by (intro that[of "\<lambda>l. the (to_int l)"]) (auto simp: as_torch_index_def labels_kept_apart_def list_all_iff)
next
  case False
  then show ?thesis
    by (intro that[of "rank index"]) (auto simp: as_torch_index_def np_unique_inverse_def rank_def[abs_def] inj_rank[unfolded rank_def[abs_def]])
qed

lemma max_group:
  assumes "index \<noteq> []" "\<forall>k \<in> set index. 0 \<le> h k"
  shows "k \<in> set index \<Longrightarrow> nat (h k) < nat (Max (set (map h index)) + 1)" "0 < Max (set (map h index)) + 1"
proof -
  have le: "h k \<le> Max (set (map h index))" if "k \<in> set index" for k :: 'a
    using that by (intro Max_ge) auto
  show "nat (h k) < nat (Max (set (map h index)) + 1)" if "k \<in> set index"
    using le[OF that] assms(2) that by (smt (verit) zless_nat_conj nat_less_eq_zless)
  obtain k' where "k' \<in> set index" using assms(1) by (cases index) auto
  with le[of k'] assms(2) have "0 \<le> Max (set (map h index))" by (meson order_trans)
  then show "0 < Max (set (map h index)) + 1" by simp
qed

lemma group_mean_std_labels:
  assumes h: "inj_on h (set index)" "\<forall>k \<in> set index. 0 \<le> h k"
    and len: "length scores = length index" "index \<noteq> []"
  obtains mean std cnt where "group_mean_std scores (map h index) 0 = Inr (mean, std, cnt)"
    "\<And>k. k \<in> set index \<Longrightarrow> mean ! nat (h k) = row_stat 0 torch_mean (group_of index scores k)"
    "\<And>k. k \<in> set index \<Longrightarrow> std ! nat (h k) = row_stat 1 torch_std (group_of index scores k)"
proof -
  define g where "g = nat (Max (set (map h index)) + 1)"
  define cnt where "cnt = index_add g (map h index) (map (\<lambda>_. 1) scores)"
  define mean where "mean = map2 (\<lambda>s c. s / max c 1) (index_add g (map h index) scores) cnt"
  define cen where "cen = map2 (\<lambda>x j. x - mean ! nat j) scores (map h index)"
  define var where "var = map2 (\<lambda>v c. v / max (c - 1) 1) (index_add g (map h index) (map (\<lambda>c. c * c) cen)) cnt"
  let ?std = "map (\<lambda>v. sqrt (max v 0)) var"
  have lens: "length cnt = g" "length mean = g" "length var = g"
    by (simp_all add: cnt_def mean_def var_def)
  have res: "group_mean_std scores (map h index) 0 =
      Inr (map2 (\<lambda>m c. if c \<le> 1 then 0 else m) mean cnt, map2 (\<lambda>s c. if c \<le> 1 then 1 else s) ?std cnt, cnt)"
    using len max_group(2)[OF len(2) h(2)] h(2)
    by (simp add: group_mean_std_def Let_def list_ex_iff cnt_def mean_def cen_def var_def g_def not_less)
  have vals: "mean ! nat (h k) = torch_mean (group_of index scores k)"
    "cnt ! nat (h k) = real (length (group_of index scores k))"
    "var ! nat (h k) = (\<Sum>x \<leftarrow> group_of index scores k. (x - torch_mean (group_of index scores k)) ^ 2) /
       max (real (length (group_of index scores k)) - 1) 1"
    "1 \<le> length (group_of index scores k)" "nat (h k) < g" if k: "k \<in> set index" for k
  proof -
    have inj: "inj_on h (insert k (set index))" using h(1) k by (simp add: insert_absorb)
    have grp: "group_of (map h index) xs (h k) = group_of index xs k" for xs :: "real list"
      using group_of_index_map[OF inj] .
    show kg: "nat (h k) < g" using max_group(1)[OF len(2) h(2) k] by (simp add: g_def)
    have hk: "0 \<le> h k" using h(2) k by simp
    show c: "cnt ! nat (h k) = real (length (group_of index scores k))"
      using kg by (simp add: cnt_def index_add_nth hk grp group_of_ones)
    obtain i where i: "i < length index" "index ! i = k" using k by (auto simp: in_set_conv_nth)
    then have "(k, scores ! i) \<in> set (zip index scores)" using len by (auto simp: set_zip)
    then show ge: "1 \<le> length (group_of index scores k)"
      using group_of_nonempty by (cases "group_of index scores k") fastforce+
    then show m: "mean ! nat (h k) = torch_mean (group_of index scores k)"
      using kg c lens(1) by (simp add: mean_def index_add_nth hk grp torch_mean_def max_def)
    have "group_of (map h index) cen (h k) = map (\<lambda>x. x - mean ! nat (h k)) (group_of (map h index) scores (h k))"
      unfolding cen_def by (rule group_of_paired) (simp add: len)
    then have "group_of (map h index) (map (\<lambda>c. c * c) cen) (h k) =
        map (\<lambda>x. (x - torch_mean (group_of index scores k)) * (x - torch_mean (group_of index scores k))) (group_of index scores k)"
      by (simp add: group_of_map grp m comp_def)
    then show "var ! nat (h k) = (\<Sum>x \<leftarrow> group_of index scores k. (x - torch_mean (group_of index scores k)) ^ 2) /
       max (real (length (group_of index scores k)) - 1) 1"
      using kg c lens(1) by (simp add: var_def index_add_nth hk power2_eq_square)
  qed
  show ?thesis
  proof (rule that[OF res])
    fix k assume k: "k \<in> set index"
    note v = vals[OF k]
    have ge: "0 \<le> (\<Sum>x \<leftarrow> group_of index scores k. (x - torch_mean (group_of index scores k)) ^ 2)"
      by (intro sum_list_nonneg) auto
    show "map2 (\<lambda>m c. if c \<le> 1 then 0 else m) mean cnt ! nat (h k) = row_stat 0 torch_mean (group_of index scores k)"
      using v lens by (auto simp: row_stat_def)
    show "map2 (\<lambda>s c. if c \<le> 1 then 1 else s) ?std cnt ! nat (h k) = row_stat 1 torch_std (group_of index scores k)"
      using v lens divide_nonneg_nonneg[OF ge, of "max (real (length (group_of index scores k)) - 1) 1"]
      by (simp add: row_stat_def torch_std_def max_def[of _ 1] max_absorb1 split: if_splits)
  qed
qed

section \<open>The estimators with a baseline per prompt\<close>

lemma row_sums_length [simp]: "length (row_sums a) = length a"
  by (simp add: row_sums_def)

text \<open>
  The vectorised GRPO estimator computes the same advantages as the loop over the prompts, with and without
  the normalisation by the standard deviation, as long as the labels of different prompts get different group
  numbers (always when some label is not an integer, as for uuids; otherwise when the integers differ and none
  is negative).
\<close>

theorem grpo_vectorized_agrees:
  assumes "length index = length rewards" "labels_kept_apart to_int index"
  shows "compute_grpo_vectorized_outcome_advantage to_int rewards msk index eps norm_by_std =
         compute_grpo_outcome_advantage rewards msk index eps norm_by_std"
proof (cases "index = []")
  case True
  with assms(1) have "rewards = []" by simp
  with True show ?thesis
    by (subst grpo_closed_form)
       (simp_all add: compute_grpo_vectorized_outcome_advantage_def as_torch_index_def group_mean_std_def
          gather_groups_def row_sums_def scale_rows_def)
next
  case False
  let ?s = "row_sums rewards"
  obtain h where h: "as_torch_index to_int index = map h index" "inj_on h (set index)" "\<forall>k \<in> set index. 0 \<le> h k"
    using as_torch_index_labels[OF assms(2)] .
  obtain mean std cnt where g: "group_mean_std ?s (map h index) 0 = Inr (mean, std, cnt)"
    "\<And>k. k \<in> set index \<Longrightarrow> mean ! nat (h k) = row_stat 0 torch_mean (group_of index ?s k)"
    "\<And>k. k \<in> set index \<Longrightarrow> std ! nat (h k) = row_stat 1 torch_std (group_of index ?s k)"
    using group_mean_std_labels[OF h(2,3), of ?s] assms(1) False by (metis row_sums_length)
  show ?thesis
    using assms(1)
    by (simp add: compute_grpo_vectorized_outcome_advantage_def grpo_closed_form h(1) g(1) Let_def)
       (intro conjI impI arg_cong[where f = "\<lambda>x. scale_rows x msk"] nth_equalityI;
        simp add: gather_groups_def g(2,3))
qed

text \<open>Two prompts with two and one responses, labelled by the first letter of their uid.\<close>

definition demo_rewards :: mat where
  "demo_rewards = [[0, 1], [1, 2], [0, 4]]"

definition demo_mask :: mat where
  "demo_mask = [[1, 1], [1, 0], [1, 1]]"

lemma grpo_vectorized_agrees_witness:
  "compute_grpo_vectorized_outcome_advantage (\<lambda>_. None) demo_rewards demo_mask ''aba'' 1 True =
   compute_grpo_outcome_advantage demo_rewards demo_mask ''aba'' 1 True"
  by (rule grpo_vectorized_agrees) (simp_all add: demo_rewards_def labels_kept_apart_def)

lemma sum_list_deviations: "xs \<noteq> [] \<Longrightarrow> (\<Sum>x \<leftarrow> xs. x - torch_mean xs) = 0"
  by (simp add: sum_list_subtractf torch_mean_def sum_list_triv)

text \<open>
  GRPO judges a response against the other responses to its prompt. Every row of the result is one number
  times the mask; over the responses to a prompt that has several, these numbers add up to zero, whatever the
  normalisation, and the only response to a prompt keeps its score (divided by \<open>1 + eps\<close> when normalised).
\<close>

theorem grpo_group_relative:
  assumes "length index = length rewards"
  shows "\<exists>adv. compute_grpo_outcome_advantage rewards msk index eps norm_by_std = Inr (scale_rows adv msk) \<and>
    length adv = length rewards \<and>
    (\<forall>k. 2 \<le> length (group_of index adv k) \<longrightarrow> sum_list (group_of index adv k) = 0) \<and>
    (\<forall>k s. group_of index (row_sums rewards) k = [s] \<longrightarrow>
       group_of index adv k = [if norm_by_std then s / (1 + eps) else s])"
proof -
  let ?s = "row_sums rewards"
  define f where "f = (\<lambda>s k. let d = s - row_stat 0 torch_mean (group_of index ?s k)
    in if norm_by_std then d / (row_stat 1 torch_std (group_of index ?s k) + eps) else d)"
  define adv where "adv = map2 f ?s index"
  have "compute_grpo_outcome_advantage rewards msk index eps norm_by_std = Inr (scale_rows adv msk)"
    using assms by (simp add: grpo_closed_form adv_def f_def)
      (rule arg_cong[where f = "\<lambda>x. scale_rows x msk"], rule nth_equalityI, auto)
  moreover have grp: "group_of index adv k = map (\<lambda>x. f x k) (group_of index ?s k)" for k
    unfolding adv_def by (rule group_of_paired) (simp add: assms)
  moreover have "sum_list (group_of index adv k) = 0" if "2 \<le> length (group_of index adv k)" for k
  proof -
    let ?g = "group_of index ?s k" and ?q = "if norm_by_std then torch_std (group_of index ?s k) + eps else 1"
    have g: "length ?g \<noteq> 1" "?g \<noteq> []" using that by (auto simp: grp)
    have "(\<lambda>x. f x k) = (\<lambda>x. (x - torch_mean ?g) * (1 / ?q))"
      using g(1) by (auto simp: f_def row_stat_def Let_def)
    then have "sum_list (group_of index adv k) = (\<Sum>x \<leftarrow> ?g. (x - torch_mean ?g) * (1 / ?q))"
      unfolding grp by presburger
    also have "\<dots> = (\<Sum>x \<leftarrow> ?g. x - torch_mean ?g) * (1 / ?q)" by (rule sum_list_mult_const)
    finally show ?thesis using sum_list_deviations[OF g(2)] by simp
  qed
  ultimately show ?thesis
    using assms by (intro exI[of _ adv]) (auto simp: adv_def f_def row_stat_def Let_def)
qed

lemma grpo_group_relative_witness:
  "\<exists>adv. compute_grpo_outcome_advantage demo_rewards demo_mask ''aba'' 1 False = Inr (scale_rows adv demo_mask) \<and>
    length adv = length demo_rewards \<and>
    (\<forall>k. 2 \<le> length (group_of ''aba'' adv k) \<longrightarrow> sum_list (group_of ''aba'' adv k) = 0) \<and>
    (\<forall>k s. group_of ''aba'' (row_sums demo_rewards) k = [s] \<longrightarrow> group_of ''aba'' adv k = [s])"
  using grpo_group_relative[of "''aba''" demo_rewards demo_mask 1 False] by (simp add: demo_rewards_def[THEN arg_cong[of _ _ length]])

text \<open>The scores of the other responses to the prompt of row \<open>i\<close>.\<close>

definition other_scores :: "'k list \<Rightarrow> real list \<Rightarrow> nat \<Rightarrow> real list" where
  "other_scores index scores i =
     map ((!) scores) (filter (\<lambda>j. j \<noteq> i \<and> index ! j = index ! i) [0..<length scores])"

lemma group_of_nth:
  "length index = length xs \<Longrightarrow> group_of index xs k = map ((!) xs) (filter (\<lambda>j. index ! j = k) [0..<length xs])"
proof -
  assume len: "length index = length xs"
  have "zip index xs = map (\<lambda>j. (index ! j, xs ! j)) [0..<length xs]"
    using len by (intro nth_equalityI) auto
  then show ?thesis by (simp add: group_of_def filter_map comp_def)
qed

lemma other_scores_sum:
  assumes "length index = length scores" "i < length scores"
  shows "sum_list (group_of index scores (index ! i)) = scores ! i + sum_list (other_scores index scores i)"
    "length (group_of index scores (index ! i)) = Suc (length (other_scores index scores i))"
proof -
  let ?P = "\<lambda>j. index ! j = index ! i"
  have "[0..<length scores] = [0..<i] @ i # [Suc i..<length scores]"
    using assms(2) upt_add_eq_append[of 0 i "length scores - i"] by (simp add: upt_conv_Cons)
  moreover have "filter (\<lambda>j. j \<noteq> i \<and> ?P j) [0..<i] = filter ?P [0..<i]"
    "filter (\<lambda>j. j \<noteq> i \<and> ?P j) [Suc i..<length scores] = filter ?P [Suc i..<length scores]"
    by (auto intro: filter_cong)
  ultimately show "sum_list (group_of index scores (index ! i)) = scores ! i + sum_list (other_scores index scores i)"
    "length (group_of index scores (index ! i)) = Suc (length (other_scores index scores i))"
    by (simp_all add: group_of_nth[OF assms(1)] other_scores_def)
qed

lemma rloo_closed_form:
  fixes rewards :: mat and index :: "'k list"
  defines "scores \<equiv> row_sums rewards"
  assumes "length rewards \<le> length index"
  shows "compute_rloo_outcome_advantage rewards msk index =
    Inr (scale_rows (map (\<lambda>(k, s). let xs = group_of index scores k; n = real (length xs)
        in if length xs > 1 then s * n / (n - 1) - torch_mean xs * n / (n - 1) else s) (zip index scores)) msk)"
proof -
  obtain m where m: "group_stat 0 torch_mean (group_rows index scores) = Inr m"
    "\<And>k x. (k, x) \<in> set (zip index scores) \<Longrightarrow> map_of m k = Some (row_stat 0 torch_mean (group_of index scores k))"
    using group_stat_rows[of 0 torch_mean index scores] by blast
  show ?thesis
    using assms(2) m(1)
    by (simp add: compute_rloo_outcome_advantage_def scores_def[symmetric])
       (subst row_loop[where h = "\<lambda>(k, s). let xs = group_of index scores k; n = real (length xs)
          in if length xs > 1 then s * n / (n - 1) - torch_mean xs * n / (n - 1) else s"],
        auto simp: dict_index_def m(2) Let_def scores_def row_sums_def map_of_group_rows row_stat_def
          dest: group_of_nonempty)
qed


lemma rloo_vectorized_closed_form:
  fixes rewards :: mat and index :: "('k :: linorder) list"
  defines "scores \<equiv> row_sums rewards"
  assumes len: "length index = length rewards"
  shows "compute_rloo_vectorized_outcome_advantage rewards msk index =
    scale_rows (map2 (\<lambda>s k. let xs = group_of index scores k; c = real (length xs)
        in ((c * s - sum_list xs) / max (c - 1) 1) * (if c > 1 then 1 else 0)) scores index) msk"
proof (cases "index = []")
  case True
  then show ?thesis
    using len by (simp add: compute_rloo_vectorized_outcome_advantage_def scores_def row_sums_def scale_rows_def)
next
  case False
  let ?h = "rank index"
  have inv: "np_unique_inverse index = map ?h index" by (simp add: np_unique_inverse_def rank_def)
  have h: "inj_on ?h (set index)" "\<forall>k \<in> set index. 0 \<le> ?h k" by (simp_all add: inj_rank) (simp add: rank_def)
  have cnt: "bincount (map ?h index) xs ! nat (?h k) = sum_list (group_of index xs k)"
    if k: "k \<in> set index" for k and xs :: "real list"
  proof -
    have "nat (?h k) < nat (Max (set (map ?h index)) + 1)" using max_group(1)[OF False h(2) k] .
    moreover have "group_of (map ?h index) xs (?h k) = group_of index xs k"
      by (rule group_of_index_map) (use h(1) k in \<open>simp add: insert_absorb\<close>)
    ultimately show ?thesis using False h(2) k by (simp add: bincount_def index_add_nth)
  qed
  have ones: "sum_list (group_of index (replicate (length rewards) 1) k) = real (length (group_of index (row_sums rewards) k))" for k
    using group_of_ones[of index "row_sums rewards" k] by (simp add: map_replicate_const)
  show ?thesis
    using len
    by (simp add: compute_rloo_vectorized_outcome_advantage_def Let_def inv gather_groups_def scores_def[symmetric] comp_def)
       (intro arg_cong[where f = "\<lambda>x. scale_rows x msk"] nth_equalityI;
        simp add: cnt map_replicate_const scores_def ones)
qed

text \<open>
  Both RLOO estimators take the mean of the other responses to the prompt as the baseline of a response. They
  differ on a prompt with a single response: the loop leaves the score as it is, the vectorised version returns
  zero.
\<close>

theorem rloo_leave_one_out:
  assumes "length index = length rewards"
  shows "\<exists>adv vec. compute_rloo_outcome_advantage rewards msk index = Inr (scale_rows adv msk) \<and>
    compute_rloo_vectorized_outcome_advantage rewards msk index = scale_rows vec msk \<and>
    (\<forall>i < length rewards. let s = row_sums rewards; others = other_scores index s i in
       (others \<noteq> [] \<longrightarrow> adv ! i = s ! i - torch_mean others \<and> vec ! i = s ! i - torch_mean others) \<and>
       (others = [] \<longrightarrow> adv ! i = s ! i \<and> vec ! i = 0))"
proof (intro exI conjI allI impI)
  let ?s = "row_sums rewards"
  let ?adv = "map (\<lambda>(k, s). let xs = group_of index ?s k; n = real (length xs)
        in if length xs > 1 then s * n / (n - 1) - torch_mean xs * n / (n - 1) else s) (zip index ?s)"
  let ?vec = "map2 (\<lambda>s k. let xs = group_of index ?s k; c = real (length xs)
        in ((c * s - sum_list xs) / max (c - 1) 1) * (if c > 1 then 1 else 0)) ?s index"
  show "compute_rloo_outcome_advantage rewards msk index = Inr (scale_rows ?adv msk)"
    by (rule rloo_closed_form) (simp add: assms)
  show "compute_rloo_vectorized_outcome_advantage rewards msk index = scale_rows ?vec msk"
    by (rule rloo_vectorized_closed_form) (rule assms)
  fix i assume i: "i < length rewards"
  define xs os where "xs = group_of index ?s (index ! i)" and "os = other_scores index ?s i"
  have xs: "sum_list xs = ?s ! i + sum_list os" "length xs = Suc (length os)"
    using other_scores_sum[of index ?s i] assms i by (simp_all add: xs_def os_def)
  have "?adv ! i = ?s ! i - torch_mean os \<and> ?vec ! i = ?s ! i - torch_mean os" if "os \<noteq> []"
  proof -
    have n: "1 \<le> length os" "0 < real (length os)" using that by (cases os; simp)+
    have "?adv ! i = ?s ! i * (1 + real (length os)) / real (length os) - sum_list xs / real (length os)"
      using i assms n by (simp add: Let_def xs_def[symmetric] xs(2) torch_mean_def Suc_le_eq)
    also have "\<dots> = ?s ! i - torch_mean os"
      using n(2) by (simp add: xs(1) torch_mean_def field_simps)
    finally have "?adv ! i = ?s ! i - torch_mean os" .
    moreover have "?vec ! i = ((1 + real (length os)) * ?s ! i - sum_list xs) / real (length os)"
      using i assms n by (simp add: Let_def xs_def[symmetric] xs(2) Suc_le_eq max_absorb1)
    then have "?vec ! i = ?s ! i - torch_mean os"
      using n(2) by (simp add: xs(1) torch_mean_def field_simps)
    ultimately show ?thesis ..
  qed
  moreover have "?adv ! i = ?s ! i \<and> ?vec ! i = 0" if "os = []"
    using i assms that xs by (simp add: Let_def xs_def[symmetric])
  ultimately show "let s = ?s; others = other_scores index s i in
       (others \<noteq> [] \<longrightarrow> ?adv ! i = s ! i - torch_mean others \<and> ?vec ! i = s ! i - torch_mean others) \<and>
       (others = [] \<longrightarrow> ?adv ! i = s ! i \<and> ?vec ! i = 0)"
    unfolding Let_def os_def by blast
qed

lemma rloo_leave_one_out_witness:
  "\<exists>adv vec. compute_rloo_outcome_advantage demo_rewards demo_mask ''aba'' = Inr (scale_rows adv demo_mask) \<and>
    compute_rloo_vectorized_outcome_advantage demo_rewards demo_mask ''aba'' = scale_rows vec demo_mask \<and>
    adv ! 0 = - 3 \<and> vec ! 0 = - 3 \<and> adv ! 1 = 3 \<and> vec ! 1 = 0"
proof -
  have s: "row_sums demo_rewards = [1, 3, 4]" by (simp add: demo_rewards_def row_sums_def)
  have o: "other_scores ''aba'' [1, 3, 4] 0 = [4]" "other_scores ''aba'' [1, 3, 4] (Suc 0) = []"
    by (simp_all add: other_scores_def upt_rec)
  have n: "length demo_rewards = 3" by (simp add: demo_rewards_def)
  obtain adv vec where av: "compute_rloo_outcome_advantage demo_rewards demo_mask ''aba'' = Inr (scale_rows adv demo_mask)"
    "compute_rloo_vectorized_outcome_advantage demo_rewards demo_mask ''aba'' = scale_rows vec demo_mask"
    and rows: "\<forall>i < 3. let s = [1, 3, 4]; others = other_scores ''aba'' s i in
       (others \<noteq> [] \<longrightarrow> adv ! i = s ! i - torch_mean others \<and> vec ! i = s ! i - torch_mean others) \<and>
       (others = [] \<longrightarrow> adv ! i = s ! i \<and> vec ! i = 0)"
    using rloo_leave_one_out[of "''aba''" demo_rewards demo_mask] unfolding s n by auto
  have "adv ! 0 = - 3 \<and> vec ! 0 = - 3 \<and> adv ! 1 = 3 \<and> vec ! 1 = 0"
    using rows[rule_format, of 0] rows[rule_format, of 1] o by (simp add: torch_mean_def Let_def)
  with av show ?thesis by blast
qed

section \<open>Generalised advantage estimation\<close>

text \<open>
  The textbook estimator for a trajectory without gaps: the discounted sum of the temporal-difference errors,
  where the value after the last token is zero.
\<close>

definition td_error :: "real \<Rightarrow> real list \<Rightarrow> real list \<Rightarrow> nat \<Rightarrow> real" where
  "td_error \<gamma> rs vs t = rs ! t + \<gamma> * (if Suc t < length vs then vs ! Suc t else 0) - vs ! t"

definition textbook_gae :: "real \<Rightarrow> real \<Rightarrow> real list \<Rightarrow> real list \<Rightarrow> real list" where
  "textbook_gae \<gamma> lam rs vs =
     map (\<lambda>t. \<Sum>l < length rs - t. (\<gamma> * lam) ^ l * td_error \<gamma> rs vs (t + l)) [0..<length rs]"

lemma textbook_gae_Cons:
  assumes "length rs = length vs"
  shows "textbook_gae \<gamma> lam (r # rs) (v # vs) =
    (r + \<gamma> * (case vs of [] \<Rightarrow> 0 | v' # _ \<Rightarrow> v') - v + \<gamma> * lam * (case textbook_gae \<gamma> lam rs vs of [] \<Rightarrow> 0 | a # _ \<Rightarrow> a)) #
    textbook_gae \<gamma> lam rs vs"
proof -
  let ?td = "td_error \<gamma> (r # rs) (v # vs)"
  have td: "?td (Suc t) = td_error \<gamma> rs vs t" for t
    by (simp add: td_error_def)
  have "(\<Sum>l < Suc (length rs). (\<gamma> * lam) ^ l * ?td l) = ?td 0 + \<gamma> * lam * (\<Sum>l < length rs. (\<gamma> * lam) ^ l * td_error \<gamma> rs vs l)"
    by (subst sum.lessThan_Suc_shift) (simp add: td sum_distrib_left mult.assoc)
  moreover have "(case textbook_gae \<gamma> lam rs vs of [] \<Rightarrow> 0 | a # _ \<Rightarrow> a) = (\<Sum>l < length rs. (\<gamma> * lam) ^ l * td_error \<gamma> rs vs l)"
    by (cases rs) (simp_all add: textbook_gae_def upt_rec del: upt_Suc)
  moreover have "?td 0 = r + \<gamma> * (case vs of [] \<Rightarrow> 0 | v' # _ \<Rightarrow> v') - v"
    by (cases vs) (simp_all add: td_error_def)
  moreover have "map (\<lambda>t. \<Sum>l < Suc (length rs) - t. (\<gamma> * lam) ^ l * ?td (t + l)) [Suc 0..<Suc (length rs)] = textbook_gae \<gamma> lam rs vs"
    by (simp add: textbook_gae_def map_Suc_upt[symmetric] comp_def td del: upt_Suc)
  ultimately show ?thesis
    by (simp add: textbook_gae_def upt_conv_Cons del: upt_Suc)
qed

definition binary_row :: "real list \<Rightarrow> bool" where
  "binary_row ms \<longleftrightarrow> list_all (\<lambda>m. m = 0 \<or> m = 1) ms"

lemma select_masked_simps [simp]:
  "select_masked [] xs = []" "select_masked ms [] = []"
  "select_masked (m # ms) (x # xs) = (if m \<noteq> 0 then [x] else []) @ select_masked ms xs"
  by (simp_all add: select_masked_def)

lemma length_select_masked: "length xs = length ms \<Longrightarrow> length (select_masked ms xs) = length (filter (\<lambda>m. m \<noteq> 0) ms)"
  by (induction xs ms rule: list_induct2) auto

lemma gae_row_select:
  fixes \<gamma> lam :: real
  assumes "length rs = length ms" "length vs = length ms" "binary_row ms"
  defines "R \<equiv> gae_row \<gamma> lam (zip rs (zip vs ms))"
  shows "length (fst R) = length ms \<and>
    select_masked ms (fst R) = textbook_gae \<gamma> lam (select_masked ms rs) (select_masked ms vs) \<and>
    fst (snd R) = (case select_masked ms vs of [] \<Rightarrow> 0 | v # _ \<Rightarrow> v) \<and>
    snd (snd R) = (case select_masked ms (fst R) of [] \<Rightarrow> 0 | a # _ \<Rightarrow> a)"
  unfolding R_def using assms(1-3)
proof (induction ms arbitrary: rs vs)
  case Nil
  then show ?case by (simp add: textbook_gae_def)
next
  case (Cons m ms)
  obtain r rs' v vs' where rv: "rs = r # rs'" "vs = v # vs'"
    using Cons.prems by (metis length_Suc_conv)
  obtain advs nv lg where rec: "gae_row \<gamma> lam (zip rs' (zip vs' ms)) = (advs, nv, lg)"
    by (metis prod_cases3)
  from Cons.IH[of rs' vs'] Cons.prems
  have IH: "length advs = length ms" "select_masked ms advs = textbook_gae \<gamma> lam (select_masked ms rs') (select_masked ms vs')"
    "nv = (case select_masked ms vs' of [] \<Rightarrow> 0 | v # _ \<Rightarrow> v)" "lg = (case select_masked ms advs of [] \<Rightarrow> 0 | a # _ \<Rightarrow> a)"
    by (simp_all add: rec rv binary_row_def)
  have len: "length (select_masked ms rs') = length (select_masked ms vs')"
    using Cons.prems by (simp add: rv length_select_masked)
  from Cons.prems(3) consider "m = 0" | "m = 1" by (auto simp: binary_row_def)
  then show ?case
  proof cases
    case 1
    with IH show ?thesis by (simp add: rv rec Let_def)
  next
    case 2
    with IH show ?thesis by (simp add: rv rec Let_def textbook_gae_Cons[OF len])
  qed
qed

text \<open>
  C12: on a trajectory with observation tokens between the turns (mask 0), the estimator computes the textbook
  generalised advantage of the trajectory of the response tokens alone: the returns at the response tokens are
  that advantage plus the value, rewards and values at observation tokens have no influence, and the first
  result is the whitened form of the returns minus the values.
\<close>

theorem gae_skips_observations:
  assumes "shaped n m rewards" "shaped n m values" "shaped n m msk" "list_all binary_row msk" "0 < m"
    and run: "compute_gae_advantage_return rewards values msk \<gamma> lam = Inr (advantages, returns)"
  shows "shaped n m returns \<and>
    (\<forall>i < n. map2 (-) (select_masked (msk ! i) (returns ! i)) (select_masked (msk ! i) (values ! i)) =
       textbook_gae \<gamma> lam (select_masked (msk ! i) (rewards ! i)) (select_masked (msk ! i) (values ! i))) \<and>
    masked_whiten (mat_map2 (-) returns values) msk True = Inr advantages"
proof -
  define raw where "raw = map (\<lambda>(r, v, m). fst (gae_row \<gamma> lam (zip r (zip v m)))) (zip rewards (zip values msk))"
  have ret: "returns = mat_map2 (+) raw values" and white: "masked_whiten raw msk True = Inr advantages"
    using run by (auto simp: compute_gae_advantage_return_def raw_def Let_def res_bind_eq_Inr split: if_splits)
  have lens: "length rewards = n" "length values = n" "length msk = n"
    using assms(1-3) by (simp_all add: shaped_def)
  have row: "length (raw ! i) = m" "select_masked (msk ! i) (raw ! i) =
       textbook_gae \<gamma> lam (select_masked (msk ! i) (rewards ! i)) (select_masked (msk ! i) (values ! i))" if "i < n" for i
    using gae_row_select[of "rewards ! i" "msk ! i" "values ! i" \<gamma> lam] that assms(4) lens
      shaped_nth[OF assms(1) that] shaped_nth[OF assms(2) that] shaped_nth[OF assms(3) that]
    by (simp_all add: raw_def list_all_length)
  have raw: "length raw = n" using lens by (simp add: raw_def)
  have ret_nth: "returns ! i = map2 (+) (raw ! i) (values ! i)" if "i < n" for i
    using that raw lens by (simp add: ret mat_map2_def)
  have back_minus: "map2 (-) (map2 (+) as vs) vs = as" if "length as = length vs" for as vs :: "real list"
    using that by (induction as vs rule: list_induct2) auto
  have sel: "map2 (-) (select_masked ms (map2 (+) as vs)) (select_masked ms vs) = select_masked ms as"
    if "length as = length vs" "length vs = length ms" for as vs ms :: "real list"
    using that by (induction as vs ms rule: list_induct3) auto
  have "shaped n m returns"
    using row(1) ret_nth shaped_nth[OF assms(2)] raw lens by (simp add: shaped_def list_all_length ret mat_map2_def)
  moreover have "map2 (-) (select_masked (msk ! i) (returns ! i)) (select_masked (msk ! i) (values ! i)) =
       textbook_gae \<gamma> lam (select_masked (msk ! i) (rewards ! i)) (select_masked (msk ! i) (values ! i))" if "i < n" for i
    using sel[of "raw ! i" "values ! i" "msk ! i"] row[OF that] shaped_nth[OF assms(2) that] shaped_nth[OF assms(3) that]
    by (simp add: ret_nth[OF that])
  moreover have "mat_map2 (-) returns values = raw"
  proof (rule nth_equalityI)
    show "length (mat_map2 (-) returns values) = length raw" using raw lens by (simp add: ret mat_map2_def)
    fix i assume "i < length (mat_map2 (-) returns values)"
    then have i: "i < n" using raw lens by (simp add: ret mat_map2_def)
    have "mat_map2 (-) returns values ! i = map2 (-) (returns ! i) (values ! i)"
      using i raw lens by (simp add: ret mat_map2_def)
    also have "\<dots> = raw ! i"
      using back_minus[of "raw ! i" "values ! i"] row(1)[OF i] shaped_nth[OF assms(2) i] by (simp add: ret_nth[OF i])
    finally show "mat_map2 (-) returns values ! i = raw ! i" .
  qed
  ultimately show ?thesis using white by auto
qed

lemma gae_skips_observations_witness:
  "\<exists>a r. compute_gae_advantage_return [[1, 7, 2]] [[1, 5, 3]] [[1, 0, 1]] 1 1 = Inr (a, r) \<and>
     map2 (-) (select_masked [1, 0, 1] (r ! 0)) [1, 3] = textbook_gae 1 1 [1, 2] [1, 3]"
proof -
  obtain a r where run: "compute_gae_advantage_return [[1, 7, 2]] [[1, 5, 3]] [[1, 0, 1]] 1 1 = Inr (a, r)"
    by (simp add: compute_gae_advantage_return_def masked_whiten_def masked_var_def Let_def)
  have "map2 (-) (select_masked [1, 0, 1] (r ! 0)) (select_masked [1, 0, 1] [1, 5, 3]) =
      textbook_gae 1 1 (select_masked [1, 0, 1] [1, 7, 2]) (select_masked [1, 0, 1] [1, 5, 3])"
    using gae_skips_observations[of 1 3 "[[1, 7, 2]]" "[[1, 5, 3]]" "[[1, 0, 1]]" 1 1 a r] run
    by (simp add: shaped_def binary_row_def)
  with run show ?thesis by auto
qed

section \<open>The KL controllers\<close>

definition kl_updates :: "(real \<times> nat) list \<Rightarrow> kl_controller \<Rightarrow> kl_controller result" where
  "kl_updates ups = res_fold (\<lambda>(kl, n). kl_update kl n) ups"

text \<open>The controller built from a configuration keeps its target and horizon, and a positive coefficient.\<close>

definition kl_inv :: "kl_ctrl_config \<Rightarrow> kl_controller \<Rightarrow> bool" where
  "kl_inv cfg c \<longleftrightarrow>
     0 < kl_coefficient c \<and>
     (case c of FixedKLController v \<Rightarrow> ctrl_type cfg = ''fixed'' \<and> v = ctrl_kl_coef cfg
      | AdaptiveKLController a \<Rightarrow> ctrl_type cfg = ''adaptive'' \<and> kl_target a = ctrl_target_kl cfg \<and>
          kl_horizon a = ctrl_horizon cfg \<and> 0 < ctrl_horizon cfg)"

text \<open>One update multiplies the coefficient by a factor within \<open>1 \<plusminus> n_steps / (5 * horizon)\<close>, on the side of the error.\<close>

lemma kl_update_step:
  assumes inv: "kl_inv cfg c" and cfg: "0 < ctrl_target_kl cfg" "real n < 5 * ctrl_horizon cfg"
  shows "\<exists>c'. kl_update kl n c = Inr c' \<and> kl_inv cfg c' \<and>
    (case c of FixedKLController _ \<Rightarrow> c' = c
     | AdaptiveKLController _ \<Rightarrow>
         \<bar>kl_coefficient c' - kl_coefficient c\<bar> \<le> kl_coefficient c * (real n / (5 * ctrl_horizon cfg)) \<and>
         (ctrl_target_kl cfg \<le> kl \<longrightarrow> kl_coefficient c \<le> kl_coefficient c') \<and>
         (kl \<le> ctrl_target_kl cfg \<longrightarrow> kl_coefficient c' \<le> kl_coefficient c))"
proof (cases c)
  case (FixedKLController v)
  with inv show ?thesis by simp
next
  case (AdaptiveKLController a)
  define e where "e = clamp (kl / ctrl_target_kl cfg - 1) (- 1 / 5) (1 / 5)"
  define q where "q = real n / ctrl_horizon cfg"
  have a: "kl_target a = ctrl_target_kl cfg" "kl_horizon a = ctrl_horizon cfg" "0 < ctrl_horizon cfg" "0 < kl_value a"
    using inv by (auto simp: kl_inv_def AdaptiveKLController)
  have qbound: "0 \<le> q" "q < 5" using cfg(2) a(3) by (simp_all add: q_def field_simps)
  have "- 1 / 5 \<le> e" "e \<le> 1 / 5" unfolding e_def clamp_def by linarith+
  then have ebound: "\<bar>e\<bar> \<le> 1 / 5" by (intro abs_leI) auto
  have mult: "\<bar>e * q\<bar> \<le> q / 5"
    using mult_right_mono[OF ebound qbound(1)] by (simp add: abs_mult abs_of_nonneg[OF qbound(1)])
  have upd: "kl_update kl n c = Inr (AdaptiveKLController (a\<lparr>kl_value := kl_value a * (1 + e * q)\<rparr>))"
    using cfg(1) a(1,2) by (simp add: AdaptiveKLController adaptive_kl_update_def e_def q_def)
  have diff: "kl_value a * (1 + e * q) - kl_value a = kl_value a * (e * q)" by (simp add: algebra_simps)
  have "0 < 1 + e * q" using mult qbound(2) by linarith
  then have "0 < kl_value a * (1 + e * q)" using a(4) by simp
  moreover have "\<bar>kl_value a * (e * q)\<bar> \<le> kl_value a * (q / 5)"
    using mult a(4) by (simp add: abs_mult mult_left_mono)
  moreover have "0 \<le> e * q" if "ctrl_target_kl cfg \<le> kl"
  proof -
    have "1 \<le> kl / ctrl_target_kl cfg" using that cfg(1) by simp
    then have "0 \<le> e" unfolding e_def clamp_def by linarith
    then show ?thesis using a(4) qbound(1) by simp
  qed
  moreover have "e * q \<le> 0" if "kl \<le> ctrl_target_kl cfg"
  proof -
    have "kl / ctrl_target_kl cfg \<le> 1" using that cfg(1) by simp
    then have "e \<le> 0" unfolding e_def clamp_def by linarith
    then show ?thesis using qbound(1) by (intro mult_nonpos_nonneg)
  qed
  ultimately show ?thesis
    using inv a diff unfolding upd by (simp add: kl_inv_def AdaptiveKLController q_def)
qed

lemma kl_updates_inv:
  assumes "kl_inv cfg c" "0 < ctrl_target_kl cfg" "\<forall>(kl, n) \<in> set ups. real n < 5 * ctrl_horizon cfg"
  shows "\<exists>c'. kl_updates ups c = Inr c' \<and> kl_inv cfg c'"
  using assms(1,3)
proof (induction ups arbitrary: c)
  case (Cons u ups)
  obtain kl n where u: "u = (kl, n)" by (cases u)
  obtain c' where "kl_update kl n c = Inr c'" "kl_inv cfg c'"
    using kl_update_step[OF Cons.prems(1) assms(2), of n kl] Cons.prems(2) u by auto
  with Cons u show ?case by (simp add: kl_updates_def)
qed (simp add: kl_updates_def)

text \<open>
  The KL controllers steer towards the target. After any number of updates the coefficient of the controller
  built from a valid configuration is positive; the next update of an adaptive controller does not lower it when
  the KL is at or above the target, does not raise it when the KL is at or below, and changes it by a fraction of
  at most \<open>n_steps / (5 * horizon)\<close>; a fixed controller keeps the configured coefficient.
\<close>

theorem kl_controller_steers:
  assumes "get_kl_controller cfg = Inr c0" "0 < ctrl_kl_coef cfg" "0 < ctrl_target_kl cfg"
    "\<forall>(kl, n) \<in> set ups. real n < 5 * ctrl_horizon cfg" "real n < 5 * ctrl_horizon cfg"
  shows "\<exists>c c'. kl_updates ups c0 = Inr c \<and> kl_update kl n c = Inr c' \<and>
    0 < kl_coefficient c \<and> 0 < kl_coefficient c' \<and>
    (ctrl_type cfg = ''fixed'' \<longrightarrow> kl_coefficient c' = ctrl_kl_coef cfg) \<and>
    \<bar>kl_coefficient c' - kl_coefficient c\<bar> \<le> kl_coefficient c * (real n / (5 * ctrl_horizon cfg)) \<and>
    (ctrl_target_kl cfg \<le> kl \<longrightarrow> kl_coefficient c \<le> kl_coefficient c') \<and>
    (kl \<le> ctrl_target_kl cfg \<longrightarrow> kl_coefficient c' \<le> kl_coefficient c)"
proof -
  have "kl_inv cfg c0"
    using assms(1,2) by (auto simp: get_kl_controller_def kl_inv_def py_assert_def split: if_splits)
  then obtain c where c: "kl_updates ups c0 = Inr c" "kl_inv cfg c"
    using kl_updates_inv[OF _ assms(3,4)] by blast
  obtain c' where c': "kl_update kl n c = Inr c'" "kl_inv cfg c'" and step:
    "case c of FixedKLController _ \<Rightarrow> c' = c
     | AdaptiveKLController _ \<Rightarrow>
         \<bar>kl_coefficient c' - kl_coefficient c\<bar> \<le> kl_coefficient c * (real n / (5 * ctrl_horizon cfg)) \<and>
         (ctrl_target_kl cfg \<le> kl \<longrightarrow> kl_coefficient c \<le> kl_coefficient c') \<and>
         (kl \<le> ctrl_target_kl cfg \<longrightarrow> kl_coefficient c' \<le> kl_coefficient c)"
    using kl_update_step[OF c(2) assms(3,5), of kl] by blast
  have "0 \<le> real n / (5 * ctrl_horizon cfg)"
    using assms(5) by (intro divide_nonneg_nonneg) linarith+
  then have frac: "0 \<le> kl_coefficient c * (real n / (5 * ctrl_horizon cfg))"
    using c(2) by (intro mult_nonneg_nonneg) (auto simp: kl_inv_def)
  show ?thesis
    using c c' step frac by (cases c; cases c') (auto simp: kl_inv_def)
qed

lemma kl_controller_steers_witness:
  "\<exists>c c'. kl_updates [(2, 1)] (AdaptiveKLController \<lparr>kl_value = 1, kl_target = 1, kl_horizon = 10\<rparr>) = Inr c \<and>
     kl_update 3 1 c = Inr c' \<and> kl_coefficient c \<le> kl_coefficient c'"
  using kl_controller_steers[of "\<lparr>ctrl_type = ''adaptive'', ctrl_kl_coef = 1, ctrl_target_kl = 1, ctrl_horizon = 10\<rparr>"
      "AdaptiveKLController \<lparr>kl_value = 1, kl_target = 1, kl_horizon = 10\<rparr>" "[(2, 1)]" 1 3]
  by (auto simp: get_kl_controller_def)

end
