(* ===== verification/Policy_Loss.thy ===== *)
theory Policy_Loss
  imports Advantage
begin

text \<open>
  Loss aggregation, the policy and value losses and the KL penalties of
  \<open>src/verl/verl/trainer/ppo/core_algos.py\<close>. A loss is the value of the scalar that is returned, with the metrics
  that go with it; \<open>detach\<close> changes gradients only and is the identity here. The asserted presence of the
  configuration is its type.
\<close>

section \<open>Loss aggregation\<close>

record batch_info =
  bi_dp_size :: nat
  bi_batch_num_tokens :: "real option"
  bi_global_batch_size :: "real option"
  bi_loss_scale_factor :: "real option"

definition default_batch_info :: batch_info where
  "default_batch_info = \<lparr>bi_dp_size = 1, bi_batch_num_tokens = None, bi_global_batch_size = None, bi_loss_scale_factor = None\<rparr>"

definition seq_present :: "mat \<Rightarrow> real list" where
  "seq_present loss_mask = map (\<lambda>row. if sum_list row > 0 then 1 else 0) loss_mask"

text \<open>The mean over sequences of the two \<open>seq-mean\<close> modes.\<close>

definition seq_mean_loss :: "real list \<Rightarrow> mat \<Rightarrow> batch_info \<Rightarrow> real result" where
  "seq_mean_loss seq_losses loss_mask info =
     (let seq_mask = seq_present loss_mask in
      case bi_global_batch_size info of
        Some g \<Rightarrow> Inr (masked_sum seq_losses seq_mask / g * real (bi_dp_size info))
      | None \<Rightarrow>
          if bi_dp_size info > 1 then Inl ValueError
          else Inr (masked_sum seq_losses seq_mask / sum_list seq_mask * real (bi_dp_size info)))"

definition agg_loss :: "mat \<Rightarrow> mat \<Rightarrow> string \<Rightarrow> batch_info \<Rightarrow> real result" where
  "agg_loss loss_mat loss_mask loss_agg_mode info =
     (if loss_agg_mode = ''token-mean'' then
        (case bi_batch_num_tokens info of
           Some n \<Rightarrow> Inr (masked_sum (concat loss_mat) (concat loss_mask) / n * real (bi_dp_size info))
         | None \<Rightarrow>
             if bi_dp_size info > 1 then Inl ValueError
             else Inr (masked_sum (concat loss_mat) (concat loss_mask) / sum_list (concat loss_mask) * real (bi_dp_size info)))
      else if loss_agg_mode \<in> {''seq-mean-token-sum'', ''seq-mean-token-sum-norm''} then
        let seq_losses = row_sums (mat_map2 (*) loss_mat loss_mask)
        in res_bind (seq_mean_loss seq_losses loss_mask info) (\<lambda>loss.
             if loss_agg_mode = ''seq-mean-token-sum-norm'' then
               let horizon = real (case loss_mask of [] \<Rightarrow> 0 | row # _ \<Rightarrow> length row);
                   scale = (case bi_loss_scale_factor info of None \<Rightarrow> horizon | Some f \<Rightarrow> f)
               in Inr (loss / scale)
             else Inr loss)
      else if loss_agg_mode = ''seq-mean-token-mean'' then
        let seq_mask = row_sums loss_mask;
            seq_losses = map2 (\<lambda>l n. l / (n + 1 / 10 ^ 8)) (row_sums (mat_map2 (*) loss_mat loss_mask)) seq_mask
        in seq_mean_loss seq_losses loss_mask info
      else Inl ValueError)"

section \<open>Policy losses\<close>

record policy_loss_config =
  pl_clip_cov_ratio :: "real option"
  pl_clip_cov_lb :: "real option"
  pl_clip_cov_ub :: "real option"
  pl_kl_cov_ratio :: "real option"
  pl_ppo_kl_coef :: "real option"

record actor_config =
  ac_clip_ratio :: real
  ac_clip_ratio_low :: "real option"
  ac_clip_ratio_high :: "real option"
  ac_clip_ratio_c :: "real option"
  ac_tau_pos :: real
  ac_tau_neg :: real
  ac_policy_loss :: policy_loss_config
  ac_batch_info :: batch_info

definition or_default :: "'a option \<Rightarrow> 'a \<Rightarrow> 'a" where
  "or_default x d = (case x of None \<Rightarrow> d | Some y \<Rightarrow> y)"

definition mat_map3 :: "('a \<Rightarrow> 'b \<Rightarrow> 'c \<Rightarrow> 'd) \<Rightarrow> 'a list list \<Rightarrow> 'b list list \<Rightarrow> 'c list list \<Rightarrow> 'd list list" where
  "mat_map3 f a b c = mat_map2 (\<lambda>x (y, z). f x y z) a (mat_map2 Pair b c)"

definition mat_mean :: "mat \<Rightarrow> mat \<Rightarrow> real" where
  "mat_mean vals msk = masked_mean (concat vals) (concat msk)"

definition flag :: "bool \<Rightarrow> real" where
  "flag b = (if b then 1 else 0)"

text \<open>The product with the rollout correction weights, when there are any.\<close>

definition apply_is_weights :: "mat \<Rightarrow> mat option \<Rightarrow> mat" where
  "apply_is_weights pg_losses weights = (case weights of None \<Rightarrow> pg_losses | Some w \<Rightarrow> mat_map2 (*) pg_losses w)"

record pg_metrics =
  pg_clipfrac :: real
  ppo_kl :: real
  pg_clipfrac_lower :: real

text \<open>The clamped log ratio of a token and its exponential.\<close>

definition safe_log_ratio :: "real \<Rightarrow> real \<Rightarrow> real" where
  "safe_log_ratio log_prob old_log_prob = clamp (log_prob - old_log_prob) (- 20) 20"

definition token_ratio :: "real \<Rightarrow> real \<Rightarrow> real" where
  "token_ratio log_prob old_log_prob = exp (safe_log_ratio log_prob old_log_prob)"

definition approx_kl :: "mat \<Rightarrow> mat \<Rightarrow> mat \<Rightarrow> real" where
  "approx_kl log_prob old_log_prob msk = mat_mean (mat_map2 (\<lambda>l o'. - safe_log_ratio l o') log_prob old_log_prob) msk"

text \<open>The clipped loss of one token: the unclipped and the clipped surrogate, the larger one, and the dual clip.\<close>

definition clip_loss1 :: "real \<Rightarrow> real \<Rightarrow> real" where
  "clip_loss1 ratio adv = - adv * ratio"

definition clip_loss2 :: "real \<Rightarrow> real \<Rightarrow> real \<Rightarrow> real \<Rightarrow> real" where
  "clip_loss2 low high ratio adv = - adv * clamp ratio (1 - low) (1 + high)"

definition clip_token_loss :: "real \<Rightarrow> real \<Rightarrow> real \<Rightarrow> real \<Rightarrow> real \<Rightarrow> real" where
  "clip_token_loss low high c ratio adv =
     (let clip_pg_losses1 = max (clip_loss1 ratio adv) (clip_loss2 low high ratio adv);
          clip_pg_losses2 = min (- adv * c) clip_pg_losses1
      in if adv < 0 then clip_pg_losses2 else clip_pg_losses1)"

definition clip_metrics :: "real \<Rightarrow> real \<Rightarrow> real \<Rightarrow> mat \<Rightarrow> mat \<Rightarrow> mat \<Rightarrow> mat \<Rightarrow> pg_metrics" where
  "clip_metrics low high c log_prob old_log_prob advantages msk =
     (let ratio = mat_map2 token_ratio log_prob old_log_prob
      in \<lparr>pg_clipfrac = mat_mean (mat_map2 (\<lambda>r a. flag (clip_loss2 low high r a > clip_loss1 r a)) ratio advantages) msk,
          ppo_kl = approx_kl log_prob old_log_prob msk,
          pg_clipfrac_lower = mat_mean (mat_map2 (\<lambda>r a.
             flag (max (clip_loss1 r a) (clip_loss2 low high r a) > - a * c) * flag (a < 0)) ratio advantages) msk\<rparr>)"

definition compute_policy_loss_vanilla ::
  "mat \<Rightarrow> mat \<Rightarrow> mat \<Rightarrow> mat \<Rightarrow> string \<Rightarrow> actor_config \<Rightarrow> mat option \<Rightarrow> (real \<times> pg_metrics) result" where
  "compute_policy_loss_vanilla old_log_prob log_prob advantages msk loss_agg_mode cfg rollout_is_weights =
     (let low = or_default (ac_clip_ratio_low cfg) (ac_clip_ratio cfg);
          high = or_default (ac_clip_ratio_high cfg) (ac_clip_ratio cfg);
          c = or_default (ac_clip_ratio_c cfg) 3
      in res_bind (py_assert (c > 1)) (\<lambda>_.
           let ratio = mat_map2 token_ratio log_prob old_log_prob;
               pg_losses = mat_map2 (clip_token_loss low high c) ratio advantages
           in res_bind (agg_loss (apply_is_weights pg_losses rollout_is_weights) msk loss_agg_mode (ac_batch_info cfg))
                (\<lambda>pg_loss. Inr (pg_loss, clip_metrics low high c log_prob old_log_prob advantages msk))))"

text \<open>The deprecated function: the clip ranges are arguments, and one that is given nowhere is a \<open>TypeError\<close>.\<close>

definition compute_policy_loss ::
  "mat \<Rightarrow> mat \<Rightarrow> mat \<Rightarrow> mat \<Rightarrow> real option \<Rightarrow> real option \<Rightarrow> real option \<Rightarrow> real \<Rightarrow> string \<Rightarrow> (real \<times> pg_metrics) result" where
  "compute_policy_loss old_log_prob log_prob advantages msk cliprange cliprange_low cliprange_high c loss_agg_mode =
     res_bind (py_assert (c > 1)) (\<lambda>_.
       case (if cliprange_low = None then cliprange else cliprange_low, if cliprange_high = None then cliprange else cliprange_high) of
         (Some low, Some high) \<Rightarrow>
           let ratio = mat_map2 token_ratio log_prob old_log_prob;
               pg_losses = mat_map2 (clip_token_loss low high c) ratio advantages
           in res_bind (agg_loss pg_losses msk loss_agg_mode default_batch_info)
                (\<lambda>pg_loss. Inr (pg_loss, clip_metrics low high c log_prob old_log_prob advantages msk))
       | _ \<Rightarrow> Inl TypeError)"

text \<open>DPPO: the clamped ratio truncated from above, times the indicator that the token is still inside the trust region.\<close>

definition dppo_token_loss :: "real \<Rightarrow> bool \<Rightarrow> real \<Rightarrow> real \<Rightarrow> real \<Rightarrow> real" where
  "dppo_token_loss c valid ratio adv log_prob = - adv * min ratio c * log_prob * flag valid"

definition tv_valid :: "real \<Rightarrow> real \<Rightarrow> real \<Rightarrow> real \<Rightarrow> real \<Rightarrow> bool" where
  "tv_valid low high adv log_prob old_log_prob =
     (let d = exp log_prob - exp old_log_prob in if adv > 0 then d \<le> high else d \<ge> - low)"

definition kl_valid :: "real \<Rightarrow> real \<Rightarrow> real \<Rightarrow> real \<Rightarrow> real \<Rightarrow> bool" where
  "kl_valid low high adv log_prob old_log_prob =
     (let prob = exp log_prob;
          old_prob = exp old_log_prob;
          binary_kl = old_prob * (old_log_prob - log_prob) +
            (1 - old_prob) * ln ((1 - old_prob + 1 / 10 ^ 8) / (1 - prob + 1 / 10 ^ 8))
      in if adv > 0 then binary_kl \<le> high \<or> prob \<le> old_prob else binary_kl \<le> low \<or> prob \<ge> old_prob)"

definition dppo_loss ::
  "(real \<Rightarrow> real \<Rightarrow> real \<Rightarrow> real \<Rightarrow> real \<Rightarrow> bool) \<Rightarrow> mat \<Rightarrow> mat \<Rightarrow> mat \<Rightarrow> mat \<Rightarrow> string \<Rightarrow> actor_config \<Rightarrow> mat option \<Rightarrow>
   (real \<times> pg_metrics) result" where
  "dppo_loss valid_token old_log_prob log_prob advantages msk loss_agg_mode cfg rollout_is_weights =
     (let low = or_default (ac_clip_ratio_low cfg) (ac_clip_ratio cfg);
          high = or_default (ac_clip_ratio_high cfg) (ac_clip_ratio cfg);
          c = or_default (ac_clip_ratio_c cfg) 20;
          ratio = mat_map2 token_ratio log_prob old_log_prob;
          valid_mask = mat_map3 (valid_token low high) advantages log_prob old_log_prob;
          pg_losses = mat_map3 (\<lambda>v (r, a) l. dppo_token_loss c v r a l) valid_mask (mat_map2 Pair ratio advantages) log_prob
      in res_bind (agg_loss (apply_is_weights pg_losses rollout_is_weights) msk loss_agg_mode (ac_batch_info cfg))
           (\<lambda>pg_loss. Inr (pg_loss,
              \<lparr>pg_clipfrac = mat_mean (map (map (\<lambda>v. 1 - flag v)) valid_mask) msk,
               ppo_kl = approx_kl log_prob old_log_prob msk,
               pg_clipfrac_lower = mat_mean (mat_map2 (\<lambda>r v. flag (r > c) * flag v) ratio valid_mask) msk\<rparr>)))"

definition compute_policy_loss_dppo_tv ::
  "mat \<Rightarrow> mat \<Rightarrow> mat \<Rightarrow> mat \<Rightarrow> string \<Rightarrow> actor_config \<Rightarrow> mat option \<Rightarrow> (real \<times> pg_metrics) result" where
  "compute_policy_loss_dppo_tv = dppo_loss tv_valid"

definition compute_policy_loss_dppo_kl ::
  "mat \<Rightarrow> mat \<Rightarrow> mat \<Rightarrow> mat \<Rightarrow> string \<Rightarrow> actor_config \<Rightarrow> mat option \<Rightarrow> (real \<times> pg_metrics) result" where
  "compute_policy_loss_dppo_kl = dppo_loss kl_valid"

text \<open>
  GSPO: one importance ratio per sequence, the exponential of the mean log ratio of its tokens, optionally shifted
  by the router weights (\<open>apply_router_shift_to_log_ratio\<close> with its floor \<open>1e-8\<close>).
\<close>

definition apply_router_shift_to_log_ratio :: "mat \<Rightarrow> mat \<Rightarrow> mat" where
  "apply_router_shift_to_log_ratio log_ratio weight = mat_map2 (\<lambda>l w. l + ln (max w (1 / 10 ^ 8))) log_ratio weight"

definition gspo_seq_log_ratio :: "mat \<Rightarrow> mat \<Rightarrow> real list" where
  "gspo_seq_log_ratio log_ratio msk =
     map2 (\<lambda>s n. s / max n 1) (row_sums (mat_map2 (*) log_ratio msk)) (row_sums msk)"

definition compute_policy_loss_gspo ::
  "mat \<Rightarrow> mat \<Rightarrow> mat \<Rightarrow> mat \<Rightarrow> actor_config \<Rightarrow> mat option \<Rightarrow> mat option \<Rightarrow> (real \<times> pg_metrics) result" where
  "compute_policy_loss_gspo old_log_prob log_prob advantages msk cfg rollout_is_weights router_shift_weight =
     (let low = or_default (ac_clip_ratio_low cfg) (ac_clip_ratio cfg);
          high = or_default (ac_clip_ratio_high cfg) (ac_clip_ratio cfg);
          raw = mat_map2 (-) log_prob old_log_prob;
          negative_approx_kl = (case router_shift_weight of None \<Rightarrow> raw | Some w \<Rightarrow> apply_router_shift_to_log_ratio raw w);
          seq = gspo_seq_log_ratio negative_approx_kl msk;
          ratio = map2 (\<lambda>s row. map (\<lambda>l. exp (min (l - l + s) 10)) row) seq log_prob;
          pg_losses = mat_map2 (\<lambda>r a. max (clip_loss1 r a) (clip_loss2 low high r a)) ratio advantages
      in res_bind (agg_loss (apply_is_weights pg_losses rollout_is_weights) msk ''seq-mean-token-mean'' (ac_batch_info cfg))
           (\<lambda>pg_loss. Inr (pg_loss,
              \<lparr>pg_clipfrac = mat_mean (mat_map2 (\<lambda>r a. flag (clip_loss2 low high r a > clip_loss1 r a)) ratio advantages) msk,
               ppo_kl = mat_mean (map (map uminus) negative_approx_kl) msk,
               pg_clipfrac_lower = 0\<rparr>)))"

text \<open>SAPO: a smooth gate instead of a clip.\<close>

definition sigmoid :: "real \<Rightarrow> real" where
  "sigmoid x = 1 / (1 + exp (- x))"

definition sapo_gate :: "real \<Rightarrow> real \<Rightarrow> real" where
  "sapo_gate x tau = sigmoid (tau * (x - 1)) * (4 / tau)"

definition compute_policy_loss_sapo ::
  "mat \<Rightarrow> mat \<Rightarrow> mat \<Rightarrow> mat \<Rightarrow> actor_config \<Rightarrow> mat option \<Rightarrow> (real \<times> pg_metrics) result" where
  "compute_policy_loss_sapo old_log_prob log_prob advantages msk cfg rollout_is_weights =
     (let ratio = mat_map2 token_ratio log_prob old_log_prob;
          pg_losses = mat_map2 (\<lambda>r a. - sapo_gate r (if a > 0 then ac_tau_pos cfg else ac_tau_neg cfg) * a) ratio advantages
      in res_bind (agg_loss (apply_is_weights pg_losses rollout_is_weights) msk ''seq-mean-token-mean'' (ac_batch_info cfg))
           (\<lambda>pg_loss. Inr (pg_loss,
              \<lparr>pg_clipfrac = 0, ppo_kl = approx_kl log_prob old_log_prob msk, pg_clipfrac_lower = 0\<rparr>)))"

definition compute_policy_loss_gpg ::
  "mat \<Rightarrow> mat \<Rightarrow> mat \<Rightarrow> string \<Rightarrow> actor_config \<Rightarrow> mat option \<Rightarrow> real result" where
  "compute_policy_loss_gpg log_prob advantages msk loss_agg_mode cfg rollout_is_weights =
     agg_loss (apply_is_weights (mat_map2 (\<lambda>l a. - l * a) log_prob advantages) rollout_is_weights) msk loss_agg_mode
       (ac_batch_info cfg)"

text \<open>CISPO: the clipped ratio is a weight of the log probability.\<close>

definition compute_policy_loss_cispo ::
  "mat \<Rightarrow> mat \<Rightarrow> mat \<Rightarrow> mat \<Rightarrow> string \<Rightarrow> actor_config \<Rightarrow> mat option \<Rightarrow> (real \<times> pg_metrics) result" where
  "compute_policy_loss_cispo old_log_prob log_prob advantages msk loss_agg_mode cfg rollout_is_weights =
     (let low = or_default (ac_clip_ratio_low cfg) (ac_clip_ratio cfg);
          high = or_default (ac_clip_ratio_high cfg) (ac_clip_ratio cfg);
          ratio = mat_map2 token_ratio log_prob old_log_prob;
          clipped_ratio = map (map (\<lambda>r. clamp r (1 - low) (1 + high))) ratio;
          pg_losses = mat_map3 (\<lambda>r a l. - r * a * l) clipped_ratio advantages log_prob
      in res_bind (agg_loss (apply_is_weights pg_losses rollout_is_weights) msk loss_agg_mode (ac_batch_info cfg))
           (\<lambda>pg_loss. Inr (pg_loss,
              \<lparr>pg_clipfrac = mat_mean (mat_map2 (\<lambda>r r'. flag (r \<noteq> r')) ratio clipped_ratio) msk,
               ppo_kl = approx_kl log_prob old_log_prob msk, pg_clipfrac_lower = 0\<rparr>)))"

text \<open>GMPO: token-level clipping of the log ratio against the sign of the advantage, then one geometric mean per sequence.\<close>

definition gmpo_token :: "real \<Rightarrow> real \<Rightarrow> real \<Rightarrow> real \<Rightarrow> real" where
  "gmpo_token low high kl adv = (let s = sgn adv in s * min (s * kl) (s * clamp kl (- low) high))"

definition seq_token_mean :: "mat \<Rightarrow> mat \<Rightarrow> real list" where
  "seq_token_mean vals msk = map2 (\<lambda>s n. s / (n + 1 / 10 ^ 8)) (row_sums (mat_map2 (*) vals msk)) (row_sums msk)"

definition compute_policy_loss_geo_mean ::
  "mat \<Rightarrow> mat \<Rightarrow> mat \<Rightarrow> mat \<Rightarrow> actor_config \<Rightarrow> mat option \<Rightarrow> real \<times> pg_metrics" where
  "compute_policy_loss_geo_mean old_log_prob log_prob advantages msk cfg rollout_is_weights =
     (let low = or_default (ac_clip_ratio_low cfg) (ac_clip_ratio cfg);
          high = or_default (ac_clip_ratio_high cfg) (ac_clip_ratio cfg);
          kl = mat_map2 (-) log_prob old_log_prob;
          ratio = map exp (seq_token_mean (mat_map2 (gmpo_token low high) kl advantages) msk);
          advantage = seq_token_mean advantages msk;
          pg_losses = map2 (\<lambda>a r. - a * r) advantage ratio;
          weighted = (case rollout_is_weights of
             None \<Rightarrow> pg_losses
           | Some w \<Rightarrow> map2 (*) pg_losses (map exp (seq_token_mean (map (map (\<lambda>x. ln (x + 1 / 10 ^ 10))) w) msk)));
          clipped = map (map (\<lambda>x. x \<noteq> clamp x (- low) high)) kl
      in (torch_mean weighted,
          \<lparr>pg_clipfrac = mat_mean (mat_map2 (\<lambda>b a. flag (b \<and> a > 0)) clipped advantages) msk,
           ppo_kl = mat_mean (map (map uminus) kl) msk,
           pg_clipfrac_lower = mat_mean (mat_map2 (\<lambda>b a. flag (b \<and> a < 0)) clipped advantages) msk\<rparr>))"

text \<open>
  Clip-Cov: a few randomly chosen tokens with a large covariance leave the loss. The tokens that are clipped or
  masked have covariance minus infinity in the code and fail the test against the lower bound.
  \<open>torch.randperm\<close> is the parameter \<open>randperm\<close>.
\<close>

definition mat_positions :: "(bool list) list \<Rightarrow> (nat \<times> nat) list" where
  "mat_positions a = concat (map (\<lambda>i. map (Pair i) (filter (\<lambda>j. a ! i ! j) [0..<length (a ! i)])) [0..<length a])"

definition mat_mark :: "(nat \<times> nat) list \<Rightarrow> mat \<Rightarrow> mat" where
  "mat_mark ps a = map (\<lambda>i. map (\<lambda>j. if (i, j) \<in> set ps then 0 else 1) [0..<length (a ! i)]) [0..<length a]"

definition clip_cov_tokens ::
  "(nat \<Rightarrow> nat list) \<Rightarrow> real \<Rightarrow> real \<Rightarrow> real \<Rightarrow> real \<Rightarrow> real \<Rightarrow> mat \<Rightarrow> mat \<Rightarrow> mat \<Rightarrow> mat \<Rightarrow> (nat \<times> nat) list" where
  "clip_cov_tokens randperm clip_cov_ratio lb ub low high ratio log_prob advantages msk =
     (let mean_adv = mat_mean advantages msk;
          mean_logp = mat_mean log_prob msk;
          clip_num = max \<lfloor>clip_cov_ratio * sum_list (concat msk)\<rfloor> 1;
          eligible = mat_map2 (\<lambda>(r, m) (a, l).
             let cov = (a - mean_adv) * (l - mean_logp);
                 clip_by_origin = clip_loss2 low high r a > clip_loss1 r a \<and> m > 0
             in m > 0 \<and> \<not> clip_by_origin \<and> cov < ub \<and> cov > lb)
             (mat_map2 Pair ratio msk) (mat_map2 Pair advantages log_prob);
          top_k_idx = mat_positions eligible
      in map ((!) top_k_idx) (take (min (nat clip_num) (length top_k_idx)) (randperm (length top_k_idx))))"

definition compute_policy_loss_clip_cov ::
  "(nat \<Rightarrow> nat list) \<Rightarrow> mat \<Rightarrow> mat \<Rightarrow> mat \<Rightarrow> mat \<Rightarrow> string \<Rightarrow> actor_config \<Rightarrow> mat option \<Rightarrow> (real \<times> real \<times> real) result" where
  "compute_policy_loss_clip_cov randperm old_log_prob log_prob advantages msk loss_agg_mode cfg rollout_is_weights =
     (let pl = ac_policy_loss cfg;
          clip_cov_ratio = or_default (pl_clip_cov_ratio pl) (2 / 10 ^ 4);
          low = or_default (ac_clip_ratio_low cfg) (ac_clip_ratio cfg);
          high = or_default (ac_clip_ratio_high cfg) (ac_clip_ratio cfg);
          ub = or_default (pl_clip_cov_ub pl) 5;
          lb = or_default (pl_clip_cov_lb pl) 1
      in res_bind (py_assert (clip_cov_ratio > 0)) (\<lambda>_.
           let kl = mat_map2 (-) log_prob old_log_prob;
               ratio = map (map exp) kl;
               corr = mat_mark (clip_cov_tokens randperm clip_cov_ratio lb ub low high ratio log_prob advantages msk) advantages;
               pg_losses = mat_map3 (\<lambda>r a c. max (clip_loss1 r a) (clip_loss2 low high r a) * c) ratio advantages corr
           in res_bind (agg_loss (apply_is_weights pg_losses rollout_is_weights) msk loss_agg_mode (ac_batch_info cfg))
                (\<lambda>pg_loss. Inr (pg_loss, mat_mean (map (map (\<lambda>c. flag (c = 0))) corr) msk,
                   mat_mean (map (map uminus) kl) msk))))"

text \<open>
  KL-Cov: the valid tokens with the largest covariances get a KL penalty. \<open>torch.topk\<close>, whose order among ties is
  not documented, is the parameter \<open>topk\<close>; asking it for more elements than there are raises.
\<close>

definition kl_cov_tokens :: "(real list \<Rightarrow> nat \<Rightarrow> nat list) \<Rightarrow> real \<Rightarrow> mat \<Rightarrow> mat \<Rightarrow> mat \<Rightarrow> (nat \<times> nat) list result" where
  "kl_cov_tokens topk kl_cov_ratio log_prob advantages msk =
     (let valid = mat_positions (map (map (\<lambda>m. m > 0)) msk);
          adv = map (\<lambda>(i, j). advantages ! i ! j) valid;
          logp = map (\<lambda>(i, j). log_prob ! i ! j) valid
      in if min kl_cov_ratio (real (length adv)) \<noteq> 0 then
           let cov = map2 (\<lambda>a l. (a - torch_mean adv) * (l - torch_mean logp)) adv logp;
               k = max 1 \<lfloor>real (length cov) * kl_cov_ratio\<rfloor>
           in if k > int (length cov) then Inl RuntimeError
              else Inr (map ((!) valid) (topk cov (nat k)))
         else Inr [])"

definition compute_policy_loss_kl_cov ::
  "(real list \<Rightarrow> nat \<Rightarrow> nat list) \<Rightarrow> mat \<Rightarrow> mat \<Rightarrow> mat \<Rightarrow> mat \<Rightarrow> string \<Rightarrow> actor_config \<Rightarrow> mat option \<Rightarrow> (real \<times> real) result" where
  "compute_policy_loss_kl_cov topk old_log_prob log_prob advantages msk loss_agg_mode cfg rollout_is_weights =
     (let pl = ac_policy_loss cfg;
          kl_cov_ratio = or_default (pl_kl_cov_ratio pl) (2 / 10 ^ 4);
          coef = or_default (pl_ppo_kl_coef pl) 1
      in res_bind (py_assert (kl_cov_ratio > 0)) (\<lambda>_.
           let kl = mat_map2 (-) log_prob old_log_prob
           in res_bind (kl_cov_tokens topk kl_cov_ratio log_prob advantages msk) (\<lambda>chosen.
              let unchosen = mat_mark chosen advantages;
                  pg_losses = mat_map3 (\<lambda>k a u. - a * exp k + (if u = 0 then coef * \<bar>k\<bar> else 0)) kl advantages unchosen
              in res_bind (agg_loss (apply_is_weights pg_losses rollout_is_weights) msk loss_agg_mode (ac_batch_info cfg))
                   (\<lambda>pg_loss. Inr (pg_loss, mat_mean (map (map abs) kl) msk)))))"

section \<open>REINFORCE, entropy and value losses\<close>

definition compute_policy_loss_reinforce ::
  "mat \<Rightarrow> mat \<Rightarrow> mat \<Rightarrow> mat \<Rightarrow> string \<Rightarrow> actor_config \<Rightarrow> mat option \<Rightarrow> (real \<times> real) result" where
  "compute_policy_loss_reinforce rollout_log_prob log_prob advantages msk loss_agg_mode cfg rollout_is_weights =
     (let pg_losses = apply_is_weights (mat_map2 (\<lambda>a l. - a * l) advantages log_prob) rollout_is_weights
      in res_bind (agg_loss pg_losses msk loss_agg_mode (ac_batch_info cfg)) (\<lambda>pg_loss.
           Inr (pg_loss, mat_mean (mat_map2 (\<lambda>l r. - (l - r)) log_prob rollout_log_prob) msk)))"

definition log_sum_exp :: "real list \<Rightarrow> real" where
  "log_sum_exp logits = ln (\<Sum>x \<leftarrow> logits. exp x)"

definition entropy_from_logits :: "real list \<Rightarrow> real" where
  "entropy_from_logits logits = log_sum_exp logits - (\<Sum>x \<leftarrow> logits. exp x / (\<Sum>y \<leftarrow> logits. exp y) * x)"

definition compute_entropy_loss :: "real list list list \<Rightarrow> mat \<Rightarrow> string \<Rightarrow> real result" where
  "compute_entropy_loss logits msk loss_agg_mode =
     agg_loss (map (map entropy_from_logits) logits) msk loss_agg_mode default_batch_info"

definition value_token_losses :: "real \<Rightarrow> real \<Rightarrow> real \<Rightarrow> real \<Rightarrow> real \<times> real" where
  "value_token_losses cliprange vpred ret val =
     ((vpred - ret) ^ 2, (clip_by_value vpred (val - cliprange) (val + cliprange) - ret) ^ 2)"

definition compute_value_loss ::
  "mat \<Rightarrow> mat \<Rightarrow> mat \<Rightarrow> mat \<Rightarrow> real \<Rightarrow> string \<Rightarrow> batch_info \<Rightarrow> (real \<times> real) result" where
  "compute_value_loss vpreds returns values msk cliprange_value loss_agg_mode info =
     (let losses = mat_map3 (value_token_losses cliprange_value) vpreds returns values
      in res_bind (agg_loss (map (map (\<lambda>(l1, l2). max l1 l2)) losses) msk loss_agg_mode info) (\<lambda>l.
           Inr (1 / 2 * l, mat_mean (map (map (\<lambda>(l1, l2). flag (l2 > l1))) losses) msk)))"

section \<open>KL penalties\<close>

definition kl_penalty_forward :: "real \<Rightarrow> real \<Rightarrow> string \<Rightarrow> real result" where
  "kl_penalty_forward logprob ref_logprob kind =
     (if kind \<in> {''kl'', ''k1''} then Inr (logprob - ref_logprob)
      else if kind = ''abs'' then Inr \<bar>logprob - ref_logprob\<bar>
      else if kind \<in> {''mse'', ''k2''} then Inr (1 / 2 * (logprob - ref_logprob) ^ 2)
      else if kind \<in> {''low_var_kl'', ''k3''} then
        let kl = clamp (ref_logprob - logprob) (- 20) 20;
            kld = exp kl - kl - 1
        in Inr (clamp kld (- 10) 10)
      else Inl NotImplementedError)"

definition kl_penalty :: "real \<Rightarrow> real \<Rightarrow> string \<Rightarrow> real result" where
  "kl_penalty logprob ref_logprob kind =
     (let base = (if ends_with ''+'' kind then butlast kind else kind)
      in res_bind (kl_penalty_forward logprob ref_logprob base) (\<lambda>forward_score.
           if \<not> ends_with ''+'' kind \<or> kind \<in> {''mse'', ''k2''} then Inr forward_score
           else
             let backward_score = 1 / 2 * (logprob - ref_logprob) ^ 2
             in Inr (backward_score - backward_score + forward_score)))"

definition compute_rewards :: "mat \<Rightarrow> mat \<Rightarrow> mat \<Rightarrow> real \<Rightarrow> mat" where
  "compute_rewards token_level_scores old_log_prob ref_log_prob kl_ratio =
     mat_map3 (\<lambda>s o' r. s - (o' - r) * kl_ratio) token_level_scores old_log_prob ref_log_prob"

section \<open>Aggregation over micro-batches and data-parallel ranks\<close>

text \<open>What a batch contributes to the loss, and what the sum of the contributions is divided by.\<close>

definition agg_numerator :: "string \<Rightarrow> mat \<Rightarrow> mat \<Rightarrow> real" where
  "agg_numerator mode l m =
     (if mode = ''token-mean'' then masked_sum (concat l) (concat m)
      else if mode = ''seq-mean-token-mean'' then
        masked_sum (map2 (\<lambda>l n. l / (n + 1 / 10 ^ 8)) (row_sums (mat_map2 (*) l m)) (row_sums m)) (seq_present m)
      else masked_sum (row_sums (mat_map2 (*) l m)) (seq_present m))"

definition agg_denominator :: "string \<Rightarrow> real \<Rightarrow> real \<Rightarrow> real option \<Rightarrow> nat \<Rightarrow> real" where
  "agg_denominator mode n g scale width =
     (if mode = ''token-mean'' then n
      else if mode = ''seq-mean-token-sum-norm'' then g * or_default scale (real width)
      else g)"

definition agg_modes :: "string list" where
  "agg_modes = [''token-mean'', ''seq-mean-token-sum'', ''seq-mean-token-sum-norm'', ''seq-mean-token-mean'']"

definition aligned :: "nat \<Rightarrow> mat \<times> mat \<Rightarrow> bool" where
  "aligned width lm \<longleftrightarrow> (case lm of (l, m) \<Rightarrow> l \<noteq> [] \<and> shaped (length l) width l \<and> shaped (length l) width m)"

lemma aligned_horizon: "aligned width (l, m) \<Longrightarrow> (case m of [] \<Rightarrow> 0 | row # _ \<Rightarrow> length row) = width"
  by (cases m) (auto simp: aligned_def shaped_def)

lemma agg_loss_global:
  assumes "mode \<in> set agg_modes" "aligned width (l, m)"
  shows "agg_loss l m mode \<lparr>bi_dp_size = dp, bi_batch_num_tokens = Some n, bi_global_batch_size = Some g, bi_loss_scale_factor = scale\<rparr> =
    Inr (agg_numerator mode l m / agg_denominator mode n g scale width * real dp)"
  using assms(1) aligned_horizon[OF assms(2)]
  by (auto simp: agg_modes_def agg_loss_def agg_numerator_def agg_denominator_def seq_mean_loss_def Let_def or_default_def
      split: option.splits)

lemma agg_loss_local:
  assumes "mode \<in> set agg_modes" "aligned width (l, m)"
  shows "agg_loss l m mode \<lparr>bi_dp_size = 1, bi_batch_num_tokens = None, bi_global_batch_size = None, bi_loss_scale_factor = scale\<rparr> =
    Inr (agg_numerator mode l m / agg_denominator mode (sum_list (concat m)) (sum_list (seq_present m)) scale width)"
  using assms(1) aligned_horizon[OF assms(2)]
  by (auto simp: agg_modes_def agg_loss_def agg_numerator_def agg_denominator_def seq_mean_loss_def Let_def or_default_def
      split: option.splits)

lemma masked_sum_append:
  "length vs = length ms \<Longrightarrow> masked_sum (vs @ vs') (ms @ ms') = masked_sum vs ms + masked_sum vs' ms'"
  by (simp add: masked_sum_def)

lemma length_concat_aligned: "shaped n w l \<Longrightarrow> shaped n w m \<Longrightarrow> length (concat l) = length (concat m)"
  unfolding shaped_def
  by (auto simp: length_concat list_all_length intro!: arg_cong[where f = sum_list] nth_equalityI)

lemma agg_numerator_append:
  assumes "aligned width (l, m)"
  shows "agg_numerator mode (l @ l') (m @ m') = agg_numerator mode l m + agg_numerator mode l' m'"
proof -
  have len: "length l = length m" "length (concat l) = length (concat m)"
    using assms length_concat_aligned[of "length l" width l m] by (auto simp: aligned_def shaped_def)
  then show ?thesis
    by (simp add: agg_numerator_def masked_sum_append row_sums_def seq_present_def mat_map2_def)
qed

lemma agg_numerator_concat:
  assumes "\<forall>b \<in> set bs. aligned width b"
  shows "agg_numerator mode (concat (map fst bs)) (concat (map snd bs)) = (\<Sum>(l, m) \<leftarrow> bs. agg_numerator mode l m)"
  using assms
proof (induction bs)
  case Nil
  then show ?case by (simp add: agg_numerator_def masked_sum_def row_sums_def mat_map2_def)
next
  case (Cons b bs)
  obtain l m where b: "b = (l, m)" by (cases b)
  with Cons.prems have "aligned width (l, m)" by simp
  from agg_numerator_append[OF this] Cons show ?case by (simp add: b)
qed

lemma aligned_concat:
  "bs \<noteq> [] \<Longrightarrow> \<forall>b \<in> set bs. aligned width b \<Longrightarrow> aligned width (concat (map fst bs), concat (map snd bs))"
proof (induction bs rule: list_nonempty_induct)
  case (cons b bs)
  then show ?case by (cases b) (auto simp: aligned_def shaped_def)
qed (auto simp: aligned_def)

lemma sum_list_frac: "(\<Sum>x \<leftarrow> xs. f x / d * k) = (\<Sum>x \<leftarrow> xs. f x) / d * (k :: real)"
  by (induction xs) (auto simp: algebra_simps add_divide_distrib)

text \<open>The loss of one rank: the sum over its micro-batches, which is what gradient accumulation adds up.\<close>

definition rank_loss :: "string \<Rightarrow> batch_info \<Rightarrow> (mat \<times> mat) list \<Rightarrow> real result" where
  "rank_loss mode info micros = res_bind (res_map (\<lambda>(l, m). agg_loss l m mode info) micros) (\<lambda>ls. Inr (sum_list ls))"

text \<open>
  C13: the aggregated loss does not depend on how the batch is divided. When the rows of a batch are spread in any
  way over data-parallel ranks and, on every rank, over micro-batches, and every call gets the number of ranks,
  valid tokens and present sequences of the whole batch, the average over the ranks of the losses they accumulate
  is the loss of the whole batch computed at once, in each of the four aggregation modes.
\<close>

theorem agg_loss_parallel_invariant:
  fixes scale :: "real option"
  assumes "mode \<in> set agg_modes" "ranks \<noteq> []" "[] \<notin> set ranks"
    and "\<forall>b \<in> set (concat ranks). aligned width b"
  defines "L \<equiv> concat (map fst (concat ranks))" and "M \<equiv> concat (map snd (concat ranks))"
  defines "info \<equiv> \<lparr>bi_dp_size = length ranks, bi_batch_num_tokens = Some (sum_list (concat M)),
             bi_global_batch_size = Some (sum_list (seq_present M)), bi_loss_scale_factor = scale\<rparr>"
  shows "\<exists>losses loss. res_map (rank_loss mode info) ranks = Inr losses \<and>
    agg_loss L M mode (default_batch_info\<lparr>bi_loss_scale_factor := scale\<rparr>) = Inr loss \<and> torch_mean losses = loss"
proof -
  let ?den = "agg_denominator mode (sum_list (concat M)) (sum_list (seq_present M)) scale width"
  let ?dp = "real (length ranks)"
  have part: "rank_loss mode info r = Inr ((\<Sum>(l, m) \<leftarrow> r. agg_numerator mode l m) / ?den * ?dp)" if "r \<in> set ranks" for r
  proof -
    have al: "\<forall>b \<in> set r. aligned width b" using assms(4) that by auto
    have "res_map (\<lambda>(l, m). agg_loss l m mode info) r = Inr (map (\<lambda>(l, m). agg_numerator mode l m / ?den * ?dp) r)"
      using al by (intro res_map_all_Inr) (auto simp: info_def agg_loss_global[OF assms(1)])
    moreover have "(\<Sum>(l, m) \<leftarrow> r. agg_numerator mode l m / ?den * ?dp) = (\<Sum>(l, m) \<leftarrow> r. agg_numerator mode l m) / ?den * ?dp"
      by (simp only: case_prod_unfold sum_list_frac)
    ultimately show ?thesis by (simp add: rank_loss_def)
  qed
  have run: "res_map (rank_loss mode info) ranks = Inr (map (\<lambda>r. (\<Sum>(l, m) \<leftarrow> r. agg_numerator mode l m) / ?den * ?dp) ranks)"
    using part by (rule res_map_all_Inr)
  have "concat ranks \<noteq> []" using assms(2,3) by (cases ranks) auto
  then have whole: "agg_loss L M mode (default_batch_info\<lparr>bi_loss_scale_factor := scale\<rparr>) = Inr (agg_numerator mode L M / ?den)"
    using agg_loss_local[OF assms(1) aligned_concat[OF _ assms(4)], of scale]
    by (simp add: default_batch_info_def L_def M_def)
  have "(\<Sum>r \<leftarrow> ranks. (\<Sum>(l, m) \<leftarrow> r. agg_numerator mode l m)) = agg_numerator mode L M"
    unfolding L_def M_def agg_numerator_concat[OF assms(4)] by (induction ranks) auto
  then have "(\<Sum>r \<leftarrow> ranks. (\<Sum>(l, m) \<leftarrow> r. agg_numerator mode l m) / ?den * ?dp) = agg_numerator mode L M / ?den * ?dp"
    by (simp only: sum_list_frac)
  with assms(2) have "torch_mean (map (\<lambda>r. (\<Sum>(l, m) \<leftarrow> r. agg_numerator mode l m) / ?den * ?dp) ranks) = agg_numerator mode L M / ?den"
    by (simp add: torch_mean_def)
  with run whole show ?thesis by blast
qed

text \<open>Three one-row micro-batches on two ranks.\<close>

lemma agg_loss_parallel_invariant_witness:
  "\<exists>losses. res_map (rank_loss ''token-mean'' \<lparr>bi_dp_size = 2, bi_batch_num_tokens = Some 4, bi_global_batch_size = Some 3,
       bi_loss_scale_factor = None\<rparr>)
     [[([[1, 2]], [[1, 1]]), ([[4, 7]], [[1, 0]])], [([[0, 5]], [[0, 1]])]] = Inr losses \<and>
   agg_loss [[1, 2], [4, 7], [0, 5]] [[1, 1], [1, 0], [0, 1]] ''token-mean'' default_batch_info = Inr (torch_mean losses)"
  using agg_loss_parallel_invariant[of "''token-mean''"
      "[[([[1, 2]], [[1, 1]]), ([[4, 7]], [[1, 0]])], [([[0, 5]], [[0, 1]])]]" 2 None]
  by (simp add: agg_modes_def aligned_def shaped_def seq_present_def default_batch_info_def numeral_2_eq_2 del: res_map.simps)

section \<open>The clipped objective\<close>

text \<open>
  The importance ratio that the clipped objective applies to an advantage: never above \<open>1 + high\<close> for a token to be
  made more likely; between \<open>1 - low\<close> and the dual-clip bound for a token to be made less likely.
\<close>

definition bounded_ratio :: "real \<Rightarrow> real \<Rightarrow> real \<Rightarrow> real \<Rightarrow> real \<Rightarrow> real" where
  "bounded_ratio low high c adv ratio = (if adv < 0 then min (max ratio (1 - low)) c else min ratio (1 + high))"

lemma clip_token_bounded:
  assumes "0 \<le> low + high"
  shows "clip_token_loss low high c ratio adv = - adv * bounded_ratio low high c adv ratio"
proof (cases "adv < 0")
  case True
  then have *: "max (- adv * x) (- adv * y) = - adv * max x y" "min (- adv * x) (- adv * y) = - adv * min x y" for x y
    by (auto simp: max_def min_def mult_le_cancel_left)
  have m: "max ratio (clamp ratio (1 - low) (1 + high)) = max ratio (1 - low)"
    using assms by (auto simp: clamp_def max_def min_def)
  have "clip_token_loss low high c ratio adv = min (- adv * c) (- adv * max ratio (clamp ratio (1 - low) (1 + high)))"
    using True by (simp only: clip_token_loss_def clip_loss1_def clip_loss2_def Let_def *(1) if_True)
  also have "\<dots> = - adv * bounded_ratio low high c adv ratio"
    unfolding m *(2) using True by (simp add: bounded_ratio_def min.commute)
  finally show ?thesis .
next
  case False
  then have *: "max (- adv * x) (- adv * y) = - adv * min x y" for x y
    by (cases "x \<le> y") (auto simp: max_def min_def mult_le_cancel_left mult_left_mono)
  have m: "min ratio (clamp ratio (1 - low) (1 + high)) = min ratio (1 + high)"
    using assms by (auto simp: clamp_def max_def min_def)
  show ?thesis
    using False m by (simp only: clip_token_loss_def clip_loss1_def clip_loss2_def Let_def * if_False bounded_ratio_def)
qed

text \<open>
  C14: the vanilla policy loss is the aggregate of \<open>- advantage * bounded ratio\<close> over the tokens. For a non-negative
  advantage the ratio is cut at \<open>1 + clip_ratio_high\<close> and has no lower cut; for a negative one it is at least
  \<open>1 - clip_ratio_low\<close> and at most the dual-clip constant. A dual-clip constant of at most 1 is refused.
\<close>

theorem ppo_clip_objective:
  assumes "0 \<le> low + high" "low = or_default (ac_clip_ratio_low cfg) (ac_clip_ratio cfg)"
    "high = or_default (ac_clip_ratio_high cfg) (ac_clip_ratio cfg)" "c = or_default (ac_clip_ratio_c cfg) 3"
  shows "(c \<le> 1 \<longrightarrow> compute_policy_loss_vanilla old_log_prob log_prob advantages msk mode cfg weights = Inl AssertionError) \<and>
    (1 < c \<longrightarrow> res_bind (compute_policy_loss_vanilla old_log_prob log_prob advantages msk mode cfg weights) (\<lambda>(l, _). Inr l) =
       agg_loss (apply_is_weights
         (mat_map2 (\<lambda>r a. - a * bounded_ratio low high c a r) (mat_map2 token_ratio log_prob old_log_prob) advantages) weights)
         msk mode (ac_batch_info cfg))"
proof -
  have "clip_token_loss low high c = (\<lambda>r a. - a * bounded_ratio low high c a r)"
    using clip_token_bounded[OF assms(1)] by (intro ext)
  then show ?thesis
    by (auto simp: compute_policy_loss_vanilla_def assms(2-4)[symmetric] Let_def py_assert_def res_bind_def split: sum.splits)
qed

definition demo_actor :: actor_config where
  "demo_actor = \<lparr>ac_clip_ratio = 1 / 5, ac_clip_ratio_low = None, ac_clip_ratio_high = Some (3 / 10), ac_clip_ratio_c = None,
     ac_tau_pos = 1, ac_tau_neg = 1,
     ac_policy_loss = \<lparr>pl_clip_cov_ratio = None, pl_clip_cov_lb = None, pl_clip_cov_ub = None, pl_kl_cov_ratio = None,
       pl_ppo_kl_coef = None\<rparr>,
     ac_batch_info = default_batch_info\<rparr>"

lemma ppo_clip_objective_witness:
  "res_bind (compute_policy_loss_vanilla [[0, 0]] [[0, 0]] [[2, - 3]] [[1, 1]] ''token-mean'' demo_actor None) (\<lambda>(l, _). Inr l) = Inr (1 / 2)"
proof -
  have "res_bind (compute_policy_loss_vanilla [[0, 0]] [[0, 0]] [[2, - 3]] [[1, 1]] ''token-mean'' demo_actor None) (\<lambda>(l, _). Inr l) =
      agg_loss (apply_is_weights (mat_map2 (\<lambda>r a. - a * bounded_ratio (1 / 5) (3 / 10) 3 a r)
         (mat_map2 token_ratio [[0, 0]] [[0, 0]]) [[2, - 3]]) None) [[1, 1]] ''token-mean'' (ac_batch_info demo_actor)"
    by (rule ppo_clip_objective[THEN conjunct2, THEN mp]) (simp_all add: demo_actor_def or_default_def)
  also have "\<dots> = agg_loss [[- 2, 3]] [[1, 1]] ''token-mean'' default_batch_info"
    by (simp add: demo_actor_def bounded_ratio_def apply_is_weights_def mat_map2_def token_ratio_def safe_log_ratio_def clamp_def)
  also have "\<dots> = Inr (1 / 2)"
    by (simp add: agg_loss_def default_batch_info_def masked_sum_def)
  finally show ?thesis .
qed

section \<open>KL estimators\<close>

lemma exp_minus_id_pos: "0 \<le> exp x - x - 1" for x :: real
  using exp_ge_add_one_self[of x] by linarith

lemma exp_minus_id_zero: "exp x - x - 1 = 0 \<longleftrightarrow> x = 0" for x :: real
proof
  assume "exp x - x - 1 = 0"
  then have "ln (exp x) = exp x - 1" by simp
  then have "exp x = 1" by (intro ln_eq_minus_one) auto
  then show "x = 0" by simp
qed simp

lemma seven_split:
  assumes "x \<in> {a, b, c, d, e, f, g}"
  obtains "x \<in> {a, b}" | "x = c" | "x \<in> {d, e}" | "x \<in> {f, g}"
  using assms by blast

definition kl_penalty_names :: "string set" where
  "kl_penalty_names = {''kl'', ''k1'', ''abs'', ''mse'', ''k2'', ''low_var_kl'', ''k3''}"

text \<open>
  What each KL penalty guarantees for one token. The estimators other than \<open>k1\<close> are never negative and vanish
  exactly when the two log probabilities agree, \<open>k3\<close> is at most 10, the straight-through variants with the suffix
  \<open>+\<close> have the value of the variant without, and any other name (also \<open>full\<close>) is refused.
\<close>

theorem kl_penalty_estimators:
  assumes "kind \<in> kl_penalty_names" "other \<notin> kl_penalty_names" "butlast other \<notin> kl_penalty_names"
  shows "\<exists>x. kl_penalty lp ref kind = Inr x \<and> kl_penalty lp ref (kind @ ''+'') = Inr x \<and>
    (if kind \<in> {''kl'', ''k1''} then x = lp - ref else 0 \<le> x \<and> (x = 0 \<longleftrightarrow> lp = ref)) \<and>
    (kind \<in> {''low_var_kl'', ''k3''} \<longrightarrow> x \<le> 10) \<and>
    kl_penalty lp ref other = Inl NotImplementedError"
proof -
  define k where "k = clamp (ref - lp) (- 20) 20"
  have k3: "0 \<le> clamp (exp k - k - 1) (- 10) 10" "clamp (exp k - k - 1) (- 10) 10 \<le> 10"
      "clamp (exp k - k - 1) (- 10) 10 = 0 \<longleftrightarrow> k = 0"
    using exp_minus_id_pos[of k] exp_minus_id_zero[of k] unfolding clamp_def by linarith+
  have cl: "k = 0 \<longleftrightarrow> lp = ref" unfolding k_def clamp_def by linarith
  have no: "kl_penalty lp ref other = Inl NotImplementedError"
    using assms(2,3) by (auto simp: kl_penalty_def kl_penalty_forward_def kl_penalty_names_def Let_def)
  have fwd: "kl_penalty lp ref kind = kl_penalty_forward lp ref kind" "kl_penalty lp ref (kind @ ''+'') = kl_penalty_forward lp ref kind"
    using assms(1) by (auto simp: kl_penalty_def kl_penalty_names_def ends_with_def Let_def res_bind_def split: sum.splits)
  from assms(1) consider "kind \<in> {''kl'', ''k1''}" | "kind = ''abs''" | "kind \<in> {''mse'', ''k2''}" | "kind \<in> {''low_var_kl'', ''k3''}"
    unfolding kl_penalty_names_def by (rule seven_split)
  then show ?thesis
  proof cases
    case 4
    then have "kl_penalty_forward lp ref kind = Inr (clamp (exp k - k - 1) (- 10) 10)"
      by (auto simp: kl_penalty_forward_def k_def Let_def)
    moreover have "kind \<notin> {''kl'', ''k1''}" using 4 by auto
    ultimately show ?thesis unfolding no fwd by (simp only: k3 cl sum.inject simp_thms if_False)
  next
    case 1
    then have "kl_penalty_forward lp ref kind = Inr (lp - ref)" by (auto simp: kl_penalty_forward_def)
    moreover have "kind \<notin> {''low_var_kl'', ''k3''}" using 1 by auto
    ultimately show ?thesis unfolding no fwd by (simp only: 1 sum.inject simp_thms if_True)
  next
    case 2
    then have "kl_penalty_forward lp ref kind = Inr \<bar>lp - ref\<bar>" by (simp add: kl_penalty_forward_def)
    moreover have "kind \<notin> {''low_var_kl'', ''k3''}" "kind \<notin> {''kl'', ''k1''}" using 2 by simp_all
    ultimately show ?thesis unfolding no fwd
      by (simp only: sum.inject simp_thms if_False abs_ge_zero abs_eq_0 right_minus_eq)
  next
    case 3
    then have "kl_penalty_forward lp ref kind = Inr (1 / 2 * (lp - ref) ^ 2)" by (auto simp: kl_penalty_forward_def)
    moreover have "kind \<notin> {''low_var_kl'', ''k3''}" "kind \<notin> {''kl'', ''k1''}" using 3 by auto
    moreover have "0 \<le> 1 / 2 * (lp - ref) ^ 2" "1 / 2 * (lp - ref) ^ 2 = 0 \<longleftrightarrow> lp = ref" by simp_all
    ultimately show ?thesis unfolding no fwd by (simp only: sum.inject simp_thms if_False)
  qed
qed

lemma kl_penalty_estimators_witness:
  "\<exists>x. kl_penalty (- 1) (- 3) ''k3'' = Inr x \<and> kl_penalty (- 1) (- 3) ''k3+'' = Inr x \<and> 0 \<le> x \<and> x \<noteq> 0 \<and> x \<le> 10"
  using kl_penalty_estimators[of "''k3''" "''full''" "- 1" "- 3"] by (auto simp: kl_penalty_names_def)

end
