(* ===== verification/Rollout_Correction.thy ===== *)
theory Rollout_Correction
  imports Policy_Loss
begin

text \<open>
  The correction of the mismatch between the rollout and the training policy
  (\<open>src/verl/verl/trainer/ppo/rollout_corr_helper.py\<close>) and the bypass-mode loss of
  \<open>src/verl/verl/trainer/ppo/core_algos.py\<close> that applies it: parsing of the threshold specifications, truncated
  importance weights, the rejection mask, and the dispatch to the losses. Of the diagnostic metrics the model keeps
  what decides whether a call returns. \<open>float(s)\<close> is the parameter \<open>to_float\<close>.
\<close>

section \<open>Threshold specifications\<close>

datatype threshold_spec = NumSpec real | TextSpec string | BoolSpec bool | OtherSpec

definition py_space :: "char \<Rightarrow> bool" where
  "py_space c \<longleftrightarrow> c \<in> {CHR '' '', CHR 0x09, CHR 0x0A, CHR 0x0B, CHR 0x0C, CHR 0x0D}"

definition py_strip :: "string \<Rightarrow> string" where
  "py_strip s = rev (dropWhile py_space (rev (dropWhile py_space s)))"

fun split_all :: "char \<Rightarrow> string \<Rightarrow> string list" where
  "split_all c [] = [[]]"
| "split_all c (x # xs) =
     (let rest = split_all c xs in if x = c then [] # rest else (x # hd rest) # tl rest)"

text \<open>\<open>s.split("_", 1)\<close> when the separator occurs.\<close>

definition split_first :: "char \<Rightarrow> string \<Rightarrow> (string \<times> string) option" where
  "split_first c s = (if c \<in> set s then Some (takeWhile ((\<noteq>) c) s, tl (dropWhile ((\<noteq>) c) s)) else None)"

definition parse_float :: "(string \<Rightarrow> real option) \<Rightarrow> string \<Rightarrow> real result" where
  "parse_float to_float s = (case to_float s of None \<Rightarrow> Inl ValueError | Some x \<Rightarrow> Inr x)"

definition parse_rollout_is_threshold :: "(string \<Rightarrow> real option) \<Rightarrow> threshold_spec \<Rightarrow> (real \<times> real option) result" where
  "parse_rollout_is_threshold to_float spec =
     res_bind
       (case spec of
          BoolSpec _ \<Rightarrow> Inl TypeError
        | NumSpec x \<Rightarrow> Inr (x, None)
        | TextSpec raw \<Rightarrow>
            (let s = py_strip raw in
             if s = [] then Inl ValueError
             else (case split_first CHR ''_'' s of
                 Some (lower_str, upper_str) \<Rightarrow>
                   res_bind (parse_float to_float lower_str) (\<lambda>lower.
                   res_bind (parse_float to_float upper_str) (\<lambda>upper. Inr (upper, Some lower)))
               | None \<Rightarrow> res_bind (parse_float to_float s) (\<lambda>upper. Inr (upper, None))))
        | OtherSpec \<Rightarrow> Inl TypeError)
     (\<lambda>(upper, lower).
        if upper \<le> 0 then Inl ValueError
        else case lower of
            None \<Rightarrow> Inr (upper, None)
          | Some l \<Rightarrow> if l \<le> 0 then Inl ValueError else if l > upper then Inl ValueError else Inr (upper, Some l))"

text \<open>
  One threshold per rejection option. A number is turned into its text, which has no underscore, and back, so it
  stays a number here; a boolean becomes a text that is not a float.
\<close>

datatype raw_spec = RawNum real | RawText string

definition raw_float :: "(string \<Rightarrow> real option) \<Rightarrow> raw_spec \<Rightarrow> real result" where
  "raw_float to_float r = (case r of RawNum x \<Rightarrow> Inr x | RawText s \<Rightarrow> parse_float to_float s)"

definition raw_split :: "raw_spec \<Rightarrow> (string \<times> string) option" where
  "raw_split r = (case r of RawNum _ \<Rightarrow> None | RawText s \<Rightarrow> split_first CHR ''_'' s)"

definition option_threshold :: "(string \<Rightarrow> real option) \<Rightarrow> string \<Rightarrow> raw_spec \<Rightarrow> (real option \<times> real) result" where
  "option_threshold to_float opt spec =
     (if ends_with ''k1'' opt then
        res_bind
          (case raw_split spec of
             Some (lower_str, upper_str) \<Rightarrow>
               res_bind (parse_float to_float lower_str) (\<lambda>lower.
               res_bind (parse_float to_float upper_str) (\<lambda>upper. Inr (lower, upper)))
           | None \<Rightarrow>
               res_bind (raw_float to_float spec) (\<lambda>upper.
                 if upper = 0 then Inl ZeroDivisionError else Inr (1 / upper, upper)))
        (\<lambda>(lower, upper). if lower \<le> 0 \<or> upper \<le> 0 then Inl ValueError else Inr (Some lower, upper))
      else if raw_split spec \<noteq> None then Inl ValueError
      else res_bind (raw_float to_float spec) (\<lambda>upper. if upper \<le> 0 then Inl ValueError else Inr (None, upper)))"

definition parse_rollout_rs_thresholds ::
  "(string \<Rightarrow> real option) \<Rightarrow> string list \<Rightarrow> threshold_spec option \<Rightarrow> (string, real option \<times> real) dict result" where
  "parse_rollout_rs_thresholds to_float options spec =
     res_bind
       (case spec of
          None \<Rightarrow> Inl ValueError
        | Some (NumSpec x) \<Rightarrow> Inr [RawNum x]
        | Some (BoolSpec b) \<Rightarrow> Inr [RawText (if b then ''True'' else ''False'')]
        | Some (TextSpec s) \<Rightarrow> Inr (map RawText (filter (\<lambda>p. p \<noteq> []) (map py_strip (split_all CHR '','' s))))
        | Some OtherSpec \<Rightarrow> Inl TypeError)
     (\<lambda>raw_specs.
        if raw_specs = [] then Inl ValueError
        else if length raw_specs \<notin> {1, length options} then Inl ValueError
        else
          let specs = (if length raw_specs = 1 \<and> length options > 1 then replicate (length options) (hd raw_specs) else raw_specs)
          in res_fold (\<lambda>(opt, spec) thresholds.
               res_bind (option_threshold to_float opt spec) (\<lambda>t. Inr (AList.update opt t thresholds)))
             (zip options specs) [])"

section \<open>Rejection sampling\<close>

definition rs_options :: "string list" where
  "rs_options = [''token_k1'', ''token_k2'', ''token_k3'', ''seq_sum_k1'', ''seq_sum_k2'', ''seq_sum_k3'',
     ''seq_mean_k1'', ''seq_mean_k2'', ''seq_mean_k3'', ''seq_max_k2'', ''seq_max_k3'']"

definition starts_with :: "string \<Rightarrow> string \<Rightarrow> bool" where
  "starts_with p s \<longleftrightarrow> take (length p) s = p"

text \<open>The estimators of a token, of its safe log ratio.\<close>

definition token_k :: "string \<Rightarrow> real \<Rightarrow> real" where
  "token_k opt r =
     (if ends_with ''k1'' opt then - r
      else if ends_with ''k2'' opt then 1 / 2 * r ^ 2
      else exp r - 1 - r)"

definition within_bounds :: "string \<Rightarrow> real option \<times> real \<Rightarrow> real \<Rightarrow> bool" where
  "within_bounds opt t x =
     (case t of
        (Some lower, upper) \<Rightarrow> if ends_with ''k1'' opt then ln lower \<le> x \<and> x \<le> ln upper else x \<le> upper
      | (None, upper) \<Rightarrow> x \<le> upper)"

definition sequence_max :: "real list \<Rightarrow> real list \<Rightarrow> real" where
  "sequence_max vs ms = (let xs = select_masked ms vs in if xs = [] then 0 else Max (set xs))"

definition sequence_stat :: "string \<Rightarrow> real list \<Rightarrow> real list \<Rightarrow> real" where
  "sequence_stat opt vs ms =
     (if starts_with ''seq_sum'' opt then masked_sum vs ms
      else if starts_with ''seq_mean'' opt then masked_mean vs ms
      else sequence_max vs ms)"

text \<open>Which tokens of a row an option keeps, and the options in the order given without repetitions.\<close>

definition option_keeps :: "string \<Rightarrow> real option \<times> real \<Rightarrow> real list \<Rightarrow> real list \<Rightarrow> bool list" where
  "option_keeps opt t log_ratio_safe ms =
     (let stats = map (token_k opt) log_ratio_safe
      in if starts_with ''token'' opt then map (within_bounds opt t) stats
         else map (\<lambda>_. within_bounds opt t (sequence_stat opt stats ms)) ms)"

definition normalized_options :: "string \<Rightarrow> string list result" where
  "normalized_options rollout_rs =
     (let modes = filter (\<lambda>p. p \<noteq> []) (map py_strip (split_all CHR '','' rollout_rs))
      in if modes = [] then Inl ValueError
         else res_fold (\<lambda>opt seen. if opt \<notin> set rs_options then Inl ValueError
                                   else Inr (if opt \<in> set seen then seen else seen @ [opt])) modes [])"

definition has_valid_token :: "mat \<Rightarrow> bool" where
  "has_valid_token msk \<longleftrightarrow> list_ex (\<lambda>m. m \<noteq> 0) (concat msk)"

definition compute_rollout_rejection_mask ::
  "(string \<Rightarrow> real option) \<Rightarrow> mat \<Rightarrow> mat \<Rightarrow> string \<Rightarrow> threshold_spec option \<Rightarrow> mat result" where
  "compute_rollout_rejection_mask to_float log_ratio msk rollout_rs spec =
     (if spec = None then Inl ValueError
      else if log_ratio = [] then Inr msk
      else
        res_bind (normalized_options rollout_rs) (\<lambda>options.
        res_bind (parse_rollout_rs_thresholds to_float options spec) (\<lambda>thresholds.
        let log_ratio_safe = map (map (\<lambda>r. clamp r (- 20) 20)) log_ratio in
        res_bind (res_fold (\<lambda>opt combined.
            res_bind (dict_index thresholds opt) (\<lambda>t.
              let token_keep = map2 (option_keeps opt t) log_ratio_safe msk
              in if \<not> has_valid_token msk then Inl ValueError
                 else Inr (mat_map2 (\<lambda>c b. c * flag b) combined token_keep)))
          options (map (map (\<lambda>_. 1)) msk)) (\<lambda>final_mask.
        Inr (mat_map2 (*) msk final_mask)))))"

section \<open>Importance weights\<close>

text \<open>
  The effective sample size among the metrics of the weights: the mean of the squared normalised weights is a Python
  float when it is divided by.
\<close>

definition is_eff_sample_size :: "mat \<Rightarrow> mat \<Rightarrow> real \<Rightarrow> real result" where
  "is_eff_sample_size weights msk threshold =
     (if \<not> has_valid_token msk then Inl ValueError
      else
        let weights_for_ess = map (map (\<lambda>w. clamp w 0 threshold)) weights;
            mean_for_ess = mat_mean weights_for_ess msk;
            normalized = map (map (\<lambda>w. w / (mean_for_ess + 1 / 10 ^ 8))) weights_for_ess;
            q = mat_mean (map (map (\<lambda>w. w ^ 2)) normalized) msk
        in if q = 0 then Inl ZeroDivisionError else Inr (1 / q))"

definition raw_is_weights :: "string \<Rightarrow> mat \<Rightarrow> mat \<Rightarrow> mat" where
  "raw_is_weights level log_ratio msk =
     mat_map2 (*)
       (if level = ''token'' then map (map (\<lambda>r. exp (clamp r (- 20) 20))) log_ratio
        else map2 (\<lambda>row ms. map (\<lambda>_. exp (clamp (masked_sum row ms) (- 20) 20)) row) log_ratio msk)
       msk"

definition truncate_weight :: "real \<Rightarrow> real option \<Rightarrow> real \<Rightarrow> real" where
  "truncate_weight upper lower w =
     (case lower of None \<Rightarrow> min w upper | Some l \<Rightarrow> if l \<le> w \<and> w \<le> upper then w else 0)"

text \<open>
  The mean used for batch normalisation: over tokens or over sequences, and over all ranks when the process group
  is initialised (\<open>all_mean\<close>, \<open>None\<close> otherwise).
\<close>

definition weights_mean :: "(real list \<Rightarrow> real list \<Rightarrow> real) option \<Rightarrow> string \<Rightarrow> mat \<Rightarrow> mat \<Rightarrow> real" where
  "weights_mean all_mean level weights msk =
     (if level = ''token'' then
        (case all_mean of Some f \<Rightarrow> f (concat weights) (concat msk) | None \<Rightarrow> mat_mean weights msk)
      else
        let seq_weights = map2 masked_mean weights msk;
            seq_mask = seq_present msk
        in case all_mean of
             Some f \<Rightarrow> f seq_weights seq_mask
           | None \<Rightarrow> sum_list (map2 (*) seq_weights seq_mask) / max (sum_list seq_mask) (1 / 10 ^ 8))"

definition compute_rollout_correction_weights ::
  "(string \<Rightarrow> real option) \<Rightarrow> (real list \<Rightarrow> real list \<Rightarrow> real) option \<Rightarrow> mat \<Rightarrow> mat \<Rightarrow> string \<Rightarrow> threshold_spec \<Rightarrow> bool \<Rightarrow> mat result" where
  "compute_rollout_correction_weights to_float all_mean log_ratio msk level spec batch_normalize =
     (if level \<notin> {''token'', ''sequence''} then Inl ValueError
      else
        res_bind (parse_rollout_is_threshold to_float spec) (\<lambda>(upper, lower).
          let weights = map (map (truncate_weight upper lower)) (raw_is_weights level log_ratio msk)
          in res_bind (is_eff_sample_size weights msk upper) (\<lambda>_.
               let mean = weights_mean all_mean level weights msk
               in Inr (if batch_normalize \<and> mean > 1 / 10 ^ 8 then map (map (\<lambda>w. w / mean)) weights else weights))))"

definition shapes_differ :: "'a list list \<Rightarrow> 'b list list \<Rightarrow> bool" where
  "shapes_differ a b \<longleftrightarrow> map length a \<noteq> map length b"

definition compute_rollout_correction_and_rejection_mask ::
  "(string \<Rightarrow> real option) \<Rightarrow> (real list \<Rightarrow> real list \<Rightarrow> real) option \<Rightarrow> mat \<Rightarrow> mat \<Rightarrow> mat \<Rightarrow>
   string option \<Rightarrow> threshold_spec option \<Rightarrow> bool \<Rightarrow> string option \<Rightarrow> threshold_spec option \<Rightarrow> (mat option \<times> mat) result" where
  "compute_rollout_correction_and_rejection_mask to_float all_mean old_log_prob rollout_log_prob msk
     rollout_is is_threshold batch_normalize rollout_rs rs_threshold =
     (if \<not> has_valid_token msk then Inl ValueError
      else if shapes_differ old_log_prob rollout_log_prob then Inl ValueError
      else if shapes_differ old_log_prob msk then Inl ValueError
      else
        let log_ratio = mat_map2 (-) old_log_prob rollout_log_prob in
        res_bind (case (rollout_is, is_threshold) of
            (Some level, Some spec) \<Rightarrow>
              res_bind (compute_rollout_correction_weights to_float all_mean log_ratio msk level spec batch_normalize)
                (\<lambda>w. Inr (Some w))
          | _ \<Rightarrow> Inr None) (\<lambda>weights.
        res_bind (case rollout_rs of
            None \<Rightarrow> Inr msk
          | Some rs \<Rightarrow>
              if rs_threshold = None then Inl ValueError
              else compute_rollout_rejection_mask to_float log_ratio msk rs rs_threshold) (\<lambda>modified.
        Inr (weights, modified))))"

section \<open>Bypass mode\<close>

record rollout_correction =
  rc_loss_type :: string
  rc_rollout_is :: "string option"
  rc_is_threshold :: "threshold_spec option"
  rc_batch_normalize :: bool
  rc_rollout_rs :: "string option"
  rc_rs_threshold :: "threshold_spec option"

definition compute_policy_loss_bypass_mode ::
  "(string \<Rightarrow> real option) \<Rightarrow> (real list \<Rightarrow> real list \<Rightarrow> real) option \<Rightarrow> mat \<Rightarrow> mat \<Rightarrow> mat \<Rightarrow> mat \<Rightarrow> string \<Rightarrow>
   actor_config \<Rightarrow> rollout_correction option \<Rightarrow> real result" where
  "compute_policy_loss_bypass_mode to_float all_mean old_log_prob log_prob advantages msk loss_agg_mode cfg corr =
     (case corr of
        None \<Rightarrow> Inl ValueError
      | Some rc \<Rightarrow>
          res_bind (compute_rollout_correction_and_rejection_mask to_float all_mean log_prob old_log_prob msk
             (rc_rollout_is rc) (rc_is_threshold rc) (rc_batch_normalize rc) (rc_rollout_rs rc) (rc_rs_threshold rc))
          (\<lambda>(weights, effective_mask).
             if rc_loss_type rc = ''reinforce'' then
               res_bind (compute_policy_loss_reinforce old_log_prob log_prob advantages effective_mask loss_agg_mode cfg weights)
                 (\<lambda>(pg_loss, _). Inr pg_loss)
             else if rc_loss_type rc = ''ppo_clip'' then
               res_bind (compute_policy_loss_vanilla old_log_prob log_prob advantages effective_mask loss_agg_mode cfg None)
                 (\<lambda>(pg_loss, _). Inr pg_loss)
             else Inl ValueError))"

section \<open>The rejection mask\<close>

text \<open>Whether an option accepts token \<open>j\<close> of a row: by its own estimator, or by that of its sequence.\<close>

definition accepts :: "string \<Rightarrow> real option \<times> real \<Rightarrow> real list \<Rightarrow> real list \<Rightarrow> nat \<Rightarrow> bool" where
  "accepts opt t log_ratio ms j =
     (let k = (\<lambda>r. token_k opt (clamp r (- 20) 20))
      in within_bounds opt t
           (if starts_with ''token'' opt then k (log_ratio ! j) else sequence_stat opt (map k log_ratio) ms))"

lemma option_keeps_nth:
  "length row = w \<Longrightarrow> length ms = w \<Longrightarrow> j < w \<Longrightarrow>
   option_keeps opt t (map (\<lambda>r. clamp r (- 20) 20) row) ms ! j = accepts opt t row ms j"
  by (simp add: option_keeps_def accepts_def Let_def comp_def)

lemma length_option_keeps: "length row = w \<Longrightarrow> length ms = w \<Longrightarrow> length (option_keeps opt t row ms) = w"
  by (simp add: option_keeps_def Let_def)

lemma rejection_fold:
  assumes shapes: "shaped n w lr" "shaped n w msk"
    and run: "res_fold (\<lambda>opt combined. res_bind (dict_index th opt) (\<lambda>t.
              let token_keep = map2 (option_keeps opt t) (map (map (\<lambda>r. clamp r (- 20) 20)) lr) msk
              in if \<not> has_valid_token msk then Inl ValueError
                 else Inr (mat_map2 (\<lambda>c b. c * flag b) combined token_keep))) options C = Inr F"
    and "shaped n w C"
  shows "shaped n w F \<and> (\<forall>i < n. \<forall>j < w. F ! i ! j =
    C ! i ! j * flag (\<forall>opt \<in> set options. accepts opt (the (map_of th opt)) (lr ! i) (msk ! i) j))"
  using run assms(4)
proof (induction options arbitrary: C)
  case Nil
  then show ?case by (simp add: flag_def)
next
  case (Cons opt options)
  obtain t where t: "map_of th opt = Some t"
    using Cons.prems(1) by (cases "map_of th opt") (auto simp: dict_index_def)
  let ?keep = "map2 (option_keeps opt t) (map (map (\<lambda>r. clamp r (- 20) 20)) lr) msk"
  have keep: "shaped n w ?keep" "i < n \<Longrightarrow> j < w \<Longrightarrow> ?keep ! i ! j = accepts opt t (lr ! i) (msk ! i) j" for i j
    using shapes by (auto simp: shaped_def list_all_length option_keeps_nth length_option_keeps)
  let ?C = "mat_map2 (\<lambda>c b. c * flag b) C ?keep"
  have C: "shaped n w ?C" by (rule shaped_mat_map2[OF Cons.prems(2) keep(1)])
  have nth: "?C ! i ! j = C ! i ! j * flag (accepts opt t (lr ! i) (msk ! i) j)" if "i < n" "j < w" for i j
    using mat_map2_nth[OF Cons.prems(2) keep(1) that] keep(2)[OF that] by simp
  have "res_fold (\<lambda>opt combined. res_bind (dict_index th opt) (\<lambda>t.
              let token_keep = map2 (option_keeps opt t) (map (map (\<lambda>r. clamp r (- 20) 20)) lr) msk
              in if \<not> has_valid_token msk then Inl ValueError
                 else Inr (mat_map2 (\<lambda>c b. c * flag b) combined token_keep))) options ?C = Inr F"
    using Cons.prems(1) t by (simp add: dict_index_def Let_def split: if_splits)
  from Cons.IH[OF this C] nth t show ?case by (auto simp: flag_def)
qed




















section \<open>Thresholds\<close>




lemma rejection_shape:
  assumes "shaped n w log_ratio" "shaped n w msk" "0 < n" "compute_rollout_rejection_mask to_float log_ratio msk rollout_rs spec = Inr modified"
  shows "shaped n w modified"
proof -
  have ne: "log_ratio \<noteq> []" using assms(1,3) by (auto simp: shaped_def)
  from assms(4) ne obtain options th F where
    run: "res_fold (\<lambda>opt combined. res_bind (dict_index th opt) (\<lambda>t.
              let token_keep = map2 (option_keeps opt t) (map (map (\<lambda>r. clamp r (- 20) 20)) log_ratio) msk
              in if \<not> has_valid_token msk then Inl ValueError
                 else Inr (mat_map2 (\<lambda>c b. c * flag b) combined token_keep))) options (map (map (\<lambda>_. 1)) msk) = Inr F"
    and m: "modified = mat_map2 (*) msk F"
    by (auto simp: compute_rollout_rejection_mask_def res_bind_eq_Inr Let_def split: if_splits)
  show ?thesis unfolding m
    by (rule shaped_mat_map2[OF assms(2)]) (use rejection_fold[OF assms(1,2) run shaped_map[OF assms(2)]] in blast)
qed


section \<open>The importance weights\<close>

lemma parse_is_threshold_bounds:
  "parse_rollout_is_threshold to_float spec = Inr (upper, lower) \<Longrightarrow> 0 < upper \<and> (\<forall>l. lower = Some l \<longrightarrow> 0 < l \<and> l \<le> upper)"
  by (auto simp: parse_rollout_is_threshold_def res_bind_eq_Inr split: if_splits option.splits)

lemma raw_is_weights_shape:
  assumes "shaped n w lr" "shaped n w msk"
  shows "shaped n w (raw_is_weights level lr msk)"
    "i < n \<Longrightarrow> j < w \<Longrightarrow> \<exists>r. raw_is_weights level lr msk ! i ! j = exp r * msk ! i ! j"
proof -
  let ?f = "if level = ''token'' then map (map (\<lambda>r. exp (clamp r (- 20) 20))) lr
     else map2 (\<lambda>row ms. map (\<lambda>_. exp (clamp (masked_sum row ms) (- 20) 20)) row) lr msk"
  have f: "shaped n w ?f" using assms by (auto simp: shaped_def list_all_length)
  show "shaped n w (raw_is_weights level lr msk)"
    unfolding raw_is_weights_def by (rule shaped_mat_map2[OF f assms(2)])
  assume ij: "i < n" "j < w"
  have "\<exists>r. ?f ! i ! j = exp r"
    using assms ij by (auto simp: shaped_def list_all_length)
  then show "\<exists>r. raw_is_weights level lr msk ! i ! j = exp r * msk ! i ! j"
    unfolding raw_is_weights_def mat_map2_nth[OF f assms(2) ij] by force
qed

text \<open>
  The importance weights are truncated. Every weight is zero on a masked token, and between zero and the upper
  threshold on a valid one; with a lower threshold (IcePop) it is zero or within both thresholds, without one it is
  positive on valid tokens.
\<close>

theorem is_weights_truncated:
  assumes "shaped n w log_ratio" "shaped n w msk" "list_all binary_row msk"
    and "parse_rollout_is_threshold to_float spec = Inr (upper, lower)"
    and "compute_rollout_correction_weights to_float all_mean log_ratio msk level spec False = Inr weights"
  shows "shaped n w weights \<and> (\<forall>i < n. \<forall>j < w.
    0 \<le> weights ! i ! j \<and> weights ! i ! j \<le> upper \<and>
    (msk ! i ! j = 0 \<longrightarrow> weights ! i ! j = 0) \<and>
    (case lower of None \<Rightarrow> msk ! i ! j = 1 \<longrightarrow> 0 < weights ! i ! j
     | Some l \<Rightarrow> weights ! i ! j = 0 \<or> l \<le> weights ! i ! j))"
proof -
  let ?raw = "raw_is_weights level log_ratio msk"
  have W: "weights = map (map (truncate_weight upper lower)) ?raw"
    using assms(4,5) by (auto simp: compute_rollout_correction_weights_def Let_def res_bind_eq_Inr split: if_splits)
  note th = parse_is_threshold_bounds[OF assms(4)]
  note raw = raw_is_weights_shape[OF assms(1,2)]
  have "0 \<le> weights ! i ! j \<and> weights ! i ! j \<le> upper \<and> (msk ! i ! j = 0 \<longrightarrow> weights ! i ! j = 0) \<and>
    (case lower of None \<Rightarrow> msk ! i ! j = 1 \<longrightarrow> 0 < weights ! i ! j
     | Some l \<Rightarrow> weights ! i ! j = 0 \<or> l \<le> weights ! i ! j)" if ij: "i < n" "j < w" for i j
  proof -
    obtain r where r: "?raw ! i ! j = exp r * msk ! i ! j" using raw(2)[OF ij] by blast
    have "weights ! i ! j = truncate_weight upper lower (exp r * msk ! i ! j)"
      unfolding W mat_map_nth[OF raw(1) ij] r ..
    moreover have "msk ! i ! j = 0 \<or> msk ! i ! j = 1"
      using assms(2,3) ij by (auto simp: shaped_def list_all_length binary_row_def)
    ultimately show ?thesis
      using th by (cases lower) (auto simp: truncate_weight_def)
  qed
  moreover have "shaped n w weights" unfolding W by (rule shaped_map[OF raw(1)])
  ultimately show ?thesis by blast
qed

lemma zip_concat_shaped:
  assumes "shaped n w a" "shaped n w b"
  shows "set (zip (concat a) (concat b)) = {(a ! i ! j, b ! i ! j) | i j. i < n \<and> j < w}"
proof -
  have "zip (concat a) (concat b) = concat (map2 zip a b)"
    using assms unfolding shaped_def
  proof (induction a b arbitrary: n rule: list_induct2')
    case (4 x xs y ys)
    from 4(2,3) have "zip (concat xs) (concat ys) = concat (map2 zip xs ys)"
      by (intro 4(1)[of "length xs"]) auto
    with 4 show ?case by simp
  qed auto
  also have "set \<dots> = (\<Union>i < n. set (zip (a ! i) (b ! i)))"
    using assms by (auto simp: shaped_def set_zip)
  also have "\<dots> = {(a ! i ! j, b ! i ! j) | i j. i < n \<and> j < w}"
    using shaped_nth[OF assms(1)] shaped_nth[OF assms(2)] by (auto simp: set_zip)
  finally show ?thesis .
qed

lemma masked_sum_zero:
  assumes "shaped n w a" "shaped n w m" "list_all binary_row m" "\<forall>i < n. \<forall>j < w. 0 \<le> a ! i ! j"
  shows "0 \<le> masked_sum (concat a) (concat m)"
    "masked_sum (concat a) (concat m) = 0 \<longleftrightarrow> (\<forall>i < n. \<forall>j < w. m ! i ! j \<noteq> 0 \<longrightarrow> a ! i ! j = 0)"
proof -
  have bin: "m ! i ! j = 0 \<or> m ! i ! j = 1" if "i < n" "j < w" for i j
    using assms(2,3) that by (auto simp: shaped_def list_all_length binary_row_def)
  let ?f = "\<lambda>(v, m). (if m \<noteq> 0 then v else 0) * m :: real"
  have pos: "0 \<le> x" if "x \<in> set (map ?f (zip (concat a) (concat m)))" for x
  proof -
    from that have "x \<in> ?f ` set (zip (concat a) (concat m))" by simp
    then obtain p where p: "x = ?f p" "p \<in> set (zip (concat a) (concat m))" by (rule imageE)
    then obtain i j where "i < n" "j < w" "p = (a ! i ! j, m ! i ! j)"
      unfolding zip_concat_shaped[OF assms(1,2)] by auto
    with p(1) bin[of i j] assms(4) show ?thesis by auto
  qed
  show "0 \<le> masked_sum (concat a) (concat m)" unfolding masked_sum_def by (rule sum_list_nonneg[OF pos])
  have "sum_list (map ?f (zip (concat a) (concat m))) = 0 \<longleftrightarrow> (\<forall>x \<in> set (map ?f (zip (concat a) (concat m))). x = 0)"
    by (rule sum_list_nonneg_eq_0_iff[OF pos])
  then have "masked_sum (concat a) (concat m) = 0 \<longleftrightarrow> (\<forall>p \<in> set (zip (concat a) (concat m)). ?f p = 0)"
    unfolding masked_sum_def set_map ball_simps(9) .
  also have "\<dots> \<longleftrightarrow> (\<forall>i < n. \<forall>j < w. m ! i ! j \<noteq> 0 \<longrightarrow> a ! i ! j = 0)"
    unfolding zip_concat_shaped[OF assms(1,2)] by fastforce
  finally show "masked_sum (concat a) (concat m) = 0 \<longleftrightarrow> (\<forall>i < n. \<forall>j < w. m ! i ! j \<noteq> 0 \<longrightarrow> a ! i ! j = 0)" .
qed

lemma mat_mean_zero:
  assumes "shaped n w a" "shaped n w m" "list_all binary_row m" "\<forall>i < n. \<forall>j < w. 0 \<le> a ! i ! j"
  shows "0 \<le> mat_mean a m" "mat_mean a m = 0 \<longleftrightarrow> (\<forall>i < n. \<forall>j < w. m ! i ! j \<noteq> 0 \<longrightarrow> a ! i ! j = 0)"
proof -
  have "0 \<le> sum_list (concat m)"
    using assms(3) by (intro sum_list_nonneg) (fastforce simp: list_all_iff binary_row_def)
  then have "0 < sum_list (concat m) + 1 / 10 ^ 8" by (intro add_nonneg_pos) auto
  then show "0 \<le> mat_mean a m" "mat_mean a m = 0 \<longleftrightarrow> (\<forall>i < n. \<forall>j < w. m ! i ! j \<noteq> 0 \<longrightarrow> a ! i ! j = 0)"
    using masked_sum_zero[OF assms] by (auto simp: mat_mean_def masked_mean_def)
qed

lemma eff_sample_size_iff:
  assumes "shaped n w weights" "shaped n w msk" "list_all binary_row msk" "has_valid_token msk"
    and "\<forall>i < n. \<forall>j < w. 0 \<le> weights ! i ! j \<and> weights ! i ! j \<le> upper"
  shows "if \<forall>i < n. \<forall>j < w. msk ! i ! j \<noteq> 0 \<longrightarrow> weights ! i ! j = 0
    then is_eff_sample_size weights msk upper = Inl ZeroDivisionError
    else \<exists>e. is_eff_sample_size weights msk upper = Inr e"
proof -
  define c where "c = map (map (\<lambda>x. clamp x 0 upper)) weights"
  define mean where "mean = mat_mean c msk"
  define sq where "sq = map (map (\<lambda>x. x ^ 2)) (map (map (\<lambda>x. x / (mean + 1 / 10 ^ 8))) c)"
  have c: "shaped n w c" unfolding c_def by (rule shaped_map[OF assms(1)])
  have cn: "c ! i ! j = weights ! i ! j" if "i < n" "j < w" for i j
    unfolding c_def mat_map_nth[OF assms(1) that] using assms(5) that by (simp add: clamp_def)
  have "0 \<le> mean" unfolding mean_def by (rule mat_mean_zero(1)[OF c assms(2,3)]) (use cn assms(5) in auto)
  then have mean: "mean + 1 / 10 ^ 8 \<noteq> 0" by (smt (verit) divide_pos_pos zero_less_power zero_less_one)
  have sq: "shaped n w sq" unfolding sq_def by (intro shaped_map c)
  have sqn: "sq ! i ! j = (weights ! i ! j / (mean + 1 / 10 ^ 8)) ^ 2" if "i < n" "j < w" for i j
    unfolding sq_def mat_map_nth[OF shaped_map[OF c] that] mat_map_nth[OF c that] cn[OF that] ..
  have "mat_mean sq msk = 0 \<longleftrightarrow> (\<forall>i < n. \<forall>j < w. msk ! i ! j \<noteq> 0 \<longrightarrow> weights ! i ! j = 0)"
    using mat_mean_zero(2)[OF sq assms(2,3)] mean by (auto simp: sqn)
  moreover have "is_eff_sample_size weights msk upper = (if mat_mean sq msk = 0 then Inl ZeroDivisionError else Inr (1 / mat_mean sq msk))"
    using assms(4) unfolding is_eff_sample_size_def Let_def c_def[symmetric] mean_def[symmetric] sq_def[symmetric] by (simp only: simp_thms if_False)
  ultimately show ?thesis by (simp only: split: if_split) blast
qed

text \<open>
  C16: when the call that computes the weights returns. With a single upper threshold it always does. With a lower
  and an upper threshold (IcePop) it returns exactly when some valid token has a weight within the thresholds;
  when all are outside, every weight is zero and the effective sample size among the metrics divides by zero.
\<close>

theorem is_weights_return_iff:
  assumes "shaped n w log_ratio" "shaped n w msk" "list_all binary_row msk" "has_valid_token msk"
    and "level \<in> {''token'', ''sequence''}" "parse_rollout_is_threshold to_float spec = Inr (upper, lower)"
  shows "if lower = None \<or> (\<exists>i < n. \<exists>j < w. msk ! i ! j = 1 \<and>
         the lower \<le> raw_is_weights level log_ratio msk ! i ! j \<and> raw_is_weights level log_ratio msk ! i ! j \<le> upper)
    then \<exists>weights. compute_rollout_correction_weights to_float all_mean log_ratio msk level spec bnorm = Inr weights
    else compute_rollout_correction_weights to_float all_mean log_ratio msk level spec bnorm = Inl ZeroDivisionError"
proof -
  let ?raw = "raw_is_weights level log_ratio msk"
  let ?W = "map (map (truncate_weight upper lower)) ?raw"
  note th = parse_is_threshold_bounds[OF assms(6)]
  note raw = raw_is_weights_shape[OF assms(1,2)]
  have bin: "msk ! i ! j = 0 \<or> msk ! i ! j = 1" if "i < n" "j < w" for i j
    using assms(2,3) that by (auto simp: shaped_def list_all_length binary_row_def)
  have W: "?W ! i ! j = truncate_weight upper lower (?raw ! i ! j)" if "i < n" "j < w" for i j
    using mat_map_nth[OF raw(1) that] .
  have nonneg: "0 \<le> ?raw ! i ! j" "msk ! i ! j = 1 \<Longrightarrow> 0 < ?raw ! i ! j" if "i < n" "j < w" for i j
    using raw(2)[OF that, of level] bin[OF that] by auto
  have bounds: "\<forall>i < n. \<forall>j < w. 0 \<le> ?W ! i ! j \<and> ?W ! i ! j \<le> upper"
    using nonneg(1) th by (auto simp: W truncate_weight_def split: option.splits)
  let ?zero = "\<forall>i < n. \<forall>j < w. msk ! i ! j \<noteq> 0 \<longrightarrow> ?W ! i ! j = 0"
  let ?ok = "lower = None \<or> (\<exists>i < n. \<exists>j < w. msk ! i ! j = 1 \<and> the lower \<le> ?raw ! i ! j \<and> ?raw ! i ! j \<le> upper)"
  have ok: "\<not> ?zero \<longleftrightarrow> ?ok"
  proof (cases lower)
    case None
    have "\<exists>p \<in> set (zip (concat msk) (concat msk)). fst p \<noteq> 0"
      using assms(4) by (auto simp: has_valid_token_def list_ex_iff zip_same_conv_map)
    then obtain i j where ij: "i < n" "j < w" "msk ! i ! j \<noteq> 0"
      unfolding zip_concat_shaped[OF assms(2,2)] by auto
    then have "0 < ?raw ! i ! j" using bin[OF ij(1,2)] nonneg(2)[OF ij(1,2)] by blast
    then have "?W ! i ! j \<noteq> 0" unfolding W[OF ij(1,2)] using th by (auto simp: truncate_weight_def None)
    with ij None show ?thesis by blast
  next
    case (Some l)
    have "msk ! i ! j \<noteq> 0 \<and> ?W ! i ! j \<noteq> 0 \<longleftrightarrow> msk ! i ! j = 1 \<and> l \<le> ?raw ! i ! j \<and> ?raw ! i ! j \<le> upper"
      if "i < n" "j < w" for i j
      unfolding W[OF that] using bin[OF that] th by (auto simp: truncate_weight_def Some)
    then show ?thesis by (auto simp: Some)
  qed
  have ess: "if ?zero then is_eff_sample_size ?W msk upper = Inl ZeroDivisionError
      else \<exists>e. is_eff_sample_size ?W msk upper = Inr e"
    by (rule eff_sample_size_iff[OF shaped_map[OF raw(1)] assms(2-4) bounds])
  have run: "compute_rollout_correction_weights to_float all_mean log_ratio msk level spec bnorm =
      res_bind (is_eff_sample_size ?W msk upper) (\<lambda>_. let mean = weights_mean all_mean level ?W msk
        in Inr (if bnorm \<and> mean > 1 / 10 ^ 8 then map (map (\<lambda>w. w / mean)) ?W else ?W))"
    using assms(5,6) by (auto simp: compute_rollout_correction_weights_def Let_def)
  show ?thesis
  proof (cases ?zero)
    case True
    then have "is_eff_sample_size ?W msk upper = Inl ZeroDivisionError" using ess by (simp only: if_True)
    then have "compute_rollout_correction_weights to_float all_mean log_ratio msk level spec bnorm = Inl ZeroDivisionError"
      unfolding run by (simp only: res_bind_Inl)
    moreover have "\<not> ?ok" using True ok by blast
    ultimately show ?thesis by (simp only: if_False)
  next
    case False
    then obtain e where "is_eff_sample_size ?W msk upper = Inr e" using ess by (simp only: if_False) blast
    then have "\<exists>weights. compute_rollout_correction_weights to_float all_mean log_ratio msk level spec bnorm = Inr weights"
      unfolding run by (simp only: res_bind_Inr Let_def) blast
    moreover have ?ok using False ok by blast
    ultimately show ?thesis by (simp only: if_True)
  qed
qed

section \<open>Witnesses on a batch of two responses\<close>

definition demo_float :: "string \<Rightarrow> real option" where
  "demo_float s = (if s = ''2'' then Some 2 else if s = ''3'' then Some 3 else None)"

lemma demo_thresholds:
  "parse_rollout_is_threshold demo_float (TextSpec ''2_3'') = Inr (3, Some 2)"
  "parse_rollout_is_threshold demo_float (NumSpec 2) = Inr (2, None)"
  by (simp_all add: parse_rollout_is_threshold_def split_first_def parse_float_def demo_float_def py_strip_def py_space_def)

lemma demo_eff_sample_size:
  "is_eff_sample_size [[1, 1], [1, 0]] [[1, 1], [1, 0]] 2 \<noteq> Inl e"
  by (simp add: is_eff_sample_size_def has_valid_token_def clamp_def mat_mean_def masked_mean_def masked_sum_def)

lemma demo_truncated: "truncate_weight 2 None 1 = 1" "truncate_weight 2 None 0 = 0"
  by (simp_all add: truncate_weight_def)

lemma demo_raw_weights: "raw_is_weights ''token'' [[0, 0], [0, 0]] [[1, 1], [1, 0]] = [[1, 1], [1, 0]]"
  by (simp add: raw_is_weights_def mat_map2_def clamp_def)

lemma is_weights_return_iff_witness:
  "compute_rollout_correction_weights demo_float None [[0, 0], [0, 0]] [[1, 1], [1, 0]] ''token'' (TextSpec ''2_3'') False =
     Inl ZeroDivisionError"
  using is_weights_return_iff[of 2 2 "[[0, 0], [0, 0]]" "[[1, 1], [1, 0]]" "''token''" demo_float "TextSpec ''2_3''" 3 "Some 2" None False]
  by (auto simp: shaped_def binary_row_def has_valid_token_def demo_thresholds demo_raw_weights less_2_cases_iff split: if_splits)

lemma is_weights_truncated_witness:
  "\<exists>weights. compute_rollout_correction_weights demo_float None [[0, 0], [0, 0]] [[1, 1], [1, 0]] ''token'' (NumSpec 2) False =
     Inr weights \<and> weights ! 1 ! 1 = 0 \<and> 0 < weights ! 0 ! 1 \<and> weights ! 0 ! 1 \<le> 2"
proof -
  obtain e where e: "is_eff_sample_size [[1, 1], [1, 0]] [[1, 1], [1, 0]] 2 = Inr e"
    using demo_eff_sample_size by (metis sum.exhaust)
  obtain weights where run: "compute_rollout_correction_weights demo_float None [[0, 0], [0, 0]] [[1, 1], [1, 0]] ''token'' (NumSpec 2) False = Inr weights"
    by (simp add: compute_rollout_correction_weights_def demo_thresholds demo_raw_weights demo_truncated Let_def e)
  then show ?thesis
    using is_weights_truncated[of 2 2 "[[0, 0], [0, 0]]" "[[1, 1], [1, 0]]" demo_float "NumSpec 2" 2 None None "''token''" weights]
    by (auto simp: shaped_def binary_row_def demo_thresholds)
qed

lemma demo_rejection:
  "compute_rollout_rejection_mask demo_float [[0, 3]] [[1, 1]] ''token_k2'' (Some (TextSpec ''2'')) = Inr [[1, 0]]"
  by (simp add: compute_rollout_rejection_mask_def normalized_options_def py_strip_def py_space_def rs_options_def
      parse_rollout_rs_thresholds_def option_threshold_def ends_with_def raw_split_def split_first_def raw_float_def parse_float_def
      demo_float_def dict_index_def has_valid_token_def option_keeps_def starts_with_def token_k_def within_bounds_def clamp_def
      mat_map2_def flag_def)



section \<open>The bypass-mode loss\<close>

lemma mat_map2_eqI:
  assumes "shaped n w a" "shaped n w b" "shaped n w a'" "shaped n w b'"
    and "\<And>i j. i < n \<Longrightarrow> j < w \<Longrightarrow> f (a ! i ! j) (b ! i ! j) = g (a' ! i ! j) (b' ! i ! j)"
  shows "mat_map2 f a b = mat_map2 g a' b'"
proof (intro nth_equalityI)
  show len: "length (mat_map2 f a b) = length (mat_map2 g a' b')" using assms by (simp add: mat_map2_def shaped_def)
  fix i assume "i < length (mat_map2 f a b)"
  then have i: "i < n" using assms by (simp add: mat_map2_def shaped_def)
  have lens: "length (mat_map2 f a b ! i) = w" "length (mat_map2 g a' b' ! i) = w"
    using shaped_nth[OF shaped_mat_map2[OF assms(1,2)] i] shaped_nth[OF shaped_mat_map2[OF assms(3,4)] i] .
  then show "length (mat_map2 f a b ! i) = length (mat_map2 g a' b' ! i)" by simp
  fix j assume "j < length (mat_map2 f a b ! i)"
  then have "j < w" using lens(1) by simp
  then show "mat_map2 f a b ! i ! j = mat_map2 g a' b' ! i ! j"
    using assms(5)[OF i] by (simp add: mat_map2_nth[OF assms(1,2) i] mat_map2_nth[OF assms(3,4) i])
qed

lemma map2_concat:
  "shaped n w a \<Longrightarrow> shaped n w b \<Longrightarrow> map2 f (concat a) (concat b) = concat (mat_map2 f a b)"
  unfolding shaped_def mat_map2_def
proof (induction a b arbitrary: n rule: list_induct2')
  case (4 x xs y ys)
  from 4(2,3) have "map2 f (concat xs) (concat ys) = concat (map2 (map2 f) xs ys)"
    by (intro 4(1)[of "length xs"]) auto
  with 4 show ?case by simp
qed auto

text \<open>The aggregated loss looks at unmasked tokens only.\<close>

lemma agg_loss_cong:
  assumes "shaped n w l" "shaped n w l'" "shaped n w m"
    and "\<And>i j. i < n \<Longrightarrow> j < w \<Longrightarrow> m ! i ! j \<noteq> 0 \<Longrightarrow> l ! i ! j = l' ! i ! j"
  shows "agg_loss l m mode info = agg_loss l' m mode info"
proof -
  have "mat_map2 f l m = mat_map2 f l' m" if "\<And>v. f v 0 = (0 :: real)" for f
    by (rule mat_map2_eqI[OF assms(1,3,2,3)]) (metis assms(4) that)
  then have eqs: "mat_map2 (*) l m = mat_map2 (*) l' m" "masked_sum (concat l) (concat m) = masked_sum (concat l') (concat m)"
    unfolding masked_sum_def map2_concat[OF assms(1,3)] map2_concat[OF assms(2,3)] by auto
  show ?thesis unfolding agg_loss_def eqs ..
qed

lemma correction_shapes:
  assumes "shaped n w lp" "shaped n w rp" "shaped n w msk" "0 < n"
    and "compute_rollout_correction_and_rejection_mask to_float all_mean lp rp msk level is_th bnorm rs rs_th = Inr (weights, modified)"
  shows "shaped n w modified" "\<And>wt. weights = Some wt \<Longrightarrow> shaped n w wt"
proof -
  let ?lr = "mat_map2 (-) lp rp"
  have lr: "shaped n w ?lr" by (rule shaped_mat_map2[OF assms(1,2)])
  have "modified = msk \<or> (\<exists>r. compute_rollout_rejection_mask to_float ?lr msk r rs_th = Inr modified)"
    using assms(5)
    by (auto simp: compute_rollout_correction_and_rejection_mask_def Let_def res_bind_eq_Inr split: if_splits option.splits)
  then show "shaped n w modified"
    using rejection_shape[OF lr assms(3,4)] assms(3) by blast
  fix wt assume "weights = Some wt"
  then obtain lv sp where "compute_rollout_correction_weights to_float all_mean ?lr msk lv sp bnorm = Inr wt"
    using assms(5)
    by (auto simp: compute_rollout_correction_and_rejection_mask_def Let_def res_bind_eq_Inr split: if_splits option.splits)
  then show "shaped n w wt"
    using shaped_map[OF shaped_map[OF raw_is_weights_shape(1)[OF lr assms(3)]]] shaped_map[OF raw_is_weights_shape(1)[OF lr assms(3)]]
    by (auto simp: compute_rollout_correction_weights_def Let_def res_bind_eq_Inr split: if_splits)
qed

lemma correction_weights_present:
  "compute_rollout_correction_and_rejection_mask to_float all_mean lp rp msk level is_th bnorm rs rs_th = Inr (weights, modified) \<Longrightarrow>
   weights = None \<longleftrightarrow> level = None \<or> is_th = None"
  by (auto simp: compute_rollout_correction_and_rejection_mask_def Let_def res_bind_eq_Inr split: if_splits option.splits)

lemma mat_map2_agree:
  assumes "shaped n w a" "shaped n w b" "shaped n w a'" "shaped n w b'" "i < n" "j < w" "a ! i ! j = a' ! i ! j" "b ! i ! j = b' ! i ! j"
  shows "mat_map2 f a b ! i ! j = mat_map2 f a' b' ! i ! j"
  using mat_map2_nth[OF assms(1,2,5,6), of f] mat_map2_nth[OF assms(3,4,5,6), of f] assms(7,8) by simp

text \<open>
  C17: what bypass mode applies to the loss. A token that the rejection mask removes acts on the loss only through the mask and
  the importance weights: two batches with the same modified mask that agree, on the tokens it keeps, in advantages and
  both log probabilities (and, for the reinforce loss, in the weights) have the same loss, whatever stands on the removed tokens.
  With the clipped loss the importance weights have no influence at all: the loss is that of the same
  configuration without them. (Through sequence statistics and batch normalisation the log probabilities of a removed
  token do take part in the mask and the weights of others.)
\<close>

theorem bypass_mode_semantics:
  assumes "shaped n w old_log_prob" "shaped n w log_prob" "shaped n w advantages" "shaped n w msk" "0 < n"
    and "shaped n w old_log_prob'" "shaped n w log_prob'" "shaped n w advantages'"
    and "compute_rollout_correction_and_rejection_mask to_float all_mean log_prob old_log_prob msk
      (rc_rollout_is rc) (rc_is_threshold rc) (rc_batch_normalize rc) (rc_rollout_rs rc) (rc_rs_threshold rc) = Inr (weights, modified)"
    and "compute_rollout_correction_and_rejection_mask to_float all_mean log_prob' old_log_prob' msk
      (rc_rollout_is rc) (rc_is_threshold rc) (rc_batch_normalize rc) (rc_rollout_rs rc) (rc_rs_threshold rc) = Inr (weights', modified)"
    and "\<forall>i < n. \<forall>j < w. modified ! i ! j \<noteq> 0 \<longrightarrow> advantages ! i ! j = advantages' ! i ! j \<and>
      log_prob ! i ! j = log_prob' ! i ! j \<and> old_log_prob ! i ! j = old_log_prob' ! i ! j \<and>
      (rc_loss_type rc = ''reinforce'' \<and> weights \<noteq> None \<longrightarrow> the weights ! i ! j = the weights' ! i ! j)"
  shows "compute_policy_loss_bypass_mode to_float all_mean old_log_prob log_prob advantages msk mode cfg (Some rc) =
         compute_policy_loss_bypass_mode to_float all_mean old_log_prob' log_prob' advantages' msk mode cfg (Some rc) \<and>
    (rc_loss_type rc = ''ppo_clip'' \<longrightarrow>
       compute_policy_loss_bypass_mode to_float all_mean old_log_prob log_prob advantages msk mode cfg (Some rc) =
       compute_policy_loss_bypass_mode to_float all_mean old_log_prob log_prob advantages msk mode cfg
         (Some (rc\<lparr>rc_rollout_is := None\<rparr>)))"
proof
  note shapes = correction_shapes[OF assms(2,1,4,5,9)]
  note shapes' = correction_shapes[OF assms(7,6,4,5,10)]
  note kept = assms(11)
  have ratio: "shaped n w (mat_map2 token_ratio log_prob old_log_prob)" "shaped n w (mat_map2 token_ratio log_prob' old_log_prob')"
    by (rule shaped_mat_map2[OF assms(2,1)], rule shaped_mat_map2[OF assms(7,6)])
  have clipped: "agg_loss (mat_map2 f (mat_map2 token_ratio log_prob old_log_prob) advantages) modified mode i =
      agg_loss (mat_map2 f (mat_map2 token_ratio log_prob' old_log_prob') advantages') modified mode i" for f :: "real \<Rightarrow> real \<Rightarrow> real" and i
  proof (rule agg_loss_cong[OF shaped_mat_map2[OF ratio(1) assms(3)] shaped_mat_map2[OF ratio(2) assms(8)] shapes(1)])
    fix i j assume ij: "i < n" "j < w" "modified ! i ! j \<noteq> 0"
    have "mat_map2 token_ratio log_prob old_log_prob ! i ! j = mat_map2 token_ratio log_prob' old_log_prob' ! i ! j"
      by (rule mat_map2_agree[OF assms(2,1,7,6) ij(1,2)]) (use kept ij in auto)
    then show "mat_map2 f (mat_map2 token_ratio log_prob old_log_prob) advantages ! i ! j =
        mat_map2 f (mat_map2 token_ratio log_prob' old_log_prob') advantages' ! i ! j"
      by (rule mat_map2_agree[OF ratio(1) assms(3) ratio(2) assms(8) ij(1,2)]) (use kept ij in auto)
  qed
  then have vanilla: "res_bind (compute_policy_loss_vanilla old_log_prob log_prob advantages modified mode cfg None) (\<lambda>(l, _). Inr l) =
      res_bind (compute_policy_loss_vanilla old_log_prob' log_prob' advantages' modified mode cfg None) (\<lambda>(l, _). Inr l)"
    by (simp add: compute_policy_loss_vanilla_def apply_is_weights_def Let_def res_bind_def split: sum.splits)
  have plain: "shaped n w (mat_map2 (\<lambda>a l. - a * l) advantages log_prob)" "shaped n w (mat_map2 (\<lambda>a l. - a * l) advantages' log_prob')"
    by (rule shaped_mat_map2[OF assms(3,2)], rule shaped_mat_map2[OF assms(8,7)])
  have both: "weights = None \<longleftrightarrow> weights' = None"
    using correction_weights_present[OF assms(9)] correction_weights_present[OF assms(10)] by simp
  have "agg_loss (apply_is_weights (mat_map2 (\<lambda>a l. - a * l) advantages log_prob) weights) modified mode i =
      agg_loss (apply_is_weights (mat_map2 (\<lambda>a l. - a * l) advantages' log_prob') weights') modified mode i"
    if t: "rc_loss_type rc = ''reinforce''" for i
  proof (rule agg_loss_cong[OF _ _ shapes(1)])
    show "shaped n w (apply_is_weights (mat_map2 (\<lambda>a l. - a * l) advantages log_prob) weights)"
      "shaped n w (apply_is_weights (mat_map2 (\<lambda>a l. - a * l) advantages' log_prob') weights')"
      using plain shapes(2) shapes'(2) shaped_mat_map2 by (auto simp: apply_is_weights_def split: option.split)
    fix i j assume ij: "i < n" "j < w" "modified ! i ! j \<noteq> 0"
    have eq: "mat_map2 (\<lambda>a l. - a * l) advantages log_prob ! i ! j = mat_map2 (\<lambda>a l. - a * l) advantages' log_prob' ! i ! j"
      by (rule mat_map2_agree[OF assms(3,2,8,7) ij(1,2)]) (use kept ij in auto)
    show "apply_is_weights (mat_map2 (\<lambda>a l. - a * l) advantages log_prob) weights ! i ! j =
        apply_is_weights (mat_map2 (\<lambda>a l. - a * l) advantages' log_prob') weights' ! i ! j"
    proof (cases weights)
      case None
      then show ?thesis using both eq by (simp add: apply_is_weights_def)
    next
      case (Some wt)
      with both obtain wt' where wt': "weights' = Some wt'" by auto
      have "wt ! i ! j = wt' ! i ! j" using kept ij t Some wt' by auto
      then show ?thesis
        unfolding Some wt' apply_is_weights_def option.case
        by (intro mat_map2_agree[OF plain(1) shapes(2)[OF Some] plain(2) shapes'(2)[OF wt'] ij(1,2) eq])
    qed
  qed
  then have reinforce: "res_bind (compute_policy_loss_reinforce old_log_prob log_prob advantages modified mode cfg weights) (\<lambda>(l, _). Inr l) =
      res_bind (compute_policy_loss_reinforce old_log_prob' log_prob' advantages' modified mode cfg weights') (\<lambda>(l, _). Inr l)"
    if "rc_loss_type rc = ''reinforce''"
    using that by (simp add: compute_policy_loss_reinforce_def Let_def res_bind_def split: sum.splits)
  show "compute_policy_loss_bypass_mode to_float all_mean old_log_prob log_prob advantages msk mode cfg (Some rc) =
      compute_policy_loss_bypass_mode to_float all_mean old_log_prob' log_prob' advantages' msk mode cfg (Some rc)"
    using vanilla reinforce by (simp add: compute_policy_loss_bypass_mode_def assms(9,10))
  have "compute_rollout_correction_and_rejection_mask to_float all_mean log_prob old_log_prob msk
      None (rc_is_threshold rc) (rc_batch_normalize rc) (rc_rollout_rs rc) (rc_rs_threshold rc) = Inr (None, modified)"
    using assms(9) by (auto simp: compute_rollout_correction_and_rejection_mask_def Let_def res_bind_eq_Inr split: if_splits)
  then show "rc_loss_type rc = ''ppo_clip'' \<longrightarrow>
       compute_policy_loss_bypass_mode to_float all_mean old_log_prob log_prob advantages msk mode cfg (Some rc) =
       compute_policy_loss_bypass_mode to_float all_mean old_log_prob log_prob advantages msk mode cfg
         (Some (rc\<lparr>rc_rollout_is := None\<rparr>))"
    by (simp add: compute_policy_loss_bypass_mode_def assms(9))
qed

definition demo_correction :: rollout_correction where
  "demo_correction = \<lparr>rc_loss_type = ''ppo_clip'', rc_rollout_is = None, rc_is_threshold = None, rc_batch_normalize = False,
     rc_rollout_rs = Some ''token_k2'', rc_rs_threshold = Some (TextSpec ''2'')\<rparr>"

lemma demo_rejection_far:
  "compute_rollout_rejection_mask demo_float [[0, 4]] [[1, 1]] ''token_k2'' (Some (TextSpec ''2'')) = Inr [[1, 0]]"
  by (simp add: compute_rollout_rejection_mask_def normalized_options_def py_strip_def py_space_def rs_options_def
      parse_rollout_rs_thresholds_def option_threshold_def ends_with_def raw_split_def split_first_def raw_float_def parse_float_def
      demo_float_def dict_index_def has_valid_token_def option_keeps_def starts_with_def token_k_def within_bounds_def clamp_def
      mat_map2_def flag_def)

lemma bypass_mode_semantics_witness:
  "compute_policy_loss_bypass_mode demo_float None [[0, 0]] [[0, 3]] [[1, 5]] [[1, 1]] ''token-mean'' demo_actor (Some demo_correction) =
   compute_policy_loss_bypass_mode demo_float None [[0, 0]] [[0, 4]] [[1, - 8]] [[1, 1]] ''token-mean'' demo_actor (Some demo_correction)"
proof -
  have lr: "mat_map2 (-) [[0, 3]] [[0, 0]] = [[0, 3 :: real]]" "mat_map2 (-) [[0, 4]] [[0, 0]] = [[0, 4 :: real]]" by (simp_all add: mat_map2_def)
  have c: "compute_rollout_correction_and_rejection_mask demo_float None [[0, x]] [[0, 0]] [[1, 1]]
      (rc_rollout_is demo_correction) (rc_is_threshold demo_correction) (rc_batch_normalize demo_correction)
      (rc_rollout_rs demo_correction) (rc_rs_threshold demo_correction) = Inr (None, [[1, 0]])" if "x = 3 \<or> x = 4" for x
    using that by (auto simp: compute_rollout_correction_and_rejection_mask_def demo_correction_def has_valid_token_def shapes_differ_def lr
        demo_rejection demo_rejection_far)
  show ?thesis
    using bypass_mode_semantics[of 1 2 "[[0, 0]]" "[[0, 3]]" "[[1, 5]]" "[[1, 1]]" "[[0, 0]]" "[[0, 4]]" "[[1, - 8]]" demo_float None
        demo_correction None "[[1, 0]]" None "''token-mean''" demo_actor] c
    by (simp add: shaped_def less_2_cases_iff)
qed

end
