(* ===== verification/Rollouter.thy ===== *)
theory Rollouter
  imports Message_Queue
begin

text \<open>
  The asynchronous sample generator, \<open>verl/experimental/fully_async_policy/fully_async_rollouter.py\<close>: the feed,
  the processor, the generation tasks, the monitor and the reset after a parameter update run as coroutines of one
  event loop, so a step of the model is what one of them does between two awaits. What holds \<open>self.lock\<close> across an
  await is part of the state. The queue is the one of \<open>Message_Queue\<close>; its consumer is the trainer.
\<close>

section \<open>The state\<close>

text \<open>Where the coroutine \<open>_processor_worker\<close> is; in the two \<open>Wait\<close> states it holds the lock.\<close>

datatype 's processor =
    Checking
  | Sized nat
  | Pausing
  | Draining
  | Getting
  | Holding 's
  | Reap_Wait 's
  | Finishing
  | Finish_Wait
  | Ended

datatype feeder = Feeding | Ending | Fed

text \<open>
  A generation task generates, then its sample is in the queue and the counters are still to be
  updated with the answer of the queue, then it is done.
\<close>

datatype task_phase = Generating | Delivered bool | Finished

text \<open>
  The monitor is about to test the running flag, sleeps, has read the queue size, has decided to
  resume and waits for the lock, or is over.
\<close>

datatype monitor = Looping | Sleeping | Sampled nat | Resuming | Stopped

record 's rollouter =
  ro_paused :: bool
  ro_resume :: bool
  ro_running :: bool
  ro_staleness :: nat
  ro_active :: "('s \<times> task_phase) list"
  ro_pending :: "'s option list"
  ro_feed :: feeder
  ro_global_steps :: nat
  ro_processor :: "'s processor"
  ro_reset :: "nat option"
  ro_monitor :: monitor
  ro_generated :: nat
  ro_dropped :: nat
  ro_processed :: nat
  ro_mq :: "('s option, unit) message_queue"

record limits =
  rl_total_steps :: nat
  rl_max_required :: nat
  rl_max_concurrent :: nat
  rl_max_queue :: nat

text \<open>
  \<open>set_max_required_samples\<close>; \<open>int\<close> of a non-negative number is its floor. The queue of the trainer is created
  with \<open>max_queue_size\<close>.
\<close>

definition set_max_required_samples :: "nat \<Rightarrow> rat \<Rightarrow> nat \<Rightarrow> nat \<Rightarrow> nat \<Rightarrow> limits" where
  "set_max_required_samples required_samples staleness_threshold trigger replicas total_rollout_steps =
     (let m = nat \<lfloor>of_nat required_samples * (staleness_threshold + 1) * of_nat trigger\<rfloor>
      in \<lparr>rl_total_steps = total_rollout_steps, rl_max_required = m, rl_max_concurrent = min (replicas * 16) m,
          rl_max_queue = m\<rparr>)"

definition ro_start :: "limits \<Rightarrow> 's rollouter" where
  "ro_start ls =
     \<lparr>ro_paused = False, ro_resume = True, ro_running = True, ro_staleness = 0, ro_active = [], ro_pending = [],
      ro_feed = Feeding, ro_global_steps = 1, ro_processor = Checking, ro_reset = None, ro_monitor = Looping,
      ro_generated = 0, ro_dropped = 0, ro_processed = 0,
      ro_mq = \<lparr>mq_max = rl_max_queue ls, mq_queue = [], mq_val_queue = [], mq_running = True, mq_produced = 0,
        mq_consumed = 0, mq_dropped = 0\<rparr>\<rparr>"

definition lock_free :: "'s rollouter \<Rightarrow> bool" where
  "lock_free r \<longleftrightarrow> ro_reset r = None \<and>
     (case ro_processor r of Reap_Wait _ \<Rightarrow> False | Finish_Wait \<Rightarrow> False | _ \<Rightarrow> True)"

text \<open>
  \<open>_should_pause_generation\<close> awaits the statistics of the queue and then reads its own counter;
  \<open>queue_size\<close> is what the queue answered.
\<close>

definition should_pause_generation :: "limits \<Rightarrow> nat \<Rightarrow> 's rollouter \<Rightarrow> bool" where
  "should_pause_generation ls queue_size r \<longleftrightarrow> queue_size \<ge> rl_max_queue ls \<or> ro_staleness r \<ge> rl_max_required ls"

section \<open>The feed\<close>

text \<open>The queue of pending samples holds 128 entries; the end signal is \<open>None\<close>.\<close>

definition feed_sample :: "limits \<Rightarrow> 's \<Rightarrow> 's rollouter \<Rightarrow> 's rollouter option" where
  "feed_sample ls x r =
     (if ro_feed r = Feeding \<and> length (ro_pending r) < 128 then
        let r1 = r\<lparr>ro_pending := ro_pending r @ [Some x]\<rparr>
        in Some (if ro_global_steps r \<ge> rl_total_steps ls then r1\<lparr>ro_feed := Ending\<rparr>
                 else r1\<lparr>ro_global_steps := ro_global_steps r + 1\<rparr>)
      else None)"

definition feed_exhausted :: "'s rollouter \<Rightarrow> 's rollouter option" where
  "feed_exhausted r = (if ro_feed r = Feeding then Some (r\<lparr>ro_feed := Ending\<rparr>) else None)"

definition feed_end :: "'s rollouter \<Rightarrow> 's rollouter option" where
  "feed_end r =
     (if ro_feed r = Ending \<and> length (ro_pending r) < 128
      then Some (r\<lparr>ro_pending := ro_pending r @ [None], ro_feed := Fed\<rparr>) else None)"

section \<open>The processor\<close>

text \<open>The test at the head of the loop.\<close>

definition proc_check :: "'s rollouter \<Rightarrow> 's rollouter option" where
  "proc_check r =
     (if ro_processor r = Checking
      then Some (r\<lparr>ro_processor := (if ro_paused r then Pausing else Sized (get_queue_size (ro_mq r)))\<rparr>)
      else None)"

definition proc_decide :: "limits \<Rightarrow> 's rollouter \<Rightarrow> 's rollouter option" where
  "proc_decide ls r =
     (case ro_processor r of
        Sized queue_size \<Rightarrow>
          Some (r\<lparr>ro_processor := (if should_pause_generation ls queue_size r then Pausing else Getting)\<rparr>)
      | _ \<Rightarrow> None)"

definition proc_pause :: "'s rollouter \<Rightarrow> 's rollouter option" where
  "proc_pause r =
     (if ro_processor r = Pausing \<and> lock_free r
      then Some (r\<lparr>ro_paused := True, ro_resume := False, ro_processor := Draining\<rparr>) else None)"

text \<open>
  Finished tasks leave the set of active tasks only when the processor waits for them. \<open>done\<close> are the places of those that
  \<open>asyncio.wait\<close> returned: in the drain others may finish before the lock is taken, and they stay
  for the next round.
\<close>

definition reap :: "nat set \<Rightarrow> 's rollouter \<Rightarrow> 's rollouter" where
  "reap is r = r\<lparr>ro_active := nths (ro_active r) (- is)\<rparr>"

definition all_finished :: "nat list \<Rightarrow> 's rollouter \<Rightarrow> bool" where
  "all_finished is r \<longleftrightarrow> is \<noteq> [] \<and> list_all (\<lambda>i. i < length (ro_active r) \<and> snd (ro_active r ! i) = Finished) is"

definition proc_drain :: "nat list \<Rightarrow> 's rollouter \<Rightarrow> 's rollouter option" where
  "proc_drain is r =
     (if ro_processor r = Draining \<and> all_finished is r \<and> lock_free r then Some (reap (set is) r) else None)"

definition proc_resume :: "'s rollouter \<Rightarrow> 's rollouter option" where
  "proc_resume r = (if ro_processor r = Draining \<and> ro_resume r then Some (r\<lparr>ro_processor := Checking\<rparr>) else None)"

definition proc_get :: "'s rollouter \<Rightarrow> 's rollouter option" where
  "proc_get r =
     (case (ro_processor r, ro_pending r) of
        (Getting, x # rest) \<Rightarrow>
          Some (r\<lparr>ro_pending := rest, ro_staleness := ro_staleness r + 1,
                  ro_processor := (case x of None \<Rightarrow> Finishing | Some s \<Rightarrow> Holding s)\<rparr>)
      | _ \<Rightarrow> None)"

text \<open>
  The loops over \<open>asyncio.wait(active_tasks, FIRST_COMPLETED)\<close>: for a place under the concurrency limit, and for
  the end of all tasks after the end signal.
\<close>

definition proc_wait :: "limits \<Rightarrow> 's rollouter \<Rightarrow> 's rollouter option" where
  "proc_wait ls r =
     (if lock_free r \<and> ro_active r \<noteq> [] then
        (case ro_processor r of
           Holding s \<Rightarrow> if length (ro_active r) \<ge> rl_max_concurrent ls then Some (r\<lparr>ro_processor := Reap_Wait s\<rparr>) else None
         | Finishing \<Rightarrow> Some (r\<lparr>ro_processor := Finish_Wait\<rparr>)
         | _ \<Rightarrow> None)
      else None)"

definition proc_reap :: "nat list \<Rightarrow> 's rollouter \<Rightarrow> 's rollouter option" where
  "proc_reap is r =
     (if all_finished is r then
        (case ro_processor r of
           Reap_Wait s \<Rightarrow> Some ((reap (set is) r)\<lparr>ro_processor := Holding s\<rparr>)
         | Finish_Wait \<Rightarrow> Some ((reap (set is) r)\<lparr>ro_processor := Finishing\<rparr>)
         | _ \<Rightarrow> None)
      else None)"

definition proc_submit :: "limits \<Rightarrow> 's rollouter \<Rightarrow> 's rollouter option" where
  "proc_submit ls r =
     (case ro_processor r of
        Holding s \<Rightarrow>
          if length (ro_active r) < rl_max_concurrent ls \<and> (ro_paused r \<longrightarrow> ro_resume r) \<and> lock_free r
          then Some (r\<lparr>ro_active := ro_active r @ [(s, Generating)], ro_processor := Checking\<rparr>) else None
      | _ \<Rightarrow> None)"

definition proc_end :: "'s rollouter \<Rightarrow> 's rollouter option" where
  "proc_end r = (if ro_processor r = Finishing \<and> ro_active r = [] then Some (r\<lparr>ro_processor := Ended\<rparr>) else None)"

text \<open>The main task sends the end signal to the trainer and clears the running flag.\<close>

definition main_end :: "'s rollouter \<Rightarrow> 's rollouter option" where
  "main_end r =
     (if ro_processor r = Ended \<and> ro_running r \<and> lock_free r
      then (case put_sample None (ro_mq r) of Inl _ \<Rightarrow> None | Inr (mq, _) \<Rightarrow> Some (r\<lparr>ro_mq := mq, ro_running := False\<rparr>))
      else None)"

section \<open>Tasks, trainer, reset and monitor\<close>

text \<open>The end of \<open>_process_single_sample_streaming\<close>: the sample is put, and then the task counts and is done.\<close>

definition set_phase :: "nat \<Rightarrow> task_phase \<Rightarrow> 's rollouter \<Rightarrow> 's rollouter" where
  "set_phase i p r = r\<lparr>ro_active := (ro_active r)[i := (fst (ro_active r ! i), p)]\<rparr>"

definition task_put :: "nat \<Rightarrow> 's rollouter \<Rightarrow> 's rollouter option" where
  "task_put i r =
     (if i < length (ro_active r) \<and> snd (ro_active r ! i) = Generating then
        (case put_sample (Some (fst (ro_active r ! i))) (ro_mq r) of
           Inl _ \<Rightarrow> None
         | Inr (mq, success) \<Rightarrow> Some ((set_phase i (Delivered success) r)\<lparr>ro_mq := mq\<rparr>))
      else None)"

definition task_count :: "nat \<Rightarrow> 's rollouter \<Rightarrow> 's rollouter option" where
  "task_count i r =
     (if i < length (ro_active r) then
        (case snd (ro_active r ! i) of
           Delivered success \<Rightarrow>
             Some ((set_phase i Finished r)\<lparr>ro_generated := ro_generated r + (if success then 1 else 0),
                     ro_dropped := ro_dropped r + (if success then 0 else 1),
                     ro_processed := ro_processed r + 1\<rparr>)
         | _ \<Rightarrow> None)
      else None)"

definition trainer_get :: "'s rollouter \<Rightarrow> 's rollouter option" where
  "trainer_get r = (case get_sample (ro_mq r) of (mq, Got _ _) \<Rightarrow> Some (r\<lparr>ro_mq := mq\<rparr>) | _ \<Rightarrow> None)"

text \<open>\<open>reset_staleness\<close> awaits the queue size with the lock held, after it has counted the active tasks.\<close>

definition reset_begin :: "'s rollouter \<Rightarrow> 's rollouter option" where
  "reset_begin r =
     (if lock_free r then Some (r\<lparr>ro_paused := False, ro_resume := True, ro_reset := Some (length (ro_active r))\<rparr>) else None)"

definition reset_end :: "'s rollouter \<Rightarrow> 's rollouter option" where
  "reset_end r =
     (case ro_reset r of
        None \<Rightarrow> None
      | Some n \<Rightarrow> Some (r\<lparr>ro_staleness := n + get_queue_size (ro_mq r), ro_reset := None\<rparr>))"

text \<open>\<open>_async_monitor_loop\<close>.\<close>

definition monitor_loop :: "'s rollouter \<Rightarrow> 's rollouter option" where
  "monitor_loop r =
     (if ro_monitor r = Looping \<and> lock_free r
      then Some (r\<lparr>ro_monitor := (if ro_running r then Sleeping else Stopped)\<rparr>) else None)"

definition monitor_check :: "'s rollouter \<Rightarrow> 's rollouter option" where
  "monitor_check r =
     (if ro_monitor r = Sleeping
      then Some (r\<lparr>ro_monitor := (if ro_paused r then Sampled (get_queue_size (ro_mq r)) else Looping)\<rparr>) else None)"

definition monitor_decide :: "limits \<Rightarrow> 's rollouter \<Rightarrow> 's rollouter option" where
  "monitor_decide ls r =
     (case ro_monitor r of
        Sampled queue_size \<Rightarrow>
          Some (r\<lparr>ro_monitor := (if should_pause_generation ls queue_size r then Looping else Resuming)\<rparr>)
      | _ \<Rightarrow> None)"

definition monitor_resume :: "'s rollouter \<Rightarrow> 's rollouter option" where
  "monitor_resume r =
     (if ro_monitor r = Resuming \<and> lock_free r
      then Some (r\<lparr>ro_paused := False, ro_resume := True, ro_monitor := Looping\<rparr>) else None)"

section \<open>Executions\<close>

datatype 's ro_event =
    Feed 's | Feed_Exhausted | Feed_End
  | Proc_Check | Proc_Decide | Proc_Pause | Proc_Drain "nat list" | Proc_Resume | Proc_Get | Proc_Wait | Proc_Reap "nat list"
  | Proc_Submit | Proc_End | Main_End
  | Task_Put nat | Task_Count nat | Trainer_Get | Reset_Begin | Reset_End | Monitor_Loop | Monitor_Check | Monitor_Decide | Monitor_Resume

fun ro_step :: "limits \<Rightarrow> 's ro_event \<Rightarrow> 's rollouter \<Rightarrow> 's rollouter option" where
  "ro_step ls (Feed x) r = feed_sample ls x r"
| "ro_step ls Feed_Exhausted r = feed_exhausted r"
| "ro_step ls Feed_End r = feed_end r"
| "ro_step ls Proc_Check r = proc_check r"
| "ro_step ls Proc_Decide r = proc_decide ls r"
| "ro_step ls Proc_Pause r = proc_pause r"
| "ro_step ls (Proc_Drain is) r = proc_drain is r"
| "ro_step ls Proc_Resume r = proc_resume r"
| "ro_step ls Proc_Get r = proc_get r"
| "ro_step ls Proc_Wait r = proc_wait ls r"
| "ro_step ls (Proc_Reap is) r = proc_reap is r"
| "ro_step ls Proc_Submit r = proc_submit ls r"
| "ro_step ls Proc_End r = proc_end r"
| "ro_step ls Main_End r = main_end r"
| "ro_step ls (Task_Put i) r = task_put i r"
| "ro_step ls (Task_Count i) r = task_count i r"
| "ro_step ls Trainer_Get r = trainer_get r"
| "ro_step ls Reset_Begin r = reset_begin r"
| "ro_step ls Reset_End r = reset_end r"
| "ro_step ls Monitor_Loop r = monitor_loop r"
| "ro_step ls Monitor_Check r = monitor_check r"
| "ro_step ls Monitor_Decide r = monitor_decide ls r"
| "ro_step ls Monitor_Resume r = monitor_resume r"

fun ro_exec :: "limits \<Rightarrow> 's ro_event list \<Rightarrow> 's rollouter \<Rightarrow> 's rollouter option" where
  "ro_exec ls [] r = Some r"
| "ro_exec ls (e # es) r = (case ro_step ls e r of None \<Rightarrow> None | Some r' \<Rightarrow> ro_exec ls es r')"

text \<open>\<open>_select_best_worker\<close>: round robin over the agent loop workers.\<close>

definition select_best_worker :: "'w list \<Rightarrow> nat \<Rightarrow> 'w \<times> nat" where
  "select_best_worker workers idx = (workers ! idx, (idx + 1) mod length workers)"


section \<open>The invariants of every execution\<close>

definition held :: "'s rollouter \<Rightarrow> nat" where
  "held r = (case ro_processor r of Holding _ \<Rightarrow> 1 | Reap_Wait _ \<Rightarrow> 1 | _ \<Rightarrow> 0)"

definition generating :: "'s rollouter \<Rightarrow> nat" where
  "generating r = length (filter (\<lambda>t. snd t = Generating) (ro_active r))"

definition queued :: "'s rollouter \<Rightarrow> nat" where
  "queued r = length (filter (\<lambda>x. x \<noteq> None) (mq_queue (ro_mq r)))"

text \<open>The samples that are between the pending queue and the trainer.\<close>

definition in_flight :: "'s rollouter \<Rightarrow> nat" where
  "in_flight r = held r + generating r + queued r"

definition bound_inv :: "limits \<Rightarrow> 's rollouter \<Rightarrow> bool" where
  "bound_inv ls r \<longleftrightarrow>
     mq_max (ro_mq r) = rl_max_queue ls \<and> length (mq_queue (ro_mq r)) \<le> rl_max_queue ls \<and>
     length (ro_active r) \<le> rl_max_concurrent ls \<and>
     in_flight r \<le> ro_staleness r + 1 \<and> in_flight r \<le> rl_max_required ls + 1 \<and>
     (ro_processor r = Getting \<longrightarrow> in_flight r \<le> rl_max_required ls) \<and>
     (\<forall>n. ro_reset r = Some n \<longrightarrow> generating r \<le> n)"

lemma held_le: "held r \<le> 1"
  by (simp add: held_def split: processor.splits)

lemma queued_le: "queued r \<le> length (mq_queue (ro_mq r))"
  by (simp add: queued_def)

lemma filter_update_phase:
  assumes "i < length ts" "snd (ts ! i) \<noteq> p" "snd t = p"
  shows "length (filter (\<lambda>t. snd t = p) (ts[i := t])) = length (filter (\<lambda>t. snd t = p) ts) + 1"
  using assms by (induction ts arbitrary: i) (auto split: nat.splits)

lemma filter_update_other:
  assumes "i < length ts" "snd (ts ! i) = p" "snd t \<noteq> p"
  shows "length (filter (\<lambda>t. snd t = p) ts) = length (filter (\<lambda>t. snd t = p) (ts[i := t])) + 1"
  using assms by (induction ts arbitrary: i) (auto split: nat.splits)

lemma filter_update_same:
  assumes "i < length ts" "snd (ts ! i) \<noteq> p" "snd t \<noteq> p"
  shows "length (filter (\<lambda>t. snd t = p) (ts[i := t])) = length (filter (\<lambda>t. snd t = p) ts)"
  using assms by (induction ts arbitrary: i) (auto split: nat.splits)

lemma length_filter_nths:
  assumes "\<And>i. i \<in> A \<Longrightarrow> i < length ts \<and> \<not> P (ts ! i)"
  shows "filter P (nths ts (- A)) = filter P ts"
  using assms
proof (induction ts arbitrary: A)
  case (Cons t ts)
  have "filter P (nths ts (- {j. Suc j \<in> A})) = filter P ts"
    by (rule Cons.IH) (use Cons.prems in fastforce)
  moreover have "{j. Suc j \<in> - A} = - {j. Suc j \<in> A}" by auto
  moreover have "\<not> P t" if "0 \<in> A" using Cons.prems[OF that] by simp
  ultimately show ?case by (auto simp: nths_Cons)
qed simp

lemma reap_generating: "all_finished is r \<Longrightarrow> generating (reap (set is) r) = generating r"
  unfolding generating_def reap_def
  by (auto simp: all_finished_def list_all_iff intro!: arg_cong[of _ _ length] length_filter_nths)

lemma reap_other [simp]:
  "ro_mq (reap A r) = ro_mq r" "ro_pending (reap A r) = ro_pending r" "ro_processor (reap A r) = ro_processor r"
  "ro_running (reap A r) = ro_running r" "ro_generated (reap A r) = ro_generated r" "ro_dropped (reap A r) = ro_dropped r"
  "ro_processed (reap A r) = ro_processed r"
  by (simp_all add: reap_def)

lemma reap_active: "length (ro_active (reap A r)) \<le> length (ro_active r)"
  using card_mono[of "{..<length (ro_active r)}" "{i. i < length (ro_active r) \<and> i \<in> - A}"]
  by (simp add: reap_def length_nths subset_iff)


lemma put_sample_queued:
  assumes "put_sample x mq = Inr (mq', ok)" "length (mq_queue mq) \<le> mq_max mq"
  shows "length (filter P (mq_queue mq')) \<le> length (filter P (mq_queue mq)) + (if P x then 1 else 0)"
    "length (mq_queue mq') \<le> mq_max mq"
  using put_sample_cases[OF assms] assms(2) by (cases "mq_queue mq"; auto)+

lemma task_put_effect:
  assumes "task_put i r = Some r'" "length (mq_queue (ro_mq r)) \<le> mq_max (ro_mq r)"
  obtains mq ok where "i < length (ro_active r)" "snd (ro_active r ! i) = Generating"
    "put_sample (Some (fst (ro_active r ! i))) (ro_mq r) = Inr (mq, ok)"
    "r' = (set_phase i (Delivered ok) r)\<lparr>ro_mq := mq\<rparr>" "generating r = generating r' + 1" "queued r' \<le> queued r + 1"
    "length (mq_queue mq) \<le> mq_max (ro_mq r)" "mq_max mq = mq_max (ro_mq r)"
proof -
  from assms(1) obtain mq ok where *: "i < length (ro_active r)" "snd (ro_active r ! i) = Generating"
      "put_sample (Some (fst (ro_active r ! i))) (ro_mq r) = Inr (mq, ok)"
      "r' = (set_phase i (Delivered ok) r)\<lparr>ro_mq := mq\<rparr>"
    by (auto simp: task_put_def split: if_splits sum.splits)
  moreover have "generating r = generating r' + 1"
    using filter_update_other[OF *(1,2), of "(fst (ro_active r ! i), Delivered ok)"] *(4)
    by (simp add: generating_def set_phase_def)
  moreover have "queued r' \<le> queued r + 1"
    using put_sample_queued(1)[OF *(3) assms(2), of "\<lambda>x. x \<noteq> None"] *(4) by (simp add: queued_def)
  ultimately show thesis
    using that put_sample_queued(2)[OF *(3) assms(2)] put_sample_cases[OF *(3) assms(2)] by blast
qed

lemma feed_sample_effect:
  assumes "feed_sample ls x r = Some r'"
  obtains f g where "ro_feed r = Feeding" "f \<noteq> Fed" "r' = r\<lparr>ro_pending := ro_pending r @ [Some x], ro_feed := f, ro_global_steps := g\<rparr>"
proof -
  have r': "r' = r\<lparr>ro_pending := ro_pending r @ [Some x], ro_feed := ro_feed r', ro_global_steps := ro_global_steps r'\<rparr>"
      and "ro_feed r = Feeding" "ro_feed r' \<noteq> Fed"
    using assms by (cases "ro_feed r = Feeding"; cases "ro_global_steps r \<ge> rl_total_steps ls"; simp add: feed_sample_def Let_def split: if_splits; force)+
  then show thesis using that by blast
qed

lemma proc_get_effect:
  assumes "proc_get r = Some r'"
  obtains x rest where "ro_processor r = Getting" "ro_pending r = x # rest"
    "r' = r\<lparr>ro_pending := rest, ro_staleness := ro_staleness r + 1,
              ro_processor := (case x of None \<Rightarrow> Finishing | Some s \<Rightarrow> Holding s)\<rparr>"
  using assms by (cases "ro_processor r"; cases "ro_pending r") (auto simp: proc_get_def)

lemma proc_submit_effect:
  assumes "proc_submit ls r = Some r'"
  obtains x where "ro_processor r = Holding x" "length (ro_active r) < rl_max_concurrent ls" "ro_reset r = None"
    "r' = r\<lparr>ro_active := ro_active r @ [(x, Generating)], ro_processor := Checking\<rparr>"
  using assms by (cases "ro_processor r") (auto simp: proc_submit_def lock_free_def split: if_splits)

lemma proc_drain_effect:
  assumes "proc_drain js r = Some r'"
  shows "ro_processor r = Draining" "all_finished js r" "r' = reap (set js) r"
  using assms by (auto simp: proc_drain_def split: if_splits)

lemma proc_reap_effect:
  assumes "proc_reap js r = Some r'"
  obtains p where "all_finished js r" "r' = (reap (set js) r)\<lparr>ro_processor := p\<rparr>"
    "(\<exists>s. ro_processor r = Reap_Wait s \<and> p = Holding s) \<or> ro_processor r = Finish_Wait \<and> p = Finishing"
  using assms by (cases "ro_processor r") (auto simp: proc_reap_def split: if_splits)

lemma reset_end_effect:
  assumes "reset_end r = Some r'"
  obtains n where "ro_reset r = Some n" "r' = r\<lparr>ro_staleness := n + length (mq_queue (ro_mq r)), ro_reset := None\<rparr>"
  using assms by (auto simp: reset_end_def get_queue_size_def split: option.splits)

lemma task_count_effect:
  assumes "task_count i r = Some r'"
  obtains ok where "i < length (ro_active r)" "snd (ro_active r ! i) = Delivered ok"
    "r' = (set_phase i Finished r)\<lparr>ro_generated := ro_generated r + (if ok then 1 else 0),
             ro_dropped := ro_dropped r + (if ok then 0 else 1), ro_processed := ro_processed r + 1\<rparr>"
    "generating r' = generating r"
  using assms
  by (auto simp: task_count_def generating_def set_phase_def filter_update_same split: if_splits task_phase.splits)

lemma trainer_get_effect:
  assumes "trainer_get r = Some r'"
  obtains x q where "mq_queue (ro_mq r) = x # q"
    "r' = r\<lparr>ro_mq := (ro_mq r)\<lparr>mq_queue := q, mq_consumed := mq_consumed (ro_mq r) + 1\<rparr>\<rparr>"
  using assms by (cases "mq_queue (ro_mq r)") (auto simp: trainer_get_def get_sample_def split: if_splits)

lemma main_end_effect:
  assumes "main_end r = Some r'" "length (mq_queue (ro_mq r)) \<le> mq_max (ro_mq r)"
  obtains mq ok where "ro_processor r = Ended" "ro_running r" "put_sample None (ro_mq r) = Inr (mq, ok)"
    "r' = r\<lparr>ro_mq := mq, ro_running := False\<rparr>" "queued r' \<le> queued r" "length (mq_queue mq) \<le> mq_max (ro_mq r)"
    "mq_max mq = mq_max (ro_mq r)"
proof -
  from assms(1) obtain mq ok where *: "ro_processor r = Ended" "ro_running r" "put_sample None (ro_mq r) = Inr (mq, ok)"
      "r' = r\<lparr>ro_mq := mq, ro_running := False\<rparr>"
    by (auto simp: main_end_def split: if_splits sum.splits)
  moreover have "queued r' \<le> queued r"
    using put_sample_queued(1)[OF *(3) assms(2), of "\<lambda>x. x \<noteq> None"] *(4) by (simp add: queued_def)
  ultimately show thesis
    using that put_sample_queued(2)[OF *(3) assms(2)] put_sample_cases[OF *(3) assms(2)] by blast
qed

text \<open>The steps of the feed, the processor and the monitor that leave the samples where they are.\<close>

definition same_samples :: "'s rollouter \<Rightarrow> 's rollouter \<Rightarrow> bool" where
  "same_samples r r' \<longleftrightarrow> ro_mq r' = ro_mq r \<and> ro_active r' = ro_active r \<and> ro_reset r' = ro_reset r \<and>
     ro_staleness r' = ro_staleness r \<and> held r' = held r \<and> (ro_processor r' = Getting \<longrightarrow> ro_processor r = Getting)"

named_theorems frame_steps

lemma feed_sample_frame [frame_steps]: "feed_sample ls x r = Some r' \<Longrightarrow> same_samples r r'"
  by (auto simp: feed_sample_def same_samples_def held_def Let_def split: if_splits)

lemma feed_exhausted_frame [frame_steps]: "feed_exhausted r = Some r' \<Longrightarrow> same_samples r r'"
  by (auto simp: feed_exhausted_def same_samples_def held_def Let_def split: if_splits)

lemma feed_end_frame [frame_steps]: "feed_end r = Some r' \<Longrightarrow> same_samples r r'"
  by (auto simp: feed_end_def same_samples_def held_def Let_def split: if_splits)

lemma proc_check_frame [frame_steps]: "proc_check r = Some r' \<Longrightarrow> same_samples r r'"
  by (auto simp: proc_check_def same_samples_def held_def Let_def split: if_splits)

lemma proc_pause_frame [frame_steps]: "proc_pause r = Some r' \<Longrightarrow> same_samples r r'"
  by (auto simp: proc_pause_def same_samples_def held_def Let_def split: if_splits)

lemma proc_resume_frame [frame_steps]: "proc_resume r = Some r' \<Longrightarrow> same_samples r r'"
  by (auto simp: proc_resume_def same_samples_def held_def Let_def split: if_splits)

lemma proc_wait_frame [frame_steps]: "proc_wait ls r = Some r' \<Longrightarrow> same_samples r r'"
  by (auto simp: proc_wait_def same_samples_def held_def Let_def split: if_splits processor.splits)

lemma proc_end_frame [frame_steps]: "proc_end r = Some r' \<Longrightarrow> same_samples r r'"
  by (auto simp: proc_end_def same_samples_def held_def Let_def split: if_splits)

lemma monitor_loop_frame [frame_steps]: "monitor_loop r = Some r' \<Longrightarrow> same_samples r r'"
  by (auto simp: monitor_loop_def same_samples_def held_def Let_def split: if_splits)

lemma monitor_check_frame [frame_steps]: "monitor_check r = Some r' \<Longrightarrow> same_samples r r'"
  by (auto simp: monitor_check_def same_samples_def held_def Let_def split: if_splits)

lemma monitor_decide_frame [frame_steps]: "monitor_decide ls r = Some r' \<Longrightarrow> same_samples r r'"
  by (auto simp: monitor_decide_def same_samples_def held_def Let_def split: if_splits monitor.splits)

lemma monitor_resume_frame [frame_steps]: "monitor_resume r = Some r' \<Longrightarrow> same_samples r r'"
  by (auto simp: monitor_resume_def same_samples_def held_def Let_def split: if_splits)

lemma bound_inv_frame: "bound_inv ls r \<Longrightarrow> same_samples r r' \<Longrightarrow> bound_inv ls r'"
  by (auto simp: bound_inv_def same_samples_def in_flight_def queued_def generating_def)

lemma bound_inv_step:
  assumes step: "ro_step ls e r = Some r'" and inv: "bound_inv ls r"
  shows "bound_inv ls r'"
proof -
  have q: "length (mq_queue (ro_mq r)) \<le> mq_max (ro_mq r)" using inv by (simp add: bound_inv_def)
  show ?thesis
  proof (cases e)
    case (Task_Put i)
    then have s: "task_put i r = Some r'" using step by simp
    show ?thesis
      by (rule task_put_effect[OF s q]) (use inv in \<open>auto simp: bound_inv_def in_flight_def held_def set_phase_def\<close>)
  next
    case (Task_Count i)
    then have s: "task_count i r = Some r'" using step by simp
    show ?thesis
      by (rule task_count_effect[OF s]) (use inv in \<open>auto simp: bound_inv_def in_flight_def held_def queued_def set_phase_def\<close>)
  next
    case Trainer_Get
    then have s: "trainer_get r = Some r'" using step by simp
    show ?thesis
      by (rule trainer_get_effect[OF s])
        (use inv in \<open>auto simp: bound_inv_def in_flight_def held_def queued_def generating_def split: if_splits\<close>)
  next
    case Main_End
    then have s: "main_end r = Some r'" using step by simp
    show ?thesis
      by (rule main_end_effect[OF s q]) (use inv in \<open>auto simp: bound_inv_def in_flight_def held_def generating_def\<close>)
  next
    case (Proc_Drain js)
    then have s: "proc_drain js r = Some r'" using step by simp
    note d = proc_drain_effect[OF s]
    with inv reap_generating[OF d(2)] reap_active[of "set js" r] show ?thesis
      by (auto simp: bound_inv_def in_flight_def held_def queued_def reap_def)
  next
    case (Proc_Reap js)
    then have s: "proc_reap js r = Some r'" using step by simp
    show ?thesis
    proof (rule proc_reap_effect[OF s])
      fix p
      assume *: "all_finished js r" "r' = (reap (set js) r)\<lparr>ro_processor := p\<rparr>"
        "(\<exists>s. ro_processor r = Reap_Wait s \<and> p = Holding s) \<or> ro_processor r = Finish_Wait \<and> p = Finishing"
      with inv reap_generating[OF *(1)] reap_active[of "set js" r] show ?thesis
        by (auto simp: bound_inv_def in_flight_def held_def queued_def reap_def generating_def)
    qed
  next
    case Reset_End
    then have s: "reset_end r = Some r'" using step by simp
    show ?thesis
    proof (rule reset_end_effect[OF s])
      fix n
      assume n: "ro_reset r = Some n" "r' = r\<lparr>ro_staleness := n + length (mq_queue (ro_mq r)), ro_reset := None\<rparr>"
      then have "in_flight r' = in_flight r" by (simp add: in_flight_def held_def queued_def generating_def)
      moreover have "in_flight r \<le> ro_staleness r' + 1"
        using n inv queued_le[of r] held_le[of r] by (simp add: bound_inv_def in_flight_def)
      ultimately show ?thesis using n inv by (simp add: bound_inv_def)
    qed
  next
    case Proc_Get
    then have s: "proc_get r = Some r'" using step by simp
    then have "in_flight r' \<le> in_flight r + 1" "ro_processor r' \<noteq> Getting" "generating r' = generating r"
      by (rule proc_get_effect; auto simp: in_flight_def held_def queued_def generating_def split: option.splits)+
    then show ?thesis by (rule_tac proc_get_effect[OF s]) (use inv in \<open>simp add: bound_inv_def\<close>)
  next
    case Proc_Submit
    then have s: "proc_submit ls r = Some r'" using step by simp
    then have "in_flight r' = in_flight r"
      by (rule proc_submit_effect) (simp add: in_flight_def held_def queued_def generating_def)
    then show ?thesis by (rule_tac proc_submit_effect[OF s]) (use inv in \<open>simp add: bound_inv_def\<close>)
  next
    case Reset_Begin
    with step inv show ?thesis
      by (auto simp: reset_begin_def bound_inv_def in_flight_def held_def queued_def generating_def split: if_splits)
  next
    case Proc_Decide
    then have "held r' = held r \<and> (ro_processor r' = Getting \<longrightarrow> ro_staleness r < rl_max_required ls)"
      using step by (auto simp: proc_decide_def held_def should_pause_generation_def split: processor.splits if_splits)
    moreover have "ro_mq r' = ro_mq r \<and> ro_active r' = ro_active r \<and> ro_reset r' = ro_reset r \<and> ro_staleness r' = ro_staleness r"
      using step Proc_Decide by (auto simp: proc_decide_def split: processor.splits)
    ultimately show ?thesis using inv by (auto simp: bound_inv_def in_flight_def queued_def generating_def)
  qed (use step in \<open>auto intro: bound_inv_frame[OF inv] frame_steps\<close>)
qed

lemma ro_exec_inv:
  assumes "ro_exec ls es r = Some r'" "P r" "\<And>e r r'. e \<in> set es \<Longrightarrow> ro_step ls e r = Some r' \<Longrightarrow> P r \<Longrightarrow> P r'"
  shows "P r'"
  using assms
proof (induction es arbitrary: r)
  case (Cons e es)
  then obtain r1 where "ro_step ls e r = Some r1" "ro_exec ls es r1 = Some r'" by (auto split: option.splits)
  with Cons.IH[of r1] Cons.prems(2,3) show ?case by (meson list.set_intros)
qed simp

lemma bound_inv_start: "bound_inv ls (ro_start ls)"
  by (simp add: bound_inv_def ro_start_def in_flight_def held_def queued_def generating_def)

lemma bound_inv_exec: "ro_exec ls es (ro_start ls) = Some r \<Longrightarrow> bound_inv ls r"
  by (rule ro_exec_inv[of ls es "ro_start ls"]) (auto intro: bound_inv_start bound_inv_step)


text \<open>
  How the flags go with the place of the processor: the lock is held by one of the two that hold it
  across an await; the rollouter is paused only while the processor drains; the end signal comes after all
  samples.
\<close>

definition ending :: "'s processor \<Rightarrow> bool" where
  "ending p \<longleftrightarrow> p = Finishing \<or> p = Finish_Wait \<or> p = Ended"

definition signal_inv :: "feeder \<Rightarrow> bool \<Rightarrow> 's option list \<Rightarrow> bool" where
  "signal_inv f at_end p \<longleftrightarrow>
     (if f = Fed then (if at_end then p = [] else p \<noteq> [] \<and> last p = None \<and> None \<notin> set (butlast p))
      else None \<notin> set p \<and> \<not> at_end)"

definition control_inv :: "'s rollouter \<Rightarrow> bool" where
  "control_inv r \<longleftrightarrow>
     (ro_paused r \<longleftrightarrow> \<not> ro_resume r) \<and> (ro_paused r \<longrightarrow> ro_processor r = Draining \<and> ro_reset r = None) \<and>
     (ro_running r \<or> ro_processor r = Ended) \<and> (ro_monitor r = Stopped \<longrightarrow> \<not> ro_running r) \<and>
     (ro_processor r = Ended \<longrightarrow> ro_active r = []) \<and>
     signal_inv (ro_feed r) (ending (ro_processor r)) (ro_pending r)"

lemma ending_simps [simp]:
  "\<not> ending Checking" "\<not> ending (Sized q)" "\<not> ending Pausing" "\<not> ending Draining" "\<not> ending Getting" "\<not> ending (Holding s)"
  "\<not> ending (Reap_Wait s)" "ending Finishing" "ending Finish_Wait" "ending Ended"
  by (simp_all add: ending_def)

lemma control_inv_start: "control_inv (ro_start ls)"
  by (simp add: control_inv_def ro_start_def signal_inv_def)

lemma control_inv_step:
  assumes step: "ro_step ls e r = Some r'" and inv: "control_inv r"
  shows "control_inv r'"
proof (cases e)
  case (Task_Put i)
  then obtain mq p where "i < length (ro_active r)" "r' = (set_phase i p r)\<lparr>ro_mq := mq\<rparr>"
    using step by (auto simp: task_put_def split: if_splits sum.splits)
  with inv show ?thesis by (auto simp: control_inv_def set_phase_def)
next
  case (Task_Count i)
  then have "task_count i r = Some r'" using step by simp
  then show ?thesis by (rule task_count_effect) (use inv in \<open>auto simp: control_inv_def set_phase_def\<close>)
next
  case Trainer_Get
  then have "trainer_get r = Some r'" using step by simp
  then show ?thesis by (rule trainer_get_effect) (use inv in \<open>auto simp: control_inv_def\<close>)
next
  case Main_End
  then obtain mq where "ro_processor r = Ended" "r' = r\<lparr>ro_mq := mq, ro_running := False\<rparr>"
    using step by (auto simp: main_end_def split: if_splits sum.splits)
  with inv show ?thesis by (auto simp: control_inv_def split: if_splits)
next
  case (Proc_Drain js)
  then have "proc_drain js r = Some r'" using step by simp
  from proc_drain_effect[OF this] inv show ?thesis
    by (auto simp: control_inv_def reap_def split: if_splits)
next
  case (Proc_Reap js)
  then have "proc_reap js r = Some r'" using step by simp
  then show ?thesis by (rule proc_reap_effect) (use inv in \<open>auto simp: control_inv_def reap_def split: if_splits\<close>)
next
  case Reset_End
  then have "reset_end r = Some r'" using step by simp
  then show ?thesis by (rule reset_end_effect) (use inv in \<open>auto simp: control_inv_def\<close>)
next
  case Proc_Get
  then have "proc_get r = Some r'" using step by simp
  then show ?thesis
  proof (rule proc_get_effect)
    fix x rest
    assume x: "ro_processor r = Getting" "ro_pending r = x # rest"
      "r' = r\<lparr>ro_pending := rest, ro_staleness := ro_staleness r + 1,
              ro_processor := (case x of None \<Rightarrow> Finishing | Some s \<Rightarrow> Holding s)\<rparr>"
    then have "signal_inv (ro_feed r) (x = None) rest"
      using inv by (auto simp: control_inv_def signal_inv_def split: if_splits)
    with x inv show ?thesis by (auto simp: control_inv_def split: option.splits)
  qed
next
  case Proc_Submit
  then have "proc_submit ls r = Some r'" using step by simp
  then show ?thesis by (rule proc_submit_effect) (use inv in \<open>auto simp: control_inv_def split: if_splits\<close>)
next
  case (Feed x)
  then have "feed_sample ls x r = Some r'" using step by simp
  then show ?thesis by (rule feed_sample_effect) (use inv in \<open>simp add: control_inv_def signal_inv_def\<close>)
next
  case Feed_Exhausted
  then have "ro_feed r = Feeding" "r' = r\<lparr>ro_feed := Ending\<rparr>"
    using step by (auto simp: feed_exhausted_def split: if_splits)
  with inv show ?thesis by (simp add: control_inv_def signal_inv_def)
next
  case Feed_End
  then have "ro_feed r = Ending" "r' = r\<lparr>ro_pending := ro_pending r @ [None], ro_feed := Fed\<rparr>"
    using step by (auto simp: feed_end_def split: if_splits)
  with inv show ?thesis by (simp add: control_inv_def signal_inv_def)
next
  case Proc_Check
  with step inv show ?thesis by (auto simp: proc_check_def control_inv_def split: if_splits)
next
  case Proc_Decide
  with step inv show ?thesis
    by (cases "ro_processor r") (auto simp: proc_decide_def control_inv_def split: if_splits)
next
  case Proc_Pause
  with step inv show ?thesis by (auto simp: proc_pause_def control_inv_def lock_free_def split: if_splits)
next
  case Proc_Resume
  with step inv show ?thesis by (auto simp: proc_resume_def control_inv_def split: if_splits)
next
  case Proc_Wait
  with step inv show ?thesis
    by (cases "ro_processor r") (auto simp: proc_wait_def control_inv_def split: if_splits)
next
  case Proc_End
  with step inv show ?thesis by (auto simp: proc_end_def control_inv_def split: if_splits)
next
  case Reset_Begin
  with step inv show ?thesis by (auto simp: reset_begin_def control_inv_def split: if_splits)
next
  case Monitor_Loop
  with step inv show ?thesis by (auto simp: monitor_loop_def control_inv_def split: if_splits)
next
  case Monitor_Check
  with step inv show ?thesis by (auto simp: monitor_check_def control_inv_def split: if_splits)
next
  case Monitor_Decide
  with step inv show ?thesis by (cases "ro_monitor r") (auto simp: monitor_decide_def control_inv_def split: if_splits)
next
  case Monitor_Resume
  with step inv show ?thesis by (auto simp: monitor_resume_def control_inv_def split: if_splits)
qed

lemma control_inv_exec: "ro_exec ls es (ro_start ls) = Some r \<Longrightarrow> control_inv r"
  by (rule ro_exec_inv[of ls es "ro_start ls"]) (auto intro: control_inv_start control_inv_step)


text \<open>Where the samples that were fed are; \<open>n\<close> is their number.\<close>

definition end_signals :: "'s rollouter \<Rightarrow> nat" where
  "end_signals r = (if ro_running r then 0 else 1)"

definition pending :: "'s rollouter \<Rightarrow> nat" where
  "pending r = length (filter (\<lambda>x. x \<noteq> None) (ro_pending r))"

definition uncounted :: "'s rollouter \<Rightarrow> nat" where
  "uncounted r = length (filter (\<lambda>t. snd t \<noteq> Generating \<and> snd t \<noteq> Finished) (ro_active r))"

definition count_inv :: "nat \<Rightarrow> 's rollouter \<Rightarrow> bool" where
  "count_inv n r \<longleftrightarrow>
     n + end_signals r = pending r + held r + generating r + mq_produced (ro_mq r) \<and>
     mq_produced (ro_mq r) = uncounted r + ro_processed r + end_signals r \<and>
     mq_produced (ro_mq r) = mq_consumed (ro_mq r) + mq_dropped (ro_mq r) + length (mq_queue (ro_mq r)) \<and>
     ro_processed r = ro_generated r + ro_dropped r"

fun feeds :: "'s ro_event list \<Rightarrow> nat" where
  "feeds [] = 0"
| "feeds (Feed _ # es) = Suc (feeds es)"
| "feeds (_ # es) = feeds es"

lemma count_inv_start: "count_inv 0 (ro_start ls)"
  by (simp add: count_inv_def ro_start_def end_signals_def pending_def held_def generating_def uncounted_def)

lemma filter_update:
  assumes "i < length ts"
  shows "length (filter P (ts[i := t])) + (if P (ts ! i) then 1 else 0) = length (filter P ts) + (if P t then 1 else 0)"
  using assms
proof (induction ts arbitrary: i)
  case (Cons t' ts)
  then show ?case by (cases i) (auto simp: add.commute)
qed simp

lemma uncounted_reap: "all_finished is r \<Longrightarrow> uncounted (reap (set is) r) = uncounted r"
  unfolding uncounted_def reap_def
  by (auto simp: all_finished_def list_all_iff intro!: arg_cong[of _ _ length] length_filter_nths)

lemma set_phase_counts:
  assumes "i < length (ro_active r)"
  shows "generating (set_phase i p r) + (if snd (ro_active r ! i) = Generating then 1 else 0) = generating r + (if p = Generating then 1 else 0)"
    "uncounted (set_phase i p r) + (if snd (ro_active r ! i) \<noteq> Generating \<and> snd (ro_active r ! i) \<noteq> Finished then 1 else 0)
     = uncounted r + (if p \<noteq> Generating \<and> p \<noteq> Finished then 1 else 0)"
  using filter_update[OF assms, of "\<lambda>t. snd t = Generating" "(fst (ro_active r ! i), p)"]
    filter_update[OF assms, of "\<lambda>t. snd t \<noteq> Generating \<and> snd t \<noteq> Finished" "(fst (ro_active r ! i), p)"]
  by (simp_all add: generating_def uncounted_def set_phase_def)

lemma put_sample_counts:
  assumes "put_sample x mq = Inr (mq', ok)" "length (mq_queue mq) \<le> mq_max mq"
    "mq_produced mq = mq_consumed mq + mq_dropped mq + length (mq_queue mq)"
  shows "mq_produced mq' = mq_produced mq + 1"
    "mq_produced mq' = mq_consumed mq' + mq_dropped mq' + length (mq_queue mq')"
  using put_sample_cases[OF assms(1,2)] assms(3) by (cases "mq_queue mq"; auto)+

lemmas count_defs = count_inv_def end_signals_def pending_def held_def generating_def uncounted_def

definition same_counts :: "'s rollouter \<Rightarrow> 's rollouter \<Rightarrow> bool" where
  "same_counts r r' \<longleftrightarrow> ro_mq r' = ro_mq r \<and> ro_active r' = ro_active r \<and> ro_pending r' = ro_pending r \<and>
     ro_running r' = ro_running r \<and> ro_generated r' = ro_generated r \<and> ro_dropped r' = ro_dropped r \<and>
     ro_processed r' = ro_processed r \<and> held r' = held r"

named_theorems count_frames

lemma proc_check_counts [count_frames]: "proc_check r = Some r' \<Longrightarrow> same_counts r r'"
  by (auto simp: proc_check_def same_counts_def held_def split: if_splits)

lemma proc_decide_counts [count_frames]: "proc_decide ls r = Some r' \<Longrightarrow> same_counts r r'"
  by (auto simp: proc_decide_def same_counts_def held_def split: processor.splits if_splits)

lemma proc_pause_counts [count_frames]: "proc_pause r = Some r' \<Longrightarrow> same_counts r r'"
  by (auto simp: proc_pause_def same_counts_def held_def split: if_splits)

lemma proc_resume_counts [count_frames]: "proc_resume r = Some r' \<Longrightarrow> same_counts r r'"
  by (auto simp: proc_resume_def same_counts_def held_def split: if_splits)

lemma proc_wait_counts [count_frames]: "proc_wait ls r = Some r' \<Longrightarrow> same_counts r r'"
  by (auto simp: proc_wait_def same_counts_def held_def split: if_splits processor.splits)

lemma proc_end_counts [count_frames]: "proc_end r = Some r' \<Longrightarrow> same_counts r r'"
  by (auto simp: proc_end_def same_counts_def held_def split: if_splits)

lemma reset_begin_counts [count_frames]: "reset_begin r = Some r' \<Longrightarrow> same_counts r r'"
  by (auto simp: reset_begin_def same_counts_def held_def split: if_splits)

lemma monitor_loop_counts [count_frames]: "monitor_loop r = Some r' \<Longrightarrow> same_counts r r'"
  by (auto simp: monitor_loop_def same_counts_def held_def split: if_splits)

lemma monitor_check_counts [count_frames]: "monitor_check r = Some r' \<Longrightarrow> same_counts r r'"
  by (auto simp: monitor_check_def same_counts_def held_def split: if_splits)

lemma monitor_decide_counts [count_frames]: "monitor_decide ls r = Some r' \<Longrightarrow> same_counts r r'"
  by (auto simp: monitor_decide_def same_counts_def held_def split: if_splits monitor.splits)

lemma monitor_resume_counts [count_frames]: "monitor_resume r = Some r' \<Longrightarrow> same_counts r r'"
  by (auto simp: monitor_resume_def same_counts_def held_def split: if_splits)

lemma count_inv_frame: "count_inv n r \<Longrightarrow> same_counts r r' \<Longrightarrow> count_inv n r'"
  by (simp add: count_inv_def same_counts_def end_signals_def pending_def generating_def uncounted_def)

lemma count_inv_step:
  assumes step: "ro_step ls e r = Some r'" and inv: "count_inv n r" and control: "control_inv r" and bound: "bound_inv ls r"
  shows "count_inv (feeds [e] + n) r'"
proof -
  have q: "length (mq_queue (ro_mq r)) \<le> mq_max (ro_mq r)" using bound by (simp add: bound_inv_def)
  have m: "mq_produced (ro_mq r) = mq_consumed (ro_mq r) + mq_dropped (ro_mq r) + length (mq_queue (ro_mq r))"
    using inv by (simp add: count_inv_def)
  show ?thesis
  proof (cases e)
    case (Task_Put i)
    then have s: "task_put i r = Some r'" using step by simp
    show ?thesis
    proof (rule task_put_effect[OF s q])
      fix mq ok
      assume t: "i < length (ro_active r)" "snd (ro_active r ! i) = Generating"
        "put_sample (Some (fst (ro_active r ! i))) (ro_mq r) = Inr (mq, ok)" "r' = (set_phase i (Delivered ok) r)\<lparr>ro_mq := mq\<rparr>"
      have "generating r' = generating (set_phase i (Delivered ok) r)" "uncounted r' = uncounted (set_phase i (Delivered ok) r)"
        using t by (simp_all add: generating_def uncounted_def)
      with set_phase_counts[OF t(1), of "Delivered ok"] t put_sample_counts[OF t(3) q m] inv Task_Put show ?thesis
        by (simp add: count_inv_def end_signals_def pending_def held_def set_phase_def)
    qed
  next
    case (Task_Count i)
    then have s: "task_count i r = Some r'" using step by simp
    show ?thesis
    proof (rule task_count_effect[OF s])
      fix ok
      assume t: "i < length (ro_active r)" "snd (ro_active r ! i) = Delivered ok"
        "r' = (set_phase i Finished r)\<lparr>ro_generated := ro_generated r + (if ok then 1 else 0),
           ro_dropped := ro_dropped r + (if ok then 0 else 1), ro_processed := ro_processed r + 1\<rparr>"
      have "generating r' = generating (set_phase i Finished r)" "uncounted r' = uncounted (set_phase i Finished r)"
        using t by (simp_all add: generating_def uncounted_def)
      with set_phase_counts[OF t(1), of Finished] t inv Task_Count show ?thesis
        by (simp add: count_inv_def end_signals_def pending_def held_def set_phase_def)
    qed
  next
    case Trainer_Get
    then have s: "trainer_get r = Some r'" using step by simp
    show ?thesis by (rule trainer_get_effect[OF s]) (use inv Trainer_Get in \<open>simp add: count_defs\<close>)
  next
    case Main_End
    then have s: "main_end r = Some r'" using step by simp
    show ?thesis
    proof (rule main_end_effect[OF s q])
      fix mq ok
      assume t: "ro_running r" "put_sample None (ro_mq r) = Inr (mq, ok)" "r' = r\<lparr>ro_mq := mq, ro_running := False\<rparr>"
      with put_sample_counts[OF t(2) q m] inv Main_End show ?thesis by (simp add: count_defs)
    qed
  next
    case (Proc_Drain js)
    then have "proc_drain js r = Some r'" using step by simp
    note d = proc_drain_effect[OF this]
    with inv reap_generating[OF d(2)] uncounted_reap[OF d(2)] Proc_Drain show ?thesis
      by (auto simp: count_inv_def end_signals_def pending_def held_def)
  next
    case (Proc_Reap js)
    then have s: "proc_reap js r = Some r'" using step by simp
    show ?thesis
    proof (rule proc_reap_effect[OF s])
      fix p
      assume t: "all_finished js r" "r' = (reap (set js) r)\<lparr>ro_processor := p\<rparr>"
        "(\<exists>s. ro_processor r = Reap_Wait s \<and> p = Holding s) \<or> ro_processor r = Finish_Wait \<and> p = Finishing"
      then have "held r' = held r" by (auto simp: held_def)
      moreover have "generating r' = generating r" "uncounted r' = uncounted r"
        using reap_generating[OF t(1)] uncounted_reap[OF t(1)] t(2) by (simp_all add: generating_def uncounted_def)
      ultimately show ?thesis
        using inv Proc_Reap t(2) by (auto simp: count_inv_def end_signals_def pending_def)
    qed
  next
    case Reset_End
    then have s: "reset_end r = Some r'" using step by simp
    show ?thesis by (rule reset_end_effect[OF s]) (use inv Reset_End in \<open>simp add: count_defs\<close>)
  next
    case Proc_Get
    then have s: "proc_get r = Some r'" using step by simp
    show ?thesis
      by (rule proc_get_effect[OF s]) (use inv Proc_Get in \<open>auto simp: count_defs split: option.splits\<close>)
  next
    case Proc_Submit
    then have s: "proc_submit ls r = Some r'" using step by simp
    show ?thesis by (rule proc_submit_effect[OF s]) (use inv Proc_Submit in \<open>simp add: count_defs\<close>)
  next
    case (Feed x)
    then have s: "feed_sample ls x r = Some r'" using step by simp
    show ?thesis by (rule feed_sample_effect[OF s]) (use inv Feed in \<open>simp add: count_defs\<close>)
  next
    case Feed_Exhausted
    with step inv show ?thesis by (auto simp: feed_exhausted_def count_defs split: if_splits)
  next
    case Feed_End
    with step inv show ?thesis by (auto simp: feed_end_def count_defs split: if_splits)
  qed (use step in \<open>auto intro: count_inv_frame[OF inv] count_frames\<close>)
qed


lemma count_inv_exec_from:
  assumes "ro_exec ls es r = Some r'" "count_inv n r" "control_inv r" "bound_inv ls r"
  shows "count_inv (feeds es + n) r'"
  using assms
proof (induction es arbitrary: r n)
  case (Cons e es)
  then obtain r1 where s: "ro_step ls e r = Some r1" "ro_exec ls es r1 = Some r'" by (auto split: option.splits)
  have "feeds (e # es) = feeds [e] + feeds es" by (cases e) simp_all
  moreover have "count_inv (feeds es + (feeds [e] + n)) r'"
    using Cons.IH[OF s(2) count_inv_step[OF s(1) Cons.prems(2-4)]]
      control_inv_step[OF s(1) Cons.prems(3)] bound_inv_step[OF s(1) Cons.prems(4)] by blast
  ultimately show ?case by (simp add: add.assoc add.left_commute)
qed simp

lemma count_inv_exec: "ro_exec ls es (ro_start ls) = Some r \<Longrightarrow> count_inv (feeds es) r"
  using count_inv_exec_from[OF _ count_inv_start control_inv_start bound_inv_start] by fastforce

section \<open>Where each sample is\<close>

text \<open>
  The samples at each place, and what a step shows of them to the outside: what it feeds, what the trainer receives, and what
  the full queue gives up when something is put into it.
\<close>

definition somes :: "'s option list \<Rightarrow> 's list" where
  "somes xs = concat (map (\<lambda>x. case x of None \<Rightarrow> [] | Some s \<Rightarrow> [s]) xs)"

definition held_samples :: "'s rollouter \<Rightarrow> 's list" where
  "held_samples r = (case ro_processor r of Holding s \<Rightarrow> [s] | Reap_Wait s \<Rightarrow> [s] | _ \<Rightarrow> [])"

definition generating_samples :: "'s rollouter \<Rightarrow> 's list" where
  "generating_samples r = map fst (filter (\<lambda>t. snd t = Generating) (ro_active r))"

fun fed_samples :: "'s ro_event list \<Rightarrow> 's list" where
  "fed_samples [] = []"
| "fed_samples (Feed x # es) = x # fed_samples es"
| "fed_samples (_ # es) = fed_samples es"

definition received :: "'s ro_event \<Rightarrow> 's rollouter \<Rightarrow> 's list" where
  "received e r = (if e = Trainer_Get then (case get_sample (ro_mq r) of (_, Got x _) \<Rightarrow> somes [x] | _ \<Rightarrow> []) else [])"

definition puts :: "'s ro_event \<Rightarrow> bool" where
  "puts e = (case e of Task_Put _ \<Rightarrow> True | Main_End \<Rightarrow> True | _ \<Rightarrow> False)"

definition displaced :: "'s ro_event \<Rightarrow> 's rollouter \<Rightarrow> 's list" where
  "displaced e r = (if puts e \<and> length (mq_queue (ro_mq r)) \<ge> mq_max (ro_mq r) then somes (take 1 (mq_queue (ro_mq r))) else [])"

text \<open>The same along an execution.\<close>

fun observed :: "('s ro_event \<Rightarrow> 's rollouter \<Rightarrow> 's list) \<Rightarrow> limits \<Rightarrow> 's ro_event list \<Rightarrow> 's rollouter \<Rightarrow> 's list" where
  "observed f ls [] r = []"
| "observed f ls (e # es) r = f e r @ (case ro_step ls e r of None \<Rightarrow> [] | Some r' \<Rightarrow> observed f ls es r')"

definition sample_places :: "'s rollouter \<Rightarrow> 's multiset" where
  "sample_places r = mset (somes (ro_pending r)) + mset (held_samples r) + mset (generating_samples r) + mset (somes (mq_queue (ro_mq r)))"

lemma somes_simps [simp]:
  "somes [] = []" "somes (x # xs) = (case x of None \<Rightarrow> [] | Some s \<Rightarrow> [s]) @ somes xs" "somes (xs @ ys) = somes xs @ somes ys"
  by (simp_all add: somes_def)

lemma fed_samples_append: "fed_samples (es @ es') = fed_samples es @ fed_samples es'"
  by (induction es rule: fed_samples.induct) simp_all

lemma put_sample_places:
  assumes "put_sample x mq = Inr (mq', ok)" "length (mq_queue mq) \<le> mq_max mq"
  shows "mset (somes (mq_queue mq')) + mset (if length (mq_queue mq) \<ge> mq_max mq then somes (take 1 (mq_queue mq)) else []) =
    mset (somes (mq_queue mq)) + mset (somes [x])"
  using put_sample_cases[OF assms] assms(2) by (cases "mq_queue mq") auto

lemma generating_update:
  assumes "i < length ts" "snd (ts ! i) = Generating" "p \<noteq> Generating"
  shows "mset (map fst (filter (\<lambda>t. snd t = Generating) ts)) =
    add_mset (fst (ts ! i)) (mset (map fst (filter (\<lambda>t. snd t = Generating) (ts[i := (x, p)]))))"
  using assms by (induction ts arbitrary: i) (auto split: nat.splits)

lemma generating_update_same:
  assumes "i < length ts" "snd (ts ! i) \<noteq> Generating" "p \<noteq> Generating"
  shows "filter (\<lambda>t. snd t = Generating) (ts[i := (x, p)]) = filter (\<lambda>t. snd t = Generating) ts"
  using assms by (induction ts arbitrary: i) (auto split: nat.splits)

lemma reap_generating_samples: "all_finished is r \<Longrightarrow> generating_samples (reap (set is) r) = generating_samples r"
  unfolding generating_samples_def reap_def
  by (auto simp: all_finished_def list_all_iff intro!: arg_cong[of _ _ "map fst"] length_filter_nths)

lemmas place_defs = sample_places_def held_samples_def generating_samples_def received_def displaced_def puts_def

definition same_places :: "'s rollouter \<Rightarrow> 's rollouter \<Rightarrow> bool" where
  "same_places r r' \<longleftrightarrow> ro_mq r' = ro_mq r \<and> ro_active r' = ro_active r \<and> ro_pending r' = ro_pending r \<and> held_samples r' = held_samples r"

named_theorems place_frames

lemma proc_check_places [place_frames]: "proc_check r = Some r' \<Longrightarrow> same_places r r'"
  by (auto simp: proc_check_def same_places_def held_samples_def split: if_splits)

lemma proc_decide_places [place_frames]: "proc_decide ls r = Some r' \<Longrightarrow> same_places r r'"
  by (auto simp: proc_decide_def same_places_def held_samples_def split: processor.splits if_splits)

lemma proc_pause_places [place_frames]: "proc_pause r = Some r' \<Longrightarrow> same_places r r'"
  by (auto simp: proc_pause_def same_places_def held_samples_def split: if_splits)

lemma proc_resume_places [place_frames]: "proc_resume r = Some r' \<Longrightarrow> same_places r r'"
  by (auto simp: proc_resume_def same_places_def held_samples_def split: if_splits)

lemma proc_wait_places [place_frames]: "proc_wait ls r = Some r' \<Longrightarrow> same_places r r'"
  by (auto simp: proc_wait_def same_places_def held_samples_def split: if_splits processor.splits)

lemma proc_end_places [place_frames]: "proc_end r = Some r' \<Longrightarrow> same_places r r'"
  by (auto simp: proc_end_def same_places_def held_samples_def split: if_splits)

lemma feed_exhausted_places [place_frames]: "feed_exhausted r = Some r' \<Longrightarrow> same_places r r'"
  by (auto simp: feed_exhausted_def same_places_def held_samples_def split: if_splits)

lemma reset_begin_places [place_frames]: "reset_begin r = Some r' \<Longrightarrow> same_places r r'"
  by (auto simp: reset_begin_def same_places_def held_samples_def split: if_splits)

lemma reset_end_places [place_frames]: "reset_end r = Some r' \<Longrightarrow> same_places r r'"
  by (auto simp: reset_end_def same_places_def held_samples_def split: option.splits)

lemma monitor_loop_places [place_frames]: "monitor_loop r = Some r' \<Longrightarrow> same_places r r'"
  by (auto simp: monitor_loop_def same_places_def held_samples_def split: if_splits)

lemma monitor_check_places [place_frames]: "monitor_check r = Some r' \<Longrightarrow> same_places r r'"
  by (auto simp: monitor_check_def same_places_def held_samples_def split: if_splits)

lemma monitor_decide_places [place_frames]: "monitor_decide ls r = Some r' \<Longrightarrow> same_places r r'"
  by (auto simp: monitor_decide_def same_places_def held_samples_def split: if_splits monitor.splits)

lemma monitor_resume_places [place_frames]: "monitor_resume r = Some r' \<Longrightarrow> same_places r r'"
  by (auto simp: monitor_resume_def same_places_def held_samples_def split: if_splits)

lemma sample_places_frame: "same_places r r' \<Longrightarrow> sample_places r' = sample_places r"
  by (simp add: same_places_def sample_places_def generating_samples_def)

lemma sample_places_step:
  assumes step: "ro_step ls e r = Some r'" and bound: "bound_inv ls r"
  shows "sample_places r' + mset (received e r) + mset (displaced e r) = sample_places r + mset (fed_samples [e])"
proof -
  have q: "length (mq_queue (ro_mq r)) \<le> mq_max (ro_mq r)" using bound by (simp add: bound_inv_def)
  show ?thesis
  proof (cases e)
    case (Task_Put i)
    then have s: "task_put i r = Some r'" using step by simp
    show ?thesis
    proof (rule task_put_effect[OF s q])
      fix mq ok
      assume t: "i < length (ro_active r)" "snd (ro_active r ! i) = Generating"
        "put_sample (Some (fst (ro_active r ! i))) (ro_mq r) = Inr (mq, ok)" "r' = (set_phase i (Delivered ok) r)\<lparr>ro_mq := mq\<rparr>"
      have "mset (generating_samples r) = add_mset (fst (ro_active r ! i)) (mset (generating_samples r'))"
        using generating_update[OF t(1,2), of "Delivered ok" "fst (ro_active r ! i)"] t(4) by (simp add: generating_samples_def set_phase_def)
      with put_sample_places[OF t(3) q] t(4) Task_Put show ?thesis
        by (simp add: sample_places_def held_samples_def received_def displaced_def puts_def set_phase_def add_ac)
    qed
  next
    case (Task_Count i)
    then have s: "task_count i r = Some r'" using step by simp
    show ?thesis
    proof (rule task_count_effect[OF s])
      fix ok
      assume t: "i < length (ro_active r)" "snd (ro_active r ! i) = Delivered ok"
        "r' = (set_phase i Finished r)\<lparr>ro_generated := ro_generated r + (if ok then 1 else 0),
           ro_dropped := ro_dropped r + (if ok then 0 else 1), ro_processed := ro_processed r + 1\<rparr>"
      then have "generating_samples r' = generating_samples r"
        using generating_update_same[OF t(1), of Finished] by (simp add: generating_samples_def set_phase_def)
      with t(3) Task_Count show ?thesis
        by (simp add: sample_places_def held_samples_def received_def displaced_def puts_def set_phase_def)
    qed
  next
    case Trainer_Get
    then have s: "trainer_get r = Some r'" using step by simp
    show ?thesis
      by (rule trainer_get_effect[OF s]) (use Trainer_Get in \<open>simp add: place_defs get_sample_def split: option.split\<close>)
  next
    case Main_End
    then have s: "main_end r = Some r'" using step by simp
    show ?thesis
    proof (rule main_end_effect[OF s q])
      fix mq ok
      assume t: "put_sample None (ro_mq r) = Inr (mq, ok)" "r' = r\<lparr>ro_mq := mq, ro_running := False\<rparr>"
      with put_sample_places[OF t(1) q] Main_End show ?thesis by (simp add: place_defs add_ac)
    qed
  next
    case (Proc_Drain js)
    then have "proc_drain js r = Some r'" using step by simp
    note d = proc_drain_effect[OF this]
    with reap_generating_samples[OF d(2)] Proc_Drain show ?thesis
      by (simp add: sample_places_def held_samples_def received_def displaced_def puts_def)
  next
    case (Proc_Reap js)
    then have s: "proc_reap js r = Some r'" using step by simp
    show ?thesis
    proof (rule proc_reap_effect[OF s])
      fix p
      assume t: "all_finished js r" "r' = (reap (set js) r)\<lparr>ro_processor := p\<rparr>"
        "(\<exists>s. ro_processor r = Reap_Wait s \<and> p = Holding s) \<or> ro_processor r = Finish_Wait \<and> p = Finishing"
      then have "held_samples r' = held_samples r" by (auto simp: held_samples_def)
      moreover have "generating_samples r' = generating_samples r"
        using reap_generating_samples[OF t(1)] t(2) by (simp add: generating_samples_def)
      ultimately show ?thesis
        using Proc_Reap t(2) by (simp add: sample_places_def received_def displaced_def puts_def)
    qed
  next
    case Proc_Get
    then have s: "proc_get r = Some r'" using step by simp
    show ?thesis
      by (rule proc_get_effect[OF s]) (use Proc_Get in \<open>simp add: place_defs split: option.split\<close>)
  next
    case Proc_Submit
    then have s: "proc_submit ls r = Some r'" using step by simp
    show ?thesis by (rule proc_submit_effect[OF s]) (use Proc_Submit in \<open>simp add: place_defs\<close>)
  next
    case (Feed x)
    then have s: "feed_sample ls x r = Some r'" using step by simp
    show ?thesis by (rule feed_sample_effect[OF s]) (use Feed in \<open>simp add: place_defs\<close>)
  next
    case Feed_End
    with step show ?thesis by (auto simp: feed_end_def place_defs split: if_splits)
  qed (use step in \<open>auto dest!: place_frames sample_places_frame simp: received_def displaced_def puts_def\<close>)
qed

lemma sample_places_exec:
  assumes "ro_exec ls es r = Some r'" "bound_inv ls r"
  shows "sample_places r' + mset (observed received ls es r) + mset (observed displaced ls es r) = sample_places r + mset (fed_samples es)"
  using assms
proof (induction es arbitrary: r)
  case (Cons e es)
  then obtain r1 where s: "ro_step ls e r = Some r1" "ro_exec ls es r1 = Some r'" by (auto split: option.splits)
  have "mset (fed_samples (e # es)) = mset (fed_samples [e]) + mset (fed_samples es)"
    using fed_samples_append[of "[e]" es] by simp
  with Cons.IH[OF s(2) bound_inv_step[OF s(1) Cons.prems(2)]] sample_places_step[OF s(1) Cons.prems(2)] s(1)
  show ?case by (simp add: add_ac) (metis (no_types, lifting) add.assoc add.commute)
qed simp

lemma sample_places_start: "sample_places (ro_start ls) = {#}"
  by (simp add: place_defs ro_start_def)

section \<open>Concrete runs\<close>

text \<open>
  One required sample, no staleness allowed: the parameter update arrives while the processor holds a sample.
\<close>

definition overshoot_run :: "nat ro_event list" where
  "overshoot_run =
     [Feed 1, Feed 2, Proc_Check, Proc_Decide, Proc_Get, Reset_Begin, Reset_End, Proc_Submit, Proc_Check, Proc_Decide, Proc_Get]"

definition overshoot_tail :: "nat ro_event list" where
  "overshoot_tail = [Proc_Wait, Task_Put 0, Task_Count 0, Proc_Reap [0], Proc_Submit, Task_Put 0, Task_Count 0]"

text \<open>
  Two samples per update and a staleness threshold of a half: both samples are done while the
  processor waits for the feed, and the update counts their finished tasks.
\<close>

definition slow_feed_run :: "nat ro_event list" where
  "slow_feed_run =
     [Feed 1, Feed 2, Proc_Check, Proc_Decide, Proc_Get, Proc_Submit, Proc_Check, Proc_Decide, Proc_Get, Proc_Submit,
      Proc_Check, Proc_Decide, Task_Put 0, Task_Count 0, Task_Put 1, Task_Count 1, Trainer_Get, Trainer_Get,
      Reset_Begin, Reset_End, Feed 3, Proc_Get, Proc_Submit, Proc_Check, Proc_Decide, Proc_Pause, Task_Put 2, Task_Count 2,
      Proc_Drain [0, 1, 2]]"

text \<open>The processor is paused by the full queue, which the trainer then empties.\<close>

definition paused_run :: "nat ro_event list" where
  "paused_run =
     [Feed 1, Proc_Check, Proc_Decide, Proc_Get, Reset_Begin, Reset_End, Proc_Submit, Task_Put 0, Task_Count 0, Proc_Check,
      Proc_Decide, Proc_Pause, Proc_Drain [0], Trainer_Get]"

lemma demo_overshoot:
  "set_max_required_samples 1 0 1 1 100 = \<lparr>rl_total_steps = 100, rl_max_required = 1, rl_max_concurrent = 1, rl_max_queue = 1\<rparr>"
  "map_option (\<lambda>r. (in_flight r, ro_staleness r)) (ro_exec (set_max_required_samples 1 0 1 1 100) overshoot_run (ro_start (set_max_required_samples 1 0 1 1 100)))
   = Some (2, 1)"
  "map_option (\<lambda>r. (mq_queue (ro_mq r), ro_dropped r)) (ro_exec (set_max_required_samples 1 0 1 1 100) (overshoot_run @ overshoot_tail) (ro_start (set_max_required_samples 1 0 1 1 100)))
   = Some ([Some 2], 1)"
  by code_simp+

lemma demo_paused:
  "map_option (\<lambda>r. (ro_processor r, ro_paused r, ro_staleness r, mq_queue (ro_mq r)))
     (ro_exec (set_max_required_samples 1 0 1 1 100) paused_run (ro_start (set_max_required_samples 1 0 1 1 100)))
   = Some (Draining, True, 0, [])"
  by code_simp

lemma demo_slow:
  "map_option (\<lambda>r. (ro_processor r, ro_active r, ro_resume r, ro_staleness r, ro_monitor r, ro_reset r, mq_queue (ro_mq r)))
     (ro_exec (set_max_required_samples 2 (1/2) 1 1 100) slow_feed_run (ro_start (set_max_required_samples 2 (1/2) 1 1 100)))
   = Some (Draining, [], False, 3, Looping, None, [Some 3])"
  by code_simp


section \<open>Pauses\<close>

text \<open>
  Stuck for the trainer: the processor drains, nothing generates, and only an update of the parameters
  lowers the staleness counter.
\<close>

definition starved :: "limits \<Rightarrow> 's rollouter \<Rightarrow> bool" where
  "starved ls r \<longleftrightarrow> ro_processor r = Draining \<and> ro_active r = [] \<and> \<not> ro_resume r \<and> rl_max_required ls \<le> ro_staleness r \<and>
     ro_monitor r \<noteq> Resuming \<and> ro_reset r = None"

lemma starved_step:
  assumes "ro_step ls e r = Some r'" "starved ls r" "e \<noteq> Reset_Begin"
  shows "starved ls r' \<and> length (mq_queue (ro_mq r)) = (if e = Trainer_Get then 1 else 0) + length (mq_queue (ro_mq r'))"
proof (cases e)
  case Trainer_Get
  then have "trainer_get r = Some r'" using assms(1) by simp
  then show ?thesis by (rule trainer_get_effect) (use assms(2) Trainer_Get in \<open>auto simp: starved_def\<close>)
next
  case (Feed x)
  then have "feed_sample ls x r = Some r'" using assms(1) by simp
  then show ?thesis by (rule feed_sample_effect) (use assms(2) Feed in \<open>auto simp: starved_def\<close>)
next
  case Feed_Exhausted
  with assms show ?thesis by (auto simp: feed_exhausted_def starved_def split: if_splits)
next
  case Feed_End
  with assms show ?thesis by (auto simp: feed_end_def starved_def split: if_splits)
next
  case Monitor_Loop
  with assms show ?thesis by (auto simp: monitor_loop_def starved_def split: if_splits)
next
  case Monitor_Check
  with assms show ?thesis by (auto simp: monitor_check_def starved_def split: if_splits)
next
  case Monitor_Decide
  with assms show ?thesis
    by (cases "ro_monitor r") (auto simp: monitor_decide_def starved_def should_pause_generation_def)
next
  case (Proc_Drain js)
  with assms show ?thesis by (cases js) (auto simp: proc_drain_def starved_def all_finished_def split: if_splits)
next
  case (Proc_Reap js)
  with assms show ?thesis by (cases js) (auto simp: proc_reap_def starved_def all_finished_def split: if_splits)
qed (use assms in \<open>auto simp: starved_def proc_check_def proc_decide_def proc_pause_def proc_resume_def proc_get_def
  proc_wait_def proc_submit_def proc_end_def main_end_def task_put_def task_count_def reset_end_def monitor_resume_def\<close>)

lemma starved_exec:
  assumes "ro_exec ls es r = Some r'" "starved ls r" "Reset_Begin \<notin> set es"
  shows "starved ls r' \<and> count_list es Trainer_Get + length (mq_queue (ro_mq r')) = length (mq_queue (ro_mq r))"
  using assms
proof (induction es arbitrary: r)
  case (Cons e es)
  then obtain r1 where s: "ro_step ls e r = Some r1" "ro_exec ls es r1 = Some r'" by (auto split: option.splits)
  have "starved ls r1 \<and> length (mq_queue (ro_mq r)) = (if e = Trainer_Get then 1 else 0) + length (mq_queue (ro_mq r1))"
    using starved_step[OF s(1) Cons.prems(2)] Cons.prems(3) by (metis list.set_intros(1))
  with Cons.IH[OF s(2)] Cons.prems(3) show ?case by simp
qed simp

definition wake_events :: "'s ro_event set" where
  "wake_events = {Monitor_Loop, Monitor_Check, Monitor_Decide, Monitor_Resume, Proc_Resume}"

lemma ro_exec_append: "ro_exec ls (es @ es') r = (case ro_exec ls es r of None \<Rightarrow> None | Some r1 \<Rightarrow> ro_exec ls es' r1)"
  by (induction es arbitrary: r) (auto split: option.splits)

lemma wake_from_looping:
  assumes "ro_processor r = Draining" "ro_paused r" "ro_reset r = None" "ro_running r" "ro_monitor r = Looping"
    "get_queue_size (ro_mq r) < rl_max_queue ls" "ro_staleness r < rl_max_required ls"
  shows "ro_exec ls [Monitor_Loop, Monitor_Check, Monitor_Decide, Monitor_Resume, Proc_Resume] r =
    Some (r\<lparr>ro_paused := False, ro_resume := True, ro_monitor := Looping, ro_processor := Checking\<rparr>)"
  using assms
  by (simp add: monitor_loop_def monitor_check_def monitor_decide_def monitor_resume_def proc_resume_def
      lock_free_def should_pause_generation_def get_queue_size_def)

lemma monitor_comes_round:
  assumes "ro_processor r = Draining" "ro_paused r" "ro_reset r = None" "ro_running r" "ro_monitor r \<noteq> Stopped"
    "get_queue_size (ro_mq r) < rl_max_queue ls" "ro_staleness r < rl_max_required ls"
  shows "\<exists>es. set es \<subseteq> wake_events \<and> length es \<le> 6 \<and>
    ro_exec ls es r = Some (r\<lparr>ro_paused := False, ro_resume := True, ro_monitor := Looping, ro_processor := Checking\<rparr>)"
proof (cases "ro_monitor r")
  case Looping
  then show ?thesis
    using wake_from_looping[OF assms(1-4) _ assms(6,7)]
    by (intro exI[of _ "[Monitor_Loop, Monitor_Check, Monitor_Decide, Monitor_Resume, Proc_Resume]"]) (simp add: wake_events_def)
next
  case Sleeping
  then show ?thesis
    using assms
    by (intro exI[of _ "[Monitor_Check, Monitor_Decide, Monitor_Resume, Proc_Resume]"])
      (simp add: wake_events_def monitor_check_def monitor_decide_def monitor_resume_def proc_resume_def
        lock_free_def should_pause_generation_def get_queue_size_def)
next
  case (Sampled n)
  show ?thesis
  proof (cases "n < rl_max_queue ls")
    case True
    with Sampled assms show ?thesis
      by (intro exI[of _ "[Monitor_Decide, Monitor_Resume, Proc_Resume]"])
        (simp add: wake_events_def monitor_decide_def monitor_resume_def proc_resume_def
          lock_free_def should_pause_generation_def)
  next
    case False
    let ?r = "r\<lparr>ro_monitor := Looping\<rparr>"
    have "ro_step ls Monitor_Decide r = Some ?r"
      using Sampled False by (simp add: monitor_decide_def should_pause_generation_def)
    moreover have "ro_exec ls [Monitor_Loop, Monitor_Check, Monitor_Decide, Monitor_Resume, Proc_Resume] ?r =
        Some (?r\<lparr>ro_paused := False, ro_resume := True, ro_monitor := Looping, ro_processor := Checking\<rparr>)"
      by (rule wake_from_looping) (use assms in simp_all)
    ultimately show ?thesis
      by (intro exI[of _ "Monitor_Decide # [Monitor_Loop, Monitor_Check, Monitor_Decide, Monitor_Resume, Proc_Resume]"])
        (simp add: wake_events_def)
  qed
next
  case Resuming
  with assms show ?thesis
    by (intro exI[of _ "[Monitor_Resume, Proc_Resume]"])
      (simp add: wake_events_def monitor_resume_def proc_resume_def lock_free_def)
qed (use assms in simp)

section \<open>Properties\<close>

text \<open>
  C22: the rollouter in every interleaving of its coroutines with the trainer: the samples between the pending queue and the trainer
  are at most one more than \<open>max_required_samples\<close> and than the staleness counter; the queue holds at most
  \<open>max_queue_size\<close> and the active tasks are at most \<open>max_concurrent_samples\<close>. The one more is
  reached: a parameter update that comes while the processor holds a sample does not count it, and the queue then drops a sample.
\<close>

theorem rollouter_bounds:
  assumes "ro_exec ls es (ro_start ls) = Some r"
  shows "in_flight r \<le> rl_max_required ls + 1 \<and> in_flight r \<le> ro_staleness r + 1 \<and>
    get_queue_size (ro_mq r) \<le> rl_max_queue ls \<and> length (ro_active r) \<le> rl_max_concurrent ls"
  using bound_inv_exec[OF assms] by (simp add: bound_inv_def get_queue_size_def)

theorem rollouter_bounds_witness:
  "\<exists>r. ro_exec (set_max_required_samples 1 0 1 1 100) overshoot_run (ro_start (set_max_required_samples 1 0 1 1 100)) = Some r \<and>
    in_flight r = rl_max_required (set_max_required_samples 1 0 1 1 100) + 1 \<and> in_flight r \<le> ro_staleness r + 1"
proof -
  obtain r where r: "ro_exec (set_max_required_samples 1 0 1 1 100) overshoot_run (ro_start (set_max_required_samples 1 0 1 1 100)) = Some r"
      "in_flight r = 2"
    using demo_overshoot(2) by auto
  from rollouter_bounds[OF r(1)] r demo_overshoot(1) show ?thesis by (intro exI[of _ r]) simp
qed

text \<open>
  C23: no sample is lost or duplicated between the feed and the trainer: over any execution the samples that were fed are
  exactly, each as often as it was fed, those that wait in the pending queue, are held by the processor, are being generated, are in the queue to the trainer,
  were received by the trainer, or were displaced from the full queue. In numbers, every sample that has left generation was put once and is
  counted or about to be. When the processor has ended, nothing waits or generates, and all samples that were fed have been put and counted.
\<close>

theorem rollouter_conservation:
  assumes "ro_exec ls es (ro_start ls) = Some r"
  shows "mset (fed_samples es) = mset (somes (ro_pending r)) + mset (held_samples r) + mset (generating_samples r) +
      mset (somes (mq_queue (ro_mq r))) + mset (observed received ls es (ro_start ls)) + mset (observed displaced ls es (ro_start ls)) \<and>
    feeds es = pending r + held r + generating r + uncounted r + ro_processed r \<and>
    uncounted r + ro_processed r + end_signals r =
      mq_consumed (ro_mq r) + mq_dropped (ro_mq r) + get_queue_size (ro_mq r) \<and>
    ro_processed r = ro_generated r + ro_dropped r \<and>
    (ro_processor r = Ended \<longrightarrow> ro_feed r = Fed \<and> ro_pending r = [] \<and> ro_active r = [] \<and> ro_processed r = feeds es \<and>
       mset (fed_samples es) = mset (somes (mq_queue (ro_mq r))) +
         mset (observed received ls es (ro_start ls)) + mset (observed displaced ls es (ro_start ls)))"
proof -
  have p: "mset (fed_samples es) = sample_places r + mset (observed received ls es (ro_start ls)) + mset (observed displaced ls es (ro_start ls))"
    using sample_places_exec[OF assms bound_inv_start] by (simp add: sample_places_start)
  have e: "ro_processor r = Ended \<longrightarrow> ro_feed r = Fed \<and> ro_pending r = [] \<and> ro_active r = [] \<and> held_samples r = []"
    using control_inv_exec[OF assms] by (auto simp: control_inv_def signal_inv_def held_samples_def split: if_splits)
  then have "ro_processor r = Ended \<longrightarrow> sample_places r = mset (somes (mq_queue (ro_mq r)))"
    by (simp add: sample_places_def generating_samples_def)
  with p e count_inv_exec[OF assms] show ?thesis
    by (auto simp: sample_places_def count_inv_def get_queue_size_def pending_def held_def generating_def uncounted_def)
qed

theorem rollouter_conservation_witness:
  "\<exists>r. ro_exec (set_max_required_samples 1 0 1 1 100) (overshoot_run @ overshoot_tail) (ro_start (set_max_required_samples 1 0 1 1 100)) = Some r \<and>
    ro_dropped r = 1 \<and> {#1, 2#} \<subseteq># mset (somes (ro_pending r)) + mset (held_samples r) + mset (generating_samples r) + mset (somes (mq_queue (ro_mq r))) +
      mset (observed received (set_max_required_samples 1 0 1 1 100) (overshoot_run @ overshoot_tail) (ro_start (set_max_required_samples 1 0 1 1 100))) +
      mset (observed displaced (set_max_required_samples 1 0 1 1 100) (overshoot_run @ overshoot_tail) (ro_start (set_max_required_samples 1 0 1 1 100)))"
proof -
  obtain r where r: "ro_exec (set_max_required_samples 1 0 1 1 100) (overshoot_run @ overshoot_tail) (ro_start (set_max_required_samples 1 0 1 1 100)) = Some r"
      "ro_dropped r = 1"
    using demo_overshoot(3) by auto
  have "mset (fed_samples (overshoot_run @ overshoot_tail)) = {#1, 2#}" by (simp add: overshoot_run_def overshoot_tail_def)
  with rollouter_conservation[OF r(1)] r show ?thesis by (intro exI[of _ r]) simp
qed

text \<open>
  C24: a pause ends: from every reachable state in which the processor drains while neither the queue nor the staleness counter
  is at its limit, at most six steps of the monitor and the processor, none of which moves a sample, take the
  processor back to its loop with the pause lifted.
\<close>

theorem pause_ends:
  assumes "ro_exec ls es (ro_start ls) = Some r" "ro_processor r = Draining"
    "get_queue_size (ro_mq r) < rl_max_queue ls" "ro_staleness r < rl_max_required ls"
  shows "\<exists>es' r'. set es' \<subseteq> wake_events \<and> length es' \<le> 6 \<and> ro_exec ls es' r = Some r' \<and>
    ro_processor r' = Checking \<and> \<not> ro_paused r' \<and> ro_mq r' = ro_mq r \<and> ro_active r' = ro_active r \<and> ro_staleness r' = ro_staleness r"
proof (cases "ro_paused r")
  case True
  with control_inv_exec[OF assms(1)] assms(2) have "ro_reset r = None" "ro_running r" "ro_monitor r \<noteq> Stopped"
    by (auto simp: control_inv_def)
  from monitor_comes_round[OF assms(2) True this assms(3,4)] obtain es' where
    "set es' \<subseteq> wake_events" "length es' \<le> 6"
    "ro_exec ls es' r = Some (r\<lparr>ro_paused := False, ro_resume := True, ro_monitor := Looping, ro_processor := Checking\<rparr>)"
    by blast
  then show ?thesis
    by (intro exI[of _ es'] exI[of _ "r\<lparr>ro_paused := False, ro_resume := True, ro_monitor := Looping, ro_processor := Checking\<rparr>"]) simp
next
  case False
  with control_inv_exec[OF assms(1)] have "ro_resume r" by (simp add: control_inv_def)
  with assms(2) False show ?thesis
    by (intro exI[of _ "[Proc_Resume]"] exI[of _ "r\<lparr>ro_processor := Checking\<rparr>"]) (simp add: proc_resume_def wake_events_def)
qed

theorem pause_ends_witness:
  "\<exists>r es' r'. ro_exec (set_max_required_samples 1 0 1 1 100) paused_run (ro_start (set_max_required_samples 1 0 1 1 100)) = Some r \<and>
     ro_paused r \<and> ro_exec (set_max_required_samples 1 0 1 1 100) es' r = Some r' \<and> length es' \<le> 6 \<and> \<not> ro_paused r'"
proof -
  obtain r where r: "ro_exec (set_max_required_samples 1 0 1 1 100) paused_run (ro_start (set_max_required_samples 1 0 1 1 100)) = Some r"
      "ro_processor r = Draining" "ro_paused r" "ro_staleness r = 0" "mq_queue (ro_mq r) = []"
    using demo_paused by auto
  with pause_ends[OF r(1,2)] demo_overshoot(1) show ?thesis by (auto simp: get_queue_size_def)
qed

text \<open>
  What a slow feed does to the trainer: the tasks that are done but that the processor has not waited for yet are counted by
  \<open>reset_staleness\<close>, so the counter can be at its limit with nothing in flight. In that state, until the next
  parameter update, no interleaving generates a sample, and the trainer gets only what is queued.
\<close>

theorem starved_until_reset:
  assumes "ro_processor r = Draining" "ro_active r = []" "\<not> ro_resume r" "rl_max_required ls \<le> ro_staleness r"
    "ro_monitor r \<noteq> Resuming" "ro_reset r = None" "ro_exec ls es r = Some r'" "Reset_Begin \<notin> set es"
  shows "count_list es Trainer_Get + get_queue_size (ro_mq r') = get_queue_size (ro_mq r) \<and> ro_processor r' = Draining \<and> ro_active r' = []"
  using starved_exec[OF assms(7) _ assms(8)] assms(1-6) by (simp add: starved_def get_queue_size_def)

theorem starved_until_reset_witness:
  "\<exists>r r'. ro_exec (set_max_required_samples 2 (1/2) 1 1 100) slow_feed_run (ro_start (set_max_required_samples 2 (1/2) 1 1 100)) = Some r \<and>
     ro_exec (set_max_required_samples 2 (1/2) 1 1 100) [Feed 4, Monitor_Loop, Trainer_Get] r = Some r' \<and>
     get_queue_size (ro_mq r') = 0 \<and> ro_processor r' = Draining"
proof -
  let ?ls = "set_max_required_samples 2 (1/2) 1 1 100"
  obtain r where r: "ro_exec ?ls slow_feed_run (ro_start ?ls) = Some r" "ro_processor r = Draining" "ro_active r = []" "\<not> ro_resume r"
      "ro_staleness r = 3" "ro_monitor r = Looping" "ro_reset r = None" "mq_queue (ro_mq r) = [Some 3]"
    using demo_slow by auto
  have "map_option (\<lambda>r. ()) (ro_exec ?ls (slow_feed_run @ [Feed 4, Monitor_Loop, Trainer_Get]) (ro_start ?ls)) = Some ()"
    by code_simp
  then obtain r' where r': "ro_exec ?ls [Feed 4, Monitor_Loop, Trainer_Get] r = Some r'"
    using r(1) by (auto simp: ro_exec_append)
  have "rl_max_required ?ls = 3" by code_simp
  then have "rl_max_required ?ls \<le> ro_staleness r" using r(5) by simp
  from starved_until_reset[OF r(2-4) this _ r(7) r'] r show ?thesis using r'
    by (intro exI[of _ r] exI[of _ r']) (simp add: get_queue_size_def)
qed

end
