(* ===== verification/Replica_Manager.thy ===== *)
theory Replica_Manager
  imports Load_Balancer
begin

text \<open>
  Hybrid replicas of the asynchronous rollouter, \<open>FullyAsyncLLMServerManager\<close> in
  \<open>verl/experimental/fully_async_policy/fully_async_rollouter.py\<close>: replicas on the trainer's GPUs are registered sleeping and
  join or leave the pool of the load balancer of \<open>Load_Balancer\<close> in batches.
\<close>

section \<open>The state\<close>

text \<open>Two replicas are equal when they are the same object; \<open>rep_id\<close> is its identity.\<close>

record ('i, 'h) replica =
  rep_id :: 'i
  rep_address :: string
  rep_handle :: 'h

record ('i, 'h) replica_manager =
  rm_hybrid :: "(string, ('i, 'h) replica) dict"
  rm_alive :: "(string, ('i, 'h) replica) dict"
  rm_alive_addresses :: "(string, string) dict"
  rm_handles :: "'h list"
  rm_addresses :: "string list"
  rm_replicas :: "('i, 'h) replica list"

text \<open>
  \<open>_initialize_llm_servers\<close>: the parent creates the hybrid replicas first, which are renamed and registered, then the
  standalone ones.
\<close>

definition rm_init :: "(nat \<Rightarrow> string) \<Rightarrow> ('i, 'h) replica list \<Rightarrow> ('i, 'h) replica list \<Rightarrow> ('i, 'h) replica_manager" where
  "rm_init resource_id hybrid standalone =
     \<lparr>rm_hybrid = fold (\<lambda>(i, r) d. AList.update (resource_id i) r d) (zip [0..<length hybrid] hybrid) [],
      rm_alive = [], rm_alive_addresses = [], rm_handles = map rep_handle standalone,
      rm_addresses = map rep_address standalone, rm_replicas = standalone\<rparr>"

section \<open>Adding and removing\<close>

definition has_key :: "'k \<Rightarrow> ('k, 'v) dict \<Rightarrow> bool" where
  "has_key k d \<longleftrightarrow> map_of d k \<noteq> None"

fun add_filter :: "('i, 'h) replica_manager \<Rightarrow> string list \<Rightarrow> (string, 'h) dict \<Rightarrow> string list \<Rightarrow> (string, 'h) dict \<times> string list" where
  "add_filter m [] servers valid = (servers, valid)"
| "add_filter m (rid # rids) servers valid =
     (if has_key rid (rm_alive m) then add_filter m rids servers valid
      else case map_of (rm_hybrid m) rid of
        None \<Rightarrow> add_filter m rids servers valid
      | Some r \<Rightarrow> add_filter m rids (AList.update (rep_address r) (rep_handle r) servers) (valid @ [rid]))"

definition track_added :: "string \<Rightarrow> ('i, 'h) replica_manager \<Rightarrow> ('i, 'h) replica_manager result" where
  "track_added rid m = res_bind (dict_index (rm_hybrid m) rid) (\<lambda>r.
     let m1 = (if rep_address r \<in> set (rm_addresses m) then m
               else m\<lparr>rm_handles := rm_handles m @ [rep_handle r], rm_addresses := rm_addresses m @ [rep_address r]\<rparr>);
         m2 = (if r \<in> set (rm_replicas m1) then m1 else m1\<lparr>rm_replicas := rm_replicas m1 @ [r]\<rparr>)
     in Inr (m2\<lparr>rm_alive := AList.update rid r (rm_alive m2),
                rm_alive_addresses := AList.update rid (rep_address r) (rm_alive_addresses m2)\<rparr>))"

text \<open>A loop whose body may raise inside a \<open>try\<close>: what was done before the exception stays.\<close>

fun try_each :: "('a \<Rightarrow> 's \<Rightarrow> 's result) \<Rightarrow> 'a list \<Rightarrow> 's \<Rightarrow> 's \<times> bool" where
  "try_each f [] s = (s, True)"
| "try_each f (x # xs) s = (case f x s of Inl _ \<Rightarrow> (s, False) | Inr s' \<Rightarrow> try_each f xs s')"

text \<open>\<open>rpc\<close>: whether the call to the load balancer succeeds; a call that fails changed nothing there.\<close>

definition add_replicas :: "bool \<Rightarrow> string list \<Rightarrow> ('i, 'h) replica_manager \<Rightarrow> ('c, 'h) load_balancer \<Rightarrow>
    nat \<times> ('i, 'h) replica_manager \<times> ('c, 'h) load_balancer" where
  "add_replicas rpc resource_ids m lb =
     (let (servers_to_add, valid) = add_filter m resource_ids [] []
      in if servers_to_add = [] then (0, m, lb)
         else if \<not> rpc then (0, m, lb)
         else let (m', ok) = try_each track_added valid m
              in ((if ok then length valid else 0), m', add_servers lb servers_to_add))"

definition remove_filter :: "('i, 'h) replica_manager \<Rightarrow> string list \<Rightarrow> (string list \<times> string list) result" where
  "remove_filter m resource_ids =
     res_fold (\<lambda>rid (sids, valid).
       if has_key rid (rm_alive m)
       then res_bind (dict_index (rm_alive_addresses m) rid) (\<lambda>a. Inr (sids @ [a], valid @ [rid]))
       else Inr (sids, valid)) resource_ids ([], [])"

definition list_pop :: "nat \<Rightarrow> 'a list \<Rightarrow> 'a list" where
  "list_pop i xs = take i xs @ drop (Suc i) xs"

definition list_index :: "'a \<Rightarrow> 'a list \<Rightarrow> nat" where
  "list_index x xs = length (takeWhile (\<lambda>y. y \<noteq> x) xs)"

definition untrack :: "string \<Rightarrow> ('i, 'h) replica_manager \<Rightarrow> ('i, 'h) replica_manager result" where
  "untrack rid m =
     res_bind (dict_index (rm_alive_addresses m) rid) (\<lambda>a.
     res_bind (dict_index (rm_alive m) rid) (\<lambda>r.
       let m1 = (if a \<in> set (rm_addresses m)
                 then (let i = list_index a (rm_addresses m)
                       in m\<lparr>rm_addresses := list_pop i (rm_addresses m), rm_handles := list_pop i (rm_handles m)\<rparr>)
                 else m);
           m2 = (if r \<in> set (rm_replicas m1) then m1\<lparr>rm_replicas := remove1 r (rm_replicas m1)\<rparr> else m1)
       in Inr (m2\<lparr>rm_alive := AList.delete rid (rm_alive m2),
                  rm_alive_addresses := AList.delete rid (rm_alive_addresses m2)\<rparr>)))"

definition remove_replicas :: "bool \<Rightarrow> string list \<Rightarrow> ('i, 'h) replica_manager \<Rightarrow> ('c, 'h) load_balancer \<Rightarrow>
    (nat \<times> ('i, 'h) replica_manager \<times> ('c, 'h) load_balancer) result" where
  "remove_replicas rpc resource_ids m lb =
     res_bind (remove_filter m resource_ids) (\<lambda>(server_ids, valid).
       if server_ids = [] then Inr (0, m, lb)
       else if \<not> rpc then Inr (0, m, lb)
       else let (m', ok) = try_each untrack valid m
            in Inr ((if ok then length valid else 0), m', remove_servers lb server_ids))"

definition get_num_hybrid_replicas :: "('i, 'h) replica_manager \<Rightarrow> nat" where
  "get_num_hybrid_replicas m = length (rm_alive m)"

definition get_hybrid_replicas_info :: "('i, 'h) replica_manager \<Rightarrow> (string \<times> string) list" where
  "get_hybrid_replicas_info m = rm_alive_addresses m"

definition get_active_server_count :: "('i, 'h) replica_manager \<Rightarrow> nat" where
  "get_active_server_count m = length (rm_replicas m) + length (rm_alive m)"

section \<open>The invariant\<close>

text \<open>
  \<open>standalone\<close> are the replicas that never leave. The addresses of all replicas are different.
\<close>

definition rm_inv :: "('i, 'h) replica list \<Rightarrow> ('i, 'h) replica_manager \<Rightarrow> bool" where
  "rm_inv standalone m \<longleftrightarrow>
     dict_wf (rm_alive m) \<and> (\<forall>rid r. map_of (rm_alive m) rid = Some r \<longrightarrow> map_of (rm_hybrid m) rid = Some r) \<and>
     rm_alive_addresses m = map (\<lambda>(rid, r). (rid, rep_address r)) (rm_alive m) \<and>
     rm_replicas m = standalone @ map snd (rm_alive m) \<and>
     rm_addresses m = map rep_address (rm_replicas m) \<and> rm_handles m = map rep_handle (rm_replicas m)"

definition addresses_differ :: "('i, 'h) replica list \<Rightarrow> ('i, 'h) replica_manager \<Rightarrow> bool" where
  "addresses_differ standalone m \<longleftrightarrow>
     inj_on rep_address (set standalone) \<and> distinct standalone \<and> dict_wf (rm_hybrid m) \<and>
     (\<forall>rid r. map_of (rm_hybrid m) rid = Some r \<longrightarrow> rep_address r \<notin> rep_address ` set standalone) \<and>
     (\<forall>rid r rid' r'. map_of (rm_hybrid m) rid = Some r \<and> map_of (rm_hybrid m) rid' = Some r' \<and> rep_address r = rep_address r'
        \<longrightarrow> rid = rid')"


lemma delete_middle: "k \<notin> fst ` set xs \<Longrightarrow> k \<notin> fst ` set ys \<Longrightarrow> AList.delete k (xs @ (k, v) # ys) = xs @ ys"
  by (induction xs) (auto simp: delete_id)

lemma delete_map_values: "AList.delete k (map (\<lambda>(k, v). (k, f v)) d) = map (\<lambda>(k, v). (k, f v)) (AList.delete k d)"
  by (induction d) auto

lemma update_same: "map_of d k = Some v \<Longrightarrow> AList.update k v d = d"
  by (induction d) auto

lemma addresses_of_alive:
  "rm_inv standalone m \<Longrightarrow> map_of (rm_alive_addresses m) rid = map_option rep_address (map_of (rm_alive m) rid)"
  by (simp add: rm_inv_def map_of_map)

lemma list_pop_at: "i = length xs \<Longrightarrow> list_pop i (xs @ y # ys) = xs @ ys"
  by (simp add: list_pop_def)

lemma list_index_at: "x \<notin> set xs \<Longrightarrow> list_index x (xs @ x # ys) = length xs"
  by (induction xs) (auto simp: list_index_def)

text \<open>The place of an active replica in the lists of the manager.\<close>

lemma alive_place:
  assumes inv: "rm_inv standalone m" and differ: "addresses_differ standalone m" and r: "map_of (rm_alive m) rid = Some r"
  obtains xs ys where "rm_alive m = xs @ (rid, r) # ys" "rid \<notin> fst ` set xs" "rid \<notin> fst ` set ys"
    "rep_address r \<notin> rep_address ` set standalone" "rep_address r \<notin> rep_address ` snd ` set xs"
proof -
  from r obtain xs ys where d: "rm_alive m = xs @ (rid, r) # ys" by (metis map_of_SomeD split_list)
  have wf: "dict_wf (rm_alive m)" and hyb: "\<And>rid r. map_of (rm_alive m) rid = Some r \<Longrightarrow> map_of (rm_hybrid m) rid = Some r"
    using inv by (auto simp: rm_inv_def)
  have before: "rep_address r \<noteq> rep_address r'" if "(rid', r') \<in> set xs" for rid' r'
  proof -
    have "rid' \<noteq> rid" using wf d that by (force simp: dict_wf_def)
    moreover have "map_of (rm_alive m) rid' = Some r'" using dict_wf_map_of[OF wf, of rid' r'] d that by auto
    ultimately show ?thesis using differ hyb r unfolding addresses_differ_def by metis
  qed
  have "rep_address r \<notin> rep_address ` set standalone" using differ hyb[OF r] by (auto simp: addresses_differ_def)
  moreover have "rep_address r \<notin> rep_address ` snd ` set xs" using before by force
  ultimately show thesis using that[OF d] wf d by (auto simp: dict_wf_def)
qed

lemma track_added_inv:
  assumes inv: "rm_inv standalone m" and differ: "addresses_differ standalone m" and r: "map_of (rm_hybrid m) rid = Some r"
  shows "\<exists>m'. track_added rid m = Inr m' \<and> rm_inv standalone m' \<and> rm_hybrid m' = rm_hybrid m \<and>
    fst ` set (rm_alive m') = insert rid (fst ` set (rm_alive m))"
proof (cases "map_of (rm_alive m) rid")
  case None
  have "rep_address r \<noteq> rep_address r'" if "(rid', r') \<in> set (rm_alive m)" for rid' r'
  proof -
    have "map_of (rm_alive m) rid' = Some r'" using inv dict_wf_map_of[of "rm_alive m" rid' r'] that by (simp add: rm_inv_def)
    then show ?thesis using None inv differ r unfolding addresses_differ_def rm_inv_def by (metis option.distinct(1))
  qed
  moreover have "rep_address r \<notin> rep_address ` set standalone" using differ r by (auto simp: addresses_differ_def)
  ultimately have new: "rep_address r \<notin> set (rm_addresses m)" using inv by (fastforce simp: rm_inv_def)
  then have "r \<notin> set (rm_replicas m)" using inv by (force simp: rm_inv_def)
  have keys: "rid \<notin> fst ` set (rm_alive m)" using None by (simp add: map_of_eq_None_iff)
  then have keys': "rid \<notin> fst ` set (rm_alive_addresses m)" using inv by (force simp: rm_inv_def)
  note \<open>r \<notin> set (rm_replicas m)\<close>
  moreover have "AList.update rid r (rm_alive m) = rm_alive m @ [(rid, r)]"
      "AList.update rid (rep_address r) (rm_alive_addresses m) = rm_alive_addresses m @ [(rid, rep_address r)]"
    using keys keys' by (simp_all add: update_new)
  moreover have "dict_wf (rm_alive m @ [(rid, r)])"
    using None inv by (auto simp: rm_inv_def dict_wf_def map_of_eq_None_iff)
  ultimately show ?thesis
    using None new r inv by (auto simp: track_added_def dict_index_def Let_def rm_inv_def map_add_def split: option.splits)
next
  case (Some r')
  then have "r' = r" using inv r by (auto simp: rm_inv_def)
  with Some have a: "map_of (rm_alive m) rid = Some r" by simp
  then have b: "map_of (rm_alive_addresses m) rid = Some (rep_address r)" using addresses_of_alive[OF inv] by simp
  from a have "r \<in> snd ` set (rm_alive m)" by (metis image_eqI map_of_SomeD snd_conv)
  then have "r \<in> set (rm_replicas m)" "rep_address r \<in> set (rm_addresses m)" using inv by (auto simp: rm_inv_def)
  moreover have "rid \<in> fst ` set (rm_alive m)" using a by (metis image_eqI map_of_SomeD fst_conv)
  ultimately show ?thesis
    using update_same[OF a] update_same[OF b] r inv
    by (auto simp: track_added_def dict_index_def Let_def insert_absorb)
qed

lemma untrack_inv:
  assumes inv: "rm_inv standalone m" and differ: "addresses_differ standalone m" and r: "map_of (rm_alive m) rid = Some r"
  shows "\<exists>m'. untrack rid m = Inr m' \<and> rm_inv standalone m' \<and> rm_hybrid m' = rm_hybrid m \<and>
    rm_alive m' = AList.delete rid (rm_alive m)"
proof -
  obtain xs ys where p: "rm_alive m = xs @ (rid, r) # ys" "rid \<notin> fst ` set xs" "rid \<notin> fst ` set ys"
      "rep_address r \<notin> rep_address ` set standalone" "rep_address r \<notin> rep_address ` snd ` set xs"
    using alive_place[OF inv differ r] by blast
  let ?a = "rep_address r"
  have addrs: "rm_addresses m = (map rep_address (standalone @ map snd xs)) @ ?a # map rep_address (map snd ys)"
      and hands: "rm_handles m = (map rep_handle (standalone @ map snd xs)) @ rep_handle r # map rep_handle (map snd ys)"
      and reps: "rm_replicas m = (standalone @ map snd xs) @ r # map snd ys"
    using inv p(1) by (simp_all add: rm_inv_def)
  have "?a \<notin> set (map rep_address (standalone @ map snd xs))" using p(4,5) by auto
  then have i: "list_index ?a (rm_addresses m) = length (standalone @ map snd xs)"
    unfolding addrs by (subst list_index_at) simp_all
  have pop_a: "list_pop (list_index ?a (rm_addresses m)) (rm_addresses m) = map rep_address (standalone @ map snd xs) @ map rep_address (map snd ys)"
    using i unfolding addrs by (intro list_pop_at) simp
  have pop_h: "list_pop (list_index ?a (rm_addresses m)) (rm_handles m) = map rep_handle (standalone @ map snd xs) @ map rep_handle (map snd ys)"
    using i unfolding hands by (intro list_pop_at) simp
  have "r \<notin> set (standalone @ map snd xs)" using p(4,5) by auto
  then have rem: "remove1 r (rm_replicas m) = (standalone @ map snd xs) @ map snd ys" unfolding reps by (simp add: remove1_append)
  have del: "AList.delete rid (rm_alive m) = xs @ ys"
    unfolding p(1) by (rule delete_middle[OF p(2,3)])
  have del_a: "AList.delete rid (rm_alive_addresses m) = map (\<lambda>(rid, r). (rid, rep_address r)) (xs @ ys)"
    using inv del by (simp only: rm_inv_def delete_map_values)
  have b: "map_of (rm_alive_addresses m) rid = Some ?a" using addresses_of_alive[OF inv] r by simp
  have in_a: "?a \<in> set (rm_addresses m)" and in_r: "r \<in> set (rm_replicas m)" using addrs reps by simp_all
  let ?m = "m\<lparr>rm_alive := xs @ ys, rm_alive_addresses := map (\<lambda>(rid, r). (rid, rep_address r)) (xs @ ys),
    rm_handles := map rep_handle (standalone @ map snd xs) @ map rep_handle (map snd ys),
    rm_addresses := map rep_address (standalone @ map snd xs) @ map rep_address (map snd ys),
    rm_replicas := (standalone @ map snd xs) @ map snd ys\<rparr>"
  have "untrack rid m = Inr ?m"
    using in_a in_r unfolding untrack_def dict_index_def b r Let_def
    by (simp only: option.case res_bind_Inr if_True replica_manager.simps pop_a pop_h) (simp add: rem del del_a)
  moreover have "dict_wf (xs @ ys)" using inv p(1) by (auto simp: rm_inv_def dict_wf_def)
  moreover have "map_of (rm_hybrid m) k = Some v" if "map_of (xs @ ys) k = Some v" for k v
    using inv that map_of_delete[of rid "rm_alive m"] unfolding del by (auto simp: rm_inv_def split: if_splits)
  then have "rm_inv standalone ?m" using \<open>dict_wf (xs @ ys)\<close> by (simp add: rm_inv_def)
  ultimately show ?thesis using del by simp
qed


lemma try_each_track:
  assumes "rm_inv standalone m" "addresses_differ standalone m" "\<forall>rid \<in> set rids. map_of (rm_hybrid m) rid \<noteq> None"
  shows "\<exists>m'. try_each track_added rids m = (m', True) \<and> rm_inv standalone m' \<and> rm_hybrid m' = rm_hybrid m \<and>
    fst ` set (rm_alive m') = fst ` set (rm_alive m) \<union> set rids"
  using assms
proof (induction rids arbitrary: m)
  case (Cons rid rids)
  then obtain r where "map_of (rm_hybrid m) rid = Some r" by auto
  from track_added_inv[OF Cons.prems(1,2) this] obtain m1 where m1: "track_added rid m = Inr m1" "rm_inv standalone m1"
      "rm_hybrid m1 = rm_hybrid m" "fst ` set (rm_alive m1) = insert rid (fst ` set (rm_alive m))" by blast
  with Cons.IH[OF m1(2)] Cons.prems(2,3) show ?case by (auto simp: addresses_differ_def)
qed simp

lemma try_each_untrack:
  assumes "rm_inv standalone m" "addresses_differ standalone m" "\<forall>rid \<in> set rids. map_of (rm_alive m) rid \<noteq> None" "distinct rids"
  shows "\<exists>m'. try_each untrack rids m = (m', True) \<and> rm_inv standalone m' \<and> rm_hybrid m' = rm_hybrid m \<and>
    rm_alive m' = fold AList.delete rids (rm_alive m)"
  using assms
proof (induction rids arbitrary: m)
  case (Cons rid rids)
  then obtain r where "map_of (rm_alive m) rid = Some r" by auto
  from untrack_inv[OF Cons.prems(1,2) this] obtain m1 where m1: "untrack rid m = Inr m1" "rm_inv standalone m1"
      "rm_hybrid m1 = rm_hybrid m" "rm_alive m1 = AList.delete rid (rm_alive m)" by blast
  then have "\<forall>rid \<in> set rids. map_of (rm_alive m1) rid \<noteq> None" "addresses_differ standalone m1"
    using Cons.prems(2-4) by (auto simp: addresses_differ_def)
  with m1 Cons.IH[OF m1(2)] Cons.prems(4) show ?case by simp
qed simp

lemma add_filter_valid:
  "snd (add_filter m rids servers valid) = valid @ filter (\<lambda>rid. map_of (rm_alive m) rid = None \<and> map_of (rm_hybrid m) rid \<noteq> None) rids"
  by (induction rids arbitrary: servers valid) (auto simp: has_key_def split: option.splits)

lemma add_filter_servers:
  "fst ` set (fst (add_filter m rids servers valid)) = fst ` set servers \<union>
     {rep_address r | rid r. rid \<in> set rids \<and> map_of (rm_alive m) rid = None \<and> map_of (rm_hybrid m) rid = Some r}"
proof (induction rids arbitrary: servers valid)
  case (Cons rid rids)
  show ?case
    by (cases "map_of (rm_alive m) rid"; cases "map_of (rm_hybrid m) rid")
      (auto simp: has_key_def Cons.IH dict_keys_update)
qed simp

lemma remove_filter_fold:
  assumes "rm_inv standalone m"
  shows "res_fold (\<lambda>rid (sids, valid). if has_key rid (rm_alive m)
       then res_bind (dict_index (rm_alive_addresses m) rid) (\<lambda>a. Inr (sids @ [a], valid @ [rid]))
       else Inr (sids, valid)) rids (sids, valid) =
    Inr (sids @ map (\<lambda>rid. rep_address (the (map_of (rm_alive m) rid))) (filter (\<lambda>rid. has_key rid (rm_alive m)) rids),
         valid @ filter (\<lambda>rid. has_key rid (rm_alive m)) rids)"
proof (induction rids arbitrary: sids valid)
  case (Cons rid rids)
  then show ?case
    using addresses_of_alive[OF assms, of rid] by (cases "map_of (rm_alive m) rid") (simp_all add: has_key_def dict_index_def)
qed simp

lemmas remove_filter_alive = remove_filter_fold[where sids = "[]" and valid = "[]", folded remove_filter_def, unfolded append_Nil]

text \<open>The replicas the load balancer routes to.\<close>

definition alive_set :: "('i, 'h) replica_manager \<Rightarrow> string set" where
  "alive_set m = rep_address ` snd ` set (rm_alive m)"

definition pool_inv :: "('i, 'h) replica list \<Rightarrow> ('i, 'h) replica_manager \<Rightarrow> ('c, 'h) load_balancer \<Rightarrow> bool" where
  "pool_inv standalone m lb \<longleftrightarrow>
     rm_inv standalone m \<and> addresses_differ standalone m \<and> lb_wf lb \<and>
     set (get_all_servers lb) = rep_address ` set standalone \<union> alive_set m"

lemma differ_same:
  assumes "addresses_differ standalone m" "rm_hybrid m' = rm_hybrid m"
  shows "addresses_differ standalone m'"
  unfolding addresses_differ_def assms(2) by (rule assms(1)[unfolded addresses_differ_def])

lemma key_iff: "k \<in> fst ` set d \<longleftrightarrow> map_of d k \<noteq> None"
  by (simp add: map_of_eq_None_iff)

lemma alive_set_iff:
  "dict_wf (rm_alive m) \<Longrightarrow> a \<in> alive_set m \<longleftrightarrow> (\<exists>rid r. map_of (rm_alive m) rid = Some r \<and> rep_address r = a)"
  using dict_wf_map_of[of "rm_alive m"] by (force simp: alive_set_def)

lemma alive_set_hybrid:
  assumes "rm_inv standalone m"
  shows "a \<in> alive_set m \<longleftrightarrow> (\<exists>rid r. rid \<in> fst ` set (rm_alive m) \<and> map_of (rm_hybrid m) rid = Some r \<and> rep_address r = a)"
proof -
  have wf: "dict_wf (rm_alive m)" and same: "\<And>rid r. map_of (rm_alive m) rid = Some r \<Longrightarrow> map_of (rm_hybrid m) rid = Some r"
    using assms by (simp_all add: rm_inv_def)
  have "map_of (rm_alive m) rid = Some r" if "rid \<in> fst ` set (rm_alive m)" "map_of (rm_hybrid m) rid = Some r" for rid r
  proof -
    obtain r' where "map_of (rm_alive m) rid = Some r'" using \<open>rid \<in> fst ` set (rm_alive m)\<close> by (auto simp: dom_map_of_conv_image_fst[symmetric])
    with same[OF this] that(2) show ?thesis by simp
  qed
  moreover have "rid \<in> fst ` set (rm_alive m)" if "map_of (rm_alive m) rid = Some r" for rid r
    using that by (auto simp: dom_map_of_conv_image_fst[symmetric])
  ultimately have "map_of (rm_alive m) rid = Some r \<longleftrightarrow> rid \<in> fst ` set (rm_alive m) \<and> map_of (rm_hybrid m) rid = Some r" for rid r
    using same by metis
  then show ?thesis by (simp only: alive_set_iff[OF wf] conj_assoc)
qed

lemma lookup_without:
  assumes one: "\<And>k k' v v'. A k = Some v \<Longrightarrow> A k' = Some v' \<Longrightarrow> f v = f v' \<Longrightarrow> k = k'"
  shows "(\<exists>k v. (if k \<in> V then None else A k) = Some v \<and> f v = a) \<longleftrightarrow>
    (\<exists>k v. A k = Some v \<and> f v = a) \<and> \<not> (\<exists>k v. k \<in> V \<and> A k = Some v \<and> f v = a)"
    (is "?l \<longleftrightarrow> ?r")
proof
  assume ?l
  then obtain k v where k: "k \<notin> V" "A k = Some v" "f v = a" by (auto split: if_splits)
  then have "k' = k" if "A k' = Some v'" "f v' = a" for k' v' using one[OF that(1) k(2)] that(2) by simp
  with k show ?r by blast
next
  assume ?r
  then obtain k v where "k \<notin> V" "A k = Some v" "f v = a" by blast
  then have "(if k \<in> V then None else A k) = Some v \<and> f v = a" by simp
  then show ?l by blast
qed

lemma map_of_fold_delete: "map_of (fold AList.delete ks d) k = (if k \<in> set ks then None else map_of d k)"
  by (induction ks arbitrary: d) auto

section \<open>Executions\<close>

datatype replica_op = Add_Replicas bool "string list" | Remove_Replicas bool "string list"

fun replica_step :: "replica_op \<Rightarrow> ('i, 'h) replica_manager \<times> ('c, 'h) load_balancer \<Rightarrow>
    (('i, 'h) replica_manager \<times> ('c, 'h) load_balancer) result" where
  "replica_step (Add_Replicas rpc ids) (m, lb) = Inr (snd (add_replicas rpc ids m lb))"
| "replica_step (Remove_Replicas rpc ids) (m, lb) = res_bind (remove_replicas rpc ids m lb) (\<lambda>out. Inr (snd out))"

lemma add_replicas_pool:
  assumes "pool_inv standalone m lb"
  obtains n m' lb' where "add_replicas rpc ids m lb = (n, m', lb')" "pool_inv standalone m' lb'" "rm_hybrid m' = rm_hybrid m"
    "fst ` set (rm_alive m') = fst ` set (rm_alive m) \<union> (if rpc then {rid \<in> set ids. map_of (rm_hybrid m) rid \<noteq> None} else {})"
proof -
  have inv: "rm_inv standalone m" and differ: "addresses_differ standalone m" and wf: "lb_wf lb"
      and served: "set (get_all_servers lb) = rep_address ` set standalone \<union> alive_set m"
    using assms by (simp_all add: pool_inv_def)
  obtain servers valid where f: "add_filter m ids [] [] = (servers, valid)" by (cases "add_filter m ids [] []")
  have valid: "valid = filter (\<lambda>rid. map_of (rm_alive m) rid = None \<and> map_of (rm_hybrid m) rid \<noteq> None) ids"
    using add_filter_valid[of m ids "[]" "[]"] f by simp
  have servers: "fst ` set servers = {rep_address r | rid r. rid \<in> set valid \<and> map_of (rm_hybrid m) rid = Some r}"
    using add_filter_servers[of m ids "[]" "[]"] f valid by auto
  have keys: "{rid \<in> set ids. map_of (rm_hybrid m) rid \<noteq> None} \<subseteq> fst ` set (rm_alive m) \<union> set valid"
    using valid by (auto simp: map_of_eq_None_iff)
  have old: "map_of (rm_hybrid m) rid \<noteq> None" if "rid \<in> fst ` set (rm_alive m)" for rid
    using inv that by (auto simp: rm_inv_def dom_map_of_conv_image_fst[symmetric])
  show thesis
  proof (cases "servers = [] \<or> \<not> rpc")
    case True
    then have "valid = []" if rpc
    proof -
      have "\<not> (rid \<in> set valid \<and> map_of (rm_hybrid m) rid = Some r)" for rid r
        using servers that True by auto
      then have "set valid = {}" unfolding valid by fastforce
      then show ?thesis by simp
    qed
    then have "fst ` set (rm_alive m) = fst ` set (rm_alive m) \<union> (if rpc then {rid \<in> set ids. map_of (rm_hybrid m) rid \<noteq> None} else {})"
      using keys by auto
    moreover have "add_replicas rpc ids m lb = (0, m, lb)" using True f by (auto simp: add_replicas_def)
    ultimately show thesis using that assms by blast
  next
    case False
    have "\<forall>rid \<in> set valid. map_of (rm_hybrid m) rid \<noteq> None" using valid by simp
    from try_each_track[OF inv differ this] obtain m' where m': "try_each track_added valid m = (m', True)" "rm_inv standalone m'"
        "rm_hybrid m' = rm_hybrid m" "fst ` set (rm_alive m') = fst ` set (rm_alive m) \<union> set valid" by blast
    have "a \<in> alive_set m' \<longleftrightarrow> a \<in> alive_set m \<or> a \<in> fst ` set servers" for a
    proof -
      show ?thesis unfolding alive_set_hybrid[OF inv] alive_set_hybrid[OF m'(2)] servers m'(3,4) by blast
    qed
    then have alive: "alive_set m' = alive_set m \<union> fst ` set servers" by blast
    have added: "set (get_all_servers (add_servers lb servers)) = set (get_all_servers lb) \<union> fst ` set servers"
      using add_servers_facts[OF wf] by (simp add: get_all_servers_def)
    have "set (get_all_servers (add_servers lb servers)) = rep_address ` set standalone \<union> alive_set m'"
      unfolding added alive served by blast
    moreover have "lb_wf (add_servers lb servers)" using add_servers_facts[OF wf] by blast
    ultimately have "pool_inv standalone m' (add_servers lb servers)"
      using m'(2) differ_same[OF differ m'(3)] unfolding pool_inv_def by blast
    moreover have "set valid \<subseteq> {rid \<in> set ids. map_of (rm_hybrid m) rid \<noteq> None}" using valid by auto
    then have "fst ` set (rm_alive m') = fst ` set (rm_alive m) \<union> {rid \<in> set ids. map_of (rm_hybrid m) rid \<noteq> None}"
      unfolding m'(4) using keys by blast
    moreover have "add_replicas rpc ids m lb = (length valid, m', add_servers lb servers)"
      using False f m'(1) by (simp add: add_replicas_def)
    ultimately show thesis using that m'(3) False by simp
  qed
qed

lemma remove_replicas_pool:
  assumes "pool_inv standalone m lb" "distinct ids"
  obtains n m' lb' where "remove_replicas rpc ids m lb = Inr (n, m', lb')" "pool_inv standalone m' lb'" "rm_hybrid m' = rm_hybrid m"
    "fst ` set (rm_alive m') = fst ` set (rm_alive m) - (if rpc then set ids else {})"
proof -
  have inv: "rm_inv standalone m" and differ: "addresses_differ standalone m" and wf: "lb_wf lb"
      and served: "set (get_all_servers lb) = rep_address ` set standalone \<union> alive_set m"
    using assms by (simp_all add: pool_inv_def)
  define valid where "valid = filter (\<lambda>rid. has_key rid (rm_alive m)) ids"
  define sids where "sids = map (\<lambda>rid. rep_address (the (map_of (rm_alive m) rid))) valid"
  have f: "remove_filter m ids = Inr (sids, valid)"
    unfolding sids_def valid_def by (rule remove_filter_alive[OF inv])
  show thesis
  proof (cases "sids = [] \<or> \<not> rpc")
    case True
    then have "fst ` set (rm_alive m) = fst ` set (rm_alive m) - (if rpc then set ids else {})"
      by (auto simp: sids_def valid_def filter_empty_conv has_key_def map_of_eq_None_iff)
    with True that[of 0 m lb] assms f show thesis by (auto simp: remove_replicas_def)
  next
    case False
    have "\<forall>rid \<in> set valid. map_of (rm_alive m) rid \<noteq> None" "distinct valid"
      using assms(2) by (auto simp: valid_def has_key_def)
    from try_each_untrack[OF inv differ this] obtain m' where m': "try_each untrack valid m = (m', True)" "rm_inv standalone m'"
        "rm_hybrid m' = rm_hybrid m" "rm_alive m' = fold AList.delete valid (rm_alive m)" by blast
    have look: "map_of (rm_alive m') rid = (if rid \<in> set valid then None else map_of (rm_alive m) rid)" for rid
      by (simp add: m'(4) map_of_fold_delete)
    have one: "rid = rid'" if "map_of (rm_alive m) rid = Some r" "map_of (rm_alive m) rid' = Some r'" "rep_address r = rep_address r'" for rid rid' r r'
      using that inv differ unfolding rm_inv_def addresses_differ_def by meson
    have "a \<in> alive_set m' \<longleftrightarrow> a \<in> alive_set m \<and> a \<notin> set sids" for a
    proof -
      have wfs: "dict_wf (rm_alive m)" "dict_wf (rm_alive m')" using inv m'(2) by (simp_all add: rm_inv_def)
      have "a \<in> set sids \<longleftrightarrow> (\<exists>rid r. rid \<in> set valid \<and> map_of (rm_alive m) rid = Some r \<and> rep_address r = a)"
        by (force simp: sids_def valid_def has_key_def)
      then show ?thesis
        unfolding alive_set_iff[OF wfs(1)] alive_set_iff[OF wfs(2)] look
        by (simp only: lookup_without[of "map_of (rm_alive m)" rep_address, OF one])
    qed
    then have alive: "alive_set m' = alive_set m - set sids" by blast
    have apart: "rep_address ` set standalone \<inter> set sids = {}"
    proof -
      have "rep_address r \<notin> rep_address ` set standalone" if "map_of (rm_alive m) rid = Some r" for rid r
      proof -
        have "map_of (rm_hybrid m) rid = Some r" using inv that unfolding rm_inv_def by blast
        then show ?thesis using differ unfolding addresses_differ_def by blast
      qed
      moreover have "\<exists>rid r. map_of (rm_alive m) rid = Some r \<and> a = rep_address r" if "a \<in> set sids" for a
        using that by (auto simp: sids_def valid_def has_key_def; blast)
      ultimately show ?thesis by (metis (no_types, lifting) disjoint_iff)
    qed
    have removed: "set (get_all_servers (remove_servers lb sids)) = set (get_all_servers lb) - set sids"
      using remove_servers_facts[OF wf] by (simp add: get_all_servers_def)
    have "set (get_all_servers (remove_servers lb sids)) = rep_address ` set standalone \<union> alive_set m'"
      unfolding removed alive served using apart by blast
    moreover have "lb_wf (remove_servers lb sids)" using remove_servers_facts[OF wf] by blast
    ultimately have "pool_inv standalone m' (remove_servers lb sids)"
      using m'(2) differ_same[OF differ m'(3)] unfolding pool_inv_def by blast
    moreover have "fst ` set (rm_alive m') = fst ` set (rm_alive m) - set ids"
      unfolding set_eq_iff Diff_iff key_iff look by (auto simp: valid_def has_key_def)
    moreover have "remove_replicas rpc ids m lb = Inr (length valid, m', remove_servers lb sids)"
      using False f m'(1) by (simp add: remove_replicas_def)
    ultimately show thesis using that m'(3) False by simp
  qed
qed

text \<open>
  The specification: the set of active names. A batch to add makes the registered ones of its names active, a batch to remove
  makes its names inactive, and neither does anything when the call to the balancer fails.
\<close>

fun pool_spec :: "string set \<Rightarrow> replica_op \<Rightarrow> string set \<Rightarrow> string set" where
  "pool_spec known (Add_Replicas rpc ids) active = (if rpc then active \<union> (set ids \<inter> known) else active)"
| "pool_spec known (Remove_Replicas rpc ids) active = (if rpc then active - set ids else active)"

text \<open>A batch to remove must not name a replica twice.\<close>

fun op_ok :: "replica_op \<Rightarrow> bool" where
  "op_ok (Add_Replicas rpc ids) = True"
| "op_ok (Remove_Replicas rpc ids) = distinct ids"

lemma replica_step_pool:
  assumes "pool_inv standalone m lb" "op_ok e"
  shows "\<exists>m' lb'. replica_step e (m, lb) = Inr (m', lb') \<and> pool_inv standalone m' lb' \<and> rm_hybrid m' = rm_hybrid m \<and>
    fst ` set (rm_alive m') = pool_spec (dom (map_of (rm_hybrid m))) e (fst ` set (rm_alive m))"
proof (cases e)
  case (Add_Replicas rpc ids)
  obtain n m' lb' where "add_replicas rpc ids m lb = (n, m', lb')" "pool_inv standalone m' lb'" "rm_hybrid m' = rm_hybrid m"
      "fst ` set (rm_alive m') = fst ` set (rm_alive m) \<union> (if rpc then {rid \<in> set ids. map_of (rm_hybrid m) rid \<noteq> None} else {})"
    by (rule add_replicas_pool[OF assms(1)])
  then show ?thesis using Add_Replicas by (auto simp: dom_def)
next
  case (Remove_Replicas rpc ids)
  then have "distinct ids" using assms(2) by simp
  then obtain n m' lb' where "remove_replicas rpc ids m lb = Inr (n, m', lb')" "pool_inv standalone m' lb'" "rm_hybrid m' = rm_hybrid m"
      "fst ` set (rm_alive m') = fst ` set (rm_alive m) - (if rpc then set ids else {})"
    by (rule remove_replicas_pool[OF assms(1)])
  then show ?thesis using Remove_Replicas by simp
qed

lemma replica_steps_pool:
  "pool_inv standalone m lb \<Longrightarrow> \<forall>e \<in> set es. op_ok e \<Longrightarrow>
   \<exists>m' lb'. res_fold replica_step es (m, lb) = Inr (m', lb') \<and> pool_inv standalone m' lb' \<and> rm_hybrid m' = rm_hybrid m \<and>
     fst ` set (rm_alive m') = fold (pool_spec (dom (map_of (rm_hybrid m)))) es (fst ` set (rm_alive m))"
proof (induction es arbitrary: m lb)
  case (Cons e es)
  then obtain m1 lb1 where s: "replica_step e (m, lb) = Inr (m1, lb1)" "pool_inv standalone m1 lb1" "rm_hybrid m1 = rm_hybrid m"
      "fst ` set (rm_alive m1) = pool_spec (dom (map_of (rm_hybrid m))) e (fst ` set (rm_alive m))"
    using replica_step_pool[of standalone m lb e] by auto
  from Cons.IH[of m1 lb1] Cons.prems(2) s(2) obtain m' lb' where "res_fold replica_step es (m1, lb1) = Inr (m', lb')"
      "pool_inv standalone m' lb'" "rm_hybrid m' = rm_hybrid m1"
      "fst ` set (rm_alive m') = fold (pool_spec (dom (map_of (rm_hybrid m1)))) es (fst ` set (rm_alive m1))"
    by auto
  with s show ?case by simp
qed simp

lemma rm_init_inv: "rm_inv standalone (rm_init resource_id hybrid standalone)"
  by (simp add: rm_inv_def rm_init_def)

lemma rm_init_hybrid:
  assumes "inj resource_id"
  shows "map_of (rm_hybrid (rm_init resource_id hybrid standalone)) rid = Some r \<longleftrightarrow> (\<exists>i < length hybrid. rid = resource_id i \<and> r = hybrid ! i)"
    "dict_wf (rm_hybrid (rm_init resource_id hybrid standalone))"
proof -
  let ?z = "map (\<lambda>i. (resource_id i, hybrid ! i)) [0..<length hybrid]"
  have "rm_hybrid (rm_init resource_id hybrid standalone) = fold (\<lambda>(k, v). AList.update k v) ?z []"
  proof -
    have "zip [0..<length hybrid] hybrid = map (\<lambda>i. (i, hybrid ! i)) [0..<length hybrid]"
      by (rule nth_equalityI) simp_all
    then show ?thesis by (simp add: rm_init_def fold_map comp_def)
  qed
  moreover have wf: "dict_wf ?z" using assms by (simp add: dict_wf_def comp_def distinct_map inj_on_def inj_def)
  ultimately have e: "rm_hybrid (rm_init resource_id hybrid standalone) = ?z" using fold_update_new[OF wf, of "[]"] by simp
  then show "dict_wf (rm_hybrid (rm_init resource_id hybrid standalone))" using wf by simp
  show "map_of (rm_hybrid (rm_init resource_id hybrid standalone)) rid = Some r \<longleftrightarrow> (\<exists>i < length hybrid. rid = resource_id i \<and> r = hybrid ! i)"
    unfolding e dict_wf_map_of[OF wf, symmetric] by auto
qed

section \<open>Properties\<close>

text \<open>
  C25: hybrid replicas and the load balancer stay consistent: from the initial state, in which the addresses of all replicas differ,
  any sequence of batches to add or to remove (whether the calls to the balancer succeed or fail, and with any names in the
  batches to add, unknown and repeated ones included) raises nothing; the active hybrid replicas are those the set-valued
  specification gives, the lists of the manager are aligned, and the balancer routes exactly to the standalone replicas and
  the active hybrid ones. Assumed is that no batch to remove names a replica twice: then the clean-up raises
  and strands the others, as a theorem below shows.
\<close>

theorem replica_pool_consistent:
  assumes "inj resource_id" "distinct (map rep_address (standalone @ hybrid))" "lb_wf lb"
    "set (get_all_servers lb) = rep_address ` set standalone" "\<forall>e \<in> set es. op_ok e"
  shows "\<exists>m' lb'. res_fold replica_step es (rm_init resource_id hybrid standalone, lb) = Inr (m', lb') \<and>
    fst ` set (rm_alive m') = fold (pool_spec (resource_id ` {..<length hybrid})) es {} \<and>
    set (get_all_servers lb') = rep_address ` set standalone \<union> rep_address ` snd ` set (rm_alive m') \<and>
    get_hybrid_replicas_info m' = map (\<lambda>(rid, r). (rid, rep_address r)) (rm_alive m') \<and>
    rm_addresses m' = map rep_address (standalone @ map snd (rm_alive m')) \<and>
    rm_handles m' = map rep_handle (standalone @ map snd (rm_alive m')) \<and>
    rm_replicas m' = standalone @ map snd (rm_alive m') \<and> snd ` set (rm_alive m') \<subseteq> set hybrid"
proof -
  let ?m = "rm_init resource_id hybrid standalone"
  note h = rm_init_hybrid[OF assms(1), of hybrid standalone]
  have "inj_on rep_address (set standalone)" "distinct standalone" using assms(2) by (simp_all add: distinct_map)
  moreover have "rep_address r \<notin> rep_address ` set standalone" if "map_of (rm_hybrid ?m) rid = Some r" for rid r
    using that assms(2) unfolding h(1) by (force dest: nth_mem)
  moreover have "rid = rid'" if r: "map_of (rm_hybrid ?m) rid = Some r" "map_of (rm_hybrid ?m) rid' = Some r'" "rep_address r = rep_address r'"
    for rid r rid' r'
  proof -
    obtain i j where "i < length hybrid" "rid = resource_id i" "r = hybrid ! i" "j < length hybrid" "rid' = resource_id j" "r' = hybrid ! j"
      using r(1,2) unfolding h(1) by blast
    moreover from this have "i = j" using r(3) assms(2) by (metis distinct_append length_map map_append nth_eq_iff_index_eq nth_map)
    ultimately show ?thesis by simp
  qed
  ultimately have "addresses_differ standalone ?m" using h(2) unfolding addresses_differ_def by blast
  then have "pool_inv standalone ?m lb"
    using rm_init_inv assms(3,4) by (auto simp: pool_inv_def alive_set_def rm_init_def)
  from replica_steps_pool[OF this assms(5)] obtain m' lb' where
    m': "res_fold replica_step es (?m, lb) = Inr (m', lb')" "pool_inv standalone m' lb'" "rm_hybrid m' = rm_hybrid ?m"
      "fst ` set (rm_alive m') = fold (pool_spec (dom (map_of (rm_hybrid ?m)))) es (fst ` set (rm_alive ?m))" by blast
  moreover have "get_hybrid_replicas_info m' = map (\<lambda>(rid, r). (rid, rep_address r)) (rm_alive m')"
    using m'(2) by (simp add: pool_inv_def rm_inv_def get_hybrid_replicas_info_def)
  moreover have "snd ` set (rm_alive m') \<subseteq> set hybrid"
  proof
    fix r
    assume "r \<in> snd ` set (rm_alive m')"
    then obtain rid where "(rid, r) \<in> set (rm_alive m')" by auto
    then have "map_of (rm_hybrid ?m) rid = Some r"
      using m'(2,3) dict_wf_map_of[of "rm_alive m'" rid r] by (simp add: pool_inv_def rm_inv_def)
    then show "r \<in> set hybrid" unfolding h(1) by auto
  qed
  moreover have "dom (map_of (rm_hybrid ?m)) = resource_id ` {..<length hybrid}"
    using h(1) by (auto simp: dom_def)
  with m'(4) have "fst ` set (rm_alive m') = fold (pool_spec (resource_id ` {..<length hybrid})) es {}"
    by (simp add: rm_init_def)
  ultimately show ?thesis
    by (auto simp: pool_inv_def rm_inv_def alive_set_def)
qed

text \<open>One standalone replica and two hybrid ones.\<close>

definition demo_names :: "nat \<Rightarrow> string" where
  "demo_names i = ''hybrid_'' @ replicate i (CHR ''I'')"

definition demo_replica :: "nat \<Rightarrow> (nat, nat) replica" where
  "demo_replica i = \<lparr>rep_id = i, rep_address = replicate (Suc i) (CHR ''a''), rep_handle = i\<rparr>"

definition demo_pool :: "(nat, nat) load_balancer" where
  "demo_pool = \<lparr>lb_servers = [(''a'', 0)], lb_inflight = [(''a'', 0)], lb_cache = 0, lb_full_determinism = False\<rparr>"

lemma demo_replicas_facts:
  "inj demo_names" "distinct (map rep_address ([demo_replica 0] @ [demo_replica 1, demo_replica 2]))"
  "lb_wf demo_pool" "set (get_all_servers demo_pool) = rep_address ` set [demo_replica 0]"
  by (auto simp: demo_names_def inj_def demo_replica_def demo_pool_def lb_wf_def dict_wf_def get_all_servers_def
      numeral_2_eq_2 replicate_eq_replicate)

theorem replica_pool_consistent_witness:
  "\<exists>m' lb'. res_fold replica_step [Add_Replicas True [demo_names 1, demo_names 0, demo_names 1], Remove_Replicas False [demo_names 0], Remove_Replicas True [demo_names 1]]
      (rm_init demo_names [demo_replica 1, demo_replica 2] [demo_replica 0], demo_pool) = Inr (m', lb') \<and>
    set (get_all_servers lb') = rep_address ` set [demo_replica 0] \<union> rep_address ` snd ` set (rm_alive m')"
proof -
  have "\<forall>e \<in> set [Add_Replicas True [demo_names 1, demo_names 0, demo_names 1], Remove_Replicas False [demo_names 0], Remove_Replicas True [demo_names 1]].
      op_ok e"
    by (simp add: demo_names_def)
  from replica_pool_consistent[OF demo_replicas_facts this] obtain m' lb' where
    "res_fold replica_step [Add_Replicas True [demo_names 1, demo_names 0, demo_names 1], Remove_Replicas False [demo_names 0], Remove_Replicas True [demo_names 1]]
      (rm_init demo_names [demo_replica 1, demo_replica 2] [demo_replica 0], demo_pool) = Inr (m', lb')"
    "set (get_all_servers lb') = rep_address ` set [demo_replica 0] \<union> rep_address ` snd ` set (rm_alive m')" by (elim exE conjE)
  then show ?thesis by (intro exI conjI)
qed

text \<open>
  Every active hybrid replica is in \<open>rollout_replicas\<close> already, so \<open>get_active_server_count\<close> counts it twice.
\<close>

theorem active_count_doubles_hybrids:
  assumes "rm_inv standalone m"
  shows "get_active_server_count m = length standalone + 2 * get_num_hybrid_replicas m"
  using assms by (simp add: rm_inv_def get_active_server_count_def get_num_hybrid_replicas_def)

theorem active_count_doubles_hybrids_witness:
  "get_active_server_count (fst (snd (add_replicas True [demo_names 0] (rm_init demo_names [demo_replica 1] [demo_replica 0]) demo_pool))) = 3"
proof -
  let ?m = "fst (snd (add_replicas True [demo_names 0] (rm_init demo_names [demo_replica 1] [demo_replica 0]) demo_pool))"
  have fields: "rm_alive ?m = [(demo_names 0, demo_replica 1)]" "rm_hybrid ?m = [(demo_names 0, demo_replica 1)]"
    "rm_alive_addresses ?m = [(demo_names 0, rep_address (demo_replica 1))]" "rm_replicas ?m = [demo_replica 0, demo_replica 1]"
    "rm_addresses ?m = map rep_address [demo_replica 0, demo_replica 1]" "rm_handles ?m = map rep_handle [demo_replica 0, demo_replica 1]"
    by code_simp+
  have "rm_inv [demo_replica 0] ?m" unfolding rm_inv_def fields by (simp add: dict_wf_def)
  moreover have "get_num_hybrid_replicas ?m = 1" unfolding get_num_hybrid_replicas_def fields by simp
  ultimately have i: "rm_inv [demo_replica 0] ?m" "get_num_hybrid_replicas ?m = 1" .
  from active_count_doubles_hybrids[OF i(1)] i(2) show ?thesis by simp
qed

text \<open>
  A name that occurs twice in a batch to remove: the second occurrence raises inside the \<open>try\<close>, the answer is 0, and the replicas after it
  stay active in the manager although the balancer no longer routes to them.
\<close>

theorem repeated_removal_strands:
  "case add_replicas True [demo_names 0, demo_names 1] (rm_init demo_names [demo_replica 1, demo_replica 2] [demo_replica 0]) demo_pool of
     (n, m, lb) \<Rightarrow> (case remove_replicas True [demo_names 0, demo_names 0, demo_names 1] m lb of
       Inr (k, m', lb') \<Rightarrow> n = 2 \<and> k = 0 \<and> map fst (rm_alive m') = [demo_names 1] \<and> get_all_servers lb' = [''a'']
     | Inl e \<Rightarrow> False)"
  by code_simp

end
