(* ===== verification/Checkpointing.thy ===== *)
theory Checkpointing
  imports Prelude "HOL-Library.Sublist"
begin

text \<open>
  Checkpoints of the trainer: the retention of \<open>verl/utils/checkpoint/checkpoint_manager.py\<close>, the order in which
  \<open>fsdp_checkpoint_manager.py\<close> and \<open>_save_checkpoint\<close> of \<open>verl/trainer/ppo/ray_trainer.py\<close> touch the disk, and how
  \<open>_load_checkpoint\<close> and \<open>fit\<close> resume from it. A save is the list of its disk operations, so a crash leaves the
  effect of a prefix of the list.
\<close>

section \<open>The disk\<close>

text \<open>A path is the list of its components; \<open>os.path.join\<close> appends.\<close>

type_synonym path = "string list"

text \<open>A file that was opened for writing is empty until it is written.\<close>

datatype 'b node = Dir | Opened | Blob 'b | Text string

type_synonym 'b disk = "path \<Rightarrow> 'b node option"

datatype 'b disk_op = Mkdir path | Open_File path | Write_File path "'b node" | Rmtree path

fun disk_apply :: "'b disk_op \<Rightarrow> 'b disk \<Rightarrow> 'b disk" where
  "disk_apply (Mkdir p) fs = (\<lambda>q. if prefix q p \<and> fs q = None then Some Dir else fs q)"
| "disk_apply (Open_File p) fs = fs(p \<mapsto> Opened)"
| "disk_apply (Write_File p x) fs = fs(p \<mapsto> x)"
| "disk_apply (Rmtree p) fs = (\<lambda>q. if prefix p q then None else fs q)"

definition disk_run :: "'b disk_op list \<Rightarrow> 'b disk \<Rightarrow> 'b disk" where
  "disk_run ops fs = fold disk_apply ops fs"

section \<open>Retention\<close>

text \<open>
  \<open>previous_saved_paths\<close> of a checkpoint manager. \<open>max_ckpt_to_keep\<close> is \<open>None\<close> or an integer; only rank 0
  runs these.
\<close>

definition removals :: "path list \<Rightarrow> 'b disk_op list" where
  "removals paths = map Rmtree paths"

definition ensure_checkpoint_capacity :: "int option \<Rightarrow> path list \<Rightarrow> 'b disk_op list \<times> path list" where
  "ensure_checkpoint_capacity max_ckpt_to_keep saved =
     (case max_ckpt_to_keep of
        None \<Rightarrow> ([], saved)
      | Some m \<Rightarrow>
          if m \<le> 1 then ([], saved)
          else if int (length saved) \<ge> m then
            (let keep_start = length saved - nat m + 1 in (removals (take keep_start saved), drop keep_start saved))
          else ([], saved))"

definition register_checkpoint :: "path \<Rightarrow> int option \<Rightarrow> path list \<Rightarrow> 'b disk_op list \<times> path list" where
  "register_checkpoint new_path max_ckpt_to_keep saved =
     (let saved = saved @ [new_path]
      in case max_ckpt_to_keep of
        None \<Rightarrow> ([], saved)
      | Some m \<Rightarrow>
          if m \<le> 0 then ([], saved)
          else if int (length saved) > m then
            (let keep_start = length saved - nat m in (removals (take keep_start saved), drop keep_start saved))
          else ([], saved))"

section \<open>Saving\<close>

definition write_all :: "path \<Rightarrow> (string \<times> 'b) list \<Rightarrow> 'b disk_op list" where
  "write_all dir files = concat (map (\<lambda>(f, x). [Open_File (dir @ [f]), Write_File (dir @ [f]) (Blob x)]) files)"

text \<open>
  \<open>save_checkpoint\<close> of all ranks of one role: \<open>files\<close> are the files they write between the barriers, in any
  order, with their contents.
\<close>

definition worker_save :: "int option \<Rightarrow> path \<Rightarrow> (string \<times> 'b) list \<Rightarrow> path list \<Rightarrow> 'b disk_op list \<times> path list" where
  "worker_save max_ckpt_to_keep local_path files saved =
     (let (pre_ops, saved1) = ensure_checkpoint_capacity max_ckpt_to_keep saved;
          (post_ops, saved2) = register_checkpoint local_path max_ckpt_to_keep saved1
      in (pre_ops @ [Mkdir local_path] @ write_all local_path files @ post_ops, saved2))"

record checkpoint_config =
  ck_dir :: path
  ck_use_critic :: bool
  ck_max_actor :: "int option"
  ck_max_critic :: "int option"
  ck_remove_previous :: bool
  ck_async_save :: bool

text \<open>The contents a save writes at a step.\<close>

record 'b checkpoint =
  cp_actor :: "(string \<times> 'b) list"
  cp_critic :: "(string \<times> 'b) list"
  cp_data :: 'b

definition step_folder :: "checkpoint_config \<Rightarrow> nat \<Rightarrow> path" where
  "step_folder cfg s = ck_dir cfg @ [''global_step_'' @ show_nat s]"

definition tracker_file :: "path \<Rightarrow> path" where
  "tracker_file dir = dir @ [''latest_checkpointed_iteration.txt'']"

record trainer_saves =
  ts_actor :: "path list"
  ts_critic :: "path list"

definition save_checkpoint :: "checkpoint_config \<Rightarrow> nat \<Rightarrow> 'b checkpoint \<Rightarrow> trainer_saves \<Rightarrow> 'b disk_op list \<times> trainer_saves" where
  "save_checkpoint cfg s c st =
     (let max_actor = (if ck_remove_previous cfg then Some 1 else ck_max_actor cfg);
          max_critic = (if ck_remove_previous cfg then Some 1 else ck_max_critic cfg);
          folder = step_folder cfg s;
          (actor_ops, actor_saved) = worker_save max_actor (folder @ [''actor'']) (cp_actor c) (ts_actor st);
          (critic_ops, critic_saved) =
            (if ck_use_critic cfg then worker_save max_critic (folder @ [''critic'']) (cp_critic c) (ts_critic st)
             else ([], ts_critic st));
          data_ops = Mkdir folder # write_all folder [(''data.pt'', cp_data c)];
          tracker_ops = (if ck_async_save cfg then []
            else [Open_File (tracker_file (ck_dir cfg)), Write_File (tracker_file (ck_dir cfg)) (Text (show_nat s))])
      in (actor_ops @ critic_ops @ data_ops @ tracker_ops, \<lparr>ts_actor = actor_saved, ts_critic = critic_saved\<rparr>))"

section \<open>Finding and loading\<close>

text \<open>\<open>find_latest_ckpt_path\<close>; an empty tracker file makes \<open>int\<close> raise.\<close>

definition find_latest_ckpt_path :: "path \<Rightarrow> 'b disk \<Rightarrow> path option result" where
  "find_latest_ckpt_path dir fs =
     (case fs (tracker_file dir) of
        None \<Rightarrow> Inr None
      | Some x \<Rightarrow> res_bind (py_int (case x of Text t \<Rightarrow> t | _ \<Rightarrow> [])) (\<lambda>iteration.
          let ckpt_path = dir @ [''global_step_'' @ show_nat iteration]
          in Inr (if fs ckpt_path = None then None else Some ckpt_path)))"

text \<open>\<open>s.split(sub)[-1]\<close> for a separator that does not overlap itself.\<close>

fun after_last :: "string \<Rightarrow> string \<Rightarrow> string option" where
  "after_last sub [] = None"
| "after_last sub (c # cs) =
     (case after_last sub cs of
        Some r \<Rightarrow> Some r
      | None \<Rightarrow> if prefix sub (c # cs) then Some (drop (length sub) (c # cs)) else None)"

definition split_last :: "string \<Rightarrow> string \<Rightarrow> string" where
  "split_last sub s = (case after_last sub s of None \<Rightarrow> s | Some r \<Rightarrow> r)"

definition path_string :: "path \<Rightarrow> string" where
  "path_string p = concat (map (\<lambda>c. ''/'' @ c) p)"

text \<open>
  The global step and the folder \<open>_load_checkpoint\<close> resumes from, \<open>None\<close> for training from scratch; \<open>resume_from\<close>
  is the absolute \<open>resume_from_path\<close>, \<open>None\<close> when it is not a string.
\<close>

definition load_checkpoint :: "checkpoint_config \<Rightarrow> string \<Rightarrow> path option \<Rightarrow> bool \<Rightarrow> 'b disk \<Rightarrow> (nat \<times> path) option result" where
  "load_checkpoint cfg resume_mode resume_from hdfs fs =
     (if resume_mode = ''disable'' then Inr None
      else if hdfs then Inl NotImplementedError
      else res_bind (find_latest_ckpt_path (ck_dir cfg) fs) (\<lambda>latest.
        res_bind
          (if resume_mode = ''auto'' then Inr latest
           else if resume_mode = ''resume_path'' then
             (case resume_from of
                None \<Rightarrow> Inl AssertionError
              | Some p \<Rightarrow> if after_last ''global_step_'' (path_string p) = None then Inl AssertionError else Inr (Some p))
           else (case latest of None \<Rightarrow> Inl AttributeError | Some p \<Rightarrow> Inr (Some p)))
          (\<lambda>folder. case folder of
             None \<Rightarrow> Inr None
           | Some p \<Rightarrow> res_bind (py_int (split_last ''global_step_'' (path_string p))) (\<lambda>s. Inr (Some (s, p))))))"

text \<open>What a load needs: every file of the roles and of the data loader, completely written.\<close>

definition complete_checkpoint :: "checkpoint_config \<Rightarrow> 'b checkpoint \<Rightarrow> 'b disk \<Rightarrow> nat \<Rightarrow> bool" where
  "complete_checkpoint cfg c fs s \<longleftrightarrow>
     (\<forall>(f, x) \<in> set (cp_actor c). fs (step_folder cfg s @ [''actor'', f]) = Some (Blob x)) \<and>
     (ck_use_critic cfg \<longrightarrow> (\<forall>(f, x) \<in> set (cp_critic c). fs (step_folder cfg s @ [''critic'', f]) = Some (Blob x))) \<and>
     fs (step_folder cfg s @ [''data.pt'']) = Some (Blob (cp_data c))"

section \<open>The training loop and where it resumes\<close>

text \<open>
  A training step with its epoch and the position of its batch in the epoch. \<open>fit_epoch\<close> is the inner loop of \<open>fit\<close>: the last
  component says that the last step was reached and \<open>fit\<close> returned.
\<close>

record train_step =
  st_global :: nat
  st_epoch :: nat
  st_batch :: nat

fun fit_epoch :: "nat \<Rightarrow> nat \<Rightarrow> nat list \<Rightarrow> nat \<Rightarrow> train_step list \<times> nat \<times> bool" where
  "fit_epoch last_step epoch [] global_steps = ([], global_steps, False)"
| "fit_epoch last_step epoch (b # bs) global_steps =
     (let t = \<lparr>st_global = global_steps, st_epoch = epoch, st_batch = b\<rparr>
      in if global_steps \<ge> last_step then ([t], global_steps + 1, True)
         else (let (ts, g, stop) = fit_epoch last_step epoch bs (global_steps + 1) in (t # ts, g, stop)))"

text \<open>
  The outer loop: the first epoch starts at the position of the data loader, the others at the front. \<open>len\<close> is
  the number of batches of an epoch.
\<close>

fun fit_epochs :: "nat \<Rightarrow> nat \<Rightarrow> nat \<Rightarrow> nat list \<Rightarrow> nat \<Rightarrow> train_step list" where
  "fit_epochs len last_step pos [] global_steps = []"
| "fit_epochs len last_step pos (e # es) global_steps =
     (let (ts, g, stop) = fit_epoch last_step e [pos..<len] global_steps
      in ts @ (if stop then [] else fit_epochs len last_step 0 es g))"

text \<open>
  \<open>fit\<close> after \<open>_load_checkpoint\<close> set the global step to \<open>resumed\<close>; \<open>saved_pos\<close> is the position in the
  state of the data loader, which is not restored at an epoch boundary.
\<close>

definition loader_position :: "nat \<Rightarrow> nat \<Rightarrow> nat option \<Rightarrow> nat" where
  "loader_position len resumed saved_pos =
     (case saved_pos of
        None \<Rightarrow> 0
      | Some p \<Rightarrow> (let at_epoch_boundary = len > 0 \<and> resumed mod len = 0 in if at_epoch_boundary then 0 else p))"

definition fit :: "nat \<Rightarrow> nat \<Rightarrow> nat \<Rightarrow> nat \<Rightarrow> nat option \<Rightarrow> train_step list" where
  "fit len total_epochs last_step resumed saved_pos =
     (let pos = loader_position len resumed saved_pos
      in fit_epochs len last_step pos [resumed div len..<total_epochs] (resumed + 1))"

text \<open>When a step saves a checkpoint.\<close>

definition saves_at :: "int \<Rightarrow> nat \<Rightarrow> nat \<Rightarrow> (nat \<Rightarrow> bool) \<Rightarrow> nat \<Rightarrow> bool" where
  "saves_at save_freq critic_warmup last_step esi_close s \<longleftrightarrow>
     critic_warmup \<le> s \<and> save_freq > 0 \<and> (last_step \<le> s \<or> int s mod save_freq = 0 \<or> esi_close s)"


section \<open>Folder names\<close>

lemma after_last_none: "c \<notin> set s \<Longrightarrow> after_last (c # sub) s = None"
  by (induction s) auto

lemma after_last_found:
  assumes "c \<notin> set sub" "c \<notin> set s"
  shows "after_last (c # sub) (pre @ (c # sub) @ s) = Some s"
proof (induction pre)
  case Nil
  have "after_last (c # sub) (sub @ s) = None" using assms by (intro after_last_none) simp
  then show ?case by simp
next
  case (Cons p pre)
  then show ?case by simp
qed

lemma step_of_folder:
  "after_last ''global_step_'' (path_string (step_folder cfg s)) = Some (show_nat s)"
proof -
  have "CHR ''g'' \<notin> set (show_nat s)" using show_nat_digits[of "CHR ''g''" s] by (auto simp: digit_of_def)
  from after_last_found[OF _ this, of "''lobal_step_''" "path_string (ck_dir cfg) @ ''/''"] show ?thesis
    by (simp add: step_folder_def path_string_def)
qed

section \<open>The steps of a run\<close>

definition step_of :: "nat \<Rightarrow> nat \<Rightarrow> train_step" where
  "step_of len s = \<lparr>st_global = s, st_epoch = (s - 1) div len, st_batch = (s - 1) mod len\<rparr>"

lemma fit_epoch_steps:
  assumes "p \<le> len" "g = e * len + p + 1"
  shows "fit_epoch last_step e [p..<len] g =
    (map (step_of len) [g..<min (Suc (max last_step g)) (Suc (Suc e * len))], 
     min (Suc (max last_step g)) (Suc (Suc e * len)), max last_step g \<le> Suc e * len \<and> p < len)"
  using assms
proof (induction "len - p" arbitrary: p g)
  case 0
  then show ?case by simp
next
  case (Suc k)
  then have p: "p < len" by simp
  have s: "step_of len g = \<lparr>st_global = g, st_epoch = e, st_batch = p\<rparr>"
    using p Suc.prems by (simp add: step_of_def)
  have IH: "fit_epoch last_step e [Suc p..<len] (Suc g) =
    (map (step_of len) [Suc g..<min (Suc (max last_step (Suc g))) (Suc (Suc e * len))], 
     min (Suc (max last_step (Suc g))) (Suc (Suc e * len)), max last_step (Suc g) \<le> Suc e * len \<and> Suc p < len)"
    by (rule Suc.hyps(1)) (use Suc.hyps(2) Suc.prems p in simp_all)
  have lt: "g < Suc (Suc e * len)" using p Suc.prems by simp
  show ?case
  proof (cases "last_step \<le> g")
    case True
    with p s lt show ?thesis by (simp add: upt_conv_Cons max_def min_def)
  next
    case False
    then have m: "max last_step (Suc g) = last_step" "max last_step g = last_step" by auto
    have "[g..<min (Suc last_step) (Suc (Suc e * len))] = g # [Suc g..<min (Suc last_step) (Suc (Suc e * len))]"
      using False lt by (intro upt_conv_Cons) simp
    moreover have "last_step \<le> Suc e * len \<Longrightarrow> Suc p < len" using False Suc.prems p by (cases "Suc p = len") auto
    ultimately show ?thesis using False p IH unfolding m by (auto simp: upt_conv_Cons[OF p] s Let_def)
  qed
qed

lemma fit_epochs_steps:
  assumes "p \<le> len" "0 < len" "g = e * len + p + 1" "e \<le> E"
  shows "fit_epochs len last_step p [e..<E] g = map (step_of len) [g..<Suc (min (max last_step g) (E * len))]"
  using assms
proof (induction "E - e" arbitrary: e p g)
  case 0
  then show ?case by simp
next
  case (Suc k)
  then have e: "e < E" by simp
  then have le: "Suc e * len \<le> E * len" by (intro mult_right_mono) auto
  show ?case
  proof (cases "max last_step g \<le> Suc e * len \<and> p < len")
    case True
    then show ?thesis
      using le e by (simp add: upt_conv_Cons[OF e] fit_epoch_steps[OF Suc.prems(1,3)] min_def)
  next
    case False
    let ?g = "Suc (Suc e * len)"
    have g: "min (Suc (max last_step g)) ?g = ?g" "g \<le> ?g"
      using False Suc.prems by (auto simp: min_def max_def)
    have IH: "fit_epochs len last_step 0 [Suc e..<E] ?g = map (step_of len) [?g..<Suc (min (max last_step ?g) (E * len))]"
      by (rule Suc.hyps(1)) (use Suc.hyps(2) Suc.prems e in simp_all)
    have "[g..<Suc (min (max last_step g) (E * len))] = [g..<?g] @ [?g..<Suc (min (max last_step ?g) (E * len))]"
    proof (cases "p = len")
      case True
      with Suc.prems(3) show ?thesis by (simp add: add.commute)
    next
      case p: False
      with Suc.prems False have "?g \<le> last_step" by (auto simp: max_def split: if_splits)
      with g(2) have m: "max last_step g = max last_step ?g" "max last_step ?g = last_step" by simp_all
      have "?g \<le> Suc (min last_step (E * len))" using le \<open>?g \<le> last_step\<close> by simp
      with g(2) show ?thesis unfolding m by (metis le_Suc_ex upt_add_eq_append)
    qed
    with False g IH show ?thesis by (simp add: upt_conv_Cons[OF e] fit_epoch_steps[OF Suc.prems(1,3)])
  qed
qed

text \<open>
  What the data loader is documented to do: its state after a step is the number of batches the current epoch has yielded.
\<close>

definition loader_state :: "nat \<Rightarrow> nat \<Rightarrow> nat" where
  "loader_state len s = (s - 1) mod len + 1"

lemma fit_steps:
  assumes "0 < len" "r \<le> E * len" "sp = None \<and> r mod len = 0 \<or> sp = Some (loader_state len r) \<and> 0 < r"
  shows "fit len E last_step r sp = map (step_of len) [r + 1..<Suc (min (max last_step (r + 1)) (E * len))]"
proof -
  let ?p = "loader_position len r sp"
  have "?p = r mod len"
  proof (cases "r mod len = 0")
    case False
    then have "(r - 1) mod len + 1 = r mod len"
      by (metis Suc_eq_plus1 Suc_pred' bot_nat_0.not_eq_extremum mod_Suc mod_0)
    with False assms(3) show ?thesis by (auto simp: loader_state_def loader_position_def)
  qed (use assms in \<open>auto simp: loader_position_def\<close>)
  moreover have "r div len \<le> E" using div_le_mono[OF assms(2), of len] assms(1) by simp
  moreover have "r + 1 = r div len * len + r mod len + 1" by simp
  moreover have "r mod len \<le> len" using assms(1) by (simp add: less_imp_le)
  ultimately show ?thesis using fit_epochs_steps[of "r mod len" len "r + 1" "r div len" E last_step] assms(1)
    by (simp add: fit_def Let_def del: mult_Suc)
qed


section \<open>What a save leaves on the disk\<close>

fun leaves :: "path \<Rightarrow> 'b disk_op \<Rightarrow> bool" where
  "leaves q (Mkdir p) = True"
| "leaves q (Open_File p) = (p \<noteq> q)"
| "leaves q (Write_File p x) = (p \<noteq> q)"
| "leaves q (Rmtree p) = (\<not> prefix p q)"

fun keeps_existing :: "path \<Rightarrow> 'b disk_op \<Rightarrow> bool" where
  "keeps_existing q (Rmtree p) = (\<not> prefix p q)"
| "keeps_existing q _ = True"

named_theorems disk_simps

lemma disk_run_append [disk_simps]: "disk_run (xs @ ys) fs = disk_run ys (disk_run xs fs)"
  by (simp add: disk_run_def)

lemma disk_run_Cons [disk_simps]: "disk_run (x # xs) fs = disk_run xs (disk_apply x fs)"
  by (simp add: disk_run_def)

lemma disk_run_Nil [disk_simps]: "disk_run [] fs = fs"
  by (simp add: disk_run_def)

lemma leaves_run: "fs q = Some v \<Longrightarrow> \<forall>op \<in> set ops. leaves q op \<Longrightarrow> disk_run ops fs q = Some v"
proof (induction ops arbitrary: fs)
  case (Cons op ops)
  then have "disk_apply op fs q = Some v" by (cases op) auto
  with Cons show ?case by (simp add: disk_run_Cons)
qed (simp add: disk_run_Nil)

lemma keeps_run: "fs q \<noteq> None \<Longrightarrow> \<forall>op \<in> set ops. keeps_existing q op \<Longrightarrow> disk_run ops fs q \<noteq> None"
proof (induction ops arbitrary: fs)
  case (Cons op ops)
  then have "disk_apply op fs q \<noteq> None" by (cases op) auto
  with Cons show ?case by (simp add: disk_run_Cons)
qed (simp add: disk_run_Nil)

lemma write_all_writes:
  assumes "(f, x) \<in> set files" "distinct (map fst files)"
  shows "disk_run (write_all dir files) fs (dir @ [f]) = Some (Blob x)"
  using assms
proof (induction files arbitrary: fs)
  case (Cons a files)
  obtain g y where a: "a = (g, y)" by (cases a)
  have run: "disk_run (write_all dir ((g, y) # files)) fs = disk_run (write_all dir files) (fs(dir @ [g] \<mapsto> Blob y))"
    by (simp add: write_all_def disk_simps)
  show ?case
  proof (cases "f = g")
    case True
    with Cons.prems a have "x = y" "f \<notin> fst ` set files" by (auto simp: rev_image_eqI)
    moreover from this have "\<forall>op \<in> set (write_all dir files). leaves (dir @ [f]) op" by (auto simp: write_all_def image_iff)
    ultimately show ?thesis using True by (simp add: a run leaves_run)
  next
    case False
    with Cons a show ?thesis by (simp add: a run)
  qed
qed simp

abbreviation role_path :: "checkpoint_config \<Rightarrow> string \<Rightarrow> nat \<Rightarrow> path" where
  "role_path cfg r s \<equiv> step_folder cfg s @ [r]"

lemma worker_save_facts:
  assumes "distinct (A @ [s])"
  obtains R1 R2 A' where
    "worker_save M (role_path cfg r s) files (map (role_path cfg r) A) =
      (map (\<lambda>s. Rmtree (role_path cfg r s)) R1 @ [Mkdir (role_path cfg r s)] @ write_all (role_path cfg r s) files @
       map (\<lambda>s. Rmtree (role_path cfg r s)) R2, map (role_path cfg r) A')"
    "A' \<noteq> []" "last A' = s" "distinct A'" "set A' \<subseteq> insert s (set A)" "set R1 \<union> set R2 \<subseteq> set A"
    "M \<noteq> Some 1 \<longrightarrow> A \<noteq> [] \<longrightarrow> last A \<notin> set R1 \<union> set R2"
    "set A' = insert s (set A) - (set R1 \<union> set R2)"
    "\<forall>m \<ge> 1. M = Some (int m) \<longrightarrow> A' = drop (length A + 1 - m) (A @ [s])" "M = None \<longrightarrow> A' = A @ [s]"
proof -
  note defs = worker_save_def ensure_checkpoint_capacity_def register_checkpoint_def removals_def Let_def
  show thesis
  proof (cases M)
    case None
    show thesis
      by (rule that[of "[]" "[]" "A @ [s]"]) (use None assms in \<open>auto simp: defs\<close>)
  next
    case (Some m)
    consider "m \<le> 0" | "m = 1" | "2 \<le> m" "int (length A) \<ge> m" | "2 \<le> m" "int (length A) < m" by linarith
    then show thesis
    proof cases
      case 1
      show thesis by (rule that[of "[]" "[]" "A @ [s]"]) (use Some assms 1 in \<open>auto simp: defs\<close>)
    next
      case 2
      show thesis
        by (rule that[of "[]" A "[s]"]) (use Some assms 2 in \<open>auto simp: defs\<close>)
    next
      case 3
      let ?k = "length A - nat m + 1"
      have k: "?k < length A" using 3 by linarith
      then have "last A \<in> set (drop ?k A)" by (metis drop_eq_Nil last_drop last_in_set not_le)
      moreover have "set (take ?k A) \<inter> set (drop ?k A) = {}" using assms by (simp add: set_take_disj_set_drop_if_distinct)
      ultimately have l: "last A \<notin> set (take ?k A)" by blast
      have rest: "set (drop ?k A) = set A - set (take ?k A)"
        using \<open>set (take ?k A) \<inter> set (drop ?k A) = {}\<close> by (metis Diff_cancel Un_Diff Int_commute Diff_triv append_take_drop_id set_append sup_bot_left)
      have nm: "nat m \<ge> 2" "nat m \<le> length A" using 3 by linarith+
      show thesis
      proof (rule that[of "take ?k A" "[]" "drop ?k A @ [s]"])
        show "worker_save M (role_path cfg r s) files (map (role_path cfg r) A) =
          (map (\<lambda>s. Rmtree (role_path cfg r s)) (take ?k A) @ [Mkdir (role_path cfg r s)] @ write_all (role_path cfg r s) files @
           map (\<lambda>s. Rmtree (role_path cfg r s)) [], map (role_path cfg r) (drop ?k A @ [s]))"
          using Some 3 nm k by (auto simp: defs take_map drop_map)
        show "\<forall>m'\<ge>1. M = Some (int m') \<longrightarrow> drop ?k A @ [s] = drop (length A + 1 - m') (A @ [s])"
          using Some nm by (auto simp: Suc_diff_le)
      qed (use l rest assms Some in \<open>auto simp: set_drop_subset dest: in_set_dropD in_set_takeD\<close>)
    next
      case 4
      show thesis by (rule that[of "[]" "[]" "A @ [s]"]) (use Some assms 4 in \<open>auto simp: defs\<close>)
    qed
  qed
qed


text \<open>The checkpoints that the managers of a trainer know of, after the saves of the steps \<open>ss\<close> of one run.\<close>

definition tracks :: "checkpoint_config \<Rightarrow> string \<Rightarrow> nat list \<Rightarrow> path list \<Rightarrow> bool" where
  "tracks cfg r ss saved \<longleftrightarrow> (\<exists>A. saved = map (role_path cfg r) A \<and> distinct A \<and> set A \<subseteq> set ss \<and>
     (ss \<noteq> [] \<longrightarrow> A \<noteq> [] \<and> last A = last ss))"

definition saves_ok :: "checkpoint_config \<Rightarrow> nat list \<Rightarrow> trainer_saves \<Rightarrow> bool" where
  "saves_ok cfg ss st \<longleftrightarrow> tracks cfg ''actor'' ss (ts_actor st) \<and>
     (if ck_use_critic cfg then tracks cfg ''critic'' ss (ts_critic st) else True)"

definition files_ok :: "'b checkpoint \<Rightarrow> bool" where
  "files_ok c \<longleftrightarrow> distinct (map fst (cp_actor c)) \<and> distinct (map fst (cp_critic c))"

definition resumable :: "checkpoint_config \<Rightarrow> 'b checkpoint \<Rightarrow> 'b disk \<Rightarrow> nat \<Rightarrow> bool" where
  "resumable cfg c fs s \<longleftrightarrow> complete_checkpoint cfg c fs s \<and> fs (step_folder cfg s) \<noteq> None"

text \<open>The operations of one role neither touch the other role nor the data nor the tracker.\<close>

fun op_target :: "'b disk_op \<Rightarrow> path" where
  "op_target (Mkdir p) = p"
| "op_target (Open_File p) = p"
| "op_target (Write_File p x) = p"
| "op_target (Rmtree p) = p"

lemma leaves_outside: "\<not> prefix (op_target op) q \<Longrightarrow> leaves q op"
  by (cases op) auto

lemma keeps_outside: "\<not> prefix (op_target op) q \<Longrightarrow> keeps_existing q op"
  by (cases op) auto

lemma role_path_prefix [simp]:
  "prefix (role_path cfg r s @ xs) (role_path cfg r' s' @ ys) \<longleftrightarrow> s = s' \<and> r = r' \<and> prefix xs ys"
  by (auto simp: step_folder_def)

lemma worker_targets:
  assumes "distinct (A @ [s])" "worker_save M (role_path cfg r s) files (map (role_path cfg r) A) = (ops, saved)" "op \<in> set ops"
  shows "\<exists>s' xs. op_target op = role_path cfg r s' @ xs \<and> s' \<in> insert s (set A)"
proof -
  obtain R1 R2 A' where w: "worker_save M (role_path cfg r s) files (map (role_path cfg r) A) =
      (map (\<lambda>s. Rmtree (role_path cfg r s)) R1 @ [Mkdir (role_path cfg r s)] @ write_all (role_path cfg r s) files @
       map (\<lambda>s. Rmtree (role_path cfg r s)) R2, map (role_path cfg r) A')" "set R1 \<union> set R2 \<subseteq> set A"
    by (rule worker_save_facts[OF assms(1)])
  have "op \<in> (\<lambda>s. Rmtree (role_path cfg r s)) ` (set R1 \<union> set R2) \<or> op = Mkdir (role_path cfg r s) \<or>
      (\<exists>f x. op = Open_File (role_path cfg r s @ [f]) \<or> op = Write_File (role_path cfg r s @ [f]) (Blob x))"
    using assms(2,3) w(1) by (auto simp: write_all_def)
  then show ?thesis using w(2) by (elim disjE imageE exE) (force intro: exI[of _ "[]"])+
qed


lemma tracks_next:
  assumes "tracks cfg r ss saved" "s \<notin> set ss" "worker_save M (role_path cfg r s) files saved = (ops, saved')" "distinct (map fst files)"
  shows "tracks cfg r (ss @ [s]) saved'" "\<exists>xs. disk_run ops fs (step_folder cfg s) = Some xs"
    "(f, x) \<in> set files \<Longrightarrow> disk_run ops fs (role_path cfg r s @ [f]) = Some (Blob x)"
    "op \<in> set ops \<Longrightarrow> \<exists>s' xs. op_target op = role_path cfg r s' @ xs \<and> s' \<in> insert s (set ss)"
    "M \<noteq> Some 1 \<Longrightarrow> ss \<noteq> [] \<Longrightarrow> op \<in> set ops \<Longrightarrow> leaves (role_path cfg r (last ss) @ [f]) op"
    "op \<in> set ops \<Longrightarrow> keeps_existing (step_folder cfg t) op"
proof -
  obtain A where A: "saved = map (role_path cfg r) A" "distinct A" "set A \<subseteq> set ss" "ss \<noteq> [] \<longrightarrow> A \<noteq> [] \<and> last A = last ss"
    using assms(1) by (auto simp: tracks_def)
  have d: "distinct (A @ [s])" using A assms(2) by auto
  obtain R1 R2 A' where w: "worker_save M (role_path cfg r s) files (map (role_path cfg r) A) =
      (map (\<lambda>s. Rmtree (role_path cfg r s)) R1 @ [Mkdir (role_path cfg r s)] @ write_all (role_path cfg r s) files @
       map (\<lambda>s. Rmtree (role_path cfg r s)) R2, map (role_path cfg r) A')"
      "A' \<noteq> []" "last A' = s" "distinct A'" "set A' \<subseteq> insert s (set A)" "set R1 \<union> set R2 \<subseteq> set A"
      "M \<noteq> Some 1 \<longrightarrow> A \<noteq> [] \<longrightarrow> last A \<notin> set R1 \<union> set R2"
    by (rule worker_save_facts[OF d])
  have ops: "ops = map (\<lambda>s. Rmtree (role_path cfg r s)) R1 @ [Mkdir (role_path cfg r s)] @ write_all (role_path cfg r s) files @
       map (\<lambda>s. Rmtree (role_path cfg r s)) R2" and saved': "saved' = map (role_path cfg r) A'"
    using assms(3) w(1) A(1) by simp_all
  show "tracks cfg r (ss @ [s]) saved'"
    unfolding tracks_def using saved' w(2-5) A(3) by (intro exI[of _ A']) auto
  have new: "s \<notin> set R2" using w(6) A(3) assms(2) by auto
  show target: "op \<in> set ops \<Longrightarrow> \<exists>s' xs. op_target op = role_path cfg r s' @ xs \<and> s' \<in> insert s (set ss)" for op
    using worker_targets[OF d w(1)] ops A(3) by blast
  show keeps: "op \<in> set ops \<Longrightarrow> keeps_existing (step_folder cfg t) op" for op t
    using target[of op] by (intro keeps_outside) (auto simp: step_folder_def)
  show "\<exists>xs. disk_run ops fs (step_folder cfg s) = Some xs"
  proof -
    let ?pre = "map (\<lambda>s. Rmtree (role_path cfg r s)) R1 @ [Mkdir (role_path cfg r s)]"
    let ?post = "write_all (role_path cfg r s) files @ map (\<lambda>s. Rmtree (role_path cfg r s)) R2"
    have "disk_run ?pre fs (step_folder cfg s) \<noteq> None" by (simp add: disk_simps)
    moreover have "\<forall>op \<in> set ?post. keeps_existing (step_folder cfg s) op" using keeps ops by auto
    ultimately have "disk_run ?post (disk_run ?pre fs) (step_folder cfg s) \<noteq> None" by (rule keeps_run)
    then show ?thesis by (simp add: ops disk_simps)
  qed
  show "disk_run ops fs (role_path cfg r s @ [f]) = Some (Blob x)" if "(f, x) \<in> set files"
  proof -
    have "\<forall>op \<in> set (map (\<lambda>s. Rmtree (role_path cfg r s)) R2). leaves (role_path cfg r s @ [f]) op"
      using new role_path_prefix[of cfg _ r "[]" s r "[f]"] by auto
    then show ?thesis
      unfolding ops disk_run_append by (intro leaves_run write_all_writes[OF that assms(4)])
  qed
  show "leaves (role_path cfg r (last ss) @ [f]) op" if "M \<noteq> Some 1" "ss \<noteq> []" "op \<in> set ops"
  proof -
    have l: "last ss \<noteq> s" "last ss \<notin> set R1" "last ss \<notin> set R2" using that(1,2) assms(2) A(4) w(7) by auto
    have "op \<in> (\<lambda>s. Rmtree (role_path cfg r s)) ` (set R1 \<union> set R2) \<or> op = Mkdir (role_path cfg r s) \<or>
        (\<exists>g x. op = Open_File (role_path cfg r s @ [g]) \<or> op = Write_File (role_path cfg r s @ [g]) (Blob x))"
      using that(3) by (auto simp: ops write_all_def)
    then show ?thesis
      using l role_path_prefix[of cfg _ r "[]" "last ss" r "[f]"] by (auto simp: step_folder_def)
  qed
qed


definition keep_actor :: "checkpoint_config \<Rightarrow> int option" where
  "keep_actor cfg = (if ck_remove_previous cfg then Some 1 else ck_max_actor cfg)"

definition keep_critic :: "checkpoint_config \<Rightarrow> int option" where
  "keep_critic cfg = (if ck_remove_previous cfg then Some 1 else ck_max_critic cfg)"

definition data_ops :: "checkpoint_config \<Rightarrow> nat \<Rightarrow> 'b checkpoint \<Rightarrow> 'b disk_op list" where
  "data_ops cfg s c = Mkdir (step_folder cfg s) # write_all (step_folder cfg s) [(''data.pt'', cp_data c)]"

definition tracker_ops :: "checkpoint_config \<Rightarrow> nat \<Rightarrow> 'b disk_op list" where
  "tracker_ops cfg s = [Open_File (tracker_file (ck_dir cfg)), Write_File (tracker_file (ck_dir cfg)) (Text (show_nat s))]"

lemma save_checkpoint_ops:
  assumes "\<not> ck_async_save cfg"
    "worker_save (keep_actor cfg) (role_path cfg ''actor'' s) (cp_actor c) (ts_actor st) = (a_ops, a_saved)"
    "if ck_use_critic cfg then worker_save (keep_critic cfg) (role_path cfg ''critic'' s) (cp_critic c) (ts_critic st) = (c_ops, c_saved)
     else (c_ops, c_saved) = ([], ts_critic st)"
  shows "save_checkpoint cfg s c st = ((a_ops @ c_ops @ data_ops cfg s c) @ tracker_ops cfg s, \<lparr>ts_actor = a_saved, ts_critic = c_saved\<rparr>)"
  using assms by (simp add: save_checkpoint_def keep_actor_def keep_critic_def data_ops_def tracker_ops_def Let_def split: if_splits)

lemma role_op_leaves:
  assumes "\<exists>s' xs. op_target op = role_path cfg r s' @ xs"
  shows "r \<noteq> r' \<Longrightarrow> leaves (role_path cfg r' t @ ys) op" "r \<noteq> ''data.pt'' \<Longrightarrow> leaves (step_folder cfg t @ [''data.pt'']) op"
    "leaves (tracker_file (ck_dir cfg)) op" "keeps_existing (step_folder cfg t) op"
  using assms by (auto intro!: leaves_outside keeps_outside simp: step_folder_def tracker_file_def)

lemma data_op_leaves:
  assumes "op = Mkdir (step_folder cfg s) \<or> op_target op = step_folder cfg s @ [''data.pt'']"
  shows "r \<noteq> ''data.pt'' \<Longrightarrow> leaves (role_path cfg r t @ ys) op" "t \<noteq> s \<Longrightarrow> leaves (step_folder cfg t @ [''data.pt'']) op"
    "leaves (tracker_file (ck_dir cfg)) op"
  using assms by (cases op; auto simp: step_folder_def tracker_file_def)+

lemma tracker_op_leaves:
  assumes "op_target op = tracker_file (ck_dir cfg)"
  shows "leaves (role_path cfg r t @ ys) op" "leaves (step_folder cfg t @ [''data.pt'']) op"
  using assms by (auto intro!: leaves_outside simp: step_folder_def tracker_file_def)

lemma save_effect:
  fixes cfg and c c' :: "'b checkpoint" and fs :: "'b disk"
  defines "tr \<equiv> tracker_file (ck_dir cfg)"
  assumes "saves_ok cfg ss st" "s \<notin> set ss" "files_ok c" "\<not> ck_async_save cfg"
  obtains w st' where "save_checkpoint cfg s c st = (w @ tracker_ops cfg s, st')" "saves_ok cfg (ss @ [s]) st'"
    "resumable cfg c (disk_run (w @ tracker_ops cfg s) fs) s"
    "disk_run (w @ tracker_ops cfg s) fs tr = Some (Text (show_nat s))" "\<forall>op \<in> set w. leaves tr op"
    "keep_actor cfg \<noteq> Some 1 \<Longrightarrow> ck_use_critic cfg \<longrightarrow> keep_critic cfg \<noteq> Some 1 \<Longrightarrow> ss \<noteq> [] \<Longrightarrow> resumable cfg c' fs (last ss) \<Longrightarrow>
       resumable cfg c' (disk_run (take k (w @ tracker_ops cfg s)) fs) (last ss)"
proof -
  obtain a_ops a_saved where a: "worker_save (keep_actor cfg) (role_path cfg ''actor'' s) (cp_actor c) (ts_actor st) = (a_ops :: 'b disk_op list, a_saved)"
    by (metis surj_pair)
  obtain c_ops c_saved where b: "if ck_use_critic cfg
      then worker_save (keep_critic cfg) (role_path cfg ''critic'' s) (cp_critic c) (ts_critic st) = (c_ops :: 'b disk_op list, c_saved)
      else (c_ops, c_saved) = ([], ts_critic st)"
    by (metis surj_pair)
  have ta: "tracks cfg ''actor'' ss (ts_actor st)" and tb: "ck_use_critic cfg \<longrightarrow> tracks cfg ''critic'' ss (ts_critic st)"
    using assms(2) by (auto simp: saves_ok_def split: if_splits)
  note fa = tracks_next[OF ta assms(3) a] and fc = tracks_next[OF tb[rule_format] assms(3)]
  have names: "distinct (map fst (cp_actor c))" "distinct (map fst (cp_critic c))" using assms(4) by (simp_all add: files_ok_def)
  have bc: "worker_save (keep_critic cfg) (role_path cfg ''critic'' s) (cp_critic c) (ts_critic st) = (c_ops, c_saved)" if "ck_use_critic cfg"
    using b that by simp
  let ?w = "a_ops @ c_ops @ data_ops cfg s c"
  let ?all = "?w @ tracker_ops cfg s"
  have tga: "\<exists>s' xs. op_target op = role_path cfg ''actor'' s' @ xs" if "op \<in> set a_ops" for op
    using fa(4)[OF names(1) that] by blast
  have tgc: "\<exists>s' xs. op_target op = role_path cfg ''critic'' s' @ xs" if "op \<in> set c_ops" for op
  proof (cases "ck_use_critic cfg")
    case True
    from fc(4)[OF True bc[OF True] names(2) that] show ?thesis by blast
  next
    case False
    with b that show ?thesis by simp
  qed
  have tgd: "op = Mkdir (step_folder cfg s) \<or> op_target op = step_folder cfg s @ [''data.pt'']" if "op \<in> set (data_ops cfg s c)" for op
    using that by (auto simp: data_ops_def write_all_def)
  have tgt: "op_target op = tr" if "op \<in> set (tracker_ops cfg s)" for op using that by (auto simp: tracker_ops_def tr_def)
  have actor_left: "leaves q op" if "op \<in> set (c_ops @ data_ops cfg s c @ tracker_ops cfg s)" "q = role_path cfg ''actor'' t @ [f]" for q op t f
  proof -
    from that(1) consider "op \<in> set c_ops" | "op \<in> set (data_ops cfg s c)" | "op \<in> set (tracker_ops cfg s)" by auto
    then show ?thesis
    proof cases
      case 1
      then show ?thesis unfolding that(2) by (intro role_op_leaves(1)[OF tgc]) simp_all
    next
      case 2
      then show ?thesis unfolding that(2) by (intro data_op_leaves(1)[OF tgd]) simp_all
    next
      case 3
      then show ?thesis unfolding that(2) by (intro tracker_op_leaves(1)[OF tgt[unfolded tr_def]]) simp_all
    qed
  qed
  have critic_left: "leaves q op" if "op \<in> set (a_ops @ data_ops cfg s c @ tracker_ops cfg s)" "q = role_path cfg ''critic'' t @ [f]" for q op t f
  proof -
    from that(1) consider "op \<in> set a_ops" | "op \<in> set (data_ops cfg s c)" | "op \<in> set (tracker_ops cfg s)" by auto
    then show ?thesis
    proof cases
      case 1
      then show ?thesis unfolding that(2) by (intro role_op_leaves(1)[OF tga]) simp_all
    next
      case 2
      then show ?thesis unfolding that(2) by (intro data_op_leaves(1)[OF tgd]) simp_all
    next
      case 3
      then show ?thesis unfolding that(2) by (intro tracker_op_leaves(1)[OF tgt[unfolded tr_def]]) simp_all
    qed
  qed
  have data_left: "leaves q op" if "op \<in> set (a_ops @ c_ops @ tracker_ops cfg s) \<or> op \<in> set (data_ops cfg s c) \<and> t \<noteq> s"
    "q = step_folder cfg t @ [''data.pt'']" for q op t
  proof -
    from that(1) consider "op \<in> set a_ops" | "op \<in> set c_ops" | "op \<in> set (tracker_ops cfg s)" | "op \<in> set (data_ops cfg s c)" "t \<noteq> s" by auto
    then show ?thesis
    proof cases
      case 1
      then show ?thesis unfolding that(2) by (intro role_op_leaves(2)[OF tga]) simp_all
    next
      case 2
      then show ?thesis unfolding that(2) by (intro role_op_leaves(2)[OF tgc]) simp_all
    next
      case 3
      then show ?thesis unfolding that(2) by (intro tracker_op_leaves(2)[OF tgt[unfolded tr_def]]) simp_all
    next
      case 4
      then show ?thesis unfolding that(2) by (intro data_op_leaves(2)[OF tgd]) simp_all
    qed
  qed
  have tracker_left: "leaves tr op" if "op \<in> set ?w" for op
  proof -
    from that consider "op \<in> set a_ops" | "op \<in> set c_ops" | "op \<in> set (data_ops cfg s c)" by auto
    then show ?thesis
    proof cases
      case 1
      then show ?thesis unfolding tr_def by (intro role_op_leaves(3)[OF tga]) simp_all
    next
      case 2
      then show ?thesis unfolding tr_def by (intro role_op_leaves(3)[OF tgc]) simp_all
    next
      case 3
      then show ?thesis unfolding tr_def by (intro data_op_leaves(3)[OF tgd]) simp_all
    qed
  qed
  have folder_kept: "keeps_existing (step_folder cfg t) op" if "op \<in> set ?all" for op t
  proof -
    from that consider "op \<in> set a_ops" | "op \<in> set c_ops" | "op \<in> set (data_ops cfg s c)" | "op \<in> set (tracker_ops cfg s)" by auto
    then show ?thesis
    proof cases
      case 4
      then show ?thesis by (auto simp: tracker_ops_def)
    next
      case 3
      then show ?thesis by (auto simp: data_ops_def write_all_def)
    next
      case 1
      then show ?thesis by (rule role_op_leaves(4)[OF tga])
    next
      case 2
      then show ?thesis by (rule role_op_leaves(4)[OF tgc])
    qed
  qed
  let ?fs = "disk_run ?all fs"
  have actor_done: "?fs (role_path cfg ''actor'' s @ [f]) = Some (Blob x)" if "(f, x) \<in> set (cp_actor c)" for f x
  proof -
    have "disk_run a_ops fs (role_path cfg ''actor'' s @ [f]) = Some (Blob x)" by (rule fa(3)[OF names(1) that])
    then have "disk_run (c_ops @ data_ops cfg s c @ tracker_ops cfg s) (disk_run a_ops fs) (role_path cfg ''actor'' s @ [f]) = Some (Blob x)"
      by (rule leaves_run) (use actor_left in blast)
    then show ?thesis by (simp add: disk_run_append)
  qed
  have critic_done: "?fs (role_path cfg ''critic'' s @ [f]) = Some (Blob x)" if "(f, x) \<in> set (cp_critic c)" "ck_use_critic cfg" for f x
  proof -
    have "disk_run c_ops (disk_run a_ops fs) (role_path cfg ''critic'' s @ [f]) = Some (Blob x)"
      by (rule fc(3)[OF that(2) bc[OF that(2)] names(2) that(1)])
    then have "disk_run (data_ops cfg s c @ tracker_ops cfg s) (disk_run c_ops (disk_run a_ops fs)) (role_path cfg ''critic'' s @ [f]) = Some (Blob x)"
      by (rule leaves_run) (use critic_left in auto)
    then show ?thesis by (simp add: disk_run_append)
  qed
  have data_done: "?fs (step_folder cfg s @ [''data.pt'']) = Some (Blob (cp_data c))"
    by (simp add: disk_run_append data_ops_def write_all_def tracker_ops_def disk_simps tracker_file_def step_folder_def)
  have tracker_done: "?fs tr = Some (Text (show_nat s))"
    by (simp add: disk_run_append tracker_ops_def disk_simps tr_def)
  obtain y where "disk_run a_ops fs (step_folder cfg s) = Some y" using fa(2)[OF names(1)] by blast
  then have folder_done: "?fs (step_folder cfg s) \<noteq> None"
    using keeps_run[of "disk_run a_ops fs" "step_folder cfg s" "c_ops @ data_ops cfg s c @ tracker_ops cfg s"] folder_kept
    by (simp add: disk_run_append)
  show thesis
  proof (rule that)
    show "save_checkpoint cfg s c st = (?w @ tracker_ops cfg s, \<lparr>ts_actor = a_saved, ts_critic = c_saved\<rparr>)"
      by (rule save_checkpoint_ops[OF assms(5) a b])
    show "saves_ok cfg (ss @ [s]) \<lparr>ts_actor = a_saved, ts_critic = c_saved\<rparr>"
      using fa(1)[OF names(1)] fc(1)[OF _ bc names(2)] by (simp add: saves_ok_def)
    show "resumable cfg c ?fs s"
      using actor_done critic_done data_done folder_done by (auto simp: resumable_def complete_checkpoint_def)
    show "?fs tr = Some (Text (show_nat s))" by (rule tracker_done)
    show "\<forall>op \<in> set ?w. leaves tr op" using tracker_left by blast
    show "resumable cfg c' (disk_run (take k ?all) fs) (last ss)"
      if keep: "keep_actor cfg \<noteq> Some 1" "ck_use_critic cfg \<longrightarrow> keep_critic cfg \<noteq> Some 1" "ss \<noteq> []" and old: "resumable cfg c' fs (last ss)"
    proof -
      let ?t = "last ss"
      have ts: "?t \<noteq> s" using assms(3) keep(3) by auto
      have sub: "set (take k ?all) \<subseteq> set ?all" by (rule set_take_subset)
      have a_left: "leaves (role_path cfg ''actor'' ?t @ [f]) op" if "op \<in> set ?all" for op f
        using that actor_left[of op _ ?t f] fa(5)[OF names(1) keep(1,3)] by auto
      have c_left: "leaves (role_path cfg ''critic'' ?t @ [f]) op" if "op \<in> set ?all" "ck_use_critic cfg" for op f
        using that critic_left[of op _ ?t f] fc(5)[OF that(2) bc[OF that(2)] names(2) _ keep(3)] keep(2) by auto
      have d_left: "leaves (step_folder cfg ?t @ [''data.pt'']) op" if "op \<in> set ?all" for op
        using that data_left[of op ?t] ts by auto
      have "disk_run (take k ?all) fs (role_path cfg ''actor'' ?t @ [f]) = Some (Blob x)" if "(f, x) \<in> set (cp_actor c')" for f x
        using old that sub a_left by (intro leaves_run) (auto simp: resumable_def complete_checkpoint_def)
      moreover have "disk_run (take k ?all) fs (role_path cfg ''critic'' ?t @ [f]) = Some (Blob x)"
        if "(f, x) \<in> set (cp_critic c')" "ck_use_critic cfg" for f x
        using old that sub c_left by (intro leaves_run) (auto simp: resumable_def complete_checkpoint_def)
      moreover have "disk_run (take k ?all) fs (step_folder cfg ?t @ [''data.pt'']) = Some (Blob (cp_data c'))"
        using old sub d_left by (intro leaves_run) (auto simp: resumable_def complete_checkpoint_def)
      moreover have "disk_run (take k ?all) fs (step_folder cfg ?t) \<noteq> None"
        using old sub folder_kept by (intro keeps_run) (auto simp: resumable_def)
      ultimately show ?thesis by (auto simp: resumable_def complete_checkpoint_def)
    qed
  qed
qed


lemma load_from_tracker:
  assumes "fs (tracker_file (ck_dir cfg)) = Some (Text (show_nat s))" "fs (step_folder cfg s) \<noteq> None"
  shows "load_checkpoint cfg ''auto'' p False fs = Inr (Some (s, step_folder cfg s))"
proof -
  have "find_latest_ckpt_path (ck_dir cfg) fs = Inr (Some (step_folder cfg s))"
    using assms by (simp add: find_latest_ckpt_path_def step_folder_def Let_def)
  then show ?thesis by (simp add: load_checkpoint_def split_last_def step_of_folder)
qed

text \<open>The saves of one run, at the steps \<open>ss\<close>, with the contents \<open>cs\<close>.\<close>

fun run_saves :: "checkpoint_config \<Rightarrow> (nat \<Rightarrow> 'b checkpoint) \<Rightarrow> nat list \<Rightarrow> trainer_saves \<Rightarrow> 'b disk \<Rightarrow> trainer_saves \<times> 'b disk" where
  "run_saves cfg cs [] st fs = (st, fs)"
| "run_saves cfg cs (s # ss) st fs = (let (ops, st') = save_checkpoint cfg s (cs s) st in run_saves cfg cs ss st' (disk_run ops fs))"

definition no_saves :: trainer_saves where
  "no_saves = \<lparr>ts_actor = [], ts_critic = []\<rparr>"

lemma no_saves_ok: "saves_ok cfg [] no_saves"
  by (simp add: saves_ok_def tracks_def no_saves_def)

lemma run_saves_state:
  assumes "saves_ok cfg pre st" "distinct (pre @ ss)" "\<forall>s. files_ok (cs s)" "\<not> ck_async_save cfg"
    "pre \<noteq> [] \<longrightarrow> resumable cfg (cs (last pre)) fs (last pre) \<and> fs (tracker_file (ck_dir cfg)) = Some (Text (show_nat (last pre)))"
    "run_saves cfg cs ss st fs = (st', fs')"
  shows "saves_ok cfg (pre @ ss) st' \<and>
    (pre @ ss \<noteq> [] \<longrightarrow> resumable cfg (cs (last (pre @ ss))) fs' (last (pre @ ss)) \<and>
       fs' (tracker_file (ck_dir cfg)) = Some (Text (show_nat (last (pre @ ss)))))"
  using assms
proof (induction ss arbitrary: pre st fs)
  case (Cons s ss)
  have new: "s \<notin> set pre" using Cons.prems(2) by auto
  obtain w st1 where w: "save_checkpoint cfg s (cs s) st = (w @ tracker_ops cfg s, st1)" "saves_ok cfg (pre @ [s]) st1"
      "resumable cfg (cs s) (disk_run (w @ tracker_ops cfg s) fs) s"
      "disk_run (w @ tracker_ops cfg s) fs (tracker_file (ck_dir cfg)) = Some (Text (show_nat s))"
    using Cons.prems(3) by (rule_tac save_effect[OF Cons.prems(1) new _ Cons.prems(4), of "cs s"]) auto
  have "run_saves cfg cs ss st1 (disk_run (w @ tracker_ops cfg s) fs) = (st', fs')"
    using Cons.prems(6) by (simp add: w(1))
  from Cons.IH[OF w(2) _ Cons.prems(3,4) _ this] w(3,4) Cons.prems(2) show ?case by simp
qed simp

section \<open>Properties\<close>

text \<open>
  C26: after any number of saves of a run (any retention limits, any disk before), the latest checkpoint resumes: automatic mode finds
  the last saved step and its folder, and every file of actor, critic and data loader is there completely.
\<close>

theorem last_checkpoint_resumes:
  assumes "distinct ss" "ss \<noteq> []" "\<forall>s. files_ok (cs s)" "\<not> ck_async_save cfg" "run_saves cfg cs ss no_saves fs = (st, fs')"
  shows "load_checkpoint cfg ''auto'' p False fs' = Inr (Some (last ss, step_folder cfg (last ss))) \<and>
    complete_checkpoint cfg (cs (last ss)) fs' (last ss)"
proof -
  have "resumable cfg (cs (last ss)) fs' (last ss)" "fs' (tracker_file (ck_dir cfg)) = Some (Text (show_nat (last ss)))"
    using run_saves_state[OF no_saves_ok _ assms(3,4) _ assms(5)] assms(1,2) by simp_all
  then show ?thesis using load_from_tracker by (simp only: resumable_def) blast
qed

text \<open>
  C27: a crash in the middle of a save. When neither retention limit is 1, then after any prefix of the disk operations of
  the next save automatic mode still finds a complete checkpoint, the previous one or the new one,
  with one exception: between the opening and the writing of the tracker file it raises, because the file is empty.
\<close>

theorem crash_keeps_a_checkpoint:
  assumes "distinct (ss @ [s])" "ss \<noteq> []" "\<forall>s. files_ok (cs s)" "\<not> ck_async_save cfg" "\<not> ck_remove_previous cfg"
    "ck_max_actor cfg \<noteq> Some 1" "ck_max_critic cfg \<noteq> Some 1"
    "run_saves cfg cs ss no_saves fs = (st, fs1)" "save_checkpoint cfg s (cs s) st = (ops, st')"
  shows "let fs' = disk_run (take k ops) fs1 in
    if k + 1 = length ops then load_checkpoint cfg ''auto'' p False fs' = Inl ValueError
    else (let t = (if k < length ops then last ss else s)
          in load_checkpoint cfg ''auto'' p False fs' = Inr (Some (t, step_folder cfg t)) \<and> complete_checkpoint cfg (cs t) fs' t)"
proof -
  let ?tr = "tracker_file (ck_dir cfg)"
  have st: "saves_ok cfg ss st" "resumable cfg (cs (last ss)) fs1 (last ss)" "fs1 ?tr = Some (Text (show_nat (last ss)))"
    using run_saves_state[OF no_saves_ok _ assms(3,4) _ assms(8)] assms(1,2) by simp_all
  have keep: "keep_actor cfg \<noteq> Some 1" "ck_use_critic cfg \<longrightarrow> keep_critic cfg \<noteq> Some 1"
    using assms(5-7) by (simp_all add: keep_actor_def keep_critic_def)
  have "s \<notin> set ss" "files_ok (cs s)" using assms(1,3) by simp_all
  note eff = save_effect[OF st(1) this assms(4), where fs = fs1 and c' = "cs (last ss)" and k = k]
  obtain w where w: "ops = w @ tracker_ops cfg s" "resumable cfg (cs s) (disk_run ops fs1) s"
      "disk_run ops fs1 ?tr = Some (Text (show_nat s))" "\<forall>op \<in> set w. leaves ?tr op"
      "resumable cfg (cs (last ss)) (disk_run (take k ops) fs1) (last ss)"
  proof (rule eff)
    fix w st2
    assume "save_checkpoint cfg s (cs s) st = (w @ tracker_ops cfg s, st2)" "saves_ok cfg (ss @ [s]) st2"
      "resumable cfg (cs s) (disk_run (w @ tracker_ops cfg s) fs1) s"
      "disk_run (w @ tracker_ops cfg s) fs1 ?tr = Some (Text (show_nat s))" "\<forall>op \<in> set w. leaves ?tr op"
      "keep_actor cfg \<noteq> Some 1 \<Longrightarrow> ck_use_critic cfg \<longrightarrow> keep_critic cfg \<noteq> Some 1 \<Longrightarrow> ss \<noteq> [] \<Longrightarrow>
        resumable cfg (cs (last ss)) fs1 (last ss) \<Longrightarrow>
        resumable cfg (cs (last ss)) (disk_run (take k (w @ tracker_ops cfg s)) fs1) (last ss)"
    then show thesis using that[of w] assms(2,9) keep st(2) by simp
  qed
  have len: "length ops = length w + 2" using w(1) by (simp add: tracker_ops_def)
  consider "k \<le> length w" | "k = length w + 1" | "length ops \<le> k" using len by linarith
  then show ?thesis
  proof cases
    case 1
    then have "disk_run (take k ops) fs1 ?tr = Some (Text (show_nat (last ss)))"
      using w(1,4) st(3) by (intro leaves_run) (auto dest: in_set_takeD)
    then have "load_checkpoint cfg ''auto'' p False (disk_run (take k ops) fs1) = Inr (Some (last ss, step_folder cfg (last ss)))"
      using w(5) by (intro load_from_tracker) (simp_all add: resumable_def)
    with w(5) 1 len show ?thesis by (simp add: resumable_def Let_def)
  next
    case 2
    have "disk_run (take k ops) fs1 ?tr = Some Opened" using 2 by (simp add: w(1) tracker_ops_def disk_simps)
    with 2 len show ?thesis by (simp add: load_checkpoint_def find_latest_ckpt_path_def py_int_def)
  next
    case 3
    then have "load_checkpoint cfg ''auto'' p False (disk_run (take k ops) fs1) = Inr (Some (s, step_folder cfg s))"
      using w(2,3) by (intro load_from_tracker) (simp_all add: resumable_def)
    with w(2) 3 len show ?thesis by (simp add: resumable_def Let_def)
  qed
qed


definition demo_checkpoints :: "bool \<Rightarrow> int option \<Rightarrow> checkpoint_config" where
  "demo_checkpoints critic keep =
     \<lparr>ck_dir = [''ckpts''], ck_use_critic = critic, ck_max_actor = keep, ck_max_critic = keep, ck_remove_previous = False, ck_async_save = False\<rparr>"

definition demo_contents :: "nat \<Rightarrow> nat checkpoint" where
  "demo_contents s = \<lparr>cp_actor = [(''model.pt'', s)], cp_critic = [(''model.pt'', 100 + s)], cp_data = 200 + s\<rparr>"

theorem last_checkpoint_resumes_witness:
  "\<exists>st fs'. run_saves (demo_checkpoints True (Some 1)) demo_contents [2, 4] no_saves Map.empty = (st, fs') \<and>
     load_checkpoint (demo_checkpoints True (Some 1)) ''auto'' None False fs' = Inr (Some (4, step_folder (demo_checkpoints True (Some 1)) 4))"
proof -
  obtain st fs' where r: "run_saves (demo_checkpoints True (Some 1)) demo_contents [2, 4] no_saves Map.empty = (st, fs')"
    by (metis surj_pair)
  have "load_checkpoint (demo_checkpoints True (Some 1)) ''auto'' None False fs' =
      Inr (Some (last [2, 4], step_folder (demo_checkpoints True (Some 1)) (last [2, 4])))"
    using last_checkpoint_resumes[OF _ _ _ _ r, of None] by (simp add: files_ok_def demo_contents_def demo_checkpoints_def)
  with r show ?thesis by auto
qed

lemma demo_save_length:
  "length (fst (save_checkpoint (demo_checkpoints False (Some 2)) 6 (demo_contents 6)
     (fst (run_saves (demo_checkpoints False (Some 2)) demo_contents [2, 4] no_saves Map.empty)))) = 9"
  by code_simp

theorem crash_keeps_a_checkpoint_witness:
  "\<exists>st fs1 ops st'. run_saves (demo_checkpoints False (Some 2)) demo_contents [2, 4] no_saves Map.empty = (st, fs1) \<and>
     save_checkpoint (demo_checkpoints False (Some 2)) 6 (demo_contents 6) st = (ops, st') \<and>
     load_checkpoint (demo_checkpoints False (Some 2)) ''auto'' None False (disk_run (take 3 ops) fs1) =
       Inr (Some (4, step_folder (demo_checkpoints False (Some 2)) 4))"
proof -
  let ?cfg = "demo_checkpoints False (Some 2)"
  obtain st fs1 where r: "run_saves ?cfg demo_contents [2, 4] no_saves Map.empty = (st, fs1)" by (metis surj_pair)
  obtain ops st' where o: "save_checkpoint ?cfg 6 (demo_contents 6) st = (ops, st')" by (metis surj_pair)
  have "length ops = 9" using demo_save_length r o by simp
  then show ?thesis
    using crash_keeps_a_checkpoint[OF _ _ _ _ _ _ _ r o, of 3 None] r o
    by (simp add: files_ok_def demo_contents_def demo_checkpoints_def Let_def)
qed

text \<open>
  With a limit of 1 the old checkpoint is deleted before the tracker file is moved: a crash in between
  leaves the tracker on a folder that still exists but has no actor.
\<close>

theorem single_checkpoint_window:
  "let cfg = demo_checkpoints False (Some 1);
       (st, fs) = run_saves cfg demo_contents [2] no_saves Map.empty;
       (ops, st') = save_checkpoint cfg 4 (demo_contents 4) st;
       fs' = disk_run (take (length ops - 2) ops) fs
   in load_checkpoint cfg ''auto'' None False fs' = Inr (Some (2, step_folder cfg 2)) \<and>
      fs' (step_folder cfg 2 @ [''actor'', ''model.pt'']) = None"
  by code_simp


text \<open>
  Resuming continues the run: the steps before a checkpoint at step \<open>s\<close> followed by the steps of a run that resumes from it
  (with the data loader state of that step) are the steps of the uninterrupted run, the same batch of the same
  epoch at each global step, also at an epoch boundary where the loader state is skipped.
\<close>

theorem resume_continues:
  assumes "0 < len" "0 < s" "s < last_step" "s < total_epochs * len"
  shows "take s (fit len total_epochs last_step 0 None) @ fit len total_epochs last_step s (Some (loader_state len s)) =
    fit len total_epochs last_step 0 None"
proof -
  let ?n = "Suc (min last_step (total_epochs * len))"
  have f: "fit len total_epochs last_step 0 None = map (step_of len) [1..<?n]"
    using fit_steps[of len 0 total_epochs None last_step] assms by simp
  have r: "fit len total_epochs last_step s (Some (loader_state len s)) = map (step_of len) [s + 1..<?n]"
    using fit_steps[of len s total_epochs "Some (loader_state len s)" last_step] assms by simp
  have "[1..<?n] = [1..<s + 1] @ [s + 1..<?n]" using assms by (metis upt_add_eq_append add.commute le_add1 le_Suc_ex Suc_leI Suc_le_mono less_imp_le_nat min_less_iff_conj Suc_eq_plus1)
  then show ?thesis unfolding f r by (simp add: take_map)
qed

theorem resume_continues_witness:
  "take 3 (fit 2 5 7 0 None) @ fit 2 5 7 3 (Some (loader_state 2 3)) = fit 2 5 7 0 None"
  using resume_continues[of 2 3 7 5] by simp

text \<open>
  A run that reached its last step inside the data and is started again trains one more step, past the
  last step, before it stops: the loop tests the limit only after a step.
\<close>

theorem finished_run_trains_on:
  assumes "0 < len" "0 < last_step" "last_step < total_epochs * len"
  shows "fit len total_epochs last_step last_step (Some (loader_state len last_step)) = [step_of len (last_step + 1)]"
  using fit_steps[of len last_step total_epochs "Some (loader_state len last_step)" last_step] assms by (simp add: min_def)

theorem finished_run_trains_on_witness:
  "fit 4 2 5 5 (Some (loader_state 4 5)) = [step_of 4 6]"
  using finished_run_trains_on[of 4 5 2] by simp


section \<open>What the retention limit leaves\<close>

lemma untouched_run:
  "\<forall>op \<in> set ops. \<not> prefix q (op_target op) \<and> keeps_existing q op \<Longrightarrow> disk_run ops fs q = fs q"
proof (induction ops arbitrary: fs)
  case (Cons op ops)
  then have "disk_apply op fs q = fs q" by (cases op) auto
  with Cons show ?case by (simp add: disk_run_Cons)
qed (simp add: disk_run_Nil)

fun creates :: "path \<Rightarrow> 'b disk_op \<Rightarrow> bool" where
  "creates q (Rmtree p) = False"
| "creates q op = prefix q (op_target op)"

lemma creates_target: "creates q op \<Longrightarrow> prefix q (op_target op)"
  by (cases op) simp_all

lemma removed_run:
  "Rmtree q \<in> set ops \<or> fs q = None \<Longrightarrow> \<forall>op \<in> set ops. \<not> creates q op \<Longrightarrow> disk_run ops fs q = None"
proof (induction ops arbitrary: fs)
  case (Cons op ops)
  then have "Rmtree q \<in> set ops \<or> disk_apply op fs q = None" by (cases op) auto
  with Cons show ?case by (simp add: disk_run_Cons)
qed (simp add: disk_run_Nil)

lemma removed_set: "T \<inter> D = {} \<Longrightarrow> A = T \<union> D \<Longrightarrow> insert s A - R = insert s D \<Longrightarrow> s \<notin> A \<Longrightarrow> R \<subseteq> A \<Longrightarrow> R = T"
proof (rule set_eqI)
  fix x
  assume "T \<inter> D = {}" "A = T \<union> D" "insert s A - R = insert s D" "s \<notin> A" "R \<subseteq> A"
  then have "x \<in> insert s A - R \<longleftrightarrow> x \<in> insert s D" "x \<in> R \<Longrightarrow> x \<in> A" "x \<in> A \<longleftrightarrow> x \<in> T \<or> x \<in> D" "\<not> (x \<in> T \<and> x \<in> D)" "x \<in> A \<Longrightarrow> x \<noteq> s"
    by (simp only:, blast+)
  then show "x \<in> R \<longleftrightarrow> x \<in> T" by auto
qed

lemma worker_retention:
  assumes "distinct (A @ [s])" "1 \<le> m" "length A \<le> m"
    "worker_save (Some (int m)) (role_path cfg r s) files (map (role_path cfg r) A) = (ops, saved)"
  shows "saved = map (role_path cfg r) (drop (length A + 1 - m) (A @ [s]))"
    "t \<noteq> s \<Longrightarrow> disk_run ops fs (role_path cfg r t) =
      (if t \<in> set (take (length A + 1 - m) A) then None else fs (role_path cfg r t))"
    "disk_run ops fs (role_path cfg r s) \<noteq> None"
proof -
  obtain R1 R2 A' where w: "worker_save (Some (int m)) (role_path cfg r s) files (map (role_path cfg r) A) =
      (map (\<lambda>s. Rmtree (role_path cfg r s)) R1 @ [Mkdir (role_path cfg r s)] @ write_all (role_path cfg r s) files @
       map (\<lambda>s. Rmtree (role_path cfg r s)) R2, map (role_path cfg r) A')" "set R1 \<union> set R2 \<subseteq> set A"
      "set A' = insert s (set A) - (set R1 \<union> set R2)" "A' = drop (length A + 1 - m) (A @ [s])"
    by (rule worker_save_facts[OF assms(1), of "Some (int m)" cfg r files]) (use assms(2) in auto)
  let ?W = "[Mkdir (role_path cfg r s)] @ write_all (role_path cfg r s) files"
  have ops: "ops = map (\<lambda>s. Rmtree (role_path cfg r s)) R1 @ ?W @ map (\<lambda>s. Rmtree (role_path cfg r s)) R2"
    using w(1) assms(4) by simp
  show saved: "saved = map (role_path cfg r) (drop (length A + 1 - m) (A @ [s]))" using w(1,4) assms(4) by simp
  let ?k = "length A + 1 - m"
  have k: "?k \<le> length A" using assms(2) by simp
  have "set (take ?k A) \<inter> set (drop ?k A) = {}" using assms(1) by (simp add: set_take_disj_set_drop_if_distinct)
  moreover have "set A = set (take ?k A) \<union> set (drop ?k A)" by (metis append_take_drop_id set_append)
  moreover have "insert s (set A) - (set R1 \<union> set R2) = insert s (set (drop ?k A))" using w(3,4) k by simp
  moreover have "s \<notin> set A" using assms(1) by simp
  ultimately have R: "set R1 \<union> set R2 = set (take ?k A)" using w(2) by (rule removed_set)
  have W: "\<forall>op \<in> set ?W. \<exists>xs. op_target op = role_path cfg r s @ xs \<and> (\<forall>p. op \<noteq> Rmtree p)"
    by (auto simp: write_all_def)
  { assume ts: "t \<noteq> s"
    have Wt: "\<not> prefix (role_path cfg r t) (op_target op)" "keeps_existing (role_path cfg r t) op" if opW: "op \<in> set ?W" for op
    proof -
      obtain xs where xs: "op_target op = role_path cfg r s @ xs" "\<forall>p. op \<noteq> Rmtree p" using bspec[OF W opW] by (elim exE conjE)
      then show "\<not> prefix (role_path cfg r t) (op_target op)" using ts by (simp add: step_folder_def)
      from xs(2) show "keeps_existing (role_path cfg r t) op" by (cases op) simp_all
    qed
    show "disk_run ops fs (role_path cfg r t) = (if t \<in> set (take ?k A) then None else fs (role_path cfg r t))"
    proof (cases "t \<in> set R1 \<union> set R2")
      case True
      have "\<forall>op \<in> set ?W. \<not> creates (role_path cfg r t) op" using Wt(1) creates_target by blast
      with True have "disk_run ops fs (role_path cfg r t) = None" unfolding ops by (intro removed_run) auto
      with True R show ?thesis by simp
    next
      case False
      have "\<not> prefix (role_path cfg r t) (op_target op) \<and> keeps_existing (role_path cfg r t) op" if opin: "op \<in> set ops" for op
      proof (cases "op \<in> set ?W")
        case True
        with Wt show ?thesis by blast
      next
        case not_W: False
        then obtain u where "op = Rmtree (role_path cfg r u)" "u \<in> set R1 \<union> set R2" using opin unfolding ops by auto
        with False show ?thesis by (auto simp: step_folder_def)
      qed
      with False R show ?thesis by (simp add: untouched_run)
    qed }
  have "disk_run (map (\<lambda>s. Rmtree (role_path cfg r s)) R1 @ [Mkdir (role_path cfg r s)]) fs (role_path cfg r s) \<noteq> None"
    by (simp add: disk_simps)
  moreover have "\<forall>op \<in> set (write_all (role_path cfg r s) files @ map (\<lambda>s. Rmtree (role_path cfg r s)) R2). keeps_existing (role_path cfg r s) op"
    using w(2) assms(1) by (auto simp: write_all_def step_folder_def)
  ultimately have "disk_run (write_all (role_path cfg r s) files @ map (\<lambda>s. Rmtree (role_path cfg r s)) R2)
      (disk_run (map (\<lambda>s. Rmtree (role_path cfg r s)) R1 @ [Mkdir (role_path cfg r s)]) fs) (role_path cfg r s) \<noteq> None"
    by (rule keeps_run)
  then show "disk_run ops fs (role_path cfg r s) \<noteq> None" by (simp only: ops disk_run_append not_False_eq_True)
qed

lemma last_ones:
  assumes "distinct (drop (length pre - m) pre @ [s])" "1 \<le> m" "t \<noteq> s"
  shows "t \<in> set (drop (length pre - m) pre) \<and> t \<notin> set (take (length (drop (length pre - m) pre) + 1 - m) (drop (length pre - m) pre)) \<longleftrightarrow>
    t \<in> set (drop (length pre + 1 - m) (pre @ [s]))"
proof (cases "m \<le> length pre")
  case True
  let ?A = "drop (length pre - m) pre"
  have "?A = hd ?A # tl ?A" using True assms(2) by simp
  then obtain x xs where x: "?A = x # xs" by metis
  have "drop (length pre + 1 - m) pre = xs" using True x by (metis Suc_diff_le Suc_eq_plus1 drop_Suc drop_eq_Nil list.sel(3) tl_drop)
  moreover have "x \<notin> set xs" using assms(1) by (simp add: x)
  ultimately show ?thesis using True assms(2,3) x by (auto simp: Suc_diff_le)
qed (use assms in simp)

lemma save_retention:
  assumes "saves_ok cfg pre st" "distinct (pre @ [s])" "files_ok c" "\<not> ck_async_save cfg" "keep_actor cfg = Some (int m)" "1 \<le> m"
    "ts_actor st = map (role_path cfg ''actor'') (drop (length pre - m) pre)"
    "\<forall>t \<in> set pre. fs (step_folder cfg t) \<noteq> None \<and> (fs (role_path cfg ''actor'' t) \<noteq> None \<longleftrightarrow> t \<in> set (drop (length pre - m) pre))"
    "save_checkpoint cfg s c st = (ops, st')"
  shows "saves_ok cfg (pre @ [s]) st' \<and> ts_actor st' = map (role_path cfg ''actor'') (drop (length pre + 1 - m) (pre @ [s])) \<and>
    (\<forall>t \<in> set (pre @ [s]). disk_run ops fs (step_folder cfg t) \<noteq> None \<and>
       (disk_run ops fs (role_path cfg ''actor'' t) \<noteq> None \<longleftrightarrow> t \<in> set (drop (length pre + 1 - m) (pre @ [s]))))"
proof -
  let ?A = "drop (length pre - m) pre"
  have new: "s \<notin> set pre" using assms(2) by simp
  obtain w st2 where ok: "save_checkpoint cfg s c st = (w, st2)" "saves_ok cfg (pre @ [s]) st2"
    using save_effect[OF assms(1) new assms(3,4)] by metis
  obtain a_ops a_saved where a: "worker_save (keep_actor cfg) (role_path cfg ''actor'' s) (cp_actor c) (ts_actor st) = (a_ops, a_saved)"
    by (metis surj_pair)
  obtain c_ops c_saved where cr: "if ck_use_critic cfg then worker_save (keep_critic cfg) (role_path cfg ''critic'' s) (cp_critic c) (ts_critic st) = (c_ops, c_saved)
     else (c_ops, c_saved) = ([], ts_critic st)" by (metis surj_pair)
  let ?rest = "c_ops @ data_ops cfg s c @ tracker_ops cfg s"
  have ops: "ops = a_ops @ ?rest" "ts_actor st' = a_saved" "st' = st2"
    using save_checkpoint_ops[OF assms(4) a cr] assms(9) ok(1) by auto
  have dA: "distinct (?A @ [s])" using assms(2) in_set_dropD[of s _ pre] by auto
  have lA: "length ?A + 1 - m = (if m \<le> length pre then 1 else 0)" using assms(6) by auto
  have a': "worker_save (Some (int m)) (role_path cfg ''actor'' s) (cp_actor c) (map (role_path cfg ''actor'') ?A) = (a_ops, a_saved)"
    using a assms(5,7) by simp
  have lAm: "length ?A \<le> m" by simp
  note wr = worker_retention[OF dA assms(6) lAm a']
  have saved: "a_saved = map (role_path cfg ''actor'') (drop (length pre + 1 - m) (pre @ [s]))"
    using wr(1) assms(6) unfolding lA by (auto simp: Suc_diff_le)
  have c_t: "\<exists>s' xs. op_target op = role_path cfg ''critic'' s' @ xs" if "op \<in> set c_ops" for op
  proof (cases "ck_use_critic cfg")
    case True
    then have tb: "tracks cfg ''critic'' pre (ts_critic st)" and names: "distinct (map fst (cp_critic c))"
      using assms(1,3) by (simp_all add: saves_ok_def files_ok_def)
    have "worker_save (keep_critic cfg) (role_path cfg ''critic'' s) (cp_critic c) (ts_critic st) = (c_ops, c_saved)"
      using cr True by simp
    from tracks_next(4)[OF tb new this names that] show ?thesis by blast
  next
    case False
    with cr that show ?thesis by simp
  qed
  have rest: "\<not> prefix (role_path cfg ''actor'' t) (op_target op) \<and> keeps_existing (role_path cfg ''actor'' t) op" if "op \<in> set ?rest" for t op
  proof -
    from that consider "op \<in> set c_ops" | "op \<in> set (data_ops cfg s c @ tracker_ops cfg s)" by auto
    then show ?thesis
    proof cases
      case 1
      then obtain s' xs where "op_target op = role_path cfg ''critic'' s' @ xs" using c_t by blast
      then show ?thesis by (auto intro!: keeps_outside simp: step_folder_def)
    next
      case 2
      then show ?thesis by (auto simp: data_ops_def tracker_ops_def write_all_def tracker_file_def step_folder_def)
    qed
  qed
  have folder_kept: "keeps_existing (step_folder cfg t) op" if "op \<in> set ops" for t op
  proof -
    from that consider "op \<in> set a_ops" | "op \<in> set c_ops" | "op \<in> set (data_ops cfg s c @ tracker_ops cfg s)" unfolding ops by auto
    then show ?thesis
    proof cases
      case 1
      then obtain s' xs where "op_target op = role_path cfg ''actor'' s' @ xs" using worker_targets[OF dA a'] by blast
      then show ?thesis by (auto intro!: keeps_outside simp: step_folder_def)
    next
      case 2
      then obtain s' xs where "op_target op = role_path cfg ''critic'' s' @ xs" using c_t by blast
      then show ?thesis by (auto intro!: keeps_outside simp: step_folder_def)
    next
      case 3
      then show ?thesis by (auto simp: data_ops_def tracker_ops_def write_all_def)
    qed
  qed
  have fold_new: "disk_run ops fs (step_folder cfg s) \<noteq> None"
  proof -
    have ta: "tracks cfg ''actor'' pre (ts_actor st)" and names: "distinct (map fst (cp_actor c))"
      using assms(1,3) by (simp_all add: saves_ok_def files_ok_def)
    have "disk_run a_ops fs (step_folder cfg s) \<noteq> None" using tracks_next(2)[OF ta new a names] by blast
    then have "disk_run ?rest (disk_run a_ops fs) (step_folder cfg s) \<noteq> None"
      by (rule keeps_run) (use folder_kept ops(1) in auto)
    then show ?thesis by (simp add: ops(1) disk_run_append)
  qed
  have act: "disk_run ops fs (role_path cfg ''actor'' t) = disk_run a_ops fs (role_path cfg ''actor'' t)" for t
    unfolding ops(1) disk_run_append[of a_ops] by (rule untouched_run) (use rest in blast)
  have "disk_run ops fs (step_folder cfg t) \<noteq> None \<and>
       (disk_run ops fs (role_path cfg ''actor'' t) \<noteq> None \<longleftrightarrow> t \<in> set (drop (length pre + 1 - m) (pre @ [s])))"
    if "t \<in> set (pre @ [s])" for t
  proof (cases "t = s")
    case True
    have "s \<in> set (drop (length pre + 1 - m) (pre @ [s]))" using assms(6) by simp
    with True fold_new act wr(3) show ?thesis by simp
  next
    case False
    then have t: "t \<in> set pre" using that by simp
    then have "disk_run ops fs (step_folder cfg t) \<noteq> None" using assms(8) by (intro keeps_run) (auto simp: folder_kept)
    moreover have "disk_run ops fs (role_path cfg ''actor'' t) \<noteq> None \<longleftrightarrow>
        t \<in> set (drop (length pre - m) pre) \<and> t \<notin> set (take (length ?A + 1 - m) ?A)"
      using assms(8) t act wr(2)[OF False] by auto
    moreover have "t \<in> set (drop (length pre - m) pre) \<and> t \<notin> set (take (length ?A + 1 - m) ?A) \<longleftrightarrow>
        t \<in> set (drop (length pre + 1 - m) (pre @ [s]))"
      using False last_ones[OF dA] assms(6) by simp
    ultimately show ?thesis by simp
  qed
  with ok(2) ops(2,3) saved show ?thesis by blast
qed

lemma run_retention:
  assumes "saves_ok cfg pre st" "distinct (pre @ ss)" "\<forall>s. files_ok (cs s)" "\<not> ck_async_save cfg" "keep_actor cfg = Some (int m)" "1 \<le> m"
    "ts_actor st = map (role_path cfg ''actor'') (drop (length pre - m) pre)"
    "\<forall>t \<in> set pre. fs (step_folder cfg t) \<noteq> None \<and> (fs (role_path cfg ''actor'' t) \<noteq> None \<longleftrightarrow> t \<in> set (drop (length pre - m) pre))"
    "run_saves cfg cs ss st fs = (st', fs')"
  shows "\<forall>t \<in> set (pre @ ss). fs' (step_folder cfg t) \<noteq> None \<and>
    (fs' (role_path cfg ''actor'' t) \<noteq> None \<longleftrightarrow> t \<in> set (drop (length (pre @ ss) - m) (pre @ ss)))"
  using assms
proof (induction ss arbitrary: pre st fs)
  case (Cons s ss)
  obtain ops st1 where o: "save_checkpoint cfg s (cs s) st = (ops, st1)" by (metis surj_pair)
  have d: "distinct (pre @ [s])" "files_ok (cs s)" using Cons.prems(2,3) by auto
  note n = save_retention[OF Cons.prems(1) d Cons.prems(4-8) o]
  have "run_saves cfg cs ss st1 (disk_run ops fs) = (st', fs')" using Cons.prems(9) o by simp
  from Cons.IH[OF _ _ Cons.prems(3-6) _ _ this, of "pre @ [s]"] n Cons.prems(2) show ?case by simp
qed simp

text \<open>
  The retention limit of the actor, after the saves of a run: the actor folder of a saved step is on the
  disk exactly when the step is one of the last \<open>m\<close> saved; the folder of the step itself, with the data loader state in it, is
  never removed.
\<close>

theorem retention_keeps_latest:
  assumes "distinct ss" "\<forall>s. files_ok (cs s)" "\<not> ck_async_save cfg" "\<not> ck_remove_previous cfg" "ck_max_actor cfg = Some (int m)" "1 \<le> m"
    "run_saves cfg cs ss no_saves fs = (st, fs')" "s \<in> set ss"
  shows "fs' (step_folder cfg s) \<noteq> None \<and>
    (fs' (step_folder cfg s @ [''actor'']) \<noteq> None \<longleftrightarrow> s \<in> set (drop (length ss - m) ss))"
  using run_retention[OF no_saves_ok, of ss cs cfg m fs st fs'] assms by (simp add: keep_actor_def no_saves_def)

theorem retention_keeps_latest_witness:
  "\<exists>st fs'. run_saves (demo_checkpoints True (Some 2)) demo_contents [2, 4, 6] no_saves Map.empty = (st, fs') \<and>
     fs' (step_folder (demo_checkpoints True (Some 2)) 2 @ [''actor'']) = None \<and>
     fs' (step_folder (demo_checkpoints True (Some 2)) 2) \<noteq> None"
proof -
  let ?cfg = "demo_checkpoints True (Some 2)"
  obtain st fs' where r: "run_saves ?cfg demo_contents [2, 4, 6] no_saves Map.empty = (st, fs')" by (metis surj_pair)
  have "fs' (step_folder ?cfg 2) \<noteq> None \<and> (fs' (step_folder ?cfg 2 @ [''actor'']) \<noteq> None \<longleftrightarrow> 2 \<in> set (drop (length [2, 4, 6::nat] - 2) [2, 4, 6::nat]))"
    by (rule retention_keeps_latest[OF _ _ _ _ _ _ r]) (simp_all add: files_ok_def demo_contents_def demo_checkpoints_def)
  with r show ?thesis by simp
qed

end
