(* ===== verification/Sequence_Layout.thy ===== *)
theory Sequence_Layout
  imports Data_Proto Masked_Tensor Tool_Agent
begin

text \<open>
  The layouts of token sequences between rollout and training: the padding of \<open>AgentLoopWorker\<close>
  (\<open>src/verl/verl/experimental/agent_loop/agent_loop.py\<close>), the removal of padding of
  \<open>utils/npu_flash_attn_utils.py\<close> and the conversions of \<open>workers/utils/padding.py\<close>. A tensor of shape
  \<open>(batch, seqlen, ...)\<close> is the list of its rows, a nested tensor the list of its sequences (its \<open>values()\<close> are
  their concatenation, its \<open>offsets()\<close> the running sums of their lengths). The padding of the tokenizer
  is a parameter.
\<close>

section \<open>Removing and restoring padding\<close>

definition running_sums :: "nat list \<Rightarrow> nat list" where
  "running_sums xs = map (\<lambda>i. sum_list (take (Suc i) xs)) [0..<length xs]"

text \<open>\<open>torch.nonzero(x, as_tuple=False).flatten()\<close>.\<close>

definition nonzero :: "int list \<Rightarrow> nat list" where
  "nonzero xs = filter (\<lambda>i. xs ! i \<noteq> 0) [0..<length xs]"

text \<open>The forward of \<open>IndexFirstAxis\<close> and \<open>IndexPutFirstAxis\<close>; \<open>zero\<close> fills the output.\<close>

definition index_first_axis :: "'a list \<Rightarrow> nat list \<Rightarrow> 'a list result" where
  "index_first_axis inp indices = res_map (\<lambda>i. if i < length inp then Inr (inp ! i) else Inl RuntimeError) indices"

definition index_put_first_axis :: "'a \<Rightarrow> 'a list \<Rightarrow> nat list \<Rightarrow> nat \<Rightarrow> 'a list result" where
  "index_put_first_axis zero values indices first_axis_dim =
     (if length values \<noteq> length indices then Inl RuntimeError
      else res_fold (\<lambda>(i, v) out. if i < length out then Inr (out[i := v]) else Inl IndexError)
        (zip indices values) (replicate first_axis_dim zero))"

definition pad_input :: "'a \<Rightarrow> 'a list \<Rightarrow> nat list \<Rightarrow> nat \<Rightarrow> nat \<Rightarrow> 'a list list result" where
  "pad_input zero hidden_states indices batch seqlen =
     res_bind (index_put_first_axis zero hidden_states indices (batch * seqlen)) (\<lambda>output.
       Inr (map (\<lambda>b. take seqlen (drop (b * seqlen) output)) [0..<batch]))"

record 'a unpadded =
  up_values :: "'a list"
  up_indices :: "nat list"
  up_cu_seqlens :: "nat list"
  up_max_seqlen :: nat
  up_seqused :: "nat list"

definition unpad_input :: "'a list list \<Rightarrow> int list list \<Rightarrow> int list list option \<Rightarrow> 'a unpadded result" where
  "unpad_input hidden_states attention_mask unused_mask =
     (let all_masks = (case unused_mask of None \<Rightarrow> attention_mask | Some u \<Rightarrow> mat_map2 (+) attention_mask u);
          seqlens_in_batch = map (nat \<circ> sum_list) all_masks;
          used_seqlens_in_batch = map (nat \<circ> sum_list) attention_mask;
          indices = nonzero (concat all_masks)
      in if seqlens_in_batch = [] then Inl RuntimeError
         else res_bind (index_first_axis (concat hidden_states) indices) (\<lambda>vs.
           Inr \<lparr>up_values = vs, up_indices = indices, up_cu_seqlens = 0 # running_sums seqlens_in_batch,
                up_max_seqlen = Max (set seqlens_in_batch), up_seqused = used_seqlens_in_batch\<rparr>))"

text \<open>\<open>torch.nested.nested_tensor_from_jagged\<close>.\<close>

definition nested_from_jagged :: "'a list \<Rightarrow> nat list \<Rightarrow> 'a list list" where
  "nested_from_jagged vs offsets = map (\<lambda>i. take (offsets ! (i + 1) - offsets ! i) (drop (offsets ! i) vs)) [0..<length offsets - 1]"

section \<open>Conversions of a batch\<close>

datatype positions = Text_Positions "int list list" | Rope_Positions "int list list list"

text \<open>The entries of the TensorDict the conversion reads.\<close>

record 'e padded_data =
  pd_input_ids :: "int list list option"
  pd_attention_mask :: "int list list option"
  pd_response_mask :: "int list list option"
  pd_position_ids :: "positions option"
  pd_routed_experts :: "'e list list option"
  pd_teacher_logprobs :: "'e list list option"
  pd_teacher_ids :: "'e list list option"

text \<open>
  What it adds or replaces, as nested tensors; \<open>attention_mask\<close> and the other entries stay. \<open>None\<close> is an entry that is
  not touched.
\<close>

record 'e unpadded_data =
  ud_max_seq_len :: nat
  ud_max_response_len :: nat
  ud_indices :: "nat list"
  ud_input_ids :: "int list list"
  ud_position_ids :: positions
  ud_loss_mask :: "int list list"
  ud_routed_experts :: "'e list list option"
  ud_teacher :: "('e list list \<times> 'e list list) option"

definition width :: "'a list list \<Rightarrow> nat" where
  "width rows = (case rows of [] \<Rightarrow> 0 | row # _ \<Rightarrow> length row)"

definition selected :: "int list \<Rightarrow> 'a list \<Rightarrow> 'a list" where
  "selected msk xs = map fst (filter (\<lambda>(x, m). m \<noteq> 0) (zip xs msk))"

definition required :: "'a option \<Rightarrow> 'a result" where
  "required x = (case x of None \<Rightarrow> Inl AssertionError | Some v \<Rightarrow> Inr v)"

definition nested_rows :: "nat list \<Rightarrow> nat list \<Rightarrow> 'e list list \<Rightarrow> 'e list list result" where
  "nested_rows indices cu_seqlens rows =
     res_bind (index_first_axis (concat rows) indices) (\<lambda>vs. Inr (nested_from_jagged vs cu_seqlens))"

definition left_right_2_no_padding :: "'e padded_data \<Rightarrow> 'e unpadded_data result" where
  "left_right_2_no_padding d =
     res_bind (required (pd_input_ids d)) (\<lambda>input_ids.
     res_bind (required (pd_attention_mask d)) (\<lambda>attention_mask.
     res_bind (required (pd_response_mask d)) (\<lambda>response_mask.
     res_bind (required (pd_position_ids d)) (\<lambda>position_ids.
     res_bind (unpad_input input_ids attention_mask None) (\<lambda>u.
       (let position_ids_nested = (case position_ids of
              Text_Positions rows \<Rightarrow> Text_Positions (map2 (\<lambda>m row. selected m row) attention_mask rows)
            | Rope_Positions rows \<Rightarrow> Rope_Positions (map2 (\<lambda>m dims. map (selected m) dims) attention_mask rows))
        in res_bind (case pd_routed_experts d of
             None \<Rightarrow> Inr None
           | Some experts \<Rightarrow> res_bind (nested_rows (up_indices u) (up_cu_seqlens u) experts) (\<lambda>e. Inr (Some e))) (\<lambda>routed_experts.
           res_bind (case (pd_teacher_logprobs d, pd_teacher_ids d) of
             (Some lp, Some ids) \<Rightarrow>
               res_bind (nested_rows (up_indices u) (up_cu_seqlens u) lp) (\<lambda>lp'.
               res_bind (nested_rows (up_indices u) (up_cu_seqlens u) ids) (\<lambda>ids'. Inr (Some (lp', ids'))))
           | _ \<Rightarrow> Inr None) (\<lambda>teacher.
             Inr \<lparr>ud_max_seq_len = width input_ids, ud_max_response_len = width response_mask, ud_indices = up_indices u,
                  ud_input_ids = nested_from_jagged (up_values u) (up_cu_seqlens u), ud_position_ids = position_ids_nested,
                  ud_loss_mask = response_mask, ud_routed_experts = routed_experts, ud_teacher = teacher\<rparr>))))))))"

text \<open>
  \<open>no_padding_2_padding\<close>: \<open>prompts\<close> and \<open>responses\<close> are padded or nested, \<open>max_response_len\<close> is the entry of that name.
  Padding by a negative size cuts.
\<close>

datatype 'a layout = Padded "'a list list" | Nested "'a list list"

definition token_counts :: "'p layout \<Rightarrow> 'p layout \<Rightarrow> int layout option \<Rightarrow> nat option \<Rightarrow> (nat list \<times> nat list \<times> nat) result" where
  "token_counts prompts responses attention_mask max_response_len =
     (case prompts of
        Nested ps \<Rightarrow>
          (case responses of
             Padded _ \<Rightarrow> Inl RuntimeError
           | Nested rs \<Rightarrow>
               (let response_lens = map length rs
                in case max_response_len of
                     Some m \<Rightarrow> Inr (map length ps, response_lens, m)
                   | None \<Rightarrow> if response_lens = [] then Inl RuntimeError else Inr (map length ps, response_lens, Max (set response_lens))))
      | Padded ps \<Rightarrow>
          (case attention_mask of
             None \<Rightarrow> Inl KeyError
           | Some (Nested _) \<Rightarrow> Inl AssertionError
           | Some (Padded am) \<Rightarrow>
               Inr (map (\<lambda>row. nat (sum_list (take (width ps) row))) am,
                    map (\<lambda>row. nat (sum_list (drop (width ps) row))) am,
                    width (case responses of Padded rs \<Rightarrow> rs | Nested rs \<Rightarrow> rs))))"

definition no_padding_2_padding ::
  "'a \<Rightarrow> 'a list \<Rightarrow> 'p layout \<Rightarrow> 'p layout \<Rightarrow> int layout option \<Rightarrow> nat option \<Rightarrow> 'a list list result" where
  "no_padding_2_padding zero vs prompts responses attention_mask max_response_len =
     res_bind (token_counts prompts responses attention_mask max_response_len) (\<lambda>(prompt_lens, response_lens, max_len).
       (let sequence_lens = map2 (+) prompt_lens response_lens;
            sequence_offsets = running_sums sequence_lens
        in if sequence_offsets = [] then Inl IndexError
           else res_bind (py_assert (last sequence_offsets = length vs)) (\<lambda>_.
             res_bind (py_assert (0 \<notin> set prompt_lens)) (\<lambda>_.
               Inr (map2 (\<lambda>resp_len seq_offset.
                   take max_len (slice (seq_offset - resp_len - 1) (seq_offset - 1) vs @ replicate (max_len - resp_len) zero))
                 response_lens sequence_offsets)))))"

text \<open>The nested route: \<open>tensor\<close> and \<open>response_mask\<close> are nested.\<close>

definition response_from_nested :: "'a list list \<Rightarrow> int list list \<Rightarrow> 'a list list result" where
  "response_from_nested tensor response_mask =
     (let vs = concat tensor;
          offsets = 0 # running_sums (map length tensor);
          response_lens = map length response_mask
      in if length response_lens \<noteq> length (tl offsets) then Inl ValueError
         else Inr (map2 (\<lambda>resp_len seq_offset.
             py_slice (Some (int seq_offset - int resp_len - 1)) (Some (int seq_offset - 1)) vs) response_lens (tl offsets)))"

definition response_to_nested :: "'a list list \<Rightarrow> int layout \<Rightarrow> 'a list list result" where
  "response_to_nested tensor response_mask =
     (case response_mask of
        Padded _ \<Rightarrow> Inl AssertionError
      | Nested ms \<Rightarrow> res_map (\<lambda>i. res_bind (py_nth ms i) (\<lambda>m. Inr (take (length m) (tensor ! i)))) [0..<length tensor])"

definition build_attention_mask_from_nested :: "int layout \<Rightarrow> nat option \<Rightarrow> int list list result" where
  "build_attention_mask_from_nested input_ids max_seq_len =
     (case input_ids of
        Padded _ \<Rightarrow> Inl AssertionError
      | Nested rows \<Rightarrow>
          (let seq_lens = map length rows
           in if max_seq_len = None \<and> seq_lens = [] then Inl RuntimeError
              else (let n = (case max_seq_len of Some n \<Rightarrow> n | None \<Rightarrow> Max (set seq_lens))
                    in Inr (map (\<lambda>l. map (\<lambda>p. if p < l then 1 else 0) [0..<n]) seq_lens))))"

section \<open>Padding of an agent's output\<close>

definition compute_position_id_with_mask :: "int list \<Rightarrow> int list" where
  "compute_position_id_with_mask msk = map (\<lambda>i. max (sum_list (take (Suc i) msk) - 1) 0) [0..<length msk]"

datatype side = Pad_Left | Pad_Right

type_synonym tokenizer_pad = "side \<Rightarrow> nat \<Rightarrow> int list \<Rightarrow> (int list \<times> int list) result"

text \<open>\<open>_cap_text_prompt_length\<close>.\<close>

definition cap_text_prompt_length :: "nat \<Rightarrow> int list \<Rightarrow> int list" where
  "cap_text_prompt_length prompt_length prompt_ids =
     (if length prompt_ids > prompt_length then py_slice (Some (- int prompt_length)) None prompt_ids else prompt_ids)"

text \<open>\<open>_pad_token_ids\<close>: the padded tokens and their attention mask; \<open>pad_id\<close> is the tokenizer's padding token.\<close>

definition pad_token_ids :: "tokenizer_pad \<Rightarrow> int option \<Rightarrow> int list \<Rightarrow> nat \<Rightarrow> side \<Rightarrow> (int list \<times> int list) result" where
  "pad_token_ids tok_pad pad_id tokens max_length padding_side =
     (if tokens = [] then
        (let pad = (case pad_id of None \<Rightarrow> 0 | Some p \<Rightarrow> p) in Inr (replicate max_length pad, replicate max_length 0))
      else tok_pad padding_side max_length tokens)"

text \<open>The product of two rows: a row of length 1 is broadcast.\<close>

definition row_product :: "int list \<Rightarrow> int list \<Rightarrow> int list result" where
  "row_product a b =
     (if length a = length b then Inr (map2 (*) a b)
      else if length a = 1 then Inr (map (\<lambda>y. hd a * y) b)
      else if length b = 1 then Inr (map (\<lambda>x. x * hd b) a)
      else Inl RuntimeError)"

record padded_output =
  po_prompt_ids :: "int list"
  po_response_ids :: "int list"
  po_input_ids :: "int list"
  po_position_ids :: "int list"
  po_response_mask :: "int list"
  po_attention_mask :: "int list"
  po_response_logprobs :: "rat list option"
  po_routed_experts :: "int list list option"
  po_reward_score :: "rat option"

text \<open>
  The experts of the tokens, placed where the unpadded sequence starts; slots without a token are filled with
  \<open>zero\<close>.
\<close>

definition place_experts :: "'e \<Rightarrow> nat \<Rightarrow> nat \<Rightarrow> nat \<Rightarrow> 'e list \<Rightarrow> 'e list result" where
  "place_experts zero prompt_width prompt_len total_length experts =
     (let len = length experts;
          start_pos = int prompt_width - int prompt_len;
          end_pos = min (start_pos + int len) (int total_length)
      in if start_pos < 0 \<or> end_pos > int total_length then Inl ValueError
         else (let n = nat (end_pos - start_pos)
               in if len = n then Inr (replicate (nat start_pos) zero @ experts @ replicate (total_length - nat end_pos) zero)
                  else if len = 1 then Inr (replicate (nat start_pos) zero @ replicate n (hd experts) @ replicate (total_length - nat end_pos) zero)
                  else Inl RuntimeError))"

text \<open>
  \<open>_agent_loop_postprocess\<close> without a multi-modal processor and without a teacher. \<open>score\<close> is the reward loop
  worker, if there is one; it is asked when the agent has not set the reward.
\<close>

record layout_config =
  lc_prompt_length :: nat
  lc_response_length :: nat
  lc_pad_id :: "int option"
  lc_pad :: tokenizer_pad

definition compute_score :: "(int list \<Rightarrow> int list \<Rightarrow> rat) option \<Rightarrow> 'i agent_output \<Rightarrow> rat option \<Rightarrow> rat option" where
  "compute_score score out reward_score =
     (case (reward_score, score) of
        (None, Some f) \<Rightarrow> Some (f (ao_prompt_ids out) (ao_response_ids out))
      | _ \<Rightarrow> reward_score)"

definition agent_loop_postprocess ::
  "layout_config \<Rightarrow> (int list \<Rightarrow> int list \<Rightarrow> rat) option \<Rightarrow> 'i agent_output \<Rightarrow> rat option \<Rightarrow> padded_output result" where
  "agent_loop_postprocess cfg score out reward_score =
     res_bind (pad_token_ids (lc_pad cfg) (lc_pad_id cfg) (ao_prompt_ids out) (lc_prompt_length cfg) Pad_Left) (\<lambda>(prompt_ids, prompt_attn).
     res_bind (pad_token_ids (lc_pad cfg) (lc_pad_id cfg) (ao_response_ids out) (lc_response_length cfg) Pad_Right) (\<lambda>(response_ids, response_attn).
     res_bind (pad_token_ids (lc_pad cfg) (lc_pad_id cfg) (ao_response_mask out) (lc_response_length cfg) Pad_Right) (\<lambda>(mask_ids, _).
     res_bind (row_product mask_ids response_attn) (\<lambda>response_mask.
       (let response_logprobs = map_option (\<lambda>ps. ps @ replicate (lc_response_length cfg - length ps) 0) (ao_response_logprobs out);
            attention_mask = prompt_attn @ response_attn;
            input_ids = prompt_ids @ response_ids
        in res_bind (case ao_routed_experts out of
             None \<Rightarrow> Inr None
           | Some experts \<Rightarrow>
               res_bind (place_experts (replicate (width experts) 0) (length prompt_ids) (length (ao_prompt_ids out)) (length input_ids) experts)
                 (\<lambda>e. Inr (Some e))) (\<lambda>routed_experts.
           Inr \<lparr>po_prompt_ids = prompt_ids, po_response_ids = response_ids, po_input_ids = input_ids,
                po_position_ids = compute_position_id_with_mask attention_mask, po_response_mask = response_mask,
                po_attention_mask = attention_mask, po_response_logprobs = response_logprobs,
                po_routed_experts = routed_experts, po_reward_score = compute_score score out reward_score\<rparr>))))))"

text \<open>
  The tensors of \<open>_postprocess\<close>: rows stacked by \<open>torch.cat\<close>, and the scores written behind the last response token
  (a position of -1 is the last column).
\<close>

definition torch_cat :: "'a list list \<Rightarrow> 'a list list result" where
  "torch_cat rows = (if rows = [] \<or> (\<exists>r \<in> set rows. length r \<noteq> width rows) then Inl RuntimeError else Inr rows)"

definition cat_optional :: "'a list option list \<Rightarrow> 'a list list option result" where
  "cat_optional rows =
     (case rows of
        [] \<Rightarrow> Inl IndexError
      | None # _ \<Rightarrow> Inr None
      | _ \<Rightarrow> if None \<in> set rows then Inl TypeError else res_bind (torch_cat (map the rows)) (\<lambda>m. Inr (Some m)))"

definition place_score :: "int list \<Rightarrow> int list \<Rightarrow> nat \<Rightarrow> rat \<Rightarrow> rat list result" where
  "place_score response_mask attention_mask prompt_length score =
     (let response_length = sum_list (drop prompt_length attention_mask) - 1;
          n = length response_mask;
          pos = (if response_length < 0 then response_length + int n else response_length)
      in if 0 \<le> pos \<and> pos < int n then Inr ((replicate n 0)[nat pos := score]) else Inl IndexError)"

record worker_batch =
  wb_prompts :: "int list list"
  wb_responses :: "int list list"
  wb_response_mask :: "int list list"
  wb_input_ids :: "int list list"
  wb_attention_mask :: "int list list"
  wb_position_ids :: "int list list"
  wb_rollout_log_probs :: "rat list list option"
  wb_routed_experts :: "int list list list option"
  wb_rm_scores :: "rat list list option"

definition postprocess_tensors :: "padded_output list \<Rightarrow> worker_batch result" where
  "postprocess_tensors inputs =
     res_bind (torch_cat (map po_prompt_ids inputs)) (\<lambda>prompt_ids.
     res_bind (torch_cat (map po_response_ids inputs)) (\<lambda>response_ids.
     res_bind (torch_cat (map po_response_mask inputs)) (\<lambda>response_mask.
     res_bind (torch_cat (map po_attention_mask inputs)) (\<lambda>attention_mask.
     res_bind (torch_cat (map po_input_ids inputs)) (\<lambda>input_ids.
     res_bind (torch_cat (map po_position_ids inputs)) (\<lambda>position_ids.
     res_bind (cat_optional (map po_response_logprobs inputs)) (\<lambda>logprobs.
     res_bind (cat_optional (map po_routed_experts inputs)) (\<lambda>experts.
     res_bind (if None \<in> set (map po_reward_score inputs) then Inr None
         else res_bind (res_map (\<lambda>((m, a), s). place_score m a (width prompt_ids) (the s))
             (zip (zip response_mask attention_mask) (map po_reward_score inputs))) (\<lambda>rows. Inr (Some rows))) (\<lambda>rm_scores.
       Inr \<lparr>wb_prompts = prompt_ids, wb_responses = response_ids, wb_response_mask = response_mask, wb_input_ids = input_ids,
            wb_attention_mask = attention_mask, wb_position_ids = position_ids, wb_rollout_log_probs = logprobs,
            wb_routed_experts = experts, wb_rm_scores = rm_scores\<rparr>)))))))))"


section \<open>Lemmas on unpadding\<close>

lemma nonzero_Nil [simp]: "nonzero [] = []"
  by (simp add: nonzero_def)

lemma nonzero_snoc [simp]: "nonzero (xs @ [x]) = nonzero xs @ (if x \<noteq> 0 then [length xs] else [])"
proof -
  have "filter (\<lambda>i. (xs @ [x]) ! i \<noteq> 0) [0..<length xs] = filter (\<lambda>i. xs ! i \<noteq> 0) [0..<length xs]"
    by (rule filter_cong) (auto simp: nth_append)
  then show ?thesis by (simp add: nonzero_def)
qed

lemma nonzero_bound: "i \<in> set (nonzero xs) \<Longrightarrow> i < length xs"
  by (auto simp: nonzero_def)

lemma selected_append:
  "length m = length x \<Longrightarrow> selected (m @ m') (x @ x') = selected m x @ selected m' x'"
  by (simp add: selected_def)

lemma selected_single [simp]: "selected [k] [x] = (if k \<noteq> 0 then [x] else [])" "selected [] xs = []"
  by (simp_all add: selected_def)

lemma list_snoc_induct2 [consumes 1, case_names Nil snoc]:
  assumes "length xs = length ys" "P [] []" "\<And>x xs y ys. length xs = length ys \<Longrightarrow> P xs ys \<Longrightarrow> P (xs @ [x]) (ys @ [y])"
  shows "P xs ys"
  using assms(1)
proof (induction xs arbitrary: ys rule: rev_induct)
  case Nil
  then show ?case using assms(2) by simp
next
  case (snoc x xs)
  then obtain y ys' where "ys = ys' @ [y]" "length xs = length ys'" by (cases ys rule: rev_cases) auto
  with snoc.IH[of ys'] assms(3) show ?case by simp
qed

lemma map_nth_nonzero: "length m = length h \<Longrightarrow> map ((!) h) (nonzero m) = selected m h"
proof (induction rule: list_snoc_induct2)
  case (snoc k m x h)
  have "map ((!) (h @ [x])) (nonzero m) = map ((!) h) (nonzero m)"
    using snoc(1) by (auto dest!: nonzero_bound simp: nth_append)
  with snoc show ?case by (simp add: selected_append)
qed simp

lemma length_nonzero: "length m = length h \<Longrightarrow> length (nonzero m) = length (selected m h)"
  using map_nth_nonzero by (metis length_map)

lemma index_first_axis_nonzero: "length m = length h \<Longrightarrow> index_first_axis h (nonzero m) = Inr (selected m h)"
  unfolding index_first_axis_def map_nth_nonzero[symmetric]
  by (rule res_map_all_Inr) (auto dest!: nonzero_bound)

definition blank :: "'a \<Rightarrow> int \<Rightarrow> 'a \<Rightarrow> 'a" where
  "blank zero k x = (if k = 0 then zero else x)"

lemma scatter_nonzero:
  assumes "length m = length h" "length m \<le> n"
  shows "res_fold (\<lambda>(i, v) out. if i < length out then Inr (out[i := v]) else Inl IndexError)
      (zip (nonzero m) (selected m h)) (replicate n zero) =
    Inr (map2 (blank zero) m h @ replicate (n - length m) zero)"
  using assms
proof (induction rule: list_snoc_induct2)
  case (snoc k m x h)
  have r: "replicate (n - length m) zero = zero # replicate (n - Suc (length m)) zero"
    using snoc.prems by (metis Suc_diff_Suc Suc_le_lessD length_append_singleton replicate_Suc)
  show ?case
  proof (cases "k = 0")
    case True
    with snoc r show ?thesis by (simp add: selected_append blank_def)
  next
    case False
    have z: "zip (nonzero (m @ [k])) (selected (m @ [k]) (h @ [x])) = zip (nonzero m) (selected m h) @ [(length m, x)]"
      using False snoc(1) by (simp add: selected_append length_nonzero)
    show ?thesis
      using snoc False r unfolding z res_fold_append by (simp add: blank_def list_update_append)
  qed
qed simp


definition binary :: "int list \<Rightarrow> bool" where
  "binary m \<longleftrightarrow> list_all (\<lambda>k. k = 0 \<or> k = 1) m"

lemma length_select_binary: "binary m \<Longrightarrow> length m = length h \<Longrightarrow> length (selected m h) = nat (sum_list m)"
proof -
  assume b: "binary m" and l: "length m = length h"
  have "int (length (selected m h)) = sum_list m" using l b
  proof (induction rule: list_snoc_induct2)
    case (snoc k m x h)
    then show ?case by (auto simp: selected_append binary_def)
  qed simp
  then show ?thesis by simp
qed

lemma selected_concat:
  assumes "list_all2 (\<lambda>m h. length m = length h) ms hs"
  shows "selected (concat ms) (concat hs) = concat (map2 selected ms hs)"
  using assms by (induction rule: list_all2_induct) (simp_all add: selected_append)

lemma map2_row_concat:
  assumes "list_all2 (\<lambda>m h. length m = length h) ms hs"
  shows "map2 f (concat ms) (concat hs) = concat (mat_map2 f ms hs)"
  using assms by (induction rule: list_all2_induct) (simp_all add: mat_map2_def)

lemma length_concat_rows: "list_all2 (\<lambda>m h. length m = length h) ms hs \<Longrightarrow> length (concat ms) = length (concat hs)"
  by (induction rule: list_all2_induct) simp_all

lemma take_drop_concat:
  "i < length xs \<Longrightarrow> take (length (xs ! i)) (drop (sum_list (map length (take i xs))) (concat xs)) = xs ! i"
proof (induction xs arbitrary: i)
  case (Cons x xs)
  then show ?case by (cases i) simp_all
qed simp

lemma offsets_nth: "i \<le> length ls \<Longrightarrow> (0 # running_sums ls) ! i = sum_list (take i ls)"
  by (cases i) (simp_all add: running_sums_def)

lemma length_running_sums [simp]: "length (running_sums xs) = length xs"
  by (simp add: running_sums_def)

lemma running_sums_Nil [simp]: "running_sums xs = [] \<longleftrightarrow> xs = []"
  by (metis length_0_conv length_running_sums)

lemma nested_from_jagged_concat: "nested_from_jagged (concat xs) (0 # running_sums (map length xs)) = xs"
proof (rule nth_equalityI)
  show "length (nested_from_jagged (concat xs) (0 # running_sums (map length xs))) = length xs"
    by (simp add: nested_from_jagged_def)
  fix i assume "i < length (nested_from_jagged (concat xs) (0 # running_sums (map length xs)))"
  then have i: "i < length xs" by (simp add: nested_from_jagged_def)
  have "(0 # running_sums (map length xs)) ! (i + 1) - (0 # running_sums (map length xs)) ! i = length (xs ! i)"
    using i offsets_nth[of "i + 1" "map length xs"] offsets_nth[of i "map length xs"]
    by (simp add: take_Suc_conv_app_nth del: nth_Cons_Suc)
  moreover have "(0 # running_sums (map length xs)) ! i = sum_list (map length (take i xs))"
    using i by (simp add: offsets_nth take_map)
  ultimately show "nested_from_jagged (concat xs) (0 # running_sums (map length xs)) ! i = xs ! i"
    using i take_drop_concat[OF i] by (simp add: nested_from_jagged_def)
qed

definition unpad_shapes :: "int list list \<Rightarrow> 'a list list \<Rightarrow> bool" where
  "unpad_shapes ms hs \<longleftrightarrow> hs \<noteq> [] \<and> list_all2 (\<lambda>m h. length m = length h) ms hs \<and> list_all binary ms"

lemma map2_lengths: "unpad_shapes ms hs \<Longrightarrow> map length (map2 selected ms hs) = map (nat \<circ> sum_list) ms"
  unfolding unpad_shapes_def
  by (intro nth_equalityI) (auto simp: list_all2_conv_all_nth list_all_length length_select_binary)

lemma unpad_input_rows:
  assumes "unpad_shapes ms hs"
  shows "unpad_input hs ms None = Inr \<lparr>up_values = concat (map2 selected ms hs), up_indices = nonzero (concat ms),
    up_cu_seqlens = 0 # running_sums (map length (map2 selected ms hs)),
    up_max_seqlen = Max (set (map length (map2 selected ms hs))), up_seqused = map (nat \<circ> sum_list) ms\<rparr>"
proof -
  have l2: "list_all2 (\<lambda>m h. length m = length h) ms hs" "ms \<noteq> []"
    using assms by (auto simp: unpad_shapes_def list_all2_lengthD)
  have "index_first_axis (concat hs) (nonzero (concat ms)) = Inr (concat (map2 selected ms hs))"
    using index_first_axis_nonzero[OF length_concat_rows[OF l2(1)]] selected_concat[OF l2(1)] by simp
  then show ?thesis using l2(2) map2_lengths[OF assms] by (simp add: unpad_input_def Let_def del: map_map)
qed

lemma nested_rows_unpadded:
  assumes "unpad_shapes ms hs" "list_all2 (\<lambda>m h. length m = length h) ms es"
  shows "nested_rows (nonzero (concat ms)) (0 # running_sums (map length (map2 selected ms hs))) es = Inr (map2 selected ms es)"
proof -
  have "unpad_shapes ms es" using assms by (auto simp: unpad_shapes_def list_all2_Nil2)
  then have "map length (map2 selected ms hs) = map length (map2 selected ms es)"
    using map2_lengths[OF assms(1)] map2_lengths by metis
  moreover have "index_first_axis (concat es) (nonzero (concat ms)) = Inr (concat (map2 selected ms es))"
    using index_first_axis_nonzero[OF length_concat_rows[OF assms(2)]] selected_concat[OF assms(2)] by simp
  ultimately show ?thesis by (simp only: nested_rows_def res_bind_Inr nested_from_jagged_concat)
qed

lemma rows_of_concat:
  assumes "list_all (\<lambda>r. length r = s) rows" "b < length rows"
  shows "take s (drop (b * s) (concat rows)) = rows ! b"
  using assms
proof (induction rows arbitrary: b)
  case (Cons r rows)
  then show ?case by (cases b) simp_all
qed simp

lemma length_concat_shaped: "list_all (\<lambda>r. length r = s) rows \<Longrightarrow> length (concat rows) = length rows * s"
  by (induction rows) simp_all

lemma pad_input_unpadded:
  assumes "unpad_shapes ms hs" "list_all (\<lambda>r. length r = s) hs" "n = length hs"
  shows "pad_input zero (concat (map2 selected ms hs)) (nonzero (concat ms)) n s = Inr (mat_map2 (blank zero) ms hs)"
proof -
  have l2: "list_all2 (\<lambda>m h. length m = length h) ms hs" using assms(1) by (simp add: unpad_shapes_def)
  let ?rows = "mat_map2 (blank zero) ms hs"
  have len: "length (concat ms) = n * s"
    using length_concat_rows[OF l2] length_concat_shaped[OF assms(2)] assms(3) by simp
  have sel: "concat (map2 selected ms hs) = selected (concat ms) (concat hs)" using selected_concat[OF l2] by simp
  have eq: "length (selected (concat ms) (concat hs)) = length (nonzero (concat ms))"
    using length_nonzero[OF length_concat_rows[OF l2]] by simp
  have "index_put_first_axis zero (concat (map2 selected ms hs)) (nonzero (concat ms)) (n * s) = Inr (concat ?rows)"
    unfolding index_put_first_axis_def sel using scatter_nonzero[OF length_concat_rows[OF l2], of "n * s" zero] len eq
    by (simp add: map2_row_concat[OF l2])
  moreover have "list_all (\<lambda>r. length r = s) ?rows" "length ?rows = n"
    using l2 assms(2,3) by (auto simp: mat_map2_def list_all2_conv_all_nth list_all_length)
  then have "map (\<lambda>b. take s (drop (b * s) (concat ?rows))) [0..<n] = ?rows"
    by (intro nth_equalityI) (simp_all add: rows_of_concat)
  ultimately show ?thesis by (simp add: pad_input_def)
qed


section \<open>The rows of the rollout\<close>

text \<open>The documented padding of a tokenizer with the padding token \<open>p\<close>; longer inputs are not cut.\<close>

definition hf_pad :: "int \<Rightarrow> tokenizer_pad" where
  "hf_pad p sd n tokens =
     (let fill = n - length tokens; used = replicate (length tokens) 1
      in Inr (case sd of
           Pad_Left \<Rightarrow> (replicate fill p @ tokens, replicate fill 0 @ used)
         | Pad_Right \<Rightarrow> (tokens @ replicate fill p, used @ replicate fill 0)))"

definition pads_as_documented :: "layout_config \<Rightarrow> int \<Rightarrow> bool" where
  "pads_as_documented cfg p \<longleftrightarrow> lc_pad_id cfg = Some p \<and>
     (\<forall>sd n tokens. tokens \<noteq> [] \<longrightarrow> lc_pad cfg sd n tokens = hf_pad p sd n tokens)"

definition fits :: "layout_config \<Rightarrow> 'i agent_output \<Rightarrow> bool" where
  "fits cfg out \<longleftrightarrow> ao_prompt_ids out \<noteq> [] \<and> length (ao_prompt_ids out) \<le> lc_prompt_length cfg \<and>
     length (ao_response_ids out) \<le> lc_response_length cfg \<and> length (ao_response_mask out) = length (ao_response_ids out) \<and>
     (\<forall>ps. ao_response_logprobs out = Some ps \<longrightarrow> length ps \<le> lc_response_length cfg) \<and>
     (\<forall>es. ao_routed_experts out = Some es \<longrightarrow> length es \<le> length (ao_prompt_ids out) + length (ao_response_ids out))"

definition pad_left :: "'a \<Rightarrow> nat \<Rightarrow> 'a list \<Rightarrow> 'a list" where
  "pad_left z n xs = replicate (n - length xs) z @ xs"

definition pad_right :: "'a \<Rightarrow> nat \<Rightarrow> 'a list \<Rightarrow> 'a list" where
  "pad_right z n xs = xs @ replicate (n - length xs) z"

definition attention_row :: "nat \<Rightarrow> nat \<Rightarrow> nat \<Rightarrow> nat \<Rightarrow> int list" where
  "attention_row P R p r = replicate (P - p) 0 @ replicate (p + r) 1 @ replicate (R - r) 0"

lemma length_pad [simp]: "length (pad_left z n xs) = max n (length xs)" "length (pad_right z n xs) = max n (length xs)"
  by (simp_all add: pad_left_def pad_right_def)

lemma length_attention_row [simp]: "p \<le> P \<Longrightarrow> r \<le> R \<Longrightarrow> length (attention_row P R p r) = P + R"
  by (simp add: attention_row_def)

lemma pad_token_ids_documented:
  assumes "pads_as_documented cfg p"
  shows "pad_token_ids (lc_pad cfg) (lc_pad_id cfg) tokens n Pad_Left = Inr (pad_left p n tokens, replicate (n - length tokens) 0 @ replicate (length tokens) 1)"
    "pad_token_ids (lc_pad cfg) (lc_pad_id cfg) tokens n Pad_Right = Inr (pad_right p n tokens, replicate (length tokens) 1 @ replicate (n - length tokens) 0)"
  using assms by (auto simp: pad_token_ids_def pads_as_documented_def hf_pad_def pad_left_def pad_right_def Let_def)

lemma map2_mult_ones: "map2 (*) xs (replicate (length xs) (1 :: int)) = xs"
  by (induction xs) simp_all

lemma map2_mult_zeros: "length xs = n \<Longrightarrow> map2 (*) xs (replicate n (0 :: int)) = replicate n 0"
  by (induction xs arbitrary: n) auto

lemma row_product_mask:
  assumes "length m = length r" "length r \<le> n"
  shows "row_product (pad_right p n m) (replicate (length r) 1 @ replicate (n - length r) 0) = Inr (pad_right 0 n m)"
  using assms map2_mult_ones[of m] by (simp add: row_product_def pad_right_def map2_mult_zeros)

lemma place_experts_fits:
  assumes "p \<le> P" "length es \<le> p + r" "r \<le> R"
  shows "place_experts zero P p (P + R) es = Inr (replicate (P - p) zero @ es @ replicate (p + R - length es) zero)"
proof -
  obtain d where P: "P = p + d" using assms(1) by (metis le_Suc_ex)
  have start: "int P - int p = int d" using P by simp
  have stop: "min (int d + int (length es)) (int (P + R)) = int (d + length es)" using assms P by simp
  have room: "\<not> int (P + R) < int (d + length es)" using assms P by simp
  have n: "nat (int (d + length es) - int d) = length es" "P + R - (d + length es) = p + R - length es" using P by simp_all
  show ?thesis unfolding place_experts_def Let_def start stop using P room n by simp
qed

definition placed_experts :: "layout_config \<Rightarrow> 'i agent_output \<Rightarrow> int list list \<Rightarrow> int list list" where
  "placed_experts cfg out es =
     (let p = length (ao_prompt_ids out); zero = replicate (width es) 0
      in replicate (lc_prompt_length cfg - p) zero @ es @ replicate (p + lc_response_length cfg - length es) zero)"

definition padded_row :: "layout_config \<Rightarrow> int \<Rightarrow> (int list \<Rightarrow> int list \<Rightarrow> rat) option \<Rightarrow> 'i agent_output \<Rightarrow> rat option \<Rightarrow> padded_output" where
  "padded_row cfg pad score out reward =
     (let P = lc_prompt_length cfg; R = lc_response_length cfg; p = length (ao_prompt_ids out); r = length (ao_response_ids out);
          am = attention_row P R p r
      in \<lparr>po_prompt_ids = pad_left pad P (ao_prompt_ids out), po_response_ids = pad_right pad R (ao_response_ids out),
          po_input_ids = pad_left pad P (ao_prompt_ids out) @ pad_right pad R (ao_response_ids out),
          po_position_ids = compute_position_id_with_mask am, po_response_mask = pad_right 0 R (ao_response_mask out),
          po_attention_mask = am, po_response_logprobs = map_option (pad_right 0 R) (ao_response_logprobs out),
          po_routed_experts = map_option (placed_experts cfg out) (ao_routed_experts out),
          po_reward_score = compute_score score out reward\<rparr>)"

lemma attention_row_split:
  "(replicate (P - p) 0 @ replicate p 1) @ replicate r 1 @ replicate (R - r) 0 = attention_row P R p r"
  by (simp add: attention_row_def replicate_add)

lemma postprocess_fits:
  assumes "pads_as_documented cfg pad" "fits cfg out"
  shows "agent_loop_postprocess cfg score out reward = Inr (padded_row cfg pad score out reward)"
proof -
  let ?P = "lc_prompt_length cfg" and ?R = "lc_response_length cfg"
  let ?p = "length (ao_prompt_ids out)" and ?r = "length (ao_response_ids out)"
  have f: "?p \<le> ?P" "?r \<le> ?R" "length (ao_response_mask out) = ?r" using assms(2) by (simp_all add: fits_def)
  have rp: "row_product (pad_right pad ?R (ao_response_mask out)) (replicate ?r 1 @ replicate (?R - ?r) 0) =
      Inr (pad_right 0 ?R (ao_response_mask out))"
    using f by (intro row_product_mask) simp_all
  have am: "(replicate (?P - ?p) 0 @ replicate ?p 1) @ replicate ?r 1 @ replicate (?R - ?r) 0 = attention_row ?P ?R ?p ?r"
    by (rule attention_row_split)
  have ex: "place_experts (replicate (width es) 0) ?P ?p (?P + ?R) es =
      Inr (placed_experts cfg out es)"
    if "ao_routed_experts out = Some es" for es
    using assms(2) f that unfolding placed_experts_def Let_def by (intro place_experts_fits) (auto simp: fits_def)
  have lens: "length (pad_left pad ?P (ao_prompt_ids out)) = ?P"
      "length (pad_left pad ?P (ao_prompt_ids out) @ pad_right pad ?R (ao_response_ids out)) = ?P + ?R"
    using f by simp_all
  have lp: "(\<lambda>ps. ps @ replicate (?R - length ps) 0) = pad_right 0 ?R" by (simp add: pad_right_def fun_eq_iff)
  show ?thesis
    unfolding agent_loop_postprocess_def pad_token_ids_documented[OF assms(1)] res_bind_Inr prod.case rp am lp
    by (cases "ao_routed_experts out")
      (simp_all add: padded_row_def Let_def lens ex del: length_append length_pad)
qed


text \<open>The agents of one worker, with the rewards they set themselves: their outputs are padded and stacked.\<close>

definition worker_rows ::
  "layout_config \<Rightarrow> (int list \<Rightarrow> int list \<Rightarrow> rat) option \<Rightarrow> ('i agent_output \<times> rat option) list \<Rightarrow> worker_batch result" where
  "worker_rows cfg score outs =
     res_bind (res_map (\<lambda>(out, reward). agent_loop_postprocess cfg score out reward) outs) postprocess_tensors"

definition same_presence :: "'a option list \<Rightarrow> bool" where
  "same_presence xs \<longleftrightarrow> (\<forall>x \<in> set xs. x = None) \<or> None \<notin> set xs"

definition rollout_ok :: "layout_config \<Rightarrow> int \<Rightarrow> ('i agent_output \<times> rat option) list \<Rightarrow> bool" where
  "rollout_ok cfg pad outs \<longleftrightarrow> pads_as_documented cfg pad \<and> outs \<noteq> [] \<and> (\<forall>(out, reward) \<in> set outs. fits cfg out) \<and>
     same_presence (map (ao_response_logprobs \<circ> fst) outs) \<and> same_presence (map (ao_routed_experts \<circ> fst) outs) \<and>
     0 < lc_response_length cfg"

definition score_row :: "nat \<Rightarrow> nat \<Rightarrow> rat \<Rightarrow> rat list" where
  "score_row R r s = (replicate R 0)[(if r = 0 then R - 1 else r - 1) := s]"

lemma torch_cat_rows: "rows \<noteq> [] \<Longrightarrow> \<forall>r \<in> set rows. length r = n \<Longrightarrow> torch_cat rows = Inr rows"
  by (cases rows) (auto simp: torch_cat_def width_def)

lemma same_presence_by:
  "\<forall>x \<in> set ys. (f x = None) = (g x = None) \<Longrightarrow> same_presence (map f ys) \<longleftrightarrow> same_presence (map g ys)"
  by (auto simp: same_presence_def) (metis image_eqI)+

lemma cat_optional_rows:
  assumes "rows \<noteq> []" "same_presence rows" "\<forall>r \<in> set rows. \<forall>x. r = Some x \<longrightarrow> length x = n"
  shows "cat_optional rows = Inr (if None \<in> set rows then None else Some (map the rows))"
proof (cases "hd rows")
  case None
  then show ?thesis using assms(1) by (cases rows) (auto simp: cat_optional_def)
next
  case (Some y)
  then have "None \<notin> set rows" using assms(1,2) by (cases rows) (auto simp: same_presence_def)
  moreover have "torch_cat (map the rows) = Inr (map the rows)"
    using assms(1,3) \<open>None \<notin> set rows\<close> by (intro torch_cat_rows[where n = n]) (auto, metis option.collapse)
  ultimately show ?thesis using Some assms(1) by (cases rows) (auto simp: cat_optional_def)
qed

lemma sum_attention_tail: "p \<le> P \<Longrightarrow> sum_list (drop P (attention_row P R p r)) = int r"
proof -
  assume "p \<le> P"
  then have "drop P (attention_row P R p r) = replicate r 1 @ replicate (R - r) 0"
    by (simp add: attention_row_def replicate_add)
  then show ?thesis by (simp add: sum_list_replicate)
qed

lemma place_score_row:
  assumes "length msk = R" "p \<le> P" "r \<le> R" "0 < R"
  shows "place_score msk (attention_row P R p r) P s = Inr (score_row R r s)"
  using assms by (simp add: place_score_def sum_attention_tail score_row_def Let_def nat_diff_distrib)

lemma fits_experts:
  "fits cfg out \<Longrightarrow> ao_routed_experts out = Some es \<Longrightarrow>
    lc_prompt_length cfg - length (ao_prompt_ids out) + (length es + (length (ao_prompt_ids out) + lc_response_length cfg - length es)) =
    lc_prompt_length cfg + lc_response_length cfg"
  by (auto simp: fits_def)

lemma worker_rows_fits:
  assumes "rollout_ok cfg pad outs"
  obtains wb where "worker_rows cfg score outs = Inr wb"
    "wb_prompts wb = map (\<lambda>(out, _). pad_left pad (lc_prompt_length cfg) (ao_prompt_ids out)) outs"
    "wb_responses wb = map (\<lambda>(out, _). pad_right pad (lc_response_length cfg) (ao_response_ids out)) outs"
    "wb_response_mask wb = map (\<lambda>(out, _). pad_right 0 (lc_response_length cfg) (ao_response_mask out)) outs"
    "wb_input_ids wb = map2 (@) (wb_prompts wb) (wb_responses wb)"
    "wb_attention_mask wb = map (\<lambda>(out, _). attention_row (lc_prompt_length cfg) (lc_response_length cfg)
       (length (ao_prompt_ids out)) (length (ao_response_ids out))) outs"
    "wb_position_ids wb = map compute_position_id_with_mask (wb_attention_mask wb)"
    "wb_rm_scores wb = (if None \<in> set (map (\<lambda>(out, reward). compute_score score out reward) outs) then None
       else Some (map (\<lambda>(out, reward). score_row (lc_response_length cfg) (length (ao_response_ids out))
         (the (compute_score score out reward))) outs))"
    "wb_routed_experts wb = (if None \<in> set (map (ao_routed_experts \<circ> fst) outs) then None
       else Some (map (\<lambda>(out, _). placed_experts cfg out (the (ao_routed_experts out))) outs))"
proof -
  let ?P = "lc_prompt_length cfg" and ?R = "lc_response_length cfg"
  have ok: "pads_as_documented cfg pad" "outs \<noteq> []" "0 < ?R" using assms by (simp_all add: rollout_ok_def)
  have f: "fits cfg (fst x)" if "x \<in> set outs" for x using assms that by (auto simp: rollout_ok_def)
  let ?row = "\<lambda>x. padded_row cfg pad score (fst x) (snd x)"
  let ?pos = "map ?row outs"
  have g: "length (ao_prompt_ids (fst x)) \<le> ?P" "length (ao_response_ids (fst x)) \<le> ?R" 
      "length (ao_response_mask (fst x)) = length (ao_response_ids (fst x))" if "x \<in> set outs" for x
    using f[OF that] by (simp_all add: fits_def)
  have gather: "res_map (\<lambda>(out, reward). agent_loop_postprocess cfg score out reward) outs = Inr ?pos"
    by (rule res_map_all_Inr) (auto simp: postprocess_fits[OF ok(1)] dest: f)
  have cats: "torch_cat (map po_prompt_ids ?pos) = Inr (map po_prompt_ids ?pos)"
      "torch_cat (map po_response_ids ?pos) = Inr (map po_response_ids ?pos)"
      "torch_cat (map po_response_mask ?pos) = Inr (map po_response_mask ?pos)"
      "torch_cat (map po_attention_mask ?pos) = Inr (map po_attention_mask ?pos)"
      "torch_cat (map po_input_ids ?pos) = Inr (map po_input_ids ?pos)"
      "torch_cat (map po_position_ids ?pos) = Inr (map po_position_ids ?pos)"
    using ok(2) g
    by (intro torch_cat_rows[where n = ?P] torch_cat_rows[where n = ?R] torch_cat_rows[where n = "?P + ?R"];
        auto simp: padded_row_def Let_def compute_position_id_with_mask_def)+
  have lp: "cat_optional (map po_response_logprobs ?pos) =
      Inr (if None \<in> set (map po_response_logprobs ?pos) then None else Some (map the (map po_response_logprobs ?pos)))"
  proof (rule cat_optional_rows[where n = ?R])
    show "same_presence (map po_response_logprobs ?pos)"
      using assms unfolding map_map
      by (subst same_presence_by[where g = "ao_response_logprobs \<circ> fst"]) (auto simp: padded_row_def Let_def rollout_ok_def)
  qed (use ok(2) f in \<open>auto simp: padded_row_def Let_def fits_def\<close>)
  have ex: "cat_optional (map po_routed_experts ?pos) =
      Inr (if None \<in> set (map po_routed_experts ?pos) then None else Some (map the (map po_routed_experts ?pos)))"
  proof (rule cat_optional_rows[where n = "?P + ?R"])
    show "same_presence (map po_routed_experts ?pos)"
      using assms unfolding map_map
      by (subst same_presence_by[where g = "ao_routed_experts \<circ> fst"]) (auto simp: padded_row_def Let_def rollout_ok_def)
    show "\<forall>r \<in> set (map po_routed_experts ?pos). \<forall>x. r = Some x \<longrightarrow> length x = ?P + ?R"
      using fits_experts[OF f] by (auto simp: padded_row_def placed_experts_def Let_def)
  qed (use ok(2) in simp)
  have scores: "map po_reward_score ?pos = map (\<lambda>(out, reward). compute_score score out reward) outs"
    by (auto simp: padded_row_def Let_def)
  have put: "res_map (\<lambda>((m, a), s). place_score m a (width (map po_prompt_ids ?pos)) (the s))
      (zip (zip (map po_response_mask ?pos) (map po_attention_mask ?pos)) (map po_reward_score ?pos)) =
      Inr (map (\<lambda>x. score_row ?R (length (ao_response_ids (fst x))) (the (compute_score score (fst x) (snd x)))) outs)"
  proof -
    have w: "width (map po_prompt_ids ?pos) = ?P"
      using ok(2) g by (cases outs) (auto simp: width_def padded_row_def Let_def)
    have z: "zip (zip (map po_response_mask ?pos) (map po_attention_mask ?pos)) (map po_reward_score ?pos) =
        map (\<lambda>x. ((po_response_mask (?row x), po_attention_mask (?row x)), po_reward_score (?row x))) outs"
      by (induction outs) simp_all
    show ?thesis unfolding w z res_map_Inr_iff
      using g ok(3) by (auto simp: padded_row_def Let_def place_score_row)
  qed
  let ?ex = "if None \<in> set (map po_routed_experts ?pos) then None else Some (map the (map po_routed_experts ?pos))"
  let ?rm = "if None \<in> set (map (\<lambda>(out, reward). compute_score score out reward) outs) then None
       else Some (map (\<lambda>x. score_row ?R (length (ao_response_ids (fst x))) (the (compute_score score (fst x) (snd x)))) outs)"
  have rm: "(if None \<in> set (map (\<lambda>(out, reward). compute_score score out reward) outs) then Inr None
      else res_bind (res_map (\<lambda>((m, a), s). place_score m a (width (map po_prompt_ids ?pos)) (the s))
        (zip (zip (map po_response_mask ?pos) (map po_attention_mask ?pos)) (map (\<lambda>(out, reward). compute_score score out reward) outs)))
        (\<lambda>rows. Inr (Some rows))) = Inr ?rm"
    using put unfolding scores by simp
  have "\<exists>l. worker_rows cfg score outs = Inr \<lparr>wb_prompts = map po_prompt_ids ?pos, wb_responses = map po_response_ids ?pos,
      wb_response_mask = map po_response_mask ?pos, wb_input_ids = map po_input_ids ?pos,
      wb_attention_mask = map po_attention_mask ?pos, wb_position_ids = map po_position_ids ?pos,
      wb_rollout_log_probs = l, wb_routed_experts = ?ex, wb_rm_scores = ?rm\<rparr>"
    unfolding worker_rows_def gather res_bind_Inr postprocess_tensors_def cats lp ex scores rm by blast
  then obtain wb where wb: "worker_rows cfg score outs = Inr wb" "wb_prompts wb = map po_prompt_ids ?pos"
      "wb_responses wb = map po_response_ids ?pos" "wb_response_mask wb = map po_response_mask ?pos"
      "wb_input_ids wb = map po_input_ids ?pos" "wb_attention_mask wb = map po_attention_mask ?pos"
      "wb_position_ids wb = map po_position_ids ?pos" "wb_rm_scores wb = ?rm" "wb_routed_experts wb = ?ex"
    by (elim exE) (erule that; simp only: worker_batch.simps)
  show thesis
  proof (rule that[OF wb(1)])
    show "wb_input_ids wb = map2 (@) (wb_prompts wb) (wb_responses wb)"
      unfolding wb by (induction outs) (simp_all add: padded_row_def Let_def)
    show "wb_routed_experts wb = (if None \<in> set (map (ao_routed_experts \<circ> fst) outs) then None
       else Some (map (\<lambda>(out, _). placed_experts cfg out (the (ao_routed_experts out))) outs))"
    proof -
      have "None \<in> set (map po_routed_experts ?pos) \<longleftrightarrow> None \<in> set (map (ao_routed_experts \<circ> fst) outs)"
        by (auto simp: padded_row_def Let_def image_iff) (metis fst_conv)+
      moreover have "map the (map po_routed_experts ?pos) = map (\<lambda>(out, _). placed_experts cfg out (the (ao_routed_experts out))) outs"
        if "None \<notin> set (map (ao_routed_experts \<circ> fst) outs)"
        using that by (auto simp: padded_row_def Let_def image_iff option.map_sel)
      ultimately show ?thesis unfolding wb by auto
    qed
  qed (unfold wb, auto simp: padded_row_def Let_def)
qed


section \<open>Rows and flat values\<close>

lemma selected_replicate [simp]:
  "selected (replicate n 0) xs = []" "length xs = n \<Longrightarrow> selected (replicate n 1) xs = xs"
proof -
  show "selected (replicate n 0) xs = []" by (auto simp: selected_def filter_empty_conv in_set_zip)
  show "selected (replicate n 1) xs = xs" if "length xs = n"
  proof -
    have "filter (\<lambda>(x, m). m \<noteq> 0) (zip xs (replicate n (1 :: int))) = zip xs (replicate n 1)"
      by (rule filter_True) (auto simp: in_set_zip)
    with that show ?thesis by (simp add: selected_def)
  qed
qed

lemma select_attention_row:
  assumes "length xs = P + R" "p \<le> P" "r \<le> R"
  shows "selected (attention_row P R p r) xs = take (p + r) (drop (P - p) xs)"
proof -
  let ?a = "take (P - p) xs" and ?b = "take (p + r) (drop (P - p) xs)" and ?c = "drop (p + r) (drop (P - p) xs)"
  have xs: "?a @ ?b @ ?c = xs" by (metis append_take_drop_id)
  have "selected (replicate (P - p) 0 @ replicate (p + r) 1 @ replicate (R - r) 0) (?a @ ?b @ ?c) = ?b"
    using assms by (subst selected_append, simp, subst selected_append, simp_all)
  then show ?thesis unfolding attention_row_def xs .
qed

lemma select_padded_tokens:
  assumes "length prompt = p" "length resp = r" "p \<le> P" "r \<le> R"
  shows "selected (attention_row P R p r) (pad_left z P prompt @ pad_right z' R resp) = prompt @ resp"
proof -
  have "length (pad_left z P prompt @ pad_right z' R resp) = P + R" using assms by simp
  then show ?thesis using assms by (simp add: select_attention_row pad_left_def pad_right_def)
qed

lemma positions_attention_row:
  assumes "p \<le> P" "r \<le> R"
  shows "selected (attention_row P R p r) (compute_position_id_with_mask (attention_row P R p r)) = map int [0..<p + r]"
proof -
  let ?am = "attention_row P R p r"
  have l: "length (compute_position_id_with_mask ?am) = P + R" using assms by (simp add: compute_position_id_with_mask_def)
  have s: "sum_list (take (Suc (P - p + j)) ?am) = int (j + 1)" if "j < p + r" for j
  proof -
    have "take (Suc (P - p + j)) ?am = replicate (P - p) 0 @ replicate (Suc j) 1"
      using that by (simp add: attention_row_def min_def del: replicate_Suc)
    then show ?thesis by (simp add: sum_list_replicate)
  qed
  show ?thesis unfolding select_attention_row[OF l assms]
  proof (rule nth_equalityI)
    fix j assume "j < length (take (p + r) (drop (P - p) (compute_position_id_with_mask ?am)))"
    then have j: "j < p + r" by simp
    then have "P - p + j < length ?am" using assms by simp
    then show "take (p + r) (drop (P - p) (compute_position_id_with_mask ?am)) ! j = map int [0..<p + r] ! j"
      using j s[OF j] assms by (simp add: compute_position_id_with_mask_def)
  qed (use l assms in simp)
qed

lemma binary_attention_row: "binary (attention_row P R p r)"
  by (auto simp: binary_def attention_row_def list_all_iff)

lemma sum_attention_head: "p \<le> P \<Longrightarrow> sum_list (take P (attention_row P R p r)) = int p"
proof -
  assume "p \<le> P"
  then have "take P (attention_row P R p r) = replicate (P - p) 0 @ replicate p 1"
    by (simp add: attention_row_def replicate_add)
  then show ?thesis by (simp add: sum_list_replicate)
qed

lemma slice_of_row:
  assumes "i < length vs" "b \<le> length (vs ! i)"
  shows "slice (sum_list (map length (take i vs)) + a) (sum_list (map length (take i vs)) + b) (concat vs) = slice a b (vs ! i)"
  using assms
proof (induction vs arbitrary: i)
  case (Cons v vs)
  then show ?case by (cases i) (auto simp: slice_def drop_take[symmetric])
qed simp

text \<open>The model's output for each response token: it is computed at the position before the token.\<close>

definition response_values :: "nat \<Rightarrow> nat \<Rightarrow> 'a list \<Rightarrow> 'a list" where
  "response_values p r v = map (\<lambda>t. v ! (p + t - 1)) [0..<r]"

lemma slice_response_values:
  assumes "length v = p + r" "0 < p"
  shows "slice (p - 1) (p + r - 1) v = response_values p r v"
  using assms by (intro nth_equalityI) (auto simp: slice_def response_values_def)

lemma running_sums_nth: "i < length ls \<Longrightarrow> running_sums ls ! i = sum_list (take i ls) + ls ! i"
  by (simp add: running_sums_def take_Suc_conv_app_nth)

lemma slice_response:
  assumes "i < length vs" "length (vs ! i) = p + r" "0 < p"
  shows "slice (running_sums (map length vs) ! i - r - 1) (running_sums (map length vs) ! i - 1) (concat vs) = response_values p r (vs ! i)"
proof -
  let ?base = "sum_list (map length (take i vs))"
  have "running_sums (map length vs) ! i = ?base + (p + r)" using assms by (simp add: running_sums_nth take_map)
  then have "running_sums (map length vs) ! i - r - 1 = ?base + (p - 1)" "running_sums (map length vs) ! i - 1 = ?base + (p + r - 1)"
    using assms(3) by simp_all
  then show ?thesis using slice_of_row[OF assms(1), of "p + r - 1" "p - 1"] slice_response_values assms by simp
qed

lemma last_running_sums: "xs \<noteq> [] \<Longrightarrow> last (running_sums xs) = sum_list xs"
  by (simp add: last_conv_nth running_sums_def)


lemma list_all2_mapI: "(\<And>x. x \<in> set xs \<Longrightarrow> Q (f x) (g x)) \<Longrightarrow> list_all2 Q (map f xs) (map g xs)"
  by (auto simp: list_all2_conv_all_nth)

definition prompt_len :: "'i agent_output \<times> 'r \<Rightarrow> nat" where
  "prompt_len x = length (ao_prompt_ids (fst x))"

definition response_len :: "'i agent_output \<times> 'r \<Rightarrow> nat" where
  "response_len x = length (ao_response_ids (fst x))"

lemma rollout_lens:
  assumes "rollout_ok cfg pad outs" "x \<in> set outs"
  shows "0 < prompt_len x" "prompt_len x \<le> lc_prompt_length cfg" "response_len x \<le> lc_response_length cfg"
  using assms by (auto simp: rollout_ok_def fits_def prompt_len_def response_len_def)

lemma attention_of_rollout:
  assumes "rollout_ok cfg pad outs" "worker_rows cfg score outs = Inr wb"
  shows "wb_attention_mask wb = map (\<lambda>x. attention_row (lc_prompt_length cfg) (lc_response_length cfg) (prompt_len x) (response_len x)) outs"
    "width (wb_prompts wb) = lc_prompt_length cfg" "width (wb_responses wb) = lc_response_length cfg"
proof -
  obtain x xs where outs: "outs = x # xs" using assms(1) by (cases outs) (auto simp: rollout_ok_def)
  then have "prompt_len x \<le> lc_prompt_length cfg" "response_len x \<le> lc_response_length cfg"
    using rollout_lens[OF assms(1), of x] by simp_all
  moreover obtain wb' where "worker_rows cfg score outs = Inr wb'"
    "wb_prompts wb' = map (\<lambda>(out, _). pad_left pad (lc_prompt_length cfg) (ao_prompt_ids out)) outs"
    "wb_responses wb' = map (\<lambda>(out, _). pad_right pad (lc_response_length cfg) (ao_response_ids out)) outs"
    "wb_attention_mask wb' = map (\<lambda>(out, _). attention_row (lc_prompt_length cfg) (lc_response_length cfg)
       (length (ao_prompt_ids out)) (length (ao_response_ids out))) outs"
    by (rule worker_rows_fits[OF assms(1), of score])
  ultimately show "wb_attention_mask wb = map (\<lambda>x. attention_row (lc_prompt_length cfg) (lc_response_length cfg) (prompt_len x) (response_len x)) outs"
    "width (wb_prompts wb) = lc_prompt_length cfg" "width (wb_responses wb) = lc_response_length cfg"
    using assms(2) outs by (simp_all add: prompt_len_def response_len_def width_def case_prod_beta)
qed

lemma py_slice_nonneg: "py_slice (Some (int a)) (Some (int b)) xs = slice a b xs"
proof (cases "a \<le> length xs")
  case True
  then show ?thesis by (simp add: py_slice_def slice_bound_def slice_def Let_def min_def)
next
  case False
  then have "drop (length xs) (take b xs) = []" "drop a (take b xs) = []" by simp_all
  with False show ?thesis by (simp add: py_slice_def slice_bound_def slice_def Let_def min_def)
qed

lemma no_padding_rows:
  assumes "token_counts prompts responses am n = Inr (pls, rls, R)" "length pls = length vs" "length rls = length vs" "vs \<noteq> []"
    "\<And>i. i < length vs \<Longrightarrow> length (vs ! i) = pls ! i + rls ! i \<and> 0 < pls ! i \<and> rls ! i \<le> R"
  shows "no_padding_2_padding zero (concat vs) prompts responses am n =
    Inr (map (\<lambda>i. pad_right zero R (response_values (pls ! i) (rls ! i) (vs ! i))) [0..<length vs])"
proof -
  have lens: "map2 (+) pls rls = map length vs" using assms(2,3,5) by (intro nth_equalityI) simp_all
  have "last (running_sums (map length vs)) = length (concat vs)" using assms(4) by (simp add: last_running_sums length_concat)
  moreover have "0 \<notin> set pls" using assms(2,5) by (metis in_set_conv_nth less_numeral_extra(3))
  moreover have row: "take R (slice (running_sums (map length vs) ! i - rls ! i - 1) (running_sums (map length vs) ! i - 1) (concat vs) @ replicate (R - rls ! i) zero) =
      pad_right zero R (response_values (pls ! i) (rls ! i) (vs ! i))" if i: "i < length vs" for i
    using slice_response[OF i, of "pls ! i" "rls ! i"] assms(5)[OF i] by (simp only:) (simp add: pad_right_def response_values_def)
  then have "map2 (\<lambda>resp_len seq_offset. take R (slice (seq_offset - resp_len - 1) (seq_offset - 1) (concat vs) @ replicate (R - resp_len) zero))
      rls (running_sums (map length vs)) = map (\<lambda>i. pad_right zero R (response_values (pls ! i) (rls ! i) (vs ! i))) [0..<length vs]"
    using assms(3) by (intro nth_equalityI) (simp_all only: length_map length_zip length_running_sums length_upt nth_map nth_zip nth_upt prod.case min.idem diff_zero add_0)
  ultimately show ?thesis using assms(2-4) by (auto simp: no_padding_2_padding_def assms(1) lens Let_def)
qed

lemma padded_counts:
  assumes "rollout_ok cfg pad outs" "worker_rows cfg score outs = Inr wb"
  shows "token_counts (Padded (wb_prompts wb)) (Padded (wb_responses wb)) (Some (Padded (wb_attention_mask wb))) n =
    Inr (map prompt_len outs, map response_len outs, lc_response_length cfg)"
  using rollout_lens[OF assms(1)]
  by (auto simp: token_counts_def attention_of_rollout[OF assms] sum_attention_head sum_attention_tail)

section \<open>Properties\<close>

text \<open>
  Removing padding is exact: for a 0/1 mask the unpadded values, cut at the cumulative lengths, are the
  selected elements of each row, and \<open>pad_input\<close> puts every one back where it was and zero elsewhere.
\<close>

theorem unpad_pad_roundtrip:
  assumes "hidden \<noteq> []" "shaped batch seqlen hidden" "shaped batch seqlen msk" "list_all binary msk"
  shows "\<exists>u. unpad_input hidden msk None = Inr u \<and>
    nested_from_jagged (up_values u) (up_cu_seqlens u) = map2 selected msk hidden \<and>
    pad_input zero (up_values u) (up_indices u) batch seqlen = Inr (mat_map2 (\<lambda>k x. if k = 0 then zero else x) msk hidden)"
proof -
  have us: "unpad_shapes msk hidden"
    using assms by (auto simp: unpad_shapes_def shaped_def list_all2_conv_all_nth list_all_length)
  have "nested_from_jagged (concat (map2 selected msk hidden)) (0 # running_sums (map length (map2 selected msk hidden))) =
      map2 selected msk hidden" by (rule nested_from_jagged_concat)
  moreover have "pad_input zero (concat (map2 selected msk hidden)) (nonzero (concat msk)) batch seqlen =
      Inr (mat_map2 (\<lambda>k x. if k = 0 then zero else x) msk hidden)"
    using pad_input_unpadded[OF us] assms(2) by (simp add: shaped_def blank_def[abs_def])
  ultimately show ?thesis using unpad_input_rows[OF us] by simp
qed

theorem unpad_pad_roundtrip_witness:
  "\<exists>u. unpad_input [[7, 8, 9], [4, 5, 6 :: nat]] [[0, 1, 1], [1, 0, 0]] None = Inr u \<and>
    pad_input 0 (up_values u) (up_indices u) 2 3 = Inr [[0, 8, 9], [4, 0, 0]]"
  using unpad_pad_roundtrip[of "[[7, 8, 9], [4, 5, 6 :: nat]]" 2 3 "[[0, 1, 1], [1, 0, 0]]", where zero = 0]
  by (auto simp: shaped_def binary_def mat_map2_def)

text \<open>
  C28: from the rollout to the model: the padded batch of a worker, converted by \<open>left_right_2_no_padding\<close>, has in each
  nested sequence exactly the prompt followed by the response of the agent, at the positions 0, 1, 2, ..., whatever
  the padding token is.
\<close>

theorem rollout_batch_unpads:
  assumes "rollout_ok cfg pad outs" "worker_rows cfg score outs = Inr wb"
  shows "\<exists>u. left_right_2_no_padding \<lparr>pd_input_ids = Some (wb_input_ids wb), pd_attention_mask = Some (wb_attention_mask wb),
      pd_response_mask = Some (wb_response_mask wb), pd_position_ids = Some (Text_Positions (wb_position_ids wb)),
      pd_routed_experts = wb_routed_experts wb, pd_teacher_logprobs = None, pd_teacher_ids = None\<rparr> = Inr u \<and>
    ud_input_ids u = map (\<lambda>(out, _). ao_prompt_ids out @ ao_response_ids out) outs \<and>
    ud_position_ids u = Text_Positions (map (\<lambda>(out, _). map int [0..<length (ao_prompt_ids out) + length (ao_response_ids out)]) outs) \<and>
    ud_max_response_len u = lc_response_length cfg \<and>
    ud_routed_experts u = (if None \<in> set (map (ao_routed_experts \<circ> fst) outs) then None
      else Some (map (\<lambda>(out, _). let es = the (ao_routed_experts out) in
        pad_right (replicate (width es) 0) (length (ao_prompt_ids out) + length (ao_response_ids out)) es) outs))"
proof -
  let ?P = "lc_prompt_length cfg" and ?R = "lc_response_length cfg"
  let ?am = "\<lambda>x. attention_row ?P ?R (prompt_len x) (response_len x)"
  let ?ids = "\<lambda>x. pad_left pad ?P (ao_prompt_ids (fst x)) @ pad_right pad ?R (ao_response_ids (fst x))"
  obtain wb' where wb': "worker_rows cfg score outs = Inr wb'"
    "wb_prompts wb' = map (\<lambda>(out, _). pad_left pad ?P (ao_prompt_ids out)) outs"
    "wb_responses wb' = map (\<lambda>(out, _). pad_right pad ?R (ao_response_ids out)) outs"
    "wb_response_mask wb' = map (\<lambda>(out, _). pad_right 0 ?R (ao_response_mask out)) outs"
    "wb_input_ids wb' = map2 (@) (wb_prompts wb') (wb_responses wb')"
    "wb_position_ids wb' = map compute_position_id_with_mask (wb_attention_mask wb')"
    "wb_routed_experts wb' = (if None \<in> set (map (ao_routed_experts \<circ> fst) outs) then None
       else Some (map (\<lambda>(out, _). placed_experts cfg out (the (ao_routed_experts out))) outs))"
    by (rule worker_rows_fits[OF assms(1), of score])
  have wb: "wb = wb'" using assms(2) wb'(1) by simp
  have am: "wb_attention_mask wb = map ?am outs" using attention_of_rollout[OF assms] by simp
  have ids: "wb_input_ids wb = map ?ids outs"
    unfolding wb wb' by (induction outs) auto
  have ne: "outs \<noteq> []" using assms(1) by (simp add: rollout_ok_def)
  note lens = rollout_lens[OF assms(1)]
  have us: "unpad_shapes (map ?am outs) (map ?ids outs)"
    unfolding unpad_shapes_def using ne lens
    by (auto intro!: list_all2_mapI simp: binary_attention_row list_all_iff prompt_len_def response_len_def)
  have sel: "map2 selected (map ?am outs) (map ?ids outs) = map (\<lambda>(out, _). ao_prompt_ids out @ ao_response_ids out) outs"
    using lens by (induction outs) (auto simp: select_padded_tokens prompt_len_def response_len_def)
  have pos: "map2 selected (map ?am outs) (map compute_position_id_with_mask (map ?am outs)) =
      map (\<lambda>(out, _). map int [0..<length (ao_prompt_ids out) + length (ao_response_ids out)]) outs"
    using lens by (induction outs) (auto simp: positions_attention_row prompt_len_def response_len_def)
  let ?none = "None \<in> set (map (ao_routed_experts \<circ> fst) outs)"
  let ?placed = "\<lambda>x. placed_experts cfg (fst x) (the (ao_routed_experts (fst x)))"
  let ?kept = "\<lambda>(out, _). let es = the (ao_routed_experts out) in
        pad_right (replicate (width es) 0) (length (ao_prompt_ids out) + length (ao_response_ids out)) es"
  have ex: "nested_rows (nonzero (concat (map ?am outs))) (0 # running_sums (map length (map2 selected (map ?am outs) (map ?ids outs))))
      (map ?placed outs) = Inr (map ?kept outs)" if "\<not> ?none"
  proof -
    have es: "length (?placed x) = ?P + ?R \<and> selected (?am x) (?placed x) = ?kept x" if xin: "x \<in> set outs" for x
    proof -
      obtain es where e: "ao_routed_experts (fst x) = Some es" using \<open>\<not> ?none\<close> xin by (force simp: image_iff)
      have f: "fits cfg (fst x)" using assms(1) xin by (auto simp: rollout_ok_def)
      have "length (?placed x) = ?P + ?R" using fits_experts[OF f e] e by (simp add: placed_experts_def Let_def)
      moreover have "length es \<le> prompt_len x + response_len x" using f e by (simp add: fits_def prompt_len_def response_len_def)
      ultimately show ?thesis using lens[OF xin] e
        by (cases x) (simp add: select_attention_row placed_experts_def pad_right_def Let_def prompt_len_def response_len_def)
    qed
    then have l2: "list_all2 (\<lambda>m h. length m = length h) (map ?am outs) (map ?placed outs)"
      using lens by (intro list_all2_mapI) auto
    have "map2 selected (map ?am outs) (map ?placed outs) = map ?kept outs"
      using es by (induction outs) auto
    with nested_rows_unpadded[OF us l2] show ?thesis by (simp only:)
  qed
  have w: "width (map (\<lambda>(out, _). pad_right 0 ?R (ao_response_mask out)) outs) = ?R"
    using ne assms(1) by (cases outs) (auto simp: width_def rollout_ok_def fits_def)
  have experts: "wb_routed_experts wb = (if ?none then None else Some (map ?placed outs))"
    unfolding wb wb' by (simp add: case_prod_beta)
  show ?thesis
    unfolding left_right_2_no_padding_def padded_data.simps required_def option.case res_bind_Inr am ids
      wb'(6)[folded wb, unfolded am] unpad_input_rows[OF us] Let_def positions.case pos experts unpadded.simps sel nested_from_jagged_concat
    using ex[unfolded sel] w wb'(4) by (cases ?none) (simp_all add: wb Let_def del: map_map)
qed

text \<open>
  C29: from the model back to the padded batch: with one value per token of the flat sequences,
  \<open>no_padding_2_padding\<close> gives every response token the value computed at the position before it and zero to the padding.
\<close>

theorem log_probs_aligned:
  assumes "rollout_ok cfg pad outs" "worker_rows cfg score outs = Inr wb"
    "list_all2 (\<lambda>v (out, _). length v = length (ao_prompt_ids out) + length (ao_response_ids out)) vs outs"
  shows "no_padding_2_padding zero (concat vs) (Padded (wb_prompts wb)) (Padded (wb_responses wb))
      (Some (Padded (wb_attention_mask wb))) (Some n) =
    Inr (map2 (\<lambda>v (out, _). map (\<lambda>t. v ! (length (ao_prompt_ids out) + t - 1)) [0..<length (ao_response_ids out)] @
      replicate (lc_response_length cfg - length (ao_response_ids out)) zero) vs outs)"
proof -
  have len: "length vs = length outs" using assms(3) by (simp add: list_all2_lengthD)
  have row: "length (vs ! i) = prompt_len (outs ! i) + response_len (outs ! i)" if "i < length outs" for i
    using list_all2_nthD2[OF assms(3) that] by (simp add: prompt_len_def response_len_def case_prod_beta)
  have "outs \<noteq> []" using assms(1) by (simp add: rollout_ok_def)
  then have "no_padding_2_padding zero (concat vs) (Padded (wb_prompts wb)) (Padded (wb_responses wb)) (Some (Padded (wb_attention_mask wb))) (Some n) =
      Inr (map (\<lambda>i. pad_right zero (lc_response_length cfg) (response_values (map prompt_len outs ! i) (map response_len outs ! i) (vs ! i))) [0..<length vs])"
    using len row rollout_lens[OF assms(1)] by (intro no_padding_rows[OF padded_counts[OF assms(1,2)]]) auto
  also have "map (\<lambda>i. pad_right zero (lc_response_length cfg) (response_values (map prompt_len outs ! i) (map response_len outs ! i) (vs ! i))) [0..<length vs] =
      map2 (\<lambda>v (out, _). map (\<lambda>t. v ! (length (ao_prompt_ids out) + t - 1)) [0..<length (ao_response_ids out)] @
        replicate (lc_response_length cfg - length (ao_response_ids out)) zero) vs outs"
    using len by (intro nth_equalityI) (auto simp: pad_right_def response_values_def prompt_len_def response_len_def case_prod_beta)
  finally show ?thesis .
qed

text \<open>
  The padded and the nested route agree: for sequences with prompts, cutting the responses from the nested
  output is the padded conversion with the padding removed again.
\<close>

theorem nested_route_agrees:
  assumes "length prompts = length vs" "length responses = length vs" "vs \<noteq> []" "[] \<notin> set prompts"
    "map length vs = map2 (\<lambda>p r. length p + length r) prompts responses" "map length masks = map length responses"
  shows "res_bind (no_padding_2_padding zero (concat vs) (Nested prompts) (Nested responses) None None)
      (\<lambda>padded. response_to_nested padded (Nested masks)) = response_from_nested vs masks"
proof -
  let ?R = "Max (set (map length responses))"
  have row: "length (vs ! i) = length (prompts ! i) + length (responses ! i) \<and> 0 < length (prompts ! i) \<and> length (responses ! i) \<le> ?R"
    if i: "i < length vs" for i
  proof -
    have "map length vs ! i = map2 (\<lambda>p r. length p + length r) prompts responses ! i" using assms(5) by simp
    then have "length (vs ! i) = length (prompts ! i) + length (responses ! i)" using i assms(1,2) by simp
    moreover have "prompts ! i \<noteq> []" using assms(1,4) i by (metis nth_mem)
    moreover have "length (responses ! i) \<in> set (map length responses)" using assms(2) i by simp
    ultimately show ?thesis by (simp del: set_map)
  qed
  have "token_counts (Nested prompts) (Nested responses) None None = Inr (map length prompts, map length responses, ?R)"
    using assms(2,3) by (auto simp: token_counts_def Let_def)
  then have np: "no_padding_2_padding zero (concat vs) (Nested prompts) (Nested responses) None None =
      Inr (map (\<lambda>i. pad_right zero ?R (response_values (map length prompts ! i) (map length responses ! i) (vs ! i))) [0..<length vs])"
    by (rule no_padding_rows) (use assms(1-3) row in auto)
  have m: "length masks = length vs" "\<And>i. i < length vs \<Longrightarrow> length (masks ! i) = length (responses ! i)"
    using assms(2,6) by (metis length_map, metis assms(2) length_map nth_map)
  have "response_to_nested (map (\<lambda>i. pad_right zero ?R (response_values (map length prompts ! i) (map length responses ! i) (vs ! i))) [0..<length vs])
      (Nested masks) = Inr (map (\<lambda>i. response_values (length (prompts ! i)) (length (responses ! i)) (vs ! i)) [0..<length vs])"
    unfolding response_to_nested_def layout.case res_map_Inr_iff
    using m assms(1,2) by (auto simp: pad_right_def response_values_def)
  moreover have "response_from_nested vs masks = Inr (map (\<lambda>i. response_values (length (prompts ! i)) (length (responses ! i)) (vs ! i)) [0..<length vs])"
  proof -
    have "py_slice (Some (int (running_sums (map length vs) ! i) - int (length (masks ! i)) - 1)) (Some (int (running_sums (map length vs) ! i) - 1)) (concat vs) =
        response_values (length (prompts ! i)) (length (responses ! i)) (vs ! i)" if i: "i < length vs" for i
    proof -
      have "length (vs ! i) \<le> running_sums (map length vs) ! i" using i by (simp add: running_sums_nth)
      then have "int (running_sums (map length vs) ! i) - int (length (masks ! i)) - 1 = int (running_sums (map length vs) ! i - length (responses ! i) - 1)"
        "int (running_sums (map length vs) ! i) - 1 = int (running_sums (map length vs) ! i - 1)" using row[OF i] m(2)[OF i] by linarith+
      then show ?thesis using slice_response[OF i] row[OF i] by (simp only: py_slice_nonneg)
    qed
    then show ?thesis using m(1) by (auto simp: response_from_nested_def Let_def intro!: nth_equalityI)
  qed
  ultimately show ?thesis using np by simp
qed


theorem nested_route_agrees_witness:
  "res_bind (no_padding_2_padding 0 [1, 2, 3, 4, 5, 6, 7] (Nested [[9, 9], [8]]) (Nested [[5], [6, 6, 6 :: int]]) None None)
     (\<lambda>padded. response_to_nested padded (Nested [[1], [1, 1, 1]])) = response_from_nested [[1, 2, 3], [4, 5, 6, 7 :: nat]] [[1], [1, 1, 1]]"
  using nested_route_agrees[of "[[9, 9], [8 :: int]]" "[[1, 2, 3], [4, 5, 6, 7 :: nat]]" "[[5], [6, 6, 6]]" "[[1], [1, 1, 1]]" 0] by simp

text \<open>
  The reward tensor of a rollout, when every sample has a score: the score stands behind the last response
  token and nowhere else; for an empty response it stands in the last column, which is padding.
\<close>

theorem rewards_on_last_token:
  assumes "rollout_ok cfg pad outs" "worker_rows cfg score outs = Inr wb"
    "\<forall>(out, reward) \<in> set outs. compute_score score out reward \<noteq> None"
  shows "\<exists>rm. wb_rm_scores wb = Some rm \<and> length rm = length outs \<and>
    (\<forall>i < length outs. let (out, reward) = outs ! i; r = length (ao_response_ids out); R = lc_response_length cfg
      in length (rm ! i) = R \<and> (\<forall>t < R. rm ! i ! t = (if t = (if r = 0 then R - 1 else r - 1)
           then the (compute_score score out reward) else 0)))"
proof -
  obtain wb' where wb': "worker_rows cfg score outs = Inr wb'"
    "wb_rm_scores wb' = (if None \<in> set (map (\<lambda>(out, reward). compute_score score out reward) outs) then None
       else Some (map (\<lambda>(out, reward). score_row (lc_response_length cfg) (length (ao_response_ids out))
         (the (compute_score score out reward))) outs))"
    by (rule worker_rows_fits[OF assms(1), of score])
  have "None \<notin> set (map (\<lambda>(out, reward). compute_score score out reward) outs)" using assms(3) by auto
  then show ?thesis
    using wb' assms(2) by (auto simp: score_row_def nth_list_update case_prod_beta Let_def)
qed

text \<open>
  A generation without tokens: the output of the tool agent has the prompt as its response and no mask; the mask is
  padded with the padding token, and since the response has attention, the response mask of the prompt's tokens is the
  padding token itself.
\<close>

theorem empty_mask_is_padding_token:
  assumes "pads_as_documented cfg pad" "ao_response_mask out = []" "ao_response_ids out \<noteq> []" "ao_routed_experts out = None"
    "length (ao_response_ids out) \<le> lc_response_length cfg"
  shows "\<exists>row. agent_loop_postprocess cfg score out reward = Inr row \<and>
    po_response_mask row = pad_right 0 (lc_response_length cfg) (replicate (length (ao_response_ids out)) pad)"
proof -
  let ?R = "lc_response_length cfg" and ?r = "length (ao_response_ids out)"
  have "map2 (*) (replicate ?R pad) (replicate ?r 1 @ replicate (?R - ?r) 0) = replicate ?r pad @ replicate (?R - ?r) 0"
    using assms(5) by (intro nth_equalityI) (auto simp: nth_append)
  then have "row_product (pad_right pad ?R []) (replicate ?r 1 @ replicate (?R - ?r) 0) = Inr (pad_right 0 ?R (replicate ?r pad))"
    using assms(5) by (simp add: row_product_def pad_right_def)
  then show ?thesis
    unfolding agent_loop_postprocess_def pad_token_ids_documented[OF assms(1)] res_bind_Inr prod.case assms(2)
    using assms(4) by (simp add: Let_def)
qed

theorem empty_mask_is_padding_token_witness:
  "\<exists>row. agent_loop_postprocess \<lparr>lc_prompt_length = 4, lc_response_length = 4, lc_pad_id = Some 151643, lc_pad = hf_pad 151643\<rparr> None
      \<lparr>ao_prompt_ids = [], ao_response_ids = [5, 6], ao_response_mask = [], ao_images = (None :: unit list option), ao_response_logprobs = None, ao_num_turns = 2,
       ao_routed_experts = None, ao_extra_fields = [], ao_tool_rewards = []\<rparr> None = Inr row \<and> po_response_mask row = [151643, 151643, 0, 0]"
  using empty_mask_is_padding_token[of "\<lparr>lc_prompt_length = 4, lc_response_length = 4, lc_pad_id = Some 151643, lc_pad = hf_pad 151643\<rparr>" 151643
      "\<lparr>ao_prompt_ids = [], ao_response_ids = [5, 6], ao_response_mask = [], ao_images = (None :: unit list option), ao_response_logprobs = None, ao_num_turns = 2,
       ao_routed_experts = None, ao_extra_fields = [], ao_tool_rewards = []\<rparr>" None None]
  by (simp add: pads_as_documented_def pad_right_def numeral_eq_Suc)

section \<open>Witnesses\<close>

definition demo_layout :: layout_config where
  "demo_layout = \<lparr>lc_prompt_length = 4, lc_response_length = 3, lc_pad_id = Some 7, lc_pad = hf_pad 7\<rparr>"

definition demo_output :: "int list \<Rightarrow> int list \<Rightarrow> unit agent_output" where
  "demo_output prompt resp = \<lparr>ao_prompt_ids = prompt, ao_response_ids = resp, ao_response_mask = map (\<lambda>_. 1) resp, ao_images = None,
     ao_response_logprobs = None, ao_num_turns = 2, ao_routed_experts = None, ao_extra_fields = [], ao_tool_rewards = []\<rparr>"

definition demo_outputs :: "(unit agent_output \<times> rat option) list" where
  "demo_outputs = [(demo_output [1, 2] [3], Some 1), (demo_output [4] [5, 6], Some 2)]"

lemma demo_rollout_ok: "rollout_ok demo_layout 7 demo_outputs"
  by (simp add: rollout_ok_def pads_as_documented_def demo_layout_def demo_outputs_def demo_output_def fits_def same_presence_def)

lemma demo_worker_rows: "\<exists>wb. worker_rows demo_layout None demo_outputs = Inr wb"
  by (rule worker_rows_fits[OF demo_rollout_ok]) blast

theorem rollout_batch_unpads_witness:
  "\<exists>wb u. worker_rows demo_layout None demo_outputs = Inr wb \<and>
     left_right_2_no_padding \<lparr>pd_input_ids = Some (wb_input_ids wb), pd_attention_mask = Some (wb_attention_mask wb),
      pd_response_mask = Some (wb_response_mask wb), pd_position_ids = Some (Text_Positions (wb_position_ids wb)),
      pd_routed_experts = wb_routed_experts wb, pd_teacher_logprobs = None, pd_teacher_ids = None\<rparr> = Inr u \<and>
     ud_input_ids u = [[1, 2, 3], [4, 5, 6]]"
proof -
  obtain wb where wb: "worker_rows demo_layout None demo_outputs = Inr wb" using demo_worker_rows by blast
  from rollout_batch_unpads[OF demo_rollout_ok wb] wb show ?thesis by (auto simp: demo_outputs_def demo_output_def)
qed

theorem log_probs_aligned_witness:
  "\<exists>wb. worker_rows demo_layout None demo_outputs = Inr wb \<and>
     no_padding_2_padding 0 [10, 11, 12, 20, 21, 22 :: nat] (Padded (wb_prompts wb)) (Padded (wb_responses wb))
       (Some (Padded (wb_attention_mask wb))) (Some 3) = Inr [[11, 0, 0], [20, 21, 0]]"
proof -
  obtain wb where wb: "worker_rows demo_layout None demo_outputs = Inr wb" using demo_worker_rows by blast
  from log_probs_aligned[OF demo_rollout_ok wb, of "[[10, 11, 12], [20, 21, 22 :: nat]]" 0 3] wb
  show ?thesis by (auto simp: demo_outputs_def demo_output_def demo_layout_def numeral_eq_Suc)
qed

theorem rewards_on_last_token_witness:
  "\<exists>wb rm. worker_rows demo_layout None demo_outputs = Inr wb \<and> wb_rm_scores wb = Some rm \<and> rm ! 1 ! 1 = 2 \<and> rm ! 1 ! 2 = 0"
proof -
  obtain wb where wb: "worker_rows demo_layout None demo_outputs = Inr wb" using demo_worker_rows by blast
  have "\<forall>(out, reward) \<in> set demo_outputs. compute_score None out reward \<noteq> None" by (simp add: demo_outputs_def compute_score_def)
  from rewards_on_last_token[OF demo_rollout_ok wb this] obtain rm where rm: "wb_rm_scores wb = Some rm"
    "\<forall>i < length demo_outputs. let (out, reward) = demo_outputs ! i; r = length (ao_response_ids out); R = lc_response_length demo_layout
      in length (rm ! i) = R \<and> (\<forall>t < R. rm ! i ! t = (if t = (if r = 0 then R - 1 else r - 1)
           then the (compute_score None out reward) else 0))" by blast
  have "rm ! 1 ! 1 = 2 \<and> rm ! 1 ! 2 = 0"
    using rm(2)[rule_format, of 1] by (simp add: demo_outputs_def demo_output_def demo_layout_def compute_score_def)
  with wb rm(1) show ?thesis by blast
qed

end
