(* ===== verification/Trainer_Batch.thy ===== *)
theory Trainer_Batch
  imports Micro_Batching Replay_Buffer Sequence_Layout Advantage
begin

text \<open>
  The training step of the v1 trainer around its batches: \<open>src/verl/verl/trainer/ppo/v1/trainer_base.py\<close> (feeding, in-flight
  prompts, balancing, the loop of \<open>fit\<close>), \<open>trainer/ppo/padding_utils.py\<close> (synthetic samples) and
  \<open>trainer/ppo/v1/utils.py\<close> (advantages of several outputs per session, aggregation of metrics). A batch is its keys
  and tags; what TransferQueue is asked to store is returned.
\<close>

section \<open>Divisible batches\<close>

text \<open>The values of a tag are integers, flags are 1.\<close>

type_synonym kv_tag = "(string, int) dict"

record kv_meta =
  km_keys :: "string list"
  km_tags :: "kv_tag list"
  km_partition :: string

text \<open>A stored sample with one-dimensional position ids; \<open>sm_rest\<close> are its other fields.\<close>

record sample =
  sm_uid :: string
  sm_session_id :: "int option"
  sm_prompts :: "int list"
  sm_responses :: "int list"
  sm_input_ids :: "int list"
  sm_attention_mask :: "int list"
  sm_position_ids :: "int list"
  sm_response_mask :: "int list"
  sm_loss_mask :: "int list"
  sm_rm_scores :: "rat list"
  sm_rollout_log_probs :: "rat list"
  sm_num_turns :: int
  sm_routed_experts :: "int list list option"
  sm_multi_modal :: "(string, int) dict option"
  sm_rest :: "(string, int) dict"

definition build_padding_routed_experts :: "int list list option \<Rightarrow> nat \<Rightarrow> int list list option" where
  "build_padding_routed_experts source seq_len = map_option (\<lambda>rows. replicate seq_len (replicate (width rows) 0)) source"

definition construct_minimal_padding_template :: "sample \<Rightarrow> kv_tag \<Rightarrow> int \<Rightarrow> sample \<times> kv_tag" where
  "construct_minimal_padding_template source_td source_tag eos_token_id =
     (let prompts = [eos_token_id];
          input_ids = prompts @ prompts;
          attention_mask = map (\<lambda>_. 1) input_ids;
          response_mask = map (\<lambda>_. 0) prompts
      in (source_td\<lparr>sm_prompts := prompts, sm_responses := prompts, sm_input_ids := input_ids,
            sm_attention_mask := attention_mask, sm_position_ids := compute_position_id_with_mask attention_mask,
            sm_num_turns := 0, sm_response_mask := response_mask, sm_loss_mask := response_mask,
            sm_rm_scores := map (\<lambda>_. 0) response_mask, sm_rollout_log_probs := map (\<lambda>_. 0) response_mask,
            sm_multi_modal := map_option (\<lambda>_. []) (sm_multi_modal source_td),
            sm_routed_experts := build_padding_routed_experts (sm_routed_experts source_td) (length input_ids)\<rparr>,
          fold (\<lambda>(k, v). AList.update k v)
            [(''is_padding'', 1), (''prompt_len'', 1), (''response_len'', 1), (''seq_len'', 2)] source_tag))"

record kv_put =
  kp_keys :: "string list"
  kp_fields :: "sample list"
  kp_tags :: "kv_tag list"

text \<open>\<open>get\<close> reads a sample of the batch, \<open>hex\<close> is the fresh part of the uid.\<close>

definition upsample_batch_to_divisible_size ::
  "(string \<Rightarrow> sample) \<Rightarrow> string \<Rightarrow> kv_meta \<Rightarrow> nat \<Rightarrow> int \<Rightarrow> (kv_meta \<times> kv_put option) result" where
  "upsample_batch_to_divisible_size get hex batch batch_multiple eos_token_id =
     (if batch_multiple = 0 then Inl ZeroDivisionError
      else let remainder = length (km_keys batch) mod batch_multiple in
        if remainder = 0 then Inr (batch, None)
        else
          let (template_sample, template_tag) =
                construct_minimal_padding_template (get (km_keys batch ! 0)) (km_tags batch ! 0) eos_token_id;
              pad_uid = ''pad'' @ hex;
              pad_size = batch_multiple - remainder;
              template_sample = template_sample\<lparr>sm_uid := pad_uid\<rparr>;
              pad_keys = map (\<lambda>i. pad_uid @ ''_'' @ show_nat i @ ''_0'') [0..<pad_size];
              pad_fields = map (\<lambda>i. template_sample\<lparr>sm_session_id := map_option (\<lambda>_. int i) (sm_session_id template_sample)\<rparr>) [0..<pad_size];
              pad_tags = map (\<lambda>_. template_tag) [0..<pad_size]
          in Inr (batch\<lparr>km_keys := km_keys batch @ pad_keys, km_tags := km_tags batch @ pad_tags\<rparr>,
                  Some \<lparr>kp_keys = pad_keys, kp_fields = pad_fields, kp_tags = pad_tags\<rparr>))"

section \<open>Balancing\<close>

record train_config =
  tc_use_critic :: bool
  tc_critic_mini_batch :: nat
  tc_actor_mini_batch :: nat
  tc_rollout_n :: nat
  tc_critic_warmup :: int
  tc_eos :: int

definition get_required_batch_multiple :: "train_config \<Rightarrow> int \<Rightarrow> nat \<Rightarrow> nat" where
  "get_required_batch_multiple cfg global_steps dp_size =
     (let required_multiple = dp_size;
          required_multiple = (if tc_use_critic cfg then lcm required_multiple (tc_critic_mini_batch cfg * tc_rollout_n cfg)
            else required_multiple)
      in if tc_critic_warmup cfg \<le> global_steps then lcm required_multiple (tc_actor_mini_batch cfg * tc_rollout_n cfg)
         else required_multiple)"

text \<open>\<open>KVBatchMeta.reorder\<close>.\<close>

definition reorder_meta :: "nat list \<Rightarrow> kv_meta \<Rightarrow> kv_meta" where
  "reorder_meta idx batch = batch\<lparr>km_keys := map ((!) (km_keys batch)) idx, km_tags := map ((!) (km_tags batch)) idx\<rparr>"

definition balance_batch ::
  "train_config \<Rightarrow> int \<Rightarrow> nat list \<Rightarrow> (string \<Rightarrow> sample) \<Rightarrow> string \<Rightarrow> kv_meta \<Rightarrow> (kv_meta \<times> kv_put option) result" where
  "balance_batch cfg global_steps dp_rank_mapping get hex batch =
     (if dp_rank_mapping = [] then Inl ValueError
      else
        let dp_size = Max (set dp_rank_mapping) + 1;
            batch_multiple = get_required_batch_multiple cfg global_steps dp_size
        in res_bind (upsample_batch_to_divisible_size get hex batch batch_multiple (tc_eos cfg)) (\<lambda>(batch, put).
           res_bind (res_map (\<lambda>tag. dict_index tag ''seq_len'') (km_tags batch)) (\<lambda>global_seqlen_lst.
           res_bind (get_seqlen_balanced_partitions (map calculate_workload global_seqlen_lst) dp_size True) (\<lambda>parts.
             Inr (reorder_meta (concat parts) batch, put)))))"

section \<open>Feeding prompts\<close>

text \<open>
  The data loader as the batches of an epoch and the position of its iterator, \<open>None\<close> before the first fetch. A fetch that
  finds the iterator exhausted starts a new epoch.
\<close>

definition fetch_one_gen_batch :: "'d list \<Rightarrow> nat option \<Rightarrow> ('d \<times> nat) option" where
  "fetch_one_gen_batch loader it =
     (let pos = (case it of None \<Rightarrow> 0 | Some p \<Rightarrow> p)
      in if pos < length loader then Some (loader ! pos, pos + 1)
         else if 0 < length loader then Some (loader ! 0, 1)
         else None)"

fun fetch_gen_batches :: "'d list \<Rightarrow> nat \<Rightarrow> nat option \<Rightarrow> ('d list \<times> nat option) option" where
  "fetch_gen_batches loader 0 it = Some ([], it)"
| "fetch_gen_batches loader (Suc k) it =
     (case fetch_one_gen_batch loader it of
        None \<Rightarrow> None
      | Some (d, pos) \<Rightarrow> map_option (\<lambda>(ds, it'). (d # ds, it')) (fetch_gen_batches loader k (Some pos)))"

text \<open>The chunks of \<open>_next_train_batch\<close>; \<open>StopIteration\<close> of an empty loader is \<open>RuntimeError\<close> here.\<close>

definition next_train_batch :: "int \<Rightarrow> int option \<Rightarrow> int option \<Rightarrow> 'd list \<Rightarrow> nat option \<Rightarrow> ('d list \<times> nat option) result" where
  "next_train_batch train_batch_size gen_batch_size num_prompts loader it =
     (let num = (case num_prompts of None \<Rightarrow> train_batch_size | Some n \<Rightarrow> n);
          gen = (case gen_batch_size of None \<Rightarrow> train_batch_size | Some g \<Rightarrow> if g = 0 then train_batch_size else g)
      in if num \<le> 0 then Inl ValueError
         else if gen = 0 then Inl ZeroDivisionError
         else if num mod gen \<noteq> 0 then Inl ValueError
         else (case fetch_gen_batches loader (nat (num div gen)) it of
                 None \<Rightarrow> Inl RuntimeError
               | Some r \<Rightarrow> Inr r))"

section \<open>In-flight prompts of a checkpoint\<close>

text \<open>
  \<open>_reissue_inflight_prompts\<close> on the restored items of the partition (\<open>None\<close> or empty: nothing is listed): the number of
  prompts, the new items and the prompts that are dispatched. Putting tags merges them into the stored ones.
\<close>

definition split_first_part :: "string \<Rightarrow> string" where
  "split_first_part key = takeWhile (\<lambda>c. c \<noteq> CHR ''_'') key"

definition prompt_in_flight :: "'v rb_tag \<Rightarrow> bool" where
  "prompt_in_flight tag \<longleftrightarrow> tag_prompt tag \<and> tag_status tag \<in> {Some ''pending'', Some ''running''}"

definition reissue_inflight_prompts :: "bool \<Rightarrow> int \<Rightarrow> 'v kv_items \<Rightarrow> nat \<times> 'v kv_items \<times> string list" where
  "reissue_inflight_prompts enabled global_steps items =
     (if \<not> enabled then (0, items, [])
      else
        let inflight_uids = map fst (filter (\<lambda>(key, tag). prompt_in_flight tag) items)
        in if inflight_uids = [] then (0, items, [])
           else
             let old_trajectory_keys = map fst (filter (\<lambda>(key, tag).
                   \<not> tag_prompt tag \<and> split_first_part key \<in> set inflight_uids) items);
                 kept = filter (\<lambda>(key, _). key \<notin> set old_trajectory_keys) items;
                 tag = tag_empty\<lparr>tag_is_prompt := Some True, tag_status := Some ''pending'', tag_global_steps := Some global_steps\<rparr>;
                 put = map (\<lambda>(key, old). (key, if key \<in> set inflight_uids then tag_update tag old else old)) kept
             in (length inflight_uids, put, inflight_uids))"

section \<open>The loop of fit\<close>

text \<open>The steps of \<open>fit\<close> with their epochs, from the global step and the epoch at the head of the while loop.\<close>

function fit_loop :: "nat \<Rightarrow> nat \<Rightarrow> nat \<Rightarrow> nat \<Rightarrow> nat \<Rightarrow> (nat \<times> nat) list" where
  "fit_loop len total_epochs last_step global_steps epoch =
     (if epoch < total_epochs \<and> global_steps \<le> last_step then
        (global_steps, epoch) #
          (if global_steps \<ge> last_step then [] else fit_loop len total_epochs last_step (global_steps + 1) (global_steps div len))
      else [])"
  by pat_completeness auto
termination by (relation "measure (\<lambda>(len, E, T, g, e). Suc T - g)") auto

definition fit_v1 :: "nat \<Rightarrow> nat \<Rightarrow> nat \<Rightarrow> nat \<Rightarrow> (nat \<times> nat) list" where
  "fit_v1 len total_epochs last_step resumed = fit_loop len total_epochs last_step (resumed + 1) (resumed div len)"

declare fit_loop.simps [simp del]

section \<open>Advantages of several outputs per session\<close>

text \<open>\<open>key.rsplit("_", 2)\<close>.\<close>

definition rsplit_once :: "string \<Rightarrow> (string \<times> string) option" where
  "rsplit_once s =
     (if CHR ''_'' \<in> set s
      then Some (butlast (rev (dropWhile (\<lambda>c. c \<noteq> CHR ''_'') (rev s))), rev (takeWhile (\<lambda>c. c \<noteq> CHR ''_'') (rev s)))
      else None)"

definition parse_key :: "string \<Rightarrow> (string \<times> string \<times> nat) result" where
  "parse_key key =
     (case rsplit_once key of
        None \<Rightarrow> Inl AssertionError
      | Some (front, index) \<Rightarrow>
          (case rsplit_once front of
             None \<Rightarrow> Inl AssertionError
           | Some (uid, session_id) \<Rightarrow> res_bind (py_int index) (\<lambda>i. Inr (uid, session_id, i))))"

text \<open>The loop over the keys: the row with the largest output index of each session, and the session of each row.\<close>

definition final_session_step ::
  "nat \<times> string \<Rightarrow> (string, nat \<times> nat) dict \<times> string list \<Rightarrow> ((string, nat \<times> nat) dict \<times> string list) result" where
  "final_session_step = (\<lambda>(i, key) (final_sessions, row_session_keys).
     res_bind (parse_key key) (\<lambda>(uid, session_id, index).
       let session_key = uid @ ''_'' @ session_id
       in Inr (case map_of final_sessions session_key of
            None \<Rightarrow> AList.update session_key (index, i) final_sessions
          | Some (best, _) \<Rightarrow> if best < index then AList.update session_key (index, i) final_sessions else final_sessions,
          row_session_keys @ [session_key])))"

definition final_sessions :: "string list \<Rightarrow> ((string, nat \<times> nat) dict \<times> string list) result" where
  "final_sessions batch_keys = res_fold final_session_step (enumerate 0 batch_keys) ([], [])"

text \<open>\<open>argmax\<close> of a row: its first maximal position.\<close>

definition row_argmax :: "real list \<Rightarrow> nat result" where
  "row_argmax row = (if row = [] then Inl IndexError else Inr (length (takeWhile (\<lambda>x. x \<noteq> Max (set row)) row)))"

definition compute_advantage_for_multi_trajectories ::
  "string list \<Rightarrow> mat \<Rightarrow> mat \<Rightarrow> 'k list \<Rightarrow> real \<Rightarrow> bool \<Rightarrow> mat result" where
  "compute_advantage_for_multi_trajectories batch_keys token_level_rewards response_mask uid eps norm_adv_by_std =
     res_bind (final_sessions batch_keys) (\<lambda>(finals, row_session_keys).
       let final_indices = map (snd \<circ> snd) finals
       in res_bind (res_map (\<lambda>s. case map_of (zip (map fst finals) [0..<length finals]) s of None \<Rightarrow> Inl KeyError | Some j \<Rightarrow> Inr j)
            row_session_keys) (\<lambda>row_to_local_index.
          res_bind (compute_grpo_outcome_advantage (map ((!) token_level_rewards) final_indices)
              (map ((!) response_mask) final_indices) (map ((!) uid) final_indices) eps norm_adv_by_std) (\<lambda>advantages.
          res_bind (res_map row_argmax (map ((!) response_mask) final_indices)) (\<lambda>first_nnz_indices.
            let final_scores = map2 (!) advantages first_nnz_indices
            in Inr (scale_rows (map ((!) final_scores) row_to_local_index) response_mask)))))"

section \<open>Aggregation of metrics\<close>

datatype metric = Bool_Metric bool | Num_Metric real | Tensor_Metric "real list" | Other_Metric

record metrics_aggregator =
  ma_values :: "(string, real list) dict"
  ma_weights :: "(string, nat list) dict"
  ma_step_count :: nat

definition aggregator_start :: metrics_aggregator where
  "aggregator_start = \<lparr>ma_values = [], ma_weights = [], ma_step_count = 0\<rparr>"

definition scalar_metric :: "metric \<Rightarrow> real option" where
  "scalar_metric m = (case m of Num_Metric x \<Rightarrow> Some x | Tensor_Metric [x] \<Rightarrow> Some x | _ \<Rightarrow> None)"

definition metric_weight :: "string \<Rightarrow> (string, metric) dict \<Rightarrow> nat \<Rightarrow> nat" where
  "metric_weight name metrics sample_count =
     (if ends_with ''/off_policy/dropped_samples_staleness/mean'' name then
        (let prefix = take (length name - length ''_staleness/mean'') name
         in case map_of metrics prefix of
              None \<Rightarrow> sample_count
            | Some (Num_Metric x) \<Rightarrow> nat (truncate_toward_zero x)
            | Some (Bool_Metric b) \<Rightarrow> (if b then 1 else 0)
            | Some (Tensor_Metric [x]) \<Rightarrow> nat (truncate_toward_zero x)
            | Some _ \<Rightarrow> sample_count)
      else sample_count)"

definition add_step_metrics :: "(string, metric) dict \<Rightarrow> nat \<Rightarrow> metrics_aggregator \<Rightarrow> metrics_aggregator" where
  "add_step_metrics metrics sample_count ma =
     fold (\<lambda>(key, value) ma.
         case scalar_metric value of
           None \<Rightarrow> ma
         | Some x \<Rightarrow> ma\<lparr>ma_values := AList.update key (dict_get (ma_values ma) key [] @ [x]) (ma_values ma),
                       ma_weights := AList.update key (dict_get (ma_weights ma) key [] @ [metric_weight key metrics sample_count])
                         (ma_weights ma)\<rparr>)
       metrics (ma\<lparr>ma_step_count := ma_step_count ma + 1\<rparr>)"

definition lower_char :: "char \<Rightarrow> char" where
  "lower_char c = (let n = of_char c :: nat in if 65 \<le> n \<and> n \<le> 90 then char_of (n + 32) else c)"

definition aggregation_type :: "string \<Rightarrow> string" where
  "aggregation_type name =
     (if name \<in> {''training/off_policy/dropped_samples'', ''validation/off_policy/dropped_samples''} then ''sum''
      else if name \<in> {''training/global_step'', ''training/rollout_probs_diff_valid''} then ''last''
      else let low = map lower_char name in
        if ends_with ''/lr'' low \<or> ends_with ''_lr'' low \<or> low = ''lr'' then ''last''
        else if str_contains ''timing_s/'' low \<or> str_contains ''timing_per_token_ms/'' low then ''time_sum''
        else if str_contains ''max'' low \<or> str_contains ''maximum'' low then ''max''
        else if str_contains ''min'' low \<or> str_contains ''minimum'' low then ''min''
        else if str_contains ''sum'' low \<or> str_contains ''total'' low then ''sum''
        else ''weighted_avg'')"

definition aggregate_single_metric :: "metrics_aggregator \<Rightarrow> string \<Rightarrow> real list \<Rightarrow> real" where
  "aggregate_single_metric ma name vs =
     (if vs = [] then 0
      else let agg_type = aggregation_type name in
        if agg_type = ''last'' then last vs
        else if agg_type = ''weighted_avg'' then
          (let ws = dict_get (ma_weights ma) name [] in
           if length vs \<noteq> length ws \<or> sum_list ws = 0 then sum_list vs / real (length vs)
           else sum_list (map2 (\<lambda>v c. v * real c) vs ws) / real (sum_list ws))
        else if agg_type \<in> {''sum'', ''time_sum''} then sum_list vs
        else if agg_type = ''max'' then Max (set vs)
        else if agg_type = ''min'' then Min (set vs)
        else sum_list vs / real (length vs))"

definition get_aggregated_metrics :: "metrics_aggregator \<Rightarrow> (string, real) dict" where
  "get_aggregated_metrics ma =
     (if ma_step_count ma = 0 then []
      else let aggregated = map (\<lambda>(name, vs). (name, aggregate_single_metric ma name vs)) (ma_values ma) in
        case (map_of aggregated ''global_seqlen/minmax_diff'', map_of aggregated ''global_seqlen/max'', map_of aggregated ''global_seqlen/min'') of
          (Some _, Some hi, Some lo) \<Rightarrow> AList.update ''global_seqlen/minmax_diff'' (hi - lo) aggregated
        | _ \<Rightarrow> aggregated)"


section \<open>Lemmas on the loop and the feed\<close>

definition v1_step :: "nat \<Rightarrow> nat \<Rightarrow> nat \<times> nat" where
  "v1_step len g = (g, (g - 1) div len)"

lemma fit_loop_steps:
  assumes "0 < len" "0 < g" "e = (g - 1) div len"
  shows "fit_loop len E T g e = map (v1_step len) [g..<Suc (min T (E * len))]"
  using assms
proof (induction len E T g e rule: fit_loop.induct)
  case (1 len E T g e)
  have epoch: "e < E \<longleftrightarrow> g \<le> E * len"
    using 1(2-4) div_less_iff_less_mult[of len "g - 1" E] by auto
  show ?case
  proof (cases "e < E \<and> g \<le> T")
    case False
    with epoch show ?thesis by (subst fit_loop.simps) auto
  next
    case True
    then have up: "[g..<Suc (min T (E * len))] = g # [g + 1..<Suc (min T (E * len))]"
      using epoch by (intro upt_conv_Cons[THEN trans]) auto
    show ?thesis
    proof (cases "T \<le> g")
      case T: True
      with True epoch show ?thesis by (subst fit_loop.simps) (simp add: v1_step_def 1(4) min_def)
    next
      case T: False
      have "fit_loop len E T (g + 1) (g div len) = map (v1_step len) [g + 1..<Suc (min T (E * len))]"
        using 1(1)[OF True] T 1(2) by simp
      with True T up show ?thesis by (subst fit_loop.simps) (simp add: v1_step_def 1(4))
    qed
  qed
qed

lemma fit_v1_steps: "0 < len \<Longrightarrow> fit_v1 len E T r = map (v1_step len) [r + 1..<Suc (min T (E * len))]"
  unfolding fit_v1_def by (rule fit_loop_steps) simp_all

lemma fetch_gen_batches_cyclic:
  assumes "0 < length loader" "pos \<le> length loader"
  shows "\<exists>pos' \<le> length loader. fetch_gen_batches loader k (Some pos) = Some (map (\<lambda>i. loader ! ((pos + i) mod length loader)) [0..<k], Some pos')"
  using assms(2)
proof (induction k arbitrary: pos)
  case 0
  then show ?case by auto
next
  case (Suc k)
  let ?n = "length loader"
  let ?next = "if pos < ?n then pos + 1 else 1"
  have f: "fetch_one_gen_batch loader (Some pos) = Some (loader ! (pos mod ?n), ?next)"
    using Suc.prems assms(1) by (auto simp: fetch_one_gen_batch_def)
  have le: "?next \<le> ?n" using Suc.prems assms(1) by (auto simp: Suc_le_eq)
  obtain pos' where p: "pos' \<le> ?n" "fetch_gen_batches loader k (Some ?next) =
      Some (map (\<lambda>i. loader ! ((?next + i) mod ?n)) [0..<k], Some pos')"
    using Suc.IH[OF le] by blast
  have "(?next + i) mod ?n = (pos + Suc i) mod ?n" for i
  proof (cases "pos < ?n")
    case False
    then have "pos = ?n" using Suc.prems by simp
    then show ?thesis using mod_add_self1[of ?n "Suc i"] by simp
  qed simp
  then have "map (\<lambda>i. loader ! ((?next + i) mod ?n)) [0..<k] = map (\<lambda>i. loader ! ((pos + i) mod ?n)) [1..<Suc k]"
    by (intro nth_equalityI) (simp_all del: upt_Suc)
  then show ?case using f p by (simp add: upt_conv_Cons[of 0 "Suc k"] del: upt_Suc)
qed

section \<open>Lemmas on padding\<close>

lemma pad_names_distinct: "distinct (map (\<lambda>i. pad_uid @ ''_'' @ show_nat i @ ''_0'') [0..<n])"
  by (simp add: distinct_map inj_on_def)

lemma upsample_cases:
  assumes "0 < m" "length (km_tags batch) = length (km_keys batch)"
  obtains (same) "length (km_keys batch) mod m = 0" "upsample_batch_to_divisible_size get hex batch m eos = Inr (batch, None)"
  | (padded) pad put sm tag where "length (km_keys batch) mod m \<noteq> 0" "pad = m - length (km_keys batch) mod m" "km_keys batch \<noteq> []"
    "(sm, tag) = construct_minimal_padding_template (get (km_keys batch ! 0)) (km_tags batch ! 0) eos"
    "kp_keys put = map (\<lambda>i. (''pad'' @ hex) @ ''_'' @ show_nat i @ ''_0'') [0..<pad]"
    "kp_fields put = map (\<lambda>i. sm\<lparr>sm_uid := ''pad'' @ hex, sm_session_id := map_option (\<lambda>_. int i) (sm_session_id sm)\<rparr>) [0..<pad]"
    "kp_tags put = replicate pad tag"
    "upsample_batch_to_divisible_size get hex batch m eos = Inr (batch\<lparr>km_keys := km_keys batch @ kp_keys put, km_tags := km_tags batch @ kp_tags put\<rparr>, Some put)"
proof (cases "length (km_keys batch) mod m = 0")
  case True
  then show thesis using assms by (intro same) (simp_all add: upsample_batch_to_divisible_size_def Let_def)
next
  case False
  obtain sm tag where t: "construct_minimal_padding_template (get (km_keys batch ! 0)) (km_tags batch ! 0) eos = (sm, tag)"
    by (metis surj_pair)
  let ?pad = "m - length (km_keys batch) mod m"
  let ?put = "\<lparr>kp_keys = map (\<lambda>i. (''pad'' @ hex) @ ''_'' @ show_nat i @ ''_0'') [0..<?pad],
    kp_fields = map (\<lambda>i. sm\<lparr>sm_uid := ''pad'' @ hex, sm_session_id := map_option (\<lambda>_. int i) (sm_session_id sm)\<rparr>) [0..<?pad],
    kp_tags = replicate ?pad tag\<rparr>"
  show thesis
  proof (rule padded[of ?pad sm tag ?put])
    show "upsample_batch_to_divisible_size get hex batch m eos =
      Inr (batch\<lparr>km_keys := km_keys batch @ kp_keys ?put, km_tags := km_tags batch @ kp_tags ?put\<rparr>, Some ?put)"
      using False assms t by (simp add: upsample_batch_to_divisible_size_def Let_def map_replicate_const)
  qed (use False t in auto)
qed

lemma template_facts:
  assumes "construct_minimal_padding_template source source_tag eos = (sm, tag)"
  shows "sm_response_mask sm = [0]" "sm_loss_mask sm = [0]" "sm_rm_scores sm = [0]" "sm_attention_mask sm = [1, 1]"
    "sm_position_ids sm = [0, 1]" "sm_input_ids sm = [eos, eos]" "map_of tag ''is_padding'' = Some 1" "map_of tag ''seq_len'' = Some 2"
  using assms by (auto simp: construct_minimal_padding_template_def Let_def compute_position_id_with_mask_def)


definition tag_seq_len :: "kv_tag \<Rightarrow> int" where
  "tag_seq_len tag = dict_get tag ''seq_len'' 0"

definition meta_ok :: "kv_meta \<Rightarrow> bool" where
  "meta_ok batch \<longleftrightarrow> km_keys batch \<noteq> [] \<and> length (km_tags batch) = length (km_keys batch) \<and>
     (\<forall>tag \<in> set (km_tags batch). \<exists>n \<ge> 0. map_of tag ''seq_len'' = Some n)"

lemma seq_lens_Inr:
  "\<forall>tag \<in> set tags. \<exists>n \<ge> 0. map_of tag ''seq_len'' = Some n \<Longrightarrow>
    res_map (\<lambda>tag. dict_index tag ''seq_len'') tags = Inr (map tag_seq_len tags)"
  by (rule res_map_all_Inr) (auto simp: dict_index_def tag_seq_len_def dict_get_def)

definition config_ok :: "train_config \<Rightarrow> bool" where
  "config_ok cfg \<longleftrightarrow> 0 < tc_actor_mini_batch cfg \<and> 0 < tc_rollout_n cfg \<and> (tc_use_critic cfg \<longrightarrow> 0 < tc_critic_mini_batch cfg)"

lemma required_multiple:
  assumes "config_ok cfg" "0 < dp"
  shows "0 < get_required_batch_multiple cfg steps dp" "dp dvd get_required_batch_multiple cfg steps dp"
    "tc_use_critic cfg \<Longrightarrow> tc_critic_mini_batch cfg * tc_rollout_n cfg dvd get_required_batch_multiple cfg steps dp"
    "tc_critic_warmup cfg \<le> steps \<Longrightarrow> tc_actor_mini_batch cfg * tc_rollout_n cfg dvd get_required_batch_multiple cfg steps dp"
proof -
  show "0 < get_required_batch_multiple cfg steps dp"
    using assms by (simp add: get_required_batch_multiple_def config_ok_def Let_def lcm_pos_nat)
  show "dp dvd get_required_batch_multiple cfg steps dp"
    by (simp add: get_required_batch_multiple_def Let_def)
  show "tc_use_critic cfg \<Longrightarrow> tc_critic_mini_batch cfg * tc_rollout_n cfg dvd get_required_batch_multiple cfg steps dp"
    by (simp add: get_required_batch_multiple_def Let_def)
  show "tc_critic_warmup cfg \<le> steps \<Longrightarrow> tc_actor_mini_batch cfg * tc_rollout_n cfg dvd get_required_batch_multiple cfg steps dp"
    by (simp add: get_required_batch_multiple_def Let_def)
qed

text \<open>The samples of a batch: keys with their tags.\<close>

definition samples_of :: "kv_meta \<Rightarrow> (string \<times> kv_tag) list" where
  "samples_of batch = zip (km_keys batch) (km_tags batch)"

definition pad_samples :: "string \<Rightarrow> kv_tag \<Rightarrow> nat \<Rightarrow> (string \<times> kv_tag) list" where
  "pad_samples hex tag n = map (\<lambda>i. ((''pad'' @ hex) @ ''_'' @ show_nat i @ ''_0'', tag)) [0..<n]"

lemma round_up_dvd: "0 < m \<Longrightarrow> m dvd n + (m - n mod m)" for m n :: nat
proof -
  assume "0 < m"
  then have "n mod m \<le> m" "n mod m \<le> n" by (simp_all add: less_imp_le)
  then have "n + (m - n mod m) = (n - n mod m) + m" by simp
  then show ?thesis by (metis dvd_add dvd_minus_mod dvd_refl)
qed

lemma upsample_samples:
  assumes "0 < m" "meta_ok batch"
  obtains batch' put n tag where "upsample_batch_to_divisible_size get hex batch m eos = Inr (batch', put)" "meta_ok batch'"
    "samples_of batch' = samples_of batch @ pad_samples hex tag n" "n < m" "m dvd length (km_keys batch')"
    "length (km_keys batch') = length (km_keys batch) + n"
    "km_partition batch' = km_partition batch" "map_of tag ''is_padding'' = Some 1" "map_of tag ''seq_len'' = Some 2"
proof -
  have lens: "length (km_tags batch) = length (km_keys batch)" using assms(2) by (simp add: meta_ok_def)
  show thesis
  proof (rule upsample_cases[OF assms(1) lens, of get hex eos])
    assume s: "length (km_keys batch) mod m = 0" "upsample_batch_to_divisible_size get hex batch m eos = Inr (batch, None)"
    show thesis
      by (rule that[of batch None "[(''is_padding'', 1), (''seq_len'', 2)]" 0])
        (use s assms in \<open>auto simp: pad_samples_def dvd_eq_mod_eq_0\<close>)
  next
    fix pad put sm tag
    assume p: "length (km_keys batch) mod m \<noteq> 0" "pad = m - length (km_keys batch) mod m" "km_keys batch \<noteq> []"
      "(sm, tag) = construct_minimal_padding_template (get (km_keys batch ! 0)) (km_tags batch ! 0) eos"
      "kp_keys put = map (\<lambda>i. (''pad'' @ hex) @ ''_'' @ show_nat i @ ''_0'') [0..<pad]" "kp_tags put = replicate pad tag"
      "upsample_batch_to_divisible_size get hex batch m eos = Inr (batch\<lparr>km_keys := km_keys batch @ kp_keys put, km_tags := km_tags batch @ kp_tags put\<rparr>, Some put)"
    note tag = template_facts(7,8)[OF p(4)[symmetric]]
    have d: "m dvd length (km_keys batch) + pad" unfolding p(2) by (rule round_up_dvd[OF assms(1)])
    have zip_pads: "zip (kp_keys put) (kp_tags put) = pad_samples hex tag pad"
      unfolding p(5,6) by (intro nth_equalityI) (simp_all add: pad_samples_def)
    show thesis
    proof (rule that[OF p(7)])
      show "samples_of (batch\<lparr>km_keys := km_keys batch @ kp_keys put, km_tags := km_tags batch @ kp_tags put\<rparr>) =
          samples_of batch @ pad_samples hex tag pad"
        using lens zip_pads by (simp add: samples_of_def zip_append)
      have "pad \<le> m" "0 < length (km_keys batch) mod m" using p(1,2) by simp_all
      then show "pad < m" using p(2) assms(1) by simp
      show "m dvd length (km_keys (batch\<lparr>km_keys := km_keys batch @ kp_keys put, km_tags := km_tags batch @ kp_tags put\<rparr>))"
        using d p(5) by simp
      show "meta_ok (batch\<lparr>km_keys := km_keys batch @ kp_keys put, km_tags := km_tags batch @ kp_tags put\<rparr>)"
        using assms(2) p(5,6) tag(2) by (auto simp: meta_ok_def)
    qed (use p(5) tag in simp_all)
  qed
qed

lemma reorder_samples:
  assumes "length (km_tags batch) = length (km_keys batch)" "\<forall>i \<in> set idx. i < length (km_keys batch)"
  shows "samples_of (reorder_meta idx batch) = map ((!) (samples_of batch)) idx"
  using assms by (intro nth_equalityI) (simp_all add: samples_of_def reorder_meta_def)


lemma block_of_parts:
  assumes "list_all (\<lambda>p. length p = q) parts" "i < length parts"
  shows "take q (drop (i * q) (map f (concat parts))) = map f (parts ! i)"
  using rows_of_concat[OF assms] by (simp add: take_map drop_map)

lemma balance_facts:
  assumes "ranks \<noteq> []" "config_ok cfg" "meta_ok batch"
  obtains batch' put n tag parts where "balance_batch cfg steps ranks get hex batch = Inr (reorder_meta (concat parts) batch', put)"
    "meta_ok batch'" "samples_of batch' = samples_of batch @ pad_samples hex tag n" "n < get_required_batch_multiple cfg steps (Max (set ranks) + 1)"
    "get_required_batch_multiple cfg steps (Max (set ranks) + 1) dvd length (km_keys batch')"
    "map_of tag ''is_padding'' = Some 1" "length parts = Max (set ranks) + 1"
    "mset (concat parts) = mset [0..<length (km_keys batch')]"
    "\<forall>p \<in> set parts. length p * (Max (set ranks) + 1) = length (km_keys batch')"
    "\<forall>p \<in> set parts. \<forall>q \<in> set parts.
       sum_list (map ((!) (map calculate_workload (map tag_seq_len (km_tags batch')))) p) -
       sum_list (map ((!) (map calculate_workload (map tag_seq_len (km_tags batch')))) q)
       \<le> Max (set (map calculate_workload (map tag_seq_len (km_tags batch')))) - Min (set (map calculate_workload (map tag_seq_len (km_tags batch'))))"
proof -
  let ?dp = "Max (set ranks) + 1"
  let ?m = "get_required_batch_multiple cfg steps ?dp"
  have "0 < ?dp" by simp
  note req = required_multiple(1,2)[OF assms(2) this, of steps]
  obtain batch' put n tag where u: "upsample_batch_to_divisible_size get hex batch ?m (tc_eos cfg) = Inr (batch', put)" "meta_ok batch'"
    "samples_of batch' = samples_of batch @ pad_samples hex tag n" "n < ?m" "?m dvd length (km_keys batch')"
    "map_of tag ''is_padding'' = Some 1"
    by (rule upsample_samples[OF req(1) assms(3), of get hex "tc_eos cfg"])
  let ?w = "map calculate_workload (map tag_seq_len (km_tags batch'))"
  have lens: "length ?w = length (km_keys batch')" "km_keys batch' \<noteq> []" using u(2) by (simp_all add: meta_ok_def)
  have tags: "\<forall>tag \<in> set (km_tags batch'). \<exists>n \<ge> 0. map_of tag ''seq_len'' = Some n" using u(2) by (simp add: meta_ok_def)
  have dvd: "?dp dvd length ?w" unfolding lens(1) using req(2) u(5) by (rule dvd_trans)
  have c1: "?dp \<le> length ?w" using dvd lens by (metis dvd_imp_le length_greater_0_conv)
  have c2: "\<forall>v \<in> set ?w. 0 \<le> v" using tags by (force simp: tag_seq_len_def dict_get_def intro!: calculate_workload_nonneg)
  have c3: "True \<longrightarrow> length ?w mod ?dp = 0" using dvd by (simp add: dvd_eq_mod_eq_0)
  obtain ps where ps: "get_seqlen_balanced_partitions ?w ?dp True = Inr (map sort ps)" "length ps = ?dp"
    "mset (concat ps) = mset [0..<length ?w]" "\<forall>p \<in> set ps. True \<longrightarrow> length p * ?dp = length ?w"
    "\<forall>p \<in> set ps. \<forall>q \<in> set ps. sum_list (map ((!) ?w) p) - sum_list (map ((!) ?w) q) \<le> Max (set ?w) - (if True then Min (set ?w) else 0)"
    by (rule get_balanced_Inr[OF \<open>0 < ?dp\<close> c1 c3 c2])
  show thesis
  proof (rule that[of "map sort ps" batch' put tag n])
    show "balance_batch cfg steps ranks get hex batch = Inr (reorder_meta (concat (map sort ps)) batch', put)"
      using assms(1) u(1) ps(1) by (simp add: balance_batch_def Let_def seq_lens_Inr[OF tags])
    show "mset (concat (map sort ps)) = mset [0..<length (km_keys batch')]" using ps(3) lens(1) by (simp add: mset_concat_map_sort)
  qed (use u ps lens in \<open>simp_all add: sum_list_map_sort\<close>)
qed

section \<open>Properties\<close>

text \<open>
  What the training step needs of the size of a batch: a multiple of the ranks, of the mini batches of the critic if there is one,
  and of those of the actor once it is updated. The required multiple divides exactly the sizes that fit.
\<close>

definition size_fits :: "train_config \<Rightarrow> int \<Rightarrow> nat \<Rightarrow> nat \<Rightarrow> bool" where
  "size_fits cfg global_steps dp k \<longleftrightarrow> dp dvd k \<and>
     (tc_use_critic cfg \<longrightarrow> tc_critic_mini_batch cfg * tc_rollout_n cfg dvd k) \<and>
     (tc_critic_warmup cfg \<le> global_steps \<longrightarrow> tc_actor_mini_batch cfg * tc_rollout_n cfg dvd k)"

lemma multiple_fits: "get_required_batch_multiple cfg global_steps dp dvd k \<longleftrightarrow> size_fits cfg global_steps dp k"
  by (auto simp: get_required_batch_multiple_def size_fits_def Let_def)

lemma fewest_padding:
  assumes "m dvd L + n" "n < m" "m dvd L + (n' :: nat)"
  shows "n \<le> n'"
proof (rule ccontr)
  assume "\<not> n \<le> n'"
  then have "0 < (L + n) - (L + n')" by simp
  moreover have "m dvd (L + n) - (L + n')" by (rule dvd_diff_nat[OF assms(1,3)])
  ultimately have "m \<le> (L + n) - (L + n')" by (intro dvd_imp_le)
  with assms(2) show False by linarith
qed

text \<open>
  C30: balancing a non-empty batch of keys for training, with positive mini-batch sizes: the result is the batch plus the fewest synthetic samples that make its size fit
  (any smaller number would leave it indivisible by the ranks or by a mini batch that is used), in some order, keys with their tags; and
  the workloads of the contiguous parts the ranks get differ by at most the largest minus the smallest workload of a sample.
\<close>

theorem balance_batch_correct:
  assumes "dp_rank_mapping \<noteq> []" "config_ok cfg" "meta_ok batch"
  defines "dp \<equiv> Max (set dp_rank_mapping) + 1"
  shows "\<exists>out put tag n. balance_batch cfg global_steps dp_rank_mapping get hex batch = Inr (out, put) \<and>
    mset (samples_of out) = mset (samples_of batch) + mset (pad_samples hex tag n) \<and> map_of tag ''is_padding'' = Some 1 \<and>
    size_fits cfg global_steps dp (length (km_keys out)) \<and>
    (\<forall>n'. size_fits cfg global_steps dp (length (km_keys batch) + n') \<longrightarrow> n \<le> n') \<and>
    (let workloads = map (calculate_workload \<circ> tag_seq_len) (km_tags out); q = length workloads div dp;
         load = (\<lambda>i. sum_list (take q (drop (i * q) workloads)))
     in \<forall>i < dp. \<forall>j < dp. load i - load j \<le> Max (set workloads) - Min (set workloads))"
proof -
  let ?m = "get_required_batch_multiple cfg global_steps dp"
  have dp: "0 < dp" by (simp add: dp_def)
  obtain batch' put n tag parts where f: "balance_batch cfg global_steps dp_rank_mapping get hex batch = Inr (reorder_meta (concat parts) batch', put)"
    "meta_ok batch'" "samples_of batch' = samples_of batch @ pad_samples hex tag n" "n < ?m" "?m dvd length (km_keys batch')"
    "map_of tag ''is_padding'' = Some 1" "length parts = dp"
    "mset (concat parts) = mset [0..<length (km_keys batch')]"
    "\<forall>p \<in> set parts. length p * dp = length (km_keys batch')"
    "\<forall>p \<in> set parts. \<forall>q \<in> set parts.
       sum_list (map ((!) (map calculate_workload (map tag_seq_len (km_tags batch')))) p) -
       sum_list (map ((!) (map calculate_workload (map tag_seq_len (km_tags batch')))) q)
       \<le> Max (set (map calculate_workload (map tag_seq_len (km_tags batch')))) - Min (set (map calculate_workload (map tag_seq_len (km_tags batch'))))"
    unfolding dp_def by (rule balance_facts[OF assms(1-3)])
  let ?out = "reorder_meta (concat parts) batch'" and ?N = "length (km_keys batch')"
  let ?w = "map calculate_workload (map tag_seq_len (km_tags batch'))"
  have lens: "length (km_tags batch') = ?N" using f(2) by (simp add: meta_ok_def)
  have idx: "set (concat parts) = {0..<?N}" using f(8) by (metis atLeastLessThan_upt mset_eq_setD)
  have "length (concat parts) = length [0..<?N]" using f(8) by (rule mset_eq_length)
  then have N: "length (km_keys ?out) = ?N" by (simp add: reorder_meta_def)
  have samples: "mset (samples_of ?out) = mset (samples_of batch')"
  proof -
    have "samples_of ?out = map ((!) (samples_of batch')) (concat parts)" using lens idx by (intro reorder_samples) auto
    then have "mset (samples_of ?out) = image_mset ((!) (samples_of batch')) (mset [0..<?N])" using f(8) by (metis mset_map)
    also have "\<dots> = mset (map ((!) (samples_of batch')) [0..<length (samples_of batch')])" using lens by (simp add: samples_of_def)
    finally show ?thesis by (simp only: map_nth)
  qed
  have out_w: "map (calculate_workload \<circ> tag_seq_len) (km_tags ?out) = map ((!) ?w) (concat parts)"
    using idx lens by (auto simp: reorder_meta_def)
  have q: "length (map ((!) ?w) (concat parts)) div dp = ?N div dp" using N by (simp add: reorder_meta_def)
  have len_part: "list_all (\<lambda>p. length p = ?N div dp) parts" 
    unfolding list_all_iff
  proof
    fix p assume "p \<in> set parts"
    then have "?N = length p * dp" using f(9) by simp
    then show "length p = ?N div dp" using dp by simp
  qed
  have load: "sum_list (take (?N div dp) (drop (i * (?N div dp)) (map ((!) ?w) (concat parts)))) = sum_list (map ((!) ?w) (parts ! i))"
    if "i < dp" for i
    using that f(7) by (subst block_of_parts[OF len_part]) simp_all
  have "set (map ((!) ?w) (concat parts)) = (!) ?w ` {0..<?N}" by (simp only: set_map idx)
  also have "\<dots> = set ?w" using nth_image[of ?N ?w] lens by simp
  finally have "set (map ((!) ?w) (concat parts)) = set ?w" .
  with f(7,10) have gap: "sum_list (map ((!) ?w) (parts ! i)) - sum_list (map ((!) ?w) (parts ! j)) \<le>
      Max (set (map ((!) ?w) (concat parts))) - Min (set (map ((!) ?w) (concat parts)))" if "i < dp" "j < dp" for i j
    using that by (metis nth_mem)
  have loads: "let workloads = map (calculate_workload \<circ> tag_seq_len) (km_tags ?out); q = length workloads div dp;
         load = (\<lambda>i. sum_list (take q (drop (i * q) workloads)))
     in \<forall>i < dp. \<forall>j < dp. load i - load j \<le> Max (set workloads) - Min (set workloads)"
    unfolding out_w Let_def q
  proof (intro allI impI)
    fix i j assume ij: "i < dp" "j < dp"
    show "sum_list (take (?N div dp) (drop (i * (?N div dp)) (map ((!) ?w) (concat parts)))) -
        sum_list (take (?N div dp) (drop (j * (?N div dp)) (map ((!) ?w) (concat parts))))
        \<le> Max (set (map ((!) ?w) (concat parts))) - Min (set (map ((!) ?w) (concat parts)))"
      unfolding load[OF ij(1)] load[OF ij(2)] by (rule gap[OF ij])
  qed
  have fits: "size_fits cfg global_steps dp ?N" using f(5) by (simp only: multiple_fits)
  have "?N = length (km_keys batch) + n"
  proof -
    have "length (samples_of batch') = length (samples_of batch) + n" using f(3) by (simp add: pad_samples_def)
    then show ?thesis using f(2) assms(3) by (simp add: samples_of_def meta_ok_def)
  qed
  then have fewest: "\<forall>n'. size_fits cfg global_steps dp (length (km_keys batch) + n') \<longrightarrow> n \<le> n'"
    using fewest_padding[OF _ f(4)] f(5) by (simp add: multiple_fits[symmetric])
  have "mset (samples_of ?out) = mset (samples_of batch) + mset (pad_samples hex tag n)" using samples f(3) by simp
  with f(1,6) fits fewest loads N show ?thesis by (intro exI conjI) (assumption | simp only:)+
qed


definition demo_train_config :: train_config where
  "demo_train_config = \<lparr>tc_use_critic = True, tc_critic_mini_batch = 2, tc_actor_mini_batch = 2, tc_rollout_n = 1, tc_critic_warmup = 0, tc_eos = 9\<rparr>"

definition demo_meta :: kv_meta where
  "demo_meta = \<lparr>km_keys = [''a_0_0'', ''a_1_0'', ''b_0_0''], km_tags = [[(''seq_len'', 5)], [(''seq_len'', 3)], [(''seq_len'', 4)]], km_partition = ''train''\<rparr>"

theorem balance_batch_correct_witness:
  "\<exists>out put. balance_batch demo_train_config 1 [0, 1] (\<lambda>_. undefined) ''x'' demo_meta = Inr (out, put) \<and> 2 dvd length (km_keys out)"
  using balance_batch_correct[of "[0, 1]" demo_train_config demo_meta 1 "\<lambda>_. undefined" "''x''"]
  by (auto simp: size_fits_def config_ok_def meta_ok_def demo_train_config_def demo_meta_def)

text \<open>
  Padding is inert and minimal: the real samples stay first and untouched, fewer than the multiple are added, they get keys of
  their own, and every one is two attended tokens with a zero mask, reward and log probability.
\<close>

theorem upsample_is_inert:
  assumes "0 < multiple" "length (km_tags batch) = length (km_keys batch)"
  shows "\<exists>out put. upsample_batch_to_divisible_size get hex batch multiple eos = Inr (out, put) \<and>
    multiple dvd length (km_keys out) \<and> length (km_keys out) < length (km_keys batch) + multiple \<and>
    take (length (km_keys batch)) (km_keys out) = km_keys batch \<and> take (length (km_keys batch)) (km_tags out) = km_tags batch \<and>
    (case put of
       None \<Rightarrow> out = batch
     | Some p \<Rightarrow> km_keys out = km_keys batch @ kp_keys p \<and> km_tags out = km_tags batch @ kp_tags p \<and> distinct (kp_keys p) \<and>
         length (kp_fields p) = length (kp_keys p) \<and> length (kp_tags p) = length (kp_keys p) \<and>
         (\<forall>sm \<in> set (kp_fields p). sm_response_mask sm = [0] \<and> sm_loss_mask sm = [0] \<and> sm_rm_scores sm = [0] \<and>
            sm_attention_mask sm = [1, 1] \<and> sm_position_ids sm = [0, 1] \<and> sm_input_ids sm = [eos, eos]) \<and>
         (\<forall>tag \<in> set (kp_tags p). map_of tag ''is_padding'' = Some 1 \<and> map_of tag ''seq_len'' = Some 2))"
proof (rule upsample_cases[OF assms, of get hex eos])
  assume "length (km_keys batch) mod multiple = 0" "upsample_batch_to_divisible_size get hex batch multiple eos = Inr (batch, None)"
  then show ?thesis using assms by (intro exI[of _ batch] exI[of _ None]) (simp add: dvd_eq_mod_eq_0)
next
  fix pad put sm tag
  assume p: "length (km_keys batch) mod multiple \<noteq> 0" "pad = multiple - length (km_keys batch) mod multiple"
    "(sm, tag) = construct_minimal_padding_template (get (km_keys batch ! 0)) (km_tags batch ! 0) eos"
    "kp_keys put = map (\<lambda>i. (''pad'' @ hex) @ ''_'' @ show_nat i @ ''_0'') [0..<pad]"
    "kp_fields put = map (\<lambda>i. sm\<lparr>sm_uid := ''pad'' @ hex, sm_session_id := map_option (\<lambda>_. int i) (sm_session_id sm)\<rparr>) [0..<pad]"
    "kp_tags put = replicate pad tag"
    "upsample_batch_to_divisible_size get hex batch multiple eos =
      Inr (batch\<lparr>km_keys := km_keys batch @ kp_keys put, km_tags := km_tags batch @ kp_tags put\<rparr>, Some put)"
  have "multiple dvd length (km_keys batch) + pad" unfolding p(2) by (rule round_up_dvd[OF assms(1)])
  moreover have "pad < multiple" using p(1,2) assms(1) by simp
  moreover have "distinct (kp_keys put)" unfolding p(4) by (rule pad_names_distinct)
  ultimately show ?thesis
    using p(4-7) assms(2) template_facts[OF p(3)[symmetric]] by auto
qed

theorem upsample_is_inert_witness:
  "\<exists>out put. upsample_batch_to_divisible_size (\<lambda>_. undefined) ''x'' demo_meta 2 9 = Inr (out, put) \<and> length (km_keys out) < 5"
  using upsample_is_inert[of 2 demo_meta "\<lambda>_. undefined" "''x''" 9] by (auto simp: demo_meta_def)

text \<open>
  The v1 loop resumes where it stopped: the steps before a checkpoint at step \<open>s\<close> and those of the resumed
  run are the steps of the whole run, each in its epoch; a finished run does nothing when it is started again.
\<close>

theorem v1_resume_continues:
  assumes "0 < len" "s \<le> min last_step (total_epochs * len)"
  shows "take s (fit_v1 len total_epochs last_step 0) @ fit_v1 len total_epochs last_step s = fit_v1 len total_epochs last_step 0 \<and>
    fit_v1 len total_epochs last_step (min last_step (total_epochs * len)) = []"
proof -
  let ?n = "min last_step (total_epochs * len)"
  have "take s [0 + 1..<Suc ?n] = [0 + 1..<s + 1]" using assms(2) take_upt[of 1 s "Suc ?n"] by (simp add: add.commute del: upt_Suc)
  moreover have "[0 + 1..<s + 1] @ [s + 1..<Suc ?n] = [0 + 1..<Suc ?n]"
    using assms(2) upt_add_eq_append[of "0 + 1" "s + 1" "?n - s"] by (simp del: upt_Suc)
  ultimately show ?thesis unfolding fit_v1_steps[OF assms(1)] by (simp add: take_map map_append[symmetric] del: map_append upt_Suc)
qed

theorem v1_resume_continues_witness:
  "take 3 (fit_v1 2 5 7 0) @ fit_v1 2 5 7 3 = fit_v1 2 5 7 0 \<and> fit_v1 2 5 7 7 = []"
  using v1_resume_continues[of 2 3 7 5] by simp

text \<open>
  Feeding goes round the data: \<open>k\<close> fetches, from a fresh iterator, give the batches of the loader in order, again from the front after
  every epoch.
\<close>

theorem feed_is_cyclic:
  assumes "loader \<noteq> []" "0 < gen" "0 < num" "num mod gen = 0"
  shows "\<exists>pos. next_train_batch train (Some gen) (Some num) loader None =
    Inr (map (\<lambda>i. loader ! (i mod length loader)) [0..<nat (num div gen)], pos)"
proof -
  have k: "0 < nat (num div gen)" 
  proof -
    have "gen dvd num" using assms(4) by (simp add: dvd_eq_mod_eq_0)
    then have "gen \<le> num" using assms(3) by (rule zdvd_imp_le)
    with assms(2) show ?thesis by (simp add: pos_imp_zdiv_pos_iff)
  qed
  then obtain k where "nat (num div gen) = Suc k" by (metis gr0_implies_Suc)
  moreover have "fetch_gen_batches loader (Suc k) None = fetch_gen_batches loader (Suc k) (Some 0)"
    by (simp add: fetch_one_gen_batch_def)
  moreover obtain pos where "fetch_gen_batches loader (Suc k) (Some 0) =
      Some (map (\<lambda>i. loader ! ((0 + i) mod length loader)) [0..<Suc k], Some pos)"
    using fetch_gen_batches_cyclic[of loader 0 "Suc k"] assms(1) by auto
  ultimately show ?thesis using assms(2-4) by (simp add: next_train_batch_def del: fetch_gen_batches.simps upt_Suc)
qed

theorem feed_is_cyclic_witness:
  "\<exists>pos. next_train_batch 4 (Some 2) (Some 6) [''a'', ''b''] None = Inr ([''a'', ''b'', ''a''], pos)"
  using feed_is_cyclic[of "[''a'', ''b'']" 2 6 4] by (simp add: upt_rec numeral_eq_Suc)

text \<open>
  C31: resuming an asynchronous run: the prompts that were pending or running are exactly those that are dispatched again, each is pending at the
  current step, none of their old trajectories is left, and everything else is as it was stored.
\<close>

theorem reissue_exact:
  assumes "reissue_inflight_prompts True global_steps items = (n, items', dispatched)" "dict_wf items"
  shows "n = length dispatched \<and> distinct dispatched \<and>
    set dispatched = {key. \<exists>tag. map_of items key = Some tag \<and> prompt_in_flight tag} \<and>
    (\<forall>key. map_of items' key = (case map_of items key of
       None \<Rightarrow> None
     | Some tag \<Rightarrow>
         if prompt_in_flight tag then Some (tag\<lparr>tag_is_prompt := Some True, tag_status := Some ''pending'', tag_global_steps := Some global_steps\<rparr>)
         else if \<not> tag_prompt tag \<and> split_first_part key \<in> set dispatched then None
         else Some tag))"
proof (cases "map fst (filter (\<lambda>(key, tag). prompt_in_flight tag) items) = []")
  case True
  then have none: "\<not> prompt_in_flight tag" if "map_of items key = Some tag" for key tag
    using map_of_SomeD[OF that] by (auto simp: filter_empty_conv)
  from True assms(1) have r: "n = 0" "items' = items" "dispatched = []" by (simp_all add: reissue_inflight_prompts_def Let_def)
  then show ?thesis using none by (auto split: option.splits)
next
  case False
  let ?uids = "map fst (filter (\<lambda>(key, tag). prompt_in_flight tag) items)"
  let ?old = "map fst (filter (\<lambda>(key, tag). \<not> tag_prompt tag \<and> split_first_part key \<in> set ?uids) items)"
  let ?tag = "tag_empty\<lparr>tag_is_prompt := Some True, tag_status := Some ''pending'', tag_global_steps := Some global_steps\<rparr>"
  let ?new = "map (\<lambda>(key, old). (key, if key \<in> set ?uids then tag_update ?tag old else old)) (filter (\<lambda>(key, _). key \<notin> set ?old) items)"
  have "reissue_inflight_prompts True global_steps items = (length ?uids, ?new, ?uids)"
    unfolding reissue_inflight_prompts_def Let_def using False by (simp only: if_False not_True_eq_False)
  then have r: "n = length ?uids" "dispatched = ?uids" "items' = ?new" using assms(1) by (simp_all only: prod.inject)
  have uids: "key \<in> set ?uids \<longleftrightarrow> (\<exists>tag. map_of items key = Some tag \<and> prompt_in_flight tag)" for key
    using dict_wf_map_of[OF assms(2)] by force
  have old: "key \<in> set ?old \<longleftrightarrow> (\<exists>tag. map_of items key = Some tag \<and> \<not> tag_prompt tag \<and> split_first_part key \<in> set ?uids)" for key
    using dict_wf_map_of[OF assms(2)] by force
  have mo: "map_of (map (\<lambda>(k, v). (k, g k v)) (filter (\<lambda>(k, _). k \<notin> X) kvs)) key =
      (if key \<in> X then None else map_option (g key) (map_of kvs key))" for g X kvs key
    by (induction kvs) auto
  have upd: "tag_update ?tag tag = tag\<lparr>tag_is_prompt := Some True, tag_status := Some ''pending'', tag_global_steps := Some global_steps\<rparr>" for tag :: "'v rb_tag"
    by (simp add: tag_update_def tag_empty_def)
  have "distinct dispatched"
    using assms(2) unfolding r by (simp add: dict_wf_def distinct_map_filter)
  moreover have "set dispatched = {key. \<exists>tag. map_of items key = Some tag \<and> prompt_in_flight tag}" unfolding r using uids by blast
  moreover have "map_of items' key = (case map_of items key of
       None \<Rightarrow> None
     | Some tag \<Rightarrow>
         if prompt_in_flight tag then Some (tag\<lparr>tag_is_prompt := Some True, tag_status := Some ''pending'', tag_global_steps := Some global_steps\<rparr>)
         else if \<not> tag_prompt tag \<and> split_first_part key \<in> set dispatched then None
         else Some tag)" for key
  proof (cases "map_of items key")
    case None
    then show ?thesis unfolding r mo by simp
  next
    case (Some tag)
    have o: "key \<in> set ?old \<longleftrightarrow> \<not> tag_prompt tag \<and> split_first_part key \<in> set ?uids"
      and u: "key \<in> set ?uids \<longleftrightarrow> prompt_in_flight tag" using old[of key] uids[of key] Some by auto
    show ?thesis unfolding r mo Some o u option.map option.case upd by (auto simp: prompt_in_flight_def)
  qed
  ultimately show ?thesis using r(1,2) by simp
qed


theorem reissue_exact_witness:
  "\<exists>n items' dispatched. reissue_inflight_prompts True 7
     [(''a'', tag_empty\<lparr>tag_is_prompt := Some True, tag_status := Some ''running''\<rparr>), (''a_0_0'', tag_empty :: unit rb_tag)] = (n, items', dispatched) \<and>
     n = length dispatched \<and> map_of items' ''a_0_0'' = None"
proof -
  let ?items = "[(''a'', tag_empty\<lparr>tag_is_prompt := Some True, tag_status := Some ''running''\<rparr>), (''a_0_0'', tag_empty :: unit rb_tag)]"
  obtain n items' dispatched where r: "reissue_inflight_prompts True 7 ?items = (n, items', dispatched)" by (metis surj_pair)
  have "dict_wf ?items" by (simp add: dict_wf_def)
  note f = reissue_exact[OF r this]
  have "''a'' \<in> set dispatched" using f by (simp add: prompt_in_flight_def tag_prompt_def tag_empty_def)
  then have "map_of items' ''a_0_0'' = None"
    using f by (simp add: prompt_in_flight_def tag_prompt_def tag_empty_def split_first_part_def)
  with r f show ?thesis by blast
qed

section \<open>Aggregation of metrics: properties\<close>

definition step_value :: "(string, metric) dict \<Rightarrow> string \<Rightarrow> real list" where
  "step_value metrics name = (case Option.bind (map_of metrics name) scalar_metric of None \<Rightarrow> [] | Some x \<Rightarrow> [x])"

lemma add_metrics_fold:
  fixes w :: "string \<Rightarrow> nat"
  assumes "distinct (map fst ms)"
  defines "upd \<equiv> \<lambda>(key, value) ma. case scalar_metric value of
       None \<Rightarrow> ma
     | Some x \<Rightarrow> ma\<lparr>ma_values := AList.update key (dict_get (ma_values ma) key [] @ [x]) (ma_values ma),
                   ma_weights := AList.update key (dict_get (ma_weights ma) key [] @ [w key]) (ma_weights ma)\<rparr>"
  shows "dict_get (ma_values (fold upd ms ma)) name [] = dict_get (ma_values ma) name [] @ step_value ms name \<and>
    dict_get (ma_weights (fold upd ms ma)) name [] = dict_get (ma_weights ma) name [] @ map (\<lambda>_. w name) (step_value ms name)"
  using assms(1)
proof (induction ms arbitrary: ma)
  case (Cons m ms)
  obtain key val where m: "m = (key, val)" by (cases m)
  have nin: "key \<notin> fst ` set ms" using Cons.prems m by simp
  then have none: "map_of ms key = None" by (simp add: map_of_eq_None_iff)
  show ?case
  proof (cases "scalar_metric val")
    case None
    then have "upd m ma = ma" by (simp add: upd_def m)
    with Cons None none m show ?thesis by (auto simp: step_value_def)
  next
    case (Some x)
    then have "upd m ma = ma\<lparr>ma_values := AList.update key (dict_get (ma_values ma) key [] @ [x]) (ma_values ma),
                   ma_weights := AList.update key (dict_get (ma_weights ma) key [] @ [w key]) (ma_weights ma)\<rparr>"
      by (simp add: upd_def m)
    with Cons Some none m show ?thesis by (auto simp: step_value_def dict_get_update)
  qed
qed (simp add: step_value_def)

lemma add_step_metrics_get:
  assumes "dict_wf metrics"
  shows "dict_get (ma_values (add_step_metrics metrics c ma)) name [] = dict_get (ma_values ma) name [] @ step_value metrics name"
    "dict_get (ma_weights (add_step_metrics metrics c ma)) name [] =
       dict_get (ma_weights ma) name [] @ map (\<lambda>_. metric_weight name metrics c) (step_value metrics name)"
    "0 < ma_step_count (add_step_metrics metrics c ma)"
proof -
  note f = add_metrics_fold[OF assms[unfolded dict_wf_def], of "\<lambda>key. metric_weight key metrics c" "ma\<lparr>ma_step_count := ma_step_count ma + 1\<rparr>" name]
  show "dict_get (ma_values (add_step_metrics metrics c ma)) name [] = dict_get (ma_values ma) name [] @ step_value metrics name"
    "dict_get (ma_weights (add_step_metrics metrics c ma)) name [] =
       dict_get (ma_weights ma) name [] @ map (\<lambda>_. metric_weight name metrics c) (step_value metrics name)"
    using f by (simp_all add: add_step_metrics_def)
  have "ma_step_count (fold (\<lambda>(key, value) ma.
         case scalar_metric value of
           None \<Rightarrow> ma
         | Some x \<Rightarrow> ma\<lparr>ma_values := AList.update key (dict_get (ma_values ma) key [] @ [x]) (ma_values ma),
                       ma_weights := AList.update key (dict_get (ma_weights ma) key [] @ [metric_weight key metrics c])
                         (ma_weights ma)\<rparr>) ms ma) = ma_step_count ma" for ms and ma :: metrics_aggregator
    by (induction ms arbitrary: ma) (auto split: option.splits)
  then show "0 < ma_step_count (add_step_metrics metrics c ma)" by (simp add: add_step_metrics_def)
qed

definition run_aggregator :: "((string, metric) dict \<times> nat) list \<Rightarrow> metrics_aggregator" where
  "run_aggregator steps = fold (\<lambda>(metrics, c). add_step_metrics metrics c) steps aggregator_start"

lemma run_aggregator_get:
  assumes "\<forall>(metrics, c) \<in> set steps. dict_wf metrics"
  shows "dict_get (ma_values (run_aggregator steps)) name [] = concat (map (\<lambda>(metrics, c). step_value metrics name) steps)"
    "dict_get (ma_weights (run_aggregator steps)) name [] =
       concat (map (\<lambda>(metrics, c). map (\<lambda>_. metric_weight name metrics c) (step_value metrics name)) steps)"
    "steps \<noteq> [] \<Longrightarrow> 0 < ma_step_count (run_aggregator steps)"
  using assms
proof (induction steps rule: rev_induct)
  case Nil
  { case 1 show ?case by (simp add: run_aggregator_def aggregator_start_def) }
  { case 2 show ?case by (simp add: run_aggregator_def aggregator_start_def) }
  { case 3 then show ?case by simp }
next
  case (snoc s steps)
  obtain metrics c where s: "s = (metrics, c)" by (cases s)
  have run: "run_aggregator (steps @ [(metrics, c)]) = add_step_metrics metrics c (run_aggregator steps)" by (simp add: run_aggregator_def)
  { case 1 then show ?case using snoc.IH(1) add_step_metrics_get(1)[of metrics c "run_aggregator steps" name] by (simp add: run s) }
  { case 2 then show ?case using snoc.IH(2) add_step_metrics_get(2)[of metrics c "run_aggregator steps" name] by (simp add: run s) }
  { case 3 then show ?case using add_step_metrics_get(3)[of metrics c "run_aggregator steps"] by (simp add: run s) }
qed


lemma map_of_aggregated: "map_of (map (\<lambda>(name, vs). (name, f name vs)) kvs) name = map_option (f name) (map_of kvs name)"
  by (induction kvs) auto

lemma minmax_is_max: "aggregation_type ''global_seqlen/minmax_diff'' = ''max''"
  by code_simp

text \<open>
  The mean of means is the mean: a metric that is averaged, reported by each iteration of a step as the mean over the
  samples of that iteration, is aggregated to the mean over all samples of the step.
\<close>

theorem weighted_average_is_pooled_mean:
  assumes "aggregation_type name = ''weighted_avg''" "\<not> ends_with ''/off_policy/dropped_samples_staleness/mean'' name"
    "iterations \<noteq> []" "[] \<notin> set (map snd iterations)"
    "\<forall>(metrics, samples) \<in> set iterations. dict_wf metrics \<and> map_of metrics name = Some (Num_Metric (torch_mean samples))"
  shows "map_of (get_aggregated_metrics (run_aggregator (map (\<lambda>(metrics, samples). (metrics, length samples)) iterations))) name =
    Some (torch_mean (concat (map snd iterations)))"
proof -
  let ?steps = "map (\<lambda>(metrics, samples :: real list). (metrics, length samples)) iterations"
  let ?ma = "run_aggregator ?steps"
  have wf: "\<forall>(metrics, c) \<in> set ?steps. dict_wf metrics" using assms(5) by auto
  have sv: "step_value m name = [torch_mean xs]" "metric_weight name m (length xs) = length xs" if "(m, xs) \<in> set iterations" for m xs
    using assms(2,5) that by (auto simp: step_value_def scalar_metric_def metric_weight_def)
  have vals: "dict_get (ma_values ?ma) name [] = map (\<lambda>(_, xs). torch_mean xs) iterations"
  proof -
    have "concat (map (\<lambda>(metrics, c). step_value metrics name) ?steps) = map (\<lambda>(_, xs). torch_mean xs) iterations"
    proof -
      have "map (\<lambda>(metrics, c). step_value metrics name) ?steps = map (\<lambda>(_, xs). [torch_mean xs]) iterations" using sv(1) by auto
      then show ?thesis by (simp only:) (induction iterations, auto)
    qed
    then show ?thesis by (simp only: run_aggregator_get(1)[OF wf])
  qed
  have wts: "dict_get (ma_weights ?ma) name [] = map (\<lambda>(_, xs). length xs) iterations"
  proof -
    have "concat (map (\<lambda>(metrics, c). map (\<lambda>_. metric_weight name metrics c) (step_value metrics name)) ?steps) = map (\<lambda>(_, xs). length xs) iterations"
    proof -
      have "map (\<lambda>(metrics, c). map (\<lambda>_. metric_weight name metrics c) (step_value metrics name)) ?steps = map (\<lambda>(_, xs). [length xs]) iterations"
        using sv by auto
      then show ?thesis by (simp only:) (induction iterations, auto)
    qed
    then show ?thesis by (simp only: run_aggregator_get(2)[OF wf])
  qed
  have pos: "sum_list (map (\<lambda>(_, xs). length xs) iterations) \<noteq> 0"
    using assms(3,4) by (cases iterations) auto
  have len: "length (map (\<lambda>(_, xs). torch_mean xs) iterations) = length (map (\<lambda>(_, xs). length xs) iterations)" by simp
  have "(\<Sum>(_, xs) \<leftarrow> iterations. torch_mean xs * real (length xs)) = sum_list (concat (map snd iterations))"
    using assms(4) by (induction iterations) (auto simp: torch_mean_def)
  moreover have "map2 (\<lambda>v c. v * real c) (map (\<lambda>(_, xs). torch_mean xs) iterations) (map (\<lambda>(_, xs). length xs) iterations) =
      map (\<lambda>(_, xs). torch_mean xs * real (length xs)) iterations"
    by (induction iterations) auto
  moreover have "length (concat (map snd iterations)) = sum_list (map (\<lambda>(_, xs). length xs) iterations)"
    by (induction iterations) auto
  ultimately have pooled: "sum_list (map2 (\<lambda>v c. v * real c) (map (\<lambda>(_, xs). torch_mean xs) iterations) (map (\<lambda>(_, xs). length xs) iterations)) /
      real (sum_list (map (\<lambda>(_, xs). length xs) iterations)) = torch_mean (concat (map snd iterations))"
    by (simp only: torch_mean_def)
  have ws: "aggregate_single_metric ?ma name vs = sum_list (map2 (\<lambda>v c. v * real c) vs (dict_get (ma_weights ?ma) name [])) /
      real (sum_list (dict_get (ma_weights ?ma) name []))"
    if "vs \<noteq> []" "length vs = length (dict_get (ma_weights ?ma) name [])" "sum_list (dict_get (ma_weights ?ma) name []) \<noteq> 0" for vs
    unfolding aggregate_single_metric_def Let_def using that assms(1) by (simp only: refl if_True if_False de_Morgan_disj not_False_eq_True simp_thms) simp
  have agg: "aggregate_single_metric ?ma name (map (\<lambda>(_, xs). torch_mean xs) iterations) = torch_mean (concat (map snd iterations))"
    using ws[of "map (\<lambda>(_, xs). torch_mean xs) iterations", unfolded wts, OF _ len pos] assms(3) pooled by (simp only: map_is_Nil_conv not_False_eq_True)
  have mo: "map_of (ma_values ?ma) name = Some (map (\<lambda>(_, xs). torch_mean xs) iterations)"
  proof (cases "map_of (ma_values ?ma) name")
    case None
    then show ?thesis using vals assms(3) by (simp add: dict_get_def)
  next
    case (Some v)
    then show ?thesis using vals by (simp add: dict_get_def)
  qed
  have ne: "name \<noteq> ''global_seqlen/minmax_diff''" using assms(1) minmax_is_max by auto
  have "0 < ma_step_count ?ma" using assms(3) run_aggregator_get(3)[OF wf] by simp
  then show ?thesis
    using mo agg ne unfolding get_aggregated_metrics_def Let_def
    by (auto simp: map_of_aggregated split: option.splits)
qed

theorem weighted_average_is_pooled_mean_witness:
  "map_of (get_aggregated_metrics (run_aggregator [([(''actor/loss'', Num_Metric 1)], 1), ([(''actor/loss'', Num_Metric 4)], 2)])) ''actor/loss'' = Some 3"
proof -
  let ?it = "[([(''actor/loss'', Num_Metric 1)], [1]), ([(''actor/loss'', Num_Metric 4)], [3, 5 :: real])]"
  have t: "aggregation_type ''actor/loss'' = ''weighted_avg''" by code_simp
  have e: "\<not> ends_with ''/off_policy/dropped_samples_staleness/mean'' ''actor/loss''" by code_simp
  from weighted_average_is_pooled_mean[OF t e, of ?it]
  show ?thesis by (simp add: torch_mean_def dict_wf_def numeral_eq_Suc)
qed

section \<open>Lemmas on sessions\<close>

text \<open>The session and the output index of a row.\<close>

definition row_session :: "string list \<Rightarrow> nat \<Rightarrow> string" where
  "row_session keys i = (case parse_key (keys ! i) of Inl _ \<Rightarrow> [] | Inr (uid, session_id, _) \<Rightarrow> uid @ ''_'' @ session_id)"

definition row_output :: "string list \<Rightarrow> nat \<Rightarrow> nat" where
  "row_output keys i = (case parse_key (keys ! i) of Inl _ \<Rightarrow> 0 | Inr (_, _, j) \<Rightarrow> j)"

definition keys_parse :: "string list \<Rightarrow> bool" where
  "keys_parse keys \<longleftrightarrow> (\<forall>key \<in> set keys. \<exists>x. parse_key key = Inr x)"

definition finals_inv :: "string list \<Rightarrow> nat \<Rightarrow> (string, nat \<times> nat) dict \<Rightarrow> bool" where
  "finals_inv keys n finals \<longleftrightarrow> dict_wf finals \<and>
     (\<forall>s. (s \<in> row_session keys ` {0..<n}) = (map_of finals s \<noteq> None)) \<and>
     (\<forall>s j i. map_of finals s = Some (j, i) \<longrightarrow> i < n \<and> row_session keys i = s \<and> row_output keys i = j \<and>
        (\<forall>k < n. row_session keys k = s \<longrightarrow> row_output keys k \<le> j))"

lemma final_session_step_row:
  assumes "keys_parse keys" "i < length keys"
  shows "final_session_step (i, keys ! i) (finals, rows) =
    Inr (case map_of finals (row_session keys i) of
           None \<Rightarrow> AList.update (row_session keys i) (row_output keys i, i) finals
         | Some (best, _) \<Rightarrow> if best < row_output keys i then AList.update (row_session keys i) (row_output keys i, i) finals else finals,
         rows @ [row_session keys i])"
proof -
  obtain u s j where p: "parse_key (keys ! i) = Inr (u, s, j)" using assms by (metis keys_parse_def nth_mem prod_cases3)
  then have "row_session keys i = u @ ''_'' @ s" "row_output keys i = j" by (simp_all add: row_session_def row_output_def)
  then show ?thesis unfolding final_session_step_def prod.case p res_bind_Inr Let_def by (simp only:)
qed

lemma finals_inv_update:
  assumes "finals_inv keys n finals" "\<And>j i. map_of finals (row_session keys n) = Some (j, i) \<Longrightarrow> j < row_output keys n"
  shows "finals_inv keys (Suc n) (AList.update (row_session keys n) (row_output keys n, n) finals)"
  unfolding finals_inv_def
proof (intro conjI allI impI)
  note inv = assms(1)[unfolded finals_inv_def]
  show "dict_wf (AList.update (row_session keys n) (row_output keys n, n) finals)" using inv by simp
  show "(s \<in> row_session keys ` {0..<Suc n}) = (map_of (AList.update (row_session keys n) (row_output keys n, n) finals) s \<noteq> None)" for s
    using inv by (auto simp: atLeast0_lessThan_Suc)
  fix s j i
  assume m: "map_of (AList.update (row_session keys n) (row_output keys n, n) finals) s = Some (j, i)"
  show "i < Suc n" "row_session keys i = s" "row_output keys i = j" using m inv by (auto split: if_splits intro: less_SucI)
  fix k
  assume k: "k < Suc n" "row_session keys k = s"
  show "row_output keys k \<le> j"
  proof (cases "s = row_session keys n")
    case False
    then have "map_of finals s = Some (j, i)" using m by (simp add: fun_upd_def split: if_splits)
    moreover have "k < n" using k False less_antisym[of k n] by fastforce
    ultimately show ?thesis using inv k(2) by blast
  next
    case True
    then have j: "j = row_output keys n" using m by auto
    show ?thesis
    proof (cases "k = n")
      case False
      then have "k < n" using k(1) by simp
      then have "row_session keys n \<in> row_session keys ` {0..<n}" using k(2) True by (metis atLeast0LessThan imageI lessThan_iff)
      then obtain j' i' where "map_of finals (row_session keys n) = Some (j', i')" using inv by fastforce
      then have "row_output keys k \<le> j'" "j' < row_output keys n" using inv \<open>k < n\<close> k(2) True assms(2) by blast+
      then show ?thesis using j by simp
    qed (use j in simp)
  qed
qed

lemma finals_inv_keep:
  assumes "finals_inv keys n finals" "map_of finals (row_session keys n) = Some (best, i)" "row_output keys n \<le> best"
  shows "finals_inv keys (Suc n) finals"
  using assms unfolding finals_inv_def
  by (auto simp: atLeast0_lessThan_Suc less_Suc_eq)

lemma finals_inv_step:
  assumes "finals_inv keys n finals"
  shows "finals_inv keys (Suc n) (case map_of finals (row_session keys n) of
           None \<Rightarrow> AList.update (row_session keys n) (row_output keys n, n) finals
         | Some (best, _) \<Rightarrow> if best < row_output keys n then AList.update (row_session keys n) (row_output keys n, n) finals else finals)"
  using finals_inv_update[OF assms] finals_inv_keep[OF assms] by (auto split: option.split)

lemma final_sessions_Inr:
  assumes "keys_parse keys"
  obtains finals where "final_sessions keys = Inr (finals, map (row_session keys) [0..<length keys])" "finals_inv keys (length keys) finals"
proof -
  let ?I = "\<lambda>pre (finals, rows). rows = map (row_session keys) [0..<length pre] \<and> finals_inv keys (length pre) finals"
  have "\<exists>s'. res_fold final_session_step (enumerate 0 keys) ([], []) = Inr s' \<and> ?I (enumerate 0 keys) s'"
  proof (rule res_fold_invariant)
    show "?I [] ([], [])" by (simp add: finals_inv_def)
  next
    fix pre x post s
    assume e: "enumerate 0 keys = pre @ x # post" and I: "?I pre s"
    let ?n = "length pre"
    have n: "?n < length keys" using arg_cong[OF e, of length] by simp
    have "enumerate 0 keys ! ?n = (0 + ?n, keys ! ?n)" by (rule nth_enumerate_eq[OF n])
    then have x: "x = (?n, keys ! ?n)" unfolding e by simp
    obtain finals rows where s: "s = (finals, rows)" by (cases s)
    have "rows = map (row_session keys) [0..<?n]" "finals_inv keys ?n finals" using I s by simp_all
    then show "\<exists>s'. final_session_step x s = Inr s' \<and> ?I (pre @ [x]) s'"
      unfolding x s final_session_step_row[OF assms n] using finals_inv_step[of keys ?n finals] by simp
  qed
  then show thesis using that by (auto simp: final_sessions_def)
qed

lemma mask_argmax:
  fixes row :: "real list"
  assumes "set row \<subseteq> {0, 1}" "1 \<in> set row"
  obtains k where "row_argmax row = Inr k" "k < length row" "row ! k = 1"
proof -
  have "Max (set row) = 1" using assms by (intro Max_eqI) auto
  then have r: "row_argmax row = Inr (length (takeWhile (\<lambda>x. x \<noteq> 1) row))" using assms(2) by (auto simp: row_argmax_def)
  have "length (takeWhile (\<lambda>x. x \<noteq> 1) row) < length row"
    using assms(2) by (induction row) auto
  then show thesis using r nth_length_takeWhile[of "\<lambda>x. x \<noteq> 1" row] that by blast
qed

text \<open>What a row of scores, one number over the mask, holds at the argmax of the mask: zero when nothing is unmasked.\<close>

lemma score_at_mask:
  fixes row :: "real list"
  assumes "set row \<subseteq> {0, 1}" "row \<noteq> []"
  shows "\<exists>k. row_argmax row = Inr k \<and> (\<forall>a. map (\<lambda>m. a * m) row ! k = (if 1 \<in> set row then a else 0))"
proof (cases "1 \<in> set row")
  case True
  then show ?thesis using mask_argmax[OF assms(1) True] by (metis mult.right_neutral nth_map)
next
  case False
  then have "set row \<subseteq> {0}" using assms(1) by blast
  moreover have "set row \<noteq> {}" using assms(2) by simp
  ultimately have zero: "set row = {0}" by (simp only: subset_singleton_iff) simp
  with assms(2) obtain rest where r: "row = 0 # rest" by (cases row) auto
  have "row_argmax row = Inr 0" unfolding row_argmax_def zero by (simp add: r)
  then show ?thesis using False by (intro exI[of _ 0]) (simp add: r)
qed

text \<open>The rows the advantages are computed from: one per session, with the largest output index.\<close>

definition final_rows :: "string list \<Rightarrow> nat list \<Rightarrow> bool" where
  "final_rows keys rows \<longleftrightarrow> distinct (map (row_session keys) rows) \<and> set rows \<subseteq> {0..<length keys} \<and>
     row_session keys ` set rows = row_session keys ` {0..<length keys} \<and>
     (\<forall>f \<in> set rows. \<forall>i < length keys. row_session keys i = row_session keys f \<longrightarrow> row_output keys i \<le> row_output keys f)"

lemma final_rows_of:
  assumes "finals_inv keys (length keys) finals"
  shows "final_rows keys (map (snd \<circ> snd) finals)" "map (row_session keys) (map (snd \<circ> snd) finals) = map fst finals"
proof -
  have entry: "i < length keys" "row_session keys i = s" "row_output keys i = j" "\<forall>k < length keys. row_session keys k = s \<longrightarrow> row_output keys k \<le> j"
    if "(s, j, i) \<in> set finals" for s j i
    using assms that dict_wf_map_of[of finals s "(j, i)"] unfolding finals_inv_def by blast+
  show names: "map (row_session keys) (map (snd \<circ> snd) finals) = map fst finals" using entry(2) by auto
  have "fst ` set finals = row_session keys ` {0..<length keys}"
    using assms unfolding finals_inv_def by (auto simp: map_of_eq_None_iff)
  moreover have "row_session keys ` set (map (snd \<circ> snd) finals) = fst ` set finals"
    using arg_cong[OF names, of set] by (simp only: set_map)
  ultimately have img: "row_session keys ` set (map (snd \<circ> snd) finals) = row_session keys ` {0..<length keys}" by simp
  have "distinct (map fst finals)" using assms by (simp add: finals_inv_def dict_wf_def)
  moreover have "set (map (snd \<circ> snd) finals) \<subseteq> {0..<length keys}" using entry(1) by auto
  moreover have "\<forall>f \<in> set (map (snd \<circ> snd) finals). \<forall>i < length keys. row_session keys i = row_session keys f \<longrightarrow> row_output keys i \<le> row_output keys f"
    using entry by fastforce
  ultimately show "final_rows keys (map (snd \<circ> snd) finals)" using img names by (simp only: final_rows_def)
qed

text \<open>
  C32: sessions with several outputs: the group relative advantage is computed from the last output of every session alone,
  and each output of the session gets that advantage over its own response tokens. When the mask of the last output is zero
  throughout, as for synthetic samples, every output of its session gets zero. Masks are rows of zeros and ones, none of them empty.
\<close>

theorem session_shares_final_advantage:
  assumes "keys_parse keys" "length rewards = length keys" "length msk = length keys" "length uid = length keys"
    "\<forall>row \<in> set msk. set row \<subseteq> {0, 1} \<and> row \<noteq> []"
  shows "\<exists>rows adv. final_rows keys rows \<and> length adv = length rows \<and>
    compute_grpo_outcome_advantage (map ((!) rewards) rows) (map ((!) msk) rows) (map ((!) uid) rows) eps norm_by_std =
      Inr (scale_rows adv (map ((!) msk) rows)) \<and>
    (\<exists>out. compute_advantage_for_multi_trajectories keys rewards msk uid eps norm_by_std = Inr out \<and> length out = length keys \<and>
       (\<forall>i < length keys. \<exists>k < length rows. row_session keys (rows ! k) = row_session keys i \<and>
          out ! i = map (\<lambda>m. (if 1 \<in> set (msk ! (rows ! k)) then adv ! k else 0) * m) (msk ! i)))"
proof -
  let ?n = "length keys"
  obtain finals where fin: "final_sessions keys = Inr (finals, map (row_session keys) [0..<?n])" "finals_inv keys ?n finals"
    by (rule final_sessions_Inr[OF assms(1)])
  let ?rows = "map (snd \<circ> snd) finals"
  note rows = final_rows_of[OF fin(2)]
  have lt: "\<forall>r \<in> set ?rows. r < ?n" using rows(1) by (auto simp: final_rows_def)
  obtain adv where adv: "length adv = length finals"
    "compute_grpo_outcome_advantage (map ((!) rewards) ?rows) (map ((!) msk) ?rows) (map ((!) uid) ?rows) eps norm_by_std =
      Inr (scale_rows adv (map ((!) msk) ?rows))"
    by (rule that[OF _ grpo_closed_form]) (simp_all add: row_sums_def)
  let ?final = "\<lambda>r a. if (1 :: real) \<in> set (msk ! r) then a else (0 :: real)"
  have "\<forall>r \<in> set ?rows. \<exists>k. row_argmax (msk ! r) = Inr k \<and> (\<forall>a. map (\<lambda>m. a * m) (msk ! r) ! k = ?final r a)"
  proof
    fix r assume "r \<in> set ?rows"
    then have "msk ! r \<in> set msk" using assms(3) lt by (metis nth_mem)
    then have "set (msk ! r) \<subseteq> {0, 1}" "msk ! r \<noteq> []" using assms(5) by simp_all
    then show "\<exists>k. row_argmax (msk ! r) = Inr k \<and> (\<forall>a. map (\<lambda>m. a * m) (msk ! r) ! k = ?final r a)"
      by (rule score_at_mask)
  qed
  then obtain pos where pos: "\<And>r. r \<in> set ?rows \<Longrightarrow> row_argmax (msk ! r) = Inr (pos r) \<and> (\<forall>a. map (\<lambda>m. a * m) (msk ! r) ! pos r = ?final r a)"
    by metis
  have argm: "res_map row_argmax (map ((!) msk) ?rows) = Inr (map pos ?rows)"
    unfolding res_map_Inr_iff using pos by (auto simp: list_all2_conv_all_nth)
  define score where "score = map2 ?final ?rows adv"
  have scores: "map2 (!) (scale_rows adv (map ((!) msk) ?rows)) (map pos ?rows) = score"
    using adv(1) pos by (intro nth_equalityI) (auto simp: scale_rows_def score_def)
  have nodup: "distinct (map fst finals)" using fin(2) by (simp add: finals_inv_def dict_wf_def)
  have "\<forall>i < ?n. \<exists>k < length finals. map fst finals ! k = row_session keys i"
  proof (intro allI impI)
    fix i assume "i < ?n"
    then have "row_session keys i \<in> row_session keys ` set ?rows" using rows(1) by (auto simp: final_rows_def)
    then have "row_session keys i \<in> set (map fst finals)" unfolding rows(2)[symmetric] by (simp only: set_map)
    then show "\<exists>k < length finals. map fst finals ! k = row_session keys i" by (metis in_set_conv_nth length_map)
  qed
  then obtain loc where loc: "\<And>i. i < ?n \<Longrightarrow> loc i < length finals \<and> map fst finals ! loc i = row_session keys i" by metis
  have "map_of (zip (map fst finals) [0..<length finals]) (row_session keys i) = Some (loc i)" if "i < ?n" for i
    using map_of_zip_nth[of "map fst finals" "[0..<length finals]" "loc i"] nodup loc[OF that] by simp
  then have local: "res_map (\<lambda>s. case map_of (zip (map fst finals) [0..<length finals]) s of None \<Rightarrow> Inl KeyError | Some j \<Rightarrow> Inr j)
      (map (row_session keys) [0..<?n]) = Inr (map loc [0..<?n])"
    unfolding res_map_Inr_iff by (auto simp: list_all2_conv_all_nth)
  have "compute_advantage_for_multi_trajectories keys rewards msk uid eps norm_by_std = Inr (scale_rows (map ((!) score) (map loc [0..<?n])) msk)"
    unfolding compute_advantage_for_multi_trajectories_def fin(1) res_bind_Inr prod.case Let_def local adv(2) argm scores by (rule refl)
  moreover have "\<forall>i < ?n. \<exists>k < length ?rows. row_session keys (?rows ! k) = row_session keys i \<and>
      scale_rows (map ((!) score) (map loc [0..<?n])) msk ! i = map (\<lambda>m. ?final (?rows ! k) (adv ! k) * m) (msk ! i)"
  proof (intro allI impI)
    fix i assume i: "i < ?n"
    have l: "loc i < length ?rows" using loc[OF i] by simp
    have "row_session keys (?rows ! loc i) = row_session keys i"
      using loc[OF i] arg_cong[OF rows(2), of "\<lambda>l. l ! loc i"] by (simp del: map_map)
    moreover have "score ! loc i = ?final (?rows ! loc i) (adv ! loc i)"
      using l adv(1) by (simp add: score_def)
    then have "scale_rows (map ((!) score) (map loc [0..<?n])) msk ! i = map (\<lambda>m. ?final (?rows ! loc i) (adv ! loc i) * m) (msk ! i)"
      using i assms(3) by (simp only: scale_rows_def) simp
    ultimately show "\<exists>k < length ?rows. row_session keys (?rows ! k) = row_session keys i \<and>
      scale_rows (map ((!) score) (map loc [0..<?n])) msk ! i = map (\<lambda>m. ?final (?rows ! k) (adv ! k) * m) (msk ! i)" using l by blast
  qed
  moreover have "length (scale_rows (map ((!) score) (map loc [0..<?n])) msk) = ?n" using assms(3) by (simp add: scale_rows_def)
  ultimately show ?thesis using rows(1) adv by (intro exI[of _ ?rows] exI[of _ adv]) auto
qed

theorem session_shares_final_advantage_witness:
  "\<exists>out. compute_advantage_for_multi_trajectories [''u_0_0'', ''u_0_1'', ''u_1_0''] [[1], [2], [4]] [[1], [0], [1]] ''uuu'' 0 False = Inr out \<and> length out = 3"
proof -
  have "parse_key ''u_0_0'' = Inr (''u'', ''0'', 0)" "parse_key ''u_0_1'' = Inr (''u'', ''0'', 1)" "parse_key ''u_1_0'' = Inr (''u'', ''1'', 0)"
    by code_simp+
  then have "keys_parse [''u_0_0'', ''u_0_1'', ''u_1_0'']" by (simp add: keys_parse_def)
  from session_shares_final_advantage[OF this, of "[[1], [2], [4]]" "[[1], [0], [1]]" "''uuu''" 0 False] show ?thesis by auto
qed

end
