(* ===== verification/Fused_Head.thy ===== *)
theory Fused_Head
  imports Policy_Loss
begin

text \<open>
  Log probabilities and entropies of the output head without stored logits: the Triton kernels of
  \<open>src/verl/verl/utils/kernel/kernels.py\<close> and their host functions, the chunked head of
  \<open>utils/experimental/torch_functional.py\<close>, and the entropies over sharded logits of
  \<open>utils/megatron/tensor_parallel.py\<close>. Numbers are exact reals; \<open>-inf\<close> of a running maximum is \<open>None\<close>. A kernel is
  the function of its program ids: the row blocks write disjoint tokens, so the loads, stores and sums are modelled for
  each token, with the column blocks and their masks as the code has them. The pointer path of the loads is modelled
  (\<open>USE_TMA\<close> off).
\<close>

section \<open>Blocks\<close>

definition tl_cdiv :: "nat \<Rightarrow> nat \<Rightarrow> nat" where
  "tl_cdiv a b = (a + b - 1) div b"

definition tl_arange :: "nat \<Rightarrow> nat \<Rightarrow> nat list" where
  "tl_arange start len = [start..<start + len]"

definition tl_load :: "'a list \<Rightarrow> nat \<Rightarrow> 'a \<Rightarrow> nat list \<Rightarrow> 'a list" where
  "tl_load xs bound other offs = map (\<lambda>c. if c < bound then xs ! c else other) offs"

text \<open>\<open>-inf\<close> in maxima and in the exponent of a difference.\<close>

fun opt_max :: "real option \<Rightarrow> real option \<Rightarrow> real option" where
  "opt_max None y = y"
| "opt_max x None = x"
| "opt_max (Some x) (Some y) = Some (max x y)"

definition tl_max :: "real option list \<Rightarrow> real option" where
  "tl_max xs = fold opt_max xs None"

fun exp_sub :: "real option \<Rightarrow> real option \<Rightarrow> real" where
  "exp_sub (Some x) (Some y) = exp (x - y)"
| "exp_sub _ _ = 0"

text \<open>\<open>tl.log\<close>: no finite result for a sum that is not positive.\<close>

definition tl_log :: "real \<Rightarrow> real option" where
  "tl_log x = (if 0 < x then Some (ln x) else None)"

record blocks =
  bl_m :: nat
  bl_n :: nat
  bl_k :: nat
  bl_split :: nat
  bl_epilogue_m :: nat
  bl_epilogue_n :: nat

section \<open>The forward kernels\<close>

text \<open>
  The memory that the pointers of a row run over: its elements, then \<open>beyond\<close>. A tensor is contiguous, so the rows after it
  follow; \<open>unset\<close> is what stands after the tensor.
\<close>

definition row_memory :: "real list \<Rightarrow> (nat \<Rightarrow> real) \<Rightarrow> nat \<Rightarrow> real" where
  "row_memory h beyond c = (if c < length h then h ! c else beyond (c - length h))"

definition beyond_row :: "mat \<Rightarrow> real \<Rightarrow> nat \<Rightarrow> nat \<Rightarrow> real" where
  "beyond_row m unset i j = (let rest = concat (drop (Suc i) m) in if j < length rest then rest ! j else unset)"

text \<open>
  The column on which the pointers stand after \<open>n\<close> runs of the loop over K: a run advances them by whole blocks, and what follows
  it takes \<open>hidden_size\<close> back.
\<close>

definition pointer_shift :: "nat \<Rightarrow> nat \<Rightarrow> nat \<Rightarrow> nat" where
  "pointer_shift block_k hidden_size n = n * (tl_cdiv hidden_size block_k * block_k - hidden_size)"

text \<open>
  The loop over the K dimension of a tile, for one row of \<open>hidden\<close> and one row of \<open>weight\<close>, masked beyond \<open>bound\<close>. The pointers to
  \<open>hidden\<close> start \<open>shift\<close> columns into the row, those to \<open>weight\<close> are made for every tile. The mask counts from the start of the pointers.
\<close>

definition weight_row :: "mat \<Rightarrow> nat \<Rightarrow> nat \<Rightarrow> nat \<Rightarrow> real list" where
  "weight_row weight bound hidden_size c = (if c < bound then weight ! c else replicate hidden_size 0)"

definition tile_dot :: "nat \<Rightarrow> nat \<Rightarrow> real list \<Rightarrow> (nat \<Rightarrow> real) \<Rightarrow> nat \<Rightarrow> real list \<Rightarrow> real" where
  "tile_dot block_k hidden_size h beyond shift w =
     fold (\<lambda>k acc. let offs_k = tl_arange (k * block_k) block_k
         in acc + sum_list (map2 (*) (map (\<lambda>c. if c < hidden_size then row_memory h beyond (shift + c) else 0) offs_k)
              (tl_load w hidden_size 0 offs_k)))
       [0..<tl_cdiv hidden_size block_k] 0"

definition tile_logits ::
  "blocks \<Rightarrow> real \<Rightarrow> real list \<Rightarrow> (nat \<Rightarrow> real) \<Rightarrow> nat \<Rightarrow> mat \<Rightarrow> nat \<Rightarrow> nat list \<Rightarrow> real list" where
  "tile_logits bl rcp_temperature h beyond shift weight bound offs_bn =
     map (\<lambda>c. tile_dot (bl_k bl) (length h) h beyond shift (weight_row weight bound (length h) c) * rcp_temperature) offs_bn"

text \<open>One iteration of the loop over the columns of a split; the state is the maximum, the sum, the weighted sum and the logit of the label.\<close>

definition mainloop_step ::
  "blocks \<Rightarrow> real \<Rightarrow> nat \<Rightarrow> nat \<Rightarrow> real list \<Rightarrow> (nat \<Rightarrow> real) \<Rightarrow> mat \<Rightarrow> nat \<Rightarrow> nat \<Rightarrow>
   real option \<times> real \<times> real \<times> real \<Rightarrow> real option \<times> real \<times> real \<times> real" where
  "mainloop_step bl rcp_temperature tp_rank label h beyond weight pid_n n = (\<lambda>(max_old, accu, entropy_b, logprobs).
     let vocab_size = length weight;
         vocab_bound = min ((pid_n + 1) * bl_split bl) vocab_size;
         offs_bn = tl_arange (pid_n * bl_split bl + n * bl_n bl) (bl_n bl);
         logits = tile_logits bl rcp_temperature h beyond (pointer_shift (bl_k bl) (length h) n) weight vocab_bound offs_bn;
         logits_for_lse = map2 (\<lambda>c l. if c < vocab_bound then Some l else None) offs_bn logits;
         m = opt_max max_old (tl_max logits_for_lse);
         exp_logits = map (\<lambda>l. exp_sub l m) logits_for_lse;
         coeff = exp_sub max_old m
     in (m, coeff * accu + sum_list exp_logits, entropy_b * coeff + sum_list (map2 (*) logits exp_logits),
         logprobs + sum_list (map2 (\<lambda>c l. l * (if c + tp_rank * vocab_size = label then 1 else 0)) offs_bn logits)))"

definition efficient_entropy_kernel_general_mainloop ::
  "blocks \<Rightarrow> real \<Rightarrow> nat \<Rightarrow> nat \<Rightarrow> real list \<Rightarrow> (nat \<Rightarrow> real) \<Rightarrow> mat \<Rightarrow> nat \<Rightarrow> real option \<times> real \<times> real \<times> real" where
  "efficient_entropy_kernel_general_mainloop bl rcp_temperature tp_rank label h beyond weight pid_n =
     fold (mainloop_step bl rcp_temperature tp_rank label h beyond weight pid_n) [0..<tl_cdiv (bl_split bl) (bl_n bl)] (None, 0, 0, 0)"

text \<open>The masked store of the logit: by the split whose columns hold the label.\<close>

definition store_logprobs :: "blocks \<Rightarrow> nat \<Rightarrow> nat \<Rightarrow> nat \<Rightarrow> real list \<Rightarrow> real \<Rightarrow> real" where
  "store_logprobs bl tp_rank vocab_size label vs init =
     fold (\<lambda>(pid_n, v) x.
         let vocab_left_idx = pid_n * bl_split bl + tp_rank * vocab_size;
             vocab_right_idx = min ((pid_n + 1) * bl_split bl) vocab_size + tp_rank * vocab_size
         in if vocab_left_idx \<le> label \<and> label < vocab_right_idx then v else x)
       (enumerate 0 vs) init"

text \<open>What the launch of the mainloop stores for a token: maxima, sums and weighted sums per split, and the logit of the label.\<close>

definition mainloop_launch ::
  "blocks \<Rightarrow> real \<Rightarrow> nat \<Rightarrow> nat \<Rightarrow> real list \<Rightarrow> (nat \<Rightarrow> real) \<Rightarrow> mat \<Rightarrow> real \<Rightarrow> real option list \<times> real list \<times> real list \<times> real" where
  "mainloop_launch bl rcp_temperature tp_rank label h beyond weight init =
     (let outs = map (efficient_entropy_kernel_general_mainloop bl rcp_temperature tp_rank label h beyond weight)
            [0..<tl_cdiv (length weight) (bl_split bl)]
      in (map fst outs, map (fst \<circ> snd) outs, map (fst \<circ> snd \<circ> snd) outs,
          store_logprobs bl tp_rank (length weight) label (map (snd \<circ> snd \<circ> snd) outs) init))"

text \<open>One iteration of the epilogue over the splits: the maxima that scale are those that were stored with the sums.\<close>

definition epilogue_step ::
  "nat \<Rightarrow> real option list \<Rightarrow> real option list \<Rightarrow> real list \<Rightarrow> real list \<Rightarrow> nat \<Rightarrow> real \<times> real \<times> real \<Rightarrow> real \<times> real \<times> real" where
  "epilogue_step block_n reduced_max original_max accu entropy_b pid_n = (\<lambda>(max_old, global_accu, global_entropy_b).
     let num_splits = length accu;
         offs_n = tl_arange (pid_n * block_n) block_n;
         local_max = tl_max (tl_load reduced_max num_splits (Some 0) offs_n);
         global_max = (case local_max of None \<Rightarrow> max_old | Some l \<Rightarrow> max max_old l);
         scale = map (\<lambda>m. exp_sub m (Some global_max)) (tl_load original_max num_splits (Some 0) offs_n);
         coeff = exp (max_old - global_max)
     in (global_max, coeff * global_accu + sum_list (map2 (*) scale (tl_load accu num_splits 0 offs_n)),
         coeff * global_entropy_b + sum_list (map2 (*) scale (tl_load entropy_b num_splits 0 offs_n))))"

definition epilogue_loop ::
  "nat \<Rightarrow> real option list \<Rightarrow> real option list \<Rightarrow> real list \<Rightarrow> real list \<Rightarrow> real \<times> real \<times> real" where
  "epilogue_loop block_n reduced_max original_max accu entropy_b =
     fold (epilogue_step block_n reduced_max original_max accu entropy_b) [0..<tl_cdiv (length accu) block_n] (0, 0, 0)"

text \<open>What the epilogue stores for a token: maximum, sum, the mean logit, entropy and log probability.\<close>

record head_row =
  hr_maximum :: real
  hr_accumulate :: real
  hr_entropy_b :: real
  hr_entropy :: "real option"
  hr_logprob :: "real option"

definition finish_row :: "real \<Rightarrow> real \<Rightarrow> real \<Rightarrow> real \<Rightarrow> head_row" where
  "finish_row maximum accumulate entropy_b logit =
     (let entropy_b = entropy_b / accumulate
      in \<lparr>hr_maximum = maximum, hr_accumulate = accumulate, hr_entropy_b = entropy_b,
          hr_entropy = map_option (\<lambda>la. la + maximum - entropy_b) (tl_log accumulate),
          hr_logprob = map_option (\<lambda>la. - 1 * (maximum + la - logit)) (tl_log accumulate)\<rparr>)"

definition efficient_entropy_triton_kernel_epilogue ::
  "blocks \<Rightarrow> real option list \<Rightarrow> real list \<Rightarrow> real list \<Rightarrow> real \<Rightarrow> head_row" where
  "efficient_entropy_triton_kernel_epilogue bl maxs accu entropy_b logit =
     (let (global_max, global_accu, global_entropy_b) = epilogue_loop (bl_epilogue_n bl) maxs maxs accu entropy_b
      in finish_row global_max global_accu global_entropy_b logit)"

text \<open>
  The sum that a launch of the epilogue adds to the scalar, for the reductions 1 (sum) and 2 (mean): every row block sums all
  its \<open>BLOCK_SIZE_M\<close> rows. The rows past the last token load zeros, \<open>unset\<close> is the logit they load.
\<close>

definition block_rows :: "blocks \<Rightarrow> head_row list \<Rightarrow> real \<Rightarrow> nat \<Rightarrow> head_row list" where
  "block_rows bl rows unset pid_m =
     map (\<lambda>c. if c < length rows then rows ! c else finish_row 0 0 0 unset) (tl_arange (pid_m * bl_epilogue_m bl) (bl_epilogue_m bl))"

definition sum_opt :: "real option list \<Rightarrow> real option" where
  "sum_opt xs = (if None \<in> set xs then None else Some (sum_list (map the xs)))"

definition scalar_logprobs :: "blocks \<Rightarrow> head_row list \<Rightarrow> real \<Rightarrow> nat \<Rightarrow> real option" where
  "scalar_logprobs bl rows unset reduction =
     sum_opt (map (\<lambda>pid_m. map_option (\<lambda>s. if reduction = 1 then s else s / real (length rows))
         (sum_opt (map hr_logprob (block_rows bl rows unset pid_m))))
       [0..<tl_cdiv (length rows) (bl_epilogue_m bl)])"

datatype logprobs_out = Per_Token "real option list" | Scalar_Out "real option"

definition head_ok :: "mat \<Rightarrow> mat \<Rightarrow> nat list \<Rightarrow> bool" where
  "head_ok hidden weight labels \<longleftrightarrow> length hidden = length labels \<and>
     (\<forall>h \<in> set hidden. \<forall>w \<in> set weight. length h = length w) \<and> (\<forall>w \<in> set weight. length w mod 128 = 0)"

text \<open>
  \<open>efficient_entropy_forward\<close> without a process group. \<open>reduction\<close> is the number of the enumeration; \<open>unset\<close> is the content of
  memory that was allocated and not written.
\<close>

definition token_row :: "blocks \<Rightarrow> real \<Rightarrow> mat \<Rightarrow> real \<Rightarrow> real list \<Rightarrow> (nat \<Rightarrow> real) \<Rightarrow> nat \<Rightarrow> head_row" where
  "token_row bl rcp_temperature weight unset h beyond label =
     (let (maxs, accu, entropy_b, logit) = mainloop_launch bl rcp_temperature 0 label h beyond weight unset
      in efficient_entropy_triton_kernel_epilogue bl maxs accu entropy_b logit)"

definition efficient_entropy_forward ::
  "blocks \<Rightarrow> mat \<Rightarrow> mat \<Rightarrow> nat list \<Rightarrow> nat \<Rightarrow> real \<Rightarrow> real \<Rightarrow> (logprobs_out \<times> head_row list) result" where
  "efficient_entropy_forward bl hidden weight labels reduction temperature unset =
     res_bind (py_assert (head_ok hidden weight labels)) (\<lambda>_.
     if reduction \<notin> {0, 1, 2} then Inl ValueError
     else if temperature = 0 then Inl ZeroDivisionError
     else
       let rows = map (\<lambda>i. token_row bl (1 / temperature) weight unset (hidden ! i) (beyond_row hidden unset i) (labels ! i))
             [0..<length hidden]
       in Inr (if reduction = 0 then Per_Token (map hr_logprob rows) else Scalar_Out (scalar_logprobs bl rows unset reduction), rows))"

text \<open>
  The same with a process group whose ranks hold the shards \<open>weights\<close> of the vocabulary: the maxima of every split are reduced
  over the ranks, the logits of the labels, the sums and the weighted sums are added up, every rank finishes the row. The
  row of a token, the same on every rank. \<open>_logprobs\<close> starts with zeros when nothing is reduced; otherwise it is allocated only,
  and \<open>unset r\<close> is what rank \<open>r\<close> finds there. A rank stores the logit where it holds the label.
\<close>

definition all_reduce_max :: "real option list list \<Rightarrow> real option list" where
  "all_reduce_max maxs = map (\<lambda>s. tl_max (map (\<lambda>m. m ! s) maxs)) [0..<length (hd maxs)]"

definition tensor_parallel_row ::
  "blocks \<Rightarrow> real \<Rightarrow> nat \<Rightarrow> (nat \<Rightarrow> real) \<Rightarrow> nat \<Rightarrow> real list \<Rightarrow> (nat \<Rightarrow> real) \<Rightarrow> mat list \<Rightarrow> nat \<Rightarrow> head_row" where
  "tensor_parallel_row bl rcp_temperature reduction unset label h beyond weights tp_rank =
     (let outs = map (\<lambda>r. mainloop_launch bl rcp_temperature r label h beyond (weights ! r) (if reduction = 0 then 0 else unset r))
            [0..<length weights];
          reduced_max = all_reduce_max (map fst outs);
          logit = sum_list (map (snd \<circ> snd \<circ> snd) outs);
          local_rows = map (\<lambda>(original_max, accu, entropy_b, _).
            epilogue_loop (bl_epilogue_n bl) reduced_max original_max accu entropy_b) outs
      in finish_row (fst (local_rows ! tp_rank)) (sum_list (map (fst \<circ> snd) local_rows)) (sum_list (map (snd \<circ> snd) local_rows)) logit)"

section \<open>The backward kernels\<close>

text \<open>The gradient of a logit, with the values that the forward pass saved for the token.\<close>

definition d_logit :: "real \<Rightarrow> nat \<Rightarrow> nat \<Rightarrow> nat \<Rightarrow> head_row \<Rightarrow> real \<Rightarrow> real \<Rightarrow> nat \<Rightarrow> real \<Rightarrow> real" where
  "d_logit rcp_temperature tp_rank vocab_size label row d_logprobs d_entropy c logit =
     (let accu_rcp = 1 / hr_accumulate row;
          d_logprobs = - 1 * d_logprobs;
          exp_logit = exp (logit - hr_maximum row);
          hit = (if c + tp_rank * vocab_size = label then 1 else 0);
          d = d_logprobs * (exp_logit * accu_rcp - hit);
          d = d + d_entropy * (- exp_logit * accu_rcp) * (logit - hr_entropy_b row)
      in d * rcp_temperature)"

text \<open>What the backward kernels are given: the tokens with their saved rows and the upstream gradients of every token; what stands in memory after a tensor.\<close>

record head_grads =
  hg_rcp :: real
  hg_rank :: nat
  hg_labels :: "nat list"
  hg_rows :: "head_row list"
  hg_d_logprobs :: "real list"
  hg_d_entropy :: "real list"
  hg_unset :: real

definition upstream :: "nat \<Rightarrow> nat \<Rightarrow> real list \<Rightarrow> nat \<Rightarrow> real" where
  "upstream reduction num_tokens dlogprobs i =
     (if reduction = 0 then dlogprobs ! i else if reduction = 1 then dlogprobs ! 0 else dlogprobs ! 0 / real num_tokens)"

definition d_logits_row :: "blocks \<Rightarrow> head_grads \<Rightarrow> mat \<Rightarrow> mat \<Rightarrow> nat \<Rightarrow> nat list \<Rightarrow> nat \<Rightarrow> real list" where
  "d_logits_row bl g hidden weight bound offs_bn i =
     map2 (d_logit (hg_rcp g) (hg_rank g) (length weight) (hg_labels g ! i) (hg_rows g ! i) (hg_d_logprobs g ! i) (hg_d_entropy g ! i))
       offs_bn (tile_logits bl (hg_rcp g) (hidden ! i) (beyond_row hidden (hg_unset g) i) 0 weight bound offs_bn)"

definition matmul :: "mat \<Rightarrow> mat \<Rightarrow> mat" where
  "matmul a b = map (\<lambda>row. map (\<lambda>k. \<Sum>j<length b. row ! j * b ! j ! k) [0..<length (hd b)]) a"

definition transposed :: "nat \<Rightarrow> mat \<Rightarrow> mat" where
  "transposed n a = map (\<lambda>j. map (\<lambda>row. row ! j) a) [0..<n]"

text \<open>\<open>_Total_Separate\<close>: all tiles of the gradient of the logits are stored, two products follow.\<close>

definition efficient_entropy_backward_kernel_general_d_logits :: "blocks \<Rightarrow> head_grads \<Rightarrow> mat \<Rightarrow> mat \<Rightarrow> mat" where
  "efficient_entropy_backward_kernel_general_d_logits bl g hidden weight =
     map (\<lambda>i. take (length weight) (concat (map (\<lambda>pid_n.
         d_logits_row bl g hidden weight (length weight) (tl_arange (pid_n * bl_n bl) (bl_n bl)) i)
       [0..<tl_cdiv (length weight) (bl_n bl)]))) [0..<length hidden]"

definition backward_total_separate :: "blocks \<Rightarrow> head_grads \<Rightarrow> mat \<Rightarrow> mat \<Rightarrow> mat \<times> mat" where
  "backward_total_separate bl g hidden weight =
     (let d_logits = efficient_entropy_backward_kernel_general_d_logits bl g hidden weight
      in (matmul d_logits weight, matmul (transposed (length weight) d_logits) hidden))"

text \<open>
  \<open>_Split_Dlogits_N\<close>: the buffer holds the columns of one split, those past the vocabulary are cut off in the last one;
  the products of the splits are added to \<open>d_hidden\<close> and written to their rows of \<open>d_weight\<close>.
\<close>

definition efficient_entropy_backward_kernel_general_d_logits_split_N :: "blocks \<Rightarrow> head_grads \<Rightarrow> mat \<Rightarrow> mat \<Rightarrow> nat \<Rightarrow> nat \<Rightarrow> mat" where
  "efficient_entropy_backward_kernel_general_d_logits_split_N bl g hidden weight vocab_per_split split_idx =
     (let vocab_right_bound = min ((split_idx + 1) * vocab_per_split) (length weight)
      in map (\<lambda>i. take vocab_per_split (concat (map (\<lambda>pid_n.
           d_logits_row bl g hidden weight vocab_right_bound
             (tl_arange (split_idx * vocab_per_split + pid_n * bl_n bl) (bl_n bl)) i)
         [0..<tl_cdiv vocab_per_split (bl_n bl)]))) [0..<length hidden])"

definition split_N_step :: "blocks \<Rightarrow> head_grads \<Rightarrow> mat \<Rightarrow> mat \<Rightarrow> nat \<Rightarrow> nat \<Rightarrow> mat \<times> mat \<Rightarrow> mat \<times> mat" where
  "split_N_step bl g hidden weight vocab_per_split split_idx = (\<lambda>(d_hidden, d_weight).
     let num_splits = tl_cdiv (length weight) vocab_per_split;
         d_logits = efficient_entropy_backward_kernel_general_d_logits_split_N bl g hidden weight vocab_per_split split_idx;
         vocab_right_bound = min ((split_idx + 1) * vocab_per_split) (length weight) - split_idx * vocab_per_split;
         columns = (if split_idx = num_splits - 1 then vocab_right_bound else vocab_per_split);
         d_logits = map (take columns) d_logits;
         part = slice (split_idx * vocab_per_split) ((split_idx + 1) * vocab_per_split) weight;
         product = matmul d_logits part
     in (if split_idx = 0 then product else mat_map2 (+) d_hidden product,
         d_weight @ matmul (transposed columns d_logits) hidden))"

definition backward_split_N :: "blocks \<Rightarrow> head_grads \<Rightarrow> mat \<Rightarrow> mat \<Rightarrow> nat \<Rightarrow> mat \<times> mat" where
  "backward_split_N bl g hidden weight vocab_per_split =
     fold (split_N_step bl g hidden weight vocab_per_split) [0..<tl_cdiv (length weight) vocab_per_split] ([], [])"

text \<open>
  \<open>_Total_Fuse_MN\<close>: every program adds the products of its tile to both gradients. The order of the programs follows the
  swizzled tile numbers. The second loop over K reads \<open>hidden\<close> and \<open>weight\<close> through the pointers that the first one has moved.
\<close>

definition swizzle :: "nat \<Rightarrow> nat \<Rightarrow> nat \<Rightarrow> nat \<Rightarrow> nat \<times> nat" where
  "swizzle num_pid_m num_pid_n group_m pid =
     (let num_pid_in_group = group_m * num_pid_n;
          group_id = pid div num_pid_in_group;
          first_pid_m = group_id * group_m;
          group_size_m = min (num_pid_m - first_pid_m) group_m
      in (first_pid_m + (pid mod num_pid_in_group) mod group_size_m, (pid mod num_pid_in_group) div group_size_m))"

definition tile_d_hidden :: "blocks \<Rightarrow> head_grads \<Rightarrow> mat \<Rightarrow> mat \<Rightarrow> nat \<times> nat \<Rightarrow> nat \<Rightarrow> nat \<Rightarrow> real" where
  "tile_d_hidden bl g hidden weight tile i k =
     (let offs_am = tl_arange (fst tile * bl_m bl) (bl_m bl); offs_bn = tl_arange (snd tile * bl_n bl) (bl_n bl)
      in if i \<in> set offs_am \<and> i < length hidden
         then sum_list (map2 (*) (d_logits_row bl g hidden weight (length weight) offs_bn i)
                (map (\<lambda>c. if c < length weight
                  then row_memory (weight ! c) (beyond_row weight (hg_unset g) c) (pointer_shift (bl_k bl) (length (hd hidden)) 1 + k) else 0) offs_bn))
         else 0)"

definition tile_d_weight :: "blocks \<Rightarrow> head_grads \<Rightarrow> mat \<Rightarrow> mat \<Rightarrow> nat \<times> nat \<Rightarrow> nat \<Rightarrow> nat \<Rightarrow> real" where
  "tile_d_weight bl g hidden weight tile j k =
     (let offs_am = tl_arange (fst tile * bl_m bl) (bl_m bl); offs_bn = tl_arange (snd tile * bl_n bl) (bl_n bl)
      in if j \<in> set offs_bn \<and> j < length weight
         then \<Sum>i \<leftarrow> filter (\<lambda>i. i < length hidden) offs_am.
                (d_logits_row bl g hidden weight (length weight) offs_bn i ! (j - snd tile * bl_n bl)) *
                row_memory (hidden ! i) (beyond_row hidden (hg_unset g) i) (pointer_shift (bl_k bl) (length (hd hidden)) 1 + k)
         else 0)"

definition backward_fuse_MN :: "blocks \<Rightarrow> nat \<Rightarrow> head_grads \<Rightarrow> mat \<Rightarrow> mat \<Rightarrow> mat \<times> mat" where
  "backward_fuse_MN bl group_m g hidden weight =
     (let num_pid_m = tl_cdiv (length hidden) (bl_m bl);
          num_pid_n = tl_cdiv (length weight) (bl_n bl);
          tiles = map (swizzle num_pid_m num_pid_n group_m) [0..<num_pid_m * num_pid_n]
      in (map (\<lambda>i. map (\<lambda>k. \<Sum>t \<leftarrow> tiles. tile_d_hidden bl g hidden weight t i k) [0..<length (hd hidden)]) [0..<length hidden],
          map (\<lambda>j. map (\<lambda>k. \<Sum>t \<leftarrow> tiles. tile_d_weight bl g hidden weight t j k) [0..<length (hd hidden)]) [0..<length weight]))"

datatype backward_method = Total_Fuse_MN | Total_Separate | Split_Dlogits_N | Split_Dlogits_M

definition efficient_entropy_backward ::
  "blocks \<Rightarrow> nat \<Rightarrow> backward_method \<Rightarrow> real \<Rightarrow> real list \<Rightarrow> real list \<Rightarrow> mat \<Rightarrow> mat \<Rightarrow> nat list \<Rightarrow> head_row list \<Rightarrow> nat \<Rightarrow> real \<Rightarrow> nat \<Rightarrow> (mat \<times> mat) result" where
  "efficient_entropy_backward bl group_m meth unset dlogprobs dentropy hidden weight labels rows reduction temperature tp_rank =
     res_bind (py_assert (head_ok hidden weight labels)) (\<lambda>_.
     if reduction \<notin> {0, 1, 2} then Inl ValueError
     else res_bind (py_assert (length dlogprobs = (if reduction = 0 then length labels else 1))) (\<lambda>_.
       res_bind (py_assert (length dentropy = length labels \<and> length rows = length labels)) (\<lambda>_.
       let g = \<lparr>hg_rcp = 1 / temperature, hg_rank = tp_rank, hg_labels = labels, hg_rows = rows,
             hg_d_logprobs = map (upstream reduction (length labels) dlogprobs) [0..<length labels], hg_d_entropy = dentropy,
             hg_unset = unset\<rparr>
       in if meth = Split_Dlogits_M then Inl NotImplementedError
          else if temperature = 0 then Inl ZeroDivisionError
          else Inr (case meth of
               Total_Fuse_MN \<Rightarrow> backward_fuse_MN bl group_m g hidden weight
             | Total_Separate \<Rightarrow> backward_total_separate bl g hidden weight
             | _ \<Rightarrow> backward_split_N bl g hidden weight 9504))))"

section \<open>Lemmas on blocks\<close>

lemma cdiv_covers: "0 < b \<Longrightarrow> n \<le> tl_cdiv n b * b"
proof -
  assume b: "0 < b"
  have "n + b - 1 < b + (n + b - 1) div b * b" using b by (rule dividend_less_div_times)
  then show ?thesis unfolding tl_cdiv_def using b by linarith
qed

lemma cdiv_tight: "0 < b \<Longrightarrow> s < tl_cdiv n b \<Longrightarrow> s * b < n"
proof -
  assume b: "0 < b" and s: "s < tl_cdiv n b"
  then have "(s + 1) * b \<le> (n + b - 1) div b * b" unfolding tl_cdiv_def by (intro mult_le_mono1) simp
  also have "\<dots> \<le> n + b - 1" by simp
  finally show ?thesis using b by simp
qed

lemma sum_list_arange: "(\<Sum>c \<leftarrow> tl_arange a b. f c) = (\<Sum>c = a..<a + b. f c)"
  by (simp add: tl_arange_def interv_sum_list_conv_sum_set_nat)

lemma sum_blocks: "(\<Sum>k \<leftarrow> [0..<n]. \<Sum>c = k * b..<k * b + b. f c) = (\<Sum>c<n * b. f c)"
  for f :: "nat \<Rightarrow> 'a::comm_monoid_add"
proof (induction n)
  case (Suc n)
  have "{..<Suc n * b} = {..<n * b} \<union> {n * b..<n * b + b}" by auto
  moreover have "{..<n * b} \<inter> {n * b..<n * b + b} = {}" by auto
  ultimately have "(\<Sum>c<Suc n * b. f c) = (\<Sum>c<n * b. f c) + (\<Sum>c = n * b..<n * b + b. f c)"
    by (simp only: sum.union_disjoint finite_lessThan finite_atLeastLessThan)
  then show ?case using Suc.IH by (simp only: upt_Suc le0 if_True map_append sum_list_append list.map sum_list.Cons sum_list.Nil add_0_right)
qed simp

lemma sum_masked: "H \<le> n \<Longrightarrow> (\<Sum>c<n. if c < H then f c else 0) = (\<Sum>c<H. f c)" for f :: "nat \<Rightarrow> 'a::comm_monoid_add"
  by (rule sum.mono_neutral_cong_right) auto

lemma fold_add: "fold (\<lambda>k acc. acc + f k) ks a = a + (\<Sum>k \<leftarrow> ks. f k)" for a :: real
  by (induction ks arbitrary: a) simp_all

lemma map2_map_left: "map2 f (map g xs) (map h xs) = map (\<lambda>x. f (g x) (h x)) xs"
  by (induction xs) simp_all

lemma map2_map_right: "map2 f xs (map h xs) = map (\<lambda>x. f x (h x)) xs"
  by (induction xs) simp_all

section \<open>The reference head\<close>

text \<open>The logits of a token, the log probability of a label and the entropy as the unfused head computes them.\<close>

definition inner :: "real list \<Rightarrow> real list \<Rightarrow> real" where
  "inner h w = (\<Sum>i<length h. h ! i * w ! i)"

definition head_logits :: "real \<Rightarrow> real list \<Rightarrow> mat \<Rightarrow> real list" where
  "head_logits rcp_temperature h weight = map (\<lambda>w. inner h w * rcp_temperature) weight"

definition log_prob :: "real list \<Rightarrow> nat \<Rightarrow> real" where
  "log_prob logits label = logits ! label - log_sum_exp logits"

lemma tile_dot_inner:
  assumes "0 < bk" "length w = length h"
  shows "tile_dot bk (length h) h beyond 0 w = inner h w"
proof -
  let ?H = "length h"
  have "sum_list (map2 (*) (map (\<lambda>c. if c < ?H then row_memory h beyond (0 + c) else 0) (tl_arange (k * bk) bk)) (tl_load w ?H 0 (tl_arange (k * bk) bk))) =
      (\<Sum>c = k * bk..<k * bk + bk. if c < ?H then h ! c * w ! c else 0)" for k
    unfolding tl_load_def map2_map_left by (subst sum_list_arange[symmetric]) (rule arg_cong[where f = sum_list], auto simp: row_memory_def)
  then have "tile_dot bk ?H h beyond 0 w = (\<Sum>k \<leftarrow> [0..<tl_cdiv ?H bk]. \<Sum>c = k * bk..<k * bk + bk. if c < ?H then h ! c * w ! c else 0)"
    by (simp add: tile_dot_def fold_add)
  also have "\<dots> = inner h w" unfolding sum_blocks inner_def by (rule sum_masked[OF cdiv_covers[OF assms(1)]])
  finally show ?thesis .
qed

lemma cdiv_multiple: "0 < b \<Longrightarrow> b dvd n \<Longrightarrow> tl_cdiv n b * b = n"
  unfolding tl_cdiv_def by (elim dvdE) (simp add: div_nat_eqI)

lemma pointer_reset: "0 < bk \<Longrightarrow> bk dvd hidden_size \<Longrightarrow> pointer_shift bk hidden_size n = 0"
  by (simp add: pointer_shift_def cdiv_multiple)

lemma tile_dot_zero: "0 < bk \<Longrightarrow> tile_dot bk (length h) h beyond 0 (replicate (length h) 0) = 0"
  by (subst tile_dot_inner) (simp_all add: inner_def)

definition logit_at :: "real \<Rightarrow> real list \<Rightarrow> mat \<Rightarrow> nat \<Rightarrow> real" where
  "logit_at rcp_temperature h weight c = inner h (weight ! c) * rcp_temperature"

lemma tile_logits_eq:
  assumes "0 < bl_k bl" "\<forall>w \<in> set weight. length w = length h" "bound \<le> length weight"
  shows "tile_logits bl rcp h beyond 0 weight bound offs = map (\<lambda>c. if c < bound then logit_at rcp h weight c else 0) offs"
proof -
  have "tile_dot (bl_k bl) (length h) h beyond 0 (weight_row weight bound (length h) c) * rcp = (if c < bound then logit_at rcp h weight c else 0)" for c
  proof (cases "c < bound")
    case True
    then have "length (weight ! c) = length h" using assms(2,3) by simp
    with True show ?thesis using tile_dot_inner[OF assms(1)] by (simp add: weight_row_def logit_at_def)
  qed (simp add: weight_row_def tile_dot_zero[OF assms(1)])
  then show ?thesis by (simp add: tile_logits_def)
qed

section \<open>The running softmax\<close>

text \<open>A maximum, a sum and a weighted sum stand for the logits \<open>l\<close> of the columns \<open>S\<close>.\<close>

definition softmax_state :: "(nat \<Rightarrow> real) \<Rightarrow> nat set \<Rightarrow> real option \<Rightarrow> real \<Rightarrow> real \<Rightarrow> bool" where
  "softmax_state l S m a e \<longleftrightarrow> a = (\<Sum>j\<in>S. exp_sub (Some (l j)) m) \<and> e = (\<Sum>j\<in>S. l j * exp_sub (Some (l j)) m) \<and> (m = None \<longrightarrow> S = {})"

lemma softmax_rescale:
  assumes "softmax_state l S m a e" "m' = None \<longrightarrow> m = None"
  shows "softmax_state l S m' (exp_sub m m' * a) (exp_sub m m' * e)"
proof (cases m)
  case None
  then show ?thesis using assms by (cases m') (auto simp: softmax_state_def)
next
  case (Some x)
  then obtain x' where m': "m' = Some x'" using assms(2) by blast
  have e: "exp (x - x') * exp (y - x) = exp (y - x')" for y by (simp add: exp_add[symmetric])
  have "exp (x - x') * (y * exp (y - x)) = y * exp (y - x')" for y using e[of y] by (simp add: mult.left_commute[of _ y])
  then have "(\<Sum>j\<in>S. exp (x - x') * (l j * exp (l j - x))) = (\<Sum>j\<in>S. l j * exp (l j - x'))" by (simp only:)
  with e show ?thesis using assms(1) by (simp add: softmax_state_def Some m' sum_distrib_left)
qed

lemma softmax_union:
  assumes "softmax_state l S m a e" "softmax_state l T m a' e'" "S \<inter> T = {}" "finite S" "finite T"
  shows "softmax_state l (S \<union> T) m (a + a') (e + e')"
  using assms by (auto simp: softmax_state_def sum.union_disjoint)

lemma opt_max_None: "opt_max x y = None \<longleftrightarrow> x = None \<and> y = None"
  by (cases x; cases y) simp_all

lemma tl_max_None: "tl_max xs = None \<longleftrightarrow> set xs \<subseteq> {None}"
proof -
  have "fold opt_max xs y = None \<longleftrightarrow> y = None \<and> set xs \<subseteq> {None}" for y
    by (induction xs arbitrary: y) (auto simp: opt_max_None)
  then show ?thesis by (simp add: tl_max_def)
qed

lemma sum_list_bounded:
  "distinct cs \<Longrightarrow> (\<Sum>c \<leftarrow> cs. if c < bound then f c else 0) = (\<Sum>c | c \<in> set cs \<and> c < bound. f c)" for f :: "nat \<Rightarrow> real"
  by (simp add: sum_list_distinct_conv_sum_set sum.inter_filter)

lemma tile_softmax:
  assumes "distinct cs" "m = None \<longrightarrow> {c \<in> set cs. c < bound} = {}"
  shows "softmax_state l {c \<in> set cs. c < bound} m (\<Sum>c \<leftarrow> cs. exp_sub (if c < bound then Some (l c) else None) m)
    (\<Sum>c \<leftarrow> cs. (if c < bound then l c else 0) * exp_sub (if c < bound then Some (l c) else None) m)"
proof -
  note f = sum_list_bounded[OF assms(1), of bound]
  have "(\<Sum>c \<leftarrow> cs. exp_sub (if c < bound then Some (l c) else None) m) = (\<Sum>c \<leftarrow> cs. if c < bound then exp_sub (Some (l c)) m else 0)"
    "(\<Sum>c \<leftarrow> cs. (if c < bound then l c else 0) * exp_sub (if c < bound then Some (l c) else None) m) =
      (\<Sum>c \<leftarrow> cs. if c < bound then l c * exp_sub (Some (l c)) m else 0)"
    by (auto intro!: arg_cong[where f = sum_list])
  then show ?thesis using assms(2) unfolding f by (simp add: softmax_state_def)
qed

text \<open>The columns of a split that its first \<open>n\<close> iterations have seen.\<close>

definition seen :: "blocks \<Rightarrow> nat \<Rightarrow> nat \<Rightarrow> nat \<Rightarrow> nat set" where
  "seen bl bound pid_n n = {pid_n * bl_split bl..<min (pid_n * bl_split bl + n * bl_n bl) bound}"

lemma seen_Suc:
  "seen bl bound pid_n (Suc n) = seen bl bound pid_n n \<union> {c \<in> set (tl_arange (pid_n * bl_split bl + n * bl_n bl) (bl_n bl)). c < bound}"
  "seen bl bound pid_n n \<inter> {c \<in> set (tl_arange (pid_n * bl_split bl + n * bl_n bl) (bl_n bl)). c < bound} = {}"
  by (auto simp: seen_def tl_arange_def)

definition blocks_ok :: "blocks \<Rightarrow> bool" where
  "blocks_ok bl \<longleftrightarrow> 0 < bl_m bl \<and> 0 < bl_n bl \<and> 0 < bl_k bl \<and> 0 < bl_split bl \<and> 0 < bl_epilogue_m bl \<and> 0 < bl_epilogue_n bl"

lemma mainloop_run:
  fixes bl :: blocks and pid_n tp_rank label :: nat and weight :: mat and rcp :: real and h :: "real list" and beyond :: "nat \<Rightarrow> real"
  assumes "blocks_ok bl" "\<forall>w \<in> set weight. length w = length h" "bl_k bl dvd length h"
  defines "bound \<equiv> min ((pid_n + 1) * bl_split bl) (length weight)" and "l \<equiv> logit_at rcp h weight"
  shows "\<exists>m a e lp. fold (mainloop_step bl rcp tp_rank label h beyond weight pid_n) [0..<n] (None, 0, 0, 0) = (m, a, e, lp) \<and>
    softmax_state l (seen bl bound pid_n n) m a e \<and> lp = (\<Sum>c\<in>seen bl bound pid_n n. if c + tp_rank * length weight = label then l c else 0)"
proof (induction n)
  case 0
  have "seen bl bound pid_n 0 = {}" by (auto simp: seen_def)
  then show ?case by (simp add: softmax_state_def)
next
  case (Suc n)
  then obtain m a e lp where IH: "fold (mainloop_step bl rcp tp_rank label h beyond weight pid_n) [0..<n] (None, 0, 0, 0) = (m, a, e, lp)"
    "softmax_state l (seen bl bound pid_n n) m a e" "lp = (\<Sum>c\<in>seen bl bound pid_n n. if c + tp_rank * length weight = label then l c else 0)"
    by blast
  let ?cs = "tl_arange (pid_n * bl_split bl + n * bl_n bl) (bl_n bl)"
  let ?T = "{c \<in> set ?cs. c < bound}"
  let ?lse = "map (\<lambda>c. if c < bound then Some (l c) else None) ?cs"
  let ?m = "opt_max m (tl_max ?lse)"
  have bk: "0 < bl_k bl" using assms(1) by (simp add: blocks_ok_def)
  have tile: "tile_logits bl rcp h beyond (pointer_shift (bl_k bl) (length h) n) weight bound ?cs = map (\<lambda>c. if c < bound then l c else 0) ?cs"
    unfolding l_def pointer_reset[OF bk assms(3)] by (rule tile_logits_eq) (use assms(1,2) in \<open>simp_all add: bound_def blocks_ok_def\<close>)
  have lse: "map2 (\<lambda>c x. if c < bound then Some x else None) ?cs (map (\<lambda>c. if c < bound then l c else 0) ?cs) = ?lse"
    unfolding map2_map_right by simp
  have step: "mainloop_step bl rcp tp_rank label h beyond weight pid_n n (m, a, e, lp) =
      (?m, exp_sub m ?m * a + (\<Sum>c \<leftarrow> ?cs. exp_sub (if c < bound then Some (l c) else None) ?m),
       e * exp_sub m ?m + (\<Sum>c \<leftarrow> ?cs. (if c < bound then l c else 0) * exp_sub (if c < bound then Some (l c) else None) ?m),
       lp + (\<Sum>c \<leftarrow> ?cs. (if c < bound then l c else 0) * (if c + tp_rank * length weight = label then 1 else 0)))"
    unfolding mainloop_step_def prod.case Let_def bound_def[symmetric] tile lse
    unfolding map_map map2_map_left map2_map_right comp_def by (rule refl)
  have None: "?m = None \<longrightarrow> m = None" "?m = None \<longrightarrow> ?T = {}" by (auto simp: opt_max_None tl_max_None)
  have "softmax_state l (seen bl bound pid_n n \<union> ?T) ?m
     (exp_sub m ?m * a + (\<Sum>c \<leftarrow> ?cs. exp_sub (if c < bound then Some (l c) else None) ?m))
     (exp_sub m ?m * e + (\<Sum>c \<leftarrow> ?cs. (if c < bound then l c else 0) * exp_sub (if c < bound then Some (l c) else None) ?m))"
  proof (rule softmax_union[OF softmax_rescale[OF IH(2) None(1)]])
    show "softmax_state l ?T ?m (\<Sum>c \<leftarrow> ?cs. exp_sub (if c < bound then Some (l c) else None) ?m)
      (\<Sum>c \<leftarrow> ?cs. (if c < bound then l c else 0) * exp_sub (if c < bound then Some (l c) else None) ?m)"
      by (rule tile_softmax) (use None(2) in \<open>simp_all add: tl_arange_def\<close>)
    show "seen bl bound pid_n n \<inter> ?T = {}" by (rule seen_Suc(2))
  qed (simp_all add: seen_def)
  moreover have "(\<Sum>c\<in>seen bl bound pid_n n \<union> ?T. if c + tp_rank * length weight = label then l c else 0) =
      lp + (\<Sum>c \<leftarrow> ?cs. (if c < bound then l c else 0) * (if c + tp_rank * length weight = label then 1 else 0))"
  proof -
    have "(\<Sum>c \<leftarrow> ?cs. (if c < bound then l c else 0) * (if c + tp_rank * length weight = label then 1 else 0)) =
        (\<Sum>c \<leftarrow> ?cs. if c < bound then (if c + tp_rank * length weight = label then l c else 0) else 0)"
      by (rule arg_cong[where f = sum_list]) auto
    also have "\<dots> = (\<Sum>c\<in>?T. if c + tp_rank * length weight = label then l c else 0)"
      by (rule sum_list_bounded) (simp add: tl_arange_def)
    finally show ?thesis unfolding IH(3) by (subst sum.union_disjoint) (use seen_Suc(2) in \<open>auto simp: seen_def\<close>)
  qed
  ultimately show ?case unfolding seen_Suc(1) by (simp add: IH(1) step mult.commute)
qed

text \<open>The columns of a split.\<close>

definition split_cols :: "blocks \<Rightarrow> nat \<Rightarrow> nat \<Rightarrow> nat set" where
  "split_cols bl vocab_size s = {s * bl_split bl..<min ((s + 1) * bl_split bl) vocab_size}"

lemma mainloop_split:
  assumes "blocks_ok bl" "\<forall>w \<in> set weight. length w = length h" "bl_k bl dvd length h"
  obtains m a e where "efficient_entropy_kernel_general_mainloop bl rcp tp_rank label h beyond weight s =
      (m, a, e, \<Sum>c\<in>split_cols bl (length weight) s. if c + tp_rank * length weight = label then logit_at rcp h weight c else 0)"
    "softmax_state (logit_at rcp h weight) (split_cols bl (length weight) s) m a e"
proof -
  let ?bound = "min ((s + 1) * bl_split bl) (length weight)"
  let ?n = "tl_cdiv (bl_split bl) (bl_n bl)"
  have "bl_split bl \<le> ?n * bl_n bl" using assms(1) by (intro cdiv_covers) (simp add: blocks_ok_def)
  then have "seen bl ?bound s ?n = split_cols bl (length weight) s" by (auto simp: seen_def split_cols_def)
  then show thesis
    using mainloop_run[OF assms, of rcp tp_rank label beyond s ?n] that
    unfolding efficient_entropy_kernel_general_mainloop_def by auto
qed

lemma store_unique:
  assumes "\<And>s. P s \<Longrightarrow> s = k"
  shows "fold (\<lambda>(s, v) x. if P s then v else x) (enumerate 0 vs) x = (if P k \<and> k < length vs then vs ! k else x)"
proof (induction vs rule: rev_induct)
  case (snoc v vs)
  show ?case
  proof (cases "P (length vs)")
    case True
    then have "k = length vs" using assms by blast
    with True show ?thesis by (simp add: enumerate_append_eq)
  next
    case False
    have "(P k \<and> k < length (vs @ [v])) = (P k \<and> k < length vs)" using False less_Suc_eq by auto
    with False show ?thesis using snoc.IH by (auto simp: enumerate_append_eq nth_append)
  qed
qed simp

lemma store_logprobs_eq:
  assumes "0 < bl_split bl" "length vs = tl_cdiv vocab_size (bl_split bl)"
    "\<And>s. s < length vs \<Longrightarrow> vs ! s = (\<Sum>c\<in>split_cols bl vocab_size s. if c + tp_rank * vocab_size = label then l c else 0)"
  shows "store_logprobs bl tp_rank vocab_size label vs init =
    (if tp_rank * vocab_size \<le> label \<and> label < tp_rank * vocab_size + vocab_size then l (label - tp_rank * vocab_size) else init)"
proof -
  let ?P = "\<lambda>s. s * bl_split bl + tp_rank * vocab_size \<le> label \<and> label < min ((s + 1) * bl_split bl) vocab_size + tp_rank * vocab_size"
  let ?y = "label - tp_rank * vocab_size"
  let ?k = "?y div bl_split bl"
  have uniq: "s = ?k" if "?P s" for s
  proof -
    have "s * bl_split bl \<le> ?y" "?y < (s + 1) * bl_split bl" using that by auto
    then show ?thesis using assms(1) by (intro div_nat_eqI[symmetric]) (simp_all add: mult.commute)
  qed
  have store: "store_logprobs bl tp_rank vocab_size label vs init = (if ?P ?k \<and> ?k < length vs then vs ! ?k else init)"
    unfolding store_logprobs_def Let_def using store_unique[of ?P ?k vs init] uniq by simp
  show ?thesis
  proof (cases "tp_rank * vocab_size \<le> label \<and> label < tp_rank * vocab_size + vocab_size")
    case True
    have lo: "?k * bl_split bl \<le> ?y" and hi: "?y < (?k + 1) * bl_split bl"
      using assms(1) dividend_less_div_times[of "bl_split bl" ?y] by (simp_all add: add.commute)
    have y: "?y < vocab_size" using True by linarith
    have y_eq: "label = ?y + tp_rank * vocab_size" using True by simp
    have "?k * bl_split bl + tp_rank * vocab_size \<le> ?y + tp_rank * vocab_size" using lo by (rule add_right_mono)
    moreover have "?y + tp_rank * vocab_size < min ((?k + 1) * bl_split bl) vocab_size + tp_rank * vocab_size"
      using hi y by (intro add_strict_right_mono) (simp only: min_less_iff_conj)
    ultimately have P: "?P ?k" unfolding y_eq[symmetric] by (rule conjI)
    have "?k < length vs"
    proof (rule ccontr)
      assume "\<not> ?k < length vs"
      then have "length vs * bl_split bl \<le> ?k * bl_split bl" by simp
      then have "vocab_size \<le> ?k * bl_split bl" using cdiv_covers[OF assms(1), of vocab_size] unfolding assms(2) by (rule order_trans[rotated])
      then show False using lo y by (meson leD order_trans)
    qed
    moreover have "vs ! ?k = l ?y"
    proof -
      have "?y \<in> split_cols bl vocab_size ?k" using lo hi y by (simp add: split_cols_def)
      moreover have "(c + tp_rank * vocab_size = label) = (c = ?y)" for c using True by auto
      ultimately show ?thesis using assms(3)[OF \<open>?k < length vs\<close>] by (simp add: split_cols_def sum.delta')
    qed
    ultimately show ?thesis using store P True by simp
  next
    case False
    then have "\<not> ?P ?k" by auto
    with False show ?thesis using store by auto
  qed
qed

lemma launch_facts:
  assumes "blocks_ok bl" "\<forall>w \<in> set weight. length w = length h" "bl_k bl dvd length h"
  defines "n \<equiv> tl_cdiv (length weight) (bl_split bl)"
  obtains maxs accu ebs where "mainloop_launch bl rcp tp_rank label h beyond weight init = (maxs, accu, ebs,
      if tp_rank * length weight \<le> label \<and> label < tp_rank * length weight + length weight
      then logit_at rcp h weight (label - tp_rank * length weight) else init)"
    "length maxs = n" "length accu = n" "length ebs = n"
    "\<And>s. s < n \<Longrightarrow> softmax_state (logit_at rcp h weight) (split_cols bl (length weight) s) (maxs ! s) (accu ! s) (ebs ! s)"
proof -
  let ?run = "efficient_entropy_kernel_general_mainloop bl rcp tp_rank label h beyond weight"
  let ?outs = "map ?run [0..<n]"
  have split: "softmax_state (logit_at rcp h weight) (split_cols bl (length weight) s) (fst (?run s)) (fst (snd (?run s))) (fst (snd (snd (?run s))))"
    "snd (snd (snd (?run s))) = (\<Sum>c\<in>split_cols bl (length weight) s. if c + tp_rank * length weight = label then logit_at rcp h weight c else 0)" for s
    by (rule mainloop_split[OF assms(1-3), of rcp tp_rank label beyond s], simp)+
  have "store_logprobs bl tp_rank (length weight) label (map (snd \<circ> snd \<circ> snd) ?outs) init =
      (if tp_rank * length weight \<le> label \<and> label < tp_rank * length weight + length weight
       then logit_at rcp h weight (label - tp_rank * length weight) else init)"
    by (rule store_logprobs_eq) (use assms(1) split(2) in \<open>simp_all add: blocks_ok_def n_def\<close>)
  then show thesis
    by (intro that[of "map fst ?outs" "map (fst \<circ> snd) ?outs" "map (fst \<circ> snd \<circ> snd) ?outs"])
      (simp_all add: mainloop_launch_def n_def[symmetric] Let_def split(1))
qed

lemma launch_parts:
  assumes "blocks_ok bl" "\<forall>w \<in> set weight. length w = length h" "bl_k bl dvd length h"
  shows "length (fst (mainloop_launch bl rcp tp_rank label h beyond weight init)) = tl_cdiv (length weight) (bl_split bl)"
    "length (fst (snd (mainloop_launch bl rcp tp_rank label h beyond weight init))) = tl_cdiv (length weight) (bl_split bl)"
    "length (fst (snd (snd (mainloop_launch bl rcp tp_rank label h beyond weight init)))) = tl_cdiv (length weight) (bl_split bl)"
    "\<And>s. s < tl_cdiv (length weight) (bl_split bl) \<Longrightarrow> softmax_state (logit_at rcp h weight) (split_cols bl (length weight) s)
       (fst (mainloop_launch bl rcp tp_rank label h beyond weight init) ! s) (fst (snd (mainloop_launch bl rcp tp_rank label h beyond weight init)) ! s)
       (fst (snd (snd (mainloop_launch bl rcp tp_rank label h beyond weight init))) ! s)"
    "snd (snd (snd (mainloop_launch bl rcp tp_rank label h beyond weight init))) =
       (if tp_rank * length weight \<le> label \<and> label < tp_rank * length weight + length weight
        then logit_at rcp h weight (label - tp_rank * length weight) else init)"
  by (rule launch_facts[OF assms, of rcp tp_rank label beyond init], simp)+

section \<open>The epilogue\<close>

lemma softmax_UN:
  assumes "finite T" "\<And>s. s \<in> T \<Longrightarrow> softmax_state l (C s) (Some x) (a s) (e s)" "\<And>s. s \<in> T \<Longrightarrow> finite (C s)"
    "\<And>s t. s \<in> T \<Longrightarrow> t \<in> T \<Longrightarrow> s \<noteq> t \<Longrightarrow> C s \<inter> C t = {}"
  shows "softmax_state l (\<Union>s\<in>T. C s) (Some x) (sum a T) (sum e T)"
proof -
  have "(\<Sum>j\<in>(\<Union>s\<in>T. C s). f j) = (\<Sum>s\<in>T. \<Sum>j\<in>C s. f j)" for f :: "nat \<Rightarrow> real"
    using assms(1,3,4) by (intro sum.UNION_disjoint) auto
  then show ?thesis using assms(2) by (simp add: softmax_state_def cong: sum.cong)
qed

lemma load_sum:
  fixes ys :: "real list"
  assumes "length xs = n" "length ys = n"
  shows "sum_list (map2 (*) (map f (tl_load xs n d cs)) (tl_load ys n 0 cs)) =
    (\<Sum>c \<leftarrow> cs. if c < n then f (xs ! c) * ys ! c else 0)"
  unfolding tl_load_def map_map map2_map_left by (rule arg_cong[where f = sum_list]) auto

lemma epilogue_run:
  assumes "length original = length accu" "length ebs = length accu"
    "\<And>s. s < length accu \<Longrightarrow> softmax_state l (C s) (original ! s) (accu ! s) (ebs ! s)"
    "\<And>s. s < length accu \<Longrightarrow> finite (C s)" "\<And>s t. s \<noteq> t \<Longrightarrow> C s \<inter> C t = {}"
  shows "case fold (epilogue_step bn reduced original accu ebs) [0..<n] (0, 0, 0) of (g, a, e) \<Rightarrow>
    softmax_state l (\<Union>s\<in>{..<min (n * bn) (length accu)}. C s) (Some g) a e"
proof (induction n)
  case (Suc n)
  let ?ns = "length accu"
  let ?cs = "tl_arange (n * bn) bn"
  let ?T = "{s. s \<in> set ?cs \<and> s < ?ns}"
  obtain g a e where IH: "fold (epilogue_step bn reduced original accu ebs) [0..<n] (0, 0, 0) = (g, a, e)"
    "softmax_state l (\<Union>s\<in>{..<min (n * bn) ?ns}. C s) (Some g) a e" using Suc.IH by (auto split: prod.splits)
  define g' where "g' = (case tl_max (tl_load reduced ?ns (Some 0) ?cs) of None \<Rightarrow> g | Some x \<Rightarrow> max g x)"
  have step: "epilogue_step bn reduced original accu ebs n (g, a, e) =
      (g', exp_sub (Some g) (Some g') * a + (\<Sum>s\<in>?T. exp_sub (original ! s) (Some g') * accu ! s),
       exp_sub (Some g) (Some g') * e + (\<Sum>s\<in>?T. exp_sub (original ! s) (Some g') * ebs ! s))"
    unfolding epilogue_step_def prod.case Let_def g'_def[symmetric] load_sum[OF assms(1) refl] load_sum[OF assms(1,2)]
    using sum_list_bounded[of ?cs ?ns] by (simp add: tl_arange_def)
  have "softmax_state l (\<Union>s\<in>?T. C s) (Some g') (\<Sum>s\<in>?T. exp_sub (original ! s) (Some g') * accu ! s) (\<Sum>s\<in>?T. exp_sub (original ! s) (Some g') * ebs ! s)"
    by (rule softmax_UN) (use assms(3-5) softmax_rescale in auto)
  moreover have "(\<Union>s\<in>{..<min (n * bn) ?ns}. C s) \<inter> (\<Union>s\<in>?T. C s) = {}"
  proof -
    have "s \<noteq> t" if "s < min (n * bn) ?ns" "t \<in> ?T" for s t using that by (auto simp: tl_arange_def)
    then show ?thesis using assms(5) by fastforce
  qed
  ultimately have "softmax_state l ((\<Union>s\<in>{..<min (n * bn) ?ns}. C s) \<union> (\<Union>s\<in>?T. C s)) (Some g')
      (exp_sub (Some g) (Some g') * a + (\<Sum>s\<in>?T. exp_sub (original ! s) (Some g') * accu ! s))
      (exp_sub (Some g) (Some g') * e + (\<Sum>s\<in>?T. exp_sub (original ! s) (Some g') * ebs ! s))"
    using assms(4) by (intro softmax_union[OF softmax_rescale[OF IH(2)]]) auto
  moreover have "{..<min (Suc n * bn) ?ns} = {..<min (n * bn) ?ns} \<union> ?T" by (auto simp: tl_arange_def)
  ultimately show ?case by (simp only: upt_Suc le0 if_True fold_append fold.simps comp_apply id_apply IH(1) step prod.case UN_Un)
qed (simp add: softmax_state_def)

lemma split_cols_UN:
  assumes "0 < bl_split bl"
  shows "(\<Union>s\<in>{..<tl_cdiv n (bl_split bl)}. split_cols bl n s) = {..<n}"
proof
  show "{..<n} \<subseteq> (\<Union>s\<in>{..<tl_cdiv n (bl_split bl)}. split_cols bl n s)"
  proof
    fix c assume "c \<in> {..<n}"
    then have c: "c < n" by simp
    let ?s = "c div bl_split bl"
    have "?s * bl_split bl \<le> c" "c < (?s + 1) * bl_split bl"
      using assms dividend_less_div_times[of "bl_split bl" c] by (simp_all add: add.commute)
    moreover have "?s < tl_cdiv n (bl_split bl)"
    proof (rule ccontr)
      assume "\<not> ?s < tl_cdiv n (bl_split bl)"
      then have "tl_cdiv n (bl_split bl) * bl_split bl \<le> ?s * bl_split bl" by simp
      with cdiv_covers[OF assms, of n] have "n \<le> ?s * bl_split bl" by (rule order_trans)
      with c show False using \<open>?s * bl_split bl \<le> c\<close> by linarith
    qed
    ultimately show "c \<in> (\<Union>s\<in>{..<tl_cdiv n (bl_split bl)}. split_cols bl n s)"
      using c by (intro UN_I[of ?s]) (simp_all add: split_cols_def)
  qed
qed (auto simp: split_cols_def)

lemma split_cols_disjoint: "s \<noteq> t \<Longrightarrow> split_cols bl n s \<inter> split_cols bl n t = {}"
proof (induction s t rule: linorder_wlog)
  case (le s t)
  then have "(s + 1) * bl_split bl \<le> t * bl_split bl" by (intro mult_le_mono1) simp
  then show ?case by (auto simp: split_cols_def)
qed (auto simp: split_cols_def)

lemma epilogue_facts:
  assumes "blocks_ok bl" "length accu = tl_cdiv n (bl_split bl)" "length original = length accu" "length ebs = length accu"
    "\<And>s. s < length accu \<Longrightarrow> softmax_state l (split_cols bl n s) (original ! s) (accu ! s) (ebs ! s)"
  obtains g a e where "epilogue_loop (bl_epilogue_n bl) reduced original accu ebs = (g, a, e)" "softmax_state l {..<n} (Some g) a e"
proof -
  let ?k = "tl_cdiv (length accu) (bl_epilogue_n bl)"
  have "length accu \<le> ?k * bl_epilogue_n bl" using assms(1) by (intro cdiv_covers) (simp add: blocks_ok_def)
  then have "min (?k * bl_epilogue_n bl) (length accu) = tl_cdiv n (bl_split bl)" using assms(2) by simp
  moreover have "0 < bl_split bl" using assms(1) by (simp add: blocks_ok_def)
  ultimately have "(\<Union>s\<in>{..<min (?k * bl_epilogue_n bl) (length accu)}. split_cols bl n s) = {..<n}" by (simp only: split_cols_UN)
  moreover have "finite (split_cols bl n s)" for s by (simp add: split_cols_def)
  ultimately show thesis
    using epilogue_run[OF assms(3-5), where bn = "bl_epilogue_n bl" and reduced = reduced and n = ?k] split_cols_disjoint that
    unfolding epilogue_loop_def by (auto split: prod.splits)
qed

text \<open>The maximum of the epilogue depends on the reduced maxima alone.\<close>

lemma epilogue_maximum:
  assumes "length accu = length accu'"
  shows "fst (epilogue_loop bn reduced original accu ebs) = fst (epilogue_loop bn reduced original' accu' ebs')"
proof -
  have step: "fst (epilogue_step bn reduced original accu ebs k s) = fst (epilogue_step bn reduced original' accu' ebs' k t)"
    if "fst s = fst t" for s t k
    using that assms by (cases s; cases t) (simp add: epilogue_step_def Let_def)
  have "fst (fold (epilogue_step bn reduced original accu ebs) ks s) = fst (fold (epilogue_step bn reduced original' accu' ebs') ks t)"
    if "fst s = fst t" for ks s t
    using that step by (induction ks arbitrary: s t) simp_all
  then show ?thesis using assms by (simp add: epilogue_loop_def)
qed

definition z_sum :: "(nat \<Rightarrow> real) \<Rightarrow> nat \<Rightarrow> real" where
  "z_sum l n = (\<Sum>j<n. exp (l j))"

definition mean_logit :: "(nat \<Rightarrow> real) \<Rightarrow> nat \<Rightarrow> real" where
  "mean_logit l n = (\<Sum>j<n. l j * exp (l j)) / z_sum l n"

lemma z_sum_pos: "0 < n \<Longrightarrow> 0 < z_sum l n"
  unfolding z_sum_def by (rule sum_pos) auto

lemma finish_row_eq:
  assumes "softmax_state l {..<n} (Some g) a e" "0 < n"
  shows "finish_row g a e x = \<lparr>hr_maximum = g, hr_accumulate = exp (- g) * z_sum l n, hr_entropy_b = mean_logit l n,
    hr_entropy = Some (ln (z_sum l n) - mean_logit l n), hr_logprob = Some (x - ln (z_sum l n))\<rparr>"
proof -
  have shift: "exp (y - g) = exp (- g) * exp y" for y by (simp add: exp_add[symmetric])
  have a: "a = exp (- g) * z_sum l n" using assms(1) by (simp add: softmax_state_def shift z_sum_def sum_distrib_left)
  have "e = (\<Sum>j<n. l j * (exp (- g) * exp (l j)))" using assms(1) by (simp add: softmax_state_def shift)
  then have e: "e = exp (- g) * (\<Sum>j<n. l j * exp (l j))" by (simp add: sum_distrib_left mult.left_commute)
  have "0 < a" "ln a = ln (z_sum l n) - g" using a z_sum_pos[OF assms(2), of l] by (simp_all add: ln_mult)
  moreover have "e / a = mean_logit l n" unfolding a e mean_logit_def by simp
  ultimately show ?thesis by (simp add: finish_row_def Let_def tl_log_def a)
qed

lemma log_sum_exp_z: "log_sum_exp (map f [0..<n]) = ln (z_sum f n)"
  by (simp add: log_sum_exp_def z_sum_def comp_def interv_sum_list_conv_sum_set_nat atLeast0LessThan)

lemma entropy_z: "entropy_from_logits (map f [0..<n]) = ln (z_sum f n) - mean_logit f n"
proof -
  have "(\<Sum>y \<leftarrow> map f [0..<n]. exp y) = z_sum f n"
    by (simp add: z_sum_def comp_def interv_sum_list_conv_sum_set_nat atLeast0LessThan)
  moreover have "(\<Sum>x \<leftarrow> map f [0..<n]. exp x / z_sum f n * x) = mean_logit f n"
    by (simp add: mean_logit_def comp_def interv_sum_list_conv_sum_set_nat atLeast0LessThan sum_divide_distrib mult.commute)
  ultimately show ?thesis by (simp add: entropy_from_logits_def log_sum_exp_z)
qed

lemma head_logits_upt: "head_logits rcp h weight = map (logit_at rcp h weight) [0..<length weight]"
  unfolding head_logits_def logit_at_def by (rule nth_equalityI) simp_all

lemmas head_reference = head_logits_upt log_sum_exp_z entropy_z log_prob_def

lemma single_rank_row:
  assumes "blocks_ok bl" "\<forall>w \<in> set weight. length w = length h" "label < length weight" "bl_k bl dvd length h"
  shows "\<exists>g. token_row bl rcp weight unset h beyond label =
    \<lparr>hr_maximum = g, hr_accumulate = exp (- g) * z_sum (logit_at rcp h weight) (length weight),
     hr_entropy_b = mean_logit (logit_at rcp h weight) (length weight),
     hr_entropy = Some (entropy_from_logits (head_logits rcp h weight)), hr_logprob = Some (log_prob (head_logits rcp h weight) label)\<rparr>"
proof -
  let ?l = "logit_at rcp h weight"
  obtain maxs accu ebs where out: "mainloop_launch bl rcp 0 label h beyond weight unset = (maxs, accu, ebs, ?l label)"
    "length maxs = tl_cdiv (length weight) (bl_split bl)" "length accu = tl_cdiv (length weight) (bl_split bl)"
    "length ebs = tl_cdiv (length weight) (bl_split bl)"
    "\<And>s. s < tl_cdiv (length weight) (bl_split bl) \<Longrightarrow> softmax_state ?l (split_cols bl (length weight) s) (maxs ! s) (accu ! s) (ebs ! s)"
    using launch_facts[OF assms(1,2,4), of rcp 0 label beyond unset] assms(3) by auto
  obtain g a e where ep: "epilogue_loop (bl_epilogue_n bl) maxs maxs accu ebs = (g, a, e)" "softmax_state ?l {..<length weight} (Some g) a e"
    by (rule epilogue_facts[OF assms(1) out(3), of maxs ebs ?l maxs]) (use out(2-5) in simp_all)
  have "0 < length weight" using assms(3) by linarith
  then show ?thesis
    using finish_row_eq[OF ep(2)] assms(3)
    by (simp add: token_row_def out(1) ep(1) efficient_entropy_triton_kernel_epilogue_def head_reference)
qed

lemma head_concat_length: "list_all (\<lambda>p. length p = v) rows \<Longrightarrow> length (concat rows) = length rows * v"
  by (induction rows) simp_all

lemma concat_rows_nth: "list_all (\<lambda>p. length p = v) rows \<Longrightarrow> r < length rows \<Longrightarrow> c < v \<Longrightarrow> concat rows ! (r * v + c) = rows ! r ! c"
proof (induction rows arbitrary: r)
  case (Cons row rows)
  then show ?case by (cases r) (simp_all add: nth_append add.assoc)
qed simp

lemma all_rows:
  assumes "blocks_ok bl" "head_ok hidden weight labels" "\<forall>y \<in> set labels. y < length weight" "\<forall>h \<in> set hidden. bl_k bl dvd length h"
  obtains maxima where "length maxima = length hidden"
    "map (\<lambda>i. token_row bl rcp weight unset (hidden ! i) (beyond_row hidden unset i) (labels ! i)) [0..<length hidden] =
     map (\<lambda>i. \<lparr>hr_maximum = maxima ! i,
          hr_accumulate = exp (- (maxima ! i)) * z_sum (logit_at rcp (hidden ! i) weight) (length weight),
          hr_entropy_b = mean_logit (logit_at rcp (hidden ! i) weight) (length weight),
          hr_entropy = Some (entropy_from_logits (head_logits rcp (hidden ! i) weight)),
          hr_logprob = Some (log_prob (head_logits rcp (hidden ! i) weight) (labels ! i))\<rparr>) [0..<length hidden]"
proof -
  let ?row = "\<lambda>i. token_row bl rcp weight unset (hidden ! i) (beyond_row hidden unset i) (labels ! i)"
  have lens: "length hidden = length labels" using assms(2) by (simp add: head_ok_def)
  have "\<exists>g. ?row i = \<lparr>hr_maximum = g,
      hr_accumulate = exp (- g) * z_sum (logit_at rcp (hidden ! i) weight) (length weight),
      hr_entropy_b = mean_logit (logit_at rcp (hidden ! i) weight) (length weight),
      hr_entropy = Some (entropy_from_logits (head_logits rcp (hidden ! i) weight)),
      hr_logprob = Some (log_prob (head_logits rcp (hidden ! i) weight) (labels ! i))\<rparr>" if "i < length hidden" for i
  proof (rule single_rank_row[OF assms(1)])
    have "hidden ! i \<in> set hidden" "labels ! i \<in> set labels" using that lens by simp_all
    then show "\<forall>w \<in> set weight. length w = length (hidden ! i)" "labels ! i < length weight" "bl_k bl dvd length (hidden ! i)"
      using assms(2-4) unfolding head_ok_def by metis+
  qed
  then obtain g where g: "\<And>i. i < length hidden \<Longrightarrow> ?row i = \<lparr>hr_maximum = g i,
      hr_accumulate = exp (- g i) * z_sum (logit_at rcp (hidden ! i) weight) (length weight),
      hr_entropy_b = mean_logit (logit_at rcp (hidden ! i) weight) (length weight),
      hr_entropy = Some (entropy_from_logits (head_logits rcp (hidden ! i) weight)),
      hr_logprob = Some (log_prob (head_logits rcp (hidden ! i) weight) (labels ! i))\<rparr>" by metis
  show thesis
    by (rule that[of "map g [0..<length hidden]"]) (simp, rule nth_equalityI, simp_all add: lens g)
qed

lemma sum_opt_Some: "sum_opt (map (\<lambda>x. Some (f x)) xs) = Some (sum_list (map f xs))"
  by (simp add: sum_opt_def image_iff comp_def)

lemma scalar_logprobs_eq:
  assumes "0 < bl_epilogue_m bl" "\<And>i. i < length rows \<Longrightarrow> hr_logprob (rows ! i) = Some (lp i)"
  shows "scalar_logprobs bl rows unset reduction =
    (if bl_epilogue_m bl dvd length rows
     then Some ((\<Sum>i<length rows. lp i) / (if reduction = 1 then 1 else real (length rows))) else None)"
proof (cases "bl_epilogue_m bl dvd length rows")
  case True
  let ?m = "bl_epilogue_m bl" and ?d = "if reduction = 1 then 1 else real (length rows)"
  obtain k where k: "length rows = ?m * k" using True by blast
  have n: "tl_cdiv (length rows) ?m = k"
    unfolding tl_cdiv_def k using assms(1) by (intro div_nat_eqI) (simp_all add: algebra_simps)
  have block: "sum_opt (map hr_logprob (block_rows bl rows unset b)) = Some (\<Sum>i = b * ?m..<b * ?m + ?m. lp i)" if "b \<in> set [0..<k]" for b
  proof -
    have "(b + 1) * ?m \<le> k * ?m" using that by (intro mult_le_mono1) simp
    then have "map hr_logprob (block_rows bl rows unset b) = map (\<lambda>i. Some (lp i)) (tl_arange (b * ?m) ?m)"
      unfolding block_rows_def map_map comp_def by (intro map_cong) (use assms(2) in \<open>auto simp: tl_arange_def k mult.commute\<close>)
    then show ?thesis by (simp only: sum_opt_Some sum_list_arange)
  qed
  have "scalar_logprobs bl rows unset reduction = sum_opt (map (\<lambda>b. Some ((\<Sum>i = b * ?m..<b * ?m + ?m. lp i) / ?d)) [0..<k])"
    unfolding scalar_logprobs_def n by (intro arg_cong[where f = sum_opt] map_cong) (use block in auto)
  also have "\<dots> = Some ((\<Sum>b \<leftarrow> [0..<k]. \<Sum>i = b * ?m..<b * ?m + ?m. lp i) / ?d)"
    unfolding sum_opt_Some by (simp add: divide_inverse sum_list_mult_const)
  finally show ?thesis using True by (simp only: sum_blocks k if_True mult.commute[of k])
next
  case False
  let ?m = "bl_epilogue_m bl"
  let ?b = "length rows div ?m"
  have r: "?b * ?m \<le> length rows" "length rows < ?b * ?m + ?m"
    using dividend_less_div_times[OF assms(1), of "length rows"] by (simp_all add: add.commute)
  have "?b * ?m \<noteq> length rows" using False by (metis dvd_triv_right)
  then have "?b * ?m < length rows" using r(1) by linarith
  then have "?b < tl_cdiv (length rows) ?m" using cdiv_covers[OF assms(1), of "length rows"] by (metis mult_less_cancel2 order.strict_trans2)
  moreover have "None \<in> set (map hr_logprob (block_rows bl rows unset ?b))"
    using r(2) by (force simp: block_rows_def tl_arange_def finish_row_def tl_log_def Let_def image_iff)
  ultimately show ?thesis using False by (force simp: scalar_logprobs_def sum_opt_def)
qed

section \<open>Properties of the forward pass\<close>

text \<open>The block sizes of the code, one token and two words.\<close>

definition demo_blocks :: blocks where
  "demo_blocks = \<lparr>bl_m = 128, bl_n = 256, bl_k = 32, bl_split = 1024, bl_epilogue_m = 16, bl_epilogue_n = 64\<rparr>"

definition demo_hidden :: mat where
  "demo_hidden = [replicate 128 1]"

definition demo_weight :: mat where
  "demo_weight = [replicate 128 1, replicate 128 0]"

lemma demo_head_ok: "blocks_ok demo_blocks" "head_ok demo_hidden demo_weight [1]" "\<forall>y \<in> set [1]. y < length demo_weight"
  "\<forall>h \<in> set demo_hidden. bl_k demo_blocks dvd length h"
  by (simp_all add: demo_blocks_def blocks_ok_def demo_hidden_def demo_weight_def head_ok_def)

lemma demo_head_facts:
  "length (hd demo_hidden) = 128" "bl_k demo_blocks = 32" "length demo_weight = 2" "\<forall>w \<in> set demo_weight. length w = 128"
  "concat (map (\<lambda>w. [w]) demo_weight) = demo_weight" "{r. r < 2 \<and> r \<noteq> Suc 0} = {0}"
  by (auto simp: demo_blocks_def demo_hidden_def demo_weight_def)

text \<open>With 48 columns to a block, the second tile of a split reads a row of 128 from its column 16.\<close>

lemma unaligned_pointers_drift: "pointer_shift 48 128 1 = 16" "pointer_shift 48 128 2 = 32"
  by (simp_all add: pointer_shift_def tl_cdiv_def)

text \<open>
  C33: the fused head computes the head: for every choice of block sizes of which \<open>BLOCK_SIZE_K\<close> divides the hidden size (the
  tuned 32 divides it, which the host asserts to be a multiple of 128), the kernels return for every token the log probability of its
  label and the entropy that the unfused head computes from the logits, which are never stored. With another \<open>BLOCK_SIZE_K\<close> the
  pointers to \<open>hidden\<close> are not back at the first column for the second tile of a split (lemma \<open>unaligned_pointers_drift\<close>).
\<close>

theorem fused_forward_correct:
  assumes "blocks_ok bl" "head_ok hidden weight labels" "\<forall>y \<in> set labels. y < length weight" "\<forall>h \<in> set hidden. bl_k bl dvd length h"
    "temperature \<noteq> 0"
  shows "\<exists>rows. efficient_entropy_forward bl hidden weight labels 0 temperature unset =
      Inr (Per_Token (map2 (\<lambda>h y. Some (log_prob (head_logits (1 / temperature) h weight) y)) hidden labels), rows) \<and>
    map hr_entropy rows = map (\<lambda>h. Some (entropy_from_logits (head_logits (1 / temperature) h weight))) hidden"
proof -
  obtain maxima where rows: "map (\<lambda>i. token_row bl (1 / temperature) weight unset (hidden ! i) (beyond_row hidden unset i) (labels ! i)) [0..<length hidden] =
     map (\<lambda>i. \<lparr>hr_maximum = maxima ! i,
          hr_accumulate = exp (- (maxima ! i)) * z_sum (logit_at (1 / temperature) (hidden ! i) weight) (length weight),
          hr_entropy_b = mean_logit (logit_at (1 / temperature) (hidden ! i) weight) (length weight),
          hr_entropy = Some (entropy_from_logits (head_logits (1 / temperature) (hidden ! i) weight)),
          hr_logprob = Some (log_prob (head_logits (1 / temperature) (hidden ! i) weight) (labels ! i))\<rparr>) [0..<length hidden]"
    by (rule all_rows[OF assms(1-4)])
  have lens: "length hidden = length labels" using assms(2) by (simp add: head_ok_def)
  show ?thesis
    unfolding efficient_entropy_forward_def Let_def rows using assms(2,5)
    by (simp add: comp_def map_eq_conv) (intro conjI nth_equalityI, simp_all add: lens)
qed

theorem fused_forward_correct_witness:
  "\<exists>rows. efficient_entropy_forward demo_blocks demo_hidden demo_weight [1] 0 2 0 =
     Inr (Per_Token [Some (log_prob (head_logits (1 / 2) (replicate 128 1) demo_weight) 1)], rows)"
  using fused_forward_correct[OF demo_head_ok, of 2 0] by (simp add: demo_hidden_def) blast

text \<open>
  C36: the reductions to a scalar: the sum or mean over the tokens is returned when the number of tokens is a multiple of the rows
  of an epilogue block; otherwise the rows past the last token, whose sum is zero, make the result no finite number.
\<close>

theorem scalar_needs_full_blocks:
  assumes "blocks_ok bl" "head_ok hidden weight labels" "\<forall>y \<in> set labels. y < length weight" "\<forall>h \<in> set hidden. bl_k bl dvd length h"
    "temperature \<noteq> 0" "reduction \<in> {1, 2}"
  shows "\<exists>rows. efficient_entropy_forward bl hidden weight labels reduction temperature unset =
    Inr (Scalar_Out (if bl_epilogue_m bl dvd length labels
       then Some ((\<Sum>i<length labels. log_prob (head_logits (1 / temperature) (hidden ! i) weight) (labels ! i)) /
                  (if reduction = 1 then 1 else real (length labels)))
       else None), rows)"
proof -
  obtain maxima where rows: "map (\<lambda>i. token_row bl (1 / temperature) weight unset (hidden ! i) (beyond_row hidden unset i) (labels ! i)) [0..<length hidden] =
     map (\<lambda>i. \<lparr>hr_maximum = maxima ! i,
          hr_accumulate = exp (- (maxima ! i)) * z_sum (logit_at (1 / temperature) (hidden ! i) weight) (length weight),
          hr_entropy_b = mean_logit (logit_at (1 / temperature) (hidden ! i) weight) (length weight),
          hr_entropy = Some (entropy_from_logits (head_logits (1 / temperature) (hidden ! i) weight)),
          hr_logprob = Some (log_prob (head_logits (1 / temperature) (hidden ! i) weight) (labels ! i))\<rparr>) [0..<length hidden]"
    by (rule all_rows[OF assms(1-4)])
  let ?rows = "map (\<lambda>i. token_row bl (1 / temperature) weight unset (hidden ! i) (beyond_row hidden unset i) (labels ! i)) [0..<length hidden]"
  have lens: "length hidden = length labels" "length ?rows = length labels" using assms(2) by (simp_all add: head_ok_def)
  have "scalar_logprobs bl ?rows unset reduction = (if bl_epilogue_m bl dvd length ?rows
      then Some ((\<Sum>i<length ?rows. log_prob (head_logits (1 / temperature) (hidden ! i) weight) (labels ! i)) /
                 (if reduction = 1 then 1 else real (length ?rows))) else None)"
    by (rule scalar_logprobs_eq) (use assms(1) in \<open>simp_all add: rows blocks_ok_def\<close>)
  then show ?thesis
    unfolding lens(2) using assms(2,5,6) by (auto simp: efficient_entropy_forward_def Let_def)
qed

theorem scalar_needs_full_blocks_witness:
  "\<exists>rows. efficient_entropy_forward demo_blocks demo_hidden demo_weight [1] 1 2 0 = Inr (Scalar_Out None, rows)"
  using scalar_needs_full_blocks[OF demo_head_ok, of 2 1 0] by (simp add: demo_blocks_def)

text \<open>
  C34: the sharded head computes the same: with the vocabulary divided among the ranks of a process group, every rank ends with the
  log probability and the entropy of the whole vocabulary. That is for the reduction to nothing (0), whose logits start with zeros;
  for a sum or a mean the row's log probability is off by what stood in the memory of the ranks that do not hold the label.
\<close>

theorem tensor_parallel_agrees:
  assumes "blocks_ok bl" "\<forall>shard \<in> set weights. length shard = v \<and> (\<forall>w \<in> set shard. length w = length h)"
    "label < length weights * v" "tp_rank < length weights" "bl_k bl dvd length h"
  shows "hr_logprob (tensor_parallel_row bl rcp reduction unset label h beyond weights tp_rank) =
      Some (log_prob (head_logits rcp h (concat weights)) label +
        (if reduction = 0 then 0 else \<Sum>r | r < length weights \<and> r \<noteq> label div v. unset r)) \<and>
    hr_entropy (tensor_parallel_row bl rcp reduction unset label h beyond weights tp_rank) = Some (entropy_from_logits (head_logits rcp h (concat weights)))"
proof -
  let ?R = "length weights" and ?L = "logit_at rcp h (concat weights)"
  let ?init = "\<lambda>r. if reduction = 0 then 0 else unset r"
  let ?launch = "\<lambda>r. mainloop_launch bl rcp r label h beyond (weights ! r) (?init r)"
  let ?red = "all_reduce_max (map fst (map ?launch [0..<?R]))"
  let ?ep = "\<lambda>r. epilogue_loop (bl_epilogue_n bl) ?red (fst (?launch r)) (fst (snd (?launch r))) (fst (snd (snd (?launch r))))"
  let ?g = "fst (?ep tp_rank)"
  have all: "list_all (\<lambda>p. length p = v) weights" using assms(2) by (simp add: list_all_iff)
  have v: "0 < v" "length (concat weights) = ?R * v" using assms(3) head_concat_length[OF all] by (cases v, simp_all)
  have shard: "length (weights ! r) = v" "\<forall>w \<in> set (weights ! r). length w = length h" if "r < ?R" for r
    using assms(2) nth_mem[OF that] by blast+
  have l: "logit_at rcp h (weights ! r) c = ?L (r * v + c)" if "r < ?R" "c < v" for r c
    using concat_rows_nth[OF all that] by (simp add: logit_at_def)
  have launch: "length (fst (?launch r)) = tl_cdiv v (bl_split bl)" "length (fst (snd (?launch r))) = tl_cdiv v (bl_split bl)"
    "length (fst (snd (snd (?launch r)))) = tl_cdiv v (bl_split bl)"
    "\<And>s. s < tl_cdiv v (bl_split bl) \<Longrightarrow> softmax_state (logit_at rcp h (weights ! r)) (split_cols bl v s)
       (fst (?launch r) ! s) (fst (snd (?launch r)) ! s) (fst (snd (snd (?launch r))) ! s)"
    "snd (snd (snd (?launch r))) = (if r * v \<le> label \<and> label < r * v + v then ?L label else ?init r)" if "r < ?R" for r
    using launch_parts[OF assms(1) shard(2)[OF that] assms(5), where rcp = rcp and tp_rank = r and label = label and beyond = beyond and init = "?init r", unfolded shard(1)[OF that]] l[OF that, of "label - r * v"] by auto
  have ep: "softmax_state (logit_at rcp h (weights ! r)) {..<v} (Some (fst (?ep r))) (fst (snd (?ep r))) (snd (snd (?ep r)))"
    "fst (?ep r) = ?g" if "r < ?R" for r
  proof -
    show "fst (?ep r) = ?g" by (rule epilogue_maximum) (simp add: launch(2)[OF that] launch(2)[OF assms(4)])
    show "softmax_state (logit_at rcp h (weights ! r)) {..<v} (Some (fst (?ep r))) (fst (snd (?ep r))) (snd (snd (?ep r)))"
      by (rule epilogue_facts[OF assms(1) launch(2)[OF that], of "fst (?launch r)" "fst (snd (snd (?launch r)))" "logit_at rcp h (weights ! r)" ?red])
        (simp_all add: launch[OF that])
  qed
  have pooled: "(\<Sum>r \<leftarrow> [0..<?R]. \<Sum>c<v. f (logit_at rcp h (weights ! r) c)) = (\<Sum>j<?R * v. f (?L j))" for f :: "real \<Rightarrow> real"
  proof -
    have "(\<Sum>c<v. f (logit_at rcp h (weights ! r) c)) = (\<Sum>j = r * v..<r * v + v. f (?L j))" if "r \<in> set [0..<?R]" for r
    proof -
      have "(\<Sum>j = r * v..<r * v + v. f (?L j)) = (\<Sum>c<v. f (?L (r * v + c)))"
        using sum.shift_bounds_nat_ivl[of "\<lambda>j. f (?L j)" 0 "r * v" v] by (simp add: atLeast0LessThan add.commute)
      then show ?thesis using l that by simp
    qed
    then show ?thesis by (simp only: sum_blocks cong: map_cong)
  qed
  have "softmax_state ?L {..<?R * v} (Some ?g) (\<Sum>r \<leftarrow> [0..<?R]. fst (snd (?ep r))) (\<Sum>r \<leftarrow> [0..<?R]. snd (snd (?ep r)))"
  proof -
    have "(\<Sum>r \<leftarrow> [0..<?R]. fst (snd (?ep r))) = (\<Sum>r \<leftarrow> [0..<?R]. \<Sum>c<v. exp (logit_at rcp h (weights ! r) c - ?g))"
      "(\<Sum>r \<leftarrow> [0..<?R]. snd (snd (?ep r))) = (\<Sum>r \<leftarrow> [0..<?R]. \<Sum>c<v. logit_at rcp h (weights ! r) c * exp (logit_at rcp h (weights ! r) c - ?g))"
      using ep(1)[unfolded softmax_state_def] ep(2) by (auto intro!: arg_cong[where f = sum_list])
    then show ?thesis
      unfolding pooled[of "\<lambda>x. exp (x - ?g)"] pooled[of "\<lambda>x. x * exp (x - ?g)"] softmax_state_def exp_sub.simps by simp
  qed
  note row = finish_row_eq[OF this, of "?L label + (\<Sum>r | r < ?R \<and> r \<noteq> label div v. ?init r)"]
  let ?off = "\<Sum>r | r < ?R \<and> r \<noteq> label div v. ?init r"
  have logit: "sum_list (map (snd \<circ> snd \<circ> snd) (map ?launch [0..<?R])) = ?L label + ?off"
  proof -
    let ?k = "label div v"
    have k: "?k < ?R" using assms(3) by (simp add: less_mult_imp_div_less)
    have hit: "(r * v \<le> label \<and> label < r * v + v) = (r = ?k)" for r
      using v(1) dividend_less_div_times[of v label] div_nat_eqI[of v r label] by (auto simp: mult.commute add.commute)
    have "map (snd \<circ> snd \<circ> snd) (map ?launch [0..<?R]) = map (\<lambda>r. if r = ?k then ?L label else ?init r) [0..<?R]"
      using launch(5) hit by simp
    moreover have "(\<Sum>r<?R. if r = ?k then ?L label else ?init r) = ?L label + ?off"
    proof -
      have "{..<?R} = insert ?k {r. r < ?R \<and> r \<noteq> ?k}" using k by auto
      then show ?thesis by simp
    qed
    ultimately show ?thesis by (simp add: interv_sum_list_conv_sum_set_nat atLeast0LessThan)
  qed
  have pos: "0 < ?R * v" using assms(3) by linarith
  have tp: "tensor_parallel_row bl rcp reduction unset label h beyond weights tp_rank =
      finish_row ?g (\<Sum>r \<leftarrow> [0..<?R]. fst (snd (?ep r))) (\<Sum>r \<leftarrow> [0..<?R]. snd (snd (?ep r))) (?L label + ?off)"
    unfolding tensor_parallel_row_def Let_def logit using assms(4) by (simp add: comp_def case_prod_beta)
  show ?thesis unfolding tp row[OF pos] head_logits_upt v(2) entropy_z log_prob_def log_sum_exp_z using assms(3) by simp
qed

theorem tensor_parallel_agrees_witness:
  "hr_logprob (tensor_parallel_row demo_blocks 1 1 (\<lambda>_. 7) 1 (hd demo_hidden) (\<lambda>_. 0) (map (\<lambda>w. [w]) demo_weight) 0) =
     Some (log_prob (head_logits 1 (hd demo_hidden) demo_weight) 1 + 7)"
  using tensor_parallel_agrees[OF demo_head_ok(1), of "map (\<lambda>w. [w]) demo_weight" 1 "hd demo_hidden" 1 0 1 1 "\<lambda>_. 7" "\<lambda>_. 0"]
  by (simp add: demo_head_facts)

section \<open>Tiles\<close>

lemma mixed_radix: "n < N \<Longrightarrow> r < gs \<Longrightarrow> n * gs + r < N * gs" for n N r gs :: nat
proof -
  assume n: "n < N" and r: "r < gs"
  have "(n + 1) * gs \<le> N * gs" using n by (intro mult_le_mono1) simp
  with r show ?thesis by simp
qed

lemma mixed_radix_digits: "q < b \<Longrightarrow> (c * b + q) div b = c" "q < b \<Longrightarrow> (c * b + q) mod b = q" for b c q :: nat
  by simp_all

lemma swizzle_at:
  assumes "0 < G" "m < M" "n < N"
  shows "\<exists>pid<M * N. swizzle M N G pid = (m, n)"
proof -
  define g where "g = m div G"
  define first where "first = g * G"
  define gs where "gs = min (M - first) G"
  define r where "r = m - first"
  have first: "first \<le> m" by (simp add: first_def g_def)
  have "r < M - first" unfolding r_def using assms(2) first by (rule diff_less_mono)
  moreover have "m < G + first" unfolding first_def g_def by (rule dividend_less_div_times[OF assms(1)])
  then have "r < G" unfolding r_def using first by linarith
  ultimately have r: "r < gs" by (simp only: gs_def min_less_iff_conj)
  have q: "n * gs + r < N * gs" by (rule mixed_radix[OF assms(3) r])
  have "gs \<le> G" by (simp add: gs_def)
  then have "N * gs \<le> N * G" by simp
  with q have qG: "n * gs + r < G * N" by (simp only: mult.commute[of G] less_le_trans)
  have "first + gs \<le> M" using first assms(2) by (simp add: gs_def)
  then have "(first + gs) * N \<le> M * N" by (rule mult_le_mono1)
  then have "first * N + N * gs \<le> M * N" by (simp only: add_mult_distrib mult.commute[of N])
  then have bound: "g * (G * N) + (n * gs + r) < M * N" using q unfolding first_def mult.assoc[symmetric] by linarith
  have "(g * (G * N) + (n * gs + r)) div (G * N) = g" "(g * (G * N) + (n * gs + r)) mod (G * N) = n * gs + r"
    by (rule mixed_radix_digits[OF qG])+
  moreover have "(n * gs + r) mod gs = r" "(n * gs + r) div gs = n" by (rule mixed_radix_digits[OF r])+
  moreover have "first + r = m" using first by (simp add: r_def)
  ultimately have "swizzle M N G (g * (G * N) + (n * gs + r)) = (m, n)"
    unfolding swizzle_def Let_def first_def[symmetric] gs_def[symmetric] by (simp only: first_def[symmetric] gs_def[symmetric])
  with bound show ?thesis by blast
qed

lemma swizzle_bij:
  assumes "0 < G"
  shows "bij_betw (swizzle M N G) {..<M * N} ({..<M} \<times> {..<N})"
proof -
  have sub: "{..<M} \<times> {..<N} \<subseteq> swizzle M N G ` {..<M * N}" using swizzle_at[OF assms] by (force simp: image_iff)
  have "card ({..<M} \<times> {..<N}) = M * N" "card (swizzle M N G ` {..<M * N}) \<le> M * N"
    using card_image_le[of "{..<M * N}" "swizzle M N G"] by (simp_all add: card_cartesian_product)
  then have img: "swizzle M N G ` {..<M * N} = {..<M} \<times> {..<N}" using card_seteq[OF _ sub] by simp
  then have "card (swizzle M N G ` {..<M * N}) = card {..<M * N}" by (simp add: card_cartesian_product)
  then have "inj_on (swizzle M N G) {..<M * N}" by (intro eq_card_imp_inj_on) simp_all
  with img show ?thesis by (simp add: bij_betw_def)
qed

lemma sum_tiles:
  fixes f :: "nat \<times> nat \<Rightarrow> real"
  assumes "0 < G"
  shows "(\<Sum>t \<leftarrow> map (swizzle M N G) [0..<M * N]. f t) = (\<Sum>m \<leftarrow> [0..<M]. \<Sum>n \<leftarrow> [0..<N]. f (m, n))"
proof -
  have "(\<Sum>t \<leftarrow> map (swizzle M N G) [0..<M * N]. f t) = (\<Sum>p<M * N. f (swizzle M N G p))"
    by (simp add: comp_def interv_sum_list_conv_sum_set_nat atLeast0LessThan)
  also have "\<dots> = (\<Sum>t\<in>{..<M} \<times> {..<N}. f t)" by (rule sum.reindex_bij_betw[OF swizzle_bij[OF assms]])
  finally show ?thesis by (simp add: sum.cartesian_product interv_sum_list_conv_sum_set_nat atLeast0LessThan)
qed

lemma concat_aranges: "concat (map (\<lambda>p. map f (tl_arange (a + p * b) b)) [0..<n]) = map f [a..<a + n * b]"
proof (induction n)
  case (Suc n)
  have "[a..<a + (b + n * b)] = [a..<a + n * b] @ [a + n * b..<a + n * b + b]"
    by (metis add.assoc add.commute le_add1 upt_add_eq_append)
  then show ?case using Suc.IH by (simp add: tl_arange_def)
qed simp

lemma take_aranges:
  assumes "0 < b" "\<And>c. a \<le> c \<Longrightarrow> c < a + n \<Longrightarrow> f c = g c"
  shows "take n (concat (map (\<lambda>p. map f (tl_arange (a + p * b) b)) [0..<tl_cdiv m b])) = map g [a..<a + min n (tl_cdiv m b * b)]"
  unfolding concat_aranges take_map using assms(2) by (auto simp: min_def)

section \<open>The gradient in closed form\<close>

definition grad_at :: "head_grads \<Rightarrow> mat \<Rightarrow> mat \<Rightarrow> nat \<Rightarrow> nat \<Rightarrow> real" where
  "grad_at g hidden weight i c = d_logit (hg_rcp g) (hg_rank g) (length weight) (hg_labels g ! i) (hg_rows g ! i) (hg_d_logprobs g ! i)
     (hg_d_entropy g ! i) c (logit_at (hg_rcp g) (hidden ! i) weight c)"

definition closed_gradient :: "head_grads \<Rightarrow> mat \<Rightarrow> mat \<Rightarrow> mat \<times> mat" where
  "closed_gradient g hidden weight =
     (map (\<lambda>i. map (\<lambda>k. \<Sum>j<length weight. grad_at g hidden weight i j * weight ! j ! k) [0..<length (hd hidden)]) [0..<length hidden],
      map (\<lambda>j. map (\<lambda>k. \<Sum>i<length hidden. grad_at g hidden weight i j * hidden ! i ! k) [0..<length (hd hidden)]) [0..<length weight])"

definition same_width :: "mat \<Rightarrow> mat \<Rightarrow> bool" where
  "same_width hidden weight \<longleftrightarrow> hidden \<noteq> [] \<and> weight \<noteq> [] \<and> (\<forall>h \<in> set hidden. \<forall>w \<in> set weight. length h = length w)"

lemma same_width_rows:
  assumes "same_width hidden weight"
  shows "i < length hidden \<Longrightarrow> \<forall>w \<in> set weight. length w = length (hidden ! i)" "i < length hidden \<Longrightarrow> length (hidden ! i) = length (hd hidden)"
    "j < length weight \<Longrightarrow> length (weight ! j) = length (hd hidden)" "w \<in> set weight \<Longrightarrow> length w = length (hd hidden)"
  using assms unfolding same_width_def by (metis hd_in_set nth_mem)+

lemma d_logits_row_eq:
  assumes "0 < bl_k bl" "same_width hidden weight" "i < length hidden" "bound \<le> length weight"
  shows "d_logits_row bl g hidden weight bound offs i =
    map (\<lambda>c. if c < bound then grad_at g hidden weight i c
       else d_logit (hg_rcp g) (hg_rank g) (length weight) (hg_labels g ! i) (hg_rows g ! i) (hg_d_logprobs g ! i) (hg_d_entropy g ! i) c 0) offs"
  unfolding d_logits_row_def tile_logits_eq[OF assms(1) same_width_rows(1)[OF assms(2,3)] assms(4)] map2_map_right grad_at_def by auto

lemma matmul_weight:
  assumes "b \<noteq> []" "length (hd b) = H"
  shows "matmul (map (\<lambda>i. map (f i) [0..<length b]) ids) b = map (\<lambda>i. map (\<lambda>k. \<Sum>j<length b. f i j * b ! j ! k) [0..<H]) ids"
  using assms by (simp add: matmul_def)

lemma transposed_map: "transposed n (map (\<lambda>i. map (f i) [0..<n]) ids) = map (\<lambda>j. map (\<lambda>i. f i j) ids) [0..<n]"
  by (simp add: transposed_def)

lemma separate_closed:
  assumes "blocks_ok bl" "same_width hidden weight"
  shows "backward_total_separate bl g hidden weight = closed_gradient g hidden weight"
proof -
  let ?V = "length weight" and ?F = "grad_at g hidden weight"
  have bl: "0 < bl_k bl" "0 < bl_n bl" using assms(1) by (simp_all add: blocks_ok_def)
  have ne: "hidden \<noteq> []" "weight \<noteq> []" using assms(2) by (simp_all add: same_width_def)
  have "take ?V (concat (map (\<lambda>p. d_logits_row bl g hidden weight ?V (tl_arange (p * bl_n bl) (bl_n bl)) i) [0..<tl_cdiv ?V (bl_n bl)])) =
      map (?F i) [0..<?V]" if "i < length hidden" for i
    unfolding d_logits_row_eq[OF bl(1) assms(2) that order_refl]
    using take_aranges[OF bl(2), where a = 0 and n = ?V and g = "?F i" and m = ?V] cdiv_covers[OF bl(2), of ?V] by (simp add: min_absorb1)
  then have d: "efficient_entropy_backward_kernel_general_d_logits bl g hidden weight = map (\<lambda>i. map (?F i) [0..<?V]) [0..<length hidden]"
    by (simp add: efficient_entropy_backward_kernel_general_d_logits_def)
  have "length (hd weight) = length (hd hidden)" using same_width_rows(4)[OF assms(2)] ne by simp
  then show ?thesis
    unfolding backward_total_separate_def Let_def d transposed_map closed_gradient_def
    by (simp only: matmul_weight[OF ne(2)] matmul_weight[OF ne(1) refl])
qed

lemma row_widths:
  assumes "same_width hidden weight" "s < length weight"
  shows "drop s weight \<noteq> []" "length (hd (drop s weight)) = length (hd hidden)"
  using assms same_width_rows(3)[OF assms] by (simp_all add: hd_drop_conv_nth)

lemma split_N_step_closed:
  fixes w :: nat
  assumes "blocks_ok bl" "same_width hidden weight" "0 < w" "s < tl_cdiv (length weight) w"
  defines "lo \<equiv> s * w" and "n \<equiv> min ((s + 1) * w) (length weight) - s * w"
  shows "split_N_step bl g hidden weight w s (dh, dw) =
    (let product = map (\<lambda>i. map (\<lambda>k. \<Sum>j<n. grad_at g hidden weight i (lo + j) * weight ! (lo + j) ! k) [0..<length (hd hidden)]) [0..<length hidden]
     in if s = 0 then product else mat_map2 (+) dh product,
     dw @ map (\<lambda>j. map (\<lambda>k. \<Sum>i<length hidden. grad_at g hidden weight i j * hidden ! i ! k) [0..<length (hd hidden)]) [lo..<lo + n])"
proof -
  let ?V = "length weight" and ?F = "grad_at g hidden weight" and ?bound = "min ((s + 1) * w) (length weight)"
  have bl: "0 < bl_k bl" "0 < bl_n bl" using assms(1) by (simp_all add: blocks_ok_def)
  have lo: "lo < ?V" unfolding lo_def by (rule cdiv_tight[OF assms(3,4)])
  have bound: "lo + n = ?bound" "n \<le> w" using lo by (simp_all add: n_def lo_def)
  have cols: "(if s = tl_cdiv ?V w - 1 then n else w) = n"
  proof (cases "s = tl_cdiv ?V w - 1")
    case False
    then have "(s + 1) * w < ?V" using assms(3,4) by (intro cdiv_tight) simp_all
    then have "n = w" by (simp add: n_def)
    then show ?thesis by simp
  qed simp
  have "take n (take w (concat (map (\<lambda>p. d_logits_row bl g hidden weight ?bound (tl_arange (lo + p * bl_n bl) (bl_n bl)) i) [0..<tl_cdiv w (bl_n bl)]))) =
      map (\<lambda>j. ?F i (lo + j)) [0..<n]" if "i < length hidden" for i
  proof -
    have "take n (concat (map (\<lambda>p. d_logits_row bl g hidden weight ?bound (tl_arange (lo + p * bl_n bl) (bl_n bl)) i) [0..<tl_cdiv w (bl_n bl)])) =
        map (?F i) [lo..<lo + min n (tl_cdiv w (bl_n bl) * bl_n bl)]"
      unfolding d_logits_row_eq[OF bl(1) assms(2) that min.cobounded2] by (rule take_aranges[OF bl(2)]) (simp add: bound(1))
    moreover have "min n (tl_cdiv w (bl_n bl) * bl_n bl) = n" using bound(2) cdiv_covers[OF bl(2), of w] by simp
    moreover have "map (?F i) [lo..<lo + n] = map (\<lambda>j. ?F i (lo + j)) [0..<n]" by (intro nth_equalityI) simp_all
    ultimately show ?thesis using bound(2) by (simp add: min_absorb1)
  qed
  then have d: "map (take n) (efficient_entropy_backward_kernel_general_d_logits_split_N bl g hidden weight w s) =
      map (\<lambda>i. map (\<lambda>j. ?F i (lo + j)) [0..<n]) [0..<length hidden]"
    by (simp add: efficient_entropy_backward_kernel_general_d_logits_split_N_def Let_def lo_def)
  define part where "part = slice (s * w) ((s + 1) * w) weight"
  have part: "length part = n" "part ! j = weight ! (lo + j)" "part \<noteq> []" "length (hd part) = length (hd hidden)" if "j < n" for j
    using row_widths[OF assms(2) lo] lo that by (auto simp: part_def slice_def n_def lo_def hd_drop_conv_nth min.commute drop_take hd_take)
  have n: "0 < n" using lo assms(3) by (simp add: n_def lo_def)
  have p1: "matmul (map (\<lambda>i. map (\<lambda>j. ?F i (lo + j)) [0..<n]) [0..<length hidden]) part =
      map (\<lambda>i. map (\<lambda>k. \<Sum>j<n. ?F i (lo + j) * weight ! (lo + j) ! k) [0..<length (hd hidden)]) [0..<length hidden]"
    using matmul_weight[OF part(3,4)[OF n], of "\<lambda>i j. ?F i (lo + j)" "[0..<length hidden]", unfolded part(1)[OF n]] by (simp add: part(2))
  have ne: "hidden \<noteq> []" using assms(2) by (simp add: same_width_def)
  have p2: "matmul (transposed n (map (\<lambda>i. map (\<lambda>j. ?F i (lo + j)) [0..<n]) [0..<length hidden])) hidden =
      map (\<lambda>j. map (\<lambda>k. \<Sum>i<length hidden. ?F i j * hidden ! i ! k) [0..<length (hd hidden)]) [lo..<lo + n]"
    unfolding transposed_map matmul_weight[OF ne refl, of "\<lambda>j i. ?F i (lo + j)"] by (intro nth_equalityI) simp_all
  show ?thesis
    unfolding split_N_step_def prod.case Let_def n_def[symmetric] part_def[symmetric] cols d p1 p2 by (rule refl)
qed

lemma split_N_run:
  assumes "blocks_ok bl" "same_width hidden weight" "0 < w" "s \<le> tl_cdiv (length weight) w"
  shows "fold (split_N_step bl g hidden weight w) [0..<s] ([], []) =
    (let n = min (s * w) (length weight) in
     (if s = 0 then [] else map (\<lambda>i. map (\<lambda>k. \<Sum>j<n. grad_at g hidden weight i j * weight ! j ! k) [0..<length (hd hidden)]) [0..<length hidden],
      map (\<lambda>j. map (\<lambda>k. \<Sum>i<length hidden. grad_at g hidden weight i j * hidden ! i ! k) [0..<length (hd hidden)]) [0..<n]))"
  using assms(4)
proof (induction s)
  case (Suc s)
  let ?V = "length weight" and ?n = "min ((s + 1) * w) (length weight) - s * w"
  let ?f = "\<lambda>i k j. grad_at g hidden weight i j * weight ! j ! k"
  have lo: "s * w < ?V" using cdiv_tight[OF assms(3)] Suc.prems by simp
  then have lo': "min (s * w) ?V = s * w" and hi: "s * w + ?n = min (Suc s * w) ?V" by simp_all
  have split: "(\<Sum>j<s * w. f j) + (\<Sum>j<?n. f (s * w + j)) = (\<Sum>j<min (Suc s * w) ?V. f j)" for f :: "nat \<Rightarrow> real"
  proof -
    have "{..<s * w + ?n} = {..<s * w} \<union> {s * w..<s * w + ?n}" by auto
    then have "(\<Sum>j<s * w + ?n. f j) = (\<Sum>j<s * w. f j) + (\<Sum>j = s * w..<s * w + ?n. f j)"
      by (simp only: sum.union_disjoint finite_lessThan finite_atLeastLessThan ivl_disj_int)
    moreover have "(\<Sum>j = s * w..<s * w + ?n. f j) = (\<Sum>j<?n. f (s * w + j))"
      using sum.shift_bounds_nat_ivl[of f 0 "s * w" ?n] by (simp add: atLeast0LessThan add.commute)
    ultimately show ?thesis unfolding hi by simp
  qed
  have rows: "map f [0..<s * w] @ map f [s * w..<s * w + ?n] = map f [0..<min (Suc s * w) ?V]" for f :: "nat \<Rightarrow> real list"
    unfolding hi[symmetric] map_append[symmetric] upt_add_eq_append[OF le0] by (rule refl)
  have IH: "fold (split_N_step bl g hidden weight w) [0..<s] ([], []) =
     (if s = 0 then [] else map (\<lambda>i. map (\<lambda>k. \<Sum>j<s * w. ?f i k j) [0..<length (hd hidden)]) [0..<length hidden],
      map (\<lambda>j. map (\<lambda>k. \<Sum>i<length hidden. grad_at g hidden weight i j * hidden ! i ! k) [0..<length (hd hidden)]) [0..<s * w])"
    using Suc.IH[unfolded Let_def lo'] Suc.prems by simp
  have step: "s < tl_cdiv ?V w" using Suc.prems by simp
  have add: "mat_map2 (+) (map (\<lambda>i. map (\<lambda>k. \<Sum>j<s * w. ?f i k j) [0..<length (hd hidden)]) [0..<length hidden])
      (map (\<lambda>i. map (\<lambda>k. \<Sum>j<?n. ?f i k (s * w + j)) [0..<length (hd hidden)]) [0..<length hidden]) =
      map (\<lambda>i. map (\<lambda>k. \<Sum>j<min (Suc s * w) ?V. ?f i k j) [0..<length (hd hidden)]) [0..<length hidden]"
    unfolding mat_map2_def map2_map_left by (rule map_cong[OF refl], rule map_cong[OF refl], rule split)
  have zero: "s = 0 \<Longrightarrow> map (\<lambda>i. map (\<lambda>k. \<Sum>j<?n. ?f i k (s * w + j)) [0..<length (hd hidden)]) [0..<length hidden] =
      map (\<lambda>i. map (\<lambda>k. \<Sum>j<min (Suc s * w) ?V. ?f i k j) [0..<length (hd hidden)]) [0..<length hidden]" by simp
  have "fold (split_N_step bl g hidden weight w) [0..<Suc s] ([], []) =
      split_N_step bl g hidden weight w s (fold (split_N_step bl g hidden weight w) [0..<s] ([], []))" by simp
  then show ?case
    unfolding IH split_N_step_closed[OF assms(1-3) step] Let_def rows using add zero by (cases "s = 0") (simp_all only: if_True if_False nat.distinct simp_thms)
qed simp

lemma split_N_closed:
  assumes "blocks_ok bl" "same_width hidden weight" "0 < w"
  shows "backward_split_N bl g hidden weight w = closed_gradient g hidden weight"
proof -
  have "weight \<noteq> []" using assms(2) by (simp add: same_width_def)
  then have "min (tl_cdiv (length weight) w * w) (length weight) = length weight" "tl_cdiv (length weight) w \<noteq> 0"
    using cdiv_covers[OF assms(3), of "length weight"] by (simp, metis le_zero_eq length_0_conv mult_is_0)
  then show ?thesis
    unfolding backward_split_N_def split_N_run[OF assms order_refl] closed_gradient_def Let_def by simp
qed

lemma sum_hit:
  fixes x :: "nat \<Rightarrow> real"
  assumes "0 < b" "i < m"
  shows "(\<Sum>t \<leftarrow> [0..<tl_cdiv m b]. if i \<in> set (tl_arange (t * b) b) then x t else 0) = x (i div b)"
proof -
  have hit: "(i \<in> set (tl_arange (t * b) b)) = (t = i div b)" for t
    using assms(1) dividend_less_div_times[of b i] div_nat_eqI[of b t i] by (auto simp: tl_arange_def mult.commute add.commute)
  have "i div b < tl_cdiv m b"
  proof (rule ccontr)
    assume "\<not> i div b < tl_cdiv m b"
    then have "tl_cdiv m b * b \<le> i div b * b" by simp
    with cdiv_covers[OF assms(1), of m] have "m \<le> i div b * b" by (rule order_trans)
    then show False using assms(2) by (meson div_times_less_eq_dividend leD order_trans)
  qed
  then show ?thesis unfolding hit by (simp add: interv_sum_list_conv_sum_set_nat sum.delta)
qed

lemma fused_closed:
  assumes "blocks_ok bl" "same_width hidden weight" "0 < G" "bl_k bl dvd length (hd hidden)"
  shows "backward_fuse_MN bl G g hidden weight = closed_gradient g hidden weight"
proof -
  let ?V = "length weight" and ?T = "length hidden" and ?F = "grad_at g hidden weight" and ?H = "length (hd hidden)"
  let ?M = "tl_cdiv ?T (bl_m bl)" and ?N = "tl_cdiv ?V (bl_n bl)"
  have bl: "0 < bl_k bl" "0 < bl_n bl" "0 < bl_m bl" using assms(1) by (simp_all add: blocks_ok_def)
  note at0 = pointer_reset[OF bl(1) assms(4)]
  have wt: "row_memory (weight ! c) beyond k = weight ! c ! k" if "c < ?V" "k < ?H" for c k beyond
    using same_width_rows(3)[OF assms(2) that(1)] that(2) by (simp add: row_memory_def)
  have ht: "row_memory (hidden ! i) beyond k = hidden ! i ! k" if "i < ?T" "k < ?H" for i k beyond
    using same_width_rows(2)[OF assms(2) that(1)] that(2) by (simp add: row_memory_def)
  have row: "d_logits_row bl g hidden weight ?V offs i = map (\<lambda>c. if c < ?V then ?F i c
       else d_logit (hg_rcp g) (hg_rank g) ?V (hg_labels g ! i) (hg_rows g ! i) (hg_d_logprobs g ! i) (hg_d_entropy g ! i) c 0) offs"
    if "i < ?T" for offs i by (rule d_logits_row_eq[OF bl(1) assms(2) that order_refl])
  have dh: "tile_d_hidden bl g hidden weight (m, n) i k =
      (if i \<in> set (tl_arange (m * bl_m bl) (bl_m bl)) then \<Sum>c = n * bl_n bl..<n * bl_n bl + bl_n bl. if c < ?V then ?F i c * weight ! c ! k else 0 else 0)"
    if "i < ?T" "k < ?H" for m n i k
  proof -
    have "sum_list (map2 (*) (d_logits_row bl g hidden weight ?V (tl_arange (n * bl_n bl) (bl_n bl)) i)
        (map (\<lambda>c. if c < ?V then row_memory (weight ! c) (beyond_row weight (hg_unset g) c) k else 0) (tl_arange (n * bl_n bl) (bl_n bl)))) =
        (\<Sum>c \<leftarrow> tl_arange (n * bl_n bl) (bl_n bl). if c < ?V then ?F i c * weight ! c ! k else 0)"
      unfolding row[OF that(1)] map2_map_left by (rule arg_cong[where f = sum_list]) (use that(2) wt in auto)
    then show ?thesis using that(1) by (simp add: tile_d_hidden_def Let_def sum_list_arange at0 cong: if_cong)
  qed
  have dw: "tile_d_weight bl g hidden weight (m, n) j k =
      (if j \<in> set (tl_arange (n * bl_n bl) (bl_n bl)) then \<Sum>i = m * bl_m bl..<m * bl_m bl + bl_m bl. if i < ?T then ?F i j * hidden ! i ! k else 0 else 0)"
    if "j < ?V" "k < ?H" for m n j k
  proof (cases "j \<in> set (tl_arange (n * bl_n bl) (bl_n bl))")
    case True
    then have j: "tl_arange (n * bl_n bl) (bl_n bl) ! (j - n * bl_n bl) = j" "j - n * bl_n bl < length (tl_arange (n * bl_n bl) (bl_n bl))"
      by (auto simp: tl_arange_def)
    have filt: "(\<Sum>i \<leftarrow> filter P ids. f i) = (\<Sum>i \<leftarrow> ids. if P i then f i else 0)" for P ids and f :: "nat \<Rightarrow> real"
      by (induction ids) auto
    have "(\<Sum>i \<leftarrow> filter (\<lambda>i. i < ?T) (tl_arange (m * bl_m bl) (bl_m bl)).
        d_logits_row bl g hidden weight ?V (tl_arange (n * bl_n bl) (bl_n bl)) i ! (j - n * bl_n bl) * row_memory (hidden ! i) (beyond_row hidden (hg_unset g) i) k) =
        (\<Sum>i \<leftarrow> tl_arange (m * bl_m bl) (bl_m bl). if i < ?T then ?F i j * hidden ! i ! k else 0)"
      unfolding filt by (rule arg_cong[where f = sum_list]) (use row j that ht in auto)
    then show ?thesis using True that by (simp add: tile_d_weight_def Let_def sum_list_arange at0)
  qed (simp add: tile_d_weight_def Let_def)
  have hidden: "(\<Sum>t \<leftarrow> map (swizzle ?M ?N G) [0..<?M * ?N]. tile_d_hidden bl g hidden weight t i k) = (\<Sum>j<?V. ?F i j * weight ! j ! k)"
    if "i < ?T" "k < ?H" for i k
  proof -
    have "(\<Sum>n \<leftarrow> [0..<?N]. tile_d_hidden bl g hidden weight (m, n) i k) =
        (if i \<in> set (tl_arange (m * bl_m bl) (bl_m bl)) then \<Sum>j<?V. ?F i j * weight ! j ! k else 0)" for m
      unfolding dh[OF that] by (simp add: sum_blocks sum_masked[OF cdiv_covers[OF bl(2)]])
    then show ?thesis unfolding sum_tiles[OF assms(3)] by (simp only: sum_hit[OF bl(3) that(1)])
  qed
  have weights: "(\<Sum>t \<leftarrow> map (swizzle ?M ?N G) [0..<?M * ?N]. tile_d_weight bl g hidden weight t j k) = (\<Sum>i<?T. ?F i j * hidden ! i ! k)"
    if "j < ?V" "k < ?H" for j k
  proof -
    have "(\<Sum>n \<leftarrow> [0..<?N]. tile_d_weight bl g hidden weight (m, n) j k) =
        (\<Sum>i = m * bl_m bl..<m * bl_m bl + bl_m bl. if i < ?T then ?F i j * hidden ! i ! k else 0)" for m
      unfolding dw[OF that] by (rule sum_hit[OF bl(2) that(1)])
    then show ?thesis unfolding sum_tiles[OF assms(3)] by (simp only: sum_blocks sum_masked[OF cdiv_covers[OF bl(3)]])
  qed
  show ?thesis
    unfolding backward_fuse_MN_def Let_def closed_gradient_def using hidden weights by (simp cong: map_cong)
qed

section \<open>The gradient of the reference head\<close>

text \<open>The loss that the upstream gradients describe.\<close>

definition head_loss :: "real \<Rightarrow> nat list \<Rightarrow> real list \<Rightarrow> real list \<Rightarrow> mat \<Rightarrow> mat \<Rightarrow> real" where
  "head_loss rcp_temperature labels d_logprobs d_entropy hidden weight =
     (\<Sum>i<length hidden. d_logprobs ! i * log_prob (head_logits rcp_temperature (hidden ! i) weight) (labels ! i) +
        d_entropy ! i * entropy_from_logits (head_logits rcp_temperature (hidden ! i) weight))"

text \<open>The derivative of the loss of a token by one of its logits.\<close>

definition logit_grad :: "(nat \<Rightarrow> real) \<Rightarrow> nat \<Rightarrow> nat \<Rightarrow> real \<Rightarrow> real \<Rightarrow> nat \<Rightarrow> real" where
  "logit_grad l n y a b j = a * ((if j = y then 1 else 0) - exp (l j) / z_sum l n) + b * (- exp (l j) / z_sum l n) * (l j - mean_logit l n)"

lemma token_loss_deriv:
  fixes l :: "nat \<Rightarrow> real \<Rightarrow> real"
  assumes "\<And>j. j < n \<Longrightarrow> (l j has_real_derivative c j) (at x)" "y < n"
  shows "((\<lambda>x. a * (l y x - ln (z_sum (\<lambda>j. l j x) n)) + b * (ln (z_sum (\<lambda>j. l j x) n) - mean_logit (\<lambda>j. l j x) n))
    has_real_derivative (\<Sum>j<n. c j * logit_grad (\<lambda>j. l j x) n y a b j)) (at x)"
proof -
  let ?e = "\<lambda>j. exp (l j x)"
  let ?Z = "z_sum (\<lambda>j. l j x) n" and ?S = "\<Sum>j<n. l j x * ?e j"
  let ?Z' = "\<Sum>j<n. ?e j * c j" and ?S' = "\<Sum>j<n. c j * ?e j + l j x * (?e j * c j)"
  have Z: "0 < ?Z" using assms(2) by (intro z_sum_pos) simp
  have dZ: "((\<lambda>x. z_sum (\<lambda>j. l j x) n) has_real_derivative ?Z') (at x)"
    unfolding z_sum_def by (rule DERIV_sum) (use assms(1) in \<open>auto intro!: DERIV_fun_exp\<close>)
  have dS: "((\<lambda>x. \<Sum>j<n. l j x * exp (l j x)) has_real_derivative ?S') (at x)"
    by (rule DERIV_sum) (use assms(1) in \<open>auto intro!: derivative_eq_intros\<close>)
  have dm: "((\<lambda>x. mean_logit (\<lambda>j. l j x) n) has_real_derivative (?S' * ?Z - ?S * ?Z') / (?Z * ?Z)) (at x)"
    unfolding mean_logit_def by (rule DERIV_divide[OF dS dZ]) (use Z in simp)
  have dln: "((\<lambda>x. ln (z_sum (\<lambda>j. l j x) n)) has_real_derivative ?Z' / ?Z) (at x)"
    using DERIV_chain2[OF DERIV_ln[OF Z] dZ] by (simp add: divide_inverse mult.commute)
  have "((\<lambda>x. a * (l y x - ln (z_sum (\<lambda>j. l j x) n)) + b * (ln (z_sum (\<lambda>j. l j x) n) - mean_logit (\<lambda>j. l j x) n))
      has_real_derivative a * (c y - ?Z' / ?Z) + b * (?Z' / ?Z - (?S' * ?Z - ?S * ?Z') / (?Z * ?Z))) (at x)"
    by (intro DERIV_add DERIV_cmult DERIV_diff assms(1)[OF assms(2)] dln dm)
  moreover have "a * (c y - ?Z' / ?Z) + b * (?Z' / ?Z - (?S' * ?Z - ?S * ?Z') / (?Z * ?Z)) =
      (\<Sum>j<n. c j * logit_grad (\<lambda>j. l j x) n y a b j)"
  proof -
    have one: "c y = (\<Sum>j<n. c j * (if j = y then 1 else 0))" using assms(2) by (simp add: sum.delta if_distrib cong: if_cong)
    have "(?S' * ?Z - ?S * ?Z') / (?Z * ?Z) = ?S' / ?Z - ?Z' * (?S / ?Z) / ?Z" using Z by (simp add: field_simps)
    then have "?Z' / ?Z - (?S' * ?Z - ?S * ?Z') / (?Z * ?Z) = (\<Sum>j<n. ?e j * c j / ?Z - (c j * ?e j + l j x * (?e j * c j)) / ?Z + ?e j * c j * (?S / ?Z) / ?Z)"
      by (simp only: sum.distrib sum_subtractf sum_divide_distrib[symmetric] sum_distrib_right[symmetric])
    also have "\<dots> = (\<Sum>j<n. c j * ((- ?e j / ?Z) * (l j x - ?S / ?Z)))"
      using Z by (intro sum.cong refl) (simp add: field_simps)
    finally have B: "?Z' / ?Z - (?S' * ?Z - ?S * ?Z') / (?Z * ?Z) = (\<Sum>j<n. c j * ((- ?e j / ?Z) * (l j x - mean_logit (\<lambda>j. l j x) n)))"
      unfolding mean_logit_def .
    have "c y - ?Z' / ?Z = (\<Sum>j<n. c j * ((if j = y then 1 else 0) - ?e j / ?Z))"
      by (subst one) (simp only: sum_divide_distrib sum_subtractf[symmetric] right_diff_distrib times_divide_eq_right mult.commute[of "exp _"])
    then show ?thesis unfolding B logit_grad_def
      by (simp only: sum_distrib_left sum.distrib[symmetric]) (rule sum.cong, simp_all add: algebra_simps)
  qed
  ultimately show ?thesis by simp
qed

text \<open>The loss is the sum of the losses of its tokens; a component of \<open>hidden\<close> or \<open>weight\<close> moves the logits linearly.\<close>

lemma token_loss_z:
  assumes "y < length weight"
  shows "a * log_prob (head_logits rcp h weight) y + b * entropy_from_logits (head_logits rcp h weight) =
    a * (logit_at rcp h weight y - ln (z_sum (logit_at rcp h weight) (length weight))) +
    b * (ln (z_sum (logit_at rcp h weight) (length weight)) - mean_logit (logit_at rcp h weight) (length weight))"
  unfolding head_reference using assms by simp

lemma inner_update_left:
  assumes "k < length h"
  shows "inner (h[k := x]) w = inner h w + (x - h ! k) * w ! k"
proof -
  have "inner (h[k := x]) w = (\<Sum>i<length h. h ! i * w ! i + (if i = k then (x - h ! k) * w ! k else 0))"
    unfolding inner_def by (rule sum.cong) (auto simp: nth_list_update algebra_simps)
  then show ?thesis using assms by (simp add: sum.distrib inner_def sum.delta)
qed

lemma inner_update_right:
  assumes "k < length h" "length w = length h"
  shows "inner h (w[k := x]) = inner h w + (x - w ! k) * h ! k"
proof -
  have "inner h (w[k := x]) = (\<Sum>i<length h. h ! i * w ! i + (if i = k then (x - w ! k) * h ! k else 0))"
    unfolding inner_def by (rule sum.cong) (auto simp: nth_list_update algebra_simps assms(2))
  then show ?thesis using assms by (simp add: sum.distrib inner_def sum.delta)
qed

lemma loss_by_hidden:
  assumes "same_width hidden weight" "i < length hidden" "k < length (hd hidden)" "\<forall>i < length hidden. labels ! i < length weight"
  shows "((\<lambda>x. head_loss rcp labels dl de (hidden[i := (hidden ! i)[k := x]]) weight) has_real_derivative
    (\<Sum>j<length weight. weight ! j ! k * rcp *
       logit_grad (logit_at rcp (hidden ! i) weight) (length weight) (labels ! i) (dl ! i) (de ! i) j)) (at (hidden ! i ! k))"
proof -
  let ?V = "length weight" and ?x = "hidden ! i ! k"
  let ?loss = "\<lambda>i h. dl ! i * log_prob (head_logits rcp h weight) (labels ! i) + de ! i * entropy_from_logits (head_logits rcp h weight)"
  let ?d = "\<Sum>j<?V. weight ! j ! k * rcp * logit_grad (logit_at rcp (hidden ! i) weight) ?V (labels ! i) (dl ! i) (de ! i) j"
  have k: "k < length (hidden ! i)" using same_width_rows(2)[OF assms(1,2)] assms(3) by simp
  have lin: "((\<lambda>x. logit_at rcp ((hidden ! i)[k := x]) weight j) has_real_derivative weight ! j ! k * rcp) (at ?x)" for j
    unfolding logit_at_def inner_update_left[OF k] by (auto intro!: derivative_eq_intros)
  have same: "(hidden ! i)[k := ?x] = hidden ! i" by simp
  have term_d: "((\<lambda>x. ?loss i ((hidden ! i)[k := x])) has_real_derivative ?d) (at ?x)"
    using token_loss_deriv[where l = "\<lambda>j x. logit_at rcp ((hidden ! i)[k := x]) weight j" and a = "dl ! i" and b = "de ! i",
        OF lin assms(4)[rule_format, OF assms(2)]]
    unfolding token_loss_z[OF assms(4)[rule_format, OF assms(2)]] same .
  have "((\<lambda>x. \<Sum>i'<length hidden. ?loss i' (hidden[i := (hidden ! i)[k := x]] ! i')) has_real_derivative (\<Sum>i'<length hidden. if i' = i then ?d else 0)) (at ?x)"
  proof (rule DERIV_sum)
    fix i' assume "i' \<in> {..<length hidden}"
    show "((\<lambda>x. ?loss i' (hidden[i := (hidden ! i)[k := x]] ! i')) has_real_derivative (if i' = i then ?d else 0)) (at ?x)"
      using term_d assms(2) by (cases "i' = i") simp_all
  qed
  then show ?thesis using assms(2) by (simp add: head_loss_def sum.delta)
qed

lemma loss_by_weight:
  assumes "same_width hidden weight" "j < length weight" "k < length (hd hidden)" "\<forall>i < length hidden. labels ! i < length weight"
  shows "((\<lambda>x. head_loss rcp labels dl de hidden (weight[j := (weight ! j)[k := x]])) has_real_derivative
    (\<Sum>i<length hidden. hidden ! i ! k * rcp *
       logit_grad (logit_at rcp (hidden ! i) weight) (length weight) (labels ! i) (dl ! i) (de ! i) j)) (at (weight ! j ! k))"
proof -
  let ?V = "length weight" and ?x = "weight ! j ! k" and ?W = "\<lambda>x. weight[j := (weight ! j)[k := x]]"
  have "((\<lambda>x. dl ! i * log_prob (head_logits rcp (hidden ! i) (?W x)) (labels ! i) + de ! i * entropy_from_logits (head_logits rcp (hidden ! i) (?W x)))
      has_real_derivative hidden ! i ! k * rcp * logit_grad (logit_at rcp (hidden ! i) weight) ?V (labels ! i) (dl ! i) (de ! i) j) (at ?x)"
    if i: "i \<in> {..<length hidden}" for i
  proof -
    have w: "k < length (hidden ! i)" "length (weight ! j) = length (hidden ! i)" and y: "labels ! i < ?V"
      using same_width_rows(2,3)[OF assms(1)] assms(2-4) i by simp_all
    have lin: "((\<lambda>x. logit_at rcp (hidden ! i) (?W x) j') has_real_derivative (if j' = j then hidden ! i ! k * rcp else 0)) (at ?x)"
      if "j' < ?V" for j'
      using that by (cases "j' = j") (auto simp: logit_at_def inner_update_right[OF w] intro!: derivative_eq_intros)
    have same: "?W ?x = weight" by simp
    have "((\<lambda>x. dl ! i * log_prob (head_logits rcp (hidden ! i) (?W x)) (labels ! i) + de ! i * entropy_from_logits (head_logits rcp (hidden ! i) (?W x)))
      has_real_derivative (\<Sum>j'<?V. (if j' = j then hidden ! i ! k * rcp else 0) *
        logit_grad (logit_at rcp (hidden ! i) weight) ?V (labels ! i) (dl ! i) (de ! i) j')) (at ?x)"
      using token_loss_deriv[where l = "\<lambda>j x. logit_at rcp (hidden ! i) (?W x) j" and a = "dl ! i" and b = "de ! i", OF lin y] y
      by (simp add: token_loss_z same)
    then show ?thesis using assms(2) by (simp add: if_distrib[of "\<lambda>x. x * _"] sum.delta cong: if_cong)
  qed
  then show ?thesis unfolding head_loss_def by (rule DERIV_sum)
qed

lemma d_logit_saved:
  assumes "0 < z_sum l n" "hr_accumulate row = exp (- g) * z_sum l n" "hr_maximum row = g" "hr_entropy_b row = mean_logit l n"
  shows "d_logit rcp 0 n y row a b j (l j) = rcp * logit_grad l n y a b j"
proof -
  have "exp (l j - g) * (1 / (exp (- g) * z_sum l n)) = exp (l j) / z_sum l n"
    by (simp add: exp_diff exp_minus field_simps)
  then show ?thesis
    unfolding d_logit_def Let_def assms(2-4) logit_grad_def by (simp add: algebra_simps)
qed

lemma forward_rows:
  assumes "efficient_entropy_forward bl hidden weight labels reduction temperature unset = Inr (lp, rows)"
  shows "rows = map (\<lambda>i. token_row bl (1 / temperature) weight unset (hidden ! i) (beyond_row hidden unset i) (labels ! i)) [0..<length hidden]"
  using assms by (auto simp: efficient_entropy_forward_def Let_def res_simps split: if_splits)

section \<open>Properties of the backward pass\<close>

text \<open>
  C35: the backward pass computes the gradient: for each of the three methods, what is returned for \<open>hidden\<close> and \<open>weight\<close> are the partial
  derivatives, by every one of their components, of the loss that the upstream gradients of the log probabilities and
  entropies describe, although no logit was stored. \<open>BLOCK_SIZE_K\<close> divides the hidden size in the forward kernel and in the
  fused backward kernel, which moves its pointers back like it.
\<close>

theorem fused_backward_is_gradient:
  assumes "blocks_ok bl" "blocks_ok bl'" "0 < group_m" "head_ok hidden weight labels" "hidden \<noteq> []" "\<forall>y \<in> set labels. y < length weight"
    "efficient_entropy_forward bl hidden weight labels reduction temperature unset = Inr (lp, rows)"
    "length dlogprobs = (if reduction = 0 then length labels else 1)" "length dentropy = length labels" "meth \<noteq> Split_Dlogits_M"
    "\<forall>h \<in> set hidden. bl_k bl dvd length h" "meth = Total_Fuse_MN \<longrightarrow> bl_k bl' dvd length (hd hidden)"
  shows "\<exists>d_hidden d_weight.
    efficient_entropy_backward bl' group_m meth unset dlogprobs dentropy hidden weight labels rows reduction temperature 0 = Inr (d_hidden, d_weight) \<and>
    (\<forall>i < length hidden. \<forall>k < length (hd hidden).
      ((\<lambda>x. head_loss (1 / temperature) labels (map (upstream reduction (length labels) dlogprobs) [0..<length labels]) dentropy
          (hidden[i := (hidden ! i)[k := x]]) weight) has_real_derivative d_hidden ! i ! k) (at (hidden ! i ! k))) \<and>
    (\<forall>j < length weight. \<forall>k < length (hd hidden).
      ((\<lambda>x. head_loss (1 / temperature) labels (map (upstream reduction (length labels) dlogprobs) [0..<length labels]) dentropy
          hidden (weight[j := (weight ! j)[k := x]])) has_real_derivative d_weight ! j ! k) (at (weight ! j ! k)))"
proof -
  let ?rcp = "1 / temperature" and ?dl = "map (upstream reduction (length labels) dlogprobs) [0..<length labels]"
  let ?g = "\<lparr>hg_rcp = ?rcp, hg_rank = 0, hg_labels = labels, hg_rows = rows, hg_d_logprobs = ?dl, hg_d_entropy = dentropy, hg_unset = unset\<rparr>"
  let ?V = "length weight"
  have t: "temperature \<noteq> 0" "reduction \<in> {0, 1, 2}" using assms(7) by (auto simp: efficient_entropy_forward_def res_simps split: if_splits)
  have lens: "length hidden = length labels" using assms(4) by (simp add: head_ok_def)
  have y: "\<forall>i < length hidden. labels ! i < ?V" using assms(6) lens by simp
  have "weight \<noteq> []" using y assms(5) by auto
  then have same: "same_width hidden weight" using assms(4,5) by (simp add: head_ok_def same_width_def)
  obtain maxima where rows: "rows = map (\<lambda>i. \<lparr>hr_maximum = maxima ! i,
          hr_accumulate = exp (- (maxima ! i)) * z_sum (logit_at ?rcp (hidden ! i) weight) ?V,
          hr_entropy_b = mean_logit (logit_at ?rcp (hidden ! i) weight) ?V,
          hr_entropy = Some (entropy_from_logits (head_logits ?rcp (hidden ! i) weight)),
          hr_logprob = Some (log_prob (head_logits ?rcp (hidden ! i) weight) (labels ! i))\<rparr>) [0..<length hidden]"
    unfolding forward_rows[OF assms(7)] by (rule all_rows[OF assms(1,4,6,11)])
  have grad: "grad_at ?g hidden weight i j = ?rcp * logit_grad (logit_at ?rcp (hidden ! i) weight) ?V (labels ! i) (?dl ! i) (dentropy ! i) j"
    if "i < length hidden" for i j
    unfolding grad_at_def head_grads.simps
    by (rule d_logit_saved[where g = "maxima ! i"]) (use that \<open>weight \<noteq> []\<close> in \<open>simp_all add: rows z_sum_pos\<close>)
  have hidden: "fst (closed_gradient ?g hidden weight) ! i ! k = (\<Sum>j<?V. weight ! j ! k * ?rcp *
       logit_grad (logit_at ?rcp (hidden ! i) weight) ?V (labels ! i) (?dl ! i) (dentropy ! i) j)" if "i < length hidden" "k < length (hd hidden)" for i k
    unfolding closed_gradient_def fst_conv using that by (simp only: nth_map_upt length_upt grad add_0 diff_zero) (simp add: grad mult_ac)
  have weights: "snd (closed_gradient ?g hidden weight) ! j ! k = (\<Sum>i<length hidden. hidden ! i ! k * ?rcp *
       logit_grad (logit_at ?rcp (hidden ! i) weight) ?V (labels ! i) (?dl ! i) (dentropy ! i) j)" if "j < ?V" "k < length (hd hidden)" for j k
    unfolding closed_gradient_def snd_conv using that by (simp add: grad mult_ac)
  have "efficient_entropy_backward bl' group_m meth unset dlogprobs dentropy hidden weight labels rows reduction temperature 0 =
      Inr (closed_gradient ?g hidden weight)"
    using assms(4,8-10) t lens
    by (cases meth) (simp_all add: efficient_entropy_backward_def Let_def rows separate_closed[OF assms(2) same] split_N_closed[OF assms(2) same]
      fused_closed[OF assms(2) same assms(3)] assms(12))
  moreover obtain d_hidden d_weight where g: "closed_gradient ?g hidden weight = (d_hidden, d_weight)" by (metis surj_pair)
  moreover have "((\<lambda>x. head_loss ?rcp labels ?dl dentropy (hidden[i := (hidden ! i)[k := x]]) weight)
      has_real_derivative d_hidden ! i ! k) (at (hidden ! i ! k))" if "i < length hidden" "k < length (hd hidden)" for i k
    unfolding hidden[OF that, unfolded g fst_conv] by (rule loss_by_hidden[OF same that y])
  moreover have "((\<lambda>x. head_loss ?rcp labels ?dl dentropy hidden (weight[j := (weight ! j)[k := x]]))
      has_real_derivative d_weight ! j ! k) (at (weight ! j ! k))" if "j < ?V" "k < length (hd hidden)" for j k
    unfolding weights[OF that, unfolded g snd_conv] by (rule loss_by_weight[OF same that y])
  ultimately show ?thesis by - (rule exI[of _ d_hidden], rule exI[of _ d_weight], simp)
qed

theorem fused_backward_is_gradient_witness:
  "\<exists>lp rows d_hidden d_weight. efficient_entropy_forward demo_blocks demo_hidden demo_weight [1] 0 2 0 = Inr (lp, rows) \<and>
     efficient_entropy_backward demo_blocks 16 Total_Fuse_MN 0 [1] [0] demo_hidden demo_weight [1] rows 0 2 0 = Inr (d_hidden, d_weight)"
proof -
  obtain lp rows where f: "efficient_entropy_forward demo_blocks demo_hidden demo_weight [1] 0 2 0 = Inr (lp, rows)"
    using demo_head_ok(2) by (simp add: efficient_entropy_forward_def)
  have "demo_hidden \<noteq> []" by (simp add: demo_hidden_def)
  from fused_backward_is_gradient[OF demo_head_ok(1) demo_head_ok(1) _ demo_head_ok(2) this demo_head_ok(3) f, of 16 "[1]" "[0]" Total_Fuse_MN]
  show ?thesis using f demo_head_ok(4) by (auto simp: demo_head_facts)
qed

section \<open>The chunked head\<close>

definition softmax :: "real list \<Rightarrow> real list" where
  "softmax xs = map (\<lambda>x. exp x / (\<Sum>y \<leftarrow> xs. exp y)) xs"

definition log_softmax :: "real list \<Rightarrow> real list" where
  "log_softmax xs = map (\<lambda>x. x - log_sum_exp xs) xs"

definition ppo_logits :: "real \<Rightarrow> mat \<Rightarrow> real list \<Rightarrow> real list" where
  "ppo_logits temperature vocab_weights h = map (\<lambda>w. inner h w / temperature) vocab_weights"

definition ppo_entropy :: "real list \<Rightarrow> real" where
  "ppo_entropy logits = log_sum_exp logits - sum_list (map2 (*) (softmax logits) logits)"

definition fused_linear_for_ppo_fwd :: "real \<Rightarrow> mat \<Rightarrow> mat \<Rightarrow> nat list \<Rightarrow> real list \<times> real list" where
  "fused_linear_for_ppo_fwd temperature vocab_weights hidden_states input_ids =
     (let logits = map (ppo_logits temperature vocab_weights) hidden_states
      in (map2 (\<lambda>l y. log_softmax l ! y) logits input_ids, map ppo_entropy logits))"

text \<open>Assignment to a slice; the starts of the chunks.\<close>

definition put_slice :: "'a list \<Rightarrow> nat \<Rightarrow> 'a list \<Rightarrow> 'a list" where
  "put_slice xs start ys = take start xs @ ys @ drop (start + length ys) xs"

definition chunk_starts :: "nat \<Rightarrow> nat \<Rightarrow> nat list" where
  "chunk_starts n chunk_size = map (\<lambda>i. i * chunk_size) [0..<tl_cdiv n chunk_size]"

definition fused_linear_forward :: "nat \<Rightarrow> real \<Rightarrow> mat \<Rightarrow> mat \<Rightarrow> nat list \<Rightarrow> (real list \<times> real list) result" where
  "fused_linear_forward chunk_size temperature vocab_weights hidden_states input_ids =
     (if chunk_size = 0 then Inl ValueError
      else Inr (fold (\<lambda>chunk_start (log_probs, entropy).
          let chunk_end = min (chunk_start + chunk_size) (length hidden_states);
              (chunk_log_probs, chunk_entropy) = fused_linear_for_ppo_fwd temperature vocab_weights
                (slice chunk_start chunk_end hidden_states) (slice chunk_start chunk_end input_ids)
          in (put_slice log_probs chunk_start chunk_log_probs, put_slice entropy chunk_start chunk_entropy))
        (chunk_starts (length hidden_states) chunk_size)
        (replicate (length hidden_states) 0, replicate (length hidden_states) 0)))"

text \<open>The gradient of the logits of a token; an upstream gradient may be missing.\<close>

definition ppo_dlogits :: "real \<Rightarrow> mat \<Rightarrow> real option \<Rightarrow> real option \<Rightarrow> real list \<Rightarrow> nat \<Rightarrow> real list" where
  "ppo_dlogits temperature vocab_weights dlog_prob dentropy h y =
     (let logits = ppo_logits temperature vocab_weights h;
          probs = softmax logits;
          log_probs = log_softmax logits;
          entropy = ppo_entropy logits;
          from_log_prob = (case dlog_prob of None \<Rightarrow> map (\<lambda>_. 0) logits
            | Some d \<Rightarrow> map (\<lambda>j. d * ((if j = y then 1 else 0) - probs ! j)) [0..<length logits]);
          from_entropy = (case dentropy of None \<Rightarrow> map (\<lambda>_. 0) logits
            | Some d \<Rightarrow> map (\<lambda>j. probs ! j * (log_probs ! j + entropy) * (- d)) [0..<length logits])
      in map (\<lambda>d. d / temperature) (map2 (+) from_log_prob from_entropy))"

definition nth_opt :: "real list option \<Rightarrow> nat \<Rightarrow> real option" where
  "nth_opt xs i = map_option (\<lambda>l. l ! i) xs"

definition fused_linear_for_ppo_bwd ::
  "real \<Rightarrow> mat \<Rightarrow> real list option \<Rightarrow> real list option \<Rightarrow> mat \<Rightarrow> nat list \<Rightarrow> mat \<times> mat" where
  "fused_linear_for_ppo_bwd temperature vocab_weights dlog_probs dentropy hidden_states input_ids =
     (let dlogits = map (\<lambda>i. ppo_dlogits temperature vocab_weights (nth_opt dlog_probs i) (nth_opt dentropy i) (hidden_states ! i) (input_ids ! i))
            [0..<length hidden_states]
      in (matmul dlogits vocab_weights, matmul (transposed (length vocab_weights) dlogits) hidden_states))"

definition chunk_backward ::
  "nat \<Rightarrow> real \<Rightarrow> mat \<Rightarrow> real list option \<Rightarrow> real list option \<Rightarrow> mat \<Rightarrow> nat list \<Rightarrow> nat \<Rightarrow> mat \<times> mat \<Rightarrow> mat \<times> mat" where
  "chunk_backward chunk_size temperature vocab_weights dlog_probs dentropy hidden_states input_ids chunk_start = (\<lambda>(dhidden, dvocab).
     let chunk_end = min (chunk_start + chunk_size) (length hidden_states);
         (h, v) = fused_linear_for_ppo_bwd temperature vocab_weights (map_option (slice chunk_start chunk_end) dlog_probs)
           (map_option (slice chunk_start chunk_end) dentropy) (slice chunk_start chunk_end hidden_states) (slice chunk_start chunk_end input_ids)
     in (put_slice dhidden chunk_start (mat_map2 (+) (slice chunk_start chunk_end dhidden) h), mat_map2 (+) dvocab v))"

definition fused_linear_backward ::
  "nat \<Rightarrow> real \<Rightarrow> mat \<Rightarrow> real list option \<Rightarrow> real list option \<Rightarrow> mat \<Rightarrow> nat list \<Rightarrow> (mat \<times> mat) result" where
  "fused_linear_backward chunk_size temperature vocab_weights dlog_probs dentropy hidden_states input_ids =
     res_bind (py_assert (dlog_probs \<noteq> None \<or> dentropy \<noteq> None)) (\<lambda>_.
     if chunk_size = 0 then Inl ValueError
     else Inr (fold (chunk_backward chunk_size temperature vocab_weights dlog_probs dentropy hidden_states input_ids)
       (chunk_starts (length hidden_states) chunk_size)
       (map (\<lambda>h. map (\<lambda>_. 0) h) hidden_states, map (\<lambda>w. map (\<lambda>_. 0) w) vocab_weights)))"

section \<open>Entropies over sharded logits\<close>

text \<open>The shards of the logits of a token, one for each rank of the tensor-parallel group.\<close>

definition shard_max :: "mat \<Rightarrow> real" where
  "shard_max shards = Max (set (map (\<lambda>shard. Max (set shard)) shards))"

definition shard_exp :: "mat \<Rightarrow> mat" where
  "shard_exp shards = map (map (\<lambda>x. exp (x - shard_max shards))) shards"

definition shard_softmax :: "mat \<Rightarrow> mat" where
  "shard_softmax shards = (let ztot = sum_list (map sum_list (shard_exp shards)) in map (map (\<lambda>e. e / ztot)) (shard_exp shards))"

definition sum_softmax_times_logits :: "mat \<Rightarrow> real" where
  "sum_softmax_times_logits shards = sum_list (map2 (\<lambda>p x. sum_list (map2 (*) p x)) (shard_softmax shards) shards)"

definition vocab_parallel_entropy :: "mat \<Rightarrow> real" where
  "vocab_parallel_entropy shards =
     shard_max shards + ln (sum_list (map sum_list (shard_exp shards))) - sum_softmax_times_logits shards"

definition vocab_parallel_entropy_backward :: "mat \<Rightarrow> real \<Rightarrow> mat" where
  "vocab_parallel_entropy_backward shards grad_output =
     map2 (map2 (\<lambda>p x. p * (x - sum_softmax_times_logits shards) * grad_output * - 1)) (shard_softmax shards) shards"

definition vocab_parallel_sum_pi_squared :: "mat \<Rightarrow> real" where
  "vocab_parallel_sum_pi_squared shards =
     sum_list (map (\<lambda>es. \<Sum>e \<leftarrow> es. e ^ 2) (shard_exp shards)) / (sum_list (map sum_list (shard_exp shards))) ^ 2"

definition calculate_sum_pi_squared_from_logits :: "real list \<Rightarrow> real" where
  "calculate_sum_pi_squared_from_logits logits = exp (log_sum_exp (map (\<lambda>x. 2 * x) logits) - 2 * log_sum_exp logits)"

section \<open>Lemmas on chunks\<close>

lemma chunk_induct:
  assumes "0 < c" "P 0 s" "\<And>a s. a < n \<Longrightarrow> P a s \<Longrightarrow> P (min (a + c) n) (f a s)"
  shows "P n (fold f (chunk_starts n c) s)"
proof -
  have "P (min (m * c) n) (fold f (map (\<lambda>i. i * c) [0..<m]) s)" if "m \<le> tl_cdiv n c" for m
    using that
  proof (induction m)
    case (Suc m)
    have lt: "m * c < n" using cdiv_tight[OF assms(1)] Suc.prems by simp
    have "P (m * c) (fold f (map (\<lambda>i. i * c) [0..<m]) s)" using Suc lt by simp
    then have "P (min (m * c + c) n) (f (m * c) (fold f (map (\<lambda>i. i * c) [0..<m]) s))" by (rule assms(3)[OF lt])
    then show ?case by (simp add: add.commute)
  qed (use assms(2) in simp)
  then have "P (min (tl_cdiv n c * c) n) (fold f (map (\<lambda>i. i * c) [0..<tl_cdiv n c]) s)" by blast
  then show ?thesis using cdiv_covers[OF assms(1), of n] by (simp add: chunk_starts_def)
qed

lemma map_slice: "map f (slice a b xs) = slice a b (map f xs)"
  by (simp add: slice_def drop_map take_map)

lemma map2_slice: "map2 f (slice a b xs) (slice a b ys) = slice a b (map2 f xs ys)"
  by (simp add: slice_def drop_map take_map take_zip drop_zip)

lemma put_slice_fill:
  assumes "a \<le> b" "b \<le> length xs"
  shows "put_slice (take a xs @ replicate (length xs - a) z) a (slice a b xs) = take b xs @ replicate (length xs - b) z"
proof -
  have "take a xs @ slice a b xs = take b xs" using assms(1) by (simp add: slice_def) (metis append_take_drop_id min.absorb1 take_take)
  moreover have "length (slice a b xs) = b - a" using assms(2) by (simp add: slice_def)
  ultimately show ?thesis using assms by (simp add: put_slice_def)
qed

lemma ppo_logits_head: "ppo_logits temperature weight h = head_logits (1 / temperature) h weight"
  by (simp add: ppo_logits_def head_logits_def)

lemma ppo_entropy_eq: "ppo_entropy logits = entropy_from_logits logits"
  by (simp add: ppo_entropy_def entropy_from_logits_def softmax_def map2_map_left[where h = id, simplified] comp_def)

lemma log_softmax_nth: "y < length logits \<Longrightarrow> log_softmax logits ! y = log_prob logits y"
  by (simp add: log_softmax_def log_prob_def)

text \<open>
  The chunked head computes the head: for any chunk size the log probabilities and entropies are those of the whole
  batch, the same that the kernels return.
\<close>

theorem chunked_forward_correct:
  assumes "0 < chunk_size" "length input_ids = length hidden" "\<forall>y \<in> set input_ids. y < length weight"
  shows "fused_linear_forward chunk_size temperature weight hidden input_ids =
    Inr (map2 (\<lambda>h y. log_prob (head_logits (1 / temperature) h weight) y) hidden input_ids,
         map (\<lambda>h. entropy_from_logits (head_logits (1 / temperature) h weight)) hidden)"
proof -
  let ?T = "length hidden"
  let ?A = "map2 (\<lambda>h y. log_prob (head_logits (1 / temperature) h weight) y) hidden input_ids"
  let ?E = "map (\<lambda>h. entropy_from_logits (head_logits (1 / temperature) h weight)) hidden"
  let ?f = "\<lambda>chunk_start (log_probs, entropy).
          let chunk_end = min (chunk_start + chunk_size) ?T;
              (chunk_log_probs, chunk_entropy) = fused_linear_for_ppo_fwd temperature weight
                (slice chunk_start chunk_end hidden) (slice chunk_start chunk_end input_ids)
          in (put_slice log_probs chunk_start chunk_log_probs, put_slice entropy chunk_start chunk_entropy)"
  let ?P = "\<lambda>a s. s = (take a ?A @ replicate (?T - a) 0, take a ?E @ replicate (?T - a) 0)"
  have lens: "length ?A = ?T" "length ?E = ?T" using assms(2) by simp_all
  have fwd: "fused_linear_for_ppo_fwd temperature weight (slice a b hidden) (slice a b input_ids) = (slice a b ?A, slice a b ?E)" for a b
  proof -
    have "map2 (\<lambda>l y. log_softmax l ! y) (map (ppo_logits temperature weight) hidden) input_ids = ?A"
      using assms(2,3) by (intro nth_equalityI) (simp_all add: ppo_logits_head log_softmax_nth head_logits_def)
    moreover have "map ppo_entropy (map (ppo_logits temperature weight) hidden) = ?E" by (simp add: ppo_logits_head ppo_entropy_eq)
    ultimately show ?thesis unfolding fused_linear_for_ppo_fwd_def Let_def map_slice map2_slice by (simp only:)
  qed
  have "?P ?T (fold ?f (chunk_starts ?T chunk_size) (replicate ?T 0, replicate ?T 0))"
  proof (rule chunk_induct[where P = ?P and f = ?f, OF assms(1)])
    fix a s assume a: "a < ?T" and P: "?P a s"
    have "a \<le> min (a + chunk_size) ?T" "min (a + chunk_size) ?T \<le> ?T" using a by simp_all
    note put_slice_fill[OF this(1), of ?A 0] put_slice_fill[OF this(1), of ?E 0]
    then show "?P (min (a + chunk_size) ?T) (?f a s)" unfolding P prod.case Let_def fwd lens by simp
  qed simp
  then show ?thesis using assms(1) lens by (simp add: fused_linear_forward_def)
qed

theorem chunked_forward_correct_witness:
  "\<exists>lp ent. fused_linear_forward 1 2 demo_weight [replicate 128 1, replicate 128 2] [1, 0] = Inr (lp, ent) \<and> length ent = 2"
  using chunked_forward_correct[of 1 "[1, 0]" "[replicate 128 1, replicate 128 2]" demo_weight 2] by (simp add: demo_weight_def)

definition opt_grad :: "real list option \<Rightarrow> nat \<Rightarrow> real list" where
  "opt_grad d n = (case d of None \<Rightarrow> replicate n 0 | Some l \<Rightarrow> l)"

lemma ppo_dlogits_eq:
  fixes temperature :: real and h :: "real list" and weight :: mat
  assumes "i < n" "\<And>l. dl = Some l \<Longrightarrow> length l = n" "\<And>l. de = Some l \<Longrightarrow> length l = n"
  defines "l \<equiv> logit_at (1 / temperature) h weight"
  shows "ppo_dlogits temperature weight (nth_opt dl i) (nth_opt de i) h y =
    map (\<lambda>j. 1 / temperature * logit_grad l (length weight) y (opt_grad dl n ! i) (opt_grad de n ! i) j) [0..<length weight]"
proof -
  let ?V = "length weight" and ?L = "ppo_logits temperature weight h"
  have L: "?L = map l [0..<?V]" by (simp add: ppo_logits_head head_logits_upt l_def)
  have Z: "(\<Sum>x \<leftarrow> map l [0..<?V]. exp x) = z_sum l ?V"
    by (simp add: z_sum_def comp_def interv_sum_list_conv_sum_set_nat atLeast0LessThan)
  have probs: "softmax ?L ! j = exp (l j) / z_sum l ?V" if "j < ?V" for j using that unfolding L softmax_def Z by simp
  have lp: "log_softmax ?L ! j + ppo_entropy ?L = l j - mean_logit l ?V" if "j < ?V" for j
    using that unfolding L log_softmax_def ppo_entropy_eq entropy_z log_sum_exp_z by simp
  have len: "length ?L = ?V" by (simp add: L)
  have a: "(case nth_opt dl i of None \<Rightarrow> map (\<lambda>_. 0) ?L | Some d \<Rightarrow> map (\<lambda>j. d * ((if j = y then 1 else 0) - softmax ?L ! j)) [0..<length ?L]) =
      map (\<lambda>j. opt_grad dl n ! i * ((if j = y then 1 else 0) - exp (l j) / z_sum l ?V)) [0..<?V]"
    using assms(1) by (cases dl) (auto simp: nth_opt_def opt_grad_def len probs intro!: nth_equalityI)
  have b: "(case nth_opt de i of None \<Rightarrow> map (\<lambda>_. 0) ?L | Some d \<Rightarrow> map (\<lambda>j. softmax ?L ! j * (log_softmax ?L ! j + ppo_entropy ?L) * (- d)) [0..<length ?L]) =
      map (\<lambda>j. exp (l j) / z_sum l ?V * (l j - mean_logit l ?V) * (- (opt_grad de n ! i))) [0..<?V]"
    using assms(1) by (cases de) (auto simp: nth_opt_def opt_grad_def len probs lp intro!: nth_equalityI)
  have swap: "e / z * u * (- d) = d * (- e / z) * u" for e z u d :: real by (simp add: divide_inverse mult_ac)
  show ?thesis
    unfolding ppo_dlogits_def Let_def a b
    unfolding map2_map_left
    unfolding map_map comp_def logit_grad_def swap by (rule map_cong) (simp_all add: mult.commute divide_inverse)
qed

lemma nth_opt_slice: "a + i < b \<Longrightarrow> \<forall>l. d = Some l \<longrightarrow> b \<le> length l \<Longrightarrow> nth_opt (map_option (slice a b) d) i = nth_opt d (a + i)"
  by (cases d) (auto simp: nth_opt_def slice_def)

lemma chunk_bwd_eq:
  fixes temperature :: real and hidden weight :: mat and input_ids :: "nat list" and dl de :: "real list option"
  assumes "a < b" "b \<le> length hidden" "same_width hidden weight" "length input_ids = length hidden"
    "\<forall>l. dl = Some l \<longrightarrow> length l = length hidden" "\<forall>l. de = Some l \<longrightarrow> length l = length hidden"
  defines "D \<equiv> \<lambda>i j. 1 / temperature * logit_grad (logit_at (1 / temperature) (hidden ! i) weight) (length weight) (input_ids ! i)
      (opt_grad dl (length hidden) ! i) (opt_grad de (length hidden) ! i) j"
  shows "fused_linear_for_ppo_bwd temperature weight (map_option (slice a b) dl) (map_option (slice a b) de) (slice a b hidden) (slice a b input_ids) =
    (map (\<lambda>i. map (\<lambda>k. \<Sum>j<length weight. D i j * weight ! j ! k) [0..<length (hd hidden)]) [a..<b],
     map (\<lambda>j. map (\<lambda>k. \<Sum>i = a..<b. D i j * hidden ! i ! k) [0..<length (hd hidden)]) [0..<length weight])"
proof -
  let ?V = "length weight" and ?H = "length (hd hidden)" and ?part = "slice a b hidden"
  have ne: "weight \<noteq> []" "length (hd weight) = ?H" using same_width_rows(4)[OF assms(3)] assms(3) by (simp_all add: same_width_def)
  have part: "length ?part = b - a" "?part \<noteq> []" "length (hd ?part) = ?H"
    using assms(1,2) same_width_rows(2)[OF assms(3), of a] by (simp_all add: slice_def hd_drop_conv_nth)
  have nth: "?part ! i = hidden ! (a + i)" "slice a b input_ids ! i = input_ids ! (a + i)" if "i < b - a" for i
    using that assms(2,4) by (simp_all add: slice_def)
  have rows: "map (\<lambda>i. ppo_dlogits temperature weight (nth_opt (map_option (slice a b) dl) i) (nth_opt (map_option (slice a b) de) i) (?part ! i)
       (slice a b input_ids ! i)) [0..<length ?part] = map (\<lambda>i. map (D (a + i)) [0..<?V]) [0..<b - a]"
  proof (rule map_cong)
    fix i assume "i \<in> set [0..<b - a]"
    then have i: "i < b - a" "a + i < b" "a + i < length hidden" using assms(2) by auto
    show "ppo_dlogits temperature weight (nth_opt (map_option (slice a b) dl) i) (nth_opt (map_option (slice a b) de) i) (?part ! i)
       (slice a b input_ids ! i) = map (D (a + i)) [0..<?V]"
      unfolding nth[OF i(1)] D_def
      by (subst (1 2) nth_opt_slice[OF i(2)], use assms(2,5,6) in simp, use assms(2,5,6) in simp, rule ppo_dlogits_eq[OF i(3)])
        (use assms(5,6) in blast)+
  qed (simp add: part(1))
  have p1: "matmul (map (\<lambda>i. map (D (a + i)) [0..<?V]) [0..<b - a]) weight = map (\<lambda>i. map (\<lambda>k. \<Sum>j<?V. D i j * weight ! j ! k) [0..<?H]) [a..<b]"
    unfolding matmul_weight[OF ne] using assms(1) by (intro nth_equalityI) simp_all
  have shift: "(\<Sum>i<b - a. D (a + i) j * ?part ! i ! k) = (\<Sum>i = a..<b. D i j * hidden ! i ! k)" for j k
    using sum.shift_bounds_nat_ivl[of "\<lambda>i. D i j * hidden ! i ! k" 0 a "b - a"] assms(1) nth(1) by (simp add: atLeast0LessThan add.commute)
  have p2: "matmul (transposed ?V (map (\<lambda>i. map (D (a + i)) [0..<?V]) [0..<b - a])) ?part =
      map (\<lambda>j. map (\<lambda>k. \<Sum>i = a..<b. D i j * hidden ! i ! k) [0..<?H]) [0..<?V]"
    unfolding transposed_map using matmul_weight[OF part(2,3), of "\<lambda>j i. D (a + i) j" "[0..<?V]"] by (simp only: part(1) shift)
  show ?thesis unfolding fused_linear_for_ppo_bwd_def Let_def rows p1 p2 by (rule refl)
qed

lemma chunked_backward_closed:
  fixes temperature :: real and hidden weight :: mat and input_ids :: "nat list" and dl de :: "real list option"
  assumes "0 < chunk_size" "same_width hidden weight" "length input_ids = length hidden" "dl \<noteq> None \<or> de \<noteq> None"
    "\<forall>l. dl = Some l \<longrightarrow> length l = length hidden" "\<forall>l. de = Some l \<longrightarrow> length l = length hidden"
  defines "D \<equiv> \<lambda>i j. 1 / temperature * logit_grad (logit_at (1 / temperature) (hidden ! i) weight) (length weight) (input_ids ! i)
      (opt_grad dl (length hidden) ! i) (opt_grad de (length hidden) ! i) j"
  shows "fused_linear_backward chunk_size temperature weight dl de hidden input_ids =
    Inr (map (\<lambda>i. map (\<lambda>k. \<Sum>j<length weight. D i j * weight ! j ! k) [0..<length (hd hidden)]) [0..<length hidden],
         map (\<lambda>j. map (\<lambda>k. \<Sum>i<length hidden. D i j * hidden ! i ! k) [0..<length (hd hidden)]) [0..<length weight])"
proof -
  let ?V = "length weight" and ?H = "length (hd hidden)" and ?T = "length hidden"
  let ?R = "\<lambda>i. map (\<lambda>k. \<Sum>j<?V. D i j * weight ! j ! k) [0..<?H]"
  let ?zeros = "map (\<lambda>_. 0 :: real) [0..<?H]"
  let ?W = "\<lambda>S. map (\<lambda>j. map (\<lambda>k. \<Sum>i\<in>S. D i j * hidden ! i ! k) [0..<?H]) [0..<?V]"
  let ?f = "chunk_backward chunk_size temperature weight dl de hidden input_ids"
  let ?P = "\<lambda>a s. s = (map ?R [0..<a] @ replicate (?T - a) ?zeros, ?W {..<a})"
  have "?P ?T (fold ?f (chunk_starts ?T chunk_size) (map (\<lambda>h. map (\<lambda>_. 0) h) hidden, map (\<lambda>w. map (\<lambda>_. 0) w) weight))"
  proof (rule chunk_induct[where P = ?P and f = ?f, OF assms(1)])
    show "?P 0 (map (\<lambda>h. map (\<lambda>_. 0) h) hidden, map (\<lambda>w. map (\<lambda>_. 0) w) weight)"
      using same_width_rows(2,3)[OF assms(2)] by (auto intro!: nth_equalityI)
  next
    fix a s assume a: "a < ?T" and P: "?P a s"
    let ?b = "min (a + chunk_size) ?T"
    have b: "a < ?b" "?b \<le> ?T" using a assms(1) by simp_all
    have bwd: "fused_linear_for_ppo_bwd temperature weight (map_option (slice a ?b) dl) (map_option (slice a ?b) de) (slice a ?b hidden) (slice a ?b input_ids) =
        (map ?R [a..<?b], ?W {a..<?b})"
      unfolding D_def by (rule chunk_bwd_eq[OF b assms(2,3,5,6)])
    have "slice a ?b (map ?R [0..<a] @ replicate (?T - a) ?zeros) = replicate (?b - a) ?zeros"
      using b by (simp add: slice_def)
    then have add: "mat_map2 (+) (slice a ?b (map ?R [0..<a] @ replicate (?T - a) ?zeros)) (map ?R [a..<?b]) = map ?R [a..<?b]"
      using b by (intro nth_equalityI) (simp_all add: mat_map2_def map2_map_left)
    have "put_slice (map ?R [0..<a] @ replicate (?T - a) ?zeros) a (map ?R [a..<?b]) = map ?R [0..<?b] @ replicate (?T - ?b) ?zeros"
    proof -
      have "[0..<?b] = [0..<a] @ [a..<?b]" using b by (metis le_add_diff_inverse less_imp_le upt_add_eq_append zero_le)
      then show ?thesis using b by (simp add: put_slice_def)
    qed
    moreover have "mat_map2 (+) (?W {..<a}) (?W {a..<?b}) = ?W {..<?b}"
    proof -
      have "{..<?b} = {..<a} \<union> {a..<?b}" using b(1) by auto
      then have "(\<Sum>i<a. x i) + (\<Sum>i = a..<?b. x i) = (\<Sum>i<?b. x i)" for x :: "nat \<Rightarrow> real"
        by (simp only: sum.union_disjoint finite_lessThan finite_atLeastLessThan ivl_disj_int)
      then show ?thesis unfolding mat_map2_def map2_map_left by (simp only:)
    qed
    ultimately show "?P ?b (?f a s)" unfolding P chunk_backward_def prod.case Let_def bwd prod.case add by (simp only:)
  qed
  then show ?thesis using assms(1,4) by (simp add: fused_linear_backward_def)
qed

text \<open>
  C37: the chunked backward pass computes the gradient: for any chunk size, and when one of the upstream gradients is
  missing, both results are the partial derivatives of the loss.
\<close>

theorem chunked_backward_is_gradient:
  assumes "0 < chunk_size" "same_width hidden weight" "length input_ids = length hidden" "\<forall>y \<in> set input_ids. y < length weight"
    "dl \<noteq> None \<or> de \<noteq> None" "\<forall>l. dl = Some l \<longrightarrow> length l = length hidden" "\<forall>l. de = Some l \<longrightarrow> length l = length hidden"
  shows "\<exists>d_hidden d_weight. fused_linear_backward chunk_size temperature weight dl de hidden input_ids = Inr (d_hidden, d_weight) \<and>
    (\<forall>i < length hidden. \<forall>k < length (hd hidden).
      ((\<lambda>x. head_loss (1 / temperature) input_ids (opt_grad dl (length hidden)) (opt_grad de (length hidden))
          (hidden[i := (hidden ! i)[k := x]]) weight) has_real_derivative d_hidden ! i ! k) (at (hidden ! i ! k))) \<and>
    (\<forall>j < length weight. \<forall>k < length (hd hidden).
      ((\<lambda>x. head_loss (1 / temperature) input_ids (opt_grad dl (length hidden)) (opt_grad de (length hidden))
          hidden (weight[j := (weight ! j)[k := x]])) has_real_derivative d_weight ! j ! k) (at (weight ! j ! k)))"
proof -
  have y: "\<forall>i < length hidden. input_ids ! i < length weight" using assms(3,4) by simp
  let ?g = "\<lambda>i j. logit_grad (logit_at (1 / temperature) (hidden ! i) weight) (length weight) (input_ids ! i)
      (opt_grad dl (length hidden) ! i) (opt_grad de (length hidden) ! i) j"
  define d_hidden where "d_hidden =
    map (\<lambda>i. map (\<lambda>k. \<Sum>j<length weight. 1 / temperature * ?g i j * weight ! j ! k) [0..<length (hd hidden)]) [0..<length hidden]"
  define d_weight where "d_weight =
    map (\<lambda>j. map (\<lambda>k. \<Sum>i<length hidden. 1 / temperature * ?g i j * hidden ! i ! k) [0..<length (hd hidden)]) [0..<length weight]"
  have scale: "1 / t * x * w = w * (1 / t) * x" for t x w :: real by simp
  have h: "d_hidden ! i ! k = (\<Sum>j<length weight. weight ! j ! k * (1 / temperature) * ?g i j)" if "i < length hidden" "k < length (hd hidden)" for i k
    using that unfolding d_hidden_def scale by (simp only: nth_map_upt length_upt add_0 diff_zero)
  have w: "d_weight ! j ! k = (\<Sum>i<length hidden. hidden ! i ! k * (1 / temperature) * ?g i j)" if "j < length weight" "k < length (hd hidden)" for j k
    using that unfolding d_weight_def scale by (simp only: nth_map_upt length_upt add_0 diff_zero)
  have "((\<lambda>x. head_loss (1 / temperature) input_ids (opt_grad dl (length hidden)) (opt_grad de (length hidden))
          (hidden[i := (hidden ! i)[k := x]]) weight) has_real_derivative d_hidden ! i ! k) (at (hidden ! i ! k))"
    if "i < length hidden" "k < length (hd hidden)" for i k
    unfolding h[OF that] by (rule loss_by_hidden[OF assms(2) that y])
  moreover have "((\<lambda>x. head_loss (1 / temperature) input_ids (opt_grad dl (length hidden)) (opt_grad de (length hidden))
          hidden (weight[j := (weight ! j)[k := x]])) has_real_derivative d_weight ! j ! k) (at (weight ! j ! k))"
    if "j < length weight" "k < length (hd hidden)" for j k
    unfolding w[OF that] by (rule loss_by_weight[OF assms(2) that y])
  moreover have "fused_linear_backward chunk_size temperature weight dl de hidden input_ids = Inr (d_hidden, d_weight)"
    unfolding d_hidden_def d_weight_def by (rule chunked_backward_closed[OF assms(1-3,5-7)])
  ultimately show ?thesis by - (rule exI[of _ d_hidden], rule exI[of _ d_weight], simp)
qed

theorem chunked_backward_is_gradient_witness:
  "\<exists>d_hidden d_weight. fused_linear_backward 1 2 [[1, 0], [0, 1]] None (Some [1, 3]) [[1, 2], [2, 1]] [0, 1] = Inr (d_hidden, d_weight) \<and>
     ((\<lambda>x. head_loss (1 / 2) [0, 1] [0, 0] [1, 3] [[x, 2], [2, 1]] [[1, 0], [0, 1]]) has_real_derivative d_hidden ! 0 ! 0) (at 1)"
proof -
  have "same_width [[1, 2], [2, 1]] [[1, 0], [0, 1]]" by (simp add: same_width_def)
  from chunked_backward_is_gradient[of 1, OF _ this, of "[0, 1]" None "Some [1, 3]" 2]
  obtain d_hidden d_weight where f: "fused_linear_backward 1 2 [[1, 0], [0, 1]] None (Some [1, 3]) [[1, 2], [2, 1]] [0, 1] = Inr (d_hidden, d_weight)"
    "\<forall>i < length [[1, 2], [2, 1 :: real]]. \<forall>k < length (hd [[1, 2], [2, 1 :: real]]).
      ((\<lambda>x. head_loss (1 / 2) [0, 1] (opt_grad None (length [[1, 2], [2, 1 :: real]])) (opt_grad (Some [1, 3]) (length [[1, 2], [2, 1 :: real]]))
          ([[1, 2], [2, 1]][i := ([[1, 2], [2, 1]] ! i)[k := x]]) [[1, 0], [0, 1]]) has_real_derivative d_hidden ! i ! k) (at ([[1, 2], [2, 1]] ! i ! k))"
    by auto
  from f(2)[rule_format, of 0 0] show ?thesis using f(1) by (auto simp: opt_grad_def numeral_2_eq_2)
qed

section \<open>Sharded entropies: properties\<close>

lemma concat_update:
  assumes "r < length xss" "c < length (xss ! r)"
  shows "concat (xss[r := (xss ! r)[c := x]]) = (concat xss)[length (concat (take r xss)) + c := x]"
    "concat xss ! (length (concat (take r xss)) + c) = xss ! r ! c" "length (concat (take r xss)) + c < length (concat xss)"
  using assms
proof (induction xss arbitrary: r)
  case (Cons xs xss)
  { case 1 then show ?case using Cons.IH(1)[of "r - 1"] by (cases r) (simp_all add: list_update_append add.assoc) }
  { case 2 then show ?case using Cons.IH(2)[of "r - 1"] by (cases r) (simp_all add: nth_append add.assoc) }
  { case 3 then show ?case using Cons.IH(3)[of "r - 1"] by (cases r) (simp_all add: add.assoc) }
qed simp_all

lemma sum_shards: "sum_list (map sum_list (map (map f) xss)) = (\<Sum>x \<leftarrow> concat xss. f x)"
  by (induction xss) (simp_all add: comp_def)

lemma sum_shards2: "sum_list (map2 (\<lambda>p x. sum_list (map2 (*) p x)) (map (map f) xss) xss) = (\<Sum>x \<leftarrow> concat xss. f x * x)" for f :: "real \<Rightarrow> real"
proof (induction xss)
  case (Cons xs xss)
  have "sum_list (map2 (*) (map f xs) xs) = (\<Sum>x \<leftarrow> xs. f x * x)" by (induction xs) simp_all
  then show ?case using Cons by simp
qed simp

lemma shard_sums:
  fixes shards :: mat
  defines "ztot \<equiv> (\<Sum>x \<leftarrow> concat shards. exp x)"
  shows "sum_list (map sum_list (shard_exp shards)) = exp (- shard_max shards) * ztot"
    "shard_softmax shards = map (map (\<lambda>x. exp x / ztot)) shards"
    "sum_softmax_times_logits shards = (\<Sum>x \<leftarrow> concat shards. exp x / ztot * x)"
proof -
  have shift: "exp (x - shard_max shards) = exp (- shard_max shards) * exp x" for x by (simp add: exp_add[symmetric])
  show sums: "sum_list (map sum_list (shard_exp shards)) = exp (- shard_max shards) * ztot"
    unfolding shard_exp_def sum_shards shift ztot_def by (simp add: sum_list_const_mult)
  show softmax: "shard_softmax shards = map (map (\<lambda>x. exp x / ztot)) shards"
    unfolding shard_softmax_def sums Let_def unfolding shard_exp_def shift by (simp add: comp_def)
  show "sum_softmax_times_logits shards = (\<Sum>x \<leftarrow> concat shards. exp x / ztot * x)"
    unfolding sum_softmax_times_logits_def softmax by (rule sum_shards2)
qed

lemma total_pos: "xs \<noteq> [] \<Longrightarrow> 0 < (\<Sum>x \<leftarrow> xs. exp x)" for xs :: "real list"
  by (induction xs rule: list_nonempty_induct) (simp_all add: add_pos_pos)

text \<open>
  The sharded entropy is the entropy, and so is its gradient: the ranks of a tensor-parallel group return the entropy of the whole
  vocabulary, the backward pass gives every rank the partial derivatives by its own logits, and the sum of squared
  probabilities agrees with the unsharded routine.
\<close>

theorem vocab_parallel_correct:
  assumes "concat shards \<noteq> []"
  shows "vocab_parallel_entropy shards = entropy_from_logits (concat shards) \<and>
    vocab_parallel_sum_pi_squared shards = calculate_sum_pi_squared_from_logits (concat shards) \<and>
    calculate_sum_pi_squared_from_logits (concat shards) = (\<Sum>p \<leftarrow> softmax (concat shards). p ^ 2) \<and>
    (\<forall>r < length shards. \<forall>c < length (shards ! r).
      ((\<lambda>x. grad_output * entropy_from_logits (concat (shards[r := (shards ! r)[c := x]]))) has_real_derivative
        vocab_parallel_entropy_backward shards grad_output ! r ! c) (at (shards ! r ! c)))"
proof -
  let ?L = "concat shards"
  define ztot where "ztot = (\<Sum>x \<leftarrow> ?L. exp x)"
  note sums = shard_sums[of shards, folded ztot_def]
  have pos: "0 < ztot" unfolding ztot_def using assms by (rule total_pos)
  have entropy: "vocab_parallel_entropy shards = entropy_from_logits ?L"
    using pos by (simp add: vocab_parallel_entropy_def entropy_from_logits_def log_sum_exp_def sums ln_mult ztot_def)
  have squares: "(\<Sum>p \<leftarrow> softmax ?L. p ^ 2) = (\<Sum>x \<leftarrow> ?L. exp x ^ 2) / ztot ^ 2"
    unfolding softmax_def ztot_def[symmetric]
    by (simp add: comp_def divide_inverse power_mult_distrib power_inverse sum_list_mult_const)
  have double: "(\<Sum>x \<leftarrow> ?L. exp (2 * x)) = (\<Sum>x \<leftarrow> ?L. exp x ^ 2)" by (simp add: exp_double)
  have "0 < (\<Sum>x \<leftarrow> map (\<lambda>x. 2 * x) ?L. exp x)" using assms by (intro total_pos) simp
  then have "0 < (\<Sum>x \<leftarrow> ?L. exp x ^ 2)" using double by (simp add: comp_def)
  then have calc: "calculate_sum_pi_squared_from_logits ?L = (\<Sum>x \<leftarrow> ?L. exp x ^ 2) / ztot ^ 2"
    using pos by (simp add: calculate_sum_pi_squared_from_logits_def log_sum_exp_def comp_def double ztot_def[symmetric] exp_diff exp_double)
  have "(\<Sum>es \<leftarrow> shard_exp shards. \<Sum>e \<leftarrow> es. e ^ 2) = (\<Sum>x \<leftarrow> ?L. exp (x - shard_max shards) ^ 2)"
    unfolding shard_exp_def using sum_shards[of "\<lambda>x. exp (x - shard_max shards) ^ 2" shards] by (simp add: comp_def)
  also have "\<dots> = exp (- shard_max shards) ^ 2 * (\<Sum>x \<leftarrow> ?L. exp x ^ 2)"
    by (simp add: sum_list_const_mult[symmetric] exp_diff exp_minus power_divide divide_inverse power_mult_distrib mult.commute)
  finally have pi: "vocab_parallel_sum_pi_squared shards = (\<Sum>x \<leftarrow> ?L. exp x ^ 2) / ztot ^ 2"
    unfolding vocab_parallel_sum_pi_squared_def sums(1) by (simp add: power_mult_distrib)
  have grad: "((\<lambda>x. grad_output * entropy_from_logits (concat (shards[r := (shards ! r)[c := x]]))) has_real_derivative
        vocab_parallel_entropy_backward shards grad_output ! r ! c) (at (shards ! r ! c))"
    if rc: "r < length shards" "c < length (shards ! r)" for r c
  proof -
    let ?n = "length ?L"
    define q where "q = length (concat (take r shards)) + c"
    have q: "concat (shards[r := (shards ! r)[c := x]]) = ?L[q := x]" "?L ! q = shards ! r ! c" "q < ?n" for x
      using concat_update[OF rc] by (simp_all add: q_def)
    have upd: "?L[q := x] = map (\<lambda>j. if j = q then x else ?L ! j) [0..<?n]" for x by (intro nth_equalityI) (auto simp: nth_list_update)
    have lin: "((\<lambda>x. if j = q then x else ?L ! j) has_real_derivative (if j = q then 1 else 0)) (at (?L ! q))" for j by simp
    have l: "(\<lambda>j. if j = q then ?L ! q else ?L ! j) = (!) ?L" by auto
    have z: "z_sum ((!) ?L) ?n = ztot" "mean_logit ((!) ?L) ?n = sum_softmax_times_logits shards"
      using entropy_z[of "(!) ?L" ?n] log_sum_exp_z[of "(!) ?L" ?n]
      by (simp_all add: map_nth entropy_from_logits_def sums(3) ztot_def[symmetric] z_sum_def sum_list_sum_nth atLeast0LessThan ztot_def)
    have "((\<lambda>x. grad_output * entropy_from_logits (?L[q := x])) has_real_derivative
        grad_output * (- exp (?L ! q) / ztot) * (?L ! q - sum_softmax_times_logits shards)) (at (?L ! q))"
      using token_loss_deriv[where l = "\<lambda>j x. if j = q then x else ?L ! j" and c = "\<lambda>j. if j = q then 1 else 0" and a = 0 and b = grad_output, OF lin q(3)]
      unfolding upd entropy_z l logit_grad_def z using q(3) by (simp add: if_distrib[of "\<lambda>x. x * _"] sum.delta sum_negf sum_divide_distrib[symmetric] cong: if_cong)
    moreover have "vocab_parallel_entropy_backward shards grad_output ! r ! c =
        grad_output * (- exp (?L ! q) / ztot) * (?L ! q - sum_softmax_times_logits shards)"
      using rc q(2) by (simp add: vocab_parallel_entropy_backward_def sums(2))
    ultimately show ?thesis unfolding q(1) q(2)[symmetric] by simp
  qed
  show ?thesis using entropy squares calc pi grad by simp
qed

theorem vocab_parallel_correct_witness: "vocab_parallel_entropy [[1], [1]] = entropy_from_logits [1, 1]"
  using vocab_parallel_correct[of "[[1], [1]]"] by simp

end
