(* ===== verification/Delta_Wire.thy ===== *)
theory Delta_Wire
  imports "HOL-Library.Word" Prelude
begin

unbundle bit_operations_syntax

text \<open>
  The wire of the sparse weight synchronisation: the flush and its manifest
  (\<open>src/verl/verl/checkpoint_engine/delta_sync/encode.py\<close>), what
  \<open>src/verl/verl/checkpoint_engine/delta_checkpoint_engine.py\<close> publishes and receives, and the loader
  \<open>src/verl/verl/workers/rollout/sglang_rollout/delta_loader.py\<close> that applies a flush to the live weights.
  A value is the word of its bits (the differ and the wire never compute with values), a tensor the list of its
  elements in row-major order. All values of a flush have one dtype, as the wire contract of the loader says, so
  the casts between equal dtypes are the identity. \<open>torch.hash_tensor\<close> is a parameter, and so is the layout of the
  serving engine: \<open>slots name\<close> are the pieces of live parameters that \<open>load_weights\<close> fills from the tensor \<open>name\<close>
  (one per fused or narrowed destination).
\<close>

section \<open>Floating-point bit patterns\<close>

definition mantissa_bits :: "string \<Rightarrow> nat" where
  "mantissa_bits dtype = (if dtype = ''bfloat16'' then 7 else if dtype = ''float16'' then 10
     else if dtype = ''float32'' then 23 else 52)"

text \<open>\<open>torch.isnan\<close>: all exponent bits set and a mantissa that is not zero. \<open>float("nan")\<close> is the quiet one.\<close>

definition is_nan :: "string \<Rightarrow> 'w::len word \<Rightarrow> bool" where
  "is_nan dtype x = (let m = mantissa_bits dtype in
     drop_bit m (take_bit (LENGTH('w) - 1) x) = mask (LENGTH('w) - 1 - m) \<and> take_bit m x \<noteq> 0)"

definition quiet_nan :: "string \<Rightarrow> 'w::len word" where
  "quiet_nan dtype = mask (LENGTH('w) - 1) AND NOT (mask (mantissa_bits dtype - 1))"

definition dtype_fits :: "string \<Rightarrow> 'w::len itself \<Rightarrow> bool" where
  "dtype_fits dtype w \<longleftrightarrow> mantissa_bits dtype < LENGTH('w) - 1"

definition element_size :: "'w::len itself \<Rightarrow> nat" where
  "element_size w = LENGTH('w) div 8"

lemma mantissa_pos: "0 < mantissa_bits dtype"
  by (simp add: mantissa_bits_def)

lemma quiet_nan_is_nan:
  assumes "dtype_fits dtype TYPE('w::len)"
  shows "is_nan dtype (quiet_nan dtype :: 'w word)"
proof -
  define m where "m = mantissa_bits dtype"
  have m: "0 < m" "m < LENGTH('w) - 1"
    using assms mantissa_pos[of dtype] by (simp_all add: m_def dtype_fits_def)
  have "drop_bit m (take_bit (LENGTH('w) - 1) (quiet_nan dtype :: 'w word)) = mask (LENGTH('w) - 1 - m)"
    using m unfolding quiet_nan_def m_def[symmetric]
    by (intro bit_word_eqI) (auto simp: bit_simps)
  moreover have "bit (take_bit m (quiet_nan dtype :: 'w word)) (m - 1)"
    using m unfolding quiet_nan_def m_def[symmetric] by (auto simp: bit_simps)
  then have "take_bit m (quiet_nan dtype :: 'w word) \<noteq> 0"
    by (metis bit_0_eq bot_apply bot_bool_def)
  ultimately show ?thesis
    by (simp add: is_nan_def m_def)
qed

section \<open>Positions as bytes\<close>

text \<open>\<open>Tensor.view(torch.uint8)\<close> of an int32 tensor and back, on a little-endian machine.\<close>

definition int32_bytes :: "32 word \<Rightarrow> 8 word list" where
  "int32_bytes x = [ucast x, ucast (drop_bit 8 x), ucast (drop_bit 16 x), ucast (drop_bit 24 x)]"

definition view_uint8 :: "32 word list \<Rightarrow> 8 word list" where
  "view_uint8 xs = concat (map int32_bytes xs)"

definition bytes_int32 :: "8 word \<Rightarrow> 8 word \<Rightarrow> 8 word \<Rightarrow> 8 word \<Rightarrow> 32 word" where
  "bytes_int32 a b c d =
     ucast a OR push_bit 8 (ucast b) OR push_bit 16 (ucast c) OR push_bit 24 (ucast d)"

text \<open>A blob whose size is no multiple of four cannot be viewed as int32.\<close>

fun view_int32 :: "8 word list \<Rightarrow> 32 word list result" where
  "view_int32 [] = Inr []"
| "view_int32 (a # b # c # d # bs) = res_bind (view_int32 bs) (\<lambda>xs. Inr (bytes_int32 a b c d # xs))"
| "view_int32 bs = Inl RuntimeError"

lemma bytes_of_int32: "bytes_int32 (ucast x) (ucast (drop_bit 8 x)) (ucast (drop_bit 16 x)) (ucast (drop_bit 24 x)) = x"
proof (rule bit_word_eqI)
  fix n assume "n < LENGTH(32)"
  then have "n < 8 \<or> 8 \<le> n \<and> n < 16 \<or> 16 \<le> n \<and> n < 24 \<or> 24 \<le> n \<and> n < 32"
    by simp linarith
  then show "bit (bytes_int32 (ucast x) (ucast (drop_bit 8 x)) (ucast (drop_bit 16 x)) (ucast (drop_bit 24 x))) n = bit x n"
    by (elim disjE conjE) (simp_all add: bytes_int32_def bit_simps, auto)
qed

lemma view_int32_uint8: "view_int32 (view_uint8 xs) = Inr xs"
  by (induction xs) (simp_all add: view_uint8_def int32_bytes_def bytes_of_int32)

lemma view_uint8_append: "view_uint8 (xs @ ys) = view_uint8 xs @ view_uint8 ys"
  by (simp add: view_uint8_def)

lemma length_view_uint8: "length (view_uint8 xs) = 4 * length xs"
  by (induction xs) (simp_all add: view_uint8_def int32_bytes_def)


section \<open>Manifest and flush\<close>

text \<open>\<open>DeltaParam\<close>: byte offsets into the positions, element offsets into the values.\<close>

record delta_param =
  p_name :: string
  p_dtype :: string
  p_shape :: "nat list"
  pos_start :: nat
  pos_end :: nat
  pos_width :: nat
  val_start :: nat
  val_end :: nat

record 'v delta_flush =
  f_params :: "delta_param list"
  f_positions :: "8 word list"
  f_values :: "'v list"
  f_checksum :: int

record 'v torch_hash =
  hash_bytes :: "8 word list \<Rightarrow> int"
  hash_values :: "'v list \<Rightarrow> int"

definition checksum :: "'v torch_hash \<Rightarrow> 8 word list \<Rightarrow> 'v list \<Rightarrow> int" where
  "checksum H positions values =
     (let p = (if positions \<noteq> [] then hash_bytes H positions else 0);
          v = (if values \<noteq> [] then hash_values H values else 0)
      in p XOR push_bit 1 v)"

definition prodshape :: "nat list \<Rightarrow> nat" where
  "prodshape shape = foldl (\<lambda>n x. n * x) 1 shape"

text \<open>What rank 0 holds for one parameter: \<open>(name, dtype_str, shape, idx, val)\<close>.\<close>

record 'v delta_entry =
  e_name :: string
  e_dtype :: string
  e_shape :: "nat list"
  e_idx :: "32 word list"
  e_vals :: "'v list"

fun manifest :: "nat \<Rightarrow> nat \<Rightarrow> 'v delta_entry list \<Rightarrow> delta_param list result" where
  "manifest pos_off val_off [] = Inr []"
| "manifest pos_off val_off (e # es) =
     (let nnz = length (e_idx e) in
      res_bind (py_assert (prodshape (e_shape e) < 2 ^ 31)) (\<lambda>_.
      res_bind (manifest (pos_off + nnz * 4) (val_off + nnz) es) (\<lambda>ps.
        Inr (\<lparr>p_name = e_name e, p_dtype = e_dtype e, p_shape = e_shape e,
              pos_start = pos_off, pos_end = pos_off + nnz * 4, pos_width = 4,
              val_start = val_off, val_end = val_off + nnz\<rparr> # ps))))"

definition assemble_flush :: "'v torch_hash \<Rightarrow> 'v delta_entry list \<Rightarrow> 'v delta_flush result" where
  "assemble_flush H per_param =
     res_bind (manifest 0 0 per_param) (\<lambda>params.
       let values = concat (map e_vals per_param);
           positions = view_uint8 (concat (map e_idx per_param))
       in Inr \<lparr>f_params = params, f_positions = positions, f_values = values,
               f_checksum = checksum H positions values\<rparr>)"

text \<open>One entry per parameter of the dense first sync: \<open>(name, dtype_str, full_shape, flat)\<close>.\<close>

record 'v dense_entry =
  d_name :: string
  d_dtype :: string
  d_shape :: "nat list"
  d_flat :: "'v list"

fun dense_manifest :: "nat \<Rightarrow> 'v dense_entry list \<Rightarrow> delta_param list" where
  "dense_manifest val_off [] = []"
| "dense_manifest val_off (d # ds) =
     \<lparr>p_name = d_name d, p_dtype = d_dtype d, p_shape = d_shape d, pos_start = 0, pos_end = 0, pos_width = 4,
      val_start = val_off, val_end = val_off + length (d_flat d)\<rparr>
     # dense_manifest (val_off + length (d_flat d)) ds"

section \<open>Publishing and receiving\<close>

text \<open>
  A message is the metadata sent over ZMQ with the two buffers that follow as broadcasts (the sizes and the dtype
  in the metadata are those of the buffers).
\<close>

record 'v message =
  m_is_full :: bool
  m_encoding :: string
  m_is_last :: bool
  m_terminal_empty :: bool
  m_params :: "delta_param list"
  m_checksum :: int
  m_positions :: "8 word list"
  m_values :: "'v list"

definition publish_flush :: "'v delta_flush \<Rightarrow> bool \<Rightarrow> bool \<Rightarrow> 'v message" where
  "publish_flush flush first is_last =
     \<lparr>m_is_full = first, m_encoding = ''indices'', m_is_last = is_last, m_terminal_empty = False,
      m_params = f_params flush, m_checksum = f_checksum flush,
      m_positions = f_positions flush, m_values = f_values flush\<rparr>"

definition publish_dense_flush ::
  "'v torch_hash \<Rightarrow> delta_param list \<Rightarrow> 'v list \<Rightarrow> bool \<Rightarrow> 'v message" where
  "publish_dense_flush H params values is_last =
     \<lparr>m_is_full = True, m_encoding = ''dense'', m_is_last = is_last, m_terminal_empty = False,
      m_params = params, m_checksum = checksum H [] values, m_positions = [], m_values = values\<rparr>"

definition publish_terminal :: "bool \<Rightarrow> 'v message" where
  "publish_terminal first =
     \<lparr>m_is_full = first, m_encoding = ''indices'', m_is_last = True, m_terminal_empty = True,
      m_params = [], m_checksum = 0, m_positions = [], m_values = []\<rparr>"

text \<open>What the receiver hands to the loader: \<open>__delta_spec__\<close>, the optional \<open>__positions__\<close>, \<open>__values__\<close>.\<close>

record 'v payload =
  y_encoding :: string
  y_params :: "delta_param list"
  y_checksum :: int
  y_positions :: "8 word list option"
  y_values :: "'v list"

definition payload_of :: "'v message \<Rightarrow> 'v payload" where
  "payload_of m = \<lparr>y_encoding = m_encoding m, y_params = m_params m, y_checksum = m_checksum m,
     y_positions = (if m_encoding m = ''dense'' then None else Some (m_positions m)), y_values = m_values m\<rparr>"

text \<open>
  The generator of a rollout worker on the messages of its socket: what it yields and the messages it leaves.
  \<open>None\<close> when it still waits for a message.
\<close>

fun receive_weights :: "'v message list \<Rightarrow> (('v payload \<times> bool) list \<times> 'v message list) option" where
  "receive_weights [] = None"
| "receive_weights (m # ms) =
     (if m_terminal_empty m then Some ([], ms)
      else if m_is_last m then Some ([(payload_of m, True)], ms)
      else map_option (\<lambda>(ys, rest). ((payload_of m, False) # ys, rest)) (receive_weights ms))"

section \<open>The loader\<close>

record slot =
  dst_param :: string
  dst_at :: nat
  src_at :: nat
  slot_len :: nat

type_synonym 'w live = "string \<Rightarrow> 'w word list"

type_synonym 'w named_tensor = "string \<times> string \<times> 'w word list"

text \<open>
  \<open>Tensor.copy_\<close> on flat tensors, and the \<open>copy_\<close> of \<open>_masked_copy\<close>, which keeps the positions where the source is
  NaN.
\<close>

definition torch_copy :: "'a list \<Rightarrow> 'a list \<Rightarrow> 'a list result" where
  "torch_copy self src = (if length src = length self then Inr src
     else if length src = 1 then Inr (replicate (length self) (hd src))
     else Inl RuntimeError)"

definition masked_copy :: "string \<Rightarrow> 'w::len word list \<Rightarrow> 'w word list \<Rightarrow> 'w word list result" where
  "masked_copy dtype self src =
     (if length self = length src then
        (let mask = map (\<lambda>x. \<not> is_nan dtype x) src in
         if \<not> list_all id mask
         then Inr (map2 (\<lambda>keep (old, new). if keep then new else old) mask (zip self src))
         else torch_copy self src)
      else torch_copy self src)"

definition plain_copy :: "string \<Rightarrow> 'w::len word list \<Rightarrow> 'w word list \<Rightarrow> 'w word list result" where
  "plain_copy dtype self src = torch_copy self src"

text \<open>\<open>load_weights\<close> of the serving model: every slot of a tensor receives its narrowed part by \<open>copy_\<close>.\<close>

definition copy_slot ::
  "('w::len word list \<Rightarrow> 'w word list \<Rightarrow> 'w word list result) \<Rightarrow> 'w word list \<Rightarrow> slot \<Rightarrow> 'w live \<Rightarrow> 'w live result" where
  "copy_slot copy t s M =
     (let dst = M (dst_param s) in
      if dst_at s + slot_len s > length dst \<or> src_at s + slot_len s > length t then Inl RuntimeError
      else res_bind (copy (slice (dst_at s) (dst_at s + slot_len s) dst) (slice (src_at s) (src_at s + slot_len s) t))
             (\<lambda>new. Inr (M(dst_param s := take (dst_at s) dst @ new @ drop (dst_at s + slot_len s) dst))))"

definition load_tensor ::
  "(string \<Rightarrow> 'w::len word list \<Rightarrow> 'w word list \<Rightarrow> 'w word list result) \<Rightarrow> (string \<Rightarrow> slot list) \<Rightarrow>
   'w named_tensor \<Rightarrow> 'w live \<Rightarrow> 'w live result" where
  "load_tensor copy slots nt M = (case nt of (name, dtype, t) \<Rightarrow> res_fold (copy_slot (copy dtype) t) (slots name) M)"

definition load_weights ::
  "(string \<Rightarrow> 'w::len word list \<Rightarrow> 'w word list \<Rightarrow> 'w word list result) \<Rightarrow> (string \<Rightarrow> slot list) \<Rightarrow>
   'w named_tensor list \<Rightarrow> 'w live \<Rightarrow> 'w live result" where
  "load_weights copy slots chunk M = res_fold (load_tensor copy slots) chunk M"

definition CHUNK_BYTES :: nat where
  "CHUNK_BYTES = 512 * 2 ^ 20"

text \<open>The loop of \<open>apply_delta\<close> and \<open>_apply_dense\<close>: tensors are handed over in chunks of at most the limit.\<close>

fun load_chunks ::
  "nat \<Rightarrow> ('w::len named_tensor list \<Rightarrow> 'w live \<Rightarrow> 'w live result) \<Rightarrow> (delta_param \<Rightarrow> 'w word list result) \<Rightarrow>
   delta_param list \<Rightarrow> 'w named_tensor list \<Rightarrow> nat \<Rightarrow> 'w live \<Rightarrow> 'w live result" where
  "load_chunks limit load decode [] chunk chunk_bytes M = (if chunk \<noteq> [] then load chunk M else Inr M)"
| "load_chunks limit load decode (p # ps) chunk chunk_bytes M =
     res_bind (decode p) (\<lambda>t.
       let nbytes = length t * element_size TYPE('w) in
       if chunk \<noteq> [] \<and> chunk_bytes + nbytes > limit
       then res_bind (load chunk M) (\<lambda>M'. load_chunks limit load decode ps [(p_name p, p_dtype p, t)] nbytes M')
       else load_chunks limit load decode ps (chunk @ [(p_name p, p_dtype p, t)]) (chunk_bytes + nbytes) M)"

text \<open>\<open>Tensor.index_copy_\<close> on a flat tensor.\<close>

definition index_copy :: "'a list \<Rightarrow> int list \<Rightarrow> 'a list \<Rightarrow> 'a list result" where
  "index_copy self idx src =
     (if length idx = length src \<and> list_all (\<lambda>i. 0 \<le> i \<and> i < int (length self)) idx
      then Inr (fold (\<lambda>(i, v) f. f[nat i := v]) (zip idx src) self)
      else Inl IndexError)"

definition decode_one ::
  "string \<Rightarrow> 8 word list \<Rightarrow> 'w::len word list \<Rightarrow> delta_param \<Rightarrow> 'w word list result" where
  "decode_one encoding positions values p =
     (let flat = replicate (prodshape (p_shape p)) (quiet_nan (p_dtype p));
          vals = slice (val_start p) (val_end p) values
      in if vals = [] then Inr flat
         else let pos_b = slice (pos_start p) (pos_end p) positions in
           if encoding = ''indices''
           then res_bind (view_int32 pos_b) (\<lambda>idx. index_copy flat (map sint idx) vals)
           else Inl ValueError)"

text \<open>One tensor of a dense flush; \<open>view\<close> refuses a shape of another size.\<close>

definition dense_one :: "'w::len word list \<Rightarrow> delta_param \<Rightarrow> 'w word list result" where
  "dense_one values p =
     (let t = slice (val_start p) (val_end p) values
      in if length t = prodshape (p_shape p) then Inr t else Inl RuntimeError)"

definition apply_dense ::
  "nat \<Rightarrow> (string \<Rightarrow> slot list) \<Rightarrow> delta_param list \<Rightarrow> 'w::len word list \<Rightarrow> 'w live \<Rightarrow> 'w live result" where
  "apply_dense limit slots params values M =
     load_chunks limit (load_weights plain_copy slots) (dense_one values) params [] 0 M"

definition apply_delta ::
  "'w word torch_hash \<Rightarrow> nat \<Rightarrow> (string \<Rightarrow> slot list) \<Rightarrow> 'w::len word payload \<Rightarrow> 'w live \<Rightarrow> 'w live result" where
  "apply_delta H limit slots y M =
     (let positions = (case y_positions y of None \<Rightarrow> [] | Some p \<Rightarrow> p) in
      if checksum H positions (y_values y) \<noteq> y_checksum y then Inl RuntimeError
      else if y_encoding y = ''dense'' then apply_dense limit slots (y_params y) (y_values y) M
      else load_chunks limit (load_weights masked_copy slots) (decode_one (y_encoding y) positions (y_values y))
             (y_params y) [] 0 M)"

text \<open>A rollout worker: it receives a stream and applies every flush in order.\<close>

definition receive_and_apply ::
  "'w word torch_hash \<Rightarrow> nat \<Rightarrow> (string \<Rightarrow> slot list) \<Rightarrow> 'w::len word message list \<Rightarrow> 'w live
   \<Rightarrow> ('w live \<times> 'w word message list) result option" where
  "receive_and_apply H limit slots msgs M =
     map_option (\<lambda>(ys, rest). res_bind (res_fold (\<lambda>(y, is_last). apply_delta H limit slots y) ys M) (\<lambda>M'. Inr (M', rest)))
       (receive_weights msgs)"


section \<open>What a loaded tensor does to the live weights\<close>

definition merged :: "('a \<Rightarrow> bool) \<Rightarrow> 'a list \<Rightarrow> 'a list \<Rightarrow> 'a list" where
  "merged keep old new = map2 (\<lambda>x y. if keep y then x else y) old new"

lemma length_merged [simp]: "length (merged keep old new) = min (length old) (length new)"
  by (simp add: merged_def)

lemma nth_merged:
  "i < length old \<Longrightarrow> i < length new \<Longrightarrow> merged keep old new ! i = (if keep (new ! i) then old ! i else new ! i)"
  by (simp add: merged_def)

lemma merged_all: "list_all (\<lambda>y. \<not> keep y) new \<Longrightarrow> length old = length new \<Longrightarrow> merged keep old new = new"
  by (rule nth_equalityI) (simp_all add: nth_merged list_all_length)

lemma plain_copy_merged: "length self = length src \<Longrightarrow> plain_copy dtype self src = Inr (merged (\<lambda>_. False) self src)"
  using merged_all[of "\<lambda>_. False" src self] by (simp add: plain_copy_def torch_copy_def list_all_length)

lemma masked_copy_merged: "length self = length src \<Longrightarrow> masked_copy dtype self src = Inr (merged (is_nan dtype) self src)"
  by (auto simp: masked_copy_def torch_copy_def merged_all list_all_length Let_def
      intro!: nth_equalityI simp: nth_merged)

text \<open>The cells of the live model that a list of slots fills, and from which position of the tensor.\<close>

definition covers :: "slot list \<Rightarrow> string \<Rightarrow> nat \<Rightarrow> nat \<Rightarrow> bool" where
  "covers ss p c k \<longleftrightarrow> (\<exists>s\<in>set ss. dst_param s = p \<and> dst_at s \<le> c \<and> c < dst_at s + slot_len s
     \<and> k = src_at s + (c - dst_at s))"

definition slots_fit :: "slot list \<Rightarrow> nat \<Rightarrow> 'w live \<Rightarrow> bool" where
  "slots_fit ss n M \<longleftrightarrow> (\<forall>s\<in>set ss. dst_at s + slot_len s \<le> length (M (dst_param s)) \<and> src_at s + slot_len s \<le> n)"

lemma covers_Cons:
  "covers (s # ss) p c k \<longleftrightarrow> (dst_param s = p \<and> dst_at s \<le> c \<and> c < dst_at s + slot_len s \<and> k = src_at s + (c - dst_at s))
     \<or> covers ss p c k"
  by (auto simp: covers_def)

lemma covers_bounds: "slots_fit ss n M \<Longrightarrow> covers ss p c k \<Longrightarrow> c < length (M p) \<and> k < n"
  by (fastforce simp: slots_fit_def covers_def)

lemma copy_slot_cells:
  assumes copy: "\<And>self src. length self = length src \<Longrightarrow> copy self src = Inr (merged keep self src)"
    and fit: "slots_fit [s] (length t) M"
  shows "\<exists>M'. copy_slot copy t s M = Inr M' \<and> (\<forall>p. length (M' p) = length (M p))
     \<and> (\<forall>p c k. covers [s] p c k \<longrightarrow> M' p ! c = (if keep (t ! k) then M p ! c else t ! k))
     \<and> (\<forall>p c. (\<nexists>k. covers [s] p c k) \<longrightarrow> M' p ! c = M p ! c)"
proof -
  define dst where "dst = M (dst_param s)"
  define new where "new = merged keep (slice (dst_at s) (dst_at s + slot_len s) dst) (slice (src_at s) (src_at s + slot_len s) t)"
  have len: "dst_at s + slot_len s \<le> length dst" "src_at s + slot_len s \<le> length t"
    using fit by (simp_all add: slots_fit_def dst_def)
  have n: "length new = slot_len s"
    using len by (simp add: new_def slice_def)
  let ?M = "M(dst_param s := take (dst_at s) dst @ new @ drop (dst_at s + slot_len s) dst)"
  have "copy_slot copy t s M = Inr ?M"
    using len by (simp add: copy_slot_def dst_def[symmetric] copy slice_def new_def)
  moreover have "length (?M p) = length (M p)" for p
    using len n by (simp add: dst_def)
  moreover have "?M p ! c = (if keep (t ! k) then M p ! c else t ! k)" if "covers [s] p c k" for p c k
    using that len n by (auto simp: covers_def nth_append new_def nth_merged slice_def dst_def)
  moreover have "?M p ! c = M p ! c" if "\<nexists>k. covers [s] p c k" for p c
    using that len n by (auto simp: covers_def nth_append dst_def)
  ultimately show ?thesis by blast
qed

lemma load_slots_cells:
  assumes copy: "\<And>self src. length self = length src \<Longrightarrow> copy self src = Inr (merged keep self src)"
  shows "slots_fit ss (length t) M \<Longrightarrow> (\<And>p c k k'. covers ss p c k \<Longrightarrow> covers ss p c k' \<Longrightarrow> k = k') \<Longrightarrow>
     \<exists>M'. res_fold (copy_slot copy t) ss M = Inr M' \<and> (\<forall>p. length (M' p) = length (M p))
     \<and> (\<forall>p c k. covers ss p c k \<longrightarrow> M' p ! c = (if keep (t ! k) then M p ! c else t ! k))
     \<and> (\<forall>p c. (\<nexists>k. covers ss p c k) \<longrightarrow> M' p ! c = M p ! c)"
proof (induction ss arbitrary: M)
  case Nil
  then show ?case by (simp add: covers_def)
next
  case (Cons s ss)
  have one: "covers [s] p c k \<Longrightarrow> covers (s # ss) p c k" "covers ss p c k \<Longrightarrow> covers (s # ss) p c k" for p c k
    by (auto simp: covers_def)
  obtain M1 where M1: "copy_slot copy t s M = Inr M1" "\<forall>p. length (M1 p) = length (M p)"
      "\<forall>p c k. covers [s] p c k \<longrightarrow> M1 p ! c = (if keep (t ! k) then M p ! c else t ! k)"
      "\<forall>p c. (\<nexists>k. covers [s] p c k) \<longrightarrow> M1 p ! c = M p ! c"
    using copy_slot_cells[of copy keep s t M, OF copy] Cons.prems(1) by (auto simp: slots_fit_def)
  have "slots_fit ss (length t) M1"
    using Cons.prems(1) M1(2) by (simp add: slots_fit_def)
  moreover have "\<And>p c k k'. covers ss p c k \<Longrightarrow> covers ss p c k' \<Longrightarrow> k = k'"
    using Cons.prems(2) one(2) by blast
  ultimately obtain M' where M': "res_fold (copy_slot copy t) ss M1 = Inr M'" "\<forall>p. length (M' p) = length (M1 p)"
      "\<forall>p c k. covers ss p c k \<longrightarrow> M' p ! c = (if keep (t ! k) then M1 p ! c else t ! k)"
      "\<forall>p c. (\<nexists>k. covers ss p c k) \<longrightarrow> M' p ! c = M1 p ! c"
    using Cons.IH by blast
  have hit: "M' p ! c = (if keep (t ! k) then M p ! c else t ! k)" if c: "covers (s # ss) p c k" for p c k
  proof (cases "\<exists>j. covers ss p c j")
    case True
    then have j: "covers ss p c k"
      using Cons.prems(2)[OF c] one(2) by blast
    show ?thesis
    proof (cases "\<exists>i. covers [s] p c i")
      case True
      then have "covers [s] p c k"
        using Cons.prems(2)[OF c] one(1) by blast
      then show ?thesis using M'(3) M1(3) j by simp
    next
      case False
      then show ?thesis using M'(3) M1(4) j by simp
    qed
  next
    case False
    then have "covers [s] p c k"
      using c by (auto simp: covers_Cons covers_def)
    then show ?thesis using False M'(4) M1(3) by simp
  qed
  have miss: "M' p ! c = M p ! c" if c: "\<nexists>k. covers (s # ss) p c k" for p c
    using c M'(4) M1(4) one by (metis (no_types, lifting))
  show ?case
    using M1(1,2) M'(1,2) hit miss by (intro exI[of _ M']) simp
qed

text \<open>
  The live model shows the weights \<open>T\<close> on the names \<open>N\<close>: every cell holds the element of the tensor it is filled
  from. A layout in which no cell is filled from two places is the documented one of the serving models.
\<close>

definition layout_ok :: "(string \<Rightarrow> slot list) \<Rightarrow> bool" where
  "layout_ok slots \<longleftrightarrow> (\<forall>n n' p c k k'. covers (slots n) p c k \<longrightarrow> covers (slots n') p c k' \<longrightarrow> n = n' \<and> k = k')"

definition sized :: "(string \<Rightarrow> slot list) \<Rightarrow> (string \<Rightarrow> 'w word list) \<Rightarrow> 'w live \<Rightarrow> bool" where
  "sized slots T M \<longleftrightarrow> (\<forall>n. slots_fit (slots n) (length (T n)) M)"

definition shows_weights :: "(string \<Rightarrow> slot list) \<Rightarrow> string set \<Rightarrow> (string \<Rightarrow> 'w word list) \<Rightarrow> 'w live \<Rightarrow> bool" where
  "shows_weights slots N T M \<longleftrightarrow> sized slots T M \<and>
     (\<forall>n\<in>N. \<forall>p c k. covers (slots n) p c k \<longrightarrow> M p ! c = T n ! k)"

lemma load_tensor_cells:
  fixes T :: "string \<Rightarrow> 'w::len word list"
  assumes copy: "\<And>self src. length self = length src \<Longrightarrow> copy dtype self src = Inr (merged keep self src)"
    and lay: "layout_ok slots" and fit: "sized slots T M" and len: "length t = length (T n)"
  shows "\<exists>M'. load_tensor copy slots (n, dtype, t) M = Inr M' \<and> sized slots T M'
     \<and> (\<forall>p c k. covers (slots n) p c k \<longrightarrow> M' p ! c = (if keep (t ! k) then M p ! c else t ! k))
     \<and> (\<forall>n' p c k. n' \<noteq> n \<longrightarrow> covers (slots n') p c k \<longrightarrow> M' p ! c = M p ! c)"
proof -
  have fn: "slots_fit (slots n) (length t) M"
    using fit len by (simp add: sized_def)
  obtain M' where M': "res_fold (copy_slot (copy dtype) t) (slots n) M = Inr M'" "\<forall>p. length (M' p) = length (M p)"
      "\<forall>p c k. covers (slots n) p c k \<longrightarrow> M' p ! c = (if keep (t ! k) then M p ! c else t ! k)"
      "\<forall>p c. (\<nexists>k. covers (slots n) p c k) \<longrightarrow> M' p ! c = M p ! c"
    using load_slots_cells[of "copy dtype" keep "slots n" t M, OF copy fn] lay
    unfolding layout_ok_def by blast
  have "sized slots T M'"
    using fit M'(2) by (simp add: sized_def slots_fit_def)
  moreover have "\<forall>n' p c k. n' \<noteq> n \<longrightarrow> covers (slots n') p c k \<longrightarrow> M' p ! c = M p ! c"
    using M'(4) lay unfolding layout_ok_def by blast
  ultimately show ?thesis
    using M'(1,3) by (auto simp: load_tensor_def)
qed

lemma load_plain_shows:
  fixes T :: "string \<Rightarrow> 'w::len word list"
  assumes lay: "layout_ok slots" and old: "shows_weights slots N T M"
  shows "\<exists>M'. load_tensor plain_copy slots (n, dtype, T n) M = Inr M' \<and> shows_weights slots (insert n N) T M'"
  using load_tensor_cells[of plain_copy dtype "\<lambda>_. False" slots T M "T n" n, OF plain_copy_merged lay] old
  unfolding shows_weights_def by (metis insert_iff)

lemma load_masked_shows:
  fixes T :: "string \<Rightarrow> 'w::len word list"
  assumes lay: "layout_ok slots" and old: "shows_weights slots N T M" and len: "length t = length (T n)"
  shows "\<exists>M'. load_tensor masked_copy slots (n, dtype, t) M = Inr M'
     \<and> shows_weights slots N (T(n := merged (is_nan dtype) (T n) t)) M'"
proof -
  have sz: "sized slots T M"
    using old by (simp add: shows_weights_def)
  obtain M' where M': "load_tensor masked_copy slots (n, dtype, t) M = Inr M'" "sized slots T M'"
      "\<forall>p c k. covers (slots n) p c k \<longrightarrow> M' p ! c = (if is_nan dtype (t ! k) then M p ! c else t ! k)"
      "\<forall>n' p c k. n' \<noteq> n \<longrightarrow> covers (slots n') p c k \<longrightarrow> M' p ! c = M p ! c"
    using load_tensor_cells[of masked_copy dtype "is_nan dtype" slots T M t n, OF masked_copy_merged lay sz len] by blast
  have k: "k < length (T n)" if "covers (slots n) p c k" for p c k
    using sz that covers_bounds unfolding sized_def by blast
  have "sized slots (T(n := merged (is_nan dtype) (T n) t)) M'"
    using M'(2) len by (simp add: sized_def)
  moreover have "M' p ! c = (T(n := merged (is_nan dtype) (T n) t)) n' ! k" if "n' \<in> N" "covers (slots n') p c k" for n' p c k
  proof (cases "n' = n")
    case True
    then show ?thesis using that old M'(3) k len by (auto simp: shows_weights_def nth_merged)
  next
    case False
    then have "M' p ! c = M p ! c" using that M'(4) by blast
    then show ?thesis using that old False by (simp add: shows_weights_def)
  qed
  ultimately show ?thesis
    using M'(1) unfolding shows_weights_def by blast
qed


section \<open>A flush reaches the live weights\<close>

definition write_at :: "32 word list \<Rightarrow> 'a list \<Rightarrow> 'a list \<Rightarrow> 'a list" where
  "write_at idx vals xs = fold (\<lambda>(i, v) f. f[unat i := v]) (zip idx vals) xs"

lemma length_write_at [simp]: "length (write_at idx vals xs) = length xs"
proof -
  have "length (fold (\<lambda>(i, v) f. f[unat i := v]) ps xs) = length xs" for ps :: "(32 word \<times> 'a) list"
    by (induction ps arbitrary: xs) auto
  then show ?thesis by (simp add: write_at_def)
qed

definition densify :: "'w::len word delta_entry \<Rightarrow> 'w named_tensor" where
  "densify e = (e_name e, e_dtype e,
     write_at (e_idx e) (e_vals e) (replicate (prodshape (e_shape e)) (quiet_nan (e_dtype e))))"

definition entry_ok :: "'v delta_entry \<Rightarrow> bool" where
  "entry_ok e \<longleftrightarrow> length (e_idx e) = length (e_vals e) \<and> prodshape (e_shape e) < 2 ^ 31
     \<and> (\<forall>i\<in>set (e_idx e). unat i < prodshape (e_shape e))"

lemma sint_small: "unat (i :: 32 word) < 2 ^ 31 \<Longrightarrow> sint i = int (unat i)"
proof -
  assume "unat i < 2 ^ 31"
  then have "int (unat i) < int (2 ^ 31)" by (simp only: of_nat_less_iff)
  then have "uint i < 2 ^ 31" by simp
  moreover have "- (2 ^ 31) \<le> uint i" by (rule order_trans[of _ 0]) simp_all
  ultimately have "signed_take_bit 31 (uint i) = uint i" by (rule signed_take_bit_int_eq_self[rotated])
  then show ?thesis by (simp add: sint_uint)
qed

lemma index_copy_write:
  assumes "length idx = length vals" "\<forall>i\<in>set idx. unat i < length xs" "length xs < 2 ^ 31"
  shows "index_copy xs (map sint idx) vals = Inr (write_at idx vals xs)"
proof -
  have s: "sint i = int (unat i)" if "i \<in> set idx" for i
    using assms that by (intro sint_small) auto
  have "fold (\<lambda>(i, v) f. f[nat i := v]) (zip (map sint idx) vals) xs = write_at idx vals xs"
    unfolding write_at_def using s
    by (induction idx vals arbitrary: xs rule: list_induct2') auto
  moreover have "0 \<le> sint i \<and> sint i < int (length xs)" if "i \<in> set idx" for i
    unfolding s[OF that] of_nat_less_iff using assms(2) that by simp
  ultimately show ?thesis
    using assms(1) by (simp add: index_copy_def list_all_iff)
qed

lemma decode_manifest:
  fixes es :: "'w::len word delta_entry list"
  assumes "manifest po vo es = Inr ps" "length pp = po" "length pv = vo" "list_all entry_ok es"
  shows "map p_name ps = map e_name es \<and> map p_dtype ps = map e_dtype es \<and>
     list_all2 (\<lambda>p e. decode_one ''indices'' (pp @ view_uint8 (concat (map e_idx es))) (pv @ concat (map e_vals es)) p
        = Inr (snd (snd (densify e)))) ps es"
  using assms
proof (induction po vo es arbitrary: ps pp pv rule: manifest.induct)
  case (1 po vo)
  then show ?case by simp
next
  case (2 po vo e es)
  define nnz where "nnz = length (e_idx e)"
  obtain qs where qs: "manifest (po + nnz * 4) (vo + nnz) es = Inr qs"
      and ps: "ps = \<lparr>p_name = e_name e, p_dtype = e_dtype e, p_shape = e_shape e, pos_start = po, pos_end = po + nnz * 4,
         pos_width = 4, val_start = vo, val_end = vo + nnz\<rparr> # qs"
    using "2.prems"(1) by (auto simp: res_simps Let_def nnz_def)
  have e: "entry_ok e" "list_all entry_ok es"
    using "2.prems"(4) by simp_all
  then have nv: "length (e_vals e) = nnz"
    by (simp add: entry_ok_def nnz_def)
  have a: "py_assert (prodshape (e_shape e) < 2 ^ 31) = Inr ()"
    using e(1) by (simp add: entry_ok_def)
  have IH: "map p_name qs = map e_name es \<and> map p_dtype qs = map e_dtype es \<and>
     list_all2 (\<lambda>p e. decode_one ''indices'' ((pp @ view_uint8 (e_idx e')) @ view_uint8 (concat (map e_idx es)))
        ((pv @ e_vals e') @ concat (map e_vals es)) p = Inr (snd (snd (densify e)))) qs es"
    if "e' = e" for e'
    using "2.IH"[OF nnz_def a qs, of "pp @ view_uint8 (e_idx e)" "pv @ e_vals e"] that "2.prems"(2,3) e(2) nv
    by (simp add: nnz_def length_view_uint8)
  have "decode_one ''indices'' (pp @ view_uint8 (e_idx e @ concat (map e_idx es))) (pv @ e_vals e @ concat (map e_vals es))
      \<lparr>p_name = e_name e, p_dtype = e_dtype e, p_shape = e_shape e, pos_start = po, pos_end = po + nnz * 4,
         pos_width = 4, val_start = vo, val_end = vo + nnz\<rparr> = Inr (snd (snd (densify e)))"
  proof -
    have v: "slice vo (vo + nnz) (pv @ e_vals e @ concat (map e_vals es)) = e_vals e"
      using "2.prems"(3) nv by (simp add: slice_def)
    have p: "slice po (po + nnz * 4) (pp @ view_uint8 (e_idx e @ concat (map e_idx es))) = view_uint8 (e_idx e)"
      using "2.prems"(2) by (simp add: slice_def view_uint8_append length_view_uint8 nnz_def)
    show ?thesis
    proof (cases "e_vals e = []")
      case True
      then show ?thesis using v by (simp add: decode_one_def densify_def write_at_def)
    next
      case False
      then show ?thesis
        using v p e(1) by (simp add: decode_one_def view_int32_uint8 index_copy_write entry_ok_def densify_def)
    qed
  qed
  then show ?case
    using IH[OF refl] ps by (simp add: view_uint8_append)
qed

lemma load_chunks_eq:
  assumes "list_all2 (\<lambda>p t. decode p = Inr t) ps ts"
  shows "load_chunks limit (load_weights copy slots) decode ps chunk bytes M
     = load_weights copy slots (chunk @ map2 (\<lambda>p t. (p_name p, p_dtype p, t)) ps ts) M"
  using assms
proof (induction ps ts arbitrary: chunk bytes M rule: list_all2_induct)
  case Nil
  then show ?case by (simp add: load_weights_def)
next
  case (Cons p ps t ts)
  have "load_weights copy slots (chunk @ xs) M = res_bind (load_weights copy slots chunk M) (load_weights copy slots xs)" for xs
    by (simp add: load_weights_def res_fold_append cong: res_bind_cong)
  then show ?case
    using Cons by (simp add: Let_def cong: res_bind_cong)
qed

lemma apply_delta_flush:
  assumes "assemble_flush H es = Inr fl" "list_all entry_ok es"
  shows "apply_delta H limit slots (payload_of (publish_flush fl first is_last)) M
     = load_weights masked_copy slots (map densify es) M"
proof -
  obtain ps where ps: "manifest 0 0 es = Inr ps"
      and fl: "fl = \<lparr>f_params = ps, f_positions = view_uint8 (concat (map e_idx es)), f_values = concat (map e_vals es),
        f_checksum = checksum H (view_uint8 (concat (map e_idx es))) (concat (map e_vals es))\<rparr>"
    using assms(1) by (auto simp: assemble_flush_def res_simps Let_def)
  have D: "map p_name ps = map e_name es" "map p_dtype ps = map e_dtype es"
     "list_all2 (\<lambda>p t. decode_one ''indices'' (view_uint8 (concat (map e_idx es))) (concat (map e_vals es)) p = Inr t) ps
        (map (\<lambda>e. snd (snd (densify e))) es)"
    using decode_manifest[OF ps, of "[]" "[]"] assms(2) by (simp_all add: list_all2_conv_all_nth)
  have "map2 (\<lambda>p t. (p_name p, p_dtype p, t)) ps (map (\<lambda>e. snd (snd (densify e))) es) = map densify es"
    using D(1,2)
  proof (induction ps es rule: list_induct2')
    case (4 p ps e es)
    then show ?case by (simp add: densify_def)
  qed auto
  then show ?thesis
    using load_chunks_eq[OF D(3)]
    by (simp add: apply_delta_def payload_of_def publish_flush_def fl)
qed

lemma dense_manifest_decode:
  assumes "length pv = vo" "list_all (\<lambda>d. length (d_flat d) = prodshape (d_shape d)) ds"
  shows "list_all2 (\<lambda>p t. dense_one (pv @ concat (map d_flat ds)) p = Inr t) (dense_manifest vo ds) (map d_flat ds)
     \<and> map2 (\<lambda>p t. (p_name p, p_dtype p, t)) (dense_manifest vo ds) (map d_flat ds) = map (\<lambda>d. (d_name d, d_dtype d, d_flat d)) ds"
  using assms
proof (induction vo ds arbitrary: pv rule: dense_manifest.induct)
  case (1 vo)
  then show ?case by simp
next
  case (2 vo d ds)
  have "list_all2 (\<lambda>p t. dense_one ((pv @ d_flat d) @ concat (map d_flat ds)) p = Inr t)
      (dense_manifest (vo + length (d_flat d)) ds) (map d_flat ds)"
    "map2 (\<lambda>p t. (p_name p, p_dtype p, t)) (dense_manifest (vo + length (d_flat d)) ds) (map d_flat ds)
      = map (\<lambda>d. (d_name d, d_dtype d, d_flat d)) ds"
    using "2.IH"[of "pv @ d_flat d"] "2.prems" by simp_all
  moreover have "dense_one (pv @ d_flat d @ concat (map d_flat ds))
      \<lparr>p_name = d_name d, p_dtype = d_dtype d, p_shape = d_shape d, pos_start = 0, pos_end = 0, pos_width = 4,
       val_start = vo, val_end = vo + length (d_flat d)\<rparr> = Inr (d_flat d)"
    using "2.prems" by (simp add: dense_one_def slice_def)
  ultimately show ?case by simp
qed

lemma apply_dense_flush:
  assumes "list_all (\<lambda>d. length (d_flat d) = prodshape (d_shape d)) ds"
  shows "apply_delta H limit slots
       (payload_of (publish_dense_flush H (dense_manifest 0 ds) (concat (map d_flat ds)) is_last)) M
     = load_weights plain_copy slots (map (\<lambda>d. (d_name d, d_dtype d, d_flat d)) ds) M"
  using load_chunks_eq[OF conjunct1[OF dense_manifest_decode[of "[]" 0 ds]]] dense_manifest_decode[of "[]" 0 ds] assms
  by (simp add: apply_delta_def apply_dense_def payload_of_def publish_dense_flush_def)


lemma merged_update:
  assumes "\<not> keep v"
  shows "merged keep old (f[i := v]) = (merged keep old f)[i := v]"
proof (rule nth_equalityI)
  fix j assume "j < length (merged keep old (f[i := v]))"
  then show "merged keep old (f[i := v]) ! j = (merged keep old f)[i := v] ! j"
    using assms by (cases "j = i") (simp_all add: nth_merged)
qed simp

lemma merged_write:
  assumes "list_all (\<lambda>v. \<not> keep v) vals" "length idx = length vals"
  shows "merged keep old (write_at idx vals f) = write_at idx vals (merged keep old f)"
  using assms(2,1) unfolding write_at_def
  by (induction idx vals arbitrary: f rule: list_induct2) (simp_all add: merged_update)

lemma merged_keep: "keep x \<Longrightarrow> merged keep old (replicate (length old) x) = old"
  by (rule nth_equalityI) (simp_all add: nth_merged)

definition entry_fits :: "(string \<Rightarrow> 'w::len word list) \<Rightarrow> 'w word delta_entry \<Rightarrow> bool" where
  "entry_fits T e \<longleftrightarrow> entry_ok e \<and> dtype_fits (e_dtype e) TYPE('w) \<and> prodshape (e_shape e) = length (T (e_name e))
     \<and> list_all (\<lambda>v. \<not> is_nan (e_dtype e) v) (e_vals e)"

definition apply_entry :: "'v delta_entry \<Rightarrow> (string \<Rightarrow> 'v list) \<Rightarrow> string \<Rightarrow> 'v list" where
  "apply_entry e T = T(e_name e := write_at (e_idx e) (e_vals e) (T (e_name e)))"

lemma length_apply_entry [simp]: "length (apply_entry e T n) = length (T n)"
  by (simp add: apply_entry_def)

lemma length_apply_entries [simp]: "length (fold apply_entry es T n) = length (T n)"
  by (induction es arbitrary: T) simp_all

lemma load_entries_shows:
  fixes T :: "string \<Rightarrow> 'w::len word list"
  assumes "layout_ok slots" "shows_weights slots N T M" "list_all (entry_fits T) es"
  shows "\<exists>M'. load_weights masked_copy slots (map densify es) M = Inr M'
     \<and> shows_weights slots N (fold apply_entry es T) M'"
  using assms(2,3)
proof (induction es arbitrary: T M)
  case Nil
  then show ?case by (simp add: load_weights_def)
next
  case (Cons e es)
  have e: "entry_fits T e" using Cons.prems(2) by simp
  have "merged (is_nan (e_dtype e)) (T (e_name e)) (snd (snd (densify e)))
      = write_at (e_idx e) (e_vals e) (T (e_name e))"
    using e quiet_nan_is_nan[where 'w = 'w and dtype = "e_dtype e"]
    by (simp add: densify_def entry_fits_def entry_ok_def merged_write merged_keep)
  then obtain M1 where M1: "load_tensor masked_copy slots (densify e) M = Inr M1"
      "shows_weights slots N (apply_entry e T) M1"
    using load_masked_shows[OF assms(1) Cons.prems(1), of "snd (snd (densify e))" "e_name e" "e_dtype e"] e
    by (auto simp: densify_def apply_entry_def entry_fits_def)
  have "list_all (entry_fits (apply_entry e T)) es"
    using Cons.prems(2) by (auto simp: list_all_iff entry_fits_def)
  then show ?case
    using Cons.IH[OF M1(2)] M1(1) by (simp add: load_weights_def)
qed

lemma load_dense_shows:
  fixes T :: "string \<Rightarrow> 'w::len word list"
  assumes "layout_ok slots" "shows_weights slots N T M" "list_all (\<lambda>d. d_flat d = T (d_name d)) ds"
  shows "\<exists>M'. load_weights plain_copy slots (map (\<lambda>d. (d_name d, d_dtype d, d_flat d)) ds) M = Inr M'
     \<and> shows_weights slots (N \<union> d_name ` set ds) T M'"
  using assms(2,3)
proof (induction ds arbitrary: N M)
  case Nil
  then show ?case by (simp add: load_weights_def)
next
  case (Cons d ds)
  obtain M1 where M1: "load_tensor plain_copy slots (d_name d, d_dtype d, T (d_name d)) M = Inr M1"
      "shows_weights slots (insert (d_name d) N) T M1"
    using load_plain_shows[OF assms(1) Cons.prems(1)] by blast
  then show ?case
    using Cons.IH[OF M1(2)] Cons.prems(2) by (simp add: load_weights_def)
qed

text \<open>Entries whose values are those of \<open>T'\<close> and that hit every position where \<open>T\<close> differs turn \<open>T\<close> into \<open>T'\<close>.\<close>

lemma write_at_cell:
  assumes "length idx = length vals" "\<forall>(j, v)\<in>set (zip idx vals). v = y ! unat j" "i < length xs"
  shows "write_at idx vals xs ! i = (if i \<in> unat ` set idx then y ! i else xs ! i)"
  using assms unfolding write_at_def
  by (induction idx vals arbitrary: xs rule: list_induct2) (auto simp: nth_list_update)

lemma apply_entries_exact:
  assumes len: "\<And>n. length (T n) = length (T' n)"
    and sound: "\<And>e. e \<in> set es \<Longrightarrow> length (e_idx e) = length (e_vals e)
        \<and> (\<forall>(j, v)\<in>set (zip (e_idx e) (e_vals e)). v = T' (e_name e) ! unat j)"
    and full: "\<And>n i. i < length (T n) \<Longrightarrow> T n ! i \<noteq> T' n ! i \<Longrightarrow> \<exists>e\<in>set es. e_name e = n \<and> i \<in> unat ` set (e_idx e)"
  shows "fold apply_entry es T = T'"
proof -
  have cell: "fold apply_entry es T n ! i
      = (if \<exists>e\<in>set es. e_name e = n \<and> i \<in> unat ` set (e_idx e) then T' n ! i else T n ! i)" if "i < length (T n)" for n i
    using sound that
  proof (induction es arbitrary: T)
    case Nil
    then show ?case by simp
  next
    case (Cons e es)
    have e: "length (e_idx e) = length (e_vals e)"
        "\<forall>(j, v)\<in>set (zip (e_idx e) (e_vals e)). v = T' (e_name e) ! unat j"
      using Cons.prems(1)[of e] by auto
    have "apply_entry e T n ! i = (if e_name e = n \<and> i \<in> unat ` set (e_idx e) then T' n ! i else T n ! i)"
      using write_at_cell[OF e] Cons.prems(2) by (auto simp: apply_entry_def)
    moreover have "fold apply_entry es (apply_entry e T) n ! i
        = (if \<exists>e\<in>set es. e_name e = n \<and> i \<in> unat ` set (e_idx e) then T' n ! i else apply_entry e T n ! i)"
      using Cons.IH[of "apply_entry e T"] Cons.prems by simp
    ultimately show ?case by auto
  qed
  show ?thesis
  proof (rule ext)
    fix n
    show "fold apply_entry es T n = T' n"
    proof (rule nth_equalityI)
      fix i assume "i < length (fold apply_entry es T n)"
      then show "fold apply_entry es T n ! i = T' n ! i"
        using cell[of i n] full[of i n] by auto
    qed (simp add: len)
  qed
qed

section \<open>Streams\<close>

text \<open>Every flush in order, the last one marked; an empty stream is the terminal marker.\<close>

definition stream_of :: "('f \<Rightarrow> bool \<Rightarrow> 'v message) \<Rightarrow> bool \<Rightarrow> 'f list \<Rightarrow> 'v message list" where
  "stream_of publish first fls = (if fls = [] then [publish_terminal first]
     else map (\<lambda>f. publish f False) (butlast fls) @ [publish (last fls) True])"

lemma receive_run:
  assumes "\<And>m. m \<in> set ms \<Longrightarrow> \<not> m_terminal_empty m \<and> \<not> m_is_last m"
  shows "receive_weights (ms @ ms') = map_option (\<lambda>(ys, rest). (map (\<lambda>m. (payload_of m, False)) ms @ ys, rest)) (receive_weights ms')"
  using assms
proof (induction ms)
  case Nil
  then show ?case by (cases "receive_weights ms'") auto
next
  case (Cons m ms)
  then show ?case by (cases "receive_weights ms'") auto
qed

lemma receive_stream:
  assumes "\<And>f b. \<not> m_terminal_empty (publish f b)" "\<And>f b. m_is_last (publish f b) = b"
  shows "\<exists>ys. receive_weights (stream_of publish first fls @ rest) = Some (ys, rest)
     \<and> list_all2 (\<lambda>y f. \<exists>b. y = (payload_of (publish f b), b)) ys fls"
proof (cases fls rule: rev_cases)
  case Nil
  then show ?thesis by (simp add: stream_of_def publish_terminal_def)
next
  case (snoc gs g)
  have "receive_weights (stream_of publish first fls @ rest)
      = Some (map (\<lambda>f. (payload_of (publish f False), False)) gs @ [(payload_of (publish g True), True)], rest)"
    using receive_run[of "map (\<lambda>f. publish f False) gs" "publish g True # rest"] assms
    by (auto simp: stream_of_def snoc comp_def)
  moreover have "list_all2 (\<lambda>y f. \<exists>b. y = (payload_of (publish f b), b))
      (map (\<lambda>f. (payload_of (publish f False), False)) gs @ [(payload_of (publish g True), True)]) fls"
    by (auto simp: snoc list_all2_conv_all_nth nth_append)
  ultimately show ?thesis by blast
qed

lemma stream_of_map: "stream_of (\<lambda>x b. publish (f x) b) first xs = stream_of publish first (map f xs)"
  by (simp add: stream_of_def map_butlast last_map comp_def)

text \<open>
  The contract between a sender and the rollout: what is published for a flush carries its own end mark, and applying
  it to a live model that shows a state makes it show the next one. A stream of such flushes is then received and
  applied completely, and nothing after it is touched.
\<close>

locale flush_channel =
  fixes publish :: "'f \<Rightarrow> bool \<Rightarrow> 'v message"
    and accept :: "'v payload \<Rightarrow> 'm \<Rightarrow> 'm result"
    and good :: "'f \<Rightarrow> 's \<Rightarrow> bool"
    and effect :: "'f \<Rightarrow> 's \<Rightarrow> 's"
    and shows_state :: "'s \<Rightarrow> 'm \<Rightarrow> bool"
  assumes not_terminal: "\<not> m_terminal_empty (publish f b)"
    and marks_last: "m_is_last (publish f b) = b"
    and applies: "good f s \<Longrightarrow> shows_state s m \<Longrightarrow>
      \<exists>m'. accept (payload_of (publish f b)) m = Inr m' \<and> shows_state (effect f s) m'"
begin

primrec all_good :: "'f list \<Rightarrow> 's \<Rightarrow> bool" where
  "all_good [] s = True"
| "all_good (f # fs) s = (good f s \<and> all_good fs (effect f s))"

lemma payloads_apply:
  "list_all2 (\<lambda>y f. \<exists>b. y = (payload_of (publish f b), b)) ys fls \<Longrightarrow> all_good fls s \<Longrightarrow> shows_state s m \<Longrightarrow>
     \<exists>m'. res_fold (\<lambda>(y, is_last). accept y) ys m = Inr m' \<and> shows_state (fold effect fls s) m'"
proof (induction ys fls arbitrary: s m rule: list_all2_induct)
  case Nil
  then show ?case by simp
next
  case (Cons y ys f fls)
  then obtain b where y: "y = (payload_of (publish f b), b)" by auto
  obtain m1 where m1: "accept (payload_of (publish f b)) m = Inr m1" "shows_state (effect f s) m1"
    using applies[of f s m b] Cons.prems by auto
  then show ?case
    using Cons.IH[OF _ m1(2)] Cons.prems(1) by (simp add: y)
qed

lemma stream_applies:
  assumes "all_good fls s" "shows_state s m"
  shows "\<exists>ys m'. receive_weights (stream_of publish first fls @ rest) = Some (ys, rest)
     \<and> res_fold (\<lambda>(y, is_last). accept y) ys m = Inr m' \<and> shows_state (fold effect fls s) m'"
proof -
  obtain ys where "receive_weights (stream_of publish first fls @ rest) = Some (ys, rest)"
      "list_all2 (\<lambda>y f. \<exists>b. y = (payload_of (publish f b), b)) ys fls"
    using receive_stream[of publish first fls rest] not_terminal marks_last by blast
  then show ?thesis
    using payloads_apply assms by blast
qed

end

text \<open>The sparse flushes (the state is the weights the model shows) and the dense ones (the names it shows already).\<close>

definition sparse_good :: "'w word torch_hash \<Rightarrow> (string \<Rightarrow> slot list) \<Rightarrow> 'w word delta_flush \<times> 'w::len word delta_entry list
   \<Rightarrow> (string \<Rightarrow> 'w word list) \<Rightarrow> bool" where
  "sparse_good H slots f T \<longleftrightarrow> layout_ok slots \<and> assemble_flush H (snd f) = Inr (fst f) \<and> list_all (entry_fits T) (snd f)"

definition dense_good :: "(string \<Rightarrow> slot list) \<Rightarrow> (string \<Rightarrow> 'w::len word list) \<Rightarrow> 'w word dense_entry list \<Rightarrow> string set \<Rightarrow> bool" where
  "dense_good slots T ds N \<longleftrightarrow> layout_ok slots \<and> list_all (\<lambda>d. d_flat d = T (d_name d) \<and> length (T (d_name d)) = prodshape (d_shape d)) ds"

interpretation sparse: flush_channel "\<lambda>f b. publish_flush (fst f) first b" "apply_delta H limit slots"
    "sparse_good H slots" "\<lambda>f T. fold apply_entry (snd f) T" "shows_weights slots N"
  for first H limit slots N
proof
  fix f and T :: "string \<Rightarrow> 'a word list" and M b
  assume g: "sparse_good H slots f T" and old: "shows_weights slots N T M"
  then have "list_all entry_ok (snd f)" by (auto simp: sparse_good_def list_all_iff entry_fits_def)
  then show "\<exists>M'. apply_delta H limit slots (payload_of (publish_flush (fst f) first b)) M = Inr M'
      \<and> shows_weights slots N (fold apply_entry (snd f) T) M'"
    using load_entries_shows[OF _ old, of "snd f"] apply_delta_flush[of H "snd f" "fst f" limit slots first b M] g
    by (simp add: sparse_good_def)
qed (simp_all add: publish_flush_def)

interpretation dense: flush_channel "\<lambda>ds b. publish_dense_flush H (dense_manifest 0 ds) (concat (map d_flat ds)) b"
    "apply_delta H limit slots" "dense_good slots T" "\<lambda>ds N. N \<union> d_name ` set ds" "\<lambda>N. shows_weights slots N T"
  for H limit slots T
proof
  fix ds N M b
  assume g: "dense_good slots T ds N" and old: "shows_weights slots N T M"
  then have "list_all (\<lambda>d. d_flat d = T (d_name d)) ds" "list_all (\<lambda>d. length (d_flat d) = prodshape (d_shape d)) ds"
    by (auto simp: dense_good_def list_all_iff)
  then show "\<exists>M'. apply_delta H limit slots
        (payload_of (publish_dense_flush H (dense_manifest 0 ds) (concat (map d_flat ds)) b)) M = Inr M'
      \<and> shows_weights slots (N \<union> d_name ` set ds) T M'"
    using load_dense_shows[OF _ old, of ds] g by (simp add: dense_good_def apply_dense_flush)
qed (simp_all add: publish_dense_flush_def)

lemma apply_delta_stream:
  fixes T :: "string \<Rightarrow> 'w::len word list"
  assumes lay: "layout_ok slots" and old: "shows_weights slots N T M"
    and fls: "list_all2 (\<lambda>fl es. assemble_flush H es = Inr fl) fls ess"
    and fit: "list_all (entry_fits T) (concat ess)"
  shows "\<exists>M'. receive_and_apply H limit slots (stream_of (\<lambda>fl b. publish_flush fl first b) first fls @ rest) M = Some (Inr (M', rest))
     \<and> shows_weights slots N (fold apply_entry (concat ess) T) M'"
proof -
  have both: "sparse.all_good H slots (zip fls ess) T
      \<and> fold (\<lambda>f. fold apply_entry (snd f)) (zip fls ess) T = fold apply_entry (concat ess) T"
    using fls fit
  proof (induction fls ess arbitrary: T rule: list_all2_induct)
    case (Cons fl fls es ess)
    have "list_all (entry_fits (fold apply_entry es T)) (concat ess)"
      using Cons.prems by (auto simp: list_all_iff entry_fits_def)
    moreover have "sparse_good H slots (fl, es) T"
      using lay Cons.hyps(1) Cons.prems by (simp add: sparse_good_def)
    ultimately show ?case
      using Cons.IH[of "fold apply_entry es T"] by simp
  qed simp
  have "length fls = length ess" using fls by (rule list_all2_lengthD)
  then have "stream_of (\<lambda>f b. publish_flush (fst f) first b) first (zip fls ess) = stream_of (\<lambda>fl b. publish_flush fl first b) first fls"
    using stream_of_map[where publish = "\<lambda>fl b. publish_flush fl first b" and f = fst and xs = "zip fls ess" and first = first] by simp
  then show ?thesis
    using sparse.stream_applies[OF conjunct1[OF both] old, of first first rest limit] conjunct2[OF both] by (auto simp: receive_and_apply_def)
qed

lemma apply_dense_stream:
  fixes T :: "string \<Rightarrow> 'w::len word list"
  assumes lay: "layout_ok slots" and old: "shows_weights slots N T M"
    and fit: "list_all (\<lambda>d. d_flat d = T (d_name d) \<and> length (T (d_name d)) = prodshape (d_shape d)) (concat dss)"
  shows "\<exists>M'. receive_and_apply H limit slots
        (stream_of (\<lambda>ds b. publish_dense_flush H (dense_manifest 0 ds) (concat (map d_flat ds)) b) True dss @ rest) M
       = Some (Inr (M', rest))
     \<and> shows_weights slots (N \<union> d_name ` set (concat dss)) T M'"
proof -
  have good: "dense.all_good slots T dss N" and eff: "fold (\<lambda>ds N. N \<union> d_name ` set ds) dss N = N \<union> d_name ` set (concat dss)"
    using fit by (induction dss arbitrary: N) (auto simp: dense_good_def lay)
  then show ?thesis
    using dense.stream_applies[OF good old, of H True rest limit] by (auto simp: receive_and_apply_def)
qed

end
