(* ===== verification/Delta_Sync.thy ===== *)
theory Delta_Sync
  imports Delta_Wire
begin

text \<open>
  The trainer side of the sparse weight synchronisation: the shard contract of
  \<open>src/verl/verl/workers/engine/spec.py\<close>, the diff and the gathers of
  \<open>src/verl/verl/checkpoint_engine/delta_sync/sparse_gather.py\<close> and \<open>DeltaShardedCheckpointEngine\<close> of
  \<open>src/verl/verl/checkpoint_engine/delta_checkpoint_engine.py\<close>. All ranks run in lockstep over the same
  parameters, so a collective is a function of what its ranks pass and the model keeps one state with the snapshots
  of every rank and the buckets of rank 0. A device mesh is what PyTorch answers about it: coordinates, subgroups
  (a handle with its ranks, since the code compares handles) and the offset of a local shard. \<open>torch.empty\<close> is a
  parameter that may return anything of the right size.
\<close>

section \<open>Shard specifications\<close>

datatype placement = Shard nat | Replicate | Partial

type_synonym group_handle = "nat \<times> nat list"

record device_mesh =
  mesh_coordinate :: "nat \<Rightarrow> nat list option"
  mesh_group :: "nat \<Rightarrow> nat \<Rightarrow> group_handle"
  dim0_offset :: "nat \<Rightarrow> nat list \<Rightarrow> placement list \<Rightarrow> nat"

record 'v shard_spec =
  full_shape :: "nat list"
  spec_mesh :: "device_mesh option"
  spec_placements :: "placement list"
  to_hf :: "('v list list \<Rightarrow> (string \<times> nat list \<times> 'v list) list) option"

definition is_shard :: "placement \<Rightarrow> bool" where
  "is_shard p = (case p of Shard d \<Rightarrow> True | _ \<Rightarrow> False)"

definition derive_placement :: "nat \<Rightarrow> 'v shard_spec \<Rightarrow> (nat \<times> bool \<times> group_handle option) result" where
  "derive_placement rk spec =
     (case spec_mesh spec of
        None \<Rightarrow> Inr (0, rk = 0, None)
      | Some m \<Rightarrow>
          (let pls = spec_placements spec;
               shard_dims = [d \<leftarrow> [0..<length pls]. is_shard (pls ! d)]
           in if list_ex (\<lambda>d. pls ! d \<noteq> Shard 0) shard_dims then Inl NotImplementedError
              else res_bind (py_assert (length shard_dims \<le> 1)) (\<lambda>_.
                let contributes = (case mesh_coordinate m rk of None \<Rightarrow> True
                      | Some coord \<Rightarrow> \<not> list_ex (\<lambda>d. pls ! d = Replicate \<and> coord ! d \<noteq> 0) [0..<length pls])
                in if shard_dims = [] then Inr (0, contributes, None)
                   else Inr (dim0_offset m rk (full_shape spec) pls * prodshape (tl (full_shape spec)),
                             contributes, Some (mesh_group m rk (hd shard_dims))))))"

section \<open>Diff and gathers\<close>

definition shard_delta_indices :: "'w::len word list \<Rightarrow> 'w word list \<Rightarrow> nat \<Rightarrow> (nat list \<times> 'w word list) result" where
  "shard_delta_indices local_new local_snap offset =
     (if LENGTH('w) \<notin> {8, 16, 32, 64} then Inl ValueError
      else if length local_new \<noteq> length local_snap then Inl RuntimeError
      else let local_idx = [i \<leftarrow> [0..<length local_new]. local_new ! i \<noteq> local_snap ! i]
           in Inr (map (\<lambda>i. i + offset) local_idx, map (\<lambda>i. local_new ! i) local_idx))"

definition pad_to :: "nat \<Rightarrow> 'a::zero list \<Rightarrow> 'a list" where
  "pad_to n xs = xs @ replicate (n - length xs) 0"

definition max_count :: "nat list \<Rightarrow> nat" where
  "max_count ns = foldr max ns 0"

fun offs_row :: "nat \<Rightarrow> nat list \<Rightarrow> nat list" where
  "offs_row a [] = [a]"
| "offs_row a (c # cs) = a # offs_row (a + c) cs"

text \<open>
  What \<open>gather_v_batched_to_rank0\<close> returns on rank 0 from what the ranks of the group pass: index and value blobs and
  the counts per parameter. \<open>batched_piece\<close> is the part of a rank that belongs to a parameter, cut out of the padded
  blobs.
\<close>

type_synonym 'v blob = "32 word list \<times> 'v list \<times> nat list"

definition batched_piece :: "nat \<Rightarrow> 'v::zero blob \<Rightarrow> nat \<Rightarrow> 32 word list \<times> 'v list" where
  "batched_piece max_n b i = (case b of (idx_concat, val_concat, counts) \<Rightarrow>
     let offs = offs_row 0 counts
     in (slice (offs ! i) (offs ! (i + 1)) (pad_to max_n idx_concat),
         slice (offs ! i) (offs ! (i + 1)) (pad_to max_n val_concat)))"

definition gather_v_batched :: "'v::zero blob list \<Rightarrow> (32 word list \<times> 'v list) list" where
  "gather_v_batched blobs =
     (let k = length (snd (snd (hd blobs)));
          max_n = max_count (map (\<lambda>b. sum_list (snd (snd b))) blobs)
      in if max_n = 0 then replicate k ([], [])
         else map (\<lambda>i.
                let bs = filter (\<lambda>b. snd (snd b) ! i \<noteq> 0) blobs
                in (concat (map (\<lambda>b. fst (batched_piece max_n b i)) bs),
                    concat (map (\<lambda>b. snd (batched_piece max_n b i)) bs))) [0..<k])"

definition gather_v_batched_grouped :: "'v::zero blob list \<Rightarrow> (32 word list \<times> 'v list) list list" where
  "gather_v_batched_grouped blobs =
     (let k = length (snd (snd (hd blobs)));
          max_n = max_count (map (\<lambda>b. sum_list (snd (snd b))) blobs)
      in if max_n = 0 then replicate k (replicate (length blobs) ([], []))
         else map (\<lambda>i. map (\<lambda>b. batched_piece max_n b i) blobs) [0..<k])"

text \<open>\<open>gather_v_grouped_to_rank0\<close> and \<open>gather_shards_to_rank0\<close>.\<close>

definition gather_v_grouped :: "(32 word list \<times> 'v::zero list) list \<Rightarrow> (32 word list \<times> 'v list) list" where
  "gather_v_grouped deltas =
     (let counts = map (\<lambda>d. length (fst d)) deltas; max_n = max_count counts
      in if max_n = 0 then replicate (length deltas) ([], [])
         else map2 (\<lambda>n d. (take n (pad_to max_n (fst d)), take n (pad_to max_n (snd d)))) counts deltas)"

definition gather_shards :: "'v::zero list list \<Rightarrow> 'v list list" where
  "gather_shards shards =
     (let counts = map length shards; max_n = max_count counts
      in if max_n = 0 then replicate (length shards) []
         else map2 (\<lambda>n s. take n (pad_to max_n s)) counts shards)"

text \<open>A slice assignment \<open>full[a : a + n] = v\<close>: the slice is clipped, then the sizes must agree (or \<open>v\<close> has size 1).\<close>

definition assign_slice :: "nat \<Rightarrow> 'a list \<Rightarrow> 'a list \<Rightarrow> 'a list result" where
  "assign_slice a v full =
     (if a + length v \<le> length full then Inr (take a full @ v @ drop (a + length v) full)
      else if length v = 1 then Inr full else Inl RuntimeError)"

text \<open>\<open>gather_dense_to_rank0\<close>: every rank passes its values and their offset.\<close>

definition gather_dense :: "(nat \<Rightarrow> 'v list) \<Rightarrow> nat \<Rightarrow> ('v::zero list \<times> nat) list \<Rightarrow> 'v list result" where
  "gather_dense uninit full_numel shards =
     (let counts = map (\<lambda>s. length (fst s)) shards; max_n = max_count counts
      in if max_n = 0 then Inr []
         else res_fold (\<lambda>(n, s) full. if n \<noteq> 0 then assign_slice (snd s) (take n (pad_to max_n (fst s))) full else Inr full)
                (zip counts shards) (uninit full_numel))"

section \<open>The sender\<close>

text \<open>
  A parameter as \<open>get_per_tensor_param_shard\<close> yields it on every rank, the configuration of the engine and its state
  between two syncs.
\<close>

record 'v weight =
  w_name :: string
  w_dtype :: string
  w_local :: "nat \<Rightarrow> 'v list"
  w_spec :: "'v shard_spec"

record 'v sync_config =
  world :: nat
  bucket_size :: nat
  batch_gather :: nat
  max_entry_elems :: nat
  torch_hash :: "'v torch_hash"
  uninit :: "nat \<Rightarrow> 'v list"

definition MAX_ENTRY_ELEMS :: nat where
  "MAX_ENTRY_ELEMS = 64 * 2 ^ 20"

type_synonym 'v snapshots = "nat \<Rightarrow> string \<Rightarrow> 'v list option"

record 'v sender =
  shard_snap :: "'v snapshots"
  shard_seeded :: bool

text \<open>A parameter that waits in a gather group, with the delta of every rank of its group.\<close>

record 'v group_entry =
  g_name :: string
  g_dtype :: string
  g_shape :: "nat list"
  g_pg :: "group_handle option"
  g_deltas :: "(32 word list \<times> 'v list) list"
  g_to_hf :: "'v list list \<Rightarrow> (string \<times> nat list \<times> 'v list) list"
  g_numel :: nat

record 'v send_state =
  bucket :: "'v delta_entry list"
  bucket_bytes :: nat
  pending :: "'v delta_flush option"
  n_flushes :: nat
  changed_elems :: nat
  total_elems :: nat
  wire_bytes :: nat
  sent :: "'v message list"
  gather_group :: "'v group_entry list"
  nan_group :: "'v group_entry list"
  snaps :: "'v snapshots"

definition group_ranks :: "'v sync_config \<Rightarrow> group_handle option \<Rightarrow> nat list" where
  "group_ranks cfg pg = (case pg of None \<Rightarrow> [0..<world cfg] | Some g \<Rightarrow> snd g)"

definition emit :: "bool \<Rightarrow> 'v send_state \<Rightarrow> 'v send_state" where
  "emit is_last st = (case pending st of None \<Rightarrow> st
     | Some f \<Rightarrow> st\<lparr>sent := sent st @ [publish_flush f False is_last], n_flushes := n_flushes st + 1, pending := None\<rparr>)"

definition seal :: "'v sync_config \<Rightarrow> 'v send_state \<Rightarrow> 'v send_state result" where
  "seal cfg st =
     (if bucket st = [] then Inr st
      else let st1 = emit False st in
        res_bind (assemble_flush (torch_hash cfg) (bucket st1)) (\<lambda>f.
          Inr (st1\<lparr>pending := Some f, bucket := [], bucket_bytes := 0\<rparr>)))"

definition entry_piece :: "nat \<Rightarrow> 'v delta_entry \<Rightarrow> nat \<Rightarrow> 'v delta_entry" where
  "entry_piece cap e s = e\<lparr>e_idx := slice s (min (s + cap) (length (e_idx e))) (e_idx e),
     e_vals := slice s (min (s + cap) (length (e_idx e))) (e_vals e)\<rparr>"

definition consume_piece :: "'w::len word sync_config \<Rightarrow> 'w word delta_entry \<Rightarrow> nat \<Rightarrow> 'w word send_state \<Rightarrow> 'w word send_state result" where
  "consume_piece cfg e s st =
     (let n = min (s + max_entry_elems cfg) (length (e_idx e)) - s;
          st1 = st\<lparr>bucket := bucket st @ [entry_piece (max_entry_elems cfg) e s],
                   bucket_bytes := bucket_bytes st + n * 8 + n * element_size TYPE('w)\<rparr>
      in if bucket_bytes st1 \<ge> bucket_size cfg then seal cfg st1 else Inr st1)"

text \<open>
  \<open>_consume\<close>; the loop runs over \<open>range(0, aidx.numel(), MAX_ENTRY_ELEMS)\<close>. \<open>MAX_ENTRY_ELEMS\<close> is a positive constant of the class;
  \<open>range\<close> would raise for a step of 0, for which the list of starts here says nothing about the code.
\<close>

definition piece_starts :: "nat \<Rightarrow> nat \<Rightarrow> nat list" where
  "piece_starts cap n = [s \<leftarrow> [0..<n]. cap dvd s]"

definition delta_consume :: "'w::len word sync_config \<Rightarrow> 'w word delta_entry \<Rightarrow> nat \<Rightarrow> 'w word send_state \<Rightarrow> 'w word send_state result" where
  "delta_consume cfg e full_numel st =
     (let st1 = st\<lparr>total_elems := total_elems st + full_numel\<rparr>; n = length (e_idx e) in
      if n = 0 then Inr st1
      else res_fold (consume_piece cfg e) (piece_starts (max_entry_elems cfg) n)
             (st1\<lparr>changed_elems := changed_elems st1 + n,
                  wire_bytes := wire_bytes st1 + n * (4 + element_size TYPE('w))\<rparr>))"

definition blobs_of :: "'v group_entry list \<Rightarrow> nat \<Rightarrow> 'v blob list" where
  "blobs_of grp n = map (\<lambda>j. (concat (map (\<lambda>g. fst (g_deltas g ! j)) grp), concat (map (\<lambda>g. snd (g_deltas g ! j)) grp),
     map (\<lambda>g. length (fst (g_deltas g ! j))) grp)) [0..<n]"

definition entry_of :: "'v group_entry \<Rightarrow> 32 word list \<times> 'v list \<Rightarrow> 'v delta_entry" where
  "entry_of g d = \<lparr>e_name = g_name g, e_dtype = g_dtype g, e_shape = g_shape g, e_idx = fst d, e_vals = snd d\<rparr>"

definition flush_group :: "'w::len word sync_config \<Rightarrow> 'w word send_state \<Rightarrow> 'w word send_state result" where
  "flush_group cfg st =
     (let grp = gather_group st; done = (\<lambda>s. s\<lparr>gather_group := []\<rparr>) in
      if grp = [] then Inr st
      else case g_pg (hd grp) of
        None \<Rightarrow> res_bind (res_fold (\<lambda>g. delta_consume cfg (entry_of g (hd (g_deltas g))) (g_numel g)) grp st) (\<lambda>s. Inr (done s))
      | Some (h, ranks) \<Rightarrow>
          (let gathered = gather_v_batched (blobs_of grp (length ranks))
           in if hd ranks \<noteq> 0 then Inr (done st)
              else res_bind (res_fold (\<lambda>(g, d). delta_consume cfg (entry_of g d) (g_numel g)) (zip grp gathered) st)
                     (\<lambda>s. Inr (done s))))"

text \<open>The rebuild of the converter profile: NaN where nothing changed, through \<open>to_hf\<close>, then what is not NaN.\<close>

definition rebuild :: "'w::len word group_entry \<Rightarrow> (32 word list \<times> 'w word list) list \<Rightarrow> 'w word delta_entry list result" where
  "rebuild g per_rank =
     res_bind (res_map (\<lambda>(gi, gv). index_copy (replicate (prodshape (g_shape g)) (quiet_nan (g_dtype g))) (map sint gi) gv) per_rank)
       (\<lambda>shard_list. Inr (map (\<lambda>(hf_name, shape, fl).
          let pos = [i \<leftarrow> [0..<length fl]. \<not> is_nan (g_dtype g) (fl ! i)]
          in \<lparr>e_name = hf_name, e_dtype = g_dtype g, e_shape = shape,
              e_idx = map word_of_nat pos, e_vals = map (\<lambda>i. fl ! i) pos\<rparr>) (g_to_hf g shard_list)))"

definition consume_rebuilt :: "'w::len word sync_config \<Rightarrow> 'w word delta_entry \<Rightarrow> 'w word send_state \<Rightarrow> 'w word send_state result" where
  "consume_rebuilt cfg e st =
     (if e_idx e = [] then Inr (st\<lparr>total_elems := total_elems st + prodshape (e_shape e)\<rparr>)
      else delta_consume cfg e (prodshape (e_shape e)) st)"

definition flush_nan_group :: "'w::len word sync_config \<Rightarrow> 'w word send_state \<Rightarrow> 'w word send_state result" where
  "flush_nan_group cfg st =
     (let grp = nan_group st; done = (\<lambda>s. s\<lparr>nan_group := []\<rparr>) in
      if grp = [] then Inr st
      else let ranks = group_ranks cfg (g_pg (hd grp));
               gathered = gather_v_batched_grouped (blobs_of grp (length ranks))
           in if hd ranks \<noteq> 0 then Inr (done st)
              else res_bind (res_fold (\<lambda>(g, per_rank) s.
                       res_bind (rebuild g per_rank) (\<lambda>es. res_fold (consume_rebuilt cfg) es s)) (zip grp gathered) st)
                     (\<lambda>s. Inr (done s)))"


text \<open>One rank on one parameter: placement, diff against its snapshot, new snapshot.\<close>

definition snapshot_base :: "'v sync_config \<Rightarrow> 'v snapshots \<Rightarrow> nat \<Rightarrow> 'v weight \<Rightarrow> 'v list" where
  "snapshot_base cfg sn r w = (case sn r (w_name w) of
       None \<Rightarrow> uninit cfg (length (w_local w r))
     | Some s \<Rightarrow> if length s \<noteq> length (w_local w r) then uninit cfg (length (w_local w r)) else s)"

definition rank_delta ::
  "'w::len word sync_config \<Rightarrow> 'w word snapshots \<Rightarrow> 'w word weight \<Rightarrow> nat
   \<Rightarrow> (nat \<times> group_handle option \<times> nat list \<times> 'w word list) result" where
  "rank_delta cfg sn w r =
     res_bind (derive_placement r (w_spec w)) (\<lambda>(offset, contributes, pg).
     res_bind (if contributes then shard_delta_indices (w_local w r) (snapshot_base cfg sn r w) 0 else Inr ([], []))
       (\<lambda>(lidx, lval). Inr (offset, pg, lidx, lval)))"

definition take_snapshots :: "nat \<Rightarrow> 'v weight \<Rightarrow> 'v snapshots \<Rightarrow> 'v snapshots" where
  "take_snapshots n w sn = (\<lambda>r. if r < n then (sn r)(w_name w \<mapsto> w_local w r) else sn r)"

text \<open>
  What rank 0 holds of one parameter for the gather: the deltas of the ranks of its group (its own alone without a
  group). The positions become int32 here, global ones for a placement, local ones for a converter.
\<close>

definition placement_entry ::
  "'v weight \<Rightarrow> (nat \<times> group_handle option \<times> nat list \<times> 'v list) list \<Rightarrow> 'v group_entry" where
  "placement_entry w ds =
     (let pg = fst (snd (hd ds)); shape = full_shape (w_spec w)
      in \<lparr>g_name = w_name w, g_dtype = w_dtype w, g_shape = shape, g_pg = pg,
          g_deltas = map (\<lambda>r. case ds ! r of (offset, pg, lidx, lval) \<Rightarrow> (map (\<lambda>i. word_of_nat (i + offset)) lidx, lval))
            (case pg of None \<Rightarrow> [0] | Some g \<Rightarrow> snd g),
          g_to_hf = (\<lambda>_. []), g_numel = prodshape shape\<rparr>)"

definition converter_entry ::
  "'v sync_config \<Rightarrow> 'v weight \<Rightarrow> ('v list list \<Rightarrow> (string \<times> nat list \<times> 'v list) list)
   \<Rightarrow> (nat \<times> group_handle option \<times> nat list \<times> 'v list) list \<Rightarrow> 'v group_entry" where
  "converter_entry cfg w conv ds =
     (let pg = fst (snd (hd ds))
      in \<lparr>g_name = w_name w, g_dtype = w_dtype w, g_shape = [length (w_local w 0)], g_pg = pg,
          g_deltas = map (\<lambda>r. case ds ! r of (offset, pg, lidx, lval) \<Rightarrow> (map word_of_nat lidx, lval)) (group_ranks cfg pg),
          g_to_hf = conv, g_numel = 0\<rparr>)"

text \<open>A new handle flushes the batch before the parameter joins it, a full batch is flushed after.\<close>

definition group_add :: "'w::len word sync_config \<Rightarrow> 'w word group_entry \<Rightarrow> 'w word send_state \<Rightarrow> 'w word send_state result" where
  "group_add cfg g st =
     res_bind (if gather_group st \<noteq> [] \<and> g_pg (last (gather_group st)) \<noteq> g_pg g then flush_group cfg st else Inr st) (\<lambda>st1.
     let st2 = st1\<lparr>gather_group := gather_group st1 @ [g]\<rparr>
     in if length (gather_group st2) \<ge> max (batch_gather cfg) 1 then flush_group cfg st2 else Inr st2)"

definition nan_add :: "'w::len word sync_config \<Rightarrow> 'w word group_entry \<Rightarrow> 'w word send_state \<Rightarrow> 'w word send_state result" where
  "nan_add cfg g st =
     res_bind (if nan_group st \<noteq> [] \<and> g_pg (hd (nan_group st)) \<noteq> g_pg g then flush_nan_group cfg st else Inr st) (\<lambda>st1.
     let st2 = st1\<lparr>nan_group := nan_group st1 @ [g]\<rparr>
     in if length (nan_group st2) \<ge> max (batch_gather cfg) 1 then flush_nan_group cfg st2 else Inr st2)"

definition send_param :: "'w::len word sync_config \<Rightarrow> 'w word weight \<Rightarrow> 'w word send_state \<Rightarrow> 'w word send_state result" where
  "send_param cfg w st =
     res_bind (res_map (rank_delta cfg (snaps st) w) [0..<world cfg]) (\<lambda>ds.
     let st1 = st\<lparr>snaps := take_snapshots (world cfg) w (snaps st)\<rparr>
     in case to_hf (w_spec w) of
          Some conv \<Rightarrow> nan_add cfg (converter_entry cfg w conv ds) st1
        | None \<Rightarrow> group_add cfg (placement_entry w ds) st1)"

definition send_start :: "'v snapshots \<Rightarrow> 'v send_state" where
  "send_start sn = \<lparr>bucket = [], bucket_bytes = 0, pending = None, n_flushes = 0, changed_elems = 0, total_elems = 0,
     wire_bytes = 0, sent = [], gather_group = [], nan_group = [], snaps = sn\<rparr>"

text \<open>The metrics of a sync: changed and total elements, payload bytes, flushes.\<close>

type_synonym sync_metrics = "(nat \<times> nat \<times> nat \<times> nat) option"

definition send_delta ::
  "'w::len word sync_config \<Rightarrow> 'w word weight list \<Rightarrow> 'w word sender
   \<Rightarrow> ('w word sender \<times> 'w word message list \<times> sync_metrics) result" where
  "send_delta cfg weights s =
     res_bind (res_fold (send_param cfg) weights (send_start (shard_snap s))) (\<lambda>st1.
     res_bind (flush_group cfg st1) (\<lambda>st2.
     res_bind (flush_nan_group cfg st2) (\<lambda>st3.
     res_bind (seal cfg st3) (\<lambda>st4.
       let st5 = (if pending st4 \<noteq> None then emit True st4 else st4\<lparr>sent := sent st4 @ [publish_terminal False]\<rparr>)
       in Inr (\<lparr>shard_snap = snaps st5, shard_seeded = True\<rparr>, sent st5,
               if total_elems st5 = 0 then None
               else Some (changed_elems st5, total_elems st5, wire_bytes st5, n_flushes st5))))))"

section \<open>The dense first sync\<close>

record 'v seed_state =
  sd_bucket :: "'v dense_entry list"
  sd_bytes :: nat
  sd_pending :: "(delta_param list \<times> 'v list) option"
  sd_flushes :: nat
  sd_total :: nat
  sd_wire :: nat
  sd_sent :: "'v message list"
  sd_snaps :: "'v snapshots"

definition seed_emit :: "'w::len word sync_config \<Rightarrow> bool \<Rightarrow> 'w word seed_state \<Rightarrow> 'w word seed_state" where
  "seed_emit cfg is_last st = (case sd_pending st of None \<Rightarrow> st
     | Some (params, values) \<Rightarrow>
         st\<lparr>sd_sent := sd_sent st @ [publish_dense_flush (torch_hash cfg) params values is_last],
            sd_flushes := sd_flushes st + 1,
            sd_wire := sd_wire st + length values * element_size TYPE('w), sd_pending := None\<rparr>)"

definition seed_seal :: "'w::len word sync_config \<Rightarrow> 'w word seed_state \<Rightarrow> 'w word seed_state" where
  "seed_seal cfg st = (if sd_bucket st = [] then st
     else (seed_emit cfg False st)\<lparr>sd_pending := Some (dense_manifest 0 (sd_bucket st), concat (map d_flat (sd_bucket st))),
            sd_bucket := [], sd_bytes := 0\<rparr>)"

definition bucket_dense :: "'w::len word sync_config \<Rightarrow> 'w word dense_entry \<Rightarrow> 'w word seed_state \<Rightarrow> 'w word seed_state" where
  "bucket_dense cfg d st =
     (let n = length (d_flat d);
          st1 = st\<lparr>sd_total := sd_total st + n, sd_bucket := sd_bucket st @ [d],
                   sd_bytes := sd_bytes st + n * element_size TYPE('w)\<rparr>
      in if sd_bytes st1 \<ge> bucket_size cfg then seed_seal cfg st1 else st1)"

text \<open>\<open>Tensor.view\<close> to a shape.\<close>

definition viewed :: "nat list \<Rightarrow> 'v list \<Rightarrow> 'v list result" where
  "viewed shape t = (if length t = prodshape shape then Inr t else Inl RuntimeError)"

definition seed_param :: "'w::len word sync_config \<Rightarrow> 'w word weight \<Rightarrow> 'w word seed_state \<Rightarrow> 'w word seed_state result" where
  "seed_param cfg w st =
     res_bind (res_map (\<lambda>r. derive_placement r (w_spec w)) [0..<world cfg]) (\<lambda>pls.
     let st1 = st\<lparr>sd_snaps := take_snapshots (world cfg) w (sd_snaps st)\<rparr>;
         spec = w_spec w; pg = snd (snd (hd pls));
         shard = (\<lambda>r. if fst (snd (pls ! r)) then w_local w r else []);
         dense = (\<lambda>t. \<lparr>d_name = w_name w, d_dtype = w_dtype w, d_shape = full_shape spec, d_flat = t\<rparr>)
     in case to_hf spec of
          None \<Rightarrow>
            (case pg of
               None \<Rightarrow> if fst (snd (hd pls))
                       then res_bind (viewed (full_shape spec) (w_local w 0)) (\<lambda>t. Inr (bucket_dense cfg (dense t) st1))
                       else Inr st1
             | Some (h, ranks) \<Rightarrow>
                 res_bind (gather_dense (uninit cfg) (prodshape (full_shape spec))
                     (map (\<lambda>r. (shard r, if fst (snd (pls ! r)) then fst (pls ! r) else 0)) ranks)) (\<lambda>full.
                 if hd ranks = 0 then res_bind (viewed (full_shape spec) full) (\<lambda>t. Inr (bucket_dense cfg (dense t) st1))
                 else Inr st1))
        | Some conv \<Rightarrow>
            (let ranks = group_ranks cfg pg; shards = gather_shards (map shard ranks)
             in if hd ranks = 0
                then Inr (fold (\<lambda>(hf_name, shape, t). bucket_dense cfg
                       \<lparr>d_name = hf_name, d_dtype = w_dtype w, d_shape = shape, d_flat = t\<rparr>) (conv shards) st1)
                else Inr st1))"

definition seed_start :: "'v snapshots \<Rightarrow> 'v seed_state" where
  "seed_start sn = \<lparr>sd_bucket = [], sd_bytes = 0, sd_pending = None, sd_flushes = 0, sd_total = 0, sd_wire = 0,
     sd_sent = [], sd_snaps = sn\<rparr>"

definition send_dense_seed ::
  "'w::len word sync_config \<Rightarrow> 'w word weight list \<Rightarrow> 'w word sender
   \<Rightarrow> ('w word sender \<times> 'w word message list \<times> sync_metrics) result" where
  "send_dense_seed cfg weights s =
     res_bind (res_fold (seed_param cfg) weights (seed_start (shard_snap s))) (\<lambda>st1.
       let st2 = seed_seal cfg st1;
           st3 = (if sd_pending st2 \<noteq> None then seed_emit cfg True st2
                  else st2\<lparr>sd_sent := sd_sent st2 @ [publish_terminal True]\<rparr>)
       in Inr (\<lparr>shard_snap = sd_snaps st3, shard_seeded = True\<rparr>, sd_sent st3,
               if sd_total st3 = 0 then None else Some (sd_total st3, sd_total st3, sd_wire st3, sd_flushes st3)))"

definition send_weights ::
  "'w::len word sync_config \<Rightarrow> 'w word weight list \<Rightarrow> 'w word sender
   \<Rightarrow> ('w word sender \<times> 'w word message list \<times> sync_metrics) result" where
  "send_weights cfg weights s = (if shard_seeded s then send_delta cfg weights s else send_dense_seed cfg weights s)"


section \<open>The gathers\<close>

lemma le_max_count: "x \<in> set ns \<Longrightarrow> x \<le> max_count ns"
  by (induction ns) (auto simp: max_count_def)

lemma offs_row_nth: "i \<le> length cs \<Longrightarrow> offs_row a cs ! i = a + sum_list (take i cs)"
proof (induction a cs arbitrary: i rule: offs_row.induct)
  case (2 a c cs)
  then show ?case by (cases i) auto
qed simp

lemma slice_concat:
  "i < length xss \<Longrightarrow> slice (sum_list (take i (map length xss))) (sum_list (take (i + 1) (map length xss))) (concat xss @ ys) = xss ! i"
proof (induction xss arbitrary: i)
  case (Cons x xss)
  then show ?case by (cases i) (simp_all add: slice_def)
qed simp

definition delta_wf :: "nat \<Rightarrow> 'v group_entry \<Rightarrow> bool" where
  "delta_wf n g \<longleftrightarrow> length (g_deltas g) = n \<and> (\<forall>d\<in>set (g_deltas g). length (fst d) = length (snd d))"

lemma piece_of_blob:
  assumes "j < n" "i < length grp" "\<forall>g\<in>set grp. delta_wf n g"
  shows "batched_piece m (blobs_of grp n ! j) i = g_deltas (grp ! i) ! j"
proof -
  let ?I = "map (\<lambda>g. fst (g_deltas g ! j)) grp" and ?V = "map (\<lambda>g. snd (g_deltas g ! j)) grp"
  define C where "C = map (\<lambda>g. length (fst (g_deltas g ! j))) grp"
  have C: "C = map length ?I" "C = map length ?V"
    using assms by (auto simp: delta_wf_def C_def)
  have "slice (offs_row 0 C ! i) (offs_row 0 C ! (i + 1)) (pad_to m (concat ?I)) = ?I ! i"
    unfolding C(1) using assms slice_concat[of i ?I] by (simp add: offs_row_nth pad_to_def del: map_map)
  moreover have "slice (offs_row 0 C ! i) (offs_row 0 C ! (i + 1)) (pad_to m (concat ?V)) = ?V ! i"
    unfolding C(2) using assms slice_concat[of i ?V] by (simp add: offs_row_nth pad_to_def del: map_map)
  ultimately show ?thesis
    using assms(1,2) by (simp add: batched_piece_def blobs_of_def Let_def prod_eq_iff C_def[symmetric])
qed

lemma concat_map_filter: "(\<And>x. x \<in> set xs \<Longrightarrow> \<not> P x \<Longrightarrow> f x = []) \<Longrightarrow> concat (map f (filter P xs)) = concat (map f xs)"
  by (induction xs) auto

lemma delta_empty:
  assumes "delta_wf n g" "j < n" "fst (g_deltas g ! j) = []"
  shows "g_deltas g ! j = ([], [])"
proof -
  have "g_deltas g ! j \<in> set (g_deltas g)"
    using assms(1,2) by (simp add: delta_wf_def)
  then have "length (fst (g_deltas g ! j)) = length (snd (g_deltas g ! j))"
    using assms(1) by (simp add: delta_wf_def)
  then show ?thesis
    using assms(3) by (simp add: prod_eq_iff)
qed

lemma no_counts:
  assumes "max_count (map (\<lambda>b. sum_list (snd (snd b))) (blobs_of grp n)) = 0" "g \<in> set grp" "j < n" "delta_wf n g"
  shows "g_deltas g ! j = ([], [])"
proof -
  have "blobs_of grp n ! j \<in> set (blobs_of grp n)" "snd (snd (blobs_of grp n ! j)) = map (\<lambda>g. length (fst (g_deltas g ! j))) grp"
    using assms(3) nth_mem[of j "blobs_of grp n"] by (simp_all add: blobs_of_def)
  then have "sum_list (map (\<lambda>g. length (fst (g_deltas g ! j))) grp) \<in> set (map (\<lambda>b. sum_list (snd (snd b))) (blobs_of grp n))"
    by (metis (no_types, lifting) image_eqI list.set_map)
  then have "sum_list (map (\<lambda>g. length (fst (g_deltas g ! j))) grp) = 0"
    using le_max_count assms(1) by (metis le_zero_eq)
  then have "fst (g_deltas g ! j) = []" using assms(2) by simp
  then show ?thesis using delta_empty[OF assms(4,3)] by simp
qed

lemma gather_v_batched_blobs:
  assumes "0 < n" "\<forall>g\<in>set grp. delta_wf n g"
  shows "gather_v_batched (blobs_of grp n) = map (\<lambda>g. (concat (map fst (g_deltas g)), concat (map snd (g_deltas g)))) grp"
proof -
  let ?B = "blobs_of grp n"
  define m where "m = max_count (map (\<lambda>b. sum_list (snd (snd b))) ?B)"
  have k: "length (snd (snd (hd ?B))) = length grp" and n: "length ?B = n"
    using assms(1) by (simp_all add: blobs_of_def upt_conv_Cons)
  show ?thesis
  proof (cases "m = 0")
    case True
    have "g_deltas g = replicate n ([], [])" if "g \<in> set grp" for g
      using no_counts[of grp n g] True that assms(2) by (auto simp: m_def delta_wf_def intro!: nth_equalityI)
    then show ?thesis
      using True k by (auto simp: gather_v_batched_def m_def[symmetric] intro!: nth_equalityI)
  next
    case False
    have row: "(concat (map (\<lambda>b. fst (batched_piece m b i)) bs), concat (map (\<lambda>b. snd (batched_piece m b i)) bs))
        = (concat (map fst (g_deltas (grp ! i))), concat (map snd (g_deltas (grp ! i))))"
      if i: "i < length grp" and bs: "bs = filter (\<lambda>b. snd (snd b) ! i \<noteq> 0) ?B" for i bs
    proof -
      have p: "batched_piece m (?B ! j) i = g_deltas (grp ! i) ! j" if "j < n" for j
        using piece_of_blob[OF that i assms(2)] .
      have z: "batched_piece m b i = ([], [])" if b: "b \<in> set ?B" "\<not> snd (snd b) ! i \<noteq> 0" for b
      proof -
        obtain j where j: "j < n" "b = ?B ! j" using b(1) n by (auto simp: in_set_conv_nth)
        then have "fst (g_deltas (grp ! i) ! j) = []" using b(2) i by (simp add: blobs_of_def)
        then have "g_deltas (grp ! i) ! j = ([], [])"
          using delta_empty[of n "grp ! i" j] assms(2) i j(1) by simp
        then show ?thesis using p j by simp
      qed
      have e: "map (\<lambda>b. batched_piece m b i) ?B = g_deltas (grp ! i)"
        using p n assms(2) i by (auto simp: delta_wf_def intro!: nth_equalityI)
      have "map (\<lambda>b. fst (batched_piece m b i)) ?B = map fst (g_deltas (grp ! i))"
        "map (\<lambda>b. snd (batched_piece m b i)) ?B = map snd (g_deltas (grp ! i))"
        using arg_cong[OF e, of "map fst"] arg_cong[OF e, of "map snd"] by (simp_all add: comp_def)
      then show ?thesis
        unfolding bs using concat_map_filter[of ?B "\<lambda>b. snd (snd b) ! i \<noteq> 0" "\<lambda>b. fst (batched_piece m b i)"]
          concat_map_filter[of ?B "\<lambda>b. snd (snd b) ! i \<noteq> 0" "\<lambda>b. snd (batched_piece m b i)"] z by simp
    qed
    have "gather_v_batched ?B = map (\<lambda>i. let bs = filter (\<lambda>b. snd (snd b) ! i \<noteq> 0) ?B
        in (concat (map (\<lambda>b. fst (batched_piece m b i)) bs), concat (map (\<lambda>b. snd (batched_piece m b i)) bs))) [0..<length grp]"
      using False by (simp only: gather_v_batched_def Let_def m_def[symmetric] k if_False)
    also have "\<dots> = map (\<lambda>i. (concat (map fst (g_deltas (grp ! i))), concat (map snd (g_deltas (grp ! i))))) [0..<length grp]"
      by (rule map_cong[OF refl]) (simp only: Let_def row[OF _ refl] set_upt atLeastLessThan_iff)
    also have "\<dots> = map (\<lambda>g. (concat (map fst (g_deltas g)), concat (map snd (g_deltas g)))) grp"
      by (rule nth_equalityI) simp_all
    finally show ?thesis .
  qed
qed

lemma gather_v_batched_grouped_blobs:
  assumes "0 < n" "\<forall>g\<in>set grp. delta_wf n g"
  shows "gather_v_batched_grouped (blobs_of grp n) = map g_deltas grp"
proof -
  let ?B = "blobs_of grp n"
  define m where "m = max_count (map (\<lambda>b. sum_list (snd (snd b))) ?B)"
  have k: "length (snd (snd (hd ?B))) = length grp" and n: "length ?B = n"
    using assms(1) by (simp_all add: blobs_of_def upt_conv_Cons)
  have "g_deltas g = replicate n ([], [])" if "m = 0" "g \<in> set grp" for g
    using no_counts[of grp n g] that assms(2) by (auto simp: m_def delta_wf_def intro!: nth_equalityI)
  moreover have "map (\<lambda>b. batched_piece m b i) ?B = g_deltas (grp ! i)" if "i < length grp" for i
    using piece_of_blob[OF _ that assms(2)] n that assms(2) by (auto simp: delta_wf_def intro!: nth_equalityI)
  ultimately show ?thesis
    unfolding gather_v_batched_grouped_def Let_def m_def[symmetric] k n by (auto intro!: nth_equalityI)
qed

lemma take_pad: "take (length xs) (pad_to n xs) = xs"
  by (simp add: pad_to_def)

lemma gather_shards_same: "gather_shards shards = shards"
proof (cases "max_count (map length shards) = 0")
  case True
  then have "s = []" if "s \<in> set shards" for s
    using le_max_count[of "length s" "map length shards"] that by simp
  then show ?thesis
    using True by (simp add: gather_shards_def replicate_length_same)
next
  case False
  have "map2 (\<lambda>n s. take n (pad_to m s)) (map length shards) shards = shards" for m
    by (induction shards) (simp_all add: take_pad)
  then show ?thesis using False by (simp add: gather_shards_def)
qed

lemma gather_v_grouped_same:
  assumes "\<forall>d\<in>set deltas. length (fst d) = length (snd d)"
  shows "gather_v_grouped deltas = deltas"
proof (cases "max_count (map (\<lambda>d. length (fst d)) deltas) = 0")
  case True
  have "d = ([], [])" if d: "d \<in> set deltas" for d
  proof -
    have "length (fst d) \<in> set (map (\<lambda>d. length (fst d)) deltas)" using d by simp
    then have "length (fst d) = 0" using le_max_count True by (metis le_zero_eq)
    then show ?thesis using assms d by (metis length_0_conv prod.collapse)
  qed
  then show ?thesis
    using True by (simp add: gather_v_grouped_def replicate_length_same)
next
  case False
  have "map2 (\<lambda>n d. (take n (pad_to m (fst d)), take n (pad_to m (snd d)))) (map (\<lambda>d. length (fst d)) deltas) deltas = deltas" for m
    using assms
  proof (induction deltas)
    case (Cons d ds)
    then show ?case using take_pad[of "snd d" m] take_pad[of "fst d" m] by (simp add: prod_eq_iff)
  qed simp
  then show ?thesis using False by (simp add: gather_v_grouped_def)
qed

lemma gather_dense_full:
  assumes range: "\<forall>(v, a)\<in>set shards. v \<noteq> [] \<longrightarrow> a + length v \<le> length full \<and> v = slice a (a + length v) full"
    and cover: "\<forall>i<length full. \<exists>(v, a)\<in>set shards. a \<le> i \<and> i < a + length v"
    and uninit: "\<And>n. length (u n) = n"
  shows "gather_dense u (length full) shards = Inr full"
proof (cases "max_count (map (\<lambda>s. length (fst s)) shards) = 0")
  case True
  then have "v = []" if "(v, a) \<in> set shards" for v a
    using le_max_count[of "length v" "map (\<lambda>s. length (fst s)) shards"] that by force
  then have "full = []"
    using cover by (cases full) auto
  then show ?thesis using True by (simp add: gather_dense_def)
next
  case False
  define m where "m = max_count (map (\<lambda>s. length (fst s)) shards)"
  let ?f = "\<lambda>(n, s) g. if n \<noteq> 0 then assign_slice (snd s) (take n (pad_to m (fst s))) g else Inr g"
  have run: "\<exists>g'. res_fold ?f (zip (map (\<lambda>s. length (fst s)) shards) shards) g = Inr g' \<and> length g' = length full
      \<and> (\<forall>i<length full. g ! i = full ! i \<or> (\<exists>(v, a)\<in>set shards. a \<le> i \<and> i < a + length v) \<longrightarrow> g' ! i = full ! i)"
    if "length g = length full" for g
    using range that
  proof (induction shards arbitrary: g)
    case Nil
    then show ?case by simp
  next
    case (Cons s shards)
    obtain v a where s: "s = (v, a)" by (cases s)
    show ?case
    proof (cases "v = []")
      case True
      obtain g' where "res_fold ?f (zip (map (\<lambda>s. length (fst s)) shards) shards) g = Inr g'" "length g' = length full"
         "\<forall>i<length full. g ! i = full ! i \<or> (\<exists>(v, a)\<in>set shards. a \<le> i \<and> i < a + length v) \<longrightarrow> g' ! i = full ! i"
        using Cons.IH[OF _ Cons.prems(2)] Cons.prems(1) by auto
      then show ?thesis using True by (intro exI[of _ g']) (auto simp: s)
    next
      case False
      then have va: "a + length v \<le> length full" "v = slice a (a + length v) full"
        using Cons.prems(1) by (auto simp: s)
      have vi: "v ! (i - a) = full ! i" if "a \<le> i" "i < a + length v" for i
        using arg_cong[OF va(2), of "\<lambda>x. x ! (i - a)"] that va(1) by (simp add: slice_def)
      let ?g = "take a g @ v @ drop (a + length v) g"
      have g: "length ?g = length full" using va(1) Cons.prems(2) by simp
      have gi: "?g ! i = (if a \<le> i \<and> i < a + length v then full ! i else g ! i)" if "i < length full" for i
        using that va(1) Cons.prems(2) vi[of i] by (auto simp: nth_append)
      obtain g' where g': "res_fold ?f (zip (map (\<lambda>s. length (fst s)) shards) shards) ?g = Inr g'" "length g' = length full"
         "\<forall>i<length full. ?g ! i = full ! i \<or> (\<exists>(v, a)\<in>set shards. a \<le> i \<and> i < a + length v) \<longrightarrow> g' ! i = full ! i"
        using Cons.IH[OF _ g] Cons.prems(1) by auto
      have "assign_slice a (take (length v) (pad_to m v)) g = Inr ?g"
        unfolding take_pad using va(1) Cons.prems(2) by (simp add: assign_slice_def)
      then have "res_fold ?f (zip (map (\<lambda>s. length (fst s)) (s # shards)) (s # shards)) g = Inr g'"
        using False g'(1) by (simp add: s)
      then show ?thesis using g'(2,3) gi by (intro exI[of _ g']) (auto simp: s)
    qed
  qed
  obtain g' where "res_fold ?f (zip (map (\<lambda>s. length (fst s)) shards) shards) (u (length full)) = Inr g'"
      "length g' = length full" "\<forall>i<length full. g' ! i = full ! i"
    using run[OF uninit] cover by blast
  then have "res_fold ?f (zip (map (\<lambda>s. length (fst s)) shards) shards) (u (length full)) = Inr full"
    by (auto intro: nth_equalityI)
  then show ?thesis
    unfolding gather_dense_def Let_def m_def[symmetric] using False[folded m_def] by simp
qed


section \<open>The buckets of the sender\<close>

definition small :: "'v delta_entry \<Rightarrow> bool" where
  "small e \<longleftrightarrow> prodshape (e_shape e) < 2 ^ 31"

lemma manifest_small: "list_all small es \<Longrightarrow> \<exists>ps. manifest po vo es = Inr ps"
  by (induction po vo es rule: manifest.induct) (auto simp: small_def Let_def)

lemma manifest_large: "\<not> list_all small es \<Longrightarrow> manifest po vo es = Inl AssertionError"
  by (induction po vo es rule: manifest.induct) (auto simp: small_def Let_def py_assert_def)

lemma assemble_small: "list_all small es \<Longrightarrow> \<exists>f. assemble_flush H es = Inr f"
  using manifest_small[of es 0 0] by (auto simp: assemble_flush_def Let_def)

text \<open>
  The pieces \<open>L\<close> that reached the buckets: those of the flushes sent, of the pending one and of the open bucket, in
  this order. \<open>frame\<close> is what bucketing leaves alone.
\<close>

definition streams :: "'w::len word sync_config \<Rightarrow> 'w word send_state \<Rightarrow> 'w word delta_entry list \<Rightarrow> bool" where
  "streams cfg st L \<longleftrightarrow> list_all small L \<and> (\<exists>fls ess.
     list_all2 (\<lambda>f es. assemble_flush (torch_hash cfg) es = Inr f) fls ess \<and>
     sent st = map (\<lambda>f. publish_flush f False False) (butlast fls) \<and>
     pending st = (if fls = [] then None else Some (last fls)) \<and> concat ess @ bucket st = L)"

definition frame :: "'v send_state \<Rightarrow> 'v group_entry list \<times> 'v group_entry list \<times> 'v snapshots" where
  "frame st = (gather_group st, nan_group st, snaps st)"

lemma seal_streams:
  assumes "streams cfg st L"
  shows "\<exists>st'. seal cfg st = Inr st' \<and> streams cfg st' L \<and> frame st' = frame st \<and> bucket st' = []"
proof (cases "bucket st = []")
  case True
  then show ?thesis using assms by (simp add: seal_def)
next
  case False
  obtain fls ess where f: "list_all2 (\<lambda>f es. assemble_flush (torch_hash cfg) es = Inr f) fls ess"
      "sent st = map (\<lambda>f. publish_flush f False False) (butlast fls)"
      "pending st = (if fls = [] then None else Some (last fls))" "concat ess @ bucket st = L" "list_all small L"
    using assms by (auto simp: streams_def)
  have "list_all small (bucket st)" using f(4,5) by auto
  then obtain g where g: "assemble_flush (torch_hash cfg) (bucket st) = Inr g" using assemble_small by blast
  have e: "sent (emit False st) = map (\<lambda>f. publish_flush f False False) fls" "bucket (emit False st) = bucket st"
      "frame (emit False st) = frame st"
    using f(2,3) by (cases fls rule: rev_cases; simp add: emit_def frame_def)+
  let ?st = "(emit False st)\<lparr>pending := Some g, bucket := [], bucket_bytes := 0\<rparr>"
  have "seal cfg st = Inr ?st" using False g e(2) by (simp add: seal_def Let_def)
  moreover have "streams cfg ?st L"
    unfolding streams_def
  proof (intro conjI exI)
    show "list_all2 (\<lambda>f es. assemble_flush (torch_hash cfg) es = Inr f) (fls @ [g]) (ess @ [bucket st])"
      using f(1) g by (simp add: list_all2_appendI)
  qed (use e f in auto)
  moreover have "frame ?st = frame st" using e(3) by (simp add: frame_def)
  ultimately show ?thesis by (intro exI[of _ ?st]) simp
qed

definition pieces :: "nat \<Rightarrow> 'v delta_entry \<Rightarrow> 'v delta_entry list" where
  "pieces cap e = map (entry_piece cap e) (piece_starts cap (length (e_idx e)))"

lemma small_piece [simp]: "small (entry_piece cap e s) = small e"
  by (simp add: small_def entry_piece_def)

lemma streams_frame: "streams cfg (st\<lparr>total_elems := a\<rparr>) L = streams cfg st L"
  "streams cfg (st\<lparr>changed_elems := a\<rparr>) L = streams cfg st L" "streams cfg (st\<lparr>wire_bytes := a\<rparr>) L = streams cfg st L"
  "streams cfg (st\<lparr>gather_group := x\<rparr>) L = streams cfg st L" "streams cfg (st\<lparr>nan_group := x\<rparr>) L = streams cfg st L"
  "streams cfg (st\<lparr>snaps := y\<rparr>) L = streams cfg st L"
  "frame (st\<lparr>total_elems := a\<rparr>) = frame st" "frame (st\<lparr>changed_elems := a\<rparr>) = frame st" "frame (st\<lparr>wire_bytes := a\<rparr>) = frame st"
  by (simp_all add: streams_def frame_def)

lemma fold_streams:
  assumes "\<And>x st L. x \<in> set xs \<Longrightarrow> streams cfg st L \<Longrightarrow> \<exists>st'. f x st = Inr st' \<and> streams cfg st' (L @ g x) \<and> frame st' = frame st"
    and "streams cfg st L"
  shows "\<exists>st'. res_fold f xs st = Inr st' \<and> streams cfg st' (L @ concat (map g xs)) \<and> frame st' = frame st"
  using assms
proof (induction xs arbitrary: st L)
  case Nil
  then show ?case by simp
next
  case (Cons x xs)
  obtain st1 where st1: "f x st = Inr st1" "streams cfg st1 (L @ g x)" "frame st1 = frame st"
    using Cons.prems(1)[of x st L] Cons.prems(2) by auto
  obtain st2 where "res_fold f xs st1 = Inr st2" "streams cfg st2 ((L @ g x) @ concat (map g xs))" "frame st2 = frame st1"
    using Cons.IH[OF _ st1(2)] Cons.prems(1) by (metis list.set_intros(2))
  then show ?case using st1 by simp
qed

lemma consume_piece_streams:
  assumes "streams cfg st L" "small e"
  shows "\<exists>st'. consume_piece cfg e s st = Inr st' \<and> streams cfg st' (L @ [entry_piece (max_entry_elems cfg) e s]) \<and> frame st' = frame st"
proof -
  define st1 where "st1 = st\<lparr>bucket := bucket st @ [entry_piece (max_entry_elems cfg) e s],
     bucket_bytes := bucket_bytes st + (min (s + max_entry_elems cfg) (length (e_idx e)) - s) * 8
       + (min (s + max_entry_elems cfg) (length (e_idx e)) - s) * element_size TYPE('a)\<rparr>"
  have "streams cfg st1 (L @ [entry_piece (max_entry_elems cfg) e s])"
    using assms by (auto simp: streams_def st1_def)
  moreover have "frame st1 = frame st" by (simp add: frame_def st1_def)
  ultimately show ?thesis
    using seal_streams[of cfg st1] unfolding consume_piece_def Let_def st1_def[symmetric] by (auto)
qed

lemma consume_streams:
  assumes "streams cfg st L" "small e"
  shows "\<exists>st'. delta_consume cfg e n st = Inr st' \<and> streams cfg st' (L @ pieces (max_entry_elems cfg) e) \<and> frame st' = frame st"
proof (cases "length (e_idx e) = 0")
  case True
  then show ?thesis
    using assms by (simp add: delta_consume_def pieces_def piece_starts_def streams_frame)
next
  case False
  define st1 where "st1 = (st\<lparr>total_elems := total_elems st + n\<rparr>)\<lparr>changed_elems := changed_elems (st\<lparr>total_elems := total_elems st + n\<rparr>) + length (e_idx e),
     wire_bytes := wire_bytes (st\<lparr>total_elems := total_elems st + n\<rparr>) + length (e_idx e) * (4 + element_size TYPE('a))\<rparr>"
  have "streams cfg st1 L" "frame st1 = frame st"
    using assms(1) by (simp_all add: st1_def streams_def frame_def)
  then show ?thesis
    using fold_streams[of "piece_starts (max_entry_elems cfg) (length (e_idx e))" cfg "consume_piece cfg e"
        "\<lambda>s. [entry_piece (max_entry_elems cfg) e s]" st1 L, OF consume_piece_streams[OF _ assms(2)]] False
    unfolding delta_consume_def Let_def st1_def[symmetric] by (simp add: pieces_def)
qed

definition gathered_entry :: "'v group_entry \<Rightarrow> 'v delta_entry" where
  "gathered_entry g = entry_of g (concat (map fst (g_deltas g)), concat (map snd (g_deltas g)))"

definition placed :: "'v group_entry \<Rightarrow> bool" where
  "placed g \<longleftrightarrow> prodshape (g_shape g) < 2 ^ 31 \<and> (case g_pg g of None \<Rightarrow> delta_wf 1 g
     | Some (h, ranks) \<Rightarrow> ranks \<noteq> [] \<and> hd ranks = 0 \<and> delta_wf (length ranks) g)"

definition one_group :: "'v group_entry list \<Rightarrow> bool" where
  "one_group grp \<longleftrightarrow> (\<forall>g\<in>set grp. g_pg g = g_pg (hd grp))"

lemma flush_group_streams:
  assumes s: "streams cfg st L" and ok: "list_all placed (gather_group st)" "one_group (gather_group st)"
  shows "\<exists>st'. flush_group cfg st = Inr st'
     \<and> streams cfg st' (L @ concat (map (\<lambda>g. pieces (max_entry_elems cfg) (gathered_entry g)) (gather_group st)))
     \<and> frame st' = ([], snd (frame st))"
proof -
  define grp where "grp = gather_group st"
  let ?p = "\<lambda>g. pieces (max_entry_elems cfg) (gathered_entry g)"
  have sm: "small (gathered_entry g)" if "g \<in> set grp" for g
    using ok(1) that by (auto simp: small_def gathered_entry_def entry_of_def placed_def list_all_iff grp_def)
  have fin: ?thesis if "flush_group cfg st = res_bind (res_fold f xs st) (\<lambda>s. Inr (s\<lparr>gather_group := []\<rparr>))"
      "\<And>x st L. x \<in> set xs \<Longrightarrow> streams cfg st L \<Longrightarrow> \<exists>st'. f x st = Inr st' \<and> streams cfg st' (L @ g x) \<and> frame st' = frame st"
      "concat (map g xs) = concat (map ?p grp)"
    for f g and xs :: "'b list"
    using fold_streams[of xs cfg f g st L, OF that(2) s] that(1,3) by (auto simp: streams_frame frame_def grp_def)
  show ?thesis
  proof (cases "grp = []")
    case True
    then show ?thesis using s by (simp add: flush_group_def grp_def frame_def)
  next
    case False
    show ?thesis
    proof (cases "g_pg (hd grp)")
      case None
      have hd: "entry_of g (hd (g_deltas g)) = gathered_entry g" if "g \<in> set grp" for g
      proof -
        have "length (g_deltas g) = 1"
          using ok that None by (auto simp: placed_def one_group_def delta_wf_def grp_def list_all_iff split: option.splits)
        then obtain d where "g_deltas g = [d]" by (auto simp: length_Suc_conv)
        then show ?thesis by (simp add: gathered_entry_def)
      qed
      have H: "\<exists>st'. delta_consume cfg (entry_of g (hd (g_deltas g))) (g_numel g) st = Inr st' \<and> streams cfg st' (L @ ?p g)
          \<and> frame st' = frame st" if "g \<in> set grp" "streams cfg st L" for g st L
        using consume_streams[OF that(2) sm[OF that(1)]] hd[OF that(1)] by simp
      show ?thesis
      proof (rule fin[of "\<lambda>g. delta_consume cfg (entry_of g (hd (g_deltas g))) (g_numel g)" grp ?p])
        show "flush_group cfg st = res_bind (res_fold (\<lambda>g. delta_consume cfg (entry_of g (hd (g_deltas g))) (g_numel g)) grp st)
           (\<lambda>s. Inr (s\<lparr>gather_group := []\<rparr>))"
          using False None by (simp add: flush_group_def grp_def)
      qed (rule H, simp_all)
    next
      case (Some hr)
      obtain h ranks where hr: "hr = (h, ranks)" by (cases hr)
      have "\<forall>g\<in>set grp. ranks \<noteq> [] \<and> hd ranks = 0 \<and> delta_wf (length ranks) g"
        using ok Some by (auto simp: placed_def one_group_def grp_def list_all_iff hr split: option.splits)
      then have wf: "ranks \<noteq> []" "hd ranks = 0" "\<forall>g\<in>set grp. delta_wf (length ranks) g"
        using hd_in_set[OF False] by auto
      have z: "zip grp (gather_v_batched (blobs_of grp (length ranks)))
          = map (\<lambda>g. (g, (concat (map fst (g_deltas g)), concat (map snd (g_deltas g))))) grp"
        using gather_v_batched_blobs[of "length ranks" grp] wf by (simp add: zip_map2 zip_same_conv_map)
      have H: "\<exists>st'. (case x of (g, d) \<Rightarrow> delta_consume cfg (entry_of g d) (g_numel g)) st = Inr st' \<and>
          streams cfg st' (L @ (case x of (g, d) \<Rightarrow> ?p g)) \<and> frame st' = frame st"
        if x: "x \<in> set (map (\<lambda>g. (g, (concat (map fst (g_deltas g)), concat (map snd (g_deltas g))))) grp)" and xs: "streams cfg st L" for x st L
      proof -
        obtain g where g: "x = (g, (concat (map fst (g_deltas g)), concat (map snd (g_deltas g))))" "g \<in> set grp"
          using x unfolding set_map by (rule imageE)
        then show ?thesis
          using consume_streams[OF xs sm[OF g(2)]] by (simp add: gathered_entry_def)
      qed
      show ?thesis
      proof (rule fin[of "\<lambda>(g, d). delta_consume cfg (entry_of g d) (g_numel g)"
          "map (\<lambda>g. (g, (concat (map fst (g_deltas g)), concat (map snd (g_deltas g))))) grp" "\<lambda>(g, d). ?p g"])
        show "flush_group cfg st = res_bind (res_fold (\<lambda>(g, d). delta_consume cfg (entry_of g d) (g_numel g))
            (map (\<lambda>g. (g, (concat (map fst (g_deltas g)), concat (map snd (g_deltas g))))) grp) st)
            (\<lambda>s. Inr (s\<lparr>gather_group := []\<rparr>))"
          using False Some wf(2) z by (simp add: flush_group_def Let_def hr grp_def[symmetric])
        show "concat (map (\<lambda>(g, d). ?p g) (map (\<lambda>g. (g, (concat (map fst (g_deltas g)), concat (map snd (g_deltas g))))) grp))
            = concat (map ?p grp)"
          by (simp add: comp_def)
      qed (rule H)
    qed
  qed
qed


definition rebuilt :: "'w::len word group_entry \<Rightarrow> 'w word delta_entry list" where
  "rebuilt g = (case rebuild g (g_deltas g) of Inr es \<Rightarrow> es | Inl _ \<Rightarrow> [])"

definition convertible :: "'w::len word sync_config \<Rightarrow> 'w word group_entry \<Rightarrow> bool" where
  "convertible cfg g \<longleftrightarrow> (let ranks = group_ranks cfg (g_pg g) in ranks \<noteq> [] \<and> hd ranks = 0 \<and> delta_wf (length ranks) g)
     \<and> (\<exists>es. rebuild g (g_deltas g) = Inr es) \<and> list_all small (rebuilt g)"

lemma consume_rebuilt_streams:
  assumes "streams cfg st L" "small e"
  shows "\<exists>st'. consume_rebuilt cfg e st = Inr st' \<and> streams cfg st' (L @ pieces (max_entry_elems cfg) e) \<and> frame st' = frame st"
proof (cases "e_idx e = []")
  case True
  then show ?thesis using assms(1) by (simp add: consume_rebuilt_def pieces_def piece_starts_def streams_frame)
next
  case False
  then show ?thesis using consume_streams[OF assms] by (simp add: consume_rebuilt_def)
qed

lemma flush_nan_streams:
  assumes s: "streams cfg st L" and ok: "list_all (convertible cfg) (nan_group st)" "one_group (nan_group st)"
  shows "\<exists>st'. flush_nan_group cfg st = Inr st'
     \<and> streams cfg st' (L @ concat (map (\<lambda>g. concat (map (pieces (max_entry_elems cfg)) (rebuilt g))) (nan_group st)))
     \<and> frame st' = (gather_group st, [], snaps st)"
proof -
  define grp where "grp = nan_group st"
  let ?p = "\<lambda>g. concat (map (pieces (max_entry_elems cfg)) (rebuilt g))"
  let ?f = "\<lambda>(g, per_rank) s. res_bind (rebuild g per_rank) (\<lambda>es. res_fold (consume_rebuilt cfg) es s)"
  let ?xs = "map (\<lambda>g. (g, g_deltas g)) grp"
  show ?thesis
  proof (cases "grp = []")
    case True
    then show ?thesis using s by (simp add: flush_nan_group_def grp_def frame_def)
  next
    case False
    define ranks where "ranks = group_ranks cfg (g_pg (hd grp))"
    have "\<forall>g\<in>set grp. ranks \<noteq> [] \<and> hd ranks = 0 \<and> delta_wf (length ranks) g"
      using ok by (auto simp: convertible_def one_group_def grp_def list_all_iff ranks_def Let_def)
    then have wf: "ranks \<noteq> []" "hd ranks = 0" "\<forall>g\<in>set grp. delta_wf (length ranks) g"
      using hd_in_set[OF False] by auto
    have z: "zip grp (gather_v_batched_grouped (blobs_of grp (length ranks))) = ?xs"
      using gather_v_batched_grouped_blobs[of "length ranks" grp] wf by (simp add: zip_map2 zip_same_conv_map)
    have H: "\<exists>st'. ?f x st = Inr st' \<and> streams cfg st' (L @ (case x of (g, d) \<Rightarrow> ?p g)) \<and> frame st' = frame st"
      if x: "x \<in> set ?xs" and xs: "streams cfg st L" for x st L
    proof -
      obtain g where g: "x = (g, g_deltas g)" "g \<in> set grp" using x unfolding set_map by (rule imageE)
      then have c: "convertible cfg g" using ok(1) by (simp add: grp_def list_all_iff)
      then have r: "rebuild g (g_deltas g) = Inr (rebuilt g)" by (auto simp: convertible_def rebuilt_def)
      have sm: "\<And>e. e \<in> set (rebuilt g) \<Longrightarrow> small e" using c by (simp add: convertible_def list_all_iff)
      show ?thesis
        using fold_streams[of "rebuilt g" cfg "consume_rebuilt cfg" "pieces (max_entry_elems cfg)" st L,
            OF consume_rebuilt_streams[OF _ sm] xs] r
        by (simp add: g(1))
    qed
    have "flush_nan_group cfg st = res_bind (res_fold ?f ?xs st) (\<lambda>s. Inr (s\<lparr>nan_group := []\<rparr>))"
      using False wf(2) by (simp add: flush_nan_group_def Let_def grp_def[symmetric] ranks_def[symmetric] z)
    moreover have "concat (map (\<lambda>(g, d). ?p g) ?xs) = concat (map ?p grp)" by (simp add: comp_def)
    ultimately show ?thesis
      using fold_streams[of ?xs cfg ?f "\<lambda>(g, d). ?p g" st L, OF H s] by (auto simp: streams_frame frame_def grp_def)
  qed
qed

text \<open>What is in the buckets or still waits in a batch.\<close>

definition waiting :: "'w::len word sync_config \<Rightarrow> 'w word send_state \<Rightarrow> 'w word delta_entry set" where
  "waiting cfg st = set (concat (map (\<lambda>g. pieces (max_entry_elems cfg) (gathered_entry g)) (gather_group st)))
     \<union> set (concat (map (\<lambda>g. concat (map (pieces (max_entry_elems cfg)) (rebuilt g))) (nan_group st)))"

definition holds :: "'w::len word sync_config \<Rightarrow> 'w word send_state \<Rightarrow> 'w word delta_entry set \<Rightarrow> bool" where
  "holds cfg st S \<longleftrightarrow> (\<exists>L. streams cfg st L \<and> S = set L \<union> waiting cfg st)
     \<and> list_all placed (gather_group st) \<and> one_group (gather_group st)
     \<and> list_all (convertible cfg) (nan_group st) \<and> one_group (nan_group st)"

lemma holdsI:
  assumes "streams cfg st L" "set L \<union> waiting cfg st = S" "list_all placed (gather_group st)" "one_group (gather_group st)"
    "list_all (convertible cfg) (nan_group st)" "one_group (nan_group st)"
  shows "holds cfg st S"
  using assms by (auto simp: holds_def)

lemma flush_group_holds:
  assumes "holds cfg st S"
  shows "\<exists>st'. flush_group cfg st = Inr st' \<and> holds cfg st' S \<and> frame st' = ([], snd (frame st))"
proof -
  obtain L where L: "streams cfg st L" "S = set L \<union> waiting cfg st"
    using assms by (auto simp: holds_def)
  obtain st' where "flush_group cfg st = Inr st'"
     "streams cfg st' (L @ concat (map (\<lambda>g. pieces (max_entry_elems cfg) (gathered_entry g)) (gather_group st)))"
     "frame st' = ([], snd (frame st))"
    using flush_group_streams[OF L(1)] assms by (auto simp: holds_def)
  moreover from this have "holds cfg st' S"
    using assms L(2) by (intro holdsI) (auto simp: holds_def waiting_def frame_def one_group_def)
  ultimately show ?thesis by blast
qed

lemma flush_nan_holds:
  assumes "holds cfg st S"
  shows "\<exists>st'. flush_nan_group cfg st = Inr st' \<and> holds cfg st' S \<and> frame st' = (gather_group st, [], snaps st)"
proof -
  obtain L where L: "streams cfg st L" "S = set L \<union> waiting cfg st"
    using assms by (auto simp: holds_def)
  obtain st' where "flush_nan_group cfg st = Inr st'"
     "streams cfg st' (L @ concat (map (\<lambda>g. concat (map (pieces (max_entry_elems cfg)) (rebuilt g))) (nan_group st)))"
     "frame st' = (gather_group st, [], snaps st)"
    using flush_nan_streams[OF L(1)] assms by (auto simp: holds_def)
  moreover from this have "holds cfg st' S"
    using assms L(2) by (intro holdsI) (auto simp: holds_def waiting_def frame_def one_group_def)
  ultimately show ?thesis by blast
qed

lemma one_group_snoc:
  assumes "one_group grp" "grp \<noteq> [] \<Longrightarrow> g_pg (hd grp) = g_pg g"
  shows "one_group (grp @ [g])"
  using assms unfolding one_group_def by (cases grp) auto

lemma one_group_last: "one_group grp \<Longrightarrow> grp \<noteq> [] \<Longrightarrow> g_pg (last grp) = g_pg (hd grp)"
  using last_in_set unfolding one_group_def by blast

lemma waiting_add:
  "waiting cfg (st\<lparr>gather_group := gather_group st @ [g]\<rparr>) = waiting cfg st \<union> set (pieces (max_entry_elems cfg) (gathered_entry g))"
  "waiting cfg (st\<lparr>nan_group := nan_group st @ [g]\<rparr>) = waiting cfg st \<union> set (concat (map (pieces (max_entry_elems cfg)) (rebuilt g)))"
  unfolding waiting_def by auto

lemma group_add_holds:
  assumes h: "holds cfg st S" and g: "placed g"
  shows "\<exists>st'. group_add cfg g st = Inr st' \<and> holds cfg st' (S \<union> set (pieces (max_entry_elems cfg) (gathered_entry g)))
     \<and> snaps st' = snaps st"
proof -
  have "\<exists>st1. (if gather_group st \<noteq> [] \<and> g_pg (last (gather_group st)) \<noteq> g_pg g then flush_group cfg st else Inr st) = Inr st1
      \<and> holds cfg st1 S \<and> snaps st1 = snaps st \<and> (gather_group st1 \<noteq> [] \<longrightarrow> g_pg (last (gather_group st1)) = g_pg g)"
    using flush_group_holds[OF h] h by (auto simp: frame_def)
  then obtain st1 where st1: "(if gather_group st \<noteq> [] \<and> g_pg (last (gather_group st)) \<noteq> g_pg g then flush_group cfg st else Inr st) = Inr st1"
      "holds cfg st1 S" "snaps st1 = snaps st" "gather_group st1 \<noteq> [] \<longrightarrow> g_pg (last (gather_group st1)) = g_pg g"
    by blast
  let ?st = "st1\<lparr>gather_group := gather_group st1 @ [g]\<rparr>"
  obtain L where L: "streams cfg st1 L" "S = set L \<union> waiting cfg st1" using st1(2) by (auto simp: holds_def)
  have hs: "list_all placed (gather_group st1)" "one_group (gather_group st1)" "list_all (convertible cfg) (nan_group st1)"
      "one_group (nan_group st1)" using st1(2) by (simp_all add: holds_def)
  have og: "one_group (gather_group st1 @ [g])"
    using one_group_snoc[OF hs(2)] one_group_last[OF hs(2)] st1(4) by metis
  have "holds cfg ?st (S \<union> set (pieces (max_entry_elems cfg) (gathered_entry g)))"
  proof (rule holdsI[of cfg ?st L])
    show "streams cfg ?st L" using L(1) by (simp add: streams_frame)
    show "set L \<union> waiting cfg ?st = S \<union> set (pieces (max_entry_elems cfg) (gathered_entry g))"
      unfolding L(2) waiting_add by (rule Un_assoc[symmetric])
  qed (use hs g og in simp_all)
  note new = this
  have run: "group_add cfg g st = (if length (gather_group ?st) \<ge> max (batch_gather cfg) 1 then flush_group cfg ?st else Inr ?st)"
    unfolding group_add_def Let_def st1(1) by simp
  obtain st2 where st2: "flush_group cfg ?st = Inr st2" "holds cfg st2 (S \<union> set (pieces (max_entry_elems cfg) (gathered_entry g)))" "snaps st2 = snaps st1"
    using flush_group_holds[OF new] by (auto simp: frame_def)
  show ?thesis
    unfolding run using st2 new st1(3) by (cases "length (gather_group ?st) \<ge> max (batch_gather cfg) 1") (simp_all only: if_True if_False, auto)
qed

lemma nan_add_holds:
  assumes h: "holds cfg st S" and g: "convertible cfg g"
  shows "\<exists>st'. nan_add cfg g st = Inr st' \<and> holds cfg st' (S \<union> set (concat (map (pieces (max_entry_elems cfg)) (rebuilt g))))
     \<and> snaps st' = snaps st"
proof -
  have "\<exists>st1. (if nan_group st \<noteq> [] \<and> g_pg (hd (nan_group st)) \<noteq> g_pg g then flush_nan_group cfg st else Inr st) = Inr st1
      \<and> holds cfg st1 S \<and> snaps st1 = snaps st \<and> (nan_group st1 \<noteq> [] \<longrightarrow> g_pg (hd (nan_group st1)) = g_pg g)"
    using flush_nan_holds[OF h] h by (auto simp: frame_def)
  then obtain st1 where st1: "(if nan_group st \<noteq> [] \<and> g_pg (hd (nan_group st)) \<noteq> g_pg g then flush_nan_group cfg st else Inr st) = Inr st1"
      "holds cfg st1 S" "snaps st1 = snaps st" "nan_group st1 \<noteq> [] \<longrightarrow> g_pg (hd (nan_group st1)) = g_pg g"
    by blast
  let ?st = "st1\<lparr>nan_group := nan_group st1 @ [g]\<rparr>"
  obtain L where L: "streams cfg st1 L" "S = set L \<union> waiting cfg st1" using st1(2) by (auto simp: holds_def)
  have hs: "list_all placed (gather_group st1)" "one_group (gather_group st1)" "list_all (convertible cfg) (nan_group st1)"
      "one_group (nan_group st1)" using st1(2) by (simp_all add: holds_def)
  have og: "one_group (nan_group st1 @ [g])"
    using one_group_snoc[OF hs(4)] st1(4) by metis
  have "holds cfg ?st (S \<union> set (concat (map (pieces (max_entry_elems cfg)) (rebuilt g))))"
  proof (rule holdsI[of cfg ?st L])
    show "streams cfg ?st L" using L(1) by (simp add: streams_frame)
    show "set L \<union> waiting cfg ?st = S \<union> set (concat (map (pieces (max_entry_elems cfg)) (rebuilt g)))"
      unfolding L(2) waiting_add by (rule Un_assoc[symmetric])
  qed (use hs g og in simp_all)
  note new = this
  have run: "nan_add cfg g st = (if length (nan_group ?st) \<ge> max (batch_gather cfg) 1 then flush_nan_group cfg ?st else Inr ?st)"
    unfolding nan_add_def Let_def st1(1) by simp
  obtain st2 where st2: "flush_nan_group cfg ?st = Inr st2" "holds cfg st2 (S \<union> set (concat (map (pieces (max_entry_elems cfg)) (rebuilt g))))" "snaps st2 = snaps st1"
    using flush_nan_holds[OF new] by (auto simp: frame_def)
  show ?thesis
    unfolding run using st2 new st1(3) by (cases "length (nan_group ?st) \<ge> max (batch_gather cfg) 1") (simp_all only: if_True if_False, auto)
qed


section \<open>The loop over the parameters\<close>

definition deltas_of :: "'w::len word sync_config \<Rightarrow> 'w word snapshots \<Rightarrow> 'w word weight
   \<Rightarrow> (nat \<times> group_handle option \<times> nat list \<times> 'w word list) list" where
  "deltas_of cfg sn w = (case res_map (rank_delta cfg sn w) [0..<world cfg] of Inr ds \<Rightarrow> ds | Inl _ \<Rightarrow> [])"

definition param_entries :: "'w::len word sync_config \<Rightarrow> 'w word snapshots \<Rightarrow> 'w word weight \<Rightarrow> 'w word delta_entry list" where
  "param_entries cfg sn w = (case to_hf (w_spec w) of
       None \<Rightarrow> [gathered_entry (placement_entry w (deltas_of cfg sn w))]
     | Some conv \<Rightarrow> rebuilt (converter_entry cfg w conv (deltas_of cfg sn w)))"

definition param_ok :: "'w::len word sync_config \<Rightarrow> 'w word snapshots \<Rightarrow> 'w word weight \<Rightarrow> bool" where
  "param_ok cfg sn w \<longleftrightarrow> (\<exists>ds. res_map (rank_delta cfg sn w) [0..<world cfg] = Inr ds) \<and>
     (case to_hf (w_spec w) of None \<Rightarrow> placed (placement_entry w (deltas_of cfg sn w))
      | Some conv \<Rightarrow> convertible cfg (converter_entry cfg w conv (deltas_of cfg sn w)))"

lemma rank_delta_snaps:
  assumes "\<And>r. sn r (w_name w) = sn' r (w_name w)"
  shows "rank_delta cfg sn w = rank_delta cfg sn' w"
proof -
  have base: "snapshot_base cfg sn r w = snapshot_base cfg sn' r w" for r
    by (simp add: snapshot_base_def assms)
  show ?thesis by (intro ext) (simp only: rank_delta_def base)
qed

definition piece_set :: "'w::len word sync_config \<Rightarrow> 'w word delta_entry list \<Rightarrow> 'w word delta_entry set" where
  "piece_set cfg es = set (concat (map (pieces (max_entry_elems cfg)) es))"

lemma send_param_holds:
  assumes h: "holds cfg st S" and p: "param_ok cfg sn w" and same: "\<And>r. snaps st r (w_name w) = sn r (w_name w)"
  shows "\<exists>st'. send_param cfg w st = Inr st' \<and> holds cfg st' (S \<union> piece_set cfg (param_entries cfg sn w))
     \<and> snaps st' = take_snapshots (world cfg) w (snaps st)"
proof -
  let ?st = "st\<lparr>snaps := take_snapshots (world cfg) w (snaps st)\<rparr>"
  have rd: "rank_delta cfg (snaps st) w = rank_delta cfg sn w"
    by (rule rank_delta_snaps) (rule same)
  obtain ds where ds: "res_map (rank_delta cfg sn w) [0..<world cfg] = Inr ds" and dd: "deltas_of cfg sn w = ds"
    using p by (auto simp: param_ok_def deltas_of_def)
  have h': "holds cfg ?st S"
    using h by (simp add: holds_def waiting_def streams_frame)
  have run: "send_param cfg w st = (case to_hf (w_spec w) of Some conv \<Rightarrow> nan_add cfg (converter_entry cfg w conv ds) ?st
        | None \<Rightarrow> group_add cfg (placement_entry w ds) ?st)"
    by (simp add: send_param_def rd ds Let_def)
  show ?thesis
  proof (cases "to_hf (w_spec w)")
    case None
    then have "placed (placement_entry w ds)" using p dd by (simp add: param_ok_def)
    from group_add_holds[OF h' this] show ?thesis
      unfolding run None by (simp add: param_entries_def None dd piece_set_def)
  next
    case (Some conv)
    then have "convertible cfg (converter_entry cfg w conv ds)" using p dd by (simp add: param_ok_def)
    from nan_add_holds[OF h' this] show ?thesis
      unfolding run Some by (simp add: param_entries_def Some dd piece_set_def)
  qed
qed

lemma take_snapshots_other: "n \<noteq> w_name w \<Longrightarrow> take_snapshots k w sn r n = sn r n"
  by (simp add: take_snapshots_def)

lemma send_params_holds:
  assumes "holds cfg st S" "list_all (param_ok cfg sn) ws" "distinct (map w_name ws)"
    "\<And>w r. w \<in> set ws \<Longrightarrow> snaps st r (w_name w) = sn r (w_name w)"
  shows "\<exists>st'. res_fold (send_param cfg) ws st = Inr st'
     \<and> holds cfg st' (S \<union> piece_set cfg (concat (map (param_entries cfg sn) ws)))
     \<and> snaps st' = fold (take_snapshots (world cfg)) ws (snaps st)"
  using assms
proof (induction ws arbitrary: st S)
  case Nil
  then show ?case by (simp add: piece_set_def)
next
  case (Cons w ws)
  obtain st1 where st1: "send_param cfg w st = Inr st1" "holds cfg st1 (S \<union> piece_set cfg (param_entries cfg sn w))"
      "snaps st1 = take_snapshots (world cfg) w (snaps st)"
    using send_param_holds[OF Cons.prems(1), of sn w] Cons.prems(2,4) by auto
  have "snaps st1 r (w_name v) = sn r (w_name v)" if "v \<in> set ws" for v r
  proof -
    have "w_name v \<noteq> w_name w" using that Cons.prems(3) by (auto simp: image_iff)
    then show ?thesis using that Cons.prems(4)[of v r] st1(3) by (simp add: take_snapshots_other)
  qed
  then obtain st2 where "res_fold (send_param cfg) ws st1 = Inr st2"
      "holds cfg st2 ((S \<union> piece_set cfg (param_entries cfg sn w)) \<union> piece_set cfg (concat (map (param_entries cfg sn) ws)))"
      "snaps st2 = fold (take_snapshots (world cfg)) ws (snaps st1)"
    using Cons.IH[OF st1(2)] Cons.prems(2,3) by auto
  then show ?case
    using st1(1,3) by (simp add: piece_set_def Un_assoc)
qed

lemma send_delta_stream:
  assumes "list_all (param_ok cfg (shard_snap s)) ws" "distinct (map w_name ws)"
  shows "\<exists>fls ess mets. send_delta cfg ws s
      = Inr (\<lparr>shard_snap = fold (take_snapshots (world cfg)) ws (shard_snap s), shard_seeded = True\<rparr>,
             stream_of (\<lambda>f b. publish_flush f False b) False fls, mets)
     \<and> list_all2 (\<lambda>f es. assemble_flush (torch_hash cfg) es = Inr f) fls ess
     \<and> set (concat ess) = piece_set cfg (concat (map (param_entries cfg (shard_snap s)) ws))
     \<and> list_all small (concat ess)"
proof -
  let ?P = "piece_set cfg (concat (map (param_entries cfg (shard_snap s)) ws))"
  have "streams cfg (send_start (shard_snap s)) []"
    unfolding streams_def send_start_def by (intro conjI exI[of _ "[]"]) simp_all
  then have "holds cfg (send_start (shard_snap s)) {}"
    by (intro holdsI[of cfg _ "[]"]) (simp_all add: send_start_def waiting_def one_group_def)
  from send_params_holds[OF this assms] obtain st1 where st1: "res_fold (send_param cfg) ws (send_start (shard_snap s)) = Inr st1"
      "holds cfg st1 ?P" "snaps st1 = fold (take_snapshots (world cfg)) ws (shard_snap s)"
    by (auto simp: send_start_def)
  obtain st2 where st2: "flush_group cfg st1 = Inr st2" "holds cfg st2 ?P" "frame st2 = ([], snd (frame st1))"
    using flush_group_holds[OF st1(2)] by blast
  obtain st3 where st3: "flush_nan_group cfg st2 = Inr st3" "holds cfg st3 ?P" "frame st3 = (gather_group st2, [], snaps st2)"
    using flush_nan_holds[OF st2(2)] by blast
  obtain L where L: "streams cfg st3 L" "?P = set L"
    using st3(2,3) st2(3) by (auto simp: holds_def waiting_def frame_def)
  obtain st4 where st4: "seal cfg st3 = Inr st4" "streams cfg st4 L" "frame st4 = frame st3" "bucket st4 = []"
    using seal_streams[OF L(1)] by blast
  obtain fls ess where f: "list_all2 (\<lambda>f es. assemble_flush (torch_hash cfg) es = Inr f) fls ess"
      "sent st4 = map (\<lambda>f. publish_flush f False False) (butlast fls)"
      "pending st4 = (if fls = [] then None else Some (last fls))" "concat ess = L" "list_all small L"
    using st4(2,4) by (auto simp: streams_def)
  define st5 where "st5 = (if pending st4 \<noteq> None then emit True st4 else st4\<lparr>sent := sent st4 @ [publish_terminal False]\<rparr>)"
  have s5: "sent st5 = stream_of (\<lambda>f b. publish_flush f False b) False fls" "snaps st5 = snaps st4"
    using f(2,3) by (auto simp: st5_def emit_def stream_of_def)
  have sn: "snaps st4 = fold (take_snapshots (world cfg)) ws (shard_snap s)"
    using st1(3) st2(3) st3(3) st4(3) by (simp add: frame_def)
  have "send_delta cfg ws s = Inr (\<lparr>shard_snap = snaps st5, shard_seeded = True\<rparr>, sent st5,
      if total_elems st5 = 0 then None else Some (changed_elems st5, total_elems st5, wire_bytes st5, n_flushes st5))"
    unfolding send_delta_def st1(1) st2(1) st3(1) st4(1) res_bind_Inr Let_def st5_def by simp
  moreover have "set (concat ess) = ?P" "list_all small (concat ess)"
    using f(4,5) L(2) by simp_all
  ultimately show ?thesis
    unfolding s5 sn using f(1) by blast
qed

section \<open>Pieces of an entry\<close>

lemma pieces_pairs:
  assumes "0 < cap" "length (e_idx e) = length (e_vals e)"
  shows "(\<Union>p\<in>set (pieces cap e). set (zip (e_idx p) (e_vals p))) = set (zip (e_idx e) (e_vals e))"
proof -
  let ?n = "length (e_idx e)"
  have z: "zip (e_idx (entry_piece cap e s)) (e_vals (entry_piece cap e s)) = slice s (min (s + cap) ?n) (zip (e_idx e) (e_vals e))" for s
    by (simp add: entry_piece_def slice_def take_zip drop_zip)
  show ?thesis
  proof (intro equalityI subsetI)
    fix x assume "x \<in> (\<Union>p\<in>set (pieces cap e). set (zip (e_idx p) (e_vals p)))"
    then show "x \<in> set (zip (e_idx e) (e_vals e))"
      by (auto simp: pieces_def z slice_def dest!: in_set_dropD in_set_takeD)
  next
    fix x assume "x \<in> set (zip (e_idx e) (e_vals e))"
    then obtain k where k: "k < ?n" "x = zip (e_idx e) (e_vals e) ! k"
      using assms(2) by (auto simp: in_set_conv_nth)
    define s where "s = k div cap * cap"
    have ks: "k = s + k mod cap" "k mod cap < cap"
      using mod_less_divisor[OF assms(1), of k] by (simp_all add: s_def)
    have s: "s \<le> k" "k < s + cap" "cap dvd s"
      using ks by (linarith, linarith, simp add: s_def)
    have "x = slice s (min (s + cap) ?n) (zip (e_idx e) (e_vals e)) ! (k - s)"
      using k s assms(2) by (simp add: slice_def)
    moreover have "k - s < length (slice s (min (s + cap) ?n) (zip (e_idx e) (e_vals e)))"
      using k s assms(2) by (simp add: slice_def)
    ultimately have "x \<in> set (zip (e_idx (entry_piece cap e s)) (e_vals (entry_piece cap e s)))"
      unfolding z by (metis nth_mem)
    moreover have "entry_piece cap e s \<in> set (pieces cap e)"
      using s k by (simp add: pieces_def piece_starts_def)
    ultimately show "x \<in> (\<Union>p\<in>set (pieces cap e). set (zip (e_idx p) (e_vals p)))" by blast
  qed
qed

lemma piece_same:
  assumes "p \<in> set (pieces cap e)" "length (e_idx e) = length (e_vals e)"
  shows "e_name p = e_name e" "e_dtype p = e_dtype e" "e_shape p = e_shape e" "length (e_idx p) = length (e_vals p)"
    "length (e_idx p) \<le> cap" "set (zip (e_idx p) (e_vals p)) \<subseteq> set (zip (e_idx e) (e_vals e))"
  using assms by (auto simp: pieces_def entry_piece_def slice_def take_zip[symmetric] drop_zip[symmetric]
      dest!: in_set_dropD in_set_takeD)


section \<open>What a parameter contributes\<close>

definition offset_of :: "nat \<Rightarrow> 'v weight \<Rightarrow> nat" where
  "offset_of r w = (case derive_placement r (w_spec w) of Inr (a, c, g) \<Rightarrow> a | Inl _ \<Rightarrow> 0)"

definition contributes_of :: "nat \<Rightarrow> 'v weight \<Rightarrow> bool" where
  "contributes_of r w = (case derive_placement r (w_spec w) of Inr (a, c, g) \<Rightarrow> c | Inl _ \<Rightarrow> False)"

definition shard_group_of :: "nat \<Rightarrow> 'v weight \<Rightarrow> group_handle option" where
  "shard_group_of r w = (case derive_placement r (w_spec w) of Inr (a, c, g) \<Rightarrow> g | Inl _ \<Rightarrow> None)"

definition owners :: "'v weight \<Rightarrow> nat list" where
  "owners w = (case shard_group_of 0 w of None \<Rightarrow> [0] | Some g \<Rightarrow> snd g)"

definition placeable :: "'v sync_config \<Rightarrow> 'v weight \<Rightarrow> bool" where
  "placeable cfg w \<longleftrightarrow> 0 < world cfg \<and> (\<forall>r<world cfg. \<exists>x. derive_placement r (w_spec w) = Inr x)"

text \<open>
  The documented layout of a sharded parameter: rank 0 leads its group (and holds a parameter without group), the shard of every contributing rank is the
  part of the whole tensor at its offset, and these parts cover it.
\<close>

definition shards_of :: "'v sync_config \<Rightarrow> (string \<Rightarrow> 'v list) \<Rightarrow> 'v weight \<Rightarrow> bool" where
  "shards_of cfg T w \<longleftrightarrow> (let full = T (w_name w) in
     placeable cfg w \<and> length full = prodshape (full_shape (w_spec w)) \<and> length full < 2 ^ 31
     \<and> owners w \<noteq> [] \<and> hd (owners w) = 0 \<and> (shard_group_of 0 w = None \<longrightarrow> contributes_of 0 w)
     \<and> (\<forall>r\<in>set (owners w). r < world cfg \<and> (contributes_of r w \<longrightarrow>
          offset_of r w + length (w_local w r) \<le> length full
          \<and> w_local w r = slice (offset_of r w) (offset_of r w + length (w_local w r)) full))
     \<and> (\<forall>i<length full. \<exists>r\<in>set (owners w). contributes_of r w \<and> offset_of r w \<le> i
          \<and> i < offset_of r w + length (w_local w r)))"

text \<open>
  A converter is a pure permutation: each of its results picks elements of the shards. The ranks of the group all
  contribute, their shards have one size, and the results for the shards are the tensors of the checkpoint.
\<close>

definition pure_permutation :: "('v list list \<Rightarrow> (string \<times> nat list \<times> 'v list) list) \<Rightarrow> nat \<Rightarrow> nat \<Rightarrow> bool" where
  "pure_permutation conv n k \<longleftrightarrow> (\<exists>perm. (\<forall>(hf, sh, tbl)\<in>set perm. length tbl = prodshape sh \<and> (\<forall>(j, i)\<in>set tbl. j < n \<and> i < k))
     \<and> (\<forall>ss. length ss = n \<longrightarrow> (\<forall>s\<in>set ss. length s = k) \<longrightarrow>
          conv ss = map (\<lambda>(hf, sh, tbl). (hf, sh, map (\<lambda>(j, i). ss ! j ! i) tbl)) perm))"

definition converts_to :: "'v sync_config \<Rightarrow> (string \<Rightarrow> 'v list) \<Rightarrow> 'v weight
   \<Rightarrow> ('v list list \<Rightarrow> (string \<times> nat list \<times> 'v list) list) \<Rightarrow> bool" where
  "converts_to cfg T w conv \<longleftrightarrow> (let ranks = group_ranks cfg (shard_group_of 0 w); k = length (w_local w 0) in
     placeable cfg w \<and> ranks \<noteq> [] \<and> hd ranks = 0 \<and> k < 2 ^ 31
     \<and> (\<forall>r\<in>set ranks. r < world cfg \<and> contributes_of r w \<and> length (w_local w r) = k)
     \<and> pure_permutation conv (length ranks) k
     \<and> (\<forall>(hf, sh, fl)\<in>set (conv (map (w_local w) ranks)). T hf = fl \<and> length fl < 2 ^ 31))"

definition exports :: "'v sync_config \<Rightarrow> (string \<Rightarrow> 'v list) \<Rightarrow> 'v weight \<Rightarrow> bool" where
  "exports cfg T w \<longleftrightarrow> (case to_hf (w_spec w) of None \<Rightarrow> shards_of cfg T w | Some conv \<Rightarrow> converts_to cfg T w conv)"

definition exported_names :: "'v sync_config \<Rightarrow> 'v weight \<Rightarrow> string list" where
  "exported_names cfg w = (case to_hf (w_spec w) of None \<Rightarrow> [w_name w]
     | Some conv \<Rightarrow> map fst (conv (map (w_local w) (group_ranks cfg (shard_group_of 0 w)))))"

text \<open>The same parameter at two syncs; its older shards are in the snapshots.\<close>

definition same_shards :: "'v weight \<Rightarrow> 'v weight \<Rightarrow> bool" where
  "same_shards w0 w \<longleftrightarrow> w_name w0 = w_name w \<and> w_dtype w0 = w_dtype w \<and> w_spec w0 = w_spec w
     \<and> (\<forall>r. length (w_local w0 r) = length (w_local w r))"

definition follows :: "'v sync_config \<Rightarrow> 'v snapshots \<Rightarrow> 'v weight \<Rightarrow> 'v weight \<Rightarrow> bool" where
  "follows cfg sn w0 w \<longleftrightarrow> same_shards w0 w \<and> (\<forall>r<world cfg. sn r (w_name w) = Some (w_local w0 r))"

definition changed_at :: "'v weight \<Rightarrow> 'v weight \<Rightarrow> nat \<Rightarrow> nat list" where
  "changed_at w0 w r = (if contributes_of r w then [i \<leftarrow> [0..<length (w_local w r)]. w_local w r ! i \<noteq> w_local w0 r ! i] else [])"

definition byte_width :: "'w::len itself \<Rightarrow> bool" where
  "byte_width w \<longleftrightarrow> LENGTH('w) \<in> {8, 16, 32, 64}"

lemma rank_delta_eq:
  fixes w :: "'w::len word weight"
  assumes "follows cfg sn w0 w" "placeable cfg w" "r < world cfg" "byte_width TYPE('w)"
  shows "rank_delta cfg sn w r
     = Inr (offset_of r w, shard_group_of r w, changed_at w0 w r, map (\<lambda>i. w_local w r ! i) (changed_at w0 w r))"
proof -
  obtain a c g where d: "derive_placement r (w_spec w) = Inr (a, c, g)"
    using assms(2,3) by (metis placeable_def prod_cases3)
  have "snapshot_base cfg sn r w = w_local w0 r"
    using assms(1,3) by (simp add: snapshot_base_def follows_def same_shards_def)
  then show ?thesis
    using assms(1,4) d by (simp add: rank_delta_def offset_of_def shard_group_of_def contributes_of_def changed_at_def
        shard_delta_indices_def byte_width_def follows_def same_shards_def Let_def)
qed

lemma deltas_of_eq:
  fixes w :: "'w::len word weight"
  assumes "follows cfg sn w0 w" "placeable cfg w" "byte_width TYPE('w)"
  shows "res_map (rank_delta cfg sn w) [0..<world cfg] = Inr (deltas_of cfg sn w)"
    "fst (snd (hd (deltas_of cfg sn w))) = shard_group_of 0 w"
    "r < world cfg \<Longrightarrow> deltas_of cfg sn w ! r
       = (offset_of r w, shard_group_of r w, changed_at w0 w r, map (\<lambda>i. w_local w r ! i) (changed_at w0 w r))"
proof -
  have m: "res_map (rank_delta cfg sn w) [0..<world cfg] = Inr (map (\<lambda>r. (offset_of r w, shard_group_of r w, changed_at w0 w r,
      map (\<lambda>i. w_local w r ! i) (changed_at w0 w r))) [0..<world cfg])"
    by (rule res_map_all_Inr) (simp add: rank_delta_eq[OF assms(1,2) _ assms(3)])
  then show "res_map (rank_delta cfg sn w) [0..<world cfg] = Inr (deltas_of cfg sn w)"
    by (simp add: deltas_of_def)
  show "fst (snd (hd (deltas_of cfg sn w))) = shard_group_of 0 w"
    using m assms(2) by (simp add: deltas_of_def placeable_def hd_map upt_conv_Cons)
  show "r < world cfg \<Longrightarrow> deltas_of cfg sn w ! r
       = (offset_of r w, shard_group_of r w, changed_at w0 w r, map (\<lambda>i. w_local w r ! i) (changed_at w0 w r))"
    using m by (simp add: deltas_of_def)
qed

text \<open>The exact delta of a tensor: its changed positions, each with its new value.\<close>

definition exact_delta :: "(string \<Rightarrow> 'v list) \<Rightarrow> (string \<Rightarrow> 'v list) \<Rightarrow> 'v delta_entry \<Rightarrow> bool" where
  "exact_delta T0 T e \<longleftrightarrow> prodshape (e_shape e) = length (T (e_name e)) \<and> length (T (e_name e)) < 2 ^ 31
     \<and> length (T0 (e_name e)) = length (T (e_name e)) \<and> length (e_idx e) = length (e_vals e)
     \<and> set (zip (e_idx e) (e_vals e)) = (\<lambda>i. (word_of_nat i, T (e_name e) ! i))
         ` {i. i < length (T (e_name e)) \<and> T0 (e_name e) ! i \<noteq> T (e_name e) ! i}"

lemma zip_concat_map:
  "(\<And>x. x \<in> set xs \<Longrightarrow> length (f x) = length (g x)) \<Longrightarrow> zip (concat (map f xs)) (concat (map g xs)) = concat (map (\<lambda>x. zip (f x) (g x)) xs)"
  by (induction xs) (simp_all add: zip_append)

lemma placement_exact:
  fixes w :: "'w::len word weight"
  assumes fol: "follows cfg sn w0 w" and old: "shards_of cfg T0 w0" and new: "shards_of cfg T w"
    and bw: "byte_width TYPE('w)"
  defines "g \<equiv> placement_entry w (deltas_of cfg sn w)"
  shows "placed g" "exact_delta T0 T (gathered_entry g)" "e_name (gathered_entry g) = w_name w" "e_dtype (gathered_entry g) = w_dtype w"
proof -
  let ?c = "changed_at w0 w" and ?n = "w_name w"
  have pl: "placeable cfg w" using new by (simp add: shards_of_def Let_def)
  note d = deltas_of_eq[OF fol pl bw]
  have own: "\<And>r. r \<in> set (owners w) \<Longrightarrow> r < world cfg" using new by (simp add: shards_of_def Let_def)
  have same: "offset_of r w0 = offset_of r w" "contributes_of r w0 = contributes_of r w" "owners w0 = owners w" "w_name w0 = ?n" for r
    using fol by (simp_all add: follows_def same_shards_def offset_of_def contributes_of_def owners_def shard_group_of_def)
  have gd: "g_deltas g = map (\<lambda>r. (map (\<lambda>i. word_of_nat (i + offset_of r w)) (?c r), map (\<lambda>i. w_local w r ! i) (?c r))) (owners w)"
    using d(2,3) own by (auto simp: g_def placement_entry_def Let_def owners_def split: option.splits)
  have pg: "g_pg g = shard_group_of 0 w" "g_shape g = full_shape (w_spec w)"
    using d(2) by (simp_all add: g_def placement_entry_def Let_def)
  show "placed g"
    using new pg gd by (auto simp: placed_def delta_wf_def shards_of_def Let_def owners_def split: option.splits)
  show nm: "e_name (gathered_entry g) = w_name w" "e_dtype (gathered_entry g) = w_dtype w"
    by (simp_all add: gathered_entry_def entry_of_def g_def placement_entry_def Let_def)
  have sh: "e_shape (gathered_entry g) = full_shape (w_spec w)"
    by (simp add: gathered_entry_def entry_of_def pg)
  let ?I = "\<lambda>r. map (\<lambda>i. word_of_nat (i + offset_of r w)) (?c r)" and ?V = "\<lambda>r. map (\<lambda>i. w_local w r ! i) (?c r)"
  have iv: "e_idx (gathered_entry g) = concat (map ?I (owners w))" "e_vals (gathered_entry g) = concat (map ?V (owners w))"
    by (simp_all add: gathered_entry_def entry_of_def gd comp_def)
  have len: "length (e_idx (gathered_entry g)) = length (e_vals (gathered_entry g))"
    unfolding iv by (simp add: length_concat comp_def)
  have z: "zip (e_idx (gathered_entry g)) (e_vals (gathered_entry g))
      = concat (map (\<lambda>r. map (\<lambda>i. (word_of_nat (i + offset_of r w), w_local w r ! i)) (?c r)) (owners w))"
    unfolding iv by (subst zip_concat_map) (simp_all add: zip_map_map zip_same_conv_map comp_def)
  have loc: "w_local w r ! i = T ?n ! (i + offset_of r w)" "w_local w0 r ! i = T0 ?n ! (i + offset_of r w)"
      "i + offset_of r w < length (T ?n)"
    if r: "r \<in> set (owners w)" "contributes_of r w" "i < length (w_local w r)" for r i
  proof -
    have "w_local w r = slice (offset_of r w) (offset_of r w + length (w_local w r)) (T ?n)"
      and b: "offset_of r w + length (w_local w r) \<le> length (T ?n)"
      using new r unfolding shards_of_def Let_def by blast+
    from arg_cong[OF this(1), of "\<lambda>x. x ! i"] show "w_local w r ! i = T ?n ! (i + offset_of r w)"
      using r(3) b by (simp add: slice_def add.commute)
    show "i + offset_of r w < length (T ?n)" using b r(3) by simp
    have l0: "length (w_local w0 r) = length (w_local w r)" using fol by (simp add: follows_def same_shards_def)
    have "w_local w0 r = slice (offset_of r w) (offset_of r w + length (w_local w0 r)) (T0 ?n)"
      and b: "offset_of r w + length (w_local w0 r) \<le> length (T0 ?n)"
      using old r(1,2) unfolding shards_of_def Let_def same by blast+
    from arg_cong[OF this(1), of "\<lambda>x. x ! i"] show "w_local w0 r ! i = T0 ?n ! (i + offset_of r w)"
      using r(3) b l0 by (simp add: slice_def add.commute)
  qed
  have "set (zip (e_idx (gathered_entry g)) (e_vals (gathered_entry g)))
      = (\<lambda>i. (word_of_nat i, T ?n ! i)) ` {i. i < length (T ?n) \<and> T0 ?n ! i \<noteq> T ?n ! i}"
  proof (intro equalityI subsetI)
    fix x assume "x \<in> set (zip (e_idx (gathered_entry g)) (e_vals (gathered_entry g)))"
    then obtain r i where r: "r \<in> set (owners w)" "i \<in> set (?c r)" "x = (word_of_nat (i + offset_of r w), w_local w r ! i)"
      unfolding z by auto
    then have c: "contributes_of r w" "i < length (w_local w r)" "w_local w r ! i \<noteq> w_local w0 r ! i"
      by (auto simp: changed_at_def split: if_splits)
    then show "x \<in> (\<lambda>i. (word_of_nat i, T ?n ! i)) ` {i. i < length (T ?n) \<and> T0 ?n ! i \<noteq> T ?n ! i}"
      using loc[OF r(1) c(1,2)] r(3) by (intro image_eqI[of _ _ "i + offset_of r w"]) auto
  next
    fix x assume "x \<in> (\<lambda>i. (word_of_nat i :: 32 word, T ?n ! i)) ` {i. i < length (T ?n) \<and> T0 ?n ! i \<noteq> T ?n ! i}"
    then obtain i where i: "i < length (T ?n)" "T0 ?n ! i \<noteq> T ?n ! i" "x = (word_of_nat i, T ?n ! i)" by auto
    obtain r where r: "r \<in> set (owners w)" "contributes_of r w" "offset_of r w \<le> i" "i < offset_of r w + length (w_local w r)"
      using new i(1) by (auto simp: shards_of_def Let_def)
    define k where "k = i - offset_of r w"
    have k: "i = k + offset_of r w" "k < length (w_local w r)" using r by (simp_all add: k_def)
    have "k \<in> set (?c r)"
      using loc[OF r(1,2) k(2)] i(2) k r(2) by (simp add: changed_at_def)
    then show "x \<in> set (zip (e_idx (gathered_entry g)) (e_vals (gathered_entry g)))"
      unfolding z using r(1) loc(1)[OF r(1,2) k(2)] i(3) k(1) by force
  qed
  moreover have "length (T0 ?n) = length (T ?n)"
    using old new fol by (simp add: shards_of_def Let_def follows_def same_shards_def)
  ultimately show "exact_delta T0 T (gathered_entry g)"
    using len new by (simp add: exact_delta_def nm sh shards_of_def Let_def)
qed


text \<open>A converter that picks elements carries the mask of the shards to its results.\<close>

lemma res_map_map: "res_map f (map h xs) = res_map (\<lambda>x. f (h x)) xs"
  by (induction xs) simp_all

lemma index_copy_changes:
  assumes "length new = k" "length old = k" "k < 2 ^ 31"
  defines "c \<equiv> [i \<leftarrow> [0..<k]. new ! i \<noteq> old ! i]"
  shows "index_copy (replicate k x) (map sint (map word_of_nat c :: 32 word list)) (map (\<lambda>i. new ! i) c)
     = Inr (map (\<lambda>i. if new ! i \<noteq> old ! i then new ! i else x) [0..<k])"
proof -
  let ?w = "map word_of_nat c :: 32 word list"
  have u: "unat (word_of_nat i :: 32 word) = i" if "i < k" for i
    using that assms(3) by (simp add: unat_of_nat take_bit_nat_eq_self)
  have c: "\<forall>i\<in>set c. i < k" by (simp add: c_def)
  have "index_copy (replicate k x) (map sint ?w) (map (\<lambda>i. new ! i) c) = Inr (write_at ?w (map (\<lambda>i. new ! i) c) (replicate k x))"
    using u c assms(3) by (intro index_copy_write) auto
  moreover have "write_at ?w (map (\<lambda>i. new ! i) c) (replicate k x) ! i = (if new ! i \<noteq> old ! i then new ! i else x)" if "i < k" for i
  proof -
    have "write_at ?w (map (\<lambda>i. new ! i) c) (replicate k x) ! i
        = (if i \<in> unat ` set ?w then new ! i else replicate k x ! i)"
      using that u c by (intro write_at_cell) (auto simp: zip_map_map zip_same_conv_map)
    moreover have "unat ` set ?w = set c"
      using u c by (auto simp: image_image)
    ultimately show ?thesis
      using that by (simp add: c_def)
  qed
  ultimately show ?thesis
    by (auto intro!: nth_equalityI)
qed

lemma converter_exact:
  fixes w :: "'w::len word weight"
  assumes fol: "follows cfg sn w0 w" and old: "converts_to cfg T0 w0 conv" and new: "converts_to cfg T w conv"
    and bw: "byte_width TYPE('w)" and dt: "dtype_fits (w_dtype w) TYPE('w)"
    and fin: "\<forall>n\<in>set (map fst (conv (map (w_local w) (group_ranks cfg (shard_group_of 0 w))))). list_all (\<lambda>v. \<not> is_nan (w_dtype w) v) (T n)"
  defines "g \<equiv> converter_entry cfg w conv (deltas_of cfg sn w)"
  shows "convertible cfg g" "list_all (exact_delta T0 T) (rebuilt g)"
    "map e_name (rebuilt g) = map fst (conv (map (w_local w) (group_ranks cfg (shard_group_of 0 w))))"
    "list_all (\<lambda>e. e_dtype e = w_dtype w) (rebuilt g)"
proof -
  define ranks where "ranks = group_ranks cfg (shard_group_of 0 w)"
  define k where "k = length (w_local w 0)"
  let ?c = "changed_at w0 w" and ?q = "quiet_nan (w_dtype w) :: 'w word"
  have u: "placeable cfg w" "ranks \<noteq> []" "hd ranks = 0" "k < 2 ^ 31" "pure_permutation conv (length ranks) k"
      "\<forall>r\<in>set ranks. r < world cfg \<and> contributes_of r w \<and> length (w_local w r) = k"
      "\<forall>(hf, sh, fl)\<in>set (conv (map (w_local w) ranks)). T hf = fl \<and> length fl < 2 ^ 31"
    using new unfolding converts_to_def Let_def ranks_def[symmetric] k_def[symmetric] by (auto simp only:)
  have nw: "placeable cfg w" "ranks \<noteq> []" "hd ranks = 0" "k < 2 ^ 31" "pure_permutation conv (length ranks) k"
      "\<And>r. r \<in> set ranks \<Longrightarrow> r < world cfg \<and> contributes_of r w \<and> length (w_local w r) = k"
      "\<And>hf sh fl. (hf, sh, fl) \<in> set (conv (map (w_local w) ranks)) \<Longrightarrow> T hf = fl \<and> length fl < 2 ^ 31"
    using u(1-6) bspec[OF u(7)] by auto
  have l0: "length (w_local w0 r) = length (w_local w r)" for r using fol by (simp add: follows_def same_shards_def)
  have gr: "shard_group_of 0 w0 = shard_group_of 0 w" using fol by (simp add: shard_group_of_def follows_def same_shards_def)
  have "\<forall>(hf, sh, fl)\<in>set (conv (map (w_local w0) ranks)). T0 hf = fl \<and> length fl < 2 ^ 31"
    using old unfolding converts_to_def Let_def gr ranks_def[symmetric] by (elim conjE)
  then have od: "\<And>hf sh fl. (hf, sh, fl) \<in> set (conv (map (w_local w0) ranks)) \<Longrightarrow> T0 hf = fl"
    by auto
  note d = deltas_of_eq[OF fol nw(1) bw]
  have gd: "g_deltas g = map (\<lambda>r. (map word_of_nat (?c r), map (\<lambda>i. w_local w r ! i) (?c r))) ranks"
    using d(2,3) nw(6) by (auto simp: g_def converter_entry_def Let_def ranks_def)
  have gp: "g_pg g = shard_group_of 0 w" "g_shape g = [k]" "g_dtype g = w_dtype w" "g_to_hf g = conv"
    using d(2) by (simp_all add: g_def converter_entry_def Let_def k_def)
  define bufs where "bufs = map (\<lambda>r. map (\<lambda>i. if w_local w r ! i \<noteq> w_local w0 r ! i then w_local w r ! i else ?q) [0..<k]) ranks"
  have one: "index_copy (replicate k ?q) (map sint (map word_of_nat (?c r) :: 32 word list)) (map (\<lambda>i. w_local w r ! i) (?c r))
      = Inr (map (\<lambda>i. if w_local w r ! i \<noteq> w_local w0 r ! i then w_local w r ! i else ?q) [0..<k])" if "r \<in> set ranks" for r
    using index_copy_changes[of "w_local w r" k "w_local w0 r" ?q] nw(4) nw(6)[OF that] l0[of r] by (simp add: changed_at_def)
  have bf: "res_map (\<lambda>(gi, gv). index_copy (replicate k ?q) (map sint gi) gv) (g_deltas g) = Inr bufs"
  proof -
    have "res_map (\<lambda>r. index_copy (replicate k ?q) (map sint (map word_of_nat (?c r) :: 32 word list)) (map (\<lambda>i. w_local w r ! i) (?c r))) rs
        = Inr (map (\<lambda>r. map (\<lambda>i. if w_local w r ! i \<noteq> w_local w0 r ! i then w_local w r ! i else ?q) [0..<k]) rs)" if "set rs \<subseteq> set ranks" for rs
      using that one by (intro res_map_all_Inr) auto
    then show ?thesis
      unfolding gd bufs_def res_map_map by simp
  qed
  define E where "E = (\<lambda>(hf :: string, shape :: nat list, fl :: 'w word list). let pos = [i \<leftarrow> [0..<length fl]. \<not> is_nan (w_dtype w) (fl ! i)]
     in \<lparr>e_name = hf, e_dtype = w_dtype w, e_shape = shape, e_idx = map word_of_nat pos, e_vals = map (\<lambda>i. fl ! i) pos\<rparr>)"
  have rb: "rebuild g (g_deltas g) = Inr (map E (conv bufs))"
    unfolding rebuild_def gp by (simp add: prodshape_def bf E_def Let_def)
  then have rbt: "rebuilt g = map E (conv bufs)" by (simp add: rebuilt_def)
  obtain perm where tb: "\<And>hf sh tbl. (hf, sh, tbl) \<in> set perm \<Longrightarrow> length tbl = prodshape sh \<and> (\<forall>(j, i)\<in>set tbl. j < length ranks \<and> i < k)"
      and pm: "\<And>ss. length ss = length ranks \<Longrightarrow> (\<forall>s\<in>set ss. length s = k) \<Longrightarrow>
          conv ss = map (\<lambda>(hf, sh, tbl). (hf, sh, map (\<lambda>(j, i). ss ! j ! i) tbl)) perm"
    using nw(5) unfolding pure_permutation_def by blast
  have cv: "conv bufs = map (\<lambda>(hf, sh, tbl). (hf, sh, map (\<lambda>(j, i). bufs ! j ! i) tbl)) perm"
      "conv (map (w_local w) ranks) = map (\<lambda>(hf, sh, tbl). (hf, sh, map (\<lambda>(j, i). map (w_local w) ranks ! j ! i) tbl)) perm"
      "conv (map (w_local w0) ranks) = map (\<lambda>(hf, sh, tbl). (hf, sh, map (\<lambda>(j, i). map (w_local w0) ranks ! j ! i) tbl)) perm"
    using nw(6) l0 by (auto intro!: pm simp: bufs_def)
  have ex: "exact_delta T0 T (E (hf, sh, map (\<lambda>(j, i). bufs ! j ! i) tbl)) \<and> small (E (hf, sh, map (\<lambda>(j, i). bufs ! j ! i) tbl))"
    if p: "(hf, sh, tbl) \<in> set perm" for hf sh tbl
  proof -
    let ?fl = "map (\<lambda>(j, i). bufs ! j ! i) tbl"
    have "(hf, sh, map (\<lambda>(j, i). map (w_local w) ranks ! j ! i) tbl) \<in> set (conv (map (w_local w) ranks))"
      unfolding cv(2) using p by force
    from nw(7)[OF this] have T: "T hf = map (\<lambda>(j, i). map (w_local w) ranks ! j ! i) tbl" "length tbl < 2 ^ 31" by simp_all
    have "(hf, sh, map (\<lambda>(j, i). map (w_local w0) ranks ! j ! i) tbl) \<in> set (conv (map (w_local w0) ranks))"
      unfolding cv(3) using p by force
    from od[OF this] have T0: "T0 hf = map (\<lambda>(j, i). map (w_local w0) ranks ! j ! i) tbl" .
    have nn: "list_all (\<lambda>v. \<not> is_nan (w_dtype w) v) (T hf)"
      using fin p by (force simp: ranks_def[symmetric] cv(2))
    have m: "?fl ! m = (if T hf ! m \<noteq> T0 hf ! m then T hf ! m else ?q)" if "m < length tbl" for m
    proof -
      obtain j i where ji: "tbl ! m = (j, i)" by (cases "tbl ! m")
      then have "(j, i) \<in> set tbl" using that by (metis nth_mem)
      then have "j < length ranks" "i < k" using tb[OF p] by auto
      then show ?thesis using that ji by (simp add: T(1) T0 bufs_def)
    qed
    have nan: "(\<not> is_nan (w_dtype w) (?fl ! m)) = (T0 hf ! m \<noteq> T hf ! m)" if "m < length tbl" for m
      using m[OF that] nn quiet_nan_is_nan[OF dt] that T(1) by (auto simp: list_all_length)
    have pos: "[i \<leftarrow> [0..<length ?fl]. \<not> is_nan (w_dtype w) (?fl ! i)] = [i \<leftarrow> [0..<length tbl]. T0 hf ! i \<noteq> T hf ! i]"
      using nan by (intro filter_cong) simp_all
    have vals: "map (\<lambda>i. ?fl ! i) [i \<leftarrow> [0..<length tbl]. T0 hf ! i \<noteq> T hf ! i] = map (\<lambda>i. T hf ! i) [i \<leftarrow> [0..<length tbl]. T0 hf ! i \<noteq> T hf ! i]"
      by (rule map_cong[OF refl]) (subst m, auto)
    have E: "E (hf, sh, ?fl) = \<lparr>e_name = hf, e_dtype = w_dtype w, e_shape = sh,
        e_idx = map word_of_nat [i \<leftarrow> [0..<length tbl]. T0 hf ! i \<noteq> T hf ! i],
        e_vals = map (\<lambda>i. T hf ! i) [i \<leftarrow> [0..<length tbl]. T0 hf ! i \<noteq> T hf ! i]\<rparr>"
      unfolding E_def case_prod_conv Let_def pos vals ..
    show ?thesis
      unfolding E using tb[OF p] T(1,2) T0 by (auto simp: exact_delta_def small_def zip_map_map zip_same_conv_map)
  qed
  show "list_all (exact_delta T0 T) (rebuilt g)"
    unfolding rbt cv(1) list_all_iff using ex by fastforce
  have "list_all small (rebuilt g)"
    unfolding rbt cv(1) list_all_iff using ex by fastforce
  then show "convertible cfg g"
    using rb nw(2,3) by (auto simp: convertible_def Let_def gp(1) ranks_def[symmetric] delta_wf_def gd)
  show "map e_name (rebuilt g) = map fst (conv (map (w_local w) (group_ranks cfg (shard_group_of 0 w))))"
    unfolding rbt ranks_def[symmetric] cv(1,2) by (simp add: comp_def E_def Let_def case_prod_beta)
  show "list_all (\<lambda>e. e_dtype e = w_dtype w) (rebuilt g)"
    unfolding rbt by (auto simp: list_all_iff E_def Let_def)
qed


section \<open>A sync\<close>

definition trainer_version :: "'w::len word sync_config \<Rightarrow> string set \<Rightarrow> (string \<Rightarrow> 'w word list) \<Rightarrow> 'w word weight list \<Rightarrow> bool" where
  "trainer_version cfg X T ws \<longleftrightarrow> distinct (map w_name ws) \<and> set (concat (map (exported_names cfg) ws)) = X
     \<and> (\<forall>w\<in>set ws. exports cfg T w \<and> dtype_fits (w_dtype w) TYPE('w)
          \<and> (\<forall>n\<in>set (exported_names cfg w). list_all (\<lambda>v. \<not> is_nan (w_dtype w) v) (T n)))"

lemma unat_position: "i < 2 ^ 31 \<Longrightarrow> unat (word_of_nat i :: 32 word) = i"
  by (simp add: unat_of_nat take_bit_nat_eq_self)

lemma param_exact:
  fixes w :: "'w::len word weight"
  assumes fol: "follows cfg sn w0 w" and old: "exports cfg T0 w0" and new: "exports cfg T w" and bw: "byte_width TYPE('w)"
    and dt: "dtype_fits (w_dtype w) TYPE('w)" and fin: "\<forall>n\<in>set (exported_names cfg w). list_all (\<lambda>v. \<not> is_nan (w_dtype w) v) (T n)"
  shows "param_ok cfg sn w" "\<forall>e\<in>set (param_entries cfg sn w). exact_delta T0 T e \<and> e_dtype e = w_dtype w"
    "map e_name (param_entries cfg sn w) = exported_names cfg w"
proof -
  have sp: "w_spec w0 = w_spec w" using fol by (simp add: follows_def same_shards_def)
  have "param_ok cfg sn w \<and> (\<forall>e\<in>set (param_entries cfg sn w). exact_delta T0 T e \<and> e_dtype e = w_dtype w)
     \<and> map e_name (param_entries cfg sn w) = exported_names cfg w"
  proof (cases "to_hf (w_spec w)")
    case None
    then have o: "shards_of cfg T0 w0" and n: "shards_of cfg T w" using old new sp by (simp_all add: exports_def)
    then have "placeable cfg w" by (simp add: shards_of_def Let_def)
    from deltas_of_eq(1)[OF fol this bw] placement_exact[OF fol o n bw] show ?thesis
      by (simp add: param_ok_def param_entries_def exported_names_def None)
  next
    case (Some conv)
    then have o: "converts_to cfg T0 w0 conv" and n: "converts_to cfg T w conv" using old new sp by (simp_all add: exports_def)
    then have "placeable cfg w" by (simp add: converts_to_def Let_def)
    from deltas_of_eq(1)[OF fol this bw] converter_exact[OF fol o n bw dt] fin show ?thesis
      by (auto simp: param_ok_def param_entries_def exported_names_def Some list_all_iff)
  qed
  then show "param_ok cfg sn w" "\<forall>e\<in>set (param_entries cfg sn w). exact_delta T0 T e \<and> e_dtype e = w_dtype w"
    "map e_name (param_entries cfg sn w) = exported_names cfg w" by blast+
qed

lemma piece_sound:
  fixes T :: "string \<Rightarrow> 'w::len word list"
  assumes e: "exact_delta T0 T e" "p \<in> set (pieces cap e)" and fin: "list_all (\<lambda>v. \<not> is_nan (e_dtype e) v) (T (e_name e))"
    and dt: "dtype_fits (e_dtype e) TYPE('w)"
  shows "entry_fits T0 p" "\<forall>(j, v)\<in>set (zip (e_idx p) (e_vals p)). v = T (e_name p) ! unat j"
proof -
  note ps = piece_same[OF e(2)]
  have len: "length (e_idx e) = length (e_vals e)" using e(1) by (simp add: exact_delta_def)
  have pr: "v = T (e_name e) ! unat j \<and> unat j < length (T (e_name e))" if "(j, v) \<in> set (zip (e_idx p) (e_vals p))" for j v
  proof -
    have "(j, v) \<in> set (zip (e_idx e) (e_vals e))" using that ps(6)[OF len] by blast
    then obtain i where "j = word_of_nat i" "v = T (e_name e) ! i" "i < length (T (e_name e))"
      using e(1) by (auto simp: exact_delta_def)
    then show ?thesis using e(1) unat_position[of i] by (simp add: exact_delta_def)
  qed
  then show "\<forall>(j, v)\<in>set (zip (e_idx p) (e_vals p)). v = T (e_name p) ! unat j"
    using ps(1)[OF len] by auto
  have pl: "length (e_idx p) = length (e_vals p)" using ps(4)[OF len] .
  have idx: "unat j < length (T (e_name e))" if "j \<in> set (e_idx p)" for j
    using that pr pl by (metis in_set_impl_in_set_zip1)
  have val: "\<not> is_nan (e_dtype e) v" if "v \<in> set (e_vals p)" for v
    using that pr pl fin by (metis in_set_impl_in_set_zip2 list_all_length)
  show "entry_fits T0 p"
    using e(1) ps(1-3)[OF len] pl idx val dt by (auto simp: entry_fits_def entry_ok_def exact_delta_def list_all_iff)
qed

lemma fold_take_snapshots:
  "distinct (map w_name ws) \<Longrightarrow> w \<in> set ws \<Longrightarrow> r < n \<Longrightarrow> fold (take_snapshots n) ws sn r (w_name w) = Some (w_local w r)"
proof (induction ws arbitrary: sn rule: rev_induct)
  case (snoc v ws)
  show ?case
  proof (cases "w_name w = w_name v")
    case True
    then have "w = v" using snoc.prems by (auto simp: image_iff)
    then show ?thesis using snoc.prems(3) by (simp add: take_snapshots_def)
  next
    case False
    then show ?thesis using snoc by (auto simp: take_snapshots_other)
  qed
qed simp

lemma delta_sync_step:
  fixes T :: "string \<Rightarrow> 'w::len word list"
  assumes lay: "layout_ok slots" and old: "shows_weights slots N T0 M"
    and cap: "0 < max_entry_elems cfg" and bw: "byte_width TYPE('w)"
    and fol: "list_all2 (follows cfg (shard_snap s)) ws0 ws"
    and v0: "trainer_version cfg X T0 ws0" and v: "trainer_version cfg X T ws"
    and out: "\<And>n. n \<notin> X \<Longrightarrow> T n = T0 n" and seeded: "shard_seeded s"
  shows "\<exists>s' msgs mets M'. send_weights cfg ws s = Inr (s', msgs, mets)
     \<and> receive_and_apply (torch_hash cfg) limit slots (msgs @ rest) M = Some (Inr (M', rest))
     \<and> shows_weights slots N T M' \<and> shard_seeded s'
     \<and> (\<forall>w\<in>set ws. \<forall>r<world cfg. shard_snap s' r (w_name w) = Some (w_local w r))"
proof -
  let ?sn = "shard_snap s"
  have each: "param_ok cfg ?sn w \<and> (\<forall>e\<in>set (param_entries cfg ?sn w). exact_delta T0 T e \<and> e_dtype e = w_dtype w)
      \<and> map e_name (param_entries cfg ?sn w) = exported_names cfg w" if w: "w \<in> set ws" for w
  proof -
    obtain w0 where "w0 \<in> set ws0" "follows cfg ?sn w0 w"
      using fol w by (metis list_all2_conv_all_nth in_set_conv_nth)
    then show ?thesis
      using param_exact[of cfg ?sn w0 w T0 T] v0 v w bw unfolding trainer_version_def by blast
  qed
  have dist: "distinct (map w_name ws)" using v by (simp add: trainer_version_def)
  have "list_all (param_ok cfg ?sn) ws" using each by (simp add: list_all_iff)
  from send_delta_stream[OF this dist] obtain fls ess mets where st:
      "send_delta cfg ws s = Inr (\<lparr>shard_snap = fold (take_snapshots (world cfg)) ws ?sn, shard_seeded = True\<rparr>,
          stream_of (\<lambda>f b. publish_flush f False b) False fls, mets)"
      "list_all2 (\<lambda>f es. assemble_flush (torch_hash cfg) es = Inr f) fls ess"
      "set (concat ess) = piece_set cfg (concat (map (param_entries cfg ?sn) ws))" by blast
  have from_piece: "\<exists>w e. w \<in> set ws \<and> e \<in> set (param_entries cfg ?sn w) \<and> p \<in> set (pieces (max_entry_elems cfg) e)"
    if "p \<in> set (concat ess)" for p
    using that unfolding st(3) piece_set_def by auto
  have fit: "entry_fits T0 p \<and> (\<forall>(j, v)\<in>set (zip (e_idx p) (e_vals p)). v = T (e_name p) ! unat j)"
    if "p \<in> set (concat ess)" for p
  proof -
    obtain w e where we: "w \<in> set ws" "e \<in> set (param_entries cfg ?sn w)" "p \<in> set (pieces (max_entry_elems cfg) e)"
      using from_piece[OF \<open>p \<in> set (concat ess)\<close>] by blast
    have "e_name e \<in> set (exported_names cfg w)"
      using each[OF we(1)] we(2) by (metis image_eqI list.set_map)
    then have "list_all (\<lambda>v. \<not> is_nan (e_dtype e) v) (T (e_name e))" "dtype_fits (e_dtype e) TYPE('w)"
      using v we(1,2) each[OF we(1)] by (auto simp: trainer_version_def)
    then show ?thesis
      using piece_sound[OF _ we(3)] each[OF we(1)] we(2) by blast
  qed
  have "list_all (entry_fits T0) (concat ess)" using fit by (simp add: list_all_iff)
  from apply_delta_stream[OF lay old st(2) this] obtain M' where M':
      "receive_and_apply (torch_hash cfg) limit slots (stream_of (\<lambda>fl b. publish_flush fl False b) False fls @ rest) M = Some (Inr (M', rest))"
      "shows_weights slots N (fold apply_entry (concat ess) T0) M'" by blast
  have lenT: "length (T0 n) = length (T n)" for n
  proof (cases "n \<in> X")
    case True
    then obtain w where w: "w \<in> set ws" "n \<in> set (exported_names cfg w)" using v by (auto simp: trainer_version_def)
    then obtain e where "e \<in> set (param_entries cfg ?sn w)" "e_name e = n" using each[OF w(1)] by (metis imageE list.set_map)
    then show ?thesis using each[OF w(1)] by (auto simp: exact_delta_def)
  qed (simp add: out)
  have "fold apply_entry (concat ess) T0 = T"
  proof (rule apply_entries_exact[OF lenT])
    fix e assume "e \<in> set (concat ess)"
    from fit[OF this] show "length (e_idx e) = length (e_vals e) \<and> (\<forall>(j, v)\<in>set (zip (e_idx e) (e_vals e)). v = T (e_name e) ! unat j)"
      by (simp add: entry_fits_def entry_ok_def)
  next
    fix n i assume i: "i < length (T0 n)" "T0 n ! i \<noteq> T n ! i"
    then have "n \<in> X" using out by fastforce
    then obtain w where w: "w \<in> set ws" "n \<in> set (exported_names cfg w)" using v by (auto simp: trainer_version_def)
    then obtain e where e: "e \<in> set (param_entries cfg ?sn w)" "e_name e = n" using each[OF w(1)] by (metis imageE list.set_map)
    then have x: "exact_delta T0 T e" using each[OF w(1)] by blast
    then have "(word_of_nat i, T n ! i) \<in> set (zip (e_idx e) (e_vals e))"
      using i e(2) by (auto simp: exact_delta_def)
    then obtain p where p: "p \<in> set (pieces (max_entry_elems cfg) e)" "(word_of_nat i, T n ! i) \<in> set (zip (e_idx p) (e_vals p))"
      using pieces_pairs[OF cap, of e] x by (auto simp: exact_delta_def)
    have "p \<in> set (concat ess)" unfolding st(3) piece_set_def using w(1) e(1) p(1) by auto
    moreover have "e_name p = n" using piece_same(1)[OF p(1)] x e(2) by (simp add: exact_delta_def)
    moreover have "i \<in> unat ` set (e_idx p)"
      using set_zip_leftD[OF p(2)] unat_position[of i] i(1) x e(2) lenT[of n] by (force simp: exact_delta_def)
    ultimately show "\<exists>e\<in>set (concat ess). e_name e = n \<and> i \<in> unat ` set (e_idx e)" by blast
  qed
  then show ?thesis
    using st(1) M' seeded fold_take_snapshots[OF dist] by (simp add: send_weights_def)
qed


section \<open>The dense first sync reaches the rollout\<close>

abbreviation "dense_pub cfg \<equiv> \<lambda>ds b. publish_dense_flush (torch_hash cfg) (dense_manifest 0 ds) (concat (map d_flat ds)) b"

definition seeds :: "'w::len word sync_config \<Rightarrow> 'w word seed_state \<Rightarrow> 'w word dense_entry list \<Rightarrow> bool" where
  "seeds cfg st D \<longleftrightarrow> (\<exists>dss. sd_sent st = map (\<lambda>ds. dense_pub cfg ds False) (butlast dss) \<and>
     sd_pending st = (if dss = [] then None else Some (dense_manifest 0 (last dss), concat (map d_flat (last dss))))
     \<and> concat dss @ sd_bucket st = D)"

lemma seed_seal_seeds:
  assumes "seeds cfg st D"
  shows "seeds cfg (seed_seal cfg st) D \<and> sd_bucket (seed_seal cfg st) = [] \<and> sd_snaps (seed_seal cfg st) = sd_snaps st"
proof (cases "sd_bucket st = []")
  case True
  then show ?thesis using assms by (simp add: seed_seal_def)
next
  case False
  obtain dss where d: "sd_sent st = map (\<lambda>ds. dense_pub cfg ds False) (butlast dss)"
     "sd_pending st = (if dss = [] then None else Some (dense_manifest 0 (last dss), concat (map d_flat (last dss))))"
     "concat dss @ sd_bucket st = D"
    using assms by (auto simp: seeds_def)
  have e: "sd_sent (seed_emit cfg False st) = map (\<lambda>ds. dense_pub cfg ds False) dss" "sd_bucket (seed_emit cfg False st) = sd_bucket st"
      "sd_snaps (seed_emit cfg False st) = sd_snaps st"
    using d(1,2) by (cases dss rule: rev_cases; simp add: seed_emit_def)+
  have "seeds cfg (seed_seal cfg st) D"
    unfolding seeds_def using False e d(3) by (intro exI[of _ "dss @ [sd_bucket st]"]) (simp add: seed_seal_def)
  then show ?thesis using False e(3) by (simp add: seed_seal_def)
qed

lemma bucket_dense_seeds:
  assumes "seeds cfg st D"
  shows "seeds cfg (bucket_dense cfg d st) (D @ [d]) \<and> sd_snaps (bucket_dense cfg d st) = sd_snaps st"
proof -
  define st1 where "st1 = st\<lparr>sd_total := sd_total st + length (d_flat d), sd_bucket := sd_bucket st @ [d],
     sd_bytes := sd_bytes st + length (d_flat d) * element_size TYPE('a)\<rparr>"
  have "seeds cfg st1 (D @ [d])" "sd_snaps st1 = sd_snaps st"
    using assms by (auto simp: seeds_def st1_def)
  then show ?thesis
    using seed_seal_seeds[of cfg st1] unfolding bucket_dense_def Let_def st1_def[symmetric] by auto
qed

lemma bucket_all_seeds:
  "seeds cfg st D \<Longrightarrow> seeds cfg (fold (\<lambda>x. bucket_dense cfg (f x)) xs st) (D @ map f xs)
     \<and> sd_snaps (fold (\<lambda>x. bucket_dense cfg (f x)) xs st) = sd_snaps st"
proof (induction xs arbitrary: st D)
  case (Cons x xs)
  then show ?case using bucket_dense_seeds[OF Cons.prems, of "f x"] Cons.IH[of "bucket_dense cfg (f x) st" "D @ [f x]"] by simp
qed simp

definition dense_entries :: "'w::len word sync_config \<Rightarrow> (string \<Rightarrow> 'w word list) \<Rightarrow> 'w word weight \<Rightarrow> 'w word dense_entry list" where
  "dense_entries cfg T w = (case to_hf (w_spec w) of
       None \<Rightarrow> [\<lparr>d_name = w_name w, d_dtype = w_dtype w, d_shape = full_shape (w_spec w), d_flat = T (w_name w)\<rparr>]
     | Some conv \<Rightarrow> map (\<lambda>(hf, sh, fl). \<lparr>d_name = hf, d_dtype = w_dtype w, d_shape = sh, d_flat = fl\<rparr>)
         (conv (map (w_local w) (group_ranks cfg (shard_group_of 0 w)))))"

lemma placeable_map:
  assumes "placeable cfg w"
  shows "res_map (\<lambda>r. derive_placement r (w_spec w)) [0..<world cfg]
     = Inr (map (\<lambda>r. (offset_of r w, contributes_of r w, shard_group_of r w)) [0..<world cfg])"
proof (rule res_map_all_Inr)
  fix r assume "r \<in> set [0..<world cfg]"
  then obtain a c g where "derive_placement r (w_spec w) = Inr (a, c, g)"
    using assms by (metis placeable_def prod_cases3 set_upt atLeastLessThan_iff)
  then show "derive_placement r (w_spec w) = Inr (offset_of r w, contributes_of r w, shard_group_of r w)"
    by (simp add: offset_of_def contributes_of_def shard_group_of_def)
qed

lemma placement_gathers:
  fixes w :: "'w::len word weight"
  assumes "shards_of cfg T w" and u: "\<And>n. length (uninit cfg n) = n"
  shows "gather_dense (uninit cfg) (prodshape (full_shape (w_spec w)))
      (map (\<lambda>r. (if contributes_of r w then w_local w r else [], if contributes_of r w then offset_of r w else 0)) (owners w))
     = Inr (T (w_name w))"
proof -
  let ?full = "T (w_name w)"
  have len: "length ?full = prodshape (full_shape (w_spec w))"
    and r: "\<forall>r\<in>set (owners w). r < world cfg \<and> (contributes_of r w \<longrightarrow> offset_of r w + length (w_local w r) \<le> length ?full
          \<and> w_local w r = slice (offset_of r w) (offset_of r w + length (w_local w r)) ?full)"
    and c: "\<forall>i<length ?full. \<exists>r\<in>set (owners w). contributes_of r w \<and> offset_of r w \<le> i \<and> i < offset_of r w + length (w_local w r)"
    using assms(1) unfolding shards_of_def Let_def by (auto simp only:)
  show ?thesis
    unfolding len[symmetric]
  proof (rule gather_dense_full[OF _ _ u])
    show "\<forall>(v, a)\<in>set (map (\<lambda>r. (if contributes_of r w then w_local w r else [], if contributes_of r w then offset_of r w else 0)) (owners w)).
        v \<noteq> [] \<longrightarrow> a + length v \<le> length ?full \<and> v = slice a (a + length v) ?full"
      using r by auto
    show "\<forall>i<length ?full. \<exists>(v, a)\<in>set (map (\<lambda>r. (if contributes_of r w then w_local w r else [], if contributes_of r w then offset_of r w else 0)) (owners w)).
        a \<le> i \<and> i < a + length v"
      using c by fastforce
  qed
qed

lemma no_group_offset: "derive_placement r spec = Inr (a, c, None) \<Longrightarrow> a = 0"
  by (auto simp: derive_placement_def Let_def res_simps split: option.splits if_splits)

lemma unsharded_local:
  assumes "shards_of cfg T w" "shard_group_of 0 w = None"
  shows "w_local w 0 = T (w_name w)"
proof -
  let ?full = "T (w_name w)"
  have ow: "owners w = [0]" using assms(2) by (simp add: owners_def)
  have c: "contributes_of 0 w" and pl: "placeable cfg w" using assms by (simp_all add: shards_of_def Let_def)
  then have o: "offset_of 0 w = 0"
    using assms(2) no_group_offset[of 0 "w_spec w"] by (auto simp: offset_of_def shard_group_of_def contributes_of_def placeable_def split: sum.splits)
  have l: "length (w_local w 0) \<le> length ?full" "w_local w 0 = slice 0 (length (w_local w 0)) ?full"
      "\<forall>i<length ?full. i < length (w_local w 0)"
    using assms(1) c o unfolding shards_of_def Let_def ow by auto
  have "length ?full \<le> length (w_local w 0)"
    using l(3) by (meson less_irrefl not_less)
  then have "length (w_local w 0) = length ?full" using l(1) by simp
  then show ?thesis using l(2) by (simp add: slice_def)
qed

lemma seed_param_seeds:
  fixes w :: "'w::len word weight"
  assumes s: "seeds cfg st D" and ex: "exports cfg T w" and u: "\<And>n. length (uninit cfg n) = n"
  shows "\<exists>st'. seed_param cfg w st = Inr st' \<and> seeds cfg st' (D @ dense_entries cfg T w)
     \<and> sd_snaps st' = take_snapshots (world cfg) w (sd_snaps st)"
proof -
  let ?st = "st\<lparr>sd_snaps := take_snapshots (world cfg) w (sd_snaps st)\<rparr>"
  let ?pls = "map (\<lambda>r. (offset_of r w, contributes_of r w, shard_group_of r w)) [0..<world cfg]"
  have s1: "seeds cfg ?st D" using s by (simp add: seeds_def)
  have pl: "placeable cfg w" using ex by (auto simp: exports_def shards_of_def converts_to_def Let_def split: option.splits)
  have hd: "hd ?pls = (offset_of 0 w, contributes_of 0 w, shard_group_of 0 w)"
    using pl by (simp add: placeable_def hd_map upt_conv_Cons)
  show ?thesis
  proof (cases "to_hf (w_spec w)")
    case None
    then have sh: "shards_of cfg T w" using ex by (simp add: exports_def)
    let ?d = "\<lparr>d_name = w_name w, d_dtype = w_dtype w, d_shape = full_shape (w_spec w), d_flat = T (w_name w)\<rparr>"
    have len: "length (T (w_name w)) = prodshape (full_shape (w_spec w))" and own: "hd (owners w) = 0"
        "\<forall>r\<in>set (owners w). r < world cfg"
      using sh unfolding shards_of_def Let_def by (auto simp only:)
    have fin: ?thesis if "seed_param cfg w st = Inr (bucket_dense cfg ?d ?st)"
      using that bucket_dense_seeds[OF s1, of ?d] by (simp add: dense_entries_def None)
    show ?thesis
    proof (cases "shard_group_of 0 w")
      case N: None
      have "seed_param cfg w st = (if contributes_of 0 w
          then res_bind (viewed (full_shape (w_spec w)) (w_local w 0)) (\<lambda>t. Inr (bucket_dense cfg (?d\<lparr>d_flat := t\<rparr>) ?st)) else Inr ?st)"
        unfolding seed_param_def placeable_map[OF pl] by (simp add: None N hd Let_def)
      moreover have c: "contributes_of 0 w" using sh N by (simp add: shards_of_def Let_def)
      moreover have "viewed (full_shape (w_spec w)) (w_local w 0) = Inr (T (w_name w))"
        using unsharded_local[OF sh N] len by (simp add: viewed_def)
      ultimately show ?thesis by (intro fin) simp
    next
      case (Some g)
      obtain h ranks where g: "g = (h, ranks)" by (cases g)
      have ow: "owners w = ranks" by (simp add: owners_def Some g)
      have m: "map (\<lambda>r. (if fst (snd (?pls ! r)) then w_local w r else [], if fst (snd (?pls ! r)) then fst (?pls ! r) else 0)) ranks
         = map (\<lambda>r. (if contributes_of r w then w_local w r else [], if contributes_of r w then offset_of r w else 0)) (owners w)"
        using own(2) by (simp add: ow)
      have "seed_param cfg w st = Inr (bucket_dense cfg ?d ?st)"
        unfolding seed_param_def placeable_map[OF pl] res_bind_Inr Let_def hd
        using placement_gathers[OF sh u, folded m] own(1) len by (simp add: None Some g ow viewed_def)
      then show ?thesis by (rule fin)
    qed
  next
    case (Some conv)
    then have cv: "converts_to cfg T w conv" using ex by (simp add: exports_def)
    define ranks where "ranks = group_ranks cfg (shard_group_of 0 w)"
    have r: "hd ranks = 0" "\<forall>r\<in>set ranks. r < world cfg \<and> contributes_of r w \<and> length (w_local w r) = length (w_local w 0)"
      using cv unfolding converts_to_def Let_def ranks_def[symmetric] by (auto simp only:)
    let ?E = "\<lambda>(hf, sh, fl). \<lparr>d_name = hf, d_dtype = w_dtype w, d_shape = sh, d_flat = fl\<rparr>"
    have m: "map (\<lambda>r. if fst (snd (?pls ! r)) then w_local w r else []) ranks = map (w_local w) ranks"
      using r(2) by simp
    have "seed_param cfg w st = Inr (fold (\<lambda>x. bucket_dense cfg (?E x)) (conv (map (w_local w) ranks)) ?st)"
      unfolding seed_param_def placeable_map[OF pl] res_bind_Inr Let_def hd using r(1)
      by (simp add: Some ranks_def[symmetric] gather_shards_same m case_prod_beta')
    then show ?thesis
      using bucket_all_seeds[OF s1, of ?E "conv (map (w_local w) ranks)"] by (simp add: dense_entries_def Some ranks_def)
  qed
qed


lemma seed_params_seeds:
  assumes "seeds cfg st D" "\<forall>w\<in>set ws. exports cfg T w" "\<And>n. length (uninit cfg n) = n"
  shows "\<exists>st'. res_fold (seed_param cfg) ws st = Inr st' \<and> seeds cfg st' (D @ concat (map (dense_entries cfg T) ws))
     \<and> sd_snaps st' = fold (take_snapshots (world cfg)) ws (sd_snaps st)"
  using assms
proof (induction ws arbitrary: st D)
  case Nil
  then show ?case by simp
next
  case (Cons w ws)
  obtain st1 where "seed_param cfg w st = Inr st1" "seeds cfg st1 (D @ dense_entries cfg T w)"
      "sd_snaps st1 = take_snapshots (world cfg) w (sd_snaps st)"
    using seed_param_seeds[OF Cons.prems(1) _ Cons.prems(3)] Cons.prems(2) by fastforce
  then show ?case
    using Cons.IH[of st1 "D @ dense_entries cfg T w"] Cons.prems(2,3) by auto
qed

lemma dense_entries_fit:
  assumes "exports cfg T w"
  shows "list_all (\<lambda>d. d_flat d = T (d_name d) \<and> length (T (d_name d)) = prodshape (d_shape d)) (dense_entries cfg T w)"
    "map d_name (dense_entries cfg T w) = exported_names cfg w"
proof -
  have "list_all (\<lambda>d. d_flat d = T (d_name d) \<and> length (T (d_name d)) = prodshape (d_shape d)) (dense_entries cfg T w)
     \<and> map d_name (dense_entries cfg T w) = exported_names cfg w"
  proof (cases "to_hf (w_spec w)")
    case None
    then show ?thesis using assms by (simp add: exports_def dense_entries_def exported_names_def shards_of_def Let_def)
  next
    case (Some conv)
    then have cv: "converts_to cfg T w conv" using assms by (simp add: exports_def)
    define ranks where "ranks = group_ranks cfg (shard_group_of 0 w)"
    define k where "k = length (w_local w 0)"
    have u: "\<forall>r\<in>set ranks. length (w_local w r) = k" "pure_permutation conv (length ranks) k"
        "\<forall>(hf, sh, fl)\<in>set (conv (map (w_local w) ranks)). T hf = fl \<and> length fl < 2 ^ 31"
      using cv unfolding converts_to_def Let_def ranks_def[symmetric] k_def[symmetric] by (auto simp only:)
    obtain perm where tb: "\<forall>(hf, sh, tbl)\<in>set perm. length tbl = prodshape sh \<and> (\<forall>(j, i)\<in>set tbl. j < length ranks \<and> i < k)"
      and pm: "\<And>ss. length ss = length ranks \<Longrightarrow> (\<forall>s\<in>set ss. length s = k) \<Longrightarrow>
          conv ss = map (\<lambda>(hf, sh, tbl). (hf, sh, map (\<lambda>(j, i). ss ! j ! i) tbl)) perm"
      using u(2) unfolding pure_permutation_def by blast
    have "conv (map (w_local w) ranks) = map (\<lambda>(hf, sh, tbl). (hf, sh, map (\<lambda>(j, i). map (w_local w) ranks ! j ! i) tbl)) perm"
      using u(1) by (intro pm) auto
    then have l: "\<forall>(hf, sh, fl)\<in>set (conv (map (w_local w) ranks)). length fl = prodshape sh"
      using tb by auto
    have "T hf = fl \<and> length fl = prodshape sh" if "(hf, sh, fl) \<in> set (conv (map (w_local w) ranks))" for hf sh fl
      using bspec[OF u(3) that] bspec[OF l that] by simp
    then show ?thesis
      by (fastforce simp: dense_entries_def exported_names_def Some ranks_def[symmetric] list_all_iff)
  qed
  then show "list_all (\<lambda>d. d_flat d = T (d_name d) \<and> length (T (d_name d)) = prodshape (d_shape d)) (dense_entries cfg T w)"
    "map d_name (dense_entries cfg T w) = exported_names cfg w" by blast+
qed

lemma dense_seed_step:
  fixes T :: "string \<Rightarrow> 'w::len word list"
  assumes lay: "layout_ok slots" and sz: "sized slots T M" and v: "trainer_version cfg X T ws"
    and u: "\<And>n. length (uninit cfg n) = n" and new: "\<not> shard_seeded s"
  shows "\<exists>s' msgs mets M'. send_weights cfg ws s = Inr (s', msgs, mets)
     \<and> receive_and_apply (torch_hash cfg) limit slots (msgs @ rest) M = Some (Inr (M', rest))
     \<and> shows_weights slots X T M' \<and> shard_seeded s'
     \<and> (\<forall>w\<in>set ws. \<forall>r<world cfg. shard_snap s' r (w_name w) = Some (w_local w r))"
proof -
  let ?D = "concat (map (dense_entries cfg T) ws)"
  have dist: "distinct (map w_name ws)" and ex: "\<forall>w\<in>set ws. exports cfg T w"
    and X: "set (concat (map (exported_names cfg) ws)) = X"
    using v by (simp_all add: trainer_version_def)
  have "seeds cfg (seed_start (shard_snap s)) []"
    unfolding seeds_def seed_start_def by (intro exI[of _ "[]"]) simp
  from seed_params_seeds[OF this ex u] obtain st1 where st1: "res_fold (seed_param cfg) ws (seed_start (shard_snap s)) = Inr st1"
      "seeds cfg st1 ?D" "sd_snaps st1 = fold (take_snapshots (world cfg)) ws (shard_snap s)"
    by (auto simp: seed_start_def)
  define st2 where "st2 = seed_seal cfg st1"
  have s2: "seeds cfg st2 ?D" "sd_bucket st2 = []" "sd_snaps st2 = sd_snaps st1"
    using seed_seal_seeds[OF st1(2)] by (simp_all add: st2_def)
  then obtain dss where d: "sd_sent st2 = map (\<lambda>ds. dense_pub cfg ds False) (butlast dss)"
     "sd_pending st2 = (if dss = [] then None else Some (dense_manifest 0 (last dss), concat (map d_flat (last dss))))"
     "concat dss = ?D" by (auto simp: seeds_def)
  define st3 where "st3 = (if sd_pending st2 \<noteq> None then seed_emit cfg True st2
      else st2\<lparr>sd_sent := sd_sent st2 @ [publish_terminal True]\<rparr>)"
  have s3: "sd_sent st3 = stream_of (dense_pub cfg) True dss" "sd_snaps st3 = sd_snaps st2"
    using d(1,2) by (auto simp: st3_def seed_emit_def stream_of_def)
  have run: "\<exists>mets. send_weights cfg ws s = Inr (\<lparr>shard_snap = sd_snaps st3, shard_seeded = True\<rparr>, sd_sent st3, mets)"
    using new unfolding send_weights_def send_dense_seed_def st1(1) res_bind_Inr Let_def st2_def[symmetric] st3_def[symmetric] by simp
  have fit: "list_all (\<lambda>d. d_flat d = T (d_name d) \<and> length (T (d_name d)) = prodshape (d_shape d)) (concat dss)"
    unfolding d(3) using dense_entries_fit(1) ex by (fastforce simp: list_all_iff)
  have "shows_weights slots {} T M" using sz by (simp add: shows_weights_def)
  from apply_dense_stream[OF lay this fit, where H = "torch_hash cfg" and limit = limit and rest = rest] obtain M' where M':
      "receive_and_apply (torch_hash cfg) limit slots (stream_of (dense_pub cfg) True dss @ rest) M = Some (Inr (M', rest))"
      "shows_weights slots (d_name ` set (concat dss)) T M'" by auto
  have "d_name ` set (concat dss) = X"
  proof -
    have "d_name ` set (concat dss) = (\<Union>w\<in>set ws. set (map d_name (dense_entries cfg T w)))"
      unfolding d(3) by auto
    also have "\<dots> = (\<Union>w\<in>set ws. set (exported_names cfg w))"
      using dense_entries_fit(2) ex by (metis (no_types, lifting) SUP_cong)
    finally show ?thesis using X by simp
  qed
  then show ?thesis
    using run M' s3 s2(3) st1(3) fold_take_snapshots[OF dist] by auto
qed

text \<open>
  Syncs of a run: the trainer sends its parameters, a rollout worker receives the stream and applies it. \<open>None\<close> is a
  worker that waits for ever.
\<close>

fun run_syncs ::
  "'w::len word sync_config \<Rightarrow> nat \<Rightarrow> (string \<Rightarrow> slot list) \<Rightarrow> 'w word weight list list \<Rightarrow> 'w word sender \<Rightarrow> 'w live
   \<Rightarrow> ('w word sender \<times> 'w live) result option" where
  "run_syncs cfg limit slots [] s M = Some (Inr (s, M))"
| "run_syncs cfg limit slots (ws # wss) s M =
     (case send_weights cfg ws s of
        Inl e \<Rightarrow> Some (Inl e)
      | Inr (s', msgs, mets) \<Rightarrow>
          (case receive_and_apply (torch_hash cfg) limit slots msgs M of
             None \<Rightarrow> None
           | Some (Inl e) \<Rightarrow> Some (Inl e)
           | Some (Inr (M', rest)) \<Rightarrow> run_syncs cfg limit slots wss s' M'))"

definition next_version :: "string set \<Rightarrow> (string \<Rightarrow> 'v list) \<times> 'v weight list \<Rightarrow> (string \<Rightarrow> 'v list) \<times> 'v weight list \<Rightarrow> bool" where
  "next_version X v0 v \<longleftrightarrow> list_all2 same_shards (snd v0) (snd v) \<and> (\<forall>n. n \<notin> X \<longrightarrow> fst v n = fst v0 n)"

lemma run_deltas:
  fixes versions :: "((string \<Rightarrow> 'w::len word list) \<times> 'w word weight list) list"
  assumes lay: "layout_ok slots" and cap: "0 < max_entry_elems cfg" and bw: "byte_width TYPE('w)"
    and "\<forall>v\<in>set (v0 # versions). trainer_version cfg X (fst v) (snd v)" "successively (next_version X) (v0 # versions)"
    and "shows_weights slots X (fst v0) M" "shard_seeded s"
    and "\<forall>w\<in>set (snd v0). \<forall>r<world cfg. shard_snap s r (w_name w) = Some (w_local w r)"
  shows "\<exists>s' M'. run_syncs cfg limit slots (map snd versions) s M = Some (Inr (s', M'))
     \<and> shows_weights slots X (fst (last (v0 # versions))) M'"
  using assms(4-)
proof (induction versions arbitrary: v0 s M)
  case Nil
  then show ?case by simp
next
  case (Cons v vs)
  have nv: "list_all2 same_shards (snd v0) (snd v)" "\<And>n. n \<notin> X \<Longrightarrow> fst v n = fst v0 n"
    using Cons.prems(2) by (simp_all add: next_version_def)
  have "list_all2 (follows cfg (shard_snap s)) (snd v0) (snd v)"
    unfolding list_all2_conv_all_nth
  proof (intro conjI allI impI)
    show len: "length (snd v0) = length (snd v)" using nv(1) by (simp add: list_all2_conv_all_nth)
    fix i assume "i < length (snd v0)"
    then have "same_shards (snd v0 ! i) (snd v ! i)" "snd v0 ! i \<in> set (snd v0)"
      using nv(1) by (simp_all add: list_all2_conv_all_nth)
    then show "follows cfg (shard_snap s) (snd v0 ! i) (snd v ! i)"
      using Cons.prems(5) unfolding follows_def same_shards_def by metis
  qed
  from delta_sync_step[OF lay Cons.prems(3) cap bw this _ _ nv(2) Cons.prems(4), where rest = "[]" and limit = limit and X = X]
  obtain s' msgs mets M' where step: "send_weights cfg (snd v) s = Inr (s', msgs, mets)"
     "receive_and_apply (torch_hash cfg) limit slots msgs M = Some (Inr (M', []))"
     "shows_weights slots X (fst v) M'" "shard_seeded s'"
     "\<forall>w\<in>set (snd v). \<forall>r<world cfg. shard_snap s' r (w_name w) = Some (w_local w r)"
    using Cons.prems(1) by auto
  have "successively (next_version X) (v # vs)" using Cons.prems(2) by simp
  from Cons.IH[OF _ this step(3-5)] Cons.prems(1) step(1,2) show ?case by auto
qed

text \<open>
  C38: a rollout that is seeded by the first sync and then follows any number of sparse syncs holds exactly the
  weights of the trainer after each of them: whatever its live parameters were at the start, however the parameters
  are sharded over the ranks (one placed shard per rank, replicated, or converted from the shards of a group) and
  placed in the serving model (fused and narrowed destinations), for any bucket size, batch of gathers and cap on
  entries, every sync is sent and applied without an error or a wait and leaves every cell that is loaded from an
  exported tensor with the current value. The serving layout fills no cell twice, shards cover their tensor,
  converters are pure permutations and no exported value is NaN.
\<close>

theorem delta_sync_tracks_trainer:
  fixes versions :: "((string \<Rightarrow> 'w::len word list) \<times> 'w word weight list) list"
  assumes "versions \<noteq> []"
    and "\<forall>v\<in>set versions. trainer_version cfg X (fst v) (snd v)"
    and "successively (next_version X) versions"
    and "layout_ok slots" and "sized slots (fst (hd versions)) M"
    and "0 < max_entry_elems cfg" and "byte_width TYPE('w)"
    and "\<And>n. length (uninit cfg n) = n" and "\<not> shard_seeded s"
  shows "\<exists>s' M'. run_syncs cfg limit slots (map snd versions) s M = Some (Inr (s', M'))
     \<and> shows_weights slots X (fst (last versions)) M'"
proof -
  obtain v vs where vs: "versions = v # vs" using assms(1) by (cases versions) auto
  obtain s' msgs mets M' where seed: "send_weights cfg (snd v) s = Inr (s', msgs, mets)"
     "receive_and_apply (torch_hash cfg) limit slots msgs M = Some (Inr (M', []))"
     "shows_weights slots X (fst v) M'" "shard_seeded s'"
     "\<forall>w\<in>set (snd v). \<forall>r<world cfg. shard_snap s' r (w_name w) = Some (w_local w r)"
    using dense_seed_step[OF assms(4) _ _ assms(8,9), of "fst v" M X "snd v" limit "[]"] assms(2,5) by (auto simp: vs)
  from run_deltas[OF assms(4,6,7) _ _ seed(3-5), of vs limit] assms(2,3) show ?thesis
    using seed(1,2) by (auto simp: vs)
qed


text \<open>Two ranks, one sharded parameter and one that a converter interleaves; bfloat16 words.\<close>

definition demo_mesh :: device_mesh where
  "demo_mesh = \<lparr>mesh_coordinate = (\<lambda>r. Some [r]), mesh_group = (\<lambda>r d. (7, [0, 1])), dim0_offset = (\<lambda>r shape pls. 2 * r)\<rparr>"

definition demo_conv :: "16 word list list \<Rightarrow> (string \<times> nat list \<times> 16 word list) list" where
  "demo_conv ss = [(''q'', [2], [ss ! 1 ! 0, ss ! 0 ! 0])]"

definition demo_weights :: "16 word list \<Rightarrow> 16 word list \<Rightarrow> 16 word weight list" where
  "demo_weights a q =
    [\<lparr>w_name = ''a'', w_dtype = ''bfloat16'', w_local = (\<lambda>r. if r = 0 then [a ! 0, a ! 1] else [a ! 2, a ! 3]),
      w_spec = \<lparr>full_shape = [4], spec_mesh = Some demo_mesh, spec_placements = [Shard 0], to_hf = None\<rparr>\<rparr>,
     \<lparr>w_name = ''b'', w_dtype = ''bfloat16'', w_local = (\<lambda>r. if r = 0 then [q ! 1] else [q ! 0]),
      w_spec = \<lparr>full_shape = [2], spec_mesh = Some demo_mesh, spec_placements = [Shard 0], to_hf = Some demo_conv\<rparr>\<rparr>]"

definition demo_tensors :: "16 word list \<Rightarrow> 16 word list \<Rightarrow> string \<Rightarrow> 16 word list" where
  "demo_tensors a q n = (if n = ''a'' then a else if n = ''q'' then q else [])"

definition demo_slots :: "string \<Rightarrow> slot list" where
  "demo_slots n = (if n = ''a'' then [\<lparr>dst_param = ''p'', dst_at = 0, src_at = 1, slot_len = 3\<rparr>]
     else if n = ''q'' then [\<lparr>dst_param = ''p'', dst_at = 3, src_at = 0, slot_len = 2\<rparr>] else [])"

definition demo_sync :: "16 word sync_config" where
  "demo_sync = \<lparr>world = 2, bucket_size = 16, batch_gather = 1, max_entry_elems = 1,
     torch_hash = \<lparr>hash_bytes = (\<lambda>xs. int (length xs)), hash_values = (\<lambda>xs. int (length xs))\<rparr>, uninit = (\<lambda>n. replicate n 77)\<rparr>"

definition demo_sender :: "16 word sender" where
  "demo_sender = \<lparr>shard_snap = (\<lambda>r n. None), shard_seeded = False\<rparr>"

lemma demo_placement:
  "spec_mesh spec = Some demo_mesh \<Longrightarrow> spec_placements spec = [Shard 0]
   \<Longrightarrow> derive_placement r spec = Inr (2 * r * prodshape (tl (full_shape spec)), True, Some (7, [0, 1]))"
  by (simp add: derive_placement_def demo_mesh_def is_shard_def upt_conv_Cons)

lemma all_less_2: "(\<forall>r<2. P r) \<longleftrightarrow> P 0 \<and> P (Suc 0)"
  by (auto simp: less_Suc_eq numeral_2_eq_2)

lemma all_less_4: "(\<forall>r<4. P r) \<longleftrightarrow> P 0 \<and> P (Suc 0) \<and> P 2 \<and> P (3 :: nat)"
  by (auto simp: numeral_eq_Suc less_Suc_eq)

lemma demo_permutation: "pure_permutation demo_conv 2 1"
  unfolding pure_permutation_def demo_conv_def
  by (intro exI[of _ "[(''q'', [2], [(1, 0), (0, 0)])]"]) (simp add: prodshape_def)

lemma demo_version:
  assumes "a = [a0, a1, a2, a3]" "q = [q0, q1]" "list_all (\<lambda>v. \<not> is_nan ''bfloat16'' v) (a @ q)"
  shows "trainer_version demo_sync {''a'', ''q''} (demo_tensors a q) (demo_weights a q)"
  using assms demo_permutation
  by (simp add: trainer_version_def demo_weights_def exported_names_def exports_def shards_of_def converts_to_def Let_def
      shard_group_of_def contributes_of_def offset_of_def owners_def placeable_def demo_placement demo_sync_def group_ranks_def
      demo_tensors_def demo_conv_def prodshape_def dtype_fits_def mantissa_bits_def all_less_2 all_less_4 slice_def
      insert_commute, auto simp: numeral_2_eq_2)

lemma demo_layout: "layout_ok demo_slots"
  by (auto simp: layout_ok_def covers_def demo_slots_def split: if_splits)

theorem delta_sync_tracks_trainer_witness:
  "\<exists>s' M'. run_syncs demo_sync 6 demo_slots (map snd
       [(demo_tensors [1, 2, 3, 4] [5, 6], demo_weights [1, 2, 3, 4] [5, 6]),
        (demo_tensors [1, 9, 3, 8] [5, 2], demo_weights [1, 9, 3, 8] [5, 2])]) demo_sender (\<lambda>p. replicate 5 0)
     = Some (Inr (s', M'))
   \<and> shows_weights demo_slots {''a'', ''q''} (fst (last
       [(demo_tensors [1, 2, 3, 4] [5, 6], demo_weights [1, 2, 3, 4] [5, 6]),
        (demo_tensors [1, 9, 3, 8] [5, 2], demo_weights [1, 9, 3, 8] [5, 2])])) M'"
proof (rule delta_sync_tracks_trainer)
  show "\<forall>v\<in>set [(demo_tensors [1, 2, 3, 4] [5, 6], demo_weights [1, 2, 3, 4] [5, 6]),
        (demo_tensors [1, 9, 3, 8] [5, 2], demo_weights [1, 9, 3, 8] [5, 2])].
      trainer_version demo_sync {''a'', ''q''} (fst v) (snd v)"
    by (simp add: demo_version is_nan_def mantissa_bits_def mask_eq_exp_minus_1 take_bit_eq_mod)
  show "successively (next_version {''a'', ''q''}) [(demo_tensors [1, 2, 3, 4] [5, 6], demo_weights [1, 2, 3, 4] [5, 6]),
        (demo_tensors [1, 9, 3, 8] [5, 2], demo_weights [1, 9, 3, 8] [5, 2])]"
    by (simp add: next_version_def demo_weights_def same_shards_def demo_tensors_def)
  show "sized demo_slots (fst (hd [(demo_tensors [1, 2, 3, 4] [5, 6], demo_weights [1, 2, 3, 4] [5, 6]),
        (demo_tensors [1, 9, 3, 8] [5, 2], demo_weights [1, 9, 3, 8] [5, 2])])) (\<lambda>p. replicate 5 0)"
    by (simp add: sized_def slots_fit_def demo_slots_def demo_tensors_def)
qed (simp_all add: demo_layout demo_sync_def demo_sender_def byte_width_def)


text \<open>
  Two limits of the scheme. A weight that becomes NaN at the trainer is sent, but the masked copy keeps the old value
  in the rollout. A parameter that is exported for the first time after the seed (or with a shard of another size) is
  compared with uninitialised memory, so values that happen to be there are never sent.
\<close>

lemma nan_weight_not_synced:
  assumes "length self = length src" "i < length src" "is_nan dtype (src ! i)"
  shows "\<exists>new. masked_copy dtype self src = Inr new \<and> new ! i = self ! i"
  using assms by (auto simp: masked_copy_merged nth_merged)

lemma nan_weight_not_synced_witness:
  "\<exists>new. masked_copy ''bfloat16'' [5, 6] [0x7FC0, 7 :: 16 word] = Inr new \<and> new ! 0 = [5, 6] ! 0"
  by (rule nan_weight_not_synced) (simp_all add: is_nan_def mantissa_bits_def mask_eq_exp_minus_1 take_bit_eq_mod drop_bit_eq_div)

lemma late_parameter_not_synced:
  fixes w :: "'w::len word weight"
  assumes "sn r (w_name w) = None" "w_local w r = uninit cfg (length (w_local w r))" "byte_width TYPE('w)"
    and "derive_placement r (w_spec w) = Inr (off, c, pg)"
  shows "rank_delta cfg sn w r = Inr (off, pg, [], [])"
proof -
  have "snapshot_base cfg sn r w = w_local w r"
    using assms(1,2) by (simp add: snapshot_base_def)
  then show ?thesis
    using assms(3,4) by (simp add: rank_delta_def shard_delta_indices_def byte_width_def Let_def)
qed

lemma late_parameter_not_synced_witness:
  "rank_delta demo_sync (\<lambda>r n. None) (hd (demo_weights [77, 77, 3, 4] [5, 6])) 0 = Inr (0, Some (7, [0, 1]), [], [])"
  by (rule late_parameter_not_synced[where c = True])
    (simp_all add: demo_weights_def demo_sync_def byte_width_def demo_placement numeral_2_eq_2)

section \<open>Gathers and bounds\<close>

text \<open>
  C40: a batched gather hands rank 0 for every parameter of the batch exactly what a gather of this parameter alone
  would: the deltas of the ranks one after the other, or rank by rank when boundaries are kept, although the blobs of
  the whole batch are padded to a common length and cut by cumulative counts.
\<close>

theorem batched_gather_agrees:
  fixes grp :: "'w::len word group_entry list"
  assumes "0 < n" and "\<forall>g\<in>set grp. length (g_deltas g) = n \<and> (\<forall>d\<in>set (g_deltas g). length (fst d) = length (snd d))"
    and "i < length grp"
  shows "gather_v_batched_grouped (blobs_of grp n) ! i = gather_v_grouped (g_deltas (grp ! i))
     \<and> gather_v_batched (blobs_of grp n) ! i
        = (let ds = gather_v_grouped (g_deltas (grp ! i)) in (concat (map fst ds), concat (map snd ds)))"
proof -
  have "\<forall>g\<in>set grp. delta_wf n g" using assms(2) by (simp add: delta_wf_def)
  moreover have "gather_v_grouped (g_deltas (grp ! i)) = g_deltas (grp ! i)"
    by (rule gather_v_grouped_same) (use assms(2,3) nth_mem in blast)
  ultimately show ?thesis
    using assms(1,3) by (simp add: gather_v_batched_blobs gather_v_batched_grouped_blobs Let_def)
qed

definition demo_entry :: "(32 word list \<times> 16 word list) list \<Rightarrow> 16 word group_entry" where
  "demo_entry ds = \<lparr>g_name = ''a'', g_dtype = ''bfloat16'', g_shape = [4], g_pg = Some (7, [0, 1]), g_deltas = ds,
     g_to_hf = (\<lambda>_. []), g_numel = 4\<rparr>"

theorem batched_gather_agrees_witness:
  "gather_v_batched_grouped (blobs_of [demo_entry [([1], [9]), ([], [])], demo_entry [([0], [5]), ([2, 3], [8, 8])]] 2) ! 1
      = gather_v_grouped (g_deltas ([demo_entry [([1], [9]), ([], [])], demo_entry [([0], [5]), ([2, 3], [8, 8])]] ! 1))
   \<and> gather_v_batched (blobs_of [demo_entry [([1], [9]), ([], [])], demo_entry [([0], [5]), ([2, 3], [8, 8])]] 2) ! 1
      = (let ds = gather_v_grouped (g_deltas ([demo_entry [([1], [9]), ([], [])], demo_entry [([0], [5]), ([2, 3], [8, 8])]] ! 1))
         in (concat (map fst ds), concat (map snd ds)))"
  by (rule batched_gather_agrees) (auto simp: demo_entry_def)

lemma manifest_bounds:
  assumes "manifest po vo es = Inr ps" "p \<in> set ps" "list_all (\<lambda>e. length (e_idx e) = length (e_vals e)) es"
  shows "vo \<le> val_start p \<and> val_end p \<le> vo + length (concat (map e_vals es))
     \<and> po \<le> pos_start p \<and> pos_end p \<le> po + 4 * length (concat (map e_idx es))
     \<and> pos_end p - pos_start p = 4 * (val_end p - val_start p)
     \<and> (\<exists>e\<in>set es. val_end p = val_start p + length (e_idx e) \<and> p_name p = e_name e)"
  using assms
proof (induction po vo es arbitrary: ps rule: manifest.induct)
  case (1 po vo)
  then show ?case by simp
next
  case (2 po vo e es)
  define nnz where "nnz = length (e_idx e)"
  obtain qs where a: "py_assert (prodshape (e_shape e) < 2 ^ 31) = Inr ()" and qs: "manifest (po + nnz * 4) (vo + nnz) es = Inr qs"
      and ps: "ps = \<lparr>p_name = e_name e, p_dtype = e_dtype e, p_shape = e_shape e, pos_start = po, pos_end = po + nnz * 4,
         pos_width = 4, val_start = vo, val_end = vo + nnz\<rparr> # qs"
    using "2.prems"(1) by (auto simp: res_simps Let_def nnz_def)
  have len: "length (e_vals e) = nnz" using "2.prems"(3) by (simp add: nnz_def)
  show ?case
  proof (cases "p \<in> set qs")
    case True
    from "2.IH"[OF nnz_def a qs True] "2.prems"(3) show ?thesis
      by (auto simp: len nnz_def[symmetric])
  next
    case False
    then show ?thesis using "2.prems"(2) ps by (auto simp: len nnz_def)
  qed
qed

lemma stream_payloads:
  assumes "list_all2 (\<lambda>f es. assemble_flush H es = Inr f) fls ess"
    and "receive_weights (stream_of (\<lambda>f b. publish_flush f False b) False fls @ rest) = Some (ys, rest')"
    and "(y, b) \<in> set ys"
  shows "\<exists>es\<in>set ess. manifest 0 0 es = Inr (y_params y) \<and> y_values y = concat (map e_vals es)
     \<and> y_positions y = Some (view_uint8 (concat (map e_idx es)))"
proof -
  obtain zs where zs: "receive_weights (stream_of (\<lambda>f b. publish_flush f False b) False fls @ rest) = Some (zs, rest)"
      "list_all2 (\<lambda>y f. \<exists>b. y = (payload_of (publish_flush f False b), b)) zs fls"
    using receive_stream[of "\<lambda>f b. publish_flush f False b" False fls rest] by (auto simp: publish_flush_def)
  then obtain k where k: "k < length zs" "zs ! k = (y, b)"
    using assms(2,3) by (auto simp: in_set_conv_nth)
  then have y: "y = payload_of (publish_flush (fls ! k) False b)" and "k < length fls"
    using zs(2) by (auto simp: list_all2_conv_all_nth)
  then have "assemble_flush H (ess ! k) = Inr (fls ! k)" "ess ! k \<in> set ess"
    using assms(1) by (auto simp: list_all2_conv_all_nth)
  moreover from this obtain ps where "manifest 0 0 (ess ! k) = Inr ps"
      "fls ! k = \<lparr>f_params = ps, f_positions = view_uint8 (concat (map e_idx (ess ! k))), f_values = concat (map e_vals (ess ! k)),
         f_checksum = checksum H (view_uint8 (concat (map e_idx (ess ! k)))) (concat (map e_vals (ess ! k)))\<rparr>"
    by (auto simp: assemble_flush_def res_simps Let_def)
  ultimately show ?thesis
    by (intro bexI[of _ "ess ! k"]) (simp_all add: y payload_of_def publish_flush_def)
qed

lemma delta_pieces_known:
  fixes T :: "string \<Rightarrow> 'w::len word list"
  assumes bw: "byte_width TYPE('w)" and fol: "list_all2 (follows cfg (shard_snap s)) ws0 ws"
    and v0: "trainer_version cfg X T0 ws0" and v: "trainer_version cfg X T ws"
  shows "list_all (param_ok cfg (shard_snap s)) ws"
    "\<forall>e\<in>piece_set cfg (concat (map (param_entries cfg (shard_snap s)) ws)).
       length (e_idx e) = length (e_vals e) \<and> length (e_idx e) \<le> max_entry_elems cfg"
proof -
  have each: "param_ok cfg (shard_snap s) w \<and> (\<forall>e\<in>set (param_entries cfg (shard_snap s) w). exact_delta T0 T e)"
    if w: "w \<in> set ws" for w
  proof -
    obtain w0 where "w0 \<in> set ws0" "follows cfg (shard_snap s) w0 w"
      using fol w by (metis list_all2_conv_all_nth in_set_conv_nth)
    then show ?thesis
      using param_exact[of cfg "shard_snap s" w0 w T0 T] v0 v w bw unfolding trainer_version_def by blast
  qed
  then show "list_all (param_ok cfg (shard_snap s)) ws" by (simp add: list_all_iff)
  show "\<forall>e\<in>piece_set cfg (concat (map (param_entries cfg (shard_snap s)) ws)).
       length (e_idx e) = length (e_vals e) \<and> length (e_idx e) \<le> max_entry_elems cfg"
  proof
    fix p assume "p \<in> piece_set cfg (concat (map (param_entries cfg (shard_snap s)) ws))"
    then obtain w e where "w \<in> set ws" "e \<in> set (param_entries cfg (shard_snap s) w)" and p: "p \<in> set (pieces (max_entry_elems cfg) e)"
      by (auto simp: piece_set_def)
    then have "length (e_idx e) = length (e_vals e)" using each by (auto simp: exact_delta_def)
    then show "length (e_idx p) = length (e_vals p) \<and> length (e_idx p) \<le> max_entry_elems cfg"
      using piece_same(4,5)[OF p] by blast
  qed
qed

text \<open>
  C39: the stream of a sparse sync is bounded and ends. A receiver takes exactly its messages and leaves what follows;
  every manifest entry it gets addresses at most the cap of elements, lies within the two buffers of its flush and
  has four bytes of positions, aligned to four, for each of its values.
\<close>

theorem delta_stream_bounded:
  fixes T :: "string \<Rightarrow> 'w::len word list"
  assumes "byte_width TYPE('w)" and "list_all2 (follows cfg (shard_snap s)) ws0 ws"
    and "trainer_version cfg X T0 ws0" and "trainer_version cfg X T ws" and "shard_seeded s"
  shows "\<exists>s' msgs mets ys. send_weights cfg ws s = Inr (s', msgs, mets) \<and> receive_weights (msgs @ rest) = Some (ys, rest)
     \<and> (\<forall>(y, is_last)\<in>set ys. \<forall>p\<in>set (y_params y). val_end p - val_start p \<le> max_entry_elems cfg
          \<and> val_end p \<le> length (y_values y)
          \<and> (case y_positions y of None \<Rightarrow> False | Some bs \<Rightarrow> pos_end p \<le> length bs)
          \<and> pos_end p - pos_start p = 4 * (val_end p - val_start p))"
proof -
  note known = delta_pieces_known[OF assms(1-4)]
  have "distinct (map w_name ws)" using assms(4) by (simp add: trainer_version_def)
  from send_delta_stream[OF known(1) this] obtain fls ess mets where st:
      "send_delta cfg ws s = Inr (\<lparr>shard_snap = fold (take_snapshots (world cfg)) ws (shard_snap s), shard_seeded = True\<rparr>,
          stream_of (\<lambda>f b. publish_flush f False b) False fls, mets)"
      "list_all2 (\<lambda>f es. assemble_flush (torch_hash cfg) es = Inr f) fls ess"
      "set (concat ess) = piece_set cfg (concat (map (param_entries cfg (shard_snap s)) ws))" by blast
  obtain ys where ys: "receive_weights (stream_of (\<lambda>f b. publish_flush f False b) False fls @ rest) = Some (ys, rest)"
    using receive_stream[of "\<lambda>f b. publish_flush f False b" False fls rest] by (auto simp: publish_flush_def)
  have "val_end p - val_start p \<le> max_entry_elems cfg \<and> val_end p \<le> length (y_values y)
      \<and> (case y_positions y of None \<Rightarrow> False | Some bs \<Rightarrow> pos_end p \<le> length bs)
      \<and> pos_end p - pos_start p = 4 * (val_end p - val_start p)"
    if y: "(y, b) \<in> set ys" and p: "p \<in> set (y_params y)" for y b p
  proof -
    obtain es where es: "es \<in> set ess" "manifest 0 0 es = Inr (y_params y)" "y_values y = concat (map e_vals es)"
        "y_positions y = Some (view_uint8 (concat (map e_idx es)))"
      using stream_payloads[OF st(2) ys y] by blast
    have "\<forall>e\<in>set es. length (e_idx e) = length (e_vals e) \<and> length (e_idx e) \<le> max_entry_elems cfg"
      using known(2) es(1) unfolding st(3)[symmetric] set_concat by blast
    then show ?thesis
      using manifest_bounds[OF es(2) p] es(3,4) by (auto simp: list_all_iff length_view_uint8)
  qed
  then show ?thesis
    using st(1) ys assms(5) by (auto simp: send_weights_def)
qed

theorem delta_stream_bounded_witness:
  "\<exists>s' msgs mets ys. send_weights demo_sync (demo_weights [1, 9, 3, 8] [5, 2])
       \<lparr>shard_snap = (\<lambda>r n. if n = ''a'' then Some (w_local (hd (demo_weights [1, 2, 3, 4] [5, 6])) r)
          else Some (w_local (last (demo_weights [1, 2, 3, 4] [5, 6])) r)), shard_seeded = True\<rparr> = Inr (s', msgs, mets)
     \<and> receive_weights (msgs @ []) = Some (ys, [])
     \<and> (\<forall>(y, is_last)\<in>set ys. \<forall>p\<in>set (y_params y). val_end p - val_start p \<le> max_entry_elems demo_sync
          \<and> val_end p \<le> length (y_values y)
          \<and> (case y_positions y of None \<Rightarrow> False | Some bs \<Rightarrow> pos_end p \<le> length bs)
          \<and> pos_end p - pos_start p = 4 * (val_end p - val_start p))"
  by (rule delta_stream_bounded[of demo_sync _ "demo_weights [1, 2, 3, 4] [5, 6]" "demo_weights [1, 9, 3, 8] [5, 2]" "{''a'', ''q''}"
        "demo_tensors [1, 2, 3, 4] [5, 6]" "demo_tensors [1, 9, 3, 8] [5, 2]" "[]"])
    (simp_all add: demo_version is_nan_def mantissa_bits_def mask_eq_exp_minus_1 take_bit_eq_mod byte_width_def,
     simp_all add: demo_weights_def follows_def same_shards_def)

end
