(* ===== verification/Spec2Isabelle.thy ===== *)
theory Spec2Isabelle
  imports Karmarkar_Karp Micro_Batching Replay_Buffer Message_Queue Load_Balancer Tool_Agent
    Parameter_Policy Reward_Limiter Data_Proto Data_Typing Worker_Dispatch Masked_Tensor Advantage Policy_Loss
    Rollout_Correction Rollouter Replica_Manager Checkpointing Sequence_Layout Trainer_Batch Fused_Head Delta_Sync
begin

text \<open>
  A verification library for the core logic of verl, the reinforcement-learning trainer for language models under
  \<open>src/verl/verl\<close>. Paths below are relative to that directory.

  The program. A training job is one controller process and groups of workers. Prompts are fed to a rollouter that
  generates responses on a pool of inference servers, a load balancer choosing the server of each request. An agent loop
  turns a prompt into a conversation with tool calls, a reward manager scores it, and the result waits in a message queue
  or a replay buffer. The trainer takes a batch of finished prompts, balances it over the data-parallel ranks, dispatches
  it to the workers, computes advantages, corrects the mismatch between rollout and training policy, and minimises a
  policy loss over micro-batches of even cost. A parameter update policy may restrict what the optimizer sees. After a
  step the weights are pushed back to the servers, sparsely when only few entries changed, and a checkpoint is written
  from which a later run resumes.

  Theories and code.

  \<^item> \<open>Prelude\<close>: Python exceptions as values (\<open>py_error\<close>, \<open>'a result\<close>, \<open>res_bind\<close>, \<open>res_map\<close>, \<open>res_fold\<close>), dictionaries in
    insertion order, Python slices, lemmas on sums, permutations and association lists, the collection \<open>res_simps\<close>.
  \<^item> \<open>Karmarkar_Karp\<close>: \<open>karmarkar_karp\<close>, \<open>greedy_partition\<close> and \<open>get_seqlen_balanced_partitions\<close> of \<open>utils/seqlen_balancing.py\<close>. The
    classes \<open>Set\<close> and \<open>State\<close> are records; the heap is a list whose pop returns a minimal element.
  \<^item> \<open>Micro_Batching\<close>: the workload estimate, \<open>rearrange_micro_batches\<close>, its inverse and \<open>get_group_balanced_partitions\<close> of the same
    file, on the partitions of the previous theory.
  \<^item> \<open>Replay_Buffer\<close>: \<open>ReplayBuffer\<close> of \<open>trainer/ppo/v1/replay_buffer.py\<close>; polling is a list of snapshots of the store, what is
    cleared from the store is a list of events.
  \<^item> \<open>Message_Queue\<close>: \<open>MessageQueue\<close> of \<open>experimental/fully_async_policy/message_queue.py\<close> with its condition variable, as
    steps of an event loop.
  \<^item> \<open>Load_Balancer\<close>: \<open>GlobalRequestLoadBalancer\<close> and the two clients of \<open>workers/rollout/llm_server.py\<close>.
  \<^item> \<open>Tool_Agent\<close>: the state machine of \<open>experimental/agent_loop/tool_agent_loop.py\<close> and the schema coercion it uses.
  \<^item> \<open>Parameter_Policy\<close>: the four policies, audit, dispatch and validation of \<open>utils/parameter_update_policy.py\<close>.
  \<^item> \<open>Reward_Limiter\<close>: the token bucket and limiters of \<open>experimental/reward_loop/reward_manager/limited.py\<close>.
  \<^item> \<open>Data_Proto\<close>: \<open>DataProto\<close> of \<open>protocol.py\<close>; \<open>Data_Typing\<close>: the typing of its objects and of programs over them.
  \<^item> \<open>Worker_Dispatch\<close>: dispatch and collection of \<open>single_controller/base/decorator.py\<close>, on \<open>Data_Proto\<close>.
  \<^item> \<open>Masked_Tensor\<close>, \<open>Advantage\<close>, \<open>Policy_Loss\<close>, \<open>Rollout_Correction\<close>: the masked reductions of
    \<open>utils/torch_functional.py\<close>, the estimators and losses of \<open>trainer/ppo/core_algos.py\<close> and
    \<open>trainer/ppo/rollout_corr_helper.py\<close>. Each theory calls the ones before it as the code does.
  \<^item> \<open>Rollouter\<close> and \<open>Replica_Manager\<close>: feed, processor, tasks and monitor of
    \<open>experimental/fully_async_policy/fully_async_rollouter.py\<close>, and the hybrid replicas of its server manager, which act on the
    state of \<open>Load_Balancer\<close>.
  \<^item> \<open>Checkpointing\<close>: retention, the order of disk operations, tracker file, resumption and counters of
    \<open>utils/checkpoint/checkpoint_manager.py\<close> and \<open>trainer/ppo/ray_trainer.py\<close>.
  \<^item> \<open>Sequence_Layout\<close>: padding of agent outputs and the conversions between padded, flat and nested sequences of
    \<open>workers/utils/padding.py\<close> and its neighbours.
  \<^item> \<open>Trainer_Batch\<close>: feeding, re-issue, padding, balancing, \<open>fit\<close> and metrics of \<open>trainer/ppo/v1/trainer_base.py\<close>,
    \<open>trainer/ppo/v1/utils.py\<close> and \<open>trainer/ppo/padding_utils.py\<close>, on the replay buffer, the partitioner and the advantages.
  \<^item> \<open>Fused_Head\<close>: the Triton kernels of \<open>utils/kernel/kernels.py\<close>, the chunked head of \<open>utils/experimental/torch_functional.py\<close>
    and the sharded entropies of \<open>utils/megatron/tensor_parallel.py\<close>.
  \<^item> \<open>Delta_Wire\<close> and \<open>Delta_Sync\<close>: the sparse weight synchronisation of \<open>checkpoint_engine/delta_sync\<close>,
    \<open>checkpoint_engine/delta_checkpoint_engine.py\<close>, \<open>workers/rollout/sglang_rollout/delta_loader.py\<close> and
    \<open>workers/engine/spec.py\<close>; the second sends with the definitions of the first.

  Conventions. A class is a record of its attributes; a method is a function that returns the updated record; a Python
  exception is an \<open>Inl\<close> value; an early return is a branch. Code that awaits (queue, rollouter, reset of the buckets) is a
  step relation or a run over an explicit sequence of events, and its properties hold for every interleaving. Tensors are
  lists (rows of lists) of exact reals, so rounding and NaN are outside the numeric theories; metrics and the clock of the
  reward limiter are rationals; minus infinity in \<open>Fused_Head\<close> is \<open>None\<close>. Values of \<open>Delta_Wire\<close> and \<open>Delta_Sync\<close> are bit
  patterns, since there the code compares bits. Integers of Python are \<open>int\<close> or, where the code has them non-negative, \<open>nat\<close>.
  A save of a checkpoint is a list of disk operations; a crash is a prefix of it. Shapes and dtypes of tensors are
  represented where the code branches on them.

  Interfaces. \<open>merge_queue\<close> states what the Karmarkar-Karp loop needs of its queue and is interpreted on the model of
  \<open>heapq\<close>. \<open>moe_policy\<close> states what the audit needs of an architecture and is interpreted on the four policies of the
  code. \<open>flush_channel\<close> states what receiving needs of a flush and is interpreted on sparse and on dense flushes.

  Parameters. What is not under \<open>src/\<close> is an argument of the definitions that use it, with documented behaviour as named
  hypotheses of the properties that need it, and instantiated in their witnesses: the collectives (\<open>all_reduce_max\<close>, \<open>all_mean\<close>), the
  cache of the load balancer (\<open>lru_laws\<close>), the iteration order of sets, \<open>hash\<close>, the inference server and the tools
  (\<open>agent_env\<close>, \<open>tool_env\<close>), equality of tensors (\<open>tequal\<close>), the worker methods of a dispatched call, \<open>torch.topk\<close>,
  \<open>torch.randperm\<close>, the scoring function, the outcome of remote calls, the state of the data loader, the padding of the
  tokenizer (\<open>pads_as_documented\<close>), the store's get and put, the content of uninitialised memory, \<open>torch.hash_tensor\<close>, the device
  meshes, the converters to the names of the serving engine and the layout of its parameters (\<open>layout_ok\<close>).

  What the lemmas show.

  \<^item> Partitioning: partitions are exact, non-empty and sorted, with loads within the largest value of each other;
    micro-batches are a permutation of the batch that \<open>restore_dynamic_batch\<close> undoes.
  \<^item> Flow of prompts and samples: capacity, order and conservation in queue, buffer and rollouter, in the rollouter of each
    single sample; no lost wakeup; pauses end; re-issue after a resume dispatches each pending prompt once; in-flight counts and replica lists stay
    consistent (for removals that name no replica twice).
  \<^item> Agent: the output is the conversation turn by turn, masked 1 on what was generated and 0 on tool replies, and the
    state machine ends. The loop of the agent has fuel: with a
    positive limit of n assistant turns, 2n steps are enough, which is a theorem.
  \<^item> Limits: the tokens granted by a bucket in a window are bounded for every interleaving of requests.
  \<^item> Batches: every row operation of \<open>DataProto\<close> selects rows by position; programs over the class keep its objects
    rectangular; padding and dispatch are undone by unpadding and collection. The padding and chunk loops end by measures.
  \<^item> Numbers: advantages equal their textbook form, losses do not depend on the split over ranks and micro-batches, the
    rejection mask and the importance weights are characterised exactly with the inputs that raise, the mask against a
    definition of its own of what the requested options and thresholds accept.
  \<^item> Output head: blocked, sharded and chunked routes compute the log probabilities, entropies and derivatives of the plain
    head, when \<open>BLOCK_SIZE_K\<close> divides the hidden size as the tuned 32 does: the kernels follow their pointers into \<open>hidden\<close>, which
    are not back at the start of the row otherwise. The gradients are proved as derivatives in the sense of \<open>has_real_derivative\<close>.
  \<^item> Persistence: without a limit of 1, any crash of a save leaves a checkpoint to resume from (unless the
    tracker file is empty), and resumption finds the last complete one.
  \<^item> Weights: a rollout that follows the stream of flushes holds the weights of the trainer after every sync.

  Not modelled. The training engines (FSDP, Megatron and others), rollout servers, dense checkpoint engines, sequence
  parallel attention, quantisation and router capture are adapters of frameworks that are not under \<open>src/\<close>: their effect is
  that of those frameworks. The separated and legacy trainers are sequences of remote calls around the components above.
  Reward functions, tool parsers, datasets, tokenizers and the merger of checkpoints are regular expressions, file formats
  and wrappers of other packages. Configuration, logging, profiling and device code only passes values on. Within
  the components: gradients of the policy losses, floating-point rounding, the continuous-token branch and the
  multi-modal inputs of the agent, serialization and iterators of \<open>DataProto\<close>, futures of the single controller, tasks of the
  rollouter that raise, the content of checkpoint files, the TMA path of the kernels, several dtypes in one weight stream.
\<close>

end
